(* ===== verification/N8n_Prelude.thy ===== *)
theory N8n_Prelude
  imports Main "HOL-Library.AList"
begin

text \<open>
  Shared vocabulary of the development: results that may be errors, loops over lists
  that stop at the first error, and the JavaScript containers the program uses.

  \<^item> A function that may throw returns a sum: \<open>Inl\<close> is the error, \<open>Inr\<close> the
    value. \<open>bindE\<close> sequences two such steps and \<open>foldE\<close> is a
    \<^verbatim>\<open>for ... of\<close> loop whose body may throw.
  \<^item> A plain object or a \<^verbatim>\<open>Map\<close> is an association list in insertion order:
    writing an existing key keeps its place, a new key goes last, as in JavaScript (object
    keys that look like array indices, which JavaScript would list first, are not
    treated specially).
  \<^item> A \<^verbatim>\<open>Set\<close> is a list without duplicates in insertion order.
  \<^item> \<^verbatim>\<open>Array.prototype.sort\<close> is a stable insertion sort that consults the
    comparator only through the sign of its result.
\<close>

named_theorems js_defs \<open>definitions of the JavaScript containers, for unfolding\<close>

section \<open>Results and loops that may throw\<close>

fun bindE :: "'e + 'a \<Rightarrow> ('a \<Rightarrow> 'e + 'b) \<Rightarrow> 'e + 'b" where
  "bindE (Inl e) f = Inl e"
| "bindE (Inr x) f = f x"

fun foldE :: "('a \<Rightarrow> 's \<Rightarrow> 'e + 's) \<Rightarrow> 'a list \<Rightarrow> 's \<Rightarrow> 'e + 's" where
  "foldE f [] s = Inr s"
| "foldE f (x # xs) s = bindE (f x s) (foldE f xs)"

fun mapE :: "('a \<Rightarrow> 'e + 'b) \<Rightarrow> 'a list \<Rightarrow> 'e + 'b list" where
  "mapE f [] = Inr []"
| "mapE f (x # xs) = bindE (f x) (\<lambda>y. bindE (mapE f xs) (\<lambda>ys. Inr (y # ys)))"

definition guardE :: "bool \<Rightarrow> 'e \<Rightarrow> 'e + unit" where
  "guardE b e = (if b then Inr () else Inl e)"

lemma bindE_cong [fundef_cong]:
  "m = m' \<Longrightarrow> (\<And>x. m' = Inr x \<Longrightarrow> f x = g x) \<Longrightarrow> bindE m f = bindE m' g"
  by (cases m') auto

lemma bindE_Inr_iff: "bindE m f = Inr y \<longleftrightarrow> (\<exists>x. m = Inr x \<and> f x = Inr y)"
  by (cases m) auto

lemma bindE_Inl_iff: "bindE m f = Inl e \<longleftrightarrow> m = Inl e \<or> (\<exists>x. m = Inr x \<and> f x = Inl e)"
  by (cases m) auto

lemma guardE_Inr_iff [simp]: "guardE b e = Inr u \<longleftrightarrow> b"
  by (simp add: guardE_def)

lemma guardE_True [simp]: "guardE True e = Inr ()"
  by (simp add: guardE_def)

lemma guardE_False [simp]: "guardE False e = Inl e"
  by (simp add: guardE_def)

lemma foldE_cong [fundef_cong]:
  "xs = ys \<Longrightarrow> s = t \<Longrightarrow> (\<And>x u. x \<in> set ys \<Longrightarrow> f x u = g x u) \<Longrightarrow> foldE f xs s = foldE g ys t"
proof (induction xs arbitrary: ys s t)
  case (Cons x xs)
  have "foldE f xs u = foldE g xs u" for u
    by (rule Cons.IH) (use Cons.prems in auto)
  then have "foldE f xs = foldE g xs" by (rule ext)
  with Cons.prems show ?case by auto
qed simp

lemma foldE_append: "foldE f (xs @ ys) s = bindE (foldE f xs s) (foldE f ys)"
proof (induction xs arbitrary: s)
  case (Cons x xs)
  then show ?case by (cases "f x s") auto
qed simp

lemma foldE_map: "foldE f (map h xs) s = foldE (\<lambda>x. f (h x)) xs s"
proof (induction xs arbitrary: s)
  case (Cons x xs)
  then show ?case by (cases "f (h x) s") auto
qed simp

text \<open>
  The rule for a loop: an invariant \<open>P\<close> of the state and the elements already
  processed, kept by a body that does not throw, holds of the value of the whole loop.
\<close>

lemma foldE_rule:
  assumes "P [] s"
    and "\<And>ds x rest s. xs = ds @ x # rest \<Longrightarrow> P ds s \<Longrightarrow> \<exists>s'. f x s = Inr s' \<and> P (ds @ [x]) s'"
  shows "\<exists>s'. foldE f xs s = Inr s' \<and> P xs s'"
  using assms
proof (induction xs arbitrary: s P)
  case (Cons x xs)
  from Cons.prems(2) [of "[]"] Cons.prems(1) obtain s1
    where s1: "f x s = Inr s1" "P [x] s1" by auto
  have "\<exists>s'. foldE f xs s1 = Inr s' \<and> P (x # xs) s'"
    by (rule Cons.IH [where P = "\<lambda>d. P (x # d)"])
      (use s1 Cons.prems(2) [where ds = "x # _"] in auto)
  with s1 show ?case by simp
qed simp

text \<open>The same for a loop whose body may throw: what holds if the loop returns.\<close>

lemma foldE_partial:
  assumes "foldE f xs s = Inr t" "P s"
    and "\<And>x s s'. x \<in> set xs \<Longrightarrow> P s \<Longrightarrow> f x s = Inr s' \<Longrightarrow> P s'"
  shows "P t"
  using assms
proof (induction xs arbitrary: s)
  case (Cons x xs)
  from Cons.prems(1) obtain s1 where s1: "f x s = Inr s1" "foldE f xs s1 = Inr t"
    by (auto simp: bindE_Inr_iff)
  show ?case
    by (rule Cons.IH [OF s1(2)]) (use Cons.prems s1 in auto)
qed simp

lemma foldE_Inr: "(\<And>x s. x \<in> set xs \<Longrightarrow> f x s = Inr (g x s)) \<Longrightarrow> foldE f xs s = Inr (fold g xs s)"
  by (induction xs arbitrary: s) auto

lemma mapE_Inr: "(\<And>x. x \<in> set xs \<Longrightarrow> f x = Inr (g x)) \<Longrightarrow> mapE f xs = Inr (map g xs)"
  by (induction xs) auto

lemma mapE_Inr_length: "mapE f xs = Inr ys \<Longrightarrow> length ys = length xs"
  by (induction xs arbitrary: ys) (auto simp: bindE_Inr_iff)

lemma bindE_assoc: "bindE (bindE m f) g = bindE m (\<lambda>x. bindE (f x) g)"
  by (cases m) auto

text \<open>The elements a step may return; none if it throws.\<close>

fun ok_set :: "'e + 'a list \<Rightarrow> 'a set" where
  "ok_set (Inl e) = {}"
| "ok_set (Inr xs) = set xs"

text \<open>
  The interface of a recursive search that marks what it has met: a call goes through the
  successors of its argument in order, skips the marked ones, and otherwise marks the
  successor and recurses into it with one unit of fuel less.
\<close>

locale marking_search =
  fixes rec :: "'g \<Rightarrow> nat \<Rightarrow> 'x \<Rightarrow> 'i list \<Rightarrow> 'e + 'i list"
    and nxt :: "'g \<Rightarrow> 'x \<Rightarrow> 'e + 'i list"
    and tgt :: "'i \<Rightarrow> 'x"
  assumes rec_Suc: "rec g (Suc f) x M = bindE (nxt g x)
      (\<lambda>ss. foldE (\<lambda>i M'. if i \<in> set M' then Inr M' else rec g f (tgt i) (M' @ [i])) ss M)"
begin

lemma search_returns:
  assumes good: "\<And>x. x \<in> G \<Longrightarrow> \<exists>ss. nxt g x = Inr ss \<and> set ss \<subseteq> U \<and> tgt ` set ss \<subseteq> G"
    and "finite U" "x \<in> G" "card (U - set M) < f"
  defines "E \<equiv> {(i, j). j \<in> ok_set (nxt g (tgt i))}"
  shows "\<exists>N. rec g f x M = Inr (M @ N) \<and> set N \<subseteq> U \<and> (distinct M \<longrightarrow> distinct (M @ N)) \<and>
     ok_set (nxt g x) \<subseteq> set (M @ N) \<and>
     (\<forall>i \<in> set N. ok_set (nxt g (tgt i)) \<subseteq> set (M @ N)) \<and>
     (\<forall>j \<in> set N. \<exists>i \<in> ok_set (nxt g x). (i, j) \<in> E\<^sup>*)"
  using assms(3,4)
proof (induction f arbitrary: x M)
  case 0
  then show ?case by simp
next
  case (Suc f)
  obtain ss where ss: "nxt g x = Inr ss" "set ss \<subseteq> U" "tgt ` set ss \<subseteq> G"
    using good [OF Suc.prems(1)] by auto
  let ?f = "\<lambda>i M'. if i \<in> set M' then Inr M' else rec g f (tgt i) (M' @ [i])"
  let ?P = "\<lambda>ds M'. \<exists>N. M' = M @ N \<and> set N \<subseteq> U \<and> (distinct M \<longrightarrow> distinct M') \<and> set ds \<subseteq> set M' \<and>
     (\<forall>i \<in> set N. ok_set (nxt g (tgt i)) \<subseteq> set M') \<and>
     (\<forall>j \<in> set N. \<exists>i \<in> set ss. (i, j) \<in> E\<^sup>*)"
  have "\<exists>s'. foldE ?f ss M = Inr s' \<and> ?P ss s'"
  proof (rule foldE_rule [where P = ?P])
    show "?P [] M" by simp
  next
    fix ds i rest M'
    assume split: "ss = ds @ i # rest" and "?P ds M'"
    then obtain N where N: "M' = M @ N" "set N \<subseteq> U" "distinct M \<longrightarrow> distinct M'" "set ds \<subseteq> set M'"
      "\<forall>i \<in> set N. ok_set (nxt g (tgt i)) \<subseteq> set M'" "\<forall>j \<in> set N. \<exists>i \<in> set ss. (i, j) \<in> E\<^sup>*"
      by blast
    have i: "i \<in> set ss" "i \<in> U" "tgt i \<in> G" using split ss by auto
    show "\<exists>s'. ?f i M' = Inr s' \<and> ?P (ds @ [i]) s'"
    proof (cases "i \<in> set M'")
      case True
      then show ?thesis using N by auto
    next
      case False
      have "U - set (M' @ [i]) \<subset> U - set M" using False i N(1) by auto
      then have "card (U - set (M' @ [i])) < card (U - set M)"
        using \<open>finite U\<close> by (intro psubset_card_mono) auto
      with Suc.prems(2) have "card (U - set (M' @ [i])) < f" by simp
      from Suc.IH [OF i(3) this] obtain N' where N':
        "rec g f (tgt i) (M' @ [i]) = Inr ((M' @ [i]) @ N')" "set N' \<subseteq> U"
        "distinct (M' @ [i]) \<longrightarrow> distinct ((M' @ [i]) @ N')"
        "ok_set (nxt g (tgt i)) \<subseteq> set ((M' @ [i]) @ N')"
        "\<forall>k \<in> set N'. ok_set (nxt g (tgt k)) \<subseteq> set ((M' @ [i]) @ N')"
        "\<forall>j \<in> set N'. \<exists>k \<in> ok_set (nxt g (tgt i)). (k, j) \<in> E\<^sup>*"
        by blast
      have reach: "(i, j) \<in> E\<^sup>*" if "j \<in> set N'" for j
      proof -
        from N'(6) that obtain k where k: "k \<in> ok_set (nxt g (tgt i))" "(k, j) \<in> E\<^sup>*" by blast
        from k(1) have "(i, k) \<in> E" by (simp add: E_def)
        with k(2) show ?thesis by (rule converse_rtrancl_into_rtrancl [rotated])
      qed
      have "?P (ds @ [i]) ((M' @ [i]) @ N')"
      proof (intro exI [of _ "N @ [i] @ N'"] conjI)
        show "\<forall>k \<in> set (N @ [i] @ N'). ok_set (nxt g (tgt k)) \<subseteq> set ((M' @ [i]) @ N')"
          using N(5) N'(4,5) by fastforce
        show "\<forall>j \<in> set (N @ [i] @ N'). \<exists>k \<in> set ss. (k, j) \<in> E\<^sup>*"
          using N(6) reach i(1) by auto
        show "distinct M \<longrightarrow> distinct ((M' @ [i]) @ N')"
          using N(3) N'(3) False by auto
      qed (use N N' i in auto)
      then show ?thesis using N'(1) False by auto
    qed
  qed
  then show ?case unfolding rec_Suc ss(1) bindE.simps ok_set.simps by (elim exE conjE) (intro exI conjI; simp)
qed

text \<open>From nothing marked, the search returns exactly what can be reached.\<close>

lemma search_reachable:
  assumes "\<And>x. x \<in> G \<Longrightarrow> \<exists>ss. nxt g x = Inr ss \<and> set ss \<subseteq> U \<and> tgt ` set ss \<subseteq> G"
    and "finite U" "x \<in> G" "card U < f"
  shows "\<exists>N. rec g f x [] = Inr N \<and> distinct N \<and>
     set N = {j. \<exists>i \<in> ok_set (nxt g x). (i, j) \<in> {(i, j). j \<in> ok_set (nxt g (tgt i))}\<^sup>*}"
proof -
  have "card (U - set []) < f" using assms(4) by simp
  from search_returns [OF assms(1-3) this] obtain N where N:
    "rec g f x [] = Inr N" "distinct N" "ok_set (nxt g x) \<subseteq> set N"
    "\<forall>i \<in> set N. ok_set (nxt g (tgt i)) \<subseteq> set N"
    "\<forall>j \<in> set N. \<exists>i \<in> ok_set (nxt g x). (i, j) \<in> {(i, j). j \<in> ok_set (nxt g (tgt i))}\<^sup>*"
    by auto
  have "j \<in> set N" if "i \<in> set N" "(i, j) \<in> {(i, j). j \<in> ok_set (nxt g (tgt i))}\<^sup>*" for i j
    using that(2,1) by (induction) (use N(4) in auto)
  with N show ?thesis by blast
qed

end

section \<open>Objects and maps\<close>

type_synonym ('k, 'v) obj = "('k \<times> 'v) list"

abbreviation obj_get :: "('k, 'v) obj \<Rightarrow> 'k \<Rightarrow> 'v option" where
  "obj_get m k \<equiv> map_of m k"

definition obj_has :: "('k, 'v) obj \<Rightarrow> 'k \<Rightarrow> bool" where
  "obj_has m k \<longleftrightarrow> map_of m k \<noteq> None"

definition obj_set :: "'k \<Rightarrow> 'v \<Rightarrow> ('k, 'v) obj \<Rightarrow> ('k, 'v) obj" where
  "obj_set k v m = AList.update k v m"

definition obj_delete :: "'k \<Rightarrow> ('k, 'v) obj \<Rightarrow> ('k, 'v) obj" where
  "obj_delete k m = filter (\<lambda>p. fst p \<noteq> k) m"

abbreviation obj_keys :: "('k, 'v) obj \<Rightarrow> 'k list" where
  "obj_keys m \<equiv> map fst m"

abbreviation obj_values :: "('k, 'v) obj \<Rightarrow> 'v list" where
  "obj_values m \<equiv> map snd m"

definition obj_wf :: "('k, 'v) obj \<Rightarrow> bool" where
  "obj_wf m \<longleftrightarrow> distinct (map fst m)"

declare obj_has_def [js_defs] obj_set_def [js_defs] obj_delete_def [js_defs] obj_wf_def [js_defs]

lemma obj_get_key: "map_of m k = Some v \<Longrightarrow> k \<in> fst ` set m"
  by (metis domI dom_map_of_conv_image_fst)

lemma obj_set_Nil [simp]: "obj_set k v [] = [(k, v)]"
  by (simp add: obj_set_def)

lemma obj_set_Cons [simp]:
  "obj_set k v (p # m) = (if fst p = k then (k, v) # m else p # obj_set k v m)"
  by (cases p) (simp add: obj_set_def)

lemma obj_get_set: "map_of (obj_set k v m) = (map_of m)(k \<mapsto> v)"
  by (simp add: obj_set_def update_conv')

lemma obj_get_delete: "map_of (obj_delete k m) = (map_of m)(k := None)"
  by (induction m) (auto simp: obj_delete_def)

lemma obj_get_delete_apply [simp]:
  "map_of (obj_delete k m) k' = (if k' = k then None else map_of m k')"
  by (simp add: obj_get_delete)

lemma obj_get_set_apply [simp]:
  "map_of (obj_set k v m) k' = (if k' = k then Some v else map_of m k')"
  by (simp add: obj_get_set)

lemma obj_wf_Nil [simp]: "obj_wf []"
  by (simp add: obj_wf_def)

lemma set_obj_set: "distinct (obj_keys m) \<Longrightarrow> set (obj_set k v m) = insert (k, v) {p \<in> set m. fst p \<noteq> k}"
  by (induction m) (auto simp: image_iff)

lemma obj_wf_set [simp]: "obj_wf m \<Longrightarrow> obj_wf (obj_set k v m)"
  by (simp add: obj_wf_def obj_set_def distinct_update)

lemma obj_wf_delete [simp]: "obj_wf m \<Longrightarrow> obj_wf (obj_delete k m)"
  by (simp add: obj_wf_def obj_delete_def distinct_map_filter)

lemma obj_keys_set: "set (map fst (obj_set k v m)) = insert k (set (map fst m))"
  by (induction m) auto

lemma obj_set_in: "(k', v') \<in> set (obj_set k v m) \<Longrightarrow> (k' = k \<and> v' = v) \<or> (k', v') \<in> set m"
  by (induction m) (auto split: if_splits)

lemma obj_delete_in: "(k', v') \<in> set (obj_delete k m) \<longleftrightarrow> k' \<noteq> k \<and> (k', v') \<in> set m"
  by (auto simp: obj_delete_def)

lemma obj_has_iff: "obj_has m k \<longleftrightarrow> k \<in> set (map fst m)"
  by (auto simp: obj_has_def map_of_eq_None_iff)

lemma obj_wf_in: "obj_wf m \<Longrightarrow> (k, v) \<in> set m \<longleftrightarrow> map_of m k = Some v"
  by (auto simp: obj_wf_def dest: map_of_SomeD)

lemma obj_wf_map_snd_in: "obj_wf m \<Longrightarrow> v \<in> set (map snd m) \<longleftrightarrow> (\<exists>k. map_of m k = Some v)"
  by (force simp: obj_wf_in [symmetric])

text \<open>The interface the components use of objects and maps, as a locale.\<close>

locale js_object =
  fixes empty :: "'m"
    and get :: "'m \<Rightarrow> 'k \<Rightarrow> 'v option"
    and put :: "'k \<Rightarrow> 'v \<Rightarrow> 'm \<Rightarrow> 'm"
    and del :: "'k \<Rightarrow> 'm \<Rightarrow> 'm"
    and keys :: "'m \<Rightarrow> 'k list"
    and ok :: "'m \<Rightarrow> bool"
  assumes ok_empty: "ok empty"
    and ok_put: "ok m \<Longrightarrow> ok (put k v m)"
    and ok_del: "ok m \<Longrightarrow> ok (del k m)"
    and get_empty: "get empty k = None"
    and get_put: "get (put k v m) k' = (if k' = k then Some v else get m k')"
    and get_del: "ok m \<Longrightarrow> get (del k m) k' = (if k' = k then None else get m k')"
    and keys_put: "set (keys (put k v m)) = insert k (set (keys m))"
    and keys_get: "k \<in> set (keys m) \<longleftrightarrow> get m k \<noteq> None"
    and keys_ok: "ok m \<Longrightarrow> distinct (keys m)"
begin

lemma put_many_get:
  "get (fold (\<lambda>x. put (f x) (g x)) xs m) k =
     (case find (\<lambda>x. f x = k) (rev xs) of Some x \<Rightarrow> Some (g x) | None \<Rightarrow> get m k)"
proof (induction xs rule: rev_induct)
  case (snoc x xs)
  then show ?case by (simp add: get_put)
qed simp

lemma put_many_ok: "ok m \<Longrightarrow> ok (fold (\<lambda>x. put (f x) (g x)) xs m)"
  by (induction xs arbitrary: m) (auto simp: ok_put)

lemma put_many_keys:
  "set (keys (fold (\<lambda>x. put (f x) (g x)) xs m)) = f ` set xs \<union> set (keys m)"
  by (induction xs arbitrary: m) (auto simp: keys_put)

lemma del_many_get:
  "ok m \<Longrightarrow> get (fold del ks m) k = (if k \<in> set ks then None else get m k)"
proof (induction ks arbitrary: m)
  case (Cons a ks)
  then show ?case by (auto simp: get_del ok_del)
qed simp

lemma del_many_ok: "ok m \<Longrightarrow> ok (fold del ks m)"
  by (induction ks arbitrary: m) (auto simp: ok_del)

end

lemma obj_wf_keys: "obj_wf m \<Longrightarrow> distinct (map fst m)"
  by (simp add: obj_wf_def)

interpretation ob: js_object "[]" map_of obj_set obj_delete "map fst" obj_wf
  by unfold_locales
    (auto simp: obj_keys_set [simplified] obj_wf_keys map_of_eq_None_iff dest: map_of_SomeD)

section \<open>Sets in insertion order\<close>

definition set_add :: "'a \<Rightarrow> 'a list \<Rightarrow> 'a list" where
  "set_add x xs = (if x \<in> set xs then xs else xs @ [x])"

definition set_delete :: "'a \<Rightarrow> 'a list \<Rightarrow> 'a list" where
  "set_delete x xs = filter (\<lambda>y. y \<noteq> x) xs"

definition set_of_list :: "'a list \<Rightarrow> 'a list" where
  "set_of_list xs = fold set_add xs []"

declare set_add_def [js_defs] set_delete_def [js_defs] set_of_list_def [js_defs]

lemma set_add_set [simp]: "set (set_add x xs) = insert x (set xs)"
  by (auto simp: set_add_def)

lemma set_add_distinct [simp]: "distinct xs \<Longrightarrow> distinct (set_add x xs)"
  by (simp add: set_add_def)

lemma set_delete_set [simp]: "set (set_delete x xs) = set xs - {x}"
  by (auto simp: set_delete_def)

lemma set_delete_distinct [simp]: "distinct xs \<Longrightarrow> distinct (set_delete x xs)"
  by (simp add: set_delete_def)

lemma set_add_many [simp]: "set (fold set_add xs ys) = set xs \<union> set ys"
  by (induction xs arbitrary: ys) auto

lemma set_add_many_distinct [simp]: "distinct ys \<Longrightarrow> distinct (fold set_add xs ys)"
  by (induction xs arbitrary: ys) auto

lemma set_of_list_set [simp]: "set (set_of_list xs) = set xs"
  by (simp add: set_of_list_def)

lemma set_of_list_distinct [simp]: "distinct (set_of_list xs)"
  by (simp add: set_of_list_def)

section \<open>Arrays\<close>

text \<open>\<^verbatim>\<open>xs.at(i)\<close>: a negative index counts from the end, and out of range is
  \<^verbatim>\<open>undefined\<close>.\<close>

definition arr_at :: "'a list \<Rightarrow> int \<Rightarrow> 'a option" where
  "arr_at xs i =
     (let j = (if i < 0 then int (length xs) + i else i)
      in if 0 \<le> j \<and> j < int (length xs) then Some (xs ! nat j) else None)"

definition arr_get :: "'a list \<Rightarrow> nat \<Rightarrow> 'a option" where
  "arr_get xs i = (if i < length xs then Some (xs ! i) else None)"

text \<open>\<^verbatim>\<open>xs[i] = v\<close>: past the end the array grows, and the gap reads as \<open>hole\<close>.\<close>

definition arr_put :: "'a \<Rightarrow> nat \<Rightarrow> 'a \<Rightarrow> 'a list \<Rightarrow> 'a list" where
  "arr_put hole i v xs =
     (if i < length xs then xs[i := v] else xs @ replicate (i - length xs) hole @ [v])"

lemma arr_get_put:
  "arr_get (arr_put h i v xs) j =
     (if j = i then Some v else if j < length xs then Some (xs ! j) else if j < i then Some h else None)"
  by (auto simp: arr_get_def arr_put_def nth_append)

lemma arr_put_length: "length (arr_put h i v xs) = max (length xs) (Suc i)"
  by (auto simp: arr_put_def)

section \<open>Sorting\<close>

fun js_insert :: "('a \<Rightarrow> 'a \<Rightarrow> int) \<Rightarrow> 'a \<Rightarrow> 'a list \<Rightarrow> 'a list" where
  "js_insert cmp x [] = [x]"
| "js_insert cmp x (y # ys) = (if cmp x y < 0 then x # y # ys else y # js_insert cmp x ys)"

definition js_sort :: "('a \<Rightarrow> 'a \<Rightarrow> int) \<Rightarrow> 'a list \<Rightarrow> 'a list" where
  "js_sort cmp xs = fold (js_insert cmp) xs []"

lemma js_insert_set [simp]: "set (js_insert cmp x ys) = insert x (set ys)"
  by (induction ys) auto

lemma js_insert_length [simp]: "length (js_insert cmp x ys) = Suc (length ys)"
  by (induction ys) auto

lemma js_sort_set [simp]: "set (js_sort cmp xs) = set xs"
proof -
  have "set (fold (js_insert cmp) xs ys) = set xs \<union> set ys" for ys
    by (induction xs arbitrary: ys) auto
  then show ?thesis by (simp add: js_sort_def)
qed

lemma js_sort_length [simp]: "length (js_sort cmp xs) = length xs"
proof -
  have "length (fold (js_insert cmp) xs ys) = length xs + length ys" for ys
    by (induction xs arbitrary: ys) auto
  then show ?thesis by (simp add: js_sort_def)
qed

lemma js_sort_distinct: "distinct (js_sort cmp xs) = distinct xs"
  by (metis card_distinct distinct_card js_sort_length js_sort_set)

text \<open>
  Whatever strict order the comparator's negative results describe, the result has no
  element before one that is strictly smaller.
\<close>

lemma js_sort_sorted:
  assumes "transp (\<lambda>x y. \<not> cmp y x < 0)" and "\<And>x y. cmp x y < 0 \<Longrightarrow> \<not> cmp y x < 0"
  shows "sorted_wrt (\<lambda>x y. \<not> cmp y x < 0) (js_sort cmp xs)"
proof -
  have ins: "sorted_wrt (\<lambda>x y. \<not> cmp y x < 0) (js_insert cmp x ys)"
    if "sorted_wrt (\<lambda>x y. \<not> cmp y x < 0) ys" for x ys
    using that
  proof (induction ys)
    case (Cons y ys)
    then show ?case using assms by (auto dest: transpD)
  qed simp
  have "sorted_wrt (\<lambda>x y. \<not> cmp y x < 0) (fold (js_insert cmp) xs ys)"
    if "sorted_wrt (\<lambda>x y. \<not> cmp y x < 0) ys" for ys
    using that by (induction xs arbitrary: ys) (auto simp: ins)
  then show ?thesis by (simp add: js_sort_def)
qed

section \<open>Numbers as object keys\<close>

text \<open>The decimal text of a number: what an index becomes as an object key.\<close>

fun string_of_nat :: "nat \<Rightarrow> string" where
  "string_of_nat n =
     (if n < 10 then [char_of (48 + n)] else string_of_nat (n div 10) @ [char_of (48 + n mod 10)])"

declare string_of_nat.simps [simp del]

lemma string_of_nat_small: "n < 10 \<Longrightarrow> string_of_nat n = [char_of (48 + n)]"
  by (subst string_of_nat.simps) simp

lemma string_of_nat_large:
  "\<not> n < 10 \<Longrightarrow> string_of_nat n = string_of_nat (n div 10) @ [char_of (48 + n mod 10)]"
  by (subst string_of_nat.simps) simp

lemma string_of_nat_nonempty: "string_of_nat n \<noteq> []"
  by (subst string_of_nat.simps) simp

lemma digit_char_inj:
  assumes "char_of (48 + i) = (char_of (48 + j) :: char)" "i < 10" "j < (10 :: nat)"
  shows "i = j"
proof -
  have "48 + i = 48 + j"
    using arg_cong [where f = "of_char :: char \<Rightarrow> nat", OF assms(1)] assms(2,3) by simp
  then show ?thesis by simp
qed

lemma string_of_nat_inj: "string_of_nat m = string_of_nat n \<Longrightarrow> m = n"
proof (induction m arbitrary: n rule: string_of_nat.induct)
  case (1 m)
  show ?case
  proof (cases "m < 10"; cases "n < 10")
    assume "m < 10" "n < 10"
    with "1.prems" have "char_of (48 + m) = (char_of (48 + n) :: char)"
      by (simp only: string_of_nat_small list.inject)
    then show ?thesis using \<open>m < 10\<close> \<open>n < 10\<close> by (rule digit_char_inj)
  next
    assume "m < 10" "\<not> n < 10"
    with "1.prems" have "[char_of (48 + m)] = string_of_nat (n div 10) @ [char_of (48 + n mod 10)]"
      by (simp only: string_of_nat_small string_of_nat_large not_False_eq_True)
    then show ?thesis
      by (metis butlast.simps(2) butlast_snoc string_of_nat_nonempty)
  next
    assume "\<not> m < 10" "n < 10"
    with "1.prems" have "string_of_nat (m div 10) @ [char_of (48 + m mod 10)] = [char_of (48 + n)]"
      by (simp only: string_of_nat_small string_of_nat_large not_False_eq_True)
    then show ?thesis
      by (metis butlast.simps(2) butlast_snoc string_of_nat_nonempty)
  next
    assume ge: "\<not> m < 10" "\<not> n < 10"
    with "1.prems" have "string_of_nat (m div 10) @ [char_of (48 + m mod 10)] =
        string_of_nat (n div 10) @ [char_of (48 + n mod 10)]"
      by (simp only: string_of_nat_large not_False_eq_True)
    then have eq: "string_of_nat (m div 10) = string_of_nat (n div 10)"
      and last: "char_of (48 + m mod 10) = (char_of (48 + n mod 10) :: char)"
      by (simp_all only: append1_eq_conv)
    from eq have "m div 10 = n div 10" using "1.IH" ge(1) by blast
    moreover have "m mod 10 = n mod 10" by (rule digit_char_inj [OF last]) simp_all
    ultimately show ?thesis by (metis div_mult_mod_eq)
  qed
qed

section \<open>The order of texts\<close>

text \<open>\<^verbatim>\<open><\<close> on strings.\<close>

fun text_less :: "string \<Rightarrow> string \<Rightarrow> bool" where
  "text_less [] t = (t \<noteq> [])"
| "text_less (a # s) [] = False"
| "text_less (a # s) (b # t) =
     (if a = b then text_less s t else (of_char a :: nat) < of_char b)"

section \<open>Splitting and trimming\<close>

text \<open>\<^verbatim>\<open>s.split(c)\<close> and \<^verbatim>\<open>ss.join(c)\<close> for a character.\<close>

fun split_at :: "char \<Rightarrow> string \<Rightarrow> string list" where
  "split_at c [] = [[]]"
| "split_at c (x # xs) =
     (if x = c then [] # split_at c xs
      else (case split_at c xs of [] \<Rightarrow> [[x]] | s # ss \<Rightarrow> (x # s) # ss))"

fun join_with :: "char \<Rightarrow> string list \<Rightarrow> string" where
  "join_with c [] = []"
| "join_with c [s] = s"
| "join_with c (s # t # ss) = s @ c # join_with c (t # ss)"

lemma split_at_nonempty [simp]: "split_at c s \<noteq> []"
  by (induction s) (auto split: list.split)

lemma split_at_plain: "c \<notin> set s \<Longrightarrow> split_at c s = [s]"
  by (induction s) auto

lemma split_at_append: "c \<notin> set s \<Longrightarrow> split_at c (s @ c # t) = s # split_at c t"
  by (induction s) auto

lemma split_at_join: "ss \<noteq> [] \<Longrightarrow> \<forall>s \<in> set ss. c \<notin> set s \<Longrightarrow> split_at c (join_with c ss) = ss"
  by (induction c ss rule: join_with.induct) (auto simp: split_at_plain split_at_append)

lemma split_at_no_sep: "s \<in> set (split_at c p) \<Longrightarrow> c \<notin> set s"
proof (induction p arbitrary: s)
  case (Cons x p)
  show ?case
  proof (cases "split_at c p")
    case Nil
    then show ?thesis by simp
  next
    case (Cons t ts)
    with Cons.IH Cons.prems show ?thesis by (auto split: if_splits)
  qed
qed simp

text \<open>White space as \<^verbatim>\<open>trim\<close> and regular expressions see it.\<close>

definition is_space :: "char \<Rightarrow> bool" where
  "is_space c \<longleftrightarrow> (of_char c :: nat) \<in> {9, 10, 11, 12, 13, 32, 160}"

definition js_trim :: "string \<Rightarrow> string" where
  "js_trim s = rev (dropWhile is_space (rev (dropWhile is_space s)))"

end
