(* ===== verification/N8n_Types.thy ===== *)
theory N8n_Types
  imports Complex_Main N8n_Prelude
begin

text \<open>
  The data of a workflow and of its execution, from
  \<^verbatim>\<open>packages/workflow/src/interfaces.ts\<close>: connections, nodes, items, run data.

  A record has the fields that the modelled code reads or writes; the fields nothing
  modelled touches (notes, credentials, binary data, ...) are left out. JavaScript numbers
  that are positions, versions or JSON values are rationals, indices are naturals. A field
  that may be absent is an option, except where the code only asks whether it is
  \<^verbatim>\<open>=== true\<close>: there absent and false are the same boolean.
\<close>

section \<open>Values\<close>

datatype json = JNull | JBool bool | JNum rat | JStr string | JArr "json list"
  | JObj "(string \<times> json) list"

text \<open>An array cell that may hold data, \<^verbatim>\<open>null\<close>, or nothing at all (a hole
  or \<^verbatim>\<open>undefined\<close>): the engine distinguishes the last two.\<close>

datatype 'a slot = Undef | Null | Val 'a

fun slot_truthy :: "'a slot \<Rightarrow> bool" where
  "slot_truthy (Val x) = True"
| "slot_truthy _ = False"

fun slot_option :: "'a slot \<Rightarrow> 'a option" where
  "slot_option (Val x) = Some x"
| "slot_option _ = None"

section \<open>Connections\<close>

text \<open>\<^verbatim>\<open>NodeConnectionTypes\<close>\<close>

definition NodeConnectionTypes :: "string list" where
  "NodeConnectionTypes =
     [''ai_agent'', ''ai_chain'', ''ai_document'', ''ai_embedding'', ''ai_languageModel'',
      ''ai_memory'', ''ai_outputParser'', ''ai_retriever'', ''ai_reranker'',
      ''ai_textSplitter'', ''ai_tool'', ''ai_vectorStore'', ''main'']"

abbreviation Main_type :: string where
  "Main_type \<equiv> ''main''"

abbreviation AiTool_type :: string where
  "AiTool_type \<equiv> ''ai_tool''"

record connection =
  conn_node :: string
  conn_type :: string
  conn_index :: nat

type_synonym node_input_connections = "connection list option list"
type_synonym node_connections = "(string, node_input_connections) obj"
type_synonym connections = "(string, node_connections) obj"

text \<open>\<open>?? []\<close> on one cell, and every connection of an array of cells in order.\<close>

definition cell :: "connection list option \<Rightarrow> connection list" where
  "cell c = (case c of None \<Rightarrow> [] | Some cs \<Rightarrow> cs)"

definition cells :: "node_input_connections \<Rightarrow> connection list" where
  "cells arr = concat (map cell arr)"

lemma cell_simps [simp]: "cell None = []" "cell (Some cs) = cs"
  by (simp_all add: cell_def)

lemma cells_simps [simp]: "cells [] = []" "cells (c # arr) = cell c @ cells arr"
  by (simp_all add: cells_def)

lemma in_cells_iff: "c \<in> set (cells arr) \<longleftrightarrow> (\<exists>cs. Some cs \<in> set arr \<and> c \<in> set cs)"
proof -
  have "c \<in> set (cell x) \<longleftrightarrow> (\<exists>cs. x = Some cs \<and> c \<in> set cs)" for x
    by (cases x) auto
  then show ?thesis by (auto simp: cells_def)
qed

section \<open>Nodes\<close>

datatype on_error = ContinueErrorOutput | ContinueRegularOutput | StopWorkflow

record inode =
  node_id :: string
  node_name :: string
  node_typeVersion :: rat
  node_type :: string
  node_position :: "rat \<times> rat"
  node_disabled :: "bool option"
  node_retryOnFail :: bool
  node_maxTries :: "int option"
  node_waitBetweenTries :: "int option"
  node_alwaysOutputData :: bool
  node_executeOnce :: bool
  node_onError :: "on_error option"
  node_continueOnFail :: bool
  node_parameters :: "(string, json) obj"
  node_rewireOutputLogTo :: "string option"
  node_forceCustomOperation :: "(string \<times> string) option"

text \<open>\<^verbatim>\<open>node.disabled\<close> as a condition, and \<^verbatim>\<open>node.disabled === true\<close>.\<close>

definition is_disabled :: "inode \<Rightarrow> bool" where
  "is_disabled n \<longleftrightarrow> node_disabled n = Some True"

text \<open>A node with nothing but a name and a type, for examples.\<close>

definition plain_node :: "string \<Rightarrow> string \<Rightarrow> inode" where
  "plain_node nm ty = \<lparr>node_id = nm, node_name = nm, node_typeVersion = 1, node_type = ty,
     node_position = (0, 0), node_disabled = None, node_retryOnFail = False,
     node_maxTries = None, node_waitBetweenTries = None, node_alwaysOutputData = False,
     node_executeOnce = False, node_onError = None, node_continueOnFail = False,
     node_parameters = [], node_rewireOutputLogTo = None, node_forceCustomOperation = None\<rparr>"

lemma plain_node_name [simp]: "node_name (plain_node nm ty) = nm"
  and plain_node_type [simp]: "node_type (plain_node nm ty) = ty"
  and plain_node_disabled [simp]: "node_disabled (plain_node nm ty) = None"
  by (simp_all add: plain_node_def)

lemma plain_node_eq [simp]: "plain_node a t = plain_node b u \<longleftrightarrow> a = b \<and> t = u"
  by (auto simp: plain_node_def)

section \<open>Items and run data\<close>

record source_data =
  previousNode :: string
  previousNodeOutput :: "nat option"
  previousNodeRun :: "nat option"

record paired_data =
  paired_item :: nat
  paired_input :: "nat option"
  paired_sourceOverwrite :: "source_data option"

datatype paired = PairedNumber nat | PairedOne paired_data | PairedMany "paired_data list"

record node_error =
  err_name :: string
  err_message :: string

record item =
  item_json :: "(string, json) obj"
  item_error :: "node_error option"
  item_pairedItem :: "paired option"

definition empty_item :: item where
  "empty_item = \<lparr>item_json = [], item_error = None, item_pairedItem = None\<rparr>"

type_synonym task_data_connections = "(string, item list slot list) obj"
type_synonym task_data_connections_source = "(string, source_data slot list) obj"

datatype execution_status = Canceled | Crashed | ErrorStatus | NewStatus | Running | Success
  | UnknownStatus | Waiting

text \<open>Task metadata: the entries the engine reads, and the others as opaque values.\<close>

type_synonym task_metadata = "(string, json) obj"

record task_data =
  td_startTime :: nat
  td_executionIndex :: "nat option"
  td_source :: "source_data slot list"
  td_executionTime :: nat
  td_executionStatus :: "execution_status option"
  td_data :: "task_data_connections option"
  td_inputOverride :: "task_data_connections option"
  td_error :: "node_error option"
  td_metadata :: "task_metadata option"

type_synonym run_data = "(string, task_data list) obj"
type_synonym pin_data = "(string, item list) obj"

record execute_data =
  ed_data :: task_data_connections
  ed_metadata :: "task_metadata option"
  ed_node :: inode
  ed_source :: "task_data_connections_source option"
  ed_runIndex :: "nat option"

text \<open>Run indices are numeric keys: the inner objects stay sorted by them.\<close>

type_synonym waiting_execution = "(string, (nat, task_data_connections) obj) obj"
type_synonym waiting_execution_source = "(string, (nat, task_data_connections_source) obj) obj"

datatype destination_mode = Inclusive | Exclusive

record destination_node =
  dest_nodeName :: string
  dest_mode :: destination_mode

end
