(* ===== verification/Connections.thy ===== *)
theory Connections
  imports N8n_Types
begin

text \<open>
  Connection tables: \<^verbatim>\<open>packages/workflow/src/common\<close>. The table by
  source is inverted into the table by destination
  (\<^verbatim>\<open>mapConnectionsByDestination\<close>), and both are walked by
  \<^verbatim>\<open>getConnectedNodes\<close>, which \<^verbatim>\<open>getChildNodes\<close> and
  \<^verbatim>\<open>getParentNodes\<close> call on one or the other.
\<close>

section \<open>Operations\<close>

subsection \<open>map-connections-by-destination.ts\<close>

text \<open>One turn of the innermost loop: the padding loop pushes empty cells up to the
  index, and the source is pushed into the cell.\<close>

definition add_by_destination ::
    "string \<Rightarrow> string \<Rightarrow> nat \<Rightarrow> connection \<Rightarrow> connections \<Rightarrow> connections" where
  "add_by_destination sourceNode ty inputIndex info ret =
     (let byType = (case obj_get ret (conn_node info) of None \<Rightarrow> [] | Some b \<Rightarrow> b);
          arr = (case obj_get byType (conn_type info) of None \<Rightarrow> [] | Some a \<Rightarrow> a);
          padded = arr @ replicate (Suc (conn_index info) - length arr) (Some []);
          new = \<lparr>conn_node = sourceNode, conn_type = ty, conn_index = inputIndex\<rparr>;
          pushed = padded[conn_index info := map_option (\<lambda>cs. cs @ [new]) (padded ! conn_index info)]
      in obj_set (conn_node info) (obj_set (conn_type info) pushed byType) ret)"

definition mapConnectionsByDestination :: "connections \<Rightarrow> connections" where
  "mapConnectionsByDestination conns =
     fold (\<lambda>(sourceNode, byType).
       fold (\<lambda>(ty, arr).
         fold (\<lambda>(inputIndex, c). fold (add_by_destination sourceNode ty inputIndex) (cell c))
           (List.enumerate 0 arr))
         byType)
       conns []"

subsection \<open>get-connected-nodes.ts\<close>

datatype connection_filter = AllTypes | AllNonMain | OnlyType string

fun connection_types :: "connection_filter \<Rightarrow> node_connections \<Rightarrow> string list" where
  "connection_types AllTypes byType = obj_keys byType"
| "connection_types AllNonMain byType = filter (\<lambda>t. t \<noteq> Main_type) (obj_keys byType)"
| "connection_types (OnlyType t) byType = [t]"

text \<open>The loop at the end: the nodes found by the recursive call, last first, move to the
  front of the result.\<close>

definition move_to_front :: "string list \<Rightarrow> string list \<Rightarrow> string list" where
  "move_to_front addNodes returnNodes =
     fold (\<lambda>p r. p # remove1 p r) (rev addNodes) returnNodes"

function getConnectedNodes ::
    "connections \<Rightarrow> string \<Rightarrow> connection_filter \<Rightarrow> int \<Rightarrow> string list \<Rightarrow> string list" where
  "getConnectedNodes conns nodeName cty depth checkedIncoming =
     (if depth = 0 then []
      else (case obj_get conns nodeName of
        None \<Rightarrow> []
      | Some byType \<Rightarrow>
          fold (\<lambda>ty returnNodes.
            (case obj_get byType ty of
              None \<Rightarrow> returnNodes
            | Some arr \<Rightarrow>
                if nodeName \<in> set checkedIncoming then returnNodes
                else
                  fold (\<lambda>c returnNodes.
                    if conn_node c \<in> set (checkedIncoming @ [nodeName]) then returnNodes
                    else move_to_front
                      (getConnectedNodes conns (conn_node c) cty
                        (if depth = -1 then depth else depth - 1) (checkedIncoming @ [nodeName]))
                      (conn_node c # returnNodes))
                    (cells arr) returnNodes))
            (connection_types cty byType) []))"
  by pat_completeness auto
termination
proof (relation "measure (\<lambda>(conns, n, cty, d, checked). card (set (obj_keys conns) - set checked))",
    goal_cases)
  case (2 conns n cty d checked byType ty acc arr c acc')
  then have "n \<in> set (obj_keys conns) - set checked" by (auto dest: obj_get_key)
  then have "card (set (obj_keys conns) - insert n (set checked)) < card (set (obj_keys conns) - set checked)"
    by (intro psubset_card_mono) auto
  then show ?case by simp
qed simp

declare getConnectedNodes.simps [simp del]

definition getChildNodes ::
    "connections \<Rightarrow> string \<Rightarrow> connection_filter \<Rightarrow> int \<Rightarrow> string list" where
  "getChildNodes connectionsBySourceNode nodeName cty depth =
     getConnectedNodes connectionsBySourceNode nodeName cty depth []"

definition getParentNodes ::
    "connections \<Rightarrow> string \<Rightarrow> connection_filter \<Rightarrow> int \<Rightarrow> string list" where
  "getParentNodes connectionsByDestinationNode nodeName cty depth =
     getConnectedNodes connectionsByDestinationNode nodeName cty depth []"

definition getNodeByName :: "inode list \<Rightarrow> string \<Rightarrow> inode option" where
  "getNodeByName nodes nm = find (\<lambda>n. node_name n = nm) nodes"

section \<open>Inversion of the table\<close>

text \<open>All entries of a table in the order the loops visit them.\<close>

definition entries :: "connections \<Rightarrow> (string \<times> string \<times> nat \<times> connection) list" where
  "entries conns = concat (map (\<lambda>(s, byType). concat (map (\<lambda>(ty, arr).
     concat (map (\<lambda>(i, c). map (\<lambda>info. (s, ty, i, info)) (cell c)) (List.enumerate 0 arr)))
     byType)) conns)"

definition conns_at :: "connections \<Rightarrow> string \<Rightarrow> string \<Rightarrow> nat \<Rightarrow> connection list" where
  "conns_at conns n ty i =
     (case obj_get conns n of None \<Rightarrow> []
      | Some byType \<Rightarrow> (case obj_get byType ty of None \<Rightarrow> []
         | Some arr \<Rightarrow> if i < length arr then cell (arr ! i) else []))"

definition conns_wf :: "connections \<Rightarrow> bool" where
  "conns_wf conns \<longleftrightarrow> obj_wf conns \<and> (\<forall>(n, byType) \<in> set conns. obj_wf byType)"

lemma fold_case_concat:
  "fold (\<lambda>(a, b). fold f (g a b)) xs = fold f (concat (map (\<lambda>(a, b). g a b) xs))"
proof (rule ext)
  show "fold (\<lambda>(a, b). fold f (g a b)) xs s = fold f (concat (map (\<lambda>(a, b). g a b) xs)) s" for s
    by (induction xs arbitrary: s) auto
qed

lemma mapConnectionsByDestination_entries:
  "mapConnectionsByDestination conns =
     fold (\<lambda>(s, ty, i, info). add_by_destination s ty i info) (entries conns) []"
proof -
  let ?f = "\<lambda>(s, ty, i, info). add_by_destination s ty i info"
  have c: "fold (add_by_destination s ty i) (cell c) =
      fold ?f (map (\<lambda>info. (s, ty, i, info)) (cell c))" for s ty i c
    by (simp add: fold_map comp_def)
  show ?thesis
    by (simp only: mapConnectionsByDestination_def entries_def c fold_case_concat)
qed

text \<open>The table by destination holds no empty cell but \<^verbatim>\<open>[]\<close>, and its
  objects have distinct keys.\<close>

definition dest_inv :: "connections \<Rightarrow> bool" where
  "dest_inv ret \<longleftrightarrow> conns_wf ret \<and>
     (\<forall>(n, byType) \<in> set ret. \<forall>(ty, arr) \<in> set byType. None \<notin> set arr)"

lemma dest_inv_get:
  "dest_inv ret \<Longrightarrow> map_of ret n = Some byType \<Longrightarrow> obj_wf byType \<and>
     (\<forall>ty arr. map_of byType ty = Some arr \<longrightarrow> None \<notin> set arr)"
  by (fastforce simp: dest_inv_def conns_wf_def dest: map_of_SomeD)

lemma dest_inv_set:
  assumes "dest_inv ret" "obj_wf byType" "\<forall>(ty, arr) \<in> set byType. None \<notin> set arr"
  shows "dest_inv (obj_set n byType ret)"
  using assms unfolding dest_inv_def conns_wf_def
  by (auto dest!: obj_set_in split: prod.splits)

lemma add_by_destination_step:
  assumes "dest_inv ret"
  shows "dest_inv (add_by_destination s ty i info ret)"
    and "conns_at (add_by_destination s ty i info ret) d cty k =
      conns_at ret d cty k @
        (if info = \<lparr>conn_node = d, conn_type = cty, conn_index = k\<rparr>
         then [\<lparr>conn_node = s, conn_type = ty, conn_index = i\<rparr>] else [])"
proof -
  define byType where "byType = (case map_of ret (conn_node info) of None \<Rightarrow> [] | Some b \<Rightarrow> b)"
  define arr where "arr = (case map_of byType (conn_type info) of None \<Rightarrow> [] | Some a \<Rightarrow> a)"
  define padded where "padded = arr @ replicate (Suc (conn_index info) - length arr) (Some [])"
  let ?new = "\<lparr>conn_node = s, conn_type = ty, conn_index = i\<rparr>"
  define pushed where "pushed =
    padded[conn_index info := map_option (\<lambda>cs. cs @ [?new]) (padded ! conn_index info)]"
  have eq: "add_by_destination s ty i info ret =
      obj_set (conn_node info) (obj_set (conn_type info) pushed byType) ret"
    by (simp add: add_by_destination_def byType_def arr_def padded_def pushed_def Let_def)
  have wf: "obj_wf byType" and nn: "\<forall>t a. map_of byType t = Some a \<longrightarrow> None \<notin> set a"
    using dest_inv_get [OF assms] by (auto simp: byType_def split: option.splits)
  then have "None \<notin> set arr" by (auto simp: arr_def split: option.splits)
  then have pd: "None \<notin> set padded" "conn_index info < length padded"
    by (auto simp: padded_def)
  then obtain cs where cs: "padded ! conn_index info = Some cs"
    by (metis not_None_eq nth_mem)
  have ps: "None \<notin> set pushed"
    using pd(1) cs by (auto simp: pushed_def dest!: set_update_subset_insert [THEN subsetD])
  show "dest_inv (add_by_destination s ty i info ret)"
    unfolding eq
  proof (rule dest_inv_set [OF assms])
    show "\<forall>(t, a) \<in> set (obj_set (conn_type info) pushed byType). None \<notin> set a"
      using nn ps wf by (auto simp: obj_wf_in dest!: obj_set_in)
  qed (simp add: wf)
  have at: "conns_at ret (conn_node info) (conn_type info) k = (if k < length arr then cell (arr ! k) else [])"
    by (auto simp: conns_at_def arr_def byType_def split: option.splits)
  have cell_pushed: "(if k < length pushed then cell (pushed ! k) else []) =
      (if k < length arr then cell (arr ! k) else []) @ (if k = conn_index info then [?new] else [])"
    using cs pd(2) by (auto simp: pushed_def padded_def nth_list_update nth_append split: if_splits)
  have same: "conns_at (obj_set (conn_node info) (obj_set (conn_type info) pushed byType) ret)
      (conn_node info) (conn_type info) k =
      conns_at ret (conn_node info) (conn_type info) k @ (if k = conn_index info then [?new] else [])"
    unfolding at using cell_pushed by (simp add: conns_at_def)
  have other: "conns_at (obj_set (conn_node info) (obj_set (conn_type info) pushed byType) ret) d cty k =
      conns_at ret d cty k" if "d \<noteq> conn_node info \<or> cty \<noteq> conn_type info"
    using that by (auto simp: conns_at_def byType_def split: option.splits)
  show "conns_at (add_by_destination s ty i info ret) d cty k =
      conns_at ret d cty k @ (if info = \<lparr>conn_node = d, conn_type = cty, conn_index = k\<rparr> then [?new] else [])"
  proof (cases "d = conn_node info \<and> cty = conn_type info")
    case True
    then show ?thesis unfolding eq using same by (cases info) auto
  next
    case False
    then show ?thesis unfolding eq using other by (cases info) auto
  qed
qed

lemma fold_add_by_destination:
  assumes "dest_inv ret"
  shows "dest_inv (fold (\<lambda>(s, ty, i, info). add_by_destination s ty i info) es ret) \<and>
    conns_at (fold (\<lambda>(s, ty, i, info). add_by_destination s ty i info) es ret) d cty k =
      conns_at ret d cty k @
        [\<lparr>conn_node = s, conn_type = ty, conn_index = i\<rparr>.
          (s, ty, i, info) \<leftarrow> es, info = \<lparr>conn_node = d, conn_type = cty, conn_index = k\<rparr>]"
  using assms
proof (induction es arbitrary: ret)
  case (Cons e es)
  obtain s ty i info where e: "e = (s, ty, i, info)" by (cases e)
  show ?case
    using Cons.IH [OF add_by_destination_step(1) [OF Cons.prems, of s ty i info]]
      add_by_destination_step(2) [OF Cons.prems, of s ty i info]
    by (simp add: e)
qed simp

lemma dest_inv_Nil [simp]: "dest_inv []"
  by (simp add: dest_inv_def conns_wf_def)

lemma dest_inv_mapConnectionsByDestination: "dest_inv (mapConnectionsByDestination conns)"
  using fold_add_by_destination [OF dest_inv_Nil] by (simp add: mapConnectionsByDestination_entries)

lemma Some_eq_get: "Some v = map_of m k \<longleftrightarrow> map_of m k = Some v"
  by auto

lemma in_concat_map_pair:
  "y \<in> set (concat (map (\<lambda>(a, b). g a b) xs)) \<longleftrightarrow> (\<exists>a b. (a, b) \<in> set xs \<and> y \<in> set (g a b))"
  by (induction xs) auto

lemma in_entries_iff:
  assumes "conns_wf conns"
  shows "(s, ty, i, info) \<in> set (entries conns) \<longleftrightarrow> info \<in> set (conns_at conns s ty i)"
proof -
  have wf: "(n, byType) \<in> set conns \<longleftrightarrow> map_of conns n = Some byType" for n byType
    using assms by (simp add: conns_wf_def obj_wf_in)
  have wf2: "(t, a) \<in> set byType \<longleftrightarrow> map_of byType t = Some a" if "map_of conns n = Some byType" for n byType t a
    using assms that by (auto simp: conns_wf_def obj_wf_in dest!: map_of_SomeD)
  have "(s, ty, i, info) \<in> set (entries conns) \<longleftrightarrow>
      (\<exists>byType arr. (s, byType) \<in> set conns \<and> (ty, arr) \<in> set byType \<and> i < length arr \<and> info \<in> set (cell (arr ! i)))"
    by (simp only: entries_def in_concat_map_pair in_set_enumerate_eq set_map image_iff prod.inject)
      auto
  also have "\<dots> \<longleftrightarrow> (\<exists>byType arr. map_of conns s = Some byType \<and> map_of byType ty = Some arr \<and>
      i < length arr \<and> info \<in> set (cell (arr ! i)))"
    using wf wf2 by blast
  also have "\<dots> \<longleftrightarrow> info \<in> set (conns_at conns s ty i)"
    by (auto simp: conns_at_def Some_eq_get split: option.splits if_splits)
  finally show ?thesis .
qed

lemma mapConnectionsByDestination_converse:
  assumes "conns_wf conns"
  shows "\<lparr>conn_node = s, conn_type = ty, conn_index = i\<rparr> \<in>
      set (conns_at (mapConnectionsByDestination conns) d cty k) \<longleftrightarrow>
    \<lparr>conn_node = d, conn_type = cty, conn_index = k\<rparr> \<in> set (conns_at conns s ty i)"
proof -
  have "conns_at (mapConnectionsByDestination conns) d cty k =
      [\<lparr>conn_node = s, conn_type = ty, conn_index = i\<rparr>.
        (s, ty, i, info) \<leftarrow> entries conns, info = \<lparr>conn_node = d, conn_type = cty, conn_index = k\<rparr>]"
    using fold_add_by_destination [OF dest_inv_Nil, of "entries conns" d cty k]
    by (simp add: mapConnectionsByDestination_entries conns_at_def)
  then show ?thesis by (auto simp: in_entries_iff [OF assms, symmetric])
qed

text \<open>The example: an agent whose two outputs lead to two inputs of a merge node.\<close>

definition example_connections :: connections where
  "example_connections =
     [(''A'', [(Main_type,
        [Some [\<lparr>conn_node = ''M'', conn_type = Main_type, conn_index = 0\<rparr>],
         None,
         Some [\<lparr>conn_node = ''M'', conn_type = Main_type, conn_index = 1\<rparr>]])]),
      (''M'', [(Main_type, [Some [\<lparr>conn_node = ''B'', conn_type = Main_type, conn_index = 0\<rparr>]])])]"

lemma example_connections_wf: "conns_wf example_connections"
  by (simp add: example_connections_def conns_wf_def obj_wf_def)

text \<open>The table by destination is exactly the inverse of the table by source: input
  \<open>k\<close> of type \<open>cty\<close> of node \<open>d\<close> lists output \<open>i\<close> of type \<open>ty\<close> of node \<open>s\<close> precisely
  when that output of \<open>s\<close> lists that input of \<open>d\<close>.\<close>

theorem mapConnectionsByDestination_inverse:
  assumes "conns_wf conns"
  shows "\<lparr>conn_node = s, conn_type = ty, conn_index = i\<rparr> \<in>
      set (conns_at (mapConnectionsByDestination conns) d cty k) \<longleftrightarrow>
    \<lparr>conn_node = d, conn_type = cty, conn_index = k\<rparr> \<in> set (conns_at conns s ty i)"
  using assms by (rule mapConnectionsByDestination_converse)

lemma mapConnectionsByDestination_inverse_witness:
  "\<lparr>conn_node = ''A'', conn_type = Main_type, conn_index = 2\<rparr> \<in>
    set (conns_at (mapConnectionsByDestination example_connections) ''M'' Main_type 1)"
  by (rule mapConnectionsByDestination_inverse [OF example_connections_wf, THEN iffD2])
    (simp add: example_connections_def conns_at_def)

text \<open>Inverting the table twice gives the original connections back.\<close>

theorem mapConnectionsByDestination_involution:
  assumes "conns_wf conns"
  shows "c \<in> set (conns_at (mapConnectionsByDestination (mapConnectionsByDestination conns)) n ty i) \<longleftrightarrow>
    c \<in> set (conns_at conns n ty i)"
proof -
  have wf: "conns_wf (mapConnectionsByDestination conns)"
    using dest_inv_mapConnectionsByDestination by (simp add: dest_inv_def)
  show ?thesis
    by (cases c) (simp add: mapConnectionsByDestination_converse [OF wf] mapConnectionsByDestination_converse [OF assms])
qed

lemma mapConnectionsByDestination_involution_witness:
  "\<lparr>conn_node = ''M'', conn_type = Main_type, conn_index = 1\<rparr> \<in> set (conns_at
    (mapConnectionsByDestination (mapConnectionsByDestination example_connections)) ''A'' Main_type 2)"
  by (rule mapConnectionsByDestination_involution [OF example_connections_wf, THEN iffD2])
    (simp add: example_connections_def conns_at_def)

section \<open>Walking the table\<close>

text \<open>The edges a walk of the given kind follows.\<close>

definition conn_edges :: "connections \<Rightarrow> connection_filter \<Rightarrow> (string \<times> string) set" where
  "conn_edges conns cty = {(a, b). \<exists>byType ty arr c. obj_get conns a = Some byType \<and>
     ty \<in> set (connection_types cty byType) \<and> obj_get byType ty = Some arr \<and>
     c \<in> set (cells arr) \<and> b = conn_node c}"

text \<open>The edges of \<open>R\<close> that do not lead into \<open>A\<close>.\<close>

definition avoiding :: "('a \<times> 'a) set \<Rightarrow> 'a set \<Rightarrow> ('a \<times> 'a) set" where
  "avoiding R A = {(a, b) \<in> R. b \<notin> A}"

lemma avoiding_mono: "A \<subseteq> B \<Longrightarrow> avoiding R B \<subseteq> avoiding R A"
  by (auto simp: avoiding_def)

text \<open>A walk from \<open>b\<close> need not come back to \<open>b\<close>.\<close>

lemma avoiding_loop_free:
  "(b, m) \<in> (avoiding R A)\<^sup>* \<Longrightarrow> m = b \<or> (b, m) \<in> (avoiding R (insert b A))\<^sup>+"
proof (induction rule: rtrancl_induct)
  case (step y z)
  show ?case
  proof (cases "z = b")
    case False
    then have "(y, z) \<in> avoiding R (insert b A)" using step.hyps(2) by (auto simp: avoiding_def)
    with step.IH show ?thesis by (auto intro: trancl_into_trancl)
  qed simp
qed simp

lemma avoiding_trancl_unfold:
  "(n, m) \<in> (avoiding R A)\<^sup>+ \<longleftrightarrow>
     (\<exists>b. (n, b) \<in> R \<and> b \<notin> A \<and> (m = b \<or> (b, m) \<in> (avoiding R (insert b A))\<^sup>+))"
  (is "?l \<longleftrightarrow> ?r")
proof
  assume ?l
  then obtain b where b: "(n, b) \<in> avoiding R A" "(b, m) \<in> (avoiding R A)\<^sup>*"
    by (meson tranclD)
  with avoiding_loop_free [OF b(2)] show ?r by (auto simp: avoiding_def)
next
  assume ?r
  then obtain b where b: "(n, b) \<in> avoiding R A" "m = b \<or> (b, m) \<in> (avoiding R (insert b A))\<^sup>+"
    by (auto simp: avoiding_def)
  have "(avoiding R (insert b A))\<^sup>+ \<subseteq> (avoiding R A)\<^sup>+"
    by (intro trancl_mono_subset avoiding_mono) auto
  with b show ?l by (auto intro: trancl_into_trancl2)
qed

lemma move_to_front_set [simp]: "set (move_to_front adds ret) = set adds \<union> set ret"
proof -
  have "set (fold (\<lambda>p r. p # remove1 p r) xs ret) = set xs \<union> set ret" for xs
  proof (induction xs arbitrary: ret)
    case (Cons x xs)
    have "insert x (set (remove1 x ret)) = insert x (set ret)"
      by (auto dest: notin_set_remove1) (metis in_set_remove1)
    with Cons show ?case by auto
  qed simp
  then show ?thesis by (simp add: move_to_front_def)
qed

lemma fold_collect_set:
  assumes "\<And>x r. x \<in> set xs \<Longrightarrow> set (f x r) = set r \<union> h x"
  shows "set (fold f xs r) = set r \<union> (\<Union>x \<in> set xs. h x)"
  using assms by (induction xs arbitrary: r) auto

lemma getConnectedNodes_step:
  "set (getConnectedNodes conns n cty (-1) checked) =
    (if n \<in> set checked then {}
     else (\<Union>b \<in> {b. (n, b) \<in> conn_edges conns cty \<and> b \<notin> insert n (set checked)}.
       insert b (set (getConnectedNodes conns b cty (-1) (checked @ [n])))))"
proof (cases "map_of conns n")
  case None
  then show ?thesis
    by (simp add: getConnectedNodes.simps [of conns n] conn_edges_def)
next
  case (Some byType)
  define G where "G c = (if conn_node c \<in> set (checked @ [n]) then {}
    else insert (conn_node c) (set (getConnectedNodes conns (conn_node c) cty (-1) (checked @ [n]))))" for c :: connection
  have inner: "set (fold (\<lambda>c ret. if conn_node c = n \<or> conn_node c \<in> set checked then ret
      else move_to_front (getConnectedNodes conns (conn_node c) cty (-1) (checked @ [n]))
        (conn_node c # ret)) (cells arr) r) = set r \<union> (\<Union>c \<in> set (cells arr). G c)" for arr r
    by (rule fold_collect_set) (auto simp: G_def)
  have outer: "set (getConnectedNodes conns n cty (-1) checked) =
      set [] \<union> (\<Union>ty \<in> set (connection_types cty byType). case map_of byType ty of None \<Rightarrow> {}
        | Some arr \<Rightarrow> if n \<in> set checked then {} else (\<Union>c \<in> set (cells arr). G c))"
    unfolding getConnectedNodes.simps [of conns n cty "-1" checked] Some option.case
    by (simp only: if_False neg_equal_0_iff_equal one_neq_zero, rule fold_collect_set)
      (simp add: inner split: option.split)
  then show ?thesis
    by (fastforce simp: conn_edges_def Some G_def split: option.splits if_splits)
qed

lemma getConnectedNodes_set:
  "set (getConnectedNodes conns n cty (-1) checked) =
    (if n \<in> set checked then {}
     else {m. (n, m) \<in> (avoiding (conn_edges conns cty) (insert n (set checked)))\<^sup>+})"
proof (induction "card (set (obj_keys conns) - set checked)" arbitrary: n checked rule: less_induct)
  case less
  let ?R = "conn_edges conns cty"
  show ?case
  proof (cases "n \<in> set checked")
    case True
    then show ?thesis by (simp add: getConnectedNodes_step [of conns n])
  next
    case False
    have IH: "set (getConnectedNodes conns b cty (-1) (checked @ [n])) =
        {m. (b, m) \<in> (avoiding ?R (insert b (insert n (set checked))))\<^sup>+}"
      if "(n, b) \<in> ?R" "b \<notin> insert n (set checked)" for b
    proof -
      from that have "n \<in> set (obj_keys conns)" by (auto simp: conn_edges_def dest: obj_get_key)
      with False have "card (set (obj_keys conns) - set (checked @ [n])) < card (set (obj_keys conns) - set checked)"
        by (intro psubset_card_mono) auto
      from less [OF this, of b] that(2) show ?thesis by auto
    qed
    show ?thesis
      using False by (auto simp: getConnectedNodes_step [of conns n] IH
        avoiding_trancl_unfold [of n _ ?R "insert n (set checked)"])
  qed
qed

lemma avoiding_source_trancl: "(n, m) \<in> (avoiding R {n})\<^sup>+ \<longleftrightarrow> (n, m) \<in> R\<^sup>+ \<and> m \<noteq> n"
proof
  assume "(n, m) \<in> (avoiding R {n})\<^sup>+"
  moreover have "avoiding R {n} \<subseteq> R" by (auto simp: avoiding_def)
  ultimately show "(n, m) \<in> R\<^sup>+ \<and> m \<noteq> n"
    using trancl_mono_subset by (auto simp: avoiding_def elim: tranclE dest: trancl_mono_subset [THEN subsetD])
next
  assume "(n, m) \<in> R\<^sup>+ \<and> m \<noteq> n"
  moreover have "R = avoiding R {}" by (auto simp: avoiding_def)
  ultimately show "(n, m) \<in> (avoiding R {n})\<^sup>+"
    using avoiding_loop_free [of n m R "{}"] by (metis trancl_into_rtrancl)
qed

lemma getConnectedNodes_reachable:
  "set (getConnectedNodes conns n cty (-1) []) = {m. (n, m) \<in> (conn_edges conns cty)\<^sup>+ \<and> m \<noteq> n}"
  by (simp add: getConnectedNodes_set avoiding_source_trancl)

text \<open>Without a depth limit, \<^verbatim>\<open>getChildNodes\<close> returns exactly the
  other nodes reachable from the given one over connections of the asked kind.\<close>

theorem getChildNodes_reachable:
  "set (getChildNodes conns n cty (-1)) = {m. (n, m) \<in> (conn_edges conns cty)\<^sup>+ \<and> m \<noteq> n}"
  by (simp add: getChildNodes_def getConnectedNodes_reachable)

text \<open>Both ends of a connection have the same type, as in every workflow the editor saves.\<close>

definition conns_typed :: "connections \<Rightarrow> bool" where
  "conns_typed conns \<longleftrightarrow> (\<forall>(s, ty, i, info) \<in> set (entries conns). conn_type info = ty)"

lemma conn_edges_at: "(a, b) \<in> conn_edges conns (OnlyType ty) \<longleftrightarrow>
    (\<exists>i c. c \<in> set (conns_at conns a ty i) \<and> conn_node c = b)"
proof (cases "\<exists>byType arr. map_of conns a = Some byType \<and> map_of byType ty = Some arr")
  case True
  then obtain byType arr where g: "map_of conns a = Some byType" "map_of byType ty = Some arr" by blast
  have "c \<in> set (cells arr) \<longleftrightarrow> (\<exists>i < length arr. c \<in> set (cell (arr ! i)))" for c
    unfolding cells_def set_concat set_map by (force simp: in_set_conv_nth)
  then show ?thesis using g by (auto simp: conn_edges_def conns_at_def split: if_splits)
qed (auto simp: conn_edges_def conns_at_def split: option.splits)

lemma conns_typed_at:
  assumes "conns_wf conns" "conns_typed conns" "c \<in> set (conns_at conns a ty i)"
  shows "conn_type c = ty"
proof -
  have "(a, ty, i, c) \<in> set (entries conns)" using assms by (simp add: in_entries_iff)
  then show ?thesis using assms(2) unfolding conns_typed_def by blast
qed

lemma conn_edges_converse:
  assumes "conns_wf conns" "conns_typed conns"
  shows "conn_edges (mapConnectionsByDestination conns) (OnlyType ty) = (conn_edges conns (OnlyType ty))\<inverse>"
proof -
  have "(d, s) \<in> conn_edges (mapConnectionsByDestination conns) (OnlyType ty) \<longleftrightarrow>
      (s, d) \<in> conn_edges conns (OnlyType ty)" for s d
  proof
    assume "(d, s) \<in> conn_edges (mapConnectionsByDestination conns) (OnlyType ty)"
    then obtain k t i where "\<lparr>conn_node = s, conn_type = t, conn_index = i\<rparr> \<in>
        set (conns_at (mapConnectionsByDestination conns) d ty k)"
      by (metis conn_edges_at connection.surjective old.unit.exhaust)
    then have at: "\<lparr>conn_node = d, conn_type = ty, conn_index = k\<rparr> \<in> set (conns_at conns s t i)"
      by (simp add: mapConnectionsByDestination_converse [OF assms(1)])
    moreover have "t = ty" using conns_typed_at [OF assms at] by simp
    ultimately show "(s, d) \<in> conn_edges conns (OnlyType ty)"
      unfolding conn_edges_at by (metis connection.select_convs(1))
  next
    assume "(s, d) \<in> conn_edges conns (OnlyType ty)"
    then obtain i c where c: "c \<in> set (conns_at conns s ty i)" "conn_node c = d"
      by (auto simp: conn_edges_at)
    have "c = \<lparr>conn_node = conn_node c, conn_type = conn_type c, conn_index = conn_index c\<rparr>"
      by simp
    then have "c = \<lparr>conn_node = d, conn_type = ty, conn_index = conn_index c\<rparr>"
      by (simp only: c(2) conns_typed_at [OF assms c(1)])
    with c(1) have "\<lparr>conn_node = s, conn_type = ty, conn_index = i\<rparr> \<in>
        set (conns_at (mapConnectionsByDestination conns) d ty (conn_index c))"
      by (simp add: mapConnectionsByDestination_converse [OF assms(1)])
    then show "(d, s) \<in> conn_edges (mapConnectionsByDestination conns) (OnlyType ty)"
      unfolding conn_edges_at by (metis connection.select_convs(1))
  qed
  then show ?thesis by auto
qed

text \<open>Parents and children are dual: \<open>m\<close> is a parent of \<open>n\<close> in the table by
  destination exactly when \<open>n\<close> is a child of \<open>m\<close> in the table by source.\<close>

theorem parents_children_dual:
  assumes "conns_wf conns" "conns_typed conns"
  shows "m \<in> set (getParentNodes (mapConnectionsByDestination conns) n (OnlyType ty) (-1)) \<longleftrightarrow>
    n \<in> set (getChildNodes conns m (OnlyType ty) (-1))"
  by (auto simp: getParentNodes_def getChildNodes_def getConnectedNodes_reachable
      conn_edges_converse [OF assms] trancl_converse)

lemma parents_children_dual_witness:
  "''A'' \<in> set (getParentNodes (mapConnectionsByDestination example_connections) ''B'' (OnlyType Main_type) (-1))"
proof -
  have typed: "conns_typed example_connections"
    by (simp add: conns_typed_def entries_def example_connections_def)
  have "''B'' \<in> set (getChildNodes example_connections ''A'' (OnlyType Main_type) (-1))"
    by (simp add: getChildNodes_def example_connections_def getConnectedNodes.simps move_to_front_def)
  then show ?thesis
    by (rule parents_children_dual [OF example_connections_wf typed, THEN iffD2])
qed

text \<open>The result of the walk may name a node twice: the loop moves the nodes of a
  recursive call to the front instead of adding them again, but pushes a direct neighbour
  without looking, so two outputs to one node list it twice.\<close>

theorem getChildNodes_lists_twice:
  "getChildNodes [(''A'', [(Main_type,
      [Some [\<lparr>conn_node = ''B'', conn_type = Main_type, conn_index = 0\<rparr>],
       Some [\<lparr>conn_node = ''B'', conn_type = Main_type, conn_index = 0\<rparr>]])])]
    ''A'' (OnlyType Main_type) (-1) = [''B'', ''B'']"
  by (simp add: getChildNodes_def getConnectedNodes.simps move_to_front_def)

end
