(* ===== verification/Graph_Utils.thy ===== *)
theory Graph_Utils
  imports Connections
begin

text \<open>
  Extraction of a sub-workflow: \<^verbatim>\<open>packages/workflow/src/graph/graph-utils.ts\<close>.
  A selection of nodes can be extracted when at most one of its nodes is entered from
  outside and at most one is left to the outside, and the second can be reached from the first.
  The adjacency list is a \<^verbatim>\<open>Map\<close> from a node to the set of its outgoing
  connections, in insertion order; every connection object of a workflow is a separate
  element of such a set.
\<close>

type_synonym adjacency = "(string, connection list) obj"

datatype extractable_error =
    MultipleInputNodes "string list"
  | MultipleOutputNodes "string list"
  | InputEdgeToNonRootNode string
  | OutputEdgeFromNonLeafNode string
  | NoContinuousPathFromRootToLeaf string string

section \<open>Operations\<close>

definition getInputEdges :: "string list \<Rightarrow> adjacency \<Rightarrow> (string \<times> connection) list" where
  "getInputEdges graphIds adjacencyList =
     concat (map (\<lambda>(from, tos).
       if from \<in> set graphIds then []
       else map (\<lambda>to. (from, to)) (filter (\<lambda>to. conn_node to \<in> set graphIds) tos)) adjacencyList)"

definition getOutputEdges :: "string list \<Rightarrow> adjacency \<Rightarrow> (string \<times> connection) list" where
  "getOutputEdges graphIds adjacencyList =
     concat (map (\<lambda>(from, tos).
       if from \<notin> set graphIds then []
       else map (\<lambda>to. (from, to)) (filter (\<lambda>to. conn_node to \<notin> set graphIds) tos)) adjacencyList)"

definition intersection :: "'a list \<Rightarrow> 'a list \<Rightarrow> 'a list" where
  "intersection a b = fold (\<lambda>x result. if x \<in> set b then set_add x result else result) a []"

definition union_set :: "'a list \<Rightarrow> 'a list \<Rightarrow> 'a list" where
  "union_set a b = fold set_add b (fold set_add a [])"

definition difference :: "'a list \<Rightarrow> 'a list \<Rightarrow> 'a list" where
  "difference minuend subtrahend = fold set_delete subtrahend (set_of_list minuend)"

text \<open>\<^verbatim>\<open>adjacencyList.get(nodeId) ?? []\<close>\<close>

definition adjacent :: "adjacency \<Rightarrow> string \<Rightarrow> connection list" where
  "adjacent adjacencyList nodeId =
     (case obj_get adjacencyList nodeId of None \<Rightarrow> [] | Some tos \<Rightarrow> tos)"

definition getRootNodes :: "string list \<Rightarrow> adjacency \<Rightarrow> string list" where
  "getRootNodes graphIds adjacencyList =
     (let innerNodes = fold (\<lambda>nodeId innerNodes.
        union_set innerNodes (set_of_list (map conn_node
          (filter (\<lambda>x. conn_type x = Main_type \<and> conn_node x \<noteq> nodeId) (adjacent adjacencyList nodeId)))))
        graphIds []
      in difference graphIds innerNodes)"

definition getLeafNodes :: "string list \<Rightarrow> adjacency \<Rightarrow> string list" where
  "getLeafNodes graphIds adjacencyList =
     fold (\<lambda>nodeId result.
       if intersection (set_of_list (map conn_node
            (filter (\<lambda>x. conn_type x = Main_type \<and> conn_node x \<noteq> nodeId) (adjacent adjacencyList nodeId))))
          graphIds = []
       then set_add nodeId result else result)
       graphIds []"

text \<open>The loop of \<^verbatim>\<open>hasPath\<close>. The array \<^verbatim>\<open>paths\<close> is a
  stack; its last element, where it is pushed and popped, is the head of the list here.\<close>

definition main_successors :: "adjacency \<Rightarrow> string \<Rightarrow> string list" where
  "main_successors adjacencyList n =
     set_of_list (map conn_node (filter (\<lambda>x. conn_type x = Main_type) (adjacent adjacencyList n)))"

function hasPath_loop :: "adjacency \<Rightarrow> string \<Rightarrow> string list \<Rightarrow> string list \<Rightarrow> bool" where
  "hasPath_loop adjacencyList endNode [] seen = False"
| "hasPath_loop adjacencyList endNode (nxt # paths) seen =
     (if nxt = endNode then True
      else let seen' = set_add nxt seen
           in hasPath_loop adjacencyList endNode
                (rev (difference (main_successors adjacencyList nxt) seen') @ paths) seen')"
  by pat_completeness auto

definition hasPath :: "string \<Rightarrow> string \<Rightarrow> adjacency \<Rightarrow> bool" where
  "hasPath start endNode adjacencyList = hasPath_loop adjacencyList endNode [start] []"

definition buildAdjacencyList :: "connections \<Rightarrow> adjacency" where
  "buildAdjacencyList conns =
     fold (\<lambda>(sourceNode, byType).
       fold (\<lambda>(ty, arr).
         fold (\<lambda>c result. fold (\<lambda>v result.
             obj_set sourceNode (case obj_get result sourceNode of None \<Rightarrow> [v] | Some vs \<Rightarrow> vs @ [v]) result)
           (cell c) result)
           arr)
         byType)
       conns []"

text \<open>A value that is both present and not the empty string.\<close>

fun truthy_string :: "string option \<Rightarrow> bool" where
  "truthy_string None = False"
| "truthy_string (Some s) = (s \<noteq> [])"

definition first_of :: "'a list \<Rightarrow> 'a option" where
  "first_of xs = (case xs of [] \<Rightarrow> None | x # _ \<Rightarrow> Some x)"

definition parseExtractableSubgraphSelection ::
    "string list \<Rightarrow> adjacency \<Rightarrow> extractable_error list + (string option \<times> string option)" where
  "parseExtractableSubgraphSelection graphIds adjacencyList =
     (let inputEdges = getInputEdges graphIds adjacencyList;
          inputNodes = set_of_list (map (\<lambda>x. conn_node (snd x))
            (filter (\<lambda>x. conn_type (snd x) = Main_type) inputEdges));
          rootNodes0 = getRootNodes graphIds adjacencyList;
          rootNodes = (if length rootNodes0 = 0 \<and> length inputNodes = 1 then inputNodes else rootNodes0);
          errors1 = map InputEdgeToNonRootNode (difference inputNodes rootNodes);
          rootInputNodes = intersection rootNodes inputNodes;
          errors2 = (if length rootInputNodes > 1 then [MultipleInputNodes rootInputNodes] else []);
          outputEdges = getOutputEdges graphIds adjacencyList;
          outputNodes = set_of_list (map fst (filter (\<lambda>x. conn_type (snd x) = Main_type) outputEdges));
          leafNodes0 = getLeafNodes graphIds adjacencyList;
          leafNodes = (if length leafNodes0 = 0 \<and> length outputNodes = 1 then outputNodes else leafNodes0);
          errors3 = map OutputEdgeFromNonLeafNode (difference outputNodes leafNodes);
          leafOutputNodes = intersection leafNodes outputNodes;
          errors4 = (if length leafOutputNodes > 1 then [MultipleOutputNodes leafOutputNodes] else []);
          start = first_of rootInputNodes;
          endNode = first_of leafOutputNodes;
          errors5 = (if truthy_string start \<and> truthy_string endNode \<and>
                        \<not> hasPath (the start) (the endNode) adjacencyList
                     then [NoContinuousPathFromRootToLeaf (the start) (the endNode)] else []);
          errors = errors1 @ errors2 @ errors3 @ errors4 @ errors5
      in if length errors > 0 then Inl errors else Inr (start, endNode))"

section \<open>Sets and edges\<close>

named_theorems graph_sets \<open>what the set operations of this file compute\<close>

lemma intersection_set [graph_sets]: "set (intersection a b) = set a \<inter> set b"
proof -
  have "set (fold (\<lambda>x result. if x \<in> set b then set_add x result else result) a r) =
      (set a \<inter> set b) \<union> set r" for r
    by (induction a arbitrary: r) auto
  then show ?thesis by (simp add: intersection_def)
qed

lemma intersection_distinct [graph_sets]: "distinct (intersection a b)"
proof -
  have "distinct r \<Longrightarrow> distinct (fold (\<lambda>x result. if x \<in> set b then set_add x result else result) a r)" for r
    by (induction a arbitrary: r) auto
  then show ?thesis by (simp add: intersection_def)
qed

lemma union_set_set [graph_sets]: "set (union_set a b) = set a \<union> set b"
  by (auto simp: union_set_def)

lemma difference_set [graph_sets]: "set (difference a b) = set a - set b"
proof -
  have "set (fold set_delete b r) = set r - set b" for r :: "'a list"
    by (induction b arbitrary: r) auto
  then show ?thesis by (simp add: difference_def)
qed

lemma difference_Nil_iff: "difference a b = [] \<longleftrightarrow> set a \<subseteq> set b"
  using difference_set [of a b] by (metis Diff_eq_empty_iff set_empty)

lemma intersection_Nil_iff: "intersection a b = [] \<longleftrightarrow> set a \<inter> set b = {}"
  using intersection_set [of a b] by (metis set_empty)

definition main_edges :: "adjacency \<Rightarrow> (string \<times> string) set" where
  "main_edges adj = {(a, b). \<exists>c \<in> set (adjacent adj a). conn_type c = Main_type \<and> conn_node c = b}"

lemma main_successors_set [graph_sets]: "set (main_successors adj n) = main_edges adj `` {n}"
  by (auto simp: main_successors_def main_edges_def)

text \<open>The root nodes of a selection are those no other selected node has a main
  connection into.\<close>

theorem getRootNodes_spec:
  "set (getRootNodes graphIds adj) =
    {n \<in> set graphIds. \<not> (\<exists>m \<in> set graphIds. m \<noteq> n \<and> (m, n) \<in> main_edges adj)}"
proof -
  define f where "f nodeId innerNodes = union_set innerNodes (set_of_list (map conn_node
    (filter (\<lambda>x. conn_type x = Main_type \<and> conn_node x \<noteq> nodeId) (adjacent adj nodeId))))" for nodeId innerNodes
  have "set (f m r) = set r \<union> {n. m \<noteq> n \<and> (m, n) \<in> main_edges adj}" for m r
    by (auto simp: f_def graph_sets main_edges_def)
  then have "set (fold f graphIds r) = set r \<union> (\<Union>m \<in> set graphIds. {n. m \<noteq> n \<and> (m, n) \<in> main_edges adj})" for r
    by (rule fold_collect_set)
  then show ?thesis
    unfolding getRootNodes_def Let_def f_def [symmetric] by (auto simp: graph_sets)
qed

text \<open>The leaf nodes are those with no main connection to another selected node.\<close>

theorem getLeafNodes_spec:
  "set (getLeafNodes graphIds adj) =
    {n \<in> set graphIds. \<not> (\<exists>m \<in> set graphIds. m \<noteq> n \<and> (n, m) \<in> main_edges adj)}"
proof -
  define p where "p nodeId \<longleftrightarrow> intersection (set_of_list (map conn_node
    (filter (\<lambda>x. conn_type x = Main_type \<and> conn_node x \<noteq> nodeId) (adjacent adj nodeId)))) graphIds = []" for nodeId
  have p: "p n \<longleftrightarrow> \<not> (\<exists>m \<in> set graphIds. m \<noteq> n \<and> (n, m) \<in> main_edges adj)" for n
    by (auto simp: p_def intersection_Nil_iff main_edges_def)
  have "set (fold (\<lambda>nodeId result. if p nodeId then set_add nodeId result else result) xs r) =
      {n \<in> set xs. p n} \<union> set r" for xs r
    by (induction xs arbitrary: r) auto
  then show ?thesis by (simp add: getLeafNodes_def p_def [symmetric] p)
qed

section \<open>The search for a path\<close>

definition all_targets :: "adjacency \<Rightarrow> string set" where
  "all_targets adj = (\<Union>(a, tos) \<in> set adj. conn_node ` set tos)"

lemma main_successors_targets: "set (main_successors adj n) \<subseteq> all_targets adj"
proof (cases "map_of adj n")
  case (Some tos)
  then have "(n, tos) \<in> set adj" by (rule map_of_SomeD)
  then have "conn_node ` set tos \<subseteq> all_targets adj" by (force simp: all_targets_def)
  with Some show ?thesis by (auto simp: main_successors_def adjacent_def)
qed (simp add: main_successors_def adjacent_def set_of_list_def)

text \<open>The loop ends: taking an unseen node shrinks what is still unseen among the stack
  and the targets of connections; taking a seen one shrinks the seen part of the stack,
  because only unseen nodes are pushed.\<close>

termination hasPath_loop
proof (relation "measures [\<lambda>(adj, e, paths, seen). card ((set paths \<union> all_targets adj) - set seen),
    \<lambda>(adj, e, paths, seen). length (filter (\<lambda>x. x \<in> set seen) paths)]", goal_cases)
  case (2 adj e nxt paths seen seen')
  have fin: "finite (all_targets adj)" by (auto simp: all_targets_def)
  have sub: "(set (rev (difference (main_successors adj nxt) seen') @ paths) \<union> all_targets adj) - set seen'
      \<subseteq> (set (nxt # paths) \<union> all_targets adj) - set seen"
    using main_successors_targets [of adj nxt] by (auto simp: 2(2) graph_sets)
  show ?case
  proof (cases "nxt \<in> set seen")
    case True
    then have "seen' = seen" by (simp add: 2(2) set_add_def)
    moreover have "filter (\<lambda>x. x \<in> set seen) (rev (difference (main_successors adj nxt) seen)) = []"
      by (auto simp: filter_empty_conv graph_sets)
    moreover have "card ((set (rev (difference (main_successors adj nxt) seen') @ paths) \<union> all_targets adj) - set seen')
        \<le> card ((set (nxt # paths) \<union> all_targets adj) - set seen)"
      by (rule card_mono [OF _ sub]) (simp add: fin)
    ultimately show ?thesis using True by auto
  next
    case False
    then have "nxt \<in> (set (nxt # paths) \<union> all_targets adj) - set seen" by simp
    moreover have "nxt \<notin> (set (rev (difference (main_successors adj nxt) seen') @ paths) \<union> all_targets adj) - set seen'"
      by (simp add: 2(2))
    ultimately have "card ((set (rev (difference (main_successors adj nxt) seen') @ paths) \<union> all_targets adj) - set seen')
        < card ((set (nxt # paths) \<union> all_targets adj) - set seen)"
      using sub fin by (intro psubset_card_mono) auto
    then show ?thesis by simp
  qed
qed simp

declare hasPath_loop.simps [simp del]

lemmas hasPath_loop_simps = hasPath_loop.simps [unfolded Let_def]

lemma hasPath_loop_sound:
  "hasPath_loop adj e paths seen \<Longrightarrow> \<exists>n \<in> set paths. (n, e) \<in> (main_edges adj)\<^sup>*"
proof (induction adj e paths seen rule: hasPath_loop.induct)
  case (2 adj e nxt paths seen)
  show ?case
  proof (cases "nxt = e")
    case False
    with 2 obtain n where n: "n \<in> set (difference (main_successors adj nxt) (set_add nxt seen)) \<union> set paths"
        "(n, e) \<in> (main_edges adj)\<^sup>*"
      by (auto simp: hasPath_loop_simps)
    then show ?thesis by (auto simp: graph_sets intro: converse_rtrancl_into_rtrancl)
  qed auto
qed (simp add: hasPath_loop_simps)

lemma hasPath_loop_complete:
  "\<not> hasPath_loop adj e paths seen \<Longrightarrow>
   (\<And>x y. x \<in> set seen \<Longrightarrow> (x, y) \<in> main_edges adj \<Longrightarrow> y \<in> set seen \<union> set paths) \<Longrightarrow>
   e \<notin> set seen \<Longrightarrow> n \<in> set seen \<union> set paths \<Longrightarrow> (n, e) \<notin> (main_edges adj)\<^sup>*"
proof (induction adj e paths seen rule: hasPath_loop.induct)
  case (1 adj e seen)
  have "m \<in> set seen" if "(n, m) \<in> (main_edges adj)\<^sup>*" for m
    using that by (induction rule: rtrancl_induct) (use 1 in auto)
  with 1 show ?case by blast
next
  case (2 adj e nxt paths seen)
  then have ne: "nxt \<noteq> e" by (auto simp: hasPath_loop_simps)
  let ?s = "set_add nxt seen"
  show ?case
  proof (rule "2.IH" [OF ne refl])
    show "\<not> hasPath_loop adj e (rev (difference (main_successors adj nxt) ?s) @ paths) ?s"
      using "2.prems"(1) ne by (simp add: hasPath_loop_simps)
    show "y \<in> set ?s \<union> set (rev (difference (main_successors adj nxt) ?s) @ paths)"
      if "x \<in> set ?s" "(x, y) \<in> main_edges adj" for x y
      using that "2.prems"(2) [of x y] by (auto simp: graph_sets)
  qed (use "2.prems" ne in \<open>auto simp: graph_sets\<close>)
qed

lemma hasPath_reachable: "hasPath s e adj \<longleftrightarrow> (s, e) \<in> (main_edges adj)\<^sup>*"
  using hasPath_loop_sound [of adj e "[s]" "[]"] hasPath_loop_complete [of adj e "[s]" "[]" s]
  by (auto simp: hasPath_def)

text \<open>\<^verbatim>\<open>hasPath\<close> decides reachability over main connections (and so its
  loop always ends).\<close>

theorem hasPath_iff: "hasPath start endNode adj \<longleftrightarrow> (start, endNode) \<in> (main_edges adj)\<^sup>*"
  by (rule hasPath_reachable)

section \<open>Extractable selections\<close>

definition entered_nodes :: "string list \<Rightarrow> adjacency \<Rightarrow> string set" where
  "entered_nodes graphIds adj = {conn_node c |f c. (f, c) \<in> set (getInputEdges graphIds adj) \<and> conn_type c = Main_type}"

definition left_nodes :: "string list \<Rightarrow> adjacency \<Rightarrow> string set" where
  "left_nodes graphIds adj = {f |f c. (f, c) \<in> set (getOutputEdges graphIds adj) \<and> conn_type c = Main_type}"

lemma getInputEdges_iff: "(f, c) \<in> set (getInputEdges graphIds adj) \<longleftrightarrow>
    (\<exists>tos. (f, tos) \<in> set adj \<and> f \<notin> set graphIds \<and> c \<in> set tos \<and> conn_node c \<in> set graphIds)"
  unfolding getInputEdges_def in_concat_map_pair by auto

lemma getOutputEdges_iff: "(f, c) \<in> set (getOutputEdges graphIds adj) \<longleftrightarrow>
    (\<exists>tos. (f, tos) \<in> set adj \<and> f \<in> set graphIds \<and> c \<in> set tos \<and> conn_node c \<notin> set graphIds)"
  unfolding getOutputEdges_def in_concat_map_pair by auto

text \<open>The part the two halves of the check have in common: the nodes \<open>ns\<close> that cross the
  border must be among the admissible ones, the roots or the leaves.\<close>

lemma border_check:
  fixes ns adm0 :: "string list"
  defines "adm \<equiv> if length adm0 = 0 \<and> length ns = 1 then ns else adm0"
  assumes "distinct ns"
  shows "difference ns adm = [] \<and> \<not> length (intersection adm ns) > 1 \<longleftrightarrow>
      set ns = {} \<or> (\<exists>a. set ns = {a} \<and> (a \<in> set adm0 \<or> adm0 = []))"
    and "difference ns adm = [] \<Longrightarrow> \<not> length (intersection adm ns) > 1 \<Longrightarrow>
      first_of (intersection adm ns) = first_of ns"
proof -
  have len: "length (intersection adm ns) = card (set adm \<inter> set ns)"
    using distinct_card [OF intersection_distinct] by (metis intersection_set)
  have key: "set ns \<subseteq> set adm \<and> card (set adm \<inter> set ns) \<le> 1 \<longleftrightarrow> set ns \<subseteq> set adm \<and> card (set ns) \<le> 1"
    by (metis inf.absorb2)
  have one: "card (set ns) \<le> 1 \<longleftrightarrow> ns = [] \<or> (\<exists>a. ns = [a])"
    using distinct_card [OF assms(2)] by (cases ns; cases "tl ns") auto
  show "difference ns adm = [] \<and> \<not> length (intersection adm ns) > 1 \<longleftrightarrow>
      set ns = {} \<or> (\<exists>a. set ns = {a} \<and> (a \<in> set adm0 \<or> adm0 = []))"
    (is "?l \<longleftrightarrow> ?r")
  proof
    assume ?l
    then have "set ns \<subseteq> set adm" "ns = [] \<or> (\<exists>a. ns = [a])"
      using key one by (auto simp: difference_Nil_iff len not_less)
    then show ?r by (auto simp: adm_def split: if_splits)
  next
    assume ?r
    then have "card (set ns) \<le> 1" by (elim disjE exE conjE) simp_all
    with one consider "ns = []" | a where "ns = [a]" by blast
    then have "set ns \<subseteq> set adm"
    proof cases
      case 2
      with \<open>?r\<close> have "a \<in> set adm0 \<or> adm0 = []" by simp
      with 2 show ?thesis by (cases "adm0 = []") (simp_all add: adm_def)
    qed simp
    note this \<open>card (set ns) \<le> 1\<close>
    then show ?l using key by (auto simp: difference_Nil_iff len not_less)
  qed
  assume d: "difference ns adm = []" and i: "\<not> length (intersection adm ns) > 1"
  then have "ns = [] \<or> (\<exists>a. ns = [a])" using key one by (auto simp: difference_Nil_iff len not_less)
  then show "first_of (intersection adm ns) = first_of ns"
  proof
    assume "ns = []"
    then show ?thesis using intersection_Nil_iff [of adm ns] by simp
  next
    assume "\<exists>a. ns = [a]"
    then obtain a where a: "ns = [a]" ..
    then have "set (intersection adm ns) = {a}" using d by (auto simp: graph_sets difference_Nil_iff)
    with i show ?thesis using a by (cases "intersection adm ns") (auto simp: first_of_def)
  qed
qed

lemma parse_eq:
  fixes graphIds :: "string list" and adj :: adjacency
  defines "ns \<equiv> set_of_list (map (\<lambda>x. conn_node (snd x))
      (filter (\<lambda>x. conn_type (snd x) = Main_type) (getInputEdges graphIds adj)))"
    and "os \<equiv> set_of_list (map fst (filter (\<lambda>x. conn_type (snd x) = Main_type) (getOutputEdges graphIds adj)))"
  shows "set ns = entered_nodes graphIds adj" and "set os = left_nodes graphIds adj"
    and "parseExtractableSubgraphSelection graphIds adj = Inr (s, e) \<longleftrightarrow>
      (set ns = {} \<or> (\<exists>a. set ns = {a} \<and> (a \<in> set (getRootNodes graphIds adj) \<or> getRootNodes graphIds adj = []))) \<and>
      (set os = {} \<or> (\<exists>a. set os = {a} \<and> (a \<in> set (getLeafNodes graphIds adj) \<or> getLeafNodes graphIds adj = []))) \<and>
      (truthy_string s \<and> truthy_string e \<longrightarrow> hasPath (the s) (the e) adj) \<and>
      s = first_of ns \<and> e = first_of os"
proof -
  show "set ns = entered_nodes graphIds adj" "set os = left_nodes graphIds adj"
    by (force simp: ns_def entered_nodes_def, force simp: os_def left_nodes_def)
  have dn: "distinct ns" and do: "distinct os" by (simp_all add: ns_def os_def)
  note chk = border_check [OF dn, of "getRootNodes graphIds adj"] border_check [OF do, of "getLeafNodes graphIds adj"]
  have "parseExtractableSubgraphSelection graphIds adj = Inr (s, e) \<longleftrightarrow>
    (let r = if length (getRootNodes graphIds adj) = 0 \<and> length ns = 1 then ns else getRootNodes graphIds adj;
         l = if length (getLeafNodes graphIds adj) = 0 \<and> length os = 1 then os else getLeafNodes graphIds adj in
      (difference ns r = [] \<and> \<not> length (intersection r ns) > 1) \<and>
      (difference os l = [] \<and> \<not> length (intersection l os) > 1) \<and>
      (truthy_string s \<and> truthy_string e \<longrightarrow> hasPath (the s) (the e) adj) \<and>
      s = first_of (intersection r ns) \<and> e = first_of (intersection l os))"
    unfolding parseExtractableSubgraphSelection_def ns_def [symmetric] os_def [symmetric] Let_def
    by (auto split: if_splits)
  also have "\<dots> \<longleftrightarrow>
      (set ns = {} \<or> (\<exists>a. set ns = {a} \<and> (a \<in> set (getRootNodes graphIds adj) \<or> getRootNodes graphIds adj = []))) \<and>
      (set os = {} \<or> (\<exists>a. set os = {a} \<and> (a \<in> set (getLeafNodes graphIds adj) \<or> getLeafNodes graphIds adj = []))) \<and>
      (truthy_string s \<and> truthy_string e \<longrightarrow> hasPath (the s) (the e) adj) \<and>
      s = first_of ns \<and> e = first_of os"
    unfolding Let_def using chk by metis
  finally show "parseExtractableSubgraphSelection graphIds adj = Inr (s, e) \<longleftrightarrow>
      (set ns = {} \<or> (\<exists>a. set ns = {a} \<and> (a \<in> set (getRootNodes graphIds adj) \<or> getRootNodes graphIds adj = []))) \<and>
      (set os = {} \<or> (\<exists>a. set os = {a} \<and> (a \<in> set (getLeafNodes graphIds adj) \<or> getLeafNodes graphIds adj = []))) \<and>
      (truthy_string s \<and> truthy_string e \<longrightarrow> hasPath (the s) (the e) adj) \<and>
      s = first_of ns \<and> e = first_of os" .
qed

lemma first_of_set: "set xs = {} \<or> (\<exists>a. set xs = {a}) \<Longrightarrow> set_option (first_of xs) = set xs"
  by (cases xs) (auto simp: first_of_def)

text \<open>A selection is accepted exactly when at most one of its nodes is entered from
  outside by a main connection, and that one is a root (or there is none), at most one is
  left to the outside, and that one is a leaf (or there is none), and the second is
  reachable from the first.\<close>

theorem extractable_accepts:
  "(\<exists>s e. parseExtractableSubgraphSelection graphIds adj = Inr (s, e)) \<longleftrightarrow>
    (entered_nodes graphIds adj = {} \<or> (\<exists>a. entered_nodes graphIds adj = {a} \<and>
       (a \<in> set (getRootNodes graphIds adj) \<or> getRootNodes graphIds adj = []))) \<and>
    (left_nodes graphIds adj = {} \<or> (\<exists>b. left_nodes graphIds adj = {b} \<and>
       (b \<in> set (getLeafNodes graphIds adj) \<or> getLeafNodes graphIds adj = []))) \<and>
    (\<forall>a b. entered_nodes graphIds adj = {a} \<and> left_nodes graphIds adj = {b} \<and> a \<noteq> [] \<and> b \<noteq> [] \<longrightarrow>
       (a, b) \<in> (main_edges adj)\<^sup>*)"
    (is "_ \<longleftrightarrow> ?I \<and> ?O \<and> ?P")
proof -
  define ns where "ns = set_of_list (map (\<lambda>x. conn_node (snd x))
      (filter (\<lambda>x. conn_type (snd x) = Main_type) (getInputEdges graphIds adj)))"
  define os where "os = set_of_list (map fst (filter (\<lambda>x. conn_type (snd x) = Main_type) (getOutputEdges graphIds adj)))"
  note sets = parse_eq(1,2) [of graphIds adj, folded ns_def os_def]
  have tr: "truthy_string (first_of xs) \<longleftrightarrow> (\<exists>a. set xs = {a} \<and> a \<noteq> [])"
    if "set xs = {} \<or> (\<exists>a. set xs = {a})" for xs :: "string list"
    using that by (cases xs) (auto simp: first_of_def)
  have the: "the (first_of xs) = a" if "set xs = {a}" for xs and a :: string
    using that by (cases xs) (auto simp: first_of_def)
  have "?P \<longleftrightarrow> (truthy_string (first_of ns) \<and> truthy_string (first_of os) \<longrightarrow>
      hasPath (the (first_of ns)) (the (first_of os)) adj)" if "?I \<and> ?O"
  proof -
    have n1: "set ns = {} \<or> (\<exists>a. set ns = {a})" and n2: "set os = {} \<or> (\<exists>b. set os = {b})"
      using that unfolding sets by blast+
    consider "set ns = {} \<or> set os = {}" | a b where "set ns = {a}" "set os = {b}"
      using n1 n2 by blast
    then show ?thesis
    proof cases
      case 1
      then show ?thesis
        unfolding sets [symmetric] hasPath_reachable tr [OF n1] tr [OF n2]
        by (elim disjE) simp_all
    next
      case (2 a b)
      then show ?thesis
        unfolding sets [symmetric] hasPath_reachable tr [OF n1] tr [OF n2]
        by (simp add: the [OF 2(1)] the [OF 2(2)])
    qed
  qed
  then have PQ: "?I \<and> ?O \<and> ?P \<longleftrightarrow> ?I \<and> ?O \<and> (truthy_string (first_of ns) \<and> truthy_string (first_of os) \<longrightarrow>
      hasPath (the (first_of ns)) (the (first_of os)) adj)"
    by argo
  have "(\<exists>s e. A \<and> B \<and> C s e \<and> s = x \<and> e = y) \<longleftrightarrow> A \<and> B \<and> C x y" for A B C and x y :: "string option"
    by blast
  then show ?thesis
    unfolding PQ parse_eq(3) [of graphIds adj, folded ns_def os_def] sets .
qed

text \<open>The reported start and end are the node entered from outside and the node
  left to the outside, if any, and every main connection across the border touches them.\<close>

theorem extractable_result:
  assumes "parseExtractableSubgraphSelection graphIds adj = Inr (s, e)"
  shows "set_option s = entered_nodes graphIds adj \<and> set_option e = left_nodes graphIds adj"
  using assms parse_eq [of graphIds adj] first_of_set by metis

definition example_adjacency :: adjacency where
  "example_adjacency = buildAdjacencyList
     [(''T'', [(Main_type, [Some [\<lparr>conn_node = ''A'', conn_type = Main_type, conn_index = 0\<rparr>]])]),
      (''A'', [(Main_type, [Some [\<lparr>conn_node = ''B'', conn_type = Main_type, conn_index = 0\<rparr>]])]),
      (''B'', [(Main_type, [Some [\<lparr>conn_node = ''C'', conn_type = Main_type, conn_index = 0\<rparr>]])])]"

lemma example_adjacency_parse:
  "parseExtractableSubgraphSelection [''A'', ''B''] example_adjacency = Inr (Some ''A'', Some ''B'')"
  by (simp add: parseExtractableSubgraphSelection_def example_adjacency_def buildAdjacencyList_def
      getInputEdges_def getOutputEdges_def getRootNodes_def getLeafNodes_def intersection_def
      union_set_def difference_def set_of_list_def set_add_def set_delete_def adjacent_def
      first_of_def hasPath_def hasPath_loop_simps main_successors_def Let_def)

lemma extractable_accepts_witness:
  "(entered_nodes [''A'', ''B''] example_adjacency = {} \<or>
     (\<exists>a. entered_nodes [''A'', ''B''] example_adjacency = {a} \<and>
       (a \<in> set (getRootNodes [''A'', ''B''] example_adjacency) \<or>
        getRootNodes [''A'', ''B''] example_adjacency = [])))"
  by (rule extractable_accepts [THEN iffD1, THEN conjunct1]) (simp add: example_adjacency_parse)

lemma extractable_result_witness: "entered_nodes [''A'', ''B''] example_adjacency = {''A''}"
  using extractable_result [OF example_adjacency_parse] by simp

section \<open>Building the adjacency list\<close>

lemma buildAdjacencyList_entries:
  "buildAdjacencyList conns = fold (\<lambda>(s, ty, i, v) result.
     obj_set s (case obj_get result s of None \<Rightarrow> [v] | Some vs \<Rightarrow> vs @ [v]) result) (entries conns) []"
proof -
  let ?f = "\<lambda>(s, ty :: string, i :: nat, v) result.
    obj_set s (case obj_get result s of None \<Rightarrow> [v] | Some vs \<Rightarrow> vs @ [v]) (result :: adjacency)"
  have c: "fold (\<lambda>v result. obj_set s (case obj_get result s of None \<Rightarrow> [v] | Some vs \<Rightarrow> vs @ [v]) result) (cell c) =
      fold ?f (map (\<lambda>info. (s, ty, i, info)) (cell c))" for s ty i c
    by (simp add: fold_map comp_def)
  have arr: "fold (\<lambda>c. fold (\<lambda>v result. obj_set s (case obj_get result s of None \<Rightarrow> [v] | Some vs \<Rightarrow> vs @ [v]) result) (cell c)) arr =
      fold ?f (concat (map (\<lambda>(i, c). map (\<lambda>info. (s, ty, i, info)) (cell c)) (List.enumerate n arr)))" for s ty n arr
  proof (induction arr arbitrary: n)
    case (Cons x arr)
    show ?case by (rule ext) (simp add: c [of s x ty n] Cons.IH [of "Suc n"])
  qed simp
  have byType: "fold (\<lambda>(ty, arr). fold (\<lambda>c. fold (\<lambda>v result.
        obj_set s (case obj_get result s of None \<Rightarrow> [v] | Some vs \<Rightarrow> vs @ [v]) result) (cell c)) arr) byType =
      fold ?f (concat (map (\<lambda>(ty, arr). concat (map (\<lambda>(i, c). map (\<lambda>info. (s, ty, i, info)) (cell c))
        (List.enumerate 0 arr))) byType))" for s and byType :: node_connections
  proof (induction byType)
    case (Cons x byType)
    obtain ty a where x: "x = (ty, a)" by (cases x)
    have "fold (\<lambda>c. fold (\<lambda>v result.
        obj_set s (case obj_get result s of None \<Rightarrow> [v] | Some vs \<Rightarrow> vs @ [v]) result) (cell c)) a =
      fold ?f (concat (map (\<lambda>(i, c). map (\<lambda>info. (s, ty, i, info)) (cell c)) (List.enumerate 0 a)))"
      by (rule arr)
    then show ?case using Cons by (simp add: x fold_append)
  qed simp
  have "fold (\<lambda>(s, byType). fold (\<lambda>(ty, arr). fold (\<lambda>c. fold (\<lambda>v result.
        obj_set s (case obj_get result s of None \<Rightarrow> [v] | Some vs \<Rightarrow> vs @ [v]) result) (cell c)) arr) byType) cs =
      fold ?f (entries cs)" for cs
  proof (induction cs)
    case (Cons x cs)
    obtain s b where x: "x = (s, b)" by (cases x)
    show ?case using byType [of s b] Cons by (simp add: x entries_def)
  qed (simp add: entries_def)
  then show ?thesis by (simp add: buildAdjacencyList_def)
qed

text \<open>The adjacency list of a table holds, for each node, its outgoing connections
  of every type in the order of the table.\<close>

theorem buildAdjacencyList_spec:
  "adjacent (buildAdjacencyList conns) n = [info. (s, ty, i, info) \<leftarrow> entries conns, s = n]"
proof -
  have "adjacent (fold (\<lambda>(s, ty, i, v) result.
      obj_set s (case obj_get result s of None \<Rightarrow> [v] | Some vs \<Rightarrow> vs @ [v]) result) es r) n =
      adjacent r n @ [info. (s, ty, i, info) \<leftarrow> es, s = n]"
    for es :: "(string \<times> string \<times> nat \<times> connection) list" and r :: adjacency
  proof (induction es arbitrary: r)
    case (Cons e es)
    obtain s ty i v where "e = (s, ty, i, v)" by (cases e)
    then show ?case using Cons [of "obj_set s (case obj_get r s of None \<Rightarrow> [v] | Some vs \<Rightarrow> vs @ [v]) r"]
      by (auto simp: adjacent_def split: option.splits)
  qed simp
  moreover have "adjacent [] n = []" by (simp add: adjacent_def)
  ultimately show ?thesis by (simp only: buildAdjacencyList_entries append_Nil)
qed

end
