(* ===== verification/Directed_Graph.thy ===== *)
theory Directed_Graph
  imports N8n_Types
begin

text \<open>
  \<^verbatim>\<open>DirectedGraph\<close>, the graph of partial executions
  (\<^verbatim>\<open>packages/core/src/execution-engine/partial-execution-utils/directed-graph.ts\<close>).

  The class keeps nodes by name and connections by a key made of their fields. Methods that
  assert return \<open>Inl AssertionError\<close> when the assertion fails. The code compares nodes by
  object identity; the model compares them field by field, which is the same in a
  well-formed graph, where a name stands for one node. The recursive methods take fuel,
  and the theorems show that the fuel their callers give is enough.
\<close>

datatype graph_error = AssertionError | UndefinedProperty | OutOfFuel

record gconn =
  gc_from :: inode
  gc_to :: inode
  gc_type :: string
  gc_outputIndex :: nat
  gc_inputIndex :: nat

record graph =
  g_nodes :: "(string, inode) obj"
  g_conns :: "(string, gconn) obj"

definition empty_graph :: graph where
  "empty_graph = \<lparr>g_nodes = [], g_conns = []\<rparr>"

section \<open>Operations\<close>

definition makeKey :: "gconn \<Rightarrow> string" where
  "makeKey c = node_name (gc_from c) @ ''-'' @ gc_type c @ ''-'' @ string_of_nat (gc_outputIndex c)
     @ ''-'' @ string_of_nat (gc_inputIndex c) @ ''-'' @ node_name (gc_to c)"

definition hasNode :: "string \<Rightarrow> graph \<Rightarrow> bool" where
  "hasNode nodeName g = obj_has (g_nodes g) nodeName"

definition getNodesByNames :: "string list \<Rightarrow> graph \<Rightarrow> inode list" where
  "getNodesByNames names g =
     fold (\<lambda>name nodes. case obj_get (g_nodes g) name of None \<Rightarrow> nodes | Some n \<Rightarrow> set_add n nodes) names []"

definition getConnections :: "inode option \<Rightarrow> graph \<Rightarrow> gconn list" where
  "getConnections to g =
     filter (\<lambda>c. case to of None \<Rightarrow> True | Some n \<Rightarrow> gc_to c = n) (obj_values (g_conns g))"

definition addNode :: "inode \<Rightarrow> graph \<Rightarrow> graph" where
  "addNode node g = g\<lparr>g_nodes := obj_set (node_name node) node (g_nodes g)\<rparr>"

definition addNodes :: "inode list \<Rightarrow> graph \<Rightarrow> graph" where
  "addNodes ns g = fold addNode ns g"

text \<open>\<^verbatim>\<open>this.nodes.get(node.name) === node\<close>\<close>

definition has_this_node :: "graph \<Rightarrow> inode \<Rightarrow> bool" where
  "has_this_node g node \<longleftrightarrow> obj_get (g_nodes g) (node_name node) = Some node"

definition getDirectChildConnections :: "graph \<Rightarrow> inode \<Rightarrow> graph_error + gconn list" where
  "getDirectChildConnections g node =
     bindE (guardE (has_this_node g node) AssertionError)
       (\<lambda>_. Inr (filter (\<lambda>c. gc_from c = node) (obj_values (g_conns g))))"

definition getDirectParentConnections :: "graph \<Rightarrow> inode \<Rightarrow> graph_error + gconn list" where
  "getDirectParentConnections g node =
     bindE (guardE (has_this_node g node) AssertionError)
       (\<lambda>_. Inr (filter (\<lambda>c. gc_to c = node) (obj_values (g_conns g))))"

definition addConnection ::
  "inode \<Rightarrow> inode \<Rightarrow> string option \<Rightarrow> nat option \<Rightarrow> nat option \<Rightarrow> graph \<Rightarrow> graph_error + graph" where
  "addConnection from to ty outputIndex inputIndex g =
     bindE (guardE (has_this_node g from) AssertionError) (\<lambda>_.
     bindE (guardE (has_this_node g to) AssertionError) (\<lambda>_.
       let connection = \<lparr>gc_from = from, gc_to = to,
             gc_type = (case ty of None \<Rightarrow> Main_type | Some t \<Rightarrow> t),
             gc_outputIndex = (case outputIndex of None \<Rightarrow> 0 | Some i \<Rightarrow> i),
             gc_inputIndex = (case inputIndex of None \<Rightarrow> 0 | Some i \<Rightarrow> i)\<rparr>
       in Inr (g\<lparr>g_conns := obj_set (makeKey connection) connection (g_conns g)\<rparr>)))"

text \<open>\<^verbatim>\<open>addConnection\<close> given a connection with all of its fields.\<close>

definition addGConn :: "gconn \<Rightarrow> graph \<Rightarrow> graph_error + graph" where
  "addGConn c g = addConnection (gc_from c) (gc_to c) (Some (gc_type c))
     (Some (gc_outputIndex c)) (Some (gc_inputIndex c)) g"

definition addConnections :: "gconn list \<Rightarrow> graph \<Rightarrow> graph_error + graph" where
  "addConnections cs g = foldE addGConn cs g"

definition rewired_connections ::
  "(gconn \<Rightarrow> bool) \<Rightarrow> gconn list \<Rightarrow> gconn list \<Rightarrow> gconn list" where
  "rewired_connections skip incoming outgoing =
     concat (map (\<lambda>i. if skip i then [] else
       concat (map (\<lambda>out. if skip out then [] else
         [i\<lparr>gc_to := gc_to out, gc_inputIndex := gc_inputIndex out\<rparr>]) outgoing)) incoming)"

definition drop_node :: "inode \<Rightarrow> (string, gconn) obj \<Rightarrow> (string, gconn) obj" where
  "drop_node node cs = filter (\<lambda>(k, c). \<not> (gc_to c = node \<or> gc_from c = node)) cs"

text \<open>\<^verbatim>\<open>removeNode\<close>: without options, and with \<^verbatim>\<open>reconnectConnections\<close>
  (which also returns the new connections).\<close>

definition removeNode :: "inode \<Rightarrow> graph \<Rightarrow> graph" where
  "removeNode node g =
     \<lparr>g_nodes = obj_delete (node_name node) (g_nodes g), g_conns = drop_node node (g_conns g)\<rparr>"

definition removeNode_reconnect ::
  "(gconn \<Rightarrow> bool) \<Rightarrow> inode \<Rightarrow> graph \<Rightarrow> graph_error + (graph \<times> gconn list)" where
  "removeNode_reconnect skip node g =
     bindE (getDirectParentConnections g node) (\<lambda>incoming.
     bindE (getDirectChildConnections g node) (\<lambda>outgoing.
       let newConnections = rewired_connections skip incoming outgoing
       in Inr (\<lparr>g_nodes = obj_delete (node_name node) (g_nodes g),
                g_conns = fold (\<lambda>c. obj_set (makeKey c) c) newConnections (drop_node node (g_conns g))\<rparr>,
              newConnections)))"

definition getConnection :: "inode \<Rightarrow> nat \<Rightarrow> string \<Rightarrow> nat \<Rightarrow> inode \<Rightarrow> graph \<Rightarrow> gconn option" where
  "getConnection from outputIndex ty inputIndex to g =
     obj_get (g_conns g) (makeKey \<lparr>gc_from = from, gc_to = to, gc_type = ty,
       gc_outputIndex = outputIndex, gc_inputIndex = inputIndex\<rparr>)"

fun getChildrenRecursive :: "graph \<Rightarrow> nat \<Rightarrow> inode \<Rightarrow> inode list \<Rightarrow> graph_error + inode list" where
  "getChildrenRecursive g 0 node children = Inl OutOfFuel"
| "getChildrenRecursive g (Suc fuel) node children =
     bindE (getDirectChildConnections g node) (\<lambda>directChildren.
       foldE (\<lambda>directChild children.
         if gc_to directChild \<in> set children then Inr children
         else getChildrenRecursive g fuel (gc_to directChild) (children @ [gc_to directChild]))
       directChildren children)"

definition getChildren :: "graph \<Rightarrow> inode \<Rightarrow> graph_error + inode list" where
  "getChildren g node = getChildrenRecursive g (Suc (length (g_conns g))) node []"

fun getParentConnectionsRecursive ::
  "graph \<Rightarrow> nat \<Rightarrow> inode \<Rightarrow> gconn list \<Rightarrow> graph_error + gconn list" where
  "getParentConnectionsRecursive g 0 node connections = Inl OutOfFuel"
| "getParentConnectionsRecursive g (Suc fuel) node connections =
     bindE (getDirectParentConnections g node) (\<lambda>parentConnections.
       foldE (\<lambda>connection connections.
         if connection \<in> set connections then Inr connections
         else getParentConnectionsRecursive g fuel (gc_from connection) (connections @ [connection]))
       parentConnections connections)"

definition getParentConnections :: "graph \<Rightarrow> inode \<Rightarrow> graph_error + gconn list" where
  "getParentConnections g node = getParentConnectionsRecursive g (Suc (length (g_conns g))) node []"

fun depthFirstSearchRecursive ::
  "graph \<Rightarrow> (inode \<Rightarrow> bool) \<Rightarrow> nat \<Rightarrow> inode \<Rightarrow> inode list \<Rightarrow> graph_error + (inode option \<times> inode list)" where
  "depthFirstSearchRecursive g fn 0 from seen = Inl OutOfFuel"
| "depthFirstSearchRecursive g fn (Suc fuel) from seen =
     (if from \<in> set seen then Inr (None, seen)
      else if fn from then Inr (Some from, seen @ [from])
      else bindE (getDirectChildConnections g from) (\<lambda>cs.
        foldE (\<lambda>childConnection (found, seen).
          case found of
            Some n \<Rightarrow> Inr (Some n, seen)
          | None \<Rightarrow> depthFirstSearchRecursive g fn fuel (gc_to childConnection) seen)
        cs (None, seen @ [from])))"

definition depthFirstSearch :: "graph \<Rightarrow> inode \<Rightarrow> (inode \<Rightarrow> bool) \<Rightarrow> graph_error + inode option" where
  "depthFirstSearch g from fn =
     bindE (depthFirstSearchRecursive g fn (Suc (length (g_nodes g))) from []) (\<lambda>r. Inr (fst r))"

text \<open>
  \<^verbatim>\<open>getStronglyConnectedComponents\<close>. The stack has its top at the head of the
  list; \<open>pop_component\<close> is the loop that pops the nodes of one component.
\<close>

record scc_state =
  scc_id :: nat
  scc_visited :: "inode list"
  scc_ids :: "(inode, nat) obj"
  scc_low :: "(inode, nat) obj"
  scc_stack :: "inode list"
  scc_found :: "inode list list"

fun pop_component :: "(inode, nat) obj \<Rightarrow> nat \<Rightarrow> inode list \<Rightarrow> inode list \<Rightarrow> inode list \<times> inode list" where
  "pop_component low ownId [] scc = ([], scc)"
| "pop_component low ownId (nxt # stack) scc =
     (if obj_get low nxt = Some ownId then pop_component low ownId stack (set_add nxt scc)
      else (nxt # stack, scc))"

definition lower_link :: "inode \<Rightarrow> inode \<Rightarrow> scc_state \<Rightarrow> graph_error + scc_state" where
  "lower_link node child st =
     (if child \<in> set (scc_stack st) then
        (case (obj_get (scc_low st) child, obj_get (scc_low st) node) of
           (Some childLow, Some ownLow) \<Rightarrow>
             Inr (st\<lparr>scc_low := obj_set node (min childLow ownLow) (scc_low st)\<rparr>)
         | _ \<Rightarrow> Inl AssertionError)
      else Inr st)"

definition close_component :: "inode \<Rightarrow> scc_state \<Rightarrow> graph_error + scc_state" where
  "close_component node st =
     (case (obj_get (scc_ids st) node, obj_get (scc_low st) node) of
        (Some ownId, Some ownLow) \<Rightarrow>
          (if ownId = ownLow then
             let (stack, scc) = pop_component (scc_low st) ownId (scc_stack st) []
             in Inr (st\<lparr>scc_stack := stack,
                        scc_found := (if scc \<noteq> [] then scc_found st @ [scc] else scc_found st)\<rparr>)
           else Inr st)
      | _ \<Rightarrow> Inl AssertionError)"

definition open_node :: "inode \<Rightarrow> scc_state \<Rightarrow> scc_state" where
  "open_node node st = st\<lparr>scc_visited := scc_visited st @ [node],
     scc_low := obj_set node (scc_id st) (scc_low st), scc_ids := obj_set node (scc_id st) (scc_ids st),
     scc_id := Suc (scc_id st), scc_stack := node # scc_stack st\<rparr>"

fun followNode :: "graph \<Rightarrow> nat \<Rightarrow> inode \<Rightarrow> scc_state \<Rightarrow> graph_error + scc_state" where
  "followNode g 0 node st = Inl OutOfFuel"
| "followNode g (Suc fuel) node st =
     (if node \<in> set (scc_visited st) then Inr st
      else bindE (getDirectChildConnections g node) (\<lambda>cs.
        bindE (foldE (\<lambda>child st. bindE (followNode g fuel child st) (lower_link node child))
                 (map gc_to cs) (open_node node st))
          (close_component node)))"

definition getStronglyConnectedComponents :: "graph \<Rightarrow> graph_error + inode list list" where
  "getStronglyConnectedComponents g =
     bindE (foldE (followNode g (Suc (length (g_nodes g)))) (obj_values (g_nodes g))
       \<lparr>scc_id = 0, scc_visited = [], scc_ids = [], scc_low = [], scc_stack = [], scc_found = []\<rparr>)
       (\<lambda>st. Inr (scc_found st))"

section \<open>Import and export\<close>

text \<open>
  The nested loops both constructors share: \<open>lookup\<close> finds a node by name, and a name
  it does not find is a failed assertion.
\<close>

definition add_outputs ::
  "(string \<Rightarrow> inode option) \<Rightarrow> inode \<Rightarrow> string \<Rightarrow> nat \<times> connection list option \<Rightarrow> graph \<Rightarrow> graph_error + graph" where
  "add_outputs lookup from outputType out g = (case out of (outputIndex, conns) \<Rightarrow>
     foldE (\<lambda>conn g. case lookup (conn_node conn) of
         None \<Rightarrow> Inl AssertionError
       | Some to \<Rightarrow> addConnection from to (Some outputType) (Some outputIndex) (Some (conn_index conn)) g)
     (cell conns) g)"

definition add_iconnections :: "(string \<Rightarrow> inode option) \<Rightarrow> connections \<Rightarrow> graph \<Rightarrow> graph_error + graph" where
  "add_iconnections lookup connections g =
     foldE (\<lambda>(fromNodeName, iConnection) g.
       case lookup fromNodeName of
         None \<Rightarrow> Inl AssertionError
       | Some from \<Rightarrow> foldE (\<lambda>(outputType, outputs) g.
           foldE (add_outputs lookup from outputType) (enumerate 0 outputs) g) iConnection g)
     connections g"

definition fromWorkflow :: "(string, inode) obj \<Rightarrow> connections \<Rightarrow> graph_error + graph" where
  "fromWorkflow nodes connectionsBySourceNode =
     add_iconnections (obj_get nodes) connectionsBySourceNode (addNodes (obj_values nodes) empty_graph)"

definition fromNodesAndConnections :: "inode list \<Rightarrow> connections \<Rightarrow> graph_error + graph" where
  "fromNodesAndConnections nodes connections =
     add_iconnections (obj_get (fold (\<lambda>n. obj_set (node_name n) n) nodes [])) connections
       (addNodes nodes empty_graph)"

definition clone :: "graph \<Rightarrow> graph_error + graph" where
  "clone g = addConnections (getConnections None g) (addNodes (obj_values (g_nodes g)) empty_graph)"

text \<open>One step of \<^verbatim>\<open>toIConnections\<close>: the entry of a node is made with the one
  connection type that comes first, so reading another type of it is reading a property of
  \<^verbatim>\<open>undefined\<close>.\<close>

definition out_cell :: "node_input_connections \<Rightarrow> nat \<Rightarrow> connection list" where
  "out_cell outs i = (case arr_get outs i of Some (Some grp) \<Rightarrow> grp | _ \<Rightarrow> [])"

definition put_iconnection :: "gconn \<Rightarrow> connections \<Rightarrow> graph_error + connections" where
  "put_iconnection c result =
     (let name = node_name (gc_from c); ty = gc_type c;
          resultConnection = (case obj_get result name of None \<Rightarrow> [(ty, [])] | Some r \<Rightarrow> r)
      in case obj_get resultConnection ty of
           None \<Rightarrow> Inl UndefinedProperty
         | Some outs \<Rightarrow>
             let grp = out_cell outs (gc_outputIndex c);
                 entry = \<lparr>conn_node = node_name (gc_to c), conn_type = ty, conn_index = gc_inputIndex c\<rparr>
             in Inr (obj_set name (obj_set ty
                  (arr_put None (gc_outputIndex c) (Some (grp @ [entry])) outs) resultConnection) result))"

definition toIConnections :: "graph \<Rightarrow> graph_error + connections" where
  "toIConnections g = foldE put_iconnection (obj_values (g_conns g)) []"

text \<open>\<^verbatim>\<open>toWorkflow\<close>: the nodes and the connections it hands to the workflow.\<close>

definition toWorkflow :: "graph \<Rightarrow> graph_error + (inode list \<times> connections)" where
  "toWorkflow g = bindE (toIConnections g) (\<lambda>conns. Inr (obj_values (g_nodes g), conns))"

section \<open>Well-formed graphs\<close>

text \<open>
  A node is stored under its name, a connection under its key, and both ends of a
  connection are nodes of the graph.
\<close>

definition g_wf :: "graph \<Rightarrow> bool" where
  "g_wf g \<longleftrightarrow> obj_wf (g_nodes g) \<and> obj_wf (g_conns g) \<and>
     (\<forall>(k, n) \<in> set (g_nodes g). k = node_name n) \<and>
     (\<forall>(k, c) \<in> set (g_conns g). k = makeKey c \<and> has_this_node g (gc_from c) \<and> has_this_node g (gc_to c))"

named_theorems graph_defs \<open>what a graph holds after an operation\<close>

definition graph_nodes :: "graph \<Rightarrow> inode set" where
  "graph_nodes g = set (obj_values (g_nodes g))"

definition graph_conns :: "graph \<Rightarrow> gconn set" where
  "graph_conns g = set (obj_values (g_conns g))"

lemma graph_conns_card: "card (graph_conns g) \<le> length (g_conns g)"
  unfolding graph_conns_def by (rule order_trans [OF card_length]) simp

lemma graph_nodes_card: "card (graph_nodes g) \<le> length (g_nodes g)"
  unfolding graph_nodes_def by (rule order_trans [OF card_length]) simp

lemma graph_finite [simp]: "finite (graph_nodes g)" "finite (graph_conns g)"
  by (simp_all add: graph_nodes_def graph_conns_def)

lemma has_this_node_iff:
  assumes "g_wf g"
  shows "has_this_node g n \<longleftrightarrow> n \<in> graph_nodes g"
proof
  assume "has_this_node g n"
  then show "n \<in> graph_nodes g"
    by (force simp: has_this_node_def graph_nodes_def dest: map_of_SomeD)
next
  assume "n \<in> graph_nodes g"
  then obtain k where k: "(k, n) \<in> set (g_nodes g)" by (auto simp: graph_nodes_def)
  with assms have "k = node_name n" "map_of (g_nodes g) k = Some n"
    by (auto simp: g_wf_def obj_wf_in)
  then show "has_this_node g n" by (simp add: has_this_node_def)
qed

lemma g_wf_endpoints:
  "g_wf g \<Longrightarrow> c \<in> graph_conns g \<Longrightarrow> has_this_node g (gc_from c)"
  "g_wf g \<Longrightarrow> c \<in> graph_conns g \<Longrightarrow> has_this_node g (gc_to c)"
  by (auto simp: g_wf_def graph_conns_def)

lemma graph_nodes_fold [simp]: "snd ` set (g_nodes g) = graph_nodes g"
  by (simp add: graph_nodes_def)

lemma graph_conns_fold [simp]: "snd ` set (g_conns g) = graph_conns g"
  by (simp add: graph_conns_def)

lemma g_wf_empty [simp]: "g_wf empty_graph"
  by (simp add: g_wf_def empty_graph_def)

lemma getDirectChildConnections_ok [graph_defs]:
  "has_this_node g n \<Longrightarrow> getDirectChildConnections g n = Inr (filter (\<lambda>c. gc_from c = n) (obj_values (g_conns g)))"
  by (simp add: getDirectChildConnections_def)

lemma getDirectParentConnections_ok [graph_defs]:
  "has_this_node g n \<Longrightarrow> getDirectParentConnections g n = Inr (filter (\<lambda>c. gc_to c = n) (obj_values (g_conns g)))"
  by (simp add: getDirectParentConnections_def)

section \<open>Children and parents\<close>

definition child_edges :: "graph \<Rightarrow> (inode \<times> inode) set" where
  "child_edges g = {(gc_from c, gc_to c) | c. c \<in> graph_conns g}"

definition child_nodes :: "graph \<Rightarrow> inode \<Rightarrow> graph_error + inode list" where
  "child_nodes g n = bindE (getDirectChildConnections g n) (\<lambda>cs. Inr (map gc_to cs))"

lemma child_edges_has_node: "g_wf g \<Longrightarrow> (a, b) \<in> child_edges g \<Longrightarrow> has_this_node g a \<and> has_this_node g b"
  by (auto simp: child_edges_def g_wf_endpoints)

lemma child_nodes_ok: "has_this_node g n \<Longrightarrow> ok_set (child_nodes g n) = child_edges g `` {n}"
  by (force simp: child_nodes_def graph_defs child_edges_def)

interpretation children: marking_search getChildrenRecursive child_nodes "\<lambda>n. n"
  by unfold_locales (simp add: child_nodes_def bindE_assoc foldE_map)

interpretation parents: marking_search getParentConnectionsRecursive getDirectParentConnections gc_from
  by unfold_locales simp

lemma rtrancl_restrict:
  assumes "(a, b) \<in> R\<^sup>*" "a \<in> A" "\<And>x y. x \<in> A \<Longrightarrow> (x, y) \<in> R \<Longrightarrow> (x, y) \<in> S \<and> y \<in> A"
  shows "(a, b) \<in> S\<^sup>*"
proof -
  have "(a, b) \<in> S\<^sup>* \<and> b \<in> A"
    using assms(1,2) by (induction) (auto dest: assms(3) intro: rtrancl_into_rtrancl)
  then show ?thesis by blast
qed

lemma getChildren_spec:
  assumes wf: "g_wf g" and n: "has_this_node g node"
  shows "\<exists>ch. getChildren g node = Inr ch \<and> distinct ch \<and> set ch = {m. (node, m) \<in> (child_edges g)\<^sup>+}"
proof -
  let ?G = "{n. has_this_node g n}" and ?U = "gc_to ` graph_conns g"
  let ?E = "{(i, j). j \<in> ok_set (child_nodes g i)}"
  have good: "\<exists>js. child_nodes g x = Inr js \<and> set js \<subseteq> ?U \<and> (\<lambda>n. n) ` set js \<subseteq> ?G" if "x \<in> ?G" for x
    using that by (auto simp: child_nodes_def graph_defs g_wf_endpoints [OF wf])
  have "card ?U \<le> length (g_conns g)"
    by (rule order_trans [OF card_image_le graph_conns_card]) simp
  then have fuel: "card ?U < Suc (length (g_conns g))" by simp
  have E: "(i, j) \<in> ?E\<^sup>* \<longleftrightarrow> (i, j) \<in> (child_edges g)\<^sup>*" if "has_this_node g i" for i j
  proof
    assume "(i, j) \<in> ?E\<^sup>*"
    then show "(i, j) \<in> (child_edges g)\<^sup>*"
      by (rule rtrancl_restrict [where A = ?G]) (use that child_edges_has_node [OF wf] in \<open>auto simp: child_nodes_ok\<close>)
  next
    assume "(i, j) \<in> (child_edges g)\<^sup>*"
    then show "(i, j) \<in> ?E\<^sup>*"
      by (rule rtrancl_restrict [where A = ?G]) (use that child_edges_has_node [OF wf] in \<open>auto simp: child_nodes_ok\<close>)
  qed
  from children.search_reachable [OF good _ _ fuel, of node] n
  obtain N where N: "getChildren g node = Inr N" "distinct N"
    "set N = {j. \<exists>i \<in> ok_set (child_nodes g node). (i, j) \<in> ?E\<^sup>*}"
    by (auto simp: getChildren_def)
  have "(\<exists>i \<in> ok_set (child_nodes g node). (i, j) \<in> ?E\<^sup>*) \<longleftrightarrow> (node, j) \<in> (child_edges g)\<^sup>+" for j
    using E child_edges_has_node [OF wf] by (auto simp: child_nodes_ok [OF n] trancl_unfold_left)
  with N show ?thesis by auto
qed

lemma getParentConnections_spec:
  assumes wf: "g_wf g" and n: "has_this_node g node"
  shows "\<exists>cs. getParentConnections g node = Inr cs \<and> distinct cs \<and>
    set cs = {c \<in> graph_conns g. (gc_to c, node) \<in> (child_edges g)\<^sup>*}"
proof -
  let ?G = "{n. has_this_node g n}" and ?U = "graph_conns g"
  let ?E = "{(i, j). j \<in> ok_set (getDirectParentConnections g (gc_from i))}"
  have good: "\<exists>js. getDirectParentConnections g x = Inr js \<and> set js \<subseteq> ?U \<and> gc_from ` set js \<subseteq> ?G"
    if "x \<in> ?G" for x
    using that by (auto simp: graph_defs g_wf_endpoints [OF wf])
  have "card ?U \<le> length (g_conns g)" by (rule graph_conns_card)
  then have fuel: "card ?U < Suc (length (g_conns g))" by simp
  have step: "j \<in> ok_set (getDirectParentConnections g m) \<longleftrightarrow> j \<in> ?U \<and> gc_to j = m" if "has_this_node g m" for j m
    using that by (auto simp: graph_defs)
  have E1: "j \<in> ?U \<and> (gc_to j, gc_to i) \<in> (child_edges g)\<^sup>*" if "(i, j) \<in> ?E\<^sup>*" "i \<in> ?U" for i j
    using that
  proof (induction)
    case (step j k)
    then have j: "j \<in> ?U" "(gc_to j, gc_to i) \<in> (child_edges g)\<^sup>*" by auto
    then have "k \<in> ?U \<and> gc_to k = gc_from j"
      using step(2) g_wf_endpoints [OF wf j(1)] by (auto simp: graph_defs)
    moreover have "(gc_from j, gc_to j) \<in> child_edges g" using j(1) by (auto simp: child_edges_def)
    ultimately show ?case using j(2) by (auto intro: converse_rtrancl_into_rtrancl)
  qed simp
  have E2: "\<exists>i \<in> ?U. gc_to i = node \<and> (i, j) \<in> ?E\<^sup>*"
    if "(m, node) \<in> (child_edges g)\<^sup>*" "j \<in> ?U" "gc_to j = m" for m j
    using that
  proof (induction arbitrary: j rule: converse_rtrancl_induct)
    case (step y z)
    from step(1) obtain c where c: "c \<in> ?U" "gc_from c = y" "gc_to c = z" by (auto simp: child_edges_def)
    from step.IH [OF c(1,3)] obtain i where i: "i \<in> ?U" "gc_to i = node" "(i, c) \<in> ?E\<^sup>*" by blast
    have "(c, j) \<in> ?E" using step(4,5) c g_wf_endpoints [OF wf c(1)] by (auto simp: graph_defs)
    with i show ?case by (blast intro: rtrancl_into_rtrancl)
  qed auto
  from parents.search_reachable [OF good _ _ fuel, of node] n
  obtain N where N: "getParentConnections g node = Inr N" "distinct N"
    "set N = {j. \<exists>i \<in> ok_set (getDirectParentConnections g node). (i, j) \<in> ?E\<^sup>*}"
    by (auto simp: getParentConnections_def)
  have "(\<exists>i \<in> ok_set (getDirectParentConnections g node). (i, j) \<in> ?E\<^sup>*) \<longleftrightarrow>
      j \<in> ?U \<and> (gc_to j, node) \<in> (child_edges g)\<^sup>*" for j
    using E1 [of _ j] E2 [of "gc_to j" j] step [OF n] by metis
  with N show ?thesis by auto
qed

section \<open>The invariant\<close>

lemma g_wf_addNode:
  assumes "g_wf g" "obj_get (g_nodes g) (node_name node) = None \<or> has_this_node g node"
  shows "g_wf (addNode node g)"
proof -
  have "has_this_node (addNode node g) n" if "has_this_node g n" for n
    using that assms(2) by (auto simp: has_this_node_def addNode_def)
  with assms(1) show ?thesis
    by (fastforce simp: g_wf_def addNode_def dest: obj_set_in)
qed

lemma obj_set_absent: "map_of m k = None \<Longrightarrow> obj_set k v m = m @ [(k, v)]"
  by (induction m) (auto split: if_splits)

lemma obj_set_same: "map_of m k = Some v \<Longrightarrow> obj_set k v m = m"
  by (induction m) (auto split: if_splits)

lemma addConnection_ok:
  "has_this_node g from \<Longrightarrow> has_this_node g to \<Longrightarrow> addConnection from to ty oi ii g =
     (let c = \<lparr>gc_from = from, gc_to = to, gc_type = (case ty of None \<Rightarrow> Main_type | Some t \<Rightarrow> t),
        gc_outputIndex = (case oi of None \<Rightarrow> 0 | Some i \<Rightarrow> i),
        gc_inputIndex = (case ii of None \<Rightarrow> 0 | Some i \<Rightarrow> i)\<rparr>
      in Inr (g\<lparr>g_conns := obj_set (makeKey c) c (g_conns g)\<rparr>))"
  by (simp add: addConnection_def)

lemma addGConn_ok [graph_defs]:
  "has_this_node g (gc_from c) \<Longrightarrow> has_this_node g (gc_to c) \<Longrightarrow>
     addGConn c g = Inr (g\<lparr>g_conns := obj_set (makeKey c) c (g_conns g)\<rparr>)"
  by (cases c) (simp add: addGConn_def addConnection_ok Let_def)

lemma addConnection_Inr:
  assumes "addConnection from to ty oi ii g = Inr g'"
  shows "\<exists>c. has_this_node g (gc_from c) \<and> has_this_node g (gc_to c) \<and>
     gc_from c = from \<and> gc_to c = to \<and> g' = g\<lparr>g_conns := obj_set (makeKey c) c (g_conns g)\<rparr>"
proof -
  define c where "c = \<lparr>gc_from = from, gc_to = to, gc_type = (case ty of None \<Rightarrow> Main_type | Some t \<Rightarrow> t),
        gc_outputIndex = (case oi of None \<Rightarrow> 0 | Some i \<Rightarrow> i),
        gc_inputIndex = (case ii of None \<Rightarrow> 0 | Some i \<Rightarrow> i)\<rparr>"
  have "has_this_node g from" "has_this_node g to" "g' = g\<lparr>g_conns := obj_set (makeKey c) c (g_conns g)\<rparr>"
    using assms by (auto simp: addConnection_def bindE_Inr_iff Let_def c_def)
  then show ?thesis by (intro exI [of _ c]) (simp add: c_def)
qed

lemma has_this_node_conns [simp]: "has_this_node (g\<lparr>g_conns := cs\<rparr>) n = has_this_node g n"
  by (simp add: has_this_node_def)

lemma g_wf_set_conn:
  "g_wf g \<Longrightarrow> has_this_node g (gc_from c) \<Longrightarrow> has_this_node g (gc_to c) \<Longrightarrow>
     g_wf (g\<lparr>g_conns := obj_set (makeKey c) c (g_conns g)\<rparr>)"
  by (fastforce simp: g_wf_def dest: obj_set_in)

lemma g_wf_addConnection: "g_wf g \<Longrightarrow> addConnection from to ty oi ii g = Inr g' \<Longrightarrow> g_wf g'"
  using addConnection_Inr g_wf_set_conn by blast

lemma drop_node_in: "(k, c) \<in> set (drop_node n cs) \<longleftrightarrow> (k, c) \<in> set cs \<and> gc_to c \<noteq> n \<and> gc_from c \<noteq> n"
  by (auto simp: drop_node_def)

lemma obj_wf_filter: "obj_wf m \<Longrightarrow> obj_wf (filter P m)"
  by (simp add: obj_wf_def distinct_map_filter)

lemma removeNode_simps [simp]:
  "g_nodes (removeNode node g) = obj_delete (node_name node) (g_nodes g)"
  "g_conns (removeNode node g) = drop_node node (g_conns g)"
  by (simp_all add: removeNode_def)

lemma has_this_node_removeNode:
  "has_this_node g n \<Longrightarrow> has_this_node g m \<Longrightarrow> m \<noteq> n \<Longrightarrow> has_this_node (removeNode n g) m"
  by (auto simp: has_this_node_def)

lemma g_wf_removeNode:
  assumes wf: "g_wf g" and n: "has_this_node g node"
  shows "g_wf (removeNode node g)"
  using wf has_this_node_removeNode [OF n]
  by (auto simp: g_wf_def obj_delete_in drop_node_in) (auto simp: drop_node_def obj_wf_filter)

lemma rewired_in: "c \<in> set (rewired_connections skip inc out) \<longleftrightarrow>
    (\<exists>i \<in> set inc. \<exists>x \<in> set out. \<not> skip i \<and> \<not> skip x \<and> c = i\<lparr>gc_to := gc_to x, gc_inputIndex := gc_inputIndex x\<rparr>)"
  by (auto simp: rewired_connections_def split: if_splits)

lemma fold_set_conns:
  assumes "g_wf g" "\<forall>c \<in> set cs. has_this_node g (gc_from c) \<and> has_this_node g (gc_to c)"
  shows "g_wf (g\<lparr>g_conns := fold (\<lambda>c. obj_set (makeKey c) c) cs (g_conns g)\<rparr>)"
  using assms
proof (induction cs arbitrary: g)
  case (Cons c cs)
  have "g_wf (g\<lparr>g_conns := obj_set (makeKey c) c (g_conns g)\<rparr>)"
    by (rule g_wf_set_conn) (use Cons.prems in auto)
  from Cons.IH [OF this] Cons.prems(2) show ?case by simp
qed simp

lemma removeNode_reconnect_eq:
  "has_this_node g node \<Longrightarrow> removeNode_reconnect skip node g =
    (let new = rewired_connections skip (filter (\<lambda>c. gc_to c = node) (obj_values (g_conns g)))
                 (filter (\<lambda>c. gc_from c = node) (obj_values (g_conns g)))
     in Inr ((removeNode node g)\<lparr>g_conns := fold (\<lambda>c. obj_set (makeKey c) c) new
          (g_conns (removeNode node g))\<rparr>, new))"
  by (simp add: removeNode_reconnect_def graph_defs removeNode_def Let_def)

lemma removeNode_reconnect_wf:
  assumes wf: "g_wf g" and n: "has_this_node g node"
    and loop: "\<forall>c \<in> graph_conns g. gc_from c = node \<and> gc_to c = node \<longrightarrow> skip c"
  shows "\<exists>g' new. removeNode_reconnect skip node g = Inr (g', new) \<and> g_wf g' \<and>
     g_nodes g' = obj_delete (node_name node) (g_nodes g) \<and>
     set new = {i\<lparr>gc_to := gc_to x, gc_inputIndex := gc_inputIndex x\<rparr> | i x.
        i \<in> graph_conns g \<and> x \<in> graph_conns g \<and> gc_to i = node \<and> gc_from x = node \<and> \<not> skip i \<and> \<not> skip x}"
proof -
  let ?new = "rewired_connections skip (filter (\<lambda>c. gc_to c = node) (obj_values (g_conns g)))
                 (filter (\<lambda>c. gc_from c = node) (obj_values (g_conns g)))"
  have new: "c \<in> set ?new \<longleftrightarrow> (\<exists>i x. c = i\<lparr>gc_to := gc_to x, gc_inputIndex := gc_inputIndex x\<rparr> \<and>
      i \<in> graph_conns g \<and> x \<in> graph_conns g \<and> gc_to i = node \<and> gc_from x = node \<and> \<not> skip i \<and> \<not> skip x)" for c
    unfolding rewired_in by auto
  have "g_wf ((removeNode node g)\<lparr>g_conns := fold (\<lambda>c. obj_set (makeKey c) c) ?new (g_conns (removeNode node g))\<rparr>)"
  proof (rule fold_set_conns [OF g_wf_removeNode [OF wf n]], intro ballI)
    fix c assume "c \<in> set ?new"
    then obtain i x where c: "c = i\<lparr>gc_to := gc_to x, gc_inputIndex := gc_inputIndex x\<rparr>"
      "i \<in> graph_conns g" "x \<in> graph_conns g" "gc_to i = node" "gc_from x = node" "\<not> skip i" "\<not> skip x"
      unfolding new by blast
    then have "gc_from i \<noteq> node" "gc_to x \<noteq> node" using loop by auto
    with c show "has_this_node (removeNode node g) (gc_from c) \<and> has_this_node (removeNode node g) (gc_to c)"
      by (simp add: has_this_node_removeNode [OF n] g_wf_endpoints [OF wf])
  qed
  moreover have "set ?new = {i\<lparr>gc_to := gc_to x, gc_inputIndex := gc_inputIndex x\<rparr> | i x.
        i \<in> graph_conns g \<and> x \<in> graph_conns g \<and> gc_to i = node \<and> gc_from x = node \<and> \<not> skip i \<and> \<not> skip x}"
    using new by blast
  ultimately show ?thesis
    unfolding removeNode_reconnect_eq [OF n] Let_def by (auto simp: removeNode_def)
qed

section \<open>Copying\<close>

lemma fold_obj_set_fresh:
  assumes "obj_wf m" "\<forall>(k, v) \<in> set m. k = f v" "\<forall>(k, v) \<in> set m. k \<notin> set (map fst acc)"
  shows "fold (\<lambda>v. obj_set (f v) v) (map snd m) acc = acc @ m"
  using assms
proof (induction m arbitrary: acc)
  case (Cons p m)
  obtain k v where p: "p = (k, v)" by (cases p)
  have "obj_set k v acc = acc @ [(k, v)]"
    by (rule obj_set_absent) (use Cons.prems(3) p in \<open>auto simp: map_of_eq_None_iff\<close>)
  moreover have "fold (\<lambda>v. obj_set (f v) v) (map snd m) (acc @ [(k, v)]) = (acc @ [(k, v)]) @ m"
    by (rule Cons.IH) (use Cons.prems p in \<open>force simp: obj_wf_def\<close>)+
  ultimately show ?case using Cons.prems(2) p by auto
qed simp

lemma addNodes_eq: "addNodes ns g = g\<lparr>g_nodes := fold (\<lambda>n. obj_set (node_name n) n) ns (g_nodes g)\<rparr>"
  unfolding addNodes_def by (induction ns arbitrary: g) (simp_all add: addNode_def)

lemma addConnections_eq:
  "\<forall>c \<in> set cs. has_this_node g (gc_from c) \<and> has_this_node g (gc_to c) \<Longrightarrow>
    addConnections cs g = Inr (g\<lparr>g_conns := fold (\<lambda>c. obj_set (makeKey c) c) cs (g_conns g)\<rparr>)"
  unfolding addConnections_def
proof (induction cs arbitrary: g)
  case (Cons c cs)
  let ?g = "g\<lparr>g_conns := obj_set (makeKey c) c (g_conns g)\<rparr>"
  have "foldE addGConn cs ?g = Inr (?g\<lparr>g_conns := fold (\<lambda>c. obj_set (makeKey c) c) cs (g_conns ?g)\<rparr>)"
    by (rule Cons.IH) (use Cons.prems in simp)
  with Cons.prems show ?case by (simp add: graph_defs)
qed simp

lemma clone_eq: 
  assumes "g_wf g" shows "clone g = Inr g"
proof -
  have n: "addNodes (obj_values (g_nodes g)) empty_graph = \<lparr>g_nodes = g_nodes g, g_conns = []\<rparr>"
    unfolding addNodes_eq
    by (subst fold_obj_set_fresh) (use assms in \<open>auto simp: g_wf_def empty_graph_def\<close>)
  have "has_this_node \<lparr>g_nodes = g_nodes g, g_conns = []\<rparr> m = has_this_node g m" for m
    by (simp add: has_this_node_def)
  then have "addConnections (obj_values (g_conns g)) \<lparr>g_nodes = g_nodes g, g_conns = []\<rparr> =
      Inr (\<lparr>g_nodes = g_nodes g, g_conns = []\<rparr>\<lparr>g_conns := fold (\<lambda>c. obj_set (makeKey c) c) (obj_values (g_conns g)) []\<rparr>)"
    by (subst addConnections_eq) (use g_wf_endpoints [OF assms] in \<open>auto\<close>)
  also have "fold (\<lambda>c. obj_set (makeKey c) c) (obj_values (g_conns g)) [] = g_conns g"
    by (subst fold_obj_set_fresh) (use assms in \<open>auto simp: g_wf_def\<close>)
  finally show ?thesis by (simp add: clone_def n getConnections_def)
qed

end
