(* ===== verification/Graph_Search.thy ===== *)
theory Graph_Search
  imports Directed_Graph
begin

text \<open>
  The searches of \<^verbatim>\<open>DirectedGraph\<close>: the depth-first search, the strongly connected
  components and the export to a connection table, and then the properties of the graph
  component, each with a concrete graph to which it applies.
\<close>

section \<open>Depth-first search\<close>

lemma depthFirstSearchRecursive_spec:
  assumes wf: "g_wf g" and "has_this_node g from" "card (graph_nodes g - set seen) < fuel"
  shows "\<exists>r seen'. depthFirstSearchRecursive g fn fuel from seen = Inr (r, seen') \<and> set seen \<subseteq> set seen' \<and>
    (\<forall>n. r = Some n \<longrightarrow> fn n \<and> (from, n) \<in> (child_edges g)\<^sup>*) \<and>
    (r = None \<longrightarrow> from \<in> set seen' \<and>
       (\<forall>m \<in> set seen' - set seen. \<not> fn m \<and> child_edges g `` {m} \<subseteq> set seen'))"
  using assms(2,3)
proof (induction fuel arbitrary: "from" seen)
  case 0
  then show ?case by simp
next
  case (Suc fuel)
  show ?case
  proof (cases "from \<in> set seen \<or> fn from")
    case True
    then show ?thesis by auto
  next
    case False
    let ?cs = "filter (\<lambda>c. gc_from c = from) (obj_values (g_conns g))"
    let ?f = "\<lambda>childConnection (found, seen). case found of
            Some n \<Rightarrow> Inr (Some n, seen)
          | None \<Rightarrow> depthFirstSearchRecursive g fn fuel (gc_to childConnection) seen"
    let ?P = "\<lambda>ds (found, seen'). set (seen @ [from]) \<subseteq> set seen' \<and>
      (\<forall>n. found = Some n \<longrightarrow> fn n \<and> (from, n) \<in> (child_edges g)\<^sup>*) \<and>
      (found = None \<longrightarrow> gc_to ` set ds \<subseteq> set seen' \<and>
        (\<forall>m \<in> set seen' - set seen - {from}. \<not> fn m \<and> child_edges g `` {m} \<subseteq> set seen'))"
    have "\<exists>s'. foldE ?f ?cs (None, seen @ [from]) = Inr s' \<and> ?P ?cs s'"
    proof (rule foldE_rule [where P = ?P])
      show "?P [] (None, seen @ [from])" by auto
    next
      fix ds x rest s
      assume split: "?cs = ds @ x # rest" and P: "?P ds s"
      obtain found seen1 where s: "s = (found, seen1)" by (cases s)
      have "x \<in> set ?cs" unfolding split by simp
      then have x: "x \<in> graph_conns g" "gc_from x = from" by auto
      then have edge: "(from, gc_to x) \<in> child_edges g" by (auto simp: child_edges_def)
      show "\<exists>s'. ?f x s = Inr s' \<and> ?P (ds @ [x]) s'"
      proof (cases found)
        case (Some n)
        then show ?thesis using P s by auto
      next
        case None
        have "graph_nodes g - set seen1 \<subset> graph_nodes g - set seen"
          using P s None False Suc.prems(1) has_this_node_iff [OF wf] by auto
        then have "card (graph_nodes g - set seen1) < card (graph_nodes g - set seen)"
          by (intro psubset_card_mono) auto
        with Suc.prems(2) have "card (graph_nodes g - set seen1) < fuel" by simp
        from Suc.IH [OF g_wf_endpoints(2) [OF wf x(1)] this] obtain r seen2 where r:
          "depthFirstSearchRecursive g fn fuel (gc_to x) seen1 = Inr (r, seen2)" "set seen1 \<subseteq> set seen2"
          "\<forall>n. r = Some n \<longrightarrow> fn n \<and> (gc_to x, n) \<in> (child_edges g)\<^sup>*"
          "r = None \<longrightarrow> gc_to x \<in> set seen2 \<and>
            (\<forall>m \<in> set seen2 - set seen1. \<not> fn m \<and> child_edges g `` {m} \<subseteq> set seen2)"
          by blast
        have "?P (ds @ [x]) (r, seen2)"
          unfolding prod.case
        proof (intro conjI impI allI)
          show "set (seen @ [from]) \<subseteq> set seen2" using P s r(2) by auto
        next
          fix n assume "r = Some n"
          with r(3) edge show "fn n" "(from, n) \<in> (child_edges g)\<^sup>*"
            by (auto intro: converse_rtrancl_into_rtrancl)
        next
          assume "r = None"
          with r P s None show "gc_to ` set (ds @ [x]) \<subseteq> set seen2" by auto
          show "\<forall>m \<in> set seen2 - set seen - {from}. \<not> fn m \<and> child_edges g `` {m} \<subseteq> set seen2"
          proof
            fix m assume m: "m \<in> set seen2 - set seen - {from}"
            show "\<not> fn m \<and> child_edges g `` {m} \<subseteq> set seen2"
            proof (cases "m \<in> set seen1")
              case True
              then have "\<not> fn m \<and> child_edges g `` {m} \<subseteq> set seen1" using P s None m by simp
              with r(2) show ?thesis by auto
            qed (use m r(4) \<open>r = None\<close> in auto)
          qed
        qed
        with r(1) s None show ?thesis by auto
      qed
    qed
    then obtain found seen' where res: "foldE ?f ?cs (None, seen @ [from]) = Inr (found, seen')"
      "?P ?cs (found, seen')" by auto
    have eq: "depthFirstSearchRecursive g fn (Suc fuel) from seen = Inr (found, seen')"
      using False res(1) by (simp add: graph_defs Suc.prems(1))
    have succ: "child_edges g `` {from} = gc_to ` set ?cs" by (auto simp: child_edges_def)
    show ?thesis
    proof (intro exI conjI)
      show "found = None \<longrightarrow> from \<in> set seen' \<and>
       (\<forall>m \<in> set seen' - set seen. \<not> fn m \<and> child_edges g `` {m} \<subseteq> set seen')"
      proof
        assume n: "found = None"
        show "from \<in> set seen' \<and> (\<forall>m \<in> set seen' - set seen. \<not> fn m \<and> child_edges g `` {m} \<subseteq> set seen')"
        proof (intro conjI ballI)
          show "from \<in> set seen'" using res(2) by simp
        next
          fix m assume m: "m \<in> set seen' - set seen"
          show "\<not> fn m" using m n res(2) False by (cases "m = from") auto
          show "child_edges g `` {m} \<subseteq> set seen'"
            using m n res(2) by (cases "m = from") (simp_all add: succ)
        qed
      qed
    qed (use eq res(2) in simp_all)
  qed
qed

lemma depthFirstSearch_finds:
  assumes wf: "g_wf g" and "has_this_node g from"
  shows "\<exists>r. depthFirstSearch g from fn = Inr r \<and>
    (\<forall>n. r = Some n \<longrightarrow> fn n \<and> (from, n) \<in> (child_edges g)\<^sup>*) \<and>
    (r = None \<longrightarrow> (\<forall>n. (from, n) \<in> (child_edges g)\<^sup>* \<longrightarrow> \<not> fn n))"
proof -
  have "card (graph_nodes g - set []) < Suc (length (g_nodes g))"
    using graph_nodes_card [of g] by simp
  from depthFirstSearchRecursive_spec [OF assms this, of fn] obtain r seen where r:
    "depthFirstSearchRecursive g fn (Suc (length (g_nodes g))) from [] = Inr (r, seen)"
    "\<forall>n. r = Some n \<longrightarrow> fn n \<and> (from, n) \<in> (child_edges g)\<^sup>*"
    "r = None \<longrightarrow> from \<in> set seen \<and> (\<forall>m \<in> set seen. \<not> fn m \<and> child_edges g `` {m} \<subseteq> set seen)"
    by auto
  have "n \<in> set seen" if "(from, n) \<in> (child_edges g)\<^sup>*" "r = None" for n
    using that(1) by (induction) (use r(3) that(2) in auto)
  with r show ?thesis by (auto simp: depthFirstSearch_def)
qed

section \<open>Strongly connected components\<close>

text \<open>What holds of the state of the search at every step, and how a call extends it.\<close>

definition scc_inv :: "graph \<Rightarrow> scc_state \<Rightarrow> bool" where
  "scc_inv g st \<longleftrightarrow> set (scc_visited st) \<subseteq> graph_nodes g \<and>
     (\<forall>v. (map_of (scc_ids st) v \<noteq> None \<longleftrightarrow> v \<in> set (scc_visited st)) \<and>
          (map_of (scc_low st) v \<noteq> None \<longleftrightarrow> v \<in> set (scc_visited st))) \<and>
     (\<forall>v i. map_of (scc_ids st) v = Some i \<longrightarrow> i < scc_id st) \<and>
     (\<forall>v w i. map_of (scc_ids st) v = Some i \<and> map_of (scc_ids st) w = Some i \<longrightarrow> v = w) \<and>
     (\<forall>v l. map_of (scc_low st) v = Some l \<longrightarrow>
        (\<exists>i w. map_of (scc_ids st) v = Some i \<and> l \<le> i \<and> map_of (scc_ids st) w = Some l \<and> (v, w) \<in> (child_edges g)\<^sup>*)) \<and>
     set (scc_stack st) \<subseteq> set (scc_visited st) \<and> set (concat (scc_found st)) \<subseteq> set (scc_visited st) \<and>
     distinct (concat (scc_found st) @ scc_stack st) \<and> [] \<notin> set (scc_found st) \<and>
     (\<forall>c \<in> set (scc_found st). \<forall>a \<in> set c. \<forall>b \<in> set c. (a, b) \<in> (child_edges g)\<^sup>*)"

definition scc_ext :: "graph \<Rightarrow> inode \<Rightarrow> scc_state \<Rightarrow> scc_state \<Rightarrow> bool" where
  "scc_ext g n st st' \<longleftrightarrow> set (scc_visited st) \<subseteq> set (scc_visited st') \<and> scc_id st \<le> scc_id st' \<and>
     (\<forall>v \<in> set (scc_visited st). map_of (scc_ids st') v = map_of (scc_ids st) v \<and>
        map_of (scc_low st') v = map_of (scc_low st) v) \<and>
     (\<exists>new. scc_stack st' = new @ scc_stack st \<and> set new \<inter> set (scc_visited st) = {} \<and>
        (\<forall>v \<in> set new. (n, v) \<in> (child_edges g)\<^sup>*))"

lemma scc_visited_ids: "scc_inv g st \<Longrightarrow> map_of (scc_ids st) v \<noteq> None \<longleftrightarrow> v \<in> set (scc_visited st)"
  unfolding scc_inv_def by (elim conjE) simp

lemma scc_visited_low: "scc_inv g st \<Longrightarrow> map_of (scc_low st) v \<noteq> None \<longleftrightarrow> v \<in> set (scc_visited st)"
  unfolding scc_inv_def by (elim conjE) simp

lemma scc_ids_less: "scc_inv g st \<Longrightarrow> map_of (scc_ids st) v = Some i \<Longrightarrow> i < scc_id st"
  unfolding scc_inv_def by (elim conjE) simp

lemma scc_ids_inj:
  "scc_inv g st \<Longrightarrow> map_of (scc_ids st) v = Some i \<Longrightarrow> map_of (scc_ids st) w = Some i \<Longrightarrow> v = w"
  unfolding scc_inv_def by (elim conjE) simp

lemma scc_low_reach:
  "scc_inv g st \<Longrightarrow> map_of (scc_low st) v = Some l \<Longrightarrow>
     \<exists>i w. map_of (scc_ids st) v = Some i \<and> l \<le> i \<and> map_of (scc_ids st) w = Some l \<and> (v, w) \<in> (child_edges g)\<^sup>*"
  unfolding scc_inv_def by (elim conjE) simp

lemma scc_stack_visited: "scc_inv g st \<Longrightarrow> v \<in> set (scc_stack st) \<Longrightarrow> v \<in> set (scc_visited st)"
  unfolding scc_inv_def by (elim conjE) blast

lemma scc_distinct: "scc_inv g st \<Longrightarrow> distinct (concat (scc_found st) @ scc_stack st)"
  unfolding scc_inv_def by (elim conjE) assumption

lemma scc_inv_low:
  assumes "scc_inv g st" "node \<in> set (scc_visited st)"
    and "\<exists>i w. map_of (scc_ids st) node = Some i \<and> l \<le> i \<and> map_of (scc_ids st) w = Some l \<and> (node, w) \<in> (child_edges g)\<^sup>*"
  shows "scc_inv g (st\<lparr>scc_low := obj_set node l (scc_low st)\<rparr>)"
proof -
  let ?s = "st\<lparr>scc_low := obj_set node l (scc_low st)\<rparr>"
  have "\<exists>i w. map_of (scc_ids ?s) v = Some i \<and> k \<le> i \<and> map_of (scc_ids ?s) w = Some k \<and> (v, w) \<in> (child_edges g)\<^sup>*"
    if "map_of (scc_low ?s) v = Some k" for v k
    using that assms(3) scc_low_reach [OF assms(1)] by (cases "v = node") simp_all
  moreover have "map_of (scc_low ?s) v \<noteq> None \<longleftrightarrow> v \<in> set (scc_visited ?s)" for v
    using assms(2) scc_visited_low [OF assms(1)] by simp
  ultimately show ?thesis
    using assms(1) unfolding scc_inv_def by (elim conjE, intro conjI allI impI; simp)
qed

lemma scc_ext_refl [simp]: "scc_ext g n st st"
  by (simp add: scc_ext_def)

lemma scc_ext_trans:
  assumes "scc_ext g n st st1" "scc_ext g m st1 st2" "(n, m) \<in> (child_edges g)\<^sup>*"
  shows "scc_ext g n st st2"
proof -
  from assms obtain new1 new2 where n1: "scc_stack st1 = new1 @ scc_stack st"
      "set new1 \<inter> set (scc_visited st) = {}" "\<forall>v \<in> set new1. (n, v) \<in> (child_edges g)\<^sup>*"
    and n2: "scc_stack st2 = new2 @ scc_stack st1" "set new2 \<inter> set (scc_visited st1) = {}"
      "\<forall>v \<in> set new2. (m, v) \<in> (child_edges g)\<^sup>*"
    by (auto simp: scc_ext_def)
  have sub: "set (scc_visited st) \<subseteq> set (scc_visited st1)" using assms(1) by (simp add: scc_ext_def)
  have "\<exists>new. scc_stack st2 = new @ scc_stack st \<and> set new \<inter> set (scc_visited st) = {} \<and>
        (\<forall>v \<in> set new. (n, v) \<in> (child_edges g)\<^sup>*)"
    using n1 n2 sub assms(3) by (intro exI [of _ "new2 @ new1"]) (auto intro: rtrancl_trans)
  with assms(1,2) show ?thesis by (auto simp: scc_ext_def subset_iff)
qed

lemma pop_component_eq:
  "pop_component low own st scc =
     (dropWhile (\<lambda>n. map_of low n = Some own) st, fold set_add (takeWhile (\<lambda>n. map_of low n = Some own) st) scc)"
  by (induction st arbitrary: scc) auto

lemma fold_set_add_distinct: "distinct (ys @ xs) \<Longrightarrow> fold set_add xs ys = ys @ xs"
  by (induction xs arbitrary: ys) (simp_all add: set_add_def)

lemma takeWhile_before:
  assumes "st = new @ n # old" "\<forall>v \<in> set old. \<not> P v" "P n \<or> (\<forall>v \<in> set old. \<not> P v)"
  shows "\<exists>a b. takeWhile P st = a \<and> dropWhile P st = b @ old \<and> new @ [n] = a @ b"
proof -
  have "takeWhile P old = [] \<and> dropWhile P old = old" using assms(2) by (cases old) auto
  then have "takeWhile P st = takeWhile P (new @ [n])" "dropWhile P st = dropWhile P (new @ [n]) @ old"
    unfolding assms(1) by (simp_all add: takeWhile_append dropWhile_append)
  then show ?thesis by (metis takeWhile_dropWhile_id)
qed

lemma open_node_inv:
  assumes "scc_inv g st" "node \<notin> set (scc_visited st)" "node \<in> graph_nodes g"
  shows "scc_inv g (open_node node st)"
  unfolding scc_inv_def
proof (intro conjI)
  let ?s = "open_node node st"
  show "set (scc_visited ?s) \<subseteq> graph_nodes g"
    "set (scc_stack ?s) \<subseteq> set (scc_visited ?s)" "set (concat (scc_found ?s)) \<subseteq> set (scc_visited ?s)"
    "[] \<notin> set (scc_found ?s)"
    "\<forall>c \<in> set (scc_found ?s). \<forall>a \<in> set c. \<forall>b \<in> set c. (a, b) \<in> (child_edges g)\<^sup>*"
    using assms by (auto simp: scc_inv_def open_node_def)
  show "\<forall>v. (map_of (scc_ids ?s) v \<noteq> None \<longleftrightarrow> v \<in> set (scc_visited ?s)) \<and>
          (map_of (scc_low ?s) v \<noteq> None \<longleftrightarrow> v \<in> set (scc_visited ?s))"
    using assms(1) unfolding scc_inv_def by (simp add: open_node_def)
  show "\<forall>v i. map_of (scc_ids ?s) v = Some i \<longrightarrow> i < scc_id ?s"
    using scc_ids_less [OF assms(1)] by (auto simp: open_node_def less_Suc_eq)
  show "\<forall>v w i. map_of (scc_ids ?s) v = Some i \<and> map_of (scc_ids ?s) w = Some i \<longrightarrow> v = w"
  proof (intro allI impI)
    fix v w i assume a: "map_of (scc_ids ?s) v = Some i \<and> map_of (scc_ids ?s) w = Some i"
    have less: "map_of (scc_ids st) u \<noteq> Some (scc_id st)" for u
      using scc_ids_less [OF assms(1), of u] by fastforce
    show "v = w"
      using a less scc_ids_inj [OF assms(1), of v i w]
      by (cases "v = node"; cases "w = node") (simp_all add: open_node_def)
  qed
  show "distinct (concat (scc_found ?s) @ scc_stack ?s)"
    using assms unfolding scc_inv_def by (auto simp: open_node_def)
  show "\<forall>v l. map_of (scc_low ?s) v = Some l \<longrightarrow>
        (\<exists>i w. map_of (scc_ids ?s) v = Some i \<and> l \<le> i \<and> map_of (scc_ids ?s) w = Some l \<and> (v, w) \<in> (child_edges g)\<^sup>*)"
  proof (intro allI impI)
    fix v l assume l: "map_of (scc_low ?s) v = Some l"
    show "\<exists>i w. map_of (scc_ids ?s) v = Some i \<and> l \<le> i \<and> map_of (scc_ids ?s) w = Some l \<and> (v, w) \<in> (child_edges g)\<^sup>*"
    proof (cases "v = node")
      case True
      with l show ?thesis by (auto simp: open_node_def)
    next
      case False
      with l have "map_of (scc_low st) v = Some l" by (simp add: open_node_def)
      from scc_low_reach [OF assms(1) this] obtain i w where w: "map_of (scc_ids st) v = Some i" "l \<le> i"
        "map_of (scc_ids st) w = Some l" "(v, w) \<in> (child_edges g)\<^sup>*"
        by blast
      moreover have "w \<noteq> node" using w(3) assms(2) scc_visited_ids [OF assms(1), of w] by auto
      ultimately show ?thesis using False by (auto simp: open_node_def)
    qed
  qed
qed

lemma open_node_ext: "node \<notin> set (scc_visited st) \<Longrightarrow> scc_ext g node st (open_node node st)"
  by (auto simp: scc_ext_def open_node_def)

lemma lower_link_ok:
  assumes inv: "scc_inv g st" and "node \<in> set (scc_visited st)" "(node, child) \<in> child_edges g"
  shows "\<exists>st'. lower_link node child st = Inr st' \<and> scc_inv g st' \<and>
     (st' = st \<or> (\<exists>l. st' = st\<lparr>scc_low := obj_set node l (scc_low st)\<rparr>))"
proof (cases "child \<in> set (scc_stack st)")
  case False
  then show ?thesis using inv by (simp add: lower_link_def)
next
  case True
  then have "child \<in> set (scc_visited st)" using inv by (rule scc_stack_visited [rotated])
  with assms(2) obtain lc ln where l: "map_of (scc_low st) child = Some lc" "map_of (scc_low st) node = Some ln"
    using scc_visited_low [OF inv] by (metis not_None_eq)
  with scc_low_reach [OF inv] obtain ic wc i w where w: "map_of (scc_ids st) wc = Some lc" "(child, wc) \<in> (child_edges g)\<^sup>*"
      "map_of (scc_ids st) node = Some i" "ln \<le> i" "map_of (scc_ids st) w = Some ln" "(node, w) \<in> (child_edges g)\<^sup>*"
    by metis
  let ?s = "st\<lparr>scc_low := obj_set node (min lc ln) (scc_low st)\<rparr>"
  have node: "\<exists>i w. map_of (scc_ids st) node = Some i \<and> min lc ln \<le> i \<and> map_of (scc_ids st) w = Some (min lc ln) \<and>
      (node, w) \<in> (child_edges g)\<^sup>*"
    using w assms(3) by (cases "lc \<le> ln") (auto simp: min_def intro: converse_rtrancl_into_rtrancl)
  have "scc_inv g ?s" by (rule scc_inv_low [OF inv assms(2) node])
  then show ?thesis using True l by (auto simp: lower_link_def)
qed

lemma close_component_ok:
  assumes inv: "scc_inv g st'" and ext: "scc_ext g node st st'" and old: "scc_inv g st"
    and stack: "scc_stack st' = new @ node # scc_stack st" and id: "map_of (scc_ids st') node = Some (scc_id st)"
  shows "\<exists>st''. close_component node st' = Inr st'' \<and> scc_inv g st'' \<and> scc_ext g node st st'' \<and>
     scc_visited st'' = scc_visited st'"
proof -
  let ?own = "scc_id st" and ?E = "(child_edges g)\<^sup>*"
  have vis: "node \<in> set (scc_visited st')" using scc_visited_ids [OF inv, of node] id by simp
  then obtain l where l: "map_of (scc_low st') node = Some l" using scc_visited_low [OF inv, of node] by blast
  show ?thesis
  proof (cases "l = ?own")
    case False
    then show ?thesis using inv ext id l by (simp add: close_component_def)
  next
    case True
    let ?P = "\<lambda>n. map_of (scc_low st') n = Some ?own"
    have "\<not> ?P v" if "v \<in> set (scc_stack st)" for v
    proof
      assume P: "?P v"
      have v: "v \<in> set (scc_visited st)" by (rule scc_stack_visited [OF old that])
      with P ext have "map_of (scc_low st) v = Some ?own" by (simp add: scc_ext_def)
      from scc_low_reach [OF old this] obtain i where "map_of (scc_ids st) v = Some i" "?own \<le> i" by blast
      with scc_ids_less [OF old] show False by fastforce
    qed
    with takeWhile_before [OF stack, of ?P] obtain a b where ab: "takeWhile ?P (scc_stack st') = a"
      "dropWhile ?P (scc_stack st') = b @ scc_stack st" "new @ [node] = a @ b" by auto
    have stack': "scc_stack st' = a @ b @ scc_stack st" using stack ab(3) by (metis append.assoc append_Cons append_Nil)
    have dist: "distinct a" "set a \<inter> set b = {}" "set a \<inter> set (scc_stack st) = {}"
      "set a \<inter> set (concat (scc_found st')) = {}"
      using scc_distinct [OF inv] unfolding stack' by auto
    have newst: "pop_component (scc_low st') ?own (scc_stack st') [] = (b @ scc_stack st, a)"
      unfolding pop_component_eq ab by (simp add: fold_set_add_distinct dist(1))
    have memb: "set (new @ [node]) \<inter> set (scc_visited st) = {}" "\<forall>v \<in> set (new @ [node]). (node, v) \<in> ?E"
    proof -
      from ext obtain n' where n': "scc_stack st' = n' @ scc_stack st"
        "set n' \<inter> set (scc_visited st) = {}" "\<forall>v \<in> set n'. (node, v) \<in> ?E"
        unfolding scc_ext_def by blast
      from n'(1) have "n' = new @ [node]" unfolding stack by simp
      with n'(2,3) show "set (new @ [node]) \<inter> set (scc_visited st) = {}" "\<forall>v \<in> set (new @ [node]). (node, v) \<in> ?E"
        by simp_all
    qed
    have a_reach: "(v, node) \<in> ?E" if "v \<in> set a" for v
    proof -
      have "?P v" using that set_takeWhileD [of v ?P "scc_stack st'"] unfolding ab(1) by simp
      from scc_low_reach [OF inv this] obtain w where "map_of (scc_ids st') w = Some ?own" "(v, w) \<in> ?E" by blast
      moreover have "w = node" by (rule scc_ids_inj [OF inv calculation(1) id])
      ultimately show ?thesis by simp
    qed
    have mutual: "(v, w) \<in> ?E" if "v \<in> set a" "w \<in> set a" for v w
    proof -
      have "w \<in> set (new @ [node])" using that(2) ab(3) by simp
      with memb(2) a_reach [OF that(1)] show ?thesis by (blast intro: rtrancl_trans)
    qed
    let ?s = "st'\<lparr>scc_stack := b @ scc_stack st, scc_found := (if a \<noteq> [] then scc_found st' @ [a] else scc_found st')\<rparr>"
    have close: "close_component node st' = Inr ?s"
      using id l True by (simp add: close_component_def newst)
    have "set (concat (scc_found ?s)) \<subseteq> set (scc_visited st')" "set (b @ scc_stack st) \<subseteq> set (scc_visited st')"
      using inv unfolding scc_inv_def stack' by auto
    moreover have "distinct (concat (scc_found ?s) @ b @ scc_stack st)"
      using scc_distinct [OF inv] dist unfolding stack' by auto
    moreover have "[] \<notin> set (scc_found ?s)" "\<forall>c \<in> set (scc_found ?s). \<forall>a \<in> set c. \<forall>b \<in> set c. (a, b) \<in> ?E"
      using inv mutual unfolding scc_inv_def by auto
    ultimately have "scc_inv g ?s" using inv unfolding scc_inv_def by simp
    moreover have "scc_ext g node st ?s"
    proof -
      have "set b \<subseteq> set (new @ [node])" unfolding ab(3) by simp
      with memb have "set b \<inter> set (scc_visited st) = {}" "\<forall>v \<in> set b. (node, v) \<in> ?E" by blast+
      with ext show ?thesis unfolding scc_ext_def by simp
    qed
    ultimately show ?thesis using close by simp
  qed
qed

lemma followNode_ok:
  assumes wf: "g_wf g" and "scc_inv g st" "node \<in> graph_nodes g"
    "card (graph_nodes g - set (scc_visited st)) < fuel"
  shows "\<exists>st'. followNode g fuel node st = Inr st' \<and> scc_inv g st' \<and> scc_ext g node st st' \<and>
     node \<in> set (scc_visited st')"
  using assms(2-)
proof (induction fuel arbitrary: node st)
  case 0
  then show ?case by simp
next
  case (Suc fuel)
  show ?case
  proof (cases "node \<in> set (scc_visited st)")
    case True
    then show ?thesis using Suc.prems by simp
  next
    case False
    let ?o = "open_node node st"
    have hn: "has_this_node g node" using Suc.prems(2) has_this_node_iff [OF wf] by simp
    let ?ch = "map gc_to (filter (\<lambda>c. gc_from c = node) (obj_values (g_conns g)))"
    let ?f = "\<lambda>child st. bindE (followNode g fuel child st) (lower_link node child)"
    let ?P = "\<lambda>ds st'. scc_inv g st' \<and> scc_ext g node st st' \<and> node \<in> set (scc_visited st') \<and>
      map_of (scc_ids st') node = Some (scc_id st) \<and> (\<exists>new. scc_stack st' = new @ node # scc_stack st)"
    have "\<exists>s'. foldE ?f ?ch ?o = Inr s' \<and> ?P ?ch s'"
    proof (rule foldE_rule [where P = ?P])
      show "?P [] ?o"
        using open_node_inv [OF Suc.prems(1) False Suc.prems(2)] open_node_ext [OF False, of g]
        by (simp add: open_node_def)
    next
      fix ds child rest s
      assume split: "?ch = ds @ child # rest" and P: "?P ds s"
      have "child \<in> set ?ch" unfolding split by simp
      then have edge: "(node, child) \<in> child_edges g" by (auto simp: child_edges_def)
      have ch: "child \<in> graph_nodes g"
        using child_edges_has_node [OF wf edge] has_this_node_iff [OF wf] by simp
      have "graph_nodes g - set (scc_visited s) \<subset> graph_nodes g - set (scc_visited st)"
        using P False Suc.prems(2) by (auto simp: scc_ext_def)
      then have "card (graph_nodes g - set (scc_visited s)) < card (graph_nodes g - set (scc_visited st))"
        by (intro psubset_card_mono) auto
      with Suc.prems(3) have "card (graph_nodes g - set (scc_visited s)) < fuel" by simp
      from Suc.IH [OF _ ch this] P obtain s1 where s1: "followNode g fuel child s = Inr s1" "scc_inv g s1"
        "scc_ext g child s s1" by auto
      have n1: "node \<in> set (scc_visited s1)" "map_of (scc_ids s1) node = Some (scc_id st)"
        using s1(3) P by (auto simp: scc_ext_def)
      have e1: "scc_ext g node st s1" using P s1(3) edge by (blast intro: scc_ext_trans)
      have st1: "\<exists>new. scc_stack s1 = new @ node # scc_stack st"
        using P s1(3) by (force simp: scc_ext_def)
      from lower_link_ok [OF s1(2) n1(1) edge] obtain s2 where s2: "lower_link node child s1 = Inr s2"
        "scc_inv g s2" "s2 = s1 \<or> (\<exists>l. s2 = s1\<lparr>scc_low := obj_set node l (scc_low s1)\<rparr>)" by blast
      have "scc_ext g node st s2" using s2(3) e1 False by (auto simp: scc_ext_def)
      then have "?P (ds @ [child]) s2" using s2(2,3) n1 st1 by auto
      then show "\<exists>s'. ?f child s = Inr s' \<and> ?P (ds @ [child]) s'" using s1(1) s2(1) by auto
    qed
    then obtain s new where s: "foldE ?f ?ch ?o = Inr s" "scc_inv g s" "scc_ext g node st s"
      "map_of (scc_ids s) node = Some (scc_id st)" "scc_stack s = new @ node # scc_stack st"
      "node \<in> set (scc_visited s)" by blast
    from close_component_ok [OF s(2,3) Suc.prems(1) s(5,4)] s(6) obtain s' where
      "close_component node s = Inr s'" "scc_inv g s'" "scc_ext g node st s'" "node \<in> set (scc_visited s')" by auto
    then show ?thesis using False s(1) by (simp add: graph_defs hn)
  qed
qed

lemma getStronglyConnectedComponents_ok:
  assumes wf: "g_wf g"
  shows "\<exists>sccs. getStronglyConnectedComponents g = Inr sccs \<and> [] \<notin> set sccs \<and> distinct (concat sccs) \<and>
    set (concat sccs) \<subseteq> graph_nodes g \<and>
    (\<forall>c \<in> set sccs. \<forall>a \<in> set c. \<forall>b \<in> set c. (a, b) \<in> (child_edges g)\<^sup>*)"
proof -
  let ?s = "\<lparr>scc_id = 0, scc_visited = [], scc_ids = [], scc_low = [], scc_stack = [], scc_found = []\<rparr>"
  let ?fuel = "Suc (length (g_nodes g))"
  have "\<exists>s'. foldE (followNode g ?fuel) (obj_values (g_nodes g)) ?s = Inr s' \<and> scc_inv g s'"
  proof (rule foldE_rule [where P = "\<lambda>ds s. scc_inv g s"])
    show "scc_inv g ?s" by (simp add: scc_inv_def)
  next
    fix ds x rest s
    assume split: "obj_values (g_nodes g) = ds @ x # rest" and s: "scc_inv g s"
    have x: "x \<in> graph_nodes g" unfolding graph_nodes_def split by simp
    have "card (graph_nodes g - set (scc_visited s)) \<le> card (graph_nodes g)" by (intro card_mono) auto
    with graph_nodes_card [of g] have "card (graph_nodes g - set (scc_visited s)) < ?fuel" by simp
    from followNode_ok [OF wf s x this] show "\<exists>s'. followNode g ?fuel x s = Inr s' \<and> scc_inv g s'" by blast
  qed
  then obtain s where s: "foldE (followNode g ?fuel) (obj_values (g_nodes g)) ?s = Inr s" "scc_inv g s" by blast
  then have "getStronglyConnectedComponents g = Inr (scc_found s)"
    by (simp add: getStronglyConnectedComponents_def)
  then show ?thesis using s(2) unfolding scc_inv_def by auto
qed

section \<open>Export\<close>

definition cell_at :: "connections \<Rightarrow> string \<Rightarrow> string \<Rightarrow> nat \<Rightarrow> connection list" where
  "cell_at conns a ty i =
     (case map_of conns a of None \<Rightarrow> [] | Some nc \<Rightarrow>
       (case map_of nc ty of None \<Rightarrow> [] | Some arr \<Rightarrow>
         out_cell arr i))"

definition out_entry :: "gconn \<Rightarrow> connection" where
  "out_entry c = \<lparr>conn_node = node_name (gc_to c), conn_type = gc_type c, conn_index = gc_inputIndex c\<rparr>"

abbreviation from_name :: "gconn \<Rightarrow> string" where
  "from_name c \<equiv> node_name (gc_from c)"

definition one_type_per_node :: "gconn list \<Rightarrow> bool" where
  "one_type_per_node cs \<longleftrightarrow> (\<forall>c \<in> set cs. \<forall>d \<in> set cs. from_name c = from_name d \<longrightarrow> gc_type c = gc_type d)"

definition exported :: "gconn list \<Rightarrow> connections \<Rightarrow> bool" where
  "exported cs r \<longleftrightarrow>
     (\<forall>a. map_of r a = None \<longleftrightarrow> a \<notin> from_name ` set cs) \<and>
     (\<forall>c \<in> set cs. \<exists>nc. map_of r (from_name c) = Some nc \<and> (\<forall>t. map_of nc t \<noteq> None \<longleftrightarrow> t = gc_type c)) \<and>
     (\<forall>a ty i. cell_at r a ty i =
        map out_entry (filter (\<lambda>c. from_name c = a \<and> gc_type c = ty \<and> gc_outputIndex c = i) cs))"

lemma out_cell_put: "out_cell (arr_put None i (Some v) outs) j = (if j = i then v else out_cell outs j)"
  by (simp add: out_cell_def arr_get_put) (simp add: arr_get_def)

lemma cell_at_put:
  "cell_at (obj_set a (obj_set ty (arr_put None i (Some v) outs) nc) r) b ty' j =
    (if b = a then (if ty' = ty then (if j = i then v else out_cell outs j)
       else (case map_of nc ty' of None \<Rightarrow> [] | Some arr \<Rightarrow> out_cell arr j))
     else cell_at r b ty' j)"
  by (simp add: cell_at_def out_cell_put split: option.split)

lemma exported_entry:
  assumes "exported cs r" "map_of r a = Some n"
  shows "\<exists>d \<in> set cs. from_name d = a \<and> (\<forall>t. map_of n t \<noteq> None \<longleftrightarrow> t = gc_type d)"
proof -
  from assms have "a \<in> from_name ` set cs" unfolding exported_def by (metis option.distinct(1))
  then obtain d where d: "d \<in> set cs" "from_name d = a" by blast
  with assms show ?thesis unfolding exported_def by (metis option.inject)
qed

lemma put_iconnection_exported:
  assumes ex: "exported cs r"
  shows "(\<forall>d \<in> set cs. from_name d = from_name c \<longrightarrow> gc_type d = gc_type c) \<Longrightarrow>
      \<exists>r'. put_iconnection c r = Inr r' \<and> exported (cs @ [c]) r'"
    and "d \<in> set cs \<Longrightarrow> from_name d = from_name c \<Longrightarrow> gc_type d \<noteq> gc_type c \<Longrightarrow>
      put_iconnection c r = Inl UndefinedProperty"
proof -
  let ?a = "from_name c" and ?ty = "gc_type c" and ?i = "gc_outputIndex c"
  show "put_iconnection c r = Inl UndefinedProperty"
    if "d \<in> set cs" "from_name d = from_name c" "gc_type d \<noteq> gc_type c"
  proof -
    from ex that obtain nc where "map_of r ?a = Some nc" "\<forall>t. map_of nc t \<noteq> None \<longleftrightarrow> t = gc_type d"
      unfolding exported_def by metis
    moreover from this that(3) have "map_of nc ?ty = None" by metis
    ultimately show ?thesis by (simp add: put_iconnection_def)
  qed
  assume same: "\<forall>d \<in> set cs. from_name d = from_name c \<longrightarrow> gc_type d = gc_type c"
  have cells: "cell_at r b t j = map out_entry (filter (\<lambda>c. from_name c = b \<and> gc_type c = t \<and> gc_outputIndex c = j) cs)" for b t j
    using ex by (simp add: exported_def)
  obtain nc outs where nc: "(case map_of r ?a of None \<Rightarrow> [(?ty, [])] | Some r \<Rightarrow> r) = nc" "map_of nc ?ty = Some outs"
    "\<forall>t. map_of nc t \<noteq> None \<longleftrightarrow> t = ?ty"
    and old: "\<And>t j. (case map_of nc t of None \<Rightarrow> [] | Some arr \<Rightarrow> out_cell arr j) = cell_at r ?a t j"
  proof (cases "map_of r ?a")
    case None
    then show thesis by (intro that [of "[(?ty, [])]" "[]"]) (auto simp: cell_at_def out_cell_def arr_get_def)
  next
    case (Some n)
    from exported_entry [OF ex Some] obtain d where d: "d \<in> set cs" "from_name d = ?a"
      and dom: "\<forall>t. map_of n t \<noteq> None \<longleftrightarrow> t = gc_type d" by blast
    with same d have dom: "\<forall>t. map_of n t \<noteq> None \<longleftrightarrow> t = ?ty" by simp
    then obtain outs where "map_of n ?ty = Some outs" by blast
    with Some dom show thesis by (intro that [of n outs]) (simp_all add: cell_at_def)
  qed
  let ?grp = "out_cell outs ?i"
  let ?r = "obj_set ?a (obj_set ?ty (arr_put None ?i (Some (?grp @ [out_entry c])) outs) nc) r"
  have put: "put_iconnection c r = Inr ?r"
    unfolding put_iconnection_def Let_def nc(1) nc(2) by (simp add: nc(2) out_entry_def)
  have grp: "out_cell outs j = cell_at r ?a ?ty j" for j
    using old [where t = ?ty and j = j] nc(2) by simp
  have "exported (cs @ [c]) ?r"
    unfolding exported_def
  proof (intro conjI allI ballI)
    show "map_of ?r b = None \<longleftrightarrow> b \<notin> from_name ` set (cs @ [c])" for b
      using ex by (auto simp: exported_def)
    show "\<exists>nc'. map_of ?r (from_name d) = Some nc' \<and> (\<forall>t. map_of nc' t \<noteq> None \<longleftrightarrow> t = gc_type d)"
      if "d \<in> set (cs @ [c])" for d
    proof (cases "from_name d = ?a")
      case True
      with that same have "gc_type d = ?ty" by auto
      with True nc(3) show ?thesis by auto
    next
      case False
      with that have "d \<in> set cs" by auto
      with ex False show ?thesis by (auto simp: exported_def)
    qed
    show "cell_at ?r b t j =
        map out_entry (filter (\<lambda>c. from_name c = b \<and> gc_type c = t \<and> gc_outputIndex c = j) (cs @ [c]))" for b t j
      unfolding cell_at_put grp old by (auto simp: cells)
  qed
  with put show "\<exists>r'. put_iconnection c r = Inr r' \<and> exported (cs @ [c]) r'" by blast
qed

lemma one_type_per_node_snoc:
  "one_type_per_node (cs @ [c]) \<longleftrightarrow>
     one_type_per_node cs \<and> (\<forall>d \<in> set cs. from_name d = from_name c \<longrightarrow> gc_type d = gc_type c)"
proof
  assume "one_type_per_node (cs @ [c])"
  then show "one_type_per_node cs \<and> (\<forall>d \<in> set cs. from_name d = from_name c \<longrightarrow> gc_type d = gc_type c)"
    unfolding one_type_per_node_def by (metis Un_iff list.set_intros(1) set_append)
next
  assume a: "one_type_per_node cs \<and> (\<forall>d \<in> set cs. from_name d = from_name c \<longrightarrow> gc_type d = gc_type c)"
  show "one_type_per_node (cs @ [c])"
    unfolding one_type_per_node_def
  proof (intro ballI impI)
    fix x y assume "x \<in> set (cs @ [c])" "y \<in> set (cs @ [c])" "from_name x = from_name y"
    then consider "x \<in> set cs" "y \<in> set cs" | "x = c" "y \<in> set cs" | "x \<in> set cs" "y = c" | "x = c" "y = c"
      by auto
    then show "gc_type x = gc_type y"
      by cases (use a \<open>from_name x = from_name y\<close> in \<open>metis one_type_per_node_def\<close>)+
  qed
qed

lemma put_iconnections:
  "if one_type_per_node cs then \<exists>r. foldE put_iconnection cs [] = Inr r \<and> exported cs r
   else foldE put_iconnection cs [] = Inl UndefinedProperty"
proof (induction cs rule: rev_induct)
  case Nil
  show ?case by (simp add: one_type_per_node_def exported_def cell_at_def)
next
  case (snoc c cs)
  show ?case
  proof (cases "one_type_per_node cs")
    case False
    with snoc show ?thesis by (simp add: foldE_append one_type_per_node_snoc)
  next
    case True
    with snoc obtain r where r: "foldE put_iconnection cs [] = Inr r" "exported cs r" by auto
    show ?thesis
    proof (cases "\<forall>d \<in> set cs. from_name d = from_name c \<longrightarrow> gc_type d = gc_type c")
      case same: True
      from put_iconnection_exported(1) [OF r(2) same] r(1) True same show ?thesis
        by (auto simp: foldE_append one_type_per_node_snoc)
    next
      case False
      then obtain d where d: "d \<in> set cs" "from_name d = from_name c" "gc_type d \<noteq> gc_type c" by blast
      from put_iconnection_exported(2) [OF r(2) d] r(1) False show ?thesis
        by (simp add: foldE_append one_type_per_node_snoc)
    qed
  qed
qed

lemma toIConnections_spec:
  "if one_type_per_node (obj_values (g_conns g))
   then \<exists>conns. toIConnections g = Inr conns \<and> (\<forall>a ty i. cell_at conns a ty i =
     map out_entry (filter (\<lambda>c. from_name c = a \<and> gc_type c = ty \<and> gc_outputIndex c = i) (obj_values (g_conns g))))
   else toIConnections g = Inl UndefinedProperty"
  using put_iconnections [of "obj_values (g_conns g)"] unfolding toIConnections_def exported_def
  by (auto split: if_splits)

section \<open>Properties of the graph\<close>

lemma string_of_nat_0 [simp]: "string_of_nat 0 = ''0''"
  by code_simp

definition conn_between :: "inode \<Rightarrow> inode \<Rightarrow> gconn" where
  "conn_between a b = \<lparr>gc_from = a, gc_to = b, gc_type = Main_type, gc_outputIndex = 0, gc_inputIndex = 0\<rparr>"

lemma conn_between_simps [simp]:
  "gc_from (conn_between a b) = a" "gc_to (conn_between a b) = b" "gc_type (conn_between a b) = Main_type"
  "gc_outputIndex (conn_between a b) = 0" "gc_inputIndex (conn_between a b) = 0"
  by (simp_all add: conn_between_def)

lemma makeKey_conn_between [simp]:
  "makeKey (conn_between a b) = node_name a @ ''-main-0-0-'' @ node_name b"
  by (simp add: makeKey_def)

abbreviation nodeR :: inode where "nodeR \<equiv> plain_node ''r'' ''t''"
abbreviation nodeA :: inode where "nodeA \<equiv> plain_node ''a'' ''t''"
abbreviation nodeB :: inode where "nodeB \<equiv> plain_node ''b'' ''t''"

text \<open>Three nodes: \<open>r\<close> and \<open>a\<close> on one cycle, \<open>a\<close> and \<open>b\<close> on another.\<close>

definition two_cycles :: graph where
  "two_cycles = \<lparr>g_nodes = [(''r'', nodeR), (''a'', nodeA), (''b'', nodeB)],
     g_conns = map (\<lambda>c. (makeKey c, c))
       [conn_between nodeR nodeA, conn_between nodeA nodeB, conn_between nodeB nodeA, conn_between nodeA nodeR]\<rparr>"

lemma two_cycles_has [simp]:
  "has_this_node two_cycles nodeR" "has_this_node two_cycles nodeA" "has_this_node two_cycles nodeB"
  by (simp_all add: has_this_node_def two_cycles_def)

lemma two_cycles_wf [simp]: "g_wf two_cycles"
  by (simp add: g_wf_def two_cycles_def has_this_node_def obj_wf_def)

text \<open>C1. In a well-formed graph \<^verbatim>\<open>getChildren\<close> of a node returns, without
  repetition, exactly the nodes reachable by one or more connections (the node itself too
  when it is on a cycle).\<close>

theorem getChildren_reachable:
  assumes "g_wf g" and "has_this_node g node"
  shows "\<exists>ch. getChildren g node = Inr ch \<and> distinct ch \<and> set ch = {m. (node, m) \<in> (child_edges g)\<^sup>+}"
  using assms by (rule getChildren_spec)

lemma getChildren_reachable_witness:
  "\<exists>ch. getChildren two_cycles nodeR = Inr ch \<and> distinct ch \<and>
     set ch = {m. (nodeR, m) \<in> (child_edges two_cycles)\<^sup>+}"
  by (rule getChildren_reachable) simp_all

text \<open>\<^verbatim>\<open>getParentConnections\<close> returns, without repetition, exactly the
  connections whose target is the node or leads to it.\<close>

theorem getParentConnections_upstream:
  assumes "g_wf g" and "has_this_node g node"
  shows "\<exists>cs. getParentConnections g node = Inr cs \<and> distinct cs \<and>
    set cs = {c \<in> graph_conns g. (gc_to c, node) \<in> (child_edges g)\<^sup>*}"
  using assms by (rule getParentConnections_spec)

lemma getParentConnections_upstream_witness:
  "\<exists>cs. getParentConnections two_cycles nodeB = Inr cs \<and> distinct cs \<and>
    set cs = {c \<in> graph_conns two_cycles. (gc_to c, nodeB) \<in> (child_edges two_cycles)\<^sup>*}"
  by (rule getParentConnections_upstream) simp_all

text \<open>\<^verbatim>\<open>depthFirstSearch\<close> terminates, a node it returns is reachable and
  satisfies the predicate, and it returns none only if no reachable node does.\<close>

theorem depthFirstSearch_spec:
  assumes "g_wf g" and "has_this_node g from"
  shows "\<exists>r. depthFirstSearch g from fn = Inr r \<and>
    (\<forall>n. r = Some n \<longrightarrow> fn n \<and> (from, n) \<in> (child_edges g)\<^sup>*) \<and>
    (r = None \<longrightarrow> (\<forall>n. (from, n) \<in> (child_edges g)\<^sup>* \<longrightarrow> \<not> fn n))"
  using assms by (rule depthFirstSearch_finds)

lemma depthFirstSearch_spec_witness:
  "\<exists>r. depthFirstSearch two_cycles nodeR (\<lambda>n. n = nodeB) = Inr r \<and>
    (\<forall>n. r = Some n \<longrightarrow> n = nodeB \<and> (nodeR, n) \<in> (child_edges two_cycles)\<^sup>*) \<and>
    (r = None \<longrightarrow> (\<forall>n. (nodeR, n) \<in> (child_edges two_cycles)\<^sup>* \<longrightarrow> n \<noteq> nodeB))"
  by (rule depthFirstSearch_spec) simp_all

text \<open>Removing a node while reconnecting keeps the graph well-formed, removes the
  node, and returns exactly the connections from each kept parent to each kept child,
  unless a connection from the node to itself is among the reconnected ones.\<close>

theorem removeNode_reconnects:
  assumes "g_wf g" and "has_this_node g node"
    and "\<forall>c \<in> graph_conns g. gc_from c = node \<and> gc_to c = node \<longrightarrow> skip c"
  shows "\<exists>g' new. removeNode_reconnect skip node g = Inr (g', new) \<and> g_wf g' \<and>
     g_nodes g' = obj_delete (node_name node) (g_nodes g) \<and>
     set new = {i\<lparr>gc_to := gc_to x, gc_inputIndex := gc_inputIndex x\<rparr> | i x.
        i \<in> graph_conns g \<and> x \<in> graph_conns g \<and> gc_to i = node \<and> gc_from x = node \<and> \<not> skip i \<and> \<not> skip x}"
  using assms by (rule removeNode_reconnect_wf)

lemma removeNode_reconnects_witness:
  "\<exists>g' new. removeNode_reconnect (\<lambda>c. gc_type c \<noteq> Main_type) nodeA two_cycles = Inr (g', new) \<and> g_wf g' \<and>
     g_nodes g' = obj_delete (node_name nodeA) (g_nodes two_cycles) \<and>
     set new = {i\<lparr>gc_to := gc_to x, gc_inputIndex := gc_inputIndex x\<rparr> | i x.
        i \<in> graph_conns two_cycles \<and> x \<in> graph_conns two_cycles \<and> gc_to i = nodeA \<and> gc_from x = nodeA \<and>
        \<not> gc_type i \<noteq> Main_type \<and> \<not> gc_type x \<noteq> Main_type}"
  by (rule removeNode_reconnects [OF two_cycles_wf two_cycles_has(2)]) (auto simp: two_cycles_def graph_conns_def)

text \<open>With such a connection the new connections mention the removed node, and the graph is
  no longer well-formed.\<close>

lemma removeNode_self_loop_dangles:
  "\<exists>g'. removeNode_reconnect (\<lambda>c. gc_type c \<noteq> Main_type) nodeA
     \<lparr>g_nodes = [(''a'', nodeA)], g_conns = [(''a-main-0-0-a'', conn_between nodeA nodeA)]\<rparr> =
       Inr (g', [conn_between nodeA nodeA]) \<and> \<not> g_wf g'"
  by (simp add: removeNode_reconnect_def getDirectChildConnections_def getDirectParentConnections_def
      has_this_node_def rewired_connections_def conn_between_def drop_node_def obj_delete_def g_wf_def)

text \<open>Copying a well-formed graph succeeds and gives an equal graph, in the same
  order.\<close>

theorem clone_same:
  assumes "g_wf g"
  shows "clone g = Inr g"
  using assms by (rule clone_eq)

lemma clone_same_witness: "clone two_cycles = Inr two_cycles"
  by (rule clone_same) simp

text \<open>The strongly connected components it reports are not empty, do not overlap, and
  any two nodes of one reach each other; the search terminates and no assertion of it fails.\<close>

theorem components_sound:
  assumes "g_wf g"
  shows "\<exists>sccs. getStronglyConnectedComponents g = Inr sccs \<and> [] \<notin> set sccs \<and> distinct (concat sccs) \<and>
    set (concat sccs) \<subseteq> graph_nodes g \<and>
    (\<forall>c \<in> set sccs. \<forall>a \<in> set c. \<forall>b \<in> set c. (a, b) \<in> (child_edges g)\<^sup>*)"
  using assms by (rule getStronglyConnectedComponents_ok)

lemma components_sound_witness:
  "\<exists>sccs. getStronglyConnectedComponents two_cycles = Inr sccs \<and> [] \<notin> set sccs \<and> distinct (concat sccs) \<and>
    set (concat sccs) \<subseteq> graph_nodes two_cycles \<and>
    (\<forall>c \<in> set sccs. \<forall>a \<in> set c. \<forall>b \<in> set c. (a, b) \<in> (child_edges two_cycles)\<^sup>*)"
  by (rule components_sound) simp

text \<open>But it does not report them all: a component is popped only while the low-link value
  of the top of the stack equals the root's id, and a node whose low-link value was lowered
  to another node of the component blocks it. The three nodes below are one component.\<close>

lemma two_cycles_children:
  "getDirectChildConnections two_cycles nodeR = Inr [conn_between nodeR nodeA]"
  "getDirectChildConnections two_cycles nodeA = Inr [conn_between nodeA nodeB, conn_between nodeA nodeR]"
  "getDirectChildConnections two_cycles nodeB = Inr [conn_between nodeB nodeA]"
  by (simp_all add: getDirectChildConnections_def) (simp_all add: two_cycles_def)

text \<open>In the graph with connections from r to a, from a to b, from b to a and from a to
  r, whose nodes all reach each other, no component is reported.\<close>

theorem components_incomplete:
  "getStronglyConnectedComponents two_cycles = Inr [] \<and>
   graph_nodes two_cycles \<times> graph_nodes two_cycles \<subseteq> (child_edges two_cycles)\<^sup>*"
proof
  have "g_nodes two_cycles = [(''r'', nodeR), (''a'', nodeA), (''b'', nodeB)]" by (simp add: two_cycles_def)
  then show "getStronglyConnectedComponents two_cycles = Inr []"
    by (simp add: getStronglyConnectedComponents_def two_cycles_children open_node_def lower_link_def
        close_component_def)
  have e: "(nodeR, nodeA) \<in> child_edges two_cycles" "(nodeA, nodeB) \<in> child_edges two_cycles"
    "(nodeB, nodeA) \<in> child_edges two_cycles" "(nodeA, nodeR) \<in> child_edges two_cycles"
    by (force simp: child_edges_def graph_conns_def two_cycles_def)+
  have hub: "(n, nodeA) \<in> (child_edges two_cycles)\<^sup>*" "(nodeA, n) \<in> (child_edges two_cycles)\<^sup>*"
    if "n \<in> graph_nodes two_cycles" for n
  proof -
    have "n = nodeR \<or> n = nodeA \<or> n = nodeB" using that by (auto simp: graph_nodes_def two_cycles_def)
    with e show "(n, nodeA) \<in> (child_edges two_cycles)\<^sup>*" "(nodeA, n) \<in> (child_edges two_cycles)\<^sup>*" by blast+
  qed
  show "graph_nodes two_cycles \<times> graph_nodes two_cycles \<subseteq> (child_edges two_cycles)\<^sup>*"
    using hub by (blast intro: rtrancl_trans)
qed

text \<open>Two different connections can have one key, and the second replaces the first.\<close>

lemma makeKey_collision:
  "makeKey (conn_between (plain_node ''A'' t) (plain_node ''B-main-0-0-C'' u)) =
   makeKey (conn_between (plain_node ''A-main-0-0-B'' v) (plain_node ''C'' w))"
  by simp

text \<open>Exporting succeeds exactly when no node has outgoing connections of two types
  (otherwise it reads a property of undefined), and then the table holds, at each node,
  type and output, the connections of the graph from there, in order.\<close>

theorem toIConnections_export:
  "if one_type_per_node (obj_values (g_conns g))
   then \<exists>conns. toIConnections g = Inr conns \<and> (\<forall>a ty i. cell_at conns a ty i =
     map out_entry (filter (\<lambda>c. from_name c = a \<and> gc_type c = ty \<and> gc_outputIndex c = i) (obj_values (g_conns g))))
   else toIConnections g = Inl UndefinedProperty"
  by (rule toIConnections_spec)

end
