(* ===== verification/Partial_Execution.thy ===== *)
theory Partial_Execution
  imports Graph_Search
begin

text \<open>
  The steps of a partial execution before the stack is rebuilt
  (\<^verbatim>\<open>packages/core/src/execution-engine/partial-execution-utils\<close>): reading the data of
  earlier runs, filtering disabled nodes, the sub-graph between the trigger and the
  destination, the start nodes, the cycles, and cleaning the run data.

  A recursive function takes fuel; the theorems show that what its caller gives is enough.
\<close>

section \<open>Data of earlier runs\<close>

text \<open>\<^verbatim>\<open>runData[nodeName]?.at(runIndex)?.data?.[connectionType].at(outputIndex) ?? null\<close>:
  the optional chain covers a missing run and missing data, not a missing connection type.\<close>

definition getIncomingData ::
  "run_data \<Rightarrow> string \<Rightarrow> int \<Rightarrow> string \<Rightarrow> int \<Rightarrow> graph_error + item list option" where
  "getIncomingData runData nodeName runIndex connectionType outputIndex =
     (case obj_get runData nodeName of
        None \<Rightarrow> Inr None
      | Some runs \<Rightarrow> (case arr_at runs runIndex of
          None \<Rightarrow> Inr None
        | Some taskData \<Rightarrow> (case td_data taskData of
            None \<Rightarrow> Inr None
          | Some d \<Rightarrow> (case obj_get d connectionType of
              None \<Rightarrow> Inl UndefinedProperty
            | Some outs \<Rightarrow> Inr (case arr_at outs outputIndex of
                Some (Val items) \<Rightarrow> Some items | _ \<Rightarrow> None)))))"

definition getRunIndexLength :: "run_data \<Rightarrow> string \<Rightarrow> nat" where
  "getRunIndexLength runData nodeName = (case obj_get runData nodeName of None \<Rightarrow> 0 | Some runs \<Rightarrow> length runs)"

definition getIncomingDataFromAnyRun ::
  "run_data \<Rightarrow> string \<Rightarrow> string \<Rightarrow> nat \<Rightarrow> graph_error + (item list \<times> nat) option" where
  "getIncomingDataFromAnyRun runData nodeName connectionType outputIndex =
     foldE (\<lambda>runIndex res. case res of
         Some r \<Rightarrow> Inr (Some r)
       | None \<Rightarrow> bindE (getIncomingData runData nodeName (int runIndex) connectionType (int outputIndex))
           (\<lambda>items. Inr (case items of Some (i # is) \<Rightarrow> Some (i # is, runIndex) | _ \<Rightarrow> None)))
     [0..<getRunIndexLength runData nodeName] None"

definition getNextExecutionIndex :: "run_data \<Rightarrow> nat" where
  "getNextExecutionIndex runData =
     (let previousIndices = concat (map (\<lambda>td. case td_executionIndex td of None \<Rightarrow> [] | Some i \<Rightarrow> [i])
           (concat (obj_values runData)))
      in if previousIndices = [] then 0 else Max (set previousIndices) + 1)"

section \<open>Disabled nodes\<close>

definition filterDisabledNodes :: "graph \<Rightarrow> graph_error + graph" where
  "filterDisabledNodes g = bindE (clone g) (\<lambda>filtered.
     foldE (\<lambda>node acc.
         if is_disabled node
         then bindE (removeNode_reconnect (\<lambda>c. gc_type c \<noteq> Main_type) node acc) (\<lambda>r. Inr (fst r))
         else Inr acc)
       (obj_values (g_nodes filtered)) filtered)"

section \<open>The sub-graph of an execution\<close>

definition keep_branch :: "gconn list \<Rightarrow> graph \<Rightarrow> graph_error + graph" where
  "keep_branch branch newGraph =
     foldE (\<lambda>c acc. addGConn c (addNodes [gc_from c, gc_to c] acc)) branch newGraph"

fun findSubgraphRecursive ::
  "graph \<Rightarrow> nat \<Rightarrow> inode \<Rightarrow> inode \<Rightarrow> inode \<Rightarrow> gconn list \<Rightarrow> graph \<Rightarrow> graph_error + graph" where
  "findSubgraphRecursive g 0 destinationNode current trigger currentBranch newGraph = Inl OutOfFuel"
| "findSubgraphRecursive g (Suc fuel) destinationNode current trigger currentBranch newGraph =
     (if current = trigger then keep_branch currentBranch (addNode trigger newGraph)
      else bindE (getDirectParentConnections g current) (\<lambda>parentConnections.
        if parentConnections = [] then Inr newGraph
        else if current = destinationNode \<and> (\<exists>c \<in> set currentBranch. gc_to c = destinationNode) then Inr newGraph
        else if \<exists>c \<in> set currentBranch. gc_to c = current then keep_branch currentBranch newGraph
        else foldE (\<lambda>parentConnection acc.
            if gc_type parentConnection \<noteq> Main_type then Inr acc
            else findSubgraphRecursive g fuel destinationNode (gc_from parentConnection) trigger
                   (currentBranch @ [parentConnection]) acc)
          parentConnections newGraph))"

definition add_sub_nodes :: "graph \<Rightarrow> inode \<Rightarrow> graph \<Rightarrow> graph_error + graph" where
  "add_sub_nodes g node subgraph =
     bindE (getParentConnections g node) (\<lambda>parentConnections.
       foldE (\<lambda>c acc. if gc_type c = Main_type then Inr acc
                      else addGConn c (addNodes [gc_from c, gc_to c] acc))
         parentConnections subgraph)"

definition findSubgraph :: "graph \<Rightarrow> inode \<Rightarrow> inode \<Rightarrow> graph_error + graph" where
  "findSubgraph g destination trigger =
     bindE (findSubgraphRecursive g (Suc (length (g_nodes g))) destination destination trigger [] empty_graph)
       (\<lambda>subgraph. foldE (add_sub_nodes g) (obj_values (g_nodes subgraph)) subgraph)"

section \<open>Start nodes\<close>

definition isDirty :: "inode \<Rightarrow> run_data \<Rightarrow> pin_data \<Rightarrow> bool" where
  "isDirty node runData pinData =
     (let hasAnError = (case obj_get runData (node_name node) of
            None \<Rightarrow> False | Some runs \<Rightarrow> (\<exists>td \<in> set runs. td_error td \<noteq> None))
      in if hasAnError then True
         else if obj_get pinData (node_name node) \<noteq> None then False
         else if obj_get runData (node_name node) \<noteq> None then False
         else True)"

definition isALoop :: "graph \<Rightarrow> inode \<Rightarrow> graph_error + bool" where
  "isALoop g node = bindE (getChildren g node) (\<lambda>children. Inr (node \<in> set children))"

text \<open>The check of a loop node: it starts again unless its last run gave data on the output
  that follows the loop.\<close>

definition loop_unfinished :: "graph \<Rightarrow> run_data \<Rightarrow> inode \<Rightarrow> graph_error + bool" where
  "loop_unfinished g runData current =
     (if node_type current = ''n8n-nodes-base.splitInBatches'' then
        bindE (isALoop g current) (\<lambda>loop.
        bindE (getIncomingData runData (node_name current) (-1) Main_type (if loop then 0 else 1))
          (\<lambda>nodeRunData. Inr (nodeRunData = None \<or> nodeRunData = Some [])))
      else Inr False)"

text \<open>Whether a connection is not followed: its source has neither data nor pinned data.\<close>

definition skips_connection :: "run_data \<Rightarrow> pin_data \<Rightarrow> gconn \<Rightarrow> graph_error + bool" where
  "skips_connection runData pinData c =
     bindE (getIncomingDataFromAnyRun runData (node_name (gc_from c)) (gc_type c) (gc_outputIndex c))
       (\<lambda>nodeRunData.
         let hasNoRunData = (case nodeRunData of None \<Rightarrow> True | Some r \<Rightarrow> fst r = []);
             hasNoPinnedData = (obj_get pinData (node_name (gc_from c)) = None)
         in Inr (hasNoRunData \<and> hasNoPinnedData))"

fun findStartNodesRecursive ::
  "graph \<Rightarrow> nat \<Rightarrow> inode \<Rightarrow> inode \<Rightarrow> run_data \<Rightarrow> pin_data \<Rightarrow> inode list \<Rightarrow> inode list \<Rightarrow>
     graph_error + inode list" where
  "findStartNodesRecursive g 0 current destination runData pinData seen startNodes = Inl OutOfFuel"
| "findStartNodesRecursive g (Suc fuel) current destination runData pinData seen startNodes =
     (if isDirty current runData pinData then Inr (set_add current startNodes)
      else if current = destination then Inr (set_add current startNodes)
      else bindE (loop_unfinished g runData current) (\<lambda>unfinished.
        if unfinished then Inr (set_add current startNodes)
        else if current \<in> set seen then Inr startNodes
        else bindE (getDirectChildConnections g current) (\<lambda>outGoingConnections.
          foldE (\<lambda>c startNodes. bindE (skips_connection runData pinData c) (\<lambda>skip.
              if skip then Inr startNodes
              else findStartNodesRecursive g fuel (gc_to c) destination runData pinData
                     (set_add current seen) startNodes))
            outGoingConnections startNodes)))"

definition findStartNodes ::
  "graph \<Rightarrow> inode \<Rightarrow> inode \<Rightarrow> pin_data \<Rightarrow> run_data \<Rightarrow> graph_error + inode list" where
  "findStartNodes g trigger destination pinData runData =
     findStartNodesRecursive g (Suc (length (g_nodes g))) trigger destination runData pinData [] []"

section \<open>Cycles\<close>

definition handle_start_node ::
  "graph \<Rightarrow> inode \<Rightarrow> inode list list \<Rightarrow> inode \<Rightarrow> inode list \<Rightarrow> graph_error + inode list" where
  "handle_start_node g trigger cycles startNode newStartNodes =
     foldE (\<lambda>cycle newStartNodes.
         if startNode \<in> set cycle then
           bindE (depthFirstSearch g trigger (\<lambda>node. node \<in> set cycle)) (\<lambda>firstNode.
             case firstNode of
               None \<Rightarrow> Inl AssertionError
             | Some n \<Rightarrow> Inr (set_add n (set_delete startNode newStartNodes)))
         else Inr newStartNodes)
       cycles newStartNodes"

definition handleCycles :: "graph \<Rightarrow> inode list \<Rightarrow> inode \<Rightarrow> graph_error + inode list" where
  "handleCycles g startNodes trigger =
     bindE (getStronglyConnectedComponents g) (\<lambda>sccs.
       let cycles = filter (\<lambda>cycle. length cycle \<ge> 1) sccs in
       if cycles = [] then Inr startNodes
       else foldE (handle_start_node g trigger cycles) startNodes startNodes)"

section \<open>Cleaning run data\<close>

definition clean_node :: "graph \<Rightarrow> inode \<Rightarrow> run_data \<Rightarrow> graph_error + run_data" where
  "clean_node g node runData =
     bindE (getParentConnections g node) (\<lambda>subNodeConnections.
       Inr (fold (\<lambda>c rd. if gc_type c = Main_type then rd else obj_delete (node_name (gc_from c)) rd)
         subNodeConnections (obj_delete (node_name node) runData)))"

definition cleanRunData :: "run_data \<Rightarrow> graph \<Rightarrow> inode list \<Rightarrow> graph_error + run_data" where
  "cleanRunData runData g nodesToClean =
     bindE (foldE (\<lambda>nodeToClean rd.
         bindE (getChildren g nodeToClean) (\<lambda>children.
           foldE (clean_node g) (nodeToClean # children) (obj_delete (node_name nodeToClean) rd)))
       nodesToClean runData)
     (\<lambda>newRunData. Inr (fold (\<lambda>nodeName rd. if hasNode nodeName g then rd else obj_delete nodeName rd)
        (obj_keys newRunData) newRunData))"

section \<open>What the reading functions return\<close>

text \<open>Data recorded for a node has an entry for every type of its outgoing connections, and
  for the main type when the node is a loop node.\<close>

definition runs_typed :: "graph \<Rightarrow> run_data \<Rightarrow> bool" where
  "runs_typed g runData \<longleftrightarrow>
     (\<forall>n runs td d. obj_get runData (node_name n) = Some runs \<and> td \<in> set runs \<and> td_data td = Some d \<longrightarrow>
        (\<forall>c \<in> graph_conns g. gc_from c = n \<longrightarrow> obj_get d (gc_type c) \<noteq> None) \<and>
        (node_type n = ''n8n-nodes-base.splitInBatches'' \<longrightarrow> obj_get d Main_type \<noteq> None))"

definition gave_data :: "run_data \<Rightarrow> gconn \<Rightarrow> bool" where
  "gave_data runData c \<longleftrightarrow> (\<exists>runs td d outs items. obj_get runData (node_name (gc_from c)) = Some runs \<and>
     td \<in> set runs \<and> td_data td = Some d \<and> obj_get d (gc_type c) = Some outs \<and>
     arr_at outs (int (gc_outputIndex c)) = Some (Val items) \<and> items \<noteq> [])"

lemma arr_at_in: "arr_at xs i = Some x \<Longrightarrow> x \<in> set xs"
  by (auto simp: arr_at_def Let_def split: if_splits)

lemma arr_at_nat: "i < length xs \<Longrightarrow> arr_at xs (int i) = Some (xs ! i)"
  by (simp add: arr_at_def)

definition run_output :: "task_data \<Rightarrow> string \<Rightarrow> nat \<Rightarrow> item list" where
  "run_output td ty i = (case td_data td of None \<Rightarrow> [] | Some d \<Rightarrow> (case obj_get d ty of None \<Rightarrow> []
     | Some outs \<Rightarrow> (case arr_at outs (int i) of Some (Val items) \<Rightarrow> items | _ \<Rightarrow> [])))"

lemma getIncomingData_run:
  assumes "obj_get runData n = Some runs" "k < length runs"
    and "\<forall>td \<in> set runs. \<forall>d. td_data td = Some d \<longrightarrow> obj_get d ty \<noteq> None"
  shows "\<exists>r. getIncomingData runData n (int k) ty (int i) = Inr r \<and>
     (case r of None \<Rightarrow> [] | Some is \<Rightarrow> is) = run_output (runs ! k) ty i"
proof -
  have "runs ! k \<in> set runs" using assms(2) by simp
  show ?thesis
  proof (cases "td_data (runs ! k)")
    case None
    then show ?thesis using assms(1,2) by (simp add: getIncomingData_def arr_at_nat run_output_def)
  next
    case (Some d)
    with assms(3) \<open>runs ! k \<in> set runs\<close> obtain outs where "obj_get d ty = Some outs" by blast
    with Some assms(1,2) show ?thesis
      by (simp add: getIncomingData_def arr_at_nat run_output_def split: option.split slot.split)
  qed
qed

lemma getIncomingDataFromAnyRun_first:
  assumes typed: "\<forall>runs td d. obj_get runData n = Some runs \<and> td \<in> set runs \<and> td_data td = Some d \<longrightarrow> obj_get d ty \<noteq> None"
  shows "\<exists>r. getIncomingDataFromAnyRun runData n ty i = Inr r \<and>
    (case r of
       None \<Rightarrow> (\<forall>runs td. obj_get runData n = Some runs \<and> td \<in> set runs \<longrightarrow> run_output td ty i = [])
     | Some (items, k) \<Rightarrow> items \<noteq> [] \<and> (\<exists>runs. obj_get runData n = Some runs \<and> k < length runs \<and>
         run_output (runs ! k) ty i = items \<and> (\<forall>j < k. run_output (runs ! j) ty i = [])))"
proof (cases "obj_get runData n")
  case None
  then show ?thesis by (simp add: getIncomingDataFromAnyRun_def getRunIndexLength_def)
next
  case (Some runs)
  let ?f = "\<lambda>runIndex res. case res of Some r \<Rightarrow> Inr (Some r)
       | None \<Rightarrow> bindE (getIncomingData runData n (int runIndex) ty (int i))
           (\<lambda>items. Inr (case items of Some (i # is) \<Rightarrow> Some (i # is, runIndex) | _ \<Rightarrow> None))"
  let ?P = "\<lambda>ds r. case r of
       None \<Rightarrow> (\<forall>j \<in> set ds. run_output (runs ! j) ty i = [])
     | Some (items, k) \<Rightarrow> items \<noteq> [] \<and> k < length runs \<and> run_output (runs ! k) ty i = items \<and>
         (\<forall>j < k. run_output (runs ! j) ty i = [])"
  have "\<exists>s. foldE ?f [0..<length runs] None = Inr s \<and> ?P [0..<length runs] s"
  proof (rule foldE_rule [where P = ?P])
    show "?P [] None" by simp
  next
    fix ds k rest s
    assume split: "[0..<length runs] = ds @ k # rest" and P: "?P ds s"
    have "k \<in> set [0..<length runs]" unfolding split by simp
    then have k: "k < length runs" by simp
    have "[0..<length runs] ! length ds = k" unfolding split by simp
    moreover have "length ds < length runs"
      using arg_cong [OF split, of length] by simp
    ultimately have "length ds = k" by simp
    have "ds = take (length ds) [0..<length runs]" unfolding split by simp
    also have "\<dots> = [0..<k]" using \<open>length ds = k\<close> k by (simp add: take_upt)
    finally have ds: "set ds = {0..<k}" by simp
    from getIncomingData_run [OF Some k, of ty i] typed Some obtain r where
      r: "getIncomingData runData n (int k) ty (int i) = Inr r"
      "(case r of None \<Rightarrow> [] | Some is \<Rightarrow> is) = run_output (runs ! k) ty i" by blast
    show "\<exists>s'. ?f k s = Inr s' \<and> ?P (ds @ [k]) s'"
    proof (cases s)
      case None
      with P ds have "\<forall>j < k. run_output (runs ! j) ty i = []" by simp
      with None r k ds show ?thesis by (auto split: option.splits list.splits)
    qed (use P in auto)
  qed
  then obtain s where s: "foldE ?f [0..<length runs] None = Inr s" "?P [0..<length runs] s" by blast
  have "(\<forall>j \<in> set [0..<length runs]. run_output (runs ! j) ty i = []) \<longleftrightarrow> (\<forall>td \<in> set runs. run_output td ty i = [])"
    by (auto simp: all_set_conv_all_nth)
  with s Some show ?thesis
    by (auto simp: getIncomingDataFromAnyRun_def getRunIndexLength_def split: option.splits)
qed

lemma run_output_gave:
  "gave_data runData c \<longleftrightarrow> (\<exists>runs td. obj_get runData (node_name (gc_from c)) = Some runs \<and> td \<in> set runs \<and>
     run_output td (gc_type c) (gc_outputIndex c) \<noteq> [])"
proof -
  have "run_output td ty i \<noteq> [] \<longleftrightarrow> (\<exists>d outs items. td_data td = Some d \<and> obj_get d ty = Some outs \<and>
     arr_at outs (int i) = Some (Val items) \<and> items \<noteq> [])" for td ty i
    by (simp add: run_output_def split: option.split slot.split)
  then show ?thesis by (simp add: gave_data_def)
qed

definition followed :: "run_data \<Rightarrow> pin_data \<Rightarrow> gconn \<Rightarrow> bool" where
  "followed runData pinData c \<longleftrightarrow> gave_data runData c \<or> obj_get pinData (node_name (gc_from c)) \<noteq> None"

lemma skips_connection_eq:
  assumes "runs_typed g runData" "c \<in> graph_conns g"
  shows "skips_connection runData pinData c = Inr (\<not> followed runData pinData c)"
proof -
  let ?n = "node_name (gc_from c)"
  have "\<forall>runs td d. obj_get runData ?n = Some runs \<and> td \<in> set runs \<and> td_data td = Some d \<longrightarrow>
      obj_get d (gc_type c) \<noteq> None"
    using assms unfolding runs_typed_def by metis
  from getIncomingDataFromAnyRun_first [OF this, of "gc_outputIndex c"] obtain r where
    r: "getIncomingDataFromAnyRun runData ?n (gc_type c) (gc_outputIndex c) = Inr r"
    and spec: "case r of
       None \<Rightarrow> (\<forall>runs td. obj_get runData ?n = Some runs \<and> td \<in> set runs \<longrightarrow> run_output td (gc_type c) (gc_outputIndex c) = [])
     | Some (items, k) \<Rightarrow> items \<noteq> [] \<and> (\<exists>runs. obj_get runData ?n = Some runs \<and> k < length runs \<and>
         run_output (runs ! k) (gc_type c) (gc_outputIndex c) = items \<and> (\<forall>j < k. run_output (runs ! j) (gc_type c) (gc_outputIndex c) = []))"
    by blast
  have "(case r of None \<Rightarrow> True | Some r \<Rightarrow> fst r = []) \<longleftrightarrow> \<not> gave_data runData c"
  proof (cases r)
    case None
    with spec show ?thesis unfolding run_output_gave by auto
  next
    case (Some p)
    with spec show ?thesis unfolding run_output_gave by (cases p) (auto intro: nth_mem)
  qed
  then show ?thesis by (simp add: skips_connection_def r followed_def)
qed

lemma loop_unfinished_ok:
  assumes wf: "g_wf g" and n: "has_this_node g n" and typed: "runs_typed g runData"
  shows "\<exists>b. loop_unfinished g runData n = Inr b"
proof (cases "node_type n = ''n8n-nodes-base.splitInBatches''")
  case True
  from getChildren_spec [OF wf n] obtain ch where "getChildren g n = Inr ch" by blast
  moreover have "\<exists>r. getIncomingData runData (node_name n) (-1) Main_type k = Inr r" for k
  proof -
    have "obj_get d Main_type \<noteq> None"
      if "obj_get runData (node_name n) = Some runs" "arr_at runs (-1) = Some td" "td_data td = Some d" for runs td d
      using typed that arr_at_in [OF that(2)] True unfolding runs_typed_def by blast
    then show ?thesis
      unfolding getIncomingData_def
      by (cases "obj_get runData (node_name n)"; simp) (force split: option.split)
  qed
  then have "\<exists>b. bindE (getIncomingData runData (node_name n) (-1) Main_type k)
     (\<lambda>nodeRunData. Inr (nodeRunData = None \<or> nodeRunData = Some [])) = Inr b" for k
    by (metis bindE.simps(2))
  ultimately show ?thesis using True by (simp add: loop_unfinished_def isALoop_def)
qed (auto simp: loop_unfinished_def)

section \<open>Start nodes\<close>

definition stops_at :: "graph \<Rightarrow> inode \<Rightarrow> run_data \<Rightarrow> pin_data \<Rightarrow> inode \<Rightarrow> bool" where
  "stops_at g destination runData pinData n \<longleftrightarrow>
     isDirty n runData pinData \<or> n = destination \<or> loop_unfinished g runData n = Inr True"

definition start_edges :: "graph \<Rightarrow> inode \<Rightarrow> run_data \<Rightarrow> pin_data \<Rightarrow> (inode \<times> inode) set" where
  "start_edges g destination runData pinData =
     {(gc_from c, gc_to c) | c. c \<in> graph_conns g \<and> \<not> stops_at g destination runData pinData (gc_from c) \<and>
        followed runData pinData c}"

text \<open>The edges of \<open>R\<close> that do not leave a node of \<open>A\<close>; a path to a node need not
  leave any node twice.\<close>

definition leaving :: "('a \<times> 'a) set \<Rightarrow> 'a set \<Rightarrow> ('a \<times> 'a) set" where
  "leaving R A = {(a, b) \<in> R. a \<notin> A}"

lemma leaving_unfold:
  assumes "cur \<notin> A"
  shows "(cur, m) \<in> (leaving R A)\<^sup>* \<longleftrightarrow>
    m = cur \<or> (\<exists>b. (cur, b) \<in> R \<and> (b, m) \<in> (leaving R (insert cur A))\<^sup>*)"
proof
  let ?L = "leaving R A" and ?M = "leaving R (insert cur A)"
  have "(x, m) \<in> ?M\<^sup>* \<or> (\<exists>b. (cur, b) \<in> R \<and> (b, m) \<in> ?M\<^sup>*)" if "(x, m) \<in> ?L\<^sup>*" for x
    using that
  proof (induction rule: converse_rtrancl_induct)
    case (step x y)
    then show ?case
      by (cases "x = cur") (auto simp: leaving_def intro: converse_rtrancl_into_rtrancl)
  qed simp
  note split = this
  assume "(cur, m) \<in> ?L\<^sup>*"
  from split [OF this] show "m = cur \<or> (\<exists>b. (cur, b) \<in> R \<and> (b, m) \<in> ?M\<^sup>*)"
    by (auto elim: converse_rtranclE simp: leaving_def)
next
  assume r: "m = cur \<or> (\<exists>b. (cur, b) \<in> R \<and> (b, m) \<in> (leaving R (insert cur A))\<^sup>*)"
  have "(leaving R (insert cur A))\<^sup>* \<subseteq> (leaving R A)\<^sup>*"
    by (rule rtrancl_mono) (auto simp: leaving_def)
  moreover have "(cur, b) \<in> leaving R A" if "(cur, b) \<in> R" for b
    using that assms by (simp add: leaving_def)
  ultimately show "(cur, m) \<in> (leaving R A)\<^sup>*"
    using r by (blast intro: converse_rtrancl_into_rtrancl)
qed

lemma foldE_collect_set:
  assumes "\<And>x S. x \<in> set xs \<Longrightarrow> distinct S \<Longrightarrow> \<exists>S'. f x S = Inr S' \<and> distinct S' \<and> set S' = set S \<union> F x"
    and "distinct S"
  shows "\<exists>S'. foldE f xs S = Inr S' \<and> distinct S' \<and> set S' = set S \<union> (\<Union>x \<in> set xs. F x)"
  using assms
proof (induction xs arbitrary: S)
  case (Cons x xs)
  from Cons.prems(1) [of x S] Cons.prems(2) obtain S1
    where S1: "f x S = Inr S1" "distinct S1" "set S1 = set S \<union> F x" by auto
  have "\<exists>S'. foldE f xs S1 = Inr S' \<and> distinct S' \<and> set S' = set S1 \<union> (\<Union>x \<in> set xs. F x)"
    by (rule Cons.IH) (use Cons.prems(1) S1(2) in auto)
  with S1 show ?case by auto
qed simp

lemma findStartNodesRecursive_spec:
  fixes destination runData pinData g
  defines "stop \<equiv> stops_at g destination runData pinData" and "R \<equiv> start_edges g destination runData pinData"
  assumes wf: "g_wf g" and typed: "runs_typed g runData"
    and "has_this_node g current" "card (graph_nodes g - set seen) < fuel" "distinct S"
    and "\<forall>n \<in> set seen. \<not> stop n"
  shows "\<exists>S'. findStartNodesRecursive g fuel current destination runData pinData seen S = Inr S' \<and> distinct S' \<and>
     set S' = set S \<union> {n. (current, n) \<in> (leaving R (set seen))\<^sup>* \<and> stop n}"
  using assms(5-)
proof (induction fuel arbitrary: current seen S)
  case 0
  then show ?case by simp
next
  case (Suc fuel)
  obtain b where b: "loop_unfinished g runData current = Inr b"
    using loop_unfinished_ok [OF wf Suc.prems(1) typed] by blast
  have no_edge: "(x, y) \<notin> R" if "stop x" for x y
    using that by (auto simp: R_def start_edges_def stop_def)
  show ?case
  proof (cases "stop current")
    case True
    then have "findStartNodesRecursive g (Suc fuel) current destination runData pinData seen S = Inr (set_add current S)"
      using b by (auto simp: stop_def stops_at_def)
    moreover have "(current, n) \<in> (leaving R (set seen))\<^sup>* \<longleftrightarrow> n = current" for n
      using no_edge [OF True] by (auto simp: leaving_def elim: converse_rtranclE)
    ultimately show ?thesis using Suc.prems(3) True by auto
  next
    case go: False
    then have nostop: "\<not> isDirty current runData pinData" "current \<noteq> destination" "b = False"
      using b by (auto simp: stop_def stops_at_def)
    show ?thesis
    proof (cases "current \<in> set seen")
      case True
      have "(current, n) \<in> (leaving R (set seen))\<^sup>* \<longleftrightarrow> n = current" for n
        using True by (auto simp: leaving_def elim: converse_rtranclE)
      then show ?thesis using True nostop b Suc.prems(3) go by auto
    next
      case False
      let ?cs = "filter (\<lambda>c. gc_from c = current) (obj_values (g_conns g))"
      let ?f = "\<lambda>c S. bindE (skips_connection runData pinData c) (\<lambda>skip.
              if skip then Inr S
              else findStartNodesRecursive g fuel (gc_to c) destination runData pinData (set_add current seen) S)"
      let ?F = "\<lambda>c. if followed runData pinData c
        then {n. (gc_to c, n) \<in> (leaving R (insert current (set seen)))\<^sup>* \<and> stop n} else {}"
      have cs: "c \<in> set ?cs \<longleftrightarrow> c \<in> graph_conns g \<and> gc_from c = current" for c by auto
      have "\<exists>S'. foldE ?f ?cs S = Inr S' \<and> distinct S' \<and> set S' = set S \<union> (\<Union>c \<in> set ?cs. ?F c)"
      proof (rule foldE_collect_set)
        fix c and T :: "inode list" assume c: "c \<in> set ?cs" and T: "distinct T"
        then have cg: "c \<in> graph_conns g" using cs by blast
        note skip = skips_connection_eq [OF typed cg, of pinData]
        have "graph_nodes g - set (set_add current seen) \<subset> graph_nodes g - set seen"
          using False Suc.prems(1) has_this_node_iff [OF wf] by auto
        then have "card (graph_nodes g - set (set_add current seen)) < card (graph_nodes g - set seen)"
          by (intro psubset_card_mono) auto
        with Suc.prems(2) have fuel: "card (graph_nodes g - set (set_add current seen)) < fuel" by simp
        have "\<forall>n \<in> set (set_add current seen). \<not> stop n" using Suc.prems(4) go by auto
        from Suc.IH [OF g_wf_endpoints(2) [OF wf cg] fuel T this]
        show "\<exists>S'. ?f c T = Inr S' \<and> distinct S' \<and> set S' = set T \<union> ?F c"
          using T by (cases "followed runData pinData c") (simp_all add: skip)
      qed (rule Suc.prems(3))
      then obtain S' where S': "foldE ?f ?cs S = Inr S'" "distinct S'" "set S' = set S \<union> (\<Union>c \<in> set ?cs. ?F c)"
        by blast
      have res: "findStartNodesRecursive g (Suc fuel) current destination runData pinData seen S = Inr S'"
        using nostop False b S'(1) by (simp add: graph_defs Suc.prems(1))
      have edge: "(current, y) \<in> R \<longleftrightarrow> (\<exists>c \<in> set ?cs. followed runData pinData c \<and> gc_to c = y)" for y
        using go by (auto simp: R_def start_edges_def stop_def)
      have "(\<Union>c \<in> set ?cs. ?F c) = {n. (\<exists>y. (current, y) \<in> R \<and> (y, n) \<in> (leaving R (insert current (set seen)))\<^sup>*) \<and> stop n}"
        unfolding edge by auto
      also have "\<dots> = {n. (current, n) \<in> (leaving R (set seen))\<^sup>* \<and> stop n}"
        unfolding leaving_unfold [OF False] using go by auto
      finally show ?thesis using res S'(2,3) by auto
    qed
  qed
qed

lemma findStartNodes_set:
  assumes wf: "g_wf g" and "runs_typed g runData" "has_this_node g trigger"
  shows "\<exists>S. findStartNodes g trigger destination pinData runData = Inr S \<and> distinct S \<and>
    set S = {n. (trigger, n) \<in> (start_edges g destination runData pinData)\<^sup>* \<and> stops_at g destination runData pinData n}"
proof -
  have fuel: "card (graph_nodes g - set []) < Suc (length (g_nodes g))"
    using graph_nodes_card [of g] by simp
  have "leaving R {} = R" for R :: "(inode \<times> inode) set" by (auto simp: leaving_def)
  with findStartNodesRecursive_spec [OF assms fuel, of "[]" destination pinData]
  show ?thesis by (simp add: findStartNodes_def)
qed

section \<open>Filtering disabled nodes\<close>

definition main_conns :: "graph \<Rightarrow> (inode \<times> inode) set" where
  "main_conns g = {(gc_from c, gc_to c) | c. c \<in> graph_conns g \<and> gc_type c = Main_type}"

lemma main_conns_iff:
  "(a, b) \<in> main_conns g \<longleftrightarrow> (\<exists>c \<in> graph_conns g. gc_from c = a \<and> gc_to c = b \<and> gc_type c = Main_type)"
  by (auto simp: main_conns_def)

text \<open>A path of at least one step whose inner nodes are all in \<open>X\<close>.\<close>

inductive through :: "('a \<times> 'a) set \<Rightarrow> 'a set \<Rightarrow> 'a \<Rightarrow> 'a \<Rightarrow> bool" for M X where
  through_edge: "(a, b) \<in> M \<Longrightarrow> through M X a b"
| through_step: "through M X a x \<Longrightarrow> x \<in> X \<Longrightarrow> (x, b) \<in> M \<Longrightarrow> through M X a b"

lemma through_empty [simp]: "through M {} a b \<longleftrightarrow> (a, b) \<in> M"
  by (auto elim: through.cases intro: through_edge)

lemma through_mono: "through M X a b \<Longrightarrow> X \<subseteq> Y \<Longrightarrow> through M Y a b"
  by (induction rule: through.induct) (auto intro: through.intros)

lemma through_trans: "through M X x b \<Longrightarrow> through M X a x \<Longrightarrow> x \<in> X \<Longrightarrow> through M X a b"
  by (induction rule: through.induct) (auto intro: through.intros)

lemma through_insert:
  "through M (insert x X) a b \<longleftrightarrow> through M X a b \<or> through M X a x \<and> through M X x b"
proof
  assume "through M (insert x X) a b"
  then show "through M X a b \<or> through M X a x \<and> through M X x b"
    by (induction rule: through.induct) (auto intro: through.intros)
next
  have "through M X a' b' \<Longrightarrow> through M (insert x X) a' b'" for a' b'
    by (erule through_mono) auto
  then show "through M X a b \<or> through M X a x \<and> through M X x b \<Longrightarrow> through M (insert x X) a b"
    by (blast intro: through_trans)
qed

lemma obj_set_values:
  assumes "obj_wf m" "\<forall>(k, c) \<in> set m. k = f c" "inj_on f (insert v (snd ` set m))"
  shows "snd ` set (obj_set (f v) v m) = insert v (snd ` set m)"
  using assms
proof (induction m)
  case (Cons p m)
  obtain k c where p: "p = (k, c)" by (cases p)
  have kc: "k = f c" using Cons.prems(2) p by auto
  show ?case
  proof (cases "k = f v")
    case True
    have "c = v" by (rule inj_onD [OF Cons.prems(3)]) (use True kc p in auto)
    with True p show ?thesis by auto
  next
    case False
    have "snd ` set (obj_set (f v) v m) = insert v (snd ` set m)"
    proof (rule Cons.IH)
      show "inj_on f (insert v (snd ` set m))" by (rule inj_on_subset [OF Cons.prems(3)]) auto
    qed (use Cons.prems(1,2) in \<open>auto simp: obj_wf_def\<close>)
    with False p show ?thesis by auto
  qed
qed simp

lemma fold_set_values:
  assumes "obj_wf m" "\<forall>(k, c) \<in> set m. k = f c" "inj_on f (set cs \<union> snd ` set m)"
  shows "snd ` set (fold (\<lambda>c. obj_set (f c) c) cs m) = set cs \<union> snd ` set m"
  using assms
proof (induction cs arbitrary: m)
  case (Cons c cs)
  have v: "snd ` set (obj_set (f c) c m) = insert c (snd ` set m)"
    by (rule obj_set_values [OF Cons.prems(1,2)], rule inj_on_subset [OF Cons.prems(3)]) auto
  have "snd ` set (fold (\<lambda>c. obj_set (f c) c) cs (obj_set (f c) c m)) = set cs \<union> snd ` set (obj_set (f c) c m)"
  proof (rule Cons.IH)
    show "\<forall>(k, d) \<in> set (obj_set (f c) c m). k = f d"
      using Cons.prems(2) by (auto dest!: obj_set_in)
    show "inj_on f (set cs \<union> snd ` set (obj_set (f c) c m))"
      unfolding v using Cons.prems(3) by simp
  qed (use Cons.prems in simp)
  with v show ?case by simp
qed simp

definition keys_distinguish :: "graph \<Rightarrow> bool" where
  "keys_distinguish g \<longleftrightarrow> inj_on makeKey {c. gc_from c \<in> graph_nodes g \<and> gc_to c \<in> graph_nodes g}"

lemma removeNode_reconnect_main:
  assumes wf: "g_wf g" and n: "has_this_node g node" and inj: "keys_distinguish g"
    and loop: "(node, node) \<notin> main_conns g"
  shows "\<exists>g' new. removeNode_reconnect (\<lambda>c. gc_type c \<noteq> Main_type) node g = Inr (g', new) \<and> g_wf g' \<and>
     g_nodes g' = obj_delete (node_name node) (g_nodes g) \<and>
     main_conns g' = {(a, b). a \<noteq> node \<and> b \<noteq> node \<and> through (main_conns g) {node} a b}"
proof -
  let ?skip = "\<lambda>c. gc_type c \<noteq> Main_type"
  have "\<forall>c \<in> graph_conns g. gc_from c = node \<and> gc_to c = node \<longrightarrow> ?skip c"
    using loop by (auto simp: main_conns_def)
  from removeNode_reconnect_wf [OF wf n this] obtain g' new where r:
    "removeNode_reconnect ?skip node g = Inr (g', new)" "g_wf g'"
    "g_nodes g' = obj_delete (node_name node) (g_nodes g)"
    "set new = {i\<lparr>gc_to := gc_to x, gc_inputIndex := gc_inputIndex x\<rparr> | i x.
        i \<in> graph_conns g \<and> x \<in> graph_conns g \<and> gc_to i = node \<and> gc_from x = node \<and> \<not> ?skip i \<and> \<not> ?skip x}"
    by blast
  have conns: "g_conns g' = fold (\<lambda>c. obj_set (makeKey c) c) new (drop_node node (g_conns g))"
    using r(1) unfolding removeNode_reconnect_eq [OF n] Let_def by auto
  have dropped: "snd ` set (drop_node node (g_conns g)) = {c \<in> graph_conns g. gc_to c \<noteq> node \<and> gc_from c \<noteq> node}"
    by (force simp: drop_node_def graph_conns_def simp del: graph_conns_fold)
  have ends: "gc_from c \<in> graph_nodes g" "gc_to c \<in> graph_nodes g" if "c \<in> graph_conns g" for c
    using that g_wf_endpoints [OF wf] has_this_node_iff [OF wf] by auto
  have "set new \<union> {c \<in> graph_conns g. gc_to c \<noteq> node \<and> gc_from c \<noteq> node}
      \<subseteq> {c. gc_from c \<in> graph_nodes g \<and> gc_to c \<in> graph_nodes g}"
    unfolding r(4) using ends by auto
  then have injs: "inj_on makeKey (set new \<union> snd ` set (drop_node node (g_conns g)))"
    using inj unfolding keys_distinguish_def dropped by (rule inj_on_subset [rotated])
  have "snd ` set (g_conns g') = set new \<union> snd ` set (drop_node node (g_conns g))"
    unfolding conns
    by (rule fold_set_values [OF _ _ injs]) (use wf in \<open>auto simp: g_wf_def drop_node_def obj_wf_filter\<close>)
  then have g': "graph_conns g' = set new \<union> {c \<in> graph_conns g. gc_to c \<noteq> node \<and> gc_from c \<noteq> node}"
    unfolding dropped by simp
  have "(a, b) \<in> main_conns g' \<longleftrightarrow> a \<noteq> node \<and> b \<noteq> node \<and> through (main_conns g) {node} a b" for a b
  proof -
    have new: "(\<exists>c \<in> set new. gc_from c = a \<and> gc_to c = b \<and> gc_type c = Main_type) \<longleftrightarrow>
       (a, node) \<in> main_conns g \<and> (node, b) \<in> main_conns g"
      (is "?l \<longleftrightarrow> ?r")
    proof
      assume ?l
      then obtain i x where "i \<in> graph_conns g" "x \<in> graph_conns g" "gc_to i = node" "gc_from x = node"
        "gc_from i = a" "gc_to x = b" "gc_type i = Main_type" "gc_type x = Main_type"
        unfolding r(4) by auto
      then show ?r unfolding main_conns_iff by blast
    next
      assume ?r
      then obtain i x where "i \<in> graph_conns g" "x \<in> graph_conns g" "gc_to i = node" "gc_from x = node"
        "gc_from i = a" "gc_to x = b" "gc_type i = Main_type" "gc_type x = Main_type"
        unfolding main_conns_iff by metis
      then show ?l unfolding r(4)
        by (intro bexI [of _ "i\<lparr>gc_to := gc_to x, gc_inputIndex := gc_inputIndex x\<rparr>"]) auto
    qed
    have "through (main_conns g) {node} a b \<longleftrightarrow>
      (a, b) \<in> main_conns g \<or> (a, node) \<in> main_conns g \<and> (node, b) \<in> main_conns g"
      using through_insert [of "main_conns g" node "{}" a b] by simp
    moreover have "(a, b) \<in> main_conns g' \<longleftrightarrow>
      (\<exists>c \<in> set new. gc_from c = a \<and> gc_to c = b \<and> gc_type c = Main_type) \<or>
      a \<noteq> node \<and> b \<noteq> node \<and> (a, b) \<in> main_conns g"
      unfolding main_conns_iff g' by blast
    ultimately show ?thesis unfolding new using loop by auto
  qed
  with r show ?thesis by auto
qed

definition disabled_nodes :: "graph \<Rightarrow> inode set" where
  "disabled_nodes g = {n \<in> graph_nodes g. is_disabled n}"

lemma through_avoiding_pairs:
  assumes "through {(a, b). a \<notin> X \<and> b \<notin> X \<and> through M X a b} {x} a b" "x \<notin> X"
  shows "through M (insert x X) a b"
  using assms(1)
proof (induction rule: through.induct)
  case (through_edge a b)
  then show ?case by (auto intro: through_mono)
next
  case (through_step a y b)
  then have "through M (insert x X) y b" by (auto intro: through_mono)
  with through_step show ?case by (auto intro: through_trans)
qed

lemma main_after_removal:
  assumes "M1 = {(a, b). a \<notin> X \<and> b \<notin> X \<and> through M X a b}" "x \<notin> X"
  shows "{(a, b). a \<noteq> x \<and> b \<noteq> x \<and> through M1 {x} a b} =
    {(a, b). a \<notin> insert x X \<and> b \<notin> insert x X \<and> through M (insert x X) a b}"
proof -
  have "through M1 {x} a b \<longleftrightarrow> (a, b) \<in> M1 \<or> (a, x) \<in> M1 \<and> (x, b) \<in> M1" for a b
    using through_insert [of M1 x "{}" a b] by simp
  then show ?thesis unfolding through_insert assms(1) using assms(2) by auto
qed

lemma map_snd_obj_delete:
  assumes "\<forall>(k, n) \<in> set m. k = f n" "obj_wf m" "(f x, x) \<in> set m"
  shows "map snd (obj_delete (f x) m) = filter (\<lambda>n. n \<noteq> x) (map snd m)"
proof -
  have "fst p \<noteq> f x \<longleftrightarrow> snd p \<noteq> x" if "p \<in> set m" for p
    using assms that by (cases p) (auto simp: obj_wf_in)
  then have "obj_delete (f x) m = filter (\<lambda>p. snd p \<noteq> x) m"
    unfolding obj_delete_def by (intro filter_cong) auto
  then show ?thesis by (simp add: filter_map comp_def)
qed

lemma filterDisabledNodes_ok:
  assumes wf: "g_wf g" and inj: "keys_distinguish g"
    and acyclic: "\<forall>n \<in> disabled_nodes g. \<not> through (main_conns g) (disabled_nodes g) n n"
  shows "\<exists>g'. filterDisabledNodes g = Inr g' \<and> g_wf g' \<and>
    obj_values (g_nodes g') = filter (\<lambda>n. \<not> is_disabled n) (obj_values (g_nodes g)) \<and>
    main_conns g' = {(a, b). \<not> is_disabled a \<and> \<not> is_disabled b \<and> through (main_conns g) (disabled_nodes g) a b}"
proof -
  let ?ns = "obj_values (g_nodes g)"
  let ?f = "\<lambda>node acc. if is_disabled node
         then bindE (removeNode_reconnect (\<lambda>c. gc_type c \<noteq> Main_type) node acc) (\<lambda>r. Inr (fst r))
         else Inr acc"
  let ?X = "\<lambda>ds. {n \<in> set ds. is_disabled n}"
  let ?P = "\<lambda>ds acc. g_wf acc \<and> obj_values (g_nodes acc) = filter (\<lambda>n. n \<notin> ?X ds) ?ns \<and>
     main_conns acc = {(a, b). a \<notin> ?X ds \<and> b \<notin> ?X ds \<and> through (main_conns g) (?X ds) a b}"
  have dist: "distinct ?ns"
  proof -
    have "map fst (g_nodes g) = map node_name ?ns" using wf by (force simp: g_wf_def)
    then have "distinct (map node_name ?ns)" using wf by (metis g_wf_def obj_wf_def)
    then show ?thesis by (metis distinct_map)
  qed
  have "\<exists>s'. foldE ?f ?ns g = Inr s' \<and> ?P ?ns s'"
  proof (rule foldE_rule [where P = ?P])
    show "?P [] g" using wf by simp
  next
    fix ds node rest acc
    assume split: "?ns = ds @ node # rest" and P: "?P ds acc"
    show "\<exists>s'. ?f node acc = Inr s' \<and> ?P (ds @ [node]) s'"
    proof (cases "is_disabled node")
      case False
      then have "?X (ds @ [node]) = ?X ds" by auto
      with P False show ?thesis by simp
    next
      case True
      have X: "?X (ds @ [node]) = insert node (?X ds)" using True by auto
      have notin: "node \<notin> ?X ds" using dist unfolding split by auto
      have node: "node \<in> graph_nodes g" unfolding graph_nodes_def split by simp
      have "set (obj_values (g_nodes acc)) = set (filter (\<lambda>n. n \<notin> ?X ds) ?ns)" using P by metis
      then have acc: "graph_nodes acc = {n \<in> graph_nodes g. n \<notin> ?X ds}" by simp
      then have sub: "graph_nodes acc \<subseteq> graph_nodes g" by blast
      have "node \<in> graph_nodes acc" using acc node notin by blast
      then have has: "has_this_node acc node" using P has_this_node_iff by blast
      have keys: "keys_distinguish acc"
        using inj sub unfolding keys_distinguish_def by (elim inj_on_subset) auto
      have "?X ds \<subseteq> disabled_nodes g" unfolding disabled_nodes_def graph_nodes_def split by auto
      moreover have "node \<in> disabled_nodes g" using True node by (simp add: disabled_nodes_def)
      ultimately have "\<not> through (main_conns g) (?X ds) node node"
        using bspec [OF acyclic, of node] through_mono [of "main_conns g" "?X ds" node node "disabled_nodes g"]
        by satx
      then have loop: "(node, node) \<notin> main_conns acc" using P by simp
      from removeNode_reconnect_main [OF _ has keys loop] P obtain g' new where g':
        "removeNode_reconnect (\<lambda>c. gc_type c \<noteq> Main_type) node acc = Inr (g', new)" "g_wf g'"
        "g_nodes g' = obj_delete (node_name node) (g_nodes acc)"
        "main_conns g' = {(a, b). a \<noteq> node \<and> b \<noteq> node \<and> through (main_conns acc) {node} a b}" by blast
      have "obj_values (g_nodes g') = filter (\<lambda>n. n \<noteq> node) (obj_values (g_nodes acc))"
        unfolding g'(3)
        by (rule map_snd_obj_delete)
          (use P has in \<open>simp_all add: g_wf_def has_this_node_def map_of_SomeD\<close>)
      also have "\<dots> = filter (\<lambda>n. n \<notin> ?X (ds @ [node])) ?ns"
        using P unfolding X by (simp add: filter_filter conj_commute)
      finally have nodes: "obj_values (g_nodes g') = filter (\<lambda>n. n \<notin> ?X (ds @ [node])) ?ns" .
      have "main_conns g' = {(a, b). a \<notin> ?X (ds @ [node]) \<and> b \<notin> ?X (ds @ [node]) \<and>
          through (main_conns g) (?X (ds @ [node])) a b}"
        unfolding g'(4) X by (rule main_after_removal [OF _ notin]) (use P in blast)
      with g'(1,2) nodes True show ?thesis by simp
    qed
  qed
  then obtain s where s: "foldE ?f ?ns g = Inr s" "?P ?ns s" by blast
  have X: "?X ?ns = disabled_nodes g" by (auto simp: disabled_nodes_def)
  have M: "a \<in> graph_nodes g \<and> b \<in> graph_nodes g" if "through (main_conns g) Y a b" for a b Y
    using that
  proof (induction rule: through.induct)
    case (through_edge a b)
    then show ?case using g_wf_endpoints [OF wf] has_this_node_iff [OF wf] by (auto simp: main_conns_def)
  next
    case (through_step a x b)
    then show ?case using g_wf_endpoints [OF wf] has_this_node_iff [OF wf] by (auto simp: main_conns_def)
  qed
  have "obj_values (g_nodes s) = filter (\<lambda>n. \<not> is_disabled n) ?ns"
    using s(2) by (auto intro!: filter_cong simp: image_iff)
  moreover have "main_conns s = {(a, b). \<not> is_disabled a \<and> \<not> is_disabled b \<and> through (main_conns g) (disabled_nodes g) a b}"
  proof -
    have "main_conns s = {(a, b). a \<notin> disabled_nodes g \<and> b \<notin> disabled_nodes g \<and> through (main_conns g) (disabled_nodes g) a b}"
      using s(2) unfolding X by blast
    also have "\<dots> = {(a, b). \<not> is_disabled a \<and> \<not> is_disabled b \<and> through (main_conns g) (disabled_nodes g) a b}"
      using M unfolding disabled_nodes_def by auto
    finally show ?thesis .
  qed
  ultimately show ?thesis using s by (simp add: filterDisabledNodes_def clone_eq [OF wf])
qed

end
