(* ===== verification/Partial_Graphs.thy ===== *)
theory Partial_Graphs
  imports Partial_Execution
begin

text \<open>
  What the steps of \<^verbatim>\<open>Partial_Execution\<close> compute: the start nodes after cycles are
  handled, the cleaned run data and the sub-graph; then the properties of these steps, each
  with a concrete graph to which it applies.
\<close>

section \<open>Cycles\<close>

definition mutual :: "graph \<Rightarrow> inode \<Rightarrow> inode \<Rightarrow> bool" where
  "mutual g a b \<longleftrightarrow> (a, b) \<in> (child_edges g)\<^sup>* \<and> (b, a) \<in> (child_edges g)\<^sup>*"

lemma mutual_refl [simp]: "mutual g a a"
  by (simp add: mutual_def)

lemma mutual_trans: "mutual g a b \<Longrightarrow> mutual g b c \<Longrightarrow> mutual g a c"
  by (auto simp: mutual_def intro: rtrancl_trans)

definition starts_ok :: "graph \<Rightarrow> inode \<Rightarrow> inode list \<Rightarrow> inode list \<Rightarrow> bool" where
  "starts_ok g trigger starts S \<longleftrightarrow> distinct S \<and>
     (\<forall>n \<in> set S. (trigger, n) \<in> (child_edges g)\<^sup>* \<and> (\<exists>s \<in> set starts. mutual g s n)) \<and>
     (\<forall>s \<in> set starts. \<exists>n \<in> set S. mutual g s n)"

lemma starts_ok_replace:
  assumes ok: "starts_ok g trigger starts S" and s: "s \<in> set starts"
    and n: "mutual g s n" "(trigger, n) \<in> (child_edges g)\<^sup>*"
  shows "starts_ok g trigger starts (set_add n (set_delete s S))"
proof -
  have "\<exists>m \<in> set (set_add n (set_delete s S)). mutual g t m" if t: "t \<in> set starts" for t
  proof -
    from ok t obtain m where m: "m \<in> set S" "mutual g t m" by (auto simp: starts_ok_def)
    show ?thesis
    proof (cases "m = s")
      case True
      with m n(1) have "mutual g t n" by (blast intro: mutual_trans)
      then show ?thesis by auto
    qed (use m in auto)
  qed
  then show ?thesis using ok n s by (auto simp: starts_ok_def)
qed

lemma handle_start_node_ok:
  assumes wf: "g_wf g" and trig: "has_this_node g trigger" and s: "s \<in> set starts"
    and reach: "(trigger, s) \<in> (child_edges g)\<^sup>*"
    and cycles: "\<forall>c \<in> set cycles. \<forall>a \<in> set c. \<forall>b \<in> set c. (a, b) \<in> (child_edges g)\<^sup>*"
    and ok: "starts_ok g trigger starts S"
  shows "\<exists>S'. handle_start_node g trigger cycles s S = Inr S' \<and> starts_ok g trigger starts S'"
  unfolding handle_start_node_def
proof (rule foldE_rule [where P = "\<lambda>ds S. starts_ok g trigger starts S"])
  show "starts_ok g trigger starts S" by (rule ok)
next
  fix ds c rest S
  assume split: "cycles = ds @ c # rest" and S: "starts_ok g trigger starts S"
  show "\<exists>s'. (if s \<in> set c then
           bindE (depthFirstSearch g trigger (\<lambda>node. node \<in> set c)) (\<lambda>firstNode.
             case firstNode of None \<Rightarrow> Inl AssertionError | Some n \<Rightarrow> Inr (set_add n (set_delete s S)))
         else Inr S) = Inr s' \<and> starts_ok g trigger starts s'"
  proof (cases "s \<in> set c")
    case True
    from depthFirstSearch_finds [OF wf trig, of "\<lambda>node. node \<in> set c"] obtain r where
      r: "depthFirstSearch g trigger (\<lambda>node. node \<in> set c) = Inr r"
      "\<forall>n. r = Some n \<longrightarrow> n \<in> set c \<and> (trigger, n) \<in> (child_edges g)\<^sup>*"
      "r = None \<longrightarrow> (\<forall>n. (trigger, n) \<in> (child_edges g)\<^sup>* \<longrightarrow> n \<notin> set c)" by blast
    from r(3) reach True obtain n where n: "r = Some n" by auto
    with r(2) have nc: "n \<in> set c" "(trigger, n) \<in> (child_edges g)\<^sup>*" by auto
    have "mutual g s n" using cycles nc(1) True unfolding split mutual_def by simp
    from starts_ok_replace [OF S s this nc(2)] show ?thesis using True r(1) n by simp
  qed (use S in simp)
qed

lemma handleCycles_ok:
  assumes wf: "g_wf g" and trig: "has_this_node g trigger" and "distinct starts"
    and reach: "\<forall>s \<in> set starts. (trigger, s) \<in> (child_edges g)\<^sup>*"
  shows "\<exists>S. handleCycles g starts trigger = Inr S \<and> starts_ok g trigger starts S"
proof -
  from getStronglyConnectedComponents_ok [OF wf] obtain sccs where sccs:
    "getStronglyConnectedComponents g = Inr sccs"
    "\<forall>c \<in> set sccs. \<forall>a \<in> set c. \<forall>b \<in> set c. (a, b) \<in> (child_edges g)\<^sup>*" by blast
  let ?cycles = "filter (\<lambda>cycle. length cycle \<ge> 1) sccs"
  have cyc: "\<forall>c \<in> set ?cycles. \<forall>a \<in> set c. \<forall>b \<in> set c. (a, b) \<in> (child_edges g)\<^sup>*"
    using sccs(2) unfolding set_filter by blast
  have init: "starts_ok g trigger starts starts" using assms(3) reach mutual_refl unfolding starts_ok_def by blast
  have "\<exists>S. foldE (handle_start_node g trigger ?cycles) starts starts = Inr S \<and> starts_ok g trigger starts S"
  proof (rule foldE_rule [where P = "\<lambda>ds S. starts_ok g trigger starts S"])
    fix ds s rest S
    assume split: "starts = ds @ s # rest" and S: "starts_ok g trigger starts S"
    have "s \<in> set starts" unfolding split by simp
    with reach S show "\<exists>s'. handle_start_node g trigger ?cycles s S = Inr s' \<and> starts_ok g trigger starts s'"
      by (intro handle_start_node_ok [OF wf trig _ _ cyc]) auto
  qed (rule init)
  with sccs(1) init show ?thesis by (auto simp: handleCycles_def Let_def)
qed

section \<open>Cleaning\<close>

lemma foldE_deletes:
  assumes "\<And>x rd. x \<in> set xs \<Longrightarrow> \<exists>rd'. f x rd = Inr rd' \<and>
      (\<forall>n. map_of rd' n = (if n \<in> D x then None else map_of rd n))"
  shows "\<exists>rd'. foldE f xs rd = Inr rd' \<and> (\<forall>n. map_of rd' n = (if \<exists>x \<in> set xs. n \<in> D x then None else map_of rd n))"
  using assms
proof (induction xs arbitrary: rd)
  case (Cons x xs)
  from Cons.prems [of x rd] obtain rd1 where rd1: "f x rd = Inr rd1"
    "\<forall>n. map_of rd1 n = (if n \<in> D x then None else map_of rd n)" by auto
  have "\<exists>rd'. foldE f xs rd1 = Inr rd' \<and> (\<forall>n. map_of rd' n = (if \<exists>x \<in> set xs. n \<in> D x then None else map_of rd1 n))"
    by (rule Cons.IH) (use Cons.prems in auto)
  with rd1 show ?case by auto
qed simp

lemma fold_deletes:
  "map_of (fold (\<lambda>x rd. if P x then rd else obj_delete (h x) rd) xs rd) n =
     (if \<exists>x \<in> set xs. \<not> P x \<and> h x = n then None else map_of rd n)"
  by (induction xs arbitrary: rd) auto

text \<open>The names whose run data goes: the node, and the sources of the connections of other
  types than main at the node or anywhere upstream of it.\<close>

definition cleaned_with :: "graph \<Rightarrow> inode \<Rightarrow> string set" where
  "cleaned_with g n = insert (node_name n)
     {node_name (gc_from c) | c. c \<in> graph_conns g \<and> gc_type c \<noteq> Main_type \<and> (gc_to c, n) \<in> (child_edges g)\<^sup>*}"

lemma clean_node_ok:
  assumes wf: "g_wf g" and n: "has_this_node g n"
  shows "\<exists>rd'. clean_node g n rd = Inr rd' \<and> (\<forall>k. map_of rd' k = (if k \<in> cleaned_with g n then None else map_of rd k))"
proof -
  from getParentConnections_spec [OF wf n] obtain cs where cs: "getParentConnections g n = Inr cs"
    "set cs = {c \<in> graph_conns g. (gc_to c, n) \<in> (child_edges g)\<^sup>*}" by blast
  have "k \<in> cleaned_with g n \<longleftrightarrow> k = node_name n \<or> (\<exists>c \<in> set cs. \<not> gc_type c = Main_type \<and> node_name (gc_from c) = k)" for k
    unfolding cleaned_with_def cs(2) by auto
  then have "map_of (fold (\<lambda>c rd. if gc_type c = Main_type then rd else obj_delete (node_name (gc_from c)) rd) cs
      (obj_delete (node_name n) rd)) k = (if k \<in> cleaned_with g n then None else map_of rd k)" for k
    unfolding fold_deletes by auto
  then show ?thesis unfolding clean_node_def cs(1) bindE.simps by blast
qed

lemma cleanRunData_ok:
  assumes wf: "g_wf g" and nodes: "\<forall>n \<in> set nodesToClean. has_this_node g n"
  shows "\<exists>rd'. cleanRunData rd g nodesToClean = Inr rd' \<and> (\<forall>name. obj_get rd' name =
    (if hasNode name g \<and> \<not> (\<exists>n \<in> set nodesToClean. \<exists>m. (n, m) \<in> (child_edges g)\<^sup>* \<and> name \<in> cleaned_with g m)
     then obj_get rd name else None))"
proof -
  let ?D = "\<lambda>n. {k. \<exists>m. (n, m) \<in> (child_edges g)\<^sup>* \<and> k \<in> cleaned_with g m}"
  let ?f = "\<lambda>nodeToClean rd. bindE (getChildren g nodeToClean) (\<lambda>children.
           foldE (clean_node g) (nodeToClean # children) (obj_delete (node_name nodeToClean) rd))"
  have "\<exists>rd'. foldE ?f nodesToClean rd = Inr rd' \<and>
     (\<forall>n. map_of rd' n = (if \<exists>x \<in> set nodesToClean. n \<in> ?D x then None else map_of rd n))"
  proof (rule foldE_deletes)
    fix x rd assume "x \<in> set nodesToClean"
    with nodes have x: "has_this_node g x" by blast
    from getChildren_spec [OF wf x] obtain ch where ch: "getChildren g x = Inr ch"
      "set ch = {m. (x, m) \<in> (child_edges g)\<^sup>+}" by blast
    then have desc: "set (x # ch) = {m. (x, m) \<in> (child_edges g)\<^sup>*}" by (auto simp: rtrancl_eq_or_trancl)
    have has: "has_this_node g m" if "(x, m) \<in> (child_edges g)\<^sup>*" for m
      using that by (induction) (use x child_edges_has_node [OF wf] in auto)
    have "\<exists>rd'. foldE (clean_node g) (x # ch) (obj_delete (node_name x) rd) = Inr rd' \<and>
      (\<forall>n. map_of rd' n = (if \<exists>m \<in> set (x # ch). n \<in> cleaned_with g m then None else map_of (obj_delete (node_name x) rd) n))"
      by (rule foldE_deletes, rule clean_node_ok [OF wf]) (use has desc in blast)
    then obtain rd' where rd': "foldE (clean_node g) (x # ch) (obj_delete (node_name x) rd) = Inr rd'"
      "\<forall>n. map_of rd' n = (if \<exists>m \<in> set (x # ch). n \<in> cleaned_with g m then None else map_of (obj_delete (node_name x) rd) n)"
      by blast
    have "map_of rd' n = (if n \<in> ?D x then None else map_of rd n)" for n
    proof -
      have "n \<in> ?D x \<longleftrightarrow> (\<exists>m \<in> set (x # ch). n \<in> cleaned_with g m)" unfolding desc by blast
      moreover have "node_name x \<in> ?D x" by (auto simp: cleaned_with_def)
      ultimately show ?thesis using rd'(2) by (auto simp del: set_simps)
    qed
    with rd'(1) ch(1) show "\<exists>rd'. ?f x rd = Inr rd' \<and> (\<forall>n. map_of rd' n = (if n \<in> ?D x then None else map_of rd n))"
      by (intro exI [of _ rd']) (simp only: bindE.simps, blast)
  qed
  then obtain rd1 where rd1: "foldE ?f nodesToClean rd = Inr rd1"
    "\<forall>n. map_of rd1 n = (if \<exists>x \<in> set nodesToClean. n \<in> ?D x then None else map_of rd n)" by blast
  let ?r = "fold (\<lambda>nodeName rd. if hasNode nodeName g then rd else obj_delete nodeName rd) (obj_keys rd1) rd1"
  have "map_of ?r n = (if hasNode n g then map_of rd1 n else None)" for n
  proof -
    have "map_of rd1 n = None" if "n \<notin> set (obj_keys rd1)" using that by (simp add: map_of_eq_None_iff)
    then show ?thesis
      using fold_deletes [of "\<lambda>k. hasNode k g" "\<lambda>k. k" "obj_keys rd1" rd1 n] by auto
  qed
  then have "map_of ?r name =
    (if hasNode name g \<and> \<not> (\<exists>n \<in> set nodesToClean. \<exists>m. (n, m) \<in> (child_edges g)\<^sup>* \<and> name \<in> cleaned_with g m)
     then obj_get rd name else None)" for name
    unfolding rd1(2) [rule_format] by auto
  then show ?thesis unfolding cleanRunData_def rd1(1) bindE.simps by blast
qed

section \<open>The sub-graph\<close>

definition subgraph_of :: "graph \<Rightarrow> graph \<Rightarrow> bool" where
  "subgraph_of sg g \<longleftrightarrow> g_wf sg \<and> graph_nodes sg \<subseteq> graph_nodes g \<and> graph_conns sg \<subseteq> graph_conns g"

definition grows :: "graph \<Rightarrow> graph \<Rightarrow> bool" where
  "grows sg sg' \<longleftrightarrow> graph_nodes sg \<subseteq> graph_nodes sg' \<and> graph_conns sg \<subseteq> graph_conns sg'"

lemma grows_refl [simp]: "grows sg sg"
  by (simp add: grows_def)

lemma grows_trans: "grows a b \<Longrightarrow> grows b c \<Longrightarrow> grows a c"
  by (auto simp: grows_def)

lemma graph_empty [simp]: "graph_nodes empty_graph = {}" "graph_conns empty_graph = {}"
  unfolding graph_nodes_def graph_conns_def empty_graph_def by simp_all

lemma subgraph_of_empty [simp]: "subgraph_of empty_graph g"
  by (simp add: subgraph_of_def)

lemma nodes_by_name: "g_wf g \<Longrightarrow> inj_on node_name (graph_nodes g)"
  by (rule inj_onI) (metis has_this_node_def has_this_node_iff option.inject)

lemma conn_stored:
  assumes "g_wf g" "c \<in> graph_conns g"
  shows "map_of (g_conns g) (makeKey c) = Some c"
proof -
  from assms(2) obtain k where k: "(k, c) \<in> set (g_conns g)"
    unfolding graph_conns_def by (metis imageE list.set_map prod.collapse)
  from assms(1) have wf: "obj_wf (g_conns g)" unfolding g_wf_def by (elim conjE)
  from assms(1) k have "k = makeKey c" unfolding g_wf_def by blast
  with k obj_wf_in [OF wf, of k c] show ?thesis by simp
qed

lemma conns_by_key: "g_wf g \<Longrightarrow> inj_on makeKey (graph_conns g)"
  by (rule inj_onI) (metis conn_stored option.inject)

lemma subgraph_addNode:
  assumes g: "g_wf g" and sg: "subgraph_of sg g" and n: "n \<in> graph_nodes g"
  shows "subgraph_of (addNode n sg) g \<and> graph_nodes (addNode n sg) = insert n (graph_nodes sg) \<and>
    graph_conns (addNode n sg) = graph_conns sg"
proof -
  have wf: "g_wf sg" using sg by (simp add: subgraph_of_def)
  have same: "m = n" if "obj_get (g_nodes sg) (node_name n) = Some m" for m
  proof -
    have "m \<in> graph_nodes sg" "node_name m = node_name n"
      using that wf by (force simp: graph_nodes_def g_wf_def simp del: graph_nodes_fold dest: map_of_SomeD)+
    with sg n nodes_by_name [OF g] show ?thesis unfolding subgraph_of_def by (meson inj_onD subsetD)
  qed
  have "g_wf (addNode n sg)"
    by (rule g_wf_addNode [OF wf])
      (use same in \<open>cases "obj_get (g_nodes sg) (node_name n)"; auto simp: has_this_node_def\<close>)
  moreover have "snd ` set (obj_set (node_name n) n (g_nodes sg)) = insert n (snd ` set (g_nodes sg))"
  proof (rule obj_set_values)
    show "inj_on node_name (insert n (snd ` set (g_nodes sg)))"
      by (rule inj_on_subset [OF nodes_by_name [OF g]]) (use sg n in \<open>auto simp: subgraph_of_def\<close>)
  qed (use wf in \<open>auto simp: g_wf_def\<close>)
  then have "graph_nodes (addNode n sg) = insert n (graph_nodes sg)"
    by (simp add: addNode_def flip: graph_nodes_fold)
  moreover have "graph_conns (addNode n sg) = graph_conns sg"
    by (simp add: addNode_def flip: graph_conns_fold)
  ultimately show ?thesis using sg n by (simp add: subgraph_of_def)
qed

lemma subgraph_addConn:
  assumes g: "g_wf g" and sg: "subgraph_of sg g" and c: "c \<in> graph_conns g"
  shows "\<exists>sg'. addGConn c (addNodes [gc_from c, gc_to c] sg) = Inr sg' \<and> subgraph_of sg' g \<and>
    graph_nodes sg' = graph_nodes sg \<union> {gc_from c, gc_to c} \<and> graph_conns sg' = insert c (graph_conns sg)"
proof -
  have ends: "gc_from c \<in> graph_nodes g" "gc_to c \<in> graph_nodes g"
    using g_wf_endpoints [OF g c] has_this_node_iff [OF g] by auto
  let ?s1 = "addNode (gc_from c) sg" and ?s2 = "addNode (gc_to c) (addNode (gc_from c) sg)"
  note s1 = subgraph_addNode [OF g sg ends(1)]
  note s2 = subgraph_addNode [OF g conjunct1 [OF s1] ends(2)]
  have wf: "g_wf ?s2" using s2 by (simp add: subgraph_of_def)
  have has: "has_this_node ?s2 (gc_from c)" "has_this_node ?s2 (gc_to c)"
    using s1 s2 has_this_node_iff [OF wf] by auto
  let ?s3 = "?s2\<lparr>g_conns := obj_set (makeKey c) c (g_conns ?s2)\<rparr>"
  have "snd ` set (obj_set (makeKey c) c (g_conns ?s2)) = insert c (snd ` set (g_conns ?s2))"
  proof (rule obj_set_values)
    show "inj_on makeKey (insert c (snd ` set (g_conns ?s2)))"
      by (rule inj_on_subset [OF conns_by_key [OF g]]) (use s2 c in \<open>auto simp: subgraph_of_def\<close>)
  qed (use wf in \<open>auto simp: g_wf_def\<close>)
  then have conns: "graph_conns ?s3 = insert c (graph_conns ?s2)"
    by (simp flip: graph_conns_fold)
  have nodes: "graph_nodes ?s3 = graph_nodes ?s2" by (simp flip: graph_nodes_fold)
  have "subgraph_of ?s3 g"
    using conjunct1 [OF s2] c g_wf_set_conn [OF wf has] unfolding subgraph_of_def conns nodes by blast
  moreover have "addGConn c (addNodes [gc_from c, gc_to c] sg) = Inr ?s3"
    using has by (simp add: addNodes_def graph_defs)
  ultimately show ?thesis using s1 s2 conns nodes by auto
qed

lemma keep_branch_ok:
  assumes g: "g_wf g" and "subgraph_of sg g" "set branch \<subseteq> graph_conns g"
  shows "\<exists>sg'. keep_branch branch sg = Inr sg' \<and> subgraph_of sg' g \<and>
    graph_nodes sg' = graph_nodes sg \<union> gc_from ` set branch \<union> gc_to ` set branch \<and>
    graph_conns sg' = graph_conns sg \<union> set branch"
  unfolding keep_branch_def using assms(2,3)
proof (induction branch arbitrary: sg)
  case (Cons c branch)
  from subgraph_addConn [OF g Cons.prems(1), of c] Cons.prems(2) obtain s1 where s1:
    "addGConn c (addNodes [gc_from c, gc_to c] sg) = Inr s1" "subgraph_of s1 g"
    "graph_nodes s1 = graph_nodes sg \<union> {gc_from c, gc_to c}" "graph_conns s1 = insert c (graph_conns sg)" by auto
  from Cons.IH [OF s1(2)] Cons.prems(2) s1 show ?case by auto
qed simp

text \<open>What the walk adds leads to the destination.\<close>

definition leads :: "graph \<Rightarrow> inode \<Rightarrow> graph \<Rightarrow> bool" where
  "leads g dest sg \<longleftrightarrow> (\<forall>n \<in> graph_nodes sg. (n, dest) \<in> (child_edges g)\<^sup>*)"

lemma child_edges_conn: "c \<in> graph_conns g \<Longrightarrow> (gc_from c, gc_to c) \<in> child_edges g"
  by (auto simp: child_edges_def)

lemma findSubgraphRecursive_ok:
  assumes g: "g_wf g"
    and "current \<in> graph_nodes g" "(current, dest) \<in> (child_edges g)\<^sup>*" "subgraph_of sg g" "leads g dest sg"
      "set branch \<subseteq> graph_conns g" "\<forall>c \<in> set branch. (gc_to c, dest) \<in> (child_edges g)\<^sup>*"
      "card (graph_nodes g - gc_to ` set branch) < fuel"
  shows "\<exists>sg'. findSubgraphRecursive g fuel dest current trigger branch sg = Inr sg' \<and>
    subgraph_of sg' g \<and> grows sg sg' \<and> leads g dest sg'"
  using assms(2-)
proof (induction fuel arbitrary: current branch sg)
  case 0
  then show ?case by simp
next
  case (Suc fuel)
  have has: "has_this_node g current" using Suc.prems(1) has_this_node_iff [OF g] by simp
  let ?ps = "filter (\<lambda>c. gc_to c = current) (obj_values (g_conns g))"
  have to_dest: "(gc_from c, dest) \<in> (child_edges g)\<^sup>*" if "c \<in> set branch" for c
    using Suc.prems(5,6) that child_edges_conn by (blast intro: converse_rtrancl_into_rtrancl)
  have kept: "\<exists>sg'. keep_branch branch s = Inr sg' \<and> subgraph_of sg' g \<and> grows sg sg' \<and> leads g dest sg'"
    if s: "subgraph_of s g" "grows sg s" "leads g dest s" for s
  proof -
    from keep_branch_ok [OF g s(1) Suc.prems(5)] obtain sg' where sg': "keep_branch branch s = Inr sg'"
      "subgraph_of sg' g" "graph_nodes sg' = graph_nodes s \<union> gc_from ` set branch \<union> gc_to ` set branch"
      "graph_conns sg' = graph_conns s \<union> set branch" by blast
    have "leads g dest sg'" using s(3) Suc.prems(6) to_dest unfolding leads_def sg'(3) by auto
    moreover have "grows sg sg'" using s(2) unfolding grows_def sg'(3,4) by auto
    ultimately show ?thesis using sg'(1,2) by auto
  qed
  show ?case
  proof (cases "current = trigger")
    case True
    then have trig: "trigger \<in> graph_nodes g" "(trigger, dest) \<in> (child_edges g)\<^sup>*" using Suc.prems(1,2) by auto
    note a = subgraph_addNode [OF g Suc.prems(3) trig(1)]
    then have "leads g dest (addNode trigger sg)" "grows sg (addNode trigger sg)"
      using Suc.prems(4) trig(2) by (auto simp: leads_def grows_def)
    with kept a True show ?thesis by simp
  next
    case notrig: False
    show ?thesis
    proof (cases "?ps = [] \<or> (\<exists>c \<in> set branch. gc_to c = current)")
      case True
      have "\<exists>sg'. (if ?ps = [] then Inr sg
          else if current = dest \<and> (\<exists>c \<in> set branch. gc_to c = dest) then Inr sg
          else keep_branch branch sg) = Inr sg' \<and> subgraph_of sg' g \<and> grows sg sg' \<and> leads g dest sg'"
        using Suc.prems(3,4) kept [of sg] by simp
      moreover have "findSubgraphRecursive g (Suc fuel) dest current trigger branch sg =
         (if ?ps = [] then Inr sg
          else if current = dest \<and> (\<exists>c \<in> set branch. gc_to c = dest) then Inr sg else keep_branch branch sg)"
        using notrig True has by (auto simp: graph_defs)
      ultimately show ?thesis by simp
    next
      case False
      let ?f = "\<lambda>p acc. if gc_type p \<noteq> Main_type then Inr acc
            else findSubgraphRecursive g fuel dest (gc_from p) trigger (branch @ [p]) acc"
      have "\<exists>s'. foldE ?f ?ps sg = Inr s' \<and> subgraph_of s' g \<and> grows sg s' \<and> leads g dest s'"
      proof (rule foldE_rule [where P = "\<lambda>ds s. subgraph_of s g \<and> grows sg s \<and> leads g dest s"])
        show "subgraph_of sg g \<and> grows sg sg \<and> leads g dest sg" using Suc.prems(3,4) by simp
      next
        fix ds p rest s
        assume split: "?ps = ds @ p # rest" and s: "subgraph_of s g \<and> grows sg s \<and> leads g dest s"
        have "p \<in> set ?ps" unfolding split by simp
        then have p: "p \<in> graph_conns g" "gc_to p = current" by auto
        have "graph_nodes g - gc_to ` set (branch @ [p]) \<subset> graph_nodes g - gc_to ` set branch"
        proof -
          have "current \<notin> gc_to ` set branch" using False by blast
          then show ?thesis using p(2) Suc.prems(1) by auto
        qed
        then have "card (graph_nodes g - gc_to ` set (branch @ [p])) < card (graph_nodes g - gc_to ` set branch)"
          by (intro psubset_card_mono) auto
        with Suc.prems(7) have fuel: "card (graph_nodes g - gc_to ` set (branch @ [p])) < fuel" by simp
        have from_n: "gc_from p \<in> graph_nodes g"
          using g_wf_endpoints [OF g p(1)] has_this_node_iff [OF g] by simp
        have from_dest: "(gc_from p, dest) \<in> (child_edges g)\<^sup>*"
          using child_edges_conn [OF p(1)] p(2) Suc.prems(2) by (auto intro: converse_rtrancl_into_rtrancl)
        have "\<exists>s'. findSubgraphRecursive g fuel dest (gc_from p) trigger (branch @ [p]) s = Inr s' \<and>
            subgraph_of s' g \<and> grows s s' \<and> leads g dest s'"
          by (rule Suc.IH [OF from_n from_dest]) (use s p Suc.prems fuel in auto)
        then show "\<exists>s'. ?f p s = Inr s' \<and> subgraph_of s' g \<and> grows sg s' \<and> leads g dest s'"
          using s by (auto intro: grows_trans)
      qed
      then show ?thesis using notrig False has by (auto simp: graph_defs)
    qed
  qed
qed

text \<open>A path of main connections of \<open>g\<close>.\<close>

fun main_path :: "graph \<Rightarrow> inode \<Rightarrow> gconn list \<Rightarrow> inode \<Rightarrow> bool" where
  "main_path g a [] b \<longleftrightarrow> a = b"
| "main_path g a (c # p) b \<longleftrightarrow> c \<in> graph_conns g \<and> gc_type c = Main_type \<and> gc_from c = a \<and> main_path g (gc_to c) p b"

lemma main_path_snoc: "main_path g a (p @ [c]) b \<longleftrightarrow>
    main_path g a p (gc_from c) \<and> c \<in> graph_conns g \<and> gc_type c = Main_type \<and> gc_to c = b"
  by (induction p arbitrary: a) auto

lemma main_path_conns: "main_path g a p b \<Longrightarrow> set p \<subseteq> graph_conns g"
  by (induction p arbitrary: a) auto

lemma findSubgraphRecursive_keeps:
  assumes g: "g_wf g"
    and "current \<in> graph_nodes g" "(current, dest) \<in> (child_edges g)\<^sup>*" "subgraph_of sg g" "leads g dest sg"
      "set branch \<subseteq> graph_conns g" "\<forall>c \<in> set branch. (gc_to c, dest) \<in> (child_edges g)\<^sup>*"
      "card (graph_nodes g - gc_to ` set branch) < fuel"
    and "main_path g trigger p current" "trigger \<notin> gc_to ` set p" "distinct (map gc_to p)"
      "gc_to ` set p \<inter> gc_to ` set branch = {}"
  shows "\<exists>sg'. findSubgraphRecursive g fuel dest current trigger branch sg = Inr sg' \<and>
    set p \<union> set branch \<subseteq> graph_conns sg' \<and> trigger \<in> graph_nodes sg'"
  using assms(2-)
proof (induction p arbitrary: fuel current branch sg rule: rev_induct)
  case Nil
  then have c: "current = trigger" by simp
  obtain fuel' where fuel: "fuel = Suc fuel'" using Nil.prems(7) by (cases fuel) auto
  note a = subgraph_addNode [OF g Nil.prems(3) Nil.prems(1)]
  from keep_branch_ok [OF g conjunct1 [OF a] Nil.prems(5)] a show ?case
    unfolding fuel c by auto
next
  case (snoc c p)
  have path: "main_path g trigger p (gc_from c)" and c: "c \<in> graph_conns g" "gc_type c = Main_type" "gc_to c = current"
    using snoc.prems(8) by (auto simp: main_path_snoc)
  obtain fuel' where fuel: "fuel = Suc fuel'" using snoc.prems(7) by (cases fuel) auto
  have has: "has_this_node g current" using snoc.prems(1) has_this_node_iff [OF g] by simp
  have notrig: "current \<noteq> trigger" using snoc.prems(9) c(3) by auto
  have cur: "current \<notin> gc_to ` set branch" using snoc.prems(11) c(3) by simp
  then have nobranch: "\<not> (\<exists>b \<in> set branch. gc_to b = current)" by blast
  let ?ps = "filter (\<lambda>c. gc_to c = current) (obj_values (g_conns g))"
  have cps: "c \<in> set ?ps" using c by simp
  let ?f = "\<lambda>q acc. if gc_type q \<noteq> Main_type then Inr acc
            else findSubgraphRecursive g fuel' dest (gc_from q) trigger (branch @ [q]) acc"
  let ?P = "\<lambda>ds s. subgraph_of s g \<and> leads g dest s \<and>
      (c \<in> set ds \<longrightarrow> set p \<union> set (branch @ [c]) \<subseteq> graph_conns s \<and> trigger \<in> graph_nodes s)"
  have "\<exists>s'. foldE ?f ?ps sg = Inr s' \<and> ?P ?ps s'"
  proof (rule foldE_rule [where P = ?P])
    show "?P [] sg" using snoc.prems(3,4) by simp
  next
    fix ds q rest s
    assume split: "?ps = ds @ q # rest" and s: "?P ds s"
    have "q \<in> set ?ps" unfolding split by simp
    then have q: "q \<in> graph_conns g" "gc_to q = current" by auto
    have "graph_nodes g - gc_to ` set (branch @ [q]) \<subset> graph_nodes g - gc_to ` set branch"
      using cur q(2) snoc.prems(1) by auto
    then have "card (graph_nodes g - gc_to ` set (branch @ [q])) < card (graph_nodes g - gc_to ` set branch)"
      by (intro psubset_card_mono) auto
    with snoc.prems(7) have fuel': "card (graph_nodes g - gc_to ` set (branch @ [q])) < fuel'" unfolding fuel by simp
    have from_n: "gc_from q \<in> graph_nodes g"
      using g_wf_endpoints [OF g q(1)] has_this_node_iff [OF g] by simp
    have from_dest: "(gc_from q, dest) \<in> (child_edges g)\<^sup>*"
      using child_edges_conn [OF q(1)] q(2) snoc.prems(2) by (auto intro: converse_rtrancl_into_rtrancl)
    have br: "set (branch @ [q]) \<subseteq> graph_conns g" "\<forall>c \<in> set (branch @ [q]). (gc_to c, dest) \<in> (child_edges g)\<^sup>*"
      using snoc.prems(2,5,6) q by auto
    from s have sok: "subgraph_of s g" "leads g dest s" by auto
    from findSubgraphRecursive_ok [OF g from_n from_dest sok br fuel', of trigger] obtain s' where s':
      "findSubgraphRecursive g fuel' dest (gc_from q) trigger (branch @ [q]) s = Inr s'"
      "subgraph_of s' g" "grows s s'" "leads g dest s'" by blast
    show "\<exists>s'. ?f q s = Inr s' \<and> ?P (ds @ [q]) s'"
    proof (cases "gc_type q = Main_type")
      case False
      with c have "q \<noteq> c" by auto
      with False s show ?thesis by auto
    next
      case main: True
      have "set p \<union> set (branch @ [c]) \<subseteq> graph_conns s' \<and> trigger \<in> graph_nodes s'" if "c \<in> set (ds @ [q])"
      proof (cases "q = c")
        case True
        have "\<exists>sg'. findSubgraphRecursive g fuel' dest (gc_from c) trigger (branch @ [c]) s = Inr sg' \<and>
           set p \<union> set (branch @ [c]) \<subseteq> graph_conns sg' \<and> trigger \<in> graph_nodes sg'"
          by (rule snoc.IH) (use from_n from_dest sok br fuel' path snoc.prems(9-11) in \<open>auto simp: True\<close>)
        with s'(1) show ?thesis unfolding True by auto
      next
        case False
        with that s have "set p \<union> set (branch @ [c]) \<subseteq> graph_conns s \<and> trigger \<in> graph_nodes s" by simp
        with s'(3) show ?thesis unfolding grows_def by blast
      qed
      with main s' show ?thesis by auto
    qed
  qed
  then obtain s' where s': "foldE ?f ?ps sg = Inr s'" "?P ?ps s'" by blast
  have "findSubgraphRecursive g fuel dest current trigger branch sg = foldE ?f ?ps sg"
    using notrig nobranch cps has unfolding fuel by (auto simp: graph_defs)
  with s' cps show ?case by auto
qed

lemma add_sub_nodes_ok:
  assumes g: "g_wf g" and n: "n \<in> graph_nodes g" "(n, dest) \<in> (child_edges g)\<^sup>*"
    and sg: "subgraph_of sg g" "leads g dest sg"
  shows "\<exists>sg'. add_sub_nodes g n sg = Inr sg' \<and> subgraph_of sg' g \<and> grows sg sg' \<and> leads g dest sg' \<and>
    (\<forall>c \<in> graph_conns g. gc_type c \<noteq> Main_type \<and> (gc_to c, n) \<in> (child_edges g)\<^sup>* \<longrightarrow> c \<in> graph_conns sg') \<and>
    (\<forall>m \<in> graph_nodes sg' - graph_nodes sg. (m, n) \<in> (child_edges g)\<^sup>*)"
proof -
  have has: "has_this_node g n" using n(1) has_this_node_iff [OF g] by simp
  from getParentConnections_spec [OF g has] obtain cs where cs: "getParentConnections g n = Inr cs"
    "set cs = {c \<in> graph_conns g. (gc_to c, n) \<in> (child_edges g)\<^sup>*}" by blast
  let ?f = "\<lambda>c acc. if gc_type c = Main_type then Inr acc else addGConn c (addNodes [gc_from c, gc_to c] acc)"
  let ?P = "\<lambda>ds s. subgraph_of s g \<and> grows sg s \<and> leads g dest s \<and>
     (\<forall>c \<in> set ds. gc_type c \<noteq> Main_type \<longrightarrow> c \<in> graph_conns s) \<and>
     (\<forall>m \<in> graph_nodes s - graph_nodes sg. (m, n) \<in> (child_edges g)\<^sup>*)"
  have "\<exists>s'. foldE ?f cs sg = Inr s' \<and> ?P cs s'"
  proof (rule foldE_rule [where P = ?P])
    show "?P [] sg" using sg by simp
  next
    fix ds c rest s
    assume split: "cs = ds @ c # rest" and s: "?P ds s"
    have "c \<in> set cs" unfolding split by simp
    then have c: "c \<in> graph_conns g" "(gc_to c, n) \<in> (child_edges g)\<^sup>*" unfolding cs(2) by auto
    have from_c: "(gc_from c, n) \<in> (child_edges g)\<^sup>*"
      using child_edges_conn [OF c(1)] c(2) by (rule converse_rtrancl_into_rtrancl)
    show "\<exists>s'. ?f c s = Inr s' \<and> ?P (ds @ [c]) s'"
    proof (cases "gc_type c = Main_type")
      case True
      with s show ?thesis by auto
    next
      case False
      from subgraph_addConn [OF g _ c(1), of s] s obtain s' where s':
        "addGConn c (addNodes [gc_from c, gc_to c] s) = Inr s'" "subgraph_of s' g"
        "graph_nodes s' = graph_nodes s \<union> {gc_from c, gc_to c}" "graph_conns s' = insert c (graph_conns s)" by blast
      have "leads g dest s'"
        using s c(2) from_c n(2) unfolding leads_def s'(3) by (auto intro: rtrancl_trans)
      moreover have "grows sg s'" using s unfolding grows_def s'(3,4) by auto
      ultimately have "?P (ds @ [c]) s'" using s s'(2) c(2) from_c unfolding s'(3,4) by auto
      with False s'(1) show ?thesis by simp
    qed
  qed
  then show ?thesis unfolding add_sub_nodes_def cs(1) bindE.simps using cs(2) by fastforce
qed

lemma findSubgraph_ok:
  assumes g: "g_wf g" and dest: "has_this_node g dest"
  shows "\<exists>sg. findSubgraph g dest trigger = Inr sg \<and> subgraph_of sg g \<and> leads g dest sg \<and>
    (\<forall>p. main_path g trigger p dest \<and> trigger \<notin> gc_to ` set p \<and> distinct (map gc_to p) \<longrightarrow>
       set p \<subseteq> graph_conns sg \<and> trigger \<in> graph_nodes sg) \<and>
    (\<forall>c \<in> graph_conns g. gc_to c \<in> graph_nodes sg \<and> gc_type c \<noteq> Main_type \<longrightarrow> c \<in> graph_conns sg)"
proof -
  let ?fuel = "Suc (length (g_nodes g))"
  have d: "dest \<in> graph_nodes g" using dest has_this_node_iff [OF g] by simp
  have fuel: "card (graph_nodes g - gc_to ` set []) < ?fuel" using graph_nodes_card [of g] by simp
  have l0: "leads g dest empty_graph" by (simp add: leads_def)
  from findSubgraphRecursive_ok [OF g d _ subgraph_of_empty l0 _ _ fuel, of trigger] obtain s where s:
    "findSubgraphRecursive g ?fuel dest dest trigger [] empty_graph = Inr s" "subgraph_of s g" "leads g dest s" by auto
  have kept: "set p \<subseteq> graph_conns s \<and> trigger \<in> graph_nodes s"
    if "main_path g trigger p dest" "trigger \<notin> gc_to ` set p" "distinct (map gc_to p)" for p
    using findSubgraphRecursive_keeps [OF g d _ subgraph_of_empty l0 _ _ fuel that] s(1) by auto
  let ?ns = "obj_values (g_nodes s)"
  let ?P = "\<lambda>ds t. subgraph_of t g \<and> grows s t \<and> leads g dest t \<and>
     (\<forall>n \<in> set ds. \<forall>c \<in> graph_conns g. gc_type c \<noteq> Main_type \<and> (gc_to c, n) \<in> (child_edges g)\<^sup>* \<longrightarrow> c \<in> graph_conns t) \<and>
     (\<forall>m \<in> graph_nodes t - graph_nodes s. \<exists>n \<in> set ds. (m, n) \<in> (child_edges g)\<^sup>*)"
  have "\<exists>t. foldE (add_sub_nodes g) ?ns s = Inr t \<and> ?P ?ns t"
  proof (rule foldE_rule [where P = ?P])
    show "?P [] s" using s by simp
  next
    fix ds n rest t
    assume split: "?ns = ds @ n # rest" and t: "?P ds t"
    have "n \<in> set ?ns" unfolding split by simp
    then have ns: "n \<in> graph_nodes s" by simp
    then have n: "n \<in> graph_nodes g" "(n, dest) \<in> (child_edges g)\<^sup>*" using s by (auto simp: subgraph_of_def leads_def)
    from add_sub_nodes_ok [OF g n, of t] t obtain u where u: "add_sub_nodes g n t = Inr u" "subgraph_of u g"
      "grows t u" "leads g dest u"
      "\<forall>c \<in> graph_conns g. gc_type c \<noteq> Main_type \<and> (gc_to c, n) \<in> (child_edges g)\<^sup>* \<longrightarrow> c \<in> graph_conns u"
      "\<forall>m \<in> graph_nodes u - graph_nodes t. (m, n) \<in> (child_edges g)\<^sup>*" by blast
    have "grows s u" using t u(3) grows_trans by blast
    moreover have "\<forall>k \<in> set (ds @ [n]). \<forall>c \<in> graph_conns g. gc_type c \<noteq> Main_type \<and> (gc_to c, k) \<in> (child_edges g)\<^sup>* \<longrightarrow> c \<in> graph_conns u"
      using t u(3,5) unfolding grows_def by auto
    moreover have "\<exists>k \<in> set (ds @ [n]). (m, k) \<in> (child_edges g)\<^sup>*" if "m \<in> graph_nodes u - graph_nodes s" for m
      using that t u(6) by (cases "m \<in> graph_nodes t") auto
    ultimately show "\<exists>u. add_sub_nodes g n t = Inr u \<and> ?P (ds @ [n]) u" using u by blast
  qed
  then obtain t where t: "foldE (add_sub_nodes g) ?ns s = Inr t" "?P ?ns t" by blast
  have "c \<in> graph_conns t" if c: "c \<in> graph_conns g" "gc_to c \<in> graph_nodes t" "gc_type c \<noteq> Main_type" for c
  proof -
    obtain n where "n \<in> set ?ns" "(gc_to c, n) \<in> (child_edges g)\<^sup>*"
    proof (cases "gc_to c \<in> graph_nodes s")
      case True
      then show thesis by (intro that [of "gc_to c"]) auto
    next
      case False
      with c(2) t(2) show thesis using that by blast
    qed
    with c t(2) show ?thesis by blast
  qed
  moreover have "findSubgraph g dest trigger = Inr t" using s(1) t(1) by (simp add: findSubgraph_def)
  ultimately show ?thesis using t(2) kept unfolding grows_def by blast
qed

section \<open>Exactly what the walk keeps\<close>

text \<open>A branch that is kept: a main path to the destination that repeats no node and does not pass the
  trigger, and that begins at the trigger or closes a cycle.\<close>

definition kept_branch :: "graph \<Rightarrow> inode \<Rightarrow> inode \<Rightarrow> inode \<Rightarrow> gconn list \<Rightarrow> bool" where
  "kept_branch g trigger dest a p \<longleftrightarrow> main_path g a p dest \<and> distinct (map gc_to p) \<and> trigger \<notin> gc_to ` set p \<and>
     (a = trigger \<or> a \<in> gc_to ` set p \<and> a \<noteq> dest)"

definition ends :: "gconn set \<Rightarrow> inode set" where
  "ends C = gc_from ` C \<union> gc_to ` C"

text \<open>What the kept branches that continue the current one hold.\<close>

definition kept_conns :: "graph \<Rightarrow> inode \<Rightarrow> inode \<Rightarrow> gconn list \<Rightarrow> gconn set" where
  "kept_conns g trigger dest branch = {c. \<exists>a p. kept_branch g trigger dest a (p @ rev branch) \<and> c \<in> set (p @ rev branch)}"

definition kept_nodes :: "graph \<Rightarrow> inode \<Rightarrow> inode \<Rightarrow> gconn list \<Rightarrow> inode set" where
  "kept_nodes g trigger dest branch =
     {n. \<exists>a p. kept_branch g trigger dest a (p @ rev branch) \<and> n \<in> insert a (ends (set (p @ rev branch)))}"

definition on_branch :: "graph \<Rightarrow> inode \<Rightarrow> inode \<Rightarrow> inode \<Rightarrow> gconn list \<Rightarrow> bool" where
  "on_branch g trigger dest current branch \<longleftrightarrow> main_path g current (rev branch) dest \<and> distinct (map gc_to branch) \<and>
     trigger \<notin> gc_to ` set branch"

lemma main_path_append: "main_path g a (p @ q) b \<longleftrightarrow> (\<exists>c. main_path g a p c \<and> main_path g c q b)"
  by (induction p arbitrary: a) auto

lemma main_path_end: "main_path g a q c \<Longrightarrow> main_path g b q c \<Longrightarrow> q \<noteq> [] \<Longrightarrow> a = b"
  by (cases q) auto

text \<open>A path that continues the branch ends where the branch starts.\<close>

lemma kept_branch_parts:
  assumes "kept_branch g trigger dest a (p @ rev branch)" "on_branch g trigger dest current branch"
  shows "main_path g a p current"
proof -
  from assms(1) obtain c where c: "main_path g a p c" "main_path g c (rev branch) dest"
    by (auto simp: kept_branch_def main_path_append)
  have "main_path g current (rev branch) dest" using assms(2) by (simp add: on_branch_def)
  with c(2) have "c = current" by (cases "branch = []") (auto dest: main_path_end)
  with c(1) show ?thesis by simp
qed

lemma kept_here:
  assumes "on_branch g trigger dest current branch"
  shows "kept_branch g trigger dest current (rev branch) \<longleftrightarrow> current = trigger \<or> current \<in> gc_to ` set branch \<and> current \<noteq> dest"
  using assms by (simp add: kept_branch_def on_branch_def rev_map [symmetric])

lemma kept_snoc:
  assumes "kept_branch g trigger dest a (p @ rev branch)" "on_branch g trigger dest current branch" "p \<noteq> []"
  obtains q c where "p = q @ [c]" "c \<in> graph_conns g" "gc_type c = Main_type" "gc_to c = current"
    "current \<noteq> trigger" "current \<notin> gc_to ` set branch"
proof -
  obtain q c where p: "p = q @ [c]" using assms(3) by (cases p rule: rev_cases) auto
  have c: "c \<in> graph_conns g" "gc_type c = Main_type" "gc_to c = current"
    using kept_branch_parts [OF assms(1,2)] unfolding p by (auto simp: main_path_snoc)
  have "gc_to c \<noteq> trigger" "gc_to c \<notin> gc_to ` set branch"
    using assms(1) unfolding p by (auto simp: kept_branch_def)
  with that [OF p c] c(3) show thesis by simp
qed

text \<open>The branches that continue this one, if it is decided here and if the walk goes on.\<close>

lemma kept_decided:
  assumes "on_branch g trigger dest current branch"
    and "current = trigger \<or> current \<in> gc_to ` set branch \<or> (\<forall>c \<in> graph_conns g. gc_to c \<noteq> current)"
  shows "kept_branch g trigger dest a (p @ rev branch) \<longleftrightarrow> p = [] \<and> a = current \<and>
    (current = trigger \<or> current \<in> gc_to ` set branch \<and> current \<noteq> dest)"
proof
  assume k: "kept_branch g trigger dest a (p @ rev branch)"
  have p: "p = []"
  proof (rule ccontr)
    assume "p \<noteq> []"
    from kept_snoc [OF k assms(1) this] assms(2) show False by metis
  qed
  then have "a = current" using kept_branch_parts [OF k assms(1)] by simp
  with p k kept_here [OF assms(1)] show "p = [] \<and> a = current \<and>
    (current = trigger \<or> current \<in> gc_to ` set branch \<and> current \<noteq> dest)" by simp
next
  assume "p = [] \<and> a = current \<and> (current = trigger \<or> current \<in> gc_to ` set branch \<and> current \<noteq> dest)"
  then show "kept_branch g trigger dest a (p @ rev branch)" using kept_here [OF assms(1)] by simp
qed

lemma kept_onward:
  assumes "on_branch g trigger dest current branch" "current \<noteq> trigger" "current \<notin> gc_to ` set branch"
  shows "kept_branch g trigger dest a (p @ rev branch) \<longleftrightarrow>
    (\<exists>q c. p = q @ [c] \<and> c \<in> graph_conns g \<and> gc_type c = Main_type \<and> gc_to c = current \<and>
       kept_branch g trigger dest a (q @ rev (branch @ [c])))"
proof
  assume k: "kept_branch g trigger dest a (p @ rev branch)"
  have "p \<noteq> []"
  proof
    assume "p = []"
    then have "a = current" "kept_branch g trigger dest a (rev branch)" using k kept_branch_parts [OF k assms(1)] by simp_all
    with kept_here [OF assms(1)] assms(2,3) show False by simp
  qed
  from kept_snoc [OF k assms(1) this] k show "\<exists>q c. p = q @ [c] \<and> c \<in> graph_conns g \<and> gc_type c = Main_type \<and>
      gc_to c = current \<and> kept_branch g trigger dest a (q @ rev (branch @ [c]))" by fastforce
qed auto

lemma on_branch_next:
  assumes "on_branch g trigger dest current branch" "current \<noteq> trigger" "current \<notin> gc_to ` set branch"
    and "c \<in> graph_conns g" "gc_type c = Main_type" "gc_to c = current"
  shows "on_branch g trigger dest (gc_from c) (branch @ [c])"
  using assms by (auto simp: on_branch_def)

definition holds :: "graph \<Rightarrow> graph \<Rightarrow> gconn set \<Rightarrow> inode set \<Rightarrow> bool" where
  "holds sg sg' C N \<longleftrightarrow> graph_conns sg' = graph_conns sg \<union> C \<and> graph_nodes sg' = graph_nodes sg \<union> N"

lemma findSubgraphRecursive_exact:
  assumes g: "g_wf g"
  shows "findSubgraphRecursive g fuel dest current trigger branch sg = Inr sg' \<Longrightarrow> current \<in> graph_nodes g \<Longrightarrow>
    subgraph_of sg g \<Longrightarrow> on_branch g trigger dest current branch \<Longrightarrow>
    subgraph_of sg' g \<and> holds sg sg' (kept_conns g trigger dest branch) (kept_nodes g trigger dest branch)"
proof (induction fuel arbitrary: current branch sg sg')
  case (Suc fuel)
  note run = Suc.prems(1) and cur = Suc.prems(2) and sg = Suc.prems(3) and br = Suc.prems(4)
  have has: "has_this_node g current" using cur has_this_node_iff [OF g] by simp
  let ?ps = "filter (\<lambda>c. gc_to c = current) (obj_values (g_conns g))"
  have "main_path g current (rev branch) dest" using br by (simp add: on_branch_def)
  from main_path_conns [OF this] have branch: "set branch \<subseteq> graph_conns g" by simp
  have parent: "gc_to c \<noteq> current" if "?ps = []" "c \<in> graph_conns g" for c
  proof
    assume "gc_to c = current"
    with that(2) have "c \<in> set ?ps" by simp
    then show False unfolding that(1) by simp
  qed
  have front: "branch = [] \<or> current \<in> ends (set branch)"
  proof (cases "branch = []")
    case False
    then obtain b c where "branch = b @ [c]" by (cases branch rule: rev_cases) auto
    then show ?thesis using \<open>main_path g current (rev branch) dest\<close> by (auto simp: ends_def)
  qed simp
  show ?case
  proof (cases "current = trigger \<or> current \<in> gc_to ` set branch \<or> ?ps = []")
    case decided: True
    then have "current = trigger \<or> current \<in> gc_to ` set branch \<or> (\<forall>c \<in> graph_conns g. gc_to c \<noteq> current)" using parent by blast
    note k = kept_decided [OF br this]
    have sets: "kept_conns g trigger dest branch =
        (if current = trigger \<or> current \<in> gc_to ` set branch \<and> current \<noteq> dest then set branch else {})"
      "kept_nodes g trigger dest branch = (if current = trigger \<or> current \<in> gc_to ` set branch \<and> current \<noteq> dest
        then insert current (ends (set branch)) else {})"
      by (auto simp: kept_conns_def kept_nodes_def k)
    have nochild: "?ps = [] \<Longrightarrow> current \<notin> gc_to ` set branch" using parent branch by blast
    show ?thesis
    proof (cases "current = trigger")
      case trig: True
      note a = subgraph_addNode [OF g sg cur]
      from keep_branch_ok [OF g _ branch, of "addNode trigger sg"] a trig obtain s where
        "keep_branch branch (addNode trigger sg) = Inr s" "subgraph_of s g"
        "graph_nodes s = graph_nodes (addNode trigger sg) \<union> gc_from ` set branch \<union> gc_to ` set branch"
        "graph_conns s = graph_conns (addNode trigger sg) \<union> set branch" by blast
      then show ?thesis using run trig a sets by (auto simp: holds_def ends_def)
    next
      case notrig: False
      show ?thesis
      proof (cases "?ps = [] \<or> current = dest")
        case True
        then have "sg' = sg" using run notrig has decided by (auto simp: graph_defs split: if_splits)
        then show ?thesis using sg sets notrig True nochild by (auto simp: holds_def)
      next
        case False
        then have "keep_branch branch sg = Inr sg'" "current \<in> gc_to ` set branch" "current \<noteq> dest"
          using run notrig has decided by (auto simp: graph_defs split: if_splits)
        with keep_branch_ok [OF g sg branch] front sets show ?thesis by (auto simp: holds_def ends_def)
      qed
    qed
  next
    case False
    then have away: "current \<noteq> trigger" "current \<notin> gc_to ` set branch" by simp_all
    let ?f = "\<lambda>p acc. if gc_type p \<noteq> Main_type then Inr acc
            else findSubgraphRecursive g fuel dest (gc_from p) trigger (branch @ [p]) acc"
    let ?main = "\<lambda>ps. {c \<in> set ps. gc_type c = Main_type}"
    have "\<not> (current = dest \<and> (\<exists>c \<in> set branch. gc_to c = dest))" "\<not> (\<exists>c \<in> set branch. gc_to c = current)"
      using away(2) by blast+
    then have fold: "foldE ?f ?ps sg = Inr sg'" using run False has by (auto simp: graph_defs split: if_splits)
    have "subgraph_of s' g \<and> holds s s' (\<Union>c \<in> ?main ps. kept_conns g trigger dest (branch @ [c]))
        (\<Union>c \<in> ?main ps. kept_nodes g trigger dest (branch @ [c]))"
      if "foldE ?f ps s = Inr s'" "set ps \<subseteq> set ?ps" "subgraph_of s g" for ps s s'
      using that
    proof (induction ps arbitrary: s)
      case (Cons c ps)
      then obtain s1 where s1: "?f c s = Inr s1" "foldE ?f ps s1 = Inr s'" by (auto simp: bindE_Inr_iff)
      have c: "c \<in> graph_conns g" "gc_to c = current" using Cons.prems(2) by auto
      have one: "subgraph_of s1 g \<and> holds s s1 (\<Union>d \<in> ?main [c]. kept_conns g trigger dest (branch @ [d]))
          (\<Union>d \<in> ?main [c]. kept_nodes g trigger dest (branch @ [d]))"
      proof (cases "gc_type c = Main_type")
        case True
        have from_c: "gc_from c \<in> graph_nodes g" using g_wf_endpoints [OF g c(1)] has_this_node_iff [OF g] by simp
        have "{d. d = c \<and> gc_type d = Main_type} = {c}" using True by auto
        with Suc.IH [OF _ from_c Cons.prems(3) on_branch_next [OF br away c(1) True c(2)]] s1(1) True show ?thesis by simp
      next
        case no: False
        then show ?thesis using s1(1) Cons.prems(3) by (auto simp: holds_def)
      qed
      have "subgraph_of s' g \<and> holds s1 s' (\<Union>c \<in> ?main ps. kept_conns g trigger dest (branch @ [c]))
        (\<Union>c \<in> ?main ps. kept_nodes g trigger dest (branch @ [c]))"
        by (rule Cons.IH [OF s1(2)]) (use Cons.prems(2) one in auto)
      moreover have "?main (c # ps) = ?main [c] \<union> ?main ps" by auto
      ultimately show ?case using one by (simp only: UN_Un) (auto simp: holds_def)
    qed (simp add: holds_def)
    from this [OF fold subset_refl sg] have h: "subgraph_of sg' g"
      "holds sg sg' (\<Union>c \<in> ?main ?ps. kept_conns g trigger dest (branch @ [c]))
        (\<Union>c \<in> ?main ?ps. kept_nodes g trigger dest (branch @ [c]))" by blast+
    have main: "c \<in> ?main ?ps \<longleftrightarrow> c \<in> graph_conns g \<and> gc_type c = Main_type \<and> gc_to c = current" for c
      by auto
    have onward: "(\<exists>a p. kept_branch g trigger dest a (p @ rev branch) \<and> Q a (p @ rev branch)) \<longleftrightarrow>
        (\<exists>c \<in> ?main ?ps. \<exists>a p. kept_branch g trigger dest a (p @ rev (branch @ [c])) \<and> Q a (p @ rev (branch @ [c])))" for Q
    proof
      assume "\<exists>a p. kept_branch g trigger dest a (p @ rev branch) \<and> Q a (p @ rev branch)"
      then obtain a p where k: "kept_branch g trigger dest a (p @ rev branch)" "Q a (p @ rev branch)" by blast
      from k(1) [unfolded kept_onward [OF br away]] obtain q c where c: "p = q @ [c]" "c \<in> ?main ?ps"
        "kept_branch g trigger dest a (q @ rev (branch @ [c]))" using main by blast
      have "Q a (q @ rev (branch @ [c]))" using k(2) c(1) by simp
      with c(2,3) show "\<exists>c \<in> ?main ?ps. \<exists>a p. kept_branch g trigger dest a (p @ rev (branch @ [c])) \<and>
          Q a (p @ rev (branch @ [c]))" by blast
    next
      assume "\<exists>c \<in> ?main ?ps. \<exists>a p. kept_branch g trigger dest a (p @ rev (branch @ [c])) \<and> Q a (p @ rev (branch @ [c]))"
      then obtain c a p where "kept_branch g trigger dest a (p @ rev (branch @ [c]))" "Q a (p @ rev (branch @ [c]))" by blast
      then show "\<exists>a p. kept_branch g trigger dest a (p @ rev branch) \<and> Q a (p @ rev branch)"
        by (intro exI [of _ a] exI [of _ "p @ [c]"]) simp
    qed
    have "kept_conns g trigger dest branch = (\<Union>c \<in> ?main ?ps. kept_conns g trigger dest (branch @ [c]))"
      unfolding kept_conns_def onward [of "\<lambda>a p. _ \<in> set p"] by auto
    moreover have "kept_nodes g trigger dest branch = (\<Union>c \<in> ?main ?ps. kept_nodes g trigger dest (branch @ [c]))"
      unfolding kept_nodes_def onward [of "\<lambda>a p. _ \<in> insert a (ends (set p))"] by auto
    ultimately show ?thesis using h by simp
  qed
qed simp

text \<open>The other connections that are added for a node: all those upstream of it.\<close>

definition sub_conns :: "graph \<Rightarrow> inode \<Rightarrow> gconn set" where
  "sub_conns g n = {c \<in> graph_conns g. gc_type c \<noteq> Main_type \<and> (gc_to c, n) \<in> (child_edges g)\<^sup>*}"

lemma holds_trans:
  "holds s t C (N \<union> ends C) \<Longrightarrow> holds t u D (ends D) \<Longrightarrow> holds s u (C \<union> D) (N \<union> ends (C \<union> D))"
  by (auto simp: holds_def ends_def)

lemma add_conns_exact:
  assumes "g_wf g"
  shows "foldE (\<lambda>c acc. if gc_type c = Main_type then Inr acc else addGConn c (addNodes [gc_from c, gc_to c] acc)) cs s = Inr t \<Longrightarrow>
     set cs \<subseteq> graph_conns g \<Longrightarrow> subgraph_of s g \<Longrightarrow>
     subgraph_of t g \<and> holds s t {c \<in> set cs. gc_type c \<noteq> Main_type} (ends {c \<in> set cs. gc_type c \<noteq> Main_type})"
proof (induction cs arbitrary: s)
  case (Cons c cs)
  show ?case
  proof (cases "gc_type c = Main_type")
    case True
    then have "{d \<in> set (c # cs). gc_type d \<noteq> Main_type} = {d \<in> set cs. gc_type d \<noteq> Main_type}" by auto
    with Cons True show ?thesis by simp
  next
    case False
    from subgraph_addConn [OF assms Cons.prems(3), of c] Cons.prems(2) obtain s1 where s1:
      "addGConn c (addNodes [gc_from c, gc_to c] s) = Inr s1" "subgraph_of s1 g"
      "graph_nodes s1 = graph_nodes s \<union> {gc_from c, gc_to c}" "graph_conns s1 = insert c (graph_conns s)" by auto
    then have h: "holds s s1 {c} ({} \<union> ends {c})" by (auto simp: holds_def ends_def)
    have rest: "subgraph_of t g \<and> holds s1 t {d \<in> set cs. gc_type d \<noteq> Main_type} (ends {d \<in> set cs. gc_type d \<noteq> Main_type})"
      by (rule Cons.IH) (use Cons.prems s1(1,2) False in simp_all)
    have "{d \<in> set (c # cs). gc_type d \<noteq> Main_type} = {c} \<union> {d \<in> set cs. gc_type d \<noteq> Main_type}" using False by auto
    with rest holds_trans [OF h conjunct2 [OF rest]] show ?thesis by simp
  qed
qed (simp add: holds_def ends_def)

lemma add_all_sub_nodes_exact:
  assumes "g_wf g"
  shows "foldE (add_sub_nodes g) ns s = Inr t \<Longrightarrow> set ns \<subseteq> graph_nodes g \<Longrightarrow> subgraph_of s g \<Longrightarrow>
     subgraph_of t g \<and> holds s t (\<Union>n \<in> set ns. sub_conns g n) (ends (\<Union>n \<in> set ns. sub_conns g n))"
proof (induction ns arbitrary: s)
  case (Cons n ns)
  obtain s1 where s1: "add_sub_nodes g n s = Inr s1" "foldE (add_sub_nodes g) ns s1 = Inr t"
    using Cons.prems(1) by (auto simp: bindE_Inr_iff)
  have has: "has_this_node g n" using Cons.prems(2) has_this_node_iff [OF assms] by simp
  from getParentConnections_spec [OF assms has] obtain cs where cs: "getParentConnections g n = Inr cs"
    "set cs = {c \<in> graph_conns g. (gc_to c, n) \<in> (child_edges g)\<^sup>*}" by blast
  have sub: "{c \<in> set cs. gc_type c \<noteq> Main_type} = sub_conns g n" using cs(2) by (auto simp: sub_conns_def)
  have one: "subgraph_of s1 g \<and> holds s s1 (sub_conns g n) ({} \<union> ends (sub_conns g n))"
    using add_conns_exact [OF assms _ _ Cons.prems(3), of cs s1] s1(1) cs sub by (simp add: add_sub_nodes_def)
  have "subgraph_of t g \<and> holds s1 t (\<Union>n \<in> set ns. sub_conns g n) (ends (\<Union>n \<in> set ns. sub_conns g n))"
    by (rule Cons.IH [OF s1(2)]) (use Cons.prems(2) one in simp_all)
  then show ?case using holds_trans [OF conjunct2 [OF one]] by simp
qed (simp add: holds_def ends_def)

lemma findSubgraph_exact:
  assumes g: "g_wf g" and dest: "has_this_node g dest" and sg: "findSubgraph g dest trigger = Inr sg"
  defines "N \<equiv> kept_nodes g trigger dest []"
  shows "graph_conns sg = kept_conns g trigger dest [] \<union> (\<Union>n \<in> N. sub_conns g n)"
    and "graph_nodes sg = N \<union> ends (\<Union>n \<in> N. sub_conns g n)"
proof -
  obtain s where s: "findSubgraphRecursive g (Suc (length (g_nodes g))) dest dest trigger [] empty_graph = Inr s"
    "foldE (add_sub_nodes g) (obj_values (g_nodes s)) s = Inr sg"
    using sg by (auto simp: findSubgraph_def bindE_Inr_iff)
  have d: "dest \<in> graph_nodes g" using dest has_this_node_iff [OF g] by simp
  have "on_branch g trigger dest dest []" by (simp add: on_branch_def)
  from findSubgraphRecursive_exact [OF g s(1) d subgraph_of_empty this]
  have kept: "subgraph_of s g" "graph_conns s = kept_conns g trigger dest []" "graph_nodes s = N"
    by (simp_all add: holds_def N_def)
  have ns: "set (obj_values (g_nodes s)) = N" using kept(3) by simp
  have "N \<subseteq> graph_nodes g" using kept(1,3) by (simp add: subgraph_of_def)
  with add_all_sub_nodes_exact [OF g s(2) _ kept(1)] have "holds s sg (\<Union>n \<in> N. sub_conns g n) (ends (\<Union>n \<in> N. sub_conns g n))"
    unfolding ns by blast
  with kept show "graph_conns sg = kept_conns g trigger dest [] \<union> (\<Union>n \<in> N. sub_conns g n)"
    "graph_nodes sg = N \<union> ends (\<Union>n \<in> N. sub_conns g n)" by (auto simp: holds_def)
qed

section \<open>Keys\<close>

text \<open>When no node name contains a dash, a key determines its connection.\<close>

lemma split_first:
  "xs @ d # ys = xs' @ d # ys' \<Longrightarrow> d \<notin> set xs \<Longrightarrow> d \<notin> set xs' \<Longrightarrow> xs = xs' \<and> ys = ys'"
proof (induction xs arbitrary: xs')
  case Nil
  then show ?case by (cases xs') auto
next
  case (Cons x xs)
  then show ?case by (cases xs') auto
qed

lemma split_last:
  assumes "xs @ d # ys = xs' @ d # ys'" "d \<notin> set ys" "d \<notin> set ys'"
  shows "xs = xs' \<and> ys = ys'"
proof -
  have "rev ys @ d # rev xs = rev ys' @ d # rev xs'"
    using arg_cong [OF assms(1), of rev] by simp
  from split_first [OF this] assms(2,3) show ?thesis by simp
qed

lemma dash_not_digit: "CHR ''-'' \<notin> set (string_of_nat n)"
proof (induction n rule: string_of_nat.induct)
  case (1 n)
  have digit: "CHR ''-'' \<noteq> char_of (48 + d)" if "d < 10" for d :: nat
  proof
    assume "CHR ''-'' = char_of (48 + d)"
    then have "(of_char CHR ''-'' :: nat) = of_char (char_of (48 + d) :: char)" by (rule arg_cong)
    with that show False by simp
  qed
  show ?case
    using 1 digit by (cases "n < 10") (simp_all add: string_of_nat_small string_of_nat_large)
qed

lemma makeKey_inj:
  assumes "makeKey c = makeKey d"
    and "CHR ''-'' \<notin> set (node_name (gc_from c))" "CHR ''-'' \<notin> set (node_name (gc_from d))"
      "CHR ''-'' \<notin> set (node_name (gc_to c))" "CHR ''-'' \<notin> set (node_name (gc_to d))"
  shows "node_name (gc_from c) = node_name (gc_from d) \<and> gc_type c = gc_type d \<and>
    gc_outputIndex c = gc_outputIndex d \<and> gc_inputIndex c = gc_inputIndex d \<and>
    node_name (gc_to c) = node_name (gc_to d)"
proof -
  let ?rest = "\<lambda>c. gc_type c @ CHR ''-'' # string_of_nat (gc_outputIndex c) @ CHR ''-'' #
      string_of_nat (gc_inputIndex c) @ CHR ''-'' # node_name (gc_to c)"
  have "node_name (gc_from c) @ CHR ''-'' # ?rest c = node_name (gc_from d) @ CHR ''-'' # ?rest d"
    using assms(1) by (simp add: makeKey_def)
  from split_first [OF this assms(2,3)] have from_eq: "node_name (gc_from c) = node_name (gc_from d)"
    and rest: "?rest c = ?rest d" by auto
  have "(gc_type c @ CHR ''-'' # string_of_nat (gc_outputIndex c) @ CHR ''-'' # string_of_nat (gc_inputIndex c)) @
      CHR ''-'' # node_name (gc_to c) =
    (gc_type d @ CHR ''-'' # string_of_nat (gc_outputIndex d) @ CHR ''-'' # string_of_nat (gc_inputIndex d)) @
      CHR ''-'' # node_name (gc_to d)"
    using rest by simp
  from split_last [OF this assms(4,5)] have to_eq: "node_name (gc_to c) = node_name (gc_to d)"
    and "(gc_type c @ CHR ''-'' # string_of_nat (gc_outputIndex c)) @ CHR ''-'' # string_of_nat (gc_inputIndex c) =
      (gc_type d @ CHR ''-'' # string_of_nat (gc_outputIndex d)) @ CHR ''-'' # string_of_nat (gc_inputIndex d)"
    by auto
  from split_last [OF this(2) dash_not_digit dash_not_digit]
  have idx: "string_of_nat (gc_inputIndex c) = string_of_nat (gc_inputIndex d)"
    and "gc_type c @ CHR ''-'' # string_of_nat (gc_outputIndex c) =
      gc_type d @ CHR ''-'' # string_of_nat (gc_outputIndex d)" by auto
  from split_last [OF this(2) dash_not_digit dash_not_digit] from_eq to_eq idx
  show ?thesis by (auto dest: string_of_nat_inj)
qed

lemma keys_distinguish_names:
  assumes wf: "g_wf g" and names: "\<forall>n \<in> graph_nodes g. CHR ''-'' \<notin> set (node_name n)"
  shows "keys_distinguish g"
  unfolding keys_distinguish_def
proof (rule inj_onI)
  fix c d
  assume c: "c \<in> {c. gc_from c \<in> graph_nodes g \<and> gc_to c \<in> graph_nodes g}"
    and d: "d \<in> {c. gc_from c \<in> graph_nodes g \<and> gc_to c \<in> graph_nodes g}" and key: "makeKey c = makeKey d"
  have eq: "node_name (gc_from c) = node_name (gc_from d) \<and> gc_type c = gc_type d \<and>
    gc_outputIndex c = gc_outputIndex d \<and> gc_inputIndex c = gc_inputIndex d \<and>
    node_name (gc_to c) = node_name (gc_to d)"
    by (rule makeKey_inj [OF key]) (use c d names in auto)
  moreover have "gc_from c = gc_from d" "gc_to c = gc_to d"
    using eq c d inj_onD [OF nodes_by_name [OF wf]] by simp_all
  ultimately show "c = d" by (cases c; cases d) simp
qed

section \<open>Properties of partial executions\<close>

lemma two_cycles_nodes: "graph_nodes two_cycles = {nodeR, nodeA, nodeB}"
  unfolding graph_nodes_def two_cycles_def by auto

text \<open>If no cycle of main connections passes only through disabled nodes (and keys tell
  connections apart), filtering returns a well-formed graph with exactly the enabled nodes,
  in order, in which one is connected to another exactly when a main path led from the one
  to the other through disabled nodes only.\<close>

theorem filterDisabledNodes_paths:
  assumes "g_wf g" and "keys_distinguish g"
    and "\<forall>n \<in> disabled_nodes g. \<not> through (main_conns g) (disabled_nodes g) n n"
  shows "\<exists>g'. filterDisabledNodes g = Inr g' \<and> g_wf g' \<and>
    obj_values (g_nodes g') = filter (\<lambda>n. \<not> is_disabled n) (obj_values (g_nodes g)) \<and>
    main_conns g' = {(a, b). \<not> is_disabled a \<and> \<not> is_disabled b \<and> through (main_conns g) (disabled_nodes g) a b}"
  using assms by (rule filterDisabledNodes_ok)

definition disabled_between :: graph where
  "disabled_between = \<lparr>g_nodes = [(''r'', nodeR), (''a'', nodeA\<lparr>node_disabled := Some True\<rparr>), (''b'', nodeB)],
     g_conns = [(''r-main-0-0-a'', conn_between nodeR (nodeA\<lparr>node_disabled := Some True\<rparr>)),
                (''a-main-0-0-b'', conn_between (nodeA\<lparr>node_disabled := Some True\<rparr>) nodeB)]\<rparr>"

lemma disabled_between_wf: "g_wf disabled_between"
  by (simp add: g_wf_def disabled_between_def has_this_node_def obj_wf_def)

lemma disabled_between_sets:
  "graph_nodes disabled_between = {nodeR, nodeA\<lparr>node_disabled := Some True\<rparr>, nodeB}"
  "graph_conns disabled_between = {conn_between nodeR (nodeA\<lparr>node_disabled := Some True\<rparr>),
     conn_between (nodeA\<lparr>node_disabled := Some True\<rparr>) nodeB}"
  unfolding graph_nodes_def graph_conns_def disabled_between_def by simp_all

lemma filterDisabledNodes_paths_witness:
  "\<exists>g'. filterDisabledNodes disabled_between = Inr g' \<and> g_wf g' \<and>
    obj_values (g_nodes g') = filter (\<lambda>n. \<not> is_disabled n) (obj_values (g_nodes disabled_between)) \<and>
    main_conns g' = {(a, b). \<not> is_disabled a \<and> \<not> is_disabled b \<and>
      through (main_conns disabled_between) (disabled_nodes disabled_between) a b}"
proof (rule filterDisabledNodes_paths [OF disabled_between_wf])
  show "keys_distinguish disabled_between"
    by (rule keys_distinguish_names [OF disabled_between_wf]) (simp add: disabled_between_sets)
  let ?a = "nodeA\<lparr>node_disabled := Some True\<rparr>"
  have dis: "disabled_nodes disabled_between = {?a}"
    unfolding disabled_nodes_def disabled_between_sets by (auto simp: is_disabled_def)
  have ne: "nodeR \<noteq> ?a" "nodeB \<noteq> ?a" by (auto dest: arg_cong [of _ _ node_name])
  have "b = nodeB" if "through (main_conns disabled_between) {?a} ?a b" for b
    using that ne
    by (induction a\<equiv>"?a" b rule: through.induct) (auto simp: main_conns_def disabled_between_sets)
  with ne show "\<forall>n \<in> disabled_nodes disabled_between.
      \<not> through (main_conns disabled_between) (disabled_nodes disabled_between) n n"
    unfolding dis by force
qed

text \<open>The nodes of the kept branches.\<close>

definition between :: "graph \<Rightarrow> inode \<Rightarrow> inode \<Rightarrow> inode set" where
  "between g trigger dest = {n. \<exists>a p. kept_branch g trigger dest a p \<and> n \<in> insert a (ends (set p))}"

text \<open>C31. \<^verbatim>\<open>findSubgraph\<close> terminates without a failed assertion, and its result is a
  well-formed sub-graph of the input, all of whose nodes lead to the destination. The main connections
  of it are exactly those of the kept branches: the main paths to the destination that repeat no node and
  begin at the trigger, without passing it again, or begin by closing a cycle. The connections of other
  types are exactly those upstream of a node of such a branch; and the nodes are those of the branches
  and the ends of these connections. So it holds every main path from the trigger to the destination
  that repeats no node.\<close>

theorem findSubgraph_spec:
  assumes "g_wf g" and "has_this_node g dest"
  shows "\<exists>sg. findSubgraph g dest trigger = Inr sg \<and> subgraph_of sg g \<and> leads g dest sg \<and>
    graph_conns sg = {c. \<exists>a p. kept_branch g trigger dest a p \<and> c \<in> set p} \<union>
      (\<Union>n \<in> between g trigger dest. sub_conns g n) \<and>
    graph_nodes sg = between g trigger dest \<union> ends (\<Union>n \<in> between g trigger dest. sub_conns g n) \<and>
    (\<forall>p. main_path g trigger p dest \<and> trigger \<notin> gc_to ` set p \<and> distinct (map gc_to p) \<longrightarrow>
       set p \<subseteq> graph_conns sg \<and> trigger \<in> graph_nodes sg) \<and>
    (\<forall>c \<in> graph_conns g. gc_to c \<in> graph_nodes sg \<and> gc_type c \<noteq> Main_type \<longrightarrow> c \<in> graph_conns sg)"
proof -
  from findSubgraph_ok [OF assms(1,2), of trigger] obtain sg where sg: "findSubgraph g dest trigger = Inr sg"
    "subgraph_of sg g" "leads g dest sg"
    "\<forall>p. main_path g trigger p dest \<and> trigger \<notin> gc_to ` set p \<and> distinct (map gc_to p) \<longrightarrow>
       set p \<subseteq> graph_conns sg \<and> trigger \<in> graph_nodes sg"
    "\<forall>c \<in> graph_conns g. gc_to c \<in> graph_nodes sg \<and> gc_type c \<noteq> Main_type \<longrightarrow> c \<in> graph_conns sg" by blast
  have "kept_conns g trigger dest [] = {c. \<exists>a p. kept_branch g trigger dest a p \<and> c \<in> set p}"
    "kept_nodes g trigger dest [] = between g trigger dest" by (simp_all add: kept_conns_def kept_nodes_def between_def)
  with findSubgraph_exact [OF assms(1,2) sg(1)] sg show ?thesis by (intro exI [of _ sg]) simp
qed

lemma findSubgraph_spec_witness:
  "\<exists>sg. findSubgraph two_cycles nodeB nodeR = Inr sg \<and> subgraph_of sg two_cycles \<and> leads two_cycles nodeB sg \<and>
    conn_between nodeR nodeA \<in> graph_conns sg \<and> conn_between nodeA nodeB \<in> graph_conns sg"
proof -
  let ?p = "[conn_between nodeR nodeA, conn_between nodeA nodeB]"
  have "main_path two_cycles nodeR ?p nodeB" "nodeR \<notin> gc_to ` set ?p" "distinct (map gc_to ?p)"
    unfolding main_path.simps graph_conns_def by (simp_all add: two_cycles_def conn_between_def)
  then have p: "main_path two_cycles nodeR ?p nodeB \<and> nodeR \<notin> gc_to ` set ?p \<and> distinct (map gc_to ?p)" by blast
  from findSubgraph_spec [of two_cycles nodeB nodeR] obtain sg where sg: "findSubgraph two_cycles nodeB nodeR = Inr sg"
    "subgraph_of sg two_cycles" "leads two_cycles nodeB sg"
    "\<forall>p. main_path two_cycles nodeR p nodeB \<and> nodeR \<notin> gc_to ` set p \<and> distinct (map gc_to p) \<longrightarrow>
       set p \<subseteq> graph_conns sg \<and> nodeR \<in> graph_nodes sg" by auto
  from sg(4) [rule_format, OF p] sg(1-3) show ?thesis by auto
qed

text \<open>A cycle that the trigger does not lead to is kept all the same, and so is a node whose only merit is a
  connection of another type into a parent that lies outside.\<close>

abbreviation nodeD :: inode where "nodeD \<equiv> plain_node ''d'' ''t''"
abbreviation nodeP :: inode where "nodeP \<equiv> plain_node ''p'' ''t''"
abbreviation nodeM :: inode where "nodeM \<equiv> plain_node ''m'' ''t''"

definition apart :: graph where
  "apart = \<lparr>g_nodes = map (\<lambda>n. (node_name n, n)) [nodeR, nodeA, nodeB, nodeD, nodeP, nodeM],
     g_conns = map (\<lambda>c. (makeKey c, c))
       [conn_between nodeR nodeD, conn_between nodeA nodeB, conn_between nodeB nodeA,
        conn_between nodeB nodeD, conn_between nodeP nodeD,
        (conn_between nodeM nodeP)\<lparr>gc_type := AiTool_type\<rparr>]\<rparr>"

lemma nodes_apart_kept:
  "(case findSubgraph apart nodeD nodeR of Inl e \<Rightarrow> [] | Inr sg \<Rightarrow> map fst (g_nodes sg)) =
     [''r'', ''d'', ''b'', ''a'', ''m'', ''p'']"
  by code_simp

text \<open>C18. The start nodes are exactly the nodes at which the execution has to start (dirty, the
  destination, or a loop node whose last run did not finish) reachable from the trigger
  over connections with data, without passing another such node.\<close>

theorem findStartNodes_spec:
  assumes "g_wf g" and "runs_typed g runData" and "has_this_node g trigger"
  shows "\<exists>S. findStartNodes g trigger destination pinData runData = Inr S \<and> distinct S \<and>
    set S = {n. (trigger, n) \<in> (start_edges g destination runData pinData)\<^sup>* \<and> stops_at g destination runData pinData n}"
  using assms by (rule findStartNodes_set)

definition one_run :: task_data where
  "one_run = \<lparr>td_startTime = 0, td_executionIndex = Some 0, td_source = [], td_executionTime = 0,
     td_executionStatus = Some Success, td_data = Some [(Main_type, [Val [empty_item]])],
     td_inputOverride = None, td_error = None, td_metadata = None\<rparr>"

lemma two_cycles_typed: "runs_typed two_cycles [(''r'', [one_run])]"
  unfolding runs_typed_def graph_conns_def two_cycles_def by (auto simp: one_run_def)

lemma findStartNodes_spec_witness:
  "\<exists>S. findStartNodes two_cycles nodeR nodeB [] [(''r'', [one_run])] = Inr S \<and> distinct S \<and>
    set S = {n. (nodeR, n) \<in> (start_edges two_cycles nodeB [(''r'', [one_run])] [])\<^sup>* \<and>
      stops_at two_cycles nodeB [(''r'', [one_run])] [] n}"
  by (rule findStartNodes_spec) (simp_all add: two_cycles_typed)

text \<open>If the trigger reaches every start node, \<^verbatim>\<open>handleCycles\<close> succeeds: each node
  of its result is reachable from the trigger and on a cycle with (or equal to) a start node,
  and each start node is on a cycle with (or equal to) a node of the result.\<close>

theorem handleCycles_spec:
  assumes "g_wf g" and "has_this_node g trigger" and "distinct starts"
    and "\<forall>s \<in> set starts. (trigger, s) \<in> (child_edges g)\<^sup>*"
  shows "\<exists>S. handleCycles g starts trigger = Inr S \<and> starts_ok g trigger starts S"
  using assms by (rule handleCycles_ok)

lemma handleCycles_spec_witness:
  "\<exists>S. handleCycles two_cycles [nodeA] nodeR = Inr S \<and> starts_ok two_cycles nodeR [nodeA] S"
proof (rule handleCycles_spec)
  have "(nodeR, nodeA) \<in> child_edges two_cycles"
    unfolding child_edges_def graph_conns_def two_cycles_def by force
  then show "\<forall>s \<in> set [nodeA]. (nodeR, s) \<in> (child_edges two_cycles)\<^sup>*" by auto
qed simp_all

text \<open>Cleaning removes exactly the run data of the nodes to clean and their descendants, of
  the nodes outside the graph, and of the sources of other connections than main at those
  nodes or anywhere upstream of them.\<close>

theorem cleanRunData_spec:
  assumes "g_wf g" and "\<forall>n \<in> set nodesToClean. has_this_node g n"
  shows "\<exists>rd'. cleanRunData rd g nodesToClean = Inr rd' \<and> (\<forall>name. obj_get rd' name =
    (if hasNode name g \<and> \<not> (\<exists>n \<in> set nodesToClean. \<exists>m. (n, m) \<in> (child_edges g)\<^sup>* \<and> name \<in> cleaned_with g m)
     then obj_get rd name else None))"
  using assms by (rule cleanRunData_ok)

lemma cleanRunData_spec_witness:
  "\<exists>rd'. cleanRunData [(''r'', [one_run])] two_cycles [nodeB] = Inr rd' \<and> (\<forall>name. obj_get rd' name =
    (if hasNode name two_cycles \<and> \<not> (\<exists>n \<in> set [nodeB]. \<exists>m. (n, m) \<in> (child_edges two_cycles)\<^sup>* \<and>
       name \<in> cleaned_with two_cycles m)
     then obj_get [(''r'', [one_run])] name else None))"
  by (rule cleanRunData_spec) simp_all

text \<open>The last case is wider than the comment says: cleaning a node removes the run data of
  a sub-node of a node before it, which is not cleaned.\<close>

lemma cleanRunData_upstream_subnode:
  "cleanRunData [(''a'', [one_run]), (''r'', [one_run])]
     \<lparr>g_nodes = [(''r'', nodeR), (''a'', nodeA), (''b'', nodeB)],
      g_conns = [(''a-ai_tool-0-0-r'', (conn_between nodeA nodeR)\<lparr>gc_type := AiTool_type\<rparr>),
                 (''r-main-0-0-b'', conn_between nodeR nodeB)]\<rparr> [nodeB] = Inr [(''r'', [one_run])]"
  by (simp add: cleanRunData_def getChildren_def getDirectChildConnections_def clean_node_def
      getParentConnections_def getDirectParentConnections_def has_this_node_def hasNode_def obj_has_def
      obj_delete_def conn_between_def)

lemma max_plus_one:
  fixes xs :: "nat list"
  assumes "n = (if xs = [] then 0 else Max (set xs) + 1)"
  shows "(\<forall>i. i \<in> set xs \<longrightarrow> i < n) \<and> (n = 0 \<or> n - 1 \<in> set xs)"
proof (cases "xs = []")
  case False
  then have "Max (set xs) \<in> set xs" by (intro Max_in) auto
  with False assms show ?thesis by (auto simp: less_Suc_eq_le)
qed (use assms in simp)

text \<open>The next execution index is above every index in the run data, and 0 when there is
  none.\<close>

theorem getNextExecutionIndex_fresh:
  "(\<forall>runs \<in> set (obj_values runData). \<forall>td \<in> set runs. \<forall>i. td_executionIndex td = Some i \<longrightarrow>
      i < getNextExecutionIndex runData) \<and>
   (getNextExecutionIndex runData = 0 \<or> (\<exists>runs \<in> set (obj_values runData). \<exists>td \<in> set runs.
      td_executionIndex td = Some (getNextExecutionIndex runData - 1)))"
proof -
  let ?ix = "concat (map (\<lambda>td. case td_executionIndex td of None \<Rightarrow> [] | Some i \<Rightarrow> [i]) (concat (obj_values runData)))"
  have ix: "i \<in> set ?ix \<longleftrightarrow> (\<exists>runs \<in> set (obj_values runData). \<exists>td \<in> set runs. td_executionIndex td = Some i)" for i
  proof -
    have "i \<in> set (case x of None \<Rightarrow> [] | Some i \<Rightarrow> [i]) \<longleftrightarrow> x = Some i" for x :: "nat option"
      by (cases x) auto
    then show ?thesis unfolding set_concat set_map by blast
  qed
  have "getNextExecutionIndex runData = (if ?ix = [] then 0 else Max (set ?ix) + 1)"
    unfolding getNextExecutionIndex_def Let_def ..
  from max_plus_one [OF this] show ?thesis unfolding ix by blast
qed

lemma getNextExecutionIndex_fresh_witness: "0 < getNextExecutionIndex [(''r'', [one_run])]"
  using conjunct1 [OF getNextExecutionIndex_fresh [of "[(''r'', [one_run])]"]] by (simp add: one_run_def)

end
