(* ===== verification/Workflow_Class.thy ===== *)
theory Workflow_Class
  imports Connections
begin

text \<open>
  The class \<^verbatim>\<open>Workflow\<close> (\<^verbatim>\<open>packages/workflow/src/workflow.ts\<close>): its
  nodes by name, its two connection tables, its pinned and static data, and the operations
  that look nodes up, walk the connections, rename a node and choose where to start.

  The node types a workflow is given, and the functions of other modules it calls on
  parameters (\<^verbatim>\<open>applyAccessPatterns\<close>), are arguments.
\<close>

datatype workflow_error = NodeParameterNeeded | UnknownContextType | RestrictedName
  | PropertyOfUndefined | WalkOutOfFuel

record node_type =
  nt_name :: string
  nt_group :: "string list"
  nt_trigger :: bool
  nt_poll :: bool
  nt_webhook :: bool

type_synonym node_types = "string \<Rightarrow> rat \<Rightarrow> node_type option"

text \<open>\<open>nodeTypes.getByNameAndVersion(node.type, node.typeVersion)\<close>\<close>

definition type_of_node :: "node_types \<Rightarrow> inode \<Rightarrow> node_type option" where
  "type_of_node types node = types (node_type node) (node_typeVersion node)"

record workflow =
  wf_nodes :: "(string, inode) obj"
  wf_connectionsBySourceNode :: connections
  wf_connectionsByDestinationNode :: connections
  wf_pinData :: "pin_data option"
  wf_staticData :: "(string, json) obj"
  wf_testStaticData :: "(string, json) obj option"

section \<open>Construction and lookup\<close>

definition setNodes :: "inode list \<Rightarrow> workflow \<Rightarrow> workflow" where
  "setNodes nodes w = w\<lparr>wf_nodes := fold (\<lambda>n. obj_set (node_name n) n) nodes []\<rparr>"

definition setConnections :: "connections \<Rightarrow> workflow \<Rightarrow> workflow" where
  "setConnections conns w = w\<lparr>wf_connectionsBySourceNode := conns,
     wf_connectionsByDestinationNode := mapConnectionsByDestination conns\<rparr>"

definition setPinData :: "pin_data option \<Rightarrow> workflow \<Rightarrow> workflow" where
  "setPinData pinData w = w\<lparr>wf_pinData := pinData\<rparr>"

text \<open>The constructor: a node of a known type gets its parameters from
  \<^verbatim>\<open>NodeHelpers.getNodeParameters\<close>, an argument here, or none.\<close>

definition new_workflow ::
  "node_types \<Rightarrow> (node_type \<Rightarrow> inode \<Rightarrow> (string, json) obj option) \<Rightarrow> inode list \<Rightarrow> connections \<Rightarrow>
     pin_data option \<Rightarrow> (string, json) obj option \<Rightarrow> workflow" where
  "new_workflow types getNodeParameters nodes conns pinData staticData =
     (let withDefaults = map (\<lambda>node. case type_of_node types node of
            None \<Rightarrow> node
          | Some nodeType \<Rightarrow> node\<lparr>node_parameters := (case getNodeParameters nodeType node of
                None \<Rightarrow> [] | Some ps \<Rightarrow> ps)\<rparr>) nodes
      in setPinData pinData (setConnections conns (setNodes withDefaults
           \<lparr>wf_nodes = [], wf_connectionsBySourceNode = [], wf_connectionsByDestinationNode = [],
            wf_pinData = None, wf_staticData = (case staticData of None \<Rightarrow> [] | Some d \<Rightarrow> d),
            wf_testStaticData = None\<rparr>)))"

definition getNode :: "workflow \<Rightarrow> string \<Rightarrow> inode option" where
  "getNode w nodeName = obj_get (wf_nodes w) nodeName"

definition getNodes :: "workflow \<Rightarrow> string list \<Rightarrow> inode list" where
  "getNodes w nodeNames = List.map_filter (getNode w) nodeNames"

definition getPinDataOfNode :: "workflow \<Rightarrow> string \<Rightarrow> item list option" where
  "getPinDataOfNode w nodeName = (case wf_pinData w of None \<Rightarrow> None | Some p \<Rightarrow> obj_get p nodeName)"

definition queryNodes :: "node_types \<Rightarrow> (node_type \<Rightarrow> bool) \<Rightarrow> workflow \<Rightarrow> inode list" where
  "queryNodes types check w =
     fold (\<lambda>(nodeName, node) returnNodes.
         if is_disabled node then returnNodes
         else (case type_of_node types node of
             None \<Rightarrow> returnNodes
           | Some nodeType \<Rightarrow> if check nodeType then returnNodes @ [node] else returnNodes))
       (wf_nodes w) []"

definition getTriggerNodes :: "node_types \<Rightarrow> workflow \<Rightarrow> inode list" where
  "getTriggerNodes types w = queryNodes types nt_trigger w"

definition getPollNodes :: "node_types \<Rightarrow> workflow \<Rightarrow> inode list" where
  "getPollNodes types w = queryNodes types nt_poll w"

text \<open>\<^verbatim>\<open>validateWorkflowHasTriggerLikeNode\<close> of
  \<^verbatim>\<open>workflow-validation.ts\<close>: whether the result is valid.\<close>

fun validateWorkflowHasTriggerLikeNode ::
  "node_types \<Rightarrow> string list option \<Rightarrow> (string, inode) obj \<Rightarrow> bool" where
  "validateWorkflowHasTriggerLikeNode types ignoreNodeTypes [] = False"
| "validateWorkflowHasTriggerLikeNode types ignoreNodeTypes ((nodeName, node) # nodes) =
     (if is_disabled node then validateWorkflowHasTriggerLikeNode types ignoreNodeTypes nodes
      else if (case ignoreNodeTypes of None \<Rightarrow> False | Some ig \<Rightarrow> node_type node \<in> set ig)
        then validateWorkflowHasTriggerLikeNode types ignoreNodeTypes nodes
      else (case type_of_node types node of
          None \<Rightarrow> validateWorkflowHasTriggerLikeNode types ignoreNodeTypes nodes
        | Some nodeType \<Rightarrow> if nt_poll nodeType \<or> nt_trigger nodeType \<or> nt_webhook nodeType then True
            else validateWorkflowHasTriggerLikeNode types ignoreNodeTypes nodes))"

text \<open>The static method that inverts a connection table.\<close>

definition add_destination_entry ::
  "string \<Rightarrow> string \<Rightarrow> nat \<Rightarrow> connection \<Rightarrow> connections \<Rightarrow> connections" where
  "add_destination_entry sourceNode ty inputIndex info returnConnection =
     (let r1 = (if obj_has returnConnection (conn_node info) then returnConnection
                else obj_set (conn_node info) [] returnConnection);
          byType = (case obj_get r1 (conn_node info) of None \<Rightarrow> [] | Some b \<Rightarrow> b);
          b1 = (if obj_has byType (conn_type info) then byType else obj_set (conn_type info) [] byType);
          arr = (case obj_get b1 (conn_type info) of None \<Rightarrow> [] | Some a \<Rightarrow> a);
          a1 = arr @ replicate (Suc (conn_index info) - length arr) (Some []);
          a2 = (case a1 ! conn_index info of
                  None \<Rightarrow> a1
                | Some cs \<Rightarrow> a1[conn_index info := Some (cs @ [\<lparr>conn_node = sourceNode, conn_type = ty, conn_index = inputIndex\<rparr>])])
      in obj_set (conn_node info) (obj_set (conn_type info) a2 b1) r1)"

definition getConnectionsByDestination :: "connections \<Rightarrow> connections" where
  "getConnectionsByDestination conns =
     fold (\<lambda>(sourceNode, byType) r.
       fold (\<lambda>(ty, inputs) r.
         fold (\<lambda>(inputIndex, c) r. fold (add_destination_entry sourceNode ty inputIndex) (cell c) r)
           (List.enumerate 0 inputs) r) byType r) conns []"

section \<open>Static data\<close>

datatype static_context = GlobalContext | NodeContext "inode option" | OtherContext

definition static_key :: "static_context \<Rightarrow> workflow_error + string" where
  "static_key ctx = (case ctx of
       GlobalContext \<Rightarrow> Inr ''global''
     | NodeContext None \<Rightarrow> Inl NodeParameterNeeded
     | NodeContext (Some node) \<Rightarrow> Inr (''node:'' @ node_name node)
     | OtherContext \<Rightarrow> Inl UnknownContextType)"

text \<open>\<^verbatim>\<open>getStaticData\<close>: the data, and the workflow in which it now exists.\<close>

definition getStaticData :: "static_context \<Rightarrow> workflow \<Rightarrow> workflow_error + (json \<times> workflow)" where
  "getStaticData ctx w = bindE (static_key ctx) (\<lambda>key.
     case (case wf_testStaticData w of None \<Rightarrow> None | Some t \<Rightarrow> obj_get t key) of
       Some d \<Rightarrow> Inr (d, w)
     | None \<Rightarrow> (case obj_get (wf_staticData w) key of
           Some d \<Rightarrow> Inr (d, w)
         | None \<Rightarrow> Inr (JObj [], w\<lparr>wf_staticData := obj_set key (JObj []) (wf_staticData w)\<rparr>)))"

section \<open>Renaming a node\<close>

definition restrictedKeys :: "string list" where
  "restrictedKeys = [''hasOwnProperty'', ''isPrototypeOf'', ''propertyIsEnumerable'', ''toLocaleString'',
     ''toString'', ''valueOf'', ''constructor'', ''prototype'', ''__proto__'', ''__defineGetter__'',
     ''__defineSetter__'', ''__lookupGetter__'', ''__lookupSetter__'']"

definition lower_char :: "char \<Rightarrow> char" where
  "lower_char c = (let n = (of_char c :: nat) in if 65 \<le> n \<and> n \<le> 90 then char_of (n + 32) else c)"

definition toLowerCase :: "string \<Rightarrow> string" where
  "toLowerCase s = map lower_char s"

text \<open>\<open>rename\<close> stands for \<^verbatim>\<open>applyAccessPatterns(_, currentName, newName)\<close>.
  \<^verbatim>\<open>typeof null\<close> is \<^verbatim>\<open>'object'\<close>, and it has no keys.\<close>

fun renameNodeInParameterValue :: "(string \<Rightarrow> string) \<Rightarrow> bool \<Rightarrow> json \<Rightarrow> json" where
  "renameNodeInParameterValue rename hasRenamableContent (JStr s) =
     (if (s \<noteq> [] \<and> hd s = CHR ''='') \<or> hasRenamableContent then JStr (rename s) else JStr s)"
| "renameNodeInParameterValue rename hasRenamableContent (JArr xs) =
     JArr (map (renameNodeInParameterValue rename False) xs)"
| "renameNodeInParameterValue rename hasRenamableContent (JObj kvs) =
     JObj (map (\<lambda>(k, v). (k, renameNodeInParameterValue rename hasRenamableContent v)) kvs)"
| "renameNodeInParameterValue rename hasRenamableContent JNull = JObj []"
| "renameNodeInParameterValue rename hasRenamableContent (JBool b) = JBool b"
| "renameNodeInParameterValue rename hasRenamableContent (JNum q) = JNum q"

definition rename_parameter :: "(json \<Rightarrow> json) \<Rightarrow> string \<Rightarrow> (string, json) obj \<Rightarrow> (string, json) obj" where
  "rename_parameter f key ps = (case obj_get ps key of None \<Rightarrow> ps | Some v \<Rightarrow> obj_set key (f v) ps)"

text \<open>\<^verbatim>\<open>renameFormFields\<close> of \<^verbatim>\<open>rename-node-utils.ts\<close>.\<close>

fun rename_form_field :: "(json \<Rightarrow> json) \<Rightarrow> json \<Rightarrow> json" where
  "rename_form_field f (JObj kvs) =
     JObj (if obj_get kvs ''fieldType'' = Some (JStr ''html'') then rename_parameter f ''html'' kvs else kvs)"
| "rename_form_field f v = v"

definition renameFormFields :: "(json \<Rightarrow> json) \<Rightarrow> (string, json) obj \<Rightarrow> (string, json) obj" where
  "renameFormFields f ps =
     (case obj_get ps ''formFields'' of
        Some (JObj ff) \<Rightarrow> (case obj_get ff ''values'' of
            Some (JArr vs) \<Rightarrow>
              obj_set ''formFields'' (JObj (obj_set ''values'' (JArr (map (rename_form_field f) vs)) ff)) ps
          | _ \<Rightarrow> ps)
      | _ \<Rightarrow> ps)"

definition nodes_with_renamable_content :: "string list" where
  "nodes_with_renamable_content = [''n8n-nodes-base.code'', ''n8n-nodes-base.function'',
     ''n8n-nodes-base.functionItem'', ''n8n-nodes-base.aiTransform'']"

definition nodes_with_renamable_toplevel_html :: "string list" where
  "nodes_with_renamable_toplevel_html = [''n8n-nodes-base.mailgun'', ''n8n-nodes-base.html'']"

definition nodes_with_renamable_form_html :: "string list" where
  "nodes_with_renamable_form_html = [''n8n-nodes-base.form'']"

definition params_of :: "json \<Rightarrow> (string, json) obj" where
  "params_of v = (case v of JObj kvs \<Rightarrow> kvs | _ \<Rightarrow> [])"

definition rename_in_node :: "(string \<Rightarrow> string) \<Rightarrow> inode \<Rightarrow> inode" where
  "rename_in_node rename node =
     (let p0 = params_of (renameNodeInParameterValue rename False (JObj (node_parameters node)));
          p1 = (if node_type node \<in> set nodes_with_renamable_content
                then rename_parameter (renameNodeInParameterValue rename True) ''jsCode'' p0 else p0);
          p2 = (if node_type node \<in> set nodes_with_renamable_toplevel_html
                then rename_parameter (renameNodeInParameterValue rename True) ''html'' p1 else p1);
          p3 = (if node_type node \<in> set nodes_with_renamable_form_html
                then renameFormFields (renameNodeInParameterValue rename True) p2 else p2)
      in node\<lparr>node_parameters := p3\<rparr>)"

definition rename_target :: "string \<Rightarrow> string \<Rightarrow> connection \<Rightarrow> connection" where
  "rename_target currentName newName c = (if conn_node c = currentName then c\<lparr>conn_node := newName\<rparr> else c)"

definition rename_targets :: "string \<Rightarrow> string \<Rightarrow> connections \<Rightarrow> connections" where
  "rename_targets currentName newName conns =
     map (\<lambda>(s, byType). (s, map (\<lambda>(ty, arr). (ty, map (map_option (map (rename_target currentName newName))) arr)) byType)) conns"

text \<open>\<^verbatim>\<open>obj[newName] = obj[currentName]; delete obj[currentName]\<close>\<close>

definition move_key :: "string \<Rightarrow> string \<Rightarrow> (string, 'v) obj \<Rightarrow> (string, 'v) obj" where
  "move_key currentName newName m =
     (case obj_get m currentName of
        None \<Rightarrow> m
      | Some v \<Rightarrow> obj_delete currentName (obj_set newName v m))"

definition renameNode ::
  "(string \<Rightarrow> string \<Rightarrow> string \<Rightarrow> string) \<Rightarrow> string \<Rightarrow> string \<Rightarrow> workflow \<Rightarrow> workflow_error + workflow" where
  "renameNode applyAccessPatterns currentName newName w =
     (if toLowerCase newName \<in> set (map toLowerCase restrictedKeys) then Inl RestrictedName
      else
        let rename = (\<lambda>s. applyAccessPatterns s currentName newName);
            nodes1 = (case obj_get (wf_nodes w) currentName of
                None \<Rightarrow> wf_nodes w
              | Some node \<Rightarrow> obj_delete currentName (obj_set newName (node\<lparr>node_name := newName\<rparr>) (wf_nodes w)));
            nodes2 = map (\<lambda>(k, n). (k, rename_in_node rename n)) nodes1;
            bySource1 = move_key currentName newName (wf_connectionsBySourceNode w)
        in Inr (w\<lparr>wf_nodes := nodes2,
                  wf_connectionsBySourceNode := rename_targets currentName newName bySource1\<rparr>))"

end
