(* ===== verification/Execution_Stack.thy ===== *)
theory Execution_Stack
  imports Partial_Execution Workflow_Class
begin

text \<open>
  Rebuilding the execution stack of a partial execution
  (\<^verbatim>\<open>get-source-data-groups.ts\<close>, \<^verbatim>\<open>recreate-node-execution-stack.ts\<close>), choosing its
  trigger (\<^verbatim>\<open>find-trigger-for-partial-execution.ts\<close>) and rewiring a tool
  (\<^verbatim>\<open>rewire-graph.ts\<close>). \<^verbatim>\<open>localeCompare\<close> and \<^verbatim>\<open>JSON.stringify\<close> are arguments.
\<close>

section \<open>Groups of source data\<close>

definition sortByInputIndexThenByName :: "(string \<Rightarrow> string \<Rightarrow> int) \<Rightarrow> gconn \<Rightarrow> gconn \<Rightarrow> int" where
  "sortByInputIndexThenByName localeCompare c1 c2 =
     (if gc_inputIndex c1 = gc_inputIndex c2
      then localeCompare (node_name (gc_from c1)) (node_name (gc_from c2))
      else int (gc_inputIndex c1) - int (gc_inputIndex c2))"

record source_group =
  sg_complete :: bool
  sg_connections :: "gconn list"

definition newGroup :: source_group where
  "newGroup = \<lparr>sg_complete = True, sg_connections = []\<rparr>"

text \<open>\<^verbatim>\<open>findIndex\<close> and \<^verbatim>\<open>splice\<close>: the first connection at an input, and the
  others.\<close>

fun take_at_input :: "int \<Rightarrow> gconn list \<Rightarrow> (gconn \<times> gconn list) option" where
  "take_at_input i [] = None"
| "take_at_input i (c # cs) =
     (if int (gc_inputIndex c) = i then Some (c, cs)
      else map_option (\<lambda>(d, rest). (d, c # rest)) (take_at_input i cs))"

definition least_input :: "gconn list \<Rightarrow> gconn list \<Rightarrow> int" where
  "least_input withData withoutData = Min (set (map (\<lambda>c. int (gc_inputIndex c)) (withData @ withoutData)))"

lemma take_at_input_length: "take_at_input i cs = Some (c, rest) \<Longrightarrow> length cs = Suc (length rest)"
  by (induction cs arbitrary: rest) (auto split: if_splits)

lemma take_at_input_None: "take_at_input i cs = None \<longleftrightarrow> (\<forall>c \<in> set cs. int (gc_inputIndex c) \<noteq> i)"
  by (induction cs) auto

function group_loop ::
  "gconn list \<Rightarrow> gconn list \<Rightarrow> int \<Rightarrow> source_group \<Rightarrow> source_group list \<Rightarrow> source_group list" where
  "group_loop withData withoutData currentInputIndex currentGroup groups =
     (if withData = [] \<and> withoutData = [] then groups @ [currentGroup]
      else
        let i = currentInputIndex + 1 in
        case take_at_input i withData of
          Some (c, rest) \<Rightarrow>
            group_loop rest withoutData i (currentGroup\<lparr>sg_connections := sg_connections currentGroup @ [c]\<rparr>) groups
        | None \<Rightarrow> (case take_at_input i withoutData of
            Some (c, rest) \<Rightarrow>
              group_loop withData rest i
                (currentGroup\<lparr>sg_connections := sg_connections currentGroup @ [c], sg_complete := False\<rparr>) groups
          | None \<Rightarrow>
              group_loop withData withoutData (least_input withData withoutData - 1) newGroup (groups @ [currentGroup])))"
  by pat_completeness auto

text \<open>A turn that takes a connection shortens the lists; one that closes a group moves to the
  input before the least one left, so the next turn takes a connection.\<close>

termination
proof (relation "measure (\<lambda>(withData, withoutData, i, g, gs). 2 * (length withData + length withoutData) +
    (if \<exists>c \<in> set (withData @ withoutData). int (gc_inputIndex c) = i + 1 then 0 else 1))", goal_cases)
  case 1
  show ?case by simp
next
  case (2 withData withoutData currentInputIndex currentGroup groups x)
  let ?all = "withData @ withoutData"
  have "least_input withData withoutData \<in> set (map (\<lambda>c. int (gc_inputIndex c)) ?all)"
    unfolding least_input_def using 2(1) by (intro Min_in) auto
  then obtain c where "c \<in> set ?all" "least_input withData withoutData = int (gc_inputIndex c)"
    unfolding set_map by (rule imageE)
  moreover have "\<forall>c \<in> set ?all. int (gc_inputIndex c) \<noteq> currentInputIndex + 1"
    using 2(2-4) by (auto simp: take_at_input_None)
  ultimately show ?case by auto
next
  case 3
  then show ?case by (auto dest!: take_at_input_length)
next
  case 4
  then show ?case by (auto dest!: take_at_input_length)
qed

declare group_loop.simps [simp del]

definition has_source_data :: "run_data \<Rightarrow> pin_data \<Rightarrow> gconn \<Rightarrow> bool" where
  "has_source_data runData pinnedData c \<longleftrightarrow>
     obj_get runData (node_name (gc_from c)) \<noteq> None \<or> obj_get pinnedData (node_name (gc_from c)) \<noteq> None"

definition getSourceDataGroups ::
  "(string \<Rightarrow> string \<Rightarrow> int) \<Rightarrow> graph \<Rightarrow> inode \<Rightarrow> run_data \<Rightarrow> pin_data \<Rightarrow> source_group list" where
  "getSourceDataGroups localeCompare g node runData pinnedData =
     (let connections = getConnections (Some node) g;
          withData = filter (has_source_data runData pinnedData) connections;
          withoutData = filter (\<lambda>c. \<not> has_source_data runData pinnedData c \<and> gc_type c = Main_type) connections
      in if withData = [] \<and> withoutData = [] then []
         else
           let sortedWith = js_sort (sortByInputIndexThenByName localeCompare) withData;
               sortedWithout = js_sort (sortByInputIndexThenByName localeCompare) withoutData
           in group_loop sortedWith sortedWithout (least_input sortedWith sortedWithout - 1) newGroup [])"

section \<open>The execution stack\<close>

text \<open>\<^verbatim>\<open>addWaitingExecution\<close> and \<^verbatim>\<open>addWaitingExecutionSource\<close> are the same
  nested write; a missing value is stored as null.\<close>

definition put_waiting ::
  "string \<Rightarrow> nat \<Rightarrow> string \<Rightarrow> nat \<Rightarrow> 'a option \<Rightarrow> (string, (nat, (string, 'a slot list) obj) obj) obj \<Rightarrow>
     (string, (nat, (string, 'a slot list) obj) obj) obj" where
  "put_waiting nodeName runIndex inputType inputIndex v waiting =
     (let byRun = (case obj_get waiting nodeName of None \<Rightarrow> [] | Some r \<Rightarrow> r);
          conns = (case obj_get byRun runIndex of None \<Rightarrow> [] | Some c \<Rightarrow> c);
          cs = (case obj_get conns inputType of None \<Rightarrow> [] | Some l \<Rightarrow> l);
          cs' = arr_put Undef inputIndex (case v of None \<Rightarrow> Null | Some x \<Rightarrow> Val x) cs
      in obj_set nodeName (obj_set runIndex (obj_set inputType cs' conns) byRun) waiting)"

definition addWaitingExecution ::
  "string \<Rightarrow> nat \<Rightarrow> string \<Rightarrow> nat \<Rightarrow> item list option \<Rightarrow> waiting_execution \<Rightarrow> waiting_execution" where
  "addWaitingExecution nodeName runIndex inputType inputIndex executionData waitingExecution =
     put_waiting nodeName runIndex inputType inputIndex executionData waitingExecution"

definition addWaitingExecutionSource ::
  "string \<Rightarrow> nat \<Rightarrow> string \<Rightarrow> nat \<Rightarrow> source_data option \<Rightarrow> waiting_execution_source \<Rightarrow> waiting_execution_source" where
  "addWaitingExecutionSource nodeName runIndex inputType inputIndex sourceData waitingExecutionSource =
     put_waiting nodeName runIndex inputType inputIndex sourceData waitingExecutionSource"

record stack_state =
  ss_stack :: "execute_data list"
  ss_waiting :: waiting_execution
  ss_waitingSource :: waiting_execution_source

definition source_of :: "gconn \<Rightarrow> nat \<Rightarrow> source_data" where
  "source_of c runIndex = \<lparr>previousNode = node_name (gc_from c), previousNodeOutput = Some (gc_outputIndex c),
     previousNodeRun = Some runIndex\<rparr>"

text \<open>One connection of a complete group: its data is pushed if there is any, its source is
  pushed always.\<close>

definition push_source ::
  "run_data \<Rightarrow> pin_data \<Rightarrow> gconn \<Rightarrow> item list slot list \<times> source_data slot list \<Rightarrow>
     graph_error + (item list slot list \<times> source_data slot list)" where
  "push_source runData pinData c acc = (case acc of (incomingData, sources) \<Rightarrow>
     (case obj_get pinData (node_name (gc_from c)) of
        Some pinned \<Rightarrow> Inr (incomingData @ [Val pinned], sources @ [Val (source_of c 0)])
      | None \<Rightarrow>
          bindE (guardE (obj_get runData (node_name (gc_from c)) \<noteq> None) AssertionError) (\<lambda>_.
          bindE (getIncomingDataFromAnyRun runData (node_name (gc_from c)) (gc_type c) (gc_outputIndex c)) (\<lambda>r.
            Inr (case r of
                Some (items, runIndex) \<Rightarrow> (incomingData @ [Val items], sources @ [Val (source_of c runIndex)])
              | None \<Rightarrow> (incomingData, sources @ [Val (source_of c 0)]))))))"

definition stack_entry :: "inode \<Rightarrow> item list slot list \<Rightarrow> source_data slot list option \<Rightarrow> execute_data" where
  "stack_entry node incomingData sources = \<lparr>ed_data = [(Main_type, incomingData)], ed_metadata = None,
     ed_node = node, ed_source = map_option (\<lambda>s. [(Main_type, s)]) sources, ed_runIndex = None\<rparr>"

definition wait_source ::
  "run_data \<Rightarrow> string \<Rightarrow> nat \<Rightarrow> gconn \<Rightarrow> stack_state \<Rightarrow> graph_error + stack_state" where
  "wait_source runData nodeName nextRunIndex c st =
     bindE (getIncomingDataFromAnyRun runData (node_name (gc_from c)) (gc_type c) (gc_outputIndex c)) (\<lambda>r.
       Inr (case r of
           None \<Rightarrow> st
         | Some (items, runIndex) \<Rightarrow> st\<lparr>
             ss_waiting := addWaitingExecution nodeName nextRunIndex (gc_type c) (gc_inputIndex c) (Some items) (ss_waiting st),
             ss_waitingSource := addWaitingExecutionSource nodeName nextRunIndex (gc_type c) (gc_inputIndex c)
               (Some (source_of c nextRunIndex)) (ss_waitingSource st)\<rparr>))"

definition stack_group ::
  "run_data \<Rightarrow> pin_data \<Rightarrow> inode \<Rightarrow> source_group \<Rightarrow> stack_state \<Rightarrow> graph_error + stack_state" where
  "stack_group runData pinData startNode sourceData st =
     (if sg_complete sourceData then
        bindE (foldE (push_source runData pinData) (sg_connections sourceData) ([], [])) (\<lambda>(incomingData, sources).
          Inr (st\<lparr>ss_stack := ss_stack st @ [stack_entry startNode incomingData (Some sources)]\<rparr>))
      else
        let nextRunIndex = (case obj_get (ss_waiting st) (node_name startNode) of None \<Rightarrow> 0 | Some byRun \<Rightarrow> length byRun)
        in foldE (wait_source runData (node_name startNode) nextRunIndex) (sg_connections sourceData) st)"

definition stack_start_node ::
  "(string \<Rightarrow> string \<Rightarrow> int) \<Rightarrow> graph \<Rightarrow> run_data \<Rightarrow> pin_data \<Rightarrow> inode \<Rightarrow> stack_state \<Rightarrow> graph_error + stack_state" where
  "stack_start_node localeCompare g runData pinData startNode st =
     bindE (getDirectParentConnections g startNode) (\<lambda>parents.
       if filter (\<lambda>c. gc_type c = Main_type) parents = []
       then Inr (st\<lparr>ss_stack := ss_stack st @ [stack_entry startNode [Val [empty_item]] None]\<rparr>)
       else foldE (stack_group runData pinData startNode)
              (getSourceDataGroups localeCompare g startNode runData pinData) st)"

definition recreateNodeExecutionStack ::
  "(string \<Rightarrow> string \<Rightarrow> int) \<Rightarrow> graph \<Rightarrow> inode list \<Rightarrow> run_data \<Rightarrow> pin_data \<Rightarrow> graph_error + stack_state" where
  "recreateNodeExecutionStack localeCompare g startNodes runData pinData =
     bindE (guardE (\<forall>node \<in> set (obj_values (g_nodes g)). \<not> is_disabled node) AssertionError) (\<lambda>_.
       foldE (stack_start_node localeCompare g runData pinData) startNodes
         \<lparr>ss_stack = [], ss_waiting = [], ss_waitingSource = []\<rparr>)"

section \<open>The trigger of a partial execution\<close>

definition isTriggerNode :: "node_type \<Rightarrow> bool" where
  "isTriggerNode nodeType \<longleftrightarrow> ''trigger'' \<in> set (nt_group nodeType)"

definition is_trigger_of :: "node_types \<Rightarrow> inode \<Rightarrow> graph_error + bool" where
  "is_trigger_of types node = (case type_of_node types node of
       None \<Rightarrow> Inl UndefinedProperty | Some t \<Rightarrow> Inr (isTriggerNode t))"

definition findAllParentTriggers :: "node_types \<Rightarrow> workflow \<Rightarrow> string \<Rightarrow> graph_error + inode list" where
  "findAllParentTriggers types w destinationNodeName =
     bindE (mapE (\<lambda>name. case getNode w name of None \<Rightarrow> Inl AssertionError | Some node \<Rightarrow> Inr node)
       (getParentNodes (wf_connectionsByDestinationNode w) destinationNodeName (OnlyType Main_type) (-1)))
       (\<lambda>parents. foldE (\<lambda>node acc. bindE (is_trigger_of types node) (\<lambda>t. Inr (if t then acc @ [node] else acc)))
          parents [])"

definition anyReachableRootHasRunData :: "graph \<Rightarrow> string \<Rightarrow> run_data \<Rightarrow> graph_error + bool" where
  "anyReachableRootHasRunData g destinationNodeName runData =
     (case obj_get (g_nodes g) destinationNodeName of
        None \<Rightarrow> Inr False
      | Some destinationNode \<Rightarrow>
          bindE (getParentConnections g destinationNode) (\<lambda>parentConnections.
          bindE (foldE (\<lambda>parentNode roots.
              bindE (getDirectParentConnections g parentNode) (\<lambda>ps.
                Inr (if \<exists>c \<in> set ps. gc_type c = Main_type then roots else set_add parentNode roots)))
            (set_of_list (map gc_from parentConnections)) [])
          (\<lambda>rootNodes. Inr (\<exists>rootNode \<in> set rootNodes. obj_get runData (node_name rootNode) \<noteq> None))))"

definition ends_with_webhook :: "inode \<Rightarrow> bool" where
  "ends_with_webhook n \<longleftrightarrow> length (node_type n) \<ge> 7 \<and> drop (length (node_type n) - 7) (node_type n) = ''webhook''"

definition webhook_first :: "inode \<Rightarrow> inode \<Rightarrow> int" where
  "webhook_first a b = (if ends_with_webhook a then -1 else if ends_with_webhook b then 1 else 0)"

definition choose_trigger :: "workflow \<Rightarrow> run_data \<Rightarrow> inode list \<Rightarrow> inode option" where
  "choose_trigger w runData parentTriggers =
     (case find (\<lambda>t. obj_get runData (node_name t) \<noteq> None) parentTriggers of
        Some t \<Rightarrow> Some t
      | None \<Rightarrow>
          let pinned = js_sort webhook_first (filter (\<lambda>t. getPinDataOfNode w (node_name t) \<noteq> None) parentTriggers);
              webhooks = filter ends_with_webhook parentTriggers
          in if pinned \<noteq> [] then Some (hd pinned)
             else if webhooks \<noteq> [] then Some (hd webhooks)
             else (case parentTriggers of [] \<Rightarrow> None | t # ts \<Rightarrow> Some t))"

definition findTriggerForPartialExecution ::
  "node_types \<Rightarrow> workflow \<Rightarrow> string \<Rightarrow> run_data \<Rightarrow> graph_error + inode option" where
  "findTriggerForPartialExecution types w destinationNodeName runData =
     (case getNode w destinationNodeName of
        None \<Rightarrow> Inr None
      | Some destinationNode \<Rightarrow>
          bindE (is_trigger_of types destinationNode) (\<lambda>isTrigger.
            if isTrigger \<and> \<not> is_disabled destinationNode then Inr (Some destinationNode)
            else bindE (findAllParentTriggers types w destinationNodeName) (\<lambda>triggers.
              Inr (choose_trigger w runData (filter (\<lambda>t. \<not> is_disabled t) triggers)))))"

section \<open>Rewiring a tool\<close>

record agent_request =
  ar_query :: json
  ar_toolName :: "string option"

definition replace_node :: "inode \<Rightarrow> inode \<Rightarrow> inode \<Rightarrow> inode" where
  "replace_node old new n = (if n = old then new else n)"

definition replace_in_conn :: "inode \<Rightarrow> inode \<Rightarrow> gconn \<Rightarrow> gconn" where
  "replace_in_conn old new c = c\<lparr>gc_from := replace_node old new (gc_from c), gc_to := replace_node old new (gc_to c)\<rparr>"

text \<open>A write to a field of a node that the graph shares: every occurrence changes.\<close>

definition replace_in_graph :: "inode \<Rightarrow> inode \<Rightarrow> graph \<Rightarrow> graph" where
  "replace_in_graph old new g = \<lparr>g_nodes = map (\<lambda>(k, n). (k, replace_node old new n)) (g_nodes g),
     g_conns = map (\<lambda>(k, c). (k, replace_in_conn old new c)) (g_conns g)\<rparr>"

definition tool_executor :: "(json \<Rightarrow> string) \<Rightarrow> inode \<Rightarrow> inode \<Rightarrow> agent_request option \<Rightarrow> inode" where
  "tool_executor stringify tool rootNode agentRequest =
     (plain_node ''PartialExecutionToolExecutor'' ''@n8n/n8n-nodes-langchain.toolExecutor'')
     \<lparr>node_id := node_id rootNode, node_typeVersion := 0, node_disabled := Some False,
      node_parameters :=
        [(''query'', JStr (stringify (case agentRequest of None \<Rightarrow> JObj [] | Some r \<Rightarrow> ar_query r))),
         (''toolName'', JStr (case agentRequest of None \<Rightarrow> [] | Some r \<Rightarrow>
            (case ar_toolName r of None \<Rightarrow> [] | Some n \<Rightarrow> n))),
         (''node'', JStr (node_name tool))]\<rparr>"

definition rewireGraph ::
  "(json \<Rightarrow> string) \<Rightarrow> inode \<Rightarrow> graph \<Rightarrow> agent_request option \<Rightarrow> graph_error + graph" where
  "rewireGraph stringify tool g agentRequest =
     bindE (clone g) (\<lambda>modified.
     bindE (getChildren modified tool) (\<lambda>children.
       if children = [] then Inr g
       else
         let rootNode = last children in
         bindE (getDirectParentConnections modified rootNode) (\<lambda>parents.
           let incoming = filter (\<lambda>c. gc_type c = Main_type) parents;
               toolExecutor = tool_executor stringify tool rootNode agentRequest;
               tool' = tool\<lparr>node_rewireOutputLogTo := Some AiTool_type\<rparr>;
               g1 = replace_in_graph tool tool' (addNode toolExecutor modified)
           in bindE (addConnection tool' toolExecutor (Some AiTool_type) None None g1) (\<lambda>g2.
              bindE (foldE (\<lambda>c acc. addConnection (gc_from c) toolExecutor (Some (gc_type c)) None None acc)
                       (map (replace_in_conn tool tool') incoming) g2) (\<lambda>g3.
                Inr (removeNode (replace_node tool tool' rootNode) g3))))))"

end
