(* ===== verification/Stack_Facts.thy ===== *)
theory Stack_Facts
  imports Execution_Stack "HOL-Library.Multiset"
begin

text \<open>
  What rebuilding the execution stack does: the groups of source data of a node place each of
  its connections once, and the stack holds one entry per start node without main input and
  one per complete group of the others.
\<close>

section \<open>What a group holds\<close>

lemma js_insert_mset: "mset (js_insert cmp x ys) = add_mset x (mset ys)"
  by (induction ys) auto

lemma js_sort_mset: "mset (js_sort cmp xs) = mset xs"
proof -
  have "mset (fold (js_insert cmp) xs ys) = mset xs + mset ys" for ys
    by (induction xs arbitrary: ys) (auto simp: js_insert_mset)
  then show ?thesis by (simp add: js_sort_def)
qed

lemma js_sort_empty: "js_sort cmp xs = [] \<longleftrightarrow> xs = []"
  by (metis js_sort_length length_0_conv)

text \<open>The connections of a group enter at consecutive inputs.\<close>

definition consecutive :: "gconn list \<Rightarrow> bool" where
  "consecutive cs \<longleftrightarrow> (\<forall>k < length cs. gc_inputIndex (cs ! k) = gc_inputIndex (hd cs) + k)"

definition group_ok :: "(gconn \<Rightarrow> bool) \<Rightarrow> source_group \<Rightarrow> bool" where
  "group_ok has gr \<longleftrightarrow> consecutive (sg_connections gr) \<and> (sg_complete gr \<longleftrightarrow> (\<forall>c \<in> set (sg_connections gr). has c))"

text \<open>Of two connections at one input the one with data is not in a later group.\<close>

definition data_first :: "(gconn \<Rightarrow> bool) \<Rightarrow> source_group \<Rightarrow> source_group \<Rightarrow> bool" where
  "data_first has a b \<longleftrightarrow> (\<forall>c \<in> set (sg_connections a). \<forall>d \<in> set (sg_connections b).
     \<not> has c \<and> has d \<longrightarrow> gc_inputIndex c \<noteq> gc_inputIndex d)"

definition placed :: "source_group list \<Rightarrow> gconn list" where
  "placed gs = concat (map sg_connections gs)"

lemma placed_simps [simp]: "placed [] = []" "placed (gs @ hs) = placed gs @ placed hs"
  "placed (gr # gs) = sg_connections gr @ placed gs"
  by (simp_all add: placed_def)

lemma take_at_input_mset: "take_at_input i cs = Some (c, rest) \<Longrightarrow> mset cs = add_mset c (mset rest)"
  by (induction cs arbitrary: rest) (auto split: if_splits)

lemma take_at_input_index: "take_at_input i cs = Some (c, rest) \<Longrightarrow> int (gc_inputIndex c) = i"
  by (induction cs arbitrary: rest) (auto split: if_splits)

lemma take_at_input_set: "take_at_input i cs = Some (c, rest) \<Longrightarrow> set cs = insert c (set rest)"
  by (metis set_mset_add_mset_insert set_mset_mset take_at_input_mset)

lemma least_input_attained:
  assumes "withData \<noteq> [] \<or> withoutData \<noteq> []"
  shows "\<exists>c \<in> set (withData @ withoutData). int (gc_inputIndex c) = least_input withData withoutData"
proof -
  have "least_input withData withoutData \<in> set (map (\<lambda>c. int (gc_inputIndex c)) (withData @ withoutData))"
    unfolding least_input_def using assms by (intro Min_in) auto
  then show ?thesis unfolding set_map by (metis imageE)
qed

lemma consecutive_snoc:
  assumes "consecutive cs" "cs \<noteq> [] \<Longrightarrow> gc_inputIndex c = Suc (gc_inputIndex (last cs))"
  shows "consecutive (cs @ [c])"
proof (cases "cs = []")
  case True
  then show ?thesis by (simp add: consecutive_def)
next
  case False
  then have "gc_inputIndex (last cs) = gc_inputIndex (hd cs) + (length cs - 1)"
    using assms(1) by (simp add: consecutive_def last_conv_nth)
  then show ?thesis
    using assms False by (auto simp: consecutive_def nth_append less_Suc_eq)
qed

lemma consecutive_last:
  assumes "consecutive cs" "c \<in> set cs"
  shows "gc_inputIndex c \<le> gc_inputIndex (last cs)"
proof -
  obtain k where "k < length cs" "c = cs ! k" using assms(2) by (metis in_set_conv_nth)
  moreover have "cs \<noteq> []" using assms(2) by auto
  ultimately show ?thesis using assms(1) by (simp add: consecutive_def last_conv_nth)
qed

lemma filter_parts:
  "mset (filter P xs) + mset (filter (\<lambda>x. \<not> P x \<and> Q x) xs) = mset (filter (\<lambda>x. P x \<or> Q x) xs)"
  by (induction xs) auto

text \<open>What holds at every turn of the loop.\<close>

definition loop_inv ::
  "(gconn \<Rightarrow> bool) \<Rightarrow> gconn list \<Rightarrow> gconn list \<Rightarrow> int \<Rightarrow> source_group \<Rightarrow> source_group list \<Rightarrow> bool" where
  "loop_inv has W V i gr gs \<longleftrightarrow>
     (\<forall>c \<in> set W. has c) \<and> (\<forall>c \<in> set V. \<not> has c) \<and>
     (\<forall>h \<in> set gs. group_ok has h \<and> sg_connections h \<noteq> []) \<and> group_ok has gr \<and>
     (sg_connections gr \<noteq> [] \<longrightarrow> int (gc_inputIndex (last (sg_connections gr))) = i) \<and>
     (sg_connections gr = [] \<longrightarrow> (\<exists>c \<in> set (W @ V). int (gc_inputIndex c) = i + 1)) \<and>
     sorted_wrt (data_first has) (gs @ [gr]) \<and>
     (\<forall>c \<in> set (placed (gs @ [gr])). \<forall>d \<in> set W. \<not> has c \<longrightarrow> gc_inputIndex c \<noteq> gc_inputIndex d)"

definition groups_done :: "(gconn \<Rightarrow> bool) \<Rightarrow> source_group list \<Rightarrow> bool" where
  "groups_done has gs \<longleftrightarrow> (\<forall>h \<in> set gs. group_ok has h \<and> sg_connections h \<noteq> []) \<and> sorted_wrt (data_first has) gs"

lemma loop_inv_start:
  assumes "\<forall>c \<in> set W. has c" "\<forall>c \<in> set V. \<not> has c" "\<exists>c \<in> set (W @ V). int (gc_inputIndex c) = i + 1"
  shows "loop_inv has W V i newGroup []"
  using assms by (auto simp: loop_inv_def newGroup_def group_ok_def consecutive_def)

lemma loop_inv_with:
  assumes inv: "loop_inv has W V i gr gs" and t: "take_at_input (i + 1) W = Some (c, rest)"
  shows "loop_inv has rest V (i + 1) (gr\<lparr>sg_connections := sg_connections gr @ [c]\<rparr>) gs"
proof -
  have c: "has c" "c \<in> set W" "int (gc_inputIndex c) = i + 1" "set rest \<subseteq> set W"
    using inv take_at_input_set [OF t] take_at_input_index [OF t] by (auto simp: loop_inv_def)
  have "consecutive (sg_connections gr @ [c])"
    by (rule consecutive_snoc) (use inv c in \<open>auto simp: loop_inv_def group_ok_def\<close>)
  then have "group_ok has (gr\<lparr>sg_connections := sg_connections gr @ [c]\<rparr>)"
    using inv c by (auto simp: group_ok_def loop_inv_def)
  moreover have "sorted_wrt (data_first has) (gs @ [gr\<lparr>sg_connections := sg_connections gr @ [c]\<rparr>])"
    using inv c(2) by (auto simp: loop_inv_def data_first_def sorted_wrt_append placed_def)
  moreover have "\<forall>c' \<in> set (placed (gs @ [gr\<lparr>sg_connections := sg_connections gr @ [c]\<rparr>])). \<forall>d \<in> set rest.
      \<not> has c' \<longrightarrow> gc_inputIndex c' \<noteq> gc_inputIndex d"
    using inv c by (auto simp: loop_inv_def)
  ultimately show ?thesis using inv c by (auto simp: loop_inv_def)
qed

lemma loop_inv_without:
  assumes inv: "loop_inv has W V i gr gs" and none: "take_at_input (i + 1) W = None"
    and t: "take_at_input (i + 1) V = Some (c, rest)"
  shows "loop_inv has W rest (i + 1) (gr\<lparr>sg_connections := sg_connections gr @ [c], sg_complete := False\<rparr>) gs"
proof -
  let ?gr = "gr\<lparr>sg_connections := sg_connections gr @ [c], sg_complete := False\<rparr>"
  have c: "\<not> has c" "int (gc_inputIndex c) = i + 1" "set rest \<subseteq> set V"
    using inv take_at_input_set [OF t] take_at_input_index [OF t] by (auto simp: loop_inv_def)
  have W: "\<forall>d \<in> set W. gc_inputIndex c \<noteq> gc_inputIndex d"
    using none c(2) by (metis take_at_input_None)
  have "consecutive (sg_connections gr @ [c])"
    by (rule consecutive_snoc) (use inv c in \<open>auto simp: loop_inv_def group_ok_def\<close>)
  then have "group_ok has ?gr"
    using c by (auto simp: group_ok_def)
  moreover have "sorted_wrt (data_first has) (gs @ [?gr])"
    using inv c(1) by (auto simp: loop_inv_def data_first_def sorted_wrt_append)
  moreover have "\<forall>c' \<in> set (placed (gs @ [?gr])). \<forall>d \<in> set W. \<not> has c' \<longrightarrow> gc_inputIndex c' \<noteq> gc_inputIndex d"
    using inv W by (auto simp: loop_inv_def)
  ultimately show ?thesis using inv c by (auto simp: loop_inv_def)
qed

lemma loop_inv_close:
  assumes inv: "loop_inv has W V i gr gs" and left: "W \<noteq> [] \<or> V \<noteq> []"
    and none: "take_at_input (i + 1) W = None" "take_at_input (i + 1) V = None"
  shows "loop_inv has W V (least_input W V - 1) newGroup (gs @ [gr])"
proof -
  have "sg_connections gr \<noteq> []"
    using inv none by (auto simp: loop_inv_def take_at_input_None)
  moreover have "\<exists>c \<in> set (W @ V). int (gc_inputIndex c) = least_input W V - 1 + 1"
    using least_input_attained [OF left] by simp
  ultimately show ?thesis
    using inv by (auto simp: loop_inv_def newGroup_def group_ok_def consecutive_def sorted_wrt_append data_first_def)
qed

lemma group_loop_spec:
  assumes "loop_inv has W V i gr gs"
  shows "groups_done has (group_loop W V i gr gs) \<and>
    mset (placed (group_loop W V i gr gs)) = mset (placed (gs @ [gr])) + mset W + mset V"
  using assms
proof (induction W V i gr gs rule: group_loop.induct)
  case (1 W V i gr gs)
  consider (stop) "W = [] \<and> V = []"
    | (data) c rest where "W \<noteq> [] \<or> V \<noteq> []" "take_at_input (i + 1) W = Some (c, rest)"
    | (nodata) c rest where "W \<noteq> [] \<or> V \<noteq> []" "take_at_input (i + 1) W = None" "take_at_input (i + 1) V = Some (c, rest)"
    | (shut) "W \<noteq> [] \<or> V \<noteq> []" "take_at_input (i + 1) W = None" "take_at_input (i + 1) V = None"
    by (metis option.exhaust prod.exhaust)
  then show ?case
  proof cases
    case stop
    then have "sg_connections gr \<noteq> []" using 1(4) by (auto simp: loop_inv_def)
    moreover have "group_loop W V i gr gs = gs @ [gr]" using stop by (simp add: group_loop.simps)
    ultimately show ?thesis using stop 1(4) by (auto simp: loop_inv_def groups_done_def)
  next
    case data
    then show ?thesis
      using 1(3) [OF _ refl data(2) refl loop_inv_with [OF 1(4) data(2)]] take_at_input_mset [OF data(2)]
      by (auto simp: group_loop.simps [of W V i] Let_def)
  next
    case nodata
    then show ?thesis
      using 1(2) [OF _ refl nodata(2) nodata(3) refl loop_inv_without [OF 1(4) nodata(2,3)]] take_at_input_mset [OF nodata(3)]
      by (auto simp: group_loop.simps [of W V i] Let_def)
  next
    case shut
    then show ?thesis
      using 1(1) [OF _ refl shut(2,3) loop_inv_close [OF 1(4) shut(1,2,3)]]
      by (auto simp: group_loop.simps [of W V i] Let_def newGroup_def)
  qed
qed

lemma getSourceDataGroups_loop:
  fixes localeCompare g node runData pinData
  defines "gs \<equiv> getSourceDataGroups localeCompare g node runData pinData"
  shows "groups_done (has_source_data runData pinData) gs"
    and "mset (placed gs) = mset (filter (\<lambda>c. has_source_data runData pinData c \<or> gc_type c = Main_type)
      (getConnections (Some node) g))"
proof -
  let ?has = "has_source_data runData pinData" and ?cs = "getConnections (Some node) g"
  let ?W = "filter ?has ?cs" and ?V = "filter (\<lambda>c. \<not> ?has c \<and> gc_type c = Main_type) ?cs"
  let ?w = "js_sort (sortByInputIndexThenByName localeCompare) ?W" and ?v = "js_sort (sortByInputIndexThenByName localeCompare) ?V"
  have split: "mset ?W + mset ?V = mset (filter (\<lambda>c. ?has c \<or> gc_type c = Main_type) ?cs)"
    by (rule filter_parts)
  have "groups_done ?has gs \<and> mset (placed gs) = mset ?W + mset ?V"
  proof (cases "?W = [] \<and> ?V = []")
    case True
    then show ?thesis by (simp add: gs_def getSourceDataGroups_def groups_done_def)
  next
    case False
    have "?w \<noteq> [] \<or> ?v \<noteq> []" using False unfolding js_sort_empty de_Morgan_conj .
    note least = least_input_attained [OF this]
    have c: "\<exists>c \<in> set (?w @ ?v). int (gc_inputIndex c) = least_input ?w ?v - 1 + 1"
      unfolding diff_add_cancel by (rule least)
    have w: "\<forall>c \<in> set ?w. ?has c" and v: "\<forall>c \<in> set ?v. \<not> ?has c" by (simp_all only: js_sort_set set_filter mem_Collect_eq) blast+
    note fin = group_loop_spec [OF loop_inv_start [OF w v c]]
    have eq: "gs = group_loop ?w ?v (least_input ?w ?v - 1) newGroup []"
      unfolding gs_def getSourceDataGroups_def Let_def using False by (rule if_not_P)
    show ?thesis unfolding eq using fin by (simp add: js_sort_mset newGroup_def del: mset_filter)
  qed
  then show "groups_done ?has gs" and "mset (placed gs) = mset (filter (\<lambda>c. ?has c \<or> gc_type c = Main_type) ?cs)"
    unfolding split by simp_all
qed

text \<open>The groups hold every connection that has data or is a main one exactly once; each
  group is not empty, enters at consecutive inputs and is complete exactly when all its
  sources have data; and of two connections at one input, one without data is never in a
  group before one with data.\<close>

theorem getSourceDataGroups_spec:
  "mset (placed (getSourceDataGroups localeCompare g node runData pinData)) =
      mset (filter (\<lambda>c. has_source_data runData pinData c \<or> gc_type c = Main_type) (getConnections (Some node) g)) \<and>
    set (getSourceDataGroups localeCompare g node runData pinData) \<subseteq>
      {gr. sg_connections gr \<noteq> [] \<and> consecutive (sg_connections gr) \<and>
        (sg_complete gr \<longleftrightarrow> set (sg_connections gr) \<subseteq> {c. has_source_data runData pinData c})} \<and>
    sorted_wrt (data_first (has_source_data runData pinData)) (getSourceDataGroups localeCompare g node runData pinData)"
  using getSourceDataGroups_loop [where localeCompare = localeCompare and g = g and node = node and runData = runData and pinData = pinData]
  unfolding groups_done_def group_ok_def by blast

section \<open>What the rebuilt stack holds\<close>

text \<open>The items a connection brings: pinned ones, or the first that are not empty.\<close>

definition given :: "run_data \<Rightarrow> pin_data \<Rightarrow> gconn \<Rightarrow> item list option" where
  "given runData pinData c = (case obj_get pinData (node_name (gc_from c)) of
       Some pinned \<Rightarrow> Some pinned
     | None \<Rightarrow> (case obj_get runData (node_name (gc_from c)) of
           None \<Rightarrow> None
         | Some runs \<Rightarrow> find (\<lambda>out. out \<noteq> []) (map (\<lambda>td. run_output td (gc_type c) (gc_outputIndex c)) runs)))"

definition origin :: "source_data slot \<Rightarrow> (string \<times> nat option) option" where
  "origin s = (case s of Val d \<Rightarrow> Some (previousNode d, previousNodeOutput d) | _ \<Rightarrow> None)"

definition origin_of :: "gconn \<Rightarrow> (string \<times> nat option) option" where
  "origin_of c = Some (node_name (gc_from c), Some (gc_outputIndex c))"

type_synonym entry_view =
  "inode \<times> task_data_connections \<times> (string \<times> (string \<times> nat option) option list) list option"

definition view_entry :: "execute_data \<Rightarrow> entry_view" where
  "view_entry e = (ed_node e, ed_data e, map_option (map (\<lambda>(ty, s). (ty, map origin s))) (ed_source e))"

definition group_entry :: "run_data \<Rightarrow> pin_data \<Rightarrow> inode \<Rightarrow> source_group \<Rightarrow> entry_view" where
  "group_entry runData pinData n gr = (n, [(Main_type, map Val (List.map_filter (given runData pinData) (sg_connections gr)))],
     Some [(Main_type, map origin_of (sg_connections gr))])"

definition expected_entries ::
  "(string \<Rightarrow> string \<Rightarrow> int) \<Rightarrow> graph \<Rightarrow> run_data \<Rightarrow> pin_data \<Rightarrow> inode \<Rightarrow> entry_view list" where
  "expected_entries localeCompare g runData pinData n =
     (if \<exists>c \<in> graph_conns g. gc_to c = n \<and> gc_type c = Main_type
      then map (group_entry runData pinData n) (filter sg_complete (getSourceDataGroups localeCompare g n runData pinData))
      else [(n, [(Main_type, [Val [empty_item]])], None)])"

lemma any_run_given:
  assumes "runs_typed g runData" "c \<in> graph_conns g"
  shows "\<exists>r. getIncomingDataFromAnyRun runData (node_name (gc_from c)) (gc_type c) (gc_outputIndex c) = Inr r \<and>
    (obj_get pinData (node_name (gc_from c)) = None \<longrightarrow> map_option fst r = given runData pinData c)"
proof -
  let ?n = "node_name (gc_from c)" and ?out = "\<lambda>td. run_output td (gc_type c) (gc_outputIndex c)"
  have "\<forall>runs td d. obj_get runData ?n = Some runs \<and> td \<in> set runs \<and> td_data td = Some d \<longrightarrow> obj_get d (gc_type c) \<noteq> None"
    using assms unfolding runs_typed_def by metis
  from getIncomingDataFromAnyRun_first [OF this, of "gc_outputIndex c"] obtain r where
    r: "getIncomingDataFromAnyRun runData ?n (gc_type c) (gc_outputIndex c) = Inr r"
    and spec: "case r of None \<Rightarrow> (\<forall>runs td. obj_get runData ?n = Some runs \<and> td \<in> set runs \<longrightarrow> ?out td = [])
     | Some (items, k) \<Rightarrow> items \<noteq> [] \<and> (\<exists>runs. obj_get runData ?n = Some runs \<and> k < length runs \<and>
         ?out (runs ! k) = items \<and> (\<forall>j < k. ?out (runs ! j) = []))"
    by blast
  have "map_option fst r = given runData pinData c" if "obj_get pinData ?n = None"
  proof (cases r)
    case None
    then show ?thesis using spec that by (auto simp: given_def find_None_iff2 split: option.split)
  next
    case (Some ik)
    then obtain items k runs where ik: "r = Some (items, k)" and k: "items \<noteq> []" "obj_get runData ?n = Some runs" "k < length runs"
      "?out (runs ! k) = items" "\<forall>j < k. ?out (runs ! j) = []"
      using spec by (cases ik) auto
    have "find (\<lambda>out. out \<noteq> []) (map ?out runs) = Some items"
      unfolding find_Some_iff by (rule exI [where x = k]) (use k in auto)
    then show ?thesis using ik k(2) that by (simp add: given_def)
  qed
  then show ?thesis by (intro exI [where x = r] conjI impI r)
qed

lemma push_source_ok:
  assumes "runs_typed g runData" "c \<in> graph_conns g" "has_source_data runData pinData c"
  shows "\<exists>s. push_source runData pinData c (incomingData, sources) =
      Inr (incomingData @ map Val (List.map_filter (given runData pinData) [c]), sources @ [s]) \<and> origin s = origin_of c"
proof (cases "obj_get pinData (node_name (gc_from c))")
  case None
  with assms(3) have "obj_get runData (node_name (gc_from c)) \<noteq> None" by (simp add: has_source_data_def)
  with any_run_given [OF assms(1,2), of pinData] None show ?thesis
    by (auto simp: push_source_def map_filter_simps origin_def origin_of_def source_of_def split: option.split)
next
  case (Some pinned)
  then show ?thesis
    by (simp add: push_source_def map_filter_simps given_def origin_def origin_of_def source_of_def)
qed

lemma push_sources_ok:
  assumes "runs_typed g runData" "set cs \<subseteq> graph_conns g" "\<forall>c \<in> set cs. has_source_data runData pinData c"
  shows "\<exists>sources. foldE (push_source runData pinData) cs ([], []) =
      Inr (map Val (List.map_filter (given runData pinData) cs), sources) \<and> map origin sources = map origin_of cs"
proof -
  let ?P = "\<lambda>ds (D, S). D = map Val (List.map_filter (given runData pinData) ds) \<and> map origin S = map origin_of ds"
  have "\<exists>s. foldE (push_source runData pinData) cs ([], []) = Inr s \<and> ?P cs s"
  proof (rule foldE_rule [where P = ?P])
    fix ds c rest s
    assume split: "cs = ds @ c # rest" and P: "?P ds s"
    obtain D S where s: "s = (D, S)" by (cases s)
    have "c \<in> graph_conns g" "has_source_data runData pinData c" using assms(2,3) split by auto
    from push_source_ok [OF assms(1) this, of D S] P s
    show "\<exists>s'. push_source runData pinData c s = Inr s' \<and> ?P (ds @ [c]) s'"
      by (auto simp: List.map_filter_def)
  qed (simp add: map_filter_simps)
  then show ?thesis by auto
qed

text \<open>The waiting tables only grow, and by the name of the node at hand.\<close>

definition waits_for :: "stack_state \<Rightarrow> string set" where
  "waits_for st = {n. obj_get (ss_waiting st) n \<noteq> None}"

lemma wait_source_ok:
  assumes "runs_typed g runData" "c \<in> graph_conns g"
  shows "\<exists>st'. wait_source runData nodeName k c st = Inr st' \<and> ss_stack st' = ss_stack st \<and>
    waits_for st' \<subseteq> insert nodeName (waits_for st)"
proof -
  from any_run_given [OF assms] obtain r where
    "getIncomingDataFromAnyRun runData (node_name (gc_from c)) (gc_type c) (gc_outputIndex c) = Inr r" by blast
  then show ?thesis
    by (cases r) (auto simp: wait_source_def addWaitingExecution_def put_waiting_def waits_for_def Let_def split: if_splits)
qed

lemma stack_group_ok:
  assumes typed: "runs_typed g runData" and conns: "set (sg_connections gr) \<subseteq> graph_conns g"
    and ok: "group_ok (has_source_data runData pinData) gr"
  shows "\<exists>st'. stack_group runData pinData n gr st = Inr st' \<and>
    map view_entry (ss_stack st') = map view_entry (ss_stack st) @ (if sg_complete gr then [group_entry runData pinData n gr] else []) \<and>
    waits_for st' \<subseteq> waits_for st \<union> (if sg_complete gr then {} else {node_name n})"
proof (cases "sg_complete gr")
  case True
  with ok have "\<forall>c \<in> set (sg_connections gr). has_source_data runData pinData c" by (simp add: group_ok_def)
  from push_sources_ok [OF typed conns this] True show ?thesis
    by (auto simp: stack_group_def view_entry_def group_entry_def stack_entry_def waits_for_def)
next
  case False
  let ?k = "case obj_get (ss_waiting st) (node_name n) of None \<Rightarrow> 0 | Some byRun \<Rightarrow> length byRun"
  let ?P = "\<lambda>ds st'. ss_stack st' = ss_stack st \<and> waits_for st' \<subseteq> insert (node_name n) (waits_for st)"
  have "\<exists>st'. foldE (wait_source runData (node_name n) ?k) (sg_connections gr) st = Inr st' \<and> ?P (sg_connections gr) st'"
  proof (rule foldE_rule [where P = ?P])
    fix ds c rest s
    assume "sg_connections gr = ds @ c # rest" "?P ds s"
    moreover from this conns have "c \<in> graph_conns g" by auto
    ultimately show "\<exists>s'. wait_source runData (node_name n) ?k c s = Inr s' \<and> ?P (ds @ [c]) s'"
      using wait_source_ok [OF typed, of c "node_name n" ?k s] by auto
  qed auto
  with False show ?thesis by (auto simp: stack_group_def Let_def)
qed

lemma groups_in_graph:
  assumes "gr \<in> set (getSourceDataGroups localeCompare g n runData pinData)"
  shows "set (sg_connections gr) \<subseteq> graph_conns g" "group_ok (has_source_data runData pinData) gr"
proof -
  note loop = getSourceDataGroups_loop [where localeCompare = localeCompare and g = g and node = n and runData = runData and pinData = pinData]
  have "set (sg_connections gr) \<subseteq> set (placed (getSourceDataGroups localeCompare g n runData pinData))"
    using assms by (auto simp: placed_def)
  also have "\<dots> \<subseteq> set (getConnections (Some n) g)"
    unfolding mset_eq_setD [OF loop(2)] by (rule filter_is_subset)
  finally show "set (sg_connections gr) \<subseteq> graph_conns g"
    unfolding getConnections_def graph_conns_def by auto
  show "group_ok (has_source_data runData pinData) gr"
    using loop(1) assms by (auto simp: groups_done_def)
qed

definition waiting_names ::
  "(string \<Rightarrow> string \<Rightarrow> int) \<Rightarrow> graph \<Rightarrow> run_data \<Rightarrow> pin_data \<Rightarrow> inode \<Rightarrow> string set" where
  "waiting_names localeCompare g runData pinData n =
     (if \<exists>gr \<in> set (getSourceDataGroups localeCompare g n runData pinData). \<not> sg_complete gr then {node_name n} else {})"

lemma stack_start_node_ok:
  assumes typed: "runs_typed g runData" and n: "has_this_node g n"
  shows "\<exists>st'. stack_start_node localeCompare g runData pinData n st = Inr st' \<and>
    map view_entry (ss_stack st') = map view_entry (ss_stack st) @ expected_entries localeCompare g runData pinData n \<and>
    waits_for st' \<subseteq> waits_for st \<union> waiting_names localeCompare g runData pinData n"
proof (cases "\<exists>c \<in> graph_conns g. gc_to c = n \<and> gc_type c = Main_type")
  case False
  then have "filter (\<lambda>c. gc_type c = Main_type) (filter (\<lambda>c. gc_to c = n) (obj_values (g_conns g))) = []"
    unfolding filter_empty_conv graph_conns_def by auto
  moreover have "expected_entries localeCompare g runData pinData n = [(n, [(Main_type, [Val [empty_item]])], None)]"
    unfolding expected_entries_def using False by (rule if_not_P)
  ultimately show ?thesis
    using n by (auto simp: stack_start_node_def getDirectParentConnections_ok view_entry_def stack_entry_def waits_for_def)
next
  case True
  let ?gs = "getSourceDataGroups localeCompare g n runData pinData"
  let ?P = "\<lambda>ds st'. map view_entry (ss_stack st') = map view_entry (ss_stack st) @
      map (group_entry runData pinData n) (filter sg_complete ds) \<and>
    waits_for st' \<subseteq> waits_for st \<union> (if \<exists>gr \<in> set ds. \<not> sg_complete gr then {node_name n} else {})"
  have "\<exists>st'. foldE (stack_group runData pinData n) ?gs st = Inr st' \<and> ?P ?gs st'"
  proof (rule foldE_rule [where P = ?P])
    fix ds gr rest s
    assume "?gs = ds @ gr # rest" and P: "?P ds s"
    then have gr: "gr \<in> set ?gs" by simp
    from stack_group_ok [OF typed groups_in_graph [OF gr], of n s] P
    show "\<exists>s'. stack_group runData pinData n gr s = Inr s' \<and> ?P (ds @ [gr]) s'"
      by (auto split: if_splits)
  qed simp
  moreover have "filter (\<lambda>c. gc_type c = Main_type) (filter (\<lambda>c. gc_to c = n) (obj_values (g_conns g))) \<noteq> []"
    using True unfolding filter_empty_conv graph_conns_def by auto
  moreover have "expected_entries localeCompare g runData pinData n = map (group_entry runData pinData n) (filter sg_complete ?gs)"
    unfolding expected_entries_def using True by (rule if_P)
  ultimately show ?thesis
    using n by (simp add: stack_start_node_def getDirectParentConnections_ok waiting_names_def)
qed

lemma recreateNodeExecutionStack_ok:
  assumes "g_wf g" "\<forall>n \<in> graph_nodes g. \<not> is_disabled n" "set startNodes \<subseteq> graph_nodes g" "runs_typed g runData"
  shows "\<exists>st. recreateNodeExecutionStack localeCompare g startNodes runData pinData = Inr st \<and>
    map view_entry (ss_stack st) = concat (map (expected_entries localeCompare g runData pinData) startNodes) \<and>
    {n. obj_get (ss_waiting st) n \<noteq> None} \<subseteq> (\<Union>n \<in> set startNodes. waiting_names localeCompare g runData pinData n)"
proof -
  let ?P = "\<lambda>ds st. map view_entry (ss_stack st) = concat (map (expected_entries localeCompare g runData pinData) ds) \<and>
    waits_for st \<subseteq> (\<Union>n \<in> set ds. waiting_names localeCompare g runData pinData n)"
  let ?init = "\<lparr>ss_stack = [], ss_waiting = [], ss_waitingSource = []\<rparr>"
  have "\<exists>st. foldE (stack_start_node localeCompare g runData pinData) startNodes ?init = Inr st \<and> ?P startNodes st"
  proof (rule foldE_rule [where P = ?P])
    fix ds n rest s
    assume split: "startNodes = ds @ n # rest" and P: "?P ds s"
    have "has_this_node g n" using assms(1,3) split by (simp add: has_this_node_iff)
    from stack_start_node_ok [OF assms(4) this, of localeCompare pinData s] P
    show "\<exists>s'. stack_start_node localeCompare g runData pinData n s = Inr s' \<and> ?P (ds @ [n]) s'"
      by auto
  qed (simp add: waits_for_def)
  moreover have "guardE (\<forall>node \<in> set (obj_values (g_nodes g)). \<not> is_disabled node) AssertionError = Inr ()"
    using assms(2) unfolding graph_nodes_def by simp
  ultimately show ?thesis
    unfolding recreateNodeExecutionStack_def waits_for_def by simp
qed

text \<open>C25. In a graph without disabled nodes the stack is rebuilt without an error: start nodes
  without main input get one entry with an empty item, the others one entry per complete
  group, with the items its connections bring and one source per connection; only nodes with
  an incomplete group wait.\<close>

theorem recreateNodeExecutionStack_stack:
  assumes "g_wf g" "\<forall>n \<in> graph_nodes g. \<not> is_disabled n" "set startNodes \<subseteq> graph_nodes g" "runs_typed g runData"
  shows "\<exists>st. recreateNodeExecutionStack localeCompare g startNodes runData pinData = Inr st \<and>
    map view_entry (ss_stack st) = concat (map (expected_entries localeCompare g runData pinData) startNodes) \<and>
    {n. obj_get (ss_waiting st) n \<noteq> None} \<subseteq> (\<Union>n \<in> set startNodes. waiting_names localeCompare g runData pinData n)"
  using assms by (rule recreateNodeExecutionStack_ok)

section \<open>Examples of a rebuilt stack\<close>

definition item_of :: "string \<Rightarrow> item" where
  "item_of s = empty_item\<lparr>item_json := [(s, JNull)]\<rparr>"

definition run_with :: "item list list \<Rightarrow> task_data" where
  "run_with outs = \<lparr>td_startTime = 0, td_executionIndex = None, td_source = [], td_executionTime = 0,
     td_executionStatus = None, td_data = Some [(Main_type, map Val outs)], td_inputOverride = None, td_error = None,
     td_metadata = None\<rparr>"

definition join_graph :: graph where
  "join_graph = \<lparr>g_nodes = [(''r'', nodeR), (''a'', nodeA), (''b'', nodeB)],
     g_conns = [(''r-main-0-0-b'', conn_between nodeR nodeB),
                (''a-main-0-1-b'', (conn_between nodeA nodeB)\<lparr>gc_inputIndex := 1\<rparr>)]\<rparr>"

definition join_runs :: "item list \<Rightarrow> run_data" where
  "join_runs out = [(''r'', [run_with [out]]), (''a'', [run_with [[item_of ''a'']]])]"

lemma join_wf: "g_wf join_graph"
  by code_simp

lemma join_typed: "runs_typed join_graph (join_runs out)"
  unfolding runs_typed_def join_graph_def join_runs_def graph_conns_def run_with_def
  by (auto simp: conn_between_def split: if_splits)

lemma recreateNodeExecutionStack_stack_witness:
  "\<exists>st. recreateNodeExecutionStack (\<lambda>a b. 0) join_graph [nodeB] (join_runs []) [] = Inr st \<and>
    map view_entry (ss_stack st) = concat (map (expected_entries (\<lambda>a b. 0) join_graph (join_runs []) []) [nodeB]) \<and>
    {n. obj_get (ss_waiting st) n \<noteq> None} \<subseteq> (\<Union>n \<in> set [nodeB]. waiting_names (\<lambda>a b. 0) join_graph (join_runs []) [] n)"
  by (rule recreateNodeExecutionStack_stack [OF join_wf _ _ join_typed])
    (auto simp: graph_nodes_def join_graph_def is_disabled_def)

text \<open>A source that ran but gave no items makes the group complete and adds no data, while its
  source is added: the items of the connection at input 1 become the items of input 0.\<close>

lemma rebuilt_data_shifts:
  "map_option (map (\<lambda>e. (ed_data e, map_option (map (\<lambda>(ty, s). (ty, map origin s))) (ed_source e))))
     (case recreateNodeExecutionStack (\<lambda>a b. 0) join_graph [nodeB] (join_runs []) [] of Inr st \<Rightarrow> Some (ss_stack st) | Inl e \<Rightarrow> None) =
   Some [([(Main_type, [Val [item_of ''a'']])],
          Some [(Main_type, [Some (''r'', Some 0), Some (''a'', Some 0)])])]"
  by code_simp

end
