(* ===== verification/Workflow_Walks.thy ===== *)
theory Workflow_Walks
  imports Workflow_Class
begin

text \<open>
  The walks of the class \<^verbatim>\<open>Workflow\<close> over its connection tables: the highest
  parents, the breadth-first search by depth, the connection between a node and a parent,
  the start node, and the connections between two sets of nodes.

  \<^verbatim>\<open>getHighestNode\<close> shares one array of checked nodes with its recursive calls, so
  it returns that array too. The level loop of the breadth-first search takes fuel.
\<close>

text \<open>\<open>connections[name][type]\<close>, or no cells when either is missing.\<close>

definition cells_of :: "connections \<Rightarrow> string \<Rightarrow> string \<Rightarrow> node_input_connections option" where
  "cells_of conns name ty = (case obj_get conns name of None \<Rightarrow> None | Some byType \<Rightarrow> obj_get byType ty)"

section \<open>Highest parents\<close>

definition add_new :: "string list \<Rightarrow> string list \<Rightarrow> string list" where
  "add_new names ret = fold (\<lambda>name r. if name \<in> set r then r else r @ [name]) names ret"

definition own_highest :: "workflow \<Rightarrow> string \<Rightarrow> workflow_error + string list" where
  "own_highest w nodeName = (case obj_get (wf_nodes w) nodeName of
       None \<Rightarrow> Inl PropertyOfUndefined
     | Some node \<Rightarrow> Inr (if node_disabled node = Some False then [nodeName] else []))"

text \<open>The connections the loop looks at: those of every input, or of the one given.\<close>

definition selected_cells :: "nat option \<Rightarrow> node_input_connections \<Rightarrow> connection list" where
  "selected_cells ix inputs = concat (map (\<lambda>(i, c). if ix \<noteq> None \<and> ix \<noteq> Some i then [] else cell c)
     (List.enumerate 0 inputs))"

fun getHighestNodeRecursive ::
  "workflow \<Rightarrow> nat \<Rightarrow> string \<Rightarrow> nat option \<Rightarrow> string list \<Rightarrow> workflow_error + (string list \<times> string list)" where
  "getHighestNodeRecursive w 0 nodeName nodeConnectionIndex checkedNodes = Inl WalkOutOfFuel"
| "getHighestNodeRecursive w (Suc fuel) nodeName nodeConnectionIndex checkedNodes =
     bindE (own_highest w nodeName) (\<lambda>currentHighest.
       case cells_of (wf_connectionsByDestinationNode w) nodeName Main_type of
         None \<Rightarrow> Inr (currentHighest, checkedNodes)
       | Some inputs \<Rightarrow>
           if nodeName \<in> set checkedNodes then Inr (currentHighest, checkedNodes)
           else foldE (\<lambda>c (returnNodes, checkedNodes).
               if conn_node c \<in> set checkedNodes then Inr (returnNodes, checkedNodes)
               else (case obj_get (wf_nodes w) (conn_node c) of
                   None \<Rightarrow> Inr (returnNodes, checkedNodes)
                 | Some parent \<Rightarrow>
                     bindE (getHighestNodeRecursive w fuel (conn_node c) None checkedNodes)
                       (\<lambda>(found, checkedNodes).
                         let addNodes = (if found = [] \<and> \<not> is_disabled parent then [conn_node c] else found)
                         in Inr (add_new addNodes returnNodes, checkedNodes))))
             (selected_cells nodeConnectionIndex inputs) ([], checkedNodes @ [nodeName]))"

definition getHighestNode :: "workflow \<Rightarrow> string \<Rightarrow> nat option \<Rightarrow> workflow_error + string list" where
  "getHighestNode w nodeName nodeConnectionIndex =
     bindE (getHighestNodeRecursive w (Suc (length (wf_connectionsByDestinationNode w))) nodeName nodeConnectionIndex [])
       (\<lambda>r. Inr (fst r))"

section \<open>Nodes by depth\<close>

record connected_node =
  cn_name :: string
  cn_indicies :: "nat list"
  cn_depth :: nat

text \<open>
  One entry of the level: \<open>visited\<close> maps a name to its entry, \<open>order\<close> lists the names
  in the order the entries were returned (the entries returned and the entries visited are
  the same objects), \<open>queue\<close> is the next level.
\<close>

definition visit_entry ::
  "connections \<Rightarrow> string \<Rightarrow> nat \<Rightarrow> connected_node \<Rightarrow>
     (string, connected_node) obj \<times> string list \<times> connected_node list \<Rightarrow>
     (string, connected_node) obj \<times> string list \<times> connected_node list" where
  "visit_entry conns sourceNode depth cur s = (case s of (visited, order, queue) \<Rightarrow>
     (case obj_get visited (cn_name cur) of
        Some v \<Rightarrow> (obj_set (cn_name cur) (v\<lparr>cn_indicies := set_of_list (cn_indicies v @ cn_indicies cur)\<rparr>) visited,
                   order, queue)
      | None \<Rightarrow>
          (obj_set (cn_name cur) cur visited,
           (if cn_name cur \<noteq> sourceNode then order @ [cn_name cur] else order),
           queue @ (case cells_of conns (cn_name cur) Main_type of
               None \<Rightarrow> []
             | Some arr \<Rightarrow> map (\<lambda>c. \<lparr>cn_name = conn_node c, cn_indicies = [conn_index c], cn_depth = depth\<rparr>) (cells arr)))))"

fun bfs_levels ::
  "connections \<Rightarrow> string \<Rightarrow> int \<Rightarrow> nat \<Rightarrow> nat \<Rightarrow>
     (string, connected_node) obj \<times> string list \<times> connected_node list \<Rightarrow>
     workflow_error + ((string, connected_node) obj \<times> string list)" where
  "bfs_levels conns sourceNode maxDepth 0 depth s = Inl WalkOutOfFuel"
| "bfs_levels conns sourceNode maxDepth (Suc fuel) depth (visited, order, queue) =
     (if queue = [] \<or> (maxDepth \<noteq> -1 \<and> int depth > maxDepth) then Inr (visited, order)
      else bfs_levels conns sourceNode maxDepth fuel (Suc depth)
             (fold (visit_entry conns sourceNode (Suc depth)) queue (visited, order, [])))"

definition searchNodesBFS :: "connections \<Rightarrow> string \<Rightarrow> int \<Rightarrow> workflow_error + connected_node list" where
  "searchNodesBFS conns sourceNode maxDepth =
     bindE (bfs_levels conns sourceNode maxDepth (Suc (Suc (Suc (length (entries conns))))) 0
              ([], [], [\<lparr>cn_name = sourceNode, cn_indicies = [], cn_depth = 0\<rparr>]))
       (\<lambda>(visited, order). Inr (List.map_filter (obj_get visited) order))"

definition getParentNodesByDepth :: "workflow \<Rightarrow> string \<Rightarrow> int \<Rightarrow> workflow_error + connected_node list" where
  "getParentNodesByDepth w nodeName maxDepth =
     searchNodesBFS (wf_connectionsByDestinationNode w) nodeName maxDepth"

section \<open>The connection to a parent\<close>

text \<open>The first connection from \<open>parentNodeName\<close> in a row of cells, with its position in
  its cell, and the names to enqueue before it.\<close>

fun scan_connections ::
  "string \<Rightarrow> string list \<Rightarrow> (nat \<times> connection) list \<Rightarrow> string list \<Rightarrow> (nat \<times> nat) option \<times> string list" where
  "scan_connections parentNodeName visited [] queue = (None, queue)"
| "scan_connections parentNodeName visited ((destinationIndex, c) # cs) queue =
     (if parentNodeName = conn_node c then (Some (conn_index c, destinationIndex), queue)
      else if conn_node c \<notin> set visited
        then scan_connections parentNodeName visited cs (queue @ [conn_node c])
      else scan_connections parentNodeName visited cs queue)"

definition numbered_cells :: "node_input_connections \<Rightarrow> (nat \<times> connection) list" where
  "numbered_cells arr = concat (map (\<lambda>c. List.enumerate 0 (cell c)) arr)"

definition cell_list :: "connections \<Rightarrow> string \<Rightarrow> string \<Rightarrow> node_input_connections" where
  "cell_list conns name ty = (case cells_of conns name ty of None \<Rightarrow> [] | Some arr \<Rightarrow> arr)"

fun connection_search ::
  "connections \<Rightarrow> string \<Rightarrow> string \<Rightarrow> nat \<Rightarrow> string list \<Rightarrow> string list \<Rightarrow> workflow_error + (nat \<times> nat) option" where
  "connection_search conns parentNodeName ty 0 queue visited = Inl WalkOutOfFuel"
| "connection_search conns parentNodeName ty (Suc fuel) [] visited = Inr None"
| "connection_search conns parentNodeName ty (Suc fuel) (current # queue) visited =
     (if current \<in> set visited then connection_search conns parentNodeName ty fuel queue visited
      else (case scan_connections parentNodeName (visited @ [current])
                   (numbered_cells (cell_list conns current ty)) queue of
          (Some r, queue') \<Rightarrow> Inr (Some r)
        | (None, queue') \<Rightarrow> connection_search conns parentNodeName ty fuel queue' (visited @ [current])))"

definition search_fuel :: "connections \<Rightarrow> string \<Rightarrow> nat" where
  "search_fuel conns ty = Suc (Suc (sum_list (map (\<lambda>a. length (cells (cell_list conns a ty))) (obj_keys conns))))"

definition getNodeConnectionIndexes ::
  "workflow \<Rightarrow> string \<Rightarrow> string \<Rightarrow> string \<Rightarrow> workflow_error + (nat \<times> nat) option" where
  "getNodeConnectionIndexes w nodeName parentNodeName ty =
     (case getNode w parentNodeName of
        None \<Rightarrow> Inr None
      | Some parent \<Rightarrow> connection_search (wf_connectionsByDestinationNode w) parentNodeName ty
          (search_fuel (wf_connectionsByDestinationNode w) ty) [nodeName] [])"

section \<open>Start nodes\<close>

definition STARTING_NODE_TYPES :: "string list" where
  "STARTING_NODE_TYPES = [''n8n-nodes-base.manualTrigger'', ''n8n-nodes-base.executeWorkflowTrigger'',
     ''n8n-nodes-base.errorTrigger'', ''n8n-nodes-base.evaluationTrigger'', ''n8n-nodes-base.formTrigger'']"

fun indexOf_from :: "nat \<Rightarrow> 'a \<Rightarrow> 'a list \<Rightarrow> int" where
  "indexOf_from i x [] = -1"
| "indexOf_from i x (y # ys) = (if x = y then int i else indexOf_from (Suc i) x ys)"

definition indexOf :: "'a \<Rightarrow> 'a list \<Rightarrow> int" where
  "indexOf x xs = indexOf_from 0 x xs"

fun first_trigger :: "node_types \<Rightarrow> workflow \<Rightarrow> string list \<Rightarrow> workflow_error + inode option" where
  "first_trigger types w [] = Inr None"
| "first_trigger types w (nodeName # names) =
     (case obj_get (wf_nodes w) nodeName of
        None \<Rightarrow> Inl PropertyOfUndefined
      | Some node \<Rightarrow> (case type_of_node types node of
          None \<Rightarrow> Inl PropertyOfUndefined
        | Some nodeType \<Rightarrow>
            if nt_name nodeType = ''@n8n/n8n-nodes-langchain.manualChatTrigger'' then first_trigger types w names
            else if (nt_trigger nodeType \<or> nt_poll nodeType) \<and> \<not> is_disabled node then Inr (Some node)
            else first_trigger types w names))"

definition first_starting_type :: "workflow \<Rightarrow> inode option" where
  "first_starting_type w =
     find (\<lambda>node. node_type node \<in> set STARTING_NODE_TYPES \<and> \<not> is_disabled node)
       (js_sort (\<lambda>a b. indexOf (node_type a) STARTING_NODE_TYPES - indexOf (node_type b) STARTING_NODE_TYPES)
          (obj_values (wf_nodes w)))"

definition getStartNodeOf :: "node_types \<Rightarrow> workflow \<Rightarrow> string list \<Rightarrow> workflow_error + inode option" where
  "getStartNodeOf types w nodeNames =
     (let single = (case nodeNames of
            [n] \<Rightarrow> (case obj_get (wf_nodes w) n of Some node \<Rightarrow> if is_disabled node then None else Some node | None \<Rightarrow> None)
          | _ \<Rightarrow> None)
      in case single of
           Some node \<Rightarrow> Inr (Some node)
         | None \<Rightarrow> bindE (first_trigger types w nodeNames) (\<lambda>t. case t of
               Some node \<Rightarrow> Inr (Some node)
             | None \<Rightarrow> Inr (first_starting_type w)))"

definition getStartNode :: "node_types \<Rightarrow> workflow \<Rightarrow> string option \<Rightarrow> workflow_error + inode option" where
  "getStartNode types w destinationNode =
     (case destinationNode of
        None \<Rightarrow> getStartNodeOf types w (obj_keys (wf_nodes w))
      | Some [] \<Rightarrow> getStartNodeOf types w (obj_keys (wf_nodes w))
      | Some dest \<Rightarrow> bindE (getHighestNode w dest None) (\<lambda>highest.
          let nodeNames = (if highest = [] then [dest] else highest) in
          bindE (getStartNodeOf types w nodeNames) (\<lambda>node. case node of
            Some n \<Rightarrow> Inr (Some n)
          | None \<Rightarrow> Inr (obj_get (wf_nodes w) (hd nodeNames)))))"

section \<open>Connections between nodes\<close>

definition getConnectionsBetweenNodes ::
  "workflow \<Rightarrow> string list \<Rightarrow> string list \<Rightarrow> (connection \<times> connection) list" where
  "getConnectionsBetweenNodes w sources targets =
     concat (map (\<lambda>source.
       concat (map (\<lambda>(ty, arr).
         concat (map (\<lambda>(sourceIndex, c).
           concat (map (\<lambda>target. if conn_node target \<in> set targets
               then [(\<lparr>conn_node = source, conn_type = ty, conn_index = sourceIndex\<rparr>, target)] else [])
             (cell c))) (List.enumerate 0 arr)))
         (case obj_get (wf_connectionsBySourceNode w) source of None \<Rightarrow> [] | Some byType \<Rightarrow> byType)))
       sources)"

end
