(* ===== verification/Workflow_Facts.thy ===== *)
theory Workflow_Facts
  imports Workflow_Walks
begin

text \<open>
  What the operations of the class \<^verbatim>\<open>Workflow\<close> compute: the depths of the
  breadth-first search, the search for a parent, renaming, the two inversions of the
  connection table, static data; then the properties of the class.
\<close>

section \<open>Depths\<close>

definition type_edges :: "connections \<Rightarrow> string \<Rightarrow> (string \<times> string) set" where
  "type_edges conns ty = {(a, conn_node c) | a c. c \<in> set (cells (cell_list conns a ty))}"

lemma cell_list_simps:
  "cells_of conns a ty = None \<Longrightarrow> cell_list conns a ty = []"
  "cells_of conns a ty = Some arr \<Longrightarrow> cell_list conns a ty = arr"
  by (simp_all add: cell_list_def)

lemma in_concat_mapI: "x \<in> set xs \<Longrightarrow> y \<in> set (f x) \<Longrightarrow> y \<in> set (concat (map f xs))"
  by auto

lemma cell_list_entry:
  assumes "c \<in> set (cells (cell_list conns a ty))"
  shows "\<exists>i. (a, ty, i, c) \<in> set (entries conns)"
proof -
  obtain byType where b: "map_of conns a = Some byType"
    using assms by (cases "map_of conns a") (auto simp: cell_list_def cells_of_def)
  moreover obtain arr where arr: "map_of byType ty = Some arr"
    using assms b by (cases "map_of byType ty") (auto simp: cell_list_def cells_of_def)
  ultimately have "c \<in> set (cells arr)" using assms by (simp add: cell_list_def cells_of_def)
  then obtain cs where cs: "Some cs \<in> set arr" "c \<in> set cs" by (auto simp: in_cells_iff)
  then obtain i where i: "i < length arr" "arr ! i = Some cs" by (auto simp: in_set_conv_nth)
  then have "(i, Some cs) \<in> set (List.enumerate 0 arr)" by (auto simp: in_set_enumerate_eq)
  moreover have "(a, byType) \<in> set conns" "(ty, arr) \<in> set byType" using b arr by (auto dest: map_of_SomeD)
  ultimately have "(a, ty, i, c) \<in> set (concat (map (\<lambda>(i, c). map (\<lambda>info. (a, ty, i, info)) (cell c)) (List.enumerate 0 arr)))"
    using cs(2) by (intro in_concat_mapI [of "(i, Some cs)"]) simp_all
  then have "(a, ty, i, c) \<in> set (concat (map (\<lambda>(ty, arr). concat (map (\<lambda>(i, c).
      map (\<lambda>info. (a, ty, i, info)) (cell c)) (List.enumerate 0 arr))) byType))"
    by (intro in_concat_mapI [of "(ty, arr)"] map_of_SomeD [OF arr]) simp
  then have "(a, ty, i, c) \<in> set (entries conns)"
    unfolding entries_def by (intro in_concat_mapI [of "(a, byType)"] map_of_SomeD [OF b]) simp
  then show ?thesis by blast
qed

definition edge_targets :: "connections \<Rightarrow> string set" where
  "edge_targets conns = conn_node ` (\<lambda>(a, ty, i, c). c) ` set (entries conns)"

lemma edge_targets_card: "card (edge_targets conns) \<le> length (entries conns)"
proof -
  have "card (edge_targets conns) \<le> card (set (entries conns))"
    unfolding edge_targets_def by (intro order_trans [OF card_image_le card_image_le]) auto
  also have "\<dots> \<le> length (entries conns)" by (rule card_length)
  finally show ?thesis .
qed

lemma edge_targets_finite [simp]: "finite (edge_targets conns)"
  by (simp add: edge_targets_def)

lemma type_edges_target: "(a, b) \<in> type_edges conns ty \<Longrightarrow> b \<in> edge_targets conns"
  by (force simp: type_edges_def edge_targets_def dest: cell_list_entry)

text \<open>\<open>m\<close> is at distance \<open>d\<close> from \<open>s\<close>.\<close>

definition at_distance :: "('a \<times> 'a) set \<Rightarrow> 'a \<Rightarrow> 'a \<Rightarrow> nat \<Rightarrow> bool" where
  "at_distance R s m d \<longleftrightarrow> (s, m) \<in> R ^^ d \<and> (\<forall>k < d. (s, m) \<notin> R ^^ k)"

definition closer_than :: "('a \<times> 'a) set \<Rightarrow> 'a \<Rightarrow> nat \<Rightarrow> 'a set" where
  "closer_than R s d = {m. \<exists>k < d. (s, m) \<in> R ^^ k}"

lemma closer_than_0 [simp]: "closer_than R s 0 = {}"
  by (simp add: closer_than_def)

lemma closer_than_Suc: "closer_than R s (Suc d) = closer_than R s d \<union> {m. at_distance R s m d}"
  by (auto simp: closer_than_def at_distance_def less_Suc_eq)

lemma at_distance_unique: "at_distance R s m d \<Longrightarrow> at_distance R s m e \<Longrightarrow> d = e"
  by (metis at_distance_def linorder_neqE_nat)

lemma at_distance_Suc:
  "at_distance R s m (Suc d) \<longleftrightarrow> m \<notin> closer_than R s (Suc d) \<and> (\<exists>x. at_distance R s x d \<and> (x, m) \<in> R)"
proof
  assume a: "at_distance R s m (Suc d)"
  then obtain x where x: "(s, x) \<in> R ^^ d" "(x, m) \<in> R" by (auto simp: at_distance_def)
  have "(s, x) \<notin> R ^^ k" if "k < d" for k
  proof
    assume "(s, x) \<in> R ^^ k"
    with x(2) have "(s, m) \<in> R ^^ Suc k" by auto
    moreover have "Suc k < Suc d" using that by simp
    ultimately show False using a unfolding at_distance_def by blast
  qed
  with a x show "m \<notin> closer_than R s (Suc d) \<and> (\<exists>x. at_distance R s x d \<and> (x, m) \<in> R)"
    by (auto simp: at_distance_def closer_than_def)
next
  assume "m \<notin> closer_than R s (Suc d) \<and> (\<exists>x. at_distance R s x d \<and> (x, m) \<in> R)"
  then show "at_distance R s m (Suc d)" by (auto simp: at_distance_def closer_than_def)
qed

text \<open>The state between two levels.\<close>

definition level_ok ::
  "connections \<Rightarrow> string \<Rightarrow> nat \<Rightarrow> (string, connected_node) obj \<times> string list \<times> connected_node list \<Rightarrow> bool" where
  "level_ok conns s d st = (case st of (visited, order, queue) \<Rightarrow>
     (\<forall>m. map_of visited m \<noteq> None \<longleftrightarrow> m \<in> closer_than (type_edges conns Main_type) s d) \<and>
     (\<forall>m v. map_of visited m = Some v \<longrightarrow> cn_name v = m \<and> at_distance (type_edges conns Main_type) s m (cn_depth v)) \<and>
     distinct order \<and> set order = {m. map_of visited m \<noteq> None} - {s} \<and>
     (\<forall>e \<in> set queue. cn_depth e = d) \<and>
     (if d = 0 then cn_name ` set queue = {s}
      else cn_name ` set queue = {m. \<exists>x. at_distance (type_edges conns Main_type) s x (d - 1) \<and> (x, m) \<in> type_edges conns Main_type}))"

lemma successors_insert:
  assumes "N e"
  shows "A \<union> {m. (e, m) \<in> R} \<union> {m. \<exists>x \<in> S. (x \<noteq> e \<and> N x) \<and> (x, m) \<in> R} =
    A \<union> {m. \<exists>x \<in> insert e S. N x \<and> (x, m) \<in> R}"
proof (intro set_eqI iffI)
  fix m assume "m \<in> A \<union> {m. \<exists>x \<in> insert e S. N x \<and> (x, m) \<in> R}"
  then show "m \<in> A \<union> {m. (e, m) \<in> R} \<union> {m. \<exists>x \<in> S. (x \<noteq> e \<and> N x) \<and> (x, m) \<in> R}"
    by (cases "(e, m) \<in> R") auto
qed (use assms in auto)

lemma visit_entry_queue:
  fixes conns :: connections
  assumes "\<forall>e \<in> set q. cn_depth e = d"
  defines "R \<equiv> type_edges conns Main_type"
  shows "case fold (visit_entry conns s (Suc d)) q (visited, order, acc) of (visited', order', acc') \<Rightarrow>
    (\<forall>m. map_of visited' m \<noteq> None \<longleftrightarrow> map_of visited m \<noteq> None \<or> m \<in> cn_name ` set q) \<and>
    ((\<forall>m v. map_of visited m = Some v \<longrightarrow> cn_name v = m) \<longrightarrow>
     (\<forall>m v. map_of visited' m = Some v \<longrightarrow> cn_name v = m \<and>
        (case map_of visited m of Some u \<Rightarrow> cn_depth v = cn_depth u | None \<Rightarrow> cn_depth v = d))) \<and>
    (distinct order \<and> set order = {m. map_of visited m \<noteq> None} - {s} \<longrightarrow>
     distinct order' \<and> set order' = {m. map_of visited' m \<noteq> None} - {s}) \<and>
    ((\<forall>e \<in> set acc. cn_depth e = Suc d) \<longrightarrow> (\<forall>e \<in> set acc'. cn_depth e = Suc d)) \<and>
    cn_name ` set acc' = cn_name ` set acc \<union> {m. \<exists>x \<in> cn_name ` set q. map_of visited x = None \<and> (x, m) \<in> R}"
  using assms(1)
proof (induction q arbitrary: visited order acc)
  case Nil
  then show ?case by (auto split: option.splits)
next
  case (Cons e q)
  show ?case
  proof (cases "map_of visited (cn_name e)")
    case (Some v)
    let ?v = "obj_set (cn_name e) (v\<lparr>cn_indicies := set_of_list (cn_indicies v @ cn_indicies e)\<rparr>) visited"
    have step: "visit_entry conns s (Suc d) e (visited, order, acc) = (?v, order, acc)"
      using Some by (simp add: visit_entry_def)
    have dom: "map_of ?v m \<noteq> None \<longleftrightarrow> map_of visited m \<noteq> None" for m using Some by auto
    have IH: "case fold (visit_entry conns s (Suc d)) q (?v, order, acc) of (visited', order', acc') \<Rightarrow>
      (\<forall>m. map_of visited' m \<noteq> None \<longleftrightarrow> map_of ?v m \<noteq> None \<or> m \<in> cn_name ` set q) \<and>
      ((\<forall>m w. map_of ?v m = Some w \<longrightarrow> cn_name w = m) \<longrightarrow>
       (\<forall>m w. map_of visited' m = Some w \<longrightarrow> cn_name w = m \<and>
        (case map_of ?v m of Some u \<Rightarrow> cn_depth w = cn_depth u | None \<Rightarrow> cn_depth w = d))) \<and>
      (distinct order \<and> set order = {m. map_of ?v m \<noteq> None} - {s} \<longrightarrow>
       distinct order' \<and> set order' = {m. map_of visited' m \<noteq> None} - {s}) \<and>
      ((\<forall>e \<in> set acc. cn_depth e = Suc d) \<longrightarrow> (\<forall>e \<in> set acc'. cn_depth e = Suc d)) \<and>
      cn_name ` set acc' = cn_name ` set acc \<union> {m. \<exists>x \<in> cn_name ` set q. map_of ?v x = None \<and> (x, m) \<in> R}"
      by (rule Cons.IH) (use Cons.prems in simp)
    obtain V O' A where res: "fold (visit_entry conns s (Suc d)) q (?v, order, acc) = (V, O', A)" by (rule prod_cases3)
    note IH = IH [unfolded res prod.case dom]
    note IH1 = conjunct1 [OF IH] and IH2 = conjunct1 [OF conjunct2 [OF IH]]
      and IH3 = conjunct1 [OF conjunct2 [OF conjunct2 [OF IH]]]
      and IH4 = conjunct1 [OF conjunct2 [OF conjunct2 [OF conjunct2 [OF IH]]]]
      and IH5 = conjunct2 [OF conjunct2 [OF conjunct2 [OF conjunct2 [OF IH]]]]
    have names: "(\<forall>m w. map_of ?v m = Some w \<longrightarrow> cn_name w = m)" if "\<forall>m w. map_of visited m = Some w \<longrightarrow> cn_name w = m"
      using that Some by auto
    have depth: "(case map_of ?v m of Some u \<Rightarrow> k = cn_depth u | None \<Rightarrow> k = d) \<longleftrightarrow>
        (case map_of visited m of Some u \<Rightarrow> k = cn_depth u | None \<Rightarrow> k = d)" for m k
      using Some by auto
    have none: "map_of ?v x = None \<longleftrightarrow> map_of visited x = None" for x using Some by auto
    show ?thesis
      unfolding fold_simps step res prod.case
    proof (intro conjI impI)
      show "\<forall>m. map_of V m \<noteq> None \<longleftrightarrow> map_of visited m \<noteq> None \<or> m \<in> cn_name ` set (e # q)"
        using IH1 Some by (metis image_insert insert_iff list.set(2) option.distinct(1))
    next
      assume "\<forall>m v. map_of visited m = Some v \<longrightarrow> cn_name v = m"
      from mp [OF IH2 names [OF this]]
      show "\<forall>m v. map_of V m = Some v \<longrightarrow> cn_name v = m \<and>
        (case map_of visited m of Some u \<Rightarrow> cn_depth v = cn_depth u | None \<Rightarrow> cn_depth v = d)"
        unfolding depth .
    next
      assume "distinct order \<and> set order = {m. map_of visited m \<noteq> None} - {s}"
      from mp [OF IH3 this] show "distinct O'" "set O' = {m. map_of V m \<noteq> None} - {s}" by simp_all
    next
      assume "\<forall>e \<in> set acc. cn_depth e = Suc d"
      from mp [OF IH4 this] show "\<forall>e \<in> set A. cn_depth e = Suc d" .
    next
      have "cn_name ` set A = cn_name ` set acc \<union> {m. \<exists>x \<in> cn_name ` set q. map_of visited x = None \<and> (x, m) \<in> R}"
        using IH5 unfolding none .
      then show "cn_name ` set A = cn_name ` set acc \<union> {m. \<exists>x \<in> cn_name ` set (e # q). map_of visited x = None \<and> (x, m) \<in> R}"
        using Some by auto
    qed
  next
    case None
    let ?succ = "case cells_of conns (cn_name e) Main_type of None \<Rightarrow> []
       | Some arr \<Rightarrow> map (\<lambda>c. \<lparr>cn_name = conn_node c, cn_indicies = [conn_index c], cn_depth = Suc d\<rparr>) (cells arr)"
    let ?v = "obj_set (cn_name e) e visited" and ?o = "if cn_name e \<noteq> s then order @ [cn_name e] else order"
    have step: "visit_entry conns s (Suc d) e (visited, order, acc) = (?v, ?o, acc @ ?succ)"
      using None by (simp add: visit_entry_def)
    have succ: "cn_name ` set ?succ = {m. (cn_name e, m) \<in> R}" "\<forall>x \<in> set ?succ. cn_depth x = Suc d"
      by (cases "cells_of conns (cn_name e) Main_type"; force simp: R_def type_edges_def cell_list_simps)+
    have IH: "case fold (visit_entry conns s (Suc d)) q (?v, ?o, acc @ ?succ) of (visited', order', acc') \<Rightarrow>
      (\<forall>m. map_of visited' m \<noteq> None \<longleftrightarrow> map_of ?v m \<noteq> None \<or> m \<in> cn_name ` set q) \<and>
      ((\<forall>m w. map_of ?v m = Some w \<longrightarrow> cn_name w = m) \<longrightarrow>
       (\<forall>m w. map_of visited' m = Some w \<longrightarrow> cn_name w = m \<and>
        (case map_of ?v m of Some u \<Rightarrow> cn_depth w = cn_depth u | None \<Rightarrow> cn_depth w = d))) \<and>
      (distinct ?o \<and> set ?o = {m. map_of ?v m \<noteq> None} - {s} \<longrightarrow>
       distinct order' \<and> set order' = {m. map_of visited' m \<noteq> None} - {s}) \<and>
      ((\<forall>e \<in> set (acc @ ?succ). cn_depth e = Suc d) \<longrightarrow> (\<forall>e \<in> set acc'. cn_depth e = Suc d)) \<and>
      cn_name ` set acc' = cn_name ` set (acc @ ?succ) \<union> {m. \<exists>x \<in> cn_name ` set q. map_of ?v x = None \<and> (x, m) \<in> R}"
      by (rule Cons.IH) (use Cons.prems in simp)
    obtain V O' A where res: "fold (visit_entry conns s (Suc d)) q (?v, ?o, acc @ ?succ) = (V, O', A)" by (rule prod_cases3)
    note IH = IH [unfolded res prod.case]
    note IH1 = conjunct1 [OF IH] and IH2 = conjunct1 [OF conjunct2 [OF IH]]
      and IH3 = conjunct1 [OF conjunct2 [OF conjunct2 [OF IH]]]
      and IH4 = conjunct1 [OF conjunct2 [OF conjunct2 [OF conjunct2 [OF IH]]]]
      and IH5 = conjunct2 [OF conjunct2 [OF conjunct2 [OF conjunct2 [OF IH]]]]
    show ?thesis
      unfolding fold_simps step res prod.case
    proof (intro conjI impI)
      show "\<forall>m. map_of V m \<noteq> None \<longleftrightarrow> map_of visited m \<noteq> None \<or> m \<in> cn_name ` set (e # q)"
        using IH1 by simp
    next
      assume n: "\<forall>m v. map_of visited m = Some v \<longrightarrow> cn_name v = m"
      then have "\<forall>m w. map_of ?v m = Some w \<longrightarrow> cn_name w = m" by auto
      from mp [OF IH2 this] have V: "\<forall>m w. map_of V m = Some w \<longrightarrow> cn_name w = m \<and>
        (case map_of ?v m of Some u \<Rightarrow> cn_depth w = cn_depth u | None \<Rightarrow> cn_depth w = d)" .
      have e: "cn_depth e = d" using Cons.prems by simp
      show "\<forall>m v. map_of V m = Some v \<longrightarrow> cn_name v = m \<and>
        (case map_of visited m of Some u \<Rightarrow> cn_depth v = cn_depth u | None \<Rightarrow> cn_depth v = d)"
      proof (intro allI impI)
        fix m v assume "map_of V m = Some v"
        with V have "cn_name v = m \<and> (case map_of ?v m of Some u \<Rightarrow> cn_depth v = cn_depth u | None \<Rightarrow> cn_depth v = d)" by blast
        then show "cn_name v = m \<and> (case map_of visited m of Some u \<Rightarrow> cn_depth v = cn_depth u | None \<Rightarrow> cn_depth v = d)"
          using e None by (cases "m = cn_name e") auto
      qed
    next
      assume o: "distinct order \<and> set order = {m. map_of visited m \<noteq> None} - {s}"
      have "distinct ?o \<and> set ?o = {m. map_of ?v m \<noteq> None} - {s}" using o None by auto
      from mp [OF IH3 this] show "distinct O'" "set O' = {m. map_of V m \<noteq> None} - {s}" by simp_all
    next
      assume "\<forall>e \<in> set acc. cn_depth e = Suc d"
      with succ(2) have "\<forall>e \<in> set (acc @ ?succ). cn_depth e = Suc d" by auto
      from mp [OF IH4 this] show "\<forall>e \<in> set A. cn_depth e = Suc d" .
    next
      have "cn_name ` set A = cn_name ` set acc \<union> {m. (cn_name e, m) \<in> R} \<union>
          {m. \<exists>x \<in> cn_name ` set q. map_of ?v x = None \<and> (x, m) \<in> R}"
        using IH5 succ(1) by (simp add: image_Un)
      also have "\<dots> = cn_name ` set acc \<union> {m. \<exists>x \<in> cn_name ` set (e # q). map_of visited x = None \<and> (x, m) \<in> R}"
      proof -
        have nv: "map_of ?v x = None \<longleftrightarrow> x \<noteq> cn_name e \<and> map_of visited x = None" for x by simp
        show ?thesis unfolding nv list.set(2) image_insert by (rule successors_insert) (rule None)
      qed
      finally show "cn_name ` set A = cn_name ` set acc \<union> {m. \<exists>x \<in> cn_name ` set (e # q). map_of visited x = None \<and> (x, m) \<in> R}" .
    qed
  qed
qed

lemma level_step:
  assumes ok: "level_ok conns s d (visited, order, queue)"
  shows "level_ok conns s (Suc d) (fold (visit_entry conns s (Suc d)) queue (visited, order, []))"
proof -
  let ?R = "type_edges conns Main_type"
  from ok have
    dom: "\<And>m. map_of visited m \<noteq> None \<longleftrightarrow> m \<in> closer_than ?R s d" and
    vis: "\<And>m v. map_of visited m = Some v \<Longrightarrow> cn_name v = m \<and> at_distance ?R s m (cn_depth v)" and
    ord: "distinct order \<and> set order = {m. map_of visited m \<noteq> None} - {s}" and
    dep: "\<forall>e \<in> set queue. cn_depth e = d" and
    que: "if d = 0 then cn_name ` set queue = {s}
      else cn_name ` set queue = {m. \<exists>x. at_distance ?R s x (d - 1) \<and> (x, m) \<in> ?R}"
    unfolding level_ok_def prod.case by blast+
  have new: "m \<in> cn_name ` set queue \<and> m \<notin> closer_than ?R s d \<longleftrightarrow> at_distance ?R s m d" for m
  proof (cases d)
    case 0
    then show ?thesis using que by (auto simp: at_distance_def)
  next
    case (Suc k)
    then show ?thesis using que at_distance_Suc [of ?R s m k] by auto
  qed
  obtain V O' A where res: "fold (visit_entry conns s (Suc d)) queue (visited, order, []) = (V, O', A)" by (rule prod_cases3)
  note Q = visit_entry_queue [where conns = conns and s = s and visited = visited and order = order and acc = "[]", OF dep, unfolded res prod.case]
  note Q1 = conjunct1 [OF Q] and Q2 = conjunct1 [OF conjunct2 [OF Q]]
      and Q3 = conjunct1 [OF conjunct2 [OF conjunct2 [OF Q]]]
      and Q4 = conjunct1 [OF conjunct2 [OF conjunct2 [OF conjunct2 [OF Q]]]]
      and Q5 = conjunct2 [OF conjunct2 [OF conjunct2 [OF conjunct2 [OF Q]]]]
  have domV: "map_of V m \<noteq> None \<longleftrightarrow> m \<in> closer_than ?R s (Suc d)" for m
    unfolding Q1 [rule_format] closer_than_Suc dom using new [of m] by blast
  have Q2': "\<forall>m v. map_of V m = Some v \<longrightarrow> cn_name v = m \<and>
        (case map_of visited m of Some u \<Rightarrow> cn_depth v = cn_depth u | None \<Rightarrow> cn_depth v = d)"
    by (rule mp [OF Q2]) (use vis in blast)
  have visV: "cn_name v = m \<and> at_distance ?R s m (cn_depth v)" if v: "map_of V m = Some v" for m v
  proof (cases "map_of visited m")
    case None
    then have "m \<notin> closer_than ?R s d" using dom by blast
    moreover have "m \<in> closer_than ?R s (Suc d)" using v domV by blast
    ultimately have "at_distance ?R s m d" by (simp add: closer_than_Suc)
    with Q2' [rule_format, OF v] None show ?thesis by simp
  next
    case (Some u)
    with Q2' [rule_format, OF v] vis [OF Some] show ?thesis by simp
  qed
  have queV: "cn_name ` set A = {m. \<exists>x. at_distance ?R s x d \<and> (x, m) \<in> ?R}"
  proof -
    have "x \<in> cn_name ` set queue \<and> map_of visited x = None \<longleftrightarrow> at_distance ?R s x d" for x
      using new [of x] dom [of x] by blast
    then have "{m. \<exists>x \<in> cn_name ` set queue. map_of visited x = None \<and> (x, m) \<in> ?R} =
        {m. \<exists>x. at_distance ?R s x d \<and> (x, m) \<in> ?R}" by blast
    with Q5 show ?thesis unfolding list.set(1) image_empty Un_empty_left by (rule trans)
  qed
  show ?thesis
    unfolding res level_ok_def prod.case
  proof (intro conjI)
    show "\<forall>m. map_of V m \<noteq> None \<longleftrightarrow> m \<in> closer_than ?R s (Suc d)" using domV by blast
    show "\<forall>m v. map_of V m = Some v \<longrightarrow> cn_name v = m \<and> at_distance ?R s m (cn_depth v)" using visV by blast
    show "distinct O'" "set O' = {m. map_of V m \<noteq> None} - {s}" using mp [OF Q3 ord] by simp_all
    show "\<forall>e \<in> set A. cn_depth e = Suc d" by (rule mp [OF Q4]) simp
    show "if Suc d = 0 then cn_name ` set A = {s}
      else cn_name ` set A = {m. \<exists>x. at_distance ?R s x (Suc d - 1) \<and> (x, m) \<in> ?R}" using queV by simp
  qed
qed

lemma bfs_levels_ok:
  assumes "level_ok conns s d (visited, order, queue)" "maxDepth = -1 \<or> int d \<le> maxDepth + 1"
    and "card (insert s (edge_targets conns) - closer_than (type_edges conns Main_type) s d) + 2 \<le> fuel \<or> (queue = [] \<and> 1 \<le> fuel)"
  shows "\<exists>V O' D Q. bfs_levels conns s maxDepth fuel d (visited, order, queue) = Inr (V, O') \<and>
    level_ok conns s D (V, O', Q) \<and> (Q = [] \<or> maxDepth \<noteq> -1 \<and> int D = maxDepth + 1) \<and>
    (maxDepth = -1 \<or> int D \<le> maxDepth + 1)"
  using assms
proof (induction fuel arbitrary: d visited order queue)
  case 0
  then show ?case by simp
next
  case (Suc fuel)
  let ?R = "type_edges conns Main_type" and ?U = "insert s (edge_targets conns)"
  show ?case
  proof (cases "queue = [] \<or> (maxDepth \<noteq> -1 \<and> int d > maxDepth)")
    case True
    moreover have "queue = [] \<or> maxDepth \<noteq> -1 \<and> int d = maxDepth + 1" using True Suc.prems(2) by auto
    ultimately show ?thesis using Suc.prems(1,2) by auto
  next
    case False
    obtain V O' A where res: "fold (visit_entry conns s (Suc d)) queue (visited, order, []) = (V, O', A)" by (rule prod_cases3)
    have ok: "level_ok conns s (Suc d) (V, O', A)" using level_step [OF Suc.prems(1)] unfolding res .
    have fuel: "card (?U - closer_than ?R s d) + 2 \<le> Suc fuel" using Suc.prems(3) False by simp
    have "card (?U - closer_than ?R s (Suc d)) + 2 \<le> fuel \<or> (A = [] \<and> 1 \<le> fuel)"
    proof (cases "{m. at_distance ?R s m d} = {}")
      case True
      then have "cn_name ` set A = {}" using ok by (auto simp: level_ok_def)
      with fuel show ?thesis by simp
    next
      case False
      then obtain m where m: "at_distance ?R s m d" by blast
      have "m \<in> ?U"
      proof (cases d)
        case 0
        with m show ?thesis by (simp add: at_distance_def)
      next
        case (Suc k)
        with m at_distance_Suc show ?thesis by (metis insertCI type_edges_target)
      qed
      moreover have "m \<notin> closer_than ?R s d" using m by (auto simp: at_distance_def closer_than_def)
      ultimately have "?U - closer_than ?R s (Suc d) \<subset> ?U - closer_than ?R s d"
        using m unfolding closer_than_Suc by blast
      then have "card (?U - closer_than ?R s (Suc d)) < card (?U - closer_than ?R s d)"
        by (intro psubset_card_mono) simp_all
      with fuel show ?thesis by simp
    qed
    moreover have "maxDepth = -1 \<or> int (Suc d) \<le> maxDepth + 1" using False by auto
    ultimately have "\<exists>V' O2 D Q. bfs_levels conns s maxDepth fuel (Suc d) (V, O', A) = Inr (V', O2) \<and>
      level_ok conns s D (V', O2, Q) \<and> (Q = [] \<or> maxDepth \<noteq> -1 \<and> int D = maxDepth + 1) \<and>
      (maxDepth = -1 \<or> int D \<le> maxDepth + 1)"
      by (intro Suc.IH [OF ok]) simp_all
    then show ?thesis unfolding bfs_levels.simps if_not_P [OF False] res .
  qed
qed

lemma level_queue_empty:
  assumes "level_ok conns s d (visited, order, [])" "at_distance (type_edges conns Main_type) s m e"
  shows "e < d"
proof -
  let ?R = "type_edges conns Main_type"
  have d: "d \<noteq> 0" using assms(1) by (auto simp: level_ok_def)
  then obtain k where k: "d = Suc k" by (cases d) auto
  have none: "\<not> (at_distance ?R s x k \<and> (x, y) \<in> ?R)" for x y using assms(1) by (auto simp: level_ok_def k)
  have "\<not> at_distance ?R s y (d + j)" for j y
  proof (induction j arbitrary: y)
    case 0
    then show ?case using none at_distance_Suc [of ?R s y k] by (auto simp: k)
  next
    case (Suc j)
    then show ?case using at_distance_Suc [of ?R s y "d + j"] by auto
  qed
  with assms(2) show ?thesis by (metis le_add_diff_inverse not_le_imp_less)
qed

lemma map_filter_all: "(\<And>x. x \<in> set xs \<Longrightarrow> f x = Some (g x)) \<Longrightarrow> List.map_filter f xs = map g xs"
  by (induction xs) (auto simp: List.map_filter_simps)

lemma searchNodesBFS_ok:
  assumes "-1 \<le> maxDepth"
  shows "\<exists>L. searchNodesBFS conns s maxDepth = Inr L \<and> distinct (map cn_name L) \<and>
    (\<forall>m d. (\<exists>e \<in> set L. cn_name e = m \<and> cn_depth e = d) \<longleftrightarrow>
       m \<noteq> s \<and> at_distance (type_edges conns Main_type) s m d \<and> (maxDepth = -1 \<or> int d \<le> maxDepth))"
proof -
  let ?R = "type_edges conns Main_type"
  have init: "level_ok conns s 0 ([], [], [\<lparr>cn_name = s, cn_indicies = [], cn_depth = 0\<rparr>])"
    by (simp add: level_ok_def)
  have "card (insert s (edge_targets conns) - closer_than ?R s 0) \<le> Suc (length (entries conns))"
    using edge_targets_card [of conns] by (simp add: card_insert_if)
  then have fuel: "card (insert s (edge_targets conns) - closer_than ?R s 0) + 2 \<le> Suc (Suc (Suc (length (entries conns))))" by simp
  from bfs_levels_ok [OF init _ disjI1 [OF fuel], of maxDepth] assms obtain V O' D Q where r:
    "bfs_levels conns s maxDepth (Suc (Suc (Suc (length (entries conns))))) 0 ([], [], [\<lparr>cn_name = s, cn_indicies = [], cn_depth = 0\<rparr>]) = Inr (V, O')"
    "level_ok conns s D (V, O', Q)" "Q = [] \<or> maxDepth \<noteq> -1 \<and> int D = maxDepth + 1"
    "maxDepth = -1 \<or> int D \<le> maxDepth + 1" by auto
  from r(2) have dom: "\<And>m. map_of V m \<noteq> None \<longleftrightarrow> m \<in> closer_than ?R s D"
    and vis: "\<And>m v. map_of V m = Some v \<Longrightarrow> cn_name v = m \<and> at_distance ?R s m (cn_depth v)"
    and ord: "distinct O'" "set O' = {m. map_of V m \<noteq> None} - {s}"
    unfolding level_ok_def prod.case by blast+
  define L where "L = map (\<lambda>m. the (map_of V m)) O'"
  have L: "List.map_filter (map_of V) O' = L"
    unfolding L_def by (rule map_filter_all) (use ord(2) in auto)
  have the: "cn_name (the (map_of V m)) = m \<and> at_distance ?R s m (cn_depth (the (map_of V m)))" if "m \<in> set O'" for m
    using that ord(2) vis [of m] by auto
  have names: "map cn_name L = O'" unfolding L_def using the by (simp add: map_idI)
  have "(\<exists>e \<in> set L. cn_name e = m \<and> cn_depth e = d) \<longleftrightarrow> m \<in> set O' \<and> at_distance ?R s m d" for m d
  proof -
    have "(\<exists>e \<in> set L. cn_name e = m \<and> cn_depth e = d) \<longleftrightarrow> m \<in> set O' \<and> cn_depth (the (map_of V m)) = d"
      unfolding L_def using the by auto
    moreover have "cn_depth (the (map_of V m)) = d \<longleftrightarrow> at_distance ?R s m d" if "m \<in> set O'"
      using the [OF that] at_distance_unique [of ?R s m] by blast
    ultimately show ?thesis by blast
  qed
  moreover have "m \<in> set O' \<and> at_distance ?R s m d \<longleftrightarrow>
      m \<noteq> s \<and> at_distance ?R s m d \<and> (maxDepth = -1 \<or> int d \<le> maxDepth)" for m d
  proof -
    have "m \<in> closer_than ?R s D \<longleftrightarrow> d < D" if "at_distance ?R s m d"
    proof
      assume "m \<in> closer_than ?R s D"
      then obtain k where "k < D" "(s, m) \<in> ?R ^^ k" by (auto simp: closer_than_def)
      moreover have "\<not> k < d" using that calculation(2) by (auto simp: at_distance_def)
      ultimately show "d < D" by simp
    next
      assume "d < D"
      with that show "m \<in> closer_than ?R s D" by (auto simp: at_distance_def closer_than_def)
    qed
    moreover have "d < D \<longleftrightarrow> (maxDepth = -1 \<or> int d \<le> maxDepth)" if "at_distance ?R s m d"
    proof (cases "Q = []")
      case True
      then have "d < D" using level_queue_empty [OF r(2) [unfolded True] that] by simp
      then show ?thesis using r(4) by auto
    next
      case False
      with r(3) show ?thesis by auto
    qed
    ultimately show ?thesis unfolding ord(2) using dom [of m] by blast
  qed
  ultimately show ?thesis
    using r(1) ord(1) names by (simp add: searchNodesBFS_def L)
qed

section \<open>The search for a parent\<close>

lemma find_SomeD: "find P xs = Some x \<Longrightarrow> x \<in> set xs \<and> P x"
  by (induction xs) (auto split: if_splits)

lemma scan_connections_found:
  "find (\<lambda>(i, c). conn_node c = p) ncs = Some (i, c) \<Longrightarrow>
     \<exists>q. scan_connections p visited ncs queue = (Some (conn_index c, i), q)"
  by (induction ncs arbitrary: queue) (auto split: if_splits)

lemma scan_connections_none:
  "find (\<lambda>(i, c). conn_node c = p) ncs = None \<Longrightarrow>
     scan_connections p visited ncs queue =
       (None, queue @ filter (\<lambda>n. n \<notin> set visited) (map (\<lambda>(i, c). conn_node c) ncs))"
  by (induction ncs arbitrary: queue) (auto split: if_splits)

lemma numbered_cells_nodes: "map (\<lambda>(i, c). conn_node c) (numbered_cells arr) = map conn_node (cells arr)"
proof -
  have one: "map (\<lambda>(i, c). conn_node c) (List.enumerate k cs) = map conn_node cs" for k cs
    by (induction cs arbitrary: k) auto
  show ?thesis by (induction arr) (simp_all add: numbered_cells_def one)
qed

definition unseen_work :: "connections \<Rightarrow> string \<Rightarrow> string list \<Rightarrow> nat" where
  "unseen_work conns ty visited =
     sum_list (map (\<lambda>a. length (cells (cell_list conns a ty))) (filter (\<lambda>a. a \<notin> set visited) (obj_keys conns)))"

lemma unseen_work_visit:
  assumes "a \<notin> set visited"
  shows "unseen_work conns ty (visited @ [a]) + length (cells (cell_list conns a ty)) \<le> unseen_work conns ty visited"
proof (cases "a \<in> set (obj_keys conns)")
  case True
  have "sum_list (map f (filter (\<lambda>x. x \<notin> set (visited @ [a])) ks)) + f a \<le> sum_list (map f (filter (\<lambda>x. x \<notin> set visited) ks))"
    if "a \<in> set ks" for f :: "string \<Rightarrow> nat" and ks
    using that
  proof (induction ks)
    case (Cons k ks)
    have le: "sum_list (map f (filter (\<lambda>x. x \<notin> set (visited @ [a])) ks)) \<le> sum_list (map f (filter (\<lambda>x. x \<notin> set visited) ks))"
      by (induction ks) auto
    show ?case
    proof (cases "a \<in> set ks")
      case True
      with Cons.IH show ?thesis by auto
    next
      case False
      with Cons.prems have "k = a" by auto
      with le assms show ?thesis by simp
    qed
  qed simp
  from this [OF True] show ?thesis by (simp add: unseen_work_def)
next
  case False
  then have "map_of conns a = None" by (simp add: map_of_eq_None_iff)
  then have "cells (cell_list conns a ty) = []" by (simp add: cell_list_def cells_of_def)
  moreover have "unseen_work conns ty (visited @ [a]) = unseen_work conns ty visited"
  proof -
    have "filter (\<lambda>x. x \<notin> set (visited @ [a])) (obj_keys conns) = filter (\<lambda>x. x \<notin> set visited) (obj_keys conns)"
      by (rule filter_cong) (use False in auto)
    then show ?thesis by (simp add: unseen_work_def)
  qed
  ultimately show ?thesis by simp
qed

lemma connection_search_ok:
  assumes "\<forall>x \<in> set queue \<union> set visited. (n, x) \<in> (type_edges conns ty)\<^sup>*"
    and "\<forall>x \<in> set visited. \<forall>y. (x, y) \<in> type_edges conns ty \<longrightarrow> y \<noteq> p \<and> y \<in> set visited \<union> set queue"
    and "n \<in> set visited \<union> set queue" "length queue + unseen_work conns ty visited < fuel"
  shows "\<exists>r. connection_search conns p ty fuel queue visited = Inr r \<and>
    (case r of
       None \<Rightarrow> (n, p) \<notin> (type_edges conns ty)\<^sup>+
     | Some (sourceIndex, destinationIndex) \<Rightarrow> \<exists>x c. (n, x) \<in> (type_edges conns ty)\<^sup>* \<and>
         (destinationIndex, c) \<in> set (numbered_cells (cell_list conns x ty)) \<and> conn_node c = p \<and>
         conn_index c = sourceIndex)"
  using assms
proof (induction fuel arbitrary: queue visited)
  case 0
  then show ?case by simp
next
  case (Suc fuel)
  let ?R = "type_edges conns ty"
  show ?case
  proof (cases queue)
    case Nil
    have "m \<in> set visited" if "(n, m) \<in> ?R\<^sup>*" for m
      using that by (induction) (use Suc.prems(2,3) Nil in auto)
    then have "(n, p) \<notin> ?R\<^sup>+" using Suc.prems(2) by (metis tranclD2)
    then show ?thesis using Nil by simp
  next
    case (Cons current queue')
    show ?thesis
    proof (cases "current \<in> set visited")
      case True
      have "\<exists>r. connection_search conns p ty fuel queue' visited = Inr r \<and>
        (case r of None \<Rightarrow> (n, p) \<notin> ?R\<^sup>+
         | Some (sourceIndex, destinationIndex) \<Rightarrow> \<exists>x c. (n, x) \<in> ?R\<^sup>* \<and>
           (destinationIndex, c) \<in> set (numbered_cells (cell_list conns x ty)) \<and> conn_node c = p \<and> conn_index c = sourceIndex)"
        by (rule Suc.IH) (use Suc.prems Cons True in auto)
      then show ?thesis using Cons True by simp
    next
      case False
      let ?ncs = "numbered_cells (cell_list conns current ty)" and ?vis = "visited @ [current]"
      have cur: "(n, current) \<in> ?R\<^sup>*" using Suc.prems(1) Cons by simp
      have nodes: "map (\<lambda>(i, c). conn_node c) ?ncs = map conn_node (cells (cell_list conns current ty))"
        by (rule numbered_cells_nodes)
      have succ: "y \<in> set (map (\<lambda>(i, c). conn_node c) ?ncs) \<longleftrightarrow> (current, y) \<in> ?R" for y
        unfolding nodes by (auto simp: type_edges_def)
      show ?thesis
      proof (cases "find (\<lambda>(i, c). conn_node c = p) ?ncs")
        case (Some ic)
        obtain i c where ic: "ic = (i, c)" by (cases ic)
        from Some ic have mem: "(i, c) \<in> set ?ncs" "conn_node c = p"
          using find_SomeD by fastforce+
        have "connection_search conns p ty (Suc fuel) queue visited = Inr (Some (conn_index c, i))"
          using Cons False scan_connections_found [OF Some [unfolded ic], of ?vis queue'] by auto
        with mem cur show ?thesis by auto
      next
        case None
        let ?new = "filter (\<lambda>n. n \<notin> set ?vis) (map (\<lambda>(i, c). conn_node c) ?ncs)"
        have nop: "(current, p) \<notin> ?R"
        proof
          assume "(current, p) \<in> ?R"
          then have "p \<in> set (map (\<lambda>(i, c). conn_node c) ?ncs)" using succ by blast
          with None show False by (auto simp: find_None_iff)
        qed
        have "\<exists>r. connection_search conns p ty fuel (queue' @ ?new) ?vis = Inr r \<and>
          (case r of None \<Rightarrow> (n, p) \<notin> ?R\<^sup>+
           | Some (sourceIndex, destinationIndex) \<Rightarrow> \<exists>x c. (n, x) \<in> ?R\<^sup>* \<and>
             (destinationIndex, c) \<in> set (numbered_cells (cell_list conns x ty)) \<and> conn_node c = p \<and> conn_index c = sourceIndex)"
        proof (rule Suc.IH)
          have "(n, x) \<in> ?R\<^sup>*" if "x \<in> set ?new" for x
            using that succ [of x] cur by (auto intro: rtrancl_into_rtrancl simp del: set_map)
          then show "\<forall>x \<in> set (queue' @ ?new) \<union> set ?vis. (n, x) \<in> ?R\<^sup>*"
            using Suc.prems(1) Cons cur by auto
          show "\<forall>x \<in> set ?vis. \<forall>y. (x, y) \<in> ?R \<longrightarrow> y \<noteq> p \<and> y \<in> set ?vis \<union> set (queue' @ ?new)"
          proof (intro ballI allI impI)
            fix x y assume x: "x \<in> set ?vis" and xy: "(x, y) \<in> ?R"
            show "y \<noteq> p \<and> y \<in> set ?vis \<union> set (queue' @ ?new)"
            proof (cases "x = current")
              case True
              with xy succ [of y] nop show ?thesis by (auto simp del: set_map)
            next
              case False
              with x xy Suc.prems(2) have "y \<noteq> p \<and> y \<in> set visited \<union> set queue" by auto
              with Cons show ?thesis by auto
            qed
          qed
          show "n \<in> set ?vis \<union> set (queue' @ ?new)" using Suc.prems(3) Cons by auto
          have "length ?new \<le> length (cells (cell_list conns current ty))"
            using length_filter_le [of "\<lambda>n. n \<notin> set ?vis" "map (\<lambda>(i, c). conn_node c) ?ncs"] unfolding nodes by simp
          with unseen_work_visit [OF False, of conns ty] Suc.prems(4) Cons
          show "length (queue' @ ?new) + unseen_work conns ty ?vis < fuel" by simp
        qed
        then show ?thesis using Cons False scan_connections_none [OF None, of ?vis queue'] by simp
      qed
    qed
  qed
qed

lemma getNodeConnectionIndexes_ok:
  "\<exists>r. getNodeConnectionIndexes w n p ty = Inr r \<and>
    (r \<noteq> None \<longleftrightarrow> getNode w p \<noteq> None \<and> (n, p) \<in> (type_edges (wf_connectionsByDestinationNode w) ty)\<^sup>+) \<and>
    (\<forall>sourceIndex destinationIndex. r = Some (sourceIndex, destinationIndex) \<longrightarrow>
       (\<exists>x c. (n, x) \<in> (type_edges (wf_connectionsByDestinationNode w) ty)\<^sup>* \<and>
         (destinationIndex, c) \<in> set (numbered_cells (cell_list (wf_connectionsByDestinationNode w) x ty)) \<and>
         conn_node c = p \<and> conn_index c = sourceIndex))"
proof (cases "getNode w p")
  case None
  then show ?thesis by (simp add: getNodeConnectionIndexes_def)
next
  case (Some pn)
  let ?c = "wf_connectionsByDestinationNode w"
  have "\<exists>r. connection_search ?c p ty (search_fuel ?c ty) [n] [] = Inr r \<and>
    (case r of None \<Rightarrow> (n, p) \<notin> (type_edges ?c ty)\<^sup>+
     | Some (sourceIndex, destinationIndex) \<Rightarrow> \<exists>x c. (n, x) \<in> (type_edges ?c ty)\<^sup>* \<and>
         (destinationIndex, c) \<in> set (numbered_cells (cell_list ?c x ty)) \<and> conn_node c = p \<and> conn_index c = sourceIndex)"
    by (rule connection_search_ok) (simp_all add: unseen_work_def search_fuel_def)
  then obtain r where r: "connection_search ?c p ty (search_fuel ?c ty) [n] [] = Inr r"
    "case r of None \<Rightarrow> (n, p) \<notin> (type_edges ?c ty)\<^sup>+
     | Some (sourceIndex, destinationIndex) \<Rightarrow> \<exists>x c. (n, x) \<in> (type_edges ?c ty)\<^sup>* \<and>
         (destinationIndex, c) \<in> set (numbered_cells (cell_list ?c x ty)) \<and> conn_node c = p \<and> conn_index c = sourceIndex"
    by blast
  show ?thesis
  proof (cases r)
    case None
    with r Some show ?thesis by (simp add: getNodeConnectionIndexes_def)
  next
    case (Some sd)
    obtain si di where sd: "sd = (si, di)" by (cases sd)
    with r(2) Some obtain x c where x: "(n, x) \<in> (type_edges ?c ty)\<^sup>*"
      "(di, c) \<in> set (numbered_cells (cell_list ?c x ty))" "conn_node c = p" "conn_index c = si" by auto
    have "p \<in> set (map (\<lambda>(i, c). conn_node c) (numbered_cells (cell_list ?c x ty)))" using x(2,3) by force
    then have "(x, p) \<in> type_edges ?c ty" unfolding numbered_cells_nodes by (auto simp: type_edges_def)
    with x(1) have "(n, p) \<in> (type_edges ?c ty)\<^sup>+" by (rule rtrancl_into_trancl1)
    with r(1) Some sd x \<open>getNode w p = Some pn\<close> show ?thesis by (auto simp: getNodeConnectionIndexes_def)
  qed
qed

section \<open>Renaming\<close>

lemma conns_at_rename_targets:
  "conns_at (rename_targets cur new conns) n ty i = map (rename_target cur new) (conns_at conns n ty i)"
proof -
  have cell: "cell (map_option (map f) c) = map f (cell c)" for f and c :: "connection list option"
    by (cases c) auto
  have get: "map_of (rename_targets cur new conns) n =
     map_option (map (\<lambda>(ty, arr). (ty, map (map_option (map (rename_target cur new))) arr))) (map_of conns n)"
    unfolding rename_targets_def by (induction conns) auto
  have get2: "map_of (map (\<lambda>(ty, arr). (ty, map (map_option (map (rename_target cur new))) arr)) b) ty =
     map_option (map (map_option (map (rename_target cur new)))) (map_of b ty)" for b :: node_connections
    by (induction b) auto
  show ?thesis
    unfolding conns_at_def get by (auto simp: get2 cell split: option.splits)
qed

lemma conns_at_move_key:
  assumes "cur \<noteq> new" "obj_get conns new = None"
  shows "conns_at (move_key cur new conns) n ty i =
    (if n = cur then [] else conns_at conns (if n = new then cur else n) ty i)"
  using assms by (auto simp: conns_at_def move_key_def split: option.splits)

lemma renameNode_effect_lemma:
  assumes "toLowerCase newName \<notin> set (map toLowerCase restrictedKeys)" "currentName \<noteq> newName"
    and "getNode w newName = None" "obj_get (wf_connectionsBySourceNode w) newName = None"
  shows "\<exists>w'. renameNode patterns currentName newName w = Inr w' \<and>
    (\<forall>k. getNode w' k = map_option (rename_in_node (\<lambda>s. patterns s currentName newName))
       (if k = currentName then None
        else if k = newName then map_option (\<lambda>n. n\<lparr>node_name := newName\<rparr>) (getNode w currentName)
        else getNode w k)) \<and>
    (\<forall>n ty i. conns_at (wf_connectionsBySourceNode w') n ty i =
       (if n = currentName then []
        else map (rename_target currentName newName)
          (conns_at (wf_connectionsBySourceNode w) (if n = newName then currentName else n) ty i)))"
proof -
  let ?f = "rename_in_node (\<lambda>s. patterns s currentName newName)"
  have get: "map_of (map (\<lambda>(k, n). (k, ?f n)) m) k = map_option ?f (map_of m k)" for m :: "(string, inode) obj" and k
    by (induction m) auto
  let ?nodes1 = "case obj_get (wf_nodes w) currentName of
                None \<Rightarrow> wf_nodes w
              | Some node \<Rightarrow> obj_delete currentName (obj_set newName (node\<lparr>node_name := newName\<rparr>) (wf_nodes w))"
  have nodes1: "map_of ?nodes1 k = (if k = currentName then None
        else if k = newName then map_option (\<lambda>n. n\<lparr>node_name := newName\<rparr>) (getNode w currentName)
        else getNode w k)" for k
    using assms(2,3) by (auto simp: getNode_def split: option.splits)
  show ?thesis
    using assms(1)
    by (auto simp: renameNode_def getNode_def get Let_def conns_at_rename_targets
        conns_at_move_key [OF assms(2,4)] nodes1 [unfolded getNode_def])
qed

lemma renameNode_keeps_destinations:
  "renameNode patterns currentName newName w = Inr w' \<Longrightarrow>
     wf_connectionsByDestinationNode w' = wf_connectionsByDestinationNode w"
  by (auto simp: renameNode_def Let_def split: if_splits)

section \<open>The static inversion\<close>

lemma obj_set_twice: "obj_set k v (obj_set k u m) = obj_set k v m"
  by (induction m) auto

lemma add_destination_entry_eq: "add_destination_entry s ty ix info r = add_by_destination s ty ix info r"
proof -
  have r1: "obj_set (conn_node info) X (if obj_has r (conn_node info) then r else obj_set (conn_node info) [] r) =
      obj_set (conn_node info) X r" for X
    by (simp add: obj_set_twice)
  have g1: "(case obj_get (if obj_has r (conn_node info) then r else obj_set (conn_node info) [] r) (conn_node info) of
       None \<Rightarrow> [] | Some b \<Rightarrow> b) = (case obj_get r (conn_node info) of None \<Rightarrow> [] | Some b \<Rightarrow> b)"
    by (auto simp: obj_has_def split: option.splits)
  let ?b = "case obj_get r (conn_node info) of None \<Rightarrow> [] | Some b \<Rightarrow> b"
  have b1: "obj_set (conn_type info) X (if obj_has ?b (conn_type info) then ?b else obj_set (conn_type info) [] ?b) =
      obj_set (conn_type info) X ?b" for X
    by (simp add: obj_set_twice)
  have g2: "(case obj_get (if obj_has ?b (conn_type info) then ?b else obj_set (conn_type info) [] ?b) (conn_type info) of
       None \<Rightarrow> [] | Some a \<Rightarrow> a) = (case obj_get ?b (conn_type info) of None \<Rightarrow> [] | Some a \<Rightarrow> a)"
    by (auto simp: obj_has_def split: option.splits)
  have upd: "(case xs ! i of None \<Rightarrow> xs | Some cs \<Rightarrow> xs[i := Some (cs @ [c])]) = xs[i := map_option (\<lambda>cs. cs @ [c]) (xs ! i)]"
    for xs :: node_input_connections and i c
    by (cases "xs ! i") (simp_all, metis list_update_id)
  show ?thesis
    unfolding add_destination_entry_def add_by_destination_def Let_def g1 g2 r1 b1 upd ..
qed

lemma getConnectionsByDestination_eq: "getConnectionsByDestination conns = mapConnectionsByDestination conns"
proof -
  have "add_destination_entry s ty ix = add_by_destination s ty ix" for s ty ix
    by (intro ext) (rule add_destination_entry_eq)
  then show ?thesis unfolding getConnectionsByDestination_def mapConnectionsByDestination_def by simp
qed

section \<open>Connections between nodes\<close>

lemma in_concat_map_iff: "y \<in> set (concat (map f xs)) \<longleftrightarrow> (\<exists>x \<in> set xs. y \<in> set (f x))"
  by auto

lemma getConnectionsBetweenNodes_set:
  "(a, t) \<in> set (getConnectionsBetweenNodes w sources targets) \<longleftrightarrow>
     conn_node a \<in> set sources \<and> conn_node t \<in> set targets \<and>
     (\<exists>byType arr cs. obj_get (wf_connectionsBySourceNode w) (conn_node a) = Some byType \<and> (conn_type a, arr) \<in> set byType \<and>
        conn_index a < length arr \<and> arr ! conn_index a = Some cs \<and> t \<in> set cs)"
proof -
  have c: "t \<in> set (cell x) \<longleftrightarrow> (\<exists>cs. x = Some cs \<and> t \<in> set cs)" for x by (cases x) auto
  have e: "ix \<in> set (List.enumerate 0 arr) \<longleftrightarrow> fst ix < length arr \<and> snd ix = arr ! fst ix"
    for ix and arr :: node_input_connections
    by (cases ix) (auto simp: in_set_enumerate_eq)
  have b: "p \<in> set (case m of None \<Rightarrow> [] | Some b \<Rightarrow> b) \<longleftrightarrow> (\<exists>b. m = Some b \<and> p \<in> set b)" for m and p :: "string \<times> node_input_connections"
    by (cases m) auto
  have i: "(a, t) \<in> set (if P then [q] else []) \<longleftrightarrow> P \<and> q = (a, t)" for P q by auto
  have L: "(a, t) \<in> set (getConnectionsBetweenNodes w sources targets) \<longleftrightarrow>
    (\<exists>source \<in> set sources. \<exists>p \<in> set (case obj_get (wf_connectionsBySourceNode w) source of None \<Rightarrow> [] | Some b \<Rightarrow> b).
      \<exists>ix \<in> set (List.enumerate 0 (snd p)). \<exists>u \<in> set (cell (snd ix)). conn_node u \<in> set targets \<and>
        (\<lparr>conn_node = source, conn_type = fst p, conn_index = fst ix\<rparr>, u) = (a, t))"
    unfolding getConnectionsBetweenNodes_def in_concat_map_iff split_beta i ..
  show ?thesis
  proof
    assume "(a, t) \<in> set (getConnectionsBetweenNodes w sources targets)"
    then obtain source p ix where "source \<in> set sources"
      "p \<in> set (case obj_get (wf_connectionsBySourceNode w) source of None \<Rightarrow> [] | Some b \<Rightarrow> b)"
      "ix \<in> set (List.enumerate 0 (snd p))" "t \<in> set (cell (snd ix))" "conn_node t \<in> set targets"
      "a = \<lparr>conn_node = source, conn_type = fst p, conn_index = fst ix\<rparr>"
      unfolding L by blast
    then show "conn_node a \<in> set sources \<and> conn_node t \<in> set targets \<and>
     (\<exists>byType arr cs. obj_get (wf_connectionsBySourceNode w) (conn_node a) = Some byType \<and> (conn_type a, arr) \<in> set byType \<and>
        conn_index a < length arr \<and> arr ! conn_index a = Some cs \<and> t \<in> set cs)"
      unfolding b e c by (cases p) auto
  next
    assume "conn_node a \<in> set sources \<and> conn_node t \<in> set targets \<and>
     (\<exists>byType arr cs. obj_get (wf_connectionsBySourceNode w) (conn_node a) = Some byType \<and> (conn_type a, arr) \<in> set byType \<and>
        conn_index a < length arr \<and> arr ! conn_index a = Some cs \<and> t \<in> set cs)"
    then obtain byType arr cs where x: "conn_node a \<in> set sources" "conn_node t \<in> set targets"
      "obj_get (wf_connectionsBySourceNode w) (conn_node a) = Some byType" "(conn_type a, arr) \<in> set byType"
      "conn_index a < length arr" "arr ! conn_index a = Some cs" "t \<in> set cs" by blast
    show "(a, t) \<in> set (getConnectionsBetweenNodes w sources targets)"
      unfolding L
      by (rule bexI [OF _ x(1)], rule bexI [of _ "(conn_type a, arr)"], rule bexI [of _ "(conn_index a, Some cs)"],
          rule bexI [of _ t]) (use x in \<open>simp_all add: e\<close>)
  qed
qed

section \<open>Static data\<close>

lemma getStaticData_stable:
  assumes "getStaticData ctx w = Inr (d, w')"
  shows "getStaticData ctx w' = Inr (d, w') \<and>
    (\<forall>key. static_key ctx \<noteq> Inr key \<longrightarrow> obj_get (wf_staticData w') key = obj_get (wf_staticData w) key)"
proof -
  from assms obtain key where key: "static_key ctx = Inr key" by (auto simp: getStaticData_def bindE_Inr_iff)
  with assms show ?thesis
    by (auto simp: getStaticData_def split: option.splits)
qed

section \<open>Trigger nodes\<close>

lemma validate_iff:
  "validateWorkflowHasTriggerLikeNode types ig nodes \<longleftrightarrow>
     (\<exists>(k, n) \<in> set nodes. \<not> is_disabled n \<and> (\<forall>l. ig = Some l \<longrightarrow> node_type n \<notin> set l) \<and>
        (\<exists>t. type_of_node types n = Some t \<and> (nt_poll t \<or> nt_trigger t \<or> nt_webhook t)))"
proof (induction nodes)
  case (Cons p nodes)
  obtain k n where p: "p = (k, n)" by (cases p)
  show ?case
  proof (cases "type_of_node types n")
    case None
    then show ?thesis using Cons p by (auto split: option.splits)
  next
    case (Some t)
    then show ?thesis using Cons p by (cases ig) (auto split: if_splits)
  qed
qed simp

section \<open>Properties of the class\<close>

text \<open>The breadth-first search terminates and returns every node other than the start
  whose distance over main connections is within the bound, once, with its depth equal to
  that distance, and nothing else.\<close>

theorem searchNodesBFS_distances:
  assumes "-1 \<le> maxDepth"
  shows "\<exists>L. searchNodesBFS conns s maxDepth = Inr L \<and> distinct (map cn_name L) \<and>
    (\<forall>m d. (\<exists>e \<in> set L. cn_name e = m \<and> cn_depth e = d) \<longleftrightarrow>
       m \<noteq> s \<and> at_distance (type_edges conns Main_type) s m d \<and> (maxDepth = -1 \<or> int d \<le> maxDepth))"
  using assms by (rule searchNodesBFS_ok)

lemma searchNodesBFS_distances_witness:
  "\<exists>L. searchNodesBFS example_connections ''A'' 1 = Inr L \<and> distinct (map cn_name L) \<and>
    (\<forall>m d. (\<exists>e \<in> set L. cn_name e = m \<and> cn_depth e = d) \<longleftrightarrow>
       m \<noteq> ''A'' \<and> at_distance (type_edges example_connections Main_type) ''A'' m d \<and>
       ((1::int) = -1 \<or> int d \<le> 1))"
  by (rule searchNodesBFS_distances) simp

text \<open>The connection to a parent is found exactly when the parent exists and is an ancestor
  over connections of the type, and what is returned is the source index and the position
  in its cell of a connection from the parent into the node or one of its ancestors.\<close>

theorem getNodeConnectionIndexes_finds:
  "\<exists>r. getNodeConnectionIndexes w n p ty = Inr r \<and>
    (r \<noteq> None \<longleftrightarrow> getNode w p \<noteq> None \<and> (n, p) \<in> (type_edges (wf_connectionsByDestinationNode w) ty)\<^sup>+) \<and>
    (\<forall>sourceIndex destinationIndex. r = Some (sourceIndex, destinationIndex) \<longrightarrow>
       (\<exists>x c. (n, x) \<in> (type_edges (wf_connectionsByDestinationNode w) ty)\<^sup>* \<and>
         (destinationIndex, c) \<in> set (numbered_cells (cell_list (wf_connectionsByDestinationNode w) x ty)) \<and>
         conn_node c = p \<and> conn_index c = sourceIndex))"
  by (rule getNodeConnectionIndexes_ok)

definition example_workflow :: workflow where
  "example_workflow = setConnections example_connections (setNodes [plain_node ''A'' ''t'', plain_node ''B'' ''t'']
     \<lparr>wf_nodes = [], wf_connectionsBySourceNode = [], wf_connectionsByDestinationNode = [],
      wf_pinData = None, wf_staticData = [], wf_testStaticData = None\<rparr>)"

lemma getNodeConnectionIndexes_finds_witness:
  "\<exists>r. getNodeConnectionIndexes example_workflow ''B'' ''A'' Main_type = Inr r \<and>
    (r \<noteq> None \<longleftrightarrow> getNode example_workflow ''A'' \<noteq> None \<and>
       (''B'', ''A'') \<in> (type_edges (wf_connectionsByDestinationNode example_workflow) Main_type)\<^sup>+)"
  using getNodeConnectionIndexes_finds [of example_workflow "''B''" "''A''" Main_type] by blast

text \<open>C40. Renaming a node to a new, unrestricted name moves the node and its outgoing
  connections to the new name, rewrites the parameters of every node, and retargets exactly
  the connections into the node; every other connection stays where it was.\<close>

theorem renameNode_effect:
  assumes "toLowerCase newName \<notin> set (map toLowerCase restrictedKeys)" and "currentName \<noteq> newName"
    and "getNode w newName = None" and "obj_get (wf_connectionsBySourceNode w) newName = None"
  shows "\<exists>w'. renameNode patterns currentName newName w = Inr w' \<and>
    (\<forall>k. getNode w' k = map_option (rename_in_node (\<lambda>s. patterns s currentName newName))
       (if k = currentName then None
        else if k = newName then map_option (\<lambda>n. n\<lparr>node_name := newName\<rparr>) (getNode w currentName)
        else getNode w k)) \<and>
    (\<forall>n ty i. conns_at (wf_connectionsBySourceNode w') n ty i =
       (if n = currentName then []
        else map (rename_target currentName newName)
          (conns_at (wf_connectionsBySourceNode w) (if n = newName then currentName else n) ty i)))"
  using assms by (rule renameNode_effect_lemma)

lemma example_rename_allowed:
  "toLowerCase ''Z'' \<notin> set (map toLowerCase restrictedKeys)"
  "toLowerCase ''A'' \<notin> set (map toLowerCase restrictedKeys)"
  by (simp_all add: toLowerCase_def restrictedKeys_def)

lemma renameNode_effect_witness:
  "\<exists>w'. renameNode (\<lambda>s c n. s) ''A'' ''Z'' example_workflow = Inr w' \<and>
    (\<forall>k. getNode w' k = map_option (rename_in_node (\<lambda>s. s))
       (if k = ''A'' then None
        else if k = ''Z'' then map_option (\<lambda>n. n\<lparr>node_name := ''Z''\<rparr>) (getNode example_workflow ''A'')
        else getNode example_workflow k)) \<and>
    (\<forall>n ty i. conns_at (wf_connectionsBySourceNode w') n ty i =
       (if n = ''A'' then []
        else map (rename_target ''A'' ''Z'')
          (conns_at (wf_connectionsBySourceNode example_workflow) (if n = ''Z'' then ''A'' else n) ty i)))"
  by (rule renameNode_effect)
    (simp_all del: set_map add: example_rename_allowed example_workflow_def setConnections_def setNodes_def getNode_def
      example_connections_def)

text \<open>Renaming a node to the name it has removes it.\<close>

lemma renameNode_same_name_removes:
  "\<exists>w'. renameNode (\<lambda>s c n. s) ''A'' ''A'' example_workflow = Inr w' \<and>
     getNode example_workflow ''A'' \<noteq> None \<and> getNode w' ''A'' = None"
  using example_rename_allowed(2)
  by (simp add: renameNode_def Let_def getNode_def example_workflow_def setConnections_def setNodes_def
      obj_delete_def)

text \<open>A parameter that is null becomes an empty object, whatever the name.\<close>

lemma renameNodeInParameterValue_null:
  "renameNodeInParameterValue rename False (JObj [(''limit'', JNull)]) = JObj [(''limit'', JObj [])]"
  by simp

text \<open>The static method that inverts a table and the function of the common module that
  \<^verbatim>\<open>setConnections\<close> uses compute the same table.\<close>

theorem getConnectionsByDestination_same:
  "getConnectionsByDestination conns = mapConnectionsByDestination conns"
  by (rule getConnectionsByDestination_eq)

text \<open>The connections between two sets of nodes are exactly those in the table whose
  source is one of the sources and whose target is one of the targets.\<close>

theorem getConnectionsBetweenNodes_exact:
  "(a, t) \<in> set (getConnectionsBetweenNodes w sources targets) \<longleftrightarrow>
     conn_node a \<in> set sources \<and> conn_node t \<in> set targets \<and>
     (\<exists>byType arr cs. obj_get (wf_connectionsBySourceNode w) (conn_node a) = Some byType \<and> (conn_type a, arr) \<in> set byType \<and>
        conn_index a < length arr \<and> arr ! conn_index a = Some cs \<and> t \<in> set cs)"
  by (rule getConnectionsBetweenNodes_set)

text \<open>Static data is made at most once: asking again gives the same value and changes
  nothing, and no other key of the workflow's static data is touched.\<close>

theorem getStaticData_once:
  assumes "getStaticData ctx w = Inr (d, w')"
  shows "getStaticData ctx w' = Inr (d, w') \<and>
    (\<forall>key. static_key ctx \<noteq> Inr key \<longrightarrow> obj_get (wf_staticData w') key = obj_get (wf_staticData w) key)"
  using assms by (rule getStaticData_stable)

lemma getStaticData_once_witness:
  "getStaticData GlobalContext (example_workflow\<lparr>wf_staticData := [(''global'', JObj [])]\<rparr>) =
     Inr (JObj [], example_workflow\<lparr>wf_staticData := [(''global'', JObj [])]\<rparr>)"
  by (rule conjunct1 [OF getStaticData_once [of GlobalContext example_workflow]])
    (simp add: getStaticData_def static_key_def example_workflow_def setConnections_def setNodes_def)

text \<open>A workflow is valid for activation exactly when some enabled node that is not of an
  ignored type has a known type with a trigger, a poll or a webhook.\<close>

theorem validateWorkflow_exists:
  "validateWorkflowHasTriggerLikeNode types ig nodes \<longleftrightarrow>
     (\<exists>(k, n) \<in> set nodes. \<not> is_disabled n \<and> node_type n \<notin> (case ig of None \<Rightarrow> {} | Some l \<Rightarrow> set l) \<and>
        (\<exists>t. type_of_node types n = Some t \<and> (nt_poll t \<or> nt_trigger t \<or> nt_webhook t)))"
  unfolding validate_iff by (cases ig) simp_all

end
