(* ===== verification/Permissions.thy ===== *)
theory Permissions
  imports N8n_Prelude
begin

text \<open>
  Roles and scopes (\<^verbatim>\<open>packages/@n8n/permissions/src\<close>): the resources and
  their operations, the scopes of the built-in roles, the checks of a scope and the scopes of
  API keys; and the three operations of \<^verbatim>\<open>public-api-key.service.ts\<close> that
  compare the scopes of a key with those of a role. A scope and a role are strings.
\<close>

section \<open>Resources and scopes\<close>

definition DEFAULT_OPERATIONS :: "string list" where
  "DEFAULT_OPERATIONS = [''create'', ''read'', ''update'', ''delete'', ''list'']"

definition RESOURCES :: "(string, string list) obj" where
  "RESOURCES =
    [(''agent'', DEFAULT_OPERATIONS @ [''execute'', ''publish'', ''unpublish'', ''manage'']),
     (''aiAssistant'', [''manage'']),
     (''annotationTag'', DEFAULT_OPERATIONS),
     (''auditLogs'', [''manage'']),
     (''banner'', [''dismiss'']),
     (''community'', [''register'']),
     (''communityPackage'', [''install'', ''uninstall'', ''update'', ''list'', ''manage'']),
     (''credential'', [''share'', ''unshare'', ''shareGlobally'', ''move''] @ DEFAULT_OPERATIONS),
     (''externalSecretsProvider'', [''sync''] @ DEFAULT_OPERATIONS),
     (''externalSecret'', [''list'']),
     (''eventBusDestination'', [''test''] @ DEFAULT_OPERATIONS),
     (''ldap'', [''sync'', ''manage'']),
     (''license'', [''manage'']),
     (''logStreaming'', [''manage'']),
     (''orchestration'', [''read'', ''list'']),
     (''project'', DEFAULT_OPERATIONS),
     (''saml'', [''manage'']),
     (''securityAudit'', [''generate'']),
     (''securitySettings'', [''manage'']),
     (''sourceControl'', [''pull'', ''push'', ''manage'']),
     (''tag'', DEFAULT_OPERATIONS),
     (''user'', [''resetPassword'', ''changeRole'', ''enforceMfa'', ''generateInviteLink''] @ DEFAULT_OPERATIONS),
     (''variable'', DEFAULT_OPERATIONS),
     (''projectVariable'', DEFAULT_OPERATIONS),
     (''workersView'', [''manage'']),
     (''workflow'', [''share'', ''unshare'', ''execute'', ''execute-chat'', ''move'', ''activate'', ''deactivate'', ''publish'', ''unpublish'', ''updateRedactionSetting''] @ DEFAULT_OPERATIONS),
     (''folder'', DEFAULT_OPERATIONS @ [''move'']),
     (''insights'', [''list'', ''read'']),
     (''oidc'', [''manage'']),
     (''provisioning'', [''manage'']),
     (''dataTable'', DEFAULT_OPERATIONS @ [''readRow'', ''writeRow'', ''readColumn'', ''writeColumn'', ''listProject'']),
     (''execution'', [''delete'', ''read'', ''retry'', ''list'', ''get'', ''reveal'']),
     (''workflowTags'', [''update'', ''list'']),
     (''role'', [''manage'']),
     (''mcp'', [''manage'', ''oauth'']),
     (''mcpApiKey'', [''create'', ''rotate'']),
     (''chatHub'', [''manage'', ''message'']),
     (''chatHubAgent'', DEFAULT_OPERATIONS),
     (''breakingChanges'', [''list'']),
     (''apiKey'', [''manage'']),
     (''encryptionKey'', [''manage'']),
     (''credentialResolver'', DEFAULT_OPERATIONS),
     (''instanceAi'', [''message'', ''manage'', ''gateway'']),
     (''roleMappingRule'', DEFAULT_OPERATIONS)]"

definition API_KEY_RESOURCES :: "(string, string list) obj" where
  "API_KEY_RESOURCES =
    [(''tag'', DEFAULT_OPERATIONS),
     (''workflow'', DEFAULT_OPERATIONS @ [''move'', ''activate'', ''deactivate'']),
     (''variable'', [''create'', ''update'', ''delete'', ''list'']),
     (''securityAudit'', [''generate'']),
     (''project'', [''create'', ''update'', ''delete'', ''list'']),
     (''user'', [''read'', ''list'', ''create'', ''changeRole'', ''delete'', ''enforceMfa'']),
     (''execution'', [''delete'', ''read'', ''retry'', ''list'', ''get'', ''stop'']),
     (''credential'', [''create'', ''read'', ''update'', ''move'', ''delete'', ''list'']),
     (''sourceControl'', [''pull'']),
     (''workflowTags'', [''update'', ''list'']),
     (''executionTags'', [''update'', ''list'']),
     (''communityPackage'', [''install'', ''uninstall'', ''update'', ''list'']),
     (''dataTable'', [''create'', ''read'', ''update'', ''delete'', ''list'']),
     (''dataTableRow'', [''create'', ''read'', ''update'', ''delete'', ''upsert'']),
     (''dataTableColumn'', [''create'', ''read'', ''delete'', ''update'']),
     (''folder'', [''create'', ''delete'', ''read'', ''update'', ''list'']),
     (''insights'', [''read''])]"

definition buildResourceScopes :: "string list" where
  "buildResourceScopes =
     concat (map (\<lambda>(resource, operations).
       map (\<lambda>op. resource @ '':'' @ op) operations @ [resource @ '':*'']) RESOURCES) @ [''*'']"

definition buildApiKeyScopes :: "string list" where
  "buildApiKeyScopes = set_of_list (concat (map (\<lambda>(resource, operations).
     map (\<lambda>op. resource @ '':'' @ op) operations) API_KEY_RESOURCES))"

definition ALL_SCOPES :: "string list" where
  "ALL_SCOPES = buildResourceScopes"

definition ALL_API_KEY_SCOPES :: "string list" where
  "ALL_API_KEY_SCOPES = buildApiKeyScopes"

definition isApiKeyScope :: "string \<Rightarrow> bool" where
  "isApiKeyScope scope \<longleftrightarrow> scope \<in> set ALL_API_KEY_SCOPES"

definition isAssignableProjectRoleSlug :: "string \<Rightarrow> bool" where
  "isAssignableProjectRoleSlug slug \<longleftrightarrow>
     take (length ''project:'') slug = ''project:'' \<and> slug \<noteq> ''project:personalOwner''"

section \<open>Scopes of the built-in roles\<close>

definition GLOBAL_OWNER_SCOPES :: "string list" where
  "GLOBAL_OWNER_SCOPES =
    [''agent:create'', ''agent:read'', ''agent:update'', ''agent:delete'', ''agent:list'',
     ''agent:execute'', ''agent:publish'', ''agent:unpublish'', ''agent:manage'',
     ''aiAssistant:manage'', ''annotationTag:create'', ''annotationTag:read'',
     ''annotationTag:update'', ''annotationTag:delete'', ''annotationTag:list'',
     ''auditLogs:manage'', ''banner:dismiss'', ''credential:create'', ''credential:read'',
     ''credential:update'', ''credential:delete'', ''credential:list'', ''credential:share'',
     ''credential:unshare'', ''credential:shareGlobally'', ''credential:move'',
     ''community:register'', ''communityPackage:install'', ''communityPackage:uninstall'',
     ''communityPackage:update'', ''communityPackage:list'', ''eventBusDestination:create'',
     ''eventBusDestination:read'', ''eventBusDestination:update'',
     ''eventBusDestination:delete'', ''eventBusDestination:list'', ''eventBusDestination:test'',
     ''externalSecretsProvider:create'', ''externalSecretsProvider:read'',
     ''externalSecretsProvider:update'', ''externalSecretsProvider:delete'',
     ''externalSecretsProvider:list'', ''externalSecretsProvider:sync'', ''externalSecret:list'',
     ''ldap:manage'', ''ldap:sync'', ''license:manage'', ''logStreaming:manage'',
     ''orchestration:read'', ''saml:manage'', ''securityAudit:generate'',
     ''securitySettings:manage'', ''sourceControl:pull'', ''sourceControl:push'',
     ''sourceControl:manage'', ''tag:create'', ''tag:read'', ''tag:update'', ''tag:delete'',
     ''tag:list'', ''user:create'', ''user:read'', ''user:update'', ''user:delete'',
     ''user:list'', ''user:resetPassword'', ''user:generateInviteLink'', ''user:changeRole'',
     ''user:enforceMfa'', ''variable:create'', ''variable:read'', ''variable:update'',
     ''variable:delete'', ''variable:list'', ''projectVariable:create'',
     ''projectVariable:read'', ''projectVariable:update'', ''projectVariable:delete'',
     ''projectVariable:list'', ''workflow:create'', ''workflow:read'', ''workflow:update'',
     ''workflow:publish'', ''workflow:unpublish'', ''workflow:delete'', ''workflow:list'',
     ''workflow:share'', ''workflow:unshare'', ''workflow:execute'', ''workflow:execute-chat'',
     ''workflow:move'', ''workflow:updateRedactionSetting'', ''workersView:manage'',
     ''project:list'', ''project:create'', ''project:read'', ''project:update'',
     ''project:delete'', ''insights:list'', ''insights:read'', ''folder:move'', ''folder:read'',
     ''folder:update'', ''folder:delete'', ''folder:create'', ''folder:list'', ''oidc:manage'',
     ''provisioning:manage'', ''dataTable:create'', ''dataTable:delete'', ''dataTable:read'',
     ''dataTable:update'', ''dataTable:list'', ''dataTable:listProject'', ''dataTable:readRow'',
     ''dataTable:writeRow'', ''dataTable:readColumn'', ''dataTable:writeColumn'',
     ''role:manage'', ''mcp:manage'', ''mcp:oauth'', ''mcpApiKey:create'', ''mcpApiKey:rotate'',
     ''chatHub:manage'', ''chatHub:message'', ''chatHubAgent:create'', ''chatHubAgent:read'',
     ''chatHubAgent:update'', ''chatHubAgent:delete'', ''chatHubAgent:list'',
     ''breakingChanges:list'', ''execution:reveal'', ''apiKey:manage'', ''encryptionKey:manage'',
     ''credentialResolver:create'', ''credentialResolver:read'', ''credentialResolver:update'',
     ''credentialResolver:delete'', ''credentialResolver:list'', ''instanceAi:message'',
     ''instanceAi:manage'', ''instanceAi:gateway'', ''roleMappingRule:create'',
     ''roleMappingRule:read'', ''roleMappingRule:update'', ''roleMappingRule:delete'',
     ''roleMappingRule:list'']"

definition GLOBAL_ADMIN_SCOPES :: "string list" where
  "GLOBAL_ADMIN_SCOPES = GLOBAL_OWNER_SCOPES @ []"

definition GLOBAL_MEMBER_SCOPES :: "string list" where
  "GLOBAL_MEMBER_SCOPES =
    [''annotationTag:create'', ''annotationTag:read'', ''annotationTag:update'',
     ''annotationTag:delete'', ''annotationTag:list'', ''eventBusDestination:list'',
     ''eventBusDestination:test'', ''tag:create'', ''tag:read'', ''tag:update'', ''tag:list'',
     ''user:list'', ''variable:list'', ''variable:read'', ''insights:read'', ''dataTable:list'',
     ''mcp:oauth'', ''mcpApiKey:create'', ''mcpApiKey:rotate'', ''chatHub:message'',
     ''chatHubAgent:create'', ''chatHubAgent:read'', ''chatHubAgent:update'',
     ''chatHubAgent:delete'', ''chatHubAgent:list'', ''apiKey:manage'',
     ''credentialResolver:list'', ''instanceAi:message'', ''instanceAi:gateway'']"

definition GLOBAL_CHAT_USER_SCOPES :: "string list" where
  "GLOBAL_CHAT_USER_SCOPES =
    [''chatHub:message'', ''chatHubAgent:create'', ''chatHubAgent:read'',
     ''chatHubAgent:update'', ''chatHubAgent:delete'', ''chatHubAgent:list'']"

definition REGULAR_PROJECT_ADMIN_SCOPES :: "string list" where
  "REGULAR_PROJECT_ADMIN_SCOPES =
    [''agent:create'', ''agent:read'', ''agent:update'', ''agent:delete'', ''agent:list'',
     ''agent:execute'', ''agent:publish'', ''agent:unpublish'', ''workflow:create'',
     ''workflow:read'', ''workflow:update'', ''workflow:publish'', ''workflow:unpublish'',
     ''workflow:delete'', ''workflow:list'', ''workflow:execute'', ''workflow:execute-chat'',
     ''workflow:move'', ''workflow:updateRedactionSetting'', ''credential:create'',
     ''credential:read'', ''credential:update'', ''credential:delete'', ''credential:list'',
     ''credential:move'', ''credential:share'', ''credential:unshare'', ''execution:reveal'',
     ''project:list'', ''project:read'', ''project:update'', ''project:delete'',
     ''folder:create'', ''folder:read'', ''folder:update'', ''folder:delete'', ''folder:list'',
     ''folder:move'', ''sourceControl:push'', ''dataTable:create'', ''dataTable:delete'',
     ''dataTable:read'', ''dataTable:update'', ''dataTable:listProject'', ''dataTable:readRow'',
     ''dataTable:writeRow'', ''dataTable:readColumn'', ''dataTable:writeColumn'',
     ''projectVariable:list'', ''projectVariable:read'', ''projectVariable:create'',
     ''projectVariable:update'', ''projectVariable:delete'']"

definition PERSONAL_PROJECT_OWNER_SCOPES :: "string list" where
  "PERSONAL_PROJECT_OWNER_SCOPES =
    [''agent:create'', ''agent:read'', ''agent:update'', ''agent:delete'', ''agent:list'',
     ''agent:execute'', ''agent:unpublish'', ''workflow:create'', ''workflow:read'',
     ''workflow:update'', ''workflow:delete'', ''workflow:list'', ''workflow:execute'',
     ''workflow:execute-chat'', ''workflow:move'', ''workflow:unpublish'', ''workflow:unshare'',
     ''workflow:updateRedactionSetting'', ''credential:create'', ''credential:read'',
     ''credential:update'', ''credential:delete'', ''credential:list'', ''credential:move'',
     ''credential:unshare'', ''execution:reveal'', ''project:list'', ''project:read'',
     ''folder:create'', ''folder:read'', ''folder:update'', ''folder:delete'', ''folder:list'',
     ''folder:move'', ''dataTable:create'', ''dataTable:delete'', ''dataTable:read'',
     ''dataTable:update'', ''dataTable:listProject'', ''dataTable:readRow'',
     ''dataTable:writeRow'', ''dataTable:readColumn'', ''dataTable:writeColumn'']"

definition PROJECT_EDITOR_SCOPES :: "string list" where
  "PROJECT_EDITOR_SCOPES =
    [''agent:create'', ''agent:read'', ''agent:update'', ''agent:delete'', ''agent:list'',
     ''agent:execute'', ''agent:publish'', ''agent:unpublish'', ''workflow:create'',
     ''workflow:read'', ''workflow:update'', ''workflow:publish'', ''workflow:unpublish'',
     ''workflow:delete'', ''workflow:list'', ''workflow:execute'', ''workflow:execute-chat'',
     ''credential:create'', ''credential:read'', ''credential:update'', ''credential:delete'',
     ''credential:list'', ''project:list'', ''project:read'', ''folder:create'', ''folder:read'',
     ''folder:update'', ''folder:delete'', ''folder:list'', ''dataTable:create'',
     ''dataTable:delete'', ''dataTable:read'', ''dataTable:update'', ''dataTable:listProject'',
     ''dataTable:readRow'', ''dataTable:writeRow'', ''dataTable:readColumn'',
     ''dataTable:writeColumn'', ''projectVariable:list'', ''projectVariable:read'',
     ''projectVariable:create'', ''projectVariable:update'', ''projectVariable:delete'']"

definition PROJECT_VIEWER_SCOPES :: "string list" where
  "PROJECT_VIEWER_SCOPES =
    [''agent:read'', ''agent:list'', ''agent:execute'', ''credential:list'', ''credential:read'',
     ''project:list'', ''project:read'', ''workflow:list'', ''workflow:read'',
     ''workflow:execute-chat'', ''folder:read'', ''folder:list'', ''dataTable:listProject'',
     ''dataTable:read'', ''dataTable:readRow'', ''dataTable:readColumn'',
     ''projectVariable:list'', ''projectVariable:read'']"

definition PROJECT_CHAT_USER_SCOPES :: "string list" where
  "PROJECT_CHAT_USER_SCOPES =
    [''agent:execute'', ''workflow:execute-chat'']"

definition CREDENTIALS_SHARING_OWNER_SCOPES :: "string list" where
  "CREDENTIALS_SHARING_OWNER_SCOPES =
    [''credential:read'', ''credential:update'', ''credential:delete'', ''credential:share'',
     ''credential:unshare'', ''credential:move'']"

definition CREDENTIALS_SHARING_USER_SCOPES :: "string list" where
  "CREDENTIALS_SHARING_USER_SCOPES =
    [''credential:read'']"

definition WORKFLOW_SHARING_OWNER_SCOPES :: "string list" where
  "WORKFLOW_SHARING_OWNER_SCOPES =
    [''workflow:read'', ''workflow:update'', ''workflow:publish'', ''workflow:unpublish'',
     ''workflow:delete'', ''workflow:execute'', ''workflow:share'', ''workflow:unshare'',
     ''workflow:move'', ''workflow:execute-chat'']"

definition WORKFLOW_SHARING_EDITOR_SCOPES :: "string list" where
  "WORKFLOW_SHARING_EDITOR_SCOPES =
    [''workflow:read'', ''workflow:update'', ''workflow:publish'', ''workflow:unpublish'',
     ''workflow:execute'', ''workflow:execute-chat'']"

definition SECRETS_PROVIDER_CONNECTION_SHARING_OWNER_SCOPES :: "string list" where
  "SECRETS_PROVIDER_CONNECTION_SHARING_OWNER_SCOPES =
    [''externalSecretsProvider:read'', ''externalSecretsProvider:update'',
     ''externalSecretsProvider:delete'', ''externalSecretsProvider:list'',
     ''externalSecretsProvider:sync'', ''externalSecret:list'']"

definition SECRETS_PROVIDER_CONNECTION_SHARING_USER_SCOPES :: "string list" where
  "SECRETS_PROVIDER_CONNECTION_SHARING_USER_SCOPES =
    [''externalSecretsProvider:read'', ''externalSecretsProvider:list'', ''externalSecret:list'']"

definition GLOBAL_SCOPE_MAP :: "(string, string list) obj" where
  "GLOBAL_SCOPE_MAP = [(''global:owner'', GLOBAL_OWNER_SCOPES),
     (''global:admin'', GLOBAL_ADMIN_SCOPES),
     (''global:member'', GLOBAL_MEMBER_SCOPES),
     (''global:chatUser'', GLOBAL_CHAT_USER_SCOPES)]"

definition PROJECT_SCOPE_MAP :: "(string, string list) obj" where
  "PROJECT_SCOPE_MAP = [(''project:admin'', REGULAR_PROJECT_ADMIN_SCOPES),
     (''project:personalOwner'', PERSONAL_PROJECT_OWNER_SCOPES),
     (''project:editor'', PROJECT_EDITOR_SCOPES),
     (''project:viewer'', PROJECT_VIEWER_SCOPES),
     (''project:chatUser'', PROJECT_CHAT_USER_SCOPES)]"

definition CREDENTIALS_SHARING_SCOPE_MAP :: "(string, string list) obj" where
  "CREDENTIALS_SHARING_SCOPE_MAP = [(''credential:owner'', CREDENTIALS_SHARING_OWNER_SCOPES),
     (''credential:user'', CREDENTIALS_SHARING_USER_SCOPES)]"

definition WORKFLOW_SHARING_SCOPE_MAP :: "(string, string list) obj" where
  "WORKFLOW_SHARING_SCOPE_MAP = [(''workflow:owner'', WORKFLOW_SHARING_OWNER_SCOPES),
     (''workflow:editor'', WORKFLOW_SHARING_EDITOR_SCOPES)]"

definition SECRETS_PROVIDER_CONNECTION_SHARING_SCOPE_MAP :: "(string, string list) obj" where
  "SECRETS_PROVIDER_CONNECTION_SHARING_SCOPE_MAP = [(''secretsProviderConnection:owner'', SECRETS_PROVIDER_CONNECTION_SHARING_OWNER_SCOPES),
     (''secretsProviderConnection:user'', SECRETS_PROVIDER_CONNECTION_SHARING_USER_SCOPES)]"

definition ALL_ROLE_MAPS :: "(string, (string, string list) obj) obj" where
  "ALL_ROLE_MAPS = [(''global'', GLOBAL_SCOPE_MAP), (''project'', PROJECT_SCOPE_MAP),
     (''credential'', CREDENTIALS_SHARING_SCOPE_MAP), (''workflow'', WORKFLOW_SHARING_SCOPE_MAP),
     (''secretsProviderConnection'', SECRETS_PROVIDER_CONNECTION_SHARING_SCOPE_MAP)]"

text \<open>\<^verbatim>\<open>Object.fromEntries\<close> of all entries: a later entry of a key wins.\<close>

definition COMBINED_ROLE_MAP :: "(string, string list) obj" where
  "COMBINED_ROLE_MAP = fold (\<lambda>(role, scopes). obj_set role scopes) (concat (obj_values ALL_ROLE_MAPS)) []"

definition ROLE_NAMES :: "(string, string) obj" where
  "ROLE_NAMES =
    [(''global:owner'', ''Owner''),
     (''global:admin'', ''Admin''),
     (''global:member'', ''Member''),
     (''global:chatUser'', ''Chat User''),
     (''project:personalOwner'', ''Project Owner''),
     (''project:admin'', ''Project Admin''),
     (''project:editor'', ''Project Editor''),
     (''project:viewer'', ''Project Viewer''),
     (''project:chatUser'', ''Project Chat User''),
     (''credential:user'', ''Credential User''),
     (''credential:owner'', ''Credential Owner''),
     (''workflow:owner'', ''Workflow Owner''),
     (''workflow:editor'', ''Workflow Editor''),
     (''secretsProviderConnection:owner'', ''Secrets Provider Connection Owner''),
     (''secretsProviderConnection:user'', ''Secrets Provider Connection User'')]"

definition ROLE_DESCRIPTIONS :: "(string, string) obj" where
  "ROLE_DESCRIPTIONS =
    [(''global:owner'', ''Owner''),
     (''global:admin'', ''Admin''),
     (''global:member'', ''Member''),
     (''global:chatUser'', ''Chat User''),
     (''project:personalOwner'', ''Project Owner''),
     (''project:admin'',
      ''Full control of settings, members, workflows, credentials and executions''),
     (''project:editor'', ''Create, edit, and delete workflows, credentials, and executions''),
     (''project:viewer'', ''Read-only access to workflows, credentials, and executions''),
     (''project:chatUser'',
      ''Chat-only access to chatting with workflows that have n8n Chat enabled''),
     (''credential:user'', ''Credential User''),
     (''credential:owner'', ''Credential Owner''),
     (''workflow:owner'', ''Workflow Owner''),
     (''workflow:editor'', ''Workflow Editor''),
     (''secretsProviderConnection:owner'',
      ''Full control of secrets provider connection settings and secrets''),
     (''secretsProviderConnection:user'',
      ''Read-only access to use secrets from the connection'')]"

record role_object =
  ro_slug :: string
  ro_displayName :: "string option"
  ro_scopes :: "string list option"
  ro_description :: "string option"
  ro_licensed :: bool
  ro_systemRole :: bool
  ro_roleType :: string

section \<open>Checking scopes\<close>

text \<open>\<^verbatim>\<open>s.split(':')[0]\<close>, and the whole split.\<close>

fun split_colon :: "string \<Rightarrow> string list" where
  "split_colon [] = [[]]"
| "split_colon (c # cs) =
     (if c = CHR '':'' then [] # split_colon cs
      else (case split_colon cs of [] \<Rightarrow> [[c]] | p # ps \<Rightarrow> (c # p) # ps))"

definition scope_resource :: "string \<Rightarrow> string" where
  "scope_resource scope = hd (split_colon scope)"

definition filter_scopes :: "string list option \<Rightarrow> string list \<Rightarrow> string list" where
  "filter_scopes filters scopes =
     (case filters of None \<Rightarrow> scopes | Some fs \<Rightarrow> filter (\<lambda>s. scope_resource s \<in> set fs) scopes)"

text \<open>\<^verbatim>\<open>getRoleScopes\<close>: a role outside the map is undefined, and filtering it
  throws.\<close>

definition getRoleScopes :: "string \<Rightarrow> string list option \<Rightarrow> unit + string list option" where
  "getRoleScopes role filters =
     (case (obj_get COMBINED_ROLE_MAP role, filters) of
        (Some scopes, fs) \<Rightarrow> Inr (Some (filter_scopes fs scopes))
      | (None, None) \<Rightarrow> Inr None
      | (None, Some fs) \<Rightarrow> Inl ())"

record db_role =
  role_slug :: string
  role_scopes :: "string list"

text \<open>\<^verbatim>\<open>getAuthPrincipalScopes\<close> throws for a principal without a role.\<close>

definition getAuthPrincipalScopes :: "db_role option \<Rightarrow> string list option \<Rightarrow> unit + string list" where
  "getAuthPrincipalScopes user_role filters =
     (case user_role of None \<Rightarrow> Inl () | Some role \<Rightarrow> Inr (filter_scopes filters (role_scopes role)))"

definition getGlobalScopes :: "db_role \<Rightarrow> string list" where
  "getGlobalScopes role = role_scopes role"

record scope_levels =
  level_global :: "string list"
  level_project :: "string list option"
  level_resource :: "string list option"

definition combineScopes :: "scope_levels \<Rightarrow> string list option \<Rightarrow> string list" where
  "combineScopes userScopes sharing =
     (let mask = (\<lambda>level. case level of None \<Rightarrow> []
            | Some scopes \<Rightarrow> (case sharing of None \<Rightarrow> scopes | Some m \<Rightarrow> filter (\<lambda>v. v \<in> set m) scopes))
      in set_of_list (level_global userScopes @ mask (level_project userScopes) @ mask (level_resource userScopes)))"

datatype scope_mode = OneOf | AllOf

datatype scope_arg = OneScope string | ManyScopes "string list"

fun scope_list :: "scope_arg \<Rightarrow> string list" where
  "scope_list (OneScope s) = [s]"
| "scope_list (ManyScopes ss) = ss"

definition hasScope :: "scope_arg \<Rightarrow> scope_levels \<Rightarrow> string list option \<Rightarrow> scope_mode \<Rightarrow> bool" where
  "hasScope scope userScopes sharing mode =
     (let scopes = scope_list scope; userScopeSet = combineScopes userScopes sharing in
      case mode of
        AllOf \<Rightarrow> scopes \<noteq> [] \<and> list_all (\<lambda>s. s \<in> set userScopeSet) scopes
      | OneOf \<Rightarrow> list_ex (\<lambda>s. s \<in> set userScopeSet) scopes)"

definition hasGlobalScope :: "db_role option \<Rightarrow> scope_arg \<Rightarrow> scope_mode \<Rightarrow> unit + bool" where
  "hasGlobalScope user_role scope mode =
     bindE (getAuthPrincipalScopes user_role None) (\<lambda>globals.
       Inr (hasScope scope \<lparr>level_global = globals, level_project = None, level_resource = None\<rparr> None mode))"

text \<open>\<^verbatim>\<open>getResourcePermissions\<close>: per resource, the operations of its scopes; the
  operation of a scope without a colon is undefined.\<close>

definition add_permission :: "string \<Rightarrow> string \<Rightarrow> (string option, bool) obj \<Rightarrow> (string option, bool) obj" where
  "add_permission key scope permissions =
     (case split_colon scope of
        [] \<Rightarrow> permissions
      | prefix # rest \<Rightarrow>
          if prefix = key
          then obj_set (case rest of [] \<Rightarrow> None | suffix # others \<Rightarrow> Some suffix) True permissions
          else permissions)"

definition getResourcePermissions :: "string list \<Rightarrow> (string, (string option, bool) obj) obj" where
  "getResourcePermissions resourceScopes =
     fold (\<lambda>key permissions. obj_set key (fold (add_permission key) resourceScopes []) permissions)
       (obj_keys RESOURCES) []"

definition staticRolesWithScope :: "string \<Rightarrow> scope_arg \<Rightarrow> string list option" where
  "staticRolesWithScope namespace scopes =
     (case obj_get ALL_ROLE_MAPS namespace of
        None \<Rightarrow> None
      | Some roles \<Rightarrow> Some (map fst
          (filter (\<lambda>(k, roleScopes). list_all (\<lambda>s. s \<in> set roleScopes) (scope_list scopes)) roles)))"

section \<open>All roles\<close>

definition mapToRoleObject :: "(string, string list) obj \<Rightarrow> string \<Rightarrow> role_object list" where
  "mapToRoleObject roles roleType =
     map (\<lambda>role. \<lparr>ro_slug = role, ro_displayName = obj_get ROLE_NAMES role,
        ro_scopes = obj_get COMBINED_ROLE_MAP role, ro_description = obj_get ROLE_DESCRIPTIONS role,
        ro_licensed = False, ro_systemRole = True, ro_roleType = roleType\<rparr>) (obj_keys roles)"

definition ALL_ROLES :: "(string, role_object list) obj" where
  "ALL_ROLES = map (\<lambda>(roleType, roles). (roleType, mapToRoleObject roles roleType)) ALL_ROLE_MAPS"

definition isBuiltInRole :: "string \<Rightarrow> bool" where
  "isBuiltInRole role \<longleftrightarrow> obj_has ROLE_NAMES role"

section \<open>Scopes of API keys\<close>

definition OWNER_API_KEY_SCOPES :: "string list" where
  "OWNER_API_KEY_SCOPES =
    [''user:read'', ''user:list'', ''user:create'', ''user:changeRole'', ''user:delete'',
     ''user:enforceMfa'', ''sourceControl:pull'', ''securityAudit:generate'', ''project:create'',
     ''project:update'', ''project:delete'', ''project:list'', ''variable:create'',
     ''variable:delete'', ''variable:list'', ''variable:update'', ''tag:create'', ''tag:read'',
     ''tag:update'', ''tag:delete'', ''tag:list'', ''workflowTags:update'',
     ''workflowTags:list'', ''executionTags:update'', ''executionTags:list'',
     ''workflow:create'', ''workflow:read'', ''workflow:update'', ''workflow:delete'',
     ''workflow:list'', ''workflow:move'', ''workflow:activate'', ''workflow:deactivate'',
     ''execution:delete'', ''execution:read'', ''execution:retry'', ''execution:stop'',
     ''execution:list'', ''credential:create'', ''credential:update'', ''credential:move'',
     ''credential:delete'', ''credential:list'', ''dataTable:create'', ''dataTable:read'',
     ''dataTable:update'', ''dataTable:delete'', ''dataTable:list'', ''dataTableRow:create'',
     ''dataTableRow:read'', ''dataTableRow:update'', ''dataTableRow:delete'',
     ''dataTableRow:upsert'', ''folder:create'', ''folder:delete'', ''folder:read'',
     ''folder:update'', ''folder:list'', ''dataTableColumn:create'', ''dataTableColumn:read'',
     ''dataTableColumn:update'', ''dataTableColumn:delete'', ''insights:read'']"

definition ADMIN_API_KEY_SCOPES :: "string list" where
  "ADMIN_API_KEY_SCOPES = OWNER_API_KEY_SCOPES"

definition MEMBER_API_KEY_SCOPES :: "string list" where
  "MEMBER_API_KEY_SCOPES =
    [''tag:create'', ''tag:read'', ''tag:update'', ''tag:list'', ''workflowTags:update'',
     ''workflowTags:list'', ''executionTags:update'', ''executionTags:list'',
     ''workflow:create'', ''workflow:read'', ''workflow:update'', ''workflow:delete'',
     ''workflow:list'', ''workflow:move'', ''workflow:activate'', ''workflow:deactivate'',
     ''execution:delete'', ''execution:read'', ''execution:retry'', ''execution:stop'',
     ''execution:list'', ''credential:create'', ''credential:update'', ''credential:move'',
     ''credential:delete'', ''dataTable:create'', ''dataTable:read'', ''dataTable:update'',
     ''dataTable:delete'', ''dataTable:list'', ''dataTableRow:create'', ''dataTableRow:read'',
     ''dataTableRow:update'', ''dataTableRow:delete'', ''dataTableRow:upsert'',
     ''folder:create'', ''folder:delete'', ''folder:read'', ''folder:update'', ''folder:list'',
     ''dataTableColumn:create'', ''dataTableColumn:read'', ''dataTableColumn:update'',
     ''dataTableColumn:delete'', ''insights:read'']"

definition CHAT_USER_API_KEY_SCOPES :: "string list" where
  "CHAT_USER_API_KEY_SCOPES = []"

definition API_KEY_SCOPES_FOR_IMPLICIT_PERSONAL_PROJECT :: "string list" where
  "API_KEY_SCOPES_FOR_IMPLICIT_PERSONAL_PROJECT =
    [''workflowTags:update'', ''workflowTags:list'', ''executionTags:update'',
     ''executionTags:list'', ''workflow:create'', ''workflow:read'', ''workflow:update'',
     ''workflow:delete'', ''workflow:list'', ''workflow:move'', ''workflow:activate'',
     ''workflow:deactivate'', ''execution:delete'', ''execution:read'', ''execution:retry'',
     ''execution:stop'', ''execution:list'', ''credential:create'', ''credential:update'',
     ''credential:move'', ''credential:delete'', ''dataTable:create'', ''dataTable:read'',
     ''dataTable:update'', ''dataTable:delete'', ''dataTable:list'', ''dataTableRow:create'',
     ''dataTableRow:read'', ''dataTableRow:update'', ''dataTableRow:delete'',
     ''dataTableRow:upsert'', ''dataTableColumn:create'', ''dataTableColumn:read'',
     ''dataTableColumn:update'', ''dataTableColumn:delete'', ''insights:read'']"

definition MAP_ROLE_SCOPES :: "(string, string list) obj" where
  "MAP_ROLE_SCOPES = [(''global:owner'', OWNER_API_KEY_SCOPES), (''global:admin'', ADMIN_API_KEY_SCOPES),
     (''global:member'', MEMBER_API_KEY_SCOPES), (''global:chatUser'', CHAT_USER_API_KEY_SCOPES)]"

definition getApiKeyScopesForRole :: "db_role \<Rightarrow> string list" where
  "getApiKeyScopesForRole role =
     (if role_slug role = ''global:chatUser'' then []
      else set_of_list (filter isApiKeyScope (role_scopes role @ API_KEY_SCOPES_FOR_IMPLICIT_PERSONAL_PROJECT)))"

definition getOwnerOnlyApiKeyScopes :: "string list" where
  "getOwnerOnlyApiKeyScopes =
     fold set_delete (set_of_list (the (obj_get MAP_ROLE_SCOPES ''global:member'')))
       (set_of_list (the (obj_get MAP_ROLE_SCOPES ''global:owner'')))"

text \<open>\<^verbatim>\<open>PublicApiKeyService\<close>: whether a key may be made for a role, and what is
  left of the scopes of the keys of a user who stops being an owner.\<close>

definition apiKeyHasValidScopesForRole :: "db_role \<Rightarrow> string list \<Rightarrow> bool" where
  "apiKeyHasValidScopesForRole role apiKeyScopes \<longleftrightarrow>
     list_all (\<lambda>scope. scope \<in> set (getApiKeyScopesForRole role)) apiKeyScopes"

record api_key =
  key_id :: string
  key_userId :: string
  key_audience :: string
  key_scopes :: "string list"

definition removeOwnerOnlyScopesFromApiKeys :: "string \<Rightarrow> string \<Rightarrow> api_key list \<Rightarrow> api_key list" where
  "removeOwnerOnlyScopesFromApiKeys audience userId keys =
     map (\<lambda>key. if key_userId key = userId \<and> key_audience key = audience \<and>
           list_ex (\<lambda>scope. scope \<in> set getOwnerOnlyApiKeyScopes) (key_scopes key)
         then key\<lparr>key_scopes := filter (\<lambda>scope. scope \<notin> set getOwnerOnlyApiKeyScopes) (key_scopes key)\<rparr>
         else key) keys"

end
