(* ===== verification/Permission_Facts.thy ===== *)
theory Permission_Facts
  imports Permissions
begin

text \<open>
  What the scope checks decide, the hierarchy of the built-in roles, and the scopes an API key
  keeps when the role of its user changes.
\<close>

section \<open>Scopes that are granted\<close>

definition granted :: "scope_levels \<Rightarrow> string list option \<Rightarrow> string set" where
  "granted userScopes sharing = set (level_global userScopes) \<union>
     (set (case level_project userScopes of None \<Rightarrow> [] | Some s \<Rightarrow> s) \<union>
      set (case level_resource userScopes of None \<Rightarrow> [] | Some s \<Rightarrow> s)) \<inter>
     (case sharing of None \<Rightarrow> UNIV | Some m \<Rightarrow> set m)"

lemma combineScopes_set: "set (combineScopes userScopes sharing) = granted userScopes sharing"
  by (cases sharing) (auto simp: combineScopes_def granted_def Let_def split: option.splits)

lemma combineScopes_distinct: "distinct (combineScopes userScopes sharing)"
  by (simp add: combineScopes_def Let_def)

text \<open>A check passes exactly when the scopes asked for are not empty and all granted (all
  of), or one of them is granted (one of); what is granted are the global scopes and those
  project and resource scopes that the mask names, so a mask never grants more.\<close>

theorem hasScope_granted:
  "(hasScope scope userScopes sharing AllOf \<longleftrightarrow>
      scope_list scope \<noteq> [] \<and> set (scope_list scope) \<subseteq> granted userScopes sharing) \<and>
   (hasScope scope userScopes sharing OneOf \<longleftrightarrow> set (scope_list scope) \<inter> granted userScopes sharing \<noteq> {}) \<and>
   granted userScopes sharing \<subseteq> granted userScopes None"
  unfolding hasScope_def Let_def combineScopes_set
  by (auto simp: list_all_iff list_ex_iff granted_def split: option.splits)

text \<open>No wildcard is expanded, although the type of a scope has wildcards: a principal with
  the scope of everything passes no other check.\<close>

lemma wildcards_not_expanded:
  "hasGlobalScope (Some \<lparr>role_slug = ''r'', role_scopes = [''*'', ''workflow:*'']\<rparr>) (OneScope ''workflow:read'') OneOf = Inr False"
  by code_simp

section \<open>Permissions per resource\<close>

lemma add_permission_get:
  "obj_get (add_permission key scope ps) op =
     (if \<exists>rest. split_colon scope = key # rest \<and> op = (case rest of [] \<Rightarrow> None | s # ss \<Rightarrow> Some s)
      then Some True else obj_get ps op)"
  by (auto simp: add_permission_def split: list.splits)

lemma add_permissions_get:
  "obj_get (fold (add_permission key) scopes ps) op =
     (if \<exists>scope \<in> set scopes. \<exists>rest. split_colon scope = key # rest \<and> op = (case rest of [] \<Rightarrow> None | s # ss \<Rightarrow> Some s)
      then Some True else obj_get ps op)"
  by (induction scopes arbitrary: ps) (auto simp: add_permission_get)

lemma fold_set_keys_get:
  "obj_get (fold (\<lambda>k m. obj_set k (f k) m) ks m) k = (if k \<in> set ks then Some (f k) else obj_get m k)"
  by (induction ks arbitrary: m) auto

lemma split_colon_join:
  assumes "CHR '':'' \<notin> set a"
  shows "split_colon (a @ CHR '':'' # b) = a # split_colon b"
  using assms by (induction a) auto

lemma split_colon_whole: "CHR '':'' \<notin> set a \<Longrightarrow> split_colon a = [a]"
  by (induction a) auto

lemma split_colon_inverse: "concat (map (\<lambda>p. CHR '':'' # p) (split_colon s)) = CHR '':'' # s \<and> split_colon s \<noteq> []"
  by (induction s) (auto split: list.splits)

lemma split_colon_two: "split_colon s = [a, b] \<Longrightarrow> s = a @ CHR '':'' # b"
  using conjunct1 [OF split_colon_inverse [of s]] by simp

text \<open>The permission record has an entry for every resource; an operation is permitted
  there exactly when a scope splits into the resource and that operation.\<close>

theorem getResourcePermissions_spec:
  assumes "resource \<in> set (obj_keys RESOURCES)"
  shows "\<exists>ps. obj_get (getResourcePermissions scopes) resource = Some ps \<and>
    (\<forall>op. obj_get ps (Some op) = Some True \<longleftrightarrow>
       (\<exists>scope \<in> set scopes. \<exists>rest. split_colon scope = resource # op # rest)) \<and>
    (\<forall>op. CHR '':'' \<notin> set resource \<and> CHR '':'' \<notin> set op \<and> resource @ CHR '':'' # op \<in> set scopes \<longrightarrow>
       obj_get ps (Some op) = Some True)"
proof -
  let ?ps = "fold (add_permission resource) scopes []"
  have get: "obj_get (getResourcePermissions scopes) resource = Some ?ps"
    unfolding getResourcePermissions_def using assms by (simp add: fold_set_keys_get)
  have iff: "obj_get ?ps (Some op) = Some True \<longleftrightarrow>
      (\<exists>scope \<in> set scopes. \<exists>rest. split_colon scope = resource # op # rest)" for op
    unfolding add_permissions_get by (auto split: list.splits) (metis list.exhaust)
  have "obj_get ?ps (Some op) = Some True"
    if "CHR '':'' \<notin> set resource" "CHR '':'' \<notin> set op" "resource @ CHR '':'' # op \<in> set scopes" for op
    unfolding iff using that by (metis split_colon_join split_colon_whole)
  with get iff show ?thesis by blast
qed

lemma getResourcePermissions_spec_witness:
  "\<exists>ps. obj_get (getResourcePermissions [''workflow:read'']) ''workflow'' = Some ps \<and> obj_get ps (Some ''read'') = Some True"
proof -
  have "''workflow'' \<in> set (obj_keys RESOURCES)" by code_simp
  from getResourcePermissions_spec [OF this, of "[''workflow:read'']"] obtain ps where
    ps: "obj_get (getResourcePermissions [''workflow:read'']) ''workflow'' = Some ps"
    "\<forall>op. obj_get ps (Some op) = Some True \<longleftrightarrow> (\<exists>scope \<in> set [''workflow:read'']. \<exists>rest. split_colon scope = ''workflow'' # op # rest)"
    by blast
  have "split_colon ''workflow:read'' = [''workflow'', ''read'']" by code_simp
  with ps show ?thesis by auto
qed

section \<open>Built-in roles\<close>

lemmas listed = list.set insert_subset insert_iff empty_subsetI refl simp_thms

lemmas spelled = list.set append.simps image_insert image_empty Union_insert Union_empty Un_empty_right Un_insert_left
  Un_empty_left prod.case

lemma fold_entries_scopes:
  "set (concat (obj_values (fold (\<lambda>(role, scopes). obj_set role scopes) es m))) \<subseteq>
     set (concat (map snd es)) \<union> set (concat (obj_values m))"
proof (induction es arbitrary: m)
  case (Cons e es)
  obtain r s where e: "e = (r, s)" by (cases e)
  have "set (concat (obj_values (obj_set r s m))) \<subseteq> set s \<union> set (concat (obj_values m))"
    using obj_set_in [of _ _ r s m] by fastforce
  with Cons [of "obj_set r s m"] e show ?case by auto
qed simp

lemma member_within_owner: "set GLOBAL_MEMBER_SCOPES \<subseteq> set GLOBAL_OWNER_SCOPES"
  unfolding GLOBAL_MEMBER_SCOPES_def GLOBAL_OWNER_SCOPES_def by (simp only: listed)

lemma chat_user_within_member: "set GLOBAL_CHAT_USER_SCOPES \<subseteq> set GLOBAL_MEMBER_SCOPES"
  unfolding GLOBAL_MEMBER_SCOPES_def GLOBAL_CHAT_USER_SCOPES_def by (simp only: listed)

lemma admin_is_owner: "set GLOBAL_ADMIN_SCOPES = set GLOBAL_OWNER_SCOPES"
  by (simp add: GLOBAL_ADMIN_SCOPES_def)

lemma project_roles_within:
  "set PROJECT_CHAT_USER_SCOPES \<subseteq> set PROJECT_VIEWER_SCOPES" "set PROJECT_VIEWER_SCOPES \<subseteq> set PROJECT_EDITOR_SCOPES"
  "set PROJECT_EDITOR_SCOPES \<subseteq> set REGULAR_PROJECT_ADMIN_SCOPES"
  "set REGULAR_PROJECT_ADMIN_SCOPES \<subseteq> set GLOBAL_OWNER_SCOPES" "set PERSONAL_PROJECT_OWNER_SCOPES \<subseteq> set GLOBAL_OWNER_SCOPES"
  unfolding PROJECT_CHAT_USER_SCOPES_def PROJECT_VIEWER_SCOPES_def PROJECT_EDITOR_SCOPES_def
    REGULAR_PROJECT_ADMIN_SCOPES_def PERSONAL_PROJECT_OWNER_SCOPES_def GLOBAL_OWNER_SCOPES_def
  by (simp_all only: listed)

lemma sharing_roles_within:
  "set CREDENTIALS_SHARING_USER_SCOPES \<subseteq> set CREDENTIALS_SHARING_OWNER_SCOPES"
  "set WORKFLOW_SHARING_EDITOR_SCOPES \<subseteq> set WORKFLOW_SHARING_OWNER_SCOPES"
  "set SECRETS_PROVIDER_CONNECTION_SHARING_USER_SCOPES \<subseteq> set SECRETS_PROVIDER_CONNECTION_SHARING_OWNER_SCOPES"
  "set CREDENTIALS_SHARING_OWNER_SCOPES \<subseteq> set GLOBAL_OWNER_SCOPES"
  "set WORKFLOW_SHARING_OWNER_SCOPES \<subseteq> set GLOBAL_OWNER_SCOPES"
  "set SECRETS_PROVIDER_CONNECTION_SHARING_OWNER_SCOPES \<subseteq> set GLOBAL_OWNER_SCOPES"
  unfolding CREDENTIALS_SHARING_USER_SCOPES_def CREDENTIALS_SHARING_OWNER_SCOPES_def WORKFLOW_SHARING_EDITOR_SCOPES_def
    WORKFLOW_SHARING_OWNER_SCOPES_def SECRETS_PROVIDER_CONNECTION_SHARING_USER_SCOPES_def
    SECRETS_PROVIDER_CONNECTION_SHARING_OWNER_SCOPES_def GLOBAL_OWNER_SCOPES_def
  by (simp_all only: listed)

lemma every_role_within_owner: "set (concat (obj_values COMBINED_ROLE_MAP)) \<subseteq> set GLOBAL_OWNER_SCOPES"
proof -
  have "set (concat (map snd (concat (obj_values ALL_ROLE_MAPS)))) \<subseteq> set GLOBAL_OWNER_SCOPES"
    unfolding ALL_ROLE_MAPS_def GLOBAL_SCOPE_MAP_def PROJECT_SCOPE_MAP_def CREDENTIALS_SHARING_SCOPE_MAP_def
      WORKFLOW_SHARING_SCOPE_MAP_def SECRETS_PROVIDER_CONNECTION_SHARING_SCOPE_MAP_def
    using member_within_owner chat_user_within_member project_roles_within sharing_roles_within
    by (simp add: admin_is_owner) blast
  then show ?thesis unfolding COMBINED_ROLE_MAP_def by (intro subset_trans [OF fold_entries_scopes]) simp
qed

lemma all_scopes_listed:
  "set ALL_SCOPES = insert ''*'' (\<Union>(resource, operations) \<in> set RESOURCES.
     insert (resource @ '':*'') ((\<lambda>op. resource @ '':'' @ op) ` set operations))"
  by (auto simp: ALL_SCOPES_def buildResourceScopes_def)

lemma owner_scopes_declared: "set GLOBAL_OWNER_SCOPES \<subseteq> set ALL_SCOPES"
proof -
  note all = all_scopes_listed [unfolded RESOURCES_def DEFAULT_OPERATIONS_def, simplified spelled]
  show ?thesis unfolding GLOBAL_OWNER_SCOPES_def by (simp only: all listed Un_iff)
qed

text \<open>The built-in roles form a hierarchy: a lower role has no scope that the higher one
  lacks, every role stays within the owner's scopes, and those are scopes of the declared
  resources.\<close>

theorem role_hierarchy:
  "set GLOBAL_CHAT_USER_SCOPES \<subseteq> set GLOBAL_MEMBER_SCOPES \<and> set GLOBAL_MEMBER_SCOPES \<subseteq> set GLOBAL_ADMIN_SCOPES \<and>
   set GLOBAL_ADMIN_SCOPES = set GLOBAL_OWNER_SCOPES \<and>
   set PROJECT_CHAT_USER_SCOPES \<subseteq> set PROJECT_VIEWER_SCOPES \<and> set PROJECT_VIEWER_SCOPES \<subseteq> set PROJECT_EDITOR_SCOPES \<and>
   set PROJECT_EDITOR_SCOPES \<subseteq> set REGULAR_PROJECT_ADMIN_SCOPES \<and>
   set CREDENTIALS_SHARING_USER_SCOPES \<subseteq> set CREDENTIALS_SHARING_OWNER_SCOPES \<and>
   set WORKFLOW_SHARING_EDITOR_SCOPES \<subseteq> set WORKFLOW_SHARING_OWNER_SCOPES \<and>
   set SECRETS_PROVIDER_CONNECTION_SHARING_USER_SCOPES \<subseteq> set SECRETS_PROVIDER_CONNECTION_SHARING_OWNER_SCOPES \<and>
   set (concat (obj_values COMBINED_ROLE_MAP)) \<subseteq> set GLOBAL_OWNER_SCOPES \<and> set GLOBAL_OWNER_SCOPES \<subseteq> set ALL_SCOPES"
  unfolding admin_is_owner
  by (intro conjI chat_user_within_member member_within_owner refl project_roles_within sharing_roles_within
      every_role_within_owner owner_scopes_declared)

text \<open>No role is in two maps, so combining them loses no scopes, and each built-in role has a
  name and a description.\<close>

lemma combined_roles:
  "distinct (map fst (concat (obj_values ALL_ROLE_MAPS)))" "obj_keys COMBINED_ROLE_MAP = map fst (concat (obj_values ALL_ROLE_MAPS))"
  "set (obj_keys ROLE_NAMES) = set (obj_keys COMBINED_ROLE_MAP)" "obj_keys ROLE_DESCRIPTIONS = obj_keys ROLE_NAMES"
  by code_simp+

section \<open>Scopes of API keys\<close>

lemma set_delete_many: "set (fold set_delete xs ys) = set ys - set xs"
  by (induction xs arbitrary: ys) auto

lemma owner_only_set: "set getOwnerOnlyApiKeyScopes = set OWNER_API_KEY_SCOPES - set MEMBER_API_KEY_SCOPES"
  by (simp add: getOwnerOnlyApiKeyScopes_def MAP_ROLE_SCOPES_def set_delete_many)

text \<open>When an owner or admin is downgraded, each of the user's keys keeps exactly its
  scopes that are not both in the owner's list and absent from the member's; the keys of
  other users and of other audiences stay as they are.\<close>

theorem removeOwnerOnly_effect:
  assumes "i < length keys"
  shows "length (removeOwnerOnlyScopesFromApiKeys audience userId keys) = length keys \<and>
    removeOwnerOnlyScopesFromApiKeys audience userId keys ! i =
      (if key_userId (keys ! i) = userId \<and> key_audience (keys ! i) = audience
       then (keys ! i)\<lparr>key_scopes := filter (\<lambda>s. s \<notin> set OWNER_API_KEY_SCOPES \<or> s \<in> set MEMBER_API_KEY_SCOPES) (key_scopes (keys ! i))\<rparr>
       else keys ! i)"
proof -
  have "filter (\<lambda>s. s \<notin> set OWNER_API_KEY_SCOPES \<or> s \<in> set MEMBER_API_KEY_SCOPES) ss = ss"
    if "\<not> list_ex (\<lambda>s. s \<in> set getOwnerOnlyApiKeyScopes) ss" for ss
    using that by (simp add: list_ex_iff owner_only_set filter_id_conv)
  then show ?thesis
    using assms by (auto simp: removeOwnerOnlyScopesFromApiKeys_def owner_only_set)
qed

definition owner_key :: api_key where
  "owner_key = \<lparr>key_id = ''k'', key_userId = ''u'', key_audience = ''a'', key_scopes = [''communityPackage:install'', ''user:list'']\<rparr>"

lemma removeOwnerOnly_effect_witness:
  "key_userId (removeOwnerOnlyScopesFromApiKeys ''a'' ''v'' [owner_key] ! 0) = ''u''"
  using removeOwnerOnly_effect [of 0 "[owner_key]" "''a''" "''v''"] by (simp add: owner_key_def)

definition owner_role :: db_role where
  "owner_role = \<lparr>role_slug = ''global:owner'', role_scopes = GLOBAL_OWNER_SCOPES\<rparr>"

definition member_role :: db_role where
  "member_role = \<lparr>role_slug = ''global:member'', role_scopes = GLOBAL_MEMBER_SCOPES\<rparr>"

lemma api_key_scopes_set:
  "role_slug role \<noteq> ''global:chatUser'' \<Longrightarrow>
   set (getApiKeyScopesForRole role) =
     (set (role_scopes role) \<union> set API_KEY_SCOPES_FOR_IMPLICIT_PERSONAL_PROJECT) \<inter> set ALL_API_KEY_SCOPES"
  by (auto simp: getApiKeyScopesForRole_def isApiKeyScope_def)

lemma all_api_scopes_listed:
  "set ALL_API_KEY_SCOPES = (\<Union>(resource, operations) \<in> set API_KEY_RESOURCES. (\<lambda>op. resource @ '':'' @ op) ` set operations)"
  by (auto simp: ALL_API_KEY_SCOPES_def buildApiKeyScopes_def)

lemma key_scopes_of_roles:
  "''communityPackage:install'' \<in> set (getApiKeyScopesForRole owner_role)"
  "''communityPackage:install'' \<notin> set (getApiKeyScopesForRole member_role)"
  "''user:list'' \<in> set (getApiKeyScopesForRole member_role)"
proof -
  have api: "''communityPackage:install'' \<in> set ALL_API_KEY_SCOPES" "''user:list'' \<in> set ALL_API_KEY_SCOPES"
    unfolding all_api_scopes_listed API_KEY_RESOURCES_def DEFAULT_OPERATIONS_def
    by (simp_all only: spelled) (simp_all only: listed Un_iff)
  show "''communityPackage:install'' \<in> set (getApiKeyScopesForRole owner_role)"
    using api by (simp add: api_key_scopes_set owner_role_def) (simp only: GLOBAL_OWNER_SCOPES_def listed)
  show "''user:list'' \<in> set (getApiKeyScopesForRole member_role)"
    using api by (simp add: api_key_scopes_set member_role_def) (simp only: GLOBAL_MEMBER_SCOPES_def listed)
  show "''communityPackage:install'' \<notin> set (getApiKeyScopesForRole member_role)"
    by (simp add: api_key_scopes_set member_role_def GLOBAL_MEMBER_SCOPES_def API_KEY_SCOPES_FOR_IMPLICIT_PERSONAL_PROJECT_def)
qed


text \<open>The comment on the project roles names two differences between the owner of a personal
  project and the admin of another one; the lists have more.\<close>

lemma personal_owner_difference:
  "filter (\<lambda>s. s \<notin> set PERSONAL_PROJECT_OWNER_SCOPES) REGULAR_PROJECT_ADMIN_SCOPES =
     [''agent:publish'', ''workflow:publish'', ''credential:share'', ''project:update'', ''project:delete'',
      ''sourceControl:push'', ''projectVariable:list'', ''projectVariable:read'', ''projectVariable:create'',
      ''projectVariable:update'', ''projectVariable:delete'']"
  by (simp add: PERSONAL_PROJECT_OWNER_SCOPES_def REGULAR_PROJECT_ADMIN_SCOPES_def)
end
