(* ===== verification/Engine_Data.thy ===== *)
theory Engine_Data
  imports Workflow_Walks
begin

text \<open>
  The functions of the class \<^verbatim>\<open>WorkflowExecute\<close>
  (\<^verbatim>\<open>packages/core/src/execution-engine/workflow-execute.ts\<close>) on the data of one
  node: its input, its items and their pairing, its error output; and the functions over the
  whole run data at the end of an execution.

  What a node returns is a list of outputs; \<open>None\<close> stands for null and undefined. An
  exception thrown while a node is processed is a value of type \<open>node_error\<close>. Items are
  values: two outputs that share an item object are not told apart from two equal items.
\<close>

type_synonym node_outputs = "item list slot list option"

definition type_error :: node_error where
  "type_error = \<lparr>err_name = ''TypeError'', err_message = ''Cannot read properties of undefined''\<rparr>"

section \<open>Input of a node\<close>

definition main_of :: "task_data_connections \<Rightarrow> item list slot list option" where
  "main_of d = obj_get d Main_type"

definition json_truthy :: "json \<Rightarrow> bool" where
  "json_truthy v = (case v of JNull \<Rightarrow> False | JBool b \<Rightarrow> b | JNum q \<Rightarrow> q \<noteq> 0 | JStr s \<Rightarrow> s \<noteq> [] | _ \<Rightarrow> True)"

definition truthy_at :: "(string, json) obj \<Rightarrow> string \<Rightarrow> bool" where
  "truthy_at kvs k = (case obj_get kvs k of None \<Rightarrow> False | Some v \<Rightarrow> json_truthy v)"

definition index_of_json :: "json option \<Rightarrow> nat option" where
  "index_of_json v = (case v of Some (JNum q) \<Rightarrow> Some (nat \<lfloor>q\<rfloor>) | _ \<Rightarrow> None)"

definition string_of_json :: "json option \<Rightarrow> string" where
  "string_of_json v = (case v of Some (JStr s) \<Rightarrow> s | _ \<Rightarrow> [])"

text \<open>Metadata holds a source as an object.\<close>

definition source_of_json :: "json \<Rightarrow> source_data option" where
  "source_of_json v = (case v of
       JObj kvs \<Rightarrow> Some \<lparr>previousNode = string_of_json (obj_get kvs ''previousNode''),
         previousNodeOutput = index_of_json (obj_get kvs ''previousNodeOutput''),
         previousNodeRun = index_of_json (obj_get kvs ''previousNodeRun'')\<rparr>
     | _ \<Rightarrow> None)"

definition resolveSourceOverwrite :: "item \<Rightarrow> execute_data \<Rightarrow> source_data option" where
  "resolveSourceOverwrite it ed =
     (case ed_metadata ed of
        None \<Rightarrow> None
      | Some md \<Rightarrow>
          if \<not> truthy_at md ''preserveSourceOverwrite'' then None
          else if truthy_at md ''preservedSourceOverwrite''
            then source_of_json (the (obj_get md ''preservedSourceOverwrite''))
          else (case item_pairedItem it of
              Some (PairedOne p) \<Rightarrow> paired_sourceOverwrite p
            | _ \<Rightarrow> None))"

text \<open>The pairing that every input item gets before its node runs;
  \<^verbatim>\<open>inputIndex || undefined\<close> leaves out input 0.\<close>

definition input_pairing :: "execute_data \<Rightarrow> nat \<Rightarrow> nat \<Rightarrow> item \<Rightarrow> item" where
  "input_pairing ed inputIndex itemIndex it = it\<lparr>item_pairedItem := Some (PairedOne
     \<lparr>paired_item = itemIndex, paired_input = (if inputIndex = 0 then None else Some inputIndex),
      paired_sourceOverwrite = resolveSourceOverwrite it ed\<rparr>)\<rparr>"

fun pair_inputs :: "execute_data \<Rightarrow> nat \<Rightarrow> item list slot list \<Rightarrow> node_error + item list slot list" where
  "pair_inputs ed i [] = Inr []"
| "pair_inputs ed i (s # ss) =
     (case s of
        Undef \<Rightarrow> Inl type_error
      | Null \<Rightarrow> bindE (pair_inputs ed (Suc i) ss) (\<lambda>r. Inr (Null # r))
      | Val xs \<Rightarrow> bindE (pair_inputs ed (Suc i) ss) (\<lambda>r.
          Inr (Val (map (\<lambda>(k, it). input_pairing ed i k it) (List.enumerate 0 xs)) # r)))"

definition update_paired_inputs :: "execute_data \<Rightarrow> node_error + execute_data" where
  "update_paired_inputs ed =
     bindE (mapE (\<lambda>(ty, inputs). bindE (pair_inputs ed 0 inputs) (\<lambda>r. Inr (ty, r))) (ed_data ed)) (\<lambda>d.
       Inr (ed\<lparr>ed_data := d\<rparr>))"

definition handleExecuteOnce :: "inode \<Rightarrow> task_data_connections \<Rightarrow> task_data_connections" where
  "handleExecuteOnce node inputData =
     (if node_executeOnce node
      then map (\<lambda>(ty, inputs). (ty, map (\<lambda>input. case input of Val xs \<Rightarrow> Val (take 1 xs) | s \<Rightarrow> s) inputs)) inputData
      else inputData)"

definition handleDisabledNode :: "task_data_connections \<Rightarrow> node_outputs" where
  "handleDisabledNode inputData =
     (case main_of inputData of
        Some (input # inputs) \<Rightarrow> (if input = Null then None else Some [input])
      | _ \<Rightarrow> None)"

text \<open>The inputs of a type are a list or an expression; the inputs it needs are their number,
  their indices or an expression.\<close>

datatype inputs_description = InputList nat | InputExpression string

fun inputs_length :: "inputs_description \<Rightarrow> nat" where
  "inputs_length (InputList n) = n"
| "inputs_length (InputExpression s) = length s"

datatype required_inputs = RequiredNumber nat | RequiredList "nat list" | RequiredExpression string

record engine_type =
  ent_execute :: bool
  ent_poll :: bool
  ent_trigger :: bool
  ent_webhook :: bool
  ent_supplyData :: bool
  ent_requestDefaults :: bool
  ent_customOperations :: "(string \<times> string) list"
  ent_inputs :: inputs_description
  ent_requiredInputs :: "required_inputs option"

definition getCustomOperation :: "inode \<Rightarrow> engine_type \<Rightarrow> (string \<times> string) option" where
  "getCustomOperation node ty =
     (let chosen = (case node_forceCustomOperation node of
            Some ro \<Rightarrow> Some ro
          | None \<Rightarrow> (case (obj_get (node_parameters node) ''resource'', obj_get (node_parameters node) ''operation'') of
              (Some (JStr r), Some (JStr p)) \<Rightarrow> Some (r, p)
            | _ \<Rightarrow> None))
      in case chosen of
           Some ro \<Rightarrow> (if ro \<in> set (ent_customOperations ty) then Some ro else None)
         | None \<Rightarrow> None)"

definition slot_items :: "item list slot \<Rightarrow> item list" where
  "slot_items s = (case s of Val xs \<Rightarrow> xs | _ \<Rightarrow> [])"

text \<open>\<open>None\<close> is the null that ends the branch; a node that is only started from outside
  gets no items.\<close>

definition prepareConnectionInputData ::
  "bool \<Rightarrow> engine_type \<Rightarrow> bool \<Rightarrow> task_data_connections \<Rightarrow> item list option" where
  "prepareConnectionInputData v1 ty hasCustomOperation inputData =
     (if ent_execute ty \<or> hasCustomOperation \<or> (\<not> ent_poll ty \<and> \<not> ent_trigger ty \<and> \<not> ent_webhook ty) then
        (case main_of inputData of
           None \<Rightarrow> None
         | Some [] \<Rightarrow> None
         | Some (input # inputs) \<Rightarrow>
             let chosen = (if v1 then (case find (\<lambda>s. slot_items s \<noteq> []) (input # inputs) of
                     Some s \<Rightarrow> s | None \<Rightarrow> input) else input)
             in if slot_items chosen = [] then None else Some (slot_items chosen))
      else Some [])"

text \<open>Whether the runs of the sources of the given connections, at one run index, left no
  item: \<^verbatim>\<open>get\<close> gives undefined along a missing path.\<close>

definition connection_items :: "run_data \<Rightarrow> nat \<Rightarrow> connection \<Rightarrow> item list slot" where
  "connection_items runData runIndex c =
     (case obj_get runData (conn_node c) of
        None \<Rightarrow> Undef
      | Some runs \<Rightarrow> (case arr_get runs runIndex of
          None \<Rightarrow> Undef
        | Some td \<Rightarrow> (case td_data td of
            None \<Rightarrow> Undef
          | Some d \<Rightarrow> (case main_of d of
              None \<Rightarrow> Undef
            | Some outs \<Rightarrow> (case arr_get outs (conn_index c) of None \<Rightarrow> Undef | Some s \<Rightarrow> s)))))"

text \<open>A null output has no length: the check throws.\<close>

fun incomingConnectionIsEmpty :: "run_data \<Rightarrow> connection list \<Rightarrow> nat \<Rightarrow> node_error + bool" where
  "incomingConnectionIsEmpty runData [] runIndex = Inr True"
| "incomingConnectionIsEmpty runData (c # cs) runIndex =
     (case connection_items runData runIndex c of
        Undef \<Rightarrow> incomingConnectionIsEmpty runData cs runIndex
      | Null \<Rightarrow> Inl type_error
      | Val xs \<Rightarrow> if xs \<noteq> [] then Inr False else incomingConnectionIsEmpty runData cs runIndex)"

section \<open>Output of a node\<close>

text \<open>One output: items without a pairing get one, and the first that cannot get one stops
  the whole loop.\<close>

fun pair_items :: "(nat \<Rightarrow> paired option) \<Rightarrow> nat \<Rightarrow> item list \<Rightarrow> item list \<times> bool" where
  "pair_items fix k [] = ([], True)"
| "pair_items fix k (it # rest) =
     (case item_pairedItem it of
        Some p \<Rightarrow> (case pair_items fix (Suc k) rest of (done, b) \<Rightarrow> (it # done, b))
      | None \<Rightarrow> (case fix k of
          None \<Rightarrow> (it # rest, False)
        | Some p \<Rightarrow> (case pair_items fix (Suc k) rest of
            (done, b) \<Rightarrow> (it\<lparr>item_pairedItem := Some p\<rparr> # done, b))))"

fun pair_outputs :: "(nat \<Rightarrow> paired option) \<Rightarrow> item list slot list \<Rightarrow> node_error + item list slot list" where
  "pair_outputs fix [] = Inr []"
| "pair_outputs fix (out # outs) =
     (case out of
        Null \<Rightarrow> bindE (pair_outputs fix outs) (\<lambda>r. Inr (Null # r))
      | Undef \<Rightarrow> Inl type_error
      | Val xs \<Rightarrow> (case pair_items fix 0 xs of
          (ys, True) \<Rightarrow> bindE (pair_outputs fix outs) (\<lambda>r. Inr (Val ys # r))
        | (ys, False) \<Rightarrow> Inr (Val ys # outs)))"

definition paired_at :: "nat \<Rightarrow> paired" where
  "paired_at k = PairedOne \<lparr>paired_item = k, paired_input = None, paired_sourceOverwrite = None\<rparr>"

text \<open>Which pairing the item at an index gets: that with the single input item, that with the
  input item at the index, that with the first of several aggregated items, or none.\<close>

definition auto_pairing :: "item list slot list \<Rightarrow> item list slot list \<Rightarrow> node_error + (nat \<Rightarrow> paired option)" where
  "auto_pairing main outs =
     (let input = (case main of [s] \<Rightarrow> (case s of Val xs \<Rightarrow> Some (length xs) | _ \<Rightarrow> None) | _ \<Rightarrow> None)
      in case (outs, main) of
           ([out], [s]) \<Rightarrow> (case out of
               Val ys \<Rightarrow> Inr (\<lambda>k. if input = Some 1 then Some (paired_at 0)
                  else if input = Some (length ys) then Some (paired_at k)
                  else if length ys = 1 \<and> (case input of None \<Rightarrow> False | Some n \<Rightarrow> n > 1) then Some (paired_at 0)
                  else None)
             | _ \<Rightarrow> Inl type_error)
         | _ \<Rightarrow> Inr (\<lambda>k. if input = Some 1 then Some (paired_at 0) else None))"

definition assignPairedItems :: "node_outputs \<Rightarrow> execute_data \<Rightarrow> node_error + node_outputs" where
  "assignPairedItems nodeSuccessData ed =
     (case nodeSuccessData of
        None \<Rightarrow> Inr None
      | Some outs \<Rightarrow>
          if outs = [] then Inr (Some [])
          else (case main_of (ed_data ed) of
              None \<Rightarrow> Inl type_error
            | Some main \<Rightarrow> bindE (auto_pairing main outs) (\<lambda>fix.
                bindE (pair_outputs fix outs) (\<lambda>r. Inr (Some r)))))"

text \<open>The item that a node with \<^verbatim>\<open>alwaysOutputData\<close> gives when it gave none: it is
  paired with all input items.\<close>

definition all_pairings :: "item list slot list \<Rightarrow> paired_data list" where
  "all_pairings main = concat (map (\<lambda>(inputIndex, input). map (\<lambda>itemIndex.
     \<lparr>paired_item = itemIndex, paired_input = Some inputIndex, paired_sourceOverwrite = None\<rparr>)
       [0..<length (slot_items input)]) (List.enumerate 0 main))"

definition has_first_item :: "node_outputs \<Rightarrow> bool" where
  "has_first_item nodeSuccessData = (case nodeSuccessData of
       Some (out # outs) \<Rightarrow> slot_items out \<noteq> [] | _ \<Rightarrow> False)"

definition always_output :: "execute_data \<Rightarrow> node_outputs \<Rightarrow> node_error + node_outputs" where
  "always_output ed nodeSuccessData =
     (if \<not> has_first_item nodeSuccessData \<and> node_alwaysOutputData (ed_node ed) then
        (case main_of (ed_data ed) of
           None \<Rightarrow> Inl type_error
         | Some main \<Rightarrow> Inr (Some (arr_put Undef 0
             (Val [empty_item\<lparr>item_pairedItem := Some (PairedMany (all_pairings main))\<rparr>])
             (case nodeSuccessData of None \<Rightarrow> [] | Some outs \<Rightarrow> outs))))
      else Inr nodeSuccessData)"

section \<open>Error output\<close>

text \<open>What the loop over the items takes for an error.\<close>

definition has_error_data :: "item \<Rightarrow> bool" where
  "has_error_data it \<longleftrightarrow> item_error it \<noteq> None \<or>
     (truthy_at (item_json it) ''error'' \<and> length (item_json it) = 1) \<or>
     (truthy_at (item_json it) ''error'' \<and> truthy_at (item_json it) ''message'' \<and> length (item_json it) = 2)"

definition paired_data_of :: "item \<Rightarrow> paired_data option" where
  "paired_data_of it = (case item_pairedItem it of
       Some (PairedOne p) \<Rightarrow> Some p
     | Some (PairedMany (p # ps)) \<Rightarrow> Some p
     | _ \<Rightarrow> None)"

definition merge_obj :: "(string, 'v) obj \<Rightarrow> (string, 'v) obj \<Rightarrow> (string, 'v) obj" where
  "merge_obj base new = fold (\<lambda>(k, v). obj_set k v) new base"

text \<open>\<open>getPairedItem\<close> stands for \<^verbatim>\<open>$getPairedItem\<close> of the data proxy.\<close>

definition error_item ::
  "(string \<Rightarrow> source_data \<Rightarrow> paired_data \<Rightarrow> item option) \<Rightarrow> execute_data \<Rightarrow> item \<Rightarrow> node_error + item" where
  "error_item getPairedItem ed it =
     (case (ed_source ed, paired_data_of it) of
        (Some source, Some p) \<Rightarrow>
          (case obj_get source Main_type of
             None \<Rightarrow> Inl type_error
           | Some sources \<Rightarrow>
               (case arr_get sources (case paired_input p of None \<Rightarrow> 0 | Some i \<Rightarrow> i) of
                  Some (Val sd) \<Rightarrow> Inr (case getPairedItem (previousNode sd) sd p of
                      None \<Rightarrow> it
                    | Some base \<Rightarrow> it\<lparr>item_json := merge_obj (item_json base) (item_json it)\<rparr>)
                | _ \<Rightarrow> Inl type_error))
      | _ \<Rightarrow> Inr it)"

definition split_output ::
  "(string \<Rightarrow> source_data \<Rightarrow> paired_data \<Rightarrow> item option) \<Rightarrow> execute_data \<Rightarrow> nat \<Rightarrow>
     item list slot list \<times> item list \<Rightarrow> node_error + (item list slot list \<times> item list)" where
  "split_output getPairedItem ed outputIndex acc = (case acc of (outs, errorItems) \<Rightarrow>
     let items = (case arr_get outs outputIndex of Some s \<Rightarrow> slot_items s | None \<Rightarrow> []) in
     bindE (mapE (error_item getPairedItem ed) (filter has_error_data items)) (\<lambda>errs.
       Inr (arr_put Undef outputIndex (Val (filter (\<lambda>it. \<not> has_error_data it) items)) outs, errorItems @ errs)))"

definition handleNodeErrorOutput ::
  "(string \<Rightarrow> source_data \<Rightarrow> paired_data \<Rightarrow> item option) \<Rightarrow> nat \<Rightarrow> execute_data \<Rightarrow> item list slot list \<Rightarrow>
     node_error + item list slot list" where
  "handleNodeErrorOutput getPairedItem mainOutputs ed outs =
     bindE (foldE (split_output getPairedItem ed) [0..<mainOutputs - 1] (outs, [])) (\<lambda>(outs', errorItems).
       Inr (if mainOutputs = 0 then outs' else arr_put Undef (mainOutputs - 1) (Val errorItems) outs'))"

text \<open>Error information in an item replaces its data.\<close>

definition error_of_json :: "json \<Rightarrow> node_error" where
  "error_of_json v = (case v of
       JObj kvs \<Rightarrow> \<lparr>err_name = string_of_json (obj_get kvs ''name''), err_message = string_of_json (obj_get kvs ''message'')\<rparr>
     | _ \<Rightarrow> \<lparr>err_name = [], err_message = []\<rparr>)"

definition merge_item_error :: "item \<Rightarrow> item" where
  "merge_item_error it =
     (case (obj_get (item_json it) ''$error'', obj_get (item_json it) ''$json'') of
        (Some e, Some j) \<Rightarrow> it\<lparr>item_error := Some (error_of_json e),
            item_json := [(''error'', JStr (err_message (error_of_json e)))]\<rparr>
      | _ \<Rightarrow> (case item_error it of
            Some e \<Rightarrow> it\<lparr>item_json := [(''error'', JStr (err_message e))]\<rparr>
          | None \<Rightarrow> it))"

fun merge_errors :: "item list slot list \<Rightarrow> node_error + item list slot list" where
  "merge_errors [] = Inr []"
| "merge_errors (out # outs) =
     (case out of
        Val xs \<Rightarrow> bindE (merge_errors outs) (\<lambda>r. Inr (Val (map merge_item_error xs) # r))
      | _ \<Rightarrow> Inl type_error)"

section \<open>The whole run data\<close>

definition rethrowLastNodeError :: "string option \<Rightarrow> node_error option \<Rightarrow> inode \<Rightarrow> node_error + unit" where
  "rethrowLastNodeError lastNodeExecuted err node =
     (case err of
        Some e \<Rightarrow> if lastNodeExecuted = Some (node_name node)
          then Inl (if err_name e = ''NodeOperationError'' \<or> err_name e = ''NodeApiError'' then e
                    else e\<lparr>err_name := ''Error''\<rparr>)
          else Inr ()
      | None \<Rightarrow> Inr ())"

definition add_metadata :: "string \<Rightarrow> nat \<times> task_metadata \<Rightarrow> run_data \<Rightarrow> run_data" where
  "add_metadata nodeName im runData = (case im of (index, metaRunData) \<Rightarrow>
     (case obj_get runData nodeName of
        None \<Rightarrow> runData
      | Some runs \<Rightarrow> (case arr_get runs index of
          None \<Rightarrow> runData
        | Some td \<Rightarrow> obj_set nodeName (runs[index := td\<lparr>td_metadata :=
            Some (merge_obj (case td_metadata td of None \<Rightarrow> [] | Some md \<Rightarrow> md) metaRunData)\<rparr>]) runData)))"

definition moveNodeMetadata :: "(string, task_metadata list) obj option \<Rightarrow> run_data \<Rightarrow> run_data" where
  "moveNodeMetadata metadata runData =
     (case metadata of
        None \<Rightarrow> runData
      | Some md \<Rightarrow> fold (\<lambda>(nodeName, ms). fold (add_metadata nodeName) (List.enumerate 0 ms)) md runData)"

definition updateTaskStatusesToCancelled :: "run_data \<Rightarrow> run_data" where
  "updateTaskStatusesToCancelled runData =
     map (\<lambda>(nodeName, runs). (nodeName, map (\<lambda>td. if td_executionStatus td = Some Running
        then td\<lparr>td_executionStatus := Some Canceled\<rparr> else td) runs)) runData"

text \<open>\<^verbatim>\<open>message?.includes('canceled')\<close> and the status at the end.\<close>

definition string_includes :: "string \<Rightarrow> string \<Rightarrow> bool" where
  "string_includes needle s \<longleftrightarrow> (\<exists>k \<in> set [0..<Suc (length s)]. take (length needle) (drop k s) = needle)"

definition final_status :: "node_error option \<Rightarrow> bool \<Rightarrow> execution_status" where
  "final_status executionError waitTill =
     (case executionError of
        Some e \<Rightarrow> if string_includes ''canceled'' (err_message e) \<or> string_includes ''Cancelled'' (err_name e) then Canceled else ErrorStatus
      | None \<Rightarrow> if waitTill then Waiting else Success)"

end
