(* ===== verification/Engine_Queue.thy ===== *)
theory Engine_Queue
  imports Engine_Data
begin

text \<open>
  The execution stack and the waiting tables of \<^verbatim>\<open>WorkflowExecute\<close>: adding a
  node after one of its parents ran, checking its input before it runs, and taking a waiting
  node when the stack is empty.

  An exception in these functions ends the execution: a value of type \<open>node_error\<close>.
\<close>

record engine_queue =
  eq_stack :: "execute_data list"
  eq_waiting :: waiting_execution
  eq_waitingSource :: waiting_execution_source

definition enqueue :: "bool \<Rightarrow> execute_data \<Rightarrow> engine_queue \<Rightarrow> engine_queue" where
  "enqueue v1 e q = q\<lparr>eq_stack := (if v1 then e # eq_stack q else eq_stack q @ [e])\<rparr>"

text \<open>Run indices are integer keys, which an object lists in ascending order.\<close>

definition run_keys :: "(nat, 'v) obj \<Rightarrow> nat list" where
  "run_keys m = sort (obj_keys m)"

definition runs_of :: "(string, (nat, 'v) obj) obj \<Rightarrow> string \<Rightarrow> (nat, 'v) obj" where
  "runs_of m node = (case obj_get m node of None \<Rightarrow> [] | Some r \<Rightarrow> r)"

definition main_slots :: "(nat, (string, 'a slot list) obj) obj \<Rightarrow> nat \<Rightarrow> 'a slot list option" where
  "main_slots runs k = (case obj_get runs k of None \<Rightarrow> None | Some d \<Rightarrow> obj_get d Main_type)"

definition put_run :: "string \<Rightarrow> nat \<Rightarrow> 'v \<Rightarrow> (string, (nat, 'v) obj) obj \<Rightarrow> (string, (nat, 'v) obj) obj" where
  "put_run node k v m = obj_set node (obj_set k v (runs_of m node)) m"

section \<open>Waiting for all inputs\<close>

definition prepareWaitingToExecution :: "string \<Rightarrow> nat \<Rightarrow> nat \<Rightarrow> engine_queue \<Rightarrow> engine_queue" where
  "prepareWaitingToExecution nodeName numberOfConnections runIndex q = q\<lparr>
     eq_waiting := put_run nodeName runIndex [(Main_type, replicate numberOfConnections Null)] (eq_waiting q),
     eq_waitingSource := put_run nodeName runIndex [(Main_type, replicate numberOfConnections Null)] (eq_waitingSource q)\<rparr>"

definition number_of_inputs :: "workflow \<Rightarrow> string \<Rightarrow> nat" where
  "number_of_inputs w node = (case cells_of (wf_connectionsByDestinationNode w) node Main_type of
       None \<Rightarrow> 0 | Some arr \<Rightarrow> length arr)"

text \<open>The first waiting entry that has nothing at the input, in the order of the run indices.
  An entry without main data throws.\<close>

fun first_free_entry :: "(nat, task_data_connections) obj \<Rightarrow> nat \<Rightarrow> nat list \<Rightarrow> node_error + nat option" where
  "first_free_entry runs inputIndex [] = Inr None"
| "first_free_entry runs inputIndex (k # ks) =
     (case main_slots runs k of
        None \<Rightarrow> Inl type_error
      | Some slots \<Rightarrow>
          if (case arr_get slots inputIndex of Some (Val xs) \<Rightarrow> True | _ \<Rightarrow> False)
          then first_free_entry runs inputIndex ks else Inr (Some k))"

text \<open>What the parent gives at the output: null, the items, or undefined out of range.\<close>

definition success_slot :: "node_outputs \<Rightarrow> nat \<Rightarrow> item list slot" where
  "success_slot nodeSuccessData outputIndex = (case nodeSuccessData of
       None \<Rightarrow> Null
     | Some outs \<Rightarrow> (case arr_get outs outputIndex of None \<Rightarrow> Undef | Some s \<Rightarrow> s))"

definition parent_source :: "string \<Rightarrow> nat \<Rightarrow> nat \<Rightarrow> source_data" where
  "parent_source parentNodeName outputIndex runIndex =
     \<lparr>previousNode = parentNodeName, previousNodeOutput = Some outputIndex, previousNodeRun = Some runIndex\<rparr>"

definition success_source :: "node_outputs \<Rightarrow> string \<Rightarrow> nat \<Rightarrow> nat \<Rightarrow> source_data slot" where
  "success_source nodeSuccessData parentNodeName outputIndex runIndex = (case nodeSuccessData of
       None \<Rightarrow> Null | Some outs \<Rightarrow> Val (parent_source parentNodeName outputIndex runIndex))"

text \<open>A write to one cell of a waiting entry's main data.\<close>

definition put_main :: "string \<Rightarrow> nat \<Rightarrow> nat \<Rightarrow> 'a slot \<Rightarrow> (string, (nat, (string, 'a slot list) obj) obj) obj \<Rightarrow>
    (string, (nat, (string, 'a slot list) obj) obj) obj" where
  "put_main node k i v m =
     (let d = (case obj_get (runs_of m node) k of None \<Rightarrow> [] | Some d \<Rightarrow> d);
          slots = (case obj_get d Main_type of None \<Rightarrow> [] | Some s \<Rightarrow> s)
      in put_run node k (obj_set Main_type (arr_put Undef i v slots) d) m)"

definition drop_run :: "string \<Rightarrow> nat \<Rightarrow> (string, (nat, 'v) obj) obj \<Rightarrow> (string, (nat, 'v) obj) obj" where
  "drop_run node k m =
     (let runs = obj_delete k (runs_of m node)
      in if runs = [] then obj_delete node m else obj_set node runs m)"

text \<open>Puts the parent's data into a waiting entry, a new one when every entry has data at the
  input: the entry's run index, and whether the node was waiting before.\<close>

definition add_to_waiting ::
  "workflow \<Rightarrow> connection \<Rightarrow> nat \<Rightarrow> string \<Rightarrow> node_outputs \<Rightarrow> nat \<Rightarrow> engine_queue \<Rightarrow>
     node_error + (nat \<times> bool \<times> engine_queue)" where
  "add_to_waiting w c outputIndex parentNodeName nodeSuccessData runIndex q =
     (let node = conn_node c; runs = runs_of (eq_waiting q) node in
      bindE (first_free_entry runs (conn_index c) (run_keys runs)) (\<lambda>free.
        let k = (case free of Some k \<Rightarrow> k | None \<Rightarrow> length runs);
            q1 = (if free = None then prepareWaitingToExecution node (number_of_inputs w node) k q else q)
        in Inr (k, obj_get (eq_waiting q) node \<noteq> None, q1\<lparr>
             eq_waiting := put_main node k (conn_index c) (success_slot nodeSuccessData outputIndex) (eq_waiting q1),
             eq_waitingSource := put_main node k (conn_index c)
               (success_source nodeSuccessData parentNodeName outputIndex runIndex) (eq_waitingSource q1)\<rparr>)))"

definition all_data_found :: "engine_queue \<Rightarrow> string \<Rightarrow> nat \<Rightarrow> bool" where
  "all_data_found q node k = (case main_slots (runs_of (eq_waiting q) node) k of
       None \<Rightarrow> True | Some slots \<Rightarrow> Null \<notin> set slots)"

text \<open>All data is there: the entry goes to the stack and leaves the waiting tables.\<close>

definition enqueue_waiting :: "bool \<Rightarrow> workflow \<Rightarrow> string \<Rightarrow> nat \<Rightarrow> engine_queue \<Rightarrow> node_error + engine_queue" where
  "enqueue_waiting v1 w node k q =
     (case (getNode w node, obj_get (runs_of (eq_waiting q) node) k) of
        (Some n, Some d) \<Rightarrow>
          let e = \<lparr>ed_data = d, ed_metadata = None, ed_node = n,
                   ed_source = obj_get (runs_of (eq_waitingSource q) node) k, ed_runIndex = None\<rparr>;
              q1 = enqueue v1 e q
          in Inr (q1\<lparr>eq_waiting := drop_run node k (eq_waiting q1),
                     eq_waitingSource := drop_run node k (eq_waitingSource q1)\<rparr>)
      | _ \<Rightarrow> Inl type_error)"

section \<open>The siblings of a waiting node in the legacy order\<close>

definition main_targets :: "workflow \<Rightarrow> string \<Rightarrow> node_error + string list" where
  "main_targets w parentNodeName = (case obj_get (wf_connectionsBySourceNode w) parentNodeName of
       None \<Rightarrow> Inl type_error
     | Some byType \<Rightarrow> Inr (case obj_get byType Main_type of None \<Rightarrow> [] | Some arr \<Rightarrow> map conn_node (cells arr)))"

text \<open>\<^verbatim>\<open>connectionsByDestinationNode[node].main[0] ?? []\<close>\<close>

definition first_input :: "workflow \<Rightarrow> string \<Rightarrow> node_error + connection list" where
  "first_input w node = (case cells_of (wf_connectionsByDestinationNode w) node Main_type of
       None \<Rightarrow> Inl type_error
     | Some arr \<Rightarrow> Inr (case arr_get arr 0 of None \<Rightarrow> [] | Some c \<Rightarrow> cell c))"

text \<open>From the input node through its parents: the last one before a parent that ran, and none
  if one of them is on the stack or added by the parent anyway.\<close>

fun node_to_add ::
  "string list \<Rightarrow> string list \<Rightarrow> run_data \<Rightarrow> string \<Rightarrow> string option \<Rightarrow> string list \<Rightarrow> string option" where
  "node_to_add checkOutputNodes stackNodes runData input found [] = found"
| "node_to_add checkOutputNodes stackNodes runData input found (p # ps) =
     (if input \<noteq> p \<and> p \<in> set checkOutputNodes then None
      else if p \<in> set stackNodes then None
      else if obj_get runData p \<noteq> None then found
      else node_to_add checkOutputNodes stackNodes runData input (Some p) ps)"

text \<open>Whether the node found is a child of the parent that got no items.\<close>

definition blocked_child :: "workflow \<Rightarrow> string \<Rightarrow> node_outputs \<Rightarrow> nat \<Rightarrow> string option \<Rightarrow> node_error + bool" where
  "blocked_child w parentNodeName nodeSuccessData outputIndex nodeToAdd =
     (let parents = (case nodeToAdd of None \<Rightarrow> []
            | Some n \<Rightarrow> getParentNodes (wf_connectionsByDestinationNode w) n (OnlyType Main_type) (-1))
      in if parentNodeName \<in> set parents
         then (case success_slot nodeSuccessData outputIndex of Val xs \<Rightarrow> Inr (xs = []) | _ \<Rightarrow> Inl type_error)
         else Inr False)"

definition needs_empty_item :: "workflow \<Rightarrow> run_data \<Rightarrow> nat \<Rightarrow> string \<Rightarrow> node_error + bool" where
  "needs_empty_item w runData runIndex node =
     (if obj_get (wf_connectionsByDestinationNode w) node = None then Inr True
      else bindE (first_input w node) (\<lambda>cs. incomingConnectionIsEmpty runData cs runIndex))"

definition add_sibling ::
  "bool \<Rightarrow> workflow \<Rightarrow> run_data \<Rightarrow> string list \<Rightarrow> string \<Rightarrow> nat \<Rightarrow> node_outputs \<Rightarrow> nat \<Rightarrow> connection \<Rightarrow>
     engine_queue \<Rightarrow> node_error + engine_queue" where
  "add_sibling v1 w runData checkOutputNodes parentNodeName outputIndex nodeSuccessData runIndex inputData q =
     (let input = conn_node inputData; stackNodes = map (\<lambda>e. node_name (ed_node e)) (eq_stack q) in
      if input = parentNodeName then Inr q
      else bindE (if input \<in> set checkOutputNodes
          then bindE (first_input w input) (\<lambda>cs. incomingConnectionIsEmpty runData cs runIndex) else Inr True) (\<lambda>isEmpty.
        if input \<in> set checkOutputNodes \<and> \<not> isEmpty then Inr q
        else if input \<in> set stackNodes then Inr q
        else if obj_get runData input \<noteq> None then Inr q
        else if v1 then Inr q
        else
          let parents = getParentNodes (wf_connectionsByDestinationNode w) input (OnlyType Main_type) (-1);
              found = node_to_add checkOutputNodes stackNodes runData input (Some input) (rev (parents @ [input]))
          in bindE (blocked_child w parentNodeName nodeSuccessData outputIndex found) (\<lambda>blocked.
            case (if blocked then None else found) of
              None \<Rightarrow> Inr q
            | Some node \<Rightarrow> bindE (needs_empty_item w runData runIndex node) (\<lambda>addEmptyItem.
                if \<not> addEmptyItem then Inr q
                else (case getNode w node of
                    None \<Rightarrow> Inl type_error
                  | Some n \<Rightarrow> Inr (enqueue v1
                      \<lparr>ed_data = [(Main_type, [Val [empty_item]])], ed_metadata = None, ed_node = n,
                       ed_source = Some [(Main_type, [Val (parent_source parentNodeName outputIndex runIndex)])],
                       ed_runIndex = None\<rparr> q))))))"

definition add_siblings ::
  "bool \<Rightarrow> workflow \<Rightarrow> run_data \<Rightarrow> connection \<Rightarrow> nat \<Rightarrow> string \<Rightarrow> node_outputs \<Rightarrow> nat \<Rightarrow>
     engine_queue \<Rightarrow> node_error + engine_queue" where
  "add_siblings v1 w runData c outputIndex parentNodeName nodeSuccessData runIndex q =
     bindE (main_targets w parentNodeName) (\<lambda>checkOutputNodes.
       foldE (add_sibling v1 w runData checkOutputNodes parentNodeName outputIndex nodeSuccessData runIndex)
         (cells (case cells_of (wf_connectionsByDestinationNode w) (conn_node c) Main_type of
             None \<Rightarrow> [] | Some arr \<Rightarrow> arr)) q)"

section \<open>Adding a node\<close>

text \<open>A node with a single input goes straight to the stack, with null before its input.\<close>

definition add_single ::
  "bool \<Rightarrow> workflow \<Rightarrow> connection \<Rightarrow> nat \<Rightarrow> string \<Rightarrow> node_outputs \<Rightarrow> nat \<Rightarrow> nat option \<Rightarrow> task_metadata option \<Rightarrow>
     engine_queue \<Rightarrow> engine_queue" where
  "add_single v1 w c outputIndex parentNodeName nodeSuccessData runIndex newRunIndex metadata q =
     (case getNode w (conn_node c) of
        None \<Rightarrow> q
      | Some n \<Rightarrow> enqueue v1
          \<lparr>ed_data = [(Main_type, (replicate (conn_index c) Null) @ [success_slot nodeSuccessData outputIndex])],
           ed_metadata = metadata, ed_node = n,
           ed_source = Some [(Main_type, [Val (parent_source parentNodeName outputIndex runIndex)])],
           ed_runIndex = newRunIndex\<rparr> q)"

text \<open>Data is still missing: the entry is rebuilt with the main data and sources it has.\<close>

definition keep_waiting :: "workflow \<Rightarrow> string \<Rightarrow> nat \<Rightarrow> engine_queue \<Rightarrow> engine_queue" where
  "keep_waiting w node k q =
     (let slots = (case main_slots (runs_of (eq_waiting q) node) k of None \<Rightarrow> [] | Some s \<Rightarrow> s);
          sources = (case main_slots (runs_of (eq_waitingSource q) node) k of None \<Rightarrow> [] | Some s \<Rightarrow> s);
          q1 = prepareWaitingToExecution node (number_of_inputs w node) k q
      in q1\<lparr>eq_waiting := put_run node k [(Main_type, slots)] (eq_waiting q1),
             eq_waitingSource := put_run node k [(Main_type, sources)] (eq_waitingSource q1)\<rparr>)"

definition addNodeToBeExecuted ::
  "bool \<Rightarrow> workflow \<Rightarrow> run_data \<Rightarrow> connection \<Rightarrow> nat \<Rightarrow> string \<Rightarrow> node_outputs \<Rightarrow> nat \<Rightarrow> nat option \<Rightarrow>
     task_metadata option \<Rightarrow> engine_queue \<Rightarrow> node_error + engine_queue" where
  "addNodeToBeExecuted v1 w runData c outputIndex parentNodeName nodeSuccessData runIndex newRunIndex metadata q =
     (if number_of_inputs w (conn_node c) > 1 then
        bindE (add_to_waiting w c outputIndex parentNodeName nodeSuccessData runIndex q) (\<lambda>(k, nodeWasWaiting, q1).
          if all_data_found q1 (conn_node c) k then enqueue_waiting v1 w (conn_node c) k q1
          else bindE (if nodeWasWaiting then Inr q1
              else add_siblings v1 w runData c outputIndex parentNodeName nodeSuccessData runIndex q1) (\<lambda>q2.
            Inr (keep_waiting w (conn_node c) k q2)))
      else Inr (add_single v1 w c outputIndex parentNodeName nodeSuccessData runIndex newRunIndex metadata q))"

section \<open>Checking the input before a node runs\<close>

fun check_inputs :: "bool \<Rightarrow> workflow \<Rightarrow> execute_data \<Rightarrow> nat list \<Rightarrow> node_error + bool" where
  "check_inputs legacy w ed [] = Inr True"
| "check_inputs legacy w ed (connectionIndex # rest) =
     (case getHighestNode w (node_name (ed_node ed)) (Some connectionIndex) of
        Inl e \<Rightarrow> Inl type_error
      | Inr highestNodes \<Rightarrow>
          if highestNodes = [] then Inr True
          else (case main_of (ed_data ed) of
              None \<Rightarrow> Inr False
            | Some main \<Rightarrow>
                if legacy \<and> (length main < connectionIndex \<or> arr_get main connectionIndex = Some Null)
                then Inr False else check_inputs legacy w ed rest))"

text \<open>A node without its input goes back to the end of the stack.\<close>

definition ensureInputData :: "bool \<Rightarrow> workflow \<Rightarrow> execute_data \<Rightarrow> engine_queue \<Rightarrow> node_error + (bool \<times> engine_queue)" where
  "ensureInputData v1 w ed q =
     bindE (check_inputs (\<not> v1) w ed [0..<number_of_inputs w (node_name (ed_node ed))]) (\<lambda>ok.
       Inr (ok, if ok then q else q\<lparr>eq_stack := eq_stack q @ [ed]\<rparr>))"

section \<open>Taking a waiting node\<close>

text \<open>\<open>evalRequired\<close> stands for the expression engine on the required inputs of a type.\<close>

record queue_env =
  qe_v1 :: bool
  qe_workflow :: workflow
  qe_types :: "inode \<Rightarrow> engine_type option"
  qe_evalRequired :: "inode \<Rightarrow> string \<Rightarrow> required_inputs option"

definition required_inputs_of :: "queue_env \<Rightarrow> inode \<Rightarrow> engine_type \<Rightarrow> required_inputs option" where
  "required_inputs_of env checkNode ty =
     (if \<not> qe_v1 env then None
      else (case ent_requiredInputs ty of
          Some (RequiredExpression s) \<Rightarrow> qe_evalRequired env checkNode s
        | r \<Rightarrow> r))"

definition all_required :: "engine_type \<Rightarrow> required_inputs option \<Rightarrow> bool" where
  "all_required ty r = (case r of
       Some (RequiredList l) \<Rightarrow> length l = inputs_length (ent_inputs ty)
     | Some (RequiredNumber n) \<Rightarrow> n = inputs_length (ent_inputs ty)
     | _ \<Rightarrow> False)"

definition inputs_missing :: "nat list \<Rightarrow> required_inputs option \<Rightarrow> bool" where
  "inputs_missing inputsWithData r = (case r of
       Some (RequiredList l) \<Rightarrow> \<not> set l \<subseteq> set inputsWithData
     | Some (RequiredNumber n) \<Rightarrow> length inputsWithData < n
     | _ \<Rightarrow> False)"

text \<open>\<^verbatim>\<open>Object.keys(...).sort()\<close> compares the keys as texts.\<close>

definition first_run_index :: "(nat, 'v) obj \<Rightarrow> nat option" where
  "first_run_index runs =
     (case js_sort (\<lambda>a b. if text_less (string_of_nat a) (string_of_nat b) then -1
                         else if a = b then 0 else 1) (run_keys runs) of
        [] \<Rightarrow> None | k # ks \<Rightarrow> Some k)"

definition fill_missing :: "item list slot list \<Rightarrow> item list slot list" where
  "fill_missing slots = map (\<lambda>s. if s = Null then Val [] else s) slots"

definition pad_inputs :: "nat \<Rightarrow> item list slot list \<Rightarrow> item list slot list" where
  "pad_inputs n slots = slots @ replicate (n - length slots) (Val [])"

datatype picked = SkipNode | TakeEmpty engine_queue | TakeNode engine_queue

text \<open>The entry at the first run index: it goes to the stack if any of its inputs has items, and
  it leaves the waiting tables.\<close>

definition take_entry ::
  "queue_env \<Rightarrow> inode \<Rightarrow> engine_type \<Rightarrow> string \<Rightarrow> nat \<Rightarrow> item list slot list \<Rightarrow> engine_queue \<Rightarrow> node_error + picked" where
  "take_entry env checkNode ty nodeName k slots q =
     (let taskDataMain = fill_missing slots;
          q1 = q\<lparr>eq_waiting := drop_run nodeName k (eq_waiting q),
                eq_waitingSource := drop_run nodeName k (eq_waitingSource q)\<rparr>
      in if Undef \<in> set taskDataMain then Inl type_error
         else if \<forall>s \<in> set taskDataMain. slot_items s = [] then Inr (TakeEmpty q1)
         else Inr (TakeNode (q1\<lparr>eq_stack := eq_stack q @ [\<lparr>
             ed_data = [(Main_type, pad_inputs (inputs_length (ent_inputs ty)) taskDataMain)], ed_metadata = None,
             ed_node = checkNode, ed_source = obj_get (runs_of (eq_waitingSource q) nodeName) k, ed_runIndex = None\<rparr>]\<rparr>)))"

definition take_waiting :: "queue_env \<Rightarrow> string list \<Rightarrow> string \<Rightarrow> engine_queue \<Rightarrow> node_error + picked" where
  "take_waiting env waitingNodes nodeName q =
     (case getNode (qe_workflow env) nodeName of
        None \<Rightarrow> Inr SkipNode
      | Some checkNode \<Rightarrow> (case qe_types env checkNode of
          None \<Rightarrow> Inl type_error
        | Some ty \<Rightarrow>
            let required = required_inputs_of env checkNode ty;
                parents = getParentNodes (wf_connectionsByDestinationNode (qe_workflow env)) nodeName (OnlyType Main_type) (-1);
                runs = runs_of (eq_waiting q) nodeName
            in if all_required ty required then Inr SkipNode
               else if set parents \<inter> set waitingNodes \<noteq> {} then Inr SkipNode
               else (case first_run_index runs of
                   None \<Rightarrow> Inl type_error
                 | Some k \<Rightarrow> (case main_slots runs k of
                     None \<Rightarrow> Inl type_error
                   | Some slots \<Rightarrow>
                       let inputsWithData = map fst (filter (\<lambda>(i, s). s \<noteq> Null) (List.enumerate 0 slots)) in
                       if inputs_missing inputsWithData required then Inr SkipNode
                       else take_entry env checkNode ty nodeName k slots q))))"

fun scan_waiting :: "queue_env \<Rightarrow> string list \<Rightarrow> string list \<Rightarrow> engine_queue \<Rightarrow> node_error + picked" where
  "scan_waiting env waitingNodes [] q = Inr SkipNode"
| "scan_waiting env waitingNodes (nodeName # names) q =
     bindE (take_waiting env waitingNodes nodeName q) (\<lambda>p.
       case p of SkipNode \<Rightarrow> scan_waiting env waitingNodes names q | p' \<Rightarrow> Inr p')"

definition waiting_entries :: "(string, (nat, 'v) obj) obj \<Rightarrow> nat" where
  "waiting_entries m = sum_list (map (\<lambda>(n, runs). length runs) m)"

lemma obj_delete_length: "obj_get runs k = Some v \<Longrightarrow> length (obj_delete k runs) < length runs"
  by (induction runs) (auto simp: obj_delete_def split: if_splits intro: le_imp_less_Suc)

lemma waiting_entries_set:
  "obj_get m node = Some runs \<Longrightarrow> length runs' < length runs \<Longrightarrow> waiting_entries (obj_set node runs' m) < waiting_entries m"
  by (induction m) (auto simp: waiting_entries_def split: if_splits)

lemma waiting_entries_delete:
  "waiting_entries (obj_delete node m) \<le> waiting_entries m"
  by (induction m) (auto simp: waiting_entries_def obj_delete_def)

lemma waiting_entries_drop_run:
  assumes "obj_get (runs_of m node) k = Some v"
  shows "waiting_entries (drop_run node k m) < waiting_entries m"
proof (cases "obj_get m node")
  case (Some runs)
  then have r: "obj_get runs k = Some v" using assms by (simp add: runs_of_def)
  show ?thesis
  proof (cases "obj_delete k runs = []")
    case True
    obtain l where l: "length runs = Suc l" using r by (cases runs) auto
    have "waiting_entries (obj_delete node m) < waiting_entries m"
      using Some l
    proof (induction m)
      case (Cons x m)
      then show ?case
        using waiting_entries_delete [of node m]
        by (cases x) (auto simp: waiting_entries_def obj_delete_def split: if_splits)
    qed simp
    with Some True show ?thesis by (simp add: drop_run_def runs_of_def)
  next
    case False
    with Some waiting_entries_set [OF Some obj_delete_length [OF r]] show ?thesis
      by (simp add: drop_run_def runs_of_def)
  qed
qed (use assms in \<open>simp add: runs_of_def\<close>)

lemma take_waiting_empty:
  "take_waiting env ws nodeName q = Inr (TakeEmpty q') \<Longrightarrow> waiting_entries (eq_waiting q') < waiting_entries (eq_waiting q)"
  by (auto simp: take_waiting_def take_entry_def Let_def main_slots_def intro: waiting_entries_drop_run
      split: option.splits if_splits)

lemma scan_waiting_empty:
  "scan_waiting env ws names q = Inr (TakeEmpty q') \<Longrightarrow> waiting_entries (eq_waiting q') < waiting_entries (eq_waiting q)"
proof (induction names)
  case (Cons n names)
  from Cons.prems obtain p where "take_waiting env ws n q = Inr p"
    "(case p of SkipNode \<Rightarrow> scan_waiting env ws names q | p' \<Rightarrow> Inr p') = Inr (TakeEmpty q')"
    by (auto simp: bindE_Inr_iff)
  then show ?case using Cons.IH by (cases p) (auto dest: take_waiting_empty)
qed simp

text \<open>The search starts again after an entry without any items was removed; each such entry
  makes the table smaller.\<close>

function pick_waiting :: "queue_env \<Rightarrow> engine_queue \<Rightarrow> node_error + engine_queue" where
  "pick_waiting env q =
     (case scan_waiting env (obj_keys (eq_waiting q)) (obj_keys (eq_waiting q)) q of
        Inl e \<Rightarrow> Inl e
      | Inr SkipNode \<Rightarrow> Inr q
      | Inr (TakeNode q') \<Rightarrow> Inr q'
      | Inr (TakeEmpty q') \<Rightarrow> pick_waiting env q')"
  by pat_completeness auto
termination
  by (relation "measure (\<lambda>(env, q). waiting_entries (eq_waiting q))") (auto dest: scan_waiting_empty)

declare pick_waiting.simps [simp del]

end
