(* ===== verification/Engine_Requests.thy ===== *)
theory Engine_Requests
  imports Engine_Queue
begin

text \<open>
  Requests of a node for other nodes (\<^verbatim>\<open>requests-response.ts\<close> and
  \<^verbatim>\<open>WorkflowExecute.handleEngineRequest\<close>): an agent asks the engine to run its tools
  and to run itself again with what they gave.

  An action is what the node asks for. The metadata that leads the engine back to the tools is kept as a JSON
  value, as in the execution data. An exception leaves the run data and the workflow as changed so far, so these are returned
  with the error.
\<close>

section \<open>Actions\<close>

record engine_action =
  ea_nodeName :: string
  ea_input :: "(string, json) obj"
  ea_type :: string
  ea_id :: string
  ea_metadata :: "(string, json) obj"

record engine_request =
  er_actions :: "engine_action list"
  er_metadata :: json

definition action_parent :: "engine_action \<Rightarrow> string option" where
  "action_parent a = (case obj_get (ea_metadata a) ''parentNodeName'' of Some (JStr s) \<Rightarrow> Some s | _ \<Rightarrow> None)"

definition has_custom_parent :: "engine_action \<Rightarrow> bool" where
  "has_custom_parent a \<longleftrightarrow> (case action_parent a of None \<Rightarrow> False | Some s \<Rightarrow> s \<noteq> [])"

definition action_item :: "engine_action \<Rightarrow> nat" where
  "action_item a = (case index_of_json (obj_get (ea_metadata a) ''itemIndex'') of None \<Rightarrow> 0 | Some i \<Rightarrow> i)"

section \<open>Metadata as JSON\<close>

definition json_of_nat :: "nat \<Rightarrow> json" where
  "json_of_nat n = JNum (of_nat n)"

definition json_of_source :: "source_data \<Rightarrow> json" where
  "json_of_source s = JObj ((''previousNode'', JStr (previousNode s)) #
     (case previousNodeOutput s of None \<Rightarrow> [] | Some n \<Rightarrow> [(''previousNodeOutput'', json_of_nat n)]) @
     (case previousNodeRun s of None \<Rightarrow> [] | Some n \<Rightarrow> [(''previousNodeRun'', json_of_nat n)]))"

definition json_of_action :: "engine_action \<Rightarrow> json" where
  "json_of_action a = JObj [(''actionType'', JStr ''ExecutionNodeAction''), (''nodeName'', JStr (ea_nodeName a)),
     (''input'', JObj (ea_input a)), (''type'', JStr (ea_type a)), (''id'', JStr (ea_id a)),
     (''metadata'', JObj (ea_metadata a))]"

definition fields_of :: "json option \<Rightarrow> (string, json) obj" where
  "fields_of v = (case v of Some (JObj kvs) \<Rightarrow> kvs | _ \<Rightarrow> [])"

definition action_of_json :: "json option \<Rightarrow> engine_action" where
  "action_of_json v = (let f = obj_get (fields_of v) in
     \<lparr>ea_nodeName = string_of_json (f ''nodeName''), ea_input = fields_of (f ''input''), ea_type = string_of_json (f ''type''),
      ea_id = string_of_json (f ''id''), ea_metadata = fields_of (f ''metadata'')\<rparr>)"

text \<open>A requested node with the index its run will have.\<close>

type_synonym sub_action = "engine_action \<times> nat"

definition json_of_sub_action :: "sub_action \<Rightarrow> json" where
  "json_of_sub_action sa = JObj [(''action'', json_of_action (fst sa)), (''nodeName'', JStr (ea_nodeName (fst sa))),
     (''runIndex'', json_of_nat (snd sa))]"

definition subNodeExecutionData :: "sub_action list \<Rightarrow> json \<Rightarrow> json" where
  "subNodeExecutionData actions metadata =
     JObj [(''actions'', JArr (map json_of_sub_action actions)), (''metadata'', metadata)]"

section \<open>The requested nodes\<close>

record node_to_execute =
  ne_connection :: connection
  ne_parentNode :: string
  ne_parentOutputData :: node_outputs
  ne_runIndex :: nat
  ne_nodeRunIndex :: nat
  ne_metadata :: task_metadata

definition buildParentOutputData :: "(string, json) obj \<Rightarrow> nat \<Rightarrow> nat \<Rightarrow> string \<Rightarrow> item list slot list" where
  "buildParentOutputData jsonData parentRunIndex parentOutputIndex parentSourceNode =
     [Val [\<lparr>item_json = jsonData, item_error = None, item_pairedItem = Some (PairedOne
       \<lparr>paired_item = parentRunIndex, paired_input = Some parentOutputIndex,
        paired_sourceOverwrite = Some \<lparr>previousNode = parentSourceNode, previousNodeOutput = Some parentOutputIndex,
          previousNodeRun = Some parentRunIndex\<rparr>\<rparr>)\<rparr>]]"

definition placeholder_run :: "string \<Rightarrow> nat \<Rightarrow> nat \<Rightarrow> item list slot list \<Rightarrow> task_data" where
  "placeholder_run parentNode parentOutputIndex previousRun displayOutputData =
     \<lparr>td_startTime = 0, td_executionIndex = Some 0,
      td_source = [Val \<lparr>previousNode = parentNode, previousNodeOutput = Some parentOutputIndex, previousNodeRun = Some previousRun\<rparr>],
      td_executionTime = 0, td_executionStatus = None, td_data = None,
      td_inputOverride = Some [(AiTool_type, displayOutputData)], td_error = None, td_metadata = None\<rparr>"

text \<open>The index of the new run, and the run data with it.\<close>

definition initializeNodeRunData :: "run_data \<Rightarrow> string \<Rightarrow> task_data \<Rightarrow> nat \<times> run_data" where
  "initializeNodeRunData runData nodeName td =
     (let runs = (case obj_get runData nodeName of None \<Rightarrow> [] | Some runs \<Rightarrow> runs)
      in (length runs, obj_set nodeName (runs @ [td]) runData))"

definition obj_spread :: "('k, 'v) obj \<Rightarrow> ('k, 'v) obj \<Rightarrow> ('k, 'v) obj" where
  "obj_spread a b = fold (\<lambda>(k, v). obj_set k v) b a"

definition source_at :: "execute_data \<Rightarrow> nat \<Rightarrow> source_data option" where
  "source_at ed i = (case ed_source ed of
       None \<Rightarrow> None
     | Some source \<Rightarrow> (case obj_get source Main_type of
         None \<Rightarrow> None
       | Some main \<Rightarrow> (case arr_get main i of Some (Val s) \<Rightarrow> Some s | _ \<Rightarrow> None)))"

text \<open>\<^verbatim>\<open>executionData.data.main?.[0]?.[itemIndex]?.json ?? {}\<close>\<close>

definition input_json :: "execute_data \<Rightarrow> nat \<Rightarrow> (string, json) obj" where
  "input_json ed itemIndex = (case main_of (ed_data ed) of
       Some (Val its # _) \<Rightarrow> (case arr_get its itemIndex of Some it \<Rightarrow> item_json it | None \<Rightarrow> [])
     | _ \<Rightarrow> [])"

definition parent_output_index :: "execute_data \<Rightarrow> nat \<Rightarrow> nat" where
  "parent_output_index ed runIndex = (case source_at ed runIndex of
       None \<Rightarrow> 0 | Some s \<Rightarrow> (case previousNodeOutput s of None \<Rightarrow> 0 | Some n \<Rightarrow> n))"

definition parent_source_node :: "inode \<Rightarrow> execute_data \<Rightarrow> nat \<Rightarrow> string" where
  "parent_source_node currentNode ed runIndex = (case source_at ed runIndex of
       None \<Rightarrow> node_name currentNode | Some s \<Rightarrow> previousNode s)"

text \<open>The run of the parent. A node of the run data has at least one run, so the length has a predecessor.\<close>

definition parent_run_index :: "execute_data \<Rightarrow> nat \<Rightarrow> run_data \<Rightarrow> string \<Rightarrow> engine_action \<Rightarrow> nat" where
  "parent_run_index ed runIndex runData parentNode a =
     (if has_custom_parent a then (case obj_get runData parentNode of None \<Rightarrow> 0 | Some runs \<Rightarrow> length runs - 1)
      else (case source_at ed runIndex of None \<Rightarrow> 0 | Some s \<Rightarrow>
        (case previousNodeRun s of None \<Rightarrow> 0 | Some n \<Rightarrow> n)))"

record request_state =
  rq_workflow :: workflow
  rq_runData :: run_data
  rq_nodes :: "node_to_execute list"
  rq_actions :: "sub_action list"

definition preserved_of :: "execute_data \<Rightarrow> json option" where
  "preserved_of ed = (case ed_metadata ed of None \<Rightarrow> None | Some md \<Rightarrow>
     (case obj_get md ''preservedSourceOverwrite'' of Some JNull \<Rightarrow> None | v \<Rightarrow> v))"

definition prepare_action ::
  "inode \<Rightarrow> execute_data \<Rightarrow> nat \<Rightarrow> engine_action \<Rightarrow> inode \<Rightarrow> request_state \<Rightarrow> request_state" where
  "prepare_action currentNode ed runIndex a node st =
     (let w = (rq_workflow st)\<lparr>wf_nodes := obj_set (ea_nodeName a) (node\<lparr>node_rewireOutputLogTo := Some (ea_type a)\<rparr>)
            (wf_nodes (rq_workflow st))\<rparr>;
          parentNode = (case action_parent a of None \<Rightarrow> node_name currentNode | Some s \<Rightarrow> s);
          parentRunIndex = parent_run_index ed runIndex (rq_runData st) parentNode a;
          outputIndex = parent_output_index ed runIndex;
          sourceNode = parent_source_node currentNode ed runIndex;
          merged = obj_set ''toolCallId'' (JStr (ea_id a)) (obj_spread (input_json ed (action_item a)) (ea_input a));
          previousRun = (if has_custom_parent a then parentRunIndex else runIndex);
          (nodeRunIndex, runData) = initializeNodeRunData (rq_runData st) (node_name node)
            (placeholder_run parentNode outputIndex previousRun
              (buildParentOutputData (ea_input a) parentRunIndex outputIndex sourceNode))
      in \<lparr>rq_workflow = w, rq_runData = runData,
          rq_nodes = rq_nodes st @ [\<lparr>ne_connection = \<lparr>conn_node = ea_nodeName a, conn_type = ea_type a, conn_index = 0\<rparr>,
            ne_parentNode = parentNode,
            ne_parentOutputData = Some (buildParentOutputData merged parentRunIndex outputIndex sourceNode),
            ne_runIndex = previousRun, ne_nodeRunIndex = nodeRunIndex,
            ne_metadata = [(''preserveSourceOverwrite'', JBool True),
              (''preservedSourceOverwrite'', (case preserved_of ed of Some v \<Rightarrow> v | None \<Rightarrow>
                 json_of_source \<lparr>previousNode = sourceNode, previousNodeOutput = Some outputIndex,
                   previousNodeRun = Some parentRunIndex\<rparr>))]\<rparr>],
          rq_actions = rq_actions st @ [(a, nodeRunIndex)]\<rparr>)"

definition unknown_node :: "string \<Rightarrow> node_error" where
  "unknown_node name = \<lparr>err_name = ''UnexpectedError'',
     err_message = ''Workflow does not contain a node with the name of \"'' @ name @ ''\".''\<rparr>"

fun prepareRequestedNodes ::
  "inode \<Rightarrow> execute_data \<Rightarrow> nat \<Rightarrow> engine_action list \<Rightarrow> request_state \<Rightarrow> node_error option \<times> request_state" where
  "prepareRequestedNodes currentNode ed runIndex [] st = (None, st)"
| "prepareRequestedNodes currentNode ed runIndex (a # as) st =
     (case getNode (rq_workflow st) (ea_nodeName a) of
        None \<Rightarrow> (Some (unknown_node (ea_nodeName a)), st)
      | Some node \<Rightarrow> prepareRequestedNodes currentNode ed runIndex as (prepare_action currentNode ed runIndex a node st))"

section \<open>Resuming the node\<close>

definition resuming_metadata :: "execute_data \<Rightarrow> task_metadata" where
  "resuming_metadata ed = (case ed_metadata ed of
       None \<Rightarrow> []
     | Some md \<Rightarrow>
         if truthy_at md ''preservedSourceOverwrite'' \<and> truthy_at md ''preserveSourceOverwrite''
         then [(''preserveSourceOverwrite'', JBool True),
               (''preservedSourceOverwrite'', the (obj_get md ''preservedSourceOverwrite''))]
         else [])"

text \<open>The connection, the parent and the metadata; nothing if the first input has no source.\<close>

definition prepareRequestingNodeForResuming :: "execute_data \<Rightarrow> (connection \<times> string \<times> task_metadata) option" where
  "prepareRequestingNodeForResuming ed = (case source_at ed 0 of
       None \<Rightarrow> None
     | Some s \<Rightarrow> if previousNode s = [] then None
         else Some (\<lparr>conn_node = node_name (ed_node ed), conn_type = AiTool_type, conn_index = 0\<rparr>,
           previousNode s, resuming_metadata ed))"

text \<open>The nodes to put on the stack, the workflow and the run data after it; or the error with these two.\<close>

definition handleRequest ::
  "workflow \<Rightarrow> inode \<Rightarrow> engine_request \<Rightarrow> nat \<Rightarrow> execute_data \<Rightarrow> run_data \<Rightarrow>
     (node_error + node_to_execute list) \<times> workflow \<times> run_data" where
  "handleRequest w currentNode request runIndex ed runData =
     (case prepareRequestedNodes currentNode ed runIndex (er_actions request)
         \<lparr>rq_workflow = w, rq_runData = runData, rq_nodes = [], rq_actions = []\<rparr> of
        (Some e, st) \<Rightarrow> (Inl e, rq_workflow st, rq_runData st)
      | (None, st) \<Rightarrow>
          (Inr (case prepareRequestingNodeForResuming ed of
              None \<Rightarrow> []
            | Some (connectionData, parentNode, metadata) \<Rightarrow>
                \<lparr>ne_connection = connectionData, ne_parentNode = parentNode, ne_parentOutputData = main_of (ed_data ed),
                 ne_runIndex = runIndex, ne_nodeRunIndex = runIndex,
                 ne_metadata = [(''nodeWasResumed'', JBool True),
                   (''subNodeExecutionData'', subNodeExecutionData (rq_actions st) (er_metadata request))] @ metadata\<rparr>
                # rq_nodes st), rq_workflow st, rq_runData st))"

definition add_requested ::
  "bool \<Rightarrow> workflow \<Rightarrow> run_data \<Rightarrow> node_to_execute \<Rightarrow> engine_queue \<Rightarrow> node_error + engine_queue" where
  "add_requested v1 w runData n q =
     (if ne_parentOutputData n = None then Inl type_error
      else addNodeToBeExecuted v1 w runData (ne_connection n) 0 (ne_parentNode n) (ne_parentOutputData n)
        (ne_runIndex n) (Some (ne_nodeRunIndex n)) (Some (ne_metadata n)) q)"

text \<open>The nodes are added one by one; if that throws, the ones before it stay added.\<close>

fun add_all_requested ::
  "bool \<Rightarrow> workflow \<Rightarrow> run_data \<Rightarrow> node_to_execute list \<Rightarrow> engine_queue \<Rightarrow> node_error option \<times> engine_queue" where
  "add_all_requested v1 w runData [] q = (None, q)"
| "add_all_requested v1 w runData (n # ns) q =
     (case add_requested v1 w runData n q of
        Inl e \<Rightarrow> (Some e, q)
      | Inr q' \<Rightarrow> add_all_requested v1 w runData ns q')"

text \<open>The error if there is one, and the queue, the workflow and the run data after it.\<close>

definition handleEngineRequest ::
  "bool \<Rightarrow> workflow \<Rightarrow> inode \<Rightarrow> engine_request \<Rightarrow> nat \<Rightarrow> execute_data \<Rightarrow> run_data \<Rightarrow> engine_queue \<Rightarrow>
     node_error option \<times> engine_queue \<times> workflow \<times> run_data" where
  "handleEngineRequest v1 w currentNode request runIndex ed runData q =
     (case handleRequest w currentNode request runIndex ed runData of
        (Inl e, w', runData') \<Rightarrow> (Some e, q, w', runData')
      | (Inr ns, w', runData') \<Rightarrow>
          (case add_all_requested v1 w' runData' ns q of (r, q') \<Rightarrow> (r, q', w', runData')))"

section \<open>The response\<close>

record engine_response =
  resp_actions :: "(engine_action \<times> task_data) list"
  resp_metadata :: json

definition makeEngineResponse :: engine_response where
  "makeEngineResponse = \<lparr>resp_actions = [], resp_metadata = JObj []\<rparr>"

definition sub_action_response :: "run_data \<Rightarrow> json \<Rightarrow> (engine_action \<times> task_data) option" where
  "sub_action_response runData v =
     (let f = obj_get (fields_of (Some v)) in
      case (obj_get runData (string_of_json (f ''nodeName'')), index_of_json (f ''runIndex'')) of
        (Some runs, Some i) \<Rightarrow> map_option (Pair (action_of_json (f ''action''))) (arr_get runs i)
      | _ \<Rightarrow> None)"

text \<open>Before a try the runs of the requested nodes are added to the response.\<close>

definition collect_responses :: "execute_data \<Rightarrow> run_data \<Rightarrow> engine_response \<Rightarrow> engine_response" where
  "collect_responses ed runData response = (case ed_metadata ed of
       None \<Rightarrow> response
     | Some md \<Rightarrow> (case obj_get md ''subNodeExecutionData'' of
         Some (JObj kvs) \<Rightarrow> \<lparr>resp_actions = resp_actions response @ List.map_filter (sub_action_response runData)
             (case obj_get kvs ''actions'' of Some (JArr vs) \<Rightarrow> vs | _ \<Rightarrow> []),
           resp_metadata = (case obj_get kvs ''metadata'' of None \<Rightarrow> JNull | Some v \<Rightarrow> v)\<rparr>
       | _ \<Rightarrow> response))"

end
