(* ===== verification/Request_Facts.thy ===== *)
theory Request_Facts
  imports Engine_Requests
begin

text \<open>
  What a request does: the runs it assigns, the order on the stack, the response the node gets when it
  resumes, and the context that is lost on the way.
\<close>

section \<open>Runs that are assigned\<close>

definition run_list :: "run_data \<Rightarrow> string \<Rightarrow> task_data list" where
  "run_list runData name = (case obj_get runData name of None \<Rightarrow> [] | Some runs \<Rightarrow> runs)"

definition run_count :: "run_data \<Rightarrow> string \<Rightarrow> nat" where
  "run_count runData name = length (run_list runData name)"

text \<open>Each action gets the next free run of its node.\<close>

fun assigned :: "(string \<Rightarrow> nat) \<Rightarrow> engine_action list \<Rightarrow> sub_action list" where
  "assigned next_run [] = []"
| "assigned next_run (a # as) =
     (a, next_run (ea_nodeName a)) # assigned (next_run(ea_nodeName a := Suc (next_run (ea_nodeName a)))) as"

definition action_count :: "engine_action list \<Rightarrow> string \<Rightarrow> nat" where
  "action_count as name = length (filter (\<lambda>a. ea_nodeName a = name) as)"

lemma assigned_fst: "map fst (assigned next_run as) = as"
  by (induction as arbitrary: next_run) auto

lemma assigned_below: "(a, i) \<in> set (assigned next_run as) \<Longrightarrow>
    next_run (ea_nodeName a) \<le> i \<and> i < next_run (ea_nodeName a) + action_count as (ea_nodeName a)"
proof (induction as arbitrary: next_run)
  case (Cons b as)
  show ?case
  proof (cases "(a, i) \<in> set (assigned (next_run(ea_nodeName b := Suc (next_run (ea_nodeName b)))) as)")
    case True
    from Cons.IH [OF this] show ?thesis by (auto simp: action_count_def split: if_splits)
  next
    case False
    with Cons.prems show ?thesis by (auto simp: action_count_def)
  qed
qed simp

lemma assigned_distinct: "distinct (map (\<lambda>(a, i). (ea_nodeName a, i)) (assigned next_run as))"
proof (induction as arbitrary: next_run)
  case (Cons a as)
  have "(ea_nodeName a, next_run (ea_nodeName a)) \<notin> (\<lambda>(a, i). (ea_nodeName a, i)) `
      set (assigned (next_run(ea_nodeName a := Suc (next_run (ea_nodeName a)))) as)"
    by (auto dest!: assigned_below)
  with Cons.IH show ?case by simp
qed simp

lemma run_list_set [simp]: "run_list (obj_set n runs rd) name = (if name = n then runs else run_list rd name)"
  by (simp add: run_list_def)

lemma initializeNodeRunData_simp:
  "initializeNodeRunData rd n td = (run_count rd n, obj_set n (run_list rd n @ [td]) rd)"
  by (simp add: initializeNodeRunData_def run_count_def run_list_def Let_def)

section \<open>Preparing the requested nodes\<close>

text \<open>The names of requested nodes lead to nodes of that name.\<close>

definition has_nodes :: "workflow \<Rightarrow> engine_action list \<Rightarrow> bool" where
  "has_nodes w as \<longleftrightarrow> (\<forall>a \<in> set as. map_option node_name (getNode w (ea_nodeName a)) = Some (ea_nodeName a))"

abbreviation same_tables :: "workflow \<Rightarrow> workflow \<Rightarrow> bool" where
  "same_tables w w' \<equiv> wf_connectionsByDestinationNode w' = wf_connectionsByDestinationNode w \<and>
     wf_connectionsBySourceNode w' = wf_connectionsBySourceNode w \<and>
     (\<forall>name. map_option node_name (getNode w' name) = map_option node_name (getNode w name))"

lemma placeholder_run_data [simp]: "td_data (placeholder_run p oi r d) = None"
  by (simp add: placeholder_run_def)

lemma prepare_action_simps:
  assumes "getNode (rq_workflow st) (ea_nodeName a) = Some n" "node_name n = ea_nodeName a"
  shows "rq_actions (prepare_action cur ed k a n st) = rq_actions st @ [(a, run_count (rq_runData st) (ea_nodeName a))]"
    and "\<exists>td. rq_runData (prepare_action cur ed k a n st) =
      obj_set (ea_nodeName a) (run_list (rq_runData st) (ea_nodeName a) @ [td]) (rq_runData st) \<and> td_data td = None"
    and "\<exists>r. rq_nodes (prepare_action cur ed k a n st) = rq_nodes st @ [r] \<and> ne_connection r =
      \<lparr>conn_node = ea_nodeName a, conn_type = ea_type a, conn_index = 0\<rparr> \<and>
      ne_nodeRunIndex r = run_count (rq_runData st) (ea_nodeName a) \<and> ne_parentOutputData r \<noteq> None"
    and "same_tables (rq_workflow st) (rq_workflow (prepare_action cur ed k a n st))"
proof -
  show "\<exists>td. rq_runData (prepare_action cur ed k a n st) =
      obj_set (ea_nodeName a) (run_list (rq_runData st) (ea_nodeName a) @ [td]) (rq_runData st) \<and> td_data td = None"
    unfolding prepare_action_def Let_def initializeNodeRunData_simp assms(2) prod.case request_state.simps
    by (rule exI, rule conjI, rule refl, simp)
qed (use assms in \<open>auto simp: prepare_action_def Let_def initializeNodeRunData_simp getNode_def\<close>)

lemma has_nodes_same: "same_tables w w' \<Longrightarrow> has_nodes w as \<Longrightarrow> has_nodes w' as"
  by (simp add: has_nodes_def)

lemma prepareRequestedNodes_ok:
  assumes "has_nodes (rq_workflow st) as"
  shows "\<exists>st' rs. prepareRequestedNodes cur ed k as st = (None, st') \<and>
    rq_actions st' = rq_actions st @ assigned (run_count (rq_runData st)) as \<and> rq_nodes st' = rq_nodes st @ rs \<and>
    map (\<lambda>r. (ne_connection r, ne_nodeRunIndex r)) rs = map (\<lambda>(a, i).
      (\<lparr>conn_node = ea_nodeName a, conn_type = ea_type a, conn_index = 0\<rparr>, i)) (assigned (run_count (rq_runData st)) as) \<and>
    (\<forall>r \<in> set rs. ne_parentOutputData r \<noteq> None) \<and> same_tables (rq_workflow st) (rq_workflow st') \<and>
    (\<forall>name. \<exists>new. run_list (rq_runData st') name = run_list (rq_runData st) name @ new \<and>
       length new = action_count as name \<and> (\<forall>td \<in> set new. td_data td = None))"
  using assms
proof (induction as arbitrary: st)
  case Nil
  then show ?case by (auto simp: action_count_def)
next
  case (Cons a as)
  obtain n where n: "getNode (rq_workflow st) (ea_nodeName a) = Some n" "node_name n = ea_nodeName a"
    using Cons.prems by (auto simp: has_nodes_def)
  note step = prepare_action_simps [OF n, of cur ed k]
  let ?st = "prepare_action cur ed k a n st"
  obtain td where td: "td_data td = None" "rq_runData ?st =
      obj_set (ea_nodeName a) (run_list (rq_runData st) (ea_nodeName a) @ [td]) (rq_runData st)"
    using step(2) by blast
  obtain r where r: "rq_nodes ?st = rq_nodes st @ [r]"
    "ne_connection r = \<lparr>conn_node = ea_nodeName a, conn_type = ea_type a, conn_index = 0\<rparr>"
    "ne_nodeRunIndex r = run_count (rq_runData st) (ea_nodeName a)" "ne_parentOutputData r \<noteq> None"
    using step(3) by blast
  have count: "run_count (rq_runData ?st) =
      (run_count (rq_runData st))(ea_nodeName a := Suc (run_count (rq_runData st) (ea_nodeName a)))"
    by (auto simp: td(2) run_count_def)
  have "has_nodes (rq_workflow ?st) as"
    by (rule has_nodes_same [OF step(4)]) (use Cons.prems in \<open>simp add: has_nodes_def\<close>)
  from Cons.IH [OF this] obtain st' rs where IH: "prepareRequestedNodes cur ed k as ?st = (None, st')"
    "rq_actions st' = rq_actions ?st @ assigned (run_count (rq_runData ?st)) as" "rq_nodes st' = rq_nodes ?st @ rs"
    "map (\<lambda>r. (ne_connection r, ne_nodeRunIndex r)) rs = map (\<lambda>(a, i).
      (\<lparr>conn_node = ea_nodeName a, conn_type = ea_type a, conn_index = 0\<rparr>, i)) (assigned (run_count (rq_runData ?st)) as)"
    "\<forall>r \<in> set rs. ne_parentOutputData r \<noteq> None" "same_tables (rq_workflow ?st) (rq_workflow st')"
    "\<forall>name. \<exists>new. run_list (rq_runData st') name = run_list (rq_runData ?st) name @ new \<and>
       length new = action_count as name \<and> (\<forall>td \<in> set new. td_data td = None)"
    by blast
  have new: "\<exists>new. run_list (rq_runData st') name = run_list (rq_runData st) name @ new \<and>
       length new = action_count (a # as) name \<and> (\<forall>td \<in> set new. td_data td = None)" for name
  proof -
    from IH(7) obtain new where new: "run_list (rq_runData st') name = run_list (rq_runData ?st) name @ new"
      "length new = action_count as name" "\<forall>td \<in> set new. td_data td = None" by blast
    then show ?thesis using td
      by (intro exI [of _ "(if name = ea_nodeName a then [td] else []) @ new"]) (auto simp: action_count_def)
  qed
  show ?case
    by (rule exI [of _ st'], rule exI [of _ "r # rs"])
      (use n IH(1-6) new step(1,4) r count in \<open>auto simp: case_prod_unfold\<close>)
qed


section \<open>Reading the metadata back\<close>

lemma index_of_json_of_nat [simp]: "index_of_json (Some (json_of_nat n)) = Some n"
  by (simp add: index_of_json_def json_of_nat_def)

lemma string_of_json_JStr [simp]: "string_of_json (Some (JStr s)) = s"
  by (simp add: string_of_json_def)

lemma source_of_json_of_source [simp]: "source_of_json (json_of_source s) = Some s"
  by (cases s) (auto simp: source_of_json_def json_of_source_def index_of_json_def json_of_nat_def split: option.split)

lemma action_of_json_of_action [simp]: "action_of_json (Some (json_of_action a)) = a"
  by (simp add: action_of_json_def json_of_action_def fields_of_def)

lemma sub_action_response_of_json:
  "sub_action_response rd (json_of_sub_action (a, i)) =
     (case arr_get (run_list rd (ea_nodeName a)) i of None \<Rightarrow> None | Some td \<Rightarrow> Some (a, td))"
  by (auto simp: sub_action_response_def json_of_sub_action_def fields_of_def run_list_def arr_get_def Let_def
      split: option.split)

lemma map_filter_Some: "(\<And>x. x \<in> set xs \<Longrightarrow> f (g x) = Some (h x)) \<Longrightarrow> List.map_filter f (map g xs) = map h xs"
  by (induction xs) (auto simp: List.map_filter_simps)

lemma responses_of_actions:
  assumes "ed_metadata ed = Some md" "obj_get md ''subNodeExecutionData'' = Some (subNodeExecutionData as metadata)"
    and "\<And>a i. (a, i) \<in> set as \<Longrightarrow> i < run_count rd (ea_nodeName a)"
  shows "collect_responses ed rd response = \<lparr>resp_actions = resp_actions response @
      map (\<lambda>(a, i). (a, run_list rd (ea_nodeName a) ! i)) as, resp_metadata = metadata\<rparr>"
proof -
  have "List.map_filter (sub_action_response rd) (map json_of_sub_action as) =
      map (\<lambda>(a, i). (a, run_list rd (ea_nodeName a) ! i)) as"
    by (rule map_filter_Some) (use assms(3) in \<open>auto simp: sub_action_response_of_json arr_get_def run_count_def\<close>)
  then show ?thesis using assms(1,2) by (simp add: collect_responses_def subNodeExecutionData_def)
qed

section \<open>Scheduling a request\<close>

definition requested_entry :: "workflow \<Rightarrow> node_to_execute \<Rightarrow> execute_data" where
  "requested_entry w n =
     \<lparr>ed_data = [(Main_type, replicate (conn_index (ne_connection n)) Null @ [success_slot (ne_parentOutputData n) 0])],
      ed_metadata = Some (ne_metadata n), ed_node = the (getNode w (conn_node (ne_connection n))),
      ed_source = Some [(Main_type, [Val (parent_source (ne_parentNode n) 0 (ne_runIndex n))])],
      ed_runIndex = Some (ne_nodeRunIndex n)\<rparr>"

definition single_input :: "workflow \<Rightarrow> node_to_execute \<Rightarrow> bool" where
  "single_input w n \<longleftrightarrow> number_of_inputs w (conn_node (ne_connection n)) \<le> 1 \<and> ne_parentOutputData n \<noteq> None \<and>
     getNode w (conn_node (ne_connection n)) \<noteq> None"

lemma add_requested_single: "single_input w n \<Longrightarrow> add_requested v1 w rd n q = Inr (enqueue v1 (requested_entry w n) q)"
  by (auto simp: single_input_def add_requested_def addNodeToBeExecuted_def add_single_def requested_entry_def)

lemma fold_enqueue:
  "fold (enqueue v1) es q = q\<lparr>eq_stack := (if v1 then rev es @ eq_stack q else eq_stack q @ es)\<rparr>"
  by (induction es arbitrary: q) (auto simp: enqueue_def)

lemma add_requested_all:
  assumes "\<forall>n \<in> set ns. single_input w n"
  shows "add_all_requested v1 w rd ns q = (None, q\<lparr>eq_stack :=
    (if v1 then rev (map (requested_entry w) ns) @ eq_stack q else eq_stack q @ map (requested_entry w) ns)\<rparr>)"
proof -
  have "add_all_requested v1 w rd ns q = (None, fold (\<lambda>n. enqueue v1 (requested_entry w n)) ns q)"
    using assms by (induction ns arbitrary: q) (simp_all add: add_requested_single)
  also have "fold (\<lambda>n. enqueue v1 (requested_entry w n)) ns q = fold (enqueue v1) (map (requested_entry w) ns) q"
    by (simp add: fold_map comp_def)
  finally show ?thesis by (simp add: fold_enqueue)
qed

text \<open>The node may ask for the actions: they name nodes with one input, and so is the node itself, which has a parent.\<close>

definition may_request :: "workflow \<Rightarrow> execute_data \<Rightarrow> engine_action list \<Rightarrow> bool" where
  "may_request w ed as \<longleftrightarrow> has_nodes w as \<and> (\<forall>a \<in> set as. number_of_inputs w (ea_nodeName a) \<le> 1) \<and>
     map_option node_name (getNode w (node_name (ed_node ed))) = Some (node_name (ed_node ed)) \<and>
     number_of_inputs w (node_name (ed_node ed)) \<le> 1 \<and> main_of (ed_data ed) \<noteq> None \<and>
     (case source_at ed 0 of None \<Rightarrow> False | Some s \<Rightarrow> previousNode s \<noteq> [])"

lemma number_of_inputs_same: "same_tables w w' \<Longrightarrow> number_of_inputs w' = number_of_inputs w"
  by (rule ext) (simp add: number_of_inputs_def)

text \<open>The entries of the requested nodes and of the node that resumes, and what the latter will read.\<close>

definition scheduled :: "execute_data \<Rightarrow> nat \<Rightarrow> engine_request \<Rightarrow> run_data \<Rightarrow> run_data \<Rightarrow> execute_data list \<Rightarrow> execute_data \<Rightarrow> bool" where
  "scheduled ed k request rd rd' requested resumed \<longleftrightarrow>
     map (\<lambda>e. (node_name (ed_node e), ed_runIndex e)) requested =
       map (\<lambda>(a, i). (ea_nodeName a, Some i)) (assigned (run_count rd) (er_actions request)) \<and>
     node_name (ed_node resumed) = node_name (ed_node ed) \<and> ed_runIndex resumed = Some k \<and>
     (\<forall>name. \<exists>new. run_list rd' name = run_list rd name @ new \<and> length new = action_count (er_actions request) name \<and>
        (\<forall>td \<in> set new. td_data td = None)) \<and>
     (\<forall>rd'' response. (\<forall>name. run_count rd' name \<le> run_count rd'' name) \<longrightarrow>
        collect_responses resumed rd'' response = \<lparr>resp_actions = resp_actions response @
          map (\<lambda>(a, i). (a, run_list rd'' (ea_nodeName a) ! i)) (assigned (run_count rd) (er_actions request)),
          resp_metadata = er_metadata request\<rparr>)"

text \<open>What preparing a request gives: the node that resumes and the requested nodes.\<close>

definition resume_node :: "execute_data \<Rightarrow> nat \<Rightarrow> engine_request \<Rightarrow> sub_action list \<Rightarrow> node_to_execute" where
  "resume_node ed k request as =
     \<lparr>ne_connection = \<lparr>conn_node = node_name (ed_node ed), conn_type = AiTool_type, conn_index = 0\<rparr>,
      ne_parentNode = (case source_at ed 0 of None \<Rightarrow> [] | Some s \<Rightarrow> previousNode s), ne_parentOutputData = main_of (ed_data ed),
      ne_runIndex = k, ne_nodeRunIndex = k,
      ne_metadata = [(''nodeWasResumed'', JBool True), (''subNodeExecutionData'', subNodeExecutionData as (er_metadata request))]
        @ resuming_metadata ed\<rparr>"

definition prepared :: "workflow \<Rightarrow> execute_data \<Rightarrow> nat \<Rightarrow> engine_request \<Rightarrow> run_data \<Rightarrow> run_data \<Rightarrow> workflow \<Rightarrow>
    node_to_execute list \<Rightarrow> bool" where
  "prepared w ed k request rd rd' w' ns \<longleftrightarrow>
     map (\<lambda>r. (ne_connection r, ne_nodeRunIndex r)) ns = map (\<lambda>(a, i).
       (\<lparr>conn_node = ea_nodeName a, conn_type = ea_type a, conn_index = 0\<rparr>, i)) (assigned (run_count rd) (er_actions request)) \<and>
     (\<forall>r \<in> set ns. ne_parentOutputData r \<noteq> None) \<and> same_tables w w' \<and>
     (\<forall>name. \<exists>new. run_list rd' name = run_list rd name @ new \<and> length new = action_count (er_actions request) name \<and>
        (\<forall>td \<in> set new. td_data td = None))"

lemma handleRequest_ok:
  assumes "may_request w ed (er_actions request)"
  shows "\<exists>ns w' rd'. prepared w ed k request rd rd' w' ns \<and> handleRequest w cur request k ed rd =
    (Inr (resume_node ed k request (assigned (run_count rd) (er_actions request)) # ns), w', rd')"
proof -
  let ?st = "\<lparr>rq_workflow = w, rq_runData = rd, rq_nodes = [], rq_actions = []\<rparr>"
  from assms have "has_nodes (rq_workflow ?st) (er_actions request)" by (simp add: may_request_def)
  from prepareRequestedNodes_ok [OF this, of cur ed k] obtain st' where
    st': "prepareRequestedNodes cur ed k (er_actions request) ?st = (None, st')"
    "rq_actions st' = assigned (run_count rd) (er_actions request)"
    "prepared w ed k request rd (rq_runData st') (rq_workflow st') (rq_nodes st')" by (auto simp: prepared_def)
  moreover obtain s where "source_at ed 0 = Some s" "previousNode s \<noteq> []"
    using assms by (auto simp: may_request_def split: option.splits)
  ultimately show ?thesis
    by (auto simp: handleRequest_def prepareRequestingNodeForResuming_def resume_node_def)
qed

lemma prepared_connections:
  assumes "prepared w ed k request rd rd' w' ns" "n \<in> set ns"
  shows "\<exists>a \<in> set (er_actions request). conn_node (ne_connection n) = ea_nodeName a"
proof -
  have "(ne_connection n, ne_nodeRunIndex n) \<in> set (map (\<lambda>r. (ne_connection r, ne_nodeRunIndex r)) ns)"
    using assms(2) by auto
  also have "\<dots> = set (map (\<lambda>(a, i). (\<lparr>conn_node = ea_nodeName a, conn_type = ea_type a, conn_index = 0\<rparr>, i))
      (assigned (run_count rd) (er_actions request)))" using assms(1) by (simp add: prepared_def)
  finally obtain a i where "(a, i) \<in> set (assigned (run_count rd) (er_actions request))"
    "conn_node (ne_connection n) = ea_nodeName a" by auto
  moreover from this(1) have "a \<in> set (er_actions request)"
    using assigned_fst [of "run_count rd" "er_actions request"] by (metis fst_conv image_eqI list.set_map)
  ultimately show ?thesis by blast
qed

lemma prepared_single:
  assumes "may_request w ed (er_actions request)" "prepared w ed k request rd rd' w' ns"
    and "n \<in> set (resume_node ed k request as # ns)"
  shows "single_input w' n \<and> node_name (ed_node (requested_entry w' n)) = conn_node (ne_connection n)"
proof -
  have same: "same_tables w w'" using assms(2) by (simp add: prepared_def)
  consider "n = resume_node ed k request as" | a where "n \<in> set ns" "a \<in> set (er_actions request)" "conn_node (ne_connection n) = ea_nodeName a"
    using assms(3) prepared_connections [OF assms(2)] by auto
  then have "number_of_inputs w (conn_node (ne_connection n)) \<le> 1 \<and> ne_parentOutputData n \<noteq> None \<and>
      map_option node_name (getNode w (conn_node (ne_connection n))) = Some (conn_node (ne_connection n))"
    using assms(1,2) by cases (auto simp: may_request_def has_nodes_def prepared_def resume_node_def)
  moreover have "map_option node_name (getNode w' (conn_node (ne_connection n))) =
      map_option node_name (getNode w (conn_node (ne_connection n)))" using same by blast
  ultimately show ?thesis using number_of_inputs_same [OF same]
    by (auto simp: single_input_def requested_entry_def)
qed

lemma prepared_scheduled:
  assumes "may_request w ed (er_actions request)" "prepared w ed k request rd rd' w' ns"
  shows "scheduled ed k request rd rd' (map (requested_entry w') ns)
    (requested_entry w' (resume_node ed k request (assigned (run_count rd) (er_actions request))))"
  (is "scheduled ed k request rd rd' ?requested ?resumed")
proof -
  let ?as = "assigned (run_count rd) (er_actions request)"
  note single = prepared_single [OF assms, where as = ?as]
  have "map (\<lambda>e. (node_name (ed_node e), ed_runIndex e)) ?requested =
      map (\<lambda>r. (conn_node (ne_connection r), Some (ne_nodeRunIndex r))) ns"
    using single by (auto simp: requested_entry_def)
  also have "\<dots> = map (\<lambda>(c, i). (conn_node c, Some i)) (map (\<lambda>r. (ne_connection r, ne_nodeRunIndex r)) ns)"
    by simp
  also have "\<dots> = map (\<lambda>(a, i). (ea_nodeName a, Some i)) ?as" using assms(2) by (auto simp: prepared_def)
  finally have stack: "map (\<lambda>e. (node_name (ed_node e), ed_runIndex e)) ?requested = map (\<lambda>(a, i). (ea_nodeName a, Some i)) ?as" .
  have resumed: "node_name (ed_node ?resumed) = node_name (ed_node ed)" "ed_runIndex ?resumed = Some k"
    using single [of "resume_node ed k request ?as"] by (auto simp: requested_entry_def resume_node_def)
  have "collect_responses ?resumed rd'' response = \<lparr>resp_actions = resp_actions response @
      map (\<lambda>(a, i). (a, run_list rd'' (ea_nodeName a) ! i)) ?as, resp_metadata = er_metadata request\<rparr>"
    if more: "\<forall>name. run_count rd' name \<le> run_count rd'' name" for rd'' response
  proof (rule responses_of_actions)
    show "ed_metadata ?resumed = Some (ne_metadata (resume_node ed k request ?as))" by (simp add: requested_entry_def)
    show "obj_get (ne_metadata (resume_node ed k request ?as)) ''subNodeExecutionData'' =
        Some (subNodeExecutionData ?as (er_metadata request))" by (simp add: resume_node_def)
    show "i < run_count rd'' (ea_nodeName a)" if "(a, i) \<in> set ?as" for a i
    proof -
      obtain new where "run_list rd' (ea_nodeName a) = run_list rd (ea_nodeName a) @ new"
        "length new = action_count (er_actions request) (ea_nodeName a)" using assms(2) unfolding prepared_def by blast
      then have "i < run_count rd' (ea_nodeName a)" using assigned_below [OF that] by (simp add: run_count_def)
      then show ?thesis using more by (meson less_le_trans)
    qed
  qed
  with stack resumed assms(2) show ?thesis unfolding scheduled_def prepared_def by blast
qed

lemma handleEngineRequest_ok:
  assumes "may_request w ed (er_actions request)"
  shows "\<exists>w' rd' requested resumed. handleEngineRequest v1 w cur request k ed rd q = (None, q\<lparr>eq_stack :=
      (if v1 then rev requested @ resumed # eq_stack q else eq_stack q @ resumed # requested)\<rparr>, w', rd') \<and>
    scheduled ed k request rd rd' requested resumed"
proof -
  let ?resume = "resume_node ed k request (assigned (run_count rd) (er_actions request))"
  from handleRequest_ok [OF assms, of k rd cur] obtain ns w' rd' where
    p: "prepared w ed k request rd rd' w' ns" "handleRequest w cur request k ed rd = (Inr (?resume # ns), w', rd')" by blast
  have "add_all_requested v1 w' rd' (?resume # ns) q = (None, q\<lparr>eq_stack :=
      (if v1 then rev (map (requested_entry w') ns) @ requested_entry w' ?resume # eq_stack q
       else eq_stack q @ requested_entry w' ?resume # map (requested_entry w') ns)\<rparr>)"
    using add_requested_all [of "?resume # ns" w'] prepared_single [OF assms p(1)] by (simp del: add_all_requested.simps)
  then show ?thesis using p(2) prepared_scheduled [OF assms p(1)]
    unfolding handleEngineRequest_def by (auto simp del: add_all_requested.simps)
qed


section \<open>Properties of requests\<close>

definition agent_workflow :: workflow where
  "agent_workflow = setConnections
     [(''t'', [(Main_type, [Some [\<lparr>conn_node = ''g'', conn_type = Main_type, conn_index = 0\<rparr>]])]),
      (''u'', [(AiTool_type, [Some [\<lparr>conn_node = ''g'', conn_type = AiTool_type, conn_index = 0\<rparr>]])])]
     (setNodes [plain_node ''t'' ''trigger'', plain_node ''g'' ''agent'', plain_node ''u'' ''tool'']
       \<lparr>wf_nodes = [], wf_connectionsBySourceNode = [], wf_connectionsByDestinationNode = [], wf_pinData = None,
        wf_staticData = [], wf_testStaticData = None\<rparr>)"

definition agent_entry :: execute_data where
  "agent_entry = \<lparr>ed_data = [(Main_type, [Val [empty_item]])], ed_metadata = None, ed_node = plain_node ''g'' ''agent'',
     ed_source = Some [(Main_type, [Val (parent_source ''t'' 0 0)])], ed_runIndex = None\<rparr>"

definition tool_call :: "string \<Rightarrow> engine_action" where
  "tool_call i = \<lparr>ea_nodeName = ''u'', ea_input = [(''x'', JNum 1)], ea_type = AiTool_type, ea_id = i, ea_metadata = []\<rparr>"

definition two_calls :: engine_request where
  "two_calls = \<lparr>er_actions = [tool_call ''1'', tool_call ''2''], er_metadata = JObj []\<rparr>"

lemma agent_may_request: "may_request agent_workflow agent_entry (er_actions two_calls)"
  by code_simp

text \<open>C8. In the order v1 the requested nodes run before the node that asked for them: they lie above it on the
  stack, each with a run of its own, and when the node resumes it reads the runs of its actions in their order.\<close>

theorem request_runs_tools_first:
  assumes "may_request w ed (er_actions request)"
  shows "\<exists>w' rd' requested resumed. handleEngineRequest True w cur request k ed rd q =
      (None, q\<lparr>eq_stack := rev requested @ resumed # eq_stack q\<rparr>, w', rd') \<and>
    scheduled ed k request rd rd' requested resumed"
  using handleEngineRequest_ok [OF assms, of True] by simp

lemma request_runs_tools_first_witness:
  "\<exists>w' rd' requested resumed. handleEngineRequest True agent_workflow (ed_node agent_entry) two_calls 0 agent_entry []
      \<lparr>eq_stack = [], eq_waiting = [], eq_waitingSource = []\<rparr> =
      (None, \<lparr>eq_stack = rev requested @ [resumed], eq_waiting = [], eq_waitingSource = []\<rparr>, w', rd') \<and>
    map (\<lambda>e. (node_name (ed_node e), ed_runIndex e)) requested = [(''u'', Some 0), (''u'', Some 1)]"
proof -
  let ?q = "\<lparr>eq_stack = [], eq_waiting = [], eq_waitingSource = []\<rparr>"
  from request_runs_tools_first [OF agent_may_request, of "ed_node agent_entry" 0 "[]" ?q] obtain w' rd' requested resumed where
    "handleEngineRequest True agent_workflow (ed_node agent_entry) two_calls 0 agent_entry [] ?q =
      (None, ?q\<lparr>eq_stack := rev requested @ resumed # eq_stack ?q\<rparr>, w', rd')"
    "scheduled agent_entry 0 two_calls [] rd' requested resumed" by blast
  then show ?thesis by (auto simp: scheduled_def two_calls_def tool_call_def run_count_def run_list_def)
qed

text \<open>In the legacy order the stack is a queue, so the node that asked resumes before the nodes it asked for, and
  reads runs without data.\<close>

theorem legacy_resumes_first:
  assumes "may_request w ed (er_actions request)"
  shows "\<exists>w' rd' requested resumed. handleEngineRequest False w cur request k ed rd q =
      (None, q\<lparr>eq_stack := eq_stack q @ resumed # requested\<rparr>, w', rd') \<and>
    scheduled ed k request rd rd' requested resumed \<and>
    map fst (resp_actions (collect_responses resumed rd' makeEngineResponse)) = er_actions request \<and>
    (\<forall>(a, td) \<in> set (resp_actions (collect_responses resumed rd' makeEngineResponse)). td_data td = None)"
proof -
  let ?as = "assigned (run_count rd) (er_actions request)"
  from handleEngineRequest_ok [OF assms, of False cur k rd q] obtain w' rd' requested resumed where
    r: "handleEngineRequest False w cur request k ed rd q = (None, q\<lparr>eq_stack := eq_stack q @ resumed # requested\<rparr>, w', rd')"
    "scheduled ed k request rd rd' requested resumed" by (simp only: if_False) blast
  then have read: "resp_actions (collect_responses resumed rd' makeEngineResponse) =
      map (\<lambda>(a, i). (a, run_list rd' (ea_nodeName a) ! i)) ?as"
    by (simp add: scheduled_def makeEngineResponse_def)
  have "td_data (run_list rd' (ea_nodeName a) ! i) = None" if "(a, i) \<in> set ?as" for a i
  proof -
    obtain new where "run_list rd' (ea_nodeName a) = run_list rd (ea_nodeName a) @ new" "\<forall>td \<in> set new. td_data td = None"
      "length new = action_count (er_actions request) (ea_nodeName a)" using r(2) unfolding scheduled_def by blast
    then show ?thesis using assigned_below [OF that] by (auto simp: run_count_def nth_append)
  qed
  then have "\<forall>(a, td) \<in> set (resp_actions (collect_responses resumed rd' makeEngineResponse)). td_data td = None"
    unfolding read by auto
  moreover have "map fst (map (\<lambda>(a, i). (a, run_list rd' (ea_nodeName a) ! i)) ?as) = er_actions request"
    using assigned_fst [of "run_count rd" "er_actions request"] by (simp add: comp_def case_prod_unfold)
  ultimately show ?thesis using r unfolding read [symmetric]
    by (intro exI [of _ w'] exI [of _ rd'] exI [of _ requested] exI [of _ resumed] conjI)
qed

lemma legacy_resumes_first_witness:
  "\<exists>w' rd' requested resumed. handleEngineRequest False agent_workflow (ed_node agent_entry) two_calls 0 agent_entry []
      \<lparr>eq_stack = [], eq_waiting = [], eq_waitingSource = []\<rparr> =
      (None, \<lparr>eq_stack = resumed # requested, eq_waiting = [], eq_waitingSource = []\<rparr>, w', rd') \<and> ed_runIndex resumed = Some 0"
proof -
  let ?q = "\<lparr>eq_stack = [], eq_waiting = [], eq_waitingSource = []\<rparr>"
  from legacy_resumes_first [OF agent_may_request, of "ed_node agent_entry" 0 "[]" ?q] obtain w' rd' requested resumed where
    "handleEngineRequest False agent_workflow (ed_node agent_entry) two_calls 0 agent_entry [] ?q =
      (None, ?q\<lparr>eq_stack := eq_stack ?q @ resumed # requested\<rparr>, w', rd')"
    "scheduled agent_entry 0 two_calls [] rd' requested resumed" by blast
  then show ?thesis by (auto simp: scheduled_def)
qed

text \<open>What a node asks for is written to the metadata of its entry and read back unchanged: the actions in their
  order with the recorded runs. The response keeps what it held before, so a second try reads every run twice.\<close>

theorem responses_read_back:
  assumes "obj_get md ''subNodeExecutionData'' = Some (subNodeExecutionData as metadata)" "ed_metadata ed = Some md"
    and "\<forall>(a, i) \<in> set as. i < run_count rd (ea_nodeName a)"
  shows "resp_actions (collect_responses ed rd makeEngineResponse) = map (\<lambda>(a, i). (a, run_list rd (ea_nodeName a) ! i)) as \<and>
    resp_metadata (collect_responses ed rd makeEngineResponse) = metadata \<and>
    (\<forall>n. resp_actions ((collect_responses ed rd ^^ n) makeEngineResponse) =
       concat (replicate n (map (\<lambda>(a, i). (a, run_list rd (ea_nodeName a) ! i)) as)))"
proof -
  have r: "collect_responses ed rd response = \<lparr>resp_actions = resp_actions response @
      map (\<lambda>(a, i). (a, run_list rd (ea_nodeName a) ! i)) as, resp_metadata = metadata\<rparr>" for response
    by (rule responses_of_actions [OF assms(2,1)]) (use assms(3) in auto)
  have comm: "concat (replicate n x) @ x = x @ concat (replicate n x)" for n and x :: "(engine_action \<times> task_data) list"
    by (induction n) auto
  have "resp_actions ((collect_responses ed rd ^^ n) makeEngineResponse) =
      concat (replicate n (map (\<lambda>(a, i). (a, run_list rd (ea_nodeName a) ! i)) as))" for n
    by (induction n) (auto simp: makeEngineResponse_def r comm)
  then show ?thesis by (simp add: r makeEngineResponse_def)
qed

definition resumed_entry :: execute_data where
  "resumed_entry = agent_entry\<lparr>ed_metadata := Some [(''subNodeExecutionData'',
     subNodeExecutionData [(tool_call ''1'', 0)] (JStr ''m''))]\<rparr>"

definition tool_run :: task_data where
  "tool_run = placeholder_run ''g'' 0 0 [Val [empty_item]]"

lemma responses_read_back_witness:
  "resp_actions ((collect_responses resumed_entry [(''u'', [tool_run])] ^^ 2) makeEngineResponse) =
     [(tool_call ''1'', tool_run), (tool_call ''1'', tool_run)]"
proof -
  have "\<forall>(a, i) \<in> set [(tool_call ''1'', 0)]. i < run_count [(''u'', [tool_run])] (ea_nodeName a)"
    by (simp add: tool_call_def run_count_def run_list_def)
  from responses_read_back [OF _ _ this, of _ "JStr ''m''" resumed_entry] have
    "\<forall>n. resp_actions ((collect_responses resumed_entry [(''u'', [tool_run])] ^^ n) makeEngineResponse) =
       concat (replicate n [(tool_call ''1'', tool_run)])"
    by (simp add: resumed_entry_def tool_call_def run_list_def)
  then show ?thesis by (simp add: numeral_2_eq_2 del: funpow.simps)
qed

section \<open>Requests that lose their context\<close>

definition without_context :: "inode \<Rightarrow> node_to_execute \<Rightarrow> bool" where
  "without_context cur n \<longleftrightarrow> (\<exists>it. ne_parentOutputData n = Some [Val [it]] \<and> item_pairedItem it = Some (PairedOne
     \<lparr>paired_item = 0, paired_input = Some 0, paired_sourceOverwrite = Some
       \<lparr>previousNode = node_name cur, previousNodeOutput = Some 0, previousNodeRun = Some 0\<rparr>\<rparr>))"

lemma prepare_action_context:
  assumes "source_at ed k = None" "\<not> has_custom_parent a"
  shows "\<exists>n'. rq_nodes (prepare_action cur ed k a n st) = rq_nodes st @ [n'] \<and> without_context cur n'"
  using assms by (simp add: prepare_action_def Let_def initializeNodeRunData_simp without_context_def buildParentOutputData_def
      parent_run_index_def parent_output_index_def parent_source_node_def)

lemma prepareRequestedNodes_context:
  assumes "source_at ed k = None"
  shows "\<forall>a \<in> set as. \<not> has_custom_parent a \<Longrightarrow> \<forall>n \<in> set (rq_nodes st). without_context cur n \<Longrightarrow>
    prepareRequestedNodes cur ed k as st = (None, st') \<Longrightarrow> \<forall>n \<in> set (rq_nodes st'). without_context cur n"
proof (induction as arbitrary: st)
  case (Cons a as)
  from Cons.prems(3) obtain n where n: "getNode (rq_workflow st) (ea_nodeName a) = Some n"
    "prepareRequestedNodes cur ed k as (prepare_action cur ed k a n st) = (None, st')" by (auto split: option.splits)
  have "\<forall>m \<in> set (rq_nodes (prepare_action cur ed k a n st)). without_context cur m"
    using prepare_action_context [OF assms, of a cur n st] Cons.prems(1,2) by fastforce
  then show ?case using Cons.IH [OF _ _ n(2)] Cons.prems(1) by simp
qed simp

text \<open>The source of the requesting node is looked up at its run index instead of its input: from its second run on
  the requested nodes lose where the items came from, and name the requesting node itself.\<close>

theorem later_runs_lose_source:
  assumes "handleRequest w cur request k ed rd = (Inr (resume # ns), w', rd')" "\<forall>a \<in> set (er_actions request). \<not> has_custom_parent a"
    and "ed_source ed = Some [(Main_type, [Val s])]" "0 < k"
  shows "\<forall>n \<in> set ns. without_context cur n"
proof -
  have "source_at ed k = None" using assms(3,4) by (simp add: source_at_def arr_get_def)
  note context_kept = prepareRequestedNodes_context [OF this assms(2)]
  let ?st = "\<lparr>rq_workflow = w, rq_runData = rd, rq_nodes = [], rq_actions = []\<rparr>"
  obtain e st' where p: "prepareRequestedNodes cur ed k (er_actions request) ?st = (e, st')" by fastforce
  with assms(1) have "e = None" "rq_nodes st' = ns" by (auto simp: handleRequest_def split: option.splits)
  then show ?thesis using context_kept [of ?st cur st'] p by simp
qed

lemma later_runs_lose_source_witness:
  "case handleRequest agent_workflow (ed_node agent_entry) two_calls 1 agent_entry [] of (Inr (r # ns), w', rd') \<Rightarrow>
     length ns = 2 \<and> (\<forall>n \<in> set ns. without_context (ed_node agent_entry) n)"
proof -
  from handleRequest_ok [OF agent_may_request, of 1 "[]" "ed_node agent_entry"] obtain ns w' rd' r where
    p: "prepared agent_workflow agent_entry 1 two_calls [] rd' w' ns"
    "handleRequest agent_workflow (ed_node agent_entry) two_calls 1 agent_entry [] = (Inr (r # ns), w', rd')" by blast
  have "length ns = 2" using p(1) [unfolded prepared_def, THEN conjunct1, THEN arg_cong [where f = length]]
    by (simp add: two_calls_def)
  moreover have "\<forall>n \<in> set ns. without_context (ed_node agent_entry) n"
    by (rule later_runs_lose_source [OF p(2)])
      (simp_all add: two_calls_def tool_call_def agent_entry_def has_custom_parent_def action_parent_def)
  ultimately show ?thesis unfolding p(2) by simp
qed

text \<open>Without a parent at the first input the request is ignored, but the runs of the requested nodes have been added.\<close>

lemma ignored_request_leaves_runs:
  assumes "has_nodes w (er_actions request)" "source_at ed 0 = None"
  shows "\<exists>w' rd'. handleRequest w cur request k ed rd = (Inr [], w', rd') \<and>
    (\<forall>name. run_count rd' name = run_count rd name + action_count (er_actions request) name)"
proof -
  let ?st = "\<lparr>rq_workflow = w, rq_runData = rd, rq_nodes = [], rq_actions = []\<rparr>"
  from assms(1) have "has_nodes (rq_workflow ?st) (er_actions request)" by simp
  from prepareRequestedNodes_ok [OF this, of cur ed k] obtain st' where
    st': "prepareRequestedNodes cur ed k (er_actions request) ?st = (None, st')"
    "\<forall>name. \<exists>new. run_list (rq_runData st') name = run_list (rq_runData ?st) name @ new \<and>
       length new = action_count (er_actions request) name \<and> (\<forall>td \<in> set new. td_data td = None)" by blast
  have "run_count (rq_runData st') name = run_count rd name + action_count (er_actions request) name" for name
    using st'(2) [rule_format, of name] by (auto simp: run_count_def)
  then show ?thesis using st'(1) assms(2) by (simp add: handleRequest_def prepareRequestingNodeForResuming_def)
qed

end
