(* ===== verification/Engine_Loop.thy ===== *)
theory Engine_Loop
  imports Engine_Requests
begin

text \<open>
  The loop of \<^verbatim>\<open>WorkflowExecute.processRunExecutionData\<close>: one turn takes a node
  from the stack, checks its input, runs it (with its retries), records the run and adds the
  nodes it leads to.

  What nodes do is an argument of the model: a function from the input, the number of the
  attempt and the response to an earlier request to the outputs, to a request for other nodes, or
  to the error thrown. Hooks, logging and binary data are left out. The clock gives one time per turn.

  A request changes the workflow: the requested nodes note where their output is logged. So the
  workflow is part of the state; an entry of the stack keeps the node as it was when it was added.
\<close>

section \<open>The state\<close>

record engine =
  en_workflow :: workflow
  en_queue :: engine_queue
  en_runData :: run_data
  en_lastNodeExecuted :: "string option"
  en_error :: "node_error option"
  en_waitTill :: bool
  en_status :: execution_status
  en_timedOut :: bool
  en_nextIndex :: nat
  en_lastTry :: "(string \<times> nat) option"
  en_executionError :: "node_error option"

text \<open>What a node did: it gave outputs or a request, and put the execution to wait or not; or an error.
  Only \<^verbatim>\<open>execute\<close> methods make requests.\<close>

datatype node_reply = Outputs node_outputs | Asks engine_request

type_synonym node_outcome = "node_error + (node_reply \<times> bool)"

type_synonym plain_outcome = "node_error + (node_outputs \<times> bool)"

record engine_env =
  ee_queue :: queue_env
  ee_destination :: "string option"
  ee_runNodeFilter :: "string list option"
  ee_pinData :: pin_data
  ee_manual :: bool
  ee_mainOutputs :: "inode \<Rightarrow> nat"
  ee_getPairedItem :: "string \<Rightarrow> source_data \<Rightarrow> paired_data \<Rightarrow> item option"
  ee_execute :: "inode \<Rightarrow> item list \<Rightarrow> task_data_connections \<Rightarrow> nat \<Rightarrow> nat \<Rightarrow> engine_response option \<Rightarrow> node_outcome"
  ee_declarative :: "inode \<Rightarrow> item list \<Rightarrow> task_data_connections \<Rightarrow> nat \<Rightarrow> nat \<Rightarrow> plain_outcome"
  ee_poll :: "inode \<Rightarrow> nat \<Rightarrow> plain_outcome"
  ee_trigger :: "inode \<Rightarrow> nat \<Rightarrow> plain_outcome"
  ee_clock :: "nat \<Rightarrow> nat"
  ee_duration :: "nat \<Rightarrow> nat"
  ee_timeout :: "nat option"
  ee_canceled :: "nat \<Rightarrow> bool"

abbreviation ee_workflow :: "engine_env \<Rightarrow> workflow" where
  "ee_workflow env \<equiv> qe_workflow (ee_queue env)"

abbreviation ee_v1 :: "engine_env \<Rightarrow> bool" where
  "ee_v1 env \<equiv> qe_v1 (ee_queue env)"

text \<open>The environment with the workflow as requests have changed it.\<close>

definition in_workflow :: "workflow \<Rightarrow> engine_env \<Rightarrow> engine_env" where
  "in_workflow w env = env\<lparr>ee_queue := (ee_queue env)\<lparr>qe_workflow := w\<rparr>\<rparr>"

section \<open>Running a node once\<close>

definition application_error :: "string \<Rightarrow> node_error" where
  "application_error msg = \<lparr>err_name = ''ApplicationError'', err_message = msg\<rparr>"

definition plain :: "plain_outcome \<Rightarrow> node_outcome" where
  "plain r = bindE r (\<lambda>(data, wait). Inr (Outputs data, wait))"

definition runNode ::
  "engine_env \<Rightarrow> node_error option \<Rightarrow> execute_data \<Rightarrow> nat \<Rightarrow> string option \<Rightarrow> engine_response option \<Rightarrow>
     nat \<Rightarrow> node_outcome" where
  "runNode env lastError ed runIndex lastNodeExecuted response attempt =
     (let node = ed_node ed; inputData = ed_data ed in
      if is_disabled node then Inr (Outputs (handleDisabledNode inputData), False)
      else (case qe_types (ee_queue env) node of
          None \<Rightarrow> Inl type_error
        | Some ty \<Rightarrow>
            let custom = getCustomOperation node ty \<noteq> None in
            (case prepareConnectionInputData (ee_v1 env) ty custom inputData of
               None \<Rightarrow> Inr (Outputs None, False)
             | Some connectionInputData \<Rightarrow>
                 bindE (rethrowLastNodeError lastNodeExecuted lastError node) (\<lambda>_.
                   let once = handleExecuteOnce node inputData in
                   if ent_execute ty \<or> custom
                   then ee_execute env node connectionInputData once runIndex attempt response
                   else if ent_poll ty then
                     (if ee_manual env then plain (ee_poll env node attempt) else Inr (Outputs (main_of once), False))
                   else if ent_trigger ty then
                     (if ee_manual env then plain (ee_trigger env node attempt) else Inr (Outputs (main_of once), False))
                   else if ent_supplyData ty then Inl (application_error
                     (''The node \"'' @ node_type node @ ''\" has a \"supplyData\" method but no \"execute\" method.''))
                   else if ent_webhook ty \<and> \<not> ent_requestDefaults ty then Inr (Outputs (main_of once), False)
                   else plain (ee_declarative env node connectionInputData once runIndex attempt)))))"

text \<open>\<^verbatim>\<open>data?.[0]?.[0]?.json?.error !== undefined\<close>\<close>

definition node_failed :: "node_outputs \<Rightarrow> bool" where
  "node_failed data = (case data of
       Some (out # outs) \<Rightarrow> (case slot_items out of
           it # its \<Rightarrow> obj_get (item_json it) ''error'' \<noteq> None
         | [] \<Rightarrow> False)
     | _ \<Rightarrow> False)"

section \<open>Retries\<close>

text \<open>
  The state of the tries of one turn. \<open>left\<close> below is \<^verbatim>\<open>maxTries - 1 - tryIndex\<close>;
  the number of runs so far is what tells the attempts of a node apart.
\<close>

record try_state =
  ts_data :: node_outputs
  ts_error :: "node_error option"
  ts_last :: "string option"
  ts_wait :: bool
  ts_runs :: nat
  ts_response :: engine_response
  ts_workflow :: workflow
  ts_runData :: run_data
  ts_queue :: engine_queue

definition max_tries :: "inode \<Rightarrow> nat" where
  "max_tries node = (if node_retryOnFail node
     then nat (min 5 (max 2 (case node_maxTries node of None \<Rightarrow> 3 | Some n \<Rightarrow> if n = 0 then 3 else n))) else 1)"

definition reply_failed :: "node_reply \<Rightarrow> bool" where
  "reply_failed r = (case r of Outputs data \<Rightarrow> node_failed data | Asks request \<Rightarrow> False)"

text \<open>The loop that runs the node again while its first item carries an error: what the last run
  gave, whether a run put the execution to wait, and what is left of both counts. Only the first run
  gets the response.\<close>

fun run_until_ok ::
  "(engine_response option \<Rightarrow> nat \<Rightarrow> node_outcome) \<Rightarrow> engine_response option \<Rightarrow> nat \<Rightarrow> nat \<Rightarrow> bool \<Rightarrow>
     (node_error + node_reply) \<times> bool \<times> nat \<times> nat" where
  "run_until_ok run response left runs wait =
     (case run response runs of
        Inl e \<Rightarrow> (Inl e, wait, left, Suc runs)
      | Inr (reply, w) \<Rightarrow>
          (case left of
             0 \<Rightarrow> (Inr reply, wait \<or> w, 0, Suc runs)
           | Suc left' \<Rightarrow>
               if reply_failed reply then run_until_ok run None left' (Suc runs) (wait \<or> w)
               else (Inr reply, wait \<or> w, left, Suc runs)))"

declare run_until_ok.simps [simp del]

text \<open>A try ends the turn, either without data or with a request, or gives data, or fails.\<close>

datatype try_result = TryEnded try_state | TryDone try_state | TryFailed nat try_state

text \<open>What follows a run inside the try block.\<close>

definition finish_try :: "engine_env \<Rightarrow> execute_data \<Rightarrow> nat \<Rightarrow> try_state \<Rightarrow> try_result" where
  "finish_try env ed left ts =
     (let failed = (\<lambda>t e. TryFailed left (t\<lparr>ts_error := Some e, ts_last := Some (node_name (ed_node ed))\<rparr>)) in
      case assignPairedItems (ts_data ts) ed of
        Inl e \<Rightarrow> failed ts e
      | Inr data \<Rightarrow>
          let ts1 = ts\<lparr>ts_data := data,
                ts_last := (if data \<noteq> None then Some (node_name (ed_node ed)) else ts_last ts)\<rparr> in
          (case always_output ed data of
             Inl e \<Rightarrow> failed ts1 e
           | Inr data' \<Rightarrow>
               let ts2 = ts1\<lparr>ts_data := data'\<rparr> in
               if data' = None \<and> \<not> ts_wait ts2 then TryEnded ts2 else TryDone ts2))"

definition pinned_of :: "engine_env \<Rightarrow> inode \<Rightarrow> item list option" where
  "pinned_of env node = (if is_disabled node then None else obj_get (ee_pinData env) (node_name node))"

text \<open>A request ends the turn, unless it throws.\<close>

definition ask :: "bool \<Rightarrow> execute_data \<Rightarrow> nat \<Rightarrow> engine_request \<Rightarrow> nat \<Rightarrow> try_state \<Rightarrow> try_result" where
  "ask v1 ed runIndex request left ts =
     (case handleEngineRequest v1 (ts_workflow ts) (ed_node ed) request runIndex ed (ts_runData ts) (ts_queue ts) of
        (r, q, w, runData) \<Rightarrow>
          let ts' = ts\<lparr>ts_workflow := w, ts_runData := runData, ts_queue := q\<rparr> in
          (case r of
             None \<Rightarrow> TryEnded ts'
           | Some e \<Rightarrow> TryFailed left (ts'\<lparr>ts_error := Some e, ts_last := Some (node_name (ed_node ed))\<rparr>)))"

text \<open>If a step after the run throws, the outputs stay as they were before the step.\<close>

definition use_data :: "engine_env \<Rightarrow> execute_data \<Rightarrow> nat \<Rightarrow> node_outputs \<Rightarrow> try_state \<Rightarrow> try_result" where
  "use_data env ed left data ts =
     (let ts1 = ts\<lparr>ts_data := data\<rparr> in
      case (data, node_onError (ed_node ed)) of
        (Some outs, Some ContinueErrorOutput) \<Rightarrow>
          (case handleNodeErrorOutput (ee_getPairedItem env) (ee_mainOutputs env (ed_node ed)) ed outs of
             Inl e \<Rightarrow> TryFailed left (ts1\<lparr>ts_error := Some e, ts_last := Some (node_name (ed_node ed))\<rparr>)
           | Inr outs' \<Rightarrow> finish_try env ed left (ts1\<lparr>ts_data := Some outs'\<rparr>))
      | _ \<Rightarrow> finish_try env ed left ts1)"

type_synonym node_run = "string option \<Rightarrow> engine_response option \<Rightarrow> nat \<Rightarrow> node_outcome"

definition one_try ::
  "engine_env \<Rightarrow> node_run \<Rightarrow> execute_data \<Rightarrow> nat \<Rightarrow> nat \<Rightarrow> try_state \<Rightarrow> try_result" where
  "one_try env run ed runIndex left ts =
     (let ts0 = ts\<lparr>ts_error := None\<rparr>; name = node_name (ed_node ed) in
      case pinned_of env (ed_node ed) of
        Some pinned \<Rightarrow> finish_try env ed left (ts0\<lparr>ts_data := Some [Val pinned]\<rparr>)
      | None \<Rightarrow>
          let response = collect_responses ed (ts_runData ts0) (ts_response ts0); ts1 = ts0\<lparr>ts_response := response\<rparr> in
          (case run_until_ok (run (ts_last ts1)) (Some response) left (ts_runs ts1) (ts_wait ts1) of
             (Inl e, wait, left', runs) \<Rightarrow>
               TryFailed left' (ts1\<lparr>ts_error := Some e, ts_last := Some name, ts_wait := wait, ts_runs := runs\<rparr>)
           | (Inr (Asks request), wait, left', runs) \<Rightarrow>
               ask (ee_v1 env) ed runIndex request left' (ts1\<lparr>ts_wait := wait, ts_runs := runs\<rparr>)
           | (Inr (Outputs data), wait, left', runs) \<Rightarrow>
               use_data env ed left' data (ts1\<lparr>ts_wait := wait, ts_runs := runs\<rparr>)))"

text \<open>Every run of the node uses up one of the tries.\<close>

lemma run_until_ok_counts:
  "run_until_ok run response left runs wait = (r, w, left', runs') \<Longrightarrow>
     runs' + left' = Suc (runs + left) \<and> left' \<le> left"
proof (induction left arbitrary: response runs wait)
  case 0
  then show ?case by (auto simp: run_until_ok.simps [of run response 0] split: sum.splits prod.splits)
next
  case (Suc left)
  then show ?case
    by (fastforce simp: run_until_ok.simps [of run response "Suc left"] split: sum.splits prod.splits if_splits)
qed

lemma finish_try_left:
  "finish_try env ed left ts = TryFailed left' ts' \<Longrightarrow> left' = left"
  by (auto simp: finish_try_def Let_def split: option.splits sum.splits if_splits)

lemma ask_left: "ask v1 ed k request left ts = TryFailed left' ts' \<Longrightarrow> left' = left"
  by (auto simp: ask_def Let_def split: prod.splits option.splits)

lemma use_data_left: "use_data env ed left data ts = TryFailed left' ts' \<Longrightarrow> left' = left"
  by (auto simp: use_data_def Let_def dest: finish_try_left split: option.splits sum.splits on_error.splits)

lemma one_try_left: "one_try env run ed k left ts = TryFailed left' ts' \<Longrightarrow> left' \<le> left"
  by (auto simp: one_try_def Let_def dest!: run_until_ok_counts finish_try_left ask_left use_data_left
      split: option.splits prod.splits sum.splits node_reply.splits)

text \<open>The for loop: whether the turn ends here, and the state of the last try.\<close>

function run_tries :: "engine_env \<Rightarrow> node_run \<Rightarrow> execute_data \<Rightarrow> nat \<Rightarrow> nat \<Rightarrow> try_state \<Rightarrow> bool \<times> try_state" where
  "run_tries env run ed runIndex left ts =
     (case one_try env run ed runIndex left ts of
        TryEnded ts' \<Rightarrow> (True, ts')
      | TryDone ts' \<Rightarrow> (False, ts')
      | TryFailed left' ts' \<Rightarrow> (case left' of
          0 \<Rightarrow> (False, ts')
        | Suc l \<Rightarrow> run_tries env run ed runIndex l ts'))"
  by pat_completeness auto
termination
  by (relation "measure (\<lambda>(env, run, ed, k, left, ts). left)") (auto dest: one_try_left)

declare run_tries.simps [simp del]

section \<open>Recording a run\<close>

definition run_index :: "run_data \<Rightarrow> execute_data \<Rightarrow> nat" where
  "run_index runData ed = (case ed_runIndex ed of
       Some r \<Rightarrow> r
     | None \<Rightarrow> (case obj_get runData (node_name (ed_node ed)) of None \<Rightarrow> 0 | Some runs \<Rightarrow> length runs))"

definition started_task :: "engine_env \<Rightarrow> nat \<Rightarrow> execute_data \<Rightarrow> task_data" where
  "started_task env executionIndex ed = \<lparr>
     td_startTime = ee_clock env executionIndex, td_executionIndex = Some executionIndex,
     td_source = (case ed_source ed of None \<Rightarrow> [] | Some source \<Rightarrow>
        (case obj_get source Main_type of None \<Rightarrow> [] | Some main \<Rightarrow> main)),
     td_executionTime = ee_duration env executionIndex, td_executionStatus = None, td_data = None,
     td_inputOverride = None, td_error = None, td_metadata = ed_metadata ed\<rparr>"

text \<open>\<^verbatim>\<open>Object.assign(currentTaskData, taskData)\<close>: what the new task does not set stays.\<close>

definition assign_task :: "task_data \<Rightarrow> task_data \<Rightarrow> task_data" where
  "assign_task old td = td\<lparr>
     td_data := (case td_data td of None \<Rightarrow> td_data old | d \<Rightarrow> d),
     td_inputOverride := (case td_inputOverride td of None \<Rightarrow> td_inputOverride old | d \<Rightarrow> d),
     td_error := (case td_error td of None \<Rightarrow> td_error old | e \<Rightarrow> e)\<rparr>"

definition ensure_runs :: "string \<Rightarrow> run_data \<Rightarrow> run_data" where
  "ensure_runs nodeName runData = (case obj_get runData nodeName of
       None \<Rightarrow> obj_set nodeName [] runData | Some runs \<Rightarrow> runData)"

text \<open>A run that is already there at the index is overwritten in place, otherwise the task is added.\<close>

definition put_task :: "run_data \<Rightarrow> string \<Rightarrow> nat \<Rightarrow> task_data \<Rightarrow> run_data" where
  "put_task runData nodeName runIndex td =
     (let runs = (case obj_get runData nodeName of None \<Rightarrow> [] | Some runs \<Rightarrow> runs)
      in obj_set nodeName (case arr_get runs runIndex of
           None \<Rightarrow> runs @ [td] | Some old \<Rightarrow> runs[runIndex := assign_task old td]) runData)"

text \<open>\<^verbatim>\<open>runData[name]?.[runIndex]?.inputOverride || {}\<close>\<close>

definition kept_override :: "run_data \<Rightarrow> string \<Rightarrow> nat \<Rightarrow> task_data_connections" where
  "kept_override runData nodeName runIndex =
     (case obj_get runData nodeName of
        None \<Rightarrow> []
      | Some runs \<Rightarrow> (case arr_get runs runIndex of
          None \<Rightarrow> []
        | Some td \<Rightarrow> (case td_inputOverride td of None \<Rightarrow> [] | Some d \<Rightarrow> d)))"

text \<open>The outputs of the run, under the connection type the node's output log is wired to.\<close>

definition with_outputs ::
  "run_data \<Rightarrow> inode \<Rightarrow> nat \<Rightarrow> item list slot list \<Rightarrow> task_data \<Rightarrow> task_data" where
  "with_outputs runData node runIndex outs td =
     (case node_rewireOutputLogTo node of
        None \<Rightarrow> td\<lparr>td_data := Some [(Main_type, outs)]\<rparr>
      | Some ty \<Rightarrow> td\<lparr>td_inputOverride := Some (kept_override runData (node_name node) runIndex),
            td_data := Some [(ty, outs)]\<rparr>)"

definition failed_task ::
  "run_data \<Rightarrow> inode \<Rightarrow> nat \<Rightarrow> node_error \<Rightarrow> task_data \<Rightarrow> task_data" where
  "failed_task runData node runIndex e td =
     (let td' = td\<lparr>td_error := Some e, td_executionStatus := Some ErrorStatus\<rparr>
      in if node_rewireOutputLogTo node = None then td'
         else with_outputs runData node runIndex
           [Val [empty_item\<lparr>item_json := [(''error'', JStr (err_message e))]\<rparr>]] td')"

section \<open>The children of a node\<close>

definition child_connections :: "workflow \<Rightarrow> string \<Rightarrow> (nat \<times> connection) list" where
  "child_connections w nodeName =
     concat (map (\<lambda>(outputIndex, c). map (Pair outputIndex) (cell c))
       (List.enumerate 0 (case cells_of (wf_connectionsBySourceNode w) nodeName Main_type of
          None \<Rightarrow> [] | Some arr \<Rightarrow> arr)))"

text \<open>A child gets the output if it has items, or in the legacy order an empty output at an
  input after the first.\<close>

definition child_wanted :: "bool \<Rightarrow> item list slot list \<Rightarrow> nat \<times> connection \<Rightarrow> bool" where
  "child_wanted v1 outs oc = (case arr_get outs (fst oc) of
       Some (Val xs) \<Rightarrow> xs \<noteq> [] \<or> (conn_index (snd oc) > 0 \<and> \<not> v1)
     | _ \<Rightarrow> False)"

definition destination_not_found :: node_error where
  "destination_not_found = application_error ''Destination node not found''"

definition position_of :: "workflow \<Rightarrow> nat \<times> connection \<Rightarrow> rat \<times> rat" where
  "position_of w oc = (case getNode w (conn_node (snd oc)) of None \<Rightarrow> (0, 0) | Some n \<Rightarrow> node_position n)"

text \<open>The comparator puts the lower and the more right node first: the last one added ends on
  top of the stack.\<close>

definition position_order :: "rat \<times> rat \<Rightarrow> rat \<times> rat \<Rightarrow> int" where
  "position_order a b =
     (if snd a < snd b then 1 else if snd a > snd b then -1 else if fst a > fst b then -1 else 0)"

definition nodes_to_add :: "workflow \<Rightarrow> string \<Rightarrow> item list slot list \<Rightarrow> node_error + (nat \<times> connection) list" where
  "nodes_to_add w nodeName outs =
     (if \<exists>oc \<in> set (child_connections w nodeName). getNode w (conn_node (snd oc)) = None then Inl destination_not_found
      else Inr (js_sort (\<lambda>a b. position_order (position_of w a) (position_of w b))
        (filter (child_wanted True outs) (child_connections w nodeName))))"

definition add_child ::
  "bool \<Rightarrow> workflow \<Rightarrow> run_data \<Rightarrow> string \<Rightarrow> item list slot list \<Rightarrow> nat \<Rightarrow> nat \<times> connection \<Rightarrow>
     engine_queue \<Rightarrow> node_error + engine_queue" where
  "add_child v1 w runData nodeName outs runIndex oc =
     addNodeToBeExecuted v1 w runData (snd oc) (fst oc) nodeName (Some outs) runIndex None None"

definition add_children ::
  "bool \<Rightarrow> workflow \<Rightarrow> run_data \<Rightarrow> string \<Rightarrow> item list slot list \<Rightarrow> nat \<Rightarrow>
     engine_queue \<Rightarrow> node_error + engine_queue" where
  "add_children v1 w runData nodeName outs runIndex q =
     (if v1 then bindE (nodes_to_add w nodeName outs) (\<lambda>ocs.
        foldE (add_child True w runData nodeName outs runIndex) ocs q)
      else foldE (\<lambda>oc q.
        if getNode w (conn_node (snd oc)) = None then Inl destination_not_found
        else if child_wanted False outs oc then add_child False w runData nodeName outs runIndex oc q
        else Inr q) (child_connections w nodeName) q)"

section \<open>One turn\<close>

text \<open>A turn goes on to the next one, leaves the loop, or throws out of it.\<close>

datatype turn_result = Continue engine | Leave engine | Throw node_error engine

definition set_queue :: "engine_queue \<Rightarrow> engine \<Rightarrow> engine" where
  "set_queue q st = st\<lparr>en_queue := q\<rparr>"

definition unshift :: "execute_data \<Rightarrow> engine \<Rightarrow> engine" where
  "unshift ed st = set_queue ((en_queue st)\<lparr>eq_stack := ed # eq_stack (en_queue st)\<rparr>) st"

text \<open>The children, and a waiting node if the stack is empty then.\<close>

definition add_next :: "engine_env \<Rightarrow> engine \<Rightarrow> string \<Rightarrow> item list slot list \<Rightarrow> nat \<Rightarrow> turn_result" where
  "add_next env st nodeName outs runIndex =
     (case bindE (add_children (ee_v1 env) (ee_workflow env) (en_runData st) nodeName outs runIndex (en_queue st)) (\<lambda>q.
             if eq_stack q = [] then pick_waiting (ee_queue env) q else Inr q) of
        Inl e \<Rightarrow> Throw e st
      | Inr q \<Rightarrow> Continue (set_queue q st))"

definition record_turn ::
  "engine_env \<Rightarrow> engine \<Rightarrow> execute_data \<Rightarrow> nat \<Rightarrow> node_outputs \<Rightarrow> task_data \<Rightarrow> turn_result" where
  "record_turn env st ed runIndex data td =
     (let node = ed_node ed in
      case bindE (case data of None \<Rightarrow> Inl type_error | Some outs \<Rightarrow> Inr outs) merge_errors of
        Inl e \<Rightarrow> Throw e st
      | Inr outs \<Rightarrow>
          let st' = st\<lparr>en_runData := put_task (en_runData st) (node_name node) runIndex
                (with_outputs (en_runData st) node runIndex outs td)\<rparr> in
          if en_waitTill st' then Leave (unshift ed st')
          else if ee_destination env = Some (node_name node) then Continue st'
          else add_next env st' (node_name node) outs runIndex)"

definition continues_on_error :: "inode \<Rightarrow> bool" where
  "continues_on_error node \<longleftrightarrow> node_continueOnFail node \<or>
     node_onError node = Some ContinueRegularOutput \<or> node_onError node = Some ContinueErrorOutput"

text \<open>A failed node that the workflow goes on after passes on its first input.\<close>

definition outputs_of_failed :: "execute_data \<Rightarrow> node_outputs \<Rightarrow> node_outputs" where
  "outputs_of_failed ed data = (case main_of (ed_data ed) of
       Some (input # inputs) \<Rightarrow> if input \<noteq> Null then Some [input] else data
     | _ \<Rightarrow> data)"

definition finish_turn :: "engine_env \<Rightarrow> engine \<Rightarrow> execute_data \<Rightarrow> nat \<Rightarrow> nat \<Rightarrow> node_outputs \<Rightarrow> turn_result" where
  "finish_turn env st ed runIndex executionIndex data =
     (let node = ed_node ed; name = node_name node;
          st0 = st\<lparr>en_runData := ensure_runs name (en_runData st)\<rparr>;
          td = (started_task env executionIndex ed)\<lparr>td_executionStatus :=
            Some (if en_waitTill st then Waiting else Success)\<rparr>
      in case en_executionError st of
           None \<Rightarrow> record_turn env st0 ed runIndex data td
         | Some e \<Rightarrow>
             if continues_on_error node
             then record_turn env st0 ed runIndex (outputs_of_failed ed data)
               (td\<lparr>td_error := Some e, td_executionStatus := Some ErrorStatus\<rparr>)
             else Leave (unshift ed (st0\<lparr>en_runData := put_task (en_runData st0) name runIndex
               (failed_task (en_runData st0) node runIndex e td)\<rparr>)))"

definition first_try :: "engine_env \<Rightarrow> engine \<Rightarrow> try_state" where
  "first_try env st = \<lparr>ts_data = None, ts_error = None, ts_last = en_lastNodeExecuted st, ts_wait = en_waitTill st,
     ts_runs = 0, ts_response = makeEngineResponse, ts_workflow = ee_workflow env, ts_runData = en_runData st,
     ts_queue = en_queue st\<rparr>"

definition tries_of :: "engine_env \<Rightarrow> engine \<Rightarrow> execute_data \<Rightarrow> nat \<Rightarrow> bool \<times> try_state" where
  "tries_of env st ed runIndex =
     run_tries env (runNode env (en_error st) ed runIndex) ed runIndex (max_tries (ed_node ed) - 1) (first_try env st)"

definition after_tries :: "try_state \<Rightarrow> engine \<Rightarrow> engine" where
  "after_tries ts st = st\<lparr>en_lastNodeExecuted := ts_last ts, en_waitTill := ts_wait ts, en_executionError := ts_error ts,
     en_workflow := ts_workflow ts, en_runData := ts_runData ts, en_queue := ts_queue ts\<rparr>"

definition run_turn :: "engine_env \<Rightarrow> engine \<Rightarrow> execute_data \<Rightarrow> nat \<Rightarrow> nat \<Rightarrow> turn_result" where
  "run_turn env st ed runIndex executionIndex =
     (case tries_of env st ed runIndex of (ended, ts) \<Rightarrow>
        if ended then Continue (after_tries ts st)
        else finish_turn (in_workflow (ts_workflow ts) env) (after_tries ts st) ed runIndex executionIndex (ts_data ts))"

text \<open>A request to cancel arrives between two turns; the timeout is looked at before each.\<close>

definition check_canceled :: "engine_env \<Rightarrow> engine \<Rightarrow> engine" where
  "check_canceled env st =
     (let st1 = (if ee_canceled env (en_nextIndex st)
            then st\<lparr>en_status := Canceled, en_runData := updateTaskStatusesToCancelled (en_runData st)\<rparr> else st)
      in case ee_timeout env of
           None \<Rightarrow> st1
         | Some t \<Rightarrow> if t \<le> ee_clock env (en_nextIndex st) then st1\<lparr>en_status := Canceled, en_timedOut := True\<rparr> else st1)"

definition take_turn :: "engine_env \<Rightarrow> engine \<Rightarrow> execute_data \<Rightarrow> nat \<Rightarrow> turn_result" where
  "take_turn env st ed executionIndex =
     (let name = node_name (ed_node ed); runIndex = run_index (en_runData st) ed in
      if en_lastTry st = Some (name, runIndex)
      then Throw (application_error ''Stopped execution because it seems to be in an endless loop'') st
      else if (case ee_runNodeFilter env of None \<Rightarrow> False | Some names \<Rightarrow> name \<notin> set names) then Continue st
      else (case ensureInputData (ee_v1 env) (ee_workflow env) ed (en_queue st) of
          Inl e \<Rightarrow> Throw e st
        | Inr (False, q) \<Rightarrow> Continue (set_queue q (st\<lparr>en_lastTry := Some (name, runIndex)\<rparr>))
        | Inr (True, q) \<Rightarrow> run_turn env st ed runIndex executionIndex))"

definition engine_turn :: "engine_env \<Rightarrow> engine \<Rightarrow> turn_result" where
  "engine_turn env st =
     (let st1 = check_canceled env st in
      if en_status st1 = Canceled then Leave st1
      else (case eq_stack (en_queue st1) of
          [] \<Rightarrow> Leave st1
        | ed # rest \<Rightarrow>
            let st2 = st1\<lparr>en_queue := (en_queue st1)\<lparr>eq_stack := rest\<rparr>, en_executionError := None,
                  en_nextIndex := Suc (en_nextIndex st1)\<rparr>
            in (case update_paired_inputs ed of
                  Inl e \<Rightarrow> Throw e st2
                | Inr ed' \<Rightarrow> take_turn (in_workflow (en_workflow st) env) st2 ed' (en_nextIndex st1))))"

end
