(* ===== verification/Engine_Run.thy ===== *)
theory Engine_Run
  imports Engine_Loop Execution_Stack
begin

text \<open>
  A whole execution: the loop over the turns, what comes before and after it
  (\<^verbatim>\<open>processRunExecutionData\<close>, \<^verbatim>\<open>processSuccessExecution\<close>), the check of
  the nodes, and the two ways to start: \<^verbatim>\<open>run\<close> and
  \<^verbatim>\<open>runPartialWorkflow2\<close>.

  Hooks, logging and the isolate of the expression engine are left out; an error while the
  execution is set up is an argument.
\<close>

section \<open>The loop\<close>

text \<open>How the loop ended: by itself, or by an exception.\<close>

datatype loop_result = Ended engine | Broken node_error engine

partial_function (option) engine_loop :: "engine_env \<Rightarrow> engine \<Rightarrow> loop_result option" where
  "engine_loop env st =
     (if eq_stack (en_queue st) = [] then Some (Ended st)
      else (case engine_turn env st of
          Continue st' \<Rightarrow> engine_loop env st'
        | Leave st' \<Rightarrow> Some (Ended st')
        | Throw e st' \<Rightarrow> Some (Broken e st')))"

declare engine_loop.simps [code]

text \<open>The same loop as a step relation.\<close>

inductive engine_step :: "engine_env \<Rightarrow> engine \<Rightarrow> engine \<Rightarrow> bool" for env where
  turn: "eq_stack (en_queue st) \<noteq> [] \<Longrightarrow> engine_turn env st = Continue st' \<Longrightarrow> engine_step env st st'"

inductive_simps engine_step_iff: "engine_step env st st'"

inductive reached :: "engine_env \<Rightarrow> engine \<Rightarrow> engine \<Rightarrow> bool" for env st0 where
  start: "reached env st0 st0"
| onward: "reached env st0 st \<Longrightarrow> engine_step env st st' \<Longrightarrow> reached env st0 st'"

section \<open>The end of an execution\<close>

definition cancel_error :: "bool \<Rightarrow> node_error" where
  "cancel_error timedOut =
     (if timedOut
      then \<lparr>err_name = ''TimeoutExecutionCancelledError'', err_message = ''The execution was cancelled because it timed out''\<rparr>
      else \<lparr>err_name = ''ManualExecutionCancelledError'', err_message = ''The execution was cancelled manually''\<rparr>)"

record run_result =
  rr_state :: engine
  rr_status :: execution_status
  rr_finished :: bool
  rr_waiting :: bool

definition processSuccessExecution ::
  "(string, task_metadata list) obj option \<Rightarrow> node_error option \<Rightarrow> engine \<Rightarrow> run_result" where
  "processSuccessExecution metadata executionError st =
     (let status = final_status executionError (en_waitTill st) in \<lparr>
       rr_state = st\<lparr>en_status := status, en_runData := moveNodeMetadata metadata (en_runData st),
         en_error := (case executionError of None \<Rightarrow> en_error st | e \<Rightarrow> e)\<rparr>,
       rr_status = status,
       rr_finished = (executionError = None \<and> \<not> en_waitTill st),
       rr_waiting = (executionError = None \<and> en_waitTill st)\<rparr>)"

definition process_result :: "(string, task_metadata list) obj option \<Rightarrow> loop_result \<Rightarrow> run_result" where
  "process_result metadata r = (case r of
       Ended st \<Rightarrow> processSuccessExecution metadata
         (if en_status st = Canceled \<and> en_executionError st = None then Some (cancel_error (en_timedOut st))
          else en_executionError st) st
     | Broken e st \<Rightarrow> \<lparr>
         rr_state = st\<lparr>en_error := Some e, en_runData := moveNodeMetadata metadata (en_runData st)\<rparr>,
         rr_status = en_status st, rr_finished = False, rr_waiting = False\<rparr>)"

section \<open>Before the loop\<close>

datatype start_error = GraphFailed graph_error | WorkflowFailed workflow_error
  | NoStartNode | ConnectATrigger | DestinationMissing | ToolExecutorMissing
  | WorkflowHasIssues | WaitingWithoutNode

fun lift_error :: "('e \<Rightarrow> start_error) \<Rightarrow> 'e + 'a \<Rightarrow> start_error + 'a" where
  "lift_error f (Inl e) = Inl (f e)"
| "lift_error f (Inr x) = Inr x"

datatype 'i node_issues = TypeUnknown | ParameterIssues 'i

definition check_nodes :: "workflow \<Rightarrow> string option \<Rightarrow> destination_node option \<Rightarrow> string list" where
  "check_nodes w startNode destinationNode =
     (case destinationNode of
        Some d \<Rightarrow> getParentNodes (wf_connectionsByDestinationNode w) (dest_nodeName d) (OnlyType Main_type) (-1) @
          (if dest_mode d = Inclusive then [dest_nodeName d] else [])
      | None \<Rightarrow> (case startNode of
            Some s \<Rightarrow> if s = [] then [] else getChildNodes (wf_connectionsBySourceNode w) s (OnlyType Main_type) (-1) @ [s]
          | None \<Rightarrow> []))"

text \<open>\<open>known\<close> tells whether the type of a node is known, \<open>issues\<close> stands for
  \<^verbatim>\<open>NodeHelpers.getNodeParametersIssues\<close>.\<close>

definition checkReadyForExecution ::
  "(inode \<Rightarrow> bool) \<Rightarrow> (inode \<Rightarrow> 'i option) \<Rightarrow> workflow \<Rightarrow> string option \<Rightarrow> destination_node option \<Rightarrow>
     (string, 'i node_issues) obj option" where
  "checkReadyForExecution known issues w startNode destinationNode =
     (let workflowIssues = fold (\<lambda>nodeName found.
            case getNode w nodeName of
              None \<Rightarrow> found
            | Some node \<Rightarrow>
                if is_disabled node then found
                else (case (if known node then map_option ParameterIssues (issues node) else Some TypeUnknown) of
                    None \<Rightarrow> found
                  | Some i \<Rightarrow> obj_set (node_name node) i found))
          (check_nodes w startNode destinationNode) []
      in if workflowIssues = [] then None else Some workflowIssues)"

definition handleWaitingState :: "engine \<Rightarrow> start_error + engine" where
  "handleWaitingState st =
     (if \<not> en_waitTill st then Inr st
      else (case (eq_stack (en_queue st), en_lastNodeExecuted st) of
          (e # es, Some lastNode) \<Rightarrow> (case obj_get (en_runData st) lastNode of
              None \<Rightarrow> Inl WaitingWithoutNode
            | Some runs \<Rightarrow> Inr (st\<lparr>en_waitTill := False,
                en_queue := (en_queue st)\<lparr>eq_stack := e\<lparr>ed_node := (ed_node e)\<lparr>node_disabled := Some True\<rparr>\<rparr> # es\<rparr>,
                en_runData := obj_set lastNode (butlast runs) (en_runData st)\<rparr>))
        | _ \<Rightarrow> Inl WaitingWithoutNode))"

text \<open>An error while the execution is set up: the data of the first node is all that is kept.\<close>

definition failed_setup :: "engine_env \<Rightarrow> node_error \<Rightarrow> engine \<Rightarrow> loop_result" where
  "failed_setup env e st = (case eq_stack (en_queue st) of
       [] \<Rightarrow> Broken type_error (st\<lparr>en_executionError := Some e\<rparr>)
     | ed # eds \<Rightarrow> Broken e (st\<lparr>en_executionError := Some e,
         en_runData := [(node_name (ed_node ed), [\<lparr>td_startTime = ee_clock env 0, td_executionIndex = Some 0, td_source = [],
           td_executionTime = 0, td_executionStatus = Some ErrorStatus,
           td_data = Some (case main_of (ed_data ed) of None \<Rightarrow> [] | Some main \<Rightarrow> [(Main_type, main)]),
           td_inputOverride = None, td_error = None, td_metadata = None\<rparr>])],
         en_lastNodeExecuted := Some (node_name (ed_node ed)), en_error := Some e\<rparr>))"

text \<open>\<open>setup\<close> is the error of the setup, if there is one; the loop may run forever.\<close>

definition processRunExecutionData ::
  "(inode \<Rightarrow> 'i option) \<Rightarrow> node_error option \<Rightarrow> (string, task_metadata list) obj option \<Rightarrow> engine_env \<Rightarrow>
     destination_node option \<Rightarrow> engine \<Rightarrow> start_error + run_result option" where
  "processRunExecutionData issues setup metadata env destinationNode st =
     (let st1 = st\<lparr>en_status := Running\<rparr>;
          startNode = (case eq_stack (en_queue st) of [] \<Rightarrow> None | ed # eds \<Rightarrow> Some (node_name (ed_node ed)))
      in if checkReadyForExecution (\<lambda>n. qe_types (ee_queue env) n \<noteq> None) issues (en_workflow st1) startNode destinationNode \<noteq> None
         then Inl WorkflowHasIssues
         else bindE (handleWaitingState st1) (\<lambda>st2.
           Inr (case setup of
              Some e \<Rightarrow> Some (process_result metadata (failed_setup env e st2))
            | None \<Rightarrow> map_option (process_result metadata)
                (engine_loop env (st2\<lparr>en_lastTry := None, en_executionError := None\<rparr>)))))"

section \<open>Starting an execution\<close>

text \<open>\<^verbatim>\<open>createRunExecutionData\<close>, with the index of the next node.\<close>

definition new_engine :: "workflow \<Rightarrow> engine_queue \<Rightarrow> run_data \<Rightarrow> nat \<Rightarrow> engine" where
  "new_engine w q runData nextIndex = \<lparr>en_workflow = w, en_queue = q, en_runData = runData, en_lastNodeExecuted = None,
     en_error = None, en_waitTill = False, en_status = Running, en_timedOut = False, en_nextIndex = nextIndex,
     en_lastTry = None, en_executionError = None\<rparr>"

definition start_data :: "engine_env \<Rightarrow> destination_node option \<Rightarrow> string list option \<Rightarrow> pin_data option \<Rightarrow> engine_env" where
  "start_data env destinationNode runNodeFilter pinData = env\<lparr>
     ee_destination := map_option dest_nodeName destinationNode, ee_runNodeFilter := runNodeFilter,
     ee_pinData := (case pinData of None \<Rightarrow> [] | Some p \<Rightarrow> p)\<rparr>"

definition run_filter :: "workflow \<Rightarrow> string list option \<Rightarrow> destination_node \<Rightarrow> string list" where
  "run_filter w additionalRunFilterNodes d =
     (let parents = getParentNodes (wf_connectionsByDestinationNode w) (dest_nodeName d)
      in set_of_list (parents (OnlyType Main_type) (-1) @ parents AllNonMain (-1) @
           (if dest_mode d = Inclusive then [dest_nodeName d] else []) @
           (case additionalRunFilterNodes of None \<Rightarrow> [] | Some ns \<Rightarrow> ns)))"

definition start_entry :: "inode \<Rightarrow> task_data_connections option \<Rightarrow> execute_data" where
  "start_entry node triggerData = \<lparr>
     ed_data = (case triggerData of None \<Rightarrow> [(Main_type, [Val [empty_item]])] | Some d \<Rightarrow> d),
     ed_metadata = None, ed_node = node, ed_source = None, ed_runIndex = None\<rparr>"

definition run ::
  "node_types \<Rightarrow> engine_env \<Rightarrow> inode option \<Rightarrow> destination_node option \<Rightarrow> pin_data option \<Rightarrow>
     task_data_connections option \<Rightarrow> string list option \<Rightarrow> nat \<Rightarrow> start_error + (engine_env \<times> engine)" where
  "run types env startNode destinationNode pinData triggerData additionalRunFilterNodes nextIndex =
     bindE (case startNode of
         Some n \<Rightarrow> Inr (Some n)
       | None \<Rightarrow> lift_error WorkflowFailed
           (getStartNode types (ee_workflow env) (map_option dest_nodeName destinationNode))) (\<lambda>chosen.
       case chosen of
         None \<Rightarrow> Inl NoStartNode
       | Some n \<Rightarrow> Inr (
           start_data env destinationNode
             (map_option (run_filter (ee_workflow env) additionalRunFilterNodes) destinationNode) pinData,
           new_engine (ee_workflow env) \<lparr>eq_stack = [start_entry n triggerData], eq_waiting = [], eq_waitingSource = []\<rparr> [] nextIndex))"

section \<open>Starting a partial execution\<close>

text \<open>\<^verbatim>\<open>NodeHelpers.isTool\<close>: the first output given by its name decides.\<close>

datatype output_description = OutputName string | OutputObject string

fun tool_output :: "output_description list \<Rightarrow> bool" where
  "tool_output [] = False"
| "tool_output (OutputName ty # outs) = (ty = AiTool_type)"
| "tool_output (OutputObject ty # outs) = (ty = AiTool_type \<or> tool_output outs)"

text \<open>A type has its name and, unless they are an expression, its outputs.\<close>

definition isTool :: "string \<Rightarrow> output_description list option \<Rightarrow> (string, json) obj \<Rightarrow> bool" where
  "isTool typeName outputs parameters =
     (if string_includes ''vectorStore'' typeName
      then obj_get parameters ''mode'' = Some (JStr ''retrieve-as-tool'')
      else (case outputs of None \<Rightarrow> False | Some outs \<Rightarrow> tool_output outs))"

record partial_env =
  pe_types :: node_types
  pe_outputs :: "inode \<Rightarrow> (string \<times> output_description list option) option"
  pe_parameters :: "node_type \<Rightarrow> inode \<Rightarrow> (string, json) obj option"
  pe_stringify :: "json \<Rightarrow> string"
  pe_localeCompare :: "string \<Rightarrow> string \<Rightarrow> int"

definition tool_executor_name :: string where
  "tool_executor_name = ''PartialExecutionToolExecutor''"

text \<open>What is executed: for a tool the rewired workflow, its graph and the executor of the tool.\<close>

definition partial_target ::
  "partial_env \<Rightarrow> workflow \<Rightarrow> destination_node \<Rightarrow> agent_request option \<Rightarrow>
     start_error + (workflow \<times> graph \<times> inode \<times> destination_node)" where
  "partial_target pe w destinationNode agentRequest =
     (case getNode w (dest_nodeName destinationNode) of
        None \<Rightarrow> Inl DestinationMissing
      | Some destination \<Rightarrow>
          bindE (lift_error GraphFailed (fromWorkflow (wf_nodes w) (wf_connectionsBySourceNode w))) (\<lambda>g.
            case pe_outputs pe destination of
              None \<Rightarrow> Inl (GraphFailed UndefinedProperty)
            | Some (typeName, outputs) \<Rightarrow>
                if \<not> isTool typeName outputs (node_parameters destination)
                then Inr (w, g, destination, destinationNode)
                else bindE (lift_error GraphFailed (rewireGraph (pe_stringify pe) destination g agentRequest)) (\<lambda>g'.
                  bindE (lift_error GraphFailed (toWorkflow g')) (\<lambda>(nodes, conns).
                    let w' = new_workflow (pe_types pe) (pe_parameters pe) nodes conns (wf_pinData w) (Some (wf_staticData w))
                    in case getNode w' tool_executor_name of
                         None \<Rightarrow> Inl ToolExecutorMissing
                       | Some toolExecutor \<Rightarrow>
                           Inr (w', g', toolExecutor, \<lparr>dest_nodeName = node_name toolExecutor, dest_mode = Inclusive\<rparr>)))))"

text \<open>The trigger, or else the closest parent that has run data.\<close>

definition partial_trigger ::
  "partial_env \<Rightarrow> workflow \<Rightarrow> string \<Rightarrow> run_data \<Rightarrow> start_error + inode" where
  "partial_trigger pe w destinationName runData =
     bindE (lift_error GraphFailed (findTriggerForPartialExecution (pe_types pe) w destinationName runData)) (\<lambda>found.
       case found of
         Some trigger \<Rightarrow> Inr trigger
       | None \<Rightarrow>
           (case find (\<lambda>name. obj_get runData name \<noteq> None)
               (getParentNodes (wf_connectionsByDestinationNode w) destinationName (OnlyType Main_type) (-1)) of
              None \<Rightarrow> Inl ConnectATrigger
            | Some name \<Rightarrow> (case getNode w name of None \<Rightarrow> Inl ConnectATrigger | Some n \<Rightarrow> Inr n)))"

text \<open>Steps 2 to 7: the sub-graph, the run data that stays, and the stack.\<close>

definition partial_stack ::
  "partial_env \<Rightarrow> graph \<Rightarrow> inode \<Rightarrow> inode \<Rightarrow> run_data \<Rightarrow> pin_data \<Rightarrow> string list \<Rightarrow>
     graph_error + (graph \<times> run_data \<times> stack_state)" where
  "partial_stack pe g destination trigger runData pinData dirtyNodeNames =
     bindE (filterDisabledNodes g) (\<lambda>filtered.
     bindE (findSubgraph filtered destination trigger) (\<lambda>subgraph.
     bindE (cleanRunData runData subgraph (getNodesByNames dirtyNodeNames subgraph)) (\<lambda>runData1.
     bindE (findStartNodes subgraph trigger destination pinData runData1) (\<lambda>startNodes0.
     bindE (handleCycles subgraph startNodes0 trigger) (\<lambda>startNodes.
     bindE (cleanRunData runData1 subgraph startNodes) (\<lambda>runData2.
     bindE (recreateNodeExecutionStack (pe_localeCompare pe) subgraph startNodes runData2 pinData) (\<lambda>st.
       Inr (subgraph, runData2, st))))))))"

definition runPartialWorkflow2 ::
  "partial_env \<Rightarrow> engine_env \<Rightarrow> run_data \<Rightarrow> pin_data \<Rightarrow> string list \<Rightarrow> destination_node \<Rightarrow> agent_request option \<Rightarrow>
     start_error + (engine_env \<times> destination_node \<times> engine)" where
  "runPartialWorkflow2 pe env runData pinData dirtyNodeNames destinationNode agentRequest =
     bindE (partial_target pe (ee_workflow env) destinationNode agentRequest) (\<lambda>(w, g, destination, destinationNode').
     bindE (partial_trigger pe w (dest_nodeName destinationNode') runData) (\<lambda>trigger.
     bindE (lift_error GraphFailed (partial_stack pe g destination trigger runData pinData dirtyNodeNames))
       (\<lambda>(subgraph, runData', st).
         Inr (start_data (env\<lparr>ee_queue := (ee_queue env)\<lparr>qe_workflow := w\<rparr>\<rparr>) (Some destinationNode')
                (Some (map node_name (obj_values (g_nodes subgraph)))) (Some pinData),
              destinationNode',
              new_engine w \<lparr>eq_stack = ss_stack st, eq_waiting = ss_waiting st, eq_waitingSource = ss_waitingSource st\<rparr>
                runData' (getNextExecutionIndex runData')))))"

end
