(* ===== verification/Request_Effects.thy ===== *)
theory Request_Effects
  imports Request_Facts Engine_Run
begin

text \<open>
  Requests within the loop: which ones a node may make, what handling one leaves as it was, and what
  the tries of a turn do to the workflow, the run data and the queue.
\<close>

section \<open>The requests a node may make\<close>

text \<open>The node may make the request when it runs with the response.\<close>

definition asks :: "engine_env \<Rightarrow> inode \<Rightarrow> engine_response option \<Rightarrow> engine_request \<Rightarrow> bool" where
  "asks env node response request \<longleftrightarrow> (\<exists>items inputData runIndex attempt wait.
     ee_execute env node items inputData runIndex attempt response = Inr (Asks request, wait))"

text \<open>The metadata of the response an entry gets, and the requests it may make.\<close>

definition entry_metadata :: "execute_data \<Rightarrow> json" where
  "entry_metadata ed = resp_metadata (collect_responses ed [] makeEngineResponse)"

definition may_ask :: "engine_env \<Rightarrow> execute_data \<Rightarrow> engine_request \<Rightarrow> bool" where
  "may_ask env ed request \<longleftrightarrow> (\<exists>response. asks env (ed_node ed) response request \<and>
     (case response of None \<Rightarrow> True | Some r \<Rightarrow> resp_metadata r = entry_metadata ed))"

lemma asksI: "ee_execute env node items inputData runIndex attempt response = Inr (Asks request, wait) \<Longrightarrow>
   asks env node response request"
  unfolding asks_def by blast

lemma runNode_asks: "runNode env lastError ed k lst response attempt = Inr (Asks req, w) \<Longrightarrow>
   asks env (ed_node ed) response req"
  by (auto simp: runNode_def Let_def plain_def bindE_Inr_iff intro: asksI split: if_splits option.splits)

lemma run_until_ok_asks:
  assumes "run_until_ok (runNode env lastError ed k lst) response left runs wait = (Inr (Asks req), w, l, n)"
  shows "asks env (ed_node ed) response req \<or> asks env (ed_node ed) None req"
  using assms
proof (induction left arbitrary: response runs wait)
  case 0
  then show ?case
    by (auto simp: run_until_ok.simps [of _ response 0] dest: runNode_asks split: sum.splits prod.splits)
next
  case (Suc left)
  show ?case
  proof (cases "runNode env lastError ed k lst response runs")
    case (Inl e)
    then show ?thesis using Suc.prems by (simp add: run_until_ok.simps [of _ response "Suc left"])
  next
    case (Inr rw)
    then obtain reply w' where r: "runNode env lastError ed k lst response runs = Inr (reply, w')" by (cases rw) simp
    show ?thesis
    proof (cases "reply_failed reply")
      case True
      then have "run_until_ok (runNode env lastError ed k lst) None left (Suc runs) (wait \<or> w') = (Inr (Asks req), w, l, n)"
        using Suc.prems r by (simp add: run_until_ok.simps [of _ response "Suc left"])
      from Suc.IH [OF this] show ?thesis by blast
    next
      case False
      then have "reply = Asks req" using Suc.prems r by (simp add: run_until_ok.simps [of _ response "Suc left"])
      then show ?thesis using r by (blast dest: runNode_asks)
    qed
  qed
qed

section \<open>What handling a request leaves as it was\<close>

lemma same_tables_trans: "same_tables w w' \<Longrightarrow> same_tables w' w'' \<Longrightarrow> same_tables w w''"
  by simp

text \<open>A placeholder is a run with the index 0 and without a status.\<close>

definition is_placeholder :: "task_data \<Rightarrow> bool" where
  "is_placeholder td \<longleftrightarrow> td_executionStatus td = None \<and> td_executionIndex td = Some 0"

text \<open>The entries a request may lead to: one of a requested node, or the one of the node itself.\<close>

definition may_schedule :: "execute_data \<Rightarrow> engine_request \<Rightarrow> node_to_execute \<Rightarrow> bool" where
  "may_schedule ed request n \<longleftrightarrow> conn_index (ne_connection n) = 0 \<and>
     ((\<exists>a \<in> set (er_actions request). conn_node (ne_connection n) = ea_nodeName a) \<and>
        obj_get (ne_metadata n) ''subNodeExecutionData'' = None \<or>
      conn_node (ne_connection n) = node_name (ed_node ed) \<and>
        (\<exists>as. obj_get (ne_metadata n) ''subNodeExecutionData'' = Some (subNodeExecutionData as (er_metadata request))))"

lemma prepare_action_workflow:
  "getNode (rq_workflow st) (ea_nodeName a) = Some n \<Longrightarrow> same_tables (rq_workflow st) (rq_workflow (prepare_action cur ed k a n st))"
  by (auto simp: prepare_action_def Let_def initializeNodeRunData_simp getNode_def)

lemma prepare_action_nodes:
  "\<exists>r. rq_nodes (prepare_action cur ed k a n st) = rq_nodes st @ [r] \<and> conn_node (ne_connection r) = ea_nodeName a \<and>
     conn_index (ne_connection r) = 0 \<and> obj_get (ne_metadata r) ''subNodeExecutionData'' = None"
  by (simp add: prepare_action_def Let_def initializeNodeRunData_simp)

lemma prepare_action_runs:
  "\<exists>td. is_placeholder td \<and> rq_runData (prepare_action cur ed k a n st) =
     obj_set (node_name n) (run_list (rq_runData st) (node_name n) @ [td]) (rq_runData st)"
  unfolding prepare_action_def Let_def initializeNodeRunData_simp prod.case request_state.simps
  by (rule exI, rule conjI [rotated], rule refl) (simp add: is_placeholder_def placeholder_run_def)

lemma prepareRequestedNodes_effect:
  assumes "prepareRequestedNodes cur ed k as st = (r, st')" "set as \<subseteq> set (er_actions request)"
    and "\<forall>n \<in> set (rq_nodes st). may_schedule ed request n" "same_tables w (rq_workflow st)" "P (rq_runData st)"
    and "\<And>rd a n td. P rd \<Longrightarrow> a \<in> set (er_actions request) \<Longrightarrow>
      map_option node_name (getNode w (ea_nodeName a)) = Some n \<Longrightarrow> is_placeholder td \<Longrightarrow>
      P (obj_set n (run_list rd n @ [td]) rd)"
  shows "(\<forall>n \<in> set (rq_nodes st'). may_schedule ed request n) \<and> same_tables w (rq_workflow st') \<and> P (rq_runData st')"
  using assms(1-5)
proof (induction as arbitrary: st)
  case (Cons a as)
  show ?case
  proof (cases "getNode (rq_workflow st) (ea_nodeName a)")
    case None
    then show ?thesis using Cons.prems by simp
  next
    case (Some n)
    let ?st = "prepare_action cur ed k a n st"
    from prepare_action_nodes [of cur ed k a n st] obtain x where "rq_nodes ?st = rq_nodes st @ [x]"
      "conn_node (ne_connection x) = ea_nodeName a" "conn_index (ne_connection x) = 0"
      "obj_get (ne_metadata x) ''subNodeExecutionData'' = None" by blast
    then have nodes: "\<forall>n \<in> set (rq_nodes ?st). may_schedule ed request n"
      using Cons.prems(2,3) by (auto simp: may_schedule_def)
    have w: "same_tables w (rq_workflow ?st)"
      using same_tables_trans [OF Cons.prems(4) prepare_action_workflow [OF Some]] .
    have "map_option node_name (getNode w (ea_nodeName a)) = map_option node_name (getNode (rq_workflow st) (ea_nodeName a))"
      using Cons.prems(4) by metis
    then have n: "map_option node_name (getNode w (ea_nodeName a)) = Some (node_name n)" using Some by simp
    from prepare_action_runs [where cur = cur and ed = ed and k = k and a = a and n = n and st = st] obtain td where
      "is_placeholder td" "rq_runData ?st = obj_set (node_name n) (run_list (rq_runData st) (node_name n) @ [td]) (rq_runData st)"
      by blast
    then have "P (rq_runData ?st)" using assms(6) [OF Cons.prems(5) _ n] Cons.prems(2) by simp
    from Cons.IH [OF _ _ nodes w this] Cons.prems(1,2) Some show ?thesis by simp
  qed
qed simp

lemma handleRequest_effect:
  assumes "handleRequest w cur request k ed rd = (r, w', rd')" "P rd"
    and "\<And>rd a n td. P rd \<Longrightarrow> a \<in> set (er_actions request) \<Longrightarrow>
      map_option node_name (getNode w (ea_nodeName a)) = Some n \<Longrightarrow> is_placeholder td \<Longrightarrow>
      P (obj_set n (run_list rd n @ [td]) rd)"
  shows "same_tables w w' \<and> P rd' \<and> (\<forall>ns. r = Inr ns \<longrightarrow> (\<forall>n \<in> set ns. may_schedule ed request n))"
proof -
  let ?st = "\<lparr>rq_workflow = w, rq_runData = rd, rq_nodes = [], rq_actions = []\<rparr>"
  obtain e st' where p: "prepareRequestedNodes cur ed k (er_actions request) ?st = (e, st')" by fastforce
  have "(\<forall>n \<in> set (rq_nodes st'). may_schedule ed request n) \<and> same_tables w (rq_workflow st') \<and> P (rq_runData st')"
    by (rule prepareRequestedNodes_effect [OF p order_refl]) (use assms(2,3) in auto)
  moreover have "may_schedule ed request n" if "prepareRequestingNodeForResuming ed = Some (c, parent, md)"
    "n = \<lparr>ne_connection = c, ne_parentNode = parent, ne_parentOutputData = d, ne_runIndex = k, ne_nodeRunIndex = k,
       ne_metadata = [(''nodeWasResumed'', JBool True),
         (''subNodeExecutionData'', subNodeExecutionData as (er_metadata request))] @ md\<rparr>" for n c parent md d as
    using that by (auto simp: prepareRequestingNodeForResuming_def may_schedule_def split: option.splits if_splits)
  ultimately show ?thesis
    using assms(1) p by (cases e) (auto simp: handleRequest_def split: option.splits)
qed

lemma add_all_requested_keeps:
  assumes "add_all_requested v1 w rd ns q = (r, q')" "P q"
    and "\<And>n q q'. n \<in> set ns \<Longrightarrow> P q \<Longrightarrow> add_requested v1 w rd n q = Inr q' \<Longrightarrow> P q'"
  shows "P q'"
  using assms
proof (induction ns arbitrary: q)
  case (Cons n ns)
  then show ?case
  proof (cases "add_requested v1 w rd n q")
    case (Inr q1)
    have "P q1" using Cons.prems(3) [of n q q1] Cons.prems(2) Inr by simp
    moreover have "add_all_requested v1 w rd ns q1 = (r, q')" using Cons.prems(1) Inr by simp
    ultimately show ?thesis using Cons.IH Cons.prems(3) by (meson list.set_intros(2))
  qed simp
qed simp

text \<open>The effect of handling a request, for a predicate on the run data and one on the queue.\<close>

lemma handleEngineRequest_effect:
  assumes "handleEngineRequest v1 w cur request k ed rd q = (r, q', w', rd')" "P rd" "Q q"
    and "\<And>rd a n td. P rd \<Longrightarrow> a \<in> set (er_actions request) \<Longrightarrow>
      map_option node_name (getNode w (ea_nodeName a)) = Some n \<Longrightarrow> is_placeholder td \<Longrightarrow>
      P (obj_set n (run_list rd n @ [td]) rd)"
    and "\<And>w1 rd1 n q1 q2. same_tables w w1 \<Longrightarrow> Q q1 \<Longrightarrow> may_schedule ed request n \<Longrightarrow>
      add_requested v1 w1 rd1 n q1 = Inr q2 \<Longrightarrow> Q q2"
  shows "same_tables w w' \<and> P rd' \<and> Q q'"
proof -
  obtain r0 w0 rd0 where h: "handleRequest w cur request k ed rd = (r0, w0, rd0)" by (metis prod_cases3)
  note eff = handleRequest_effect [where P = P, OF h assms(2,4), simplified]
  show ?thesis
  proof (cases r0)
    case (Inl e)
    then show ?thesis using assms(1,3) h eff by (simp add: handleEngineRequest_def)
  next
    case (Inr ns)
    obtain r1 q1 where a: "add_all_requested v1 w0 rd0 ns q = (r1, q1)" by fastforce
    have w: "same_tables w w0" and ns: "\<forall>n \<in> set ns. may_schedule ed request n" using eff Inr by simp_all
    have "Q q1"
      by (rule add_all_requested_keeps [where P = Q, OF a assms(3)], rule assms(5) [OF w]) (use ns in auto)
    then show ?thesis using assms(1) h eff Inr a by (simp add: handleEngineRequest_def)
  qed
qed

section \<open>The tries of a turn\<close>

text \<open>Requests handled one after the other, of an entry in a run.\<close>

inductive asked :: "bool \<Rightarrow> execute_data \<Rightarrow> nat \<Rightarrow> (engine_request \<Rightarrow> bool) \<Rightarrow> workflow \<times> run_data \<times> engine_queue \<Rightarrow>
    workflow \<times> run_data \<times> engine_queue \<Rightarrow> bool" for v1 ed k R s where
  none: "asked v1 ed k R s s"
| more: "asked v1 ed k R s (w, rd, q) \<Longrightarrow> R request \<Longrightarrow>
    handleEngineRequest v1 w (ed_node ed) request k ed rd q = (r, q', w', rd') \<Longrightarrow> asked v1 ed k R s (w', rd', q')"

lemma asked_trans: "asked v1 ed k R s' s'' \<Longrightarrow> asked v1 ed k R s s' \<Longrightarrow> asked v1 ed k R s s''"
  by (induction rule: asked.induct) (auto intro: asked.more)

lemma asked_no_requests: "asked v1 ed k R s s' \<Longrightarrow> (\<And>request. \<not> R request) \<Longrightarrow> s' = s"
  by (erule asked.cases) auto

definition ts_parts :: "try_state \<Rightarrow> workflow \<times> run_data \<times> engine_queue" where
  "ts_parts ts = (ts_workflow ts, ts_runData ts, ts_queue ts)"

definition response_of :: "execute_data \<Rightarrow> try_state \<Rightarrow> bool" where
  "response_of ed ts \<longleftrightarrow> resp_metadata (ts_response ts) \<in> {JObj [], entry_metadata ed}"

text \<open>What every step of a try keeps.\<close>

definition try_follows :: "bool \<Rightarrow> execute_data \<Rightarrow> nat \<Rightarrow> (engine_request \<Rightarrow> bool) \<Rightarrow> try_state \<Rightarrow> try_state \<Rightarrow> bool" where
  "try_follows v1 ed k R ts ts' \<longleftrightarrow> asked v1 ed k R (ts_parts ts) (ts_parts ts') \<and> (response_of ed ts \<longrightarrow> response_of ed ts')"

fun try_state_of :: "try_result \<Rightarrow> try_state" where
  "try_state_of (TryEnded ts) = ts"
| "try_state_of (TryDone ts) = ts"
| "try_state_of (TryFailed left ts) = ts"

lemma collect_metadata:
  "resp_metadata response \<in> {JObj [], entry_metadata ed} \<Longrightarrow> resp_metadata (collect_responses ed rd response) = entry_metadata ed"
  by (auto simp: entry_metadata_def collect_responses_def makeEngineResponse_def split: option.splits json.splits)

lemma try_follows_refl: "ts_parts ts' = ts_parts ts \<Longrightarrow> ts_response ts' = ts_response ts \<Longrightarrow> try_follows v1 ed k R ts ts'"
  by (simp add: try_follows_def response_of_def asked.none)

lemma finish_try_follows: "try_follows v1 ed k R ts (try_state_of (finish_try env ed left ts))"
  by (rule try_follows_refl) (auto simp: finish_try_def Let_def ts_parts_def split: sum.splits)

lemma use_data_parts:
  "ts_parts (try_state_of (use_data env ed left data ts)) = ts_parts ts \<and>
   ts_response (try_state_of (use_data env ed left data ts)) = ts_response ts"
proof -
  have f: "ts_parts (try_state_of (finish_try env ed left t)) = ts_parts t \<and>
      ts_response (try_state_of (finish_try env ed left t)) = ts_response t" for t
    by (auto simp: finish_try_def Let_def ts_parts_def split: sum.splits)
  show ?thesis
    by (auto simp: use_data_def Let_def f split: option.splits on_error.splits sum.splits) (auto simp: ts_parts_def)
qed

lemma ask_follows: "R request \<Longrightarrow> try_follows v1 ed k R ts (try_state_of (ask v1 ed k request left ts))"
proof -
  assume R: "R request"
  obtain r q w rd where h: "handleEngineRequest v1 (ts_workflow ts) (ed_node ed) request k ed (ts_runData ts) (ts_queue ts) = (r, q, w, rd)"
    by (metis prod_cases4)
  have "asked v1 ed k R (ts_parts ts) (w, rd, q)"
    by (rule asked.more [where R = R, OF _ R h]) (simp add: ts_parts_def asked.none)
  then show ?thesis using h by (cases r) (simp_all add: ask_def Let_def try_follows_def response_of_def ts_parts_def)
qed

lemma one_try_follows:
  assumes "response_of ed ts"
  shows "try_follows (ee_v1 env) ed k (may_ask env ed) ts (try_state_of (one_try env (runNode env lastError ed k) ed k left ts))"
proof (cases "pinned_of env (ed_node ed)")
  case (Some p)
  then show ?thesis
    using finish_try_follows [of "ee_v1 env" ed k "may_ask env ed" "ts\<lparr>ts_error := None, ts_data := Some [Val p]\<rparr>" env left]
    by (simp add: one_try_def Let_def try_follows_def ts_parts_def response_of_def)
next
  case None
  let ?resp = "collect_responses ed (ts_runData ts) (ts_response ts)"
  have md: "resp_metadata ?resp = entry_metadata ed" using assms collect_metadata by (simp add: response_of_def)
  obtain r w l runs where r: "run_until_ok (runNode env lastError ed k (ts_last ts)) (Some ?resp) left (ts_runs ts) (ts_wait ts) = (r, w, l, runs)"
    by (metis prod_cases4)
  let ?ts = "ts\<lparr>ts_error := None, ts_response := ?resp, ts_wait := w, ts_runs := runs\<rparr>"
  have start: "try_follows (ee_v1 env) ed k (may_ask env ed) ts t" if "ts_parts t = ts_parts ts" "ts_response t = ?resp" for t
    using that md by (simp add: try_follows_def response_of_def asked.none)
  consider (error) e where "r = Inl e" | (data) d where "r = Inr (Outputs d)" | (asks) req where "r = Inr (Asks req)"
    by (metis node_reply.exhaust sum.exhaust)
  then show ?thesis
  proof cases
    case error
    then show ?thesis using r None by (auto simp: one_try_def Let_def ts_parts_def intro!: start)
  next
    case data
    then have "one_try env (runNode env lastError ed k) ed k left ts = use_data env ed l d ?ts"
      using r None by (simp add: one_try_def Let_def)
    then show ?thesis using use_data_parts [of env ed l d ?ts] by (intro start) (simp_all add: ts_parts_def)
  next
    case asks
    from run_until_ok_asks [OF r [unfolded asks]] have "may_ask env ed req" using md by (auto simp: may_ask_def)
    from ask_follows [of "may_ask env ed", OF this, of "ee_v1 env" ed k ?ts l]
    have "asked (ee_v1 env) ed k (may_ask env ed) (ts_parts ts) (ts_parts (try_state_of (ask (ee_v1 env) ed k req l ?ts)))"
      "response_of ed (try_state_of (ask (ee_v1 env) ed k req l ?ts))"
      using md by (auto simp: try_follows_def ts_parts_def response_of_def)
    moreover have "one_try env (runNode env lastError ed k) ed k left ts = ask (ee_v1 env) ed k req l ?ts"
      using r None asks by (simp add: one_try_def Let_def)
    ultimately show ?thesis by (simp add: try_follows_def)
  qed
qed

lemma run_tries_follows:
  "run_tries env exec ed k left ts = (ended, ts') \<Longrightarrow> exec = runNode env lastError ed k \<Longrightarrow> response_of ed ts \<Longrightarrow>
     asked (ee_v1 env) ed k (may_ask env ed) (ts_parts ts) (ts_parts ts')"
proof (induction env exec ed k left ts rule: run_tries.induct)
  case (1 env exec ed k left ts)
  have f: "try_follows (ee_v1 env) ed k (may_ask env ed) ts (try_state_of (one_try env exec ed k left ts))"
    using one_try_follows 1(3,4) by simp
  show ?case
  proof (cases "one_try env exec ed k left ts")
    case (TryFailed l t)
    show ?thesis
    proof (cases l)
      case 0
      then show ?thesis using 1(2) TryFailed f by (simp add: run_tries.simps [of env exec ed k left ts] try_follows_def)
    next
      case (Suc l')
      then have r: "run_tries env exec ed k l' t = (ended, ts')"
        using 1(2) TryFailed by (simp add: run_tries.simps [of env exec ed k left ts])
      have t: "asked (ee_v1 env) ed k (may_ask env ed) (ts_parts ts) (ts_parts t)" "response_of ed t"
        using f TryFailed 1(4) by (simp_all add: try_follows_def)
      show ?thesis using asked_trans [OF 1(1) [OF TryFailed Suc r 1(3) t(2)] t(1)] .
    qed
  qed (use 1(2) f in \<open>simp_all add: run_tries.simps [of env exec ed k left ts] try_follows_def\<close>)
qed

text \<open>The requests of the tries of a turn are requests its entry may make.\<close>

lemma tries_of_asked:
  "tries_of env st ed k = (ended, ts) \<Longrightarrow>
     asked (ee_v1 env) ed k (may_ask env ed) (ee_workflow env, en_runData st, en_queue st) (ts_workflow ts, ts_runData ts, ts_queue ts)"
  using run_tries_follows [of env _ ed k _ "first_try env st" ended ts]
  by (simp add: tries_of_def first_try_def ts_parts_def response_of_def makeEngineResponse_def)

end
