(* ===== verification/Engine_Queue_Facts.thy ===== *)
theory Engine_Queue_Facts
  imports Engine_Queue
begin

text \<open>
  What adding a node does to the stack and the waiting tables, the invariant of the tables, an
  entry that is lost, and what taking a waiting node does.
\<close>

section \<open>Reading the waiting tables\<close>

definition main_at :: "(string, (nat, (string, 'a slot list) obj) obj) obj \<Rightarrow> string \<Rightarrow> nat \<Rightarrow> 'a slot list option" where
  "main_at m node k = main_slots (runs_of m node) k"

named_theorems waiting_simps \<open>what a waiting table holds after an operation\<close>

lemma runs_of_put_run [waiting_simps]:
  "runs_of (put_run node k v m) node' = (if node' = node then obj_set k v (runs_of m node) else runs_of m node')"
  by (simp add: runs_of_def put_run_def)

lemma main_at_put_run [waiting_simps]:
  "main_at (put_run node k [(Main_type, s)] m) node' k' = (if node' = node \<and> k' = k then Some s else main_at m node' k')"
  by (simp add: main_at_def main_slots_def runs_of_put_run)

lemma main_at_put_main [waiting_simps]:
  "main_at (put_main node k i v m) node' k' =
     (if node' = node \<and> k' = k then Some (arr_put Undef i v (case main_at m node k of None \<Rightarrow> [] | Some s \<Rightarrow> s))
      else main_at m node' k')"
  by (simp add: put_main_def main_at_def main_slots_def runs_of_put_run Let_def split: option.split)

lemma runs_of_drop_run [waiting_simps]:
  "runs_of (drop_run node k m) node' = (if node' = node then obj_delete k (runs_of m node) else runs_of m node')"
  by (simp add: drop_run_def runs_of_def Let_def split: option.split)

lemma main_at_drop_run [waiting_simps]:
  "main_at (drop_run node k m) node' k' = (if node' = node \<and> k' = k then None else main_at m node' k')"
  by (simp add: main_at_def main_slots_def runs_of_drop_run)

text \<open>The entries of a table are objects with main data, and no node has an empty entry.\<close>

definition table_ok :: "(string, (nat, (string, 'a slot list) obj) obj) obj \<Rightarrow> bool" where
  "table_ok m \<longleftrightarrow> (\<forall>node. obj_get m node \<noteq> Some []) \<and>
     (\<forall>node k d. obj_get (runs_of m node) k = Some d \<longrightarrow> obj_get d Main_type \<noteq> None)"

lemma obj_set_not_Nil: "obj_set k v m \<noteq> []"
  by (cases m) (auto simp: obj_set_Cons)

lemma obj_get_put_run:
  "obj_get (put_run node k v m) node' = (if node' = node then Some (obj_set k v (runs_of m node)) else obj_get m node')"
  by (simp add: put_run_def)

lemma table_ok_put_run:
  "table_ok m \<Longrightarrow> obj_get d Main_type \<noteq> None \<Longrightarrow> table_ok (put_run node k d m)"
  unfolding table_ok_def runs_of_put_run obj_get_put_run by (auto simp: obj_set_not_Nil)

lemma table_ok_put_main: "table_ok m \<Longrightarrow> table_ok (put_main node k i v m)"
  unfolding put_main_def Let_def by (rule table_ok_put_run) simp_all

lemma table_ok_drop_run: "table_ok m \<Longrightarrow> table_ok (drop_run node k m)"
  unfolding table_ok_def by (auto simp: drop_run_def runs_of_def Let_def split: if_splits)

text \<open>
  The invariant of the waiting tables: they hold the same entries, each entry has one cell per
  input of its node in both, and an entry still misses data.
\<close>

definition entry_ok :: "nat \<Rightarrow> item list slot list option \<Rightarrow> source_data slot list option \<Rightarrow> bool" where
  "entry_ok n s t \<longleftrightarrow> (case (s, t) of
       (None, None) \<Rightarrow> True
     | (Some slots, Some sources) \<Rightarrow> length slots = n \<and> length sources = n \<and> Null \<in> set slots
     | _ \<Rightarrow> False)"

definition waiting_ok :: "workflow \<Rightarrow> engine_queue \<Rightarrow> bool" where
  "waiting_ok w q \<longleftrightarrow> table_ok (eq_waiting q) \<and> table_ok (eq_waitingSource q) \<and>
     (\<forall>node k. entry_ok (number_of_inputs w node) (main_at (eq_waiting q) node k) (main_at (eq_waitingSource q) node k))"

lemma waiting_ok_empty: "waiting_ok w \<lparr>eq_stack = st, eq_waiting = [], eq_waitingSource = []\<rparr>"
  by (simp add: waiting_ok_def table_ok_def main_at_def main_slots_def runs_of_def entry_ok_def)

lemma waiting_ok_stack: "waiting_ok w (q\<lparr>eq_stack := st\<rparr>) = waiting_ok w q"
  by (simp add: waiting_ok_def)

section \<open>What adding a node does\<close>

lemma arr_put_in_range: "i < length xs \<Longrightarrow> arr_put h i v xs = xs[i := v]"
  by (simp add: arr_put_def)

lemma first_free_entry_returns:
  "table_ok m \<Longrightarrow> set ks \<subseteq> set (obj_keys (runs_of m node)) \<Longrightarrow>
   \<exists>free. first_free_entry (runs_of m node) i ks = Inr free \<and> (\<forall>k. free = Some k \<longrightarrow> k \<in> set ks)"
proof (induction ks)
  case (Cons k ks)
  then have "k \<in> set (obj_keys (runs_of m node))" by simp
  then obtain d where d: "obj_get (runs_of m node) k = Some d"
    by (metis domD domIff dom_map_of_conv_image_fst set_map)
  with Cons.prems(1) obtain slots where "main_slots (runs_of m node) k = Some slots"
    unfolding table_ok_def main_slots_def by fastforce
  moreover from Cons obtain free where "first_free_entry (runs_of m node) i ks = Inr free" "\<forall>k. free = Some k \<longrightarrow> k \<in> set ks"
    by auto
  ultimately show ?case by auto
qed simp

text \<open>The entry that gets the data, and what it holds then.\<close>

definition entry_for :: "engine_queue \<Rightarrow> string \<Rightarrow> nat \<Rightarrow> nat \<times> bool" where
  "entry_for q node i = (case first_free_entry (runs_of (eq_waiting q) node) i (run_keys (runs_of (eq_waiting q) node)) of
       Inr (Some k) \<Rightarrow> (k, True) | _ \<Rightarrow> (length (runs_of (eq_waiting q) node), False))"

definition slots_before :: "workflow \<Rightarrow> engine_queue \<Rightarrow> string \<Rightarrow> nat \<Rightarrow> item list slot list" where
  "slots_before w q node i = (case entry_for q node i of (k, old) \<Rightarrow>
     if old then the (main_at (eq_waiting q) node k) else replicate (number_of_inputs w node) Null)"

definition sources_before :: "workflow \<Rightarrow> engine_queue \<Rightarrow> string \<Rightarrow> nat \<Rightarrow> source_data slot list" where
  "sources_before w q node i = (case entry_for q node i of (k, old) \<Rightarrow>
     if old then the (main_at (eq_waitingSource q) node k) else replicate (number_of_inputs w node) Null)"

lemma add_to_waiting_spec:
  assumes ok: "waiting_ok w q" and i: "conn_index c < number_of_inputs w (conn_node c)"
  defines "k \<equiv> fst (entry_for q (conn_node c) (conn_index c))"
  shows "\<exists>q1. add_to_waiting w c outputIndex parent out runIndex q = Inr (k, obj_get (eq_waiting q) (conn_node c) \<noteq> None, q1) \<and>
    eq_stack q1 = eq_stack q \<and> table_ok (eq_waiting q1) \<and> table_ok (eq_waitingSource q1) \<and>
    length (slots_before w q (conn_node c) (conn_index c)) = number_of_inputs w (conn_node c) \<and>
    length (sources_before w q (conn_node c) (conn_index c)) = number_of_inputs w (conn_node c) \<and>
    (\<forall>node j. main_at (eq_waiting q1) node j = (if node = conn_node c \<and> j = k
       then Some ((slots_before w q (conn_node c) (conn_index c))[conn_index c := success_slot out outputIndex])
       else main_at (eq_waiting q) node j)) \<and>
    (\<forall>node j. main_at (eq_waitingSource q1) node j = (if node = conn_node c \<and> j = k
       then Some ((sources_before w q (conn_node c) (conn_index c))[conn_index c := success_source out parent outputIndex runIndex])
       else main_at (eq_waitingSource q) node j))"
proof -
  let ?n = "conn_node c" and ?i = "conn_index c"
  have tables: "table_ok (eq_waiting q)" "table_ok (eq_waitingSource q)" using ok by (auto simp: waiting_ok_def)
  obtain free where free: "first_free_entry (runs_of (eq_waiting q) ?n) ?i (run_keys (runs_of (eq_waiting q) ?n)) = Inr free"
    "\<forall>k. free = Some k \<longrightarrow> k \<in> set (obj_keys (runs_of (eq_waiting q) ?n))"
    using first_free_entry_returns [OF tables(1), of "run_keys (runs_of (eq_waiting q) ?n)" ?n ?i] by (auto simp: run_keys_def)
  show ?thesis
  proof (cases free)
    case None
    then have k: "entry_for q ?n ?i = (k, False)" "k = length (runs_of (eq_waiting q) ?n)"
      using free(1) by (simp_all add: k_def entry_for_def)
    show ?thesis
      using None free(1) k i tables
      by (simp add: add_to_waiting_def slots_before_def sources_before_def prepareWaitingToExecution_def Let_def
          waiting_simps arr_put_in_range table_ok_put_main table_ok_put_run)
  next
    case (Some j)
    then have k: "entry_for q ?n ?i = (k, True)" "k = j"
      using free(1) by (simp_all add: k_def entry_for_def)
    from Some free(2) obtain d where d: "obj_get (runs_of (eq_waiting q) ?n) k = Some d"
      using k(2) by (metis domD domIff dom_map_of_conv_image_fst set_map)
    then have "main_at (eq_waiting q) ?n k \<noteq> None"
      using tables(1) by (auto simp: table_ok_def main_at_def main_slots_def)
    with ok obtain s t where st: "main_at (eq_waiting q) ?n k = Some s" "main_at (eq_waitingSource q) ?n k = Some t"
      "length s = number_of_inputs w ?n" "length t = number_of_inputs w ?n"
      unfolding waiting_ok_def entry_ok_def by (fastforce split: option.splits)
    show ?thesis
      using Some free(1) k i tables st
      by (simp add: add_to_waiting_def slots_before_def sources_before_def Let_def
          waiting_simps arr_put_in_range table_ok_put_main)
  qed
qed
lemma keep_waiting_main_at:
  assumes "main_at (eq_waiting q) node k = Some slots" "main_at (eq_waitingSource q) node k = Some sources"
  shows "main_at (eq_waiting (keep_waiting w node k q)) node' k' = main_at (eq_waiting q) node' k'"
    and "main_at (eq_waitingSource (keep_waiting w node k q)) node' k' = main_at (eq_waitingSource q) node' k'"
  using assms by (auto simp: keep_waiting_def prepareWaitingToExecution_def Let_def waiting_simps) (auto simp: main_at_def)

lemma keep_waiting_tables:
  "table_ok (eq_waiting q) \<Longrightarrow> table_ok (eq_waiting (keep_waiting w node k q))"
  "table_ok (eq_waitingSource q) \<Longrightarrow> table_ok (eq_waitingSource (keep_waiting w node k q))"
  "eq_stack (keep_waiting w node k q) = eq_stack q"
  by (simp_all add: keep_waiting_def prepareWaitingToExecution_def Let_def table_ok_put_run)

text \<open>A sibling is only ever added to the stack.\<close>

lemma add_sibling_tables:
  "add_sibling v1 w rd targets parent oi out r c q = Inr q' \<Longrightarrow>
   eq_waiting q' = eq_waiting q \<and> eq_waitingSource q' = eq_waitingSource q \<and> (v1 \<longrightarrow> q' = q)"
  by (auto simp: add_sibling_def Let_def bindE_Inr_iff enqueue_def split: if_splits option.splits)

lemma add_siblings_tables:
  assumes "add_siblings v1 w rd c oi parent out r q = Inr q'"
  shows "eq_waiting q' = eq_waiting q \<and> eq_waitingSource q' = eq_waitingSource q \<and> (v1 \<longrightarrow> q' = q)"
proof -
  obtain targets where "foldE (add_sibling v1 w rd targets parent oi out r)
      (cells (case cells_of (wf_connectionsByDestinationNode w) (conn_node c) Main_type of None \<Rightarrow> [] | Some arr \<Rightarrow> arr)) q = Inr q'"
    using assms by (auto simp: add_siblings_def bindE_Inr_iff)
  then show ?thesis
    by (rule foldE_partial) (auto dest: add_sibling_tables)
qed

lemma enqueue_waiting_spec:
  assumes "enqueue_waiting v1 w node k q = Inr q'"
  shows "\<exists>n d. getNode w node = Some n \<and> obj_get (runs_of (eq_waiting q) node) k = Some d \<and>
    eq_stack q' = eq_stack (enqueue v1 \<lparr>ed_data = d, ed_metadata = None, ed_node = n,
       ed_source = obj_get (runs_of (eq_waitingSource q) node) k, ed_runIndex = None\<rparr> q) \<and>
    eq_waiting q' = drop_run node k (eq_waiting q) \<and> eq_waitingSource q' = drop_run node k (eq_waitingSource q)"
  using assms by (auto simp: enqueue_waiting_def Let_def enqueue_def split: option.splits)

lemma entry_ok_None: "entry_ok n None None"
  by (simp add: entry_ok_def)

lemma entry_ok_cell:
  assumes "length s = n" "length t = n" "Null \<in> set s"
  shows "entry_ok n (Some s) (Some t)"
  using assms by (simp add: entry_ok_def)

text \<open>Adding a node keeps the invariant of the waiting tables: both hold the same entries,
  an entry has one cell per input of its node and still misses data.\<close>

lemma addNodeToBeExecuted_keeps:
  assumes ok: "waiting_ok w q" and i: "number_of_inputs w (conn_node c) > 1 \<Longrightarrow> conn_index c < number_of_inputs w (conn_node c)"
    and ret: "addNodeToBeExecuted v1 w rd c oi parent out r nr md q = Inr q'"
  shows "waiting_ok w q'"
proof (cases "number_of_inputs w (conn_node c) > 1")
  case False
  then have "q' = add_single v1 w c oi parent out r nr md q" using ret by (simp add: addNodeToBeExecuted_def)
  then show ?thesis using ok by (auto simp: add_single_def enqueue_def waiting_ok_stack split: option.split)
next
  case True
  let ?n = "conn_node c" and ?i = "conn_index c"
  define k where "k = fst (entry_for q ?n ?i)"
  from add_to_waiting_spec [OF ok i [OF True], of oi parent out r] obtain q1 where
    q1: "add_to_waiting w c oi parent out r q = Inr (k, obj_get (eq_waiting q) ?n \<noteq> None, q1)"
    "table_ok (eq_waiting q1)" "table_ok (eq_waitingSource q1)"
    and len: "length (slots_before w q ?n ?i) = number_of_inputs w ?n" "length (sources_before w q ?n ?i) = number_of_inputs w ?n"
    and at: "\<forall>node j. main_at (eq_waiting q1) node j = (if node = ?n \<and> j = k
       then Some ((slots_before w q ?n ?i)[?i := success_slot out oi]) else main_at (eq_waiting q) node j)"
    "\<forall>node j. main_at (eq_waitingSource q1) node j = (if node = ?n \<and> j = k
       then Some ((sources_before w q ?n ?i)[?i := success_source out parent oi r]) else main_at (eq_waitingSource q) node j)"
    unfolding k_def by blast
  let ?slots = "(slots_before w q ?n ?i)[?i := success_slot out oi]"
  have old: "entry_ok (number_of_inputs w node) (main_at (eq_waiting q) node j) (main_at (eq_waitingSource q) node j)" for node j
    using ok by (simp add: waiting_ok_def)
  have found: "all_data_found q1 ?n k \<longleftrightarrow> Null \<notin> set ?slots"
    using at(1) by (simp add: all_data_found_def flip: main_at_def)
  show ?thesis
  proof (cases "Null \<in> set ?slots")
    case False
    with ret True q1(1) found have "enqueue_waiting v1 w ?n k q1 = Inr q'"
      by (simp add: addNodeToBeExecuted_def)
    from enqueue_waiting_spec [OF this] obtain
      "eq_waiting q' = drop_run ?n k (eq_waiting q1)" "eq_waitingSource q' = drop_run ?n k (eq_waitingSource q1)" by blast
    then show ?thesis
      using q1 at old by (simp add: waiting_ok_def table_ok_drop_run waiting_simps entry_ok_None)
  next
    case still: True
    with ret True q1(1) found obtain q2 where q2: "q' = keep_waiting w ?n k q2"
      "eq_waiting q2 = eq_waiting q1" "eq_waitingSource q2 = eq_waitingSource q1"
      by (auto simp: addNodeToBeExecuted_def bindE_Inr_iff split: if_splits dest: add_siblings_tables)
    have "main_at (eq_waiting q2) ?n k = Some ?slots"
      "main_at (eq_waitingSource q2) ?n k = Some ((sources_before w q ?n ?i)[?i := success_source out parent oi r])"
      using at q2 by simp_all
    note kept = keep_waiting_main_at [OF this]
    have "entry_ok (number_of_inputs w node) (main_at (eq_waiting q1) node j) (main_at (eq_waitingSource q1) node j)" for node j
      using at old len still by (simp add: entry_ok_cell)
    then show ?thesis
      unfolding waiting_ok_def q2(1) using kept q1 q2 keep_waiting_tables by simp
  qed
qed

text \<open>Whether looking at the siblings of the inputs of a node throws nothing.\<close>

definition siblings_checkable :: "workflow \<Rightarrow> run_data \<Rightarrow> connection \<Rightarrow> string \<Rightarrow> nat \<Rightarrow> bool" where
  "siblings_checkable w rd c parent r \<longleftrightarrow> (\<exists>targets. main_targets w parent = Inr targets \<and>
     (\<forall>s \<in> set (cells (case cells_of (wf_connectionsByDestinationNode w) (conn_node c) Main_type of None \<Rightarrow> [] | Some arr \<Rightarrow> arr)).
        conn_node s \<in> set targets \<longrightarrow>
        (\<exists>b. bindE (first_input w (conn_node s)) (\<lambda>cs. incomingConnectionIsEmpty rd cs r) = Inr b)))"

lemma add_siblings_v1:
  assumes "siblings_checkable w rd c parent r"
  shows "add_siblings True w rd c oi parent out r q = Inr q"
proof -
  obtain targets where t: "main_targets w parent = Inr targets"
    "\<forall>s \<in> set (cells (case cells_of (wf_connectionsByDestinationNode w) (conn_node c) Main_type of None \<Rightarrow> [] | Some arr \<Rightarrow> arr)).
        conn_node s \<in> set targets \<longrightarrow> (\<exists>b. bindE (first_input w (conn_node s)) (\<lambda>cs. incomingConnectionIsEmpty rd cs r) = Inr b)"
    using assms unfolding siblings_checkable_def by blast
  have "add_sibling True w rd targets parent oi out r s q = Inr q"
    if "conn_node s \<in> set targets \<longrightarrow> (\<exists>b. bindE (first_input w (conn_node s)) (\<lambda>cs. incomingConnectionIsEmpty rd cs r) = Inr b)"
    for s q
    using that by (auto simp: add_sibling_def Let_def)
  then have "foldE (add_sibling True w rd targets parent oi out r) ss q = Inr q"
    if "\<forall>s \<in> set ss. conn_node s \<in> set targets \<longrightarrow>
        (\<exists>b. bindE (first_input w (conn_node s)) (\<lambda>cs. incomingConnectionIsEmpty rd cs r) = Inr b)" for ss
    using that by (induction ss) auto
  with t show ?thesis by (simp add: add_siblings_def)
qed

text \<open>In the order v1 a node with several inputs gets the data in its first entry that has
  nothing at the input, or in a new one; the entry stays in the waiting table while a cell is
  null, and otherwise leaves it for the top of the stack. No other entry changes.\<close>

theorem addNodeToBeExecuted_v1:
  fixes out :: node_outputs and oi :: nat
  assumes ok: "waiting_ok w q" and several: "number_of_inputs w (conn_node c) > 1"
    and i: "conn_index c < number_of_inputs w (conn_node c)" and node: "getNode w (conn_node c) = Some n"
    and siblings: "siblings_checkable w rd c parent r"
  defines "k \<equiv> fst (entry_for q (conn_node c) (conn_index c))"
    and "slots \<equiv> (slots_before w q (conn_node c) (conn_index c))[conn_index c := success_slot out oi]"
  shows "\<exists>q'. addNodeToBeExecuted True w rd c oi parent out r nr md q = Inr q' \<and>
    (if Null \<in> set slots
     then eq_stack q' = eq_stack q \<and> main_at (eq_waiting q') (conn_node c) k = Some slots
     else (\<exists>e. eq_stack q' = e # eq_stack q \<and> ed_node e = n \<and> main_of (ed_data e) = Some slots) \<and>
       main_at (eq_waiting q') (conn_node c) k = None) \<and>
    (\<forall>node j. (node, j) \<noteq> (conn_node c, k) \<longrightarrow> main_at (eq_waiting q') node j = main_at (eq_waiting q) node j)"
proof -
  let ?n = "conn_node c" and ?i = "conn_index c"
  from add_to_waiting_spec [OF ok i, of oi parent out r] obtain q1 where
    q1: "add_to_waiting w c oi parent out r q = Inr (k, obj_get (eq_waiting q) ?n \<noteq> None, q1)" "eq_stack q1 = eq_stack q"
    and at: "\<forall>node j. main_at (eq_waiting q1) node j = (if node = ?n \<and> j = k then Some slots else main_at (eq_waiting q) node j)"
    "\<forall>node j. main_at (eq_waitingSource q1) node j = (if node = ?n \<and> j = k
       then Some ((sources_before w q ?n ?i)[?i := success_source out parent oi r]) else main_at (eq_waitingSource q) node j)"
    unfolding k_def slots_def by blast
  have here: "main_at (eq_waiting q1) ?n k = Some slots" using at(1) by simp
  then obtain d where d: "obj_get (runs_of (eq_waiting q1) ?n) k = Some d" "main_of d = Some slots"
    by (auto simp: main_at_def main_slots_def main_of_def split: option.splits)
  have found: "all_data_found q1 ?n k \<longleftrightarrow> Null \<notin> set slots"
    using here by (simp add: all_data_found_def flip: main_at_def)
  show ?thesis
  proof (cases "Null \<in> set slots")
    case False
    then show ?thesis
      using several q1 found node d at
      by (simp add: addNodeToBeExecuted_def enqueue_waiting_def Let_def enqueue_def waiting_simps)
  next
    case True
    note kept = keep_waiting_main_at [of q1 ?n k, OF here]
    have "main_at (eq_waitingSource q1) ?n k \<noteq> None" using at(2) by simp
    then obtain t where t: "main_at (eq_waitingSource q1) ?n k = Some t" by blast
    show ?thesis
      using True several q1 found add_siblings_v1 [OF siblings] kept [OF t] at here
      by (auto simp: addNodeToBeExecuted_def keep_waiting_tables)
  qed
qed

section \<open>A waiting entry that is overwritten\<close>

definition join_workflow :: workflow where
  "join_workflow = setConnections
     [(''a'', [(Main_type, [Some [\<lparr>conn_node = ''m'', conn_type = Main_type, conn_index = 0\<rparr>]])]),
      (''b'', [(Main_type, [Some [\<lparr>conn_node = ''m'', conn_type = Main_type, conn_index = 1\<rparr>]])])]
     (setNodes [plain_node ''a'' ''t'', plain_node ''b'' ''t'', plain_node ''m'' ''t'']
       \<lparr>wf_nodes = [], wf_connectionsBySourceNode = [], wf_connectionsByDestinationNode = [],
        wf_pinData = None, wf_staticData = [], wf_testStaticData = None\<rparr>)"

definition named_item :: "string \<Rightarrow> item" where
  "named_item s = empty_item\<lparr>item_json := [(s, JNull)]\<rparr>"

definition give :: "string \<times> nat \<times> string \<Rightarrow> engine_queue \<Rightarrow> node_error + engine_queue" where
  "give p q = (case p of (parent, input, what) \<Rightarrow>
     addNodeToBeExecuted True join_workflow [] \<lparr>conn_node = ''m'', conn_type = Main_type, conn_index = input\<rparr> 0 parent
       (Some [Val [named_item what]]) 0 None None q)"

text \<open>A new entry takes as run index the number of entries, which may be the index of an
  entry that is still waiting: of the four results given to a node here, the second is lost.\<close>

theorem waiting_entry_overwritten:
  "case foldE give [(''a'', 0, ''first''), (''a'', 0, ''second''), (''b'', 1, ''other''), (''a'', 0, ''third'')]
     \<lparr>eq_stack = [], eq_waiting = [], eq_waitingSource = []\<rparr> of
     Inl e \<Rightarrow> False
   | Inr q \<Rightarrow> map ed_data (eq_stack q) = [[(Main_type, [Val [named_item ''first''], Val [named_item ''other'']])]] \<and>
   eq_waiting q = [(''m'', [(1, [(Main_type, [Val [named_item ''third''], Null])])])]"
  by code_simp
lemma join_inputs: "number_of_inputs join_workflow ''m'' = 2"
  by code_simp

lemma addNodeToBeExecuted_v1_witness:
  "\<exists>q. addNodeToBeExecuted True join_workflow [] \<lparr>conn_node = ''m'', conn_type = Main_type, conn_index = 0\<rparr> 0 ''a''
     (Some [Val []]) 0 None None \<lparr>eq_stack = [], eq_waiting = [], eq_waitingSource = []\<rparr> = Inr q \<and>
   main_at (eq_waiting q) ''m'' 0 = Some [Val [], Null]"
proof -
  let ?c = "\<lparr>conn_node = ''m'', conn_type = Main_type, conn_index = 0\<rparr>"
  let ?q = "\<lparr>eq_stack = [], eq_waiting = [], eq_waitingSource = []\<rparr>"
  have targets: "main_targets join_workflow ''a'' = Inr [''m'']" by code_simp
  have sources: "cells (case cells_of (wf_connectionsByDestinationNode join_workflow) ''m'' Main_type of
      None \<Rightarrow> [] | Some arr \<Rightarrow> arr) = [\<lparr>conn_node = ''a'', conn_type = Main_type, conn_index = 0\<rparr>,
      \<lparr>conn_node = ''b'', conn_type = Main_type, conn_index = 0\<rparr>]" by code_simp
  have sib: "siblings_checkable join_workflow [] ?c ''a'' 0"
    unfolding siblings_checkable_def connection.simps sources targets by simp
  have node: "getNode join_workflow (conn_node ?c) = Some (plain_node ''m'' ''t'')" by code_simp
  have for_m: "entry_for ?q ''m'' 0 = (0, False)" by (simp add: entry_for_def runs_of_def run_keys_def)
  have slots: "slots_before join_workflow ?q ''m'' 0 = [Null, Null]"
    by (simp add: slots_before_def for_m join_inputs numeral_2_eq_2)
  have inputs: "number_of_inputs join_workflow (conn_node ?c) > 1" "conn_index ?c < number_of_inputs join_workflow (conn_node ?c)"
    by (simp_all add: join_inputs)
  have given: "success_slot (Some [Val []]) 0 = Val []" by (simp add: success_slot_def arr_get_def)
  note spec = addNodeToBeExecuted_v1 [OF waiting_ok_empty [where st = "[]"] inputs node sib, where out = "Some [Val []]" and oi = 0 and nr = None and md = None]
  from spec obtain q' where q': "addNodeToBeExecuted True join_workflow [] ?c 0 ''a'' (Some [Val []]) 0 None None ?q = Inr q'"
    and held: "if Null \<in> set ((slots_before join_workflow ?q ''m'' 0)[0 := Val []])
      then eq_stack q' = eq_stack ?q \<and> main_at (eq_waiting q') ''m'' (fst (entry_for ?q ''m'' 0)) =
        Some ((slots_before join_workflow ?q ''m'' 0)[0 := Val []])
      else (\<exists>e. eq_stack q' = e # eq_stack ?q \<and> ed_node e = plain_node ''m'' ''t'' \<and>
        main_of (ed_data e) = Some ((slots_before join_workflow ?q ''m'' 0)[0 := Val []])) \<and>
        main_at (eq_waiting q') ''m'' (fst (entry_for ?q ''m'' 0)) = None"
    unfolding connection.simps given by (elim exE conjE)
  from held have "main_at (eq_waiting q') ''m'' 0 = Some [Val [], Null]"
    unfolding slots for_m by simp
  with q' show ?thesis by (intro exI [where x = q'] conjI)
qed

section \<open>Taking a waiting node\<close>

definition only_removed :: "engine_queue \<Rightarrow> engine_queue \<Rightarrow> bool" where
  "only_removed q q' \<longleftrightarrow>
     (\<forall>node k. main_at (eq_waiting q') node k = None \<or> main_at (eq_waiting q') node k = main_at (eq_waiting q) node k)"

text \<open>An entry of the stack that was made from a waiting entry with items.\<close>

definition from_waiting :: "queue_env \<Rightarrow> engine_queue \<Rightarrow> execute_data \<Rightarrow> bool" where
  "from_waiting env q e \<longleftrightarrow> (\<exists>node k slots ty. getNode (qe_workflow env) node = Some (ed_node e) \<and>
     qe_types env (ed_node e) = Some ty \<and> main_at (eq_waiting q) node k = Some slots \<and>
     (\<exists>s \<in> set slots. slot_items s \<noteq> []) \<and>
     main_of (ed_data e) = Some (pad_inputs (inputs_length (ent_inputs ty)) (fill_missing slots)))"

lemma from_waiting_mono: "only_removed q q' \<Longrightarrow> from_waiting env q' e \<Longrightarrow> from_waiting env q e"
  unfolding only_removed_def from_waiting_def by (metis option.distinct(1))

lemma slot_items_fill: "(\<forall>s \<in> set (fill_missing slots). slot_items s = []) \<longleftrightarrow> (\<forall>s \<in> set slots. slot_items s = [])"
  by (auto simp: fill_missing_def slot_items_def)

lemma drop_entry_ok:
  assumes "waiting_ok w q"
  shows "waiting_ok w (q\<lparr>eq_stack := st, eq_waiting := drop_run n k (eq_waiting q),
    eq_waitingSource := drop_run n k (eq_waitingSource q)\<rparr>)"
  using assms by (simp add: waiting_ok_def table_ok_drop_run waiting_simps entry_ok_None)

text \<open>What one node of the list gives.\<close>

definition picked_ok :: "queue_env \<Rightarrow> engine_queue \<Rightarrow> picked \<Rightarrow> bool" where
  "picked_ok env q p = (case p of
       SkipNode \<Rightarrow> True
     | TakeEmpty q' \<Rightarrow> eq_stack q' = eq_stack q \<and> only_removed q q' \<and> (\<forall>w. waiting_ok w q \<longrightarrow> waiting_ok w q')
     | TakeNode q' \<Rightarrow> (\<exists>e. eq_stack q' = eq_stack q @ [e] \<and> from_waiting env q e) \<and> only_removed q q' \<and>
         (\<forall>w. waiting_ok w q \<longrightarrow> waiting_ok w q'))"

lemma take_entry_ok:
  assumes "take_entry env n ty name k slots q = Inr p" "main_at (eq_waiting q) name k = Some slots"
    "getNode (qe_workflow env) name = Some n" "qe_types env n = Some ty"
  shows "picked_ok env q p"
proof -
  let ?q = "q\<lparr>eq_waiting := drop_run name k (eq_waiting q), eq_waitingSource := drop_run name k (eq_waitingSource q)\<rparr>"
  have removed: "only_removed q (?q\<lparr>eq_stack := st\<rparr>)" for st
    by (simp add: only_removed_def waiting_simps)
  have inv: "waiting_ok w q \<longrightarrow> waiting_ok w (?q\<lparr>eq_stack := st\<rparr>)" for w st
    using drop_entry_ok [where w = w and q = q and st = st and n = name and k = k] by (simp add: waiting_ok_def)
  consider "p = TakeEmpty ?q"
    | e where "p = TakeNode (?q\<lparr>eq_stack := eq_stack q @ [e]\<rparr>)" "ed_node e = n"
      "main_of (ed_data e) = Some (pad_inputs (inputs_length (ent_inputs ty)) (fill_missing slots))"
      "\<exists>s \<in> set slots. slot_items s \<noteq> []"
    using assms(1) slot_items_fill [of slots]
    by (auto simp: take_entry_def Let_def main_of_def split: if_splits)
  then show ?thesis
  proof cases
    case 1
    then show ?thesis using removed [of "eq_stack q"] inv [of _ "eq_stack q"] by (simp add: picked_ok_def)
  next
    case 2
    then have "from_waiting env q e" unfolding from_waiting_def using assms(2-4) by blast
    then show ?thesis using 2(1) removed [of "eq_stack q @ [e]"] inv [of _ "eq_stack q @ [e]"]
      by (auto simp: picked_ok_def)
  qed
qed

lemma take_waiting_ok: "take_waiting env ws name q = Inr p \<Longrightarrow> picked_ok env q p"
  by (auto simp: take_waiting_def Let_def picked_ok_def main_at_def split: option.splits if_splits
      dest: take_entry_ok [unfolded picked_ok_def main_at_def])

lemma scan_waiting_ok: "scan_waiting env ws names q = Inr p \<Longrightarrow> picked_ok env q p"
proof (induction names)
  case (Cons n names)
  from Cons.prems obtain r where r: "take_waiting env ws n q = Inr r"
    "(case r of SkipNode \<Rightarrow> scan_waiting env ws names q | p' \<Rightarrow> Inr p') = Inr p"
    by (auto simp: bindE_Inr_iff)
  then show ?case using Cons.IH take_waiting_ok [OF r(1)] by (cases r) auto
qed (simp add: picked_ok_def)

lemma only_removed_trans: "only_removed q q' \<Longrightarrow> only_removed q' q'' \<Longrightarrow> only_removed q q''"
  unfolding only_removed_def by metis

lemma pick_waiting_ok:
  "pick_waiting env q = Inr q' \<Longrightarrow>
   (eq_stack q' = eq_stack q \<or> (\<exists>e. eq_stack q' = eq_stack q @ [e] \<and> from_waiting env q e)) \<and>
   only_removed q q' \<and> (\<forall>w. waiting_ok w q \<longrightarrow> waiting_ok w q') \<and>
   (eq_stack q' = eq_stack q \<longrightarrow> scan_waiting env (obj_keys (eq_waiting q')) (obj_keys (eq_waiting q')) q' = Inr SkipNode)"
proof (induction env q arbitrary: q' rule: pick_waiting.induct)
  case (1 env q)
  let ?ks = "obj_keys (eq_waiting q)"
  from 1(2) obtain p where p: "scan_waiting env ?ks ?ks q = Inr p"
    by (auto simp: pick_waiting.simps [of env q] split: sum.splits)
  note ok = scan_waiting_ok [OF p]
  show ?case
  proof (cases p)
    case SkipNode
    with p 1(2) show ?thesis by (simp add: pick_waiting.simps [of env q] only_removed_def)
  next
    case (TakeNode r)
    with p 1(2) ok show ?thesis by (auto simp: pick_waiting.simps [of env q] picked_ok_def)
  next
    case (TakeEmpty r)
    with p 1(2) have "pick_waiting env r = Inr q'" by (simp add: pick_waiting.simps [of env q])
    from 1(1) [OF p TakeEmpty this] ok TakeEmpty show ?thesis
      unfolding picked_ok_def by (auto dest: from_waiting_mono only_removed_trans)
  qed
qed

text \<open>Taking a waiting node keeps the invariant and changes no entry that stays; it adds to
  the stack one node, from an entry that had items, or nothing when every node that still
  waits has to go on waiting.\<close>

theorem pick_waiting_spec:
  assumes "pick_waiting env q = Inr q'" "waiting_ok (qe_workflow env) q"
  shows "waiting_ok (qe_workflow env) q' \<and> only_removed q q' \<and>
    (if eq_stack q' = eq_stack q
     then scan_waiting env (obj_keys (eq_waiting q')) (obj_keys (eq_waiting q')) q' = Inr SkipNode
     else \<exists>e. eq_stack q' = eq_stack q @ [e] \<and> from_waiting env q e)"
  using pick_waiting_ok [OF assms(1)] assms(2) by auto

definition two_inputs :: engine_type where
  "two_inputs = \<lparr>ent_execute = True, ent_poll = False, ent_trigger = False, ent_webhook = False, ent_supplyData = False,
     ent_requestDefaults = False, ent_customOperations = [], ent_inputs = InputList 2, ent_requiredInputs = None\<rparr>"

definition join_env :: "engine_type \<Rightarrow> queue_env" where
  "join_env ty = \<lparr>qe_v1 = True, qe_workflow = join_workflow, qe_types = (\<lambda>n. Some ty), qe_evalRequired = (\<lambda>n s. None)\<rparr>"

definition half_waiting :: engine_queue where
  "half_waiting = \<lparr>eq_stack = [], eq_waiting = [(''m'', [(0, [(Main_type, [Val [named_item ''x''], Null])])])],
     eq_waitingSource = [(''m'', [(0, [(Main_type, [Val (parent_source ''a'' 0 0), Null])])])]\<rparr>"

lemma half_waiting_ok: "waiting_ok join_workflow half_waiting"
  by (auto simp: waiting_ok_def table_ok_def half_waiting_def runs_of_def main_at_def main_slots_def entry_ok_def join_inputs
      split: if_splits)

lemma half_waiting_picked:
  "map_option (\<lambda>q. (map ed_data (eq_stack q), eq_waiting q)) (case pick_waiting (join_env two_inputs) half_waiting of Inr q \<Rightarrow> Some q | Inl e \<Rightarrow> None) =
     Some ([[(Main_type, [Val [named_item ''x''], Val []])]], [])"
  by code_simp

lemma pick_waiting_spec_witness:
  "waiting_ok join_workflow (case pick_waiting (join_env two_inputs) half_waiting of Inr q \<Rightarrow> q | Inl e \<Rightarrow> half_waiting)"
proof (cases "pick_waiting (join_env two_inputs) half_waiting")
  case (Inl e)
  then show ?thesis by (simp add: half_waiting_ok)
next
  case (Inr q)
  have "qe_workflow (join_env two_inputs) = join_workflow" by (simp add: join_env_def)
  with pick_waiting_spec [OF Inr] half_waiting_ok Inr show ?thesis by simp
qed

text \<open>The inputs of a type may be an expression, and then the data of a waiting node is padded
  to the length of its text.\<close>

lemma padded_to_expression_length:
  "map_option (\<lambda>q. map (\<lambda>e. map_option length (main_of (ed_data e))) (eq_stack q))
     (case pick_waiting (join_env (two_inputs\<lparr>ent_inputs := InputExpression ''={{ inputs }}''\<rparr>)) half_waiting of
        Inr q \<Rightarrow> Some q | Inl e \<Rightarrow> None) = Some [Some 13]"
  by code_simp

text \<open>The first run index is the first in the order of texts: run 10 comes before run 2.\<close>

lemma first_run_index_text_order: "first_run_index [(2, x), (10, y)] = Some 10"
  by code_simp

text \<open>In the legacy order a node whose data lacks the last input is not put back: the length is
  compared with the index, not with the number of inputs.\<close>

lemma ensureInputData_misses_last:
  "map_sum id fst (ensureInputData False (join_workflow\<lparr>wf_nodes := map (\<lambda>(k, n). (k, n\<lparr>node_disabled := Some False\<rparr>)) (wf_nodes join_workflow)\<rparr>)
     \<lparr>ed_data = [(Main_type, [Val []])], ed_metadata = None, ed_node = plain_node ''m'' ''t'', ed_source = None, ed_runIndex = None\<rparr>
     \<lparr>eq_stack = [], eq_waiting = [], eq_waitingSource = []\<rparr>) = Inr True"
  by code_simp
end
