(* ===== verification/Engine_Invariants.thy ===== *)
theory Engine_Invariants
  imports Request_Effects Engine_Queue_Facts
begin

text \<open>
  What a turn of the engine changes, the rule for invariants of its loop, and the invariants: of
  the waiting tables and the execution indices, and of the nodes that may run.
\<close>

section \<open>What a turn changes\<close>

fun turn_state :: "turn_result \<Rightarrow> engine" where
  "turn_state (Continue st) = st"
| "turn_state (Leave st) = st"
| "turn_state (Throw e st) = st"

lemma in_workflow_simps [simp]:
  "ee_queue (in_workflow w env) = (ee_queue env)\<lparr>qe_workflow := w\<rparr>"
  "ee_destination (in_workflow w env) = ee_destination env" "ee_runNodeFilter (in_workflow w env) = ee_runNodeFilter env"
  "ee_execute (in_workflow w env) = ee_execute env"
  "in_workflow w (in_workflow w' env) = in_workflow w env" "in_workflow (ee_workflow env) env = env"
  by (simp_all add: in_workflow_def)

lemma may_ask_in_workflow [simp]: "may_ask (in_workflow w env) = may_ask env"
  by (rule ext)+ (simp add: may_ask_def asks_def)

text \<open>The run data after a turn: as before, with an empty list for the node, or with its task.\<close>

definition recorded :: "nat \<Rightarrow> string \<Rightarrow> run_data \<Rightarrow> run_data \<Rightarrow> bool" where
  "recorded n name rd rd' \<longleftrightarrow> rd' = rd \<or> rd' = ensure_runs name rd \<or>
     (\<exists>k td. rd' = put_task (ensure_runs name rd) name k td \<and> td_executionIndex td = Some n \<and> td_executionStatus td \<noteq> None)"

text \<open>The queue after a turn that goes on: without the node, with the node put back, or with the
  nodes that follow.\<close>

definition moved_on :: "engine_env \<Rightarrow> run_data \<Rightarrow> string \<Rightarrow> engine_queue \<Rightarrow> engine_queue \<Rightarrow> bool" where
  "moved_on env rd name q q' \<longleftrightarrow> (\<exists>outs k. bindE (add_children (ee_v1 env) (ee_workflow env) rd name outs k q) (\<lambda>q1.
     if eq_stack q1 = [] then pick_waiting (ee_queue env) q1 else Inr q1) = Inr q')"

definition has_main :: "execute_data \<Rightarrow> bool" where
  "has_main ed \<longleftrightarrow> main_of (ed_data ed) \<noteq> None"

text \<open>The result of a turn, against the workflow, the run data and the queue after the requests of its node.\<close>

fun turn_from ::
  "engine_env \<Rightarrow> engine \<Rightarrow> execute_data \<Rightarrow> nat \<Rightarrow> workflow \<times> run_data \<times> engine_queue \<Rightarrow> turn_result \<Rightarrow> bool" where
  "turn_from env st ed n (w, rd, q) r \<longleftrightarrow> (let name = node_name (ed_node ed); st' = turn_state r in
     recorded n name rd (en_runData st') \<and> en_workflow st' = w \<and> en_nextIndex st' = en_nextIndex st \<and>
     en_status st' = en_status st \<and>
     (case r of
        Continue _ \<Rightarrow> en_queue st' = q \<or> (\<not> (ee_v1 env \<and> has_main ed) \<and> en_queue st' = q\<lparr>eq_stack := eq_stack q @ [ed]\<rparr>) \<or>
          moved_on (in_workflow w env) (en_runData st') name q (en_queue st')
      | Leave _ \<Rightarrow> en_queue st' = q\<lparr>eq_stack := ed # eq_stack q\<rparr>
      | Throw _ _ \<Rightarrow> en_queue st' = q))"

definition turn_ok :: "engine_env \<Rightarrow> engine \<Rightarrow> execute_data \<Rightarrow> nat \<Rightarrow> turn_result \<Rightarrow> bool" where
  "turn_ok env st ed n r \<longleftrightarrow> (\<exists>k s. asked (ee_v1 env) ed k (may_ask env ed) (en_workflow st, en_runData st, en_queue st) s \<and>
     turn_from env st ed n s r)"

lemma turn_from_cong:
  "en_nextIndex st' = en_nextIndex st \<Longrightarrow> en_status st' = en_status st \<Longrightarrow>
     turn_from (in_workflow w env) st' ed n s r = turn_from env st ed n s r"
  by (cases s; cases r) (simp_all add: Let_def)

lemma turn_ok_in_workflow [simp]: "turn_ok (in_workflow w env) st ed n r = turn_ok env st ed n r"
  by (simp add: turn_ok_def turn_from_cong [of st st])

lemma recorded_refl [simp]: "recorded n name rd rd" by (simp add: recorded_def)

lemma with_outputs_index [simp]: "td_executionIndex (with_outputs rd node k outs td) = td_executionIndex td"
  by (simp add: with_outputs_def split: option.split)

lemma failed_task_index [simp]: "td_executionIndex (failed_task rd node k e td) = td_executionIndex td"
  by (simp add: failed_task_def Let_def)

lemma started_task_index [simp]: "td_executionIndex (started_task env n ed) = Some n"
  by (simp add: started_task_def)

lemma with_outputs_status [simp]: "td_executionStatus (with_outputs rd node k outs td) = td_executionStatus td"
  by (simp add: with_outputs_def split: option.split)

lemma failed_task_status [simp]: "td_executionStatus (failed_task rd node k e td) = Some ErrorStatus"
  by (simp add: failed_task_def Let_def)

lemma recorded_put: "td_executionIndex td = Some n \<Longrightarrow> td_executionStatus td \<noteq> None \<Longrightarrow> recorded n name rd (put_task (ensure_runs name rd) name k td)"
  unfolding recorded_def by blast

lemma unshift_simps [simp]:
  "en_queue (unshift ed st) = (en_queue st)\<lparr>eq_stack := ed # eq_stack (en_queue st)\<rparr>"
  "en_runData (unshift ed st) = en_runData st" "en_nextIndex (unshift ed st) = en_nextIndex st"
  "en_status (unshift ed st) = en_status st" "en_workflow (unshift ed st) = en_workflow st" "en_waitTill (unshift ed st) = en_waitTill st"
  "en_lastNodeExecuted (unshift ed st) = en_lastNodeExecuted st" "en_executionError (unshift ed st) = en_executionError st"
  by (simp_all add: unshift_def set_queue_def)

lemma set_queue_simps [simp]:
  "en_queue (set_queue q st) = q"
  "en_runData (set_queue q st) = en_runData st" "en_nextIndex (set_queue q st) = en_nextIndex st"
  "en_status (set_queue q st) = en_status st" "en_workflow (set_queue q st) = en_workflow st"
  by (simp_all add: set_queue_def)

lemma record_turn_ok:
  assumes "en_runData st = ensure_runs (node_name (ed_node ed)) rd" "ee_workflow env = en_workflow st"
    and "td_executionIndex td = Some n" "td_executionStatus td \<noteq> None"
  shows "turn_from env st ed n (en_workflow st, rd, en_queue st) (record_turn env st ed k data td)"
proof (cases "bindE (case data of None \<Rightarrow> Inl type_error | Some outs \<Rightarrow> Inr outs) merge_errors")
  case (Inl e)
  then show ?thesis using assms(1) by (simp add: record_turn_def Let_def recorded_def)
next
  case (Inr outs)
  let ?rd = "put_task (en_runData st) (node_name (ed_node ed)) k (with_outputs (en_runData st) (ed_node ed) k outs td)"
  have r: "recorded n (node_name (ed_node ed)) rd ?rd"
    using assms by (simp add: recorded_put)
  have env: "in_workflow (en_workflow st) env = env" using assms(2) in_workflow_simps(6) [of env] by simp
  show ?thesis
    using Inr r assms(2) by (auto simp: record_turn_def Let_def add_next_def moved_on_def env split: sum.split)
qed

lemma finish_turn_ok:
  assumes "ee_workflow env = en_workflow st"
  shows "turn_from env st ed n (en_workflow st, en_runData st, en_queue st) (finish_turn env st ed k n data)"
proof -
  let ?name = "node_name (ed_node ed)"
  let ?st = "st\<lparr>en_runData := ensure_runs ?name (en_runData st)\<rparr>"
  have rt: "turn_from env st ed n (en_workflow st, en_runData st, en_queue st) (record_turn env ?st ed k data' td)"
    if "td_executionIndex td = Some n" "td_executionStatus td \<noteq> None" for td data'
    using record_turn_ok [where st = ?st and rd = "en_runData st" and ed = ed and n = n and env = env, OF _ _ that] assms by simp
  show ?thesis
  proof (cases "en_executionError st")
    case None
    then show ?thesis by (simp add: finish_turn_def Let_def rt del: turn_from.simps)
  next
    case (Some e)
    show ?thesis
    proof (cases "continues_on_error (ed_node ed)")
      case True
      with Some show ?thesis by (simp add: finish_turn_def Let_def rt del: turn_from.simps)
    next
      case False
      with Some show ?thesis by (simp add: finish_turn_def Let_def recorded_put)
    qed
  qed
qed

lemma after_tries_simps [simp]:
  "en_workflow (after_tries ts st) = ts_workflow ts" "en_runData (after_tries ts st) = ts_runData ts"
  "en_queue (after_tries ts st) = ts_queue ts" "en_nextIndex (after_tries ts st) = en_nextIndex st"
  "en_status (after_tries ts st) = en_status st" "en_executionError (after_tries ts st) = ts_error ts"
  "en_lastNodeExecuted (after_tries ts st) = ts_last ts" "en_waitTill (after_tries ts st) = ts_wait ts"
  by (simp_all add: after_tries_def)

lemma run_turn_ok:
  assumes "ee_workflow env = en_workflow st"
  shows "turn_ok env st ed n (run_turn env st ed k n)"
proof -
  obtain ended ts where ts: "tries_of env st ed k = (ended, ts)" by fastforce
  let ?s = "(ts_workflow ts, ts_runData ts, ts_queue ts)" and ?env = "in_workflow (ts_workflow ts) env"
  have asked: "asked (ee_v1 env) ed k (may_ask env ed) (en_workflow st, en_runData st, en_queue st) ?s"
    using tries_of_asked [OF ts] assms by simp
  have "turn_from env st ed n ?s (run_turn env st ed k n)"
  proof (cases ended)
    case True
    then show ?thesis using ts by (simp add: run_turn_def)
  next
    case False
    have "turn_from ?env (after_tries ts st) ed n ?s (finish_turn ?env (after_tries ts st) ed k n (ts_data ts))"
      using finish_turn_ok [of ?env "after_tries ts st" ed n k "ts_data ts"] by (simp del: turn_from.simps)
    then show ?thesis using ts False turn_from_cong [of "after_tries ts st" st] by (simp add: run_turn_def del: turn_from.simps)
  qed
  with asked show ?thesis unfolding turn_ok_def by blast
qed

lemma check_inputs_v1: "check_inputs False w ed ns = Inr False \<Longrightarrow> \<not> has_main ed"
  by (induction ns) (auto simp: has_main_def split: sum.splits option.splits if_splits)

lemma turn_ok_start: "turn_from env st ed n (en_workflow st, en_runData st, en_queue st) r \<Longrightarrow> turn_ok env st ed n r"
  unfolding turn_ok_def by (blast intro: asked.none)

lemma take_turn_ok:
  assumes "ee_workflow env = en_workflow st"
  shows "turn_ok env st ed n (take_turn env st ed n)"
proof -
  have v1: "ensureInputData True w ed (en_queue st) = Inr (False, q) \<Longrightarrow> \<not> has_main ed" for w q
    by (auto simp: ensureInputData_def bindE_Inr_iff dest: check_inputs_v1)
  have q: "ensureInputData v1 w ed (en_queue st) = Inr (b, q) \<Longrightarrow>
    q = (if b then en_queue st else (en_queue st)\<lparr>eq_stack := eq_stack (en_queue st) @ [ed]\<rparr>)" for v1 w b q
    by (auto simp: ensureInputData_def bindE_Inr_iff)
  have again: "turn_ok env st ed n (Continue (set_queue q' (st\<lparr>en_lastTry := t\<rparr>)))"
    if "ensureInputData (ee_v1 env) (ee_workflow env) ed (en_queue st) = Inr (False, q')" for q' t
    using q [OF that] v1 [of "ee_workflow env" q'] that by (intro turn_ok_start) (auto simp: Let_def)
  have stay: "turn_ok env st ed n (Throw e st)" "turn_ok env st ed n (Continue st)" for e
    by (rule turn_ok_start, simp)+
  show ?thesis
    using run_turn_ok [OF assms, of ed n] again stay
    by (simp add: take_turn_def Let_def split: sum.split bool.split)
qed

text \<open>A node that is not in the filter leaves the state as it is.\<close>

lemma take_turn_filtered:
  assumes "ee_runNodeFilter env = Some names" "node_name (ed_node ed) \<notin> set names"
  shows "turn_state (take_turn env st ed n) = st"
  using assms by (simp add: take_turn_def Let_def)

definition begin_turn :: "engine \<Rightarrow> execute_data list \<Rightarrow> engine" where
  "begin_turn st rest = st\<lparr>en_queue := (en_queue st)\<lparr>eq_stack := rest\<rparr>, en_executionError := None,
     en_nextIndex := Suc (en_nextIndex st)\<rparr>"

lemma begin_turn_simps [simp]:
  "en_queue (begin_turn st rest) = (en_queue st)\<lparr>eq_stack := rest\<rparr>" "en_runData (begin_turn st rest) = en_runData st"
  "en_nextIndex (begin_turn st rest) = Suc (en_nextIndex st)" "en_status (begin_turn st rest) = en_status st"
  "en_workflow (begin_turn st rest) = en_workflow st"
  by (simp_all add: begin_turn_def)

lemma check_canceled_id: "en_status (check_canceled env st) \<noteq> Canceled \<Longrightarrow> check_canceled env st = st"
  by (auto simp: check_canceled_def Let_def split: if_splits option.splits)

lemma check_canceled_simps [simp]:
  "en_queue (check_canceled env st) = en_queue st" "en_nextIndex (check_canceled env st) = en_nextIndex st"
  "en_workflow (check_canceled env st) = en_workflow st"
  by (simp_all add: check_canceled_def Let_def split: option.split)

lemma check_canceled_runData:
  "en_runData (check_canceled env st) \<in> {en_runData st, updateTaskStatusesToCancelled (en_runData st)}"
  by (simp add: check_canceled_def Let_def split: option.split)

lemma update_paired_inputs_node: "update_paired_inputs ed = Inr ed' \<Longrightarrow> ed_node ed' = ed_node ed"
  by (auto simp: update_paired_inputs_def bindE_Inr_iff)

text \<open>The three ways a turn goes.\<close>

lemma engine_turn_cases:
  assumes "eq_stack (en_queue st) = ed # rest"
  obtains (canceled) "engine_turn env st = Leave (check_canceled env st)"
      "en_status (check_canceled env st) = Canceled"
    | (broken) e where "engine_turn env st = Throw e (begin_turn st rest)"
    | (turn) ed' where "update_paired_inputs ed = Inr ed'"
      "engine_turn env st = take_turn (in_workflow (en_workflow st) env) (begin_turn st rest) ed' (en_nextIndex st)"
proof (cases "en_status (check_canceled env st) = Canceled")
  case True
  then show ?thesis by (intro canceled) (simp_all add: engine_turn_def Let_def)
next
  case False
  note c = check_canceled_id [OF False]
  show ?thesis
  proof (cases "update_paired_inputs ed")
    case (Inl e)
    then show ?thesis
      using False assms by (intro broken [of e]) (simp add: engine_turn_def Let_def c begin_turn_def)
  next
    case (Inr ed')
    then show ?thesis
      using False assms by (intro turn [of ed']) (simp_all add: engine_turn_def Let_def c begin_turn_def)
  qed
qed

lemma taken_turn_ok: "turn_ok env (begin_turn st rest) ed n (take_turn (in_workflow (en_workflow st) env) (begin_turn st rest) ed n)"
  using take_turn_ok [of "in_workflow (en_workflow st) env" "begin_turn st rest" ed n] by simp

section \<open>Invariants of the loop\<close>

fun loop_state :: "loop_result \<Rightarrow> engine" where
  "loop_state (Ended st) = st"
| "loop_state (Broken e st) = st"

text \<open>A predicate that every turn keeps holds in every state reached and at the end.\<close>

locale loop_invariant =
  fixes env :: engine_env and inv :: "engine \<Rightarrow> bool"
  assumes turn_keeps: "inv st \<Longrightarrow> eq_stack (en_queue st) \<noteq> [] \<Longrightarrow> inv (turn_state (engine_turn env st))"
begin

lemma step_keeps: "engine_step env st st' \<Longrightarrow> inv st \<Longrightarrow> inv st'"
  using turn_keeps by (fastforce simp: engine_step_iff)

lemma reached_keeps: "reached env st0 st \<Longrightarrow> inv st0 \<Longrightarrow> inv st"
  by (induction rule: reached.induct) (auto intro: step_keeps)

lemma loop_keeps: "engine_loop env st = Some r \<Longrightarrow> inv st \<Longrightarrow> inv (loop_state r)"
proof -
  have "env' = env \<longrightarrow> inv st \<longrightarrow> inv (loop_state r)" if "engine_loop env' st = Some r" for env'
    using that
  proof (induction rule: engine_loop.raw_induct [rotated 1, consumes 1])
    case (1 loop env' st r)
    show ?case
    proof (intro impI)
      assume env': "env' = env" and st: "inv st"
      show "inv (loop_state r)"
      proof (cases "eq_stack (en_queue st) = []")
        case True
        then show ?thesis using 1(2) st by auto
      next
        case False
        note k = turn_keeps [OF st False]
        show ?thesis
          using 1(2) False k env' 1(1) by (cases "engine_turn env st") auto
      qed
    qed
  qed
  then show "engine_loop env st = Some r \<Longrightarrow> inv st \<Longrightarrow> inv (loop_state r)" by blast
qed

end

section \<open>The tables and the execution indices\<close>

text \<open>A placeholder has no index of its own.\<close>

definition own_index :: "task_data \<Rightarrow> nat option" where
  "own_index td = (if td_executionStatus td = None then None else td_executionIndex td)"

definition execution_indices :: "run_data \<Rightarrow> nat list" where
  "execution_indices rd = List.map_filter own_index (concat (obj_values rd))"

text \<open>A run without a status is a placeholder.\<close>

definition placeholders_ok :: "run_data \<Rightarrow> bool" where
  "placeholders_ok rd \<longleftrightarrow> (\<forall>name runs td. obj_get rd name = Some runs \<longrightarrow> td \<in> set runs \<longrightarrow>
     td_executionStatus td = None \<longrightarrow> is_placeholder td)"

definition indices_ok :: "engine \<Rightarrow> bool" where
  "indices_ok st \<longleftrightarrow> obj_wf (en_runData st) \<and> distinct (execution_indices (en_runData st)) \<and>
     (\<forall>i \<in> set (execution_indices (en_runData st)). i < en_nextIndex st) \<and> placeholders_ok (en_runData st)"

definition fits :: "nat \<Rightarrow> run_data \<Rightarrow> bool" where
  "fits n rd \<longleftrightarrow> obj_wf rd \<and> distinct (execution_indices rd) \<and> (\<forall>i \<in> set (execution_indices rd). i < n) \<and>
     placeholders_ok rd"

lemma indices_ok_fits: "indices_ok st \<longleftrightarrow> fits (en_nextIndex st) (en_runData st)"
  by (simp add: indices_ok_def fits_def)

lemma map_filter_append: "List.map_filter f (xs @ ys) = List.map_filter f xs @ List.map_filter f ys"
  by (simp add: List.map_filter_def)

lemma execution_indices_split:
  assumes "obj_wf rd" "obj_get rd name = Some runs"
  shows "\<exists>a b. execution_indices rd = a @ List.map_filter own_index runs @ b \<and>
    (\<forall>runs'. execution_indices (obj_set name runs' rd) = a @ List.map_filter own_index runs' @ b)"
  using assms
proof (induction rd)
  case (Cons x rd)
  obtain k v where x: "x = (k, v)" by fastforce
  show ?case
  proof (cases "k = name")
    case True
    then show ?thesis using Cons.prems x
      by (intro exI [of _ "[]"] exI [of _ "execution_indices rd"])
        (auto simp: execution_indices_def map_filter_append)
  next
    case False
    then have "obj_wf rd" "obj_get rd name = Some runs" using Cons.prems x by (auto simp: obj_wf_def)
    from Cons.IH [OF this] obtain a b where
      "execution_indices rd = a @ List.map_filter own_index runs @ b"
      "\<forall>runs'. execution_indices (obj_set name runs' rd) = a @ List.map_filter own_index runs' @ b" by blast
    then show ?thesis using x False
      by (intro exI [of _ "List.map_filter own_index v @ a"] exI [of _ b])
        (auto simp: execution_indices_def map_filter_append)
  qed
qed simp

lemma execution_indices_new: "obj_get rd name = None \<Longrightarrow> execution_indices (obj_set name runs rd) =
   execution_indices rd @ List.map_filter own_index runs"
  by (induction rd) (auto simp: execution_indices_def map_filter_append split: if_splits)

lemma fits_ensure_runs: "fits n rd \<Longrightarrow> fits n (ensure_runs name rd)"
  by (auto simp: fits_def ensure_runs_def execution_indices_new List.map_filter_def placeholders_ok_def
      split: option.split if_splits)

lemma map_filter_update:
  assumes "arr_get xs k = Some x"
  shows "\<exists>a b. List.map_filter f xs = a @ (case f x of None \<Rightarrow> [] | Some y \<Rightarrow> [y]) @ b \<and>
    (\<forall>z. List.map_filter f (xs[k := z]) = a @ (case f z of None \<Rightarrow> [] | Some y \<Rightarrow> [y]) @ b)"
proof -
  from assms have k: "k < length xs" "x = xs ! k" by (auto simp: arr_get_def split: if_splits)
  then have "xs = take k xs @ x # drop (Suc k) xs" by (simp add: id_take_nth_drop)
  moreover have "xs[k := z] = take k xs @ z # drop (Suc k) xs" for z
    using k by (simp add: upd_conv_take_nth_drop)
  moreover have "List.map_filter f (ys @ w # zs) = List.map_filter f ys @ (case f w of None \<Rightarrow> [] | Some y \<Rightarrow> [y]) @ List.map_filter f zs"
    for ys w zs by (auto simp: List.map_filter_def split: option.split)
  ultimately show ?thesis by metis
qed

lemma assign_task_index [simp]: "td_executionIndex (assign_task old td) = td_executionIndex td"
  by (simp add: assign_task_def)

lemma assign_task_status [simp]: "td_executionStatus (assign_task old td) = td_executionStatus td"
  by (simp add: assign_task_def)

lemma placeholders_put_task:
  assumes "placeholders_ok rd" "td_executionStatus td \<noteq> None"
  shows "placeholders_ok (put_task rd name k td)"
proof -
  let ?runs = "case obj_get rd name of None \<Rightarrow> [] | Some runs \<Rightarrow> runs"
  have old: "is_placeholder x" if "x \<in> set ?runs" "td_executionStatus x = None" for x
    using assms(1) that by (cases "obj_get rd name") (auto simp: placeholders_ok_def)
  have "is_placeholder x" if "x \<in> set (?runs[k := assign_task y td])" "td_executionStatus x = None" for x y
  proof -
    have "x \<noteq> assign_task y td" using that(2) assms(2) by auto
    then have "x \<in> set ?runs" using that(1) set_update_subset_insert by fastforce
    with old that(2) show ?thesis by blast
  qed
  moreover have "is_placeholder x" if "x \<in> set (?runs @ [td])" "td_executionStatus x = None" for x
    using that assms(2) old by auto
  ultimately have new: "is_placeholder x" if
    "x \<in> set (case arr_get ?runs k of None \<Rightarrow> ?runs @ [td] | Some y \<Rightarrow> ?runs[k := assign_task y td])"
    "td_executionStatus x = None" for x
    using that by (cases "arr_get ?runs k") auto
  show ?thesis
    unfolding placeholders_ok_def
  proof (intro allI impI)
    fix name' runs x
    assume "obj_get (put_task rd name k td) name' = Some runs" "x \<in> set runs" "td_executionStatus x = None"
    then show "is_placeholder x"
      using assms(1) new [of x] by (auto simp: put_task_def Let_def placeholders_ok_def split: if_splits)
  qed
qed

lemma execution_indices_put_task:
  assumes "obj_wf rd" "own_index td = Some n"
  shows "\<exists>a b c. execution_indices rd = a @ b @ c \<and> execution_indices (put_task rd name k td) = a @ [n] @ c"
proof (cases "obj_get rd name")
  case None
  then show ?thesis using assms(2)
    by (intro exI [of _ "execution_indices rd"] exI [of _ "[]"])
      (simp add: put_task_def Let_def arr_get_def execution_indices_new List.map_filter_simps)
next
  case (Some runs)
  from execution_indices_split [OF assms(1) Some] obtain a b where ab:
    "execution_indices rd = a @ List.map_filter own_index runs @ b"
    "\<And>runs'. execution_indices (obj_set name runs' rd) = a @ List.map_filter own_index runs' @ b" by blast
  show ?thesis
  proof (cases "arr_get runs k")
    case None
    then have "execution_indices (put_task rd name k td) = a @ (List.map_filter own_index runs @ [n]) @ b"
      using Some ab assms(2) by (simp add: put_task_def map_filter_append List.map_filter_simps)
    then show ?thesis using ab(1)
      by (intro exI [of _ "a @ List.map_filter own_index runs"] exI [of _ "[]"] exI [of _ b]) simp
  next
    case old: (Some old)
    have own: "own_index (assign_task old td) = Some n" using assms(2) by (auto simp: own_index_def split: if_splits)
    from map_filter_update [OF old, of own_index] obtain u v where uv:
      "List.map_filter own_index runs = u @ (case own_index old of None \<Rightarrow> [] | Some y \<Rightarrow> [y]) @ v"
      "\<And>z. List.map_filter own_index (runs[k := z]) = u @ (case own_index z of None \<Rightarrow> [] | Some y \<Rightarrow> [y]) @ v"
      by blast
    then have "execution_indices (put_task rd name k td) = a @ (u @ [n] @ v) @ b"
      using Some old ab own by (simp add: put_task_def)
    then show ?thesis using ab(1) uv(1)
      by (intro exI [of _ "a @ u"] exI [of _ "case own_index old of None \<Rightarrow> [] | Some y \<Rightarrow> [y]"] exI [of _ "v @ b"]) simp
  qed
qed

lemma fits_put_task:
  assumes "fits n rd" "td_executionIndex td = Some n" "td_executionStatus td \<noteq> None"
  shows "fits (Suc n) (put_task rd name k td)"
proof -
  have wf: "obj_wf rd" and d: "distinct (execution_indices rd)" and lt: "\<forall>i \<in> set (execution_indices rd). i < n"
    and pl: "placeholders_ok rd" using assms(1) by (auto simp: fits_def)
  have "own_index td = Some n" using assms(2,3) by (simp add: own_index_def)
  from execution_indices_put_task [OF wf this] obtain a b c where
    "execution_indices rd = a @ b @ c" "execution_indices (put_task rd name k td) = a @ [n] @ c" by blast
  moreover have "obj_wf (put_task rd name k td)" using wf by (simp add: put_task_def Let_def)
  ultimately show ?thesis using d lt placeholders_put_task [OF pl assms(3)] by (auto simp: fits_def less_Suc_eq)
qed

text \<open>Placeholders leave the indices alone.\<close>

lemma fits_placeholder:
  assumes "fits n rd" "is_placeholder td"
  shows "fits n (obj_set name (run_list rd name @ [td]) rd)"
proof -
  have none: "own_index td = None" using assms(2) by (simp add: own_index_def is_placeholder_def)
  have "execution_indices (obj_set name (run_list rd name @ [td]) rd) = execution_indices rd"
  proof (cases "obj_get rd name")
    case None
    then show ?thesis using none by (simp add: run_list_def execution_indices_new List.map_filter_simps)
  next
    case (Some runs)
    have "obj_wf rd" using assms(1) by (simp add: fits_def)
    from execution_indices_split [OF this Some] Some none show ?thesis
      by (auto simp: run_list_def map_filter_append List.map_filter_simps)
  qed
  with assms show ?thesis
    by (auto simp: fits_def placeholders_ok_def run_list_def split: option.splits if_splits)
qed

lemma fits_mono: "fits n rd \<Longrightarrow> fits (Suc n) rd"
  by (auto simp: fits_def)

lemma fits_recorded: "fits n rd \<Longrightarrow> recorded n name rd rd' \<Longrightarrow> fits (Suc n) rd'"
  by (auto simp: recorded_def intro: fits_mono fits_ensure_runs fits_put_task)

lemma execution_indices_canceled: "execution_indices (updateTaskStatusesToCancelled rd) = execution_indices rd"
proof -
  have c: "List.map_filter own_index (map (\<lambda>td. if td_executionStatus td = Some Running
        then td\<lparr>td_executionStatus := Some Canceled\<rparr> else td) runs) = List.map_filter own_index runs" for runs
    by (induction runs) (auto simp: List.map_filter_simps own_index_def split: option.split)
  show ?thesis
    by (induction rd) (auto simp: execution_indices_def updateTaskStatusesToCancelled_def map_filter_append c)
qed

lemma obj_wf_canceled: "obj_wf (updateTaskStatusesToCancelled rd) = obj_wf rd"
  by (simp add: obj_wf_def updateTaskStatusesToCancelled_def comp_def case_prod_unfold)

lemma placeholders_canceled: "placeholders_ok rd \<Longrightarrow> placeholders_ok (updateTaskStatusesToCancelled rd)"
proof -
  have "obj_get (updateTaskStatusesToCancelled rd) name = map_option (map (\<lambda>td. if td_executionStatus td = Some Running
        then td\<lparr>td_executionStatus := Some Canceled\<rparr> else td)) (obj_get rd name)" for name
    by (induction rd) (auto simp: updateTaskStatusesToCancelled_def)
  then show "placeholders_ok rd \<Longrightarrow> placeholders_ok (updateTaskStatusesToCancelled rd)"
    by (auto simp: placeholders_ok_def split: if_splits)
qed

lemma fits_canceled: "fits n (en_runData st) \<Longrightarrow> fits n (en_runData (check_canceled env st))"
  using check_canceled_runData [of env st]
  by (auto simp: fits_def execution_indices_canceled obj_wf_canceled placeholders_canceled)

text \<open>The two tables of a workflow belong together, and a main output leads to main inputs.\<close>

definition wired :: "workflow \<Rightarrow> bool" where
  "wired w \<longleftrightarrow> conns_wf (wf_connectionsBySourceNode w) \<and>
     wf_connectionsByDestinationNode w = mapConnectionsByDestination (wf_connectionsBySourceNode w) \<and>
     (\<forall>name. \<forall>oc \<in> set (child_connections w name). conn_type (snd oc) = Main_type)"

lemma in_enumerate_iff: "(\<exists>x. (i, x) \<in> set (List.enumerate 0 xs) \<and> P x) \<longleftrightarrow> i < length xs \<and> P (xs ! i)"
  by (auto simp: in_set_enumerate_eq intro: exI [of _ "xs ! i"])

lemma in_child_connections:
  "(i, c) \<in> set (concat (map (\<lambda>(j, d). map (Pair j) (cell d)) (List.enumerate 0 arr))) \<longleftrightarrow>
   i < length arr \<and> c \<in> set (cell (arr ! i))"
proof -
  have "(i, c) \<in> set (concat (map (\<lambda>(j, d). map (Pair j) (cell d)) (List.enumerate 0 arr))) \<longleftrightarrow>
    (\<exists>d. (i, d) \<in> set (List.enumerate 0 arr) \<and> c \<in> set (cell d))" by auto
  then show ?thesis by (simp add: in_enumerate_iff)
qed

lemma child_connections_conns_at:
  "oc \<in> set (child_connections w name) \<longleftrightarrow> snd oc \<in> set (conns_at (wf_connectionsBySourceNode w) name Main_type (fst oc))"
proof -
  have "(i, c) \<in> set (child_connections w name) \<longleftrightarrow> c \<in> set (conns_at (wf_connectionsBySourceNode w) name Main_type i)" for i c
    unfolding child_connections_def in_child_connections by (auto simp: conns_at_def cells_of_def split: option.splits)
  then show ?thesis by (cases oc) simp
qed

lemma wired_covers:
  assumes "wired w" "oc \<in> set (child_connections w name)"
  shows "conn_index (snd oc) < number_of_inputs w (conn_node (snd oc))"
proof -
  obtain i d k where oc: "oc = (i, \<lparr>conn_node = d, conn_type = Main_type, conn_index = k\<rparr>)"
    using assms unfolding wired_def by (metis connection.cases prod.collapse connection.select_convs(2) snd_conv)
  then have "\<lparr>conn_node = d, conn_type = Main_type, conn_index = k\<rparr> \<in> set (conns_at (wf_connectionsBySourceNode w) name Main_type i)"
    using assms(2) by (simp add: child_connections_conns_at)
  then have "\<lparr>conn_node = name, conn_type = Main_type, conn_index = i\<rparr> \<in> set (conns_at (wf_connectionsByDestinationNode w) d Main_type k)"
    using assms(1) by (simp add: wired_def mapConnectionsByDestination_converse)
  then show ?thesis using oc
    by (cases "obj_get (wf_connectionsByDestinationNode w) d")
      (auto simp: conns_at_def number_of_inputs_def cells_of_def Some_eq_get split: option.splits if_splits)
qed

lemma nodes_to_add_subset: "nodes_to_add w name outs = Inr ocs \<Longrightarrow> set ocs \<subseteq> set (child_connections w name)"
  by (auto simp: nodes_to_add_def split: if_splits)

text \<open>What every single addition keeps, adding the children keeps.\<close>

lemma add_children_keeps:
  assumes "add_children v1 w rd name outs k q = Inr q'" "P q"
    and "\<And>oc q q'. oc \<in> set (child_connections w name) \<Longrightarrow> P q \<Longrightarrow> add_child v1 w rd name outs k oc q = Inr q' \<Longrightarrow> P q'"
  shows "P q'"
proof (cases v1)
  case True
  with assms(1) obtain ocs where ocs: "nodes_to_add w name outs = Inr ocs" "foldE (add_child True w rd name outs k) ocs q = Inr q'"
    by (auto simp: add_children_def bindE_Inr_iff)
  show ?thesis
  proof (rule foldE_partial [where P = P, OF ocs(2) assms(2)])
    fix oc q q'
    assume "oc \<in> set ocs" "P q" "add_child True w rd name outs k oc q = Inr q'"
    then show "P q'" using assms(3) [of oc q q'] nodes_to_add_subset [OF ocs(1)] True by auto
  qed
next
  case False
  with assms(1) have "foldE (\<lambda>oc q.
        if getNode w (conn_node (snd oc)) = None then Inl destination_not_found
        else if child_wanted False outs oc then add_child False w rd name outs k oc q
        else Inr q) (child_connections w name) q = Inr q'" by (simp add: add_children_def)
  then show ?thesis
    by (rule foldE_partial [where P = P]) (use assms(2,3) False in \<open>auto split: if_splits\<close>)
qed

lemma moved_on_waiting_ok:
  assumes "moved_on env rd name q q'" "waiting_ok (ee_workflow env) q" "wired (ee_workflow env)"
  shows "waiting_ok (ee_workflow env) q'"
proof -
  obtain outs k q1 where q1: "add_children (ee_v1 env) (ee_workflow env) rd name outs k q = Inr q1"
    "(if eq_stack q1 = [] then pick_waiting (ee_queue env) q1 else Inr q1) = Inr q'"
    using assms(1) by (auto simp: moved_on_def bindE_Inr_iff)
  have "waiting_ok (ee_workflow env) q1"
    by (rule add_children_keeps [where P = "waiting_ok (ee_workflow env)", OF q1(1)])
      (use assms(2,3) in \<open>auto simp: add_child_def intro: addNodeToBeExecuted_keeps wired_covers\<close>)
  then show ?thesis using q1(2) by (auto dest: pick_waiting_ok split: if_splits)
qed

section \<open>Requests keep the tables and the indices\<close>

lemma wired_same: "wired w \<Longrightarrow> wired w'" if "same_tables w w'"
  unfolding wired_def child_connections_def that [THEN conjunct1] that [THEN conjunct2, THEN conjunct1] .

lemma waiting_ok_same: "waiting_ok w' = waiting_ok w" if "same_tables w w'"
  by (rule ext) (simp only: waiting_ok_def number_of_inputs_same [OF that])

fun state_ok :: "nat \<Rightarrow> workflow \<times> run_data \<times> engine_queue \<Rightarrow> bool" where
  "state_ok n (w, rd, q) \<longleftrightarrow> wired w \<and> waiting_ok w q \<and> fits n rd"

lemma add_requested_waiting_ok:
  assumes "add_requested v1 w rd n q = Inr q'" "waiting_ok w q" "may_schedule ed request n"
  shows "waiting_ok w q'"
proof -
  have "addNodeToBeExecuted v1 w rd (ne_connection n) 0 (ne_parentNode n) (ne_parentOutputData n)
        (ne_runIndex n) (Some (ne_nodeRunIndex n)) (Some (ne_metadata n)) q = Inr q'"
    using assms(1) by (simp add: add_requested_def split: if_splits)
  then show ?thesis
    by (rule addNodeToBeExecuted_keeps [rotated 2]) (use assms(2,3) in \<open>auto simp: may_schedule_def\<close>)
qed

lemma asked_state_ok: "asked v1 ed k R s s' \<Longrightarrow> state_ok n s \<Longrightarrow> state_ok n s'"
proof (induction rule: asked.induct)
  case (more w rd q request r q' w' rd')
  then have ok: "wired w" "waiting_ok w q" "fits n rd" by simp_all
  have "same_tables w w' \<and> fits n rd' \<and> waiting_ok w q'"
  proof (rule handleEngineRequest_effect [where P = "fits n" and Q = "waiting_ok w", OF more(3) ok(3,2)])
    show "waiting_ok w q2" if "same_tables w w1" "waiting_ok w q1" "may_schedule ed request x"
      "add_requested v1 w1 rd1 x q1 = Inr q2" for w1 rd1 x q1 q2
      using add_requested_waiting_ok [OF that(4) _ that(3)] that(1,2) waiting_ok_same by metis
  qed (rule fits_placeholder)
  then have same: "same_tables w w'" and rest: "fits n rd'" "waiting_ok w q'" by simp_all
  from wired_same [OF same ok(1)] waiting_ok_same [OF same] rest show ?case by simp
qed simp

definition engine_ok :: "engine \<Rightarrow> bool" where
  "engine_ok st \<longleftrightarrow> state_ok (en_nextIndex st) (en_workflow st, en_runData st, en_queue st)"

lemma turn_from_ok:
  assumes "turn_from env st ed n s r" "state_ok n s"
  shows "state_ok (Suc n) (en_workflow (turn_state r), en_runData (turn_state r), en_queue (turn_state r))"
proof -
  obtain w rd q where s: "s = (w, rd, q)" by (cases s)
  have ok: "wired w" "waiting_ok w q" "fits n rd" using assms(2) s by simp_all
  have w: "waiting_ok w (q\<lparr>eq_stack := x\<rparr>)" for x using ok(2) by (simp add: waiting_ok_stack)
  have moved: "waiting_ok w q'" if "moved_on (in_workflow w env) rd' name q q'" for rd' name q'
    using moved_on_waiting_ok [OF that] ok by simp
  show ?thesis
    using assms(1) ok w moved fits_recorded [OF ok(3)] unfolding s
    by (cases r) (auto simp: Let_def)
qed

lemma turn_ok_engine_ok:
  assumes "turn_ok env (begin_turn st rest) ed (en_nextIndex st) r" "engine_ok st"
  shows "engine_ok (turn_state r)"
proof -
  obtain k s where s: "asked (ee_v1 env) ed k (may_ask env ed) (en_workflow st, en_runData st, (en_queue st)\<lparr>eq_stack := rest\<rparr>) s"
    "turn_from env (begin_turn st rest) ed (en_nextIndex st) s r"
    using assms(1) by (auto simp: turn_ok_def)
  have "state_ok (en_nextIndex st) (en_workflow st, en_runData st, (en_queue st)\<lparr>eq_stack := rest\<rparr>)"
    using assms(2) by (simp add: engine_ok_def waiting_ok_stack)
  from turn_from_ok [OF s(2) asked_state_ok [OF s(1) this]]
  have "state_ok (Suc (en_nextIndex st)) (en_workflow (turn_state r), en_runData (turn_state r), en_queue (turn_state r))" .
  moreover have "en_nextIndex (turn_state r) = Suc (en_nextIndex st)"
    using s(2) by (cases s) (simp add: Let_def)
  ultimately show ?thesis by (simp only: engine_ok_def)
qed

interpretation engine_tables: loop_invariant env engine_ok for env
proof
  fix st :: engine
  assume ok: "engine_ok st" and "eq_stack (en_queue st) \<noteq> []"
  then obtain ed rest where st: "eq_stack (en_queue st) = ed # rest" by (cases "eq_stack (en_queue st)") auto
  show "engine_ok (turn_state (engine_turn env st))"
  proof (rule engine_turn_cases [OF st, of env])
    show ?thesis if "engine_turn env st = Leave (check_canceled env st)"
      using that ok by (simp add: engine_ok_def fits_canceled)
    show ?thesis if "engine_turn env st = Throw e (begin_turn st rest)" for e
      using that ok by (simp add: engine_ok_def fits_mono waiting_ok_stack)
    show ?thesis if "engine_turn env st = take_turn (in_workflow (en_workflow st) env) (begin_turn st rest) ed' (en_nextIndex st)" for ed'
      using turn_ok_engine_ok [OF taken_turn_ok ok] that by simp
  qed
qed


section \<open>The nodes that may run\<close>

text \<open>A node that may be asked for by another one, by the names of the workflow.\<close>

definition may_request_node :: "engine_env \<Rightarrow> workflow \<Rightarrow> inode \<Rightarrow> string \<Rightarrow> bool" where
  "may_request_node env w node name \<longleftrightarrow> (\<exists>response request a. asks env node response request \<and>
     a \<in> set (er_actions request) \<and> map_option node_name (getNode w (ea_nodeName a)) = Some name)"

text \<open>Only nodes of the filter get run data, and nodes that a node of the filter asks for.\<close>

definition allowed :: "engine_env \<Rightarrow> workflow \<Rightarrow> string \<Rightarrow> bool" where
  "allowed env w name \<longleftrightarrow> (\<forall>names. ee_runNodeFilter env = Some names \<longrightarrow> name \<in> set names \<or>
     (\<exists>node. node_name node \<in> set names \<and> may_request_node env w node name))"

definition filtered_data :: "engine_env \<Rightarrow> workflow \<Rightarrow> run_data \<Rightarrow> run_data \<Rightarrow> bool" where
  "filtered_data env w rd0 rd \<longleftrightarrow> (\<forall>name. obj_get rd name \<noteq> None \<longrightarrow> obj_get rd0 name \<noteq> None \<or> allowed env w name)"

definition filter_ok :: "engine_env \<Rightarrow> workflow \<Rightarrow> run_data \<Rightarrow> engine \<Rightarrow> bool" where
  "filter_ok env w0 rd0 st \<longleftrightarrow> same_tables w0 (en_workflow st) \<and> filtered_data env w0 rd0 (en_runData st)"

lemma recorded_keys: "recorded n name rd rd' \<Longrightarrow> obj_get rd' x \<noteq> None \<Longrightarrow> x = name \<or> obj_get rd x \<noteq> None"
  by (auto simp: recorded_def put_task_def ensure_runs_def Let_def split: option.splits if_splits)

lemma canceled_keys: "obj_get (updateTaskStatusesToCancelled rd) x = None \<longleftrightarrow> obj_get rd x = None"
  by (induction rd) (auto simp: updateTaskStatusesToCancelled_def)

lemma filtered_data_set: "filtered_data env w rd0 rd \<Longrightarrow> allowed env w name \<Longrightarrow> filtered_data env w rd0 (obj_set name runs rd)"
  by (simp add: filtered_data_def)

lemma asked_filtered:
  assumes "asked v1 ed k (may_ask env ed) (w, rd, q) s" "same_tables w0 w" "filtered_data env w0 rd0 rd"
    and "\<forall>names. ee_runNodeFilter env = Some names \<longrightarrow> node_name (ed_node ed) \<in> set names"
  shows "case s of (w', rd', q') \<Rightarrow> same_tables w0 w' \<and> filtered_data env w0 rd0 rd'"
  using assms(1)
proof (induction rule: asked.induct)
  case none
  then show ?case using assms(2,3) by simp
next
  case (more w1 rd1 q1 request r q' w' rd')
  then have w1: "same_tables w0 w1" and rd1: "filtered_data env w0 rd0 rd1" by simp_all
  have "same_tables w1 w' \<and> filtered_data env w0 rd0 rd' \<and> True"
  proof (rule handleEngineRequest_effect [where P = "filtered_data env w0 rd0" and Q = "\<lambda>_. True", OF more(3) rd1])
    fix rd a n td
    assume rd: "filtered_data env w0 rd0 rd" and a: "a \<in> set (er_actions request)"
      and n: "map_option node_name (getNode w1 (ea_nodeName a)) = Some n"
    have "map_option node_name (getNode w0 (ea_nodeName a)) = Some n" using w1 n by metis
    with a more(2) have "may_request_node env w0 (ed_node ed) n"
      unfolding may_request_node_def may_ask_def by blast
    with assms(4) have "allowed env w0 n" unfolding allowed_def by blast
    then show "filtered_data env w0 rd0 (obj_set n (run_list rd n @ [td]) rd)" by (rule filtered_data_set [OF rd])
  qed simp_all
  then show ?case using same_tables_trans [OF w1, of w'] by simp
qed

lemma turn_ok_filtered:
  assumes "turn_ok env st ed n r" "filter_ok env w0 rd0 st"
    and "\<forall>names. ee_runNodeFilter env = Some names \<longrightarrow> node_name (ed_node ed) \<in> set names"
  shows "filter_ok env w0 rd0 (turn_state r)"
proof -
  obtain k w rd q where s: "asked (ee_v1 env) ed k (may_ask env ed) (en_workflow st, en_runData st, en_queue st) (w, rd, q)"
    "turn_from env st ed n (w, rd, q) r" using assms(1) by (auto simp: turn_ok_def simp del: turn_from.simps)
  have w0: "same_tables w0 (en_workflow st)" and rd0: "filtered_data env w0 rd0 (en_runData st)"
    using assms(2) by (simp_all add: filter_ok_def)
  from asked_filtered [OF s(1) w0 rd0 assms(3)] have ok: "same_tables w0 w" "filtered_data env w0 rd0 rd" by simp_all
  have r: "recorded n (node_name (ed_node ed)) rd (en_runData (turn_state r))" "en_workflow (turn_state r) = w"
    using s(2) by (simp_all add: Let_def)
  have "allowed env w0 (node_name (ed_node ed))" using assms(3) by (simp add: allowed_def)
  then have "filtered_data env w0 rd0 (en_runData (turn_state r))"
    using ok(2) recorded_keys [OF r(1)] unfolding filtered_data_def by metis
  then show ?thesis using ok(1) r(2) by (simp add: filter_ok_def)
qed

interpretation engine_filter: loop_invariant env "filter_ok env w0 rd0" for env w0 rd0
proof
  fix st :: engine
  assume ok: "filter_ok env w0 rd0 st" and "eq_stack (en_queue st) \<noteq> []"
  then obtain ed rest where st: "eq_stack (en_queue st) = ed # rest" by (cases "eq_stack (en_queue st)") auto
  show "filter_ok env w0 rd0 (turn_state (engine_turn env st))"
  proof (rule engine_turn_cases [OF st, of env])
    show ?thesis if "engine_turn env st = Leave (check_canceled env st)"
    proof -
      have "obj_get (en_runData (check_canceled env st)) x = None \<longleftrightarrow> obj_get (en_runData st) x = None" for x
        using check_canceled_runData [of env st] canceled_keys [of "en_runData st" x] by auto
      then show ?thesis using that ok by (simp add: filter_ok_def filtered_data_def)
    qed
    show ?thesis if "engine_turn env st = Throw e (begin_turn st rest)" for e
      using that ok by (simp add: filter_ok_def)
    show ?thesis
      if t: "engine_turn env st = take_turn (in_workflow (en_workflow st) env) (begin_turn st rest) ed' (en_nextIndex st)" for ed'
    proof (cases "\<exists>names. ee_runNodeFilter env = Some names \<and> node_name (ed_node ed') \<notin> set names")
      case True
      then have "turn_state (engine_turn env st) = begin_turn st rest"
        unfolding t using take_turn_filtered [of "in_workflow (en_workflow st) env"] by auto
      then show ?thesis using ok by (simp add: filter_ok_def)
    next
      case False
      have "filter_ok env w0 rd0 (begin_turn st rest)" using ok by (simp add: filter_ok_def)
      from turn_ok_filtered [OF taken_turn_ok this] False show ?thesis unfolding t by blast
    qed
  qed
qed

section \<open>The loop and the step relation\<close>

text \<open>A state in which the loop ends, and how.\<close>

definition ends_with :: "engine_env \<Rightarrow> engine \<Rightarrow> loop_result \<Rightarrow> bool" where
  "ends_with env st r \<longleftrightarrow> (if eq_stack (en_queue st) = [] then r = Ended st
     else r = (case engine_turn env st of Continue st' \<Rightarrow> Ended st' | Leave st' \<Rightarrow> Ended st' | Throw e st' \<Rightarrow> Broken e st') \<and>
       (\<forall>st'. engine_turn env st \<noteq> Continue st'))"

lemma reached_prepend: "reached env st1 st \<Longrightarrow> engine_step env st0 st1 \<Longrightarrow> reached env st0 st"
  by (induction rule: reached.induct) (auto intro: reached.intros)

lemma loop_step: "engine_step env st st' \<Longrightarrow> engine_loop env st = engine_loop env st'"
  by (subst engine_loop.simps) (auto simp: engine_step_iff)

lemma loop_reached: "reached env st0 st \<Longrightarrow> engine_loop env st0 = engine_loop env st"
  by (induction rule: reached.induct) (auto dest: loop_step)

lemma loop_ends: "ends_with env st r \<Longrightarrow> engine_loop env st = Some r"
  by (subst engine_loop.simps) (auto simp: ends_with_def split: turn_result.splits if_splits)


end
