(* ===== verification/Engine_Termination.thy ===== *)
theory Engine_Termination
  imports Engine_Invariants "HOL-Library.Multiset_Order"
begin

text \<open>
  In the order v1 the execution of an acyclic workflow whose requests get used up ends: a turn makes a
  multiset of weights smaller.
\<close>

section \<open>Termination\<close>

text \<open>
  In an acyclic workflow every node has a rank above its children. The measure of a queue is the
  multiset of the weights of the entries of the stack and of the waiting tables: a turn takes an entry
  away and adds lighter ones, those of the children or those of a request. The weight of an entry is
  the rank of its node and, below that, the budget of requests that its metadata leaves.
\<close>

definition ranked :: "workflow \<Rightarrow> (string \<Rightarrow> nat) \<Rightarrow> bool" where
  "ranked w rank \<longleftrightarrow> (\<forall>name. \<forall>oc \<in> set (child_connections w name). rank (conn_node (snd oc)) < rank name) \<and>
     (\<forall>name n. getNode w name = Some n \<longrightarrow> node_name n = name)"

definition table_ranks :: "(string \<Rightarrow> nat) \<Rightarrow> (string, (nat, 'v) obj) obj \<Rightarrow> nat multiset" where
  "table_ranks rank m = sum_list (map (\<lambda>(node, runs). replicate_mset (length runs) (rank node)) m)"

definition queue_ranks :: "(execute_data \<Rightarrow> nat) \<Rightarrow> (string \<Rightarrow> nat) \<Rightarrow> engine_queue \<Rightarrow> nat multiset" where
  "queue_ranks wt rank q = mset (map wt (eq_stack q)) + table_ranks rank (eq_waiting q)"

text \<open>A fresh entry does not resume a node. Its weight depends on its node alone.\<close>

definition fresh_metadata :: "task_metadata option \<Rightarrow> bool" where
  "fresh_metadata md \<longleftrightarrow> (case md of None \<Rightarrow> True | Some m \<Rightarrow> obj_get m ''subNodeExecutionData'' = None)"

definition weighs :: "(execute_data \<Rightarrow> nat) \<Rightarrow> (string \<Rightarrow> nat) \<Rightarrow> bool" where
  "weighs wt rank \<longleftrightarrow> (\<forall>e. fresh_metadata (ed_metadata e) \<longrightarrow> wt e = rank (node_name (ed_node e)))"

definition named_nodes :: "workflow \<Rightarrow> bool" where
  "named_nodes w \<longleftrightarrow> (\<forall>name n. getNode w name = Some n \<longrightarrow> node_name n = name)"

lemma fresh_None [simp]: "fresh_metadata None"
  by (simp add: fresh_metadata_def)

lemma table_ranks_simps [simp]:
  "table_ranks rank [] = {#}"
  "table_ranks rank ((node, runs) # m) = replicate_mset (length runs) (rank node) + table_ranks rank m"
  by (simp_all add: table_ranks_def)

lemma table_ranks_set:
  assumes "obj_get m node = Some runs"
  shows "\<exists>r. table_ranks rank m = replicate_mset (length runs) (rank node) + r \<and>
    (\<forall>runs'. table_ranks rank (obj_set node runs' m) = replicate_mset (length runs') (rank node) + r)"
  using assms
proof (induction m)
  case (Cons x m)
  obtain a b where x: "x = (a, b)" by fastforce
  show ?case
  proof (cases "a = node")
    case True
    with Cons.prems x show ?thesis by (intro exI [of _ "table_ranks rank m"]) auto
  next
    case False
    with Cons x obtain r where "table_ranks rank m = replicate_mset (length runs) (rank node) + r"
      "\<forall>runs'. table_ranks rank (obj_set node runs' m) = replicate_mset (length runs') (rank node) + r" by auto
    with x False show ?thesis
      by (intro exI [of _ "replicate_mset (length b) (rank a) + r"]) (auto simp: ac_simps)
  qed
qed simp

lemma table_ranks_new: "obj_get m node = None \<Longrightarrow>
   table_ranks rank (obj_set node runs m) = table_ranks rank m + replicate_mset (length runs) (rank node)"
  by (induction m) (auto split: if_splits)

lemma subset_add_left: "A \<subseteq># B \<Longrightarrow> A \<subseteq># C + B" for A B C :: "'a multiset"
  by (rule subset_mset.order_trans [OF _ mset_subset_eq_add_right])

lemma table_ranks_delete: "table_ranks rank (obj_delete node m) \<subseteq># table_ranks rank m"
  by (induction m) (auto simp: obj_delete_def intro: subset_add_left)

lemma table_ranks_delete_get:
  assumes "obj_get m node = Some runs"
  shows "table_ranks rank (obj_delete node m) + replicate_mset (length runs) (rank node) \<subseteq># table_ranks rank m"
  using assms
proof (induction m)
  case (Cons x m)
  obtain a b where x: "x = (a, b)" by fastforce
  show ?case
  proof (cases "a = node")
    case True
    with Cons.prems x have "b = runs" by auto
    moreover have "obj_delete node (x # m) = obj_delete node m" using True x by (simp add: obj_delete_def)
    ultimately show ?thesis using x True table_ranks_delete [of rank node m] by (simp add: ac_simps)
  next
    case False
    then have "obj_delete node (x # m) = x # obj_delete node m" using x by (simp add: obj_delete_def)
    then show ?thesis using Cons x False by (simp add: add.assoc)
  qed
qed simp

lemma obj_set_length: "length (obj_set k v m) = (if obj_get m k = None then Suc (length m) else length m)"
  by (induction m) auto

lemma table_ranks_put_run:
  "table_ranks rank (put_run node k v m) \<subseteq># (if obj_get (runs_of m node) k = None
     then add_mset (rank node) (table_ranks rank m) else table_ranks rank m)"
proof (cases "obj_get m node")
  case None
  then show ?thesis by (simp add: put_run_def runs_of_def table_ranks_new)
next
  case (Some runs)
  from table_ranks_set [OF Some, of rank] obtain r where
    "table_ranks rank m = replicate_mset (length runs) (rank node) + r"
    "\<And>runs'. table_ranks rank (obj_set node runs' m) = replicate_mset (length runs') (rank node) + r" by blast
  with Some show ?thesis by (simp add: put_run_def runs_of_def obj_set_length)
qed

lemma put_run_old: "obj_get (runs_of m node) k \<noteq> None \<Longrightarrow> table_ranks rank (put_run node k v m) \<subseteq># table_ranks rank m"
  using table_ranks_put_run [of rank node k v m] by (auto split: if_splits)

lemma put_run_new: "table_ranks rank (put_run node k v m) \<subseteq># add_mset (rank node) (table_ranks rank m)"
  by (rule subset_mset.order_trans [OF table_ranks_put_run]) simp

lemma replicate_mset_less: "n < m \<Longrightarrow> add_mset x (replicate_mset n x) \<subseteq># replicate_mset m x"
  using count_le_replicate_mset_subset_eq [of "Suc n" "replicate_mset m x" x] by simp

lemma table_ranks_drop_run:
  assumes "obj_get (runs_of m node) k \<noteq> None"
  shows "add_mset (rank node) (table_ranks rank (drop_run node k m)) \<subseteq># table_ranks rank m"
proof (cases "obj_get m node")
  case None
  then show ?thesis using assms by (simp add: runs_of_def)
next
  case (Some runs)
  then obtain v where k: "obj_get runs k = Some v" using assms by (auto simp: runs_of_def)
  note len = obj_delete_length [OF k]
  show ?thesis
  proof (cases "obj_delete k runs = []")
    case True
    have "replicate_mset (length runs) (rank node) = add_mset (rank node) (replicate_mset (length runs - 1) (rank node))"
      using len by (cases "length runs") auto
    then have "add_mset (rank node) (table_ranks rank (obj_delete node m)) \<subseteq>#
        table_ranks rank (obj_delete node m) + replicate_mset (length runs) (rank node)" by simp
    from subset_mset.order_trans [OF this table_ranks_delete_get [OF Some]] show ?thesis
      using Some True by (simp add: drop_run_def runs_of_def)
  next
    case False
    from table_ranks_set [OF Some, of rank] obtain r where r:
      "table_ranks rank m = replicate_mset (length runs) (rank node) + r"
      "\<And>runs'. table_ranks rank (obj_set node runs' m) = replicate_mset (length runs') (rank node) + r" by blast
    have "add_mset (rank node) (replicate_mset (length (obj_delete k runs)) (rank node)) \<subseteq># replicate_mset (length runs) (rank node)"
      by (rule replicate_mset_less [OF len])
    then show ?thesis using r Some False by (simp add: drop_run_def runs_of_def)
  qed
qed


section \<open>What the operations on the queue add\<close>

definition adds_at_most :: "(execute_data \<Rightarrow> nat) \<Rightarrow> (string \<Rightarrow> nat) \<Rightarrow> nat multiset \<Rightarrow> engine_queue \<Rightarrow> engine_queue \<Rightarrow> bool" where
  "adds_at_most wt rank new q q' \<longleftrightarrow> queue_ranks wt rank q' \<subseteq># new + queue_ranks wt rank q"

lemma queue_ranks_enqueue: "queue_ranks wt rank (enqueue v1 e q) = add_mset (wt e) (queue_ranks wt rank q)"
  by (simp add: queue_ranks_def enqueue_def)

lemma put_main_ranks:
  "obj_get (runs_of m node) k \<noteq> None \<Longrightarrow> table_ranks rank (put_main node k i v m) \<subseteq># table_ranks rank m"
  unfolding put_main_def Let_def by (rule put_run_old)

lemma first_free_entry_there:
  "first_free_entry runs i ks = Inr (Some k) \<Longrightarrow> obj_get runs k \<noteq> None"
  by (induction ks) (auto simp: main_slots_def split: option.splits if_splits slot.splits)

lemma add_to_waiting_ranks:
  assumes "add_to_waiting w c i parent out r q = Inr (k, was, q1)"
  shows "adds_at_most wt rank {#rank (conn_node c)#} q q1 \<and> main_at (eq_waiting q1) (conn_node c) k \<noteq> None \<and>
    eq_stack q1 = eq_stack q"
proof -
  let ?n = "conn_node c"
  from assms obtain free where free: "first_free_entry (runs_of (eq_waiting q) ?n) (conn_index c) (run_keys (runs_of (eq_waiting q) ?n)) = Inr free"
    by (auto simp: add_to_waiting_def Let_def bindE_Inr_iff)
  define q0 where "q0 = (if free = None then prepareWaitingToExecution ?n (number_of_inputs w ?n) k q else q)"
  have k: "k = (case free of Some k \<Rightarrow> k | None \<Rightarrow> length (runs_of (eq_waiting q) ?n))"
    and q1: "eq_waiting q1 = put_main ?n k (conn_index c) (success_slot out i) (eq_waiting q0)" "eq_stack q1 = eq_stack q0"
    using assms free by (auto simp: add_to_waiting_def Let_def q0_def)
  have there: "obj_get (runs_of (eq_waiting q0) ?n) k \<noteq> None"
    using free k first_free_entry_there [of "runs_of (eq_waiting q) ?n"]
    by (auto simp: q0_def prepareWaitingToExecution_def runs_of_put_run split: option.splits)
  have "table_ranks rank (eq_waiting q0) \<subseteq># add_mset (rank ?n) (table_ranks rank (eq_waiting q))"
    by (simp add: q0_def prepareWaitingToExecution_def put_run_new)
  from subset_mset.order_trans [OF put_main_ranks [OF there] this]
  have "table_ranks rank (eq_waiting q1) \<subseteq># add_mset (rank ?n) (table_ranks rank (eq_waiting q))"
    using q1(1) by simp
  moreover have "eq_stack q1 = eq_stack q" using q1(2) by (simp add: q0_def prepareWaitingToExecution_def)
  moreover have "main_at (eq_waiting q1) ?n k \<noteq> None"
    using q1(1) by (simp add: main_at_put_main)
  ultimately show ?thesis by (simp add: adds_at_most_def queue_ranks_def)
qed

lemma main_at_there: "main_at m node k \<noteq> None \<Longrightarrow> obj_get (runs_of m node) k \<noteq> None"
  by (auto simp: main_at_def main_slots_def split: option.splits)

lemma keep_waiting_ranks:
  assumes "obj_get (runs_of (eq_waiting q) node) k \<noteq> None"
  shows "queue_ranks wt rank (keep_waiting w node k q) \<subseteq># queue_ranks wt rank q"
proof -
  have "table_ranks rank (put_run node k v (put_run node k v' (eq_waiting q))) \<subseteq># table_ranks rank (eq_waiting q)" for v v'
    by (rule subset_mset.order_trans [OF put_run_old put_run_old]) (use assms in \<open>simp_all add: runs_of_put_run\<close>)
  then show ?thesis by (simp add: keep_waiting_def queue_ranks_def Let_def prepareWaitingToExecution_def)
qed

lemma enqueue_waiting_ranks:
  assumes "enqueue_waiting v1 w node k q = Inr q'" "named_nodes w" "weighs wt rank"
  shows "queue_ranks wt rank q' \<subseteq># queue_ranks wt rank q"
proof -
  from enqueue_waiting_spec [OF assms(1)] obtain n d where nd: "getNode w node = Some n"
    "obj_get (runs_of (eq_waiting q) node) k = Some d"
    "eq_stack q' = eq_stack (enqueue v1 \<lparr>ed_data = d, ed_metadata = None, ed_node = n,
       ed_source = obj_get (runs_of (eq_waitingSource q) node) k, ed_runIndex = None\<rparr> q)"
    "eq_waiting q' = drop_run node k (eq_waiting q)" by blast
  have "add_mset (rank node) (table_ranks rank (eq_waiting q')) \<subseteq># table_ranks rank (eq_waiting q)"
    using table_ranks_drop_run [where m = "eq_waiting q" and k = k] nd by simp
  moreover have "wt \<lparr>ed_data = d, ed_metadata = None, ed_node = n,
       ed_source = obj_get (runs_of (eq_waitingSource q) node) k, ed_runIndex = None\<rparr> = rank node"
    using assms(2,3) nd(1) by (simp add: weighs_def named_nodes_def)
  ultimately show ?thesis using nd(3)
    by (auto simp: queue_ranks_def enqueue_def dest: subset_mset.add_left_mono split: if_splits)
qed

lemma addNode_single:
  assumes "addNodeToBeExecuted v1 w rd c i parent out r nr md q = Inr q'" "\<not> number_of_inputs w (conn_node c) > 1"
    and "named_nodes w"
  shows "q' = q \<or> (\<exists>e. q' = enqueue v1 e q \<and> ed_metadata e = md \<and> node_name (ed_node e) = conn_node c)"
  using assms by (auto simp: addNodeToBeExecuted_def add_single_def named_nodes_def split: option.splits)

lemma addNode_ranks:
  assumes "addNodeToBeExecuted True w rd c i parent out r nr md q = Inr q'" "named_nodes w" "weighs wt rank"
    and "fresh_metadata md"
  shows "adds_at_most wt rank {#rank (conn_node c)#} q q'"
proof (cases "number_of_inputs w (conn_node c) > 1")
  case False
  from addNode_single [OF assms(1) False assms(2)] assms(3,4) show ?thesis
    by (auto simp: adds_at_most_def queue_ranks_enqueue weighs_def)
next
  case True
  with assms(1) obtain k was q1 where q1: "add_to_waiting w c i parent out r q = Inr (k, was, q1)"
    and q': "(if all_data_found q1 (conn_node c) k then enqueue_waiting True w (conn_node c) k q1
          else bindE (if was then Inr q1 else add_siblings True w rd c i parent out r q1) (\<lambda>q2.
            Inr (keep_waiting w (conn_node c) k q2))) = Inr q'"
    by (auto simp: addNodeToBeExecuted_def bindE_Inr_iff)
  note a = add_to_waiting_ranks [OF q1, of wt rank]
  have "queue_ranks wt rank q' \<subseteq># queue_ranks wt rank q1"
  proof (cases "all_data_found q1 (conn_node c) k")
    case True
    with q' have "enqueue_waiting True w (conn_node c) k q1 = Inr q'" by simp
    then show ?thesis by (rule enqueue_waiting_ranks [OF _ assms(2,3)])
  next
    case False
    with q' have "q' = keep_waiting w (conn_node c) k q1"
      by (auto simp: bindE_Inr_iff split: if_splits dest: add_siblings_tables)
    then show ?thesis using a keep_waiting_ranks main_at_there by blast
  qed
  then show ?thesis using a unfolding adds_at_most_def by (meson subset_mset.order_trans)
qed

lemma take_entry_ranks:
  assumes "take_entry env n ty name k slots q = Inr p" "obj_get (runs_of (eq_waiting q) name) k \<noteq> None" "node_name n = name"
    and "weighs wt rank"
  shows "case p of SkipNode \<Rightarrow> True | TakeEmpty q' \<Rightarrow> queue_ranks wt rank q' \<subseteq># queue_ranks wt rank q
     | TakeNode q' \<Rightarrow> queue_ranks wt rank q' \<subseteq># queue_ranks wt rank q"
proof -
  have t: "add_mset (rank name) (table_ranks rank (drop_run name k (eq_waiting q))) \<subseteq># table_ranks rank (eq_waiting q)"
    by (rule table_ranks_drop_run [OF assms(2)])
  then have "table_ranks rank (drop_run name k (eq_waiting q)) \<subseteq># table_ranks rank (eq_waiting q)"
    by (meson mset_subset_eq_insertD subset_mset.less_imp_le)
  moreover have "wt e = rank name" if "ed_metadata e = None" "ed_node e = n" for e
    using that assms(3,4) by (simp add: weighs_def)
  ultimately show ?thesis using t assms(1,3)
    by (auto simp: take_entry_def Let_def queue_ranks_def split: if_splits dest: subset_mset.add_left_mono)
qed

definition picked_ranks :: "(execute_data \<Rightarrow> nat) \<Rightarrow> (string \<Rightarrow> nat) \<Rightarrow> engine_queue \<Rightarrow> picked \<Rightarrow> bool" where
  "picked_ranks wt rank q p = (case p of SkipNode \<Rightarrow> True
     | TakeEmpty q' \<Rightarrow> queue_ranks wt rank q' \<subseteq># queue_ranks wt rank q
     | TakeNode q' \<Rightarrow> queue_ranks wt rank q' \<subseteq># queue_ranks wt rank q)"

lemma take_waiting_ranks:
  assumes "named_nodes (qe_workflow env)" "weighs wt rank" "take_waiting env ws name q = Inr p"
  shows "picked_ranks wt rank q p"
  using assms by (auto simp: take_waiting_def Let_def picked_ranks_def named_nodes_def main_slots_def split: option.splits if_splits
      dest!: take_entry_ranks [where rank = rank and wt = wt])

lemma scan_waiting_ranks:
  assumes "named_nodes (qe_workflow env)" "weighs wt rank"
  shows "scan_waiting env ws names q = Inr p \<Longrightarrow> picked_ranks wt rank q p"
proof (induction names)
  case (Cons n names)
  from Cons.prems obtain r where r: "take_waiting env ws n q = Inr r"
    "(case r of SkipNode \<Rightarrow> scan_waiting env ws names q | p' \<Rightarrow> Inr p') = Inr p"
    by (auto simp: bindE_Inr_iff)
  then show ?case using Cons.IH take_waiting_ranks [OF assms r(1)] by (cases r) auto
qed (simp add: picked_ranks_def)

lemma pick_waiting_ranks:
  "pick_waiting env q = Inr q' \<Longrightarrow> named_nodes (qe_workflow env) \<Longrightarrow> weighs wt rank \<Longrightarrow> queue_ranks wt rank q' \<subseteq># queue_ranks wt rank q"
proof (induction env q arbitrary: q' rule: pick_waiting.induct)
  case (1 env q)
  let ?ks = "obj_keys (eq_waiting q)"
  from 1(2) obtain p where p: "scan_waiting env ?ks ?ks q = Inr p"
    by (auto simp: pick_waiting.simps [of env q] split: sum.splits)
  note ok = scan_waiting_ranks [OF 1(3,4) p, unfolded picked_ranks_def]
  show ?case
  proof (cases p)
    case (TakeEmpty r)
    with p 1(2) have "pick_waiting env r = Inr q'" by (simp add: pick_waiting.simps [of env q])
    from subset_mset.order_trans [OF 1(1) [OF p TakeEmpty this 1(3,4)]] ok TakeEmpty show ?thesis by simp
  qed (use p 1(2) ok in \<open>auto simp: pick_waiting.simps [of env q]\<close>)
qed

section \<open>Every entry of the stack has main data\<close>

definition stack_main :: "engine_queue \<Rightarrow> bool" where
  "stack_main q \<longleftrightarrow> (\<forall>e \<in> set (eq_stack q). has_main e)"

lemma addNode_stack_main:
  assumes "addNodeToBeExecuted True w rd c i parent out r nr md q = Inr q'" "stack_main q"
  shows "stack_main q'"
proof (cases "number_of_inputs w (conn_node c) > 1")
  case False
  then have "q' = add_single True w c i parent out r nr md q" using assms(1) by (simp add: addNodeToBeExecuted_def)
  then show ?thesis using assms(2)
    by (auto simp: add_single_def stack_main_def enqueue_def has_main_def main_of_def split: option.split)
next
  case True
  with assms(1) obtain k was q1 where q1: "add_to_waiting w c i parent out r q = Inr (k, was, q1)"
    and q': "(if all_data_found q1 (conn_node c) k then enqueue_waiting True w (conn_node c) k q1
          else bindE (if was then Inr q1 else add_siblings True w rd c i parent out r q1) (\<lambda>q2.
            Inr (keep_waiting w (conn_node c) k q2))) = Inr q'"
    by (auto simp: addNodeToBeExecuted_def bindE_Inr_iff)
  note a = add_to_waiting_ranks [OF q1, of "\<lambda>_. 0" "\<lambda>_. 0"]
  show ?thesis
  proof (cases "all_data_found q1 (conn_node c) k")
    case True
    with q' have "enqueue_waiting True w (conn_node c) k q1 = Inr q'" by simp
    from enqueue_waiting_spec [OF this] a assms(2) show ?thesis
      by (auto simp: stack_main_def enqueue_def has_main_def main_of_def main_at_def main_slots_def)
  next
    case False
    with q' have "q' = keep_waiting w (conn_node c) k q1"
      by (auto simp: bindE_Inr_iff split: if_splits dest: add_siblings_tables)
    then show ?thesis using a assms(2) by (simp add: stack_main_def keep_waiting_tables)
  qed
qed

lemma pick_waiting_stack_main: "pick_waiting env q = Inr q' \<Longrightarrow> stack_main q \<Longrightarrow> stack_main q'"
  using pick_waiting_ok [of env q q'] by (auto simp: stack_main_def from_waiting_def has_main_def)

lemma mapE_main:
  "mapE (\<lambda>(ty, inputs). bindE (f inputs) (\<lambda>r. Inr (ty, r))) d = Inr d' \<Longrightarrow> map fst d' = map fst d"
  by (induction d arbitrary: d') (auto simp: bindE_Inr_iff)

lemma update_paired_inputs_main: "update_paired_inputs ed = Inr ed' \<Longrightarrow> has_main ed' = has_main ed"
proof -
  assume "update_paired_inputs ed = Inr ed'"
  then have "map fst (ed_data ed') = map fst (ed_data ed)"
    by (auto simp: update_paired_inputs_def bindE_Inr_iff dest: mapE_main)
  then have "set (map fst (ed_data ed')) = set (map fst (ed_data ed))" by simp
  then show ?thesis by (simp add: has_main_def main_of_def map_of_eq_None_iff)
qed

section \<open>The budget of requests\<close>

text \<open>
  Requests get used up: a node asks with a response in hand and has at most one main input, the nodes it
  asks for have smaller ranks, and the metadata it hands on leaves it less of a bounded budget than
  the metadata it got.
\<close>

definition requests_end :: "engine_env \<Rightarrow> workflow \<Rightarrow> (string \<Rightarrow> nat) \<Rightarrow> (json \<Rightarrow> nat) \<Rightarrow> nat \<Rightarrow> bool" where
  "requests_end env w rank budget limit \<longleftrightarrow> (\<forall>metadata. budget metadata \<le> limit) \<and>
     (\<forall>node response request. asks env node response request \<longrightarrow>
        (case response of None \<Rightarrow> False | Some r \<Rightarrow> budget (er_metadata request) < budget (resp_metadata r)) \<and>
        number_of_inputs w (node_name node) \<le> 1 \<and>
        (\<forall>a \<in> set (er_actions request). rank (ea_nodeName a) < rank (node_name node)))"

definition node_weight :: "(string \<Rightarrow> nat) \<Rightarrow> nat \<Rightarrow> string \<Rightarrow> nat" where
  "node_weight rank limit name = rank name * Suc limit + limit"

definition entry_weight :: "(string \<Rightarrow> nat) \<Rightarrow> (json \<Rightarrow> nat) \<Rightarrow> nat \<Rightarrow> execute_data \<Rightarrow> nat" where
  "entry_weight rank budget limit e = rank (node_name (ed_node e)) * Suc limit +
     (if fresh_metadata (ed_metadata e) then limit else budget (entry_metadata e))"

lemma entry_weight_weighs: "weighs (entry_weight rank budget limit) (node_weight rank limit)"
  by (simp add: weighs_def entry_weight_def node_weight_def)

lemma lower_rank:
  assumes "rank name < rank (node_name (ed_node e))"
  shows "node_weight rank limit name < entry_weight rank budget limit e"
proof -
  have "Suc (rank name) * Suc limit \<le> rank (node_name (ed_node e)) * Suc limit"
    using assms by (intro mult_le_mono1) simp
  then show ?thesis by (simp add: node_weight_def entry_weight_def)
qed

lemma resumed_metadata:
  assumes "ed_metadata e = Some md" "obj_get md ''subNodeExecutionData'' = Some (subNodeExecutionData as metadata)"
  shows "\<not> fresh_metadata (ed_metadata e)" "entry_metadata e = metadata"
  using assms by (simp_all add: fresh_metadata_def entry_metadata_def collect_responses_def subNodeExecutionData_def)

lemma lower_budget:
  assumes "requests_end env w rank budget limit" "may_ask env e request" "node_name (ed_node e') = node_name (ed_node e)"
    and "ed_metadata e' = Some md" "obj_get md ''subNodeExecutionData'' = Some (subNodeExecutionData as (er_metadata request))"
  shows "entry_weight rank budget limit e' < entry_weight rank budget limit e"
proof -
  obtain response where a: "asks env (ed_node e) response request"
    "case response of None \<Rightarrow> True | Some r \<Rightarrow> resp_metadata r = entry_metadata e"
    using assms(2) by (auto simp: may_ask_def)
  have "case response of None \<Rightarrow> False | Some r \<Rightarrow> budget (er_metadata request) < budget (resp_metadata r)"
    using assms(1) a(1) unfolding requests_end_def by blast
  then have "budget (er_metadata request) < budget (entry_metadata e)" using a(2) by (cases response) auto
  moreover have "budget (entry_metadata e) \<le> limit" using assms(1) by (simp add: requests_end_def)
  ultimately show ?thesis using resumed_metadata [OF assms(4,5)] assms(3) by (simp add: entry_weight_def)
qed

lemma ranked_same: "ranked w' rank" if "same_tables w w'" "ranked w rank"
proof -
  have "child_connections w' = child_connections w"
    by (rule ext) (simp only: child_connections_def that(1) [THEN conjunct2, THEN conjunct1])
  moreover have "node_name n = name" if "getNode w' name = Some n" for name n
  proof -
    have "map_option node_name (getNode w name) = Some (node_name n)"
      using \<open>same_tables w w'\<close> that by (metis option.simps(9))
    then show ?thesis using \<open>ranked w rank\<close> by (auto simp: ranked_def)
  qed
  ultimately show ?thesis using that(2) by (simp add: ranked_def)
qed

lemma ranked_named: "ranked w rank \<Longrightarrow> named_nodes w"
  by (simp add: ranked_def named_nodes_def)

section \<open>A turn makes the measure smaller\<close>

text \<open>The queue grew by entries lighter than the bound, and its stack still has main data.\<close>

definition grows_below :: "(execute_data \<Rightarrow> nat) \<Rightarrow> (string \<Rightarrow> nat) \<Rightarrow> nat \<Rightarrow> engine_queue \<Rightarrow> engine_queue \<Rightarrow> bool" where
  "grows_below wt rank bound q q' \<longleftrightarrow> stack_main q' \<and>
     (\<exists>new. (\<forall>r \<in># new. r < bound) \<and> queue_ranks wt rank q' \<subseteq># new + queue_ranks wt rank q)"

lemma grows_below_refl: "stack_main q \<Longrightarrow> grows_below wt rank b q q"
  unfolding grows_below_def by (intro conjI exI [of _ "{#}"]) simp_all

lemma grows_below_add:
  assumes "grows_below wt rank b q q1" "adds_at_most wt rank {#x#} q1 q2" "x < b" "stack_main q2"
  shows "grows_below wt rank b q q2"
proof -
  obtain new where new: "\<forall>r \<in># new. r < b" "queue_ranks wt rank q1 \<subseteq># new + queue_ranks wt rank q"
    using assms(1) by (auto simp: grows_below_def)
  have "queue_ranks wt rank q2 \<subseteq># {#x#} + queue_ranks wt rank q1" using assms(2) by (simp add: adds_at_most_def)
  also have "\<dots> \<subseteq># add_mset x new + queue_ranks wt rank q" using new(2) by simp
  finally show ?thesis
    using new(1) assms(3,4) unfolding grows_below_def by (intro conjI exI [of _ "add_mset x new"]) auto
qed

lemma grows_below_sub:
  "grows_below wt rank b q q1 \<Longrightarrow> queue_ranks wt rank q2 \<subseteq># queue_ranks wt rank q1 \<Longrightarrow> stack_main q2 \<Longrightarrow>
     grows_below wt rank b q q2"
  unfolding grows_below_def by (meson subset_mset.order_trans)

lemma moved_on_grows:
  assumes "moved_on env rd name q1 q'" "ee_v1 env" "named_nodes (ee_workflow env)" "weighs wt rank"
    and "\<forall>oc \<in> set (child_connections (ee_workflow env) name). rank (conn_node (snd oc)) < b"
    and "grows_below wt rank b q q1"
  shows "grows_below wt rank b q q'"
proof -
  obtain outs k q2 where q2: "add_children True (ee_workflow env) rd name outs k q1 = Inr q2"
    "(if eq_stack q2 = [] then pick_waiting (ee_queue env) q2 else Inr q2) = Inr q'"
    using assms(1,2) by (auto simp: moved_on_def bindE_Inr_iff)
  have grown: "grows_below wt rank b q q2"
  proof (rule add_children_keeps [where P = "grows_below wt rank b q", OF q2(1) assms(6)])
    fix oc qa qb
    assume oc: "oc \<in> set (child_connections (ee_workflow env) name)" and qa: "grows_below wt rank b q qa"
      and add: "add_child True (ee_workflow env) rd name outs k oc qa = Inr qb"
    note a = add [unfolded add_child_def]
    show "grows_below wt rank b q qb"
      by (rule grows_below_add [OF qa addNode_ranks [OF a assms(3,4)]])
        (use assms(5) oc addNode_stack_main [OF a] qa in \<open>auto simp: grows_below_def\<close>)
  qed
  show ?thesis
  proof (cases "eq_stack q2 = []")
    case True
    then have p: "pick_waiting (ee_queue env) q2 = Inr q'" using q2(2) by simp
    have "stack_main q2" using grown by (simp add: grows_below_def)
    from grows_below_sub [OF grown pick_waiting_ranks [OF p assms(3,4)] pick_waiting_stack_main [OF p this]] show ?thesis .
  next
    case False
    then show ?thesis using q2(2) grown by simp
  qed
qed

lemma add_requested_grows:
  assumes "add_requested True w rd n q1 = Inr q2" "ranked w rank" "requests_end env w rank budget limit"
    and "may_ask env ed request" "may_schedule ed request n"
    and "grows_below (entry_weight rank budget limit) (node_weight rank limit) (entry_weight rank budget limit ed) q q1"
  shows "grows_below (entry_weight rank budget limit) (node_weight rank limit) (entry_weight rank budget limit ed) q q2"
proof -
  let ?wt = "entry_weight rank budget limit" and ?nw = "node_weight rank limit"
  have add: "addNodeToBeExecuted True w rd (ne_connection n) 0 (ne_parentNode n) (ne_parentOutputData n)
      (ne_runIndex n) (Some (ne_nodeRunIndex n)) (Some (ne_metadata n)) q1 = Inr q2"
    using assms(1) by (simp add: add_requested_def split: if_splits)
  note named = ranked_named [OF assms(2)]
  have main: "stack_main q2" using addNode_stack_main [OF add] assms(6) by (simp add: grows_below_def)
  obtain response where response: "asks env (ed_node ed) response request" using assms(4) by (auto simp: may_ask_def)
  with assms(3) have rule: "number_of_inputs w (node_name (ed_node ed)) \<le> 1"
    "\<forall>a \<in> set (er_actions request). rank (ea_nodeName a) < rank (node_name (ed_node ed))"
    unfolding requests_end_def by blast+
  show ?thesis
  proof (cases "obj_get (ne_metadata n) ''subNodeExecutionData''")
    case None
    then obtain a where a: "a \<in> set (er_actions request)" "conn_node (ne_connection n) = ea_nodeName a"
      using assms(5) by (auto simp: may_schedule_def)
    have "fresh_metadata (Some (ne_metadata n))" using None by (simp add: fresh_metadata_def)
    from grows_below_add [OF assms(6) addNode_ranks [OF add named entry_weight_weighs this] _ main]
    show ?thesis using lower_rank [of rank "ea_nodeName a" ed limit budget] rule(2) a by simp
  next
    case (Some v)
    then obtain as where n: "conn_node (ne_connection n) = node_name (ed_node ed)"
      "obj_get (ne_metadata n) ''subNodeExecutionData'' = Some (subNodeExecutionData as (er_metadata request))"
      using assms(5) by (auto simp: may_schedule_def)
    then have "\<not> number_of_inputs w (conn_node (ne_connection n)) > 1" using rule(1) by simp
    from addNode_single [OF add this named] show ?thesis
    proof
      assume "\<exists>e. q2 = enqueue True e q1 \<and> ed_metadata e = Some (ne_metadata n) \<and> node_name (ed_node e) = conn_node (ne_connection n)"
      then obtain e where e: "q2 = enqueue True e q1" "ed_metadata e = Some (ne_metadata n)"
        "node_name (ed_node e) = node_name (ed_node ed)" using n(1) by auto
      have "adds_at_most ?wt ?nw {#?wt e#} q1 q2" by (simp add: adds_at_most_def e(1) queue_ranks_enqueue)
      from grows_below_add [OF assms(6) this lower_budget [OF assms(3,4) e(3,2) n(2)] main] show ?thesis .
    qed (use assms(6) in simp)
  qed
qed

text \<open>What a turn of a loop with such requests needs of the state, against the workflow at the start.\<close>

definition ends_ok :: "engine_env \<Rightarrow> workflow \<Rightarrow> (string \<Rightarrow> nat) \<Rightarrow> (json \<Rightarrow> nat) \<Rightarrow> nat \<Rightarrow> bool" where
  "ends_ok env w rank budget limit \<longleftrightarrow> ranked w rank \<and> requests_end env w rank budget limit"

lemma ends_ok_same: "ends_ok env w' rank budget limit" if "same_tables w w'" "ends_ok env w rank budget limit"
  using that(2) ranked_same [OF that(1)] number_of_inputs_same [OF that(1)]
  unfolding ends_ok_def requests_end_def by simp

lemma asked_grows:
  assumes "asked True ed k (may_ask env ed) (w, rd, q) s" "ends_ok env w rank budget limit" "stack_main q"
  shows "case s of (w', rd', q') \<Rightarrow> ends_ok env w' rank budget limit \<and>
    grows_below (entry_weight rank budget limit) (node_weight rank limit) (entry_weight rank budget limit ed) q q'"
  using assms(1)
proof (induction rule: asked.induct)
  case none
  then show ?case using assms(2,3) by (simp add: grows_below_refl)
next
  case (more w1 rd1 q1 request r q' w' rd')
  let ?G = "grows_below (entry_weight rank budget limit) (node_weight rank limit) (entry_weight rank budget limit ed) q"
  have ok: "ends_ok env w1 rank budget limit" and q1: "?G q1" using more(4) by simp_all
  have "same_tables w1 w' \<and> True \<and> ?G q'"
  proof (rule handleEngineRequest_effect [where P = "\<lambda>_. True" and Q = ?G, OF more(3) TrueI q1 TrueI])
    fix w2 rd2 n qa qb
    assume w2: "same_tables w1 w2" and qa: "?G qa" and n: "may_schedule ed request n"
      and add: "add_requested True w2 rd2 n qa = Inr qb"
    from ends_ok_same [OF w2 ok] have "ranked w2 rank" "requests_end env w2 rank budget limit" by (simp_all add: ends_ok_def)
    from add_requested_grows [OF add this more(2) n qa] show "?G qb" .
  qed
  then have "same_tables w1 w'" "?G q'" by blast+
  with ends_ok_same [OF _ ok] show ?case by simp
qed

lemma update_paired_inputs_metadata: "update_paired_inputs ed = Inr ed' \<Longrightarrow> ed_metadata ed' = ed_metadata ed"
  by (auto simp: update_paired_inputs_def bindE_Inr_iff)

lemma entry_weight_cong:
  "ed_node e' = ed_node e \<Longrightarrow> ed_metadata e' = ed_metadata e \<Longrightarrow> entry_weight rank budget limit e' = entry_weight rank budget limit e"
  by (simp add: entry_weight_def entry_metadata_def collect_responses_def)

lemma turn_decreases:
  assumes "eq_stack (en_queue st) \<noteq> []" "engine_turn env st = Continue st'"
    and "ee_v1 env" "ends_ok env (en_workflow st) rank budget limit" "stack_main (en_queue st)"
  defines "ms \<equiv> queue_ranks (entry_weight rank budget limit) (node_weight rank limit)"
  shows "ms (en_queue st') < ms (en_queue st) \<and> stack_main (en_queue st') \<and>
    ends_ok env (en_workflow st') rank budget limit"
proof -
  obtain ed rest where st: "eq_stack (en_queue st) = ed # rest" using assms(1) by (cases "eq_stack (en_queue st)") auto
  let ?q = "(en_queue st)\<lparr>eq_stack := rest\<rparr>" and ?wt = "entry_weight rank budget limit" and ?nw = "node_weight rank limit"
  have q: "ms (en_queue st) = add_mset (?wt ed) (ms ?q)" "stack_main ?q" "has_main ed"
    using st assms(5) by (auto simp: ms_def queue_ranks_def stack_main_def)
  show ?thesis
  proof (rule engine_turn_cases [OF st, of env])
    fix ed'
    assume ed': "update_paired_inputs ed = Inr ed'"
      and turn: "engine_turn env st = take_turn (in_workflow (en_workflow st) env) (begin_turn st rest) ed' (en_nextIndex st)"
    note node = update_paired_inputs_node [OF ed']
    have wt: "?wt ed' = ?wt ed" by (rule entry_weight_cong [OF node update_paired_inputs_metadata [OF ed']])
    have "turn_ok env (begin_turn st rest) ed' (en_nextIndex st) (Continue st')"
      using taken_turn_ok [of env st rest ed' "en_nextIndex st"] turn assms(2) by simp
    then obtain k w rd q1 where asked: "asked True ed' k (may_ask env ed') (en_workflow st, en_runData st, ?q) (w, rd, q1)"
      and result: "turn_from env (begin_turn st rest) ed' (en_nextIndex st) (w, rd, q1) (Continue st')"
      using assms(3) by (auto simp: turn_ok_def simp del: turn_from.simps)
    from asked_grows [OF asked assms(4) q(2)] have ok: "ends_ok env w rank budget limit"
      and q1: "grows_below ?wt ?nw (?wt ed) ?q q1" using wt by simp_all
    have st': "en_workflow st' = w" "en_queue st' = q1 \<or> moved_on (in_workflow w env) (en_runData st') (node_name (ed_node ed)) q1 (en_queue st')"
      using result assms(3) q(3) update_paired_inputs_main [OF ed'] node by (auto simp: Let_def)
    have w: "ranked w rank" using ok by (simp add: ends_ok_def)
    then have children: "\<forall>oc \<in> set (child_connections w (node_name (ed_node ed))). ?nw (conn_node (snd oc)) < ?wt ed"
      using lower_rank by (simp add: ranked_def)
    have "grows_below ?wt ?nw (?wt ed) ?q (en_queue st')"
      using st'(2) moved_on_grows [of "in_workflow w env", OF _ _ _ entry_weight_weighs _ q1] assms(3) q1 ranked_named [OF w] children
      by auto
    then obtain new where new: "\<forall>r \<in># new. r < ?wt ed" "ms (en_queue st') \<subseteq># new + ms ?q" "stack_main (en_queue st')"
      by (auto simp: grows_below_def ms_def)
    have "ms (en_queue st') \<le> new + ms ?q" by (rule subset_eq_imp_le_multiset [OF new(2)])
    also have "\<dots> < {#?wt ed#} + ms ?q" using new(1) by (intro add_strict_right_mono) simp
    finally show ?thesis using q(1) new(3) ok st'(1) by simp
  qed (use assms(2) in auto)
qed


end
