(* ===== verification/Engine_Data_Facts.thy ===== *)
theory Engine_Data_Facts
  imports Engine_Data
begin

text \<open>
  The pairing of the items a node gives with those it got, and how the items with errors are
  split off.
\<close>

section \<open>Pairing\<close>

definition unpaired :: "item \<Rightarrow> item" where
  "unpaired it = it\<lparr>item_pairedItem := None\<rparr>"

text \<open>An item after the pairing: the same, or with a pairing it did not have, with one of \<open>n\<close> items.\<close>

definition paired_with :: "nat \<Rightarrow> item \<Rightarrow> item \<Rightarrow> bool" where
  "paired_with n it it' \<longleftrightarrow> it' = it \<or>
     (item_pairedItem it = None \<and> (\<exists>j < n. it' = it\<lparr>item_pairedItem := Some (paired_at j)\<rparr>))"

lemma paired_with_refl: "paired_with n it it"
  by (simp add: paired_with_def)

lemma paired_with_new: "item_pairedItem it = None \<Longrightarrow> j < n \<Longrightarrow> paired_with n it (it\<lparr>item_pairedItem := Some (paired_at j)\<rparr>)"
  by (auto simp: paired_with_def)

lemma pair_items_paired:
  assumes "\<And>i p. i < k + length xs \<Longrightarrow> fix i = Some p \<Longrightarrow> \<exists>j < n. p = paired_at j"
  shows "list_all2 (paired_with n) xs (fst (pair_items fix k xs))"
  using assms
proof (induction xs arbitrary: k)
  case (Cons it xs)
  have rest: "list_all2 (paired_with n) xs (fst (pair_items fix (Suc k) xs))"
    by (rule Cons.IH) (use Cons.prems in auto)
  have refl: "list_all2 (paired_with n) xs xs" by (simp add: list_all2_refl paired_with_refl)
  show ?case
  proof (cases "item_pairedItem it")
    case None
    then show ?thesis using rest refl Cons.prems [of k]
      by (cases "fix k") (auto intro: paired_with_refl paired_with_new split: prod.splits)
  next
    case (Some p)
    then show ?thesis using rest by (auto intro: paired_with_refl split: prod.splits)
  qed
qed simp

fun slot_rel :: "('a \<Rightarrow> 'b \<Rightarrow> bool) \<Rightarrow> 'a list slot \<Rightarrow> 'b list slot \<Rightarrow> bool" where
  "slot_rel R (Val xs) (Val ys) = list_all2 R xs ys"
| "slot_rel R Null Null = True"
| "slot_rel R Undef Undef = True"
| "slot_rel R _ _ = False"

lemma slot_rel_refl: "(\<And>x. R x x) \<Longrightarrow> slot_rel R s s"
  by (cases s) (auto simp: list_all2_refl)

lemma pair_outputs_paired:
  assumes "pair_outputs fix outs = Inr outs'"
    and "\<And>xs i p. Val xs \<in> set outs \<Longrightarrow> i < length xs \<Longrightarrow> fix i = Some p \<Longrightarrow> \<exists>j < n. p = paired_at j"
  shows "list_all2 (slot_rel (paired_with n)) outs outs'"
  using assms
proof (induction outs arbitrary: outs')
  case (Cons out outs)
  have same: "list_all2 (slot_rel (paired_with n)) outs outs"
    by (simp add: list_all2_refl slot_rel_refl paired_with_refl)
  have IH: "pair_outputs fix outs = Inr r \<Longrightarrow> list_all2 (slot_rel (paired_with n)) outs r" for r
    by (rule Cons.IH) (use Cons.prems(2) in auto)
  show ?case
  proof (cases out)
    case (Val xs)
    have "list_all2 (paired_with n) xs (fst (pair_items fix 0 xs))"
      by (rule pair_items_paired) (use Cons.prems(2) [of xs] Val in auto)
    then show ?thesis using Cons.prems(1) Val IH same
      by (auto simp: bindE_Inr_iff split: prod.splits bool.splits)
  qed (use Cons.prems(1) IH in \<open>auto simp: bindE_Inr_iff\<close>)
qed simp

text \<open>Pairing keeps the outputs of a node, their items, their order and every pairing that is
  there; an item gets a new one only if the node has a single input, with one of its items.\<close>

theorem assignPairedItems_pairs:
  assumes "assignPairedItems (Some outs) ed = Inr r"
  shows "\<exists>outs'. r = Some outs' \<and> list_all2 (slot_rel (paired_with
    (case main_of (ed_data ed) of Some [Val xs] \<Rightarrow> length xs | _ \<Rightarrow> 0))) outs outs'"
proof (cases "outs = []")
  case True
  then show ?thesis using assms by (simp add: assignPairedItems_def)
next
  case False
  with assms obtain main fix' outs' where m: "main_of (ed_data ed) = Some main" "auto_pairing main outs = Inr fix'"
    "pair_outputs fix' outs = Inr outs'" "r = Some outs'"
    by (auto simp: assignPairedItems_def bindE_Inr_iff split: option.splits)
  let ?n = "case main of [Val xs] \<Rightarrow> length xs | _ \<Rightarrow> 0"
  have "list_all2 (slot_rel (paired_with ?n)) outs outs'"
  proof (rule pair_outputs_paired [OF m(3)])
    fix xs i p
    assume "Val xs \<in> set outs" "i < length xs" "fix' i = Some p"
    then show "\<exists>j < ?n. p = paired_at j"
      using m(2) by (auto 4 4 simp: auto_pairing_def Let_def split: list.splits slot.splits if_splits
          dest: Suc_lessD)
  qed
  then show ?thesis using m by simp
qed


section \<open>The error output\<close>

definition items_at :: "item list slot list \<Rightarrow> nat \<Rightarrow> item list" where
  "items_at outs i = (case arr_get outs i of Some s \<Rightarrow> slot_items s | None \<Rightarrow> [])"

lemma mapE_list_all2: "mapE f xs = Inr ys \<Longrightarrow> list_all2 (\<lambda>x y. f x = Inr y) xs ys"
  by (induction xs arbitrary: ys) (auto simp: bindE_Inr_iff)

lemma arr_get_put_in: "i \<le> length xs \<Longrightarrow> arr_get (arr_put h i v xs) j = (if j = i then Some v else arr_get xs j)"
  unfolding arr_get_put by (auto simp: arr_get_def)

lemma split_output_Inr:
  "split_output gp ed i (outs, es) = Inr r \<longleftrightarrow> (\<exists>errs. mapE (error_item gp ed) (filter has_error_data (items_at outs i)) = Inr errs \<and>
     r = (arr_put Undef i (Val (filter (\<lambda>it. \<not> has_error_data it) (items_at outs i))) outs, es @ errs))"
  by (auto simp: split_output_def Let_def bindE_Inr_iff items_at_def)

lemma split_outputs:
  assumes "foldE (split_output gp ed) [0..<n] (outs, []) = Inr (outs', errs)"
  shows "(\<forall>j. arr_get outs' j = (if j < n then Some (Val (filter (\<lambda>it. \<not> has_error_data it) (items_at outs j))) else arr_get outs j)) \<and>
    list_all2 (\<lambda>it e. error_item gp ed it = Inr e) (concat (map (\<lambda>j. filter has_error_data (items_at outs j)) [0..<n])) errs \<and>
    n \<le> length outs'"
  using assms
proof (induction n arbitrary: outs' errs)
  case (Suc n)
  from Suc.prems obtain o1 e1 es where s: "foldE (split_output gp ed) [0..<n] (outs, []) = Inr (o1, e1)"
    "mapE (error_item gp ed) (filter has_error_data (items_at o1 n)) = Inr es"
    "outs' = arr_put Undef n (Val (filter (\<lambda>it. \<not> has_error_data it) (items_at o1 n))) o1" "errs = e1 @ es"
    by (auto simp: foldE_append bindE_Inr_iff split_output_Inr)
  note IH = Suc.IH [OF s(1)]
  have same: "items_at o1 n = items_at outs n" using IH by (simp add: items_at_def)
  have "arr_get outs' j = (if j < Suc n then Some (Val (filter (\<lambda>it. \<not> has_error_data it) (items_at outs j))) else arr_get outs j)" for j
    using IH by (auto simp: s(3) same arr_get_put_in less_Suc_eq)
  moreover have "Suc n \<le> length outs'" by (simp add: s(3) arr_put_length)
  ultimately show ?case
    using IH mapE_list_all2 [OF s(2)] by (simp add: s(4) same list_all2_appendI)
qed (simp add: items_at_def)

text \<open>C38. Splitting off the errors of a node with an error output puts every item in one place, in
  order: the items without an error stay at their output, those with one go to the last main
  output, each with the data of the item it came from; other outputs stay.\<close>

theorem handleNodeErrorOutput_partition:
  assumes "handleNodeErrorOutput getPairedItem (Suc n) ed outs = Inr outs'"
  shows "\<exists>errs. list_all2 (\<lambda>it e. error_item getPairedItem ed it = Inr e)
      (concat (map (\<lambda>j. filter has_error_data (items_at outs j)) [0..<n])) errs \<and>
    (\<forall>j. arr_get outs' j = (if j < n then Some (Val (filter (\<lambda>it. \<not> has_error_data it) (items_at outs j)))
       else if j = n then Some (Val errs) else arr_get outs j))"
proof -
  from assms obtain o1 errs where s: "foldE (split_output getPairedItem ed) [0..<n] (outs, []) = Inr (o1, errs)"
    "outs' = arr_put Undef n (Val errs) o1"
    by (auto simp: handleNodeErrorOutput_def bindE_Inr_iff)
  show ?thesis
    using split_outputs [OF s(1)] by (intro exI [of _ errs]) (simp add: s(2) arr_get_put_in)
qed

end
