(* ===== verification/Engine_Facts.thy ===== *)
theory Engine_Facts
  imports Engine_Termination Engine_Data_Facts Stack_Facts
begin

text \<open>
  Tries and retries of a node, a node that fails, the order of the children, and examples of
  whole executions, with and without requests.
\<close>

section \<open>Tries\<close>

lemma finish_try_result:
  "(case finish_try env ed left ts of
      TryEnded ts' \<Rightarrow> ts_runs ts' = ts_runs ts \<and> ts_error ts' = ts_error ts
    | TryDone ts' \<Rightarrow> ts_runs ts' = ts_runs ts \<and> ts_error ts' = ts_error ts
    | TryFailed l ts' \<Rightarrow> ts_runs ts' = ts_runs ts \<and> l = left \<and> ts_error ts' \<noteq> None \<and>
        ts_last ts' = Some (node_name (ed_node ed)))"
  by (auto simp: finish_try_def Let_def split: sum.splits option.splits)

text \<open>What one try counts: without pinned data it runs the node at least once, and what it does
  not use is left.\<close>

definition try_counts :: "execute_data \<Rightarrow> bool \<Rightarrow> nat \<Rightarrow> nat \<Rightarrow> try_result \<Rightarrow> bool" where
  "try_counts ed pinned left runs r = (case r of
       TryEnded ts' \<Rightarrow> (if pinned then ts_runs ts' = runs else ts_runs ts' \<le> Suc (runs + left)) \<and> ts_error ts' = None
     | TryDone ts' \<Rightarrow> (if pinned then ts_runs ts' = runs else ts_runs ts' \<le> Suc (runs + left)) \<and> ts_error ts' = None
     | TryFailed l ts' \<Rightarrow> l \<le> left \<and> ts_error ts' \<noteq> None \<and> ts_last ts' = Some (node_name (ed_node ed)) \<and>
         (if pinned then ts_runs ts' = runs else ts_runs ts' + l = Suc (runs + left)))"

lemma finish_try_counts:
  assumes "ts_error ts = None" "if pinned then ts_runs ts = runs else ts_runs ts + l = Suc (runs + left)" "l \<le> left"
  shows "try_counts ed pinned left runs (finish_try env ed l ts)"
  using finish_try_result [where env = env and ed = ed and left = l and ts = ts] assms
  by (cases "finish_try env ed l ts") (auto simp: try_counts_def split: if_splits)

lemma ask_counts:
  assumes "ts_error ts = None" "ts_runs ts + l = Suc (runs + left)" "l \<le> left"
  shows "try_counts ed False left runs (ask v1 ed k request l ts)"
  using assms by (auto simp: ask_def try_counts_def Let_def split: prod.splits option.splits)

lemma use_data_counts:
  assumes "ts_error ts = None" "ts_runs ts + l = Suc (runs + left)" "l \<le> left"
  shows "try_counts ed False left runs (use_data env ed l data ts)"
proof -
  have f: "try_counts ed False left runs (finish_try env ed l (ts\<lparr>ts_data := d\<rparr>))" for d
    by (rule finish_try_counts) (use assms in simp_all)
  show ?thesis
  proof (cases "\<exists>outs. data = Some outs \<and> node_onError (ed_node ed) = Some ContinueErrorOutput")
    case True
    then obtain outs where outs: "data = Some outs" "node_onError (ed_node ed) = Some ContinueErrorOutput" by blast
    show ?thesis
    proof (cases "handleNodeErrorOutput (ee_getPairedItem env) (ee_mainOutputs env (ed_node ed)) ed outs")
      case (Inl e)
      then show ?thesis using outs assms by (simp add: use_data_def Let_def try_counts_def)
    next
      case (Inr outs')
      then show ?thesis using outs f [of "Some outs'"] by (simp add: use_data_def Let_def)
    qed
  next
    case False
    then have "use_data env ed l data ts = finish_try env ed l (ts\<lparr>ts_data := data\<rparr>)"
      by (auto simp: use_data_def Let_def split: option.split on_error.split)
    then show ?thesis using f by simp
  qed
qed

lemma one_try_counts: "try_counts ed (pinned_of env (ed_node ed) \<noteq> None) left (ts_runs ts) (one_try env exec ed k left ts)"
proof (cases "pinned_of env (ed_node ed)")
  case (Some p)
  then show ?thesis by (simp add: one_try_def Let_def finish_try_counts)
next
  case None
  let ?resp = "collect_responses ed (ts_runData ts) (ts_response ts)"
  obtain r w l runs where r: "run_until_ok (exec (ts_last ts)) (Some ?resp) left (ts_runs ts) (ts_wait ts) = (r, w, l, runs)"
    by (metis prod_cases4)
  note c = run_until_ok_counts [OF r]
  let ?ts = "ts\<lparr>ts_error := None, ts_response := ?resp, ts_wait := w, ts_runs := runs\<rparr>"
  consider (error) e where "r = Inl e" | (data) d where "r = Inr (Outputs d)" | (asks) req where "r = Inr (Asks req)"
    by (metis node_reply.exhaust sum.exhaust)
  then show ?thesis
  proof cases
    case error
    then show ?thesis using r c None by (simp add: one_try_def Let_def try_counts_def)
  next
    case data
    then show ?thesis using r c None use_data_counts [of ?ts l "ts_runs ts" left ed env d] by (simp add: one_try_def Let_def)
  next
    case asks
    then show ?thesis using r c None ask_counts [of ?ts l "ts_runs ts" left ed "ee_v1 env" k req] by (simp add: one_try_def Let_def)
  qed
qed

lemma run_tries_counts:
  assumes "run_tries env exec ed k left ts = (ended, ts')"
  shows "(if pinned_of env (ed_node ed) \<noteq> None then ts_runs ts' = ts_runs ts
      else ts_runs ts' \<le> Suc (ts_runs ts + left) \<and> (ts_error ts' \<noteq> None \<longrightarrow> ts_runs ts' = Suc (ts_runs ts + left))) \<and>
    (ts_error ts' \<noteq> None \<longrightarrow> \<not> ended \<and> ts_last ts' = Some (node_name (ed_node ed)))"
  using assms
proof (induction env exec ed k left ts rule: run_tries.induct)
  case (1 env exec ed k left ts)
  note c = one_try_counts [where ed = ed and env = env and left = left and ts = ts and exec = exec and k = k]
  show ?case
  proof (cases "one_try env exec ed k left ts")
    case (TryEnded t)
    then show ?thesis using 1(2) c
      by (auto simp: run_tries.simps [of env exec ed k left ts] try_counts_def)
  next
    case (TryDone t)
    then show ?thesis using 1(2) c by (auto simp: run_tries.simps [of env exec ed k left ts] try_counts_def)
  next
    case (TryFailed l t)
    show ?thesis
    proof (cases l)
      case 0
      then show ?thesis using TryFailed 1(2) c
        by (auto simp: run_tries.simps [of env exec ed k left ts] try_counts_def split: if_splits)
    next
      case (Suc l')
      then have "run_tries env exec ed k l' t = (ended, ts')"
        using TryFailed 1(2) by (simp add: run_tries.simps [of env exec ed k left ts])
      from 1(1) [OF TryFailed Suc this] c TryFailed Suc show ?thesis
        by (auto simp: try_counts_def split: if_splits)
    qed
  qed
qed

lemma max_tries_range: "max_tries node = (if node_retryOnFail node then max_tries node else 1) \<and>
   1 \<le> max_tries node \<and> max_tries node \<le> 5 \<and> (node_retryOnFail node \<longrightarrow> 2 \<le> max_tries node)"
  by (auto simp: max_tries_def split: option.split)

text \<open>A turn runs its node at most as often as it has tries, which are one, or two to five when it
  retries; it reports an error only after all of them, and never runs a node that has pinned data.\<close>

theorem tries_bounded:
  "case tries_of env st ed k of (ended, ts) \<Rightarrow>
     ts_runs ts \<le> max_tries (ed_node ed) \<and> max_tries (ed_node ed) \<le> 5 \<and>
     (max_tries (ed_node ed) = 1 \<longleftrightarrow> \<not> node_retryOnFail (ed_node ed)) \<and>
     (pinned_of env (ed_node ed) \<noteq> None \<longrightarrow> ts_runs ts = 0) \<and>
     (pinned_of env (ed_node ed) = None \<and> ts_error ts \<noteq> None \<longrightarrow> ts_runs ts = max_tries (ed_node ed))"
proof -
  obtain ended ts where ts: "tries_of env st ed k = (ended, ts)" by fastforce
  have "Suc (max_tries (ed_node ed) - 1) = max_tries (ed_node ed)" using max_tries_range [of "ed_node ed"] by simp
  with run_tries_counts [OF ts [unfolded tries_of_def first_try_def]] max_tries_range [of "ed_node ed"] show ?thesis
    unfolding ts by (auto split: if_splits)
qed

section \<open>A node that fails\<close>

text \<open>The turn gets as far as running the node.\<close>

definition turn_runs :: "engine_env \<Rightarrow> engine \<Rightarrow> execute_data list \<Rightarrow> execute_data \<Rightarrow> nat \<Rightarrow> bool" where
  "turn_runs env st rest ed k \<longleftrightarrow> (case eq_stack (en_queue st) of
       [] \<Rightarrow> False
     | ed0 # rest0 \<Rightarrow> rest0 = rest \<and> update_paired_inputs ed0 = Inr ed) \<and>
     en_status (check_canceled env st) \<noteq> Canceled \<and> k = run_index (en_runData st) ed \<and>
     en_lastTry st \<noteq> Some (node_name (ed_node ed), k) \<and>
     (case ee_runNodeFilter env of None \<Rightarrow> True | Some names \<Rightarrow> node_name (ed_node ed) \<in> set names) \<and>
     (case ensureInputData (ee_v1 env) (en_workflow st) ed ((en_queue st)\<lparr>eq_stack := rest\<rparr>) of
        Inl e \<Rightarrow> False | Inr (ok, q) \<Rightarrow> ok)"

lemma begin_turn_lastTry [simp]: "en_lastTry (begin_turn st rest) = en_lastTry st"
  by (simp add: begin_turn_def)

lemma turn_runs:
  assumes "turn_runs env st rest ed k"
  shows "engine_turn env st = run_turn (in_workflow (en_workflow st) env) (begin_turn st rest) ed k (en_nextIndex st)"
proof -
  from assms obtain ed0 where st: "eq_stack (en_queue st) = ed0 # rest" "update_paired_inputs ed0 = Inr ed"
    by (auto simp: turn_runs_def split: list.splits)
  from assms have c: "check_canceled env st = st" "en_status st \<noteq> Canceled"
    using check_canceled_id [of env st] by (auto simp: turn_runs_def)
  from assms show ?thesis
    using st c
    by (auto simp: engine_turn_def Let_def take_turn_def turn_runs_def begin_turn_def [symmetric]
        split: sum.splits option.splits bool.splits)
qed

lemma put_task_has:
  "\<exists>runs td'. obj_get (put_task rd name k td) name = Some runs \<and> td' \<in> set runs \<and>
     td_executionIndex td' = td_executionIndex td \<and> td_executionStatus td' = td_executionStatus td \<and>
     (td_error td \<noteq> None \<longrightarrow> td_error td' = td_error td)"
proof -
  define runs where "runs = (case obj_get rd name of None \<Rightarrow> [] | Some runs \<Rightarrow> runs)"
  show ?thesis
  proof (cases "arr_get runs k")
    case None
    then show ?thesis by (intro exI [of _ "runs @ [td]"] exI [of _ td]) (simp add: put_task_def runs_def)
  next
    case (Some old)
    then have "k < length runs" by (simp add: arr_get_def split: if_splits)
    then have "assign_task old td \<in> set (runs[k := assign_task old td])" by (simp add: set_update_memI)
    then show ?thesis using Some
      by (intro exI [of _ "runs[k := assign_task old td]"] exI [of _ "assign_task old td"])
        (auto simp: put_task_def runs_def assign_task_def)
  qed
qed

lemma put_task_other: "name' \<noteq> name \<Longrightarrow> obj_get (put_task rd name k td) name' = obj_get rd name'"
  by (simp add: put_task_def Let_def)

lemma failed_task_simps [simp]:
  "td_error (failed_task rd node k e td) = Some e" "td_executionStatus (failed_task rd node k e td) = Some ErrorStatus"
  by (simp_all add: failed_task_def with_outputs_def Let_def split: option.split)

lemma final_status_error: "final_status (Some e) w \<in> {Canceled, ErrorStatus}"
  by (simp add: final_status_def)

text \<open>Requests only add placeholders to the run data, and nothing happens without any.\<close>

definition more_placeholders :: "run_data \<Rightarrow> run_data \<Rightarrow> string \<Rightarrow> bool" where
  "more_placeholders rd rd' name \<longleftrightarrow> (\<exists>new. run_list rd' name = run_list rd name @ new \<and> (\<forall>td \<in> set new. is_placeholder td))"

lemma more_placeholders_refl: "more_placeholders rd rd name"
  by (simp add: more_placeholders_def)

lemma asked_placeholders:
  "asked v1 ed k R (w, rd, q) s \<Longrightarrow> case s of (w', rd', q') \<Rightarrow> \<forall>name. more_placeholders rd rd' name"
proof (induction rule: asked.induct)
  case (more w1 rd1 q1 request r q' w' rd')
  let ?P = "\<lambda>rd'. \<forall>name. more_placeholders rd rd' name"
  have rd1: "?P rd1" using more(4) by simp
  have "same_tables w1 w' \<and> ?P rd' \<and> True"
  proof (rule handleEngineRequest_effect [where P = ?P and Q = "\<lambda>_. True", OF more(3) rd1 TrueI])
    show "?P (obj_set n (run_list rd2 n @ [td]) rd2)" if "?P rd2" "is_placeholder td" for rd2 n td
    proof
      fix name
      obtain new where "run_list rd2 name = run_list rd name @ new" "\<forall>td \<in> set new. is_placeholder td"
        using \<open>?P rd2\<close> unfolding more_placeholders_def by blast
      then show "more_placeholders rd (obj_set n (run_list rd2 n @ [td]) rd2) name"
        using that(2) unfolding more_placeholders_def
        by (intro exI [of _ "new @ (if name = n then [td] else [])"]) auto
    qed
  qed simp_all
  then have "?P rd'" by blast
  then show ?case by simp
qed (use more_placeholders_refl in blast)

lemma failing_tries:
  assumes "tries_of env st ed k = (ended, ts)" "ts_error ts = Some e"
  shows "\<not> ended \<and> ts_last ts = Some (node_name (ed_node ed)) \<and> (\<forall>name. more_placeholders (en_runData st) (ts_runData ts) name) \<and>
    ((\<forall>request. \<not> may_ask env ed request) \<longrightarrow>
       ts_workflow ts = ee_workflow env \<and> ts_runData ts = en_runData st \<and> ts_queue ts = en_queue st)"
  using run_tries_counts [OF assms(1) [unfolded tries_of_def]] assms(2) tries_of_asked [OF assms(1)]
    asked_placeholders [OF tries_of_asked [OF assms(1)]] asked_no_requests [OF tries_of_asked [OF assms(1)]]
  by auto

text \<open>C11. A node that still fails after its tries, and after which the workflow may not go on, ends the
  execution: it is back on top of the stack, its task holds the error, nothing else is recorded, except
  for the placeholders of requests that failed, and the result is an error (or a cancellation) and not
  finished. If the node makes no requests, the rest of the queue, the runs of all other nodes and
  the workflow are what they were.\<close>

theorem failed_node_stops:
  assumes "turn_runs env st rest ed k"
    and "tries_of (in_workflow (en_workflow st) env) (begin_turn st rest) ed k = (ended, ts)" "ts_error ts = Some e"
    and "\<not> continues_on_error (ed_node ed)"
  shows "\<exists>st'. engine_turn env st = Leave st' \<and> engine_loop env st = Some (Ended st') \<and>
    en_queue st' = (ts_queue ts)\<lparr>eq_stack := ed # eq_stack (ts_queue ts)\<rparr> \<and>
    en_lastNodeExecuted st' = Some (node_name (ed_node ed)) \<and>
    (\<forall>name. name \<noteq> node_name (ed_node ed) \<longrightarrow> more_placeholders (en_runData st) (en_runData st') name) \<and>
    ((\<forall>request. \<not> may_ask env ed request) \<longrightarrow> en_queue st' = (en_queue st)\<lparr>eq_stack := ed # rest\<rparr> \<and>
       en_workflow st' = en_workflow st \<and>
       (\<forall>name. name \<noteq> node_name (ed_node ed) \<longrightarrow> obj_get (en_runData st') name = obj_get (en_runData st) name)) \<and>
    (\<exists>runs td. obj_get (en_runData st') (node_name (ed_node ed)) = Some runs \<and> td \<in> set runs \<and>
       td_error td = Some e \<and> td_executionStatus td = Some ErrorStatus \<and> td_executionIndex td = Some (en_nextIndex st)) \<and>
    rr_status (process_result metadata (Ended st')) \<in> {Canceled, ErrorStatus} \<and>
    \<not> rr_finished (process_result metadata (Ended st')) \<and> en_error (rr_state (process_result metadata (Ended st'))) = Some e"
proof -
  let ?n = "node_name (ed_node ed)" and ?env = "in_workflow (ts_workflow ts) env"
  let ?rd = "ensure_runs ?n (ts_runData ts)"
  from failing_tries [OF assms(2,3)] have ended: "\<not> ended" "ts_last ts = Some ?n"
    and more: "\<forall>name. more_placeholders (en_runData st) (ts_runData ts) name"
    and none: "(\<forall>request. \<not> may_ask env ed request) \<longrightarrow> ts_workflow ts = en_workflow st \<and> ts_runData ts = en_runData st \<and>
      ts_queue ts = (en_queue st)\<lparr>eq_stack := rest\<rparr>"
    by simp_all
  define td where "td = failed_task ?rd (ed_node ed) k e
    ((started_task ?env (en_nextIndex st) ed)\<lparr>td_executionStatus := Some (if ts_wait ts then Waiting else Success)\<rparr>)"
  define st' where "st' = unshift ed ((after_tries ts (begin_turn st rest))\<lparr>en_runData := put_task ?rd ?n k td\<rparr>)"
  have turn: "engine_turn env st = Leave st'"
    using turn_runs [OF assms(1)] assms(2-4) ended
    by (simp add: run_turn_def finish_turn_def Let_def st'_def td_def)
  moreover have "eq_stack (en_queue st) \<noteq> []" using assms(1) by (auto simp: turn_runs_def)
  ultimately have loop: "engine_loop env st = Some (Ended st')" by (subst engine_loop.simps) simp
  have other: "obj_get (en_runData st') name = obj_get (ts_runData ts) name" if "name \<noteq> ?n" for name
    using that by (simp add: st'_def put_task_other ensure_runs_def split: option.split)
  then have "more_placeholders (en_runData st) (en_runData st') name" if "name \<noteq> ?n" for name
    using more that by (simp add: more_placeholders_def run_list_def)
  moreover have "\<exists>runs td. obj_get (en_runData st') ?n = Some runs \<and> td \<in> set runs \<and>
       td_error td = Some e \<and> td_executionStatus td = Some ErrorStatus \<and> td_executionIndex td = Some (en_nextIndex st)"
    using put_task_has [where rd = ?rd and name = ?n and k = k and td = td] by (fastforce simp: st'_def td_def)
  moreover have "en_queue st' = (ts_queue ts)\<lparr>eq_stack := ed # eq_stack (ts_queue ts)\<rparr>" "en_workflow st' = ts_workflow ts"
    "en_lastNodeExecuted st' = Some ?n" using ended(2) by (simp_all add: st'_def)
  moreover have "rr_status (process_result metadata (Ended st')) \<in> {Canceled, ErrorStatus} \<and>
      \<not> rr_finished (process_result metadata (Ended st')) \<and> en_error (rr_state (process_result metadata (Ended st'))) = Some e"
    using assms(3) final_status_error [of e "ts_wait ts"]
    by (auto simp: st'_def process_result_def processSuccessExecution_def Let_def)
  ultimately show ?thesis using turn loop none other by (intro exI [of _ st']) auto
qed

section \<open>The order of the children\<close>

definition top_left :: "rat \<times> rat \<Rightarrow> rat \<times> rat \<Rightarrow> bool" where
  "top_left a b \<longleftrightarrow> snd a < snd b \<or> (snd a = snd b \<and> fst a \<le> fst b)"

lemma position_order_neg: "position_order a b < 0 \<longleftrightarrow> \<not> top_left a b"
  by (auto simp: position_order_def top_left_def)

definition child_entry :: "workflow \<Rightarrow> string \<Rightarrow> item list slot list \<Rightarrow> nat \<Rightarrow> nat \<times> connection \<Rightarrow> execute_data" where
  "child_entry w name outs k oc = \<lparr>
     ed_data = [(Main_type, replicate (conn_index (snd oc)) Null @ [success_slot (Some outs) (fst oc)])], ed_metadata = None,
     ed_node = the (getNode w (conn_node (snd oc))),
     ed_source = Some [(Main_type, [Val (parent_source name (fst oc) k)])], ed_runIndex = None\<rparr>"

lemma add_child_single:
  assumes "number_of_inputs w (conn_node (snd oc)) \<le> 1" "getNode w (conn_node (snd oc)) \<noteq> None"
  shows "add_child True w rd name outs k oc q = Inr (q\<lparr>eq_stack := child_entry w name outs k oc # eq_stack q\<rparr>)"
  using assms by (auto simp: add_child_def addNodeToBeExecuted_def add_single_def enqueue_def child_entry_def split: option.splits)

lemma fold_push: "fold (\<lambda>oc q. q\<lparr>eq_stack := f oc # eq_stack q\<rparr>) ocs q = q\<lparr>eq_stack := rev (map f ocs) @ eq_stack q\<rparr>"
  by (induction ocs arbitrary: q) auto

text \<open>In the order v1 the children of a node that have one input go on top of the stack, each
  connection with data once, the top-left node first.\<close>

theorem children_top_left_first:
  assumes "\<forall>oc \<in> set (child_connections w name). number_of_inputs w (conn_node (snd oc)) \<le> 1 \<and>
      getNode w (conn_node (snd oc)) \<noteq> None"
  shows "\<exists>ocs. add_children True w rd name outs k q =
      Inr (q\<lparr>eq_stack := map (child_entry w name outs k) ocs @ eq_stack q\<rparr>) \<and>
    mset ocs = mset (filter (child_wanted True outs) (child_connections w name)) \<and>
    sorted_wrt (\<lambda>a b. top_left (position_of w a) (position_of w b)) ocs"
proof -
  let ?cmp = "\<lambda>a b. position_order (position_of w a) (position_of w b)"
  define ocs where "ocs = js_sort ?cmp (filter (child_wanted True outs) (child_connections w name))"
  have "nodes_to_add w name outs = Inr ocs" using assms by (auto simp: nodes_to_add_def ocs_def)
  moreover have "foldE (add_child True w rd name outs k) ocs q =
      Inr (fold (\<lambda>oc q. q\<lparr>eq_stack := child_entry w name outs k oc # eq_stack q\<rparr>) ocs q)"
    by (rule foldE_Inr, rule add_child_single) (use assms in \<open>auto simp: ocs_def\<close>)
  ultimately have "add_children True w rd name outs k q = Inr (q\<lparr>eq_stack := map (child_entry w name outs k) (rev ocs) @ eq_stack q\<rparr>)"
    by (simp add: add_children_def fold_push rev_map)
  moreover have "sorted_wrt (\<lambda>a b. \<not> ?cmp b a < 0) ocs"
    unfolding ocs_def by (rule js_sort_sorted) (auto simp: position_order_neg top_left_def intro!: transpI)
  then have "sorted_wrt (\<lambda>a b. top_left (position_of w a) (position_of w b)) (rev ocs)"
    by (simp add: sorted_wrt_rev position_order_neg)
  ultimately show ?thesis by (intro exI [of _ "rev ocs"]) (simp add: ocs_def js_sort_mset)
qed

section \<open>Examples\<close>

text \<open>A node with two children, the second one further up.\<close>

definition fork_nodes :: "inode list" where
  "fork_nodes = [plain_node ''s'' ''t'', (plain_node ''x'' ''t'')\<lparr>node_position := (1, 5)\<rparr>,
     (plain_node ''y'' ''t'')\<lparr>node_position := (1, 0)\<rparr>]"

definition workflow_of :: "inode list \<Rightarrow> connections \<Rightarrow> workflow" where
  "workflow_of nodes conns = setConnections conns (setNodes nodes
     \<lparr>wf_nodes = [], wf_connectionsBySourceNode = [], wf_connectionsByDestinationNode = [], wf_pinData = None,
      wf_staticData = [], wf_testStaticData = None\<rparr>)"

definition fork_workflow :: workflow where
  "fork_workflow = workflow_of fork_nodes [(''s'', [(Main_type, [Some
     [\<lparr>conn_node = ''x'', conn_type = Main_type, conn_index = 0\<rparr>,
      \<lparr>conn_node = ''y'', conn_type = Main_type, conn_index = 0\<rparr>]])])]"

definition plain_type :: engine_type where
  "plain_type = \<lparr>ent_execute = True, ent_poll = False, ent_trigger = False, ent_webhook = False, ent_supplyData = False,
     ent_requestDefaults = False, ent_customOperations = [], ent_inputs = InputList 1, ent_requiredInputs = None\<rparr>"

text \<open>An environment in which \<open>f\<close> tells what a node does with a response at an attempt.\<close>

definition demo_env :: "workflow \<Rightarrow> (inode \<Rightarrow> engine_response option \<Rightarrow> nat \<Rightarrow> node_outcome) \<Rightarrow> engine_env" where
  "demo_env w f = \<lparr>
     ee_queue = \<lparr>qe_v1 = True, qe_workflow = w, qe_types = (\<lambda>n. Some plain_type), qe_evalRequired = (\<lambda>n s. None)\<rparr>,
     ee_destination = None, ee_runNodeFilter = None, ee_pinData = [], ee_manual = True, ee_mainOutputs = (\<lambda>n. 1),
     ee_getPairedItem = (\<lambda>n s p. None), ee_execute = (\<lambda>node items inputData runIndex attempt response. f node response attempt),
     ee_declarative = (\<lambda>node items inputData runIndex attempt. Inr (None, False)), ee_poll = (\<lambda>node attempt. Inr (None, False)),
     ee_trigger = (\<lambda>node attempt. Inr (None, False)), ee_clock = (\<lambda>n. n), ee_duration = (\<lambda>n. 0), ee_timeout = None, ee_canceled = (\<lambda>n. False)\<rparr>"

definition gives_item :: "inode \<Rightarrow> engine_response option \<Rightarrow> nat \<Rightarrow> node_outcome" where
  "gives_item node response attempt = Inr (Outputs (Some [Val [empty_item]]), False)"

definition fails :: "inode \<Rightarrow> engine_response option \<Rightarrow> nat \<Rightarrow> node_outcome" where
  "fails node response attempt = (if node_name node = ''s'' then Inl \<lparr>err_name = ''NodeOperationError'', err_message = ''no''\<rparr>
     else gives_item node response attempt)"

definition demo_start :: "workflow \<Rightarrow> inode \<Rightarrow> engine" where
  "demo_start w n = new_engine w \<lparr>eq_stack = [start_entry n None], eq_waiting = [], eq_waitingSource = []\<rparr> [] 0"

text \<open>An agent that asks for two calls of its tool, and is done when it has the response.\<close>

definition done_metadata :: json where
  "done_metadata = JObj [(''done'', JBool True)]"

definition agent_outcome :: "inode \<Rightarrow> engine_response option \<Rightarrow> nat \<Rightarrow> node_outcome" where
  "agent_outcome node response attempt =
     (case response of
        None \<Rightarrow> gives_item node response attempt
      | Some r \<Rightarrow>
          if node_name node = ''g'' \<and> resp_metadata r \<noteq> done_metadata
          then Inr (Asks (two_calls\<lparr>er_metadata := done_metadata\<rparr>), False) else gives_item node response attempt)"

definition retry_node :: inode where
  "retry_node = (plain_node ''s'' ''t'')\<lparr>node_retryOnFail := True\<rparr>"

lemma runs_in_order:
  "map_option (\<lambda>r. map (\<lambda>(n, runs). (n, map td_executionIndex runs)) (en_runData (loop_state r)))
     (engine_loop (demo_env fork_workflow gives_item) (demo_start fork_workflow (hd fork_nodes))) =
   Some [(''s'', [Some 0]), (''y'', [Some 1]), (''x'', [Some 2])]"
  by code_simp

text \<open>The trigger, the agent, the two calls of the tool and the agent again, whose task holds the last index.\<close>

lemma agent_run:
  "map_option (\<lambda>r. map (\<lambda>(n, runs). (n, map td_executionIndex runs)) (en_runData (loop_state r)))
     (engine_loop (demo_env agent_workflow agent_outcome) (demo_start agent_workflow (plain_node ''t'' ''trigger''))) =
   Some [(''t'', [Some 0]), (''u'', [Some 3, Some 2]), (''g'', [Some 4])]"
  by code_simp

lemma retries: "(\<lambda>(b, ts). (b, ts_error ts \<noteq> None, ts_runs ts)) (tries_of (demo_env fork_workflow fails) (demo_start fork_workflow retry_node) (start_entry retry_node None) 0) = (False, True, 3)"
  by code_simp

definition continue_node :: inode where
  "continue_node = (plain_node ''s'' ''t'')\<lparr>node_continueOnFail := True\<rparr>"

lemma continued_error_status:
  "map_option (\<lambda>r. rr_status (process_result None r))
     (engine_loop (demo_env (workflow_of [continue_node] []) fails) (demo_start (workflow_of [continue_node] []) continue_node)) = Some ErrorStatus"
  "map_option (\<lambda>r. rr_status (process_result None r))
     (engine_loop (demo_env (workflow_of (continue_node # tl fork_nodes) (wf_connectionsBySourceNode fork_workflow)) fails)
       (demo_start (workflow_of (continue_node # tl fork_nodes) (wf_connectionsBySourceNode fork_workflow)) continue_node)) = Some Success"
  by code_simp+

section \<open>Witnesses\<close>

lemma fork_tables:
  "wf_nodes fork_workflow = [(''s'', hd fork_nodes), (''x'', fork_nodes ! 1), (''y'', fork_nodes ! 2)]"
  "wf_connectionsBySourceNode fork_workflow = [(''s'', [(Main_type, [Some
     [\<lparr>conn_node = ''x'', conn_type = Main_type, conn_index = 0\<rparr>,
      \<lparr>conn_node = ''y'', conn_type = Main_type, conn_index = 0\<rparr>]])])]"
  "wf_connectionsByDestinationNode fork_workflow = mapConnectionsByDestination (wf_connectionsBySourceNode fork_workflow)"
  by (simp_all add: fork_workflow_def workflow_of_def setConnections_def setNodes_def fork_nodes_def)

lemma fork_children: "child_connections fork_workflow name = (if name = ''s''
   then [(0, \<lparr>conn_node = ''x'', conn_type = Main_type, conn_index = 0\<rparr>),
         (0, \<lparr>conn_node = ''y'', conn_type = Main_type, conn_index = 0\<rparr>)] else [])"
  by (simp add: child_connections_def fork_tables cells_of_def)

lemma fork_wired: "wired fork_workflow"
  by (simp add: wired_def fork_children fork_tables(3)) (simp add: fork_tables conns_wf_def obj_wf_def)

lemma fork_ranked: "ranked fork_workflow (\<lambda>n. if n = ''s'' then 1 else 0)"
  by (auto simp: ranked_def fork_children getNode_def fork_tables fork_nodes_def split: if_splits)

lemma demo_env_simps [simp]: "ee_workflow (demo_env w f) = w" "ee_v1 (demo_env w f)"
  by (simp_all add: demo_env_def)

lemma demo_start_simps [simp]:
  "waiting_ok w (en_queue (demo_start w' n))" "indices_ok (demo_start w' n)" "stack_main (en_queue (demo_start w' n))"
  "en_workflow (demo_start w' n) = w'"
  by (simp_all add: demo_start_def new_engine_def waiting_ok_empty indices_ok_def execution_indices_def placeholders_ok_def
      List.map_filter_def stack_main_def start_entry_def has_main_def main_of_def)


text \<open>The agent asks once: the ranks of trigger, agent and tool, and one more request if it is not done.\<close>

definition agent_rank :: "string \<Rightarrow> nat" where
  "agent_rank n = (if n = ''t'' then 2 else if n = ''g'' then 1 else 0)"

definition agent_budget :: "json \<Rightarrow> nat" where
  "agent_budget metadata = (if metadata = done_metadata then 0 else 1)"

lemma agent_ranked: "ranked agent_workflow agent_rank"
proof -
  have nodes: "wf_nodes agent_workflow = [(''t'', plain_node ''t'' ''trigger''), (''g'', plain_node ''g'' ''agent''), (''u'', plain_node ''u'' ''tool'')]"
    and conns: "wf_connectionsBySourceNode agent_workflow =
      [(''t'', [(Main_type, [Some [\<lparr>conn_node = ''g'', conn_type = Main_type, conn_index = 0\<rparr>]])]),
       (''u'', [(AiTool_type, [Some [\<lparr>conn_node = ''g'', conn_type = AiTool_type, conn_index = 0\<rparr>]])])]"
    by (simp_all add: agent_workflow_def setConnections_def setNodes_def)
  have "child_connections agent_workflow name =
      (if name = ''t'' then [(0, \<lparr>conn_node = ''g'', conn_type = Main_type, conn_index = 0\<rparr>)] else [])" for name
    by (simp add: child_connections_def conns cells_of_def)
  then show ?thesis by (auto simp: ranked_def agent_rank_def getNode_def nodes split: if_splits)
qed

lemma agent_asks:
  "asks (demo_env agent_workflow agent_outcome) node response request \<Longrightarrow>
     node_name node = ''g'' \<and> er_metadata request = done_metadata \<and> er_actions request = er_actions two_calls \<and>
     (case response of None \<Rightarrow> False | Some r \<Rightarrow> resp_metadata r \<noteq> done_metadata)"
  by (auto simp: asks_def demo_env_def agent_outcome_def gives_item_def split: option.splits if_splits)

lemma agent_requests_end: "requests_end (demo_env agent_workflow agent_outcome) agent_workflow agent_rank agent_budget 1"
proof -
  have "number_of_inputs agent_workflow ''g'' = 1" by code_simp
  moreover have "\<forall>a \<in> set (er_actions two_calls). agent_rank (ea_nodeName a) < agent_rank ''g''" by code_simp
  ultimately show ?thesis
    unfolding requests_end_def by (auto simp: agent_budget_def dest!: agent_asks split: option.splits)
qed


lemma tries_bounded_witness:
  "ts_runs (snd (tries_of (demo_env fork_workflow fails) (demo_start fork_workflow retry_node) (start_entry retry_node None) 0)) = max_tries retry_node"
proof -
  have "ts_error (snd (tries_of (demo_env fork_workflow fails) (demo_start fork_workflow retry_node) (start_entry retry_node None) 0)) \<noteq> None"
    "pinned_of (demo_env fork_workflow fails) retry_node = None"
    by code_simp+
  then show ?thesis
    using tries_bounded [where env = "demo_env fork_workflow fails" and st = "demo_start fork_workflow retry_node"
        and ed = "start_entry retry_node None" and k = 0]
    by (auto simp: start_entry_def split: prod.splits)
qed

lemma children_top_left_first_witness:
  "\<exists>ocs. add_children True fork_workflow [] ''s'' [Val [empty_item]] 0 \<lparr>eq_stack = [], eq_waiting = [], eq_waitingSource = []\<rparr> =
      Inr \<lparr>eq_stack = map (child_entry fork_workflow ''s'' [Val [empty_item]] 0) ocs, eq_waiting = [], eq_waitingSource = []\<rparr> \<and>
    mset ocs = mset (filter (child_wanted True [Val [empty_item]]) (child_connections fork_workflow ''s'')) \<and>
    sorted_wrt (\<lambda>a b. top_left (position_of fork_workflow a) (position_of fork_workflow b)) ocs"
proof -
  have "number_of_inputs fork_workflow ''x'' = 1" "number_of_inputs fork_workflow ''y'' = 1" by code_simp+
  then show ?thesis
    using children_top_left_first [of fork_workflow "''s''" "[]" "[Val [empty_item]]" 0
        "\<lparr>eq_stack = [], eq_waiting = [], eq_waitingSource = []\<rparr>"]
    by (simp add: fork_children getNode_def fork_tables)
qed

definition failed_start :: execute_data where
  "failed_start = (case update_paired_inputs (start_entry (hd fork_nodes) None) of Inr ed \<Rightarrow> ed)"

lemma failed_node_stops_witness:
  "\<exists>st'. engine_loop (demo_env fork_workflow fails) (demo_start fork_workflow (hd fork_nodes)) = Some (Ended st') \<and>
     eq_stack (en_queue st') = [failed_start] \<and> en_lastNodeExecuted st' = Some (node_name (ed_node failed_start))"
proof -
  let ?env = "demo_env fork_workflow fails" and ?st = "demo_start fork_workflow (hd fork_nodes)"
  let ?ts = "tries_of (in_workflow (en_workflow ?st) ?env) (begin_turn ?st []) failed_start 0"
  have runs: "turn_runs ?env ?st [] failed_start 0" by code_simp
  have err: "ts_error (snd ?ts) = Some \<lparr>err_name = ''NodeOperationError'', err_message = ''no''\<rparr>" by code_simp
  have stop: "\<not> continues_on_error (ed_node failed_start)" by code_simp
  have "?ts = (fst ?ts, snd ?ts)" by simp
  from failed_node_stops [OF runs this err stop] obtain st' where "engine_loop ?env ?st = Some (Ended st')"
    "(\<forall>request. \<not> may_ask ?env failed_start request) \<longrightarrow> en_queue st' = (en_queue ?st)\<lparr>eq_stack := [failed_start]\<rparr>"
    "en_lastNodeExecuted st' = Some (node_name (ed_node failed_start))"
    by blast
  moreover have "\<not> may_ask ?env failed_start request" for request
    by (auto simp: may_ask_def asks_def demo_env_def fails_def gives_item_def split: if_splits)
  ultimately show ?thesis by (intro exI [of _ st']) simp
qed

definition bad_item :: item where
  "bad_item = empty_item\<lparr>item_error := Some type_error\<rparr>"

lemma handleNodeErrorOutput_partition_witness:
  "\<exists>errs outs'. handleNodeErrorOutput (\<lambda>n s p. None) 2 (start_entry (plain_node ''s'' ''t'') None) [Val [bad_item, empty_item], Val []] = Inr outs' \<and>
     list_all2 (\<lambda>it e. error_item (\<lambda>n s p. None) (start_entry (plain_node ''s'' ''t'') None) it = Inr e) [bad_item] errs \<and>
     arr_get outs' 0 = Some (Val [empty_item]) \<and> arr_get outs' 1 = Some (Val errs)"
proof -
  let ?ed = "start_entry (plain_node ''s'' ''t'') None" and ?outs = "[Val [bad_item, empty_item], Val []]"
  have "handleNodeErrorOutput (\<lambda>n s p. None) (Suc 1) ?ed ?outs = Inr [Val [empty_item], Val [bad_item]]" by code_simp
  moreover have "filter has_error_data (items_at ?outs 0) = [bad_item]"
    "filter (\<lambda>it. \<not> has_error_data it) (items_at ?outs 0) = [empty_item]" by code_simp+
  ultimately show ?thesis
    using handleNodeErrorOutput_partition [of "\<lambda>n s p. None" 1 ?ed ?outs] by (auto simp: numeral_2_eq_2)
qed

lemma assignPairedItems_pairs_witness:
  "\<exists>outs'. assignPairedItems (Some [Val [empty_item], Null]) (start_entry (plain_node ''s'' ''t'') None) = Inr (Some outs') \<and>
     list_all2 (slot_rel (paired_with 1)) [Val [empty_item], Null] outs'"
proof -
  let ?ed = "start_entry (plain_node ''s'' ''t'') None"
  have "(case assignPairedItems (Some [Val [empty_item], Null]) ?ed of Inl e \<Rightarrow> False | Inr r \<Rightarrow> True)" by code_simp
  then obtain r where r: "assignPairedItems (Some [Val [empty_item], Null]) ?ed = Inr r" by (auto split: sum.splits)
  have "main_of (ed_data ?ed) = Some [Val [empty_item]]" by (simp add: start_entry_def main_of_def)
  with assignPairedItems_pairs [OF r] r show ?thesis by auto
qed

end
