(* ===== verification/Partial_Run.thy ===== *)
theory Partial_Run
  imports Engine_Facts Partial_Graphs
begin

text \<open>
  The whole of a partial run: the steps that rebuild its stack succeed and what they give, and
  the run stays in its sub-graph.
\<close>

section \<open>The stack of a partial run\<close>

lemma start_edges_child: "start_edges g d rd pd \<subseteq> child_edges g"
  by (auto simp: start_edges_def child_edges_def)

lemma in_graph_nodes: "(k, n) \<in> set (g_nodes g) \<Longrightarrow> n \<in> graph_nodes g"
  using imageI [of "(k, n)" "set (g_nodes g)" snd] unfolding graph_nodes_def set_map snd_conv .

lemma getNodesByNames_nodes: "n \<in> set (getNodesByNames names g) \<Longrightarrow> n \<in> graph_nodes g"
proof -
  have "set (fold (\<lambda>name nodes. case obj_get (g_nodes g) name of None \<Rightarrow> nodes | Some n \<Rightarrow> set_add n nodes) names ns)
      \<subseteq> set ns \<union> graph_nodes g" for ns
  proof (induction names arbitrary: ns)
    case (Cons name names)
    show ?case
    proof (cases "obj_get (g_nodes g) name")
      case (Some n)
      then have "n \<in> graph_nodes g" by (rule in_graph_nodes [OF map_of_SomeD])
      then show ?thesis using Cons [of "set_add n ns"] Some by auto
    qed (use Cons [of ns] in simp)
  qed simp
  from this [of "[]"] show "n \<in> set (getNodesByNames names g) \<Longrightarrow> n \<in> graph_nodes g"
    by (auto simp: getNodesByNames_def)
qed

text \<open>Run data that is typed for a graph is typed for less data and a smaller graph.\<close>

lemma runs_typed_sub:
  assumes "runs_typed g rd" "graph_conns sg \<subseteq> graph_conns g"
    and "\<forall>name. obj_get rd' name = None \<or> obj_get rd' name = obj_get rd name"
  shows "runs_typed sg rd'"
  unfolding runs_typed_def
proof (intro allI impI, elim conjE)
  fix n :: inode and runs td d
  assume a: "obj_get rd' (node_name n) = Some runs" "td \<in> set runs" "td_data td = Some d"
  then have "obj_get rd (node_name n) = Some runs" using assms(3) [rule_format, of "node_name n"] by auto
  then have "(\<forall>c \<in> graph_conns g. gc_from c = n \<longrightarrow> obj_get d (gc_type c) \<noteq> None) \<and>
      (node_type n = ''n8n-nodes-base.splitInBatches'' \<longrightarrow> obj_get d Main_type \<noteq> None)"
    using assms(1) a(2,3) unfolding runs_typed_def by blast
  then show "(\<forall>c \<in> graph_conns sg. gc_from c = n \<longrightarrow> obj_get d (gc_type c) \<noteq> None) \<and>
      (node_type n = ''n8n-nodes-base.splitInBatches'' \<longrightarrow> obj_get d Main_type \<noteq> None)"
    using assms(2) by blast
qed

lemma reach_has:
  assumes "g_wf g" "has_this_node g a" "(a, b) \<in> (child_edges g)\<^sup>*"
  shows "has_this_node g b"
  using assms(3) by induction (use assms(1,2) child_edges_has_node in auto)

text \<open>C4. In a graph without disabled nodes in the way, the steps of a partial run succeed: the
  sub-graph holds the trigger, only nodes that lead to the destination and no disabled one; the
  run data that stays is old data of nodes in the sub-graph; every node on the stack lies in the
  sub-graph, downstream of the trigger, has no run data left and none of its descendants has.\<close>

theorem partial_stack_spec:
  assumes filtered: "filterDisabledNodes g = Inr g'" "g_wf g'" "\<forall>n \<in> graph_nodes g'. \<not> is_disabled n"
    and dest: "has_this_node g' dest"
    and path: "main_path g' trigger p dest" "trigger \<notin> gc_to ` set p" "distinct (map gc_to p)"
    and typed: "runs_typed g' runData"
  shows "\<exists>sg rd st. partial_stack pe g dest trigger runData pinData dirty = Inr (sg, rd, st) \<and>
    subgraph_of sg g' \<and> trigger \<in> graph_nodes sg \<and> leads g' dest sg \<and> (\<forall>n \<in> graph_nodes sg. \<not> is_disabled n) \<and>
    (\<forall>name. obj_get rd name \<noteq> None \<longrightarrow> obj_get rd name = obj_get runData name \<and> hasNode name sg) \<and>
    (\<forall>e \<in> set (ss_stack st). ed_node e \<in> graph_nodes sg \<and> (trigger, ed_node e) \<in> (child_edges sg)\<^sup>* \<and>
       (\<forall>m. (ed_node e, m) \<in> (child_edges sg)\<^sup>* \<longrightarrow> obj_get rd (node_name m) = None))"
proof -
  from findSubgraph_ok [OF filtered(2) dest, of trigger] obtain sg where
    sg: "findSubgraph g' dest trigger = Inr sg" "subgraph_of sg g'" "leads g' dest sg" "trigger \<in> graph_nodes sg"
    using path by blast
  then have wf: "g_wf sg" and sub: "graph_nodes sg \<subseteq> graph_nodes g'" "graph_conns sg \<subseteq> graph_conns g'"
    by (auto simp: subgraph_of_def)
  have trigger: "has_this_node sg trigger" using sg(4) has_this_node_iff [OF wf] by simp
  have "\<forall>n \<in> set (getNodesByNames dirty sg). has_this_node sg n"
    using getNodesByNames_nodes has_this_node_iff [OF wf] by blast
  from cleanRunData_ok [OF wf this, of runData] obtain rd1 where
    rd1: "cleanRunData runData sg (getNodesByNames dirty sg) = Inr rd1"
    "\<forall>name. obj_get rd1 name = None \<or> obj_get rd1 name = obj_get runData name" by metis
  have typed1: "runs_typed sg rd1" by (rule runs_typed_sub [OF typed sub(2) rd1(2)])
  from findStartNodes_set [OF wf typed1 trigger, of dest pinData] obtain S0 where
    S0: "findStartNodes sg trigger dest pinData rd1 = Inr S0" "distinct S0"
    "set S0 = {n. (trigger, n) \<in> (start_edges sg dest rd1 pinData)\<^sup>* \<and> stops_at sg dest rd1 pinData n}" by blast
  have "\<forall>s \<in> set S0. (trigger, s) \<in> (child_edges sg)\<^sup>*"
    using rtrancl_mono [OF start_edges_child] S0(3) by blast
  from handleCycles_ok [OF wf trigger S0(2) this] obtain S where
    S: "handleCycles sg S0 trigger = Inr S" "\<forall>n \<in> set S. (trigger, n) \<in> (child_edges sg)\<^sup>*"
    unfolding starts_ok_def by blast
  have starts: "\<forall>n \<in> set S. has_this_node sg n" using S(2) reach_has [OF wf trigger] by blast
  from cleanRunData_ok [OF wf starts, of rd1] obtain rd where
    rd: "cleanRunData rd1 sg S = Inr rd" "\<forall>name. obj_get rd name =
    (if hasNode name sg \<and> \<not> (\<exists>n \<in> set S. \<exists>m. (n, m) \<in> (child_edges sg)\<^sup>* \<and> name \<in> cleaned_with sg m)
     then obj_get rd1 name else None)" by blast
  have kept: "\<forall>name. obj_get rd name \<noteq> None \<longrightarrow> obj_get rd name = obj_get runData name \<and> hasNode name sg"
    using rd(2) rd1(2) by metis
  have "\<forall>name. obj_get rd name = None \<or> obj_get rd name = obj_get rd1 name" using rd(2) by metis
  then have typed2: "runs_typed sg rd" by (rule runs_typed_sub [OF typed1 order_refl])
  have enabled: "\<forall>n \<in> graph_nodes sg. \<not> is_disabled n" using filtered(3) sub(1) by blast
  have "set S \<subseteq> graph_nodes sg" using starts has_this_node_iff [OF wf] by blast
  from recreateNodeExecutionStack_ok [OF wf enabled this typed2, of "pe_localeCompare pe" pinData] obtain st where
    st: "recreateNodeExecutionStack (pe_localeCompare pe) sg S rd pinData = Inr st"
    "map view_entry (ss_stack st) = concat (map (expected_entries (pe_localeCompare pe) sg rd pinData) S)" by blast
  have on: "ed_node e \<in> set S" if "e \<in> set (ss_stack st)" for e
  proof -
    have "view_entry e \<in> set (map view_entry (ss_stack st))" using that by simp
    then obtain n where "n \<in> set S" "view_entry e \<in> set (expected_entries (pe_localeCompare pe) sg rd pinData n)"
      unfolding st(2) by auto
    then show ?thesis by (auto simp: view_entry_def expected_entries_def group_entry_def split: if_splits)
  qed
  have clean: "obj_get rd (node_name m) = None" if "n \<in> set S" "(n, m) \<in> (child_edges sg)\<^sup>*" for n m
  proof -
    have "node_name m \<in> cleaned_with sg m" by (simp add: cleaned_with_def)
    with that rd(2) show ?thesis by metis
  qed
  have "partial_stack pe g dest trigger runData pinData dirty = Inr (sg, rd, st)"
    unfolding partial_stack_def filtered(1) bindE.simps sg(1) rd1(1) S0(1) S(1) rd(1) st(1) by simp
  moreover have "\<forall>e \<in> set (ss_stack st). ed_node e \<in> graph_nodes sg \<and> (trigger, ed_node e) \<in> (child_edges sg)\<^sup>* \<and>
       (\<forall>m. (ed_node e, m) \<in> (child_edges sg)\<^sup>* \<longrightarrow> obj_get rd (node_name m) = None)"
    using on S(2) starts clean has_this_node_iff [OF wf] by blast
  ultimately show ?thesis using sg(2-4) enabled kept by blast
qed

section \<open>A partial run stays in its sub-graph\<close>

definition keyed :: "graph \<Rightarrow> bool" where
  "keyed g \<longleftrightarrow> (\<forall>(k, n) \<in> set (g_nodes g). k = node_name n)"

lemma keyed_addNodes: "keyed g \<Longrightarrow> keyed (addNodes ns g)"
proof (induction ns arbitrary: g)
  case (Cons n ns)
  have "keyed (addNode n g)" using Cons.prems by (auto simp: keyed_def addNode_def dest!: obj_set_in)
  from Cons.IH [OF this] show ?case by (simp add: addNodes_def)
qed (simp add: addNodes_def)

lemma addGConn_nodes: "addGConn c g = Inr g' \<Longrightarrow> g_nodes g' = g_nodes g"
  by (auto simp: addGConn_def addConnection_def bindE_Inr_iff Let_def)

lemma keyed_addGConn: "addGConn c (addNodes ns g) = Inr g' \<Longrightarrow> keyed g \<Longrightarrow> keyed g'"
  using keyed_addNodes by (simp add: keyed_def addGConn_nodes)

lemma keyed_keep_branch: "keep_branch branch g = Inr g' \<Longrightarrow> keyed g \<Longrightarrow> keyed g'"
  unfolding keep_branch_def by (erule foldE_partial [where P = keyed]) (auto dest: keyed_addGConn)

lemma keyed_findSubgraphRecursive:
  "findSubgraphRecursive g fuel d cur t branch sg = Inr sg' \<Longrightarrow> keyed sg \<Longrightarrow> keyed sg'"
proof (induction fuel arbitrary: cur branch sg sg')
  case (Suc fuel)
  have new: "keyed (addNode t sg)" using keyed_addNodes [OF Suc.prems(2), of "[t]"] by (simp add: addNodes_def)
  show ?case
  proof (cases "cur = t")
    case True
    then show ?thesis using Suc.prems(1) new by (auto dest: keyed_keep_branch)
  next
    case False
    with Suc.prems(1) obtain ps where ps: "(if ps = [] then Inr sg
        else if cur = d \<and> (\<exists>c \<in> set branch. gc_to c = d) then Inr sg
        else if \<exists>c \<in> set branch. gc_to c = cur then keep_branch branch sg
        else foldE (\<lambda>pc acc. if gc_type pc \<noteq> Main_type then Inr acc
            else findSubgraphRecursive g fuel d (gc_from pc) t (branch @ [pc]) acc) ps sg) = Inr sg'"
      by (auto simp: bindE_Inr_iff)
    have loop: "keyed sg'" if "foldE (\<lambda>pc acc. if gc_type pc \<noteq> Main_type then Inr acc
            else findSubgraphRecursive g fuel d (gc_from pc) t (branch @ [pc]) acc) ps sg = Inr sg'"
      by (rule foldE_partial [where P = keyed, OF that Suc.prems(2)]) (auto split: if_splits dest: Suc.IH)
    show ?thesis using ps Suc.prems(2) loop by (auto split: if_splits dest: keyed_keep_branch)
  qed
qed simp

lemma keyed_add_sub_nodes: "add_sub_nodes g n sg = Inr sg' \<Longrightarrow> keyed sg \<Longrightarrow> keyed sg'"
proof -
  assume a: "add_sub_nodes g n sg = Inr sg'" "keyed sg"
  then obtain cs where "foldE (\<lambda>c acc. if gc_type c = Main_type then Inr acc
                      else addGConn c (addNodes [gc_from c, gc_to c] acc)) cs sg = Inr sg'"
    by (auto simp: add_sub_nodes_def bindE_Inr_iff)
  then show ?thesis
    by (rule foldE_partial [where P = keyed]) (use a(2) in \<open>auto split: if_splits dest: keyed_addGConn\<close>)
qed

lemma keyed_findSubgraph: "findSubgraph g d t = Inr sg \<Longrightarrow> keyed sg"
proof -
  assume "findSubgraph g d t = Inr sg"
  then obtain s where s: "findSubgraphRecursive g (Suc (length (g_nodes g))) d d t [] empty_graph = Inr s"
    "foldE (add_sub_nodes g) (obj_values (g_nodes s)) s = Inr sg"
    by (auto simp: findSubgraph_def bindE_Inr_iff)
  have "keyed empty_graph" by (simp add: keyed_def empty_graph_def)
  from keyed_findSubgraphRecursive [OF s(1) this] show ?thesis
    by (rule foldE_partial [where P = keyed, OF s(2)]) (rule keyed_add_sub_nodes)
qed

lemma cleanRunData_in_graph:
  assumes "cleanRunData rd g ns = Inr rd'" "obj_get rd' name \<noteq> None"
  shows "hasNode name g"
proof -
  from assms(1) obtain rd1 where rd1: "rd' = fold (\<lambda>nodeName rd. if hasNode nodeName g then rd else obj_delete nodeName rd)
      (obj_keys rd1) rd1" by (auto simp: cleanRunData_def bindE_Inr_iff)
  have "obj_get rd1 name = None" if "name \<notin> set (obj_keys rd1)" using that by (simp add: map_of_eq_None_iff)
  with assms(2) show ?thesis
    unfolding rd1 fold_deletes [where P = "\<lambda>k. hasNode k g" and h = "\<lambda>k. k"]
    by (metis (mono_tags, lifting))
qed

lemma lift_error_Inr: "lift_error f m = Inr x \<longleftrightarrow> m = Inr x"
  by (cases m) auto

lemma hasNode_keyed: "keyed g \<Longrightarrow> hasNode name g \<Longrightarrow> name \<in> node_name ` graph_nodes g"
proof -
  assume k: "keyed g" and "hasNode name g"
  then obtain n where "(name, n) \<in> set (g_nodes g)" by (auto simp: hasNode_def obj_has_iff)
  with k have "name = node_name n" "n \<in> graph_nodes g" by (auto simp: keyed_def in_graph_nodes)
  then show ?thesis by (rule image_eqI)
qed



section \<open>Witnesses\<close>

definition demo_types :: node_types where
  "demo_types ty v = Some \<lparr>nt_name = ty, nt_group = (if ty = ''trig'' then [''trigger''] else []),
     nt_trigger = (ty = ''trig''), nt_poll = False, nt_webhook = False\<rparr>"

definition demo_partial :: partial_env where
  "demo_partial = \<lparr>pe_types = demo_types, pe_outputs = (\<lambda>n. Some (node_type n, Some [OutputName Main_type])),
     pe_parameters = (\<lambda>t n. None), pe_stringify = (\<lambda>j. []), pe_localeCompare = (\<lambda>a b. 0)\<rparr>"

lemma two_cycles_filtered: "filterDisabledNodes two_cycles = Inr two_cycles"
  by code_simp

lemma partial_stack_spec_witness:
  "\<exists>sg rd st. partial_stack demo_partial two_cycles nodeB nodeR [(''r'', [one_run])] [] [] = Inr (sg, rd, st) \<and>
     subgraph_of sg two_cycles \<and> nodeR \<in> graph_nodes sg"
proof -
  let ?p = "[conn_between nodeR nodeA, conn_between nodeA nodeB]"
  have "main_path two_cycles nodeR ?p nodeB" "nodeR \<notin> gc_to ` set ?p" "distinct (map gc_to ?p)"
    unfolding main_path.simps graph_conns_def by (simp_all add: two_cycles_def conn_between_def)
  from partial_stack_spec [OF two_cycles_filtered _ _ _ this two_cycles_typed, of demo_partial "[]" "[]"]
  show ?thesis unfolding two_cycles_nodes by (auto simp: is_disabled_def)
qed

definition pair_workflow :: workflow where
  "pair_workflow = workflow_of [plain_node ''s'' ''trig'', plain_node ''x'' ''t'']
     [(''s'', [(Main_type, [Some [\<lparr>conn_node = ''x'', conn_type = Main_type, conn_index = 0\<rparr>]])])]"


end
