(* ===== verification/Node_Parameters.thy ===== *)
theory Node_Parameters
  imports N8n_Types "HOL-Library.Sublist"
begin

text \<open>
  The parameters of a node (\<^verbatim>\<open>packages/workflow/src/node-helpers.ts\<close>): which properties
  are displayed, in which order they are resolved, and \<^verbatim>\<open>getNodeParameters\<close>, which adds
  the defaults to the values of a node or leaves them out.

  A value of \<^verbatim>\<open>NodeParameterValueType\<close> is a \<open>pvalue\<close>; a property is a
  \<open>node_property\<close> with the fields this code reads. A missing key reads as \<open>PUndef\<close>. What
  \<^verbatim>\<open>deepCopy\<close> copies is a value here, so it is the identity. \<open>get\<close>,
  \<open>isEqual\<close> (both of lodash), regular expressions, the conversion of objects to primitives and
  of text to numbers are arguments, in the record \<open>parameter_env\<close>. Names that every object
  inherits (\<^verbatim>\<open>constructor\<close> and the like) are not used as names of properties.
\<close>


section \<open>Parameter values\<close>

datatype pvalue = PUndef | PNull | PBool bool | PNum rat | PStr string | PArr "pvalue list"
  | PObj "(string \<times> pvalue) list"

fun pv_truthy :: "pvalue \<Rightarrow> bool" where
  "pv_truthy PUndef = False"
| "pv_truthy PNull = False"
| "pv_truthy (PBool b) = b"
| "pv_truthy (PNum q) = (q \<noteq> 0)"
| "pv_truthy (PStr s) = (s \<noteq> [])"
| "pv_truthy (PArr xs) = True"
| "pv_truthy (PObj m) = True"

text \<open>\<^verbatim>\<open>typeof v === 'object'\<close>, which holds of null too.\<close>

fun is_object :: "pvalue \<Rightarrow> bool" where
  "is_object PNull = True"
| "is_object (PArr xs) = True"
| "is_object (PObj m) = True"
| "is_object _ = False"

text \<open>\<^verbatim>\<open>===\<close>, and membership with \<^verbatim>\<open>includes\<close>, of a value that is not an array or
  an object: those are compared by identity, and never the same as a value written elsewhere.\<close>

fun same_value :: "pvalue \<Rightarrow> pvalue \<Rightarrow> bool" where
  "same_value (PArr xs) w = False"
| "same_value (PObj m) w = False"
| "same_value v w = (v = w)"

definition index_keys :: "'a list \<Rightarrow> string list" where
  "index_keys xs = map string_of_nat [0..<length xs]"

definition index_get :: "'a list \<Rightarrow> string \<Rightarrow> 'a option" where
  "index_get xs k = obj_get (zip (index_keys xs) xs) k"

text \<open>\<^verbatim>\<open>Object.keys\<close>.\<close>

fun own_keys :: "pvalue \<Rightarrow> string list" where
  "own_keys (PObj m) = map fst m"
| "own_keys (PArr xs) = index_keys xs"
| "own_keys (PStr s) = index_keys s"
| "own_keys _ = []"

definition or_undefined :: "pvalue option \<Rightarrow> pvalue" where
  "or_undefined v = (case v of None \<Rightarrow> PUndef | Some w \<Rightarrow> w)"

text \<open>Reading a property, where the value is known not to be null or undefined.\<close>

fun read_prop :: "pvalue \<Rightarrow> string \<Rightarrow> pvalue" where
  "read_prop (PObj m) k = or_undefined (obj_get m k)"
| "read_prop (PArr xs) k =
     (if k = ''length'' then PNum (of_nat (length xs)) else or_undefined (index_get xs k))"
| "read_prop (PStr s) k =
     (if k = ''length'' then PNum (of_nat (length s))
      else or_undefined (map_option (\<lambda>c. PStr [c]) (index_get s k)))"
| "read_prop _ k = PUndef"

text \<open>\<^verbatim>\<open>{ ...m, ...v }\<close>.\<close>

definition spread :: "pvalue \<Rightarrow> (string, pvalue) obj \<Rightarrow> (string, pvalue) obj" where
  "spread v m = fold (\<lambda>k. obj_set k (read_prop v k)) (own_keys v) m"

text \<open>\<^verbatim>\<open>s.charAt(0) === c\<close>.\<close>

definition starts_with :: "char \<Rightarrow> string \<Rightarrow> bool" where
  "starts_with c s = (case s of [] \<Rightarrow> False | x # _ \<Rightarrow> x = c)"

fun isExpression :: "pvalue \<Rightarrow> bool" where
  "isExpression (PStr s) = starts_with (CHR ''='') s"
| "isExpression _ = False"

section \<open>Properties of a node type\<close>

datatype condition = Is pvalue | Cnd string pvalue

type_synonym display_rules = "(string, condition list) obj"

type_synonym display_options = "(string, display_rules) obj"

datatype node_property = NodeProperty (np_name: string) (np_type: string)
    (np_multiple: "bool option") (np_default: pvalue) (np_display: "display_options option")
    (np_noExpression: bool) (np_options: "property_option list option")
  and property_option = FieldOption node_property | CollectionOption string "node_property list"

record node_description =
  nd_name :: string
  nd_features :: "(string, condition list) obj option"

text \<open>The node the parameters belong to, and the library functions the code calls.\<close>

record parameter_env =
  pe_version :: "rat option"
  pe_description :: "node_description option"
  pe_get :: "pvalue \<Rightarrow> string \<Rightarrow> pvalue"
  pe_isEqual :: "pvalue \<Rightarrow> pvalue \<Rightarrow> bool"
  pe_regex :: "string \<Rightarrow> string \<Rightarrow> bool"
  pe_primitive :: "pvalue \<Rightarrow> pvalue"
  pe_numeral :: "string \<Rightarrow> rat option"

datatype parameter_error = UnresolvedDependencies | NoPropertyOption string string
  | NotAnObject | ParametersOutOfFuel

section \<open>Display conditions\<close>

fun to_number :: "parameter_env \<Rightarrow> pvalue \<Rightarrow> rat option" where
  "to_number env (PNum q) = Some q"
| "to_number env (PBool b) = Some (if b then 1 else 0)"
| "to_number env PNull = Some 0"
| "to_number env (PStr s) = pe_numeral env s"
| "to_number env _ = None"

definition js_less :: "parameter_env \<Rightarrow> pvalue \<Rightarrow> pvalue \<Rightarrow> bool" where
  "js_less env v w =
     (case (pe_primitive env v, pe_primitive env w) of
        (PStr s, PStr t) \<Rightarrow> text_less s t
      | (p, q) \<Rightarrow> (case (to_number env p, to_number env q) of
                    (Some x, Some y) \<Rightarrow> x < y
                  | _ \<Rightarrow> False))"

definition js_le :: "parameter_env \<Rightarrow> pvalue \<Rightarrow> pvalue \<Rightarrow> bool" where
  "js_le env v w =
     (case (pe_primitive env v, pe_primitive env w) of
        (PStr s, PStr t) \<Rightarrow> \<not> text_less t s
      | (p, q) \<Rightarrow> (case (to_number env p, to_number env q) of
                    (Some x, Some y) \<Rightarrow> x \<le> y
                  | _ \<Rightarrow> False))"

definition on_strings :: "(string \<Rightarrow> string \<Rightarrow> bool) \<Rightarrow> pvalue \<Rightarrow> pvalue \<Rightarrow> bool" where
  "on_strings f v w = (case (v, w) of (PStr s, PStr t) \<Rightarrow> f s t | _ \<Rightarrow> False)"

definition condition_holds :: "parameter_env \<Rightarrow> string \<Rightarrow> pvalue \<Rightarrow> pvalue \<Rightarrow> bool" where
  "condition_holds env key target v =
     (if key = ''eq'' then pe_isEqual env v target
      else if key = ''not'' then \<not> pe_isEqual env v target
      else if key = ''gte'' then js_le env target v
      else if key = ''lte'' then js_le env v target
      else if key = ''gt'' then js_less env target v
      else if key = ''lt'' then js_less env v target
      else if key = ''between'' then
        js_le env (read_prop target ''from'') v \<and> js_le env v (read_prop target ''to'')
      else if key = ''includes'' then on_strings (\<lambda>s t. sublist t s) v target
      else if key = ''startsWith'' then on_strings (\<lambda>s t. prefix t s) v target
      else if key = ''endsWith'' then on_strings (\<lambda>s t. suffix t s) v target
      else if key = ''regex'' then on_strings (\<lambda>s t. pe_regex env t s) v target
      else if key = ''exists'' then v \<noteq> PNull \<and> v \<noteq> PUndef \<and> v \<noteq> PStr []
      else False)"

fun check_condition :: "parameter_env \<Rightarrow> pvalue list \<Rightarrow> condition \<Rightarrow> bool" where
  "check_condition env actual (Cnd key target) =
     (if actual = [] then key = ''not'' else list_all (condition_holds env key target) actual)"
| "check_condition env actual (Is v) = list_ex (same_value v) actual"

definition checkConditions :: "parameter_env \<Rightarrow> condition list \<Rightarrow> pvalue list \<Rightarrow> bool" where
  "checkConditions env conditions actual = list_ex (check_condition env actual) conditions"

definition evaluateFeature :: "parameter_env \<Rightarrow> condition list \<Rightarrow> rat \<Rightarrow> bool" where
  "evaluateFeature env conditions ver = checkConditions env conditions [PNum ver]"

definition getNodeFeatures ::
  "parameter_env \<Rightarrow> (string, condition list) obj option \<Rightarrow> rat \<Rightarrow> (string, bool) obj" where
  "getNodeFeatures env features ver =
     (case features of None \<Rightarrow> [] | Some fs \<Rightarrow> map (\<lambda>(f, c). (f, evaluateFeature env c ver)) fs)"

definition enabled_features :: "parameter_env \<Rightarrow> pvalue list" where
  "enabled_features env =
     (case (pe_description env, pe_version env) of
        (Some d, Some ver) \<Rightarrow>
          if nd_features d = None \<or> ver = 0 then []
          else map (\<lambda>(f, _). PStr f) (filter snd (getNodeFeatures env (nd_features d) ver))
      | _ \<Rightarrow> [])"

text \<open>A resource locator stands for its value.\<close>

definition locator_value :: "pvalue \<Rightarrow> pvalue" where
  "locator_value v =
     (case v of
        PObj m \<Rightarrow> if pv_truthy (read_prop v ''__rl'') then read_prop v ''value'' else v
      | _ \<Rightarrow> v)"

definition as_array :: "pvalue \<Rightarrow> pvalue list" where
  "as_array v = (case v of PArr xs \<Rightarrow> xs | _ \<Rightarrow> [v])"

definition getPropertyValues :: "parameter_env \<Rightarrow> pvalue \<Rightarrow> string \<Rightarrow> pvalue \<Rightarrow> pvalue list" where
  "getPropertyValues env vals name outer =
     (if name = ''@feature'' then enabled_features env
      else as_array (locator_value
        (if starts_with (CHR ''/'') name then pe_get env outer (tl name)
         else if name = ''@version'' then
           PNum (case pe_version env of None \<Rightarrow> 0 | Some ver \<Rightarrow> ver)
         else if name = ''@tool'' then
           PBool (case pe_description env of None \<Rightarrow> False | Some d \<Rightarrow> suffix ''Tool'' (nd_name d))
         else pe_get env vals name)))"

text \<open>The loop over the rules of \<^verbatim>\<open>show\<close>: it may return true or false, or run to its end.\<close>

fun show_rules :: "parameter_env \<Rightarrow> pvalue \<Rightarrow> pvalue \<Rightarrow> display_rules \<Rightarrow> bool option" where
  "show_rules env vals outer [] = None"
| "show_rules env vals outer ((name, conditions) # rules) =
     (let actual = getPropertyValues env vals name outer in
      if list_ex isExpression actual then Some True
      else if \<not> checkConditions env conditions actual then Some False
      else show_rules env vals outer rules)"

definition hide_rules :: "parameter_env \<Rightarrow> pvalue \<Rightarrow> pvalue \<Rightarrow> display_rules \<Rightarrow> bool" where
  "hide_rules env vals outer rules =
     list_ex (\<lambda>(name, conditions).
        let actual = getPropertyValues env vals name outer
        in actual \<noteq> [] \<and> checkConditions env conditions actual) rules"

definition rules_of :: "display_options \<Rightarrow> string \<Rightarrow> display_rules" where
  "rules_of d kind = (case obj_get d kind of None \<Rightarrow> [] | Some rules \<Rightarrow> rules)"

definition displayParameter ::
  "parameter_env \<Rightarrow> pvalue \<Rightarrow> display_options option \<Rightarrow> pvalue option \<Rightarrow> bool" where
  "displayParameter env vals display values_root =
     (case display of None \<Rightarrow> True
      | Some d \<Rightarrow>
          (let outer = (case values_root of Some r \<Rightarrow> if pv_truthy r then r else vals | None \<Rightarrow> vals) in
           case show_rules env vals outer (rules_of d ''show'') of
             Some b \<Rightarrow> b
           | None \<Rightarrow> \<not> hide_rules env vals outer (rules_of d ''hide'')))"

definition displayParameterPath ::
  "parameter_env \<Rightarrow> pvalue \<Rightarrow> display_options option \<Rightarrow> string \<Rightarrow> bool" where
  "displayParameterPath env vals display path =
     displayParameter env (if path = [] then vals else pe_get env vals path) display
       (Some (if takeWhile (\<lambda>c. c \<noteq> CHR ''.'') path = ''parameters''
              then pe_get env vals ''parameters'' else vals))"

section \<open>The order in which parameters are resolved\<close>

definition add_dependency :: "string \<Rightarrow> string list \<Rightarrow> string list" where
  "add_dependency param found =
     (if param \<in> set found \<or> starts_with (CHR ''@'') param then found else found @ [param])"

definition property_dependencies :: "node_property \<Rightarrow> string list \<Rightarrow> string list" where
  "property_dependencies p found =
     (case np_display p of None \<Rightarrow> found
      | Some d \<Rightarrow> fold (\<lambda>rules. fold add_dependency (obj_keys rules)) (obj_values d) found)"

definition getParameterDependencies :: "node_property list \<Rightarrow> (string, string list) obj" where
  "getParameterDependencies ps =
     fold (\<lambda>p deps. obj_set (np_name p)
        (property_dependencies p
           (case obj_get deps (np_name p) of None \<Rightarrow> [] | Some found \<Rightarrow> found)) deps) ps []"

record resolve_state =
  rs_queue :: "nat list"
  rs_resolved :: "string list"
  rs_order :: "nat list"
  rs_lastLength :: nat
  rs_lastReduction :: int
  rs_iterations :: int

definition unresolved :: "string list \<Rightarrow> string \<Rightarrow> bool" where
  "unresolved resolved dep \<longleftrightarrow> dep \<notin> set resolved \<and> \<not> starts_with (CHR ''/'') dep"

definition push_unresolved :: "nat \<Rightarrow> string list \<Rightarrow> string list \<Rightarrow> nat list \<Rightarrow> nat list" where
  "push_unresolved i resolved = fold (\<lambda>dep q. if unresolved resolved dep then q @ [i] else q)"

definition resolve_turn ::
  "string list \<Rightarrow> (string, string list) obj \<Rightarrow> nat \<Rightarrow> nat list \<Rightarrow> resolve_state
    \<Rightarrow> parameter_error + resolve_state" where
  "resolve_turn names deps i rest st =
     (let it = rs_iterations st + 1;
          done = st\<lparr>rs_queue := rest, rs_resolved := rs_resolved st @ [names ! i],
                    rs_order := rs_order st @ [i], rs_iterations := it\<rparr>
      in case obj_get deps (names ! i) of
           None \<Rightarrow> Inl NotAnObject
         | Some ds \<Rightarrow>
             if ds = [] then Inr done
             else
               let q = push_unresolved i (rs_resolved st) ds rest;
                   red = (if length q < rs_lastLength st then it else rs_lastReduction st)
               in if red + int (length names) < it then Inl UnresolvedDependencies
                  else Inr (done\<lparr>rs_queue := q, rs_lastReduction := red, rs_lastLength := length q\<rparr>))"


lemma push_unresolved_replicate:
  "push_unresolved i resolved ds q = q @ replicate (length (filter (unresolved resolved) ds)) i"
  unfolding push_unresolved_def
  by (induction ds arbitrary: q) (auto simp: replicate_append_same)

text \<open>An entry that no longer waits for anything.\<close>

definition settled :: "string list \<Rightarrow> (string, string list) obj \<Rightarrow> string list \<Rightarrow> nat \<Rightarrow> bool" where
  "settled names deps resolved i \<longleftrightarrow>
     (case obj_get deps (names ! i) of None \<Rightarrow> True | Some ds \<Rightarrow> filter (unresolved resolved) ds = [])"

lemma settled_cong:
  assumes "set resolved = set resolved'"
  shows "settled names deps resolved = settled names deps resolved'"
proof -
  have "unresolved resolved = unresolved resolved'"
    using assms by (simp add: unresolved_def fun_eq_iff)
  then show ?thesis by (auto simp: settled_def split: option.splits)
qed

definition unresolved_names :: "string list \<Rightarrow> resolve_state \<Rightarrow> nat" where
  "unresolved_names names st = card ((!) names ` set (rs_queue st) - set (rs_resolved st))"

definition settled_entries :: "string list \<Rightarrow> (string, string list) obj \<Rightarrow> resolve_state \<Rightarrow> nat" where
  "settled_entries names deps st = length (filter (settled names deps (rs_resolved st)) (rs_queue st))"

lemma resolve_turn_cases [consumes 2, case_names settled waits]:
  assumes "resolve_turn names deps i rest st = Inr st'" "rs_queue st = i # rest"
  obtains "settled names deps (rs_resolved st) i" "rs_queue st' = rest"
      "rs_resolved st' = rs_resolved st @ [names ! i]"
    | u where "\<not> settled names deps (rs_resolved st) i" "rs_queue st' = rest @ replicate u i" "0 < u"
      "rs_resolved st' = rs_resolved st @ [names ! i]"
      "rs_lastLength st' = length (rs_queue st')"
      "rs_iterations st' = rs_iterations st + 1"
      "rs_lastReduction st' = (if length (rs_queue st') < rs_lastLength st then rs_iterations st + 1
         else rs_lastReduction st)"
      "rs_iterations st' \<le> rs_lastReduction st' + int (length names)"
  using assms
  by (auto simp: resolve_turn_def Let_def settled_def push_unresolved_replicate
        split: option.splits if_splits) (smt (verit) filter_empty_conv length_greater_0_conv)+

lemma resolve_turn_decreases:
  assumes turn: "resolve_turn names deps i rest st = Inr st'" and q: "rs_queue st = i # rest"
  shows "(st', st) \<in> measures [unresolved_names names, settled_entries names deps,
     \<lambda>st. rs_lastLength st - length (rs_queue st),
     \<lambda>st. nat (rs_lastReduction st + int (length names) + 1 - rs_iterations st)]"
proof (cases "names ! i \<in> set (rs_resolved st)")
  case False
  have "(!) names ` set (rs_queue st') - set (rs_resolved st')
      \<subset> (!) names ` set (rs_queue st) - set (rs_resolved st)"
    using turn q by (cases rule: resolve_turn_cases) (use q False in auto)
  then have "unresolved_names names st' < unresolved_names names st"
    unfolding unresolved_names_def by (intro psubset_card_mono) auto
  then show ?thesis by simp
next
  case True
  have "(!) names ` set (rs_queue st') - set (rs_resolved st')
      \<subseteq> (!) names ` set (rs_queue st) - set (rs_resolved st)"
    using turn q by (cases rule: resolve_turn_cases) (use q in auto)
  then have m1: "unresolved_names names st' \<le> unresolved_names names st"
    unfolding unresolved_names_def by (intro card_mono) auto
  from turn q show ?thesis
  proof (cases rule: resolve_turn_cases)
    case settled
    then have "settled names deps (rs_resolved st') = settled names deps (rs_resolved st)"
      using True by (intro settled_cong) auto
    with settled q have "settled_entries names deps st' < settled_entries names deps st"
      by (simp add: settled_entries_def)
    with m1 show ?thesis by auto
  next
    case (waits u)
    then have "settled names deps (rs_resolved st') = settled names deps (rs_resolved st)"
      using True by (intro settled_cong) auto
    with waits q have "settled_entries names deps st' = settled_entries names deps st"
      by (simp add: settled_entries_def)
    with m1 waits q show ?thesis by (auto split: if_splits)
  qed
qed

function resolve_loop ::
  "string list \<Rightarrow> (string, string list) obj \<Rightarrow> resolve_state \<Rightarrow> parameter_error + nat list" where
  "resolve_loop names deps st =
     (case rs_queue st of
        [] \<Rightarrow> Inr (rs_order st)
      | i # rest \<Rightarrow>
          (case resolve_turn names deps i rest st of
             Inl e \<Rightarrow> Inl e
           | Inr st' \<Rightarrow> resolve_loop names deps st'))"
  by pat_completeness auto
termination
proof (relation "{((names', deps', st'), (names, deps, st)). names' = names \<and> deps' = deps \<and>
    (st', st) \<in> measures [unresolved_names names, settled_entries names deps,
      \<lambda>st. rs_lastLength st - length (rs_queue st),
      \<lambda>st. nat (rs_lastReduction st + int (length names) + 1 - rs_iterations st)]}", goal_cases)
  case 1
  define R where "R nd = measures [unresolved_names (fst nd), settled_entries (fst nd) (snd nd),
      \<lambda>st. rs_lastLength st - length (rs_queue st),
      \<lambda>st. nat (rs_lastReduction st + int (length (fst nd)) + 1 - rs_iterations st)]" for nd
  have "wf (same_fst (\<lambda>_. True) (\<lambda>names. same_fst (\<lambda>_. True) (\<lambda>deps. R (names, deps))))"
    by (intro wf_same_fst) (simp add: R_def)
  then show ?case
    by (rule wf_subset) (auto simp: same_fst_def R_def)
next
  case (2 names deps st i rest st')
  then show ?case using resolve_turn_decreases by auto
qed

declare resolve_loop.simps [simp del]

definition getParameterResolveOrder ::
  "node_property list \<Rightarrow> (string, string list) obj \<Rightarrow> parameter_error + nat list" where
  "getParameterResolveOrder ps deps =
     resolve_loop (map np_name ps) deps
       \<lparr>rs_queue = [0..<length ps], rs_resolved = [], rs_order = [],
        rs_lastLength = length ps, rs_lastReduction = -1, rs_iterations = 0\<rparr>"


section \<open>The parameters of a node\<close>

record parameter_request =
  pr_defaults :: bool
  pr_hidden :: bool
  pr_onlySimple :: bool
  pr_resolved :: bool
  pr_root :: "pvalue option"
  pr_parent :: string

record parameter_state =
  ps_out :: "(string, pvalue) obj"
  ps_full :: "(string, pvalue) obj"

definition put_out :: "string \<Rightarrow> pvalue \<Rightarrow> parameter_state \<Rightarrow> parameter_state" where
  "put_out k v st = st\<lparr>ps_out := obj_set k v (ps_out st)\<rparr>"

definition put_both :: "string \<Rightarrow> pvalue \<Rightarrow> parameter_state \<Rightarrow> parameter_state" where
  "put_both k v st = st\<lparr>ps_out := obj_set k v (ps_out st), ps_full := obj_set k v (ps_full st)\<rparr>"

text \<open>How the body of the loop over the parameters ends: the next one, or \<^verbatim>\<open>return\<close>.\<close>

datatype parameter_flow = NextParameter parameter_state | ReturnParameters pvalue

fun duplicates_loop :: "string list \<Rightarrow> string list \<Rightarrow> string list \<Rightarrow> string list" where
  "duplicates_loop seen dups [] = dups"
| "duplicates_loop seen dups (n # ns) =
     (if n \<in> set seen then duplicates_loop seen (if n \<in> set dups then dups else dups @ [n]) ns
      else duplicates_loop (seen @ [n]) dups ns)"

definition duplicateParameterNames :: "node_property list \<Rightarrow> string list" where
  "duplicateParameterNames ps = duplicates_loop [] [] (map np_name ps)"

text \<open>The values that decide what is displayed: a given object, or the one under construction.\<close>

definition check_values :: "pvalue option \<Rightarrow> parameter_state \<Rightarrow> pvalue" where
  "check_values fixed st = (case fixed of Some v \<Rightarrow> v | None \<Rightarrow> PObj (ps_full st))"

definition root_values :: "parameter_request \<Rightarrow> pvalue option \<Rightarrow> parameter_state \<Rightarrow> pvalue" where
  "root_values rq fixed st =
     (case pr_root rq of
        Some r \<Rightarrow> if pv_truthy r then r else check_values fixed st
      | None \<Rightarrow> check_values fixed st)"

definition is_displayed ::
  "parameter_env \<Rightarrow> parameter_request \<Rightarrow> pvalue option \<Rightarrow> node_property \<Rightarrow> parameter_state \<Rightarrow> bool" where
  "is_displayed env rq fixed p st =
     displayParameter env (check_values fixed st) (np_display p) (Some (root_values rq fixed st))"

definition filter_options :: "(string, pvalue) obj" where
  "filter_options = [(''caseSensitive'', PBool True), (''leftValue'', PStr []),
     (''typeValidation'', PStr ''strict''), (''version'', PNum 1)]"

definition completed_filter :: "pvalue \<Rightarrow> pvalue" where
  "completed_filter v =
     (case v of
        PObj m \<Rightarrow>
          let m1 = (if read_prop v ''combinator'' \<in> {PUndef, PNull}
                    then obj_set ''combinator'' (PStr ''and'') m else m)
          in PObj (obj_set ''options'' (PObj (spread (read_prop v ''options'') filter_options)) m1)
      | _ \<Rightarrow> v)"

definition value_or_default :: "node_property \<Rightarrow> pvalue \<Rightarrow> pvalue" where
  "value_or_default p v =
     (if np_type p \<in> {''boolean'', ''number'', ''options''} then
        (if v \<noteq> PUndef then v else np_default p)
      else if np_type p = ''resourceLocator'' \<and> is_object (np_default p) then
        (if v \<noteq> PUndef then v else PObj (spread (np_default p) [(''__rl'', PBool True)]))
      else if np_type p = ''filter'' \<and> is_object v \<and> v \<noteq> PNull then completed_filter v
      else if v \<in> {PUndef, PNull} then np_default p else v)"

definition differs_from_default :: "parameter_env \<Rightarrow> string \<Rightarrow> node_property \<Rightarrow> pvalue \<Rightarrow> bool" where
  "differs_from_default env parent p v \<longleftrightarrow>
     (\<not> same_value v (np_default p) \<and> \<not> is_object v) \<or>
     (is_object v \<and> \<not> pe_isEqual env v (np_default p)) \<or>
     (v \<noteq> PUndef \<and> parent = ''collection'')"

definition strip_expression :: "node_property \<Rightarrow> parameter_state \<Rightarrow> parameter_state" where
  "strip_expression p st =
     (if np_noExpression p then
        (case obj_get (ps_out st) (np_name p) of
           Some (PStr s) \<Rightarrow>
             if isExpression (PStr s) then put_both (np_name p) (PStr (tl s)) st else st
         | _ \<Rightarrow> st)
      else st)"

definition simple_parameter ::
  "parameter_env \<Rightarrow> parameter_request \<Rightarrow> string list \<Rightarrow> pvalue option \<Rightarrow> node_property \<Rightarrow> pvalue
    \<Rightarrow> parameter_state \<Rightarrow> parameter_state" where
  "simple_parameter env rq dups fixed p v st =
     (if np_name p \<in> set dups \<and> \<not> is_displayed env rq fixed p st then st
      else if pr_defaults rq then strip_expression p (put_both (np_name p) (value_or_default p v) st)
      else if differs_from_default env (pr_parent rq) p v then put_both (np_name p) v st
      else strip_expression p st)"

text \<open>The call for the values of a lower level.\<close>

definition child_request ::
  "parameter_request \<Rightarrow> pvalue option \<Rightarrow> node_property \<Rightarrow> parameter_state \<Rightarrow> parameter_request" where
  "child_request rq fixed p st =
     rq\<lparr>pr_onlySimple := False, pr_resolved := False, pr_root := Some (root_values rq fixed st),
        pr_parent := np_type p\<rparr>"

type_synonym parameter_call =
  "parameter_request \<Rightarrow> node_property list \<Rightarrow> pvalue \<Rightarrow> parameter_error + pvalue"

fun option_field :: "property_option \<Rightarrow> node_property" where
  "option_field (FieldOption p) = p"
| "option_field (CollectionOption n vs) = NodeProperty n [] None PUndef None False None"

fun option_name :: "property_option \<Rightarrow> string" where
  "option_name (FieldOption p) = np_name p"
| "option_name (CollectionOption n vs) = n"

fun option_values :: "property_option \<Rightarrow> parameter_error + node_property list" where
  "option_values (FieldOption p) = Inl NotAnObject"
| "option_values (CollectionOption n vs) = Inr vs"

definition collection_parameter ::
  "parameter_request \<Rightarrow> parameter_call \<Rightarrow> pvalue option \<Rightarrow> node_property \<Rightarrow> pvalue
    \<Rightarrow> parameter_state \<Rightarrow> parameter_error + parameter_state" where
  "collection_parameter rq rec fixed p v st =
     (if np_multiple p = Some True then
        let st1 = (if v \<noteq> PUndef then put_out (np_name p) v st
                   else if pr_defaults rq then
                     put_out (np_name p) (case np_default p of PArr xs \<Rightarrow> PArr xs | _ \<Rightarrow> PArr []) st
                   else st)
        in Inr (st1\<lparr>ps_full :=
             obj_set (np_name p) (or_undefined (obj_get (ps_out st1) (np_name p))) (ps_full st1)\<rparr>)
      else if v \<noteq> PUndef then
        (case np_options p of
           None \<Rightarrow> Inl NotAnObject
         | Some opts \<Rightarrow>
             bindE (rec (child_request rq fixed p st) (map option_field opts) v)
               (\<lambda>t. Inr (if t \<noteq> PNull then put_both (np_name p) t st else st)))
      else if pr_defaults rq then Inr (put_both (np_name p) (np_default p) st)
      else Inr st)"

text \<open>\<^verbatim>\<open>for (const x of v)\<close>.\<close>

fun iterate :: "pvalue \<Rightarrow> parameter_error + pvalue list" where
  "iterate (PArr xs) = Inr xs"
| "iterate (PStr s) = Inr (map (\<lambda>c. PStr [c]) s)"
| "iterate _ = Inl NotAnObject"

definition many_items_value ::
  "parameter_call \<Rightarrow> parameter_request \<Rightarrow> node_property \<Rightarrow> string \<Rightarrow> pvalue
    \<Rightarrow> parameter_error + pvalue" where
  "many_items_value rec child p itemName x =
     (case np_options p of
        None \<Rightarrow> Inl NotAnObject
      | Some opts \<Rightarrow>
          (case find (\<lambda>opt. option_name opt = itemName) opts of
             None \<Rightarrow> Inl (NoPropertyOption itemName (np_name p))
           | Some opt \<Rightarrow> bindE (option_values opt) (\<lambda>vs. rec child vs x)))"

definition many_items ::
  "parameter_call \<Rightarrow> parameter_request \<Rightarrow> node_property \<Rightarrow> pvalue \<Rightarrow> string
    \<Rightarrow> (string, pvalue) obj \<times> bool \<Rightarrow> parameter_error + (string, pvalue) obj \<times> bool" where
  "many_items rec child p pv itemName acc =
     (case pv of
        PObj m \<Rightarrow>
          bindE (iterate (read_prop pv itemName)) (\<lambda>xs.
          bindE (mapE (many_items_value rec child p itemName) xs) (\<lambda>ts.
          Inr (obj_set itemName (PArr (filter (\<lambda>t. t \<noteq> PNull) ts)) (fst acc), snd acc)))
      | _ \<Rightarrow> Inr acc)"

text \<open>Did the user set anything that is not a default?\<close>

definition has_non_default :: "parameter_env \<Rightarrow> node_property list \<Rightarrow> pvalue \<Rightarrow> bool" where
  "has_non_default env vs iv \<longleftrightarrow> pv_truthy iv \<and>
     list_ex (\<lambda>k. case find (\<lambda>f. np_name f = k) vs of
                    None \<Rightarrow> False
                  | Some f \<Rightarrow> \<not> pe_isEqual env (read_prop iv k) (np_default f)) (own_keys iv)"

text \<open>Reading a property of a value that may be null or undefined.\<close>

definition checked_read :: "pvalue \<Rightarrow> string \<Rightarrow> parameter_error + pvalue" where
  "checked_read v k = (if v \<in> {PUndef, PNull} then Inl NotAnObject else Inr (read_prop v k))"

definition one_item_values ::
  "parameter_env \<Rightarrow> parameter_call \<Rightarrow> parameter_request \<Rightarrow> node_property \<Rightarrow> pvalue \<Rightarrow> string
    \<Rightarrow> parameter_error + (string, pvalue) obj \<times> bool" where
  "one_item_values env rec child p v itemName =
     (case np_options p of
        None \<Rightarrow> Inl NotAnObject
      | Some opts \<Rightarrow>
          (case find (\<lambda>opt. option_name opt = itemName) opts of
             None \<Rightarrow> Inr ([], False)
           | Some opt \<Rightarrow>
               bindE (checked_read v itemName) (\<lambda>iv.
               bindE (option_values opt) (\<lambda>vs.
               bindE (rec child vs iv) (\<lambda>t.
               Inr (if t = PNull then ([], False)
                    else (spread t [], own_keys t \<noteq> [] \<or> \<not> has_non_default env vs iv)))))))"

definition one_item ::
  "parameter_env \<Rightarrow> parameter_request \<Rightarrow> parameter_call \<Rightarrow> parameter_request \<Rightarrow> node_property \<Rightarrow> pvalue
    \<Rightarrow> pvalue \<Rightarrow> string \<Rightarrow> (string, pvalue) obj \<times> bool
    \<Rightarrow> parameter_error + (string, pvalue) obj \<times> bool" where
  "one_item env rq rec child p v pv itemName acc =
     bindE (one_item_values env rec child p v itemName) (\<lambda>(temp, visible).
     Inr (if temp \<noteq> [] then obj_set itemName (PObj temp) (fst acc)
          else if \<not> pr_defaults rq \<and> visible \<and> pv_truthy pv \<and> read_prop pv itemName \<noteq> PUndef
          then obj_set itemName (PObj []) (fst acc)
          else fst acc, snd acc \<or> visible))"

definition fixed_collection_parameter ::
  "parameter_env \<Rightarrow> parameter_request \<Rightarrow> parameter_call \<Rightarrow> pvalue option \<Rightarrow> node_property \<Rightarrow> pvalue
    \<Rightarrow> pvalue \<Rightarrow> parameter_state \<Rightarrow> parameter_error + parameter_flow" where
  "fixed_collection_parameter env rq rec fixed p nodeValues v st =
     (let pv = (if pr_defaults rq \<and> v = PUndef then np_default p else v);
          child = child_request rq fixed p st
      in if \<not> pr_defaults rq \<and> np_multiple p = Some False \<and> pv_truthy pv \<and> own_keys pv = []
         then Inr (ReturnParameters nodeValues)
         else bindE (foldE (if np_multiple p = Some True then many_items rec child p pv
                            else one_item env rq rec child p v pv) (own_keys pv) ([], False))
           (\<lambda>(coll, visible).
             let st1 = (if \<not> pr_defaults rq \<and> visible \<and> np_multiple p = Some False \<and> coll = [] \<and>
                            (case pv of PObj m \<Rightarrow> m \<noteq> [] | _ \<Rightarrow> False)
                        then put_out (np_name p) (PObj (map (\<lambda>k. (k, PObj [])) (own_keys pv))) st
                        else st)
             in Inr (NextParameter
                  (if coll \<noteq> [] \<or> pr_defaults rq then put_both (np_name p) (PObj coll) st1 else st1))))"

definition parameter_step ::
  "parameter_env \<Rightarrow> parameter_call \<Rightarrow> parameter_request \<Rightarrow> node_property list \<Rightarrow> pvalue
    \<Rightarrow> pvalue option \<Rightarrow> nat \<Rightarrow> parameter_state \<Rightarrow> parameter_error + parameter_flow" where
  "parameter_step env rec rq ps nodeValues fixed i st =
     (let p = ps ! i; v = read_prop nodeValues (np_name p) in
      if \<not> pv_truthy nodeValues \<or> (v = PUndef \<and> (\<not> pr_defaults rq \<or> pr_parent rq = ''collection''))
      then Inr (NextParameter st)
      else if \<not> pr_hidden rq \<and> \<not> is_displayed env rq fixed p st then Inr (NextParameter st)
      else if np_type p \<notin> {''collection'', ''fixedCollection''}
      then Inr (NextParameter (simple_parameter env rq (duplicateParameterNames ps) fixed p v st))
      else if pr_onlySimple rq then Inr (NextParameter st)
      else if np_type p = ''collection''
      then bindE (collection_parameter rq rec fixed p v st) (\<lambda>st1. Inr (NextParameter st1))
      else fixed_collection_parameter env rq rec fixed p nodeValues v st)"

fun parameter_loop ::
  "(nat \<Rightarrow> parameter_state \<Rightarrow> parameter_error + parameter_flow) \<Rightarrow> nat list \<Rightarrow> parameter_state
    \<Rightarrow> parameter_error + pvalue" where
  "parameter_loop step [] st = Inr (PObj (ps_out st))"
| "parameter_loop step (i # order) st =
     bindE (step i st) (\<lambda>flow. case flow of
         NextParameter st1 \<Rightarrow> parameter_loop step order st1
       | ReturnParameters v \<Rightarrow> Inr v)"

text \<open>Everything that follows the choice of the values the display conditions are checked on.\<close>

definition parameters_pass ::
  "parameter_env \<Rightarrow> parameter_call \<Rightarrow> parameter_request \<Rightarrow> node_property list \<Rightarrow> pvalue
    \<Rightarrow> pvalue option \<Rightarrow> parameter_error + pvalue" where
  "parameters_pass env rec rq ps nodeValues fixed =
     bindE (getParameterResolveOrder ps (getParameterDependencies ps)) (\<lambda>order.
       parameter_loop (parameter_step env rec rq ps nodeValues fixed) order
         \<lparr>ps_out = [], ps_full = []\<rparr>)"

definition display_request :: "parameter_request \<Rightarrow> parameter_request" where
  "display_request rq = rq\<lparr>pr_defaults := True, pr_hidden := True, pr_onlySimple := True, pr_resolved := True\<rparr>"

fun parameters_of_level ::
  "nat \<Rightarrow> parameter_env \<Rightarrow> parameter_request \<Rightarrow> node_property list \<Rightarrow> pvalue \<Rightarrow> parameter_error + pvalue" where
  "parameters_of_level 0 env rq ps nodeValues = Inl ParametersOutOfFuel"
| "parameters_of_level (Suc f) env rq ps nodeValues =
     (if \<not> pr_resolved rq \<and> \<not> pr_hidden rq then
        bindE (parameters_pass env (parameters_of_level f env) (display_request rq) ps nodeValues None)
          (\<lambda>chk. parameters_pass env (parameters_of_level f env) rq ps nodeValues (Some chk))
      else parameters_pass env (parameters_of_level f env) rq ps nodeValues None)"

text \<open>How deep properties are nested in the options of others.\<close>

fun property_depth :: "node_property \<Rightarrow> nat"
  and option_depth :: "property_option \<Rightarrow> nat" where
  "property_depth (NodeProperty n t m d ds e opts) =
     (case opts of None \<Rightarrow> 0 | Some os \<Rightarrow> Suc (fold max (map option_depth os) 0))"
| "option_depth (FieldOption p) = property_depth p"
| "option_depth (CollectionOption n vs) = fold max (map property_depth vs) 0"

definition properties_depth :: "node_property list \<Rightarrow> nat" where
  "properties_depth ps = fold max (map property_depth ps) 0"

definition getNodeParameters ::
  "parameter_env \<Rightarrow> parameter_request \<Rightarrow> node_property list \<Rightarrow> pvalue \<Rightarrow> parameter_error + pvalue" where
  "getNodeParameters env rq ps nodeValues =
     parameters_of_level (Suc (properties_depth ps)) env rq ps nodeValues"

end
