(* ===== verification/Parameter_Order.thy ===== *)
theory Parameter_Order
  imports Node_Parameters
begin

text \<open>
  Lemmas on \<open>Node_Parameters\<close>: the dependencies of a property, the loop that orders the
  properties (what it returns, when it gives up), and the levels of calls: as many as the properties are
  nested are enough.
\<close>

section \<open>Dependencies\<close>

definition rule_keys :: "node_property \<Rightarrow> string set" where
  "rule_keys p = (case np_display p of None \<Rightarrow> {}
     | Some d \<Rightarrow> (\<Union>rules \<in> set (obj_values d). set (obj_keys rules)))"

text \<open>A property of this name has a display rule on the parameter \<open>d\<close>.\<close>

definition depends_on :: "node_property list \<Rightarrow> string \<Rightarrow> string \<Rightarrow> bool" where
  "depends_on ps n d \<longleftrightarrow>
     (\<exists>p \<in> set ps. np_name p = n \<and> d \<in> rule_keys p) \<and> \<not> starts_with (CHR ''@'') d"

lemma add_dependency_set:
  "set (add_dependency k found) = set found \<union> (if starts_with (CHR ''@'') k then {} else {k})"
  by (auto simp: add_dependency_def)

lemma fold_add_dependency_set:
  "set (fold add_dependency ks found) = set found \<union> {k \<in> set ks. \<not> starts_with (CHR ''@'') k}"
  by (induction ks arbitrary: found) (auto simp: add_dependency_set)

lemma fold_rules_set:
  "set (fold (\<lambda>rules. fold add_dependency (obj_keys rules)) rss found) =
     set found \<union> {k \<in> (\<Union>rules \<in> set rss. set (obj_keys rules)). \<not> starts_with (CHR ''@'') k}"
  by (induction rss arbitrary: found) (auto simp: fold_add_dependency_set simp del: set_map)

lemma property_dependencies_set:
  "set (property_dependencies p found) = set found \<union> {k \<in> rule_keys p. \<not> starts_with (CHR ''@'') k}"
  by (auto simp: property_dependencies_def rule_keys_def fold_rules_set simp del: set_map
      split: option.split)

definition found_in :: "(string, string list) obj \<Rightarrow> string \<Rightarrow> string set" where
  "found_in deps n = (case obj_get deps n of None \<Rightarrow> {} | Some ds \<Rightarrow> set ds)"

lemma dependencies_fold:
  "obj_get (fold (\<lambda>p deps. obj_set (np_name p) (property_dependencies p
       (case obj_get deps (np_name p) of None \<Rightarrow> [] | Some found \<Rightarrow> found)) deps) ps deps) n \<noteq> None
     \<longleftrightarrow> obj_get deps n \<noteq> None \<or> n \<in> np_name ` set ps"
  "found_in (fold (\<lambda>p deps. obj_set (np_name p) (property_dependencies p
       (case obj_get deps (np_name p) of None \<Rightarrow> [] | Some found \<Rightarrow> found)) deps) ps deps) n
     = found_in deps n \<union> {d. depends_on ps n d}"
proof (induction ps arbitrary: deps)
  case Nil
  { case 1 show ?case by simp next case 2 show ?case by (simp add: depends_on_def) }
next
  case (Cons p ps)
  { case 1 show ?case by (simp only: fold_Cons o_apply Cons.IH(1)) auto
  next
    case 2 show ?case
      by (simp only: fold_Cons o_apply Cons.IH(2))
        (auto simp: found_in_def depends_on_def property_dependencies_set split: option.splits if_splits) }
qed

lemma dependencies_get:
  assumes "n \<in> np_name ` set ps"
  obtains ds where "obj_get (getParameterDependencies ps) n = Some ds" "set ds = {d. depends_on ps n d}"
proof -
  from dependencies_fold(1) [of ps "[]" n] assms obtain ds
    where ds: "obj_get (getParameterDependencies ps) n = Some ds"
    by (auto simp: getParameterDependencies_def)
  with dependencies_fold(2) [of ps "[]" n] have "set ds = {d. depends_on ps n d}"
    by (simp add: getParameterDependencies_def [symmetric] found_in_def)
  with ds show thesis by (rule that)
qed

lemma dependencies_nth:
  assumes "i < length ps"
  obtains ds where "obj_get (getParameterDependencies ps) (np_name (ps ! i)) = Some ds"
    "set ds = {d. depends_on ps (np_name (ps ! i)) d}"
  using assms by (rule_tac dependencies_get [of "np_name (ps ! i)" ps]) auto

section \<open>The order\<close>

text \<open>What a turn of the loop keeps holds of the state in which it returns.\<close>

lemma resolve_loop_partial:
  assumes "resolve_loop names deps st = Inr order" "P st"
    and "\<And>st i rest st'. P st \<Longrightarrow> rs_queue st = i # rest \<Longrightarrow>
      resolve_turn names deps i rest st = Inr st' \<Longrightarrow> P st'"
  shows "\<exists>st'. P st' \<and> rs_queue st' = [] \<and> rs_order st' = order"
  using assms
proof (induction names deps st rule: resolve_loop.induct)
  case (1 names deps st)
  show ?case
  proof (cases "rs_queue st")
    case Nil
    with 1 show ?thesis by (auto simp: resolve_loop.simps [of _ _ st])
  next
    case (Cons i rest)
    with 1 obtain st' where "resolve_turn names deps i rest st = Inr st'"
      "resolve_loop names deps st' = Inr order"
      by (auto simp: resolve_loop.simps [of _ _ st] split: sum.splits)
    with 1 Cons show ?thesis by metis
  qed
qed

lemma resolve_loop_total:
  assumes "P st"
    and "\<And>st i rest. P st \<Longrightarrow> rs_queue st = i # rest \<Longrightarrow>
      \<exists>st'. resolve_turn names deps i rest st = Inr st' \<and> P st'"
  shows "\<exists>order. resolve_loop names deps st = Inr order"
  using assms
proof (induction names deps st rule: resolve_loop.induct)
  case (1 names deps st)
  show ?case
  proof (cases "rs_queue st")
    case Nil
    then show ?thesis by (simp add: resolve_loop.simps [of _ _ st])
  next
    case (Cons i rest)
    with 1 show ?thesis
      by (subst resolve_loop.simps) (metis list.simps(5) sum.simps(6))
  qed
qed

lemma resolve_loop_error:
  assumes "resolve_loop names deps st = Inl e" "P st"
    and "\<And>st i rest st'. P st \<Longrightarrow> rs_queue st = i # rest \<Longrightarrow>
      resolve_turn names deps i rest st = Inr st' \<Longrightarrow> P st'"
  shows "\<exists>st' i rest. P st' \<and> rs_queue st' = i # rest \<and> resolve_turn names deps i rest st' = Inl e"
  using assms
proof (induction names deps st rule: resolve_loop.induct)
  case (1 names deps st)
  show ?case
  proof (cases "rs_queue st")
    case Nil
    with 1 show ?thesis by (auto simp: resolve_loop.simps [of _ _ st])
  next
    case (Cons i rest)
    show ?thesis
    proof (cases "resolve_turn names deps i rest st")
      case (Inl e')
      with 1 Cons show ?thesis by (auto simp: resolve_loop.simps [of _ _ st])
    next
      case (Inr st')
      with 1 Cons show ?thesis by (auto simp: resolve_loop.simps [of _ _ st])
    qed
  qed
qed

text \<open>What every turn does to the lists, whether or not the entry is settled.\<close>

definition pending :: "string list \<Rightarrow> (string, string list) obj \<Rightarrow> string list \<Rightarrow> nat \<Rightarrow> nat" where
  "pending names deps resolved i =
     (case obj_get deps (names ! i) of None \<Rightarrow> 0 | Some ds \<Rightarrow> length (filter (unresolved resolved) ds))"

lemma pending_0_iff: "pending names deps resolved i = 0 \<longleftrightarrow> settled names deps resolved i"
  by (simp add: pending_def settled_def split: option.split)

lemma resolve_turn_effect:
  assumes "resolve_turn names deps i rest st = Inr st'"
  shows "rs_order st' = rs_order st @ [i]" "rs_resolved st' = rs_resolved st @ [names ! i]"
    "rs_iterations st' = rs_iterations st + 1"
    "rs_lastReduction st' \<in> {rs_lastReduction st, rs_iterations st'}"
    "rs_queue st' = rest @ replicate (pending names deps (rs_resolved st) i) i"
    "length rest < rs_lastLength st \<Longrightarrow> length (rs_queue st') \<le> rs_lastLength st'"
  using assms
  by (auto simp: resolve_turn_def Let_def pending_def push_unresolved_replicate
      split: option.splits if_splits)

text \<open>The account of the loop: \<open>last_after\<close> says that the last time an index was handled, what it
  depends on had been handled.\<close>

definition last_after :: "string list \<Rightarrow> (string, string list) obj \<Rightarrow> nat list \<Rightarrow> nat \<Rightarrow> bool" where
  "last_after names deps order i \<longleftrightarrow> (\<exists>ys zs. order = ys @ i # zs \<and> i \<notin> set zs \<and>
     (\<forall>ds. obj_get deps (names ! i) = Some ds \<longrightarrow>
        (\<forall>d \<in> set ds. starts_with (CHR ''/'') d \<or> d \<in> (!) names ` set ys)))"

lemma last_after_snoc: "last_after names deps order j \<Longrightarrow> j \<noteq> i \<Longrightarrow> last_after names deps (order @ [i]) j"
  unfolding last_after_def by (elim exE) (rule exI, rule_tac x = "zs @ [i]" in exI, auto)

definition resolve_ok :: "string list \<Rightarrow> (string, string list) obj \<Rightarrow> resolve_state \<Rightarrow> bool" where
  "resolve_ok names deps st \<longleftrightarrow>
     prefix [0..<length names] (rs_order st @ rs_queue st) \<and>
     set (rs_order st @ rs_queue st) \<subseteq> {..<length names} \<and>
     rs_resolved st = map ((!) names) (rs_order st) \<and>
     (\<forall>i \<in> set (rs_order st) - set (rs_queue st). last_after names deps (rs_order st) i)"

lemma resolve_ok_turn:
  assumes ok: "resolve_ok names deps st" and q: "rs_queue st = i # rest"
    and turn: "resolve_turn names deps i rest st = Inr st'"
  shows "resolve_ok names deps st'"
proof -
  note eff = resolve_turn_effect [OF turn]
  define u where "u = pending names deps (rs_resolved st) i"
  have u: "rs_queue st' = rest @ replicate u i" "u = 0 \<longleftrightarrow> settled names deps (rs_resolved st) i"
    by (simp_all add: u_def eff(5) pending_0_iff)
  have "prefix (rs_order st @ rs_queue st) (rs_order st' @ rs_queue st')"
    by (simp add: eff(1) u(1) q)
  then have pre: "prefix [0..<length names] (rs_order st' @ rs_queue st')"
    using ok by (auto simp: resolve_ok_def intro: prefix_order.trans)
  have last: "last_after names deps (rs_order st') j"
    if "j \<in> set (rs_order st')" "j \<notin> set (rs_queue st')" for j
  proof (cases "j = i")
    case True
    then have "u = 0" using that(2) u(1) by auto
    then have "settled names deps (rs_resolved st) i" using u(2) by simp
    moreover have "rs_resolved st = map ((!) names) (rs_order st)" using ok by (simp add: resolve_ok_def)
    ultimately show ?thesis unfolding last_after_def True
      by (intro exI [of _ "rs_order st"] exI [of _ "[]"])
        (auto simp: eff(1) settled_def unresolved_def filter_empty_conv)
  next
    case False
    with that have "j \<in> set (rs_order st) - set (rs_queue st)" by (auto simp: eff(1) u(1) q)
    then have "last_after names deps (rs_order st) j" using ok by (simp add: resolve_ok_def)
    then show ?thesis using False by (simp add: eff(1) last_after_snoc)
  qed
  from ok pre last show ?thesis by (auto simp: resolve_ok_def eff(1,2) u(1) q)
qed

definition resolve_start :: "nat \<Rightarrow> resolve_state" where
  "resolve_start n = \<lparr>rs_queue = [0..<n], rs_resolved = [], rs_order = [],
     rs_lastLength = n, rs_lastReduction = -1, rs_iterations = 0\<rparr>"

lemma getParameterResolveOrder_start:
  "getParameterResolveOrder ps deps = resolve_loop (map np_name ps) deps (resolve_start (length ps))"
  by (simp add: getParameterResolveOrder_def resolve_start_def)

lemma resolve_ok_start: "resolve_ok names deps (resolve_start (length names))"
  by (auto simp: resolve_ok_def resolve_start_def)

lemma resolve_order_ok:
  assumes "getParameterResolveOrder ps deps = Inr order"
  shows "take (length ps) order = [0..<length ps]" "set order = {..<length ps}"
    "i < length ps \<Longrightarrow> last_after (map np_name ps) deps order i"
proof -
  from resolve_loop_partial [OF assms [unfolded getParameterResolveOrder_start],
      where P = "resolve_ok (map np_name ps) deps"]
  obtain st' where st': "resolve_ok (map np_name ps) deps st'" "rs_queue st' = []" "rs_order st' = order"
    using resolve_ok_start [of "map np_name ps" deps] resolve_ok_turn by fastforce
  then have pre: "prefix [0..<length ps] order" and sub: "set order \<subseteq> {..<length ps}"
    by (auto simp: resolve_ok_def)
  from pre obtain more where more: "order = [0..<length ps] @ more" by (auto elim: prefixE)
  show "take (length ps) order = [0..<length ps]" by (simp add: more)
  show "set order = {..<length ps}" using sub by (auto simp: more)
  then show "last_after (map np_name ps) deps order i" if "i < length ps"
    using st' that by (auto simp: resolve_ok_def)
qed


text \<open>A property with a rule on a name that no property has is never settled.\<close>

lemma missing_dependency:
  assumes "i < length ps" "depends_on ps (np_name (ps ! i)) d" "d \<notin> np_name ` set ps"
    "\<not> starts_with (CHR ''/'') d" "set resolved \<subseteq> np_name ` set ps"
  shows "\<not> settled (map np_name ps) (getParameterDependencies ps) resolved i"
proof -
  obtain ds where "obj_get (getParameterDependencies ps) (np_name (ps ! i)) = Some ds"
    "set ds = {d. depends_on ps (np_name (ps ! i)) d}"
    using assms(1) by (rule dependencies_nth)
  then show ?thesis using assms by (auto simp: settled_def unresolved_def filter_empty_conv)
qed

lemma resolve_turn_errors:
  assumes "set (rs_queue st) \<subseteq> {..<length ps}" "rs_queue st = i # rest"
    "resolve_turn (map np_name ps) (getParameterDependencies ps) i rest st = Inl e"
  shows "e = UnresolvedDependencies"
proof -
  have "i < length ps" using assms by auto
  then obtain ds where "obj_get (getParameterDependencies ps) (np_name (ps ! i)) = Some ds"
    by (rule dependencies_nth)
  with assms(3) \<open>i < length ps\<close> show ?thesis
    by (auto simp: resolve_turn_def Let_def split: if_splits)
qed

lemma missing_dependency_error:
  assumes "p \<in> set ps" "depends_on ps (np_name p) d" "d \<notin> np_name ` set ps"
    "\<not> starts_with (CHR ''/'') d"
  shows "getParameterResolveOrder ps (getParameterDependencies ps) = Inl UnresolvedDependencies"
proof -
  let ?names = "map np_name ps" and ?deps = "getParameterDependencies ps"
  obtain i where i: "i < length ps" "ps ! i = p" using assms(1) by (auto simp: in_set_conv_nth)
  let ?P = "\<lambda>st. i \<in> set (rs_queue st) \<and> resolve_ok ?names ?deps st"
  have start: "?P (resolve_start (length ps))"
    using i resolve_ok_start [of ?names ?deps] by (simp add: resolve_start_def)
  have keep: "?P st'" if st: "?P st" and q: "rs_queue st = j # rest"
    and turn: "resolve_turn ?names ?deps j rest st = Inr st'" for st j rest st'
  proof
    show "resolve_ok ?names ?deps st'" using st q turn by (blast intro: resolve_ok_turn)
    have "set (rs_resolved st) \<subseteq> np_name ` set ps" using st by (auto simp: resolve_ok_def)
    then have "pending ?names ?deps (rs_resolved st) i \<noteq> 0"
      using missing_dependency [OF i(1)] assms(2-4) i(2) by (simp add: pending_0_iff)
    then show "i \<in> set (rs_queue st')"
      using st q resolve_turn_effect(5) [OF turn] by auto
  qed
  show ?thesis
  proof (cases "resolve_loop ?names ?deps (resolve_start (length ps))")
    case (Inl e)
    have "\<exists>st' j rest. ?P st' \<and> rs_queue st' = j # rest \<and> resolve_turn ?names ?deps j rest st' = Inl e"
      by (rule resolve_loop_error [where P = ?P, OF Inl start]) (rule keep)
    then obtain st' j rest
      where "?P st'" "rs_queue st' = j # rest" "resolve_turn ?names ?deps j rest st' = Inl e" by blast
    then have "e = UnresolvedDependencies" by (intro resolve_turn_errors) (auto simp: resolve_ok_def)
    with Inl show ?thesis by (simp add: getParameterResolveOrder_start)
  next
    case (Inr order)
    have "\<exists>st'. ?P st' \<and> rs_queue st' = [] \<and> rs_order st' = order"
      by (rule resolve_loop_partial [where P = ?P, OF Inr start]) (rule keep)
    then show ?thesis by auto
  qed
qed

text \<open>If every name exists and nothing depends on itself, the loop does not give up: the last
  property of the first round is settled, and from then on every turn makes the queue shorter.\<close>

lemma settled_late:
  assumes ok: "resolve_ok (map np_name ps) (getParameterDependencies ps) st"
    and q: "rs_queue st = i # rest" and late: "length ps \<le> length (rs_order st) + 1"
    and closed: "\<And>p d. p \<in> set ps \<Longrightarrow> depends_on ps (np_name p) d \<Longrightarrow>
      d \<in> np_name ` set ps - {np_name p} \<or> starts_with (CHR ''/'') d"
  shows "settled (map np_name ps) (getParameterDependencies ps) (rs_resolved st) i"
proof -
  let ?names = "map np_name ps"
  from ok q obtain more where more: "rs_order st @ i # rest = [0..<length ps] @ more"
    and i: "i < length ps" and res: "rs_resolved st = map ((!) ?names) (rs_order st)"
    by (auto simp: resolve_ok_def elim: prefixE)
  have first: "take (length ps) (rs_order st @ i # rest) = [0..<length ps]" by (simp add: more)
  have early: "j \<in> set (rs_order st)" if j: "j < length ps" "j \<noteq> i" for j
  proof (cases "length ps \<le> length (rs_order st)")
    case True
    then have "take (length ps) (rs_order st) = [0..<length ps]" using first by simp
    then show ?thesis using j by (metis atLeastLessThan_iff in_set_takeD set_upt zero_le)
  next
    case False
    then have "length ps = Suc (length (rs_order st))" using late by simp
    then have "take (length ps) (rs_order st @ i # rest) = rs_order st @ [i]" by (simp only:) simp
    then have "rs_order st @ [i] = [0..<length ps]" using first by (simp only:)
    then have "j \<in> set (rs_order st @ [i])" using j(1) by (simp only: set_upt) simp
    then show ?thesis using j(2) by simp
  qed
  obtain ds where ds: "obj_get (getParameterDependencies ps) (np_name (ps ! i)) = Some ds"
    "set ds = {d. depends_on ps (np_name (ps ! i)) d}"
    using i by (rule dependencies_nth)
  have "d \<in> set (rs_resolved st) \<or> starts_with (CHR ''/'') d" if "d \<in> set ds" for d
  proof -
    have "d \<in> np_name ` set ps - {np_name (ps ! i)} \<or> starts_with (CHR ''/'') d"
      using that ds i closed [of "ps ! i" d] by simp
    then show ?thesis
    proof (elim disjE)
      assume "d \<in> np_name ` set ps - {np_name (ps ! i)}"
      then obtain j where "j < length ps" "d = np_name (ps ! j)" "j \<noteq> i"
        by (fastforce simp: in_set_conv_nth)
      with early show ?thesis by (force simp: res)
    qed simp
  qed
  then show ?thesis using i ds by (auto simp: settled_def unresolved_def filter_empty_conv)
qed

lemma resolve_order_exists:
  assumes closed: "\<And>p d. p \<in> set ps \<Longrightarrow> depends_on ps (np_name p) d \<Longrightarrow>
      d \<in> np_name ` set ps - {np_name p} \<or> starts_with (CHR ''/'') d"
  shows "\<exists>order. getParameterResolveOrder ps (getParameterDependencies ps) = Inr order"
proof -
  let ?names = "map np_name ps" and ?deps = "getParameterDependencies ps"
  let ?P = "\<lambda>st. resolve_ok ?names ?deps st \<and> length (rs_queue st) \<le> rs_lastLength st \<and>
     rs_iterations st = int (length (rs_order st)) \<and> -1 \<le> rs_lastReduction st"
  have "\<exists>st'. resolve_turn ?names ?deps i rest st = Inr st' \<and> ?P st'"
    if P: "?P st" and q: "rs_queue st = i # rest" for st i rest
  proof -
    have "i < length ps" using P q by (auto simp: resolve_ok_def)
    then obtain ds where ds: "obj_get ?deps (np_name (ps ! i)) = Some ds"
      by (rule dependencies_nth)
    have "\<exists>st'. resolve_turn ?names ?deps i rest st = Inr st'"
    proof (cases "length ps \<le> length (rs_order st) + 1")
      case True
      then have "settled ?names ?deps (rs_resolved st) i"
        using P q closed by (intro settled_late) auto
      then show ?thesis using ds P q \<open>i < length ps\<close>
        by (auto simp: resolve_turn_def Let_def push_unresolved_replicate settled_def)
    next
      case False
      then show ?thesis using ds P q \<open>i < length ps\<close>
        by (auto simp: resolve_turn_def Let_def)
    qed
    then obtain st' where turn: "resolve_turn ?names ?deps i rest st = Inr st'" ..
    note eff = resolve_turn_effect [OF turn]
    have "?P st'" using P q eff(1,3,4,6) resolve_ok_turn [OF _ q turn] by auto
    with turn show ?thesis by blast
  qed
  moreover have "?P (resolve_start (length ps))"
    using resolve_ok_start [of ?names ?deps] by (simp add: resolve_start_def)
  ultimately show ?thesis unfolding getParameterResolveOrder_start
    by (intro resolve_loop_total [where P = ?P]) auto
qed


section \<open>Levels\<close>

lemma fold_max_le: "fold max xs m \<le> (k :: nat) \<longleftrightarrow> m \<le> k \<and> (\<forall>x \<in> set xs. x \<le> k)"
  by (induction xs arbitrary: m) auto

text \<open>The values of a property may only be computed by calls for the properties below it.\<close>

definition properties_below :: "node_property \<Rightarrow> node_property list \<Rightarrow> bool" where
  "properties_below p vs \<longleftrightarrow> (\<exists>opts. np_options p = Some opts \<and>
     (vs = map option_field opts \<or> (\<exists>opt \<in> set opts. option_values opt = Inr vs)))"

lemma property_depth_option_field: "property_depth (option_field opt) \<le> option_depth opt"
  by (cases opt) auto

lemma properties_below_depth:
  assumes "properties_below p vs"
  shows "properties_depth vs < property_depth p"
proof -
  obtain opts where opts: "np_options p = Some opts"
    and vs: "vs = map option_field opts \<or> (\<exists>opt \<in> set opts. option_values opt = Inr vs)"
    using assms by (auto simp: properties_below_def)
  from opts have p: "property_depth p = Suc (fold max (map option_depth opts) 0)"
    by (cases p) simp
  have le: "option_depth opt \<le> fold max (map option_depth opts) 0" if "opt \<in> set opts" for opt
    using that fold_max_le [of "map option_depth opts" 0] by auto
  have "properties_depth vs \<le> fold max (map option_depth opts) 0"
    using vs
  proof
    assume "vs = map option_field opts"
    then show ?thesis unfolding properties_depth_def fold_max_le
      using le property_depth_option_field by (auto intro: le_trans)
  next
    assume "\<exists>opt \<in> set opts. option_values opt = Inr vs"
    then obtain opt where "opt \<in> set opts" "option_values opt = Inr vs" ..
    from this(2) have "properties_depth vs = option_depth opt"
      by (cases opt) (simp_all add: properties_depth_def)
    then show ?thesis using le [OF \<open>opt \<in> set opts\<close>] by simp
  qed
  then show ?thesis by (simp add: p)
qed

lemma properties_depth_in: "p \<in> set ps \<Longrightarrow> property_depth p \<le> properties_depth ps"
  unfolding properties_depth_def using fold_max_le [of "map property_depth ps" 0] by auto

definition same_below :: "parameter_call \<Rightarrow> parameter_call \<Rightarrow> node_property \<Rightarrow> bool" where
  "same_below rec rec' p \<longleftrightarrow> (\<forall>rq vs v. properties_below p vs \<longrightarrow> rec rq vs v = rec' rq vs v)"

lemma same_belowD: "same_below rec rec' p \<Longrightarrow> properties_below p vs \<Longrightarrow> rec rq vs v = rec' rq vs v"
  by (simp add: same_below_def)

lemma find_in_set: "find P xs = Some x \<Longrightarrow> x \<in> set xs"
  by (auto simp: find_Some_iff)

lemma collection_parameter_cong:
  "same_below rec rec' p \<Longrightarrow>
     collection_parameter rq rec fixed p v st = collection_parameter rq rec' fixed p v st"
  unfolding collection_parameter_def
  by (cases "np_options p") (auto simp: same_belowD properties_below_def Let_def)

lemma option_values_below:
  "np_options p = Some opts \<Longrightarrow> find P opts = Some opt \<Longrightarrow> option_values opt = Inr vs \<Longrightarrow> properties_below p vs"
  by (auto simp: properties_below_def dest!: find_in_set)

lemma many_items_cong:
  assumes "same_below rec rec' p"
  shows "many_items rec child p pv = many_items rec' child p pv"
proof -
  have "many_items_value rec child p k x = many_items_value rec' child p k x" for k x
    unfolding many_items_value_def
    by (auto split: option.split intro!: bindE_cong same_belowD [OF assms] dest: option_values_below)
  then have "many_items_value rec child p = many_items_value rec' child p" by (intro ext)
  then show ?thesis by (intro ext) (cases pv; simp add: many_items_def)
qed

lemma one_item_cong:
  assumes "same_below rec rec' p"
  shows "one_item env rq rec child p v pv = one_item env rq rec' child p v pv"
proof -
  have "one_item_values env rec child p v k = one_item_values env rec' child p v k" for k
    unfolding one_item_values_def
    by (auto split: option.split intro!: bindE_cong same_belowD [OF assms] dest: option_values_below)
  then show ?thesis by (simp add: one_item_def fun_eq_iff)
qed

lemma fixed_collection_parameter_cong:
  assumes "same_below rec rec' p"
  shows "fixed_collection_parameter env rq rec fixed p nodeValues v st =
    fixed_collection_parameter env rq rec' fixed p nodeValues v st"
  unfolding fixed_collection_parameter_def
  by (simp only: many_items_cong [OF assms] one_item_cong [OF assms])

lemma parameter_step_cong:
  assumes "same_below rec rec' (ps ! i)"
  shows "parameter_step env rec rq ps nodeValues fixed i st = parameter_step env rec' rq ps nodeValues fixed i st"
  unfolding parameter_step_def Let_def
  by (simp only: collection_parameter_cong [OF assms] fixed_collection_parameter_cong [OF assms])

lemma parameter_loop_cong:
  "(\<And>i st. i \<in> set order \<Longrightarrow> step i st = step' i st) \<Longrightarrow>
     parameter_loop step order st = parameter_loop step' order st"
proof (induction order arbitrary: st)
  case (Cons i order)
  then have "parameter_loop step order = parameter_loop step' order" by (intro ext) simp
  with Cons.prems show ?case by simp
qed simp

lemma parameters_pass_cong:
  assumes "\<And>p. p \<in> set ps \<Longrightarrow> same_below rec rec' p"
  shows "parameters_pass env rec rq ps nodeValues fixed = parameters_pass env rec' rq ps nodeValues fixed"
  unfolding parameters_pass_def
proof (rule bindE_cong [OF refl])
  fix order
  assume "getParameterResolveOrder ps (getParameterDependencies ps) = Inr order"
  then have "set order = {..<length ps}" by (rule resolve_order_ok)
  then show "parameter_loop (parameter_step env rec rq ps nodeValues fixed) order \<lparr>ps_out = [], ps_full = []\<rparr> =
      parameter_loop (parameter_step env rec' rq ps nodeValues fixed) order \<lparr>ps_out = [], ps_full = []\<rparr>"
    using assms by (intro parameter_loop_cong parameter_step_cong) auto
qed

lemma parameters_of_level_enough:
  "properties_depth ps < f \<Longrightarrow>
     parameters_of_level f env rq ps nodeValues =
     parameters_of_level (Suc (properties_depth ps)) env rq ps nodeValues"
proof (induction "properties_depth ps" arbitrary: f ps rq nodeValues rule: less_induct)
  case less
  then obtain f' where f: "f = Suc f'" "properties_depth ps \<le> f'" by (cases f) auto
  have same: "same_below (parameters_of_level f' env) (parameters_of_level (properties_depth ps) env) p"
    if p: "p \<in> set ps" for p
    unfolding same_below_def
  proof (intro allI impI)
    fix rq' vs v
    assume "properties_below p vs"
    then have "properties_depth vs < properties_depth ps"
      using properties_below_depth [of p vs] properties_depth_in [OF p] by simp
    with less.hyps [of vs f'] less.hyps [of vs "properties_depth ps"] f(2)
    show "parameters_of_level f' env rq' vs v = parameters_of_level (properties_depth ps) env rq' vs v"
      by simp
  qed
  show ?case unfolding f(1) parameters_of_level.simps
    by (simp only: parameters_pass_cong [OF same])
qed


text \<open>A computation that does not run out of fuel.\<close>

definition fuelled :: "parameter_error + 'a \<Rightarrow> bool" where
  "fuelled r \<longleftrightarrow> r \<noteq> Inl ParametersOutOfFuel"

lemma fuelled_Inr [simp, intro]: "fuelled (Inr x)"
  by (simp add: fuelled_def)

lemma fuelled_Inl [simp]: "fuelled (Inl e) \<longleftrightarrow> e \<noteq> ParametersOutOfFuel"
  by (simp add: fuelled_def)

lemma fuelled_bindE [intro!]: "fuelled m \<Longrightarrow> (\<And>x. m = Inr x \<Longrightarrow> fuelled (f x)) \<Longrightarrow> fuelled (bindE m f)"
  by (cases m) auto

lemma fuelled_mapE [intro!]: "(\<And>x. fuelled (f x)) \<Longrightarrow> fuelled (mapE f xs)"
  by (induction xs) auto

lemma fuelled_foldE [intro!]: "(\<And>x s. fuelled (f x s)) \<Longrightarrow> fuelled (foldE f xs s)"
  by (induction xs arbitrary: s) auto

lemma fuelled_reads [simp, intro]:
  "fuelled (iterate v)" "fuelled (option_values opt)" "fuelled (checked_read v k)"
    apply (cases v; simp)
   apply (cases opt; simp)
  apply (simp add: checked_read_def)
  done

lemma fuelled_order: "fuelled (getParameterResolveOrder ps deps)"
proof -
  have "fuelled (resolve_turn names deps i rest st)" for names i rest st
    by (auto simp: resolve_turn_def Let_def split: option.split)
  then have "fuelled (resolve_loop names deps st)" for names st
  proof (induction names deps st rule: resolve_loop.induct)
    case (1 names deps st)
    show ?case
    proof (cases "rs_queue st")
      case (Cons i rest)
      with 1 show ?thesis
        by (cases "resolve_turn names deps i rest st") (auto simp: resolve_loop.simps [of _ _ st] fuelled_def)
    qed (simp add: resolve_loop.simps)
  qed
  then show ?thesis by (simp add: getParameterResolveOrder_def)
qed

lemma fuelled_step:
  assumes "\<And>rq vs v. fuelled (rec rq vs v)"
  shows "fuelled (parameter_step env rec rq ps nodeValues fixed i st)"
proof -
  have "fuelled (collection_parameter rq rec fixed p v st)" for p v
    unfolding collection_parameter_def Let_def using assms by (auto split: option.split)
  moreover have "fuelled (many_items_value rec child p k x)" for child p k x
    unfolding many_items_value_def using assms by (auto split: option.split)
  then have "fuelled (many_items rec child p pv k acc)" for child p pv k acc
    unfolding many_items_def by (auto split: pvalue.split intro!: fuelled_bindE fuelled_mapE)
  moreover have "fuelled (one_item env rq rec child p v pv k acc)" for child p v pv k acc
    unfolding one_item_def one_item_values_def using assms by (auto split: option.split)
  ultimately show ?thesis
    unfolding parameter_step_def fixed_collection_parameter_def Let_def by auto
qed

lemma fuelled_pass:
  assumes "\<And>rq vs v. fuelled (rec rq vs v)"
  shows "fuelled (parameters_pass env rec rq ps nodeValues fixed)"
proof -
  have "fuelled (parameter_loop (parameter_step env rec rq ps nodeValues fixed) order st)" for order st
  proof (induction order arbitrary: st)
    case (Cons i order)
    with fuelled_step [where rec = rec, OF assms, of env rq ps nodeValues fixed i st] show ?case
      by (auto split: parameter_flow.split)
  qed simp
  then show ?thesis unfolding parameters_pass_def using fuelled_order by auto
qed

text \<open>A call that never runs out of fuel, and is the same where the given one does not.\<close>

definition never_out :: "parameter_call \<Rightarrow> parameter_call" where
  "never_out rec rq vs v = (if fuelled (rec rq vs v) then rec rq vs v else Inl NotAnObject)"

lemma fuelled_pass_below:
  assumes "\<And>p rq vs v. p \<in> set ps \<Longrightarrow> properties_below p vs \<Longrightarrow> fuelled (rec rq vs v)"
  shows "fuelled (parameters_pass env rec rq ps nodeValues fixed)"
proof -
  have "same_below rec (never_out rec) p" if "p \<in> set ps" for p
    using assms [OF that] by (simp add: same_below_def never_out_def)
  from parameters_pass_cong [OF this]
  have "parameters_pass env rec rq ps nodeValues fixed = parameters_pass env (never_out rec) rq ps nodeValues fixed"
    by simp
  moreover have "fuelled (parameters_pass env (never_out rec) rq ps nodeValues fixed)"
    by (rule fuelled_pass) (simp add: never_out_def)
  ultimately show ?thesis by simp
qed

lemma fuelled_level: "properties_depth ps < f \<Longrightarrow> fuelled (parameters_of_level f env rq ps nodeValues)"
proof (induction f arbitrary: ps rq nodeValues)
  case (Suc f)
  have "fuelled (parameters_of_level f env rq' vs v)"
    if "p \<in> set ps" "properties_below p vs" for p rq' vs v
    using properties_below_depth [OF that(2)] properties_depth_in [OF that(1)] Suc.prems
    by (intro Suc.IH) simp
  then have "fuelled (parameters_pass env (parameters_of_level f env) rq' ps nodeValues fixed)" for rq' fixed
    by (rule fuelled_pass_below)
  then show ?case by auto
qed simp

end
