(* ===== verification/Parameter_Facts.thy ===== *)
theory Parameter_Facts
  imports Parameter_Order
begin

text \<open>
  What \<^verbatim>\<open>getNodeParameters\<close> returns: the rule of its loop, the keys of its result, the closed
  form for properties without lower levels, and the properties of the component.
\<close>

section \<open>The loop over the parameters\<close>

lemma parameter_loop_rule:
  assumes "parameter_loop step order st = Inr r" "P st"
    and "\<And>i st st'. i \<in> set order \<Longrightarrow> P st \<Longrightarrow> step i st = Inr (NextParameter st') \<Longrightarrow> P st'"
  shows "(\<exists>st'. P st' \<and> r = PObj (ps_out st')) \<or>
    (\<exists>i st'. i \<in> set order \<and> P st' \<and> step i st' = Inr (ReturnParameters r))"
  using assms
proof (induction order arbitrary: st)
  case (Cons i order)
  from Cons.prems(1) obtain flow where flow: "step i st = Inr flow"
    "(case flow of NextParameter st1 \<Rightarrow> parameter_loop step order st1 | ReturnParameters v \<Rightarrow> Inr v) = Inr r"
    by (auto simp: bindE_Inr_iff)
  show ?case
  proof (cases flow)
    case (NextParameter st1)
    with flow have "parameter_loop step order st1 = Inr r" by simp
    moreover have "P st1" using Cons.prems(3) [of i st st1] Cons.prems(2) flow NextParameter by simp
    ultimately have "(\<exists>st'. P st' \<and> r = PObj (ps_out st')) \<or>
        (\<exists>i st'. i \<in> set order \<and> P st' \<and> step i st' = Inr (ReturnParameters r))"
      by (rule Cons.IH) (blast intro: Cons.prems(3) list.set_intros(2))
    then show ?thesis by auto
  next
    case (ReturnParameters v)
    with flow Cons.prems(2) show ?thesis by auto
  qed
next
  case Nil
  then show ?case by auto
qed

text \<open>The only way to leave the loop early is to return the values as they came.\<close>

lemma fixed_collection_returns:
  "fixed_collection_parameter env rq rec fixed p nodeValues v st = Inr (ReturnParameters r) \<Longrightarrow>
     r = nodeValues \<and> np_multiple p = Some False"
  by (auto simp: fixed_collection_parameter_def Let_def bindE_Inr_iff split: if_splits prod.splits)

lemma parameter_step_returns:
  "parameter_step env rec rq ps nodeValues fixed i st = Inr (ReturnParameters r) \<Longrightarrow>
     r = nodeValues \<and> np_type (ps ! i) = ''fixedCollection'' \<and> np_multiple (ps ! i) = Some False"
  by (auto simp: parameter_step_def Let_def bindE_Inr_iff dest: fixed_collection_returns split: if_splits)

text \<open>Keys of the result.\<close>

definition out_keys :: "parameter_state \<Rightarrow> string set" where
  "out_keys st = fst ` set (ps_out st)"

lemma out_keys_full [simp]: "out_keys (st\<lparr>ps_full := m\<rparr>) = out_keys st"
  by (simp add: out_keys_def)

lemma obj_set_keys: "fst ` set (obj_set k v m) = insert k (fst ` set m)"
  using obj_keys_set [of k v m] by simp

lemma put_keys [simp]:
  "out_keys (put_out k v st) = insert k (out_keys st)"
  "out_keys (put_both k v st) = insert k (out_keys st)"
  by (simp_all add: out_keys_def put_out_def put_both_def obj_set_keys)

lemma strip_expression_keys [simp]: "out_keys (strip_expression p st) = out_keys st"
proof (cases "strip_expression p st = st")
  case False
  then obtain v s where get: "obj_get (ps_out st) (np_name p) = Some v"
    and put: "strip_expression p st = put_both (np_name p) s st"
    by (auto simp: strip_expression_def split: option.splits pvalue.splits if_splits)
  have "np_name p \<in> out_keys st" unfolding out_keys_def using get by (rule obj_get_key)
  then show ?thesis by (auto simp: put)
qed simp

lemma parameter_step_keys:
  assumes "parameter_step env rec rq ps nodeValues fixed i st = Inr (NextParameter st')"
  shows "out_keys st' \<subseteq> out_keys st \<union>
    (if pr_hidden rq \<or> is_displayed env rq fixed (ps ! i) st then {np_name (ps ! i)} else {})"
proof -
  have "out_keys (simple_parameter env rq dups fixed p v st) \<subseteq> insert (np_name p) (out_keys st)" for dups p v
    by (auto simp: simple_parameter_def)
  moreover have "out_keys st' \<subseteq> insert (np_name p) (out_keys st)"
    if "collection_parameter rq rec fixed p v st = Inr st'" for p v
    using that by (auto simp: collection_parameter_def Let_def bindE_Inr_iff split: if_splits option.splits)
  moreover have "out_keys st' \<subseteq> insert (np_name p) (out_keys st)"
    if "fixed_collection_parameter env rq rec fixed p nodeValues v st = Inr (NextParameter st')" for p v
    using that by (auto simp: fixed_collection_parameter_def Let_def bindE_Inr_iff split: if_splits prod.splits)
  ultimately show ?thesis using assms
    by (auto simp: parameter_step_def Let_def bindE_Inr_iff split: if_splits)
qed

text \<open>Is a property displayed, given the values that are checked?\<close>

definition shown :: "parameter_env \<Rightarrow> parameter_request \<Rightarrow> pvalue \<Rightarrow> node_property \<Rightarrow> bool" where
  "shown env rq chk p = displayParameter env chk (np_display p)
     (Some (case pr_root rq of Some r \<Rightarrow> if pv_truthy r then r else chk | None \<Rightarrow> chk))"

lemma is_displayed_fixed [simp]: "is_displayed env rq (Some chk) p st = shown env rq chk p"
  by (simp add: is_displayed_def shown_def root_values_def check_values_def split: option.split)

lemma getNodeParameters_passes:
  assumes "\<not> pr_resolved rq" "\<not> pr_hidden rq" "getNodeParameters env rq ps vals = Inr r"
  obtains chk where "getNodeParameters env (display_request rq) ps vals = Inr chk"
    "parameters_pass env (parameters_of_level (properties_depth ps) env) rq ps vals (Some chk) = Inr r"
  using assms by (auto simp: getNodeParameters_def bindE_Inr_iff display_request_def)

lemma hidden_stay_out:
  assumes "\<not> pr_resolved rq" "\<not> pr_hidden rq" "getNodeParameters env rq ps vals = Inr r"
  shows "\<exists>chk. getNodeParameters env (display_request rq) ps vals = Inr chk \<and>
     (r = vals \<and> (\<exists>p \<in> set ps. np_type p = ''fixedCollection'' \<and> np_multiple p = Some False) \<or>
      (\<exists>m. r = PObj m \<and> (\<forall>k \<in> fst ` set m. \<exists>p \<in> set ps. np_name p = k \<and> shown env rq chk p)))"
proof -
  obtain chk where chk: "getNodeParameters env (display_request rq) ps vals = Inr chk"
    and pass: "parameters_pass env (parameters_of_level (properties_depth ps) env) rq ps vals (Some chk) = Inr r"
    using assms by (rule getNodeParameters_passes)
  let ?step = "parameter_step env (parameters_of_level (properties_depth ps) env) rq ps vals (Some chk)"
  let ?P = "\<lambda>st. \<forall>k \<in> out_keys st. \<exists>p \<in> set ps. np_name p = k \<and> shown env rq chk p"
  from pass obtain order where order: "getParameterResolveOrder ps (getParameterDependencies ps) = Inr order"
    and loop: "parameter_loop ?step order \<lparr>ps_out = [], ps_full = []\<rparr> = Inr r"
    by (auto simp: parameters_pass_def bindE_Inr_iff)
  from order have idx: "set order = {..<length ps}" by (rule resolve_order_ok)
  have "(\<exists>st'. ?P st' \<and> r = PObj (ps_out st')) \<or>
    (\<exists>i st'. i \<in> set order \<and> ?P st' \<and> ?step i st' = Inr (ReturnParameters r))"
  proof (rule parameter_loop_rule [OF loop])
    fix i st st'
    assume i: "i \<in> set order" and P: "?P st" and next_st: "?step i st = Inr (NextParameter st')"
    show "?P st'"
    proof
      fix k assume "k \<in> out_keys st'"
      then have "k \<in> out_keys st \<or> (shown env rq chk (ps ! i) \<and> k = np_name (ps ! i))"
        using parameter_step_keys [OF next_st] assms(2) by (auto split: if_splits)
      then show "\<exists>p \<in> set ps. np_name p = k \<and> shown env rq chk p"
        using P i idx by auto
    qed
  qed (simp add: out_keys_def)
  then show ?thesis unfolding out_keys_def
    using chk idx by (fastforce dest: parameter_step_returns)
qed

section \<open>An empty fixed collection\<close>

lemma empty_fixed_collection_step:
  assumes "\<not> pr_defaults rq" "\<not> pr_onlySimple rq" "np_type (ps ! i) = ''fixedCollection''"
    "np_multiple (ps ! i) = Some False" "np_display (ps ! i) = None"
    "read_prop vals (np_name (ps ! i)) = PObj []" "pv_truthy vals"
  shows "parameter_step env rec rq ps vals fixed i st = Inr (ReturnParameters vals)"
  using assms
  by (simp add: parameter_step_def fixed_collection_parameter_def is_displayed_def displayParameter_def)

lemma parameter_loop_returns:
  assumes "parameter_loop step order st = Inr r" "i \<in> set order"
    "\<And>st. step i st = Inr (ReturnParameters vals)"
    "\<And>j st v. step j st = Inr (ReturnParameters v) \<Longrightarrow> v = vals"
  shows "r = vals"
  using assms(1,2)
proof (induction order arbitrary: st)
  case (Cons j order)
  from Cons.prems(1) obtain flow where "step j st = Inr flow"
    "(case flow of NextParameter st1 \<Rightarrow> parameter_loop step order st1 | ReturnParameters v \<Rightarrow> Inr v) = Inr r"
    by (auto simp: bindE_Inr_iff)
  then show ?case using Cons assms(3,4) by (cases flow) auto
qed simp

lemma empty_collection_pass:
  assumes p: "p \<in> set ps" "np_type p = ''fixedCollection''" "np_multiple p = Some False" "np_display p = None"
    "read_prop vals (np_name p) = PObj []" and vals: "pv_truthy vals"
    and rq: "\<not> pr_defaults rq" "\<not> pr_onlySimple rq"
    and pass: "parameters_pass env rec rq ps vals fixed = Inr r"
  shows "r = vals"
proof -
  obtain i where i: "i < length ps" "ps ! i = p" using p(1) by (auto simp: in_set_conv_nth)
  from pass obtain order where order: "getParameterResolveOrder ps (getParameterDependencies ps) = Inr order"
    and loop: "parameter_loop (parameter_step env rec rq ps vals fixed) order \<lparr>ps_out = [], ps_full = []\<rparr> = Inr r"
    by (auto simp: parameters_pass_def bindE_Inr_iff)
  from order have "i \<in> set order" using resolve_order_ok(2) i by blast
  with loop show ?thesis
    by (rule parameter_loop_returns)
      (use empty_fixed_collection_step [OF rq, of ps i vals] p i vals parameter_step_returns in auto)
qed


section \<open>Parameters without lower levels\<close>

lemma obj_set_present: "obj_get m k = Some v \<Longrightarrow> obj_set k v m = m"
  by (induction m) auto

lemma obj_set_overwrites [simp]: "obj_set k w (obj_set k v m) = obj_set k w m"
  by (induction m) auto

lemma obj_set_new: "k \<notin> fst ` set m \<Longrightarrow> obj_set k v m = m @ [(k, v)]"
  by (induction m) auto

text \<open>A loop that handles \<open>0, \<dots>, n - 1\<close> in order and then some of them again, where handling
  an index writes its value under its name or does nothing.\<close>

definition written :: "nat list \<Rightarrow> (nat \<Rightarrow> bool) \<Rightarrow> (nat \<Rightarrow> string) \<Rightarrow> (nat \<Rightarrow> pvalue) \<Rightarrow> (string, pvalue) obj" where
  "written is P name val = map (\<lambda>i. (name i, val i)) (filter P is)"

definition write_step :: "nat \<Rightarrow> (nat \<Rightarrow> bool) \<Rightarrow> (nat \<Rightarrow> string) \<Rightarrow> (nat \<Rightarrow> pvalue)
    \<Rightarrow> (nat \<Rightarrow> parameter_state \<Rightarrow> parameter_error + parameter_flow) \<Rightarrow> bool" where
  "write_step n P name val step \<longleftrightarrow> (\<forall>i st. i < n \<longrightarrow> (P i \<or> name i \<notin> out_keys st) \<longrightarrow>
     (\<exists>st'. step i st = Inr (NextParameter st') \<and>
        ps_out st' = (if P i then obj_set (name i) (val i) (ps_out st) else ps_out st)))"

lemma written_keys: "fst ` set (written is P name val) = name ` {i \<in> set is. P i}"
  by (auto simp: written_def image_iff)

lemma written_get:
  assumes "inj_on name (set is)" "i \<in> set is"
  shows "obj_get (written is P name val) (name i) = (if P i then Some (val i) else None)"
proof (cases "P i")
  case True
  with assms show ?thesis by (induction "is") (auto simp: written_def inj_on_def)
next
  case False
  then have "name i \<notin> fst ` set (written is P name val)"
    using assms by (auto simp: written_keys inj_on_def)
  with False show ?thesis by (simp add: map_of_eq_None_iff)
qed

lemma write_again:
  assumes "write_step n P name val step" "inj_on name {..<n}" "set again \<subseteq> {..<n}"
    "ps_out st = written [0..<n] P name val"
  shows "parameter_loop step again st = Inr (PObj (written [0..<n] P name val))"
  using assms(3,4)
proof (induction again arbitrary: st)
  case (Cons i again)
  then have i: "i < n" by simp
  have inj: "inj_on name (set [0..<n])" using assms(2) by (simp add: atLeast0LessThan)
  have get: "obj_get (ps_out st) (name i) = (if P i then Some (val i) else None)"
    using written_get [OF inj, of i] i Cons.prems(2) by simp
  then have "P i \<or> name i \<notin> out_keys st"
    by (auto simp: out_keys_def split: if_splits) (metis map_of_eq_None_iff image_eqI fst_conv option.distinct(1))
  with assms(1) i obtain st' where "step i st = Inr (NextParameter st')"
    "ps_out st' = (if P i then obj_set (name i) (val i) (ps_out st) else ps_out st)"
    unfolding write_step_def by blast
  moreover from this(2) have "ps_out st' = ps_out st" using get by (auto simp: obj_set_present)
  ultimately show ?case using Cons by simp
qed simp

lemma write_loop:
  assumes step: "write_step n P name val step" and inj: "inj_on name {..<n}" and again: "set again \<subseteq> {..<n}"
    and "k \<le> n" "ps_out st = written [0..<k] P name val"
  shows "parameter_loop step ([k..<n] @ again) st = Inr (PObj (written [0..<n] P name val))"
  using assms(4,5)
proof (induction "n - k" arbitrary: k st)
  case 0
  then show ?case using write_again [OF step inj again] by simp
next
  case (Suc d)
  then have k: "k < n" by simp
  have "name k \<noteq> name i" if "i < k" for i
    using inj_onD [OF inj, of k i] that k by auto
  then have new: "name k \<notin> out_keys st"
    unfolding out_keys_def Suc.prems(2) written_keys by auto
  with step k obtain st' where st': "step k st = Inr (NextParameter st')"
    "ps_out st' = (if P k then obj_set (name k) (val k) (ps_out st) else ps_out st)"
    unfolding write_step_def by blast
  then have "ps_out st' = written [0..<Suc k] P name val"
    using new Suc.prems(2) by (auto simp: out_keys_def obj_set_new written_def)
  then have "parameter_loop step ([Suc k..<n] @ again) st' = Inr (PObj (written [0..<n] P name val))"
    using Suc k by (intro Suc.hyps(1)) auto
  then show ?case using st'(1) k by (simp add: upt_conv_Cons)
qed

lemma written_nth: "written [0..<length ps] (\<lambda>i. P (ps ! i)) (\<lambda>i. f (ps ! i)) (\<lambda>i. g (ps ! i))
    = map (\<lambda>p. (f p, g p)) (filter P ps)"
proof -
  have "filter P (map ((!) ps) [0..<length ps]) = map ((!) ps) (filter (P \<circ> (!) ps) [0..<length ps])"
    by (rule filter_map)
  then show ?thesis by (simp add: written_def map_nth o_def)
qed

text \<open>The pass over properties with different names that have no lower levels.\<close>

lemma parameters_pass_writes:
  assumes order: "getParameterResolveOrder ps (getParameterDependencies ps) = Inr order"
    and names: "distinct (map np_name ps)"
    and step: "\<And>p st. p \<in> set ps \<Longrightarrow> P p \<or> np_name p \<notin> out_keys st \<Longrightarrow> \<exists>st'.
      (\<forall>i. ps ! i = p \<longrightarrow> parameter_step env rec rq ps vals fixed i st = Inr (NextParameter st')) \<and>
      ps_out st' = (if P p then obj_set (np_name p) (val p) (ps_out st) else ps_out st)"
  shows "parameters_pass env rec rq ps vals fixed = Inr (PObj (map (\<lambda>p. (np_name p, val p)) (filter P ps)))"
proof -
  let ?n = "length ps"
  have inj: "inj_on (\<lambda>i. np_name (ps ! i)) {..<?n}"
    using names by (auto simp: inj_on_def distinct_conv_nth)
  have "write_step ?n (\<lambda>i. P (ps ! i)) (\<lambda>i. np_name (ps ! i)) (\<lambda>i. val (ps ! i))
      (parameter_step env rec rq ps vals fixed)"
    unfolding write_step_def
  proof (intro allI impI)
    fix i st
    assume "i < ?n" "P (ps ! i) \<or> np_name (ps ! i) \<notin> out_keys st"
    with step [of "ps ! i" st] show "\<exists>st'. parameter_step env rec rq ps vals fixed i st = Inr (NextParameter st') \<and>
        ps_out st' = (if P (ps ! i) then obj_set (np_name (ps ! i)) (val (ps ! i)) (ps_out st) else ps_out st)"
      by auto
  qed
  note loop = write_loop [OF this inj]
  have "order = [0..<?n] @ drop ?n order" "set (drop ?n order) \<subseteq> {..<?n}"
    using append_take_drop_id [of ?n order] resolve_order_ok(1) [OF order]
      resolve_order_ok(2) [OF order] set_drop_subset [of ?n order] by auto
  with loop [of "drop ?n order" 0 "\<lparr>ps_out = [], ps_full = []\<rparr>"]
  have "parameter_loop (parameter_step env rec rq ps vals fixed) order \<lparr>ps_out = [], ps_full = []\<rparr> =
      Inr (PObj (map (\<lambda>p. (np_name p, val p)) (filter P ps)))"
    by (simp add: written_nth [symmetric]) (simp add: written_def)
  then show ?thesis by (simp add: parameters_pass_def order)
qed


definition no_lower_level :: "node_property \<Rightarrow> bool" where
  "no_lower_level p \<longleftrightarrow> np_type p \<notin> {''collection'', ''fixedCollection''}"

text \<open>The value a property gets when defaults are returned.\<close>

definition filled :: "node_property \<Rightarrow> pvalue \<Rightarrow> pvalue" where
  "filled p v =
     (case value_or_default p v of
        PStr s \<Rightarrow> PStr (if np_noExpression p \<and> isExpression (PStr s) then tl s else s)
      | w \<Rightarrow> w)"

lemma duplicates_loop_distinct:
  "distinct ns \<Longrightarrow> set ns \<inter> set seen = {} \<Longrightarrow> duplicates_loop seen dups ns = dups"
  by (induction ns arbitrary: seen) auto

lemma no_duplicates: "distinct (map np_name ps) \<Longrightarrow> duplicateParameterNames ps = []"
  by (simp add: duplicateParameterNames_def duplicates_loop_distinct)

lemma ps_out_put [simp]:
  "ps_out (put_both k v st) = obj_set k v (ps_out st)" "ps_out (put_out k v st) = obj_set k v (ps_out st)"
  by (simp_all add: put_both_def put_out_def)

lemma ps_out_filled:
  "ps_out (strip_expression p (put_both (np_name p) (value_or_default p v) st)) =
     obj_set (np_name p) (filled p v) (ps_out st)"
  by (auto simp: strip_expression_def filled_def split: pvalue.split)

lemma strip_expression_absent: "np_name p \<notin> out_keys st \<Longrightarrow> strip_expression p st = st"
  by (simp add: strip_expression_def out_keys_def map_of_eq_None_iff [symmetric] del: map_of_eq_None_iff)

lemma defaults_pass:
  assumes order: "getParameterResolveOrder ps (getParameterDependencies ps) = Inr order"
    and names: "distinct (map np_name ps)" and flat: "\<And>p. p \<in> set ps \<Longrightarrow> no_lower_level p"
    and rq: "pr_defaults rq" "pr_parent rq \<noteq> ''collection''" and vals: "pv_truthy vals"
    and fixed: "pr_hidden rq \<or> fixed = Some chk"
  shows "parameters_pass env rec rq ps vals fixed =
    Inr (PObj (map (\<lambda>p. (np_name p, filled p (read_prop vals (np_name p))))
      (filter (\<lambda>p. pr_hidden rq \<or> shown env rq chk p) ps)))"
proof (rule parameters_pass_writes [OF order names], goal_cases)
  case (1 p st)
  have dup: "simple_parameter env rq (duplicateParameterNames ps) fixed q v st =
      strip_expression q (put_both (np_name q) (value_or_default q v) st)" for q v fixed
    by (simp add: no_duplicates [OF names] simple_parameter_def rq)
  let ?st' = "if pr_hidden rq \<or> shown env rq chk p
      then strip_expression p (put_both (np_name p) (value_or_default p (read_prop vals (np_name p))) st)
      else st"
  have "parameter_step env rec rq ps vals fixed i st = Inr (NextParameter ?st')" if "ps ! i = p" for i
    using rq vals fixed flat [OF 1(1)] that by (auto simp: parameter_step_def dup no_lower_level_def)
  moreover have "ps_out ?st' = (if pr_hidden rq \<or> shown env rq chk p
      then obj_set (np_name p) (filled p (read_prop vals (np_name p))) (ps_out st) else ps_out st)"
    by (simp add: ps_out_filled)
  ultimately show ?case by blast
qed

definition kept :: "parameter_env \<Rightarrow> parameter_request \<Rightarrow> node_property \<Rightarrow> pvalue \<Rightarrow> bool" where
  "kept env rq p v \<longleftrightarrow> v \<noteq> PUndef \<and> differs_from_default env (pr_parent rq) p v"

lemma stripped_pass:
  assumes order: "getParameterResolveOrder ps (getParameterDependencies ps) = Inr order"
    and names: "distinct (map np_name ps)" and flat: "\<And>p. p \<in> set ps \<Longrightarrow> no_lower_level p"
    and rq: "\<not> pr_defaults rq" and vals: "pv_truthy vals"
    and fixed: "pr_hidden rq \<or> fixed = Some chk"
  shows "parameters_pass env rec rq ps vals fixed =
    Inr (PObj (map (\<lambda>p. (np_name p, read_prop vals (np_name p)))
      (filter (\<lambda>p. (pr_hidden rq \<or> shown env rq chk p) \<and> kept env rq p (read_prop vals (np_name p))) ps)))"
proof (rule parameters_pass_writes [OF order names], goal_cases)
  case (1 p st)
  let ?v = "read_prop vals (np_name p)"
  let ?P = "(pr_hidden rq \<or> shown env rq chk p) \<and> kept env rq p ?v"
  let ?st' = "if ?P then put_both (np_name p) ?v st else st"
  have simple: "simple_parameter env rq (duplicateParameterNames ps) fixed q v st =
      (if differs_from_default env (pr_parent rq) q v then put_both (np_name q) v st
       else strip_expression q st)" for q v fixed
    by (simp add: no_duplicates [OF names] simple_parameter_def rq)
  have "strip_expression p st = st" if "\<not> ?P"
    using 1(2) that by (intro strip_expression_absent) blast
  then have "parameter_step env rec rq ps vals fixed i st = Inr (NextParameter ?st')" if "ps ! i = p" for i
    using rq vals fixed flat [OF 1(1)] that
    by (auto simp: parameter_step_def simple no_lower_level_def kept_def Let_def)
  moreover have "ps_out ?st' = (if ?P then obj_set (np_name p) ?v (ps_out st) else ps_out st)"
    by simp
  ultimately show ?case by blast
qed

text \<open>What the check of the display conditions sees of such properties.\<close>

lemma display_values:
  assumes "getParameterResolveOrder ps (getParameterDependencies ps) = Inr order"
    "distinct (map np_name ps)" "\<And>p. p \<in> set ps \<Longrightarrow> no_lower_level p" "pr_parent rq \<noteq> ''collection''"
    "pv_truthy vals"
  shows "getNodeParameters env (display_request rq) ps vals =
    Inr (PObj (map (\<lambda>p. (np_name p, filled p (read_prop vals (np_name p)))) ps))"
  using defaults_pass [OF assms(1-3), of "display_request rq"] assms(4,5)
  by (simp add: getNodeParameters_def display_request_def)

lemma shown_defaults [simp]: "shown env (rq\<lparr>pr_defaults := b\<rparr>) chk p = shown env rq chk p"
  by (simp add: shown_def)

lemma display_request_defaults [simp]: "display_request (rq\<lparr>pr_defaults := b\<rparr>) = display_request rq"
  by (simp add: display_request_def)

lemma getNodeParameters_flat:
  assumes "getParameterResolveOrder ps (getParameterDependencies ps) = Inr order"
    "distinct (map np_name ps)" "\<And>p. p \<in> set ps \<Longrightarrow> no_lower_level p" "pr_parent rq \<noteq> ''collection''"
    "pv_truthy vals" "\<not> pr_hidden rq" "\<not> pr_resolved rq"
  defines "chk \<equiv> PObj (map (\<lambda>p. (np_name p, filled p (read_prop vals (np_name p)))) ps)"
  shows "getNodeParameters env rq ps vals =
    Inr (PObj (if pr_defaults rq
      then map (\<lambda>p. (np_name p, filled p (read_prop vals (np_name p)))) (filter (shown env rq chk) ps)
      else map (\<lambda>p. (np_name p, read_prop vals (np_name p)))
        (filter (\<lambda>p. shown env rq chk p \<and> kept env rq p (read_prop vals (np_name p))) ps)))"
proof -
  have "getNodeParameters env (display_request rq) ps vals = Inr chk"
    using assms(1-5) by (simp add: display_values chk_def)
  then have "getNodeParameters env rq ps vals =
      parameters_pass env (parameters_of_level (properties_depth ps) env) rq ps vals (Some chk)"
    using assms(6,7) by (simp add: getNodeParameters_def display_request_def)
  then show ?thesis
    using defaults_pass [OF assms(1-3), of rq vals "Some chk" chk] assms(4-6)
      stripped_pass [OF assms(1-3), of rq vals "Some chk" chk] by simp
qed

lemma obj_get_filter_map:
  assumes "distinct (map f xs)" "x \<in> set xs"
  shows "obj_get (map (\<lambda>x. (f x, g x)) (filter P xs)) (f x) = (if P x then Some (g x) else None)"
proof (cases "P x")
  case True
  have "distinct (map f (filter P xs))" using assms(1) by (rule distinct_map_filter)
  then have "distinct (map fst (map (\<lambda>x. (f x, g x)) (filter P xs)))" by (simp add: o_def)
  then show ?thesis using True assms(2) by (simp add: map_of_is_SomeI)
next
  case False
  then have "f x \<notin> f ` {y \<in> set xs. P y}"
    using assms by (auto simp: distinct_map inj_on_def)
  with False show ?thesis by (auto simp: map_of_eq_None_iff)
qed

lemma filled_not_kept:
  assumes "np_type p \<notin> {''filter'', ''resourceLocator''}" "\<not> kept env rq p v"
    "is_object v \<Longrightarrow> pe_isEqual env v (np_default p) \<Longrightarrow> v = np_default p"
  shows "filled p v = filled p PUndef"
proof -
  have "v = PUndef \<or> v = np_default p"
    using assms(2,3) by (cases v) (auto simp: kept_def differs_from_default_def)
  then show ?thesis using assms(1) by (auto simp: filled_def value_or_default_def)
qed

lemma strip_then_fill:
  assumes order: "getParameterResolveOrder ps (getParameterDependencies ps) = Inr order"
    and names: "distinct (map np_name ps)"
    and plain: "\<And>p. p \<in> set ps \<Longrightarrow> no_lower_level p \<and> np_type p \<notin> {''filter'', ''resourceLocator''}"
    and rq: "pr_parent rq \<noteq> ''collection''" "\<not> pr_hidden rq" "\<not> pr_resolved rq" and vals: "pv_truthy vals"
    and eq: "\<And>p. p \<in> set ps \<Longrightarrow> pe_isEqual env (read_prop vals (np_name p)) (np_default p) \<Longrightarrow>
      read_prop vals (np_name p) = np_default p"
    and chk: "getNodeParameters env (display_request rq) ps vals = Inr chk"
    and hidden: "\<And>p. p \<in> set ps \<Longrightarrow> \<not> shown env rq chk p \<Longrightarrow> \<not> kept env rq p (read_prop vals (np_name p))"
    and strip: "getNodeParameters env (rq\<lparr>pr_defaults := False\<rparr>) ps vals = Inr s"
  shows "getNodeParameters env (rq\<lparr>pr_defaults := True\<rparr>) ps s =
    getNodeParameters env (rq\<lparr>pr_defaults := True\<rparr>) ps vals"
proof -
  have flat: "\<And>p. p \<in> set ps \<Longrightarrow> no_lower_level p" using plain by blast
  note closed = getNodeParameters_flat [OF order names flat, where env = env]
  have chk_eq: "chk = PObj (map (\<lambda>p. (np_name p, filled p (read_prop vals (np_name p)))) ps)"
    using chk display_values [OF order names flat rq(1) vals] by simp
  have s: "s = PObj (map (\<lambda>p. (np_name p, read_prop vals (np_name p)))
      (filter (\<lambda>p. shown env rq chk p \<and> kept env rq p (read_prop vals (np_name p))) ps))"
    using strip closed [of "rq\<lparr>pr_defaults := False\<rparr>" vals] rq vals
    by (simp add: chk_eq kept_def)
  have same: "filled p (read_prop s (np_name p)) = filled p (read_prop vals (np_name p))" if p: "p \<in> set ps" for p
  proof -
    have get: "read_prop s (np_name p) =
        (if shown env rq chk p \<and> kept env rq p (read_prop vals (np_name p))
         then read_prop vals (np_name p) else PUndef)"
      using obj_get_filter_map [OF names p, of "\<lambda>p. read_prop vals (np_name p)"
          "\<lambda>p. shown env rq chk p \<and> kept env rq p (read_prop vals (np_name p))"]
      by (simp add: s or_undefined_def)
    show ?thesis
    proof (cases "kept env rq p (read_prop vals (np_name p))")
      case True
      then show ?thesis using hidden [OF p] by (auto simp: get)
    next
      case False
      then show ?thesis using filled_not_kept [OF _ False] plain [OF p] eq [OF p] by (simp add: get)
    qed
  qed
  then have map_eq: "map (\<lambda>p. (np_name p, filled p (read_prop s (np_name p)))) qs =
      map (\<lambda>p. (np_name p, filled p (read_prop vals (np_name p)))) qs" if "set qs \<subseteq> set ps" for qs
    using that by (intro map_cong) auto
  have "pv_truthy s" by (simp add: s)
  then show ?thesis using closed [of "rq\<lparr>pr_defaults := True\<rparr>" s] closed [of "rq\<lparr>pr_defaults := True\<rparr>" vals] rq vals
    by (simp add: map_eq)
qed

section \<open>The properties\<close>

text \<open>C20. The order begins with all the properties as they are declared, whatever they depend on;
  those that came before something they depend on come again, and the last time every property comes
  after all it depends on. The loop returns if every name in a display rule exists and no property
  depends on itself; cycles are no obstacle.\<close>

theorem resolve_order_spec:
  assumes "\<And>p d. p \<in> set ps \<Longrightarrow> depends_on ps (np_name p) d \<Longrightarrow>
      d \<in> np_name ` set ps - {np_name p} \<or> starts_with (CHR ''/'') d"
  shows "\<exists>order. getParameterResolveOrder ps (getParameterDependencies ps) = Inr order \<and>
     take (length ps) order = [0..<length ps] \<and> set order = {..<length ps} \<and>
     (\<forall>i < length ps. \<exists>before after. order = before @ i # after \<and> i \<notin> set after \<and>
        (\<forall>d. depends_on ps (np_name (ps ! i)) d \<longrightarrow>
           starts_with (CHR ''/'') d \<or> (\<exists>j \<in> set before. np_name (ps ! j) = d)))"
proof -
  obtain order where order: "getParameterResolveOrder ps (getParameterDependencies ps) = Inr order"
    using resolve_order_exists [OF assms] by blast
  note ok = resolve_order_ok [OF order]
  have "\<exists>before after. order = before @ i # after \<and> i \<notin> set after \<and>
        (\<forall>d. depends_on ps (np_name (ps ! i)) d \<longrightarrow>
           starts_with (CHR ''/'') d \<or> (\<exists>j \<in> set before. np_name (ps ! j) = d))" if i: "i < length ps" for i
  proof -
    from ok(3) [OF i] obtain before after where split: "order = before @ i # after" "i \<notin> set after"
      and deps: "\<And>ds d. obj_get (getParameterDependencies ps) (np_name (ps ! i)) = Some ds \<Longrightarrow> d \<in> set ds \<Longrightarrow>
        starts_with (CHR ''/'') d \<or> d \<in> (!) (map np_name ps) ` set before"
      using i by (auto simp: last_after_def)
    have "set before \<subseteq> {..<length ps}" using ok(2) split(1) by auto
    moreover obtain ds where "obj_get (getParameterDependencies ps) (np_name (ps ! i)) = Some ds"
      "set ds = {d. depends_on ps (np_name (ps ! i)) d}"
      using i by (rule dependencies_nth)
    ultimately have "starts_with (CHR ''/'') d \<or> (\<exists>j \<in> set before. np_name (ps ! j) = d)"
      if "depends_on ps (np_name (ps ! i)) d" for d
      using deps [of ds d] that by fastforce
    with split show ?thesis by blast
  qed
  with order ok(1,2) show ?thesis by blast
qed

definition show_rule :: "string \<Rightarrow> condition list \<Rightarrow> display_options option" where
  "show_rule k cs = Some [(''show'', [(k, cs)])]"

definition sample_properties :: "node_property list" where
  "sample_properties =
     [NodeProperty ''operation'' ''options'' None (PStr ''get'') (show_rule ''resource'' [Is (PStr ''user'')])
        False None,
      NodeProperty ''resource'' ''options'' None (PStr ''user'') None False None,
      NodeProperty ''limit'' ''number'' None (PNum 50) (show_rule ''operation'' [Is (PStr ''getAll'')])
        False None]"

lemma resolve_order_spec_witness:
  "\<exists>order. getParameterResolveOrder sample_properties (getParameterDependencies sample_properties) = Inr order \<and>
     take (length sample_properties) order = [0..<length sample_properties]"
proof -
  have "d \<in> np_name ` set sample_properties - {np_name p} \<or> starts_with (CHR ''/'') d"
    if "p \<in> set sample_properties" "depends_on sample_properties (np_name p) d" for p d
    using that by (auto simp: sample_properties_def depends_on_def rule_keys_def show_rule_def)
  from resolve_order_spec [OF this] show ?thesis by blast
qed

text \<open>A display rule on a parameter that no property has makes the loop give up with the error
  that names the unresolved dependencies, and with it every call for these properties: it neither
  runs forever nor returns.\<close>

theorem missing_dependency_throws:
  assumes "p \<in> set ps" "depends_on ps (np_name p) d" "d \<notin> np_name ` set ps"
    "\<not> starts_with (CHR ''/'') d"
  shows "getParameterResolveOrder ps (getParameterDependencies ps) = Inl UnresolvedDependencies \<and>
    getNodeParameters env rq ps vals = Inl UnresolvedDependencies"
proof -
  have "getParameterResolveOrder ps (getParameterDependencies ps) = Inl UnresolvedDependencies"
    using assms by (rule missing_dependency_error)
  moreover from this have "parameters_pass env rec rq' ps vals fixed = Inl UnresolvedDependencies" for rec rq' fixed
    by (simp add: parameters_pass_def)
  ultimately show ?thesis by (simp add: getNodeParameters_def)
qed

definition orphan_properties :: "node_property list" where
  "orphan_properties = [NodeProperty ''limit'' ''number'' None (PNum 50) (show_rule ''all'' [Is (PBool False)])
     False None]"

lemma missing_dependency_throws_witness:
  "getParameterResolveOrder orphan_properties (getParameterDependencies orphan_properties)
     = Inl UnresolvedDependencies"
  by (rule missing_dependency_throws [THEN conjunct1, of "hd orphan_properties" _ "''all''"])
    (simp_all add: orphan_properties_def depends_on_def rule_keys_def show_rule_def starts_with_def)

text \<open>C23. Every call returns a value or throws one of the errors of the code: as many levels of calls as
  the properties are nested are enough, and more change nothing.\<close>

theorem getNodeParameters_terminates:
  "getNodeParameters env rq ps vals \<noteq> Inl ParametersOutOfFuel \<and>
   parameters_of_level (Suc (properties_depth ps) + k) env rq ps vals = getNodeParameters env rq ps vals"
  using fuelled_level [of ps "Suc (properties_depth ps)" env rq vals]
    parameters_of_level_enough [of ps "Suc (properties_depth ps) + k" env rq vals]
  by (simp add: getNodeParameters_def fuelled_def)

text \<open>C9. What a call returns when hidden parameters are left out is an object whose keys all belong to
  properties that are displayed, judged by the values with their defaults - unless some property is
  a fixed collection of one entry, where it may be the values as they came.\<close>

theorem hidden_not_returned:
  assumes "\<not> pr_resolved rq" "\<not> pr_hidden rq" "getNodeParameters env rq ps vals = Inr r"
  shows "\<exists>chk. getNodeParameters env (display_request rq) ps vals = Inr chk \<and>
     ((\<exists>m. r = PObj m \<and> (\<forall>k \<in> fst ` set m. \<exists>p \<in> set ps. np_name p = k \<and> shown env rq chk p)) \<or>
      (r = vals \<and> (\<exists>p \<in> set ps. np_type p = ''fixedCollection'' \<and> np_multiple p = Some False)))"
  using hidden_stay_out [OF assms] by blast

definition sample_env :: parameter_env where
  "sample_env = \<lparr>pe_version = Some 1, pe_description = None, pe_get = read_prop, pe_isEqual = (=),
     pe_regex = (\<lambda>_ _. False), pe_primitive = id, pe_numeral = (\<lambda>_. None)\<rparr>"

definition sample_request :: parameter_request where
  "sample_request = \<lparr>pr_defaults = False, pr_hidden = False, pr_onlySimple = False, pr_resolved = False,
     pr_root = None, pr_parent = []\<rparr>"

definition sample_values :: pvalue where
  "sample_values = PObj [(''resource'', PStr ''user''), (''operation'', PStr ''getAll''), (''limit'', PNum 50)]"


lemma hidden_not_returned_witness:
  "\<exists>chk. getNodeParameters sample_env (display_request sample_request) sample_properties sample_values = Inr chk \<and>
     ((\<exists>m. PObj [(''operation'', PStr ''getAll'')] = PObj m \<and>
        (\<forall>k \<in> fst ` set m. \<exists>p \<in> set sample_properties. np_name p = k \<and> shown sample_env sample_request chk p)) \<or>
      (PObj [(''operation'', PStr ''getAll'')] = sample_values \<and>
        (\<exists>p \<in> set sample_properties. np_type p = ''fixedCollection'' \<and> np_multiple p = Some False)))"
proof (rule hidden_not_returned)
  show "getNodeParameters sample_env sample_request sample_properties sample_values =
      Inr (PObj [(''operation'', PStr ''getAll'')])" by code_simp
qed (simp_all add: sample_request_def)



text \<open>A fixed collection of one entry whose value is the empty object ends the call: all the values
  are returned as they came, with their defaults and with hidden parameters, where only the empty
  object was to be kept.\<close>

theorem empty_collection_keeps_everything:
  assumes "p \<in> set ps" "np_type p = ''fixedCollection''" "np_multiple p = Some False" "np_display p = None"
    and "read_prop vals (np_name p) = PObj []" "pv_truthy vals"
    and "\<not> pr_defaults rq" "\<not> pr_onlySimple rq"
    and "getNodeParameters env rq ps vals = Inr r"
  shows "r = vals"
proof -
  note pass = empty_collection_pass [OF assms(1-8)]
  from assms(9) show ?thesis
    by (auto simp: getNodeParameters_def bindE_Inr_iff split: if_splits dest: pass)
qed

definition entry_property :: node_property where
  "entry_property = NodeProperty ''headers'' ''fixedCollection'' (Some False) (PObj []) None False
     (Some [CollectionOption ''values'' []])"

lemma empty_collection_keeps_everything_witness:
  "getNodeParameters sample_env sample_request (sample_properties @ [entry_property])
       (PObj [(''resource'', PStr ''user''), (''limit'', PNum 7), (''headers'', PObj [])]) =
     Inr (PObj [(''resource'', PStr ''user''), (''limit'', PNum 7), (''headers'', PObj [])])" (is "?call = _")
proof -
  have "\<not> isl ?call" by code_simp
  then obtain r where r: "?call = Inr r" by (cases ?call) auto
  have "r = PObj [(''resource'', PStr ''user''), (''limit'', PNum 7), (''headers'', PObj [])]"
    by (rule empty_collection_keeps_everything [where p = entry_property, OF _ _ _ _ _ _ _ _ r])
      (simp_all add: entry_property_def or_undefined_def sample_request_def)
  with r show ?thesis by simp
qed

section \<open>Other behaviours\<close>

text \<open>A fixed collection that is not repeated, with a default that is not empty and no value: adding the
  defaults reads the entry from the missing value, and throws.\<close>

lemma default_entry_step:
  assumes "pr_defaults rq" "pr_parent rq \<noteq> ''collection''" "\<not> pr_onlySimple rq" "pv_truthy vals"
    and "np_type (ps ! i) = ''fixedCollection''" "np_multiple (ps ! i) \<noteq> Some True" "np_display (ps ! i) = None"
    and "np_default (ps ! i) = PObj ((k, x) # m)" "np_options (ps ! i) = Some opts"
    and "find (\<lambda>opt. option_name opt = k) opts = Some opt" "read_prop vals (np_name (ps ! i)) = PUndef"
  shows "parameter_step env rec rq ps vals fixed i st = Inl NotAnObject"
  using assms
  by (simp add: parameter_step_def fixed_collection_parameter_def is_displayed_def displayParameter_def
      one_item_def one_item_values_def checked_read_def)

lemma parameter_loop_throws:
  assumes "i \<in> set order" "\<And>st. step i st = Inl e" "\<And>j st v. step j st \<noteq> Inr (ReturnParameters v)"
  shows "\<exists>e. parameter_loop step order st = Inl e"
  using assms(1)
proof (induction order arbitrary: st)
  case (Cons j order)
  show ?case
  proof (cases "step j st")
    case (Inr flow)
    then obtain st' where "flow = NextParameter st'" using assms(3) by (cases flow) auto
    then show ?thesis using Cons assms(2) Inr by (cases "j = i") auto
  qed simp
qed simp

lemma defaults_never_return:
  "pr_defaults rq \<Longrightarrow> parameter_step env rec rq ps vals fixed i st \<noteq> Inr (ReturnParameters v)"
  by (auto simp: parameter_step_def fixed_collection_parameter_def Let_def bindE_Inr_iff
      split: if_splits prod.splits)

lemma default_entry_throws:
  assumes "p \<in> set ps" "np_type p = ''fixedCollection''" "np_multiple p \<noteq> Some True" "np_display p = None"
    and "np_default p = PObj ((k, x) # m)" "np_options p = Some opts"
    and "find (\<lambda>opt. option_name opt = k) opts = Some opt"
    and "pr_defaults rq" "pr_parent rq \<noteq> ''collection''" "\<not> pr_onlySimple rq" "pv_truthy vals"
    and "read_prop vals (np_name p) = PUndef"
  shows "\<exists>e. getNodeParameters env rq ps vals = Inl e"
proof -
  obtain i where i: "i < length ps" "ps ! i = p" using assms(1) by (auto simp: in_set_conv_nth)
  have "\<exists>e. parameters_pass env rec rq ps vals fixed = Inl e" for rec fixed
  proof (cases "getParameterResolveOrder ps (getParameterDependencies ps)")
    case (Inr order)
    then have "i \<in> set order" using resolve_order_ok(2) i by blast
    then have "\<exists>e. parameter_loop (parameter_step env rec rq ps vals fixed) order st = Inl e" for st
      using default_entry_step [of rq vals ps i k x m opts opt env rec fixed] assms i(2)
        defaults_never_return by (intro parameter_loop_throws [of i _ _ NotAnObject]) auto
    with Inr show ?thesis by (simp add: parameters_pass_def)
  qed (simp add: parameters_pass_def)
  then show ?thesis
    by (cases "parameters_pass env (parameters_of_level (properties_depth ps) env) (display_request rq) ps vals None")
      (auto simp: getNodeParameters_def)
qed

text \<open>An expression in a value that a show rule reads displays the parameter at once: the
  remaining show rules and all hide rules are not looked at.\<close>

lemma expression_displays:
  assumes "obj_get d ''show'' = Some ((name, conditions) # rules)"
    "list_ex isExpression (getPropertyValues env vals name vals)"
  shows "displayParameter env vals (Some d) None"
  using assms by (simp add: displayParameter_def rules_of_def)

text \<open>The expression prefix of a property without expressions is kept when defaults are left out.\<close>

lemma expression_prefix_kept:
  assumes "\<not> pr_defaults rq" "np_name p \<notin> set dups" "differs_from_default env (pr_parent rq) p (PStr s)"
  shows "obj_get (ps_out (simple_parameter env rq dups fixed p (PStr s) st)) (np_name p) = Some (PStr s)"
  using assms by (simp add: simple_parameter_def)

end
