(* ===== verification/Webhooks.thy ===== *)
theory Webhooks
  imports N8n_Prelude
begin

text \<open>
  Registration and routing of webhooks: \<^verbatim>\<open>packages/cli/src/webhooks/webhook.service.ts\<close>,
  \<^verbatim>\<open>live-webhooks.ts\<close>, \<^verbatim>\<open>packages/@n8n/db/src/entities/webhook-entity.ts\<close> and
  \<^verbatim>\<open>addWebhooks\<close> of \<^verbatim>\<open>active-workflow-manager.ts\<close>.

  The state is the record \<open>webhook_store\<close>: the rows of the table, whose primary key is the method with
  the path, the entries of the cache, and the writes to the cache that were begun by a lookup (after it
  read the table) and are not done. A failing read of the cache is a miss, as after an eviction. The
  expressions in a webhook description are evaluated before: a description has their values.
\<close>

section \<open>Paths\<close>

abbreviation segments :: "string \<Rightarrow> string list" where
  "segments \<equiv> split_at (CHR ''/'')"

definition is_variable :: "string \<Rightarrow> bool" where
  "is_variable s = (case s of [] \<Rightarrow> False | c # _ \<Rightarrow> c = CHR '':'')"

definition drop_first_slash :: "string \<Rightarrow> string" where
  "drop_first_slash p = (case p of [] \<Rightarrow> [] | c # cs \<Rightarrow> if c = CHR ''/'' then cs else p)"

definition drop_last_slash :: "string \<Rightarrow> string" where
  "drop_last_slash p = (if p \<noteq> [] \<and> last p = CHR ''/'' then butlast p else p)"

text \<open>\<^verbatim>\<open>p.startsWith(':') || p.includes('/:')\<close>\<close>

fun includes_slash_colon :: "string \<Rightarrow> bool" where
  "includes_slash_colon (a # b # cs) = ((a = CHR ''/'' \<and> b = CHR '':'') \<or> includes_slash_colon (b # cs))"
| "includes_slash_colon _ = False"

definition has_variable :: "string \<Rightarrow> bool" where
  "has_variable p \<longleftrightarrow> is_variable p \<or> includes_slash_colon p"

section \<open>Rows\<close>

record webhook =
  wh_workflowId :: string
  wh_path :: string
  wh_method :: string
  wh_node :: string
  wh_id :: "string option"
  wh_pathLength :: "nat option"

definition webhook_key :: "string \<Rightarrow> string \<Rightarrow> string" where
  "webhook_key meth path = ''webhook:'' @ meth @ ''-'' @ path"

definition uniquePath :: "webhook \<Rightarrow> string" where
  "uniquePath w =
     (if CHR '':'' \<in> set (wh_path w)
      then join_with (CHR ''/'') [case wh_id w of None \<Rightarrow> [] | Some i \<Rightarrow> i, wh_path w]
      else wh_path w)"

definition cacheKey :: "webhook \<Rightarrow> string" where
  "cacheKey w = webhook_key (wh_method w) (uniquePath w)"

definition staticSegments :: "webhook \<Rightarrow> string list" where
  "staticSegments w = filter (\<lambda>s. \<not> is_variable s) (segments (wh_path w))"

definition isDynamic :: "webhook \<Rightarrow> bool" where
  "isDynamic w = list_ex is_variable (segments (wh_path w))"

record webhook_store =
  ws_rows :: "webhook list"
  ws_cache :: "(string, webhook) obj"
  ws_pending :: "(string \<times> webhook) list"

section \<open>Finding a webhook\<close>

definition findStaticWebhook :: "webhook list \<Rightarrow> string \<Rightarrow> string \<Rightarrow> webhook option" where
  "findStaticWebhook rows meth path = find (\<lambda>w. wh_path w = path \<and> wh_method w = meth) rows"

text \<open>The rows a request may reach, and the step of the reduction over them. Without a method all
  methods are taken.\<close>

definition dynamic_candidates :: "webhook list \<Rightarrow> string \<Rightarrow> string option \<Rightarrow> webhook list" where
  "dynamic_candidates rows path meth =
     filter (\<lambda>w. wh_id w = Some (hd (segments path)) \<and> (meth = None \<or> meth = Some (wh_method w)) \<and>
        wh_pathLength w = Some (length (tl (segments path)))) rows"

definition better_match ::
  "string list \<Rightarrow> webhook \<Rightarrow> webhook option \<times> nat \<Rightarrow> webhook option \<times> nat" where
  "better_match requested dw acc =
     (let static = staticSegments dw in
      if list_all (\<lambda>s. s \<in> set requested) static \<and> snd acc < length static
      then (Some dw, length static)
      else if static = [] \<and> fst acc = None then (Some dw, snd acc)
      else acc)"

definition findDynamicWebhook :: "webhook list \<Rightarrow> string \<Rightarrow> string option \<Rightarrow> webhook option" where
  "findDynamicWebhook rows path meth =
     fst (fold (better_match (tl (segments path))) (dynamic_candidates rows path meth) (None, 0))"

text \<open>\<^verbatim>\<open>findCached\<close>: the webhook and the state with the write to the cache it begins.\<close>

definition findCached :: "webhook_store \<Rightarrow> string \<Rightarrow> string \<Rightarrow> webhook option \<times> webhook_store" where
  "findCached st meth path =
     (case obj_get (ws_cache st) (webhook_key meth path) of
        Some w \<Rightarrow> (Some w, st)
      | None \<Rightarrow>
          (case findStaticWebhook (ws_rows st) meth path of
             Some w \<Rightarrow> (Some w, st\<lparr>ws_pending := ws_pending st @ [(webhook_key meth path, w)]\<rparr>)
           | None \<Rightarrow> (findDynamicWebhook (ws_rows st) path (Some meth), st)))"

definition getWebhookMethods :: "webhook_store \<Rightarrow> string \<Rightarrow> string list" where
  "getWebhookMethods st path =
     (let static = map wh_method (filter (\<lambda>w. wh_path w = path) (ws_rows st)) in
      if static \<noteq> [] then static
      else (case findDynamicWebhook (ws_rows st) path None of None \<Rightarrow> [] | Some w \<Rightarrow> [wh_method w]))"

section \<open>Keeping rows and cache\<close>

definition cache_set :: "string \<Rightarrow> webhook \<Rightarrow> webhook_store \<Rightarrow> webhook_store" where
  "cache_set k w st = st\<lparr>ws_cache := obj_set k w (ws_cache st)\<rparr>"

text \<open>A row replaces the row with its method and path.\<close>

fun upsert :: "webhook \<Rightarrow> webhook list \<Rightarrow> webhook list" where
  "upsert w [] = [w]"
| "upsert w (v # vs) =
     (if wh_method v = wh_method w \<and> wh_path v = wh_path w then w # vs else v # upsert w vs)"

definition storeWebhook :: "webhook \<Rightarrow> webhook_store \<Rightarrow> webhook_store" where
  "storeWebhook w st = (cache_set (cacheKey w) w st)\<lparr>ws_rows := upsert w (ws_rows st)\<rparr>"

definition deleteWorkflowWebhooks :: "string \<Rightarrow> webhook_store \<Rightarrow> webhook_store" where
  "deleteWorkflowWebhooks workflowId st =
     st\<lparr>ws_rows := filter (\<lambda>w. wh_workflowId w \<noteq> workflowId) (ws_rows st),
        ws_cache := fold obj_delete
          (map cacheKey (filter (\<lambda>w. wh_workflowId w = workflowId) (ws_rows st))) (ws_cache st)\<rparr>"

definition getStaticWebhooks :: "webhook list \<Rightarrow> webhook list" where
  "getStaticWebhooks rows = filter (\<lambda>w. wh_id w = None) rows"

definition populateCache :: "webhook_store \<Rightarrow> webhook_store" where
  "populateCache st = fold (\<lambda>w. cache_set (cacheKey w) w) (getStaticWebhooks (ws_rows st)) st"

section \<open>The webhooks of a workflow\<close>

record webhook_description =
  wd_restartWebhook :: bool
  wd_path :: "string option"
  wd_isFullPath :: bool
  wd_restartValue :: bool
  wd_methods :: "string option"

record webhook_node =
  wn_name :: string
  wn_disabled :: bool
  wn_webhookId :: "string option"
  wn_webhooks :: "webhook_description list option"

record webhook_data =
  wb_method :: string
  wb_node :: string
  wb_path :: string
  wb_workflowId :: string
  wb_webhookId :: "string option"

text \<open>\<open>encoded\<close> stands for \<^verbatim>\<open>encodeURIComponent(name.toLowerCase())\<close>.\<close>

definition getNodeWebhookPath ::
  "(string \<Rightarrow> string) \<Rightarrow> string \<Rightarrow> webhook_node \<Rightarrow> string \<Rightarrow> bool \<Rightarrow> bool \<Rightarrow> string" where
  "getNodeWebhookPath encoded workflowId n path isFullPath restart =
     (if restart then path
      else case wn_webhookId n of
        None \<Rightarrow> workflowId @ ''/'' @ encoded (wn_name n) @ ''/'' @ path
      | Some i \<Rightarrow> if isFullPath then (if path \<noteq> [] then path else i) else i @ ''/'' @ path)"

definition isDynamicPath :: "string \<Rightarrow> bool" where
  "isDynamicPath rawPath =
     (let path = (if CHR ''/'' \<in> set rawPath then tl (dropWhile (\<lambda>c. c \<noteq> CHR ''/'') rawPath) else rawPath)
      in if path \<in> {'''', '':'', ''/:''} then False else has_variable path)"

definition description_webhooks ::
  "(string \<Rightarrow> string) \<Rightarrow> string \<Rightarrow> webhook_node \<Rightarrow> bool \<Rightarrow> webhook_description \<Rightarrow> webhook_data list" where
  "description_webhooks encoded workflowId n ignoreRestart d =
     (if ignoreRestart \<and> wd_restartWebhook d then []
      else case (wd_path d, wd_methods d) of
        (Some p, Some methods) \<Rightarrow>
          (let path = getNodeWebhookPath encoded workflowId n (drop_last_slash (drop_first_slash p))
                 (wd_isFullPath d) (wd_restartValue d);
               webhookId = (if isDynamicPath path \<and> wn_webhookId n \<noteq> Some [] then wn_webhookId n else None)
           in map (\<lambda>m. \<lparr>wb_method = js_trim m, wb_node = wn_name n, wb_path = path,
                          wb_workflowId = workflowId, wb_webhookId = webhookId\<rparr>)
                (filter (\<lambda>m. m \<noteq> []) (split_at (CHR '','') methods)))
      | _ \<Rightarrow> [])"

definition getNodeWebhooks ::
  "(string \<Rightarrow> string) \<Rightarrow> string \<Rightarrow> webhook_node \<Rightarrow> bool \<Rightarrow> webhook_data list" where
  "getNodeWebhooks encoded workflowId n ignoreRestart =
     (if wn_disabled n then []
      else case wn_webhooks n of
        None \<Rightarrow> []
      | Some ds \<Rightarrow> concat (map (description_webhooks encoded
          (if workflowId = [] then ''__UNSAVED__'' else workflowId) n ignoreRestart) ds))"

section \<open>Conflicts\<close>

definition getWebhookPath :: "webhook_data \<Rightarrow> string" where
  "getWebhookPath wb = join_with (CHR ''/'') (filter (\<lambda>part. part \<noteq> [])
     [if CHR '':'' \<in> set (wb_path wb) then (case wb_webhookId wb of None \<Rightarrow> [] | Some i \<Rightarrow> i) else [],
      wb_path wb])"

definition webhookToKey :: "webhook_data \<Rightarrow> string" where
  "webhookToKey wb = wb_method wb @ '' '' @ getWebhookPath wb"

record conflict_state =
  cf_found :: "(webhook_node \<times> webhook_data + webhook_node \<times> webhook) list"
  cf_processed :: "(string, webhook_data) obj"
  cf_store :: webhook_store

text \<open>One webhook of a node: taken by a webhook of this workflow, by a row of another one, or free.\<close>

definition check_webhook :: "string \<Rightarrow> webhook_node \<Rightarrow> webhook_data \<Rightarrow> conflict_state \<Rightarrow> conflict_state" where
  "check_webhook workflowId n wb st =
     (case obj_get (cf_processed st) (webhookToKey wb) of
        Some other \<Rightarrow> st\<lparr>cf_found := cf_found st @ [Inl (n, other)]\<rparr>
      | None \<Rightarrow>
          (let (found, store) = findCached (cf_store st) (wb_method wb) (getWebhookPath wb);
               st1 = st\<lparr>cf_store := store\<rparr>
           in case found of
                Some w \<Rightarrow>
                  if wh_workflowId w \<noteq> workflowId then st1\<lparr>cf_found := cf_found st @ [Inr (n, w)]\<rparr>
                  else st1\<lparr>cf_processed := obj_set (webhookToKey wb) wb (cf_processed st)\<rparr>
              | None \<Rightarrow> st1\<lparr>cf_processed := obj_set (webhookToKey wb) wb (cf_processed st)\<rparr>))"

definition findWebhookConflicts ::
  "(string \<Rightarrow> string) \<Rightarrow> string \<Rightarrow> webhook_node list \<Rightarrow> webhook_store \<Rightarrow> conflict_state" where
  "findWebhookConflicts encoded workflowId nodes store =
     fold (\<lambda>(n, wbs). fold (check_webhook workflowId n) wbs)
       (filter (\<lambda>(n, wbs). wbs \<noteq> []) (map (\<lambda>n. (n, getNodeWebhooks encoded workflowId n True)) nodes))
       \<lparr>cf_found = [], cf_processed = [], cf_store = store\<rparr>"

section \<open>Activation\<close>

datatype add_error = QueryFailed | HookError string

text \<open>What the insertion into the table and the hooks of the node type do.\<close>

datatype add_outcome = Added | NotStored add_error | HooksFailed add_error

datatype activation_error = WebhookPathTaken string | ActivationFailed string

definition webhook_row :: "webhook_node \<Rightarrow> webhook_data \<Rightarrow> webhook" where
  "webhook_row n wb =
     (let path = drop_last_slash (drop_first_slash (wb_path wb));
          dynamic = has_variable (wb_path wb) \<and> wn_webhookId n \<notin> {None, Some []}
      in \<lparr>wh_workflowId = wb_workflowId wb, wh_path = path, wh_method = wb_method wb, wh_node = wn_name n,
          wh_id = (if dynamic then wn_webhookId n else None),
          wh_pathLength = (if dynamic then Some (length (segments path)) else None)\<rparr>)"

definition stored_in :: "add_outcome \<Rightarrow> webhook \<Rightarrow> webhook_store \<Rightarrow> webhook_store" where
  "stored_in outcome w st =
     (case outcome of NotStored e \<Rightarrow> cache_set (cacheKey w) w st | _ \<Rightarrow> storeWebhook w st)"

fun outcome_error :: "add_outcome \<Rightarrow> add_error option" where
  "outcome_error Added = None"
| "outcome_error (NotStored e) = Some e"
| "outcome_error (HooksFailed e) = Some e"

definition add_failure :: "webhook \<Rightarrow> add_error \<Rightarrow> activation_error" where
  "add_failure w e = (case e of QueryFailed \<Rightarrow> WebhookPathTaken (wh_node w) | HookError detail \<Rightarrow> ActivationFailed detail)"

text \<open>The loop of \<^verbatim>\<open>addWebhooks\<close>: the first failure removes the rows of the workflow
  (\<open>clears\<close> tells whether that works), unless it is a failing insertion at the start.\<close>

fun add_loop ::
  "(webhook_data \<Rightarrow> add_outcome) \<Rightarrow> bool \<Rightarrow> bool \<Rightarrow> string \<Rightarrow> (webhook_node \<times> webhook_data) list
    \<Rightarrow> webhook_store \<Rightarrow> activation_error option \<times> webhook_store" where
  "add_loop outcome initial clears workflowId [] st = (None, st)"
| "add_loop outcome initial clears workflowId ((n, wb) # rest) st =
     (let w = webhook_row n wb; st1 = stored_in (outcome wb) w st in
      case outcome_error (outcome wb) of
        None \<Rightarrow> add_loop outcome initial clears workflowId rest st1
      | Some e \<Rightarrow>
          if initial \<and> e = QueryFailed then add_loop outcome initial clears workflowId rest st1
          else (Some (add_failure w e), if clears then deleteWorkflowWebhooks workflowId st1 else st1))"

definition addWebhooks ::
  "(string \<Rightarrow> string) \<Rightarrow> (webhook_data \<Rightarrow> add_outcome) \<Rightarrow> bool \<Rightarrow> bool \<Rightarrow> string \<Rightarrow> webhook_node list
    \<Rightarrow> webhook_store \<Rightarrow> (activation_error + bool) \<times> webhook_store" where
  "addWebhooks encoded outcome initial clears workflowId nodes st =
     (let wbs = concat (map (\<lambda>n. map (Pair n) (getNodeWebhooks encoded workflowId n True)) nodes) in
      if wbs = [] then (Inr False, st)
      else case add_loop outcome initial clears workflowId wbs st of
        (Some e, st1) \<Rightarrow> (Inl e, st1)
      | (None, st1) \<Rightarrow> (Inr True, st1))"

section \<open>Requests\<close>

datatype live_error = WebhookNotFound string string "string list"

definition live_findWebhook ::
  "webhook_store \<Rightarrow> string \<Rightarrow> string \<Rightarrow> (live_error + webhook) \<times> webhook_store" where
  "live_findWebhook st path meth =
     (let p = drop_last_slash path; (found, st1) = findCached st meth p in
      (case found of
         None \<Rightarrow> Inl (WebhookNotFound p meth (getWebhookMethods st1 p))
       | Some w \<Rightarrow> Inr w, st1))"

text \<open>The parameters of a request: the variables of the path of the webhook and the segments of the
  request in their places, \<open>None\<close> where it has none.\<close>

fun path_parameters ::
  "string list \<Rightarrow> string list \<Rightarrow> (string, string option) obj \<Rightarrow> (string, string option) obj" where
  "path_parameters [] elements ps = ps"
| "path_parameters (s # ss) elements ps =
     path_parameters ss (tl elements)
       (if is_variable s then obj_set (tl s) (case elements of [] \<Rightarrow> None | e # _ \<Rightarrow> Some e) ps else ps)"

definition request_parameters :: "webhook \<Rightarrow> string \<Rightarrow> (string, string option) obj" where
  "request_parameters w path =
     (if isDynamic w then path_parameters (segments (wh_path w)) (tl (segments path)) [] else [])"

end
