(* ===== verification/Webhook_Facts.thy ===== *)
theory Webhook_Facts
  imports Webhooks "HOL-Library.Multiset"
begin

text \<open>
  The laws of \<open>Webhooks\<close>: the cache in front of the table (an invariant over the interleaving of
  lookups, writes, registrations and removals, through the locale \<open>answering_store\<close>), the choice
  among the rows with variable paths, the parameters of a request, and where routing goes wrong.
\<close>

section \<open>The table\<close>

definition row_key :: "webhook \<Rightarrow> string \<times> string" where
  "row_key w = (wh_method w, wh_path w)"

lemma upsert_keys: "row_key ` set (upsert w ws) = insert (row_key w) (row_key ` set ws)"
  by (induction ws) (auto simp: row_key_def)

lemma upsert_distinct: "distinct (map row_key ws) \<Longrightarrow> distinct (map row_key (upsert w ws))"
proof (induction ws)
  case (Cons v ws)
  then show ?case using upsert_keys [of w ws] by (auto simp: row_key_def)
qed simp

lemma upsert_set:
  "distinct (map row_key ws) \<Longrightarrow> set (upsert w ws) = insert w {v \<in> set ws. row_key v \<noteq> row_key w}"
proof (induction ws)
  case (Cons v ws)
  then have "\<forall>x \<in> set ws. row_key v \<noteq> row_key x" by force
  with Cons show ?case by (auto simp: row_key_def)
qed simp

lemma findStaticWebhook_iff:
  assumes "distinct (map row_key rows)"
  shows "findStaticWebhook rows m p = Some w \<longleftrightarrow> w \<in> set rows \<and> wh_method w = m \<and> wh_path w = p"
proof
  assume "findStaticWebhook rows m p = Some w"
  then show "w \<in> set rows \<and> wh_method w = m \<and> wh_path w = p"
    by (auto simp: findStaticWebhook_def find_Some_iff)
next
  assume w: "w \<in> set rows \<and> wh_method w = m \<and> wh_path w = p"
  then obtain v where v: "findStaticWebhook rows m p = Some v"
    by (cases "findStaticWebhook rows m p") (auto simp: findStaticWebhook_def find_None_iff)
  then have "v \<in> set rows" "row_key v = row_key w"
    using w by (auto simp: findStaticWebhook_def find_Some_iff row_key_def)
  then have "v = w" using assms w by (auto simp: distinct_map inj_on_def)
  with v show "findStaticWebhook rows m p = Some w" by simp
qed

lemma findStaticWebhook_None:
  "findStaticWebhook rows m p = None \<longleftrightarrow> (\<forall>w \<in> set rows. \<not> (wh_method w = m \<and> wh_path w = p))"
  by (auto simp: findStaticWebhook_def find_None_iff)

section \<open>The cache\<close>

text \<open>Methods of HTTP have neither of the characters that structure a key.\<close>

definition plain_method :: "string \<Rightarrow> bool" where
  "plain_method m \<longleftrightarrow> CHR '':'' \<notin> set m \<and> CHR ''-'' \<notin> set m"

lemma webhook_key_inj:
  assumes "plain_method m" "plain_method m'" "webhook_key m p = webhook_key m' p'"
  shows "m = m' \<and> p = p'"
proof -
  have "m @ ''-'' @ p = m' @ ''-'' @ p'" using assms(3) by (simp add: webhook_key_def)
  then have "split_at (CHR ''-'') (m @ CHR ''-'' # p) = split_at (CHR ''-'') (m' @ CHR ''-'' # p')" by simp
  then have "m = m'" using assms(1,2) by (simp add: plain_method_def split_at_append)
  with assms(3) show ?thesis by (simp add: webhook_key_def)
qed

text \<open>An entry under a key without a further colon is a row under its own key; other entries have a
  colon in the key.\<close>

definition cache_entry_ok :: "webhook list \<Rightarrow> string \<Rightarrow> webhook \<Rightarrow> bool" where
  "cache_entry_ok rows k w \<longleftrightarrow> plain_method (wh_method w) \<and>
     (if CHR '':'' \<in> set (wh_path w)
      then \<exists>m p. plain_method m \<and> k = webhook_key m p \<and> CHR '':'' \<in> set p
      else k = webhook_key (wh_method w) (wh_path w) \<and> w \<in> set rows)"

definition coherent :: "webhook_store \<Rightarrow> bool" where
  "coherent st \<longleftrightarrow> distinct (map row_key (ws_rows st)) \<and>
     (\<forall>w \<in> set (ws_rows st). plain_method (wh_method w)) \<and>
     (\<forall>k w. obj_get (ws_cache st) k = Some w \<longrightarrow> cache_entry_ok (ws_rows st) k w) \<and>
     (\<forall>(k, w) \<in> set (ws_pending st). cache_entry_ok (ws_rows st) k w)"

lemma coherentD:
  assumes "coherent st"
  shows "distinct (map row_key (ws_rows st))" "w \<in> set (ws_rows st) \<Longrightarrow> plain_method (wh_method w)"
    "obj_get (ws_cache st) k = Some v \<Longrightarrow> cache_entry_ok (ws_rows st) k v"
    "(k, v) \<in> set (ws_pending st) \<Longrightarrow> cache_entry_ok (ws_rows st) k v"
  using assms by (auto simp: coherent_def)

text \<open>What the table alone answers.\<close>

definition table_answer :: "webhook list \<Rightarrow> string \<Rightarrow> string \<Rightarrow> webhook option" where
  "table_answer rows m p =
     (case findStaticWebhook rows m p of Some w \<Rightarrow> Some w | None \<Rightarrow> findDynamicWebhook rows p (Some m))"

lemma coherent_answer:
  assumes "coherent st" "plain_method m" "CHR '':'' \<notin> set p"
  shows "fst (findCached st m p) = table_answer (ws_rows st) m p"
proof (cases "obj_get (ws_cache st) (webhook_key m p)")
  case None
  then show ?thesis by (simp add: findCached_def table_answer_def split: option.split)
next
  case (Some w)
  then have ok: "cache_entry_ok (ws_rows st) (webhook_key m p) w"
    using coherentD(3) [OF assms(1)] by blast
  have "CHR '':'' \<notin> set (wh_path w)"
  proof
    assume "CHR '':'' \<in> set (wh_path w)"
    with ok obtain m' p' where "plain_method m'" "webhook_key m p = webhook_key m' p'" "CHR '':'' \<in> set p'"
      by (auto simp: cache_entry_ok_def)
    with webhook_key_inj [OF assms(2), of m' p p'] assms(3) show False by simp
  qed
  with ok have "plain_method (wh_method w)" "webhook_key m p = webhook_key (wh_method w) (wh_path w)"
    "w \<in> set (ws_rows st)" by (simp_all add: cache_entry_ok_def)
  then have "findStaticWebhook (ws_rows st) m p = Some w"
    using webhook_key_inj [OF assms(2), of "wh_method w" p "wh_path w"]
      findStaticWebhook_iff [OF coherentD(1) [OF assms(1)]] by simp
  with Some show ?thesis by (simp add: findCached_def table_answer_def)
qed

lemma cacheKey_ok:
  assumes "plain_method (wh_method w)" "w \<in> set rows"
  shows "cache_entry_ok rows (cacheKey w) w"
proof (cases "CHR '':'' \<in> set (wh_path w)")
  case True
  then have "cacheKey w = webhook_key (wh_method w) (uniquePath w)" "CHR '':'' \<in> set (uniquePath w)"
    by (simp_all add: cacheKey_def uniquePath_def)
  with True assms show ?thesis unfolding cache_entry_ok_def by auto
next
  case False
  with assms show ?thesis by (simp add: cache_entry_ok_def cacheKey_def uniquePath_def)
qed

lemma coherent_lookup:
  assumes "coherent st" "plain_method m"
  shows "coherent (snd (findCached st m p))"
proof -
  have "cache_entry_ok (ws_rows st) (webhook_key m p) w" if "findStaticWebhook (ws_rows st) m p = Some w" for w
    using that assms findStaticWebhook_iff [OF coherentD(1) [OF assms(1)]] by (auto simp: cache_entry_ok_def)
  with assms(1) show ?thesis
    by (auto simp: findCached_def coherent_def split: option.splits)
qed

lemma coherent_cache_set:
  assumes "coherent st" "cache_entry_ok (ws_rows st) k w"
  shows "coherent (cache_set k w st)"
  using assms by (auto simp: coherent_def cache_set_def)

lemma coherent_populate: assumes "coherent st" shows "coherent (populateCache st)"
proof -
  have "coherent (fold (\<lambda>w. cache_set (cacheKey w) w) ws st')"
    if "coherent st'" "set ws \<subseteq> set (ws_rows st')" for ws st'
    using that
  proof (induction ws arbitrary: st')
    case (Cons w ws)
    then have "coherent (cache_set (cacheKey w) w st')"
      by (intro coherent_cache_set cacheKey_ok) (auto dest: coherentD(2))
    with Cons show ?case by (simp add: cache_set_def)
  qed simp
  with assms show ?thesis by (simp add: populateCache_def getStaticWebhooks_def)
qed

lemma coherent_store:
  assumes "coherent st" "ws_pending st = []" "plain_method (wh_method w)"
  shows "coherent (storeWebhook w st)"
proof -
  let ?rows = "upsert w (ws_rows st)"
  note rows = upsert_set [OF coherentD(1) [OF assms(1)], of w]
  have "cache_entry_ok ?rows k v" if kv: "obj_get (obj_set (cacheKey w) w (ws_cache st)) k = Some v" for k v
  proof (cases "k = cacheKey w")
    case True
    then show ?thesis using kv assms(3) rows by (auto intro: cacheKey_ok)
  next
    case False
    then have ok: "cache_entry_ok (ws_rows st) k v" using kv coherentD(3) [OF assms(1)] by simp
    moreover have "v \<in> set ?rows" if "CHR '':'' \<notin> set (wh_path v)"
    proof -
      have v: "v \<in> set (ws_rows st)" "k = webhook_key (wh_method v) (wh_path v)"
        using ok that by (simp_all add: cache_entry_ok_def)
      then have "row_key v \<noteq> row_key w"
        using that False by (auto simp: row_key_def cacheKey_def uniquePath_def)
      with v(1) show ?thesis by (simp add: rows)
    qed
    ultimately show ?thesis by (auto simp: cache_entry_ok_def)
  qed
  then show ?thesis using assms upsert_distinct [OF coherentD(1) [OF assms(1)], of w] rows
    by (auto simp: coherent_def storeWebhook_def cache_set_def)
qed

lemma obj_get_fold_delete:
  "obj_get (fold obj_delete ks m) k = (if k \<in> set ks then None else obj_get m k)"
  by (induction ks arbitrary: m) auto

lemma coherent_delete:
  assumes "coherent st" "ws_pending st = []"
  shows "coherent (deleteWorkflowWebhooks workflowId st)"
proof -
  have "cache_entry_ok (filter (\<lambda>w. wh_workflowId w \<noteq> workflowId) (ws_rows st)) k v"
    if kv: "obj_get (ws_cache st) k = Some v" "k \<notin> set (map cacheKey (filter (\<lambda>w. wh_workflowId w = workflowId) (ws_rows st)))"
    for k v
    using coherentD(3) [OF assms(1) kv(1)] kv(2)
    by (auto simp: cache_entry_ok_def image_iff cacheKey_def uniquePath_def split: if_splits)
  then show ?thesis using assms
    by (auto simp: coherent_def deleteWorkflowWebhooks_def obj_get_fold_delete distinct_map_filter
        split: if_splits)
qed

section \<open>What may happen to the store\<close>

text \<open>With \<open>quiet\<close>, rows change only while no write to the cache is on its way. A write may be done in any
  order, and the cache may lose an entry.\<close>

inductive webhook_step :: "bool \<Rightarrow> webhook_store \<Rightarrow> webhook_store \<Rightarrow> bool" for quiet where
  lookup: "plain_method m \<Longrightarrow> webhook_step quiet st (snd (findCached st m p))"
| settle: "ws_pending st = before @ (k, w) # after \<Longrightarrow>
     webhook_step quiet st (cache_set k w (st\<lparr>ws_pending := before @ after\<rparr>))"
| evict: "webhook_step quiet st (st\<lparr>ws_cache := obj_delete k (ws_cache st)\<rparr>)"
| populate: "webhook_step quiet st (populateCache st)"
| store: "plain_method (wh_method w) \<Longrightarrow> quiet \<longrightarrow> ws_pending st = [] \<Longrightarrow>
     webhook_step quiet st (storeWebhook w st)"
| delete: "quiet \<longrightarrow> ws_pending st = [] \<Longrightarrow>
     webhook_step quiet st (deleteWorkflowWebhooks workflowId st)"

lemma coherent_step: "webhook_step True st st' \<Longrightarrow> coherent st \<Longrightarrow> coherent st'"
proof (induction rule: webhook_step.induct)
  case (settle st before k w after)
  then have ok: "cache_entry_ok (ws_rows st) k w" using coherentD(4) [OF settle(2), of k w] by simp
  have "coherent (st\<lparr>ws_pending := before @ after\<rparr>)"
    using settle by (auto simp: coherent_def)
  with ok show ?case by (intro coherent_cache_set) simp_all
next
  case (evict st k)
  then show ?case by (auto simp: coherent_def split: if_splits)
qed (auto intro: coherent_lookup coherent_populate coherent_store coherent_delete)

text \<open>A store whose every answer is that of a reference holds to it in every state it reaches.\<close>

locale answering_store =
  fixes good :: "'s \<Rightarrow> bool" and step :: "'s \<Rightarrow> 's \<Rightarrow> bool"
    and answer :: "'s \<Rightarrow> 'q \<Rightarrow> 'a" and reference :: "'s \<Rightarrow> 'q \<Rightarrow> 'a" and asked :: "'q \<Rightarrow> bool"
  assumes keeps: "step s s' \<Longrightarrow> good s \<Longrightarrow> good s'"
    and answers: "good s \<Longrightarrow> asked q \<Longrightarrow> answer s q = reference s q"
begin

lemma good_reached: "step\<^sup>*\<^sup>* s s' \<Longrightarrow> good s \<Longrightarrow> good s'"
  by (induction rule: rtranclp_induct) (auto intro: keeps)

lemma answer_reached: "step\<^sup>*\<^sup>* s s' \<Longrightarrow> good s \<Longrightarrow> asked q \<Longrightarrow> answer s' q = reference s' q"
  using good_reached answers by blast

end

interpretation wc: answering_store coherent "webhook_step True"
  "\<lambda>st (m, p). fst (findCached st m p)" "\<lambda>st (m, p). table_answer (ws_rows st) m p"
  "\<lambda>(m, p). plain_method m \<and> CHR '':'' \<notin> set p"
  by unfold_locales (auto intro: coherent_step coherent_answer)


section \<open>Dynamic paths\<close>

definition static_match :: "string list \<Rightarrow> webhook \<Rightarrow> bool" where
  "static_match requested w \<longleftrightarrow> set (staticSegments w) \<subseteq> set requested"

text \<open>The account of the reduction over the candidates seen so far.\<close>

definition best_of :: "string list \<Rightarrow> webhook set \<Rightarrow> webhook option \<times> nat \<Rightarrow> bool" where
  "best_of requested seen acc \<longleftrightarrow>
     (case fst acc of
        None \<Rightarrow> snd acc = 0 \<and> (\<forall>w \<in> seen. \<not> static_match requested w)
      | Some w \<Rightarrow> w \<in> seen \<and> static_match requested w \<and> snd acc = length (staticSegments w) \<and>
          (\<forall>v \<in> seen. static_match requested v \<longrightarrow> length (staticSegments v) \<le> snd acc))"

lemma best_of_step:
  assumes "best_of requested seen acc"
  shows "best_of requested (insert w seen) (better_match requested w acc)"
  using assms
  by (cases "fst acc")
    (auto simp: best_of_def better_match_def static_match_def Let_def list_all_iff subset_iff split: if_splits)

lemma best_of_fold:
  "best_of requested seen acc \<Longrightarrow>
     best_of requested (seen \<union> set ws) (fold (better_match requested) ws acc)"
proof (induction ws arbitrary: seen acc)
  case (Cons w ws)
  from Cons.IH [OF best_of_step [OF Cons.prems, of w]] show ?case by simp
qed simp

lemma findDynamicWebhook_best:
  "best_of (tl (segments path)) (set (dynamic_candidates rows path meth))
     (fold (better_match (tl (segments path))) (dynamic_candidates rows path meth) (None, 0))"
  using best_of_fold [of "tl (segments path)" "{}" "(None, 0)" "dynamic_candidates rows path meth"]
  by (simp add: best_of_def)

lemma findDynamicWebhook_Some:
  assumes "findDynamicWebhook rows path meth = Some w"
  shows "w \<in> set (dynamic_candidates rows path meth)" "static_match (tl (segments path)) w"
    "v \<in> set (dynamic_candidates rows path meth) \<Longrightarrow> static_match (tl (segments path)) v \<Longrightarrow>
       length (staticSegments v) \<le> length (staticSegments w)"
  using assms findDynamicWebhook_best [of path rows meth]
  by (auto simp: findDynamicWebhook_def best_of_def)

lemma findDynamicWebhook_None:
  assumes "findDynamicWebhook rows path meth = None" "v \<in> set (dynamic_candidates rows path meth)"
  shows "\<not> static_match (tl (segments path)) v"
  using assms findDynamicWebhook_best [of path rows meth]
  by (auto simp: findDynamicWebhook_def best_of_def)

lemma better_match_cong: "set r = set r' \<Longrightarrow> better_match r = better_match r'"
  by (simp add: better_match_def fun_eq_iff)

text \<open>The order of the segments plays no part.\<close>

lemma findDynamicWebhook_permuted:
  assumes "\<forall>s \<in> set (uuid # segs). CHR ''/'' \<notin> set s" "mset segs = mset segs'"
  shows "findDynamicWebhook rows (join_with (CHR ''/'') (uuid # segs')) meth =
    findDynamicWebhook rows (join_with (CHR ''/'') (uuid # segs)) meth"
proof -
  have set: "set segs' = set segs" and len: "length segs' = length segs"
    using assms(2) by (metis set_mset_mset) (metis assms(2) size_mset)
  have "segments (join_with (CHR ''/'') (uuid # segs)) = uuid # segs"
    "segments (join_with (CHR ''/'') (uuid # segs')) = uuid # segs'"
    by (rule split_at_join; use assms(1) set in simp)+
  then show ?thesis using better_match_cong [OF set]
    by (simp add: findDynamicWebhook_def dynamic_candidates_def len)
qed

section \<open>Parameters of a request\<close>

definition variable_names :: "string list \<Rightarrow> string list" where
  "variable_names segs = map tl (filter is_variable segs)"

lemma path_parameters_keep:
  "k \<notin> set (variable_names segs) \<Longrightarrow> obj_get (path_parameters segs elements ps) k = obj_get ps k"
  by (induction segs arbitrary: elements ps) (auto simp: variable_names_def)

lemma path_parameters_get:
  assumes "distinct (variable_names segs)" "i < length segs" "is_variable (segs ! i)"
    "length elements = length segs"
  shows "obj_get (path_parameters segs elements ps) (tl (segs ! i)) = Some (Some (elements ! i))"
  using assms
proof (induction segs arbitrary: elements ps i)
  case (Cons s segs)
  then obtain e es where es: "elements = e # es" "length es = length segs" by (cases elements) auto
  have distinct: "distinct (variable_names segs)" using Cons.prems(1)
    by (auto simp: variable_names_def split: if_splits)
  show ?case
  proof (cases i)
    case 0
    then have "tl s \<notin> set (variable_names segs)" using Cons.prems by (simp add: variable_names_def)
    with 0 Cons.prems es show ?thesis by (simp add: path_parameters_keep)
  next
    case (Suc j)
    with Cons.prems es Cons.IH [OF distinct, of j es] show ?thesis by simp
  qed
qed simp

text \<open>A request in which values stand for the variables of a template.\<close>

definition fill_path :: "string list \<Rightarrow> string list \<Rightarrow> string list" where
  "fill_path segs values = map2 (\<lambda>s v. if is_variable s then v else s) segs values"

lemma fill_path_nth:
  "length values = length segs \<Longrightarrow> i < length segs \<Longrightarrow>
     fill_path segs values ! i = (if is_variable (segs ! i) then values ! i else segs ! i)"
  by (simp add: fill_path_def)

lemma fill_path_length [simp]: "length values = length segs \<Longrightarrow> length (fill_path segs values) = length segs"
  by (simp add: fill_path_def)

lemma fill_path_static:
  assumes "length values = length segs"
  shows "set (filter (\<lambda>s. \<not> is_variable s) segs) \<subseteq> set (fill_path segs values)"
proof
  fix s assume "s \<in> set (filter (\<lambda>s. \<not> is_variable s) segs)"
  then obtain i where "i < length segs" "segs ! i = s" "\<not> is_variable s" by (auto simp: in_set_conv_nth)
  then have "fill_path segs values ! i = s" using fill_path_nth [OF assms] by simp
  then show "s \<in> set (fill_path segs values)"
    using \<open>i < length segs\<close> fill_path_length [OF assms] by (metis nth_mem)
qed

lemma fill_path_subset:
  assumes "length values = length segs"
  shows "set (fill_path segs values) \<subseteq> set segs \<union> set values"
proof
  fix s assume "s \<in> set (fill_path segs values)"
  then obtain i where "i < length segs" "s = (if is_variable (segs ! i) then values ! i else segs ! i)"
    using fill_path_nth [OF assms] fill_path_length [OF assms] by (metis in_set_conv_nth)
  then show "s \<in> set segs \<union> set values" using assms by (auto split: if_splits)
qed

lemma fill_path_segments:
  assumes "length values = length segs" "\<forall>s \<in> set (uuid # segs) \<union> set values. CHR ''/'' \<notin> set s"
  shows "segments (join_with (CHR ''/'') (uuid # fill_path segs values)) = uuid # fill_path segs values"
proof (rule split_at_join)
  show "\<forall>s \<in> set (uuid # fill_path segs values). CHR ''/'' \<notin> set s"
  proof
    fix s assume "s \<in> set (uuid # fill_path segs values)"
    then have "s \<in> set (uuid # segs) \<union> set values" using fill_path_subset [OF assms(1)] by fastforce
    with assms(2) show "CHR ''/'' \<notin> set s" by blast
  qed
qed simp

lemma fill_path_found:
  assumes rows: "w \<in> set rows" "wh_id w = Some uuid" "wh_pathLength w = Some (length (segments (wh_path w)))"
    and len: "length values = length (segments (wh_path w))"
    and slashes: "\<forall>s \<in> set (uuid # values). CHR ''/'' \<notin> set s"
    and only: "\<And>v. v \<in> set rows \<Longrightarrow> wh_id v = Some uuid \<Longrightarrow> wh_method v = wh_method w \<Longrightarrow> v = w"
  defines "path \<equiv> join_with (CHR ''/'') (uuid # fill_path (segments (wh_path w)) values)"
  shows "findDynamicWebhook rows path (Some (wh_method w)) = Some w"
    "tl (segments path) = fill_path (segments (wh_path w)) values"
proof -
  have "\<forall>s \<in> set (uuid # segments (wh_path w)) \<union> set values. CHR ''/'' \<notin> set s"
    using slashes split_at_no_sep by fastforce
  then have segs: "segments path = uuid # fill_path (segments (wh_path w)) values"
    unfolding path_def by (rule fill_path_segments [OF len])
  then show tl: "tl (segments path) = fill_path (segments (wh_path w)) values" by simp
  have cands: "set (dynamic_candidates rows path (Some (wh_method w))) = {w}"
  proof (intro equalityI subsetI)
    fix v assume "v \<in> set (dynamic_candidates rows path (Some (wh_method w)))"
    then have "v \<in> set rows" "wh_id v = Some uuid" "wh_method v = wh_method w"
      by (simp_all add: dynamic_candidates_def segs)
    then show "v \<in> {w}" using only by blast
  next
    fix v assume "v \<in> {w}"
    then show "v \<in> set (dynamic_candidates rows path (Some (wh_method w)))"
      using rows len by (simp add: dynamic_candidates_def segs)
  qed
  have "static_match (tl (segments path)) w"
    using fill_path_static [OF len] by (simp add: tl static_match_def staticSegments_def)
  then have "findDynamicWebhook rows path (Some (wh_method w)) \<noteq> None"
    using findDynamicWebhook_None [of rows path "Some (wh_method w)" w] cands by blast
  then obtain v where v: "findDynamicWebhook rows path (Some (wh_method w)) = Some v" by blast
  then have "v = w" using findDynamicWebhook_Some(1) [OF v] cands by simp
  with v show "findDynamicWebhook rows path (Some (wh_method w)) = Some w" by simp
qed

section \<open>The properties\<close>


definition sample_webhook :: webhook where
  "sample_webhook = \<lparr>wh_workflowId = ''w1'', wh_path = ''orders'', wh_method = ''GET'', wh_node = ''Webhook'',
     wh_id = None, wh_pathLength = None\<rparr>"

definition stored_sample :: webhook_store where
  "stored_sample = storeWebhook sample_webhook \<lparr>ws_rows = [], ws_cache = [], ws_pending = []\<rparr>"


text \<open>A dynamic lookup returns a row registered under the identifier, method and length of the request
  all of whose fixed segments the request has, with the most fixed segments among those; it returns
  nothing only if there is none.\<close>

theorem findDynamicWebhook_spec:
  "(case findDynamicWebhook rows path meth of
      None \<Rightarrow> \<not> (\<exists>v. v \<in> set (dynamic_candidates rows path meth) \<and>
        set (staticSegments v) \<subseteq> set (tl (split_at (CHR ''/'') path)))
    | Some w \<Rightarrow> w \<in> set (dynamic_candidates rows path meth) \<and>
        set (staticSegments w) \<subseteq> set (tl (split_at (CHR ''/'') path)) \<and>
        \<not> (\<exists>v. v \<in> set (dynamic_candidates rows path meth) \<and>
          set (staticSegments v) \<subseteq> set (tl (split_at (CHR ''/'') path)) \<and>
          length (staticSegments w) < length (staticSegments v)))"
proof (cases "findDynamicWebhook rows path meth")
  case None
  from findDynamicWebhook_None [OF None] show ?thesis by (auto simp: None static_match_def)
next
  case (Some w)
  from findDynamicWebhook_Some [OF Some] show ?thesis by (fastforce simp: Some static_match_def)
qed

text \<open>Where a fixed segment stands plays no part: a request whose segments are another order of those
  of a request reaches the same webhook, though its path is not of the form that was registered.\<close>

theorem dynamic_match_ignores_order:
  assumes "CHR ''/'' \<notin> set uuid" "\<And>s. s \<in> set segs \<Longrightarrow> CHR ''/'' \<notin> set s" "mset segs = mset segs'"
  shows "findDynamicWebhook rows (join_with (CHR ''/'') (uuid # segs')) meth =
    findDynamicWebhook rows (join_with (CHR ''/'') (uuid # segs)) meth"
proof (rule findDynamicWebhook_permuted [OF _ assms(3)])
  show "\<forall>s \<in> set (uuid # segs). CHR ''/'' \<notin> set s" using assms(1,2) by (metis set_ConsD)
qed

definition dynamic_sample :: webhook where
  "dynamic_sample = \<lparr>wh_workflowId = ''w1'', wh_path = ''user/:id/posts'', wh_method = ''GET'',
     wh_node = ''Webhook'', wh_id = Some ''u1'', wh_pathLength = Some 3\<rparr>"

lemma dynamic_match_ignores_order_witness:
  "findDynamicWebhook [dynamic_sample] ''u1/posts/7/user'' (Some ''GET'') = Some dynamic_sample"
proof -
  have "findDynamicWebhook [dynamic_sample] (join_with (CHR ''/'') (''u1'' # [''posts'', ''7'', ''user''])) (Some ''GET'') =
      findDynamicWebhook [dynamic_sample] (join_with (CHR ''/'') (''u1'' # [''user'', ''7'', ''posts''])) (Some ''GET'')"
    by (rule dynamic_match_ignores_order) auto
  also have "\<dots> = Some dynamic_sample" by code_simp
  finally show ?thesis by simp
qed

text \<open>C26. A request made from the path of a dynamic webhook by putting values for its variables reaches
  that webhook, and the parameters of the request are the values, each under the name of its variable.\<close>

theorem dynamic_request_roundtrip:
  assumes "w \<in> set (ws_rows st)" "isDynamic w" "wh_id w = Some uuid"
    and "wh_pathLength w = Some (length (split_at (CHR ''/'') (wh_path w)))"
    and "\<And>v. v \<in> set (ws_rows st) \<Longrightarrow> wh_id v = Some uuid \<Longrightarrow> wh_method v = wh_method w \<Longrightarrow> v = w"
    and "length values = length (split_at (CHR ''/'') (wh_path w))"
    and "CHR ''/'' \<notin> set uuid" "\<And>s. s \<in> set values \<Longrightarrow> CHR ''/'' \<notin> set s"
    and "distinct (variable_names (split_at (CHR ''/'') (wh_path w)))"
    and "path = join_with (CHR ''/'') (uuid # fill_path (split_at (CHR ''/'') (wh_path w)) values)"
    and "obj_get (ws_cache st) (webhook_key (wh_method w) path) = None"
    and "findStaticWebhook (ws_rows st) (wh_method w) path = None"
  shows "fst (findCached st (wh_method w) path) = Some w \<and>
    (\<forall>i < length values. is_variable (split_at (CHR ''/'') (wh_path w) ! i) \<longrightarrow>
       obj_get (request_parameters w path) (tl (split_at (CHR ''/'') (wh_path w) ! i)) = Some (Some (values ! i)))"
proof -
  let ?segs = "segments (wh_path w)"
  have slashes: "\<forall>s \<in> set (uuid # values). CHR ''/'' \<notin> set s"
    using assms(7,8) by (metis set_ConsD)
  have found: "findDynamicWebhook (ws_rows st) path (Some (wh_method w)) = Some w"
    "tl (segments path) = fill_path ?segs values"
    unfolding assms(10) by (rule fill_path_found [OF assms(1,3,4,6) slashes]; rule assms(5); assumption)+
  have "obj_get (request_parameters w path) (tl (?segs ! i)) = Some (Some (values ! i))"
    if "i < length values" "is_variable (?segs ! i)" for i
  proof -
    have i: "i < length ?segs" using that(1) unfolding assms(6) .
    have "request_parameters w path = path_parameters ?segs (fill_path ?segs values) []"
      using found(2) by (simp only: request_parameters_def assms(2) if_True)
    moreover have "fill_path ?segs values ! i = values ! i"
      unfolding fill_path_nth [OF assms(6) i] by (simp only: that(2) if_True)
    ultimately show ?thesis
      using path_parameters_get [OF assms(9) i that(2) fill_path_length [OF assms(6)], of "[]"] by metis
  qed
  moreover have "fst (findCached st (wh_method w) path) = Some w"
    by (simp only: findCached_def assms(11,12) found(1) option.case fst_conv)
  ultimately show ?thesis by blast
qed

lemma dynamic_request_roundtrip_witness:
  "fst (findCached \<lparr>ws_rows = [dynamic_sample], ws_cache = [], ws_pending = []\<rparr> ''GET'' ''u1/user/7/posts'')
     = Some dynamic_sample"
proof -
  let ?st = "\<lparr>ws_rows = [dynamic_sample], ws_cache = [], ws_pending = []\<rparr> :: webhook_store"
  have "fst (findCached ?st (wh_method dynamic_sample) ''u1/user/7/posts'') = Some dynamic_sample \<and>
    (\<forall>i < length [''x'', ''7'', ''y'']. is_variable (split_at (CHR ''/'') (wh_path dynamic_sample) ! i) \<longrightarrow>
       obj_get (request_parameters dynamic_sample ''u1/user/7/posts'')
         (tl (split_at (CHR ''/'') (wh_path dynamic_sample) ! i)) = Some (Some ([''x'', ''7'', ''y''] ! i)))"
  proof (rule dynamic_request_roundtrip [where uuid = "''u1''" and st = ?st])
    show "isDynamic dynamic_sample" by code_simp
    show "wh_pathLength dynamic_sample = Some (length (split_at (CHR ''/'') (wh_path dynamic_sample)))"
      by code_simp
    show "length [''x'', ''7'', ''y''] = length (split_at (CHR ''/'') (wh_path dynamic_sample))" by code_simp
    show "distinct (variable_names (split_at (CHR ''/'') (wh_path dynamic_sample)))" by code_simp
    show "''u1/user/7/posts'' = join_with (CHR ''/'')
        (''u1'' # fill_path (split_at (CHR ''/'') (wh_path dynamic_sample)) [''x'', ''7'', ''y''])" by code_simp
    show "findStaticWebhook (ws_rows ?st) (wh_method dynamic_sample) ''u1/user/7/posts'' = None" by code_simp
    show "CHR ''/'' \<notin> set s" if "s \<in> set [''x'', ''7'', ''y'']" for s using that by auto
  qed (simp_all add: dynamic_sample_def)
  then show ?thesis by (simp add: dynamic_sample_def)
qed

text \<open>C32. Two workflows with the same variable path: the check for conflicts of the second one finds
  nothing, since it looks under its own identifier, but storing its webhook replaces the row of the
  first one, whose requests then find nothing.\<close>

theorem dynamic_registration_overwrites:
  assumes "v \<in> set (ws_rows st)" "distinct (map (\<lambda>w. (wh_method w, wh_path w)) (ws_rows st))"
    and "webhook_row n wb = w" "wh_method w = wh_method v" "wh_path w = wh_path v"
    and "wh_workflowId w \<noteq> wh_workflowId v"
    and "CHR '':'' \<in> set (wb_path wb)" "wb_path wb \<noteq> []" "wb_webhookId wb = Some uuid" "uuid \<noteq> []"
    and "CHR ''/'' \<notin> set uuid" "\<And>u. u \<in> set (ws_rows st) \<Longrightarrow> wh_id u \<noteq> Some uuid"
    and "findStaticWebhook (ws_rows st) (wb_method wb) (getWebhookPath wb) = None"
    and "obj_get (ws_cache st) (webhook_key (wb_method wb) (getWebhookPath wb)) = None"
  shows "cf_found (check_webhook (wb_workflowId wb) n wb
       \<lparr>cf_found = [], cf_processed = [], cf_store = st\<rparr>) = [] \<and>
    v \<notin> set (ws_rows (storeWebhook w st)) \<and>
    findDynamicWebhook (ws_rows (storeWebhook w st)) path meth \<noteq> Some v"
proof -
  have "v \<noteq> w" using assms(6) by auto
  then have gone: "v \<notin> set (ws_rows (storeWebhook w st))"
    using upsert_set [of "ws_rows st" w] assms(2,4,5)
    by (simp add: storeWebhook_def cache_set_def row_key_def [abs_def])
  have "getWebhookPath wb = uuid @ CHR ''/'' # wb_path wb"
    using assms(7-10) by (simp add: getWebhookPath_def)
  then have "segments (getWebhookPath wb) = uuid # segments (wb_path wb)"
    using split_at_append [OF assms(11)] by simp
  then have "dynamic_candidates (ws_rows st) (getWebhookPath wb) m = []" for m
    using assms(12) by (auto simp: dynamic_candidates_def filter_empty_conv)
  then have "fst (findCached st (wb_method wb) (getWebhookPath wb)) = None"
    using assms(13,14) by (simp add: findCached_def findDynamicWebhook_def)
  then have "cf_found (check_webhook (wb_workflowId wb) n wb
       \<lparr>cf_found = [], cf_processed = [], cf_store = st\<rparr>) = []"
    by (auto simp: check_webhook_def split: prod.splits)
  with gone show ?thesis
    using findDynamicWebhook_Some(1) [of "ws_rows (storeWebhook w st)" path meth v]
    by (auto simp: dynamic_candidates_def)
qed

definition second_node :: webhook_node where
  "second_node = \<lparr>wn_name = ''Webhook'', wn_disabled = False, wn_webhookId = Some ''u2'', wn_webhooks = None\<rparr>"

definition second_data :: webhook_data where
  "second_data = \<lparr>wb_method = ''GET'', wb_node = ''Webhook'', wb_path = ''user/:id/posts'',
     wb_workflowId = ''w2'', wb_webhookId = Some ''u2''\<rparr>"

lemma dynamic_registration_overwrites_witness:
  "findDynamicWebhook (ws_rows (storeWebhook (webhook_row second_node second_data)
     \<lparr>ws_rows = [dynamic_sample], ws_cache = [], ws_pending = []\<rparr>)) ''u1/user/7/posts'' (Some ''GET'')
     \<noteq> Some dynamic_sample"
proof (rule dynamic_registration_overwrites [where n = second_node and wb = second_data and uuid = "''u2''",
      THEN conjunct2, THEN conjunct2])
  show "wh_method (webhook_row second_node second_data) = wh_method dynamic_sample" by code_simp
  show "wh_path (webhook_row second_node second_data) = wh_path dynamic_sample" by code_simp
  show "wh_workflowId (webhook_row second_node second_data) \<noteq> wh_workflowId dynamic_sample" by code_simp
qed (auto simp: second_data_def findStaticWebhook_def getWebhookPath_def dynamic_sample_def)

section \<open>Where the cache goes wrong\<close>

text \<open>A lookup that has read the row of a webhook when its workflow is deactivated puts it into the cache
  afterwards, from which it is served though the table is empty.\<close>

definition raced_store :: webhook_store where
  "raced_store = \<lparr>ws_rows = [], ws_cache = [(webhook_key ''GET'' ''orders'', sample_webhook)], ws_pending = []\<rparr>"

lemma lookup_race_serves_deleted:
  "(webhook_step False)\<^sup>*\<^sup>* \<lparr>ws_rows = [sample_webhook], ws_cache = [], ws_pending = []\<rparr> raced_store \<and>
   ws_rows raced_store = [] \<and> fst (findCached raced_store ''GET'' ''orders'') = Some sample_webhook"
proof (intro conjI)
  let ?s0 = "\<lparr>ws_rows = [sample_webhook], ws_cache = [], ws_pending = []\<rparr>"
  let ?s1 = "snd (findCached ?s0 ''GET'' ''orders'')"
  let ?s2 = "deleteWorkflowWebhooks ''w1'' ?s1"
  have s1: "webhook_step False ?s0 ?s1" by (rule lookup) (simp add: plain_method_def)
  have s2: "webhook_step False ?s1 ?s2" by (rule delete) simp
  have e2: "?s2 = \<lparr>ws_rows = [], ws_cache = [], ws_pending = [(webhook_key ''GET'' ''orders'', sample_webhook)]\<rparr>"
    by code_simp
  have "webhook_step False ?s2 (cache_set (webhook_key ''GET'' ''orders'') sample_webhook (?s2\<lparr>ws_pending := [] @ []\<rparr>))"
    by (rule settle) (simp add: e2)
  also have "cache_set (webhook_key ''GET'' ''orders'') sample_webhook (?s2\<lparr>ws_pending := [] @ []\<rparr>) = raced_store"
    by (simp add: e2 raced_store_def cache_set_def)
  finally show "(webhook_step False)\<^sup>*\<^sup>* ?s0 raced_store"
    using s1 s2 by (meson rtranclp.rtrancl_into_rtrancl rtranclp.rtrancl_refl)
qed (simp_all add: raced_store_def findCached_def)

text \<open>A webhook without variables whose path has a colon is cached by a lookup under its path, but removed
  under a key that begins the path with a slash: it stays in the cache when its workflow is deactivated,
  without any overlap of the two.\<close>

lemma colon_path_survives_deletion:
  assumes "CHR '':'' \<in> set (wh_path w)" "wh_id w = None" "ws_rows st = [w]" "ws_cache st = []" "ws_pending st = []"
  defines "looked \<equiv> snd (findCached st (wh_method w) (wh_path w))"
    and "k \<equiv> webhook_key (wh_method w) (wh_path w)"
  shows "fst (findCached (deleteWorkflowWebhooks (wh_workflowId w) (cache_set k w (looked\<lparr>ws_pending := []\<rparr>)))
      (wh_method w) (wh_path w)) = Some w \<and>
    ws_pending looked = [(k, w)] \<and>
    ws_rows (deleteWorkflowWebhooks (wh_workflowId w) (cache_set k w (looked\<lparr>ws_pending := []\<rparr>))) = []"
proof -
  have looked: "looked = st\<lparr>ws_pending := [(k, w)]\<rparr>"
    using assms(3-5) by (simp add: looked_def k_def findCached_def findStaticWebhook_def)
  have "''/'' @ wh_path w \<noteq> wh_path w" by simp
  then have "cacheKey w \<noteq> k"
    using assms(1,2) by (auto simp: cacheKey_def uniquePath_def k_def webhook_key_def)
  then show ?thesis using assms(3,4)
    by (simp add: looked deleteWorkflowWebhooks_def cache_set_def findCached_def k_def)
qed

end
