(* ===== verification/Concurrency.thy ===== *)
theory Concurrency
  imports N8n_Prelude
begin

text \<open>
  The limit on concurrent executions of the server
  (\<^verbatim>\<open>packages/cli/src/concurrency\<close>): the queue of one kind of execution, the service that
  keeps a queue per kind, and the reservation an active execution holds.

  A promise is modelled by what resolves it: \<^verbatim>\<open>enqueue\<close> says whether its promise is resolved
  at once, and the operations that let a waiting execution go return its id. Events and telemetry are
  left out.
\<close>

section \<open>The queue\<close>

record concurrency_queue =
  cq_capacity :: int
  cq_queue :: "string list"

definition new_queue :: "int \<Rightarrow> concurrency_queue" where
  "new_queue capacity = \<lparr>cq_capacity = capacity, cq_queue = []\<rparr>"

definition cq_enqueue :: "string \<Rightarrow> concurrency_queue \<Rightarrow> bool \<times> concurrency_queue" where
  "cq_enqueue executionId q =
     (let q1 = q\<lparr>cq_capacity := cq_capacity q - 1\<rparr> in
      if cq_capacity q1 < 0 then (False, q1\<lparr>cq_queue := cq_queue q1 @ [executionId]\<rparr>) else (True, q1))"

definition resolveNext :: "concurrency_queue \<Rightarrow> string option \<times> concurrency_queue" where
  "resolveNext q = (case cq_queue q of
       [] \<Rightarrow> (None, q)
     | executionId # rest \<Rightarrow> (Some executionId, q\<lparr>cq_queue := rest\<rparr>))"

definition cq_dequeue :: "concurrency_queue \<Rightarrow> string option \<times> concurrency_queue" where
  "cq_dequeue q = resolveNext (q\<lparr>cq_capacity := cq_capacity q + 1\<rparr>)"

definition cq_has :: "string \<Rightarrow> concurrency_queue \<Rightarrow> bool" where
  "cq_has executionId q \<longleftrightarrow> executionId \<in> set (cq_queue q)"

text \<open>\<^verbatim>\<open>findIndex\<close> and \<^verbatim>\<open>splice\<close>: the first entry of the execution goes.\<close>

definition cq_remove :: "string \<Rightarrow> concurrency_queue \<Rightarrow> string option \<times> concurrency_queue" where
  "cq_remove executionId q =
     (if executionId \<in> set (cq_queue q)
      then resolveNext (q\<lparr>cq_queue := remove1 executionId (cq_queue q), cq_capacity := cq_capacity q + 1\<rparr>)
      else (None, q))"

definition cq_getAll :: "concurrency_queue \<Rightarrow> string list" where
  "cq_getAll q = set_of_list (cq_queue q)"

section \<open>The service\<close>

datatype concurrency_error = InvalidConcurrencyLimit int | UnknownExecutionMode string
  | CapacityAlreadyReserved

record control =
  cc_enabled :: bool
  cc_queues :: "(string, concurrency_queue) obj"

definition checked_limit :: "int \<Rightarrow> concurrency_error + int" where
  "checked_limit limit = (if limit = 0 then Inl (InvalidConcurrencyLimit limit)
     else Inr (if limit < -1 then -1 else limit))"

text \<open>The constructor. A disabled service has no queues, and its operations do not look for them.\<close>

definition new_control :: "int \<Rightarrow> int \<Rightarrow> bool \<Rightarrow> concurrency_error + control" where
  "new_control productionLimit evaluationLimit queueMode =
     bindE (checked_limit productionLimit) (\<lambda>production.
     bindE (checked_limit evaluationLimit) (\<lambda>evaluation.
       if (production = -1 \<and> evaluation = -1) \<or> queueMode then Inr \<lparr>cc_enabled = False, cc_queues = []\<rparr>
       else Inr \<lparr>cc_enabled = True, cc_queues = map (\<lambda>(ty, limit). (ty, new_queue limit))
         (filter (\<lambda>(ty, limit). 0 < limit) [(''production'', production), (''evaluation'', evaluation)])\<rparr>))"

text \<open>The type of the queue of a mode, if the mode is limited at all.\<close>

definition queue_type :: "string \<Rightarrow> concurrency_error + string option" where
  "queue_type mode =
     (if mode \<in> {''error'', ''integrated'', ''cli'', ''internal'', ''manual'', ''retry''} then Inr None
      else if mode \<in> {''webhook'', ''trigger'', ''chat''} then Inr (Some ''production'')
      else if mode = ''evaluation'' then Inr (Some ''evaluation'')
      else Inl (UnknownExecutionMode mode))"

definition getQueue :: "control \<Rightarrow> string \<Rightarrow> concurrency_error + (string \<times> concurrency_queue) option" where
  "getQueue c mode = bindE (queue_type mode) (\<lambda>ty. Inr (case ty of
       None \<Rightarrow> None
     | Some ty \<Rightarrow> map_option (Pair ty) (obj_get (cc_queues c) ty)))"

definition put_queue :: "string \<Rightarrow> concurrency_queue \<Rightarrow> control \<Rightarrow> control" where
  "put_queue ty q c = c\<lparr>cc_queues := obj_set ty q (cc_queues c)\<rparr>"

definition control_has :: "control \<Rightarrow> string \<Rightarrow> bool" where
  "control_has c executionId \<longleftrightarrow>
     cc_enabled c \<and> (\<exists>q \<in> set (obj_values (cc_queues c)). cq_has executionId q)"

text \<open>Whether the execution may go on at once.\<close>

definition throttle :: "control \<Rightarrow> string \<Rightarrow> string \<Rightarrow> concurrency_error + (bool \<times> control)" where
  "throttle c mode executionId =
     (if \<not> cc_enabled c then Inr (True, c)
      else bindE (getQueue c mode) (\<lambda>found. case found of
          None \<Rightarrow> Inr (True, c)
        | Some (ty, q) \<Rightarrow> (case cq_enqueue executionId q of (go, q') \<Rightarrow> Inr (go, put_queue ty q' c))))"

definition control_release :: "control \<Rightarrow> string \<Rightarrow> concurrency_error + (string option \<times> control)" where
  "control_release c mode =
     (if \<not> cc_enabled c then Inr (None, c)
      else bindE (getQueue c mode) (\<lambda>found. case found of
          None \<Rightarrow> Inr (None, c)
        | Some (ty, q) \<Rightarrow> (case cq_dequeue q of (next_id, q') \<Rightarrow> Inr (next_id, put_queue ty q' c))))"

definition control_remove :: "control \<Rightarrow> string \<Rightarrow> string \<Rightarrow> concurrency_error + (string option \<times> control)" where
  "control_remove c mode executionId =
     (if \<not> cc_enabled c then Inr (None, c)
      else bindE (getQueue c mode) (\<lambda>found. case found of
          None \<Rightarrow> Inr (None, c)
        | Some (ty, q) \<Rightarrow> (case cq_remove executionId q of (next_id, q') \<Rightarrow> Inr (next_id, put_queue ty q' c))))"

text \<open>Removing many executions: the ids of those that are let go meanwhile, in order.\<close>

fun remove_ids :: "string list \<Rightarrow> concurrency_queue \<Rightarrow> string list \<times> concurrency_queue" where
  "remove_ids [] q = ([], q)"
| "remove_ids (executionId # ids) q =
     (case cq_remove executionId q of (next_id, q1) \<Rightarrow>
      case remove_ids ids q1 of (released, q2) \<Rightarrow>
        ((case next_id of None \<Rightarrow> released | Some i \<Rightarrow> i # released), q2))"

text \<open>The ids that are let go, those to be canceled in the database, and the service after it.\<close>

definition removeAll :: "control \<Rightarrow> string list \<Rightarrow> string list \<times> string list \<times> control" where
  "removeAll c executionIdsToCancel =
     (if \<not> cc_enabled c then ([], [], c)
      else let results = map (\<lambda>(ty, q). (ty, remove_ids (cq_getAll q) q)) (cc_queues c)
           in (concat (map (\<lambda>(ty, released, q). released) results), executionIdsToCancel,
               c\<lparr>cc_queues := map (\<lambda>(ty, released, q). (ty, q)) results\<rparr>))"

definition disable :: "control \<Rightarrow> control" where
  "disable c = c\<lparr>cc_enabled := False\<rparr>"

section \<open>The reservation\<close>

text \<open>What an active execution holds: the mode and the id it has capacity for.\<close>

type_synonym reservation = "(string \<times> string) option"

text \<open>\<^verbatim>\<open>reserve\<close> up to its await, and what follows once the promise is resolved.\<close>

definition reserve :: "control \<Rightarrow> string \<Rightarrow> string \<Rightarrow> reservation \<Rightarrow> concurrency_error + (bool \<times> control)" where
  "reserve c mode executionId held =
     bindE (guardE (held = None) CapacityAlreadyReserved) (\<lambda>_. throttle c mode executionId)"

definition reserved :: "string \<Rightarrow> string \<Rightarrow> reservation" where
  "reserved mode executionId = Some (mode, executionId)"

definition release_reservation ::
  "control \<Rightarrow> reservation \<Rightarrow> concurrency_error + (string option \<times> control \<times> reservation)" where
  "release_reservation c held = (case held of
       None \<Rightarrow> Inr (None, c, None)
     | Some (mode, executionId) \<Rightarrow>
         bindE (control_release c mode) (\<lambda>(next_id, c'). Inr (next_id, c', None)))"

section \<open>Executions over time\<close>

text \<open>
  The queue together with the executions it has let through and that hold capacity: an execution
  is started (\<^verbatim>\<open>ActiveExecutions.add\<close>), finishes and releases its capacity, or is stopped while it
  waits (\<^verbatim>\<open>ExecutionService.stopInRegularMode\<close>).
\<close>

record admission =
  ad_queue :: concurrency_queue
  ad_running :: "string list"

datatype admission_event = Start string | Finish string | Stop string

definition let_go :: "string option \<times> concurrency_queue \<Rightarrow> string list \<Rightarrow> admission" where
  "let_go r running = \<lparr>ad_queue = snd r, ad_running = running @ (case fst r of None \<Rightarrow> [] | Some i \<Rightarrow> [i])\<rparr>"

fun admission_step :: "admission \<Rightarrow> admission_event \<Rightarrow> admission option" where
  "admission_step st (Start i) =
     (if i \<in> set (ad_running st) \<union> set (cq_queue (ad_queue st)) then None
      else (case cq_enqueue i (ad_queue st) of (go, q) \<Rightarrow>
        Some \<lparr>ad_queue = q, ad_running = ad_running st @ (if go then [i] else [])\<rparr>))"
| "admission_step st (Finish i) =
     (if i \<in> set (ad_running st) then Some (let_go (cq_dequeue (ad_queue st)) (remove1 i (ad_running st))) else None)"
| "admission_step st (Stop i) =
     (if cq_has i (ad_queue st) then Some (let_go (cq_remove i (ad_queue st)) (ad_running st)) else None)"

fun admission_run :: "admission \<Rightarrow> admission_event list \<Rightarrow> admission option" where
  "admission_run st [] = Some st"
| "admission_run st (e # es) = (case admission_step st e of None \<Rightarrow> None | Some st' \<Rightarrow> admission_run st' es)"

definition admission_init :: "int \<Rightarrow> admission" where
  "admission_init limit = \<lparr>ad_queue = new_queue limit, ad_running = []\<rparr>"

definition stops :: "admission_event list \<Rightarrow> nat" where
  "stops es = length (filter (\<lambda>e. case e of Stop i \<Rightarrow> True | _ \<Rightarrow> False) es)"

definition finishes :: "admission_event list \<Rightarrow> nat" where
  "finishes es = length (filter (\<lambda>e. case e of Finish i \<Rightarrow> True | _ \<Rightarrow> False) es)"

end
