(* ===== verification/Concurrency_Facts.thy ===== *)
theory Concurrency_Facts
  imports Concurrency
begin

text \<open>
  The limit on concurrent executions over time: the capacity, the executions that run although the limit is
  reached, and the fairness of the queue. The laws the proofs rest on are the locale
  \<open>admission_queue\<close>, which the queue of the code satisfies.
\<close>

section \<open>Laws of the queue\<close>

lemma stops_simps [simp]:
  "stops [] = 0" "stops (Start i # es) = stops es" "stops (Finish i # es) = stops es" "stops (Stop i # es) = Suc (stops es)"
  "stops (es @ es') = stops es + stops es'"
  by (simp_all add: stops_def)

lemma finishes_simps [simp]:
  "finishes [] = 0" "finishes (Start i # es) = finishes es" "finishes (Finish i # es) = Suc (finishes es)"
  "finishes (Stop i # es) = finishes es"
  by (simp_all add: finishes_def)

lemma admission_run_append:
  "admission_run st (es @ es') = (case admission_run st es of None \<Rightarrow> None | Some st' \<Rightarrow> admission_run st' es')"
  by (induction es arbitrary: st) (auto split: option.split)

lemma remove1_length: "x \<in> set xs \<Longrightarrow> length xs = Suc (length (remove1 x xs))"
  by (induction xs) auto

text \<open>
  What the executions rely on: starting takes one unit of capacity, and waits exactly when there is none
  left; finishing and stopping give one back and let the first one go that waits.
\<close>

locale admission_queue =
  fixes start :: "'i \<Rightarrow> 'q \<Rightarrow> bool \<times> 'q"
    and finish :: "'q \<Rightarrow> 'i option \<times> 'q"
    and stop :: "'i \<Rightarrow> 'q \<Rightarrow> 'i option \<times> 'q"
    and free :: "'q \<Rightarrow> int"
    and waits :: "'q \<Rightarrow> 'i list"
  assumes start_go: "start i q = (go, q') \<Longrightarrow> go \<longleftrightarrow> 0 < free q"
    and start_free: "start i q = (go, q') \<Longrightarrow> free q' = free q - 1"
    and start_waits: "start i q = (go, q') \<Longrightarrow> waits q' = waits q @ (if go then [] else [i])"
    and finish_free: "finish q = (n, q') \<Longrightarrow> free q' = free q + 1"
    and finish_waits: "finish q = (n, q') \<Longrightarrow> (case n of None \<Rightarrow> [] | Some j \<Rightarrow> [j]) @ waits q' = waits q"
    and finish_none: "finish q = (None, q') \<Longrightarrow> waits q = []"
    and stop_free: "i \<in> set (waits q) \<Longrightarrow> stop i q = (n, q') \<Longrightarrow> free q' = free q + 1"
    and stop_waits: "i \<in> set (waits q) \<Longrightarrow> stop i q = (n, q') \<Longrightarrow>
      (case n of None \<Rightarrow> [] | Some j \<Rightarrow> [j]) @ waits q' = remove1 i (waits q)"
    and stop_none: "i \<in> set (waits q) \<Longrightarrow> stop i q = (None, q') \<Longrightarrow> remove1 i (waits q) = []"
begin

text \<open>The account of a queue with a limit: what is free, what runs, what waits, and the excess.\<close>

definition balanced :: "int \<Rightarrow> nat \<Rightarrow> 'q \<Rightarrow> 'i list \<Rightarrow> bool" where
  "balanced limit excess q running \<longleftrightarrow>
     free q = limit - int (length running) - int (length (waits q)) \<and> distinct (running @ waits q) \<and>
     int (length running) \<le> limit + int excess \<and> (waits q \<noteq> [] \<longrightarrow> limit \<le> int (length running))"

lemma start_balanced:
  assumes "balanced limit excess q running" "start i q = (go, q')" "i \<notin> set running \<union> set (waits q)"
  shows "balanced limit excess q' (running @ (if go then [i] else []))"
  using assms(1,3) start_go [OF assms(2)] start_free [OF assms(2)] start_waits [OF assms(2)]
  by (cases "waits q = []") (auto simp: balanced_def)

lemma finish_balanced:
  assumes "balanced limit excess q running" "finish q = (n, q')" "i \<in> set running"
  shows "balanced limit excess q' (remove1 i running @ (case n of None \<Rightarrow> [] | Some j \<Rightarrow> [j]))"
  using assms(1) remove1_length [OF assms(3)] finish_free [OF assms(2)] finish_waits [OF assms(2), symmetric]
    finish_none [of q q'] assms(2) set_remove1_subset [of i running] distinct_remove1 [of running i]
  by (cases n) (auto simp: balanced_def)

lemma stop_balanced:
  assumes "balanced limit excess q running" "stop i q = (n, q')" "i \<in> set (waits q)"
  shows "balanced limit (Suc excess) q' (running @ (case n of None \<Rightarrow> [] | Some j \<Rightarrow> [j]))"
  using assms(1) remove1_length [OF assms(3)] stop_free [OF assms(3,2)] stop_waits [OF assms(3,2), symmetric]
    stop_none [OF assms(3), of q'] assms(2) set_remove1_subset [of i "waits q"] distinct_remove1 [of "waits q" i]
  by (cases n) (auto simp: balanced_def)

end

lemma resolveNext_cases:
  "resolveNext q = (n, q') \<Longrightarrow> cq_capacity q' = cq_capacity q \<and>
     (case n of None \<Rightarrow> [] | Some j \<Rightarrow> [j]) @ cq_queue q' = cq_queue q \<and> (n = None \<longrightarrow> cq_queue q = [])"
  by (auto simp: resolveNext_def split: list.splits)

interpretation cq: admission_queue cq_enqueue cq_dequeue cq_remove cq_capacity cq_queue
  by unfold_locales (auto simp: cq_enqueue_def cq_dequeue_def cq_remove_def Let_def
      dest: resolveNext_cases split: if_splits)

lemma admission_step_balanced:
  assumes "cq.balanced limit excess (ad_queue st) (ad_running st)" "admission_step st e = Some st'"
  shows "cq.balanced limit (excess + stops [e]) (ad_queue st') (ad_running st')"
proof (cases e)
  case (Start i)
  obtain go q where q: "cq_enqueue i (ad_queue st) = (go, q)" by fastforce
  with Start assms cq.start_balanced [OF assms(1) q] show ?thesis by (auto split: if_splits)
next
  case (Finish i)
  obtain n q where q: "cq_dequeue (ad_queue st) = (n, q)" by fastforce
  with Finish assms cq.finish_balanced [OF assms(1) q] show ?thesis by (auto simp: let_go_def split: if_splits)
next
  case (Stop i)
  obtain n q where q: "cq_remove i (ad_queue st) = (n, q)" by fastforce
  with Stop assms cq.stop_balanced [OF assms(1) q] show ?thesis by (auto simp: let_go_def cq_has_def split: if_splits)
qed

lemma admission_run_balanced:
  "cq.balanced limit excess (ad_queue st) (ad_running st) \<Longrightarrow> admission_run st es = Some st' \<Longrightarrow>
     cq.balanced limit (excess + stops es) (ad_queue st') (ad_running st')"
proof (induction es arbitrary: st excess)
  case (Cons e es)
  from Cons.prems(2) obtain st1 where "admission_step st e = Some st1" "admission_run st1 es = Some st'"
    by (auto split: option.splits)
  with Cons.IH admission_step_balanced [OF Cons.prems(1)] show ?case
    using stops_simps(5) [of "[e]" es] by (metis add.assoc append_Cons append_Nil)
qed simp

lemma admission_init_balanced: "0 < limit \<Longrightarrow> cq.balanced limit 0 (ad_queue (admission_init limit)) (ad_running (admission_init limit))"
  by (simp add: admission_init_def new_queue_def cq.balanced_def)


section \<open>Waiting executions\<close>

text \<open>A waiting execution that is not stopped moves up with every execution that finishes.\<close>

lemma index_tl:
  assumes "distinct ws" "k < length ws" "ws ! k = i"
  shows "(k = 0 \<and> (\<exists>rest. ws = i # rest \<and> i \<notin> set rest)) \<or>
    (\<exists>j rest k'. k = Suc k' \<and> ws = j # rest \<and> j \<noteq> i \<and> k' < length rest \<and> rest ! k' = i)"
  using assms by (cases ws; cases k) auto

lemma index_remove1:
  assumes "distinct ws" "k < length ws" "ws ! k = i" "j \<in> set ws" "j \<noteq> i"
  shows "\<exists>k' \<le> k. k' < length (remove1 j ws) \<and> remove1 j ws ! k' = i"
  using assms
proof (induction ws arbitrary: k)
  case (Cons w ws)
  show ?case
  proof (cases "w = j")
    case True
    with Cons.prems obtain k' where "k = Suc k'" by (cases k) auto
    with Cons.prems True show ?thesis by (intro exI [of _ k']) auto
  next
    case False
    show ?thesis
    proof (cases k)
      case 0
      then show ?thesis using Cons.prems False by (intro exI [of _ 0]) auto
    next
      case (Suc k1)
      with Cons.prems False Cons.IH [of k1] obtain k' where
        "k' \<le> k1" "k' < length (remove1 j ws)" "remove1 j ws ! k' = i" by auto
      then show ?thesis using False Suc by (intro exI [of _ "Suc k'"]) auto
    qed
  qed
qed simp

lemma let_go_index:
  assumes "distinct ws" "k < length ws" "ws ! k = i" and q: "cq_queue q = ws"
  shows "i \<in> set (ad_running (let_go (resolveNext q) running)) \<or>
    (\<exists>k'. Suc k' = k \<and> k' < length (cq_queue (ad_queue (let_go (resolveNext q) running))) \<and>
       cq_queue (ad_queue (let_go (resolveNext q) running)) ! k' = i)"
  using index_tl [OF assms(1-3)] q by (auto simp: let_go_def resolveNext_def)

lemma admission_step_index:
  assumes "distinct (cq_queue (ad_queue st))" "admission_step st e = Some st'" "e \<noteq> Stop i"
    and "k < length (cq_queue (ad_queue st))" "cq_queue (ad_queue st) ! k = i"
  shows "i \<in> set (ad_running st') \<or>
    (\<exists>k'. k' + finishes [e] \<le> k \<and> k' < length (cq_queue (ad_queue st')) \<and> cq_queue (ad_queue st') ! k' = i)"
proof (cases e)
  case (Start j)
  then show ?thesis using assms by (auto simp: cq_enqueue_def Let_def nth_append split: if_splits intro!: exI [of _ k])
next
  case (Finish j)
  with assms(2) have st': "st' = let_go (resolveNext ((ad_queue st)\<lparr>cq_capacity := cq_capacity (ad_queue st) + 1\<rparr>))
      (remove1 j (ad_running st))"
    by (auto simp: cq_dequeue_def split: if_splits)
  have "cq_queue ((ad_queue st)\<lparr>cq_capacity := cq_capacity (ad_queue st) + 1\<rparr>) = cq_queue (ad_queue st)" by simp
  from let_go_index [OF assms(1,4,5) this, of "remove1 j (ad_running st)"] show ?thesis
    unfolding st' using Finish by fastforce
next
  case (Stop j)
  let ?ws = "cq_queue (ad_queue st)"
  from Stop assms(2,3) have j: "j \<in> set ?ws" "j \<noteq> i" by (auto simp: cq_has_def split: if_splits)
  with Stop assms(2) have st': "st' = let_go (resolveNext ((ad_queue st)\<lparr>cq_queue := remove1 j ?ws,
      cq_capacity := cq_capacity (ad_queue st) + 1\<rparr>)) (ad_running st)"
    by (auto simp: cq_remove_def cq_has_def)
  from index_remove1 [OF assms(1,4,5) j] obtain k' where
    k': "k' \<le> k" "k' < length (remove1 j ?ws)" "remove1 j ?ws ! k' = i" by blast
  have "cq_queue ((ad_queue st)\<lparr>cq_queue := remove1 j ?ws, cq_capacity := cq_capacity (ad_queue st) + 1\<rparr>) = remove1 j ?ws"
    by simp
  from let_go_index [OF distinct_remove1 [OF assms(1), of j] k'(2,3) this, of "ad_running st"] show ?thesis
    unfolding st' using k'(1) Stop by fastforce
qed

lemma admission_run_serves:
  assumes "cq.balanced limit excess (ad_queue st) (ad_running st)" "admission_run st es = Some st'" "Stop i \<notin> set es"
    and "k < length (cq_queue (ad_queue st))" "cq_queue (ad_queue st) ! k = i" "k < finishes es"
  shows "\<exists>es1 es2 st1. es = es1 @ es2 \<and> admission_run st es1 = Some st1 \<and> i \<in> set (ad_running st1)"
  using assms
proof (induction es arbitrary: st k excess)
  case (Cons e es)
  from Cons.prems(2) obtain st1 where st1: "admission_step st e = Some st1" "admission_run st1 es = Some st'"
    by (auto split: option.splits)
  have "distinct (cq_queue (ad_queue st))" using Cons.prems(1) by (simp add: cq.balanced_def)
  moreover have "e \<noteq> Stop i" using Cons.prems(3) by auto
  ultimately consider "i \<in> set (ad_running st1)"
    | k' where "k' + finishes [e] \<le> k" "k' < length (cq_queue (ad_queue st1))" "cq_queue (ad_queue st1) ! k' = i"
    using admission_step_index [OF _ st1(1) _ Cons.prems(4,5)] by blast
  then show ?case
  proof cases
    case 1
    then show ?thesis using st1(1) by (intro exI [of _ "[e]"] exI [of _ es] exI [of _ st1]) simp
  next
    case (2 k')
    have "k' < finishes es" using 2(1) Cons.prems(6) by (cases e) auto
    with Cons.IH [OF admission_step_balanced [OF Cons.prems(1) st1(1)] st1(2) _ 2(2,3)] Cons.prems(3)
    obtain es1 es2 st2 where "es = es1 @ es2" "admission_run st1 es1 = Some st2" "i \<in> set (ad_running st2)" by auto
    then show ?thesis using st1(1) by (intro exI [of _ "e # es1"] exI [of _ es2] exI [of _ st2]) simp
  qed
qed simp

section \<open>Stopping executions that wait\<close>

fun every_second :: "'a list \<Rightarrow> 'a list" where
  "every_second [] = []"
| "every_second [x] = []"
| "every_second (x # y # xs) = y # every_second xs"

lemma every_second_length: "length (every_second xs) = length xs div 2"
  by (induction xs rule: every_second.induct) auto

lemma set_of_list_id: "distinct xs \<Longrightarrow> set_of_list xs = xs"
proof -
  have "fold set_add xs ys = ys @ xs" if "distinct (ys @ xs)" for ys
    using that by (induction xs arbitrary: ys) (auto simp: set_add_def)
  from this [of "[]"] show "distinct xs \<Longrightarrow> set_of_list xs = xs" by (simp add: set_of_list_def)
qed

lemma remove_ids_all:
  "distinct ids \<Longrightarrow> cq_queue q = ids \<Longrightarrow> remove_ids ids q =
     (every_second ids, \<lparr>cq_capacity = cq_capacity q + int (length ids - length ids div 2), cq_queue = []\<rparr>)"
proof (induction ids arbitrary: q rule: every_second.induct)
  case (3 x y xs)
  let ?q = "\<lparr>cq_capacity = cq_capacity q + 1, cq_queue = xs\<rparr>"
  have "cq_remove x q = (Some y, ?q)" using 3(3) by (simp add: cq_remove_def resolveNext_def)
  moreover have "cq_remove y ?q = (None, ?q)" using 3(2) by (simp add: cq_remove_def)
  ultimately show ?case using 3 by (auto simp: of_nat_diff split: prod.split)
next
  case (2 x)
  then show ?case by (simp add: cq_remove_def resolveNext_def)
qed simp

lemma starts_fill:
  assumes "distinct (ids :: string list)" "0 < limit"
  shows "admission_run (admission_init limit) (map Start ids) = Some
    \<lparr>ad_queue = \<lparr>cq_capacity = limit - int (length ids), cq_queue = drop (nat limit) ids\<rparr>, ad_running = take (nat limit) ids\<rparr>"
  using assms(1)
proof (induction ids rule: rev_induct)
  case Nil
  then show ?case by (simp add: admission_init_def new_queue_def)
next
  case (snoc i ids)
  have "i \<notin> set (take (nat limit) ids) \<union> set (drop (nat limit) ids)"
    using snoc.prems by (auto dest: in_set_takeD in_set_dropD)
  then show ?case using snoc assms(2)
    by (auto simp: admission_run_append cq_enqueue_def Let_def nat_le_iff)
qed

lemma stops_every_second:
  "distinct ws \<Longrightarrow> even (length ws) \<Longrightarrow> cq_queue (ad_queue st) = ws \<Longrightarrow>
     \<exists>es st'. admission_run st es = Some st' \<and> stops es = length ws div 2 \<and>
       ad_running st' = ad_running st @ every_second ws"
proof (induction ws arbitrary: st rule: every_second.induct)
  case (3 x y xs)
  obtain st1 where st1: "admission_step st (Stop x) = Some st1" "ad_running st1 = ad_running st @ [y]"
    "cq_queue (ad_queue st1) = xs"
    using 3(4) by (auto simp: cq_has_def cq_remove_def resolveNext_def let_go_def)
  have "\<exists>es st'. admission_run st1 es = Some st' \<and> stops es = length xs div 2 \<and> ad_running st' = ad_running st1 @ every_second xs"
    by (rule 3(1)) (use 3(2,3) st1(3) in auto)
  then obtain es st' where "admission_run st1 es = Some st'" "stops es = length xs div 2"
    "ad_running st' = ad_running st1 @ every_second xs" by blast
  with st1 show ?case by (intro exI [of _ "Stop x # es"] exI [of _ st']) simp
qed (auto intro: exI [of _ "[]"])

section \<open>Properties of the limit\<close>

text \<open>C13. Whatever executions start, finish or are stopped while they wait, the capacity counts those
  that run or wait; an execution waits only while the limit is reached; and no more run than the
  limit, plus one for each that was stopped.\<close>

theorem capacity_accounted:
  assumes "admission_run (admission_init limit) es = Some st" "0 < limit"
  shows "cq_capacity (ad_queue st) = limit - int (length (ad_running st)) - int (length (cq_queue (ad_queue st))) \<and>
    distinct (ad_running st @ cq_queue (ad_queue st)) \<and>
    int (length (ad_running st)) \<le> limit + int (stops es) \<and>
    (cq_queue (ad_queue st) \<noteq> [] \<longrightarrow> limit \<le> int (length (ad_running st)))"
  using admission_run_balanced [OF admission_init_balanced [OF assms(2)] assms(1)] by (simp add: cq.balanced_def)

definition busy :: admission where
  "busy = \<lparr>ad_queue = \<lparr>cq_capacity = -2, cq_queue = [''b'', ''c'']\<rparr>, ad_running = [''a'']\<rparr>"

lemma busy_run: "admission_run (admission_init 1) [Start ''a'', Start ''b'', Start ''c''] = Some busy"
  by code_simp

lemma capacity_accounted_witness:
  "cq_capacity (ad_queue busy) = 1 - int (length (ad_running busy)) - int (length (cq_queue (ad_queue busy))) \<and>
    distinct (ad_running busy @ cq_queue (ad_queue busy)) \<and>
    int (length (ad_running busy)) \<le> 1 + int (stops [Start ''a'', Start ''b'', Start ''c''])"
  using capacity_accounted [OF busy_run] by simp

text \<open>The limit can be exceeded by any number: stopping an execution that waits lets the next one
  go although none has finished.\<close>

theorem stops_exceed_limit:
  assumes "0 < limit"
  shows "\<exists>es st. admission_run (admission_init limit) es = Some st \<and> stops es = n \<and>
    int (length (ad_running st)) = limit + int n"
proof -
  define ids where "ids = map string_of_nat [0..<nat limit + 2 * n]"
  have ids: "distinct ids" "length ids = nat limit + 2 * n"
    by (auto simp: ids_def distinct_map inj_on_def dest: string_of_nat_inj)
  let ?st = "\<lparr>ad_queue = \<lparr>cq_capacity = limit - int (length ids), cq_queue = drop (nat limit) ids\<rparr>, ad_running = take (nat limit) ids\<rparr>"
  have "\<exists>es st'. admission_run ?st es = Some st' \<and> stops es = length (drop (nat limit) ids) div 2 \<and>
      ad_running st' = ad_running ?st @ every_second (drop (nat limit) ids)"
    by (rule stops_every_second) (use ids in auto)
  then obtain es st' where es: "admission_run ?st es = Some st'" "stops es = n"
    "ad_running st' = take (nat limit) ids @ every_second (drop (nat limit) ids)" using ids(2) by auto
  moreover have "stops (map Start ids) = 0" by (induction ids) auto
  ultimately show ?thesis using starts_fill [OF ids(1) assms] ids(2) assms
    by (intro exI [of _ "map Start ids @ es"] exI [of _ st']) (simp add: admission_run_append every_second_length)
qed

lemma stops_exceed_limit_witness:
  "\<exists>es st. admission_run (admission_init 1) es = Some st \<and> stops es = 2 \<and> int (length (ad_running st)) = 3"
  using stops_exceed_limit [of 1 2] by simp

text \<open>C27. The queue is fair: an execution with \<open>k\<close> others before it that is not stopped runs at the latest
  when the \<open>k + 1\<close>st execution has finished.\<close>

theorem waiting_is_served:
  assumes "admission_run (admission_init limit) es0 = Some st" "0 < limit"
    and "k < length (cq_queue (ad_queue st))"
    and "admission_run st es = Some st'" "Stop (cq_queue (ad_queue st) ! k) \<notin> set es" "k < finishes es"
  shows "\<exists>es1 es2 st1. es = es1 @ es2 \<and> admission_run st es1 = Some st1 \<and>
    cq_queue (ad_queue st) ! k \<in> set (ad_running st1)"
  using admission_run_serves [OF admission_run_balanced [OF admission_init_balanced [OF assms(2)] assms(1)] assms(4,5,3) refl assms(6)] .

lemma waiting_is_served_witness:
  "\<exists>es1 es2 st1. [Finish ''a'', Finish ''b''] = es1 @ es2 \<and> admission_run busy es1 = Some st1 \<and> ''c'' \<in> set (ad_running st1)"
proof -
  have run: "admission_run busy [Finish ''a'', Finish ''b''] =
      Some \<lparr>ad_queue = \<lparr>cq_capacity = 0, cq_queue = []\<rparr>, ad_running = [''c'']\<rparr>"
    by code_simp
  show ?thesis using waiting_is_served [OF busy_run _ _ run, where k = 1] by (simp add: busy_def)
qed

text \<open>Removing all waiting executions empties the queues, but lets every second execution go instead
  of removing it, and gives back the capacity of the others only.\<close>

theorem removeAll_lets_go:
  assumes "cc_enabled c" "\<forall>q \<in> set (obj_values (cc_queues c)). distinct (cq_queue q)"
  shows "removeAll c ids = (concat (map (\<lambda>q. every_second (cq_queue q)) (obj_values (cc_queues c))), ids,
    c\<lparr>cc_queues := map (\<lambda>(ty, q). (ty,
        \<lparr>cq_capacity = cq_capacity q + int (length (cq_queue q) - length (cq_queue q) div 2), cq_queue = []\<rparr>)) (cc_queues c)\<rparr>)"
proof -
  have "map (\<lambda>(ty, q). (ty, remove_ids (cq_getAll q) q)) (cc_queues c) =
      map (\<lambda>(ty, q). (ty, every_second (cq_queue q),
        \<lparr>cq_capacity = cq_capacity q + int (length (cq_queue q) - length (cq_queue q) div 2), cq_queue = []\<rparr>)) (cc_queues c)"
    using assms(2) by (force simp: cq_getAll_def set_of_list_id remove_ids_all)
  note results = this
  show ?thesis unfolding removeAll_def results Let_def using assms(1) by (simp add: comp_def case_prod_unfold)
qed

definition waiting_control :: control where
  "waiting_control = \<lparr>cc_enabled = True, cc_queues = [(''production'', ad_queue busy)]\<rparr>"

lemma removeAll_lets_go_witness:
  "removeAll waiting_control [] = ([''c''], [],
     \<lparr>cc_enabled = True, cc_queues = [(''production'', \<lparr>cq_capacity = -1, cq_queue = []\<rparr>)]\<rparr>)"
  using removeAll_lets_go [of waiting_control "[]"] by (simp add: waiting_control_def busy_def)

section \<open>The service and the reservation\<close>

text \<open>The mode \<^verbatim>\<open>agent\<close> is in \<^verbatim>\<open>WorkflowExecuteModeList\<close>, but has no queue.\<close>

lemma agent_mode_unknown: "cc_enabled c \<Longrightarrow> throttle c ''agent'' executionId = Inl (UnknownExecutionMode ''agent'')"
  by (simp add: throttle_def getQueue_def queue_type_def)

text \<open>At a shutdown the service is disabled first, and then nothing is removed or canceled.\<close>

lemma shutdown_removes_nothing: "removeAll (disable c) ids = ([], [], disable c)"
  by (simp add: removeAll_def disable_def)

lemma put_queue_other: "ty' \<noteq> ty \<Longrightarrow> obj_get (cc_queues (put_queue ty q c)) ty' = obj_get (cc_queues c) ty'"
  by (simp add: put_queue_def)

text \<open>The operations on a mode work on its queue and leave the others alone.\<close>

lemma throttle_queue:
  assumes "cc_enabled c" "queue_type mode = Inr (Some ty)" "obj_get (cc_queues c) ty = Some q"
  shows "throttle c mode executionId =
    Inr (fst (cq_enqueue executionId q), put_queue ty (snd (cq_enqueue executionId q)) c)"
  using assms by (simp add: throttle_def getQueue_def split: prod.split)

text \<open>A reservation gives its capacity back once.\<close>

lemma release_once:
  assumes "release_reservation c held = Inr (released, c', held')"
  shows "held' = None \<and> release_reservation c' held' = Inr (None, c', None)"
  using assms by (auto simp: release_reservation_def bindE_Inr_iff split: option.splits)

end
