(* ===== verification/Workflow_Diff.thy ===== *)
theory Workflow_Diff
  imports N8n_Types
begin

text \<open>
  Comparing and compacting versions of a workflow (\<^verbatim>\<open>packages/workflow/src/workflow-diff.ts\<close> and
  \<^verbatim>\<open>connections-diff.ts\<close>): the nodes and connections two versions differ in, when a
  version adds to another one without losing anything, and which versions of a history are dropped.

  A connection is its own key, for which the code takes its JSON text. Objects are compared as
  \<^verbatim>\<open>isEqual\<close> does, without regard to the order of their keys.
\<close>

section \<open>Equality of values\<close>

text \<open>Two objects have the same keys and equal values under them.\<close>

definition obj_equal :: "('v \<Rightarrow> 'v \<Rightarrow> bool) \<Rightarrow> ('k, 'v) obj \<Rightarrow> ('k, 'v) obj \<Rightarrow> bool" where
  "obj_equal eq m n \<longleftrightarrow> length m = length n \<and>
     (\<forall>(k, v) \<in> set m. case obj_get n k of None \<Rightarrow> False | Some v' \<Rightarrow> eq v v')"

lemma obj_equal_cong [fundef_cong]:
  assumes "m = m'" "n = n'" "\<And>k v v'. (k, v) \<in> set m' \<Longrightarrow> eq v v' = eq' v v'"
  shows "obj_equal eq m n = obj_equal eq' m' n'"
  unfolding obj_equal_def using assms by (auto split: option.splits)

definition arr_equal :: "('a \<Rightarrow> 'b \<Rightarrow> bool) \<Rightarrow> 'a list \<Rightarrow> 'b list \<Rightarrow> bool" where
  "arr_equal eq xs ys \<longleftrightarrow> length xs = length ys \<and> (\<forall>(x, y) \<in> set (zip xs ys). eq x y)"

lemma arr_equal_cong [fundef_cong]:
  assumes "xs = xs'" "ys = ys'" "\<And>x y. x \<in> set xs' \<Longrightarrow> eq x y = eq' x y"
  shows "arr_equal eq xs ys = arr_equal eq' xs' ys'"
  unfolding arr_equal_def assms(1,2)
  by (intro conj_cong refl ball_cong) (auto dest!: set_zip_leftD simp: assms(3))

fun json_equal :: "json \<Rightarrow> json \<Rightarrow> bool" where
  "json_equal JNull v = (v = JNull)"
| "json_equal (JBool b) v = (v = JBool b)"
| "json_equal (JNum q) v = (v = JNum q)"
| "json_equal (JStr s) v = (v = JStr s)"
| "json_equal (JArr xs) v = (case v of JArr ys \<Rightarrow> arr_equal json_equal xs ys | _ \<Rightarrow> False)"
| "json_equal (JObj m) v = (case v of JObj n \<Rightarrow> obj_equal json_equal m n | _ \<Rightarrow> False)"

definition option_equal :: "('a \<Rightarrow> 'a \<Rightarrow> bool) \<Rightarrow> 'a option \<Rightarrow> 'a option \<Rightarrow> bool" where
  "option_equal eq x y = (case (x, y) of (None, None) \<Rightarrow> True | (Some a, Some b) \<Rightarrow> eq a b | _ \<Rightarrow> False)"

definition connections_equal :: "connections \<Rightarrow> connections \<Rightarrow> bool" where
  "connections_equal = obj_equal (obj_equal (=))"

section \<open>Versions of a workflow\<close>

record diff_node =
  dn_id :: string
  dn_name :: string
  dn_type :: string
  dn_typeVersion :: rat
  dn_webhookId :: "string option"
  dn_credentials :: "(string, string option \<times> string) obj option"
  dn_parameters :: "(string, json) obj"

record version =
  ver_nodes :: "diff_node list"
  ver_connections :: connections
  ver_createdAt :: int
  ver_authors :: "string option"

section \<open>Connections\<close>

text \<open>The connections with their index in the cell, later duplicates in the place of the first.\<close>

definition cell_map :: "connection list \<Rightarrow> (connection, nat) obj" where
  "cell_map cs = fold (\<lambda>(i, c). obj_set c i) (List.enumerate 0 cs) []"

text \<open>One entry: the source index, the index in the cell and the connection.\<close>

type_synonym connection_entry = "nat \<times> nat \<times> connection"
type_synonym connections_diff = "(string, (string, connection_entry list) obj) obj"

definition missing_in :: "nat \<Rightarrow> connection list \<Rightarrow> connection list \<Rightarrow> connection_entry list" where
  "missing_in sourceIndex cs other = map (\<lambda>(c, i). (sourceIndex, i, c))
     (filter (\<lambda>(c, i). \<not> obj_has (cell_map other) c) (cell_map cs))"

definition cell_at :: "node_input_connections \<Rightarrow> nat \<Rightarrow> connection list" where
  "cell_at arr i = (case arr_get arr i of None \<Rightarrow> [] | Some c \<Rightarrow> cell c)"

definition missing_cells :: "node_input_connections \<Rightarrow> node_input_connections \<Rightarrow> connection_entry list" where
  "missing_cells arr other = concat (map (\<lambda>i. missing_in i (cell_at arr i) (cell_at other i)) [0..<max (length arr) (length other)])"

definition push_entries :: "string \<Rightarrow> string \<Rightarrow> connection_entry list \<Rightarrow> connections_diff \<Rightarrow> connections_diff" where
  "push_entries nodeName inputName es d =
     (if es = [] then d
      else let byInput = (case obj_get d nodeName of None \<Rightarrow> [] | Some m \<Rightarrow> m);
               old = (case obj_get byInput inputName of None \<Rightarrow> [] | Some l \<Rightarrow> l)
           in obj_set nodeName (obj_set inputName (old @ es) byInput) d)"

definition inputs_of :: "connections \<Rightarrow> string \<Rightarrow> node_connections" where
  "inputs_of conns nodeName = (case obj_get conns nodeName of None \<Rightarrow> [] | Some m \<Rightarrow> m)"

definition cells_at :: "connections \<Rightarrow> string \<Rightarrow> string \<Rightarrow> node_input_connections" where
  "cells_at conns nodeName inputName = (case obj_get (inputs_of conns nodeName) inputName of None \<Rightarrow> [] | Some arr \<Rightarrow> arr)"

definition compare_places :: "connections \<Rightarrow> connections \<Rightarrow> (string \<times> string) list" where
  "compare_places prev next_conns = concat (map (\<lambda>nodeName. map (Pair nodeName)
       (set_of_list (obj_keys (inputs_of prev nodeName) @ obj_keys (inputs_of next_conns nodeName))))
     (set_of_list (obj_keys prev @ obj_keys next_conns)))"

text \<open>The connections added and those removed.\<close>

definition compareConnections :: "connections \<Rightarrow> connections \<Rightarrow> connections_diff \<times> connections_diff" where
  "compareConnections prev next_conns =
     fold (\<lambda>(nodeName, inputName) (added, removed).
         (push_entries nodeName inputName (missing_cells (cells_at next_conns nodeName inputName) (cells_at prev nodeName inputName)) added,
          push_entries nodeName inputName (missing_cells (cells_at prev nodeName inputName) (cells_at next_conns nodeName inputName)) removed))
       (compare_places prev next_conns) ([], [])"

section \<open>Nodes\<close>

datatype node_diff_status = Eq | Modified | Added | Deleted

type_synonym workflow_diff = "(string, node_diff_status \<times> diff_node) obj"

text \<open>The properties that are compared; the id and the position are not among them.\<close>

definition compareNodes :: "diff_node \<Rightarrow> diff_node \<Rightarrow> bool" where
  "compareNodes base target \<longleftrightarrow> dn_name base = dn_name target \<and> dn_type base = dn_type target \<and>
     dn_typeVersion base = dn_typeVersion target \<and> dn_webhookId base = dn_webhookId target \<and>
     option_equal (obj_equal (=)) (dn_credentials base) (dn_credentials target) \<and>
     json_equal (JObj (dn_parameters base)) (JObj (dn_parameters target))"

definition nodes_by_id :: "diff_node list \<Rightarrow> (string, diff_node) obj" where
  "nodes_by_id ns = fold (\<lambda>n. obj_set (dn_id n) n) ns []"

definition base_status :: "(string, diff_node) obj \<Rightarrow> string \<times> diff_node \<Rightarrow> node_diff_status" where
  "base_status targetNodes = (\<lambda>(i, node). case obj_get targetNodes i of
       None \<Rightarrow> Deleted
     | Some target \<Rightarrow> if compareNodes node target then Eq else Modified)"

definition compareWorkflowsNodes :: "diff_node list \<Rightarrow> diff_node list \<Rightarrow> workflow_diff" where
  "compareWorkflowsNodes base target =
     (let baseNodes = nodes_by_id base; targetNodes = nodes_by_id target;
          diff = fold (\<lambda>(i, node). obj_set i (base_status targetNodes (i, node), node)) baseNodes []
      in fold (\<lambda>(i, node) d. if obj_has baseNodes i then d else obj_set i (Added, node) d) targetNodes diff)"

record change_set =
  cs_nodes :: workflow_diff
  cs_added :: connections_diff
  cs_removed :: connections_diff

text \<open>\<^verbatim>\<open>from === to\<close> is an argument: whether both are the same object.\<close>

definition workflow_change_set :: "bool \<Rightarrow> version \<Rightarrow> version \<Rightarrow> change_set" where
  "workflow_change_set same from_version to_version =
     (if same then \<lparr>cs_nodes = fold (\<lambda>n. obj_set (dn_id n) (Eq, n)) (ver_nodes from_version) [], cs_added = [], cs_removed = []\<rparr>
      else (case compareConnections (ver_connections from_version) (ver_connections to_version) of (added, removed) \<Rightarrow>
        \<lparr>cs_nodes = compareWorkflowsNodes (ver_nodes from_version) (ver_nodes to_version), cs_added = added, cs_removed = removed\<rparr>))"

section \<open>Versions that only add\<close>

text \<open>The loop of \<^verbatim>\<open>stringContainsParts\<close>, with its early exit.\<close>

fun contains_loop :: "string \<Rightarrow> nat \<Rightarrow> nat \<Rightarrow> string \<Rightarrow> nat \<Rightarrow> bool" where
  "contains_loop [] i marker substr diffSize = (marker \<ge> length substr)"
| "contains_loop (c # cs) i marker substr diffSize =
     (let marker = (if marker < length substr \<and> substr ! marker = c then Suc marker else marker)
      in if int i - int marker > int diffSize then False else contains_loop cs (Suc i) marker substr diffSize)"

definition stringContainsParts :: "string \<Rightarrow> string \<Rightarrow> bool" where
  "stringContainsParts s substr =
     (if length substr > length s then False else contains_loop s 0 0 substr (length s - length substr))"

text \<open>The fields of an object or an array, as \<^verbatim>\<open>Object.keys\<close> lists them.\<close>

definition json_fields :: "json \<Rightarrow> (string, json) obj" where
  "json_fields v = (case v of JObj m \<Rightarrow> m
     | JArr xs \<Rightarrow> map (\<lambda>(i, x). (string_of_nat i, x)) (List.enumerate 0 xs)
     | _ \<Rightarrow> [])"

fun parametersAreSuperset :: "json \<Rightarrow> json \<Rightarrow> bool" where
  "parametersAreSuperset JNull v = (v = JNull)"
| "parametersAreSuperset (JBool b) v = (v = JBool b)"
| "parametersAreSuperset (JNum q) v = (v = JNum q)"
| "parametersAreSuperset (JStr s) v = (case v of JStr t \<Rightarrow> stringContainsParts t s | _ \<Rightarrow> False)"
| "parametersAreSuperset (JArr xs) v = (case v of JArr ys \<Rightarrow> arr_equal parametersAreSuperset xs ys | _ \<Rightarrow> False)"
| "parametersAreSuperset (JObj m) v = (case v of
     JObj n \<Rightarrow> obj_equal parametersAreSuperset m n
   | JArr ys \<Rightarrow> obj_equal parametersAreSuperset m (json_fields (JArr ys))
   | _ \<Rightarrow> False)"

definition nodeIsSuperset :: "diff_node \<Rightarrow> diff_node \<Rightarrow> bool" where
  "nodeIsSuperset prevNode nextNode \<longleftrightarrow>
     compareNodes (prevNode\<lparr>dn_parameters := []\<rparr>) (nextNode\<lparr>dn_parameters := []\<rparr>) \<and>
     parametersAreSuperset (JObj (dn_parameters prevNode)) (JObj (dn_parameters nextNode))"

datatype diff_error = InvariantBroken

text \<open>The loop over the node differences: it returns false, throws or goes on.\<close>

fun additive_nodes :: "version \<Rightarrow> (node_diff_status \<times> diff_node) list \<Rightarrow> diff_error + bool" where
  "additive_nodes next_version [] = Inr True"
| "additive_nodes next_version ((status, node) # ds) =
     (if status = Deleted then Inr False
      else if status = Added then additive_nodes next_version ds
      else (case find (\<lambda>x. dn_id x = dn_id node) (ver_nodes next_version) of
          None \<Rightarrow> Inl InvariantBroken
        | Some nextNode \<Rightarrow>
            if status = Modified \<and> \<not> nodeIsSuperset node nextNode then Inr False else additive_nodes next_version ds))"

definition mergeAdditiveChanges :: "version \<Rightarrow> version \<Rightarrow> change_set \<Rightarrow> diff_error + bool" where
  "mergeAdditiveChanges prev next_version diff =
     bindE (additive_nodes next_version (obj_values (cs_nodes diff))) (\<lambda>ok. Inr (ok \<and> cs_removed diff = []))"

section \<open>The other rules\<close>

type_synonym diff_rule = "version \<Rightarrow> version \<Rightarrow> change_set \<Rightarrow> int option \<Rightarrow> diff_error + bool"

definition makeSkipTimeDifference :: "int \<Rightarrow> diff_rule" where
  "makeSkipTimeDifference timeDiffMs prev next_version diff score =
     Inr (\<bar>ver_createdAt next_version - ver_createdAt prev\<bar> > timeDiffMs)"

definition makeMergeShortTimeSpan :: "int \<Rightarrow> version \<Rightarrow> version \<Rightarrow> bool" where
  "makeMergeShortTimeSpan timeDiffMs prev next_version \<longleftrightarrow>
     \<bar>ver_createdAt next_version - ver_createdAt prev\<bar> < timeDiffMs"

definition makeMergeDependingOnSizeRule :: "(int, int) obj \<Rightarrow> diff_rule" where
  "makeMergeDependingOnSizeRule mapping prev next_version diff score =
     Inr (case score of
         None \<Rightarrow> False
       | Some workflowSizeScore \<Rightarrow>
           (case find (\<lambda>(threshold, time). workflowSizeScore > threshold) (js_sort (\<lambda>a b. fst b - fst a) mapping) of
              None \<Rightarrow> False
            | Some (threshold, time) \<Rightarrow> makeMergeShortTimeSpan time prev next_version))"

definition skipDifferentUsers :: diff_rule where
  "skipDifferentUsers prev next_version diff score = Inr (ver_authors next_version \<noteq> ver_authors prev)"

definition additive_rule :: diff_rule where
  "additive_rule prev next_version diff score = mergeAdditiveChanges prev next_version diff"

section \<open>The size of a version\<close>

fun determineNodeSize :: "json \<Rightarrow> nat" where
  "determineNodeSize JNull = 1"
| "determineNodeSize (JBool b) = 1"
| "determineNodeSize (JNum q) = 1"
| "determineNodeSize (JStr s) = (if s = [] then 1 else length s)"
| "determineNodeSize (JArr xs) = 1 + sum_list (map determineNodeSize xs)"
| "determineNodeSize (JObj m) = 1 + sum_list (map (\<lambda>(k, v). determineNodeSize v) m)"

definition determineNodeParametersSize :: "version \<Rightarrow> nat" where
  "determineNodeParametersSize v = sum_list (map (\<lambda>n. determineNodeSize (JObj (dn_parameters n))) (ver_nodes v))"

section \<open>Compacting a history\<close>

fun any_rule :: "diff_rule list \<Rightarrow> diff_rule" where
  "any_rule [] prev next_version diff score = Inr False"
| "any_rule (r # rs) prev next_version diff score =
     bindE (r prev next_version diff score) (\<lambda>yes. if yes then Inr True else any_rule rs prev next_version diff score)"

text \<open>The loop from the last version down: the versions removed and those that remain.\<close>

fun compact_loop :: "diff_rule list \<Rightarrow> diff_rule list \<Rightarrow> int option \<Rightarrow> nat \<Rightarrow> version list \<Rightarrow> version list \<Rightarrow>
    diff_error + (version list \<times> version list)" where
  "compact_loop rules skipRules score 0 removed remaining = Inr (removed, remaining)"
| "compact_loop rules skipRules score (Suc j) removed remaining =
     (let prev = remaining ! j; next_version = remaining ! Suc j; wcs = workflow_change_set False prev next_version in
      bindE (any_rule skipRules prev next_version wcs score) (\<lambda>skip.
        if skip then compact_loop rules skipRules score j removed remaining
        else bindE (any_rule rules prev next_version wcs score) (\<lambda>shouldMerge.
          if shouldMerge then compact_loop rules skipRules score j (removed @ [prev]) (take j remaining @ drop (Suc j) remaining)
          else compact_loop rules skipRules score j removed remaining)))"

definition size_score :: "bool \<Rightarrow> version list \<Rightarrow> int option" where
  "size_score wanted workflows = (if wanted then Some (int (max
       (determineNodeParametersSize (workflows ! (length workflows div 2)))
       (determineNodeParametersSize (last workflows)))) else None)"

definition groupWorkflows :: "version list \<Rightarrow> diff_rule list \<Rightarrow> diff_rule list \<Rightarrow> bool \<Rightarrow>
    diff_error + (version list \<times> version list)" where
  "groupWorkflows workflows rules skipRules workflowSizeScore =
     (if length workflows \<le> 1 then Inr ([], workflows)
      else compact_loop rules skipRules (size_score workflowSizeScore workflows) (length workflows - 1) [] workflows)"

section \<open>Changes that matter\<close>

definition hasNonPositionalChanges :: "diff_node list \<Rightarrow> diff_node list \<Rightarrow> connections \<Rightarrow> connections \<Rightarrow> bool" where
  "hasNonPositionalChanges oldNodes newNodes oldConnections newConnections \<longleftrightarrow>
     (\<exists>(status, node) \<in> set (obj_values (compareWorkflowsNodes oldNodes newNodes)). status \<noteq> Eq) \<or>
     \<not> connections_equal oldConnections newConnections"

definition credentials_of :: "diff_node \<Rightarrow> (string, string option \<times> string) obj" where
  "credentials_of node = (case dn_credentials node of None \<Rightarrow> [] | Some creds \<Rightarrow> creds)"

definition node_credentials_change :: "diff_node \<Rightarrow> diff_node \<Rightarrow> bool" where
  "node_credentials_change oldNode newNode \<longleftrightarrow>
     (let oldCreds = credentials_of oldNode; newCreds = credentials_of newNode in
      (\<exists>(credType, cred) \<in> set oldCreds. case obj_get newCreds credType of
          None \<Rightarrow> True | Some cred' \<Rightarrow> fst cred \<noteq> fst cred') \<or>
      (\<exists>(credType, cred) \<in> set newCreds. \<not> obj_has oldCreds credType))"

definition hasCredentialChanges :: "diff_node list \<Rightarrow> diff_node list \<Rightarrow> bool" where
  "hasCredentialChanges oldNodes newNodes \<longleftrightarrow>
     (\<exists>oldNode \<in> set oldNodes. case obj_get (nodes_by_id newNodes) (dn_id oldNode) of
        None \<Rightarrow> False | Some newNode \<Rightarrow> node_credentials_change oldNode newNode)"

end
