(* ===== verification/Diff_Facts.thy ===== *)
theory Diff_Facts
  imports Workflow_Diff "HOL-Library.Sublist" "HOL-Library.Multiset"
begin

text \<open>
  What the comparison of two versions finds, when one version is contained in the next, and which versions
  of a history are dropped.
\<close>

section \<open>Strings\<close>

lemma contains_loop_subseq:
  assumes "marker \<le> length substr" "i + length cs = diffSize + length substr"
  shows "contains_loop cs i marker substr diffSize \<longleftrightarrow> subseq (drop marker substr) cs"
  using assms
proof (induction cs arbitrary: i marker)
  case Nil
  then show ?case by (auto dest: list_emb_length)
next
  case (Cons c cs)
  define m where "m = (if marker < length substr \<and> substr ! marker = c then Suc marker else marker)"
  have m: "m \<le> length substr" using Cons.prems(1) by (simp add: m_def)
  have step: "subseq (drop marker substr) (c # cs) \<longleftrightarrow> subseq (drop m substr) cs"
  proof (cases "marker < length substr")
    case True
    then show ?thesis using Cons_nth_drop_Suc [OF True, symmetric] by (simp add: m_def subseq_Cons2_iff)
  qed (use Cons.prems(1) in \<open>simp add: m_def\<close>)
  show ?case
  proof (cases "int i - int m > int diffSize")
    case True
    then have "length (drop m substr) > length cs" using Cons.prems(2) by simp
    then have "\<not> subseq (drop m substr) cs" using list_emb_length by (metis not_le)
    then show ?thesis using True step by (simp add: m_def [symmetric] Let_def)
  next
    case False
    then show ?thesis using Cons.IH [OF m, of "Suc i"] Cons.prems(2) step by (simp add: m_def [symmetric] Let_def)
  qed
qed

lemma stringContainsParts_iff: "stringContainsParts s substr \<longleftrightarrow> subseq substr s"
proof (cases "length substr > length s")
  case True
  then have "\<not> subseq substr s" using list_emb_length by (metis not_le)
  then show ?thesis using True by (simp add: stringContainsParts_def)
next
  case False
  then show ?thesis using contains_loop_subseq [of 0 substr 0 s "length s - length substr"]
    by (simp add: stringContainsParts_def)
qed

section \<open>Parameters\<close>

lemma arr_equal_mono: "arr_equal eq xs ys \<Longrightarrow> (\<And>x y. x \<in> set xs \<Longrightarrow> y \<in> set ys \<Longrightarrow> eq x y \<Longrightarrow> eq' x y) \<Longrightarrow> arr_equal eq' xs ys"
  unfolding arr_equal_def by (fastforce dest: set_zip_leftD set_zip_rightD)

lemma obj_equal_mono: "obj_equal eq m n \<Longrightarrow> (\<And>k v v'. (k, v) \<in> set m \<Longrightarrow> eq v v' \<Longrightarrow> eq' v v') \<Longrightarrow> obj_equal eq' m n"
  unfolding obj_equal_def by (fastforce split: option.splits)

text \<open>Equal parameters lose nothing.\<close>

lemma json_equal_superset: "json_equal v w \<Longrightarrow> parametersAreSuperset v w"
proof (induction v w rule: parametersAreSuperset.induct)
  case (5 xs v)
  then show ?case by (auto split: json.splits intro: arr_equal_mono)
next
  case (6 m v)
  then show ?case by (auto split: json.splits intro: obj_equal_mono)
qed (auto simp: stringContainsParts_iff split: json.splits)

section \<open>Node differences\<close>

lemma fold_obj_set_new:
  "distinct (map f xs) \<Longrightarrow> f ` set xs \<inter> fst ` set m = {} \<Longrightarrow>
     fold (\<lambda>x. obj_set (f x) (g x)) xs m = m @ map (\<lambda>x. (f x, g x)) xs"
proof (induction xs arbitrary: m)
  case (Cons x xs)
  have new: "k \<notin> fst ` set m \<Longrightarrow> obj_set k v m = m @ [(k, v)]" for k and v
    by (induction m) (auto simp: obj_set_def)
  show ?case using Cons by (auto simp: new)
qed simp

lemma nodes_by_id_map: "distinct (map dn_id ns) \<Longrightarrow> nodes_by_id ns = map (\<lambda>n. (dn_id n, n)) ns"
  unfolding nodes_by_id_def using fold_obj_set_new [of dn_id ns "[]" "\<lambda>n. n"] by simp

lemma map_of_nodes: "distinct (map dn_id ns) \<Longrightarrow> map_of (map (\<lambda>n. (dn_id n, n)) ns) i = find (\<lambda>n. dn_id n = i) ns"
  by (induction ns) auto

lemma find_node: "distinct (map dn_id ns) \<Longrightarrow> find (\<lambda>n. dn_id n = i) ns = Some n \<longleftrightarrow> n \<in> set ns \<and> dn_id n = i"
  by (induction ns) auto

text \<open>The status of a node in a version, compared with another one.\<close>

definition status_in :: "diff_node list \<Rightarrow> diff_node \<Rightarrow> node_diff_status" where
  "status_in target n = (case find (\<lambda>t. dn_id t = dn_id n) target of
       None \<Rightarrow> Deleted | Some t \<Rightarrow> if compareNodes n t then Eq else Modified)"

lemma compareWorkflowsNodes_list:
  assumes "distinct (map dn_id base)" "distinct (map dn_id target)"
  shows "compareWorkflowsNodes base target = map (\<lambda>n. (dn_id n, status_in target n, n)) base @
    map (\<lambda>n. (dn_id n, Added, n)) (filter (\<lambda>n. dn_id n \<notin> dn_id ` set base) target)"
proof -
  let ?base = "map (\<lambda>n. (dn_id n, n)) base" and ?target = "map (\<lambda>n. (dn_id n, n)) target"
  have added: "fold (\<lambda>(i, node) d. if obj_has ?base i then d else obj_set i (Added, node) d) ?target d =
      fold (\<lambda>n. obj_set (dn_id n) (Added, n)) (filter (\<lambda>n. dn_id n \<notin> dn_id ` set base) target) d" for d
    by (induction target arbitrary: d) (auto simp: obj_has_iff image_image comp_def)
  have base: "fold (\<lambda>(i, node). obj_set i (base_status ?target (i, node), node)) ?base [] =
      fold (\<lambda>n. obj_set (dn_id n) (status_in target n, n)) base []"
    unfolding fold_map comp_def prod.case base_status_def status_in_def map_of_nodes [OF assms(2)] ..
  show ?thesis
    unfolding compareWorkflowsNodes_def Let_def nodes_by_id_map [OF assms(1)] nodes_by_id_map [OF assms(2)] base added
    using assms by (subst fold_obj_set_new, simp, simp, subst fold_obj_set_new) (auto simp: distinct_map_filter)
qed

section \<open>Merging two versions\<close>

text \<open>A node is contained in another one: it has the same id, and its strings are subsequences of the other's.\<close>

definition node_contained :: "diff_node \<Rightarrow> diff_node \<Rightarrow> bool" where
  "node_contained n n' \<longleftrightarrow> dn_id n = dn_id n' \<and> compareNodes (n\<lparr>dn_parameters := []\<rparr>) (n'\<lparr>dn_parameters := []\<rparr>) \<and>
     parametersAreSuperset (JObj (dn_parameters n)) (JObj (dn_parameters n'))"

lemma compareNodes_contained: "compareNodes n n' \<Longrightarrow> dn_id n = dn_id n' \<Longrightarrow> node_contained n n'"
  unfolding node_contained_def using json_equal_superset [of "JObj (dn_parameters n)" "JObj (dn_parameters n')"]
  by (simp add: compareNodes_def obj_equal_def)

lemma additive_nodes_iff:
  assumes "\<forall>(status, n) \<in> set ds. status = Added \<or> status = status_in (ver_nodes v) n" "distinct (map dn_id (ver_nodes v))"
  shows "\<exists>ok. additive_nodes v ds = Inr ok \<and>
    (ok \<longleftrightarrow> (\<forall>(status, n) \<in> set ds. status \<noteq> Added \<longrightarrow> (\<exists>n' \<in> set (ver_nodes v). node_contained n n')))"
  using assms(1)
proof (induction ds)
  case (Cons d ds)
  obtain status n where d: "d = (status, n)" by (cases d)
  from Cons obtain ok where ok: "additive_nodes v ds = Inr ok"
    "ok \<longleftrightarrow> (\<forall>(status, n) \<in> set ds. status \<noteq> Added \<longrightarrow> (\<exists>n' \<in> set (ver_nodes v). node_contained n n'))" by auto
  show ?case
  proof (cases "status = Added")
    case True
    then show ?thesis using ok d by auto
  next
    case False
    then have st: "status = status_in (ver_nodes v) n" using Cons.prems d by auto
    show ?thesis
    proof (cases "find (\<lambda>x. dn_id x = dn_id n) (ver_nodes v)")
      case None
      then have "\<not> (\<exists>n' \<in> set (ver_nodes v). node_contained n n')" by (auto simp: node_contained_def find_None_iff)
      then show ?thesis using st d None False by (auto simp: status_in_def)
    next
      case (Some t)
      then have t: "t \<in> set (ver_nodes v)" "dn_id t = dn_id n" using find_node [OF assms(2)] by auto
      have unique: "(\<exists>n' \<in> set (ver_nodes v). node_contained n n') \<longleftrightarrow> node_contained n t"
        using t assms(2) unfolding distinct_map node_contained_def by (metis inj_onD)
      have super: "nodeIsSuperset n t \<longleftrightarrow> node_contained n t" using t by (simp add: nodeIsSuperset_def node_contained_def)
      have step: "additive_nodes v (d # ds) = (if \<not> node_contained n t then Inr False else additive_nodes v ds)"
      proof (cases "compareNodes n t")
        case True
        then have "status = Eq" "node_contained n t" using st Some t compareNodes_contained by (simp_all add: status_in_def)
        then show ?thesis using d Some by simp
      next
        case False
        then have "status = Modified" using st Some by (simp add: status_in_def)
        then show ?thesis using d Some super by simp
      qed
      show ?thesis
      proof (cases "node_contained n t")
        case True
        then show ?thesis unfolding step using ok d t(1) by auto
      next
        case no: False
        then have "\<not> (\<forall>(status, n) \<in> set (d # ds). status \<noteq> Added \<longrightarrow> (\<exists>n' \<in> set (ver_nodes v). node_contained n n'))"
          using d False unique by auto
        then show ?thesis unfolding step using no by auto
      qed
    qed
  qed
qed auto


section \<open>Connection differences\<close>

lemma set_of_list_append_nil: "x \<in> set (set_of_list xs) \<longleftrightarrow> x \<in> set xs"
  by simp

definition entries_of :: "connections_diff \<Rightarrow> string \<Rightarrow> string \<Rightarrow> connection_entry list" where
  "entries_of d nodeName inputName = (case obj_get d nodeName of None \<Rightarrow> [] | Some byInput \<Rightarrow>
     (case obj_get byInput inputName of None \<Rightarrow> [] | Some es \<Rightarrow> es))"

lemma push_entries_get:
  "entries_of (push_entries n i es d) n' i' = entries_of d n' i' @ (if n' = n \<and> i' = i then es else [])"
  by (auto simp: push_entries_def entries_of_def Let_def split: option.splits)

lemma push_entries_Nil: "push_entries n i es d = [] \<longleftrightarrow> d = [] \<and> es = []"
  by (cases d) (auto simp: push_entries_def Let_def)

lemma fold_push_get:
  "distinct ps \<Longrightarrow> entries_of (fold (\<lambda>(n, i). push_entries n i (g n i)) ps d) n' i' =
     entries_of d n' i' @ (if (n', i') \<in> set ps then g n' i' else [])"
  by (induction ps arbitrary: d) (auto simp: push_entries_get split: if_splits)

lemma fold_push_Nil:
  "fold (\<lambda>(n, i). push_entries n i (g n i)) ps d = [] \<longleftrightarrow> d = [] \<and> (\<forall>(n, i) \<in> set ps. g n i = [])"
  by (induction ps arbitrary: d) (auto simp: push_entries_Nil)

lemma compare_fold:
  "fold (\<lambda>(n, i) (a, r). (f n i a, h n i r)) ps (a, r) = (fold (\<lambda>(n, i). f n i) ps a, fold (\<lambda>(n, i). h n i) ps r)"
  by (induction ps arbitrary: a r) auto

lemma compare_places_distinct: "distinct (compare_places prev nxt)"
proof -
  have "distinct ns \<Longrightarrow> distinct (concat (map (\<lambda>n. map (Pair n) (set_of_list (F n))) ns))" for ns and F :: "string \<Rightarrow> string list"
    by (induction ns) (auto simp: distinct_map inj_on_def)
  then show ?thesis by (simp add: compare_places_def)
qed

lemma missing_cells_empty [simp]: "missing_cells [] [] = []"
  by (simp add: missing_cells_def)

lemma compare_places_iff:
  "(n, i) \<in> set (compare_places prev nxt) \<longleftrightarrow> (n \<in> fst ` set prev \<or> n \<in> fst ` set nxt) \<and>
     (i \<in> fst ` set (inputs_of prev n) \<or> i \<in> fst ` set (inputs_of nxt n))"
proof -
  have "set (compare_places prev nxt) = (\<Union>n \<in> fst ` set prev \<union> fst ` set nxt.
      Pair n ` (fst ` set (inputs_of prev n) \<union> fst ` set (inputs_of nxt n)))"
    unfolding compare_places_def by simp
  moreover have "(n, i) \<in> (\<Union>m \<in> A. Pair m ` B m) \<longleftrightarrow> n \<in> A \<and> i \<in> B n" for A and B :: "string \<Rightarrow> string set" by auto
  ultimately show ?thesis by (simp only: Un_iff)
qed

lemma cells_at_keys:
  assumes "cells_at conns n i \<noteq> []"
  shows "n \<in> fst ` set conns \<and> i \<in> fst ` set (inputs_of conns n)"
proof -
  obtain arr where arr: "obj_get (inputs_of conns n) i = Some arr"
    using assms by (auto simp: cells_at_def split: option.splits)
  moreover from this obtain m where "obj_get conns n = Some m" by (auto simp: inputs_of_def split: option.splits)
  ultimately show ?thesis using obj_get_key by metis
qed

lemma not_compared:
  assumes "(n, i) \<notin> set (compare_places prev nxt)"
  shows "cells_at prev n i = [] \<and> cells_at nxt n i = []"
  using assms cells_at_keys [of prev n i] cells_at_keys [of nxt n i] unfolding compare_places_iff by blast

lemma compareConnections_entries:
  "compareConnections prev nxt = (added, removed) \<Longrightarrow>
     entries_of added n i = missing_cells (cells_at nxt n i) (cells_at prev n i) \<and>
     entries_of removed n i = missing_cells (cells_at prev n i) (cells_at nxt n i)"
  using not_compared [of n i prev nxt]
  by (auto simp: compareConnections_def compare_fold fold_push_get compare_places_distinct entries_of_def [of "[]"])

lemma cell_map_keys: "obj_get (cell_map cs) c = Some j \<Longrightarrow> j < length cs \<and> cs ! j = c"
  and cell_map_has: "obj_has (cell_map cs) c \<longleftrightarrow> c \<in> set cs"
proof -
  have gen: "(\<forall>c j. obj_get m c = Some j \<longrightarrow> j < k \<and> ds ! j = c) \<Longrightarrow> length ds = k \<Longrightarrow>
      obj_get (fold (\<lambda>(i, c). obj_set c i) (List.enumerate k cs) m) c = Some j \<Longrightarrow> j < k + length cs \<and> (ds @ cs) ! j = c"
    for m k ds c j
  proof (induction cs arbitrary: m k ds)
    case Nil
    then show ?case by (auto simp: nth_append)
  next
    case (Cons d cs)
    have "\<forall>c j. obj_get (obj_set d k m) c = Some j \<longrightarrow> j < Suc k \<and> (ds @ [d]) ! j = c"
      using Cons.prems(1,2) by (auto simp: nth_append less_Suc_eq)
    from Cons.IH [OF this] Cons.prems(2,3) show ?case by simp
  qed
  from gen [of "[]" 0 "[]"] show "obj_get (cell_map cs) c = Some j \<Longrightarrow> j < length cs \<and> cs ! j = c"
    by (simp add: cell_map_def)
  have "set (obj_keys (fold (\<lambda>(i, c). obj_set c i) (List.enumerate k cs) m)) = set (obj_keys m) \<union> set cs" for k m
    by (induction cs arbitrary: k m) (auto simp: obj_keys_set simp del: set_map)
  then show "obj_has (cell_map cs) c \<longleftrightarrow> c \<in> set cs" by (simp add: obj_has_iff cell_map_def del: set_map)
qed

lemma cell_map_wf: "obj_wf (cell_map cs)"
proof -
  have "obj_wf m \<Longrightarrow> obj_wf (fold (\<lambda>(i, c). obj_set c i) (List.enumerate k cs) m)" for k m
    by (induction cs arbitrary: k m) auto
  then show ?thesis by (simp add: cell_map_def)
qed

lemma missing_cells_set:
  "(s, j, c) \<in> set (missing_cells arr other) \<longleftrightarrow>
     c \<in> set (cell_at arr s) - set (cell_at other s) \<and> obj_get (cell_map (cell_at arr s)) c = Some j"
proof -
  have range: "s < length arr" if "c \<in> set (cell_at arr s)" using that by (auto simp: cell_at_def arr_get_def split: if_splits)
  have "(s, j, c) \<in> set (missing_in s (cell_at arr s) (cell_at other s)) \<longleftrightarrow>
      (c, j) \<in> set (cell_map (cell_at arr s)) \<and> c \<notin> set (cell_at other s)"
    by (auto simp: missing_in_def cell_map_has image_iff)
  also have "\<dots> \<longleftrightarrow> c \<in> set (cell_at arr s) - set (cell_at other s) \<and> obj_get (cell_map (cell_at arr s)) c = Some j"
    using obj_wf_in [OF cell_map_wf] cell_map_keys [of "cell_at arr s" c j] by auto
  finally show ?thesis using range by (auto simp: missing_cells_def missing_in_def)
qed

lemma missing_cells_Nil:
  "missing_cells arr other = [] \<longleftrightarrow> (\<forall>s. set (cell_at arr s) \<subseteq> set (cell_at other s))"
proof
  assume "missing_cells arr other = []"
  show "\<forall>s. set (cell_at arr s) \<subseteq> set (cell_at other s)"
  proof (intro allI subsetI)
    fix s c assume "c \<in> set (cell_at arr s)"
    moreover from this obtain j where "obj_get (cell_map (cell_at arr s)) c = Some j"
      using cell_map_has [of "cell_at arr s" c] by (auto simp: obj_has_def)
    ultimately show "c \<in> set (cell_at other s)"
      using \<open>missing_cells arr other = []\<close> missing_cells_set [of s j c arr other] by auto
  qed
next
  assume "\<forall>s. set (cell_at arr s) \<subseteq> set (cell_at other s)"
  then have "e \<notin> set (missing_cells arr other)" for e using missing_cells_set by (cases e) blast
  then show "missing_cells arr other = []" by (metis last_in_set)
qed

lemma compareConnections_removed:
  assumes "compareConnections prev nxt = (added, removed)"
  shows "removed = [] \<longleftrightarrow> (\<forall>n i s. set (cell_at (cells_at prev n i) s) \<subseteq> set (cell_at (cells_at nxt n i) s))"
proof -
  have "removed = [] \<longleftrightarrow> (\<forall>(n, i) \<in> set (compare_places prev nxt). missing_cells (cells_at prev n i) (cells_at nxt n i) = [])"
    using assms by (auto simp: compareConnections_def compare_fold fold_push_Nil)
  also have "\<dots> \<longleftrightarrow> (\<forall>n i. missing_cells (cells_at prev n i) (cells_at nxt n i) = [])"
    using not_compared by fastforce
  finally show ?thesis by (simp add: missing_cells_Nil)
qed


section \<open>Compacting from the right\<close>

text \<open>The history without an index: the versions still to decide, the last one first, and those that remain. A version
  goes when it merges into the first one that remains.\<close>

fun compact :: "('v \<Rightarrow> 'v \<Rightarrow> bool) \<Rightarrow> 'v list \<Rightarrow> 'v list \<Rightarrow> 'v list \<times> 'v list" where
  "compact m [] ks = ([], ks)"
| "compact m (x # xs) ks =
     (if m x (hd ks) then (case compact m xs ks of (removed, remaining) \<Rightarrow> (x # removed, remaining))
      else compact m xs (x # ks))"

definition merges :: "diff_rule list \<Rightarrow> diff_rule list \<Rightarrow> int option \<Rightarrow> version \<Rightarrow> version \<Rightarrow> diff_error + bool" where
  "merges rules skipRules score prev nxt =
     (let wcs = workflow_change_set False prev nxt in
      bindE (any_rule skipRules prev nxt wcs score) (\<lambda>skip.
        if skip then Inr False else any_rule rules prev nxt wcs score))"

lemma compact_loop_compact:
  assumes "\<forall>x \<in> set pre \<union> set ks. \<forall>y \<in> set pre \<union> set ks. merges rules skips score x y = Inr (m x y)" "ks \<noteq> []"
  shows "compact_loop rules skips score (length pre) removed (pre @ ks) =
    (case compact m (rev pre) ks of (r, k) \<Rightarrow> Inr (removed @ r, k))"
  using assms
proof (induction pre arbitrary: ks removed rule: rev_induct)
  case (snoc x pre)
  have nth: "(pre @ x # ks) ! length pre = x" "(pre @ x # ks) ! Suc (length pre) = hd ks"
    using snoc.prems(2) by (simp_all add: nth_append hd_conv_nth)
  have step: "compact_loop rules skips score (length (pre @ [x])) removed ((pre @ [x]) @ ks) =
      (if m x (hd ks) then compact_loop rules skips score (length pre) (removed @ [x]) (pre @ ks)
       else compact_loop rules skips score (length pre) removed (pre @ x # ks))"
  proof -
    have "merges rules skips score x (hd ks) = Inr (m x (hd ks))" using snoc.prems by auto
    then show ?thesis
      unfolding merges_def Let_def bindE_Inr_iff by (auto simp: nth Let_def split: if_splits)
  qed
  show ?case
  proof (cases "m x (hd ks)")
    case True
    have "compact_loop rules skips score (length pre) (removed @ [x]) (pre @ ks) =
        (case compact m (rev pre) ks of (r, k) \<Rightarrow> Inr ((removed @ [x]) @ r, k))"
      by (rule snoc.IH) (use snoc.prems in auto)
    then show ?thesis unfolding step using True by (simp split: prod.split)
  next
    case False
    have "compact_loop rules skips score (length pre) removed (pre @ x # ks) =
        (case compact m (rev pre) (x # ks) of (r, k) \<Rightarrow> Inr (removed @ r, k))"
      by (rule snoc.IH) (use snoc.prems in auto)
    then show ?thesis unfolding step using False by (simp split: prod.split)
  qed
qed simp

lemma groupWorkflows_compact:
  assumes "\<forall>x \<in> set ws. \<forall>y \<in> set ws. merges rules skips (size_score wanted ws) x y = Inr (m x y)" "ws \<noteq> []"
  shows "groupWorkflows ws rules skips wanted = Inr (compact m (rev (butlast ws)) [last ws])"
proof (cases "length ws \<le> 1")
  case True
  with assms(2) obtain w where "ws = [w]" by (cases ws) auto
  then show ?thesis by (simp add: groupWorkflows_def)
next
  case False
  have "set (butlast ws) \<union> set [last ws] \<subseteq> set ws" using assms(2) by (auto dest: in_set_butlastD)
  then have "compact_loop rules skips (size_score wanted ws) (length (butlast ws)) [] (butlast ws @ [last ws]) =
      (case compact m (rev (butlast ws)) [last ws] of (r, k) \<Rightarrow> Inr ([] @ r, k))"
    using assms(1) by (intro compact_loop_compact) auto
  then show ?thesis using False assms(2) by (simp add: groupWorkflows_def)
qed

lemma compact_properties:
  assumes "compact m xs ks = (removed, remaining)" "ks \<noteq> []"
  shows "mset removed + mset remaining = mset xs + mset ks \<and> (\<exists>p. remaining = p @ ks) \<and>
    subseq remaining (rev xs @ ks) \<and> (\<forall>x \<in> set removed. \<exists>y \<in> set remaining. m x y) \<and>
    (successively (\<lambda>x y. \<not> m x y) ks \<longrightarrow> successively (\<lambda>x y. \<not> m x y) remaining)"
  using assms
proof (induction xs arbitrary: ks removed)
  case (Cons x xs)
  show ?case
  proof (cases "m x (hd ks)")
    case True
    with Cons.prems obtain r where r: "compact m xs ks = (r, remaining)" "removed = x # r" by (auto split: prod.splits)
    from Cons.IH [OF r(1) Cons.prems(2)] obtain p where IH: "mset r + mset remaining = mset xs + mset ks"
      "remaining = p @ ks" "subseq remaining (rev xs @ ks)" "\<forall>x \<in> set r. \<exists>y \<in> set remaining. m x y"
      "successively (\<lambda>x y. \<not> m x y) ks \<longrightarrow> successively (\<lambda>x y. \<not> m x y) remaining" by blast
    have "subseq (rev xs @ ks) (rev xs @ [x] @ ks)" by (simp add: subseq_append' list_emb_Cons [OF subseq_order.refl])
    then have "subseq remaining (rev (x # xs) @ ks)" using IH(3) subseq_order.trans by fastforce
    moreover have "hd ks \<in> set remaining" using IH(2) Cons.prems(2) by simp
    ultimately show ?thesis using IH r(2) True by auto
  next
    case False
    then have r: "compact m xs (x # ks) = (removed, remaining)" using Cons.prems(1) by simp
    have "successively (\<lambda>x y. \<not> m x y) (x # ks)" if "successively (\<lambda>x y. \<not> m x y) ks"
      using that False Cons.prems(2) by (cases ks) auto
    moreover from Cons.IH [OF r] obtain p where "mset removed + mset remaining = mset xs + mset (x # ks)"
      "remaining = p @ x # ks" "subseq remaining (rev xs @ x # ks)" "\<forall>x \<in> set removed. \<exists>y \<in> set remaining. m x y"
      "successively (\<lambda>x y. \<not> m x y) (x # ks) \<longrightarrow> successively (\<lambda>x y. \<not> m x y) remaining" by blast
    ultimately show ?thesis by (intro conjI exI [of _ "p @ [x]"]) auto
  qed
qed auto

section \<open>The additive rule\<close>

text \<open>Nothing of a version is lost in another one.\<close>

definition version_contained :: "version \<Rightarrow> version \<Rightarrow> bool" where
  "version_contained v v' \<longleftrightarrow> (\<forall>n \<in> set (ver_nodes v). \<exists>n' \<in> set (ver_nodes v'). node_contained n n') \<and>
     (\<forall>nodeName inputName s. set (cell_at (cells_at (ver_connections v) nodeName inputName) s) \<subseteq>
        set (cell_at (cells_at (ver_connections v') nodeName inputName) s))"

definition distinct_ids :: "version \<Rightarrow> bool" where
  "distinct_ids v \<longleftrightarrow> distinct (map dn_id (ver_nodes v))"

lemma mergeAdditiveChanges_iff:
  assumes "distinct_ids v" "distinct_ids v'"
  shows "mergeAdditiveChanges v v' (workflow_change_set False v v') = Inr (version_contained v v')"
proof -
  obtain added removed where c: "compareConnections (ver_connections v) (ver_connections v') = (added, removed)" by fastforce
  let ?ds = "obj_values (compareWorkflowsNodes (ver_nodes v) (ver_nodes v'))"
  have ds: "?ds = map (\<lambda>n. (status_in (ver_nodes v') n, n)) (ver_nodes v) @
      map (Pair Added) (filter (\<lambda>n. dn_id n \<notin> dn_id ` set (ver_nodes v)) (ver_nodes v'))"
    using compareWorkflowsNodes_list assms by (simp add: distinct_ids_def comp_def)
  have not_added: "status_in (ver_nodes v') n \<noteq> Added" for n by (simp add: status_in_def split: option.split)
  have "\<forall>(status, n) \<in> set ?ds. status = Added \<or> status = status_in (ver_nodes v') n" unfolding ds by auto
  from additive_nodes_iff [OF this assms(2) [unfolded distinct_ids_def]] obtain ok where ok: "additive_nodes v' ?ds = Inr ok"
    "ok \<longleftrightarrow> (\<forall>(status, n) \<in> set ?ds. status \<noteq> Added \<longrightarrow> (\<exists>n' \<in> set (ver_nodes v'). node_contained n n'))" by blast
  moreover have "(\<forall>(status, n) \<in> set ?ds. status \<noteq> Added \<longrightarrow> P n) \<longleftrightarrow> (\<forall>n \<in> set (ver_nodes v). P n)" for P
    unfolding ds using not_added by auto
  ultimately have "additive_nodes v' ?ds = Inr (\<forall>n \<in> set (ver_nodes v). \<exists>n' \<in> set (ver_nodes v'). node_contained n n')" by simp
  then show ?thesis using compareConnections_removed [OF c]
    by (simp add: mergeAdditiveChanges_def workflow_change_set_def c version_contained_def)
qed


section \<open>Properties of versions\<close>

text \<open>The loop with its early exit decides whether the characters of one string appear in the other, in order.\<close>

theorem stringContainsParts_subseq: "stringContainsParts s substr \<longleftrightarrow> subseq substr s"
  by (rule stringContainsParts_iff)

text \<open>The connections added are those of a cell of the next version that the cell does not have in the previous one,
  those removed the other way round, each with its place in its cell; the difference is empty when nothing is missing.\<close>

theorem compareConnections_spec:
  assumes "compareConnections prev nxt = (added, removed)"
  shows "((s, j, c) \<in> set (entries_of added nodeName inputName) \<longrightarrow>
      j < length (cell_at (cells_at nxt nodeName inputName) s) \<and> cell_at (cells_at nxt nodeName inputName) s ! j = c) \<and>
    {(s, c). \<exists>j. (s, j, c) \<in> set (entries_of added nodeName inputName)} =
      {(s, c). c \<in> set (cell_at (cells_at nxt nodeName inputName) s) - set (cell_at (cells_at prev nodeName inputName) s)} \<and>
    {(s, c). \<exists>j. (s, j, c) \<in> set (entries_of removed nodeName inputName)} =
      {(s, c). c \<in> set (cell_at (cells_at prev nodeName inputName) s) - set (cell_at (cells_at nxt nodeName inputName) s)} \<and>
    (removed = [] \<longleftrightarrow> (\<forall>n i s. set (cell_at (cells_at prev n i) s) \<subseteq> set (cell_at (cells_at nxt n i) s)))"
proof -
  have "\<exists>j. obj_get (cell_map cs) c = Some j" if "c \<in> set cs" for c cs
    using that cell_map_has [of cs c] by (auto simp: obj_has_def)
  then show ?thesis
    using compareConnections_entries [OF assms, of nodeName inputName] compareConnections_removed [OF assms]
    by (auto simp: missing_cells_set dest: cell_map_keys)
qed

definition conns_to :: "string list \<Rightarrow> connections" where
  "conns_to names = [(''a'', [(Main_type, [Some (map (\<lambda>n. \<lparr>conn_node = n, conn_type = Main_type, conn_index = 0\<rparr>) names)])])]"

lemma compareConnections_spec_witness:
  "snd (compareConnections (conns_to [''b'']) (conns_to [''b'', ''c''])) = [] \<longleftrightarrow>
    (\<forall>n i s. set (cell_at (cells_at (conns_to [''b'']) n i) s) \<subseteq> set (cell_at (cells_at (conns_to [''b'', ''c'']) n i) s))"
proof -
  obtain added removed where "compareConnections (conns_to [''b'']) (conns_to [''b'', ''c'']) = (added, removed)" by fastforce
  from compareConnections_spec [OF this] this show ?thesis by simp
qed

lemma groupWorkflows_ok:
  assumes "\<forall>x \<in> set ws. \<forall>y \<in> set ws. merges rules skips (size_score wanted ws) x y = Inr (m x y)" "ws \<noteq> []"
  shows "\<exists>removed remaining. groupWorkflows ws rules skips wanted = Inr (removed, remaining) \<and>
    compact m (rev (butlast ws)) [last ws] = (removed, remaining) \<and> mset removed + mset remaining = mset ws \<and>
    subseq remaining ws \<and> remaining \<noteq> [] \<and> last remaining = last ws \<and>
    (\<forall>x \<in> set removed. \<exists>y \<in> set remaining. m x y) \<and> successively (\<lambda>x y. \<not> m x y) remaining"
proof -
  obtain removed remaining where c: "compact m (rev (butlast ws)) [last ws] = (removed, remaining)" by fastforce
  have ws: "rev (rev (butlast ws)) @ [last ws] = ws" using assms(2) by simp
  then have "mset (rev (butlast ws)) + mset [last ws] = mset ws" by (metis mset_append mset_rev rev_rev_ident)
  with compact_properties [OF c] ws groupWorkflows_compact [OF assms] c show ?thesis by auto
qed

text \<open>C36. When the rules do not throw, a history is compacted as the function \<open>compact\<close> does from the right: every
  version stays or goes, in order, the last one stays, one that goes merges into one that stays, and no version that
  stays merges into the next one.\<close>

theorem groupWorkflows_refines:
  assumes "\<forall>x \<in> set ws. \<forall>y \<in> set ws. merges rules skips (size_score wanted ws) x y = Inr (m x y)" "ws \<noteq> []"
  shows "\<exists>removed remaining. groupWorkflows ws rules skips wanted = Inr (removed, remaining) \<and>
    compact m (rev (butlast ws)) [last ws] = (removed, remaining) \<and> mset removed + mset remaining = mset ws \<and>
    subseq remaining ws \<and> remaining \<noteq> [] \<and> last remaining = last ws \<and>
    (\<forall>x \<in> set removed. \<exists>y \<in> set remaining. m x y) \<and> successively (\<lambda>x y. \<not> m x y) remaining"
  using assms by (rule groupWorkflows_ok)

definition version_at :: "int \<Rightarrow> string \<Rightarrow> version" where
  "version_at time text = \<lparr>ver_nodes = [\<lparr>dn_id = ''1'', dn_name = ''n'', dn_type = ''t'', dn_typeVersion = 1, dn_webhookId = None,
     dn_credentials = None, dn_parameters = [(''x'', JStr text)]\<rparr>], ver_connections = [], ver_createdAt = time, ver_authors = None\<rparr>"

lemma groupWorkflows_refines_witness:
  "groupWorkflows [version_at 0 ''a'', version_at 50 ''b'', version_at 90 ''c''] [makeMergeDependingOnSizeRule [(0, 45)]] [] True =
     Inr ([version_at 50 ''b''], [version_at 0 ''a'', version_at 90 ''c''])"
proof -
  let ?ws = "[version_at 0 ''a'', version_at 50 ''b'', version_at 90 ''c'']"
  let ?m = "\<lambda>v v'. \<bar>ver_createdAt v' - ver_createdAt v\<bar> < 45"
  have score: "size_score True ?ws = Some 2" by code_simp
  have "\<forall>x \<in> set ?ws. \<forall>y \<in> set ?ws. merges [makeMergeDependingOnSizeRule [(0, 45)]] [] (size_score True ?ws) x y = Inr (?m x y)"
    unfolding score by (simp add: merges_def makeMergeDependingOnSizeRule_def makeMergeShortTimeSpan_def js_sort_def)
  from groupWorkflows_refines [OF this] show ?thesis by (simp add: version_at_def)
qed

text \<open>C15. Compacting a history with the additive rule, as the server does, never throws and loses nothing: every version
  that goes is contained in one that stays, made within the time allowed; the others keep their order, and the last one stays.\<close>

theorem compaction_loses_nothing:
  assumes "\<forall>v \<in> set ws. distinct_ids v" "ws \<noteq> []"
  shows "\<exists>removed remaining. groupWorkflows ws [additive_rule] [makeSkipTimeDifference t] False = Inr (removed, remaining) \<and>
    mset removed + mset remaining = mset ws \<and> subseq remaining ws \<and> last remaining = last ws \<and>
    (\<forall>v \<in> set removed. \<exists>v' \<in> set remaining. version_contained v v' \<and> \<bar>ver_createdAt v' - ver_createdAt v\<bar> \<le> t)"
proof -
  let ?m = "\<lambda>v v'. version_contained v v' \<and> \<bar>ver_createdAt v' - ver_createdAt v\<bar> \<le> t"
  have "\<forall>x \<in> set ws. \<forall>y \<in> set ws. merges [additive_rule] [makeSkipTimeDifference t] (size_score False ws) x y = Inr (?m x y)"
    using assms(1) by (auto simp: merges_def makeSkipTimeDifference_def additive_rule_def mergeAdditiveChanges_iff Let_def)
  from groupWorkflows_ok [OF this assms(2)] show ?thesis by blast
qed

lemma compaction_loses_nothing_witness:
  "\<exists>removed remaining. groupWorkflows [version_at 0 ''a'', version_at 50 ''ab''] [additive_rule] [makeSkipTimeDifference 60] False =
      Inr (removed, remaining) \<and> last remaining = version_at 50 ''ab''"
  using compaction_loses_nothing [of "[version_at 0 ''a'', version_at 50 ''ab'']" 60]
  by (auto simp: distinct_ids_def version_at_def)

text \<open>An object with the indices of an array as its keys is a subset of the array, but not the other way round.\<close>

lemma object_in_array:
  "parametersAreSuperset (JObj [(''0'', JStr ''a'')]) (JArr [JStr ''ab''])"
  "\<not> parametersAreSuperset (JArr [JStr ''a'']) (JObj [(''0'', JStr ''ab'')])"
  by code_simp+

text \<open>The sizes are strict lower bounds: a version of exactly the size does not count.\<close>

lemma size_is_strict:
  "makeMergeDependingOnSizeRule [(100, 60)] v v' diff (Some 100) = Inr False"
  by (simp add: makeMergeDependingOnSizeRule_def js_sort_def)

end
