(* ===== verification/Leader_Election.thy ===== *)
theory Leader_Election
  imports N8n_Prelude
begin

text \<open>
  The choice of the leader among several main processes
  (\<^verbatim>\<open>packages/cli/src/scaling/multi-main-setup-v2.ts\<close>,
  \<^verbatim>\<open>leader-election-client.ts\<close>, \<^verbatim>\<open>multi-main-setup.ee.ts\<close> and the earlier
  strategy in \<^verbatim>\<open>multi-main-setup-legacy.ts\<close>). Redis is not part of the repository: the record
  \<open>redis\<close> holds the commands the code sends for the one key of the leader, and every law about them
  is a hypothesis (\<open>redis_laws\<close>).

  A command and the code after its \<^verbatim>\<open>await\<close> are separate steps: a main keeps a list of the commands
  under way, each with the point of the code to go on from (\<open>wait_point\<close>) and the answer once there is one.
  Nothing in the model keeps a main from having several checks under way but the code's own flag. Between
  the steps of one main other mains send their commands and time passes. A command can fail without effect, and its
  answer can be lost after it took effect.
\<close>

section \<open>The server\<close>

record 's redis =
  rd_get :: "'s \<Rightarrow> string option"
  rd_set_nx :: "string \<Rightarrow> nat \<Rightarrow> 's \<Rightarrow> bool \<times> 's"
  rd_expire :: "nat \<Rightarrow> 's \<Rightarrow> bool \<times> 's"
  rd_del :: "'s \<Rightarrow> 's"
  rd_elapse :: "nat \<Rightarrow> 's \<Rightarrow> 's"
  rd_ttl :: "'s \<Rightarrow> nat"

text \<open>The documented behaviour of GET, SET with NX and EX, EXPIRE and DEL on a key that expires:
  \<open>rd_ttl\<close> is the time the key has left, \<open>rd_elapse\<close> the passing of time.\<close>

definition redis_laws :: "'s redis \<Rightarrow> bool" where
  "redis_laws R \<longleftrightarrow>
     (\<forall>s v t. rd_get R s \<noteq> None \<longrightarrow> rd_set_nx R v t s = (False, s)) \<and>
     (\<forall>s v t. rd_get R s = None \<longrightarrow> 0 < t \<longrightarrow> fst (rd_set_nx R v t s) \<and>
        rd_get R (snd (rd_set_nx R v t s)) = Some v \<and> rd_ttl R (snd (rd_set_nx R v t s)) = t) \<and>
     (\<forall>s t. rd_get R s = None \<longrightarrow> rd_expire R t s = (False, s)) \<and>
     (\<forall>s t. rd_get R s \<noteq> None \<longrightarrow> 0 < t \<longrightarrow> fst (rd_expire R t s) \<and>
        rd_get R (snd (rd_expire R t s)) = rd_get R s \<and> rd_ttl R (snd (rd_expire R t s)) = t) \<and>
     (\<forall>s. rd_get R (rd_del R s) = None) \<and>
     (\<forall>s d. d < rd_ttl R s \<longrightarrow> rd_get R (rd_elapse R d s) = rd_get R s \<and>
        rd_ttl R (rd_elapse R d s) = rd_ttl R s - d)"

section \<open>The client\<close>

datatype lua_value = LuaInteger int | LuaString string

text \<open>The script \<^verbatim>\<open>INCREASE_TTL_IF_LEADER\<close>, which the server runs as one command.\<close>

definition increase_ttl_if_leader :: "'s redis \<Rightarrow> string \<Rightarrow> nat \<Rightarrow> 's \<Rightarrow> lua_value \<times> 's" where
  "increase_ttl_if_leader R host ttl s =
     (case rd_get R s of
        None \<Rightarrow> (LuaInteger (-1), s)
      | Some v \<Rightarrow> if v \<noteq> host then (LuaString v, s)
                  else (case rd_expire R ttl s of (ok, s') \<Rightarrow> (LuaInteger (if ok then 1 else 0), s')))"

datatype ttl_renewal = KeyMissing | OtherHostIsLeader string | RenewalSuccess

text \<open>The errors of commands carry no information the code depends on.\<close>

definition renewal_result :: "lua_value \<Rightarrow> unit + ttl_renewal" where
  "renewal_result v =
     (case v of
        LuaInteger n \<Rightarrow> if n = -1 \<or> n = 0 then Inr KeyMissing
                        else if n = 1 then Inr RenewalSuccess else Inl ()
      | LuaString h \<Rightarrow> Inr (OtherHostIsLeader h))"

definition tryRenewLeaderTtl :: "'s redis \<Rightarrow> string \<Rightarrow> nat \<Rightarrow> 's \<Rightarrow> (unit + ttl_renewal) \<times> 's" where
  "tryRenewLeaderTtl R host ttl s =
     (case increase_ttl_if_leader R host ttl s of (v, s') \<Rightarrow> (renewal_result v, s'))"

definition getLeader :: "'s redis \<Rightarrow> 's \<Rightarrow> string option \<times> 's" where
  "getLeader R s = (rd_get R s, s)"

definition setLeaderIfNotExists :: "'s redis \<Rightarrow> string \<Rightarrow> nat \<Rightarrow> 's \<Rightarrow> bool \<times> 's" where
  "setLeaderIfNotExists R host ttl s = rd_set_nx R host ttl s"

definition clearLeader :: "'s redis \<Rightarrow> 's \<Rightarrow> 's" where
  "clearLeader R s = rd_del R s"

section \<open>A main process\<close>

datatype instance_role = RoleUnset | RoleLeader | RoleFollower

datatype role_event = LeaderTakeover | LeaderStepdown

datatype wait_point = AfterInitSet | AfterRenewal | AfterReclaim | AfterRead | AfterClaim

datatype reply = ReplySet bool | ReplyRenewal ttl_renewal | ReplyGet "string option"

datatype closing = Open | Clearing | Cleared | Destroyed

text \<open>\<open>mi_waits\<close> holds where the code of \<^verbatim>\<open>init\<close> or of a check goes on and the answer, once it is
  there (\<open>Inl\<close>: the command failed), one entry for every call under way. \<open>mi_lease\<close> is not a field of the code: it is the time left
  since the server last accepted this main as the holder of the key.\<close>

record main_instance =
  mi_host :: string
  mi_role :: instance_role
  mi_timer :: bool
  mi_checking :: bool
  mi_waits :: "(wait_point \<times> (unit + reply) option) list"
  mi_closing :: closing
  mi_events :: "role_event list"
  mi_lease :: nat

datatype election_fault = AssertionError | NotEnabled

definition new_main :: "string \<Rightarrow> main_instance" where
  "new_main host = \<lparr>mi_host = host, mi_role = RoleUnset, mi_timer = False, mi_checking = False,
     mi_waits = [], mi_closing = Open, mi_events = [], mi_lease = 0\<rparr>"

definition markAsFollower :: "main_instance \<Rightarrow> main_instance" where
  "markAsFollower i = i\<lparr>mi_role := RoleFollower\<rparr>"

definition takeOverAsLeader :: "main_instance \<Rightarrow> election_fault + main_instance" where
  "takeOverAsLeader i =
     (if mi_role i = RoleLeader then Inl AssertionError
      else Inr (i\<lparr>mi_role := RoleLeader, mi_events := mi_events i @ [LeaderTakeover]\<rparr>))"

definition stepDownToFollower :: "main_instance \<Rightarrow> election_fault + main_instance" where
  "stepDownToFollower i =
     (if mi_role i \<noteq> RoleLeader then Inl AssertionError
      else Inr (i\<lparr>mi_role := RoleFollower, mi_events := mi_events i @ [LeaderStepdown]\<rparr>))"

definition send :: "wait_point \<Rightarrow> main_instance \<Rightarrow> main_instance" where
  "send w i = i\<lparr>mi_waits := mi_waits i @ [(w, None)]\<rparr>"

text \<open>\<^verbatim>\<open>init\<close> and the timer that is set once it has returned.\<close>

definition main_init :: "main_instance \<Rightarrow> main_instance" where
  "main_init i = send AfterInitSet i"

definition after_init :: "main_instance \<Rightarrow> main_instance" where
  "after_init i = i\<lparr>mi_timer := True\<rparr>"

definition on_init_set :: "unit + bool \<Rightarrow> main_instance \<Rightarrow> election_fault + main_instance" where
  "on_init_set r i =
     bindE (if r = Inr True then takeOverAsLeader i else Inr (markAsFollower i)) (\<lambda>j. Inr (after_init j))"

text \<open>A check, from the timer to its end. A check that is due while one is in progress is
  skipped.\<close>

definition end_check :: "main_instance \<Rightarrow> main_instance" where
  "end_check i = i\<lparr>mi_checking := False\<rparr>"

definition checkLeader :: "main_instance \<Rightarrow> main_instance" where
  "checkLeader i =
     (if mi_checking i then i
      else send (if mi_role i = RoleLeader then AfterRenewal else AfterRead) (i\<lparr>mi_checking := True\<rparr>))"

definition on_renewal :: "unit + ttl_renewal \<Rightarrow> main_instance \<Rightarrow> election_fault + main_instance" where
  "on_renewal r i =
     (case r of
        Inl _ \<Rightarrow> Inr (end_check i)
      | Inr RenewalSuccess \<Rightarrow> Inr (end_check i)
      | Inr (OtherHostIsLeader _) \<Rightarrow> bindE (stepDownToFollower i) (\<lambda>j. Inr (end_check j))
      | Inr KeyMissing \<Rightarrow> Inr (send AfterReclaim i))"

definition on_reclaim :: "unit + bool \<Rightarrow> main_instance \<Rightarrow> election_fault + main_instance" where
  "on_reclaim r i =
     (if r = Inr True then Inr (end_check i)
      else bindE (stepDownToFollower i) (\<lambda>j. Inr (end_check j)))"

definition on_read :: "unit + string option \<Rightarrow> main_instance \<Rightarrow> election_fault + main_instance" where
  "on_read r i =
     (case r of
        Inl _ \<Rightarrow> Inr (end_check i)
      | Inr (Some leaderId) \<Rightarrow>
          if leaderId \<noteq> [] \<and> leaderId = mi_host i
          then bindE (takeOverAsLeader i) (\<lambda>j. Inr (end_check j))
          else if leaderId \<noteq> [] then Inr (end_check i) else Inr (send AfterClaim i)
      | Inr None \<Rightarrow> Inr (send AfterClaim i))"

definition on_claim :: "unit + bool \<Rightarrow> main_instance \<Rightarrow> election_fault + main_instance" where
  "on_claim r i =
     (if r = Inr True then bindE (takeOverAsLeader i) (\<lambda>j. Inr (end_check j)) else Inr (end_check i))"

text \<open>\<^verbatim>\<open>shutdown\<close>: the timer stops, and a leader sends the command that deletes the key whoever
  holds it.\<close>

definition main_shutdown :: "main_instance \<Rightarrow> main_instance" where
  "main_shutdown i =
     i\<lparr>mi_timer := False, mi_closing := (if mi_role i = RoleLeader then Clearing else Destroyed)\<rparr>"

section \<open>All mains and the server\<close>

text \<open>The command a main waits for, with its effect at the server.\<close>

definition serve :: "'s redis \<Rightarrow> nat \<Rightarrow> wait_point \<Rightarrow> string \<Rightarrow> 's \<Rightarrow> (unit + reply) \<times> 's" where
  "serve R ttl w host s =
     (case w of
        AfterRenewal \<Rightarrow> (case tryRenewLeaderTtl R host ttl s of
            (Inl e, s') \<Rightarrow> (Inl e, s') | (Inr r, s') \<Rightarrow> (Inr (ReplyRenewal r), s'))
      | AfterRead \<Rightarrow> (case getLeader R s of (v, s') \<Rightarrow> (Inr (ReplyGet v), s'))
      | _ \<Rightarrow> (case setLeaderIfNotExists R host ttl s of (b, s') \<Rightarrow> (Inr (ReplySet b), s')))"

definition granted :: "unit + reply \<Rightarrow> bool" where
  "granted r \<longleftrightarrow> r = Inr (ReplySet True) \<or> r = Inr (ReplyRenewal RenewalSuccess)"

definition map_reply :: "(reply \<Rightarrow> 'a option) \<Rightarrow> unit + reply \<Rightarrow> unit + 'a" where
  "map_reply f r = (case r of Inl e \<Rightarrow> Inl e | Inr x \<Rightarrow> (case f x of None \<Rightarrow> Inl () | Some y \<Rightarrow> Inr y))"

definition set_reply :: "unit + reply \<Rightarrow> unit + bool" where
  "set_reply = map_reply (\<lambda>x. case x of ReplySet b \<Rightarrow> Some b | _ \<Rightarrow> None)"

definition renewal_reply :: "unit + reply \<Rightarrow> unit + ttl_renewal" where
  "renewal_reply = map_reply (\<lambda>x. case x of ReplyRenewal v \<Rightarrow> Some v | _ \<Rightarrow> None)"

definition get_reply :: "unit + reply \<Rightarrow> unit + string option" where
  "get_reply = map_reply (\<lambda>x. case x of ReplyGet v \<Rightarrow> Some v | _ \<Rightarrow> None)"

definition go_on :: "wait_point \<Rightarrow> unit + reply \<Rightarrow> main_instance \<Rightarrow> election_fault + main_instance" where
  "go_on w r =
     (case w of
        AfterInitSet \<Rightarrow> on_init_set (set_reply r)
      | AfterRenewal \<Rightarrow> on_renewal (renewal_reply r)
      | AfterReclaim \<Rightarrow> on_reclaim (set_reply r)
      | AfterRead \<Rightarrow> on_read (get_reply r)
      | AfterClaim \<Rightarrow> on_claim (set_reply r))"

record 's election =
  el_server :: 's
  el_mains :: "main_instance list"

datatype election_move =
    Boot nat | CheckDue nat | Serve nat nat | LoseAnswer nat nat | FailCommand nat nat | GoOn nat nat
  | ShutDown nat | ClearKey nat | Disconnect nat | Elapse nat

definition set_main :: "nat \<Rightarrow> main_instance \<Rightarrow> 's election \<Rightarrow> 's election" where
  "set_main n i st = st\<lparr>el_mains := (el_mains st)[n := i]\<rparr>"

text \<open>The \<open>k\<close>th call under way, and the main without it.\<close>

definition waiting :: "nat \<Rightarrow> main_instance \<Rightarrow> (wait_point \<times> (unit + reply) option) option" where
  "waiting k i = (if k < length (mi_waits i) then Some (mi_waits i ! k) else None)"

definition resumed :: "nat \<Rightarrow> main_instance \<Rightarrow> main_instance" where
  "resumed k i = i\<lparr>mi_waits := take k (mi_waits i) @ drop (Suc k) (mi_waits i)\<rparr>"

definition answered :: "nat \<Rightarrow> wait_point \<Rightarrow> unit + reply \<Rightarrow> main_instance \<Rightarrow> main_instance" where
  "answered k w r i = i\<lparr>mi_waits := (mi_waits i)[k := (w, Some r)]\<rparr>"

definition serve_move :: "'s redis \<Rightarrow> nat \<Rightarrow> bool \<Rightarrow> nat \<Rightarrow> nat \<Rightarrow> 's election \<Rightarrow> election_fault + 's election" where
  "serve_move R ttl lost n k st =
     (let i = el_mains st ! n in
      case waiting k i of
        Some (w, None) \<Rightarrow>
          (case serve R ttl w (mi_host i) (el_server st) of (r, s') \<Rightarrow>
             Inr (set_main n ((answered k w (if lost then Inl () else r) i)\<lparr>
                               mi_lease := (if granted r then ttl else mi_lease i)\<rparr>) (st\<lparr>el_server := s'\<rparr>)))
      | _ \<Rightarrow> Inl NotEnabled)"

definition go_on_move :: "nat \<Rightarrow> nat \<Rightarrow> 's election \<Rightarrow> election_fault + 's election" where
  "go_on_move n k st =
     (let i = el_mains st ! n in
      case waiting k i of
        Some (w, Some r) \<Rightarrow> bindE (go_on w r (resumed k i)) (\<lambda>j. Inr (set_main n j st))
      | _ \<Rightarrow> Inl NotEnabled)"

text \<open>After the client is disconnected its commands only fail, although one that was sent before
  may still take effect.\<close>

definition main_move :: "'s redis \<Rightarrow> nat \<Rightarrow> election_move \<Rightarrow> nat \<Rightarrow> 's election \<Rightarrow> election_fault + 's election" where
  "main_move R ttl mv n st =
     (let i = el_mains st ! n in
      case mv of
        Boot _ \<Rightarrow> if mi_role i = RoleUnset \<and> mi_waits i = [] \<and> mi_closing i = Open
                  then Inr (set_main n (main_init i) st) else Inl NotEnabled
      | CheckDue _ \<Rightarrow> if mi_timer i then Inr (set_main n (checkLeader i) st) else Inl NotEnabled
      | Serve _ k \<Rightarrow> if mi_closing i = Destroyed then Inl NotEnabled else serve_move R ttl False n k st
      | LoseAnswer _ k \<Rightarrow> serve_move R ttl True n k st
      | FailCommand _ k \<Rightarrow>
          (case waiting k i of
             Some (w, None) \<Rightarrow> Inr (set_main n (answered k w (Inl ()) i) st)
           | _ \<Rightarrow> Inl NotEnabled)
      | GoOn _ k \<Rightarrow> go_on_move n k st
      | ShutDown _ \<Rightarrow> if mi_closing i = Open then Inr (set_main n (main_shutdown i) st) else Inl NotEnabled
      | ClearKey _ \<Rightarrow> if mi_closing i = Clearing
                      then Inr (set_main n (i\<lparr>mi_closing := Cleared, mi_lease := 0\<rparr>)
                                 (st\<lparr>el_server := clearLeader R (el_server st)\<rparr>))
                      else Inl NotEnabled
      | Disconnect _ \<Rightarrow> if mi_closing i = Clearing \<or> mi_closing i = Cleared
                        then Inr (set_main n (i\<lparr>mi_closing := Destroyed\<rparr>) st) else Inl NotEnabled
      | Elapse _ \<Rightarrow> Inl NotEnabled)"

fun moved :: "election_move \<Rightarrow> nat option" where
  "moved (Boot n) = Some n"
| "moved (CheckDue n) = Some n"
| "moved (Serve n k) = Some n"
| "moved (LoseAnswer n k) = Some n"
| "moved (FailCommand n k) = Some n"
| "moved (GoOn n k) = Some n"
| "moved (ShutDown n) = Some n"
| "moved (ClearKey n) = Some n"
| "moved (Disconnect n) = Some n"
| "moved (Elapse d) = None"

definition age :: "nat \<Rightarrow> main_instance \<Rightarrow> main_instance" where
  "age d i = i\<lparr>mi_lease := mi_lease i - d\<rparr>"

definition election_step :: "'s redis \<Rightarrow> nat \<Rightarrow> election_move \<Rightarrow> 's election \<Rightarrow> election_fault + 's election" where
  "election_step R ttl mv st =
     (case mv of
        Elapse d \<Rightarrow> Inr \<lparr>el_server = rd_elapse R d (el_server st), el_mains = map (age d) (el_mains st)\<rparr>
      | _ \<Rightarrow> (case moved mv of
                None \<Rightarrow> Inl NotEnabled
              | Some n \<Rightarrow> if n < length (el_mains st) then main_move R ttl mv n st else Inl NotEnabled))"

definition election_start :: "'s \<Rightarrow> string list \<Rightarrow> 's election" where
  "election_start s hosts = \<lparr>el_server = s, el_mains = map new_main hosts\<rparr>"

text \<open>The states the mains can get into, and those they get into when no main deletes a key that
  another one holds.\<close>

inductive elected :: "'s redis \<Rightarrow> nat \<Rightarrow> 's election \<Rightarrow> 's election \<Rightarrow> bool" for R ttl s0 where
  elected_start: "elected R ttl s0 s0"
| elected_step: "elected R ttl s0 st \<Longrightarrow> election_step R ttl mv st = Inr st' \<Longrightarrow> elected R ttl s0 st'"

definition own_clear :: "'s redis \<Rightarrow> election_move \<Rightarrow> 's election \<Rightarrow> bool" where
  "own_clear R mv st =
     (case mv of ClearKey n \<Rightarrow> (case rd_get R (el_server st) of
          None \<Rightarrow> True | Some h \<Rightarrow> h = mi_host (el_mains st ! n)) | _ \<Rightarrow> True)"

inductive elected_clean :: "'s redis \<Rightarrow> nat \<Rightarrow> 's election \<Rightarrow> 's election \<Rightarrow> bool" for R ttl s0 where
  clean_start: "elected_clean R ttl s0 s0"
| clean_step: "elected_clean R ttl s0 st \<Longrightarrow> own_clear R mv st \<Longrightarrow> election_step R ttl mv st = Inr st' \<Longrightarrow>
    elected_clean R ttl s0 st'"

text \<open>A check that no other main and no failure disturbs.\<close>

definition undisturbed_check :: "'s redis \<Rightarrow> nat \<Rightarrow> nat \<Rightarrow> 's election \<Rightarrow> election_fault + 's election" where
  "undisturbed_check R ttl n st =
     bindE (foldE (election_step R ttl) [CheckDue n, Serve n 0, GoOn n 0] st) (\<lambda>st1.
       if mi_waits (el_mains st1 ! n) = [] then Inr st1
       else foldE (election_step R ttl) [Serve n 0, GoOn n 0] st1)"

section \<open>The earlier strategy\<close>

text \<open>The same key, with separate commands. The result is the role, the events and the server; the
  commands are taken to be answered.\<close>

definition legacy_tryBecomeLeader ::
  "'s redis \<Rightarrow> nat \<Rightarrow> string \<Rightarrow> role_event list \<Rightarrow> 's \<Rightarrow> instance_role \<times> role_event list \<times> 's" where
  "legacy_tryBecomeLeader R ttl host evs s =
     (case rd_set_nx R host ttl s of
        (True, s') \<Rightarrow> (RoleLeader, evs @ [LeaderTakeover], s')
      | (False, s') \<Rightarrow> (RoleFollower, evs, s'))"

definition legacy_checkLeader ::
  "'s redis \<Rightarrow> nat \<Rightarrow> string \<Rightarrow> instance_role \<Rightarrow> role_event list \<Rightarrow> 's
    \<Rightarrow> instance_role \<times> role_event list \<times> 's" where
  "legacy_checkLeader R ttl host role evs s =
     (case rd_get R s of
        Some leaderId \<Rightarrow>
          if leaderId = host
          then (RoleLeader, (if role \<noteq> RoleLeader then evs @ [LeaderTakeover] else evs), snd (rd_expire R ttl s))
          else if leaderId \<noteq> []
          then if role = RoleLeader then (RoleFollower, evs @ [LeaderStepdown], s) else (role, evs, s)
          else legacy_tryBecomeLeader R ttl host (evs @ [LeaderStepdown]) s
      | None \<Rightarrow> legacy_tryBecomeLeader R ttl host (evs @ [LeaderStepdown]) s)"

definition legacy_shutdown :: "'s redis \<Rightarrow> instance_role \<Rightarrow> 's \<Rightarrow> 's" where
  "legacy_shutdown R role s = (if role = RoleLeader then rd_del R s else s)"

end
