(* ===== verification/Leader_Facts.thy ===== *)
theory Leader_Facts
  imports Leader_Election
begin

text \<open>
  The laws of \<open>Leader_Election\<close>: the assertions of the code hold in every run, leases exclude each
  other as long as no main deletes another's key, undisturbed checks end with one leader whatever
  the mains took themselves for, and the earlier strategy decides alike.
\<close>

lemmas handler_defs = go_on_def on_init_set_def on_renewal_def on_reclaim_def on_read_def on_claim_def
  takeOverAsLeader_def stepDownToFollower_def markAsFollower_def end_check_def after_init_def send_def

section \<open>The server\<close>

lemma redisD:
  assumes "redis_laws R"
  shows "rd_get R s = Some h \<Longrightarrow> rd_set_nx R v t s = (False, s)"
    and "rd_get R s = None \<Longrightarrow> 0 < t \<Longrightarrow> fst (rd_set_nx R v t s)"
    and "rd_get R s = None \<Longrightarrow> 0 < t \<Longrightarrow> rd_get R (snd (rd_set_nx R v t s)) = Some v"
    and "rd_get R s = None \<Longrightarrow> 0 < t \<Longrightarrow> rd_ttl R (snd (rd_set_nx R v t s)) = t"
    and "rd_get R s = Some h \<Longrightarrow> 0 < t \<Longrightarrow> fst (rd_expire R t s)"
    and "rd_get R s = Some h \<Longrightarrow> 0 < t \<Longrightarrow> rd_get R (snd (rd_expire R t s)) = Some h"
    and "rd_get R s = Some h \<Longrightarrow> 0 < t \<Longrightarrow> rd_ttl R (snd (rd_expire R t s)) = t"
    and "rd_get R (rd_del R s) = None"
    and "d < rd_ttl R s \<Longrightarrow> rd_get R (rd_elapse R d s) = rd_get R s"
    and "d < rd_ttl R s \<Longrightarrow> rd_ttl R (rd_elapse R d s) = rd_ttl R s - d"
  using assms unfolding redis_laws_def by auto

text \<open>What the server does with a command: it is granted exactly if the key is the host's
  afterwards, and otherwise leaves the key as it was.\<close>

lemma serve_effect:
  assumes R: "redis_laws R" and t: "0 < ttl" and run: "serve R ttl w host s = (r, s')"
  shows "(granted r \<and> (rd_get R s = None \<or> rd_get R s = Some host) \<and>
          rd_get R s' = Some host \<and> rd_ttl R s' = ttl) \<or> (\<not> granted r \<and> s' = s)"
proof -
  have nx: "(granted r \<and> (rd_get R s = None \<or> rd_get R s = Some host) \<and>
          rd_get R s' = Some host \<and> rd_ttl R s' = ttl) \<or> (\<not> granted r \<and> s' = s)"
    if "(case setLeaderIfNotExists R host ttl s of (b, s') \<Rightarrow> (Inr (ReplySet b), s')) = (r, s')"
  proof (cases "rd_get R s")
    case None
    with that redisD(2-4) [OF R None t, of host] show ?thesis
      by (auto simp: setLeaderIfNotExists_def granted_def split: prod.splits)
  next
    case (Some h)
    with that redisD(1) [OF R Some, of host ttl] show ?thesis
      by (auto simp: setLeaderIfNotExists_def granted_def)
  qed
  have "(granted r \<and> (rd_get R s = None \<or> rd_get R s = Some host) \<and>
          rd_get R s' = Some host \<and> rd_ttl R s' = ttl) \<or> (\<not> granted r \<and> s' = s)"
    if w: "w = AfterRenewal"
  proof (cases "rd_get R s")
    case None
    with run w show ?thesis
      by (auto simp: serve_def tryRenewLeaderTtl_def increase_ttl_if_leader_def renewal_result_def granted_def)
  next
    case (Some h)
    with run w redisD(5-7) [OF R Some t] show ?thesis
      by (auto simp: serve_def tryRenewLeaderTtl_def increase_ttl_if_leader_def renewal_result_def granted_def
          split: prod.splits if_splits)
  qed
  moreover have "r = Inr (ReplyGet (rd_get R s)) \<and> s' = s" if "w = AfterRead"
    using run that by (auto simp: serve_def getLeader_def)
  ultimately show ?thesis
    using run nx by (cases w) (auto simp: serve_def granted_def)
qed

section \<open>The assertions\<close>

fun at_point :: "wait_point \<Rightarrow> instance_role \<Rightarrow> bool \<Rightarrow> bool" where
  "at_point AfterInitSet r c \<longleftrightarrow> r = RoleUnset \<and> \<not> c"
| "at_point AfterRenewal r c \<longleftrightarrow> r = RoleLeader \<and> c"
| "at_point AfterReclaim r c \<longleftrightarrow> r = RoleLeader \<and> c"
| "at_point AfterRead r c \<longleftrightarrow> r = RoleFollower \<and> c"
| "at_point AfterClaim r c \<longleftrightarrow> r = RoleFollower \<and> c"

definition main_ok :: "main_instance \<Rightarrow> bool" where
  "main_ok i \<longleftrightarrow> (mi_timer i \<longrightarrow> mi_role i \<noteq> RoleUnset) \<and>
     (case mi_waits i of [] \<Rightarrow> \<not> mi_checking i | [(w, _)] \<Rightarrow> at_point w (mi_role i) (mi_checking i) | _ \<Rightarrow> False)"

text \<open>So at most one call of a main is under way.\<close>

lemma main_ok_one: "main_ok i \<Longrightarrow> length (mi_waits i) \<le> 1"
  by (cases "mi_waits i" rule: remdups_adj.cases) (auto simp: main_ok_def)

lemma at_point_checks: "at_point w r c \<Longrightarrow> r \<noteq> RoleUnset \<Longrightarrow> c"
  by (cases w) auto

lemma main_ok_waiting:
  assumes "main_ok i" "waiting k i = Some p"
  shows "k = 0" "mi_waits i = [p]"
  using assms by (auto simp: main_ok_def waiting_def split: list.splits if_splits)

lemma main_ok_new: "main_ok (new_main host)"
  by (simp add: main_ok_def new_main_def)

lemma go_on_ok:
  assumes "main_ok i" "waiting k i = Some (w, Some r)"
  shows "\<exists>j. go_on w r (resumed k i) = Inr j \<and> main_ok j \<and> mi_host j = mi_host i \<and> mi_lease j = mi_lease i"
  using assms(1) main_ok_waiting [OF assms]
  by (cases w) (auto simp: main_ok_def resumed_def handler_defs split: sum.splits ttl_renewal.splits option.splits)

lemma main_ok_check: "main_ok i \<Longrightarrow> mi_timer i \<Longrightarrow> main_ok (checkLeader i)"
  by (cases "mi_role i") (auto simp: main_ok_def checkLeader_def send_def dest: at_point_checks split: list.splits)

lemma main_ok_wait:
  "main_ok i \<Longrightarrow> waiting k i = Some (w, r) \<Longrightarrow> main_ok ((answered k w r' i)\<lparr>mi_lease := l\<rparr>)"
  "main_ok i \<Longrightarrow> waiting k i = Some (w, r) \<Longrightarrow> main_ok (answered k w r' i)"
  using main_ok_waiting [of i k "(w, r)"] by (auto simp: main_ok_def answered_def)

definition all_ok :: "'s election \<Rightarrow> bool" where
  "all_ok st \<longleftrightarrow> (\<forall>i \<in> set (el_mains st). main_ok i)"

lemma all_ok_set_main: "all_ok st \<Longrightarrow> main_ok i \<Longrightarrow> all_ok (set_main n i (st\<lparr>el_server := s\<rparr>))"
  by (auto simp: all_ok_def set_main_def dest: set_update_subset_insert [THEN subsetD])

lemma all_ok_server: "all_ok (st\<lparr>el_server := s\<rparr>) = all_ok st"
  by (simp add: all_ok_def)

lemma all_ok_set_main': "all_ok st \<Longrightarrow> main_ok i \<Longrightarrow> all_ok (set_main n i st)"
  using all_ok_set_main [of st i n "el_server st"] by simp

lemma all_okD: "all_ok st \<Longrightarrow> n < length (el_mains st) \<Longrightarrow> main_ok (el_mains st ! n)"
  by (simp add: all_ok_def)

lemma serve_move_ok:
  assumes "all_ok st" "n < length (el_mains st)"
  shows "serve_move R ttl lost n k st \<noteq> Inl AssertionError"
    and "serve_move R ttl lost n k st = Inr st' \<Longrightarrow> all_ok st'"
  using assms by (auto simp: serve_move_def Let_def split: option.splits prod.splits
      intro!: all_ok_set_main main_ok_wait(1) dest: all_okD)

lemma go_on_move_ok:
  assumes "all_ok st" "n < length (el_mains st)"
  shows "go_on_move n k st \<noteq> Inl AssertionError \<and> (\<forall>st'. go_on_move n k st = Inr st' \<longrightarrow> all_ok st')"
proof (cases "waiting k (el_mains st ! n)")
  case (Some p)
  show ?thesis
  proof (cases "snd p")
    case (Some r)
    with \<open>waiting k _ = Some p\<close> have w: "waiting k (el_mains st ! n) = Some (fst p, Some r)" by (cases p) simp
    from go_on_ok [OF all_okD [OF assms] w] obtain j
      where "go_on (fst p) r (resumed k (el_mains st ! n)) = Inr j" "main_ok j" by blast
    with w assms(1) show ?thesis by (simp add: go_on_move_def all_ok_set_main')
  qed (use Some in \<open>cases p; simp add: go_on_move_def\<close>)
qed (simp add: go_on_move_def)

lemma main_ok_plain:
  "main_ok i \<Longrightarrow> mi_role i = RoleUnset \<Longrightarrow> mi_waits i = [] \<Longrightarrow> main_ok (main_init i)"
  "main_ok i \<Longrightarrow> main_ok (main_shutdown i)"
  "main_ok i \<Longrightarrow> main_ok (i\<lparr>mi_closing := c, mi_lease := l\<rparr>)"
  "main_ok i \<Longrightarrow> main_ok (i\<lparr>mi_closing := c\<rparr>)"
  "main_ok i \<Longrightarrow> main_ok (age d i)"
  by (auto simp: main_ok_def main_init_def send_def main_shutdown_def age_def split: list.splits)

lemma main_move_ok:
  assumes "all_ok st" "n < length (el_mains st)"
  shows "main_move R ttl mv n st \<noteq> Inl AssertionError \<and> (\<forall>st'. main_move R ttl mv n st = Inr st' \<longrightarrow> all_ok st')"
  using assms serve_move_ok [OF assms] go_on_move_ok [OF assms] all_okD [OF assms]
  by (cases mv) (auto simp: main_move_def Let_def all_ok_server split: option.splits if_splits
      intro!: all_ok_set_main' main_ok_plain main_ok_wait(2) main_ok_check)

lemma step_ok:
  assumes "all_ok st"
  shows "election_step R ttl mv st \<noteq> Inl AssertionError" "election_step R ttl mv st = Inr st' \<Longrightarrow> all_ok st'"
  using assms main_move_ok [OF assms, of _ R ttl mv]
  by (auto simp: election_step_def all_ok_def main_ok_plain split: election_move.splits if_splits)

lemma elected_all_ok:
  assumes "elected R ttl (election_start s hosts) st"
  shows "all_ok st"
  using assms
proof induction
  case elected_start
  then show ?case by (auto simp: all_ok_def election_start_def main_ok_new)
qed (rule step_ok(2))

section \<open>Leases\<close>

text \<open>Of a main, the leases depend on its host and on the time left only.\<close>

definition views :: "'s election \<Rightarrow> (string \<times> nat) list" where
  "views st = map (\<lambda>i. (mi_host i, mi_lease i)) (el_mains st)"

lemma views_set_main [simp]:
  "views (set_main n i st) = (views st)[n := (mi_host i, mi_lease i)]"
  "views (st\<lparr>el_server := s\<rparr>) = views st"
  by (simp_all add: views_def set_main_def map_update)

lemma server_set_main [simp]: "el_server (set_main n i st) = el_server st"
  by (simp add: set_main_def)

lemma views_same:
  "n < length (el_mains st) \<Longrightarrow> (views st)[n := (mi_host (el_mains st ! n), mi_lease (el_mains st ! n))] = views st"
  by (simp add: views_def list_update_same_conv)

lemma go_on_frame: "go_on w r i = Inr j \<Longrightarrow> mi_host j = mi_host i \<and> mi_lease j = mi_lease i"
  by (cases w) (auto simp: handler_defs split: sum.splits ttl_renewal.splits option.splits if_splits)

text \<open>What a step can do to the server and the views.\<close>

definition quiet :: "'s election \<Rightarrow> 's election \<Rightarrow> bool" where
  "quiet st st' \<longleftrightarrow> el_server st' = el_server st \<and> views st' = views st"

definition served :: "'s redis \<Rightarrow> nat \<Rightarrow> nat \<Rightarrow> 's election \<Rightarrow> 's election \<Rightarrow> bool" where
  "served R ttl n st st' \<longleftrightarrow> (\<exists>w r. serve R ttl w (mi_host (el_mains st ! n)) (el_server st) = (r, el_server st') \<and>
     views st' = (views st)[n := (mi_host (el_mains st ! n), if granted r then ttl else mi_lease (el_mains st ! n))])"

lemma serve_move_served:
  assumes "serve_move R ttl lost n k st = Inr st'"
  shows "served R ttl n st st'"
proof -
  from assms obtain w where w: "waiting k (el_mains st ! n) = Some (w, None)"
    by (auto simp: serve_move_def Let_def split: option.splits)
  obtain r s' where run: "serve R ttl w (mi_host (el_mains st ! n)) (el_server st) = (r, s')" by force
  with w assms have "el_server st' = s'"
    "views st' = (views st)[n := (mi_host (el_mains st ! n), if granted r then ttl else mi_lease (el_mains st ! n))]"
    by (auto simp: serve_move_def Let_def answered_def)
  with run show ?thesis unfolding served_def by blast
qed

lemma go_on_move_quiet:
  assumes "go_on_move n k st = Inr st'" "n < length (el_mains st)"
  shows "quiet st st'"
  using assms by (auto simp: go_on_move_def quiet_def Let_def bindE_Inr_iff views_same resumed_def
      split: option.splits dest!: go_on_frame)

lemma main_move_views:
  assumes "main_move R ttl mv n st = Inr st'" "n < length (el_mains st)"
  shows "quiet st st' \<or> served R ttl n st st' \<or>
    ((\<exists>k. mv = ClearKey k) \<and> el_server st' = rd_del R (el_server st) \<and>
     views st' = (views st)[n := (mi_host (el_mains st ! n), 0)])"
  using assms serve_move_served [of R ttl _ n _ st st'] go_on_move_quiet [of n _ st st']
  by (cases mv) (auto simp: main_move_def Let_def quiet_def clearLeader_def views_same main_init_def send_def
      checkLeader_def main_shutdown_def answered_def split: option.splits if_splits)

definition lease_inv :: "'s redis \<Rightarrow> 's \<Rightarrow> (string \<times> nat) list \<Rightarrow> bool" where
  "lease_inv R s vs \<longleftrightarrow> distinct (map fst vs) \<and>
     (\<forall>(h, l) \<in> set vs. 0 < l \<longrightarrow> rd_get R s = Some h \<and> l \<le> rd_ttl R s)"

lemma lease_inv_unheld:
  assumes "lease_inv R s vs" "n < length vs" "vs ! n = (h, l)" "rd_get R s = None \<or> rd_get R s = Some h"
    and "0 < l' \<longrightarrow> rd_get R s' = Some h \<and> l' \<le> rd_ttl R s'"
  shows "lease_inv R s' (vs[n := (h, l')])"
proof -
  have "(map fst vs)[n := h] = map fst vs"
    using assms(2,3) by (simp add: list_update_same_conv)
  then have d: "distinct (map fst (vs[n := (h, l')]))"
    using assms(1) by (simp add: map_update lease_inv_def)
  have "rd_get R s' = Some h2 \<and> l2 \<le> rd_ttl R s'"
    if m: "m < length vs" and at: "vs[n := (h, l')] ! m = (h2, l2)" and "0 < l2" for m h2 l2
  proof (cases "m = n")
    case False
    then have v: "vs ! m = (h2, l2)" using at by simp
    with assms(1) m \<open>0 < l2\<close> have "rd_get R s = Some h2" by (fastforce simp: lease_inv_def dest: nth_mem)
    with assms(4) have "map fst vs ! m = map fst vs ! n" using v m assms(2,3) by simp
    with False m assms(1,2) show ?thesis by (simp add: lease_inv_def nth_eq_iff_index_eq del: nth_map)
  qed (use at \<open>0 < l2\<close> assms(2,5) in simp)
  then show ?thesis
    using d unfolding lease_inv_def by (auto simp: in_set_conv_nth)
qed

lemma lease_inv_elapse:
  assumes "redis_laws R" "lease_inv R s vs"
  shows "lease_inv R (rd_elapse R d s) (map (\<lambda>(h, l). (h, l - d)) vs)"
proof -
  have "rd_get R (rd_elapse R d s) = Some h \<and> l - d \<le> rd_ttl R (rd_elapse R d s)"
    if "(h, l) \<in> set vs" "0 < l - d" for h l
  proof -
    from that assms(2) have "rd_get R s = Some h" "l \<le> rd_ttl R s" by (auto simp: lease_inv_def)
    with that redisD(9,10) [OF assms(1), of d s] show ?thesis by simp
  qed
  moreover have "distinct (map fst (map (\<lambda>(h, l). (h, l - d)) vs))"
    using assms(2) by (simp add: lease_inv_def comp_def case_prod_beta)
  ultimately show ?thesis unfolding lease_inv_def by auto
qed

lemma views_nth: "n < length (el_mains st) \<Longrightarrow>
    views st ! n = (mi_host (el_mains st ! n), mi_lease (el_mains st ! n)) \<and> n < length (views st)"
  by (simp add: views_def)

lemma served_lease_inv:
  assumes "redis_laws R" "0 < ttl" "lease_inv R (el_server st) (views st)" "n < length (el_mains st)"
    and "served R ttl n st st'"
  shows "lease_inv R (el_server st') (views st')"
proof -
  from assms(5) obtain w r where run: "serve R ttl w (mi_host (el_mains st ! n)) (el_server st) = (r, el_server st')"
    and v: "views st' = (views st)[n := (mi_host (el_mains st ! n), if granted r then ttl else mi_lease (el_mains st ! n))]"
    by (auto simp: served_def)
  note nth = views_nth [OF assms(4)]
  show ?thesis
  proof (cases "granted r")
    case True
    with serve_effect [OF assms(1,2) run] show ?thesis
      unfolding v by (intro lease_inv_unheld [OF assms(3) conjunct2 [OF nth] conjunct1 [OF nth]]) auto
  next
    case False
    with serve_effect [OF assms(1,2) run] assms(3,4) v show ?thesis by (simp add: views_same)
  qed
qed

lemma step_lease_inv:
  assumes "redis_laws R" "0 < ttl" "lease_inv R (el_server st) (views st)"
    and "own_clear R mv st" "election_step R ttl mv st = Inr st'"
  shows "lease_inv R (el_server st') (views st')"
proof (cases "moved mv")
  case None
  then obtain d where "mv = Elapse d" by (cases mv) auto
  with assms(5) have "el_server st' = rd_elapse R d (el_server st)"
    "views st' = map (\<lambda>(h, l). (h, l - d)) (views st)"
    by (auto simp: election_step_def views_def age_def)
  with lease_inv_elapse [OF assms(1,3)] show ?thesis by simp
next
  case (Some n)
  with assms(5) have n: "n < length (el_mains st)" and run: "main_move R ttl mv n st = Inr st'"
    by (auto simp: election_step_def split: election_move.splits if_splits)
  note nth = views_nth [OF n]
  from main_move_views [OF run n] show ?thesis
  proof (elim disjE conjE exE)
    fix k
    assume k: "mv = ClearKey k" and s: "el_server st' = rd_del R (el_server st)"
      and v: "views st' = (views st)[n := (mi_host (el_mains st ! n), 0)]"
    from k Some have "k = n" by simp
    with k assms(4) have "rd_get R (el_server st) = None \<or> rd_get R (el_server st) = Some (mi_host (el_mains st ! n))"
      by (auto simp: own_clear_def split: option.splits)
    then show ?thesis
      unfolding v by (intro lease_inv_unheld [OF assms(3) conjunct2 [OF nth] conjunct1 [OF nth]]) auto
  qed (use assms served_lease_inv [OF assms(1-3) n] in \<open>simp_all add: quiet_def\<close>)
qed

lemma clean_lease_inv:
  assumes "elected_clean R ttl (election_start s hosts) st" "redis_laws R" "0 < ttl" "distinct hosts"
  shows "lease_inv R (el_server st) (views st)"
  using assms
proof induction
  case clean_start
  then show ?case by (simp add: lease_inv_def views_def election_start_def new_main_def comp_def)
next
  case (clean_step st mv st')
  then show ?case using step_lease_inv by blast
qed

section \<open>Undisturbed checks\<close>

text \<open>A main between two checks.\<close>

definition idle :: "main_instance \<Rightarrow> bool" where
  "idle i \<longleftrightarrow> mi_timer i \<and> \<not> mi_checking i \<and> mi_waits i = [] \<and> mi_closing i \<noteq> Destroyed \<and>
     mi_role i \<noteq> RoleUnset \<and> mi_host i \<noteq> []"

text \<open>What a check of one main amounts to: the role, the events and the server afterwards.\<close>

definition checked ::
  "'s redis \<Rightarrow> nat \<Rightarrow> string \<Rightarrow> instance_role \<Rightarrow> role_event list \<Rightarrow> 's
    \<Rightarrow> instance_role \<times> role_event list \<times> 's" where
  "checked R ttl host role evs s =
     (case rd_get R s of
        None \<Rightarrow> (RoleLeader, (if role = RoleLeader then evs else evs @ [LeaderTakeover]), snd (rd_set_nx R host ttl s))
      | Some h \<Rightarrow>
          if h = host
          then if role = RoleLeader then (RoleLeader, evs, snd (rd_expire R ttl s))
               else (RoleLeader, evs @ [LeaderTakeover], s)
          else if role = RoleLeader then (RoleFollower, evs @ [LeaderStepdown], s) else (RoleFollower, evs, s))"

lemma checked_effect:
  assumes "redis_laws R" "0 < ttl" "checked R ttl host role evs s = (role', evs', s')"
  shows "role' = RoleLeader \<longleftrightarrow> rd_get R s' = Some host" "role' \<noteq> RoleUnset"
    "rd_get R s' = (case rd_get R s of None \<Rightarrow> Some host | Some h \<Rightarrow> Some h)"
  using assms(2,3) redisD(3) [OF assms(1), of s ttl host] redisD(6) [OF assms(1), of s host ttl]
  by (auto simp: checked_def split: option.splits if_splits)

lemma role_cases: "role \<noteq> RoleUnset \<Longrightarrow> role = RoleLeader \<or> role = RoleFollower"
  by (cases role) auto

lemmas check_defs = undisturbed_check_def election_step_def main_move_def serve_move_def go_on_move_def
  serve_def set_main_def checkLeader_def handler_defs set_reply_def renewal_reply_def get_reply_def
  map_reply_def granted_def waiting_def resumed_def answered_def Let_def

lemma undisturbed_check_run:
  assumes R: "redis_laws R" and t: "0 < ttl" and n: "n < length (el_mains st)" and i: "idle (el_mains st ! n)"
    and named: "rd_get R (el_server st) \<noteq> Some []"
  shows "\<exists>st'. undisturbed_check R ttl n st = Inr st' \<and>
    el_mains st' = (el_mains st)[n := el_mains st' ! n] \<and> idle (el_mains st' ! n) \<and>
    mi_host (el_mains st' ! n) = mi_host (el_mains st ! n) \<and>
    (mi_role (el_mains st' ! n), mi_events (el_mains st' ! n), el_server st') =
      checked R ttl (mi_host (el_mains st ! n)) (mi_role (el_mains st ! n)) (mi_events (el_mains st ! n)) (el_server st)"
proof (cases "rd_get R (el_server st)")
  case None
  note nx = redisD(2) [OF R None t, of "mi_host (el_mains st ! n)"]
  obtain s' where s': "rd_set_nx R (mi_host (el_mains st ! n)) ttl (el_server st) = (True, s')"
    using nx by (cases "rd_set_nx R (mi_host (el_mains st ! n)) ttl (el_server st)") auto
  from i have "mi_role (el_mains st ! n) = RoleLeader \<or> mi_role (el_mains st ! n) = RoleFollower"
    by (simp add: idle_def role_cases)
  then show ?thesis
    using None s' n i by (elim disjE) (simp_all add: check_defs idle_def checked_def tryRenewLeaderTtl_def
        increase_ttl_if_leader_def renewal_result_def setLeaderIfNotExists_def getLeader_def)
next
  case (Some h)
  obtain s' where s': "rd_expire R ttl (el_server st) = (True, s')"
    using redisD(5) [OF R Some t] by (cases "rd_expire R ttl (el_server st)") auto
  from named Some have h: "h \<noteq> []" by auto
  from i have "mi_role (el_mains st ! n) = RoleLeader \<or> mi_role (el_mains st ! n) = RoleFollower"
    by (simp add: idle_def role_cases)
  then show ?thesis
    using Some s' h n i by (elim disjE; cases "h = mi_host (el_mains st ! n)")
      (simp_all add: check_defs idle_def checked_def tryRenewLeaderTtl_def
        increase_ttl_if_leader_def renewal_result_def setLeaderIfNotExists_def getLeader_def)
qed

text \<open>Every main has checked once, the first first.\<close>

definition all_idle :: "'s election \<Rightarrow> bool" where
  "all_idle st \<longleftrightarrow> (\<forall>i \<in> set (el_mains st). idle i) \<and> distinct (map mi_host (el_mains st))"

definition sweep :: "'s redis \<Rightarrow> nat \<Rightarrow> nat list \<Rightarrow> 's election \<Rightarrow> election_fault + 's election" where
  "sweep R ttl ns st = foldE (undisturbed_check R ttl) ns st"

definition in_line :: "'s redis \<Rightarrow> 's election \<Rightarrow> nat \<Rightarrow> bool" where
  "in_line R st n \<longleftrightarrow> (mi_role (el_mains st ! n) = RoleLeader \<longleftrightarrow>
     rd_get R (el_server st) = Some (mi_host (el_mains st ! n)))"

lemma check_in_line:
  assumes R: "redis_laws R" and t: "0 < ttl" and n: "n < length (el_mains st)" and st: "all_idle st"
    and named: "rd_get R (el_server st) \<noteq> Some []"
  obtains st' where "undisturbed_check R ttl n st = Inr st'" "all_idle st'"
    "map mi_host (el_mains st') = map mi_host (el_mains st)" "in_line R st' n"
    "rd_get R (el_server st') = (case rd_get R (el_server st) of
       None \<Rightarrow> Some (mi_host (el_mains st ! n)) | Some h \<Rightarrow> Some h)"
    "\<And>k. k \<noteq> n \<Longrightarrow> el_mains st' ! k = el_mains st ! k"
proof -
  have i: "idle (el_mains st ! n)" using st n by (simp add: all_idle_def)
  from undisturbed_check_run [OF R t n i named] obtain st' where
    run: "undisturbed_check R ttl n st = Inr st'"
    and upd: "el_mains st' = (el_mains st)[n := el_mains st' ! n]" and i': "idle (el_mains st' ! n)"
    and host: "mi_host (el_mains st' ! n) = mi_host (el_mains st ! n)"
    and c: "checked R ttl (mi_host (el_mains st ! n)) (mi_role (el_mains st ! n)) (mi_events (el_mains st ! n))
      (el_server st) = (mi_role (el_mains st' ! n), mi_events (el_mains st' ! n), el_server st')" by auto
  have hosts: "map mi_host (el_mains st') = map mi_host (el_mains st)"
    by (subst upd) (simp add: map_update host list_update_same_conv n)
  have "\<forall>i \<in> set (el_mains st'). idle i"
    by (subst upd) (use st i' in \<open>auto simp: all_idle_def dest: set_update_subset_insert [THEN subsetD]\<close>)
  with hosts st have idle': "all_idle st'" by (simp add: all_idle_def)
  have still: "el_mains st' ! k = el_mains st ! k" if "k \<noteq> n" for k
    by (subst upd) (use that in simp)
  show ?thesis
    using that [OF run idle' hosts _ checked_effect(3) [OF R t c] still] checked_effect(1) [OF R t c] host
    by (simp add: in_line_def)
qed

lemma sweep_in_line:
  assumes "redis_laws R" "0 < ttl" "all_idle st" "\<forall>n \<in> set ns. n < length (el_mains st)"
    and "rd_get R (el_server st) \<noteq> Some []" "distinct ns"
  shows "\<exists>st'. sweep R ttl ns st = Inr st' \<and> all_idle st' \<and>
    map mi_host (el_mains st') = map mi_host (el_mains st) \<and> (\<forall>n \<in> set ns. in_line R st' n) \<and>
    (\<forall>k. k \<notin> set ns \<longrightarrow> el_mains st' ! k = el_mains st ! k) \<and>
    (rd_get R (el_server st) \<noteq> None \<longrightarrow> rd_get R (el_server st') = rd_get R (el_server st)) \<and>
    (rd_get R (el_server st) = None \<longrightarrow> ns \<noteq> [] \<longrightarrow> rd_get R (el_server st') = Some (mi_host (el_mains st ! hd ns)))"
  using assms(3-6)
proof (induction ns arbitrary: st)
  case Nil
  then show ?case by (simp add: sweep_def)
next
  case (Cons n ns)
  then have n: "n < length (el_mains st)" by simp
  from check_in_line [OF assms(1,2) n Cons.prems(1,3)] obtain st1 where
    s1: "undisturbed_check R ttl n st = Inr st1" "all_idle st1"
      "map mi_host (el_mains st1) = map mi_host (el_mains st)" "in_line R st1 n"
      "\<And>k. k \<noteq> n \<Longrightarrow> el_mains st1 ! k = el_mains st ! k"
    and held: "rd_get R (el_server st1) = (case rd_get R (el_server st) of
       None \<Rightarrow> Some (mi_host (el_mains st ! n)) | Some h \<Rightarrow> Some h)" by metis
  have len: "length (el_mains st1) = length (el_mains st)" using s1(3) by (metis length_map)
  have "idle (el_mains st ! n)" using Cons.prems(1) n by (simp add: all_idle_def)
  then have some: "rd_get R (el_server st1) \<noteq> None" "rd_get R (el_server st1) \<noteq> Some []"
    using held Cons.prems(3) by (auto simp: idle_def split: option.splits)
  from Cons.IH [OF s1(2) _ some(2)] Cons.prems(2,4) len obtain st2 where
    s2: "sweep R ttl ns st1 = Inr st2" "all_idle st2" "map mi_host (el_mains st2) = map mi_host (el_mains st1)"
      "\<forall>n \<in> set ns. in_line R st2 n" "\<forall>k. k \<notin> set ns \<longrightarrow> el_mains st2 ! k = el_mains st1 ! k"
      "rd_get R (el_server st2) = rd_get R (el_server st1)" using some(1) by auto
  have "n \<notin> set ns" using Cons.prems(4) by simp
  then have "in_line R st2 n" using s1(4) s2(5,6) by (simp add: in_line_def)
  moreover have "\<forall>k. k \<notin> set (n # ns) \<longrightarrow> el_mains st2 ! k = el_mains st ! k"
    using s1(5) s2(5) by simp
  ultimately show ?case
    using s1(1,3) s2 held by (auto simp: sweep_def split: option.splits)
qed

lemma sweep_all:
  assumes "redis_laws R" "0 < ttl" "all_idle st" "el_mains st \<noteq> []" "rd_get R (el_server st) \<noteq> Some []"
  shows "\<exists>st'. sweep R ttl [0..<length (el_mains st)] st = Inr st' \<and> all_idle st' \<and>
    map mi_host (el_mains st') = map mi_host (el_mains st) \<and>
    (\<forall>n < length (el_mains st). in_line R st' n) \<and>
    (rd_get R (el_server st) \<noteq> None \<longrightarrow> rd_get R (el_server st') = rd_get R (el_server st)) \<and>
    (rd_get R (el_server st) = None \<longrightarrow> rd_get R (el_server st') = Some (mi_host (el_mains st ! 0)))"
proof -
  have "\<forall>n \<in> set [0..<length (el_mains st)]. n < length (el_mains st)" "distinct [0..<length (el_mains st)]"
    "[0..<length (el_mains st)] \<noteq> []" "hd [0..<length (el_mains st)] = 0"
    using assms(4) by (simp_all add: upt_conv_Cons)
  note ns = this
  from sweep_in_line [OF assms(1-3) ns(1) assms(5) ns(2)] obtain st' where
    st': "sweep R ttl [0..<length (el_mains st)] st = Inr st'" "all_idle st'"
      "map mi_host (el_mains st') = map mi_host (el_mains st)"
      "\<forall>n \<in> set [0..<length (el_mains st)]. in_line R st' n"
      "rd_get R (el_server st) \<noteq> None \<longrightarrow> rd_get R (el_server st') = rd_get R (el_server st)"
      "rd_get R (el_server st) = None \<longrightarrow> [0..<length (el_mains st)] \<noteq> [] \<longrightarrow>
        rd_get R (el_server st') = Some (mi_host (el_mains st ! hd [0..<length (el_mains st)]))" by metis
  show ?thesis
    using st'(4,6) ns(3,4) by (intro exI [of _ st'] conjI st'(1-3,5)) simp_all
qed

section \<open>An example server\<close>

definition sample_redis :: "(string \<times> nat) option redis" where
  "sample_redis = \<lparr>rd_get = map_option fst,
     rd_set_nx = (\<lambda>v t s. case s of None \<Rightarrow> (True, Some (v, t)) | Some e \<Rightarrow> (False, Some e)),
     rd_expire = (\<lambda>t s. case s of None \<Rightarrow> (False, None) | Some (v, u) \<Rightarrow> (True, Some (v, t))),
     rd_del = (\<lambda>s. None),
     rd_elapse = (\<lambda>d s. case s of None \<Rightarrow> None | Some (v, t) \<Rightarrow> if d < t then Some (v, t - d) else None),
     rd_ttl = (\<lambda>s. case s of None \<Rightarrow> 0 | Some (v, t) \<Rightarrow> t)\<rparr>"

lemma sample_redis_laws: "redis_laws sample_redis"
  by (auto simp: redis_laws_def sample_redis_def split: option.splits)

definition sample_hosts :: "string list" where
  "sample_hosts = [''a'', ''b'', ''c'']"

definition boot :: "nat \<Rightarrow> election_move list" where
  "boot n = [Boot n, Serve n 0, GoOn n 0]"

definition sample_run :: "election_move list \<Rightarrow> election_fault + (string \<times> nat) option election" where
  "sample_run mvs = foldE (election_step sample_redis 10) mvs (election_start None sample_hosts)"

definition outcome :: "'e + 'a \<Rightarrow> 'a option" where
  "outcome r = (case r of Inl _ \<Rightarrow> None | Inr x \<Rightarrow> Some x)"

lemma elected_run:
  "elected R ttl s0 st \<Longrightarrow> foldE (election_step R ttl) mvs st = Inr st' \<Longrightarrow> elected R ttl s0 st'"
  by (induction mvs arbitrary: st) (auto simp: bindE_Inr_iff intro: elected_step)

text \<open>No main deletes the key in a run without such a move.\<close>

lemma elected_clean_run:
  "elected_clean R ttl s0 st \<Longrightarrow> \<forall>mv \<in> set mvs. \<forall>n. mv \<noteq> ClearKey n \<Longrightarrow>
    foldE (election_step R ttl) mvs st = Inr st' \<Longrightarrow> elected_clean R ttl s0 st'"
proof (induction mvs arbitrary: st)
  case (Cons mv mvs)
  then obtain st1 where "election_step R ttl mv st = Inr st1" "foldE (election_step R ttl) mvs st1 = Inr st'"
    by (auto simp: bindE_Inr_iff)
  moreover have "own_clear R mv st" using Cons.prems(2) by (cases mv) (auto simp: own_clear_def)
  ultimately show ?case using Cons.IH [of st1] clean_step [OF Cons.prems(1)] Cons.prems(2) by auto
qed simp

lemma run_obtain:
  assumes "case r of Inl _ \<Rightarrow> False | Inr st \<Rightarrow> P st"
  obtains st where "r = Inr st" "P st"
  using assms by (cases r) auto

text \<open>The first main has lost the key without notice, the second one leads.\<close>

definition sample_overlap :: "election_move list" where
  "sample_overlap = boot 0 @ [Elapse 11] @ boot 1 @ boot 2"

definition sample_roles :: "(string \<times> nat) option election \<Rightarrow> bool" where
  "sample_roles st \<longleftrightarrow> map mi_role (el_mains st) = [RoleLeader, RoleLeader, RoleFollower] \<and>
     map mi_host (el_mains st) = sample_hosts \<and> el_server st = Some (''b'', 10)"

lemma sample_overlap_roles:
  obtains st where "sample_run sample_overlap = Inr st" "all_idle st" "sample_roles st"
proof -
  have "case sample_run sample_overlap of Inl _ \<Rightarrow> False | Inr st \<Rightarrow> all_idle st \<and> sample_roles st"
    by code_simp
  from run_obtain [OF this] that show ?thesis by blast
qed

lemma sample_rolesD:
  assumes "sample_roles st"
  shows "length (el_mains st) = 3" "el_mains st \<noteq> []" "mi_role (el_mains st ! 1) = RoleLeader"
    "mi_role (el_mains st ! 2) = RoleFollower" "mi_host (el_mains st ! 2) = ''c''"
    "mi_host (el_mains st ! 1) = ''b''" "el_server st = Some (''b'', 10)"
proof -
  from assms have r: "map mi_role (el_mains st) = [RoleLeader, RoleLeader, RoleFollower]"
    and h: "map mi_host (el_mains st) = sample_hosts" and s: "el_server st = Some (''b'', 10)"
    by (simp_all add: sample_roles_def)
  show len: "length (el_mains st) = 3" using arg_cong [OF r, of length] by simp
  then show "el_mains st \<noteq> []" by auto
  show "mi_role (el_mains st ! 1) = RoleLeader" "mi_role (el_mains st ! 2) = RoleFollower"
    using arg_cong [OF r, of "\<lambda>l. l ! 1"] arg_cong [OF r, of "\<lambda>l. l ! 2"] len by simp_all
  show "mi_host (el_mains st ! 2) = ''c''" "mi_host (el_mains st ! 1) = ''b''"
    using arg_cong [OF h, of "\<lambda>l. l ! 1"] arg_cong [OF h, of "\<lambda>l. l ! 2"] len by (simp_all add: sample_hosts_def)
  show "el_server st = Some (''b'', 10)" by (rule s)
qed

section \<open>Properties\<close>

text \<open>C30. Whatever the mains, the server and the network do, and however often a check is due while another
  one is under way, a main has at most one check under way and runs into none of its assertions: it never takes over
  while it leads, nor steps down while it does not.\<close>

theorem no_assertion_fails:
  assumes "elected R ttl (election_start s hosts) st"
  shows "election_step R ttl mv st \<noteq> Inl AssertionError \<and> (\<forall>i \<in> set (el_mains st). length (mi_waits i) \<le> 1)"
proof -
  have ok: "all_ok st" using elected_all_ok [OF assms] .
  then have "length (mi_waits i) \<le> 1" if "i \<in> set (el_mains st)" for i
    using that main_ok_one by (simp add: all_ok_def)
  with step_ok(1) [OF ok] show ?thesis by blast
qed

definition sample_trouble :: "election_move list" where
  "sample_trouble = boot 0 @ boot 1 @ [Elapse 12, CheckDue 1, CheckDue 1, CheckDue 0, Serve 0 0, Serve 1 0, GoOn 1 0,
      GoOn 0 0, CheckDue 1, Serve 1 0, LoseAnswer 0 0, ShutDown 1]"

lemma no_assertion_fails_witness:
  "\<exists>st. sample_run sample_trouble = Inr st \<and> map mi_role (el_mains st) = [RoleLeader, RoleFollower, RoleUnset] \<and>
     election_step sample_redis 10 (GoOn 0 0) st \<noteq> Inl AssertionError"
proof -
  define out where "out = sample_run sample_trouble"
  have "(case out of Inl _ \<Rightarrow> False | Inr st \<Rightarrow> map mi_role (el_mains st) = [RoleLeader, RoleFollower, RoleUnset])"
    unfolding out_def by code_simp
  then obtain st where st: "sample_run sample_trouble = Inr st"
    "map mi_role (el_mains st) = [RoleLeader, RoleFollower, RoleUnset]"
    by (auto simp: out_def split: sum.splits)
  then have "elected sample_redis 10 (election_start None sample_hosts) st"
    unfolding sample_run_def by (blast intro: elected_run elected_start)
  from conjunct1 [OF no_assertion_fails [OF this, of "GoOn 0 0"]] st show ?thesis by (intro exI [of _ st] conjI)
qed

text \<open>C12. As long as no main deletes a key that another holds, the time for which a main was
  accepted as the leader excludes every other main: until it is over the key is its own, and
  no other main has such a time left. So of two mains that both take themselves for the leader, one has not
  renewed the key for the whole time to live.\<close>

theorem leases_exclusive:
  assumes "redis_laws R" "0 < ttl" "distinct hosts" "elected_clean R ttl (election_start s hosts) st"
    and "n < length (el_mains st)" "0 < mi_lease (el_mains st ! n)"
  shows "rd_get R (el_server st) = Some (mi_host (el_mains st ! n)) \<and>
    mi_lease (el_mains st ! n) \<le> rd_ttl R (el_server st) \<and>
    (\<forall>m < length (el_mains st). m \<noteq> n \<longrightarrow> mi_lease (el_mains st ! m) = 0)"
proof -
  have inv: "lease_inv R (el_server st) (views st)"
    using clean_lease_inv [OF assms(4,1-3)] .
  have own: "rd_get R (el_server st) = Some (mi_host (el_mains st ! m)) \<and> mi_lease (el_mains st ! m) \<le> rd_ttl R (el_server st)"
    if "m < length (el_mains st)" "0 < mi_lease (el_mains st ! m)" for m
    using inv views_nth [OF that(1)] that(2) by (fastforce simp: lease_inv_def dest: nth_mem)
  have "distinct (map mi_host (el_mains st))"
    using inv by (simp add: lease_inv_def views_def comp_def)
  then have "m = n" if "m < length (el_mains st)" "0 < mi_lease (el_mains st ! m)" for m
    using own [OF that] own [OF assms(5,6)] that assms(5) nth_eq_iff_index_eq [of "map mi_host (el_mains st)" m n] by simp
  with own [OF assms(5,6)] show ?thesis by blast
qed

lemma leases_exclusive_witness:
  "\<exists>st. sample_run (boot 0 @ [Elapse 11] @ boot 1) = Inr st \<and>
     map mi_role (el_mains st) = [RoleLeader, RoleLeader, RoleUnset] \<and>
     mi_lease (el_mains st ! 1) = 10 \<and> mi_lease (el_mains st ! 0) = 0"
proof -
  define out where "out = sample_run (boot 0 @ [Elapse 11] @ boot 1)"
  have "(case out of Inl _ \<Rightarrow> False | Inr st \<Rightarrow> map mi_role (el_mains st) = [RoleLeader, RoleLeader, RoleUnset] \<and>
      mi_lease (el_mains st ! 1) = 10)"
    unfolding out_def by code_simp
  then obtain st where st: "sample_run (boot 0 @ [Elapse 11] @ boot 1) = Inr st"
    "map mi_role (el_mains st) = [RoleLeader, RoleLeader, RoleUnset]" "mi_lease (el_mains st ! 1) = 10"
    by (auto simp: out_def split: sum.splits)
  then have "elected_clean sample_redis 10 (election_start None sample_hosts) st"
    unfolding sample_run_def
    by (intro elected_clean_run [OF clean_start, of "boot 0 @ [Elapse 11] @ boot 1"]) (simp_all add: boot_def)
  note clean = this
  have len: "length (el_mains st) = 3" using arg_cong [OF st(2), of length] by simp
  have "distinct sample_hosts" by (simp add: sample_hosts_def)
  from leases_exclusive [OF sample_redis_laws _ this clean, of 1] st(3) len
  have "\<forall>m < 3. m \<noteq> 1 \<longrightarrow> mi_lease (el_mains st ! m) = 0" by (simp only: len) simp
  then have "mi_lease (el_mains st ! 0) = 0" by simp
  with st show ?thesis by (intro exI [of _ st] conjI)
qed

text \<open>C16. From any state of the mains between two checks, two leaders or none included, a check of every main ends
  with exactly one leader, provided that the key is vacant or held by one of them.\<close>

theorem one_leader_after_sweep:
  assumes "redis_laws R" "0 < ttl" "all_idle st" "el_mains st \<noteq> []"
    and "rd_get R (el_server st) \<in> insert None ((\<lambda>i. Some (mi_host i)) ` set (el_mains st))"
  shows "\<exists>st'. sweep R ttl [0..<length (el_mains st)] st = Inr st' \<and>
    (\<exists>!n. n < length (el_mains st') \<and> mi_role (el_mains st' ! n) = RoleLeader)"
proof -
  have named: "rd_get R (el_server st) \<noteq> Some []"
    using assms(3,5) by (auto simp: all_idle_def idle_def)
  from sweep_all [OF assms(1-4) named] obtain st' where
    s: "sweep R ttl [0..<length (el_mains st)] st = Inr st'" "all_idle st'"
    and hosts: "map mi_host (el_mains st') = map mi_host (el_mains st)"
    and line: "\<forall>n < length (el_mains st). in_line R st' n"
    and held: "rd_get R (el_server st) \<noteq> None \<longrightarrow> rd_get R (el_server st') = rd_get R (el_server st)"
      "rd_get R (el_server st) = None \<longrightarrow> rd_get R (el_server st') = Some (mi_host (el_mains st ! 0))"
    by (elim exE conjE) (rule that; assumption)
  have len: "length (el_mains st') = length (el_mains st)" using hosts by (metis length_map)
  have at: "mi_host (el_mains st' ! n) = mi_host (el_mains st ! n)" if "n < length (el_mains st)" for n
    using hosts that len by (metis nth_map)
  have "\<exists>n < length (el_mains st). rd_get R (el_server st') = Some (mi_host (el_mains st ! n))"
  proof (cases "rd_get R (el_server st)")
    case None
    with held(2) assms(4) show ?thesis by auto
  next
    case (Some h)
    with assms(5) obtain i where "i \<in> set (el_mains st)" "h = mi_host i" by auto
    with Some held(1) show ?thesis by (metis in_set_conv_nth option.distinct(1))
  qed
  then obtain n where n: "n < length (el_mains st)" "rd_get R (el_server st') = Some (mi_host (el_mains st' ! n))"
    using at by auto
  have "m = n" if "m < length (el_mains st)" "rd_get R (el_server st') = Some (mi_host (el_mains st' ! m))" for m
    using s(2) n that len nth_eq_iff_index_eq [of "map mi_host (el_mains st')" m n] by (simp add: all_idle_def)
  note unique = this
  have lead: "mi_role (el_mains st' ! m) = RoleLeader \<longleftrightarrow> rd_get R (el_server st') = Some (mi_host (el_mains st' ! m))"
    if "m < length (el_mains st)" for m
    using line that unfolding in_line_def by blast
  have "\<exists>!n. n < length (el_mains st') \<and> mi_role (el_mains st' ! n) = RoleLeader"
    unfolding len by (rule ex1I [of _ n]) (use n lead unique in metis)+
  with s(1) show ?thesis by (intro exI [of _ st'] conjI)
qed

lemma one_leader_after_sweep_witness:
  "\<exists>st. sample_run sample_overlap = Inr st \<and> sample_roles st \<and>
     (\<exists>st'. sweep sample_redis 10 [0..<length (el_mains st)] st = Inr st' \<and>
        (\<exists>!n. n < length (el_mains st') \<and> mi_role (el_mains st' ! n) = RoleLeader))"
proof -
  from sample_overlap_roles obtain st where st: "sample_run sample_overlap = Inr st" "all_idle st" "sample_roles st" .
  note r = sample_rolesD [OF st(3)]
  have "Some ''b'' \<in> (\<lambda>i. Some (mi_host i)) ` set (el_mains st)"
    using r(1,6) by (intro image_eqI [of _ _ "el_mains st ! 1"]) simp_all
  then have "rd_get sample_redis (el_server st) \<in> insert None ((\<lambda>i. Some (mi_host i)) ` set (el_mains st))"
    by (simp add: r(7) sample_redis_def)
  from one_leader_after_sweep [OF sample_redis_laws _ st(2) r(2) this, of 10] st(1,3)
  have "\<exists>st'. sweep sample_redis 10 [0..<length (el_mains st)] st = Inr st' \<and>
      (\<exists>!n. n < length (el_mains st') \<and> mi_role (el_mains st' ! n) = RoleLeader)" by simp
  with st(1,3) show ?thesis by blast
qed

text \<open>The earlier strategy decides alike: after an undisturbed check the role of the main and the holder of the
  key are the same.\<close>

theorem legacy_check_agrees:
  assumes "redis_laws R" "0 < ttl" "n < length (el_mains st)" "idle (el_mains st ! n)"
    and "rd_get R (el_server st) \<noteq> Some []"
    and "legacy_checkLeader R ttl (mi_host (el_mains st ! n)) (mi_role (el_mains st ! n)) evs (el_server st) =
      (role, evs', s')"
  shows "\<exists>st'. undisturbed_check R ttl n st = Inr st' \<and> mi_role (el_mains st' ! n) = role \<and>
    rd_get R (el_server st') = rd_get R s'"
proof -
  let ?i = "el_mains st ! n"
  from undisturbed_check_run [OF assms(1-5)] obtain st' where st': "undisturbed_check R ttl n st = Inr st'"
    "checked R ttl (mi_host ?i) (mi_role ?i) (mi_events ?i) (el_server st) =
       (mi_role (el_mains st' ! n), mi_events (el_mains st' ! n), el_server st')" by metis
  have "mi_role ?i \<noteq> RoleUnset" using assms(4) by (simp add: idle_def)
  then have "mi_role (el_mains st' ! n) = role \<and> rd_get R (el_server st') = rd_get R s'"
    using st'(2) assms(5,6) redisD(2) [OF assms(1) _ assms(2), of "el_server st" "mi_host ?i"]
      redisD(6) [OF assms(1) _ assms(2), of "el_server st" "mi_host ?i"]
    by (cases "mi_role ?i") (auto simp: checked_def legacy_checkLeader_def legacy_tryBecomeLeader_def
        split: option.splits if_splits prod.splits bool.splits)
  with st'(1) show ?thesis by blast
qed

lemma legacy_check_agrees_witness:
  "\<exists>st. sample_run sample_overlap = Inr st \<and> sample_roles st \<and>
     (\<exists>st'. undisturbed_check sample_redis 10 1 st = Inr st' \<and> mi_role (el_mains st' ! 1) = RoleLeader \<and>
        rd_get sample_redis (el_server st') = Some ''b'')"
proof -
  from sample_overlap_roles obtain st where st: "sample_run sample_overlap = Inr st" "all_idle st" "sample_roles st" .
  note r = sample_rolesD [OF st(3)]
  have n: "1 < length (el_mains st)" "idle (el_mains st ! 1)" using st(2) r(1) by (simp_all add: all_idle_def)
  have named: "rd_get sample_redis (el_server st) \<noteq> Some []" by (simp add: r(7) sample_redis_def)
  have "legacy_checkLeader sample_redis 10 (mi_host (el_mains st ! 1)) (mi_role (el_mains st ! 1)) [] (el_server st) =
      (RoleLeader, [], Some (''b'', 10))"
    unfolding r(3,6,7) by code_simp
  moreover have "rd_get sample_redis (Some (''b'', 10)) = Some ''b''" by (simp add: sample_redis_def)
  ultimately have "\<exists>st'. undisturbed_check sample_redis 10 1 st = Inr st' \<and> mi_role (el_mains st' ! 1) = RoleLeader \<and>
      rd_get sample_redis (el_server st') = Some ''b''"
    using legacy_check_agrees [OF sample_redis_laws _ n named, of 10] by (metis zero_less_numeral)
  with st(1,3) show ?thesis by blast
qed

text \<open>A main that takes itself for the leader deletes the key when it shuts down, whoever holds it: the
  main that checks next becomes a leader beside the one that held the key.\<close>

theorem shutdown_evicts_successor:
  assumes "redis_laws R" "0 < ttl" "k < length (el_mains st)" "idle (el_mains st ! k)"
    and "m < length (el_mains st)" "mi_closing (el_mains st ! m) = Clearing" "m \<noteq> n" "m \<noteq> k" "n \<noteq> k"
    and "mi_role (el_mains st ! n) = RoleLeader"
  shows "\<exists>st1 st'. election_step R ttl (ClearKey m) st = Inr st1 \<and> undisturbed_check R ttl k st1 = Inr st' \<and>
    el_mains st' ! n = el_mains st ! n \<and> mi_role (el_mains st' ! k) = RoleLeader \<and>
    rd_get R (el_server st') = Some (mi_host (el_mains st ! k))"
proof -
  obtain st1 where st1: "election_step R ttl (ClearKey m) st = Inr st1"
    and srv: "el_server st1 = rd_del R (el_server st)" and len: "length (el_mains st1) = length (el_mains st)"
    and still: "\<And>j. j \<noteq> m \<Longrightarrow> el_mains st1 ! j = el_mains st ! j"
    using assms(5,6) by (simp add: election_step_def main_move_def set_main_def clearLeader_def)
  have none: "rd_get R (el_server st1) = None" using srv redisD(8) [OF assms(1)] by simp
  have "k < length (el_mains st1)" "idle (el_mains st1 ! k)" using assms(3,4,8) len still by simp_all
  from undisturbed_check_run [OF assms(1,2) this] none obtain st' where run: "undisturbed_check R ttl k st1 = Inr st'"
    and upd: "el_mains st' = (el_mains st1)[k := el_mains st' ! k]"
    and c: "checked R ttl (mi_host (el_mains st1 ! k)) (mi_role (el_mains st1 ! k)) (mi_events (el_mains st1 ! k))
      (el_server st1) = (mi_role (el_mains st' ! k), mi_events (el_mains st' ! k), el_server st')"
    by auto
  have "el_mains st' ! n = el_mains st ! n"
    by (subst upd) (use assms(7,9) still in simp)
  with st1 run checked_effect(1,3) [OF assms(1,2) c] none still [of k] assms(8) show ?thesis by auto
qed

lemma shutdown_evicts_successor_witness:
  "\<exists>st st1 st'. sample_run (sample_overlap @ [ShutDown 0]) = Inr st \<and>
     election_step sample_redis 10 (ClearKey 0) st = Inr st1 \<and> undisturbed_check sample_redis 10 2 st1 = Inr st' \<and>
     mi_role (el_mains st' ! 1) = RoleLeader \<and> mi_lease (el_mains st' ! 1) = 10 \<and> mi_role (el_mains st' ! 2) = RoleLeader"
proof -
  have "case sample_run (sample_overlap @ [ShutDown 0]) of Inl _ \<Rightarrow> False | Inr st \<Rightarrow>
      length (el_mains st) = 3 \<and> idle (el_mains st ! 2) \<and> mi_closing (el_mains st ! 0) = Clearing \<and>
      mi_role (el_mains st ! 1) = RoleLeader \<and> mi_lease (el_mains st ! 1) = 10"
    by code_simp
  then obtain st where st: "sample_run (sample_overlap @ [ShutDown 0]) = Inr st" "length (el_mains st) = 3"
      "idle (el_mains st ! 2)" "mi_closing (el_mains st ! 0) = Clearing" "mi_role (el_mains st ! 1) = RoleLeader"
      "mi_lease (el_mains st ! 1) = 10" by (rule run_obtain) blast
  have "2 < length (el_mains st)" "0 < length (el_mains st)" using st(2) by simp_all
  from shutdown_evicts_successor [OF sample_redis_laws _ this(1) st(3) this(2) st(4) _ _ _ st(5), of 10] obtain st1 st'
    where "election_step sample_redis 10 (ClearKey 0) st = Inr st1" "undisturbed_check sample_redis 10 2 st1 = Inr st'"
      "el_mains st' ! 1 = el_mains st ! 1" "mi_role (el_mains st' ! 2) = RoleLeader" by auto
  with st(1,5,6) show ?thesis by (intro exI [of _ st] exI [of _ st1] exI [of _ st'] conjI) simp_all
qed

end
