(* ===== verification/From_Ai.thy ===== *)
theory From_Ai
  imports Node_Parameters
begin

text \<open>
  The placeholders \<^verbatim>\<open>$fromAI(key, description, type, default)\<close> that a parameter of a tool can
  hold: reading them (\<^verbatim>\<open>packages/workflow/src/from-ai-parse-utils.ts\<close>), the arguments of
  the tool that a node becomes (\<^verbatim>\<open>getSchema\<close> of
  \<^verbatim>\<open>packages/core/src/execution-engine/node-execution-context/utils/create-node-as-tool.ts\<close>) and the
  text that the editor writes for a parameter
  (\<^verbatim>\<open>fromAIOverride.utils.ts\<close> of \<^verbatim>\<open>packages/frontend/editor-ui\<close>).

  A scan over a string is a recursion over what is left of it; \<^verbatim>\<open>inQuotes\<close> and
  \<^verbatim>\<open>quoteChar\<close> are one option. The conversion of text to numbers and
  \<^verbatim>\<open>JSON.parse\<close> are the record \<open>fa_env\<close>. Letters are compared in any case as ASCII
  letters; the characters of the model are the first 256 of Unicode.
\<close>

section \<open>Characters\<close>

definition code_in :: "nat \<Rightarrow> nat \<Rightarrow> char \<Rightarrow> bool" where
  "code_in a b c \<longleftrightarrow> a \<le> of_char c \<and> (of_char c :: nat) \<le> b"

definition lower_char :: "char \<Rightarrow> char" where
  "lower_char c = (if code_in 65 90 c then char_of ((of_char c :: nat) + 32) else c)"

definition is_digit :: "char \<Rightarrow> bool" where
  "is_digit c \<longleftrightarrow> code_in 48 57 c"

definition is_alnum :: "char \<Rightarrow> bool" where
  "is_alnum c \<longleftrightarrow> is_digit c \<or> code_in 65 90 c \<or> code_in 97 122 c"

definition is_quote :: "char \<Rightarrow> bool" where
  "is_quote c \<longleftrightarrow> c = CHR 0x22 \<or> c = CHR 0x27 \<or> c = CHR 0x60"

abbreviation backslash :: char where
  "backslash \<equiv> CHR 0x5C"

abbreviation backtick :: char where
  "backtick \<equiv> CHR 0x60"

section \<open>Reading one call\<close>

record fa_env =
  fe_number :: "string \<Rightarrow> rat option"
  fe_json :: "string \<Rightarrow> pvalue option"

record fromai_argument =
  fa_key :: string
  fa_description :: "string option"
  fa_type :: string
  fa_default :: pvalue

datatype fromai_error = InvalidType string | ParseFailed string fromai_error | UnbalancedParentheses string

definition isFromAIArgumentType :: "string \<Rightarrow> bool" where
  "isFromAIArgumentType s \<longleftrightarrow> map lower_char s \<in> {''string'', ''number'', ''boolean'', ''json''}"

definition parseDefaultValue :: "fa_env \<Rightarrow> string option \<Rightarrow> string \<Rightarrow> pvalue" where
  "parseDefaultValue env value type =
     (case value of
        None \<Rightarrow> PUndef
      | Some v \<Rightarrow>
          if type = ''string'' then PStr v
          else if type = ''boolean'' \<and> map lower_char v \<in> {''true'', ''false''}
          then PBool (map lower_char v = ''true'')
          else if type = ''number'' \<and> fe_number env v \<noteq> None then PNum (the (fe_number env v))
          else (case fe_json env v of Some p \<Rightarrow> p | None \<Rightarrow> PStr v))"

text \<open>The loop that splits the arguments at the commas outside quotes.\<close>

record split_state =
  ss_args :: "string list"
  ss_current :: string
  ss_quote :: "char option"
  ss_escape :: bool

definition split_char :: "char \<Rightarrow> split_state \<Rightarrow> split_state" where
  "split_char c st =
     (if ss_escape st then st\<lparr>ss_current := ss_current st @ [c], ss_escape := False\<rparr>
      else if c = backslash then st\<lparr>ss_escape := True\<rparr>
      else if is_quote c
      then st\<lparr>ss_quote := (case ss_quote st of None \<Rightarrow> Some c | Some q \<Rightarrow> if c = q then None else Some q),
              ss_current := ss_current st @ [c]\<rparr>
      else if c = CHR '','' \<and> ss_quote st = None
      then st\<lparr>ss_args := ss_args st @ [js_trim (ss_current st)], ss_current := []\<rparr>
      else st\<lparr>ss_current := ss_current st @ [c]\<rparr>)"

definition split_arguments :: "string \<Rightarrow> string list" where
  "split_arguments s =
     (let st = fold split_char s \<lparr>ss_args = [], ss_current = [], ss_quote = None, ss_escape = False\<rparr>
      in ss_args st @ (if ss_current st \<noteq> [] then [js_trim (ss_current st)] else []))"

text \<open>One \<^verbatim>\<open>replace\<close> of a backslash with a following character by the character.\<close>

fun unescape :: "char \<Rightarrow> string \<Rightarrow> string" where
  "unescape q (a # b # s) = (if a = backslash \<and> b = q then q # unescape q s else a # unescape q (b # s))"
| "unescape q s = s"

definition quoted_by :: "char \<Rightarrow> string \<Rightarrow> bool" where
  "quoted_by q s \<longleftrightarrow> s \<noteq> [] \<and> hd s = q \<and> last s = q"

definition clean_argument :: "string \<Rightarrow> string" where
  "clean_argument arg =
     (let t = js_trim arg
      in if quoted_by (CHR 0x27) t \<or> quoted_by backtick t \<or> quoted_by (CHR 0x22) t
         then unescape backslash (unescape (CHR 0x22) (unescape backtick (unescape (CHR 0x27) (tl (butlast t)))))
         else t)"

definition parseArguments :: "fa_env \<Rightarrow> string \<Rightarrow> fromai_error + fromai_argument" where
  "parseArguments env s =
     (let args = map clean_argument (split_arguments s);
          arg = (\<lambda>i. if i < length args then Some (args ! i) else None);
          type = (case arg 2 of None \<Rightarrow> ''string'' | Some t \<Rightarrow> t)
      in if isFromAIArgumentType type
         then Inr \<lparr>fa_key = (case arg 0 of None \<Rightarrow> [] | Some k \<Rightarrow> k), fa_description = arg 1, fa_type = type,
                   fa_default = parseDefaultValue env (arg 3) type\<rparr>
         else Inl (InvalidType type))"

section \<open>Finding the calls\<close>

fun match_ci :: "string \<Rightarrow> string \<Rightarrow> string option" where
  "match_ci [] s = Some s"
| "match_ci (p # ps) [] = None"
| "match_ci (p # ps) (c # s) = (if lower_char c = p then match_ci ps s else None)"

text \<open>The start of a call: the name in any case, white space and the parenthesis.\<close>

definition match_open :: "string \<Rightarrow> string option" where
  "match_open s =
     (case match_ci ''$fromai'' s of
        None \<Rightarrow> None
      | Some r \<Rightarrow> (case dropWhile is_space r of [] \<Rightarrow> None | c # t \<Rightarrow> if c = CHR ''('' then Some t else None))"

fun find_call :: "string \<Rightarrow> string option" where
  "find_call [] = None"
| "find_call (c # s) =
     (case match_open (c # s) of Some t \<Rightarrow> Some (dropWhile is_space t) | None \<Rightarrow> find_call s)"

text \<open>The arguments up to the parenthesis that closes the call, \<open>None\<close> if there is none.\<close>

fun scan_arguments :: "char option \<Rightarrow> nat \<Rightarrow> string \<Rightarrow> string \<Rightarrow> string option" where
  "scan_arguments q 0 acc s = Some acc"
| "scan_arguments q (Suc n) acc [] = None"
| "scan_arguments (Some q) (Suc n) acc [c] =
     scan_arguments (if c = q then None else Some q) (Suc n) (acc @ [c]) []"
| "scan_arguments (Some q) (Suc n) acc (c # d # s) =
     (if c = backslash then scan_arguments (Some q) (Suc n) (acc @ [c, d]) s
      else scan_arguments (if c = q then None else Some q) (Suc n) (acc @ [c]) (d # s))"
| "scan_arguments None (Suc n) acc (c # s) =
     (if is_quote c then scan_arguments (Some c) (Suc n) (acc @ [c]) s
      else if c = CHR ''('' then scan_arguments None (Suc (Suc n)) (acc @ [c]) s
      else if c = CHR '')'' then scan_arguments None n (if 0 < n then acc @ [c] else acc) s
      else scan_arguments None (Suc n) (acc @ [c]) s)"

lemma match_ci_length: "match_ci p s = Some t \<Longrightarrow> length t \<le> length s"
  by (induction p s rule: match_ci.induct) (auto split: if_splits)

lemma match_open_length: "match_open s = Some t \<Longrightarrow> length t < length s"
proof -
  assume "match_open s = Some t"
  then obtain r where r: "match_ci ''$fromai'' s = Some r" "dropWhile is_space r = CHR ''('' # t"
    by (auto simp: match_open_def split: option.splits list.splits if_splits)
  have "length (CHR ''('' # t) \<le> length r" unfolding r(2) [symmetric] by (rule length_dropWhile_le)
  with match_ci_length [OF r(1)] show ?thesis by simp
qed

lemma find_call_length: "find_call s = Some t \<Longrightarrow> length t < length s"
proof (induction s)
  case (Cons c s)
  show ?case
  proof (cases "match_open (c # s)")
    case (Some u)
    with Cons.prems have "t = dropWhile is_space u" by simp
    with match_open_length [OF Some] show ?thesis by (meson le_less_trans length_dropWhile_le)
  qed (use Cons in force)
qed simp

function extract_from :: "fa_env \<Rightarrow> string \<Rightarrow> fromai_argument list \<Rightarrow> fromai_error + fromai_argument list" where
  "extract_from env s args =
     (case find_call s of
        None \<Rightarrow> Inr args
      | Some t \<Rightarrow>
          (case scan_arguments None 1 [] t of
             None \<Rightarrow> Inl (UnbalancedParentheses t)
           | Some a \<Rightarrow>
               (case parseArguments env a of
                  Inl e \<Rightarrow> Inl (ParseFailed a e)
                | Inr arg \<Rightarrow> extract_from env t (args @ [arg]))))"
  by pat_completeness auto
termination
  by (relation "measure (\<lambda>(env, s, args). length s)") (auto dest: find_call_length)

declare extract_from.simps [simp del]

definition extractFromAICalls :: "fa_env \<Rightarrow> string \<Rightarrow> fromai_error + fromai_argument list" where
  "extractFromAICalls env s = extract_from env s []"

fun traverseNodeParameters ::
  "fa_env \<Rightarrow> pvalue \<Rightarrow> fromai_argument list \<Rightarrow> fromai_error + fromai_argument list" where
  "traverseNodeParameters env (PStr s) collected =
     bindE (extractFromAICalls env s) (\<lambda>calls. Inr (collected @ calls))"
| "traverseNodeParameters env (PArr xs) collected = foldE (\<lambda>v. traverseNodeParameters env v) xs collected"
| "traverseNodeParameters env (PObj m) collected =
     foldE (\<lambda>p. traverseNodeParameters env (snd p)) m collected"
| "traverseNodeParameters env _ collected = Inr collected"

text \<open>A name that is undefined becomes the text \<^verbatim>\<open>undefined\<close> in front of an index.\<close>

definition indexed_name :: "string option \<Rightarrow> nat \<Rightarrow> string" where
  "indexed_name name i = (case name of None \<Rightarrow> ''undefined'' | Some n \<Rightarrow> n) @ ''['' @ string_of_nat i @ '']''"

definition member_name :: "string option \<Rightarrow> string \<Rightarrow> string" where
  "member_name name key = (case name of None \<Rightarrow> key | Some n \<Rightarrow> if n = [] then key else n @ ''.'' @ key)"

lemma enumerate_size [termination_simp]:
  "(i, x) \<in> set (enumerate n xs) \<Longrightarrow> size x < Suc (size_list size xs)"
proof -
  assume "(i, x) \<in> set (enumerate n xs)"
  then have "x \<in> set xs" by (auto simp: enumerate_eq_zip dest: set_zip_rightD)
  from size_list_estimation' [OF this, of "size x" size] show ?thesis by simp
qed

fun traverseNodeParametersWithParamNames ::
  "fa_env \<Rightarrow> pvalue \<Rightarrow> string option \<Rightarrow> (string option, fromai_argument) obj
    \<Rightarrow> fromai_error + (string option, fromai_argument) obj" where
  "traverseNodeParametersWithParamNames env (PStr s) name collected =
     bindE (extractFromAICalls env s) (\<lambda>calls. Inr (fold (obj_set name) calls collected))"
| "traverseNodeParametersWithParamNames env (PArr xs) name collected =
     foldE (\<lambda>p. traverseNodeParametersWithParamNames env (snd p) (Some (indexed_name name (fst p))))
       (enumerate 0 xs) collected"
| "traverseNodeParametersWithParamNames env (PObj m) name collected =
     foldE (\<lambda>p. traverseNodeParametersWithParamNames env (snd p) (Some (member_name name (fst p)))) m collected"
| "traverseNodeParametersWithParamNames env _ name collected = Inr collected"

section \<open>Expressions that are one call\<close>

definition literal_char :: "char \<Rightarrow> bool" where
  "literal_char c \<longleftrightarrow> is_alnum c \<or> c = CHR ''.'' \<or> c = CHR '','' \<or> c = CHR ''-'' \<or> is_space c"

definition word_char :: "char \<Rightarrow> bool" where
  "word_char c \<longleftrightarrow> is_alnum c \<or> c = CHR ''_''"

text \<open>The walk over the arguments; the second argument is the last character outside quotes that is
  not white space, the result what follows the closing parenthesis.\<close>

fun only_scan :: "char option \<Rightarrow> char option \<Rightarrow> string \<Rightarrow> string option" where
  "only_scan q l [] = None"
| "only_scan (Some q) l [c] = only_scan (if c = q then None else Some q) l []"
| "only_scan (Some q) l (c # d # s) =
     (if c = backslash then only_scan (Some q) l s
      else if q = backtick \<and> c = CHR ''$'' \<and> d = CHR ''{'' then None
      else only_scan (if c = q then None else Some q) l (d # s))"
| "only_scan None l (c # s) =
     (if is_quote c
      then if c = backtick \<and> (case l of None \<Rightarrow> False | Some x \<Rightarrow> word_char x) then None
           else only_scan (Some c) (Some c) s
      else if c = CHR '')'' then Some s
      else if \<not> literal_char c then None
      else only_scan None (if is_space c then l else Some c) s)"

fun drop_prefix :: "string \<Rightarrow> string \<Rightarrow> string option" where
  "drop_prefix [] s = Some s"
| "drop_prefix (p # ps) [] = None"
| "drop_prefix (p # ps) (c # s) = (if p = c then drop_prefix ps s else None)"

definition auto_generated_marker :: string where
  "auto_generated_marker = ''/*n8n-auto-generated-fromAI-override*/''"

definition strip_braces :: "string \<Rightarrow> string" where
  "strip_braces s =
     (if drop_prefix ''{{'' s \<noteq> None \<and> drop_prefix ''}}'' (rev s) \<noteq> None
      then js_trim (take (length s - 4) (drop 2 s)) else s)"

definition strip_marker :: "string \<Rightarrow> string" where
  "strip_marker s = (case drop_prefix auto_generated_marker s of Some t \<Rightarrow> js_trim t | None \<Rightarrow> s)"

definition call_text :: "string \<Rightarrow> string" where
  "call_text expr = strip_marker (strip_braces (js_trim (if starts_with (CHR ''='') expr then tl expr else expr)))"

definition isFromAIOnlyExpression :: "string \<Rightarrow> bool" where
  "isFromAIOnlyExpression expr =
     (case match_open (call_text expr) of
        None \<Rightarrow> False
      | Some t \<Rightarrow> (case only_scan None None t of None \<Rightarrow> False | Some rest \<Rightarrow> js_trim rest = []))"

text \<open>The expressions that the description of a node has as defaults.\<close>

definition default_expression :: "node_property \<Rightarrow> string list \<Rightarrow> string list" where
  "default_expression p found =
     (case np_default p of PStr s \<Rightarrow> if isExpression (PStr s) then set_add s found else found | _ \<Rightarrow> found)"

text \<open>An option that is a property is handled twice: its default here, then the property with its
  options once more if it has any.\<close>

fun collectDefaults :: "node_property list \<Rightarrow> string list \<Rightarrow> string list"
  and property_defaults :: "node_property \<Rightarrow> string list \<Rightarrow> string list"
  and option_defaults :: "property_option list \<Rightarrow> string list \<Rightarrow> string list" where
  "collectDefaults [] found = found"
| "collectDefaults (p # ps) found = collectDefaults ps (property_defaults p found)"
| "property_defaults (NodeProperty n t m d disp noexp opts) found =
     (let found' = default_expression (NodeProperty n t m d disp noexp opts) found
      in case opts of None \<Rightarrow> found' | Some os \<Rightarrow> option_defaults os found')"
| "option_defaults [] found = found"
| "option_defaults (CollectionOption name values # os) found = option_defaults os (collectDefaults values found)"
| "option_defaults (FieldOption p # os) found =
     (let found' = default_expression p found
      in option_defaults os (if np_options p \<noteq> None then property_defaults p found' else found'))"

definition collectExpressionDefaults :: "node_property list \<Rightarrow> string list" where
  "collectExpressionDefaults ps = collectDefaults ps []"

definition item_path :: "string \<Rightarrow> nat \<Rightarrow> string" where
  "item_path path i = path @ ''['' @ string_of_nat i @ '']''"

definition key_path :: "string \<Rightarrow> string \<Rightarrow> string" where
  "key_path path key = (if path \<noteq> [] then path @ ''.'' @ key else key)"

fun findDisallowedChatToolExpressions :: "pvalue \<Rightarrow> string \<Rightarrow> string list option \<Rightarrow> (string \<times> string) list" where
  "findDisallowedChatToolExpressions (PStr s) path allowed =
     (if isExpression (PStr s) \<and> \<not> isFromAIOnlyExpression s \<and>
         \<not> (case allowed of None \<Rightarrow> False | Some xs \<Rightarrow> s \<in> set xs)
      then [(path, s)] else [])"
| "findDisallowedChatToolExpressions (PArr xs) path allowed =
     concat (map (\<lambda>p. findDisallowedChatToolExpressions (snd p) (item_path path (fst p)) allowed) (enumerate 0 xs))"
| "findDisallowedChatToolExpressions (PObj m) path allowed =
     concat (map (\<lambda>p. findDisallowedChatToolExpressions (snd p) (key_path path (fst p)) allowed) m)"
| "findDisallowedChatToolExpressions _ path allowed = []"

section \<open>The arguments of a tool\<close>

datatype schema_error = BadCall fromai_error | EmptyKey | InvalidKey string | InconsistentDuplicate string

definition key_char :: "char \<Rightarrow> bool" where
  "key_char c \<longleftrightarrow> is_alnum c \<or> c = CHR ''_'' \<or> c = CHR ''-''"

definition valid_key :: "string \<Rightarrow> bool" where
  "valid_key k \<longleftrightarrow> 1 \<le> length k \<and> length k \<le> 64 \<and> list_all key_char k"

definition check_argument ::
  "fromai_argument \<Rightarrow> (string, fromai_argument) obj \<Rightarrow> schema_error + (string, fromai_argument) obj" where
  "check_argument a keys =
     (if fa_key a = [] then Inl EmptyKey
      else if \<not> valid_key (fa_key a) then Inl (InvalidKey (fa_key a))
      else (case obj_get keys (fa_key a) of
              Some b \<Rightarrow> if fa_description b \<noteq> fa_description a \<or> fa_type b \<noteq> fa_type a
                        then Inl (InconsistentDuplicate (fa_key a)) else Inr keys
            | None \<Rightarrow> Inr (obj_set (fa_key a) a keys)))"

definition unique_arguments :: "fromai_argument list \<Rightarrow> fromai_argument list" where
  "unique_arguments as = obj_values (fold (\<lambda>a. obj_set (fa_key a) a) as [])"

text \<open>What the schema library builds from the arguments is left out: the result is the list it
  gets.\<close>

definition getSchema :: "fa_env \<Rightarrow> pvalue \<Rightarrow> schema_error + fromai_argument list" where
  "getSchema env params =
     (case traverseNodeParameters env params [] of
        Inl e \<Rightarrow> Inl (BadCall e)
      | Inr collected \<Rightarrow> bindE (foldE check_argument collected []) (\<lambda>keys. Inr (unique_arguments collected)))"

section \<open>What the editor writes\<close>

definition sanitizeFromAiParameterName :: "string \<Rightarrow> string" where
  "sanitizeFromAiParameterName s =
     (let t = map (\<lambda>c. if is_alnum c \<or> c = CHR ''-'' then c else CHR ''_'') s
      in if 64 \<le> length t then take 63 t else t)"

text \<open>Whether a segment of a path has an index in brackets.\<close>

fun digits_then_bracket :: "string \<Rightarrow> bool" where
  "digits_then_bracket [] = False"
| "digits_then_bracket (c # s) =
     (is_digit c \<and> (case s of [] \<Rightarrow> False | d # _ \<Rightarrow> d = CHR '']'' \<or> digits_then_bracket s))"

fun has_index :: "string \<Rightarrow> bool" where
  "has_index [] = False"
| "has_index (c # s) = ((c = CHR ''['' \<and> digits_then_bracket s) \<or> has_index s)"

definition buildUniqueName :: "string \<Rightarrow> string \<Rightarrow> string" where
  "buildUniqueName displayName path =
     (let found = map (filter (\<lambda>c. c \<noteq> CHR ''['' \<and> c \<noteq> CHR '']'')) (filter has_index (split_at (CHR ''.'') path));
          result = join_with (CHR ''_'') (found @ [displayName])
      in if 1 < length found then drop (length result - 63) result else take 63 result)"

definition getBestQuoteChar :: "string \<Rightarrow> char" where
  "getBestQuoteChar d =
     (if CHR ''\<newline>'' \<in> set d then backtick
      else if backtick \<notin> set d then backtick
      else if CHR 0x22 \<notin> set d then CHR 0x22 else CHR 0x27)"

definition replace_char :: "char \<Rightarrow> string \<Rightarrow> string \<Rightarrow> string" where
  "replace_char c t s = concat (map (\<lambda>x. if x = c then t else [x]) s)"

definition fieldTypeToFromAiType :: "string \<Rightarrow> string" where
  "fieldTypeToFromAiType t = (if t \<in> {''boolean'', ''number'', ''json''} then t else ''string'')"

definition sanitized_description :: "string \<Rightarrow> string" where
  "sanitized_description d =
     replace_char (getBestQuoteChar d) [backslash, getBestQuoteChar d] (replace_char backslash [backslash, backslash] d)"

definition buildValueFromOverride :: "string option \<Rightarrow> string \<Rightarrow> string \<Rightarrow> string \<Rightarrow> bool \<Rightarrow> string" where
  "buildValueFromOverride description displayName paramType path includeMarker =
     (let marker = (if includeMarker then auto_generated_marker @ '' '' else []);
          key = sanitizeFromAiParameterName (buildUniqueName displayName path);
          d = (case description of None \<Rightarrow> [] | Some d \<Rightarrow> d);
          q = getBestQuoteChar d
      in ''={{ '' @ marker @ ''$fromAI('' @ [CHR 0x27] @ key @ [CHR 0x27] @ '', '' @ [q] @ sanitized_description d @ [q] @
         '', '' @ [CHR 0x27] @ fieldTypeToFromAiType paramType @ [CHR 0x27] @ '') }}'')"

text \<open>Reading the description back, with each backslash before another character than a backtick
  replaced first.\<close>

fun prepare_expression :: "string \<Rightarrow> string" where
  "prepare_expression (a # b # s) =
     (if a = backslash \<and> b \<noteq> backtick then backslash # backslash # prepare_expression s
      else a # prepare_expression (b # s))"
| "prepare_expression s = s"

definition parseOverrides :: "fa_env \<Rightarrow> string \<Rightarrow> string option option" where
  "parseOverrides env expression =
     (case extractFromAICalls env (prepare_expression expression) of
        Inr [call] \<Rightarrow> Some (fa_description call)
      | _ \<Rightarrow> None)"

end
