(* ===== verification/From_Ai_Facts.thy ===== *)
theory From_Ai_Facts
  imports From_Ai
begin

text \<open>
  The laws of \<open>From_Ai\<close>: what the editor writes is read back and accepted, an accepted expression
  is one call with literal arguments, and which arguments a tool gets.
\<close>

section \<open>Text in quotes\<close>

text \<open>The text between quotes: it neither closes them nor ends within an escape.\<close>

fun sealed :: "char \<Rightarrow> string \<Rightarrow> bool" where
  "sealed q [] \<longleftrightarrow> True"
| "sealed q [c] \<longleftrightarrow> c \<noteq> q \<and> c \<noteq> backslash"
| "sealed q (c # d # s) \<longleftrightarrow> (if c = backslash then sealed q s else c \<noteq> q \<and> sealed q (d # s))"

fun interpolates :: "string \<Rightarrow> bool" where
  "interpolates (c # d # s) \<longleftrightarrow>
     (if c = backslash then interpolates s else (c = CHR ''$'' \<and> d = CHR ''{'') \<or> interpolates (d # s))"
| "interpolates s \<longleftrightarrow> False"

lemma quote_not [simp]: "is_quote q \<Longrightarrow> q \<noteq> backslash" "is_quote q \<Longrightarrow> q \<noteq> CHR ''$''" "is_quote q \<Longrightarrow> q \<noteq> CHR ''{''"
  "is_quote q \<Longrightarrow> \<not> is_space q" "\<not> is_quote (CHR '')'')" "\<not> is_quote (CHR ''('')" "\<not> is_quote backslash"
  by (auto simp: is_quote_def is_space_def)

lemma scan_sealed:
  "is_quote q \<Longrightarrow> sealed q raw \<Longrightarrow>
    scan_arguments (Some q) (Suc n) acc (raw @ q # t) = scan_arguments None (Suc n) (acc @ raw @ [q]) t"
proof (induction q raw arbitrary: acc rule: sealed.induct)
  case (1 q)
  then show ?case by (cases t) simp_all
next
  case (2 q c)
  then show ?case by (cases t) simp_all
next
  case (3 q c d s)
  then show ?case by (cases "c = backslash") simp_all
qed

lemma only_scan_sealed:
  "is_quote q \<Longrightarrow> sealed q raw \<Longrightarrow> q = backtick \<longrightarrow> \<not> interpolates raw \<Longrightarrow>
    only_scan (Some q) l (raw @ q # t) = only_scan None l t"
proof (induction q raw rule: sealed.induct)
  case (1 q)
  then show ?case by (cases t) simp_all
next
  case (2 q c)
  then show ?case by (cases t) auto
next
  case (3 q c d s)
  then show ?case by (cases "c = backslash") auto
qed

section \<open>Accepted expressions\<close>

datatype piece = PlainChar char | QuotedText char string

fun render :: "piece list \<Rightarrow> string" where
  "render [] = []"
| "render (PlainChar c # ps) = c # render ps"
| "render (QuotedText q raw # ps) = q # raw @ q # render ps"

text \<open>Outside quotes there are only the characters of numbers, names and separators: no operators,
  no brackets, no dollar; inside backticks nothing is interpolated.\<close>

fun literal_piece :: "piece \<Rightarrow> bool" where
  "literal_piece (PlainChar c) \<longleftrightarrow> literal_char c"
| "literal_piece (QuotedText q raw) \<longleftrightarrow> is_quote q \<and> sealed q raw \<and> (q = backtick \<longrightarrow> \<not> interpolates raw)"

text \<open>No tagged template: in front of a backtick, white space aside, there is no word. The first argument is the last
  character outside quotes that is not white space.\<close>

fun untagged :: "char option \<Rightarrow> piece list \<Rightarrow> bool" where
  "untagged l [] \<longleftrightarrow> True"
| "untagged l (PlainChar c # ps) \<longleftrightarrow> untagged (if is_space c then l else Some c) ps"
| "untagged l (QuotedText q raw # ps) \<longleftrightarrow>
     \<not> (q = backtick \<and> (case l of None \<Rightarrow> False | Some x \<Rightarrow> word_char x)) \<and> untagged (Some q) ps"

lemma only_scan_pieces:
  assumes "only_scan qo l s = Some rest" "\<And>q. qo = Some q \<Longrightarrow> is_quote q"
  shows "\<exists>raw ps. list_all literal_piece ps \<and> untagged l ps \<and>
    (case qo of
       None \<Rightarrow> s = render ps @ CHR '')'' # rest
     | Some q \<Rightarrow> s = raw @ q # render ps @ CHR '')'' # rest \<and> sealed q raw \<and>
         (q = backtick \<longrightarrow> \<not> interpolates raw))"
  using assms
proof (induction qo l s rule: only_scan.induct)
  case (1 q l)
  then show ?case by simp
next
  case (2 q l c)
  then show ?case by (cases "c = q") simp_all
next
  case (3 q l c d s)
  have q: "is_quote q" using "3.prems"(2) by simp
  show ?case
  proof (cases "c = backslash")
    case True
    with 3 obtain raw ps where "list_all literal_piece ps" "untagged l ps" "s = raw @ q # render ps @ CHR '')'' # rest"
      "sealed q raw" "q = backtick \<longrightarrow> \<not> interpolates raw" by auto
    with True show ?thesis by (intro exI [of _ "c # d # raw"] exI [of _ ps]) simp
  next
    case False
    note esc = this
    with "3.prems"(1) have free: "\<not> (q = backtick \<and> c = CHR ''$'' \<and> d = CHR ''{'')"
      and rec: "only_scan (if c = q then None else Some q) l (d # s) = Some rest" by (auto split: if_splits)
    show ?thesis
    proof (cases "c = q")
      case True
      with "3.IH"(2) esc free rec q obtain ps where "list_all literal_piece ps" "untagged l ps" "d # s = render ps @ CHR '')'' # rest"
        by (auto split: if_splits)
      with True show ?thesis by (intro exI [of _ "[]"] exI [of _ ps]) simp
    next
      case False
      with "3.IH"(2) esc free rec q obtain raw ps where r: "list_all literal_piece ps" "untagged l ps"
        "d # s = raw @ q # render ps @ CHR '')'' # rest" "sealed q raw" "q = backtick \<longrightarrow> \<not> interpolates raw"
        by (auto split: if_splits)
      then have "sealed q (c # raw)" "q = backtick \<longrightarrow> \<not> interpolates (c # raw)"
        using False esc free by (cases raw; simp)+
      with r show ?thesis by (intro exI [of _ "c # raw"] exI [of _ ps]) simp
    qed
  qed
next
  case (4 l c s)
  show ?case
  proof (cases "is_quote c")
    case True
    with "4.prems"(1) have "only_scan (Some c) (Some c) s = Some rest" "\<not> (c = backtick \<and> (case l of None \<Rightarrow> False | Some x \<Rightarrow> word_char x))"
      by (auto split: if_splits)
    with "4.IH"(1) True obtain raw ps where "list_all literal_piece ps" "untagged (Some c) ps" "s = raw @ c # render ps @ CHR '')'' # rest"
      "sealed c raw" "c = backtick \<longrightarrow> \<not> interpolates raw" by auto
    moreover note \<open>\<not> (c = backtick \<and> (case l of None \<Rightarrow> False | Some x \<Rightarrow> word_char x))\<close>
    ultimately show ?thesis using True by (intro exI [of _ "[]"] exI [of _ "QuotedText c raw # ps"]) auto
  next
    case False
    show ?thesis
    proof (cases "c = CHR '')''")
      case True
      with False "4.prems"(1) show ?thesis by (intro exI [of _ "[]"]) simp
    next
      case nparen: False
      with False "4.prems"(1) have lit: "literal_char c"
        and rec: "only_scan None (if is_space c then l else Some c) s = Some rest" by (auto split: if_splits)
      with "4.IH"(2) False nparen obtain ps where "list_all literal_piece ps"
        "untagged (if is_space c then l else Some c) ps" "s = render ps @ CHR '')'' # rest" by auto
      with lit show ?thesis by (intro exI [of _ "PlainChar c # ps"] exI) simp
    qed
  qed
qed

lemma literal_char_plain: "literal_char c \<Longrightarrow> \<not> is_quote c \<and> c \<noteq> CHR ''('' \<and> c \<noteq> CHR '')'' \<and> c \<noteq> CHR ''$''"
  by (auto simp: literal_char_def is_quote_def is_alnum_def is_digit_def code_in_def is_space_def)

lemma scan_pieces:
  "list_all literal_piece ps \<Longrightarrow> scan_arguments None (Suc 0) acc (render ps @ CHR '')'' # rest) = Some (acc @ render ps)"
proof (induction ps arbitrary: acc rule: render.induct)
  case (2 c ps)
  then show ?case using literal_char_plain [of c] by simp
next
  case (3 q raw ps)
  then show ?case by (simp add: scan_sealed)
qed simp

text \<open>And conversely: the walk ends behind the parenthesis.\<close>

lemma only_scan_render:
  "list_all literal_piece ps \<Longrightarrow> untagged l ps \<Longrightarrow> only_scan None l (render ps @ CHR '')'' # rest) = Some rest"
proof (induction l ps rule: untagged.induct)
  case (2 l c ps)
  then show ?case using literal_char_plain [of c] by auto
next
  case (3 l q raw ps)
  then show ?case by (auto simp: only_scan_sealed)
qed simp

lemma only_scan_iff:
  "only_scan None None t = Some rest \<longleftrightarrow>
     (\<exists>ps. list_all literal_piece ps \<and> untagged None ps \<and> t = render ps @ CHR '')'' # rest)"
  using only_scan_pieces [of None None t rest] only_scan_render [of _ None rest] by auto

section \<open>Finding the call\<close>

lemma lower_dollar [simp]: "lower_char c = CHR ''$'' \<longleftrightarrow> c = CHR ''$''"
proof
  assume c: "lower_char c = CHR ''$''"
  show "c = CHR ''$''"
  proof (cases "code_in 65 90 c")
    case True
    then have "(of_char c :: nat) + 32 < 256" by (simp add: code_in_def)
    with c True have "(of_char c :: nat) + 32 = of_char (CHR ''$'')"
      by (metis lower_char_def of_char_of mod_less of_char_mod_256)
    with True show ?thesis by (simp add: code_in_def)
  qed (use c in \<open>simp add: lower_char_def\<close>)
qed (simp add: lower_char_def code_in_def)

lemma match_open_dollar: "match_open (c # s) \<noteq> None \<Longrightarrow> c = CHR ''$''"
  by (rule ccontr) (simp add: match_open_def)

lemma find_call_skip: "CHR ''$'' \<notin> set p \<Longrightarrow> find_call (p @ s) = find_call s"
proof (induction p)
  case (Cons c p)
  then have "match_open (c # p @ s) = None" using match_open_dollar by fastforce
  with Cons show ?case by simp
qed simp

lemma find_call_here: "match_open s = Some t \<Longrightarrow> find_call s = Some (dropWhile is_space t)"
  by (cases s) (auto simp: match_open_def)

text \<open>A text in which no dollar sign is followed by an F has no call in it.\<close>

fun names_call :: "string \<Rightarrow> bool" where
  "names_call [] \<longleftrightarrow> False"
| "names_call (c # s) \<longleftrightarrow>
     (c = CHR ''$'' \<and> (case s of [] \<Rightarrow> False | d # _ \<Rightarrow> lower_char d = CHR ''f'')) \<or> names_call s"

lemma find_call_none: "\<not> names_call s \<Longrightarrow> find_call s = None"
proof (induction s)
  case (Cons c s)
  have "match_open (c # s) = None"
  proof (rule ccontr)
    assume m: "match_open (c # s) \<noteq> None"
    then have "c = CHR ''$''" by (rule match_open_dollar)
    with m Cons.prems show False by (cases s) (auto simp: match_open_def)
  qed
  with Cons show ?case by simp
qed simp

section \<open>Trimming\<close>

lemma dropWhile_split: "\<exists>sp. s = sp @ dropWhile P s \<and> list_all P sp"
  by (metis takeWhile_dropWhile_id list_all_iff set_takeWhileD)

lemma js_trim_split: "\<exists>a b. s = a @ js_trim s @ b \<and> list_all is_space a \<and> list_all is_space b"
proof -
  obtain a where a: "s = a @ dropWhile is_space s" "list_all is_space a"
    using dropWhile_split by blast
  obtain b where b: "rev (dropWhile is_space s) = b @ dropWhile is_space (rev (dropWhile is_space s))" "list_all is_space b"
    using dropWhile_split by blast
  from arg_cong [OF b(1), of rev] have "dropWhile is_space s = js_trim s @ rev b" by (simp add: js_trim_def)
  with a b(2) show ?thesis by (metis list_all_rev)
qed

lemma js_trim_between:
  assumes "list_all is_space a" "list_all is_space b" "m \<noteq> []" "\<not> is_space (hd m)" "\<not> is_space (last m)"
  shows "js_trim (a @ m @ b) = m"
proof -
  have "dropWhile is_space (a @ m @ b) = m @ b"
    using assms(1,3,4) by (cases m) (auto simp: dropWhile_append list_all_iff)
  moreover have "dropWhile is_space (rev b @ rev m) = rev m"
    using assms(2,3,5) by (cases m rule: rev_cases) (auto simp: dropWhile_append list_all_iff)
  ultimately show ?thesis by (simp add: js_trim_def)
qed

lemma space_not_dollar: "list_all is_space a \<Longrightarrow> CHR ''$'' \<notin> set a"
  by (auto simp: list_all_iff is_space_def)

lemma drop_prefix_Some: "drop_prefix p s = Some t \<longleftrightarrow> s = p @ t"
  by (induction p s rule: drop_prefix.induct) auto

text \<open>What may stand around the call: white space, a pair of braces and, in front of it, the marker.\<close>

definition wrapping :: "string \<Rightarrow> string \<Rightarrow> bool" where
  "wrapping a b \<longleftrightarrow>
     (\<exists>w0 w1 w2 w3 mk. list_all is_space w0 \<and> list_all is_space w1 \<and> list_all is_space w2 \<and> list_all is_space w3 \<and>
        mk \<in> {[], auto_generated_marker} \<and>
        ((a = w0 @ mk @ w1 \<and> b = w2) \<or> (\<exists>w. list_all is_space w \<and> a = w0 @ ''{{'' @ w @ mk @ w1 \<and> b = w2 @ ''}}'' @ w3)))"

lemma wrapping_no_dollar: "wrapping a b \<Longrightarrow> CHR ''$'' \<notin> set a"
  by (auto simp: wrapping_def auto_generated_marker_def dest!: space_not_dollar)

lemma trim_split: obtains a b where "s = a @ js_trim s @ b" "list_all is_space a" "list_all is_space b"
  using js_trim_split by blast

lemma braces_split:
  assumes "strip_braces s \<noteq> s"
  obtains a b where "s = ''{{'' @ a @ strip_braces s @ b @ ''}}''" "list_all is_space a" "list_all is_space b"
proof -
  from assms have both: "drop_prefix ''{{'' s \<noteq> None \<and> drop_prefix ''}}'' (rev s) \<noteq> None"
    by (simp add: strip_braces_def split: if_splits)
  then obtain t u where "drop_prefix ''{{'' s = Some t" "drop_prefix ''}}'' (rev s) = Some u" by blast
  then have t: "s = ''{{'' @ t" and u: "rev s = ''}}'' @ u" unfolding drop_prefix_Some .
  from arg_cong [OF u, of rev] have su: "s = rev u @ ''}}''" by simp
  have l: "last s = CHR ''}''" "last (butlast s) = CHR ''}''" unfolding su by (simp_all add: butlast_append)
  have "2 \<le> length t"
  proof (cases t)
    case Nil
    with l(1) t show ?thesis by simp
  next
    case (Cons x v)
    with l(2) t show ?thesis by (cases v) simp_all
  qed
  then have "2 \<le> length (rev u)" using arg_cong [OF su, of length] t by simp
  then have mid: "s = ''{{'' @ drop 2 (rev u) @ ''}}''"
    using t su by (cases "rev u" rule: remdups_adj.cases) auto
  then have "take (length s - 4) (drop 2 s) = drop 2 (rev u)" by simp
  then have "strip_braces s = js_trim (drop 2 (rev u))" using both by (simp add: strip_braces_def)
  with mid js_trim_split [of "drop 2 (rev u)"] that show thesis by (metis append.assoc)
qed

lemma marker_split:
  assumes "strip_marker s \<noteq> s"
  obtains a b where "s = auto_generated_marker @ a @ strip_marker s @ b" "list_all is_space a" "list_all is_space b"
proof -
  from assms obtain t where t: "drop_prefix auto_generated_marker s = Some t"
    by (auto simp: strip_marker_def split: option.splits)
  then have "s = auto_generated_marker @ t" "strip_marker s = js_trim t"
    unfolding strip_marker_def by (simp_all add: drop_prefix_Some [THEN iffD1])
  with js_trim_split [of t] that show thesis by metis
qed

lemma strip_braces_inner: "strip_braces (''{{'' @ s @ ''}}'') = js_trim s"
proof -
  have "drop_prefix ''{{'' (''{{'' @ s @ ''}}'') = Some (s @ ''}}'')" by (simp add: drop_prefix_Some)
  moreover have "drop_prefix ''}}'' (rev (''{{'' @ s @ ''}}'')) = Some (rev s @ ''{{'')" by (simp add: drop_prefix_Some)
  ultimately show ?thesis by (simp add: strip_braces_def)
qed

lemma call_text_wrapped:
  assumes "starts_with (CHR ''='') s"
  obtains a b where "s = CHR ''='' # a @ call_text s @ b" "\<And>w. list_all is_space w \<Longrightarrow> wrapping a (w @ b)"
proof -
  obtain e where e: "s = CHR ''='' # e" using assms by (cases s) (auto simp: starts_with_def)
  let ?u = "js_trim e"
  let ?v = "strip_braces ?u"
  obtain w0 w3 where w0: "e = w0 @ ?u @ w3" "list_all is_space w0" "list_all is_space w3" by (rule trim_split)
  have c: "call_text s = strip_marker ?v" by (simp add: call_text_def e starts_with_def)
  obtain mk w1 w2 where m: "?v = mk @ w1 @ call_text s @ w2" "mk \<in> {[], auto_generated_marker}"
    "list_all is_space w1" "list_all is_space w2"
  proof (cases "strip_marker ?v = ?v")
    case True
    with that [of "[]" "[]" "[]"] c show ?thesis by simp
  next
    case False
    from marker_split [OF this] that [of auto_generated_marker] c show ?thesis by (metis insertCI)
  qed
  show ?thesis
  proof (cases "?v = ?u")
    case True
    have "wrapping (w0 @ mk @ w1) (w @ w2 @ w3)" if "list_all is_space w" for w
      unfolding wrapping_def using that w0(2,3) m(2-4)
      by (intro exI [of _ w0] exI [of _ w1] exI [of _ "w @ w2 @ w3"] exI [of _ "[]"] exI [of _ mk] conjI disjI1) simp_all
    moreover have "s = CHR ''='' # (w0 @ mk @ w1) @ call_text s @ (w2 @ w3)" using e w0(1) m(1) True by simp
    ultimately show ?thesis using that by blast
  next
    case False
    from braces_split [OF this] obtain x y where xy: "?u = ''{{'' @ x @ ?v @ y @ ''}}''" "list_all is_space x" "list_all is_space y" .
    have "wrapping (w0 @ ''{{'' @ x @ mk @ w1) (w @ (w2 @ y) @ ''}}'' @ w3)" if w: "list_all is_space w" for w
    proof -
      have "list_all is_space (w @ w2 @ y)" using w m(4) xy(3) by simp
      then show ?thesis
        unfolding wrapping_def using w0(2,3) m(2,3) xy(2)
        by (intro exI [of _ w0] exI [of _ w1] exI [of _ "w @ w2 @ y"] exI [of _ w3] exI [of _ mk] conjI disjI2 exI [of _ x])
          (simp_all only: append_assoc)
    qed
    moreover have "s = CHR ''='' # (w0 @ ''{{'' @ x @ mk @ w1) @ call_text s @ ((w2 @ y) @ ''}}'' @ w3)"
      using e w0(1) m(1) xy(1) by simp
    ultimately show ?thesis using that by blast
  qed
qed

lemma match_ci_iff: "match_ci p s = Some t \<longleftrightarrow> (\<exists>name. map lower_char name = p \<and> s = name @ t)"
proof (induction p s rule: match_ci.induct)
  case (3 p ps c s)
  then show ?case by (auto simp: Cons_eq_append_conv map_eq_Cons_conv)
qed auto

definition call_name :: "string \<Rightarrow> bool" where
  "call_name name \<longleftrightarrow> map lower_char name = ''$fromai''"

lemma match_open_iff:
  "match_open s = Some t \<longleftrightarrow>
     (\<exists>name sp. call_name name \<and> list_all is_space sp \<and> s = name @ sp @ CHR ''('' # t)"
proof
  assume "match_open s = Some t"
  then obtain r where r: "match_ci ''$fromai'' s = Some r" "dropWhile is_space r = CHR ''('' # t"
    by (auto simp: match_open_def split: option.splits list.splits if_splits)
  then obtain name where "call_name name" "s = name @ r" unfolding match_ci_iff call_name_def [symmetric] by blast
  moreover obtain sp where "r = sp @ CHR ''('' # t" "list_all is_space sp" using dropWhile_split [of r is_space] r(2) by auto
  ultimately show "\<exists>name sp. call_name name \<and> list_all is_space sp \<and> s = name @ sp @ CHR ''('' # t" by blast
next
  assume "\<exists>name sp. call_name name \<and> list_all is_space sp \<and> s = name @ sp @ CHR ''('' # t"
  then obtain name sp where n: "call_name name" "list_all is_space sp" "s = name @ sp @ CHR ''('' # t" by blast
  then have "match_ci ''$fromai'' s = Some (sp @ CHR ''('' # t)" unfolding match_ci_iff call_name_def [symmetric] by blast
  moreover have "dropWhile is_space (sp @ CHR ''('' # t) = CHR ''('' # t"
    using n(2) by (simp add: dropWhile_append list_all_iff is_space_def)
  ultimately show "match_open s = Some t" by (simp add: match_open_def)
qed

text \<open>The call itself is what is left when the wrapping is stripped.\<close>

lemma call_text_unwrapped:
  assumes w: "wrapping a b" and core: "core \<noteq> []" "hd core = CHR ''$''" "last core = CHR '')''"
  shows "call_text (CHR ''='' # a @ core @ b) = core"
proof -
  let ?mid = "\<lambda>mk w1. if mk = [] then core else mk @ w1 @ core"
  have ns: "\<not> is_space (hd core)" "\<not> is_space (last core)" using core by (simp_all add: is_space_def)
  have head: "hd auto_generated_marker = CHR ''/''" "auto_generated_marker \<noteq> []" by (simp_all add: auto_generated_marker_def)
  have trim: "js_trim (x @ mk @ w1 @ core @ y) = ?mid mk w1"
    if "list_all is_space x" "list_all is_space w1" "list_all is_space y" "mk \<in> {[], auto_generated_marker}" for x mk w1 y
    using js_trim_between [of "x @ w1" y core] js_trim_between [of x y "mk @ w1 @ core"] that core ns head
    by (auto simp: is_space_def)
  have no_brace: "strip_braces (?mid mk w1) = ?mid mk w1" if "mk \<in> {[], auto_generated_marker}" for mk w1
  proof -
    have "drop_prefix ''{{'' (?mid mk w1) = None"
      using that core by (cases core) (auto simp: auto_generated_marker_def)
    then show ?thesis by (simp add: strip_braces_def)
  qed
  have marker: "strip_marker (?mid mk w1) = core" if "mk \<in> {[], auto_generated_marker}" "list_all is_space w1" for mk w1
  proof (cases "mk = []")
    case True
    have "drop_prefix auto_generated_marker core = None" using core by (cases core) (auto simp: auto_generated_marker_def)
    with True show ?thesis by (simp add: strip_marker_def)
  next
    case False
    then have "drop_prefix auto_generated_marker (mk @ w1 @ core) = Some (w1 @ core)" using that by (simp add: drop_prefix_Some)
    with False js_trim_between [of w1 "[]" core] that(2) core(1) ns show ?thesis by (simp add: strip_marker_def)
  qed
  obtain w0 w1 w2 w3 mk where sp: "list_all is_space w0" "list_all is_space w1" "list_all is_space w2" "list_all is_space w3"
    and mk: "mk \<in> {[], auto_generated_marker}"
    and ab: "(a = w0 @ mk @ w1 \<and> b = w2) \<or> (\<exists>w. list_all is_space w \<and> a = w0 @ ''{{'' @ w @ mk @ w1 \<and> b = w2 @ ''}}'' @ w3)"
    using w unfolding wrapping_def by blast
  have strip: "call_text (CHR ''='' # e) = strip_marker (strip_braces (js_trim e))" for e
    by (simp add: call_text_def starts_with_def)
  from ab show ?thesis
  proof
    assume "a = w0 @ mk @ w1 \<and> b = w2"
    then have e: "a @ core @ b = w0 @ mk @ w1 @ core @ w2" by simp
    show ?thesis unfolding strip e trim [OF sp(1,2,3) mk] no_brace [OF mk] by (rule marker [OF mk sp(2)])
  next
    assume "\<exists>w. list_all is_space w \<and> a = w0 @ ''{{'' @ w @ mk @ w1 \<and> b = w2 @ ''}}'' @ w3"
    then obtain w where w: "list_all is_space w"
      and e: "a @ core @ b = w0 @ (''{{'' @ (w @ mk @ w1 @ core @ w2) @ ''}}'') @ w3" by auto
    have "js_trim (w0 @ (''{{'' @ (w @ mk @ w1 @ core @ w2) @ ''}}'') @ w3) = ''{{'' @ (w @ mk @ w1 @ core @ w2) @ ''}}''"
      by (rule js_trim_between) (use sp in \<open>simp_all add: is_space_def\<close>)
    then show ?thesis unfolding strip e by (simp only: strip_braces_inner trim [OF w sp(2,3) mk] marker [OF mk sp(2)])
  qed
qed

lemma render_drop_space:
  "list_all literal_piece ps \<Longrightarrow>
    \<exists>qs. dropWhile is_space (render ps @ CHR '')'' # rest) = render qs @ CHR '')'' # rest \<and> list_all literal_piece qs \<and>
      render qs = dropWhile is_space (render ps)"
proof (induction ps rule: render.induct)
  case 1
  then show ?case by (intro exI [of _ "[]"]) (simp add: is_space_def)
next
  case (2 c ps)
  then show ?case by (cases "is_space c") (auto intro: exI [of _ "PlainChar c # ps"])
next
  case (3 q raw ps)
  then show ?case by (intro exI [of _ "QuotedText q raw # ps"]) simp
qed

text \<open>An expression that is one call with literal arguments and nothing else.\<close>

definition only_call :: "piece list \<Rightarrow> string \<Rightarrow> bool" where
  "only_call ps s \<longleftrightarrow> list_all literal_piece ps \<and> untagged None ps \<and>
     (\<exists>a name sp b. wrapping a b \<and> call_name name \<and> list_all is_space sp \<and>
        s = CHR ''='' # a @ (name @ sp @ ''('' @ render ps @ '')'') @ b)"

lemma js_trim_nil: "js_trim s = [] \<longleftrightarrow> list_all is_space s"
proof
  assume "js_trim s = []"
  with js_trim_split [of s] show "list_all is_space s" by auto
next
  assume "list_all is_space s"
  then have "dropWhile is_space s = []" unfolding dropWhile_eq_Nil_conv by (simp add: list_all_iff)
  then show "js_trim s = []" unfolding js_trim_def by (simp del: dropWhile_eq_Nil_conv)
qed

lemma accepted_call:
  assumes eq: "starts_with (CHR ''='') s"
  shows "isFromAIOnlyExpression s \<longleftrightarrow> (\<exists>ps. only_call ps s)"
proof
  assume "isFromAIOnlyExpression s"
  then obtain t rest where t: "match_open (call_text s) = Some t" "only_scan None None t = Some rest" "js_trim rest = []"
    by (auto simp: isFromAIOnlyExpression_def split: option.splits)
  from t(2) obtain ps where ps: "list_all literal_piece ps" "untagged None ps" "t = render ps @ CHR '')'' # rest"
    unfolding only_scan_iff by blast
  from t(1) obtain name sp where n: "call_name name" "list_all is_space sp" "call_text s = name @ sp @ CHR ''('' # t"
    unfolding match_open_iff by blast
  obtain a b where ab: "s = CHR ''='' # a @ call_text s @ b" "\<And>w. list_all is_space w \<Longrightarrow> wrapping a (w @ b)"
    using call_text_wrapped [OF eq] by blast
  have "wrapping a (rest @ b)" using ab(2) t(3) by (simp add: js_trim_nil)
  moreover have "s = CHR ''='' # a @ (name @ sp @ ''('' @ render ps @ '')'') @ rest @ b"
    using ab(1) n(3) ps(3) by simp
  ultimately show "\<exists>ps. only_call ps s" unfolding only_call_def using ps(1,2) n(1,2) by blast
next
  assume "\<exists>ps. only_call ps s"
  then obtain ps a name sp b where ps: "list_all literal_piece ps" "untagged None ps" and w: "wrapping a b"
    and n: "call_name name" "list_all is_space sp"
    and s: "s = CHR ''='' # a @ (name @ sp @ ''('' @ render ps @ '')'') @ b" unfolding only_call_def by blast
  let ?core = "name @ sp @ ''('' @ render ps @ '')''"
  have "?core \<noteq> []" "hd ?core = CHR ''$''" "last ?core = CHR '')''" using n(1) by (cases name; simp add: call_name_def)+
  from call_text_unwrapped [OF w this] have "call_text s = ?core" unfolding s by simp
  moreover have "match_open ?core = Some (render ps @ '')'')"
    unfolding match_open_iff using n by (intro exI [of _ name] exI [of _ sp]) simp
  moreover have "only_scan None None (render ps @ '')'') = Some []" using only_scan_render [OF ps] by simp
  ultimately show "isFromAIOnlyExpression s" by (simp add: isFromAIOnlyExpression_def js_trim_nil)
qed

text \<open>Reading finds exactly its arguments first.\<close>

lemma only_call_read:
  assumes "only_call ps s"
  shows "\<exists>t. find_call s = Some t \<and> scan_arguments None 1 [] t = Some (dropWhile is_space (render ps))"
proof -
  from assms obtain a name sp b where ps: "list_all literal_piece ps" and w: "wrapping a b"
    and n: "call_name name" "list_all is_space sp"
    and s: "s = CHR ''='' # a @ (name @ sp @ ''('' @ render ps @ '')'') @ b" unfolding only_call_def by blast
  let ?t = "render ps @ CHR '')'' # b"
  have "match_open (name @ sp @ CHR ''('' # ?t) = Some ?t" unfolding match_open_iff using n by blast
  from find_call_here [OF this] have "find_call s = Some (dropWhile is_space ?t)"
    using find_call_skip [of "CHR ''='' # a" "name @ sp @ CHR ''('' # ?t"] wrapping_no_dollar [OF w] unfolding s by simp
  moreover obtain qs where "dropWhile is_space ?t = render qs @ CHR '')'' # b" "list_all literal_piece qs"
    "render qs = dropWhile is_space (render ps)" using render_drop_space [OF ps] by blast
  ultimately show ?thesis using scan_pieces [of qs "[]" b] by simp
qed

section \<open>What the editor writes\<close>

definition enc :: "char \<Rightarrow> string \<Rightarrow> string" where
  "enc q d = concat (map (\<lambda>c. if c = backslash \<or> c = q then [backslash, c] else [c]) d)"

lemma enc_simps [simp]:
  "enc q [] = []"
  "enc q (c # d) = (if c = backslash \<or> c = q then backslash # c # enc q d else c # enc q d)"
  by (simp_all add: enc_def)

lemma sanitized_enc: "sanitized_description d = enc (getBestQuoteChar d) d"
proof -
  have "q \<noteq> backslash \<Longrightarrow> replace_char q [backslash, q] (replace_char backslash [backslash, backslash] d) = enc q d" for q
    by (induction d) (auto simp: replace_char_def)
  then show ?thesis by (simp add: sanitized_description_def getBestQuoteChar_def)
qed

lemma quote_best [simp]: "is_quote (getBestQuoteChar d)"
  by (simp add: getBestQuoteChar_def is_quote_def)

lemma sealed_cons: "c \<noteq> backslash \<Longrightarrow> c \<noteq> q \<Longrightarrow> sealed q s \<Longrightarrow> sealed q (c # s)"
  by (cases s) simp_all

lemma sealed_enc: "sealed q (enc q d)"
  by (induction d) (auto intro: sealed_cons)

lemma split_enc:
  assumes "ss_quote st = Some q" "\<not> ss_escape st" "is_quote q"
  shows "fold split_char (enc q d) st = st\<lparr>ss_current := ss_current st @ d\<rparr>"
  using assms(1,2)
proof (induction d arbitrary: st)
  case (Cons c d)
  have "fold split_char (if c = backslash \<or> c = q then [backslash, c] else [c]) st =
      st\<lparr>ss_current := ss_current st @ [c]\<rparr>"
    using Cons.prems by (simp add: split_char_def)
  moreover have "enc q (c # d) = (if c = backslash \<or> c = q then [backslash, c] else [c]) @ enc q d" by simp
  ultimately show ?case using Cons.IH [of "st\<lparr>ss_current := ss_current st @ [c]\<rparr>"] Cons.prems by simp
qed simp

lemma split_quoted:
  assumes "ss_quote st = None" "\<not> ss_escape st" "is_quote q"
  shows "fold split_char (q # enc q d @ [q]) st = st\<lparr>ss_current := ss_current st @ q # d @ [q]\<rparr>"
proof -
  have 1: "split_char q st = st\<lparr>ss_quote := Some q, ss_current := ss_current st @ [q]\<rparr>"
    using assms by (simp add: split_char_def)
  have "fold split_char (enc q d) (split_char q st) = (split_char q st)\<lparr>ss_current := ss_current (split_char q st) @ d\<rparr>"
    by (rule split_enc) (use assms in \<open>simp_all add: 1\<close>)
  then show ?thesis using assms by (simp add: 1) (simp add: split_char_def)
qed

text \<open>No backslash is directly in front of a quote or of another backslash.\<close>

fun no_escapes :: "string \<Rightarrow> bool" where
  "no_escapes (a # b # s) \<longleftrightarrow> \<not> (a = backslash \<and> (is_quote b \<or> b = backslash)) \<and> no_escapes (b # s)"
| "no_escapes s \<longleftrightarrow> True"

lemma unescape_same: "no_escapes s \<Longrightarrow> is_quote q \<or> q = backslash \<Longrightarrow> unescape q s = s"
  by (induction s rule: no_escapes.induct) auto

lemma no_escapes_plain: "backslash \<notin> set s \<Longrightarrow> no_escapes s"
  by (induction s rule: no_escapes.induct) auto

lemma js_trim_quoted: "is_quote q \<Longrightarrow> list_all is_space a \<Longrightarrow> js_trim (a @ q # d @ [q]) = q # d @ [q]"
  using js_trim_between [of a "[]" "q # d @ [q]"] by simp

lemma clean_quoted: "is_quote q \<Longrightarrow> no_escapes d \<Longrightarrow> clean_argument (q # d @ [q]) = d"
  using js_trim_quoted [of q "[]" d]
  by (auto simp: clean_argument_def quoted_by_def Let_def butlast_append unescape_same is_quote_def)

lemma enc_plain: "backslash \<notin> set s \<Longrightarrow> q \<notin> set s \<Longrightarrow> enc q s = s"
  by (induction s) auto

lemma key_char_plain: "key_char c \<Longrightarrow> c \<noteq> backslash \<and> \<not> is_quote c \<and> c \<noteq> CHR ''$''"
  by (auto simp: key_char_def is_quote_def is_alnum_def is_digit_def code_in_def)

lemma sanitize_chars: "list_all key_char (sanitizeFromAiParameterName s)"
  by (auto simp: sanitizeFromAiParameterName_def Let_def list_all_iff key_char_def dest!: in_set_takeD)

lemma sanitize_valid: "s \<noteq> [] \<Longrightarrow> valid_key (sanitizeFromAiParameterName s)"
  using sanitize_chars [of s] by (cases s) (auto simp: sanitizeFromAiParameterName_def valid_key_def Let_def)

text \<open>A word between single quotes that needs no escape.\<close>

definition plain_word :: "string \<Rightarrow> bool" where
  "plain_word s \<longleftrightarrow> (\<forall>c \<in> set s. c \<noteq> backslash \<and> \<not> is_quote c \<and> c \<noteq> CHR ''$'')"

lemma plain_wordD:
  assumes "plain_word s"
  shows "enc (CHR 0x27) s = s" "sealed (CHR 0x27) s" "no_escapes s" "CHR ''$'' \<notin> set s"
proof -
  have q: "is_quote (CHR 0x27)" by (simp add: is_quote_def)
  with assms have "backslash \<notin> set s" "CHR 0x27 \<notin> set s" "CHR ''$'' \<notin> set s" by (auto simp: plain_word_def)
  then show "enc (CHR 0x27) s = s" "no_escapes s" "CHR ''$'' \<notin> set s"
    by (simp_all add: enc_plain no_escapes_plain)
  with sealed_enc [of "CHR 0x27" s] show "sealed (CHR 0x27) s" by simp
qed

lemma plain_key: "plain_word (sanitizeFromAiParameterName s)"
  using sanitize_chars [of s] key_char_plain by (auto simp: plain_word_def list_all_iff)

lemma plain_type: "plain_word (fieldTypeToFromAiType t)"
  by (simp add: plain_word_def fieldTypeToFromAiType_def is_quote_def)

lemma type_accepted: "isFromAIArgumentType (fieldTypeToFromAiType t)"
proof -
  have "isFromAIArgumentType ''boolean''" "isFromAIArgumentType ''number''" "isFromAIArgumentType ''json''"
    "isFromAIArgumentType ''string''" by code_simp+
  then show ?thesis by (simp add: fieldTypeToFromAiType_def)
qed

text \<open>The arguments as they are written.\<close>

definition call_arguments :: "string \<Rightarrow> string \<Rightarrow> string \<Rightarrow> string" where
  "call_arguments key d ty = CHR 0x27 # key @ CHR 0x27 # '', '' @ getBestQuoteChar d # enc (getBestQuoteChar d) d @
     getBestQuoteChar d # '', '' @ CHR 0x27 # ty @ [CHR 0x27]"

lemma split_comma:
  assumes "ss_quote st = None" "\<not> ss_escape st"
  shows "fold split_char '', '' st = st\<lparr>ss_args := ss_args st @ [js_trim (ss_current st)], ss_current := '' ''\<rparr>"
  using assms by (simp add: split_char_def is_quote_def)

lemma split_call_arguments:
  assumes "plain_word key" "plain_word ty"
  shows "split_arguments (call_arguments key d ty) =
    [CHR 0x27 # key @ [CHR 0x27], getBestQuoteChar d # d @ [getBestQuoteChar d], CHR 0x27 # ty @ [CHR 0x27]]"
proof -
  let ?a = "CHR 0x27" and ?q = "getBestQuoteChar d"
  let ?s0 = "\<lparr>ss_args = [], ss_current = [], ss_quote = None, ss_escape = False\<rparr>"
  have a: "is_quote ?a" by (simp add: is_quote_def)
  have sp: "list_all is_space '' ''" by (simp add: is_space_def)
  have "call_arguments key d ty = (?a # enc ?a key @ [?a]) @ '', '' @ (?q # enc ?q d @ [?q]) @ '', '' @ (?a # enc ?a ty @ [?a])"
    by (simp add: call_arguments_def plain_wordD [OF assms(1)] plain_wordD [OF assms(2)])
  moreover have "fold split_char (?a # enc ?a key @ [?a]) ?s0 = ?s0\<lparr>ss_current := ?a # key @ [?a]\<rparr>"
    using split_quoted [of ?s0 ?a key] a by simp
  ultimately have "fold split_char (call_arguments key d ty) ?s0 =
      fold split_char (?a # enc ?a ty @ [?a]) (fold split_char '', '' (fold split_char (?q # enc ?q d @ [?q])
        (fold split_char '', '' (?s0\<lparr>ss_current := ?a # key @ [?a]\<rparr>))))"
    by (simp only: fold_append comp_apply)
  also have "\<dots> = \<lparr>ss_args = [js_trim (?a # key @ [?a]), js_trim ('' '' @ ?q # d @ [?q])],
      ss_current = '' '' @ ?a # ty @ [?a], ss_quote = None, ss_escape = False\<rparr>"
    by (simp only: split_comma split_quoted quote_best a split_state.simps split_state.select_convs
        split_state.update_convs simp_thms append_Nil append.simps)
  finally show ?thesis
    using js_trim_quoted [of ?a "[]" key] js_trim_quoted [of ?q "'' ''" d] js_trim_quoted [of ?a "'' ''" ty] a sp
    by (simp add: split_arguments_def)
qed

lemma parse_call_arguments:
  assumes "plain_word key" "plain_word ty" "isFromAIArgumentType ty" "no_escapes d"
  shows "parseArguments env (call_arguments key d ty) =
    Inr \<lparr>fa_key = key, fa_description = Some d, fa_type = ty, fa_default = PUndef\<rparr>"
proof -
  have "is_quote (CHR 0x27)" by (simp add: is_quote_def)
  then have "map clean_argument (split_arguments (call_arguments key d ty)) = [key, d, ty]"
    using assms plain_wordD(3) by (simp add: split_call_arguments clean_quoted)
  with assms(3) show ?thesis by (simp add: parseArguments_def parseDefaultValue_def)
qed

lemma scan_call_arguments:
  assumes "plain_word key" "plain_word ty"
  shows "scan_arguments None (Suc 0) [] (call_arguments key d ty @ CHR '')'' # rest) = Some (call_arguments key d ty)"
proof -
  have a: "is_quote (CHR 0x27)" by (simp add: is_quote_def)
  have "\<not> is_quote (CHR '','')" "\<not> is_quote (CHR '' '')" by (simp_all add: is_quote_def)
  with a plain_wordD(2) [OF assms(1)] plain_wordD(2) [OF assms(2)] show ?thesis
    by (simp add: call_arguments_def scan_sealed sealed_enc)
qed

definition override_prefix :: "bool \<Rightarrow> string" where
  "override_prefix includeMarker = ''={{ '' @ (if includeMarker then auto_generated_marker @ '' '' else [])"

definition call_open :: string where
  "call_open = ''$fromAI(''"

lemma build_shape:
  "buildValueFromOverride (Some d) displayName paramType path mk =
     override_prefix mk @ call_open @
       call_arguments (sanitizeFromAiParameterName (buildUniqueName displayName path)) d (fieldTypeToFromAiType paramType) @ '') }}''"
  by (simp add: buildValueFromOverride_def override_prefix_def call_arguments_def sanitized_enc Let_def call_open_def)

lemma lower_name: "map lower_char ''$fromAI'' = ''$fromai''"
  by code_simp

lemma match_open_call: "match_open (call_open @ t) = Some t"
proof -
  have "match_ci ''$fromai'' (''$fromAI'' @ CHR ''('' # t) = Some (CHR ''('' # t)"
    using lower_name by simp
  then show ?thesis by (simp add: match_open_def is_space_def call_open_def)
qed

lemma find_override:
  "find_call (override_prefix mk @ call_open @ call_arguments key d ty @ r) = Some (call_arguments key d ty @ r)"
proof -
  have "CHR ''$'' \<notin> set (override_prefix mk)" by (simp add: override_prefix_def auto_generated_marker_def)
  note find_call_skip [OF this, of "call_open @ call_arguments key d ty @ r"]
  also note find_call_here [OF match_open_call]
  finally show ?thesis by (simp add: call_arguments_def is_space_def)
qed

lemma names_call_skip: "CHR ''$'' \<notin> set p \<Longrightarrow> names_call (p @ s) = names_call s"
  by (induction p) auto

lemma names_call_enc:
  assumes "is_quote q"
  shows "names_call (enc q d @ q # s) \<longleftrightarrow> names_call d \<or> names_call s"
proof -
  have q: "lower_char q \<noteq> CHR ''f''" "lower_char backslash \<noteq> CHR ''f''" "q \<noteq> CHR ''$''"
    using assms by (auto simp: is_quote_def lower_char_def code_in_def)
  show ?thesis
  proof (induction d)
    case Nil
    then show ?case using q(3) by simp
  next
    case (Cons c d)
    have "(case enc q d @ q # s of [] \<Rightarrow> False | x # _ \<Rightarrow> lower_char x = CHR ''f'') =
        (case d of [] \<Rightarrow> False | x # _ \<Rightarrow> lower_char x = CHR ''f'')"
      using q by (cases d) auto
    with Cons q(3) show ?case by auto
  qed
qed

lemma extract_override:
  assumes "\<not> names_call d" "no_escapes d"
  shows "extractFromAICalls env (buildValueFromOverride (Some d) displayName paramType path mk) =
    Inr [\<lparr>fa_key = sanitizeFromAiParameterName (buildUniqueName displayName path), fa_description = Some d,
          fa_type = fieldTypeToFromAiType paramType, fa_default = PUndef\<rparr>]"
proof -
  let ?key = "sanitizeFromAiParameterName (buildUniqueName displayName path)" and ?ty = "fieldTypeToFromAiType paramType"
  let ?t = "call_arguments ?key d ?ty @ '') }}''"
  have "\<not> names_call ?t"
    using assms(1) plain_wordD(4) [OF plain_key, of "buildUniqueName displayName path"] plain_wordD(4) [OF plain_type, of paramType]
    by (simp add: call_arguments_def names_call_skip names_call_enc)
  then have "extract_from env ?t args = Inr args" for args
    by (simp add: extract_from.simps find_call_none)
  moreover have "scan_arguments None (Suc 0) [] ?t = Some (call_arguments ?key d ?ty)"
    using scan_call_arguments [OF plain_key plain_type, of _ d paramType "'' }}''"] by simp
  ultimately show ?thesis
    unfolding build_shape extractFromAICalls_def
    by (subst extract_from.simps)
      (simp add: find_override parse_call_arguments [OF plain_key plain_type type_accepted assms(2)])
qed

text \<open>A dollar sign in front of a brace.\<close>

fun dollar_brace :: "string \<Rightarrow> bool" where
  "dollar_brace (c # d # s) \<longleftrightarrow> (c = CHR ''$'' \<and> d = CHR ''{'') \<or> dollar_brace (d # s)"
| "dollar_brace s \<longleftrightarrow> False"

lemma interpolates_enc:
  assumes "is_quote q"
  shows "interpolates (enc q d) \<longleftrightarrow> dollar_brace d"
proof -
  have q: "q \<noteq> CHR ''{''" "q \<noteq> CHR ''$''" using assms by auto
  have cons: "c \<noteq> backslash \<Longrightarrow> interpolates (c # s) \<longleftrightarrow>
      (c = CHR ''$'' \<and> s \<noteq> [] \<and> hd s = CHR ''{'') \<or> interpolates s" for c s
    by (cases s) auto
  have brace: "dollar_brace (c # s) \<longleftrightarrow> (c = CHR ''$'' \<and> s \<noteq> [] \<and> hd s = CHR ''{'') \<or> dollar_brace s" for c s
    by (cases s) auto
  have hd_enc: "enc q s \<noteq> [] \<and> hd (enc q s) = CHR ''{'' \<longleftrightarrow> s \<noteq> [] \<and> hd s = CHR ''{''" for s
    using q by (cases s) auto
  show ?thesis
    by (induction d) (use q in \<open>auto simp: cons brace hd_enc\<close>)
qed

lemma only_scan_interpolates:
  "sealed backtick raw \<Longrightarrow> interpolates raw \<Longrightarrow> only_scan (Some backtick) l (raw @ backtick # t) = None"
proof (induction backtick raw rule: sealed.induct)
  case (3 c d s)
  then show ?case by (cases "c = backslash") auto
qed simp_all

lemma only_scan_call_arguments:
  assumes "plain_word key" "plain_word ty"
  shows "only_scan None None (call_arguments key d ty @ '')'') =
    (if getBestQuoteChar d = backtick \<and> dollar_brace d then None else Some [])"
proof -
  let ?q = "getBestQuoteChar d"
  have a: "is_quote (CHR 0x27)" by (simp add: is_quote_def)
  have lit: "\<not> is_quote (CHR '','')" "\<not> is_quote (CHR '' '')" "literal_char (CHR '','')" "literal_char (CHR '' '')"
    "is_space (CHR '' '')" "\<not> is_space (CHR '','')" "\<not> word_char (CHR '','')"
    by (simp_all add: is_quote_def literal_char_def is_space_def word_char_def is_alnum_def is_digit_def code_in_def)
  have plain: "sealed (CHR 0x27) key" "sealed (CHR 0x27) ty" using assms by (simp_all add: plain_wordD)
  have last: "only_scan None l ('', '' @ CHR 0x27 # ty @ CHR 0x27 # '')'') = Some []" for l
    using a lit plain(2) by (simp add: only_scan_sealed)
  have first: "only_scan None None (call_arguments key d ty @ '')'') =
      only_scan (Some ?q) (Some ?q) (enc ?q d @ ?q # '', '' @ CHR 0x27 # ty @ CHR 0x27 # '')'')"
    using a lit plain(1) by (simp add: call_arguments_def only_scan_sealed)
  show ?thesis
  proof (cases "?q = backtick \<and> dollar_brace d")
    case True
    then have "interpolates (enc backtick d)" by (simp add: interpolates_enc is_quote_def)
    with True first show ?thesis by (simp add: only_scan_interpolates sealed_enc)
  next
    case False
    then have "?q = backtick \<longrightarrow> \<not> interpolates (enc ?q d)" by (auto simp: interpolates_enc is_quote_def)
    then have "only_scan None None (call_arguments key d ty @ '')'') = Some []"
      unfolding first by (simp only: only_scan_sealed [OF quote_best sealed_enc] last)
    with False show ?thesis by simp
  qed
qed

lemma call_text_override:
  "call_text (override_prefix mk @ call_open @ call_arguments key d ty @ '') }}'') = call_open @ call_arguments key d ty @ '')''"
proof -
  let ?c = "call_open @ call_arguments key d ty @ '')''"
  let ?m = "if mk then auto_generated_marker @ '' '' @ ?c else ?c"
  have sp: "list_all is_space '' ''" by (simp add: is_space_def)
  have c: "?c \<noteq> []" "\<not> is_space (hd ?c)" "\<not> is_space (last ?c)"
    by (simp_all add: call_open_def is_space_def)
  have m: "?m \<noteq> []" "\<not> is_space (hd ?m)" "\<not> is_space (last ?m)"
    using c by (auto simp: auto_generated_marker_def is_space_def)
  have "override_prefix mk @ call_open @ call_arguments key d ty @ '') }}'' = CHR ''='' # ''{{'' @ ('' '' @ ?m @ '' '') @ ''}}''"
    by (simp add: override_prefix_def)
  moreover have "js_trim (''{{'' @ ('' '' @ ?m @ '' '') @ ''}}'') = ''{{'' @ ('' '' @ ?m @ '' '') @ ''}}''"
    using js_trim_between [of "[]" "[]" "''{{'' @ ('' '' @ ?m @ '' '') @ ''}}''"] by (simp add: is_space_def)
  moreover have "js_trim ('' '' @ ?m @ '' '') = ?m"
    by (rule js_trim_between [OF sp sp m])
  moreover have "strip_marker ?m = ?c"
  proof (cases mk)
    case True
    have "js_trim ('' '' @ ?c) = ?c" using js_trim_between [OF sp _ c, of "[]"] by simp
    moreover have "drop_prefix auto_generated_marker (auto_generated_marker @ '' '' @ ?c) = Some ('' '' @ ?c)"
      by (simp add: drop_prefix_Some)
    ultimately show ?thesis using True by (simp add: strip_marker_def)
  next
    case False
    have "drop_prefix auto_generated_marker ?c = None" by (simp add: auto_generated_marker_def call_open_def)
    with False show ?thesis by (simp add: strip_marker_def)
  qed
  ultimately show ?thesis
    by (simp only: call_text_def starts_with_def list.case strip_braces_inner list.sel simp_thms if_True)
qed

lemma override_accepted:
  "isFromAIOnlyExpression (buildValueFromOverride (Some d) displayName paramType path mk) \<longleftrightarrow>
     \<not> (getBestQuoteChar d = backtick \<and> dollar_brace d)"
  using only_scan_call_arguments [OF plain_key plain_type, of "buildUniqueName displayName path" d paramType]
  by (simp add: build_shape isFromAIOnlyExpression_def call_text_override match_open_call js_trim_def)

section \<open>The arguments of a tool\<close>

definition agree :: "fromai_argument \<Rightarrow> fromai_argument \<Rightarrow> bool" where
  "agree a b \<longleftrightarrow> fa_description a = fa_description b \<and> fa_type a = fa_type b"

lemma check_argument_step:
  "(\<exists>keys'. check_argument a keys = Inr keys') \<longleftrightarrow>
     valid_key (fa_key a) \<and> (\<forall>b. obj_get keys (fa_key a) = Some b \<longrightarrow> agree b a)"
  "check_argument a keys = Inr keys' \<Longrightarrow>
     keys' = (if obj_get keys (fa_key a) = None then obj_set (fa_key a) a keys else keys)"
  by (auto simp: check_argument_def agree_def valid_key_def split: option.splits if_splits)

lemma check_arguments:
  "(\<exists>keys'. foldE check_argument as keys = Inr keys') \<longleftrightarrow>
     (\<forall>a \<in> set as. valid_key (fa_key a)) \<and>
     (\<forall>a \<in> set as. \<forall>b. obj_get keys (fa_key a) = Some b \<longrightarrow> agree b a) \<and>
     (\<forall>a \<in> set as. \<forall>b \<in> set as. fa_key a = fa_key b \<longrightarrow> agree a b)"
proof (induction as arbitrary: keys)
  case (Cons a as)
  show ?case
  proof (cases "check_argument a keys")
    case (Inl e)
    then have "\<not> (valid_key (fa_key a) \<and> (\<forall>b. obj_get keys (fa_key a) = Some b \<longrightarrow> agree b a))"
      using check_argument_step(1) [of a keys] by auto
    moreover have "foldE check_argument (a # as) keys = Inl e" using Inl by simp
    ultimately show ?thesis unfolding list.set by (metis Inl_Inr_False insertI1)
  next
    case (Inr keys1)
    have a: "valid_key (fa_key a)" "\<forall>b. obj_get keys (fa_key a) = Some b \<longrightarrow> agree b a"
      using check_argument_step(1) [of a keys] Inr by blast+
    have keys1: "keys1 = (if obj_get keys (fa_key a) = None then obj_set (fa_key a) a keys else keys)"
      using check_argument_step(2) [OF Inr] .
    have "(\<forall>c \<in> set as. \<forall>b. obj_get keys1 (fa_key c) = Some b \<longrightarrow> agree b c) \<longleftrightarrow>
        (\<forall>c \<in> set as. \<forall>b. obj_get keys (fa_key c) = Some b \<longrightarrow> agree b c) \<and>
        (\<forall>c \<in> set as. fa_key c = fa_key a \<longrightarrow> agree a c)"
      using a(2) unfolding keys1 agree_def
      by (cases "obj_get keys (fa_key a)") (auto simp: obj_set_def update_conv' split: if_splits)
    moreover have "foldE check_argument (a # as) keys = foldE check_argument as keys1" using Inr by simp
    moreover have "agree a a" "\<And>b c. agree b c \<longleftrightarrow> agree c b" by (auto simp: agree_def)
    then have "(\<forall>c \<in> set (a # as). \<forall>b \<in> set (a # as). fa_key c = fa_key b \<longrightarrow> agree c b) \<longleftrightarrow>
        (\<forall>c \<in> set as. fa_key c = fa_key a \<longrightarrow> agree a c) \<and>
        (\<forall>c \<in> set as. \<forall>b \<in> set as. fa_key c = fa_key b \<longrightarrow> agree c b)"
      unfolding list.set by (smt (verit) insert_iff)
    ultimately show ?thesis using Cons.IH [of keys1] a by (simp only: list.set ball_simps) blast
  qed
qed simp

definition by_key :: "fromai_argument list \<Rightarrow> (string, fromai_argument) obj" where
  "by_key as = fold (\<lambda>a. obj_set (fa_key a) a) as []"

lemma by_key_wf: "distinct (obj_keys (by_key as)) \<and> (\<forall>p \<in> set (by_key as). fa_key (snd p) = fst p)"
proof (induction as rule: rev_induct)
  case (snoc a as)
  have "by_key (as @ [a]) = obj_set (fa_key a) a (by_key as)" by (simp add: by_key_def)
  with snoc show ?case using set_obj_set [of "by_key as" "fa_key a" a]
    by (auto simp: obj_set_def distinct_update)
qed (simp add: by_key_def)

lemma by_key_last:
  "a \<in> snd ` set (by_key as) \<longleftrightarrow> (\<exists>xs ys. as = xs @ a # ys \<and> (\<forall>b \<in> set ys. fa_key b \<noteq> fa_key a))"
proof (induction as rule: rev_induct)
  case (snoc c as)
  have "by_key (as @ [c]) = obj_set (fa_key c) c (by_key as)" by (simp add: by_key_def)
  then have "a \<in> snd ` set (by_key (as @ [c])) \<longleftrightarrow> a = c \<or> (a \<in> snd ` set (by_key as) \<and> fa_key a \<noteq> fa_key c)"
    using set_obj_set [of "by_key as" "fa_key c" c] by_key_wf [of as] by (force simp: image_iff)
  also have "\<dots> \<longleftrightarrow> (\<exists>xs ys. as @ [c] = xs @ a # ys \<and> (\<forall>b \<in> set ys. fa_key b \<noteq> fa_key a))"
  proof
    assume "a = c \<or> (a \<in> snd ` set (by_key as) \<and> fa_key a \<noteq> fa_key c)"
    then show "\<exists>xs ys. as @ [c] = xs @ a # ys \<and> (\<forall>b \<in> set ys. fa_key b \<noteq> fa_key a)"
    proof
      assume "a \<in> snd ` set (by_key as) \<and> fa_key a \<noteq> fa_key c"
      with snoc obtain xs ys where "as = xs @ a # ys" "\<forall>b \<in> set ys. fa_key b \<noteq> fa_key a" "fa_key a \<noteq> fa_key c" by auto
      then show ?thesis by (intro exI [of _ xs] exI [of _ "ys @ [c]"]) simp
    qed (intro exI [of _ as] exI [of _ "[]"], simp)
  next
    assume "\<exists>xs ys. as @ [c] = xs @ a # ys \<and> (\<forall>b \<in> set ys. fa_key b \<noteq> fa_key a)"
    then obtain xs ys where e: "as @ [c] = xs @ a # ys" "\<forall>b \<in> set ys. fa_key b \<noteq> fa_key a" by blast
    show "a = c \<or> (a \<in> snd ` set (by_key as) \<and> fa_key a \<noteq> fa_key c)"
    proof (cases ys rule: rev_cases)
      case Nil
      with e(1) show ?thesis by simp
    next
      case (snoc zs z)
      with e have "as = xs @ a # zs" "z = c" by simp_all
      with e(2) snoc \<open>_ = (\<exists>xs ys. as = xs @ a # ys \<and> _)\<close> show ?thesis by auto
    qed
  qed
  finally show ?case .
qed (simp add: by_key_def)

section \<open>Types of arguments\<close>

definition typed_argument :: "fromai_argument \<Rightarrow> bool" where
  "typed_argument a \<longleftrightarrow> map lower_char (fa_type a) \<in> {''string'', ''number'', ''boolean'', ''json''} \<and>
     (fa_type a = ''string'' \<longrightarrow> fa_default a = PUndef \<or> (\<exists>t. fa_default a = PStr t))"

lemma parsed_typed:
  assumes "parseArguments env s = Inr a"
  shows "typed_argument a"
proof -
  from assms obtain v where "isFromAIArgumentType (fa_type a)" "fa_default a = parseDefaultValue env v (fa_type a)"
    by (auto simp: parseArguments_def Let_def split: if_splits)
  then show ?thesis
    by (auto simp: typed_argument_def isFromAIArgumentType_def parseDefaultValue_def split: option.splits)
qed

lemma extract_typed:
  "extract_from env s args = Inr as \<Longrightarrow> list_all typed_argument args \<Longrightarrow> list_all typed_argument as"
proof (induction env s args rule: extract_from.induct)
  case (1 env s args)
  from "1.prems"(1) [unfolded extract_from.simps [of env s args]] "1.prems"(2) "1.IH" show ?case
    by (auto split: option.splits sum.splits dest: parsed_typed)
qed

lemma foldE_keeps:
  assumes "foldE f xs s = Inr t" "P s" "\<And>x u v. x \<in> set xs \<Longrightarrow> f x u = Inr v \<Longrightarrow> P u \<Longrightarrow> P v"
  shows "P t"
  using assms by (induction xs arbitrary: s) (auto simp: bindE_Inr_iff)

lemma traverse_typed:
  "traverseNodeParameters env v args = Inr as \<Longrightarrow> list_all typed_argument args \<Longrightarrow> list_all typed_argument as"
proof (induction env v args arbitrary: as rule: traverseNodeParameters.induct)
  case (1 env s collected)
  then show ?case using extract_typed [of env s "[]"] by (auto simp: bindE_Inr_iff extractFromAICalls_def)
next
  case (2 env xs collected)
  show ?case
    by (rule foldE_keeps [where P = "list_all typed_argument"]) (use 2 in auto)
next
  case (3 env m collected)
  show ?case
    by (rule foldE_keeps [where P = "list_all typed_argument"]) (use 3 in auto)
qed auto

section \<open>Expressions in parameters\<close>

fun strings_in :: "pvalue \<Rightarrow> string list" where
  "strings_in (PStr s) = [s]"
| "strings_in (PArr xs) = concat (map strings_in xs)"
| "strings_in (PObj m) = concat (map (\<lambda>p. strings_in (snd p)) m)"
| "strings_in _ = []"

lemma snd_enumerate: "snd ` set (enumerate n xs) = set xs"
  by (metis list.set_map map_snd_enumerate)

lemma disallowed_none:
  "findDisallowedChatToolExpressions v path allowed = [] \<longleftrightarrow>
     (\<forall>s \<in> set (strings_in v). \<not> starts_with (CHR ''='') s \<or> isFromAIOnlyExpression s \<or>
        (case allowed of None \<Rightarrow> False | Some xs \<Rightarrow> s \<in> set xs))"
proof (induction v path allowed rule: findDisallowedChatToolExpressions.induct)
  case (2 xs path allowed)
  have "findDisallowedChatToolExpressions (PArr xs) path allowed = [] \<longleftrightarrow>
      (\<forall>p \<in> set (enumerate 0 xs). findDisallowedChatToolExpressions (snd p) (item_path path (fst p)) allowed = [])"
    by (simp add: concat_eq_Nil_conv)
  also have "\<dots> \<longleftrightarrow> (\<forall>p \<in> set (enumerate 0 xs). \<forall>s \<in> set (strings_in (snd p)). \<not> starts_with (CHR ''='') s \<or>
      isFromAIOnlyExpression s \<or> (case allowed of None \<Rightarrow> False | Some xs \<Rightarrow> s \<in> set xs))"
    using 2 by blast
  also have "\<dots> \<longleftrightarrow> (\<forall>x \<in> snd ` set (enumerate 0 xs). \<forall>s \<in> set (strings_in x). \<not> starts_with (CHR ''='') s \<or>
      isFromAIOnlyExpression s \<or> (case allowed of None \<Rightarrow> False | Some xs \<Rightarrow> s \<in> set xs))"
    by blast
  finally show ?case by (simp add: snd_enumerate)
next
  case (3 m path allowed)
  have "findDisallowedChatToolExpressions (PObj m) path allowed = [] \<longleftrightarrow>
      (\<forall>p \<in> set m. findDisallowedChatToolExpressions (snd p) (key_path path (fst p)) allowed = [])"
    by (simp add: concat_eq_Nil_conv)
  with 3 show ?case by auto
qed auto

section \<open>Reading a description back\<close>

fun backtick_escapes :: "string \<Rightarrow> bool" where
  "backtick_escapes (a # b # s) \<longleftrightarrow> \<not> (a = backslash \<and> b \<noteq> backtick) \<and> backtick_escapes (b # s)"
| "backtick_escapes s \<longleftrightarrow> True"

lemma prepare_same: "backtick_escapes s \<Longrightarrow> prepare_expression s = s"
  by (induction s rule: prepare_expression.induct) auto

lemma backtick_escapes_skip: "backslash \<notin> set p \<Longrightarrow> backtick_escapes (p @ s) = backtick_escapes s"
proof (induction p)
  case (Cons c p)
  then show ?case by (cases "p @ s") auto
qed simp

lemma backtick_escapes_enc:
  assumes "backslash \<notin> set d"
  shows "backtick_escapes (enc backtick d @ backtick # s) = backtick_escapes (backtick # s)"
  using assms
proof (induction d)
  case (Cons c d)
  have cons: "x \<noteq> backslash \<Longrightarrow> backtick_escapes (x # t) = backtick_escapes t" for x t
    by (cases t) auto
  from Cons show ?case by (auto simp: cons)
qed simp

lemma editor_reads_back:
  assumes "\<not> names_call d" "backslash \<notin> set d" "getBestQuoteChar d \<noteq> CHR 0x27 \<or> CHR 0x27 \<notin> set d"
  shows "parseOverrides env (buildValueFromOverride (Some d) displayName paramType path mk) = Some (Some d)"
proof -
  let ?q = "getBestQuoteChar d" and ?key = "sanitizeFromAiParameterName (buildUniqueName displayName path)"
  let ?a = "override_prefix mk @ call_open @ CHR 0x27 # ?key @ CHR 0x27 # '', '' @ [?q]"
  let ?z = "'', '' @ CHR 0x27 # fieldTypeToFromAiType paramType @ CHR 0x27 # '') }}''"
  have "backslash \<notin> set ?key" "backslash \<notin> set (fieldTypeToFromAiType paramType)"
    using plain_key [of "buildUniqueName displayName path"] plain_type [of paramType] by (auto simp: plain_word_def)
  then have az: "backslash \<notin> set ?a" "backslash \<notin> set ?z"
    using quote_not(1) [OF quote_best, of d, symmetric]
    by (simp_all add: override_prefix_def auto_generated_marker_def call_open_def)
  have "backtick_escapes (enc ?q d @ ?q # ?z)"
  proof (cases "?q = backtick")
    case True
    have "backtick_escapes ?z" using backtick_escapes_skip [OF az(2), of "[]"] by simp
    then show ?thesis unfolding True backtick_escapes_enc [OF assms(2)] by simp
  next
    case False
    with assms(3) have "?q \<notin> set d" by (auto simp: getBestQuoteChar_def split: if_splits)
    with assms(2) have "enc ?q d = d" by (simp add: enc_plain)
    moreover have "backslash \<notin> set (d @ ?q # ?z)" using assms(2) az(2) quote_not(1) [OF quote_best, of d, symmetric] by simp
    ultimately show ?thesis using backtick_escapes_skip [of "d @ ?q # ?z" "[]"] by simp
  qed
  then have "backtick_escapes (buildValueFromOverride (Some d) displayName paramType path mk)"
    using backtick_escapes_skip [OF az(1)] by (simp add: build_shape call_arguments_def)
  with extract_override [OF assms(1) no_escapes_plain [OF assms(2)]] show ?thesis
    by (simp add: parseOverrides_def prepare_same)
qed

section \<open>Properties\<close>

definition sample_fa_env :: fa_env where
  "sample_fa_env = \<lparr>fe_number = (\<lambda>s. if s = ''5'' then Some 5 else None), fe_json = (\<lambda>s. None)\<rparr>"

text \<open>A text with quotes of two kinds, a backslash, a comma and a parenthesis.\<close>

definition sample_description :: string where
  "sample_description = ''the \"name\" (see C:'' @ [backslash] @ ''docs), in '' @ [backtick] @ ''lower'' @ [backtick] @ '' case''"



text \<open>C5. Parameters of a tool in a chat pass the check exactly if every expression in them is allowed or is one
  call and nothing else: the name in any case with its arguments between parentheses and around them at most white
  space, one pair of braces and the marker of the editor. Outside quotes the arguments have only characters of
  numbers, words and separators, inside backticks nothing is interpolated, and no backtick follows a word (a tagged
  template). What reading finds in such an expression is the text of these arguments.\<close>

theorem chat_expressions_literal:
  "(findDisallowedChatToolExpressions v path allowed = [] \<longleftrightarrow>
      (\<forall>s \<in> set (strings_in v). starts_with (CHR ''='') s \<longrightarrow>
         (\<exists>xs. allowed = Some xs \<and> s \<in> set xs) \<or> (\<exists>ps. only_call ps s))) \<and>
   (\<forall>ps s. only_call ps s \<longrightarrow>
      (\<exists>t. find_call s = Some t \<and> scan_arguments None 1 [] t = Some (dropWhile is_space (render ps))))"
proof
  have "findDisallowedChatToolExpressions v path allowed = [] \<longleftrightarrow>
      (\<forall>s \<in> set (strings_in v). \<not> starts_with (CHR ''='') s \<or> (\<exists>ps. only_call ps s) \<or>
         (case allowed of None \<Rightarrow> False | Some xs \<Rightarrow> s \<in> set xs))"
    unfolding disallowed_none using accepted_call by blast
  then show "findDisallowedChatToolExpressions v path allowed = [] \<longleftrightarrow>
      (\<forall>s \<in> set (strings_in v). starts_with (CHR ''='') s \<longrightarrow>
         (\<exists>xs. allowed = Some xs \<and> s \<in> set xs) \<or> (\<exists>ps. only_call ps s))"
    by (auto split: option.splits)
qed (use only_call_read in blast)

lemma chat_expressions_literal_witness:
  "\<exists>ps t. only_call ps ''={{ $fromAI('a', `b`, \"number\", -5) }}'' \<and>
     find_call ''={{ $fromAI('a', `b`, \"number\", -5) }}'' = Some t \<and>
     scan_arguments None 1 [] t = Some (dropWhile is_space (render ps))"
proof -
  let ?s = "''={{ $fromAI('a', `b`, \"number\", -5) }}''" and ?v = "PArr [PStr ''={{ $fromAI('a', `b`, \"number\", -5) }}'']"
  have "findDisallowedChatToolExpressions ?v [] None = []" by code_simp
  moreover have "?s \<in> set (strings_in ?v)" "starts_with (CHR ''='') ?s" by (simp_all add: starts_with_def)
  ultimately obtain ps where "only_call ps ?s" using chat_expressions_literal [of ?v "[]" None] by blast
  with chat_expressions_literal [of ?v "[]" None] show ?thesis by blast
qed

text \<open>No tagged template, and nothing after the call.\<close>

lemma chat_expressions_rejected:
  "findDisallowedChatToolExpressions (PArr [PStr ''={{ $fromAI(`a`, String.raw`b`) }}'', PStr ''={{ $fromAI('a') + $env.SECRET }}'']) []
     None = [(''[0]'', ''={{ $fromAI(`a`, String.raw`b`) }}''), (''[1]'', ''={{ $fromAI('a') + $env.SECRET }}'')]"
  by code_simp

text \<open>C35. The check accepts what the editor writes unless the description is put between backticks with a dollar
  sign in front of a brace: that text is a template in which code runs.\<close>

theorem override_accepted_iff:
  "isFromAIOnlyExpression (buildValueFromOverride (Some d) displayName paramType path mk) =
     (getBestQuoteChar d = backtick \<longrightarrow> \<not> dollar_brace d)"
  using override_accepted [of d displayName paramType path mk] by blast

lemma override_accepted_iff_witness:
  "isFromAIOnlyExpression (buildValueFromOverride (Some sample_description) ''To'' ''string'' ''parameters.to'' True) \<and>
   \<not> isFromAIOnlyExpression (buildValueFromOverride (Some ''price in ${currency}'') ''Price'' ''number'' ''parameters.price'' True)"
proof -
  have "\<not> dollar_brace sample_description" "getBestQuoteChar ''price in ${currency}'' = backtick"
    "dollar_brace ''price in ${currency}''" by code_simp+
  then show ?thesis by (simp only: override_accepted_iff simp_thms)
qed

text \<open>C28. A tool gets its arguments exactly if every key is valid and calls with the same key
  agree on description and type; it then gets, for each key, the last of its calls.\<close>

theorem getSchema_spec:
  assumes "traverseNodeParameters env params [] = Inr calls"
  shows "((\<exists>as. getSchema env params = Inr as) \<longleftrightarrow>
      (\<forall>a \<in> set calls. valid_key (fa_key a)) \<and>
      (\<forall>a \<in> set calls. \<forall>b \<in> set calls. fa_key a = fa_key b \<longrightarrow>
         fa_description a = fa_description b \<and> fa_type a = fa_type b)) \<and>
    (\<forall>as. getSchema env params = Inr as \<longrightarrow> distinct (map fa_key as) \<and>
      (\<forall>a. a \<in> set as \<longleftrightarrow> (\<exists>xs ys. calls = xs @ a # ys \<and> (\<forall>b \<in> set ys. fa_key b \<noteq> fa_key a))))"
proof -
  have some: "(\<exists>as. getSchema env params = Inr as) \<longleftrightarrow> (\<exists>keys. foldE check_argument calls [] = Inr keys)"
    using assms by (auto simp: getSchema_def bindE_Inr_iff)
  have res: "as = map snd (by_key calls)" if "getSchema env params = Inr as" for as
    using that assms by (auto simp: getSchema_def bindE_Inr_iff unique_arguments_def by_key_def)
  have keys: "map fa_key (map snd (by_key calls)) = map fst (by_key calls)"
    using by_key_wf [of calls] by (simp add: comp_def)
  have "distinct (map fa_key (map snd (by_key calls)))" unfolding keys using by_key_wf [of calls] by blast
  then have "distinct (map fa_key as) \<and>
      (\<forall>a. a \<in> set as \<longleftrightarrow> (\<exists>xs ys. calls = xs @ a # ys \<and> (\<forall>b \<in> set ys. fa_key b \<noteq> fa_key a)))"
    if "getSchema env params = Inr as" for as
    using res [OF that] by_key_last [of _ calls] by (simp add: image_set [symmetric])
  with some check_arguments [of calls "[]"] show ?thesis by (simp add: agree_def)
qed

definition two_calls :: pvalue where
  "two_calls = PObj [(''a'', PStr ''={{ $fromAI('k', 'd', 'string', 'x') }}''), (''b'', PStr ''={{ $fromAI('k', 'd', 'string', 'y') }}'')]"

definition two_arguments :: "fromai_argument list" where
  "two_arguments = map (\<lambda>v. \<lparr>fa_key = ''k'', fa_description = Some ''d'', fa_type = ''string'', fa_default = PStr v\<rparr>) [''x'', ''y'']"

lemma two_calls_read: "traverseNodeParameters sample_fa_env two_calls [] = Inr two_arguments"
  by code_simp

lemma getSchema_spec_witness:
  "\<exists>as. getSchema sample_fa_env two_calls = Inr as \<and> distinct (map fa_key as)"
proof -
  have "valid_key ''k''" by code_simp
  then have "\<exists>as. getSchema sample_fa_env two_calls = Inr as"
    using getSchema_spec [OF two_calls_read] by (simp add: two_arguments_def)
  with getSchema_spec [OF two_calls_read] show ?thesis by blast
qed

text \<open>C34. Every argument that is read from parameters has one of the four types, and the default of an
  argument of type string is a text or missing.\<close>

theorem arguments_typed:
  assumes "traverseNodeParameters env params [] = Inr calls" "a \<in> set calls"
  shows "map lower_char (fa_type a) \<in> {''string'', ''number'', ''boolean'', ''json''} \<and>
    (fa_type a = ''string'' \<longrightarrow> fa_default a = PUndef \<or> (\<exists>t. fa_default a = PStr t))"
  using traverse_typed [OF assms(1)] assms(2) by (simp add: list_all_iff typed_argument_def)

lemma arguments_typed_witness:
  "map lower_char (fa_type (two_arguments ! 1)) \<in> {''string'', ''number'', ''boolean'', ''json''} \<and>
   fa_default (two_arguments ! 1) = PStr ''y''"
  using arguments_typed [OF two_calls_read, of "two_arguments ! 1"] by (simp add: two_arguments_def)

section \<open>Where reading goes wrong\<close>

text \<open>A call inside the quotes of a description is read as a call: an accepted expression makes the
  reading of all parameters fail.\<close>

lemma quoted_call_is_read:
  "isFromAIOnlyExpression ''={{ $fromAI('a', 'as in $fromAI(') }}'' \<and>
   extractFromAICalls sample_fa_env ''={{ $fromAI('a', 'as in $fromAI(') }}'' = Inl (UnbalancedParentheses ([CHR 0x27] @ '') }}''))"
  by code_simp

text \<open>The type is compared in any case, but the default is read by the type as it is written.\<close>

lemma type_in_capitals:
  "extractFromAICalls sample_fa_env ''$fromAI(k, d, Boolean, TRUE)'' =
     Inr [\<lparr>fa_key = ''k'', fa_description = Some ''d'', fa_type = ''Boolean'', fa_default = PStr ''TRUE''\<rparr>] \<and>
   extractFromAICalls sample_fa_env ''$fromAI(k, d, boolean, TRUE)'' =
     Inr [\<lparr>fa_key = ''k'', fa_description = Some ''d'', fa_type = ''boolean'', fa_default = PBool True\<rparr>]"
  by code_simp

text \<open>Escapes are removed twice: a backslash in front of a quote is lost.\<close>

lemma unescaped_twice:
  "extractFromAICalls sample_fa_env (buildValueFromOverride (Some (''a'' @ [backslash] @ ''\"b'')) ''K'' ''string'' ''p'' True) =
     Inr [\<lparr>fa_key = ''K'', fa_description = Some ''a\"b'', fa_type = ''string'', fa_default = PUndef\<rparr>]"
  by code_simp

text \<open>A description with the three kinds of quotes comes back with a backslash instead of the single
  quote.\<close>

lemma three_quotes_lost:
  "parseOverrides sample_fa_env (buildValueFromOverride (Some ([backtick] @ ''\"x'' @ [CHR 0x27] @ ''y'')) ''K'' ''string'' ''p'' True) =
     Some (Some ([backtick] @ ''\"x'' @ [backslash] @ ''y''))"
  by code_simp

end
