(* ===== verification/Active_Executions.thy ===== *)
theory Active_Executions
  imports Concurrency
begin

text \<open>
  The executions of one process (\<^verbatim>\<open>packages/cli/src/active-executions.ts\<close>) together with the
  capacity they hold: an execution reserves capacity when it is added, is registered once the
  database has answered, and gives the capacity back when its post-execution promise has settled.

  The registry maps ids to execution objects. The clean-up that is attached to the promise of an object
  keeps the object, which the registry may have replaced meanwhile (a resumed execution), so objects are
  numbered and the registry holds numbers. A promise is pending, resolved or rejected; a settled one
  does not change. An \<^verbatim>\<open>await\<close> splits \<^verbatim>\<open>add\<close> into steps: waiting for capacity, waiting for the
  database, registered. HTTP responses, events and logging are left out.
\<close>

datatype promise = Pending | Resolved | Rejected

definition settle :: "promise \<Rightarrow> promise \<Rightarrow> promise" where
  "settle s p = (if p = Pending then s else p)"

text \<open>\<open>ae_id\<close> and \<open>ae_held\<close> are what the clean-up closes over, \<open>ae_closed\<close> that it has run.\<close>

record active_execution =
  ae_id :: string
  ae_mode :: string
  ae_retryOf :: "string option"
  ae_workflowId :: string
  ae_startedAt :: nat
  ae_status :: string
  ae_attached :: bool
  ae_canceled :: bool
  ae_response :: "nat option"
  ae_post :: promise
  ae_held :: reservation
  ae_closed :: bool

record execution_request =
  er_id :: string
  er_resume :: bool
  er_mode :: string
  er_retryOf :: "string option"
  er_workflowId :: string

datatype add_answer_outcome = Registered | AlreadyResuming | AddFailed

record registry =
  re_control :: control
  re_waiting :: "execution_request list"
  re_admitted :: "execution_request list"
  re_objects :: "active_execution list"
  re_active :: "(string, nat) obj"
  re_promises :: "promise list"
  re_modes :: "(string, string) obj"
  re_outcomes :: "(string \<times> add_answer_outcome) list"
  re_canceled :: "string list"

datatype registry_error = ExecutionNotFound string | CapacityError concurrency_error | NotPossible

definition new_registry :: "control \<Rightarrow> registry" where
  "new_registry c = \<lparr>re_control = c, re_waiting = [], re_admitted = [], re_objects = [], re_active = [],
     re_promises = [], re_modes = [], re_outcomes = [], re_canceled = []\<rparr>"

definition active_has :: "registry \<Rightarrow> string \<Rightarrow> bool" where
  "active_has st executionId \<longleftrightarrow> obj_has (re_active st) executionId"

definition getExecutionOrFail :: "registry \<Rightarrow> string \<Rightarrow> registry_error + nat" where
  "getExecutionOrFail st executionId =
     (case obj_get (re_active st) executionId of None \<Rightarrow> Inl (ExecutionNotFound executionId) | Some n \<Rightarrow> Inr n)"

definition set_object :: "nat \<Rightarrow> active_execution \<Rightarrow> registry \<Rightarrow> registry" where
  "set_object n e st = st\<lparr>re_objects := (re_objects st)[n := e]\<rparr>"

section \<open>Adding\<close>

definition same_queue :: "string \<Rightarrow> string \<Rightarrow> bool" where
  "same_queue m m' \<longleftrightarrow> queue_type m = queue_type m'"

text \<open>The first request with a property, and the list without it.\<close>

fun take_first :: "('a \<Rightarrow> bool) \<Rightarrow> 'a list \<Rightarrow> 'a option \<times> 'a list" where
  "take_first P [] = (None, [])"
| "take_first P (x # xs) = (if P x then (Some x, xs) else (case take_first P xs of (r, ys) \<Rightarrow> (r, x # ys)))"

text \<open>The promise of a waiting request is resolved: its \<^verbatim>\<open>add\<close> goes on.\<close>

definition admit :: "string \<Rightarrow> string option \<Rightarrow> registry \<Rightarrow> registry" where
  "admit mode next_id st =
     (case next_id of
        None \<Rightarrow> st
      | Some i \<Rightarrow> (case take_first (\<lambda>r. er_id r = i \<and> same_queue (er_mode r) mode) (re_waiting st) of
            (None, _) \<Rightarrow> st
          | (Some r, rest) \<Rightarrow> st\<lparr>re_waiting := rest, re_admitted := re_admitted st @ [r]\<rparr>))"

definition capacity_result :: "concurrency_error + 'a \<Rightarrow> registry_error + 'a" where
  "capacity_result r = (case r of Inl e \<Rightarrow> Inl (CapacityError e) | Inr x \<Rightarrow> Inr x)"

text \<open>\<^verbatim>\<open>add\<close> up to the reservation. If that throws nothing is held, and \<^verbatim>\<open>add\<close> throws.\<close>

definition add_reserve :: "execution_request \<Rightarrow> registry \<Rightarrow> registry_error + registry" where
  "add_reserve r st =
     bindE (capacity_result (reserve (re_control st) (er_mode r) (er_id r) None)) (\<lambda>(go, c).
       Inr (if go then st\<lparr>re_control := c, re_admitted := re_admitted st @ [r]\<rparr>
            else st\<lparr>re_control := c, re_waiting := re_waiting st @ [r]\<rparr>))"

text \<open>Giving back what a request or an object holds.\<close>

definition give_back :: "reservation \<Rightarrow> registry \<Rightarrow> registry_error + registry" where
  "give_back held st =
     bindE (capacity_result (release_reservation (re_control st) held)) (\<lambda>(next_id, c, _).
       Inr (case held of None \<Rightarrow> st | Some (mode, _) \<Rightarrow> admit mode next_id (st\<lparr>re_control := c\<rparr>)))"

datatype db_answer = DbDone | DbRefused | DbFailed

text \<open>The rest of \<^verbatim>\<open>add\<close>, once the database has answered: the object that is registered.\<close>

definition register_execution :: "execution_request \<Rightarrow> nat \<Rightarrow> registry \<Rightarrow> registry" where
  "register_execution r now st =
     (let resuming = map_option (\<lambda>n. re_objects st ! n) (obj_get (re_active st) (er_id r));
          e = \<lparr>ae_id = er_id r, ae_mode = er_mode r, ae_retryOf = er_retryOf r, ae_workflowId = er_workflowId r,
               ae_startedAt = (case resuming of None \<Rightarrow> now | Some old \<Rightarrow> ae_startedAt old),
               ae_status = ''running'', ae_attached = False, ae_canceled = False,
               ae_response = (case resuming of None \<Rightarrow> None | Some old \<Rightarrow> ae_response old),
               ae_post = Pending, ae_held = reserved (er_mode r) (er_id r), ae_closed = False\<rparr>
      in st\<lparr>re_objects := re_objects st @ [e],
            re_active := obj_set (er_id r) (length (re_objects st)) (re_active st),
            re_outcomes := re_outcomes st @ [(er_id r, Registered)]\<rparr>)"

definition add_answered :: "nat \<Rightarrow> db_answer \<Rightarrow> nat \<Rightarrow> registry \<Rightarrow> registry_error + registry" where
  "add_answered k answer now st =
     (if k < length (re_admitted st)
      then let r = re_admitted st ! k;
               st1 = st\<lparr>re_admitted := take k (re_admitted st) @ drop (Suc k) (re_admitted st)\<rparr>
           in if answer = DbDone then Inr (register_execution r now st1)
              else if answer = DbRefused \<and> \<not> er_resume r then Inl NotPossible
              else bindE (give_back (reserved (er_mode r) (er_id r)) st1) (\<lambda>st2.
                Inr (st2\<lparr>re_outcomes := re_outcomes st2 @
                  [(er_id r, if answer = DbRefused then AlreadyResuming else AddFailed)]\<rparr>))
      else Inl NotPossible)"

section \<open>Operations on a registered execution\<close>

definition attachWorkflowExecution :: "string \<Rightarrow> registry \<Rightarrow> registry_error + registry" where
  "attachWorkflowExecution executionId st =
     bindE (getExecutionOrFail st executionId) (\<lambda>n.
       Inr (set_object n ((re_objects st ! n)\<lparr>ae_attached := True\<rparr>) st))"

definition attachResponsePromise :: "string \<Rightarrow> registry \<Rightarrow> registry_error + registry" where
  "attachResponsePromise executionId st =
     bindE (getExecutionOrFail st executionId) (\<lambda>n.
       Inr (set_object n ((re_objects st ! n)\<lparr>ae_response := Some (length (re_promises st))\<rparr>)
              (st\<lparr>re_promises := re_promises st @ [Pending]\<rparr>)))"

definition settle_response :: "promise \<Rightarrow> nat option \<Rightarrow> registry \<Rightarrow> registry" where
  "settle_response s p st =
     (case p of None \<Rightarrow> st
      | Some i \<Rightarrow> st\<lparr>re_promises := (re_promises st)[i := settle s (re_promises st ! i)]\<rparr>)"

definition resolveResponsePromise :: "string \<Rightarrow> registry \<Rightarrow> registry" where
  "resolveResponsePromise executionId st =
     (case obj_get (re_active st) executionId of
        None \<Rightarrow> st | Some n \<Rightarrow> settle_response Resolved (ae_response (re_objects st ! n)) st)"

definition resolveExecutionResponsePromise :: "string \<Rightarrow> registry \<Rightarrow> registry" where
  "resolveExecutionResponsePromise executionId st =
     (case obj_get (re_active st) executionId of
        None \<Rightarrow> st
      | Some n \<Rightarrow> if ae_status (re_objects st ! n) \<noteq> ''waiting''
                  then settle_response Resolved (ae_response (re_objects st ! n)) st else st)"

definition forget :: "string \<Rightarrow> registry \<Rightarrow> registry" where
  "forget executionId st = st\<lparr>re_active := obj_delete executionId (re_active st),
     re_modes := obj_delete executionId (re_modes st)\<rparr>"

definition stopExecution :: "string \<Rightarrow> registry \<Rightarrow> registry" where
  "stopExecution executionId st =
     (case obj_get (re_active st) executionId of
        None \<Rightarrow> st
      | Some n \<Rightarrow>
          (let e = re_objects st ! n; st1 = settle_response Rejected (ae_response e) st
           in if ae_status e = ''waiting'' then forget executionId st1
              else set_object n (e\<lparr>ae_canceled := ae_canceled e \<or> ae_attached e, ae_post := settle Rejected (ae_post e)\<rparr>) st1))"

definition finalizeExecution :: "string \<Rightarrow> registry \<Rightarrow> registry" where
  "finalizeExecution executionId st =
     (case obj_get (re_active st) executionId of
        None \<Rightarrow> st
      | Some n \<Rightarrow> set_object n ((re_objects st ! n)\<lparr>ae_post := settle Resolved (ae_post (re_objects st ! n))\<rparr>) st)"

text \<open>The clean-up of an object, which runs after its promise has settled.\<close>

definition clean_up :: "nat \<Rightarrow> registry \<Rightarrow> registry_error + registry" where
  "clean_up n st =
     (if n < length (re_objects st) \<and> ae_post (re_objects st ! n) \<noteq> Pending \<and> \<not> ae_closed (re_objects st ! n)
      then let e = re_objects st ! n in
           bindE (give_back (ae_held e) (set_object n (e\<lparr>ae_held := None, ae_closed := True\<rparr>) st)) (\<lambda>st1.
             Inr (if ae_status e = ''waiting''
                  then set_object n ((re_objects st1 ! n)\<lparr>ae_attached := False\<rparr>) st1
                  else forget (ae_id e) st1))
      else Inl NotPossible)"

definition setStatus :: "string \<Rightarrow> string \<Rightarrow> registry \<Rightarrow> registry_error + registry" where
  "setStatus executionId status st =
     bindE (getExecutionOrFail st executionId) (\<lambda>n.
       Inr (set_object n ((re_objects st ! n)\<lparr>ae_status := status\<rparr>) st))"

text \<open>The one caller of \<open>setStatus\<close>: \<^verbatim>\<open>putExecutionToWait\<close> of a node's context.\<close>

definition putExecutionToWait :: "string \<Rightarrow> registry \<Rightarrow> registry_error + registry" where
  "putExecutionToWait executionId st = setStatus executionId ''waiting'' st"

definition getStatus :: "string \<Rightarrow> registry \<Rightarrow> registry_error + string" where
  "getStatus executionId st =
     bindE (getExecutionOrFail st executionId) (\<lambda>n. Inr (ae_status (re_objects st ! n)))"

definition setResponseMode :: "string \<Rightarrow> string \<Rightarrow> registry \<Rightarrow> registry" where
  "setResponseMode executionId responseMode st = st\<lparr>re_modes := obj_set executionId responseMode (re_modes st)\<rparr>"

definition getResponseMode :: "string \<Rightarrow> registry \<Rightarrow> string option" where
  "getResponseMode executionId st = obj_get (re_modes st) executionId"

record execution_summary =
  es_id :: string
  es_retryOf :: "string option"
  es_startedAt :: nat
  es_mode :: string
  es_workflowId :: string
  es_status :: string

definition getActiveExecutions :: "registry \<Rightarrow> execution_summary list" where
  "getActiveExecutions st =
     map (\<lambda>(i, n). let e = re_objects st ! n in
            \<lparr>es_id = i, es_retryOf = ae_retryOf e, es_startedAt = ae_startedAt e, es_mode = ae_mode e,
             es_workflowId = ae_workflowId e, es_status = ae_status e\<rparr>) (re_active st)"

text \<open>\<^verbatim>\<open>ExecutionService.stopInRegularMode\<close>: an execution that waits for capacity leaves the queue
  (its \<^verbatim>\<open>add\<close> never goes on), another one is stopped.\<close>

definition stopInRegularMode :: "string \<Rightarrow> string \<Rightarrow> registry \<Rightarrow> registry_error + registry" where
  "stopInRegularMode executionId mode st =
     (if control_has (re_control st) executionId
      then bindE (capacity_result (control_remove (re_control st) mode executionId)) (\<lambda>(next_id, c).
        Inr (admit mode next_id (st\<lparr>re_control := c,
               re_waiting := snd (take_first (\<lambda>r. er_id r = executionId \<and> same_queue (er_mode r) mode) (re_waiting st))\<rparr>)))
      else Inr (stopExecution executionId st))"

section \<open>Shutdown\<close>

text \<open>One execution of the loop that stops or forgets: the ids to cancel and the registry.\<close>

definition shut_one :: "bool \<Rightarrow> string \<Rightarrow> string list \<times> registry \<Rightarrow> string list \<times> registry" where
  "shut_one cancel executionId acc =
     (case acc of (toCancel, st) \<Rightarrow>
        (case obj_get (re_active st) executionId of
           None \<Rightarrow> acc
         | Some n \<Rightarrow>
             if cancel then (toCancel @ [executionId], stopExecution executionId st)
             else if ae_status (re_objects st ! n) \<in> {''waiting'', ''new''}
             then (toCancel, st\<lparr>re_active := obj_delete executionId (re_active st)\<rparr>)
             else acc))"

definition admit_any :: "string \<Rightarrow> registry \<Rightarrow> registry" where
  "admit_any i st =
     (case take_first (\<lambda>r. er_id r = i) (re_waiting st) of
        (None, _) \<Rightarrow> st
      | (Some r, rest) \<Rightarrow> st\<lparr>re_waiting := rest, re_admitted := re_admitted st @ [r]\<rparr>)"

text \<open>\<^verbatim>\<open>shutdown\<close> up to the loop that waits until the registry is empty.\<close>

definition active_shutdown :: "bool \<Rightarrow> bool \<Rightarrow> registry \<Rightarrow> registry" where
  "active_shutdown regular cancelAll st =
     (let st1 = (if regular then st\<lparr>re_control := disable (re_control st)\<rparr> else st);
          (toCancel, st2) = fold (shut_one (regular \<and> cancelAll)) (obj_keys (re_active st1)) ([], st1);
          (released, canceled, c) = removeAll (re_control st2) toCancel
      in fold admit_any released (st2\<lparr>re_control := c, re_canceled := re_canceled st2 @ canceled\<rparr>))"

definition shutdown_done :: "registry \<Rightarrow> bool" where
  "shutdown_done st \<longleftrightarrow> obj_keys (re_active st) = []"

section \<open>Runs\<close>

datatype registry_event =
    Add execution_request | Answer nat db_answer nat | Attach string | AttachResponse string | Respond string
  | RespondForm string | PutToWait string | SetMode string string | StopIt string string | Finalize string | CleanUp nat

definition registry_step :: "registry_event \<Rightarrow> registry \<Rightarrow> registry_error + registry" where
  "registry_step ev st =
     (case ev of
        Add r \<Rightarrow> add_reserve r st
      | Answer k answer now \<Rightarrow> add_answered k answer now st
      | Attach i \<Rightarrow> attachWorkflowExecution i st
      | AttachResponse i \<Rightarrow> attachResponsePromise i st
      | Respond i \<Rightarrow> Inr (resolveResponsePromise i st)
      | RespondForm i \<Rightarrow> Inr (resolveExecutionResponsePromise i st)
      | PutToWait i \<Rightarrow> putExecutionToWait i st
      | SetMode i m \<Rightarrow> Inr (setResponseMode i m st)
      | StopIt i mode \<Rightarrow> stopInRegularMode i mode st
      | Finalize i \<Rightarrow> Inr (finalizeExecution i st)
      | CleanUp n \<Rightarrow> clean_up n st)"

text \<open>What the process can get to: a call that throws leaves the registry as it was.\<close>

inductive registered :: "registry \<Rightarrow> registry \<Rightarrow> bool" for st0 where
  registered_start: "registered st0 st0"
| registered_step: "registered st0 st \<Longrightarrow> registry_step ev st = Inr st' \<Longrightarrow> registered st0 st'"

end
