(* ===== verification/Active_Facts.thy ===== *)
theory Active_Facts
  imports Active_Executions Concurrency_Facts
begin

text \<open>
  The laws of \<open>Active_Executions\<close>: in every state that calls reach, the capacity of a queue is
  the limit less the executions that hold capacity or wait for it; a stop between the status and the end of an
  execution loses its capacity for good; a shutdown that cancels everything comes to an end.
\<close>

section \<open>Requests and queues\<close>

definition in_queue :: "string \<Rightarrow> string \<Rightarrow> bool" where
  "in_queue ty mode \<longleftrightarrow> queue_type mode = Inr (Some ty)"

lemma in_queue_unique: "in_queue ty m \<Longrightarrow> in_queue ty' m \<Longrightarrow> ty' = ty"
  by (simp add: in_queue_def)

lemma same_queue_in: "in_queue ty m \<Longrightarrow> same_queue m' m \<longleftrightarrow> in_queue ty m'"
  by (auto simp: same_queue_def in_queue_def)

definition waits :: "string \<Rightarrow> registry \<Rightarrow> string list" where
  "waits ty st = map er_id (filter (\<lambda>r. in_queue ty (er_mode r)) (re_waiting st))"

definition holds :: "string \<Rightarrow> active_execution \<Rightarrow> bool" where
  "holds ty e \<longleftrightarrow> (case ae_held e of None \<Rightarrow> False | Some (mode, _) \<Rightarrow> in_queue ty mode)"

definition holders :: "string \<Rightarrow> registry \<Rightarrow> nat" where
  "holders ty st = length (filter (\<lambda>r. in_queue ty (er_mode r)) (re_admitted st)) + length (filter (holds ty) (re_objects st))"

text \<open>The account of a queue, with the limit it adds up to; nobody waits while capacity is left.\<close>

definition account :: "int \<Rightarrow> string \<Rightarrow> registry \<Rightarrow> bool" where
  "account limit ty st \<longleftrightarrow> cc_enabled (re_control st) \<and>
     (\<exists>q. obj_get (cc_queues (re_control st)) ty = Some q \<and> cq_queue q = waits ty st \<and>
        cq_capacity q + int (holders ty st) + int (length (waits ty st)) = limit) \<and>
     (waits ty st \<noteq> [] \<longrightarrow> limit \<le> int (holders ty st))"

lemma take_first_remove:
  "map er_id (filter Q (snd (take_first (\<lambda>r. er_id r = i \<and> Q r) xs))) = remove1 i (map er_id (filter Q xs))"
  by (induction xs) (auto split: prod.split)

lemma take_first_None: "fst (take_first P xs) = None \<longleftrightarrow> (\<forall>x \<in> set xs. \<not> P x)"
  by (induction xs) (auto split: prod.split)

lemma take_first_Some: "fst (take_first P xs) = Some r \<Longrightarrow> P r"
  by (induction xs) (auto split: prod.splits if_splits)

lemma take_first_filter: "(\<And>x. P x \<Longrightarrow> \<not> R x) \<Longrightarrow> filter R (snd (take_first P xs)) = filter R xs"
  by (induction xs) (auto split: prod.split)

lemma take_first_queue:
  assumes "take_first (\<lambda>r. er_id r = i \<and> Q r) xs = (found, ys)"
  shows "map er_id (filter Q ys) = remove1 i (map er_id (filter Q xs))"
    and "found = None \<longleftrightarrow> i \<notin> set (map er_id (filter Q xs))"
    and "found = Some r \<Longrightarrow> Q r \<and> er_id r = i"
    and "(\<And>x. Q x \<Longrightarrow> \<not> P x) \<Longrightarrow> filter P ys = filter P xs"
  using take_first_remove [of Q i xs] take_first_None [of "\<lambda>r. er_id r = i \<and> Q r" xs]
    take_first_Some [of "\<lambda>r. er_id r = i \<and> Q r" xs r] take_first_filter [of "\<lambda>r. er_id r = i \<and> Q r" P xs] assms
  by auto

lemma queue_of_put: "obj_get (cc_queues (put_queue ty q c)) ty = Some q" "cc_enabled (put_queue ty q c) = cc_enabled c"
  by (simp_all add: put_queue_def obj_set_def update_conv')

lemma admit_other:
  assumes "\<not> in_queue ty m" "in_queue ty' m"
  shows "waits ty (admit m nx st) = waits ty st" "holders ty (admit m nx st) = holders ty st"
proof -
  have P: "\<And>x. in_queue ty' (er_mode x) \<Longrightarrow> \<not> in_queue ty (er_mode x)"
    using assms by (auto simp: in_queue_def)
  have "waits ty (admit m nx st) = waits ty st \<and> holders ty (admit m nx st) = holders ty st"
  proof (cases nx)
    case (Some i)
    obtain found rest where t: "take_first (\<lambda>r. er_id r = i \<and> in_queue ty' (er_mode r)) (re_waiting st) = (found, rest)" by force
    note f = take_first_queue(3,4) [OF t]
    show ?thesis
    proof (cases found)
      case None
      with Some t show ?thesis by (simp add: admit_def same_queue_in [OF assms(2)])
    next
      case (Some r)
      with f(1) P have "\<not> in_queue ty (er_mode r)" by blast
      with Some \<open>nx = Some i\<close> t f(2) [of "\<lambda>r. in_queue ty (er_mode r)", OF P] show ?thesis
        by (simp add: admit_def same_queue_in [OF assms(2)] waits_def holders_def)
    qed
  qed (simp add: admit_def)
  then show "waits ty (admit m nx st) = waits ty st" "holders ty (admit m nx st) = holders ty st" by blast+
qed

lemma admit_same:
  assumes "in_queue ty m" "i \<in> set (waits ty st)"
  shows "waits ty (admit m (Some i) st) = remove1 i (waits ty st)" "holders ty (admit m (Some i) st) = Suc (holders ty st)"
proof -
  obtain found rest where t: "take_first (\<lambda>r. er_id r = i \<and> in_queue ty (er_mode r)) (re_waiting st) = (found, rest)" by force
  from take_first_queue(2) [OF t] assms(2) obtain r where r: "found = Some r" by (cases found) (auto simp: waits_def)
  with t take_first_queue(1) [OF t] take_first_queue(3) [OF t r] show "waits ty (admit m (Some i) st) = remove1 i (waits ty st)"
    "holders ty (admit m (Some i) st) = Suc (holders ty st)"
    by (simp_all add: admit_def same_queue_in [OF assms(1)] waits_def holders_def)
qed

lemma admit_frame:
  "re_control (admit m nx st) = re_control st" "re_objects (admit m nx st) = re_objects st"
  "re_active (admit m nx st) = re_active st" "re_modes (admit m nx st) = re_modes st"
  by (auto simp: admit_def split: option.splits prod.splits)

text \<open>Letting the head of a queue go after its capacity has grown.\<close>

lemma resolveNext_account:
  assumes ty: "in_queue ty m" and en: "cc_enabled (re_control st)"
    and run: "resolveNext q = (nx, q')" and wait: "cq_queue q = waits ty st"
    and sum: "cq_capacity q + int (holders ty st) + int (length (waits ty st)) = limit"
    and full: "waits ty st \<noteq> [] \<longrightarrow> limit \<le> int (holders ty st) + 1"
    and ctl: "re_control st = put_queue ty q' c"
  shows "account limit ty (admit m nx st)"
proof (cases "cq_queue q")
  case Nil
  with run wait have "nx = None" "q' = q" "waits ty st = []" by (simp_all add: resolveNext_def)
  with assms show ?thesis by (simp add: account_def admit_def queue_of_put)
next
  case (Cons i rest)
  with run have nx: "nx = Some i" "q' = q\<lparr>cq_queue := rest\<rparr>" by (simp_all add: resolveNext_def)
  from Cons wait have w: "waits ty st = i # rest" by simp
  then have i: "i \<in> set (waits ty st)" "remove1 i (waits ty st) = rest" "length (waits ty st) = Suc (length rest)"
    by simp_all
  with nx admit_same [OF ty i(1)] en sum full w ctl show ?thesis
    by (simp add: account_def admit_frame queue_of_put)
qed

lemma account_other_queue:
  assumes "account limit ty st" "ty' \<noteq> ty"
  shows "account limit ty (st\<lparr>re_control := put_queue ty' q (re_control st)\<rparr>)"
  using assms by (auto simp: account_def put_queue_def obj_set_def update_conv' waits_def holders_def)

lemma account_admit_other: "account limit ty st \<Longrightarrow> \<not> in_queue ty m \<Longrightarrow> in_queue ty' m \<Longrightarrow> account limit ty (admit m nx st)"
  by (simp add: account_def admit_other admit_frame)

text \<open>What is given back is already missing from the holders.\<close>

lemma give_back_account:
  assumes acc: "account (if in_queue ty mode then limit - 1 else limit) ty st"
    and run: "give_back (Some (mode, i)) st = Inr st'"
  shows "account limit ty st'"
proof -
  have en: "cc_enabled (re_control st)" using acc by (simp add: account_def)
  from run obtain nx c where rel: "control_release (re_control st) mode = Inr (nx, c)"
    and st': "st' = admit mode nx (st\<lparr>re_control := c\<rparr>)"
    by (auto simp: give_back_def capacity_result_def release_reservation_def bindE_Inr_iff split: sum.splits)
  from rel en obtain found where found: "getQueue (re_control st) mode = Inr found"
    by (auto simp: control_release_def bindE_Inr_iff)
  then obtain oty where oty: "queue_type mode = Inr oty" by (auto simp: getQueue_def bindE_Inr_iff)
  show ?thesis
  proof (cases found)
    case None
    with rel en found have same: "nx = None" "c = re_control st" by (simp_all add: control_release_def)
    have "\<not> in_queue ty mode"
      using None found acc by (auto simp: getQueue_def account_def in_queue_def)
    with acc same st' show ?thesis by (simp add: admit_def)
  next
    case (Some p)
    then obtain ty' q where p: "found = Some (ty', q)" by (cases p) simp
    with found oty have ty': "in_queue ty' mode" "obj_get (cc_queues (re_control st)) ty' = Some q"
      by (auto simp: getQueue_def in_queue_def split: option.splits)
    from p rel en found have c: "cq_dequeue q = (nx, snd (cq_dequeue q))" "c = put_queue ty' (snd (cq_dequeue q)) (re_control st)"
      by (auto simp: control_release_def split: prod.splits)
    show ?thesis
    proof (cases "ty' = ty")
      case True
      have "account limit ty (admit mode nx (st\<lparr>re_control := c\<rparr>))"
        by (rule resolveNext_account [where q = "q\<lparr>cq_capacity := cq_capacity q + 1\<rparr>" and q' = "snd (cq_dequeue q)" and c = "re_control st"])
          (use True ty' c acc en in \<open>auto simp: cq_dequeue_def account_def queue_of_put waits_def holders_def\<close>)
      with st' show ?thesis by simp
    next
      case False
      with ty'(1) have "\<not> in_queue ty mode" using in_queue_unique by blast
      with acc False ty'(1) st' c(2) show ?thesis
        by (simp add: account_admit_other account_other_queue)
    qed
  qed
qed

section \<open>Every call keeps the account\<close>

definition held_in :: "string \<Rightarrow> reservation \<Rightarrow> bool" where
  "held_in ty h \<longleftrightarrow> (case h of None \<Rightarrow> False | Some (mode, _) \<Rightarrow> in_queue ty mode)"

lemma filter_holds: "length (filter (holds ty) es) = length (filter (held_in ty) (map ae_held es))"
  by (induction es) (auto simp: holds_def held_in_def)

text \<open>The parts of the registry the account depends on.\<close>

definition accounts :: "registry \<Rightarrow> control \<times> execution_request list \<times> execution_request list \<times> reservation list" where
  "accounts st = (re_control st, re_waiting st, re_admitted st, map ae_held (re_objects st))"

lemma account_same: "accounts st' = accounts st \<Longrightarrow> account limit ty st' = account limit ty st"
  by (simp add: accounts_def account_def waits_def holders_def filter_holds)

lemma held_update:
  assumes "ae_held e = ae_held (xs ! n)"
  shows "map ae_held (xs[n := e]) = map ae_held xs"
proof (cases "n < length xs")
  case True
  with assms show ?thesis by (simp add: map_update list_update_same_conv)
qed (simp add: list_update_beyond)

lemma settle_response_frame:
  "re_control (settle_response s p st) = re_control st" "re_waiting (settle_response s p st) = re_waiting st"
  "re_admitted (settle_response s p st) = re_admitted st" "re_objects (settle_response s p st) = re_objects st"
  "re_active (settle_response s p st) = re_active st" "re_canceled (settle_response s p st) = re_canceled st" "re_modes (settle_response s p st) = re_modes st"
  by (simp_all add: settle_response_def split: option.split)

text \<open>The calls that touch neither the service nor what is held.\<close>

lemma accounts_plain:
  "attachWorkflowExecution i st = Inr st' \<Longrightarrow> accounts st' = accounts st"
  "attachResponsePromise i st = Inr st' \<Longrightarrow> accounts st' = accounts st"
  "putExecutionToWait i st = Inr st' \<Longrightarrow> accounts st' = accounts st"
  "accounts (setResponseMode i m st) = accounts st"
  "accounts (resolveResponsePromise i st) = accounts st"
  "accounts (resolveExecutionResponsePromise i st) = accounts st"
  "accounts (stopExecution i st) = accounts st"
  "accounts (finalizeExecution i st) = accounts st"
  by (auto simp: accounts_def attachWorkflowExecution_def attachResponsePromise_def putExecutionToWait_def setStatus_def setResponseMode_def
      resolveResponsePromise_def resolveExecutionResponsePromise_def stopExecution_def finalizeExecution_def
      bindE_Inr_iff settle_response_frame set_object_def forget_def held_update Let_def split: option.split)

lemma add_reserve_account:
  assumes acc: "account limit ty st" and run: "add_reserve r st = Inr st'"
  shows "account limit ty st'"
proof -
  have en: "cc_enabled (re_control st)" using acc by (simp add: account_def)
  from run obtain go c where res: "throttle (re_control st) (er_mode r) (er_id r) = Inr (go, c)"
    and st': "st' = (if go then st\<lparr>re_control := c, re_admitted := re_admitted st @ [r]\<rparr>
            else st\<lparr>re_control := c, re_waiting := re_waiting st @ [r]\<rparr>)"
    by (auto simp: add_reserve_def capacity_result_def reserve_def bindE_Inr_iff split: sum.splits)
  from res en obtain found where found: "getQueue (re_control st) (er_mode r) = Inr found"
    by (auto simp: throttle_def bindE_Inr_iff)
  then obtain oty where oty: "queue_type (er_mode r) = Inr oty" by (auto simp: getQueue_def bindE_Inr_iff)
  show ?thesis
  proof (cases found)
    case None
    with res en found have "go" "c = re_control st" by (simp_all add: throttle_def)
    moreover have "\<not> in_queue ty (er_mode r)"
      using None found acc by (auto simp: getQueue_def account_def in_queue_def)
    ultimately show ?thesis using acc st' by (simp add: account_def waits_def holders_def)
  next
    case (Some p)
    then obtain ty' q where p: "found = Some (ty', q)" by (cases p) simp
    with found oty have ty': "in_queue ty' (er_mode r)" "obj_get (cc_queues (re_control st)) ty' = Some q"
      by (auto simp: getQueue_def in_queue_def split: option.splits)
    from p res en found have c: "cq_enqueue (er_id r) q = (go, snd (cq_enqueue (er_id r) q))"
      "c = put_queue ty' (snd (cq_enqueue (er_id r) q)) (re_control st)"
      by (auto simp: throttle_def split: prod.splits)
    show ?thesis
    proof (cases "ty' = ty")
      case True
      with c ty' acc en st' show ?thesis
        by (auto simp: cq_enqueue_def account_def queue_of_put waits_def holders_def Let_def split: if_splits)
    next
      case False
      with ty'(1) have "\<not> in_queue ty (er_mode r)" using in_queue_unique by blast
      with account_other_queue [OF acc False, of "snd (cq_enqueue (er_id r) q)"] st' c(2) show ?thesis
        by (simp add: account_def waits_def holders_def)
    qed
  qed
qed

lemma filter_without:
  assumes "k < length xs"
  shows "length (filter P xs) = length (filter P (take k xs @ drop (Suc k) xs)) + (if P (xs ! k) then 1 else 0)"
  by (subst (1) id_take_nth_drop [OF assms]) simp

lemma add_answered_account:
  assumes acc: "account limit ty st" and run: "add_answered k answer now st = Inr st'"
  shows "account limit ty st'"
proof -
  let ?r = "re_admitted st ! k"
  let ?st1 = "st\<lparr>re_admitted := take k (re_admitted st) @ drop (Suc k) (re_admitted st)\<rparr>"
  from run have k: "k < length (re_admitted st)" by (auto simp: add_answered_def split: if_splits)
  have h: "holders ty st = holders ty ?st1 + (if in_queue ty (er_mode ?r) then 1 else 0)"
    using filter_without [OF k, of "\<lambda>r. in_queue ty (er_mode r)"] by (simp add: holders_def)
  have acc1: "account (if in_queue ty (er_mode ?r) then limit - 1 else limit) ty ?st1"
    using acc h by (auto simp: account_def waits_def)
  show ?thesis
  proof (cases "answer = DbDone")
    case True
    with run k have "st' = register_execution ?r now ?st1" by (simp add: add_answered_def Let_def)
    then have "holders ty st' = holders ty ?st1 + (if in_queue ty (er_mode ?r) then 1 else 0)"
      "waits ty st' = waits ty st" "re_control st' = re_control st"
      by (simp_all add: register_execution_def holders_def waits_def Let_def holds_def reserved_def)
    with acc h show ?thesis by (simp add: account_def)
  next
    case False
    with run k obtain st2 where g: "give_back (reserved (er_mode ?r) (er_id ?r)) ?st1 = Inr st2"
      and st': "accounts st' = accounts st2"
      by (auto simp: add_answered_def Let_def bindE_Inr_iff accounts_def split: if_splits)
    from give_back_account [OF acc1 g [unfolded reserved_def]] account_same [OF st'] show ?thesis by simp
  qed
qed

lemma clean_up_account:
  assumes acc: "account limit ty st" and run: "clean_up n st = Inr st'"
  shows "account limit ty st'"
proof -
  let ?e = "re_objects st ! n" and ?st1 = "set_object n ((re_objects st ! n)\<lparr>ae_held := None, ae_closed := True\<rparr>) st"
  from run have n: "n < length (re_objects st)" by (auto simp: clean_up_def split: if_splits)
  from run obtain st2 where g: "give_back (ae_held ?e) ?st1 = Inr st2" and st': "accounts st' = accounts st2"
    by (auto simp: clean_up_def Let_def bindE_Inr_iff accounts_def set_object_def forget_def held_update split: if_splits)
  have "length (filter (holds ty) (re_objects st)) =
      length (filter (holds ty) ((re_objects st)[n := ?e\<lparr>ae_held := None, ae_closed := True\<rparr>])) + (if holds ty ?e then 1 else 0)"
    by (subst id_take_nth_drop [OF n], subst upd_conv_take_nth_drop [OF n]) (simp add: holds_def)
  then have h: "holders ty st = holders ty ?st1 + (if holds ty ?e then 1 else 0)"
    by (simp add: holders_def set_object_def)
  have acc1: "account (if holds ty ?e then limit - 1 else limit) ty ?st1"
    using acc h by (auto simp: account_def waits_def set_object_def)
  have "account limit ty st2"
  proof (cases "ae_held ?e")
    case None
    with g acc1 show ?thesis by (auto simp: give_back_def capacity_result_def release_reservation_def holds_def)
  next
    case (Some p)
    then obtain mode i where p: "ae_held ?e = Some (mode, i)" by (cases p) simp
    with acc1 have "account (if in_queue ty mode then limit - 1 else limit) ty ?st1" by (simp add: holds_def)
    from give_back_account [OF this g [unfolded p]] show ?thesis .
  qed
  with account_same [OF st'] show ?thesis by simp
qed

lemma stop_regular_account:
  assumes acc: "account limit ty st" and run: "stopInRegularMode i mode st = Inr st'"
  shows "account limit ty st'"
proof (cases "control_has (re_control st) i")
  case False
  with run have "accounts st' = accounts st" by (auto simp: stopInRegularMode_def accounts_plain)
  from account_same [OF this] acc show ?thesis by simp
next
  case True
  have en: "cc_enabled (re_control st)" using acc by (simp add: account_def)
  let ?ws = "snd (take_first (\<lambda>r. er_id r = i \<and> same_queue (er_mode r) mode) (re_waiting st))"
  from True run obtain nx c where rem: "control_remove (re_control st) mode i = Inr (nx, c)"
    and st': "st' = admit mode nx (st\<lparr>re_control := c, re_waiting := ?ws\<rparr>)"
    by (auto simp: stopInRegularMode_def capacity_result_def bindE_Inr_iff split: sum.splits)
  from rem en obtain found where found: "getQueue (re_control st) mode = Inr found"
    by (auto simp: control_remove_def bindE_Inr_iff)
  then obtain oty where oty: "queue_type mode = Inr oty" by (auto simp: getQueue_def bindE_Inr_iff)
  show ?thesis
  proof (cases "in_queue ty mode")
    case True
    obtain q where q: "obj_get (cc_queues (re_control st)) ty = Some q" "cq_queue q = waits ty st"
      "cq_capacity q + int (holders ty st) + int (length (waits ty st)) = limit"
      "waits ty st \<noteq> [] \<longrightarrow> limit \<le> int (holders ty st)"
      using acc by (auto simp: account_def)
    from q(1) True rem en have c: "cq_remove i q = (nx, snd (cq_remove i q))"
      "c = put_queue ty (snd (cq_remove i q)) (re_control st)"
      by (auto simp: control_remove_def getQueue_def in_queue_def split: prod.splits)
    let ?st1 = "st\<lparr>re_control := c, re_waiting := ?ws\<rparr>"
    have ws: "waits ty ?st1 = remove1 i (waits ty st)"
      using take_first_remove [of "\<lambda>r. in_queue ty (er_mode r)" i "re_waiting st"]
      by (simp add: waits_def same_queue_in [OF True])
    have hs: "holders ty ?st1 = holders ty st" by (simp add: holders_def)
    show ?thesis
    proof (cases "i \<in> set (waits ty st)")
      case waiting: True
      then have len: "length (waits ty st) = Suc (length (remove1 i (waits ty st)))" by (rule remove1_length)
      have "account limit ty (admit mode nx ?st1)"
        by (rule resolveNext_account [where q = "q\<lparr>cq_queue := remove1 i (cq_queue q), cq_capacity := cq_capacity q + 1\<rparr>"
              and q' = "snd (cq_remove i q)" and c = "re_control st", OF True])
          (use waiting q c en ws hs len in \<open>auto simp: cq_remove_def queue_of_put\<close>)
      with st' show ?thesis by simp
    next
      case False
      then have "nx = None" "snd (cq_remove i q) = q" using c(1) q(2) by (simp_all add: cq_remove_def)
      with False st' q c(2) en ws hs show ?thesis by (simp add: admit_def account_def queue_of_put remove1_idem)
    qed
  next
    case False
    then have "filter (\<lambda>r. in_queue ty (er_mode r)) ?ws = filter (\<lambda>r. in_queue ty (er_mode r)) (re_waiting st)"
      by (intro take_first_filter) (use oty in \<open>auto simp: same_queue_def in_queue_def\<close>)
    then have acc1: "account limit ty (st\<lparr>re_waiting := ?ws\<rparr>)"
      using acc by (simp add: account_def waits_def holders_def)
    show ?thesis
    proof (cases found)
      case None
      with rem en found have "nx = None" "c = re_control st" by (simp_all add: control_remove_def)
      with acc1 st' show ?thesis by (simp add: admit_def)
    next
      case (Some p)
      then obtain ty' q where p: "found = Some (ty', q)" by (cases p) simp
      with found oty have ty': "in_queue ty' mode" by (auto simp: getQueue_def in_queue_def split: option.splits)
      from p rem en found have "c = put_queue ty' (snd (cq_remove i q)) (re_control st)"
        by (auto simp: control_remove_def split: prod.splits)
      moreover have "ty' \<noteq> ty" using False ty' by auto
      ultimately have acc2: "account limit ty (st\<lparr>re_waiting := ?ws, re_control := c\<rparr>)"
        using account_other_queue [OF acc1, of ty'] by simp
      have eq: "st\<lparr>re_control := c, re_waiting := ?ws\<rparr> = st\<lparr>re_waiting := ?ws, re_control := c\<rparr>" by simp
      show ?thesis unfolding st' eq by (rule account_admit_other [OF acc2 False ty'])
    qed
  qed
qed

lemma step_account:
  assumes "account limit ty st" "registry_step ev st = Inr st'"
  shows "account limit ty st'"
  using assms by (cases ev) (auto simp: registry_step_def account_same [OF accounts_plain(1)] account_same [OF accounts_plain(2)]
      account_same [OF accounts_plain(3)] account_same [OF accounts_plain(4)] account_same [OF accounts_plain(5)]
      account_same [OF accounts_plain(6)] account_same [OF accounts_plain(8)]
      intro: add_reserve_account add_answered_account clean_up_account stop_regular_account)

lemma registered_account: "registered st0 st \<Longrightarrow> account limit ty st0 \<Longrightarrow> account limit ty st"
  by (induction rule: registered.induct) (auto intro: step_account)

section \<open>The registry\<close>

text \<open>Ids are registered once, with an object that was made for them.\<close>

definition registry_ok :: "registry \<Rightarrow> bool" where
  "registry_ok st \<longleftrightarrow> distinct (obj_keys (re_active st)) \<and>
     (\<forall>(i, n) \<in> set (re_active st). n < length (re_objects st) \<and> ae_id (re_objects st ! n) = i)"

text \<open>Steps that keep the ids of objects and register nothing new.\<close>

definition narrows :: "registry \<Rightarrow> registry \<Rightarrow> bool" where
  "narrows st st' \<longleftrightarrow> map ae_id (re_objects st') = map ae_id (re_objects st) \<and>
     set (re_active st') \<subseteq> set (re_active st) \<and> (distinct (obj_keys (re_active st)) \<longrightarrow> distinct (obj_keys (re_active st')))"

lemma narrows_ok:
  assumes "registry_ok st" "narrows st st'"
  shows "registry_ok st'"
proof -
  have len: "length (re_objects st') = length (re_objects st)"
  proof -
    have "map ae_id (re_objects st') = map ae_id (re_objects st)" using assms(2) by (simp add: narrows_def)
    then show ?thesis by (rule map_eq_imp_length_eq)
  qed
  have "ae_id (re_objects st' ! n) = ae_id (re_objects st ! n)" if "n < length (re_objects st)" for n
  proof -
    have "map ae_id (re_objects st') ! n = map ae_id (re_objects st) ! n" using assms(2) by (simp add: narrows_def)
    with that len show ?thesis by simp
  qed
  note ids = this
  have "n < length (re_objects st') \<and> ae_id (re_objects st' ! n) = i" if "(i, n) \<in> set (re_active st')" for i n
  proof -
    have "(i, n) \<in> set (re_active st)" using that assms(2) unfolding narrows_def by blast
    then have "n < length (re_objects st) \<and> ae_id (re_objects st ! n) = i" using assms(1) unfolding registry_ok_def by blast
    with ids len show ?thesis by simp
  qed
  moreover have "distinct (obj_keys (re_active st'))" using assms by (simp add: registry_ok_def narrows_def)
  ultimately show ?thesis unfolding registry_ok_def by blast
qed

lemma ids_update: "ae_id e = ae_id (xs ! n) \<Longrightarrow> map ae_id (xs[n := e]) = map ae_id xs"
proof (cases "n < length xs")
  case True
  then show "ae_id e = ae_id (xs ! n) \<Longrightarrow> map ae_id (xs[n := e]) = map ae_id xs"
    by (simp add: map_update list_update_same_conv)
qed (simp add: list_update_beyond)

lemma narrows_refl: "re_objects st' = re_objects st \<Longrightarrow> re_active st' = re_active st \<Longrightarrow> narrows st st'"
  by (simp add: narrows_def)

lemma narrows_trans: "narrows st st1 \<Longrightarrow> narrows st1 st2 \<Longrightarrow> narrows st st2"
  by (auto simp: narrows_def)

lemma narrows_object:
  "re_objects t = re_objects st \<Longrightarrow> re_active t = re_active st \<Longrightarrow> ae_id e = ae_id (re_objects st ! n) \<Longrightarrow>
    narrows st (set_object n e t)"
  by (simp add: narrows_def set_object_def ids_update)

lemma narrows_forget: "narrows st (forget i st)" "narrows st (st\<lparr>re_active := obj_delete i (re_active st)\<rparr>)"
  by (auto simp: narrows_def forget_def obj_delete_def distinct_map_filter)

lemma narrows_stop: "narrows st (stopExecution i st)"
proof (cases "obj_get (re_active st) i")
  case (Some n)
  let ?e = "re_objects st ! n"
  have r: "narrows st (settle_response Rejected (ae_response ?e) st)"
    by (rule narrows_refl) (simp_all add: settle_response_frame)
  show ?thesis
  proof (cases "ae_status ?e = ''waiting''")
    case True
    with Some narrows_trans [OF r narrows_forget(1)] show ?thesis by (simp add: stopExecution_def Let_def)
  next
    case False
    with Some show ?thesis by (simp add: stopExecution_def Let_def narrows_object settle_response_frame)
  qed
qed (simp add: stopExecution_def narrows_refl)

lemma give_back_frame:
  assumes "give_back h st = Inr st'"
  shows "re_objects st' = re_objects st" "re_active st' = re_active st" "re_modes st' = re_modes st"
  using assms by (auto simp: give_back_def bindE_Inr_iff admit_frame split: option.splits)

lemma narrows_clean_up: "clean_up n st = Inr st' \<Longrightarrow> narrows st st'"
proof -
  let ?e = "re_objects st ! n"
  let ?st1 = "set_object n (?e\<lparr>ae_held := None, ae_closed := True\<rparr>) st"
  assume run: "clean_up n st = Inr st'"
  then obtain st2 where g: "give_back (ae_held ?e) ?st1 = Inr st2"
    and st': "st' = (if ae_status ?e = ''waiting'' then set_object n ((re_objects st2 ! n)\<lparr>ae_attached := False\<rparr>) st2
      else forget (ae_id ?e) st2)"
    by (auto simp: clean_up_def Let_def bindE_Inr_iff split: if_splits)
  have "narrows st ?st1" by (rule narrows_object) simp_all
  moreover have "narrows ?st1 st2" by (rule narrows_refl) (use give_back_frame [OF g] in simp_all)
  moreover have "narrows st2 st'" unfolding st' by (simp add: narrows_object narrows_forget)
  ultimately show ?thesis using narrows_trans by blast
qed

lemma register_ok:
  assumes "registry_ok st"
  shows "registry_ok (register_execution r now st)"
proof -
  have "distinct (obj_keys (re_active st))" using assms by (simp add: registry_ok_def)
  from set_obj_set [OF this] assms show ?thesis
    by (auto simp: registry_ok_def register_execution_def Let_def nth_append obj_set_def distinct_update)
qed

lemma registry_step_ok:
  assumes "registry_ok st" "registry_step ev st = Inr st'"
  shows "registry_ok st'"
proof (cases "\<exists>k now. ev = Answer k DbDone now")
  case True
  then obtain k now where "ev = Answer k DbDone now" by blast
  with assms(2) obtain r ad where "st' = register_execution r now (st\<lparr>re_admitted := ad\<rparr>)"
    by (auto simp: registry_step_def add_answered_def Let_def split: if_splits)
  moreover have "registry_ok (st\<lparr>re_admitted := ad\<rparr>)" using assms(1) by (simp add: registry_ok_def)
  ultimately show ?thesis by (simp add: register_ok)
next
  case False
  have "narrows st st'"
  proof (cases ev)
    case (Add r)
    with assms(2) show ?thesis
      by (auto simp: registry_step_def add_reserve_def bindE_Inr_iff intro!: narrows_refl split: if_splits)
  next
    case (Answer k answer now)
    with assms(2) False show ?thesis
      by (auto simp: registry_step_def add_answered_def bindE_Inr_iff Let_def give_back_frame
          intro!: narrows_refl split: if_splits)
  next
    case (StopIt i mode)
    with assms(2) narrows_stop show ?thesis
      by (cases "control_has (re_control st) i")
        (auto simp: registry_step_def stopInRegularMode_def bindE_Inr_iff admit_frame intro: narrows_refl)
  next
    case (CleanUp n)
    with assms(2) narrows_clean_up show ?thesis by (simp add: registry_step_def)
  qed (use assms(2) in \<open>auto simp: registry_step_def attachWorkflowExecution_def attachResponsePromise_def putExecutionToWait_def setStatus_def
      setResponseMode_def resolveResponsePromise_def resolveExecutionResponsePromise_def finalizeExecution_def
      bindE_Inr_iff settle_response_frame split: option.splits intro!: narrows_object intro: narrows_refl\<close>)
  with narrows_ok [OF assms(1)] show ?thesis .
qed

lemma registered_ok: "registered st0 st \<Longrightarrow> registry_ok st0 \<Longrightarrow> registry_ok st"
  by (induction rule: registered.induct) (auto intro: registry_step_ok)

text \<open>An object that has been cleaned up and is still registered waits: an execution whose status is another one leaves
  the registry with its clean-up, and the only status that is set later is \<^verbatim>\<open>waiting\<close>.\<close>

definition closed_wait :: "registry \<Rightarrow> bool" where
  "closed_wait st \<longleftrightarrow>
     (\<forall>(i, n) \<in> set (re_active st). ae_closed (re_objects st ! n) \<longrightarrow> ae_status (re_objects st ! n) = ''waiting'')"

text \<open>Steps that close nothing and set no other status.\<close>

definition opens :: "active_execution \<Rightarrow> active_execution \<Rightarrow> bool" where
  "opens e e' \<longleftrightarrow> (ae_closed e' \<longrightarrow> ae_closed e) \<and> (ae_status e' = ae_status e \<or> ae_status e' = ''waiting'')"

definition waits_on :: "registry \<Rightarrow> registry \<Rightarrow> bool" where
  "waits_on st st' \<longleftrightarrow> set (re_active st') \<subseteq> set (re_active st) \<and>
     (\<forall>n < length (re_objects st). opens (re_objects st ! n) (re_objects st' ! n))"

lemma waits_on_refl: "re_objects st' = re_objects st \<Longrightarrow> re_active st' = re_active st \<Longrightarrow> waits_on st st'"
  by (simp add: waits_on_def opens_def)

lemma waits_on_object:
  "re_objects t = re_objects st \<Longrightarrow> re_active t = re_active st \<Longrightarrow> opens (re_objects st ! n) e \<Longrightarrow>
    waits_on st (set_object n e t)"
proof -
  assume t: "re_objects t = re_objects st" "re_active t = re_active st" "opens (re_objects st ! n) e"
  have "opens (re_objects st ! m) ((re_objects st)[n := e] ! m)" if "m < length (re_objects st)" for m
    using that t(3) by (cases "n = m") (simp_all add: opens_def)
  with t show ?thesis by (simp add: waits_on_def set_object_def)
qed

lemma waits_on_forget: "waits_on st st' \<Longrightarrow> waits_on st (forget i st')"
  by (auto simp: waits_on_def forget_def obj_delete_def)

lemma waits_on_closed: "registry_ok st \<Longrightarrow> closed_wait st \<Longrightarrow> waits_on st st' \<Longrightarrow> closed_wait st'"
proof -
  assume ok: "registry_ok st" and c: "closed_wait st" and w: "waits_on st st'"
  have "ae_closed (re_objects st' ! n) \<longrightarrow> ae_status (re_objects st' ! n) = ''waiting''" if "(i, n) \<in> set (re_active st')" for i n
  proof -
    have a: "(i, n) \<in> set (re_active st)" using that w unfolding waits_on_def by blast
    then have "n < length (re_objects st)" using ok unfolding registry_ok_def by blast
    with w have "opens (re_objects st ! n) (re_objects st' ! n)" by (simp add: waits_on_def)
    moreover have "ae_closed (re_objects st ! n) \<longrightarrow> ae_status (re_objects st ! n) = ''waiting''"
      using a c unfolding closed_wait_def by blast
    ultimately show ?thesis by (auto simp: opens_def)
  qed
  then show "closed_wait st'" unfolding closed_wait_def by blast
qed

lemma waits_on_stop: "waits_on st (stopExecution i st)"
proof (cases "obj_get (re_active st) i")
  case (Some n)
  have "waits_on st (settle_response Rejected (ae_response (re_objects st ! n)) st)"
    by (rule waits_on_refl) (simp_all add: settle_response_frame)
  with Some show ?thesis
    by (auto simp: stopExecution_def Let_def settle_response_frame opens_def intro: waits_on_forget waits_on_object)
qed (simp add: stopExecution_def waits_on_refl)

lemma closed_wait_clean_up:
  assumes ok: "registry_ok st" and c: "closed_wait st" and run: "clean_up n st = Inr st'"
  shows "closed_wait st'"
proof -
  let ?e = "re_objects st ! n"
  let ?st1 = "set_object n (?e\<lparr>ae_held := None, ae_closed := True\<rparr>) st"
  from run obtain st2 where g: "give_back (ae_held ?e) ?st1 = Inr st2"
    and st': "st' = (if ae_status ?e = ''waiting'' then set_object n ((re_objects st2 ! n)\<lparr>ae_attached := False\<rparr>) st2
      else forget (ae_id ?e) st2)"
    by (auto simp: clean_up_def Let_def bindE_Inr_iff split: if_splits)
  have o: "re_objects st2 = (re_objects st)[n := ?e\<lparr>ae_held := None, ae_closed := True\<rparr>]" "re_active st2 = re_active st"
    using give_back_frame [OF g] by (simp_all add: set_object_def)
  have same: "ae_closed (re_objects st2 ! m) = ae_closed (re_objects st ! m)"
    "ae_status (re_objects st2 ! m) = ae_status (re_objects st ! m)" if "m \<noteq> n" for m
    using that o by simp_all
  have w: "ae_closed (re_objects st' ! m) \<longrightarrow> ae_status (re_objects st' ! m) = ''waiting''" if a: "(i, m) \<in> set (re_active st')" for i m
  proof -
    have a0: "(i, m) \<in> set (re_active st)" using a o(2) unfolding st' by (auto simp: set_object_def forget_def obj_delete_def split: if_splits)
    then have m: "m < length (re_objects st)" "ae_id (re_objects st ! m) = i"
      "ae_closed (re_objects st ! m) \<longrightarrow> ae_status (re_objects st ! m) = ''waiting''"
      using ok c unfolding registry_ok_def closed_wait_def by blast+
    show ?thesis
    proof (cases "m = n")
      case False
      with m same [OF this] show ?thesis unfolding st' by (simp add: set_object_def forget_def)
    next
      case True
      have "ae_status ?e = ''waiting''"
      proof (rule ccontr)
        assume "ae_status ?e \<noteq> ''waiting''"
        with a True m(2) show False unfolding st' by (auto simp: forget_def obj_delete_def)
      qed
      with True m(1) o(1) show ?thesis unfolding st' by (simp add: set_object_def)
    qed
  qed
  then show ?thesis unfolding closed_wait_def by blast
qed

lemma closed_wait_step:
  assumes ok: "registry_ok st" and c: "closed_wait st" and run: "registry_step ev st = Inr st'"
  shows "closed_wait st'"
proof (cases "(\<exists>k now. ev = Answer k DbDone now) \<or> (\<exists>n. ev = CleanUp n)")
  case True
  then show ?thesis
  proof
    assume "\<exists>k now. ev = Answer k DbDone now"
    with run obtain r now ad where "st' = register_execution r now (st\<lparr>re_admitted := ad\<rparr>)"
      by (auto simp: registry_step_def add_answered_def Let_def split: if_splits)
    moreover have "distinct (obj_keys (re_active st))" using ok by (simp add: registry_ok_def)
    from set_obj_set [OF this] ok c have "closed_wait (register_execution r now (st\<lparr>re_admitted := ad\<rparr>))"
      by (auto simp: registry_ok_def closed_wait_def register_execution_def Let_def nth_append)
    ultimately show ?thesis by simp
  next
    assume "\<exists>n. ev = CleanUp n"
    with run closed_wait_clean_up [OF ok c] show ?thesis by (auto simp: registry_step_def)
  qed
next
  case False
  have "waits_on st st'"
  proof (cases ev)
    case (Add r)
    with run show ?thesis
      by (auto simp: registry_step_def add_reserve_def bindE_Inr_iff intro!: waits_on_refl split: if_splits)
  next
    case (Answer k answer now)
    with run False show ?thesis
      by (auto simp: registry_step_def add_answered_def bindE_Inr_iff Let_def give_back_frame
          intro!: waits_on_refl split: if_splits)
  next
    case (StopIt i mode)
    with run waits_on_stop show ?thesis
      by (cases "control_has (re_control st) i")
        (auto simp: registry_step_def stopInRegularMode_def bindE_Inr_iff admit_frame intro: waits_on_refl)
  qed (use run False in \<open>auto simp: registry_step_def attachWorkflowExecution_def attachResponsePromise_def
      putExecutionToWait_def setStatus_def setResponseMode_def resolveResponsePromise_def
      resolveExecutionResponsePromise_def finalizeExecution_def bindE_Inr_iff settle_response_frame opens_def
      split: option.splits intro!: waits_on_object intro: waits_on_refl\<close>)
  with waits_on_closed [OF ok c] show ?thesis .
qed

lemma registered_closed_wait:
  "registered st0 st \<Longrightarrow> registry_ok st0 \<Longrightarrow> closed_wait st0 \<Longrightarrow> closed_wait st"
  by (induction rule: registered.induct) (auto intro: closed_wait_step registered_ok)

section \<open>An execution that is out of reach\<close>

definition out_of_reach :: "nat \<Rightarrow> reservation \<Rightarrow> registry \<Rightarrow> bool" where
  "out_of_reach n held st \<longleftrightarrow> n < length (re_objects st) \<and> (\<forall>i. obj_get (re_active st) i \<noteq> Some n) \<and>
     ae_post (re_objects st ! n) = Pending \<and> ae_held (re_objects st ! n) = held"

text \<open>Nothing happens to an object except through the registry or by its clean-up.\<close>

definition leaves :: "nat \<Rightarrow> registry \<Rightarrow> registry \<Rightarrow> bool" where
  "leaves n st st' \<longleftrightarrow> n < length (re_objects st') \<and> re_objects st' ! n = re_objects st ! n \<and>
     (\<forall>i. obj_get (re_active st') i \<noteq> Some n)"

lemma step_leaves:
  assumes o: "out_of_reach n held st" and run: "registry_step ev st = Inr st'"
  shows "leaves n st st'"
proof -
  have n: "n < length (re_objects st)" "\<And>i. obj_get (re_active st) i \<noteq> Some n" "ae_post (re_objects st ! n) = Pending"
    using o by (auto simp: out_of_reach_def)
  have same: "leaves n st t" if "re_objects t = re_objects st" "re_active t = re_active st" for t
    using n that by (simp add: leaves_def)
  have obj: "leaves n st (set_object m e t)" if "re_objects t = re_objects st" "re_active t = re_active st"
      "m \<noteq> n" for m e t
    using n that by (simp add: leaves_def set_object_def)
  have other: "m \<noteq> n" if "obj_get (re_active st) i = Some m" for i m using that n(2) by blast
  have forg: "leaves n st (forget i t)" if "leaves n st t" for i t
    using that by (auto simp: leaves_def forget_def obj_get_delete)
  have stop: "leaves n st (stopExecution i st)" for i
  proof (cases "obj_get (re_active st) i")
    case None
    then show ?thesis by (simp add: stopExecution_def same)
  next
    case (Some m)
    with other [OF Some] show ?thesis
      by (simp add: stopExecution_def Let_def forg obj same settle_response_frame)
  qed
  have found: "m \<noteq> n" if "getExecutionOrFail st i = Inr m" for i m
    using that other by (auto simp: getExecutionOrFail_def split: option.splits)
  show ?thesis
  proof (cases ev)
    case (Add r)
    with run show ?thesis
      by (auto simp: registry_step_def add_reserve_def bindE_Inr_iff intro!: same split: if_splits)
  next
    case (Answer k answer now)
    have "leaves n st (register_execution r now (st\<lparr>re_admitted := ad\<rparr>))" for r ad
      using n by (auto simp: leaves_def register_execution_def Let_def nth_append obj_get_set)
    with Answer run show ?thesis
      by (auto simp: registry_step_def add_answered_def bindE_Inr_iff Let_def give_back_frame intro: same split: if_splits)
  next
    case (StopIt i mode)
    with run stop show ?thesis
      by (cases "control_has (re_control st) i")
        (auto simp: registry_step_def stopInRegularMode_def bindE_Inr_iff admit_frame intro: same)
  next
    case (CleanUp m)
    let ?e = "re_objects st ! m"
    from CleanUp run have m: "m \<noteq> n" using n(3) by (auto simp: registry_step_def clean_up_def split: if_splits)
    from CleanUp run obtain st2 where g: "give_back (ae_held ?e) (set_object m (?e\<lparr>ae_held := None, ae_closed := True\<rparr>) st) = Inr st2"
      and st': "st' = (if ae_status ?e = ''waiting'' then set_object m ((re_objects st2 ! m)\<lparr>ae_attached := False\<rparr>) st2
        else forget (ae_id ?e) st2)"
      by (auto simp: registry_step_def clean_up_def Let_def bindE_Inr_iff split: if_splits)
    have "leaves n st st2" using m n give_back_frame [OF g] by (simp add: leaves_def set_object_def)
    with m forg show ?thesis unfolding st' by (simp add: leaves_def set_object_def)
  next
    case (Attach i)
    with run found show ?thesis by (auto simp: registry_step_def attachWorkflowExecution_def bindE_Inr_iff intro!: obj)
  next
    case (AttachResponse i)
    with run found show ?thesis by (auto simp: registry_step_def attachResponsePromise_def bindE_Inr_iff intro!: obj)
  next
    case (PutToWait i)
    with run found show ?thesis
      by (auto simp: registry_step_def putExecutionToWait_def setStatus_def bindE_Inr_iff intro!: obj)
  next
    case (Finalize i)
    show ?thesis
    proof (cases "obj_get (re_active st) i")
      case None
      with Finalize run have "st' = st" by (simp add: registry_step_def finalizeExecution_def)
      then show ?thesis by (simp add: same)
    next
      case (Some m)
      with Finalize run obj [OF refl refl other [OF Some]] show ?thesis
        by (auto simp: registry_step_def finalizeExecution_def)
    qed
  next
    case (Respond i)
    with run have "re_objects st' = re_objects st" "re_active st' = re_active st"
      by (auto simp: registry_step_def resolveResponsePromise_def settle_response_frame split: option.splits)
    then show ?thesis by (rule same)
  next
    case (RespondForm i)
    with run have "re_objects st' = re_objects st" "re_active st' = re_active st"
      by (auto simp: registry_step_def resolveExecutionResponsePromise_def settle_response_frame split: option.splits)
    then show ?thesis by (rule same)
  next
    case (SetMode i m)
    with run show ?thesis by (auto simp: registry_step_def setResponseMode_def intro!: same)
  qed
qed

lemma registered_out_of_reach:
  "registered st0 st \<Longrightarrow> out_of_reach n held st0 \<Longrightarrow> out_of_reach n held st"
proof (induction rule: registered.induct)
  case (registered_step st ev st')
  with step_leaves [of n held st ev st'] show ?case by (simp add: out_of_reach_def leaves_def)
qed simp

section \<open>Shutdown\<close>

text \<open>The service, the requests that wait and what is canceled in the database.\<close>

definition untouched :: "registry \<Rightarrow> registry \<Rightarrow> bool" where
  "untouched st st' \<longleftrightarrow> re_control st' = re_control st \<and> re_waiting st' = re_waiting st \<and>
     re_admitted st' = re_admitted st \<and> re_canceled st' = re_canceled st"

lemma untouched_stop: "untouched st (stopExecution i st)"
  by (auto simp: untouched_def stopExecution_def Let_def settle_response_frame set_object_def forget_def split: option.split)

text \<open>What is registered while everything is being stopped: the object was registered before, is not
  waiting once its turn is over, and then its promise has settled.\<close>

definition stopped_to :: "string set \<Rightarrow> registry \<Rightarrow> registry \<Rightarrow> bool" where
  "stopped_to ks st st' \<longleftrightarrow> registry_ok st' \<and> untouched st st' \<and> set (re_active st') \<subseteq> set (re_active st) \<and>
     (\<forall>(i, n) \<in> set (re_active st'). ae_status (re_objects st' ! n) = ae_status (re_objects st ! n) \<and>
        ae_closed (re_objects st' ! n) = ae_closed (re_objects st ! n) \<and>
        (i \<in> ks \<longrightarrow> ae_status (re_objects st ! n) \<noteq> ''waiting'' \<and> ae_post (re_objects st' ! n) \<noteq> Pending))"

lemma settled_not_pending [simp]: "settle Rejected p \<noteq> Pending" "settle Resolved p \<noteq> Pending"
  by (simp_all add: settle_def)

lemma settled_stays: "p \<noteq> Pending \<Longrightarrow> settle s p = p"
  by (simp add: settle_def)

lemma registry_entry: "registry_ok st \<Longrightarrow> (i, n) \<in> set (re_active st) \<longleftrightarrow> obj_get (re_active st) i = Some n"
  by (simp add: registry_ok_def map_of_eq_Some_iff)

text \<open>Different ids have different objects.\<close>

lemma registry_inj:
  assumes "registry_ok st" "(i, n) \<in> set (re_active st)" "(j, n) \<in> set (re_active st)"
  shows "i = j"
proof -
  have "ae_id (re_objects st ! n) = k" if "(k, n) \<in> set (re_active st)" for k
    using that assms(1) by (auto simp: registry_ok_def)
  from this [OF assms(2)] this [OF assms(3)] show ?thesis by simp
qed

lemma stop_stopped_to:
  assumes st: "stopped_to ks st0 st"
  shows "stopped_to (insert i ks) st0 (stopExecution i st)"
proof -
  have ok: "registry_ok st" using st by (simp add: stopped_to_def)
  have ok': "registry_ok (stopExecution i st)" using narrows_ok [OF ok narrows_stop] .
  have ctl: "untouched st0 (stopExecution i st)"
    using st untouched_stop [of st i] by (simp add: stopped_to_def untouched_def)
  have sub: "set (re_active (stopExecution i st)) \<subseteq> set (re_active st)" using narrows_stop [of st i] by (simp add: narrows_def)
  show ?thesis
  proof (cases "obj_get (re_active st) i")
    case None
    then have "stopExecution i st = st" by (simp add: stopExecution_def)
    moreover have "(i, n) \<notin> set (re_active st)" for n using None registry_entry [OF ok] by simp
    ultimately show ?thesis using st by (auto simp: stopped_to_def)
  next
    case (Some m)
    let ?e = "re_objects st ! m"
    have im: "(i, m) \<in> set (re_active st)" using Some registry_entry [OF ok] by simp
    have m: "m < length (re_objects st)" using im ok by (auto simp: registry_ok_def)
    have entry: "ae_status (re_objects (stopExecution i st) ! n) = ae_status (re_objects st0 ! n) \<and>
        ae_closed (re_objects (stopExecution i st) ! n) = ae_closed (re_objects st0 ! n) \<and>
        (j \<in> insert i ks \<longrightarrow> ae_status (re_objects st0 ! n) \<noteq> ''waiting'' \<and>
           ae_post (re_objects (stopExecution i st) ! n) \<noteq> Pending)"
      if jn: "(j, n) \<in> set (re_active (stopExecution i st))" for j n
    proof -
      have jn0: "(j, n) \<in> set (re_active st)" using jn sub by blast
      have old: "ae_status (re_objects st ! n) = ae_status (re_objects st0 ! n)"
        "ae_closed (re_objects st ! n) = ae_closed (re_objects st0 ! n)"
        "j \<in> ks \<longrightarrow> ae_status (re_objects st0 ! n) \<noteq> ''waiting'' \<and> ae_post (re_objects st ! n) \<noteq> Pending"
        using st jn0 unfolding stopped_to_def by blast+
      show ?thesis
      proof (cases "ae_status ?e = ''waiting''")
        case True
        with Some have s: "re_objects (stopExecution i st) = re_objects st"
          "re_active (stopExecution i st) = obj_delete i (re_active st)"
          by (simp_all add: stopExecution_def Let_def forget_def settle_response_frame)
        then have "j \<noteq> i" using jn by (simp add: obj_delete_def)
        with old s(1) show ?thesis by simp
      next
        case False
        with Some have s: "re_objects (stopExecution i st) = (re_objects st)
            [m := ?e\<lparr>ae_canceled := ae_canceled ?e \<or> ae_attached ?e, ae_post := settle Rejected (ae_post ?e)\<rparr>]"
          by (simp add: stopExecution_def Let_def set_object_def settle_response_frame)
        show ?thesis
        proof (cases "n = m")
          case True
          with False m old s show ?thesis by simp
        next
          case nm: False
          have "j \<noteq> i" using nm jn0 im registry_entry [OF ok] by auto
          with nm old s show ?thesis by simp
        qed
      qed
    qed
    with ok' ctl sub st show ?thesis unfolding stopped_to_def by blast
  qed
qed

lemma shut_all:
  "stopped_to ks st0 st \<Longrightarrow>
    \<exists>tc st'. fold (shut_one True) xs (ids, st) = (tc, st') \<and> stopped_to (ks \<union> set xs) st0 st'"
proof (induction xs arbitrary: ks ids st)
  case (Cons i xs)
  have ok: "registry_ok st" using Cons.prems by (simp add: stopped_to_def)
  have "\<exists>ids1. shut_one True i (ids, st) = (ids1, stopExecution i st)"
    by (cases "obj_get (re_active st) i") (auto simp: shut_one_def stopExecution_def)
  then obtain ids1 where "shut_one True i (ids, st) = (ids1, stopExecution i st)" by blast
  with Cons.IH [OF stop_stopped_to [OF Cons.prems, of i], of ids1] show ?case by simp
qed auto

text \<open>Clean-ups of settled executions, with the service disabled.\<close>

lemma clean_up_disabled:
  assumes "\<not> cc_enabled (re_control st)" "registry_ok st" "re_active st = (i, n) # rest"
    and "ae_post (re_objects st ! n) \<noteq> Pending" "\<not> ae_closed (re_objects st ! n)"
    and "ae_status (re_objects st ! n) \<noteq> ''waiting''"
  shows "\<exists>st'. clean_up n st = Inr st' \<and> re_active st' = rest \<and> re_control st' = re_control st \<and>
    (\<forall>m. m \<noteq> n \<longrightarrow> re_objects st' ! m = re_objects st ! m)"
proof -
  let ?e = "re_objects st ! n"
  let ?st1 = "set_object n (?e\<lparr>ae_held := None, ae_closed := True\<rparr>) st"
  have n: "n < length (re_objects st)" "ae_id ?e = i" using assms(2,3) by (auto simp: registry_ok_def)
  have "give_back (ae_held ?e) ?st1 = Inr ?st1"
    using assms(1) by (auto simp: give_back_def capacity_result_def release_reservation_def control_release_def admit_def
        set_object_def split: option.split)
  with n assms(4-6) have run: "clean_up n st = Inr (forget i ?st1)" by (simp add: clean_up_def Let_def)
  have "i \<notin> fst ` set rest" using assms(2,3) by (simp add: registry_ok_def)
  then have "obj_delete i rest = rest" unfolding obj_delete_def by (intro filter_True) auto
  with assms(3) have "re_active (forget i ?st1) = rest" by (simp add: forget_def set_object_def obj_delete_def)
  with run show ?thesis by (auto simp: forget_def set_object_def)
qed

lemma drain_disabled:
  assumes "\<not> cc_enabled (re_control st)" "registry_ok st"
    and "\<forall>(i, n) \<in> set (re_active st). ae_post (re_objects st ! n) \<noteq> Pending \<and> \<not> ae_closed (re_objects st ! n) \<and>
      ae_status (re_objects st ! n) \<noteq> ''waiting''"
  shows "\<exists>st'. foldE clean_up (map snd (re_active st)) st = Inr st' \<and> re_active st' = []"
  using assms
proof (induction "re_active st" arbitrary: st)
  case (Cons p rest)
  obtain i n where p: "p = (i, n)" by (cases p) simp
  with Cons.hyps(2) have a: "re_active st = (i, n) # rest" by simp
  with Cons.prems(3) have "ae_post (re_objects st ! n) \<noteq> Pending" "\<not> ae_closed (re_objects st ! n)"
    "ae_status (re_objects st ! n) \<noteq> ''waiting''" by auto
  from clean_up_disabled [OF Cons.prems(1,2) a this] obtain st1 where
    s1: "clean_up n st = Inr st1" "re_active st1 = rest" "re_control st1 = re_control st"
      "\<forall>m. m \<noteq> n \<longrightarrow> re_objects st1 ! m = re_objects st ! m" by blast
  have ok1: "registry_ok st1" using narrows_ok [OF Cons.prems(2) narrows_clean_up [OF s1(1)]] .
  have "m \<noteq> n" if "(j, m) \<in> set rest" for j m
  proof
    assume "m = n"
    with that a have "(j, n) \<in> set (re_active st)" "(i, n) \<in> set (re_active st)" by simp_all
    with registry_inj [OF Cons.prems(2)] have "j = i" by blast
    with that a Cons.prems(2) show False by (force simp: registry_ok_def)
  qed
  with Cons.prems(3) a s1(2,4) have "\<forall>(j, m) \<in> set (re_active st1). ae_post (re_objects st1 ! m) \<noteq> Pending \<and>
      \<not> ae_closed (re_objects st1 ! m) \<and> ae_status (re_objects st1 ! m) \<noteq> ''waiting''" by fastforce
  from Cons.hyps(1) [OF s1(2) [symmetric] _ ok1 this] s1(3) Cons.prems(1) obtain st'
    where "foldE clean_up (map snd (re_active st1)) st1 = Inr st'" "re_active st' = []" by auto
  with a s1(1,2) show ?case by simp
qed simp

lemma active_shutdown_all:
  "active_shutdown True True st =
     (case fold (shut_one True) (obj_keys (re_active st)) ([], st\<lparr>re_control := disable (re_control st)\<rparr>) of (ids, st2) \<Rightarrow>
      case removeAll (re_control st2) ids of (released, canceled, c) \<Rightarrow>
        fold admit_any released (st2\<lparr>re_control := c, re_canceled := re_canceled st2 @ canceled\<rparr>))"
  by (simp add: active_shutdown_def split: prod.split)

lemma shutdown_stops:
  assumes ok: "registry_ok st"
  shows "stopped_to (set (obj_keys (re_active st))) (st\<lparr>re_control := disable (re_control st)\<rparr>) (active_shutdown True True st)"
proof -
  let ?st1 = "st\<lparr>re_control := disable (re_control st)\<rparr>"
  have "stopped_to {} ?st1 ?st1" using ok by (auto simp: stopped_to_def untouched_def registry_ok_def)
  from shut_all [OF this, of "obj_keys (re_active st)" "[]"] obtain ids st2
    where f: "fold (shut_one True) (obj_keys (re_active st)) ([], ?st1) = (ids, st2)"
      and s: "stopped_to (set (obj_keys (re_active st))) ?st1 st2" by auto
  have "re_control st2 = disable (re_control st)" using s by (simp add: stopped_to_def untouched_def)
  then have "removeAll (re_control st2) ids = ([], [], re_control st2)" by (simp add: removeAll_def disable_def)
  with f have "active_shutdown True True st = st2" by (simp add: active_shutdown_all)
  with s show ?thesis by simp
qed

section \<open>An example\<close>

text \<open>A limit of one, two webhook executions: the first is registered, the second waits.\<close>

definition one_limit :: control where
  "one_limit = \<lparr>cc_enabled = True, cc_queues = [(''production'', new_queue 1)]\<rparr>"

definition hook_request :: "string \<Rightarrow> execution_request" where
  "hook_request i = \<lparr>er_id = i, er_resume = False, er_mode = ''webhook'', er_retryOf = None, er_workflowId = ''w''\<rparr>"

definition after_events :: "registry_event list \<Rightarrow> registry" where
  "after_events evs = (case foldE registry_step evs (new_registry one_limit) of Inl _ \<Rightarrow> new_registry one_limit | Inr st \<Rightarrow> st)"

definition two_hooks :: "registry_event list" where
  "two_hooks = [Add (hook_request ''1''), Answer 0 DbDone 7, Add (hook_request ''2'')]"

lemma registered_run: "foldE registry_step evs st = Inr st' \<Longrightarrow> registered st0 st \<Longrightarrow> registered st0 st'"
  by (induction evs arbitrary: st) (auto simp: bindE_Inr_iff intro: registered_step)

lemma registered_after: "registered (new_registry one_limit) (after_events evs)"
  by (cases "foldE registry_step evs (new_registry one_limit)")
    (auto simp: after_events_def intro: registered_run registered_start)

lemma one_limit_new: "new_control 1 (-1) False = Inr one_limit" "obj_get (cc_queues one_limit) ''production'' = Some (new_queue 1)"
  by code_simp+

section \<open>Properties\<close>

lemma new_registry_ok: "registry_ok (new_registry c)"
  by (simp add: registry_ok_def new_registry_def)

lemma new_control_queue:
  assumes "new_control production evaluation queueMode = Inr c" "obj_get (cc_queues c) ty = Some q0"
  shows "cc_enabled c" "q0 = new_queue (cq_capacity q0)" "0 < cq_capacity q0"
  using assms by (auto simp: new_control_def bindE_Inr_iff new_queue_def split: if_splits)

lemma new_registry_account:
  assumes "new_control production evaluation queueMode = Inr c" "obj_get (cc_queues c) ty = Some q0"
  shows "account (cq_capacity q0) ty (new_registry c)"
proof -
  have "cq_queue q0 = []" by (subst new_control_queue(2) [OF assms]) (simp add: new_queue_def)
  with new_control_queue(1) [OF assms] assms(2) show ?thesis
    by (simp add: account_def new_registry_def waits_def holders_def)
qed

text \<open>C14. The registry and the concurrency service agree, whatever calls are made in whatever order:
  in every state that a process reaches, a queue holds exactly the requests whose \<^verbatim>\<open>add\<close> waits for
  it, its capacity is the limit less the executions that hold capacity (those that wait for the database
  and those whose clean-up has not run) and those that wait, and nobody waits while fewer than the limit hold.\<close>

theorem capacity_follows_registry:
  assumes "new_control production evaluation queueMode = Inr c" "obj_get (cc_queues c) ty = Some q0"
    and "registered (new_registry c) st"
  shows "\<exists>q. obj_get (cc_queues (re_control st)) ty = Some q \<and> cq_queue q = waits ty st \<and>
    cq_capacity q = cq_capacity q0 - int (holders ty st) - int (length (cq_queue q)) \<and>
    (cq_queue q \<noteq> [] \<longrightarrow> cq_capacity q0 \<le> int (holders ty st))"
proof -
  have "account (cq_capacity q0) ty st" using registered_account [OF assms(3) new_registry_account [OF assms(1,2)]] .
  then show ?thesis by (auto simp: account_def)
qed

lemma capacity_follows_registry_witness:
  "\<exists>q. obj_get (cc_queues (re_control (after_events two_hooks))) ''production'' = Some q \<and> cq_queue q = [''2''] \<and> cq_capacity q = -1"
proof -
  have "waits ''production'' (after_events two_hooks) = [''2'']" "holders ''production'' (after_events two_hooks) = 1"
    by code_simp+
  with capacity_follows_registry [OF one_limit_new registered_after [of two_hooks]] show ?thesis
    by (auto simp: new_queue_def)
qed

text \<open>C21. A stop can lose capacity for good. The Wait node sets the status to \<^verbatim>\<open>waiting\<close> while the
  execution still runs; when it is stopped before it is finalized, it leaves the registry, nothing
  settles its promise any more, and whatever the process does afterwards its clean-up does not run and its
  queue stays below the limit.\<close>

theorem stop_leaks_capacity:
  assumes "new_control production evaluation queueMode = Inr c" "obj_get (cc_queues c) ty = Some q0"
    and "registered (new_registry c) st" "obj_get (re_active st) i = Some n" "\<not> control_has (re_control st) i"
    and "ae_status (re_objects st ! n) = ''waiting''" "ae_post (re_objects st ! n) = Pending" "holds ty (re_objects st ! n)"
    and "stopInRegularMode i mode st = Inr st1" "registered st1 st2"
  shows "clean_up n st2 = Inl NotPossible \<and>
    (\<exists>q. obj_get (cc_queues (re_control st2)) ty = Some q \<and> cq_capacity q + int (length (cq_queue q)) < cq_capacity q0)"
proof -
  let ?h = "ae_held (re_objects st ! n)"
  have ok: "registry_ok st" using registered_ok [OF assms(3) new_registry_ok] .
  have in_st: "(i, n) \<in> set (re_active st)" using assms(4) registry_entry [OF ok] by simp
  have n: "n < length (re_objects st)" using in_st ok by (auto simp: registry_ok_def)
  have st1: "st1 = stopExecution i st" using assms(5,9) by (simp add: stopInRegularMode_def)
  with assms(4,6) have o1: "re_objects st1 = re_objects st" "re_active st1 = obj_delete i (re_active st)"
    by (simp_all add: stopExecution_def Let_def forget_def settle_response_frame)
  have "obj_get (re_active st1) j \<noteq> Some n" for j
  proof
    assume "obj_get (re_active st1) j = Some n"
    with o1(2) have "j \<noteq> i" "(j, n) \<in> set (re_active st)"
      using registry_entry [OF ok] by (auto simp: obj_get_delete split: if_splits)
    with registry_inj [OF ok _ in_st] show False by blast
  qed
  with n o1(1) assms(7) have "out_of_reach n ?h st1" by (simp add: out_of_reach_def)
  from registered_out_of_reach [OF assms(10) this] have o2: "n < length (re_objects st2)"
    "ae_post (re_objects st2 ! n) = Pending" "ae_held (re_objects st2 ! n) = ?h" by (simp_all add: out_of_reach_def)
  have "account (cq_capacity q0) ty st1"
    using stop_regular_account [OF registered_account [OF assms(3) new_registry_account [OF assms(1,2)]] assms(9)] .
  from registered_account [OF assms(10) this] have "account (cq_capacity q0) ty st2" .
  moreover have "re_objects st2 ! n \<in> set (filter (holds ty) (re_objects st2))"
    using o2(1,3) assms(8) by (simp add: holds_def)
  then have "0 < holders ty st2" by (cases "filter (holds ty) (re_objects st2)") (simp_all add: holders_def)
  ultimately show ?thesis using o2(2) by (auto simp: account_def clean_up_def)
qed

lemma stop_leaks_capacity_witness:
  "clean_up 0 (stopExecution ''1'' (after_events (two_hooks @ [PutToWait ''1'']))) = Inl NotPossible"
proof -
  let ?st = "after_events (two_hooks @ [PutToWait ''1''])"
  have h: "obj_get (re_active ?st) ''1'' = Some 0" "\<not> control_has (re_control ?st) ''1''" "ae_status (re_objects ?st ! 0) = ''waiting''"
    "ae_post (re_objects ?st ! 0) = Pending" "holds ''production'' (re_objects ?st ! 0)"
    by code_simp+
  then have "stopInRegularMode ''1'' ''webhook'' ?st = Inr (stopExecution ''1'' ?st)" by (simp add: stopInRegularMode_def)
  from stop_leaks_capacity [OF one_limit_new registered_after h this registered_start] show ?thesis by blast
qed

text \<open>C29. A shutdown in regular mode that cancels everything ends, from every state the process gets to: once its
  loop has run, every execution that is
  still registered has a settled promise, and their clean-ups succeed in the order of the registry and empty it.
  No request that waits for capacity goes on, and none is canceled in the database.\<close>

theorem shutdown_drains:
  assumes "registered (new_registry c) st"
  shows "\<exists>st2. foldE clean_up (map snd (re_active (active_shutdown True True st))) (active_shutdown True True st) = Inr st2 \<and>
    shutdown_done st2 \<and> re_waiting (active_shutdown True True st) = re_waiting st \<and>
    re_admitted (active_shutdown True True st) = re_admitted st \<and> re_canceled (active_shutdown True True st) = re_canceled st"
proof -
  let ?st1 = "active_shutdown True True st"
  have ok: "registry_ok st" using registered_ok [OF assms(1) new_registry_ok] .
  have w: "\<forall>(i, n) \<in> set (re_active st). ae_closed (re_objects st ! n) \<longrightarrow> ae_status (re_objects st ! n) = ''waiting''"
    using registered_closed_wait [OF assms new_registry_ok] by (simp add: closed_wait_def new_registry_def)
  note s = shutdown_stops [OF ok]
  have ctl: "\<not> cc_enabled (re_control ?st1)" and ok1: "registry_ok ?st1" and sub: "set (re_active ?st1) \<subseteq> set (re_active st)"
    using s by (simp_all add: stopped_to_def untouched_def disable_def)
  have "ae_post (re_objects ?st1 ! n) \<noteq> Pending \<and> \<not> ae_closed (re_objects ?st1 ! n) \<and> ae_status (re_objects ?st1 ! n) \<noteq> ''waiting''"
    if a: "(i, n) \<in> set (re_active ?st1)" for i n
  proof -
    have b: "(i, n) \<in> set (re_active st)" using a sub by blast
    then have "i \<in> set (obj_keys (re_active st))" by force
    with s a have "ae_status (re_objects ?st1 ! n) = ae_status (re_objects st ! n)" "ae_status (re_objects st ! n) \<noteq> ''waiting''"
      "ae_closed (re_objects ?st1 ! n) = ae_closed (re_objects st ! n)" "ae_post (re_objects ?st1 ! n) \<noteq> Pending"
      unfolding stopped_to_def by auto
    with w b show ?thesis by auto
  qed
  then have "\<forall>(i, n) \<in> set (re_active ?st1). ae_post (re_objects ?st1 ! n) \<noteq> Pending \<and>
      \<not> ae_closed (re_objects ?st1 ! n) \<and> ae_status (re_objects ?st1 ! n) \<noteq> ''waiting''" by blast
  from drain_disabled [OF ctl ok1 this] s show ?thesis by (auto simp: shutdown_done_def stopped_to_def untouched_def)
qed

lemma shutdown_drains_witness:
  "\<exists>st2. foldE clean_up [0] (active_shutdown True True (after_events two_hooks)) = Inr st2 \<and> shutdown_done st2"
proof -
  have st: "re_active (after_events two_hooks) = [(''1'', 0)]" "ae_closed (re_objects (after_events two_hooks) ! 0) = False"
    by code_simp+
  have shut: "map snd (re_active (active_shutdown True True (after_events two_hooks))) = [0]"
    by code_simp
  from shutdown_drains [OF registered_after [of two_hooks]] st show ?thesis unfolding shut by auto
qed

end
