(* ===== verification/Task_Broker.thy ===== *)
theory Task_Broker
  imports N8n_Types
begin

text \<open>
  The broker between the nodes that need a task run and the task runners
  (\<^verbatim>\<open>packages/cli/src/task-runners/task-broker/task-broker.service.ts\<close>): runners offer,
  requesters request, the broker matches the two, asks the runner, tells the requester and hands its
  settings over.

  The method \<^verbatim>\<open>acceptOffer\<close> awaits an answer of the runner and then one of the requester.
  A call of it that is under way is an \<open>acceptance\<close> with its stage and the promise it waits for; an
  answer, a timer or a rejection settles the promise, and \<open>continue_accept\<close> is what runs after that.
  A request is an object that is changed after it has left the list, so it has a number (\<open>rq_ref\<close>);
  a timer is a handle, and \<open>br_timers\<close> has those that are running with the request they are for. Task ids come from
  \<^verbatim>\<open>nanoid\<close>, the argument \<open>nano\<close>. Messages are taken to be sent without an error and at once.
\<close>

section \<open>Data\<close>

datatype to_runner =
    RunnerRegistered | OfferAccepted string string | TaskCanceled string string | TaskSettings string json
  | TaskDataResponse string string json | TaskNodeTypes string string json | RpcResponse string string string json

datatype task_failure = FromRunner json | Disconnected string | NoRunner string | TaskTimedOut | RequesterTimedOut

datatype to_requester =
    TaskReady string string | RequestExpired string string | TaskDone string json | TaskError string task_failure
  | TaskDataRequest string string json | NodeTypesRequest string string json | RpcRequest string string string "json list"

record task_offer =
  of_id :: string
  of_runner :: string
  of_type :: string
  of_validFor :: int
  of_validUntil :: int

record task_request =
  rq_ref :: nat
  rq_id :: string
  rq_requester :: string
  rq_type :: string
  rq_timer :: nat
  rq_accepting :: bool

record broker_task =
  bt_runner :: string
  bt_requester :: string
  bt_type :: string

datatype accept_stage = AwaitRunner | AwaitRequester

datatype accept_answer = Unanswered | Accepted json | Refused string | Deferred | AcceptTimeout

record acceptance =
  ac_offer :: task_offer
  ac_request :: task_request
  ac_stage :: accept_stage
  ac_answer :: accept_answer

record broker =
  br_external :: bool
  br_runners :: "string list"
  br_requesters :: "string list"
  br_tasks :: "(string, broker_task) obj"
  br_draining :: bool
  br_runnerAccepts :: "string list"
  br_requesterAccepts :: "string list"
  br_offers :: "task_offer list"
  br_requests :: "task_request list"
  br_warned :: "string list"
  br_acceptances :: "(string, acceptance) obj"
  br_timers :: "(nat \<times> string) list"
  br_taskTimers :: "string list"
  br_taskCount :: nat
  br_handles :: nat
  br_refs :: nat
  br_toRunners :: "(string \<times> to_runner) list"
  br_toRequesters :: "(string \<times> to_requester) list"
  br_thrown :: "task_failure list"

definition new_broker :: "bool \<Rightarrow> broker" where
  "new_broker external = \<lparr>br_external = external, br_runners = [], br_requesters = [], br_tasks = [], br_draining = False,
     br_runnerAccepts = [], br_requesterAccepts = [], br_offers = [], br_requests = [], br_warned = [],
     br_acceptances = [], br_timers = [], br_taskTimers = [], br_taskCount = 0, br_handles = 0, br_refs = 0,
     br_toRunners = [], br_toRequesters = [], br_thrown = []\<rparr>"

section \<open>Messages\<close>

definition messageRunner :: "string \<Rightarrow> to_runner \<Rightarrow> broker \<Rightarrow> broker" where
  "messageRunner runnerId message st =
     (if runnerId \<in> set (br_runners st) then st\<lparr>br_toRunners := br_toRunners st @ [(runnerId, message)]\<rparr> else st)"

definition messageRequester :: "string \<Rightarrow> to_requester \<Rightarrow> broker \<Rightarrow> broker" where
  "messageRequester requesterId message st =
     (if requesterId \<in> set (br_requesters st)
      then st\<lparr>br_toRequesters := br_toRequesters st @ [(requesterId, message)]\<rparr> else st)"

section \<open>Request timers\<close>

definition clearTimer :: "nat \<Rightarrow> broker \<Rightarrow> broker" where
  "clearTimer h st = st\<lparr>br_timers := filter (\<lambda>t. fst t \<noteq> h) (br_timers st)\<rparr>"

definition createRequestTimeout :: "string \<Rightarrow> broker \<Rightarrow> nat \<times> broker" where
  "createRequestTimeout requestId st =
     (br_handles st, st\<lparr>br_handles := Suc (br_handles st), br_timers := br_timers st @ [(br_handles st, requestId)]\<rparr>)"

text \<open>The first request with an id leaves the list.\<close>

fun remove_request :: "string \<Rightarrow> task_request list \<Rightarrow> task_request list" where
  "remove_request i [] = []"
| "remove_request i (r # rs) = (if rq_id r = i then rs else r # remove_request i rs)"

definition handleRequestTimeout :: "string \<Rightarrow> broker \<Rightarrow> broker" where
  "handleRequestTimeout requestId st =
     (case find (\<lambda>r. rq_id r = requestId) (br_requests st) of
        None \<Rightarrow> st
      | Some r \<Rightarrow> messageRequester (rq_requester r) (RequestExpired (rq_id r) ''timeout'')
          (clearTimer (rq_timer r) (st\<lparr>br_requests := remove_request requestId (br_requests st),
             br_warned := removeAll requestId (br_warned st)\<rparr>)))"

section \<open>Tasks\<close>

definition cancelTask :: "string \<Rightarrow> string \<Rightarrow> broker \<Rightarrow> broker" where
  "cancelTask taskId reason st =
     (case obj_get (br_tasks st) taskId of
        None \<Rightarrow> st
      | Some t \<Rightarrow> messageRunner (bt_runner t) (TaskCanceled taskId reason)
          (st\<lparr>br_tasks := obj_delete taskId (br_tasks st)\<rparr>))"

definition failTask :: "string \<Rightarrow> task_failure \<Rightarrow> broker \<Rightarrow> broker" where
  "failTask taskId e st =
     (case obj_get (br_tasks st) taskId of
        None \<Rightarrow> st
      | Some t \<Rightarrow> messageRequester (bt_requester t) (TaskError taskId e)
          (st\<lparr>br_tasks := obj_delete taskId (br_tasks st)\<rparr>))"

text \<open>The runner of a task, or the task fails and the error is thrown.\<close>

definition getRunnerOrFailTask :: "string \<Rightarrow> broker \<Rightarrow> string option \<times> broker" where
  "getRunnerOrFailTask taskId st =
     (case obj_get (br_tasks st) taskId of
        None \<Rightarrow> (None, st\<lparr>br_thrown := br_thrown st @ [NoRunner taskId]\<rparr>)
      | Some t \<Rightarrow>
          if bt_runner t \<in> set (br_runners st) then (Some (bt_runner t), st)
          else (None, let st1 = failTask taskId (NoRunner (bt_runner t)) st
                      in st1\<lparr>br_thrown := br_thrown st1 @ [NoRunner (bt_runner t)]\<rparr>))"

text \<open>Sending something to the runner of a task, as the handlers of requesters do.\<close>

definition to_runner_of :: "string \<Rightarrow> to_runner \<Rightarrow> broker \<Rightarrow> broker" where
  "to_runner_of taskId message st =
     (if obj_has (br_tasks st) taskId
      then (case getRunnerOrFailTask taskId st of
              (None, st1) \<Rightarrow> st1 | (Some runner, st1) \<Rightarrow> messageRunner runner message st1)
      else st)"

definition handleRequesterRpcResponse :: "string \<Rightarrow> string \<Rightarrow> string \<Rightarrow> json \<Rightarrow> broker \<Rightarrow> broker" where
  "handleRequesterRpcResponse taskId callId status data = to_runner_of taskId (RpcResponse taskId callId status data)"

definition handleRequesterDataResponse :: "string \<Rightarrow> string \<Rightarrow> json \<Rightarrow> broker \<Rightarrow> broker" where
  "handleRequesterDataResponse taskId requestId data = to_runner_of taskId (TaskDataResponse taskId requestId data)"

definition handleRequesterNodeTypesResponse :: "string \<Rightarrow> string \<Rightarrow> json \<Rightarrow> broker \<Rightarrow> broker" where
  "handleRequesterNodeTypesResponse taskId requestId nodeTypes = to_runner_of taskId (TaskNodeTypes taskId requestId nodeTypes)"

text \<open>The settings of a task start its timer.\<close>

definition sendTaskSettings :: "string \<Rightarrow> json \<Rightarrow> broker \<Rightarrow> broker" where
  "sendTaskSettings taskId settings st =
     (if obj_has (br_tasks st) taskId
      then (case getRunnerOrFailTask taskId st of
              (None, st1) \<Rightarrow> st1
            | (Some runner, st1) \<Rightarrow> messageRunner runner (TaskSettings taskId settings)
                (st1\<lparr>br_taskTimers := br_taskTimers st1 @ [taskId]\<rparr>))
      else st)"

text \<open>The end of a task: its timer is cleared, its requester is told and it is forgotten.\<close>

definition end_task :: "string \<Rightarrow> to_requester \<Rightarrow> broker \<Rightarrow> broker" where
  "end_task taskId message st =
     (case obj_get (br_tasks st) taskId of
        None \<Rightarrow> st
      | Some t \<Rightarrow>
          (let st1 = messageRequester (bt_requester t) message (st\<lparr>br_taskTimers := removeAll taskId (br_taskTimers st)\<rparr>)
           in st1\<lparr>br_tasks := obj_delete taskId (br_tasks st1)\<rparr>))"

definition taskDoneHandler :: "string \<Rightarrow> json \<Rightarrow> broker \<Rightarrow> broker" where
  "taskDoneHandler taskId data = end_task taskId (TaskDone taskId data)"

definition taskErrorHandler :: "string \<Rightarrow> task_failure \<Rightarrow> broker \<Rightarrow> broker" where
  "taskErrorHandler taskId e = end_task taskId (TaskError taskId e)"

definition handleTaskTimeout :: "string \<Rightarrow> broker \<Rightarrow> broker" where
  "handleTaskTimeout taskId st =
     (case obj_get (br_tasks st) taskId of
        None \<Rightarrow> st
      | Some t \<Rightarrow> taskErrorHandler taskId TaskTimedOut
          (if br_external st then messageRunner (bt_runner t) (TaskCanceled taskId ''Task execution timed out'') st else st))"

text \<open>Asking the requester of a task, as the handlers of runners do.\<close>

definition to_requester_of :: "string \<Rightarrow> to_requester \<Rightarrow> broker \<Rightarrow> broker" where
  "to_requester_of taskId message st =
     (case obj_get (br_tasks st) taskId of None \<Rightarrow> st | Some t \<Rightarrow> messageRequester (bt_requester t) message st)"

definition handleRpcRequest :: "string \<Rightarrow> string \<Rightarrow> string \<Rightarrow> json list \<Rightarrow> broker \<Rightarrow> broker" where
  "handleRpcRequest taskId callId name params = to_requester_of taskId (RpcRequest taskId callId name params)"

definition handleDataRequest :: "string \<Rightarrow> string \<Rightarrow> json \<Rightarrow> broker \<Rightarrow> broker" where
  "handleDataRequest taskId requestId params = to_requester_of taskId (TaskDataRequest taskId requestId params)"

definition handleNodeTypesRequest :: "string \<Rightarrow> string \<Rightarrow> json \<Rightarrow> broker \<Rightarrow> broker" where
  "handleNodeTypesRequest taskId requestId params = to_requester_of taskId (NodeTypesRequest taskId requestId params)"

text \<open>\<^verbatim>\<open>handleResponse\<close> looks for the requester among the runners.\<close>

definition handleResponse :: "string \<Rightarrow> string \<Rightarrow> json \<Rightarrow> broker \<Rightarrow> broker" where
  "handleResponse taskId requestId data st =
     (case obj_get (br_tasks st) taskId of
        None \<Rightarrow> st | Some t \<Rightarrow> messageRunner (bt_requester t) (TaskDataResponse taskId requestId data) st)"

section \<open>Accepting an offer\<close>

text \<open>A promise is settled once, and only by what belongs to its stage.\<close>

definition answer_accept :: "accept_stage \<Rightarrow> accept_answer \<Rightarrow> string \<Rightarrow> broker \<Rightarrow> broker" where
  "answer_accept stage answer taskId st =
     (case obj_get (br_acceptances st) taskId of
        None \<Rightarrow> st
      | Some a \<Rightarrow>
          if ac_stage a = stage \<and> ac_answer a = Unanswered
          then st\<lparr>br_acceptances := obj_set taskId (a\<lparr>ac_answer := answer\<rparr>) (br_acceptances st)\<rparr> else st)"

definition runner_answer :: "accept_answer \<Rightarrow> string \<Rightarrow> broker \<Rightarrow> broker" where
  "runner_answer answer taskId st =
     (if taskId \<in> set (br_runnerAccepts st)
      then answer_accept AwaitRunner answer taskId (st\<lparr>br_runnerAccepts := removeAll taskId (br_runnerAccepts st)\<rparr>)
      else st)"

definition handleRunnerAccept :: "string \<Rightarrow> broker \<Rightarrow> broker" where
  "handleRunnerAccept = runner_answer (Accepted JNull)"

definition handleRunnerReject :: "string \<Rightarrow> string \<Rightarrow> broker \<Rightarrow> broker" where
  "handleRunnerReject taskId reason = runner_answer (Refused reason) taskId"

definition handleRunnerDeferred :: "string \<Rightarrow> broker \<Rightarrow> broker" where
  "handleRunnerDeferred = runner_answer Deferred"

definition requester_answer :: "accept_answer \<Rightarrow> string \<Rightarrow> broker \<Rightarrow> broker" where
  "requester_answer answer taskId st =
     (if taskId \<in> set (br_requesterAccepts st)
      then answer_accept AwaitRequester answer taskId (st\<lparr>br_requesterAccepts := removeAll taskId (br_requesterAccepts st)\<rparr>)
      else st)"

definition handleRequesterAccept :: "string \<Rightarrow> json \<Rightarrow> broker \<Rightarrow> broker" where
  "handleRequesterAccept taskId settings = requester_answer (Accepted settings) taskId"

definition handleRequesterReject :: "string \<Rightarrow> string \<Rightarrow> broker \<Rightarrow> broker" where
  "handleRequesterReject taskId reason = requester_answer (Refused reason) taskId"

text \<open>The timers of two seconds.\<close>

definition accept_timer :: "string \<Rightarrow> broker \<Rightarrow> broker" where
  "accept_timer taskId st = answer_accept AwaitRequester AcceptTimeout taskId (answer_accept AwaitRunner AcceptTimeout taskId st)"

definition set_accepting :: "bool \<Rightarrow> nat \<Rightarrow> broker \<Rightarrow> broker" where
  "set_accepting b ref st =
     st\<lparr>br_requests := map (\<lambda>r. if rq_ref r = ref then r\<lparr>rq_accepting := b\<rparr> else r) (br_requests st)\<rparr>"

text \<open>\<^verbatim>\<open>acceptOffer\<close> up to the wait for the runner.\<close>

definition acceptOffer :: "(nat \<Rightarrow> string) \<Rightarrow> task_offer \<Rightarrow> task_request \<Rightarrow> broker \<Rightarrow> broker" where
  "acceptOffer nano offer r st =
     (let taskId = nano (br_taskCount st)
      in messageRunner (of_runner offer) (OfferAccepted (of_id offer) taskId)
           (st\<lparr>br_taskCount := Suc (br_taskCount st), br_runnerAccepts := br_runnerAccepts st @ [taskId],
              br_acceptances := obj_set taskId
                \<lparr>ac_offer = offer, ac_request = r, ac_stage = AwaitRunner, ac_answer = Unanswered\<rparr> (br_acceptances st)\<rparr>))"

definition drop_acceptance :: "string \<Rightarrow> broker \<Rightarrow> broker" where
  "drop_acceptance taskId st = st\<lparr>br_acceptances := obj_delete taskId (br_acceptances st)\<rparr>"

text \<open>The runner has accepted: the task exists, its request leaves the list and its requester is told.\<close>

definition runner_accepted :: "string \<Rightarrow> acceptance \<Rightarrow> broker \<Rightarrow> broker" where
  "runner_accepted taskId a st =
     (let r = ac_request a;
          st1 = (clearTimer (rq_timer r) st)\<lparr>br_tasks := obj_set taskId
            \<lparr>bt_runner = of_runner (ac_offer a), bt_requester = rq_requester r, bt_type = of_type (ac_offer a)\<rparr> (br_tasks st)\<rparr>
      in if rq_id r \<notin> rq_id ` set (br_requests st1) then drop_acceptance taskId st1
         else messageRequester (rq_requester r) (TaskReady (rq_id r) taskId)
           (st1\<lparr>br_requests := remove_request (rq_id r) (br_requests st1),
              br_requesterAccepts := br_requesterAccepts st1 @ [taskId],
              br_acceptances := obj_set taskId (a\<lparr>ac_stage := AwaitRequester, ac_answer := Unanswered\<rparr>) (br_acceptances st1)\<rparr>))"

text \<open>The runner needs more time: the request gets a new timer.\<close>

definition restart_timer :: "task_request \<Rightarrow> broker \<Rightarrow> broker" where
  "restart_timer r st =
     (case createRequestTimeout (rq_id r) (clearTimer (rq_timer r) st) of (h, st1) \<Rightarrow>
        st1\<lparr>br_requests := map (\<lambda>q. if rq_ref q = rq_ref r then q\<lparr>rq_timer := h\<rparr> else q) (br_requests st1)\<rparr>)"

text \<open>What \<^verbatim>\<open>acceptOffer\<close> does when the promise it waits for is settled.\<close>

definition continue_accept :: "string \<Rightarrow> broker \<Rightarrow> broker" where
  "continue_accept taskId st =
     (case obj_get (br_acceptances st) taskId of
        None \<Rightarrow> st
      | Some a \<Rightarrow>
          (case (ac_stage a, ac_answer a) of
             (_, Unanswered) \<Rightarrow> st
           | (AwaitRunner, Accepted _) \<Rightarrow> runner_accepted taskId a st
           | (AwaitRunner, Deferred) \<Rightarrow>
               drop_acceptance taskId (restart_timer (ac_request a) (set_accepting False (rq_ref (ac_request a)) st))
           | (AwaitRunner, _) \<Rightarrow> drop_acceptance taskId (set_accepting False (rq_ref (ac_request a)) st)
           | (AwaitRequester, Accepted settings) \<Rightarrow> drop_acceptance taskId (sendTaskSettings taskId settings st)
           | (AwaitRequester, Refused reason) \<Rightarrow> drop_acceptance taskId (cancelTask taskId reason st)
           | (AwaitRequester, _) \<Rightarrow>
               (let st1 = cancelTask taskId ''Unknown reason'' st
                in drop_acceptance taskId (st1\<lparr>br_thrown := br_thrown st1 @ [RequesterTimedOut]\<rparr>))))"

section \<open>Matching\<close>

definition expired :: "int \<Rightarrow> task_offer \<Rightarrow> bool" where
  "expired now offer \<longleftrightarrow> of_validFor offer \<noteq> -1 \<and> of_validUntil offer < now"

definition expireTasks :: "int \<Rightarrow> broker \<Rightarrow> broker" where
  "expireTasks now st = st\<lparr>br_offers := filter (\<lambda>offer. \<not> expired now offer) (br_offers st)\<rparr>"

definition warnOnTaskTypeMismatch :: "task_request \<Rightarrow> broker \<Rightarrow> broker" where
  "warnOnTaskTypeMismatch r st =
     (if br_offers st = [] \<or> rq_id r \<in> set (br_warned st) then st else st\<lparr>br_warned := br_warned st @ [rq_id r]\<rparr>)"

definition settle_request :: "(nat \<Rightarrow> string) \<Rightarrow> task_request \<Rightarrow> broker \<Rightarrow> broker" where
  "settle_request nano r st =
     (if rq_accepting r then st
      else (case find (\<lambda>offer. of_type offer = rq_type r) (br_offers st) of
              None \<Rightarrow> warnOnTaskTypeMismatch r st
            | Some offer \<Rightarrow> acceptOffer nano offer r
                ((set_accepting True (rq_ref r) st)\<lparr>br_offers := remove1 offer (br_offers st),
                   br_warned := removeAll (rq_id r) (br_warned st)\<rparr>)))"

definition settleTasks :: "(nat \<Rightarrow> string) \<Rightarrow> int \<Rightarrow> broker \<Rightarrow> broker" where
  "settleTasks nano now st = fold (settle_request nano) (br_requests st) (expireTasks now st)"

definition taskRequested :: "(nat \<Rightarrow> string) \<Rightarrow> int \<Rightarrow> task_request \<Rightarrow> broker \<Rightarrow> broker" where
  "taskRequested nano now r st =
     (if br_draining st
      then messageRequester (rq_requester r) (RequestExpired (rq_id r) ''draining'') (clearTimer (rq_timer r) st)
      else settleTasks nano now (st\<lparr>br_requests := br_requests st @ [r]\<rparr>))"

definition taskOffered :: "(nat \<Rightarrow> string) \<Rightarrow> int \<Rightarrow> task_offer \<Rightarrow> broker \<Rightarrow> broker" where
  "taskOffered nano now offer st = settleTasks nano now (st\<lparr>br_offers := br_offers st @ [offer]\<rparr>)"

section \<open>Runners and requesters\<close>

definition registerRunner :: "string \<Rightarrow> broker \<Rightarrow> broker" where
  "registerRunner runnerId st = messageRunner runnerId RunnerRegistered (st\<lparr>br_runners := List.insert runnerId (br_runners st)\<rparr>)"

definition deregisterRunner :: "string \<Rightarrow> string \<Rightarrow> broker \<Rightarrow> broker" where
  "deregisterRunner runnerId e st =
     (let st1 = st\<lparr>br_runners := removeAll runnerId (br_runners st),
                   br_offers := filter (\<lambda>offer. of_runner offer \<noteq> runnerId) (br_offers st)\<rparr>
      in fold (\<lambda>taskId st. handleRunnerReject taskId e (failTask taskId (Disconnected e) st))
           (obj_keys (filter (\<lambda>(taskId, t). bt_runner t = runnerId) (br_tasks st1))) st1)"

definition registerRequester :: "string \<Rightarrow> broker \<Rightarrow> broker" where
  "registerRequester requesterId st = st\<lparr>br_requesters := List.insert requesterId (br_requesters st)\<rparr>"

definition deregisterRequester :: "string \<Rightarrow> broker \<Rightarrow> broker" where
  "deregisterRequester requesterId st = st\<lparr>br_requesters := removeAll requesterId (br_requesters st)\<rparr>"

definition startDraining :: "broker \<Rightarrow> broker" where
  "startDraining st = st\<lparr>br_draining := True\<rparr>"

definition hasActiveTasks :: "broker \<Rightarrow> bool" where
  "hasActiveTasks st \<longleftrightarrow> br_tasks st \<noteq> []"

datatype runner_message =
    RunnerAccepts string | RunnerRejects string string | RunnerDefers string | RunnerOffers string string int
  | RunnerDone string json | RunnerFails string json | RunnerData string string json | RunnerNodeTypes string string json
  | RunnerRpc string string string "json list" | RunnerInfo

definition onRunnerMessage :: "(nat \<Rightarrow> string) \<Rightarrow> int \<Rightarrow> string \<Rightarrow> runner_message \<Rightarrow> broker \<Rightarrow> broker" where
  "onRunnerMessage nano now runnerId message st =
     (if runnerId \<notin> set (br_runners st) then st
      else (case message of
          RunnerAccepts taskId \<Rightarrow> handleRunnerAccept taskId st
        | RunnerRejects taskId reason \<Rightarrow> handleRunnerReject taskId reason st
        | RunnerDefers taskId \<Rightarrow> handleRunnerDeferred taskId st
        | RunnerOffers taskType offerId validFor \<Rightarrow>
            taskOffered nano now \<lparr>of_id = offerId, of_runner = runnerId, of_type = taskType, of_validFor = validFor,
              of_validUntil = (if validFor = -1 then 0 else now + validFor * 1000000)\<rparr> st
        | RunnerDone taskId data \<Rightarrow> taskDoneHandler taskId data st
        | RunnerFails taskId e \<Rightarrow> taskErrorHandler taskId (FromRunner e) st
        | RunnerData taskId requestId params \<Rightarrow> handleDataRequest taskId requestId params st
        | RunnerNodeTypes taskId requestId params \<Rightarrow> handleNodeTypesRequest taskId requestId params st
        | RunnerRpc taskId callId name params \<Rightarrow> handleRpcRequest taskId callId name params st
        | RunnerInfo \<Rightarrow> st))"

datatype requester_message =
    RequesterSettings string json | RequesterCancels string string | RequesterAsks string string
  | RequesterData string string json | RequesterNodeTypes string string json | RequesterRpc string string string json

definition onRequesterMessage :: "(nat \<Rightarrow> string) \<Rightarrow> int \<Rightarrow> string \<Rightarrow> requester_message \<Rightarrow> broker \<Rightarrow> broker" where
  "onRequesterMessage nano now requesterId message st =
     (case message of
        RequesterSettings taskId settings \<Rightarrow> handleRequesterAccept taskId settings st
      | RequesterCancels taskId reason \<Rightarrow> cancelTask taskId reason st
      | RequesterAsks taskType requestId \<Rightarrow>
          (case createRequestTimeout requestId st of (h, st1) \<Rightarrow>
             taskRequested nano now \<lparr>rq_ref = br_refs st1, rq_id = requestId, rq_requester = requesterId, rq_type = taskType,
               rq_timer = h, rq_accepting = False\<rparr> (st1\<lparr>br_refs := Suc (br_refs st1)\<rparr>))
      | RequesterData taskId requestId data \<Rightarrow> handleRequesterDataResponse taskId requestId data st
      | RequesterNodeTypes taskId requestId nodeTypes \<Rightarrow> handleRequesterNodeTypesResponse taskId requestId nodeTypes st
      | RequesterRpc taskId callId status data \<Rightarrow> handleRequesterRpcResponse taskId callId status data st)"

section \<open>Runs\<close>

datatype broker_event =
    RunnerConnects string | RunnerLeaves string string | RequesterConnects string | RequesterLeaves string
  | FromRunnerMsg int string runner_message | FromRequesterMsg int string requester_message
  | RequestTimer nat | TaskTimer string | AcceptTimer string | GoesOn string | Drain

text \<open>A timer fires once, and only while it is running.\<close>

definition broker_step :: "(nat \<Rightarrow> string) \<Rightarrow> broker_event \<Rightarrow> broker \<Rightarrow> broker" where
  "broker_step nano ev st =
     (case ev of
        RunnerConnects i \<Rightarrow> registerRunner i st
      | RunnerLeaves i e \<Rightarrow> deregisterRunner i e st
      | RequesterConnects i \<Rightarrow> registerRequester i st
      | RequesterLeaves i \<Rightarrow> deregisterRequester i st
      | FromRunnerMsg now i message \<Rightarrow> onRunnerMessage nano now i message st
      | FromRequesterMsg now i message \<Rightarrow> onRequesterMessage nano now i message st
      | RequestTimer h \<Rightarrow>
          (case obj_get (br_timers st) h of
             None \<Rightarrow> st | Some requestId \<Rightarrow> handleRequestTimeout requestId (clearTimer h st))
      | TaskTimer taskId \<Rightarrow>
          (if taskId \<in> set (br_taskTimers st)
           then handleTaskTimeout taskId (st\<lparr>br_taskTimers := removeAll taskId (br_taskTimers st)\<rparr>) else st)
      | AcceptTimer taskId \<Rightarrow> accept_timer taskId st
      | GoesOn taskId \<Rightarrow> continue_accept taskId st
      | Drain \<Rightarrow> startDraining st)"

definition broker_run :: "(nat \<Rightarrow> string) \<Rightarrow> broker_event list \<Rightarrow> broker \<Rightarrow> broker" where
  "broker_run nano = fold (broker_step nano)"

end
