(* ===== verification/Broker_Facts.thy ===== *)
theory Broker_Facts
  imports Task_Broker
begin

text \<open>
  The laws of \<open>Task_Broker\<close>: offers are matched in order, type by type; every request is answered
  exactly once; a request that waits is idle or asked about at one runner, and its timer runs. A request
  that expires while its runner decides leaves a task that nobody ends.
\<close>

section \<open>Matching\<close>

definition of_types :: "string \<Rightarrow> task_offer list \<Rightarrow> task_offer list" where
  "of_types ty = filter (\<lambda>offer. of_type offer = ty)"

definition idle_of :: "string \<Rightarrow> task_request list \<Rightarrow> task_request list" where
  "idle_of ty = filter (\<lambda>r. \<not> rq_accepting r \<and> rq_type r = ty)"

text \<open>The pairs that the loop makes.\<close>

fun matched :: "task_request list \<Rightarrow> task_offer list \<Rightarrow> (task_request \<times> task_offer) list" where
  "matched [] os = []"
| "matched (r # rs) os =
     (if rq_accepting r then matched rs os
      else (case find (\<lambda>offer. of_type offer = rq_type r) os of
              None \<Rightarrow> matched rs os | Some offer \<Rightarrow> (r, offer) # matched rs (remove1 offer os)))"

fun unmatched :: "task_request list \<Rightarrow> task_offer list \<Rightarrow> task_offer list" where
  "unmatched [] os = os"
| "unmatched (r # rs) os =
     (if rq_accepting r then unmatched rs os
      else (case find (\<lambda>offer. of_type offer = rq_type r) os of
              None \<Rightarrow> unmatched rs os | Some offer \<Rightarrow> unmatched rs (remove1 offer os)))"

lemma find_first: "find (\<lambda>offer. of_type offer = ty) os = (case of_types ty os of [] \<Rightarrow> None | offer # _ \<Rightarrow> Some offer)"
  by (induction os) (auto simp: of_types_def)

lemma of_types_remove1:
  assumes "of_types ty os = offer # rest"
  shows "of_types ty (remove1 offer os) = rest" "ty' \<noteq> ty \<Longrightarrow> of_types ty' (remove1 offer os) = of_types ty' os"
proof -
  have "offer \<in> set (of_types ty os)" using assms by simp
  then have t: "of_type offer = ty" by (simp add: of_types_def)
  have "of_types ty (remove1 offer os) = remove1 offer (of_types ty os)"
    by (simp add: of_types_def filter_remove1)
  with assms show "of_types ty (remove1 offer os) = rest" by simp
  show "ty' \<noteq> ty \<Longrightarrow> of_types ty' (remove1 offer os) = of_types ty' os"
    using t by (induction os) (auto simp: of_types_def)
qed

lemma matched_by_type:
  "filter (\<lambda>(r, offer). of_type offer = ty) (matched rs os) = zip (idle_of ty rs) (of_types ty os)"
  "of_types ty (unmatched rs os) = drop (length (idle_of ty rs)) (of_types ty os)"
proof -
  have "filter (\<lambda>(r, offer). of_type offer = ty) (matched rs os) = zip (idle_of ty rs) (of_types ty os) \<and>
    of_types ty (unmatched rs os) = drop (length (idle_of ty rs)) (of_types ty os)"
  proof (induction rs arbitrary: os)
    case (Cons r rs)
    show ?case
    proof (cases "rq_accepting r")
      case True
      then show ?thesis using Cons.IH [of os] by (simp add: idle_of_def)
    next
      case idle: False
      show ?thesis
      proof (cases "of_types (rq_type r) os")
        case Nil
        with idle Cons.IH [of os] show ?thesis by (auto simp: find_first idle_of_def)
      next
        case (Cons offer rest)
        then have "offer \<in> set (of_types (rq_type r) os)" by simp
        then have "of_type offer = rq_type r" by (simp add: of_types_def)
        with idle Cons of_types_remove1 [OF Cons] Cons.IH [of "remove1 offer os"] show ?thesis
          by (cases "rq_type r = ty") (auto simp: find_first idle_of_def)
      qed
    qed
  qed (simp_all add: idle_of_def)
  then show "filter (\<lambda>(r, offer). of_type offer = ty) (matched rs os) = zip (idle_of ty rs) (of_types ty os)"
    "of_types ty (unmatched rs os) = drop (length (idle_of ty rs)) (of_types ty os)" by blast+
qed

lemma matched_types: "(r, offer) \<in> set (matched rs os) \<Longrightarrow> of_type offer = rq_type r \<and> r \<in> set rs \<and> \<not> rq_accepting r"
proof (induction rs arbitrary: os)
  case (Cons x rs)
  then show ?case by (auto split: if_splits option.splits simp: find_Some_iff)
qed simp

section \<open>What messages and timers leave alone\<close>

lemma message_frame [simp]:
  "br_requests (messageRunner i m st) = br_requests st" "br_requests (messageRequester i x st) = br_requests st"
  "br_acceptances (messageRunner i m st) = br_acceptances st" "br_acceptances (messageRequester i x st) = br_acceptances st"
  "br_offers (messageRunner i m st) = br_offers st" "br_offers (messageRequester i x st) = br_offers st"
  "br_timers (messageRunner i m st) = br_timers st" "br_timers (messageRequester i x st) = br_timers st"
  "br_handles (messageRunner i m st) = br_handles st" "br_handles (messageRequester i x st) = br_handles st"
  "br_refs (messageRunner i m st) = br_refs st" "br_refs (messageRequester i x st) = br_refs st"
  "br_tasks (messageRunner i m st) = br_tasks st" "br_tasks (messageRequester i x st) = br_tasks st"
  "br_taskCount (messageRunner i m st) = br_taskCount st" "br_taskCount (messageRequester i x st) = br_taskCount st"
  "br_runnerAccepts (messageRunner i m st) = br_runnerAccepts st" "br_runnerAccepts (messageRequester i x st) = br_runnerAccepts st"
  "br_taskTimers (messageRunner i m st) = br_taskTimers st" "br_taskTimers (messageRequester i x st) = br_taskTimers st"
  "br_runners (messageRunner i m st) = br_runners st" "br_runners (messageRequester i x st) = br_runners st"
  "br_requesters (messageRunner i m st) = br_requesters st" "br_requesters (messageRequester i x st) = br_requesters st"
  "br_toRequesters (messageRunner i m st) = br_toRequesters st"
  by (simp_all add: messageRunner_def messageRequester_def)

lemma set_accepting_frame [simp]:
  "br_acceptances (set_accepting b k st) = br_acceptances st" "br_offers (set_accepting b k st) = br_offers st"
  "br_timers (set_accepting b k st) = br_timers st" "br_handles (set_accepting b k st) = br_handles st"
  "br_refs (set_accepting b k st) = br_refs st" "br_tasks (set_accepting b k st) = br_tasks st"
  "br_taskCount (set_accepting b k st) = br_taskCount st" "br_runnerAccepts (set_accepting b k st) = br_runnerAccepts st"
  "br_requesters (set_accepting b k st) = br_requesters st" "br_toRequesters (set_accepting b k st) = br_toRequesters st"
  "br_runners (set_accepting b k st) = br_runners st" "br_taskTimers (set_accepting b k st) = br_taskTimers st"
  by (simp_all add: set_accepting_def)

lemma warns: "\<exists>w. warnOnTaskTypeMismatch r st = st\<lparr>br_warned := w\<rparr>"
proof (cases "br_offers st = [] \<or> rq_id r \<in> set (br_warned st)")
  case True
  then have "warnOnTaskTypeMismatch r st = st\<lparr>br_warned := br_warned st\<rparr>" by (simp add: warnOnTaskTypeMismatch_def)
  then show ?thesis by blast
qed (auto simp: warnOnTaskTypeMismatch_def)

text \<open>What the matching of offers and requests leaves alone.\<close>

definition timeless :: "broker \<Rightarrow> (nat \<times> string) list \<times> nat \<times> nat \<times> (string \<times> to_requester) list \<times> string list" where
  "timeless st = (br_timers st, br_handles st, br_refs st, br_toRequesters st, br_requesters st)"

text \<open>A state that a step of the loop over the requests leaves, in one equation.\<close>

definition asked_about :: "(nat \<Rightarrow> string) \<Rightarrow> task_request \<Rightarrow> task_offer \<Rightarrow> broker \<Rightarrow> broker \<Rightarrow> bool" where
  "asked_about nano r offer st st' \<longleftrightarrow>
     br_offers st' = remove1 offer (br_offers st) \<and>
     br_requests st' = map (\<lambda>q. if rq_ref q = rq_ref r then q\<lparr>rq_accepting := True\<rparr> else q) (br_requests st) \<and>
     br_acceptances st' = obj_set (nano (br_taskCount st))
       \<lparr>ac_offer = offer, ac_request = r, ac_stage = AwaitRunner, ac_answer = Unanswered\<rparr> (br_acceptances st) \<and>
     br_taskCount st' = Suc (br_taskCount st) \<and> br_runnerAccepts st' = br_runnerAccepts st @ [nano (br_taskCount st)] \<and>
     br_timers st' = br_timers st \<and> br_handles st' = br_handles st \<and> br_refs st' = br_refs st \<and> br_tasks st' = br_tasks st \<and>
     br_toRequesters st' = br_toRequesters st \<and> br_requesters st' = br_requesters st \<and> br_taskTimers st' = br_taskTimers st \<and>
     br_runners st' = br_runners st"

lemma settle_request_cases:
  obtains (accepting) "rq_accepting r" "settle_request nano r st = st"
  | (none) w where "\<not> rq_accepting r" "of_types (rq_type r) (br_offers st) = []"
      "settle_request nano r st = st\<lparr>br_warned := w\<rparr>"
  | (asked) offer rest where "\<not> rq_accepting r" "of_types (rq_type r) (br_offers st) = offer # rest"
      "asked_about nano r offer st (settle_request nano r st)"
proof (cases "rq_accepting r")
  case True
  with accepting show ?thesis by (simp add: settle_request_def)
next
  case idle: False
  show ?thesis
  proof (cases "of_types (rq_type r) (br_offers st)")
    case Nil
    with idle have "settle_request nano r st = warnOnTaskTypeMismatch r st"
      by (simp add: settle_request_def find_first)
    with none idle Nil warns show ?thesis by metis
  next
    case (Cons offer rest)
    with idle have "asked_about nano r offer st (settle_request nano r st)"
      by (simp add: settle_request_def find_first asked_about_def acceptOffer_def Let_def set_accepting_def)
    with asked idle Cons show ?thesis by blast
  qed
qed

section \<open>Tasks and their ids\<close>

text \<open>Ids are used once; a task whose runner has accepted is not waited for any more.\<close>

definition ids_ok :: "(nat \<Rightarrow> string) \<Rightarrow> broker \<Rightarrow> bool" where
  "ids_ok nano st \<longleftrightarrow> obj_wf (br_acceptances st) \<and>
     (\<forall>i \<in> fst ` set (br_acceptances st) \<union> fst ` set (br_tasks st) \<union> set (br_runnerAccepts st). \<exists>k < br_taskCount st. i = nano k) \<and>
     (\<forall>i \<in> set (br_runnerAccepts st). i \<notin> fst ` set (br_tasks st)) \<and>
     (\<forall>(i, a) \<in> set (br_acceptances st). i \<in> set (br_runnerAccepts st) \<longrightarrow> (\<forall>x. ac_answer a \<noteq> Accepted x \<and> ac_stage a = AwaitRunner))"

lemma ids_okD:
  assumes "ids_ok nano st"
  shows "obj_wf (br_acceptances st)"
    and "i \<in> set (br_runnerAccepts st) \<Longrightarrow> i \<notin> fst ` set (br_tasks st)"
    and "(i, a) \<in> set (br_acceptances st) \<Longrightarrow> i \<in> set (br_runnerAccepts st) \<Longrightarrow> ac_answer a \<noteq> Accepted x \<and> ac_stage a = AwaitRunner"
  using assms unfolding ids_ok_def by blast+

lemma fresh_id:
  assumes "inj nano" "ids_ok nano st"
  shows "nano (br_taskCount st) \<notin> fst ` set (br_acceptances st) \<union> fst ` set (br_tasks st) \<union> set (br_runnerAccepts st)"
proof
  assume "nano (br_taskCount st) \<in> fst ` set (br_acceptances st) \<union> fst ` set (br_tasks st) \<union> set (br_runnerAccepts st)"
  with assms(2) obtain k where "k < br_taskCount st" "nano (br_taskCount st) = nano k" unfolding ids_ok_def by blast
  with assms(1) show False by (auto dest: injD)
qed

lemma obj_set_fresh: "k \<notin> fst ` set m \<Longrightarrow> obj_set k v m = m @ [(k, v)]"
  by (induction m) auto

lemma asked_acceptances:
  assumes "inj nano" "ids_ok nano st" "asked_about nano r offer st st'"
  shows "br_acceptances st' = br_acceptances st @ [(nano (br_taskCount st),
    \<lparr>ac_offer = offer, ac_request = r, ac_stage = AwaitRunner, ac_answer = Unanswered\<rparr>)]"
  using assms(3) fresh_id [OF assms(1,2)] by (simp add: asked_about_def obj_set_fresh)

lemma asked_ids_ok:
  assumes "inj nano" "ids_ok nano st" "asked_about nano r offer st st'"
  shows "ids_ok nano st'"
proof -
  note f = fresh_id [OF assms(1,2)] and a = asked_acceptances [OF assms]
  have e: "br_taskCount st' = Suc (br_taskCount st)" "br_tasks st' = br_tasks st"
    "br_runnerAccepts st' = br_runnerAccepts st @ [nano (br_taskCount st)]"
    using assms(3) by (simp_all add: asked_about_def)
  have "obj_wf (br_acceptances st')" using f a assms(2) by (auto simp: ids_ok_def obj_wf_def)
  moreover have "\<exists>k < br_taskCount st'. i = nano k"
    if "i \<in> fst ` set (br_acceptances st') \<union> fst ` set (br_tasks st') \<union> set (br_runnerAccepts st')" for i
  proof (cases "i = nano (br_taskCount st)")
    case False
    with that a e have "i \<in> fst ` set (br_acceptances st) \<union> fst ` set (br_tasks st) \<union> set (br_runnerAccepts st)" by auto
    with assms(2) obtain k where "k < br_taskCount st" "i = nano k" unfolding ids_ok_def by blast
    with e(1) show ?thesis by (intro exI [of _ k]) simp
  qed (use e(1) in auto)
  moreover have "\<forall>i \<in> set (br_runnerAccepts st'). i \<notin> fst ` set (br_tasks st')"
    using f e assms(2) by (auto simp: ids_ok_def)
  moreover have "i \<in> set (br_runnerAccepts st') \<longrightarrow> (\<forall>x. ac_answer c \<noteq> Accepted x \<and> ac_stage c = AwaitRunner)"
    if "(i, c) \<in> set (br_acceptances st')" for i c
  proof (cases "(i, c) \<in> set (br_acceptances st)")
    case True
    then have "i \<noteq> nano (br_taskCount st)" using f by force
    with True e assms(2) show ?thesis by (auto simp: ids_ok_def)
  next
    case False
    with that a show ?thesis by simp
  qed
  ultimately show ?thesis unfolding ids_ok_def by auto
qed

text \<open>The loop makes the pairs of \<open>matched\<close>.\<close>

lemma settle_loop:
  assumes "inj nano" "ids_ok nano st"
  shows "\<exists>ts. br_acceptances (fold (settle_request nano) rs st) = br_acceptances st @ ts \<and>
    map (\<lambda>(i, a). (ac_request a, ac_offer a)) ts = matched rs (br_offers st) \<and>
    br_offers (fold (settle_request nano) rs st) = unmatched rs (br_offers st) \<and>
    br_requests (fold (settle_request nano) rs st) =
      map (\<lambda>q. if rq_ref q \<in> rq_ref ` fst ` set (matched rs (br_offers st)) then q\<lparr>rq_accepting := True\<rparr> else q) (br_requests st) \<and>
    (\<forall>(i, a) \<in> set ts. ac_stage a = AwaitRunner) \<and> ids_ok nano (fold (settle_request nano) rs st)"
  (is "\<exists>ts. ?P ts rs st")
  using assms(2)
proof (induction rs arbitrary: st)
  case (Cons r rs)
  show ?case
  proof (cases rule: settle_request_cases [where r = r and nano = nano and st = st])
    case accepting
    with Cons.IH [OF Cons.prems] show ?thesis by simp
  next
    case (none w)
    have "ids_ok nano (st\<lparr>br_warned := w\<rparr>)" using Cons.prems by (simp add: ids_ok_def)
    from Cons.IH [OF this] none show ?thesis by (simp add: find_first)
  next
    case (asked offer rest)
    let ?st1 = "settle_request nano r st"
    have f: "find (\<lambda>offer. of_type offer = rq_type r) (br_offers st) = Some offer" using asked(2) by (simp add: find_first)
    have o: "br_offers ?st1 = remove1 offer (br_offers st)" using asked(3) by (simp add: asked_about_def)
    have q: "br_requests ?st1 = map (\<lambda>q. if rq_ref q = rq_ref r then q\<lparr>rq_accepting := True\<rparr> else q) (br_requests st)"
      using asked(3) by (simp add: asked_about_def)
    from Cons.IH [OF asked_ids_ok [OF assms(1) Cons.prems asked(3)]] obtain ts where
      ts: "br_acceptances (fold (settle_request nano) rs ?st1) = br_acceptances ?st1 @ ts"
      "map (\<lambda>(i, a). (ac_request a, ac_offer a)) ts = matched rs (br_offers ?st1)"
      "br_offers (fold (settle_request nano) rs ?st1) = unmatched rs (br_offers ?st1)"
      "br_requests (fold (settle_request nano) rs ?st1) =
        map (\<lambda>q. if rq_ref q \<in> rq_ref ` fst ` set (matched rs (br_offers ?st1)) then q\<lparr>rq_accepting := True\<rparr> else q) (br_requests ?st1)"
      "\<forall>(i, a) \<in> set ts. ac_stage a = AwaitRunner" "ids_ok nano (fold (settle_request nano) rs ?st1)" by blast
    let ?new = "(nano (br_taskCount st), \<lparr>ac_offer = offer, ac_request = r, ac_stage = AwaitRunner, ac_answer = Unanswered\<rparr>)"
    have "br_acceptances (fold (settle_request nano) rs ?st1) = br_acceptances st @ (?new # ts)"
      using ts(1) asked_acceptances [OF assms(1) Cons.prems asked(3)] by simp
    moreover have "map (\<lambda>(i, a). (ac_request a, ac_offer a)) (?new # ts) = matched (r # rs) (br_offers st)"
      using ts(2) o asked(1) f by simp
    moreover have "br_offers (fold (settle_request nano) rs ?st1) = unmatched (r # rs) (br_offers st)"
      using ts(3) o asked(1) f by simp
    moreover have "br_requests (fold (settle_request nano) rs ?st1) = map (\<lambda>q. if rq_ref q \<in> rq_ref ` fst `
        set (matched (r # rs) (br_offers st)) then q\<lparr>rq_accepting := True\<rparr> else q) (br_requests st)"
      unfolding ts(4) q using o asked(1) f by (auto simp: comp_def)
    ultimately show ?thesis using ts(5,6) by auto
  qed
qed simp

lemma settle_frame:
  "timeless (fold (settle_request nano) rs st) = timeless st \<and> br_tasks (fold (settle_request nano) rs st) = br_tasks st \<and>
     br_taskTimers (fold (settle_request nano) rs st) = br_taskTimers st \<and> br_runners (fold (settle_request nano) rs st) = br_runners st"
proof (induction rs arbitrary: st)
  case (Cons r rs)
  have "timeless (settle_request nano r st) = timeless st \<and> br_tasks (settle_request nano r st) = br_tasks st \<and>
      br_taskTimers (settle_request nano r st) = br_taskTimers st \<and> br_runners (settle_request nano r st) = br_runners st"
    by (cases rule: settle_request_cases [where r = r and nano = nano and st = st]) (simp_all add: timeless_def asked_about_def)
  with Cons.IH [of "settle_request nano r st"] show ?case by simp
qed simp

lemma settle_tasks: "br_tasks (settleTasks nano now st) = br_tasks st"
  using settle_frame [of nano "br_requests st" "expireTasks now st"] by (simp add: settleTasks_def expireTasks_def)

section \<open>The handlers of tasks\<close>

definition reply_to :: "to_requester \<Rightarrow> string option" where
  "reply_to m = (case m of TaskReady i _ \<Rightarrow> Some i | RequestExpired i _ \<Rightarrow> Some i | _ \<Rightarrow> None)"

definition replies :: "broker \<Rightarrow> (string \<times> to_requester) list" where
  "replies st = filter (\<lambda>(i, m). reply_to m \<noteq> None) (br_toRequesters st)"

text \<open>They end tasks and send messages that answer no request.\<close>

definition requests_of :: "broker \<Rightarrow> task_request list \<times> (string, acceptance) obj \<times> (nat \<times> string) list \<times> nat \<times> nat \<times>
    (string \<times> to_requester) list \<times> string list \<times> nat \<times> string list" where
  "requests_of st = (br_requests st, br_acceptances st, br_timers st, br_handles st, br_refs st, replies st, br_requesters st,
     br_taskCount st, br_runnerAccepts st)"

definition tasks_only :: "broker \<Rightarrow> broker \<Rightarrow> bool" where
  "tasks_only st st' \<longleftrightarrow> requests_of st' = requests_of st \<and> set (br_tasks st') \<subseteq> set (br_tasks st) \<and>
     (obj_wf (br_tasks st) \<longrightarrow> obj_wf (br_tasks st'))"

lemma quiet_refl [simp]: "tasks_only st st"
  by (simp add: tasks_only_def)

lemma quiet_trans [trans]: "tasks_only st st1 \<Longrightarrow> tasks_only st1 st2 \<Longrightarrow> tasks_only st st2"
  by (auto simp: tasks_only_def)

lemma replies_message [simp]:
  "replies (messageRunner i m st) = replies st"
  "reply_to x = None \<Longrightarrow> replies (messageRequester i x st) = replies st"
  by (auto simp: replies_def messageRunner_def messageRequester_def)

lemma quiet_message: "tasks_only st (messageRunner i m st)" "reply_to x = None \<Longrightarrow> tasks_only st (messageRequester i x st)"
  by (simp_all add: tasks_only_def requests_of_def)

lemma quiet_fields:
  "tasks_only st (st\<lparr>br_taskTimers := ts\<rparr>)" "tasks_only st (st\<lparr>br_thrown := es\<rparr>)" "tasks_only st (st\<lparr>br_tasks := obj_delete i (br_tasks st)\<rparr>)"
  "tasks_only st (st\<lparr>br_offers := os\<rparr>)" "tasks_only st (st\<lparr>br_runners := rs\<rparr>)" "tasks_only st (st\<lparr>br_draining := d\<rparr>)"
  using obj_wf_delete [of "br_tasks st" i] by (auto simp: tasks_only_def requests_of_def replies_def obj_delete_in)

lemma quiet_cancel: "tasks_only st (cancelTask i reason st)"
  unfolding cancelTask_def using quiet_trans [OF quiet_fields(3) quiet_message(1)] by (auto split: option.split)

lemma quiet_fail: "tasks_only st (failTask i e st)"
  unfolding failTask_def using quiet_trans [OF quiet_fields(3) quiet_message(2)] by (auto simp: reply_to_def split: option.split)

lemma quiet_getRunner: "getRunnerOrFailTask i st = (found, st') \<Longrightarrow> tasks_only st st'"
  using quiet_trans [OF quiet_fail quiet_fields(2)]
  by (auto simp: getRunnerOrFailTask_def quiet_fields Let_def split: option.splits if_splits)

lemma quiet_to_runner: "tasks_only st (to_runner_of i m st)"
proof (cases "getRunnerOrFailTask i st")
  case (Pair found st1)
  from quiet_getRunner [OF Pair] quiet_trans [OF quiet_getRunner [OF Pair] quiet_message(1)] Pair show ?thesis
    by (auto simp: to_runner_of_def split: option.split)
qed

lemma quiet_settings: "tasks_only st (sendTaskSettings i x st)"
proof (cases "getRunnerOrFailTask i st")
  case (Pair found st1)
  from quiet_getRunner [OF Pair] quiet_trans [OF quiet_trans [OF quiet_getRunner [OF Pair] quiet_fields(1)] quiet_message(1)] Pair
  show ?thesis by (auto simp: sendTaskSettings_def split: option.split)
qed

lemma quiet_end: "reply_to m = None \<Longrightarrow> tasks_only st (end_task i m st)"
  using quiet_trans [OF quiet_trans [OF quiet_fields(1) quiet_message(2)] quiet_fields(3)]
  by (auto simp: end_task_def Let_def split: option.split)

lemma quiet_to_requester: "reply_to m = None \<Longrightarrow> tasks_only st (to_requester_of i m st)"
  by (simp add: to_requester_of_def quiet_message split: option.split)

lemma quiet_timeout: "tasks_only st (handleTaskTimeout i st)"
  using quiet_trans [OF quiet_message(1) quiet_end, of "TaskError i TaskTimedOut" st]
  by (auto simp: handleTaskTimeout_def taskErrorHandler_def quiet_end reply_to_def split: option.split)

lemmas task_handler_defs = handleRequesterRpcResponse_def handleRequesterDataResponse_def handleRequesterNodeTypesResponse_def
  taskDoneHandler_def taskErrorHandler_def handleRpcRequest_def handleDataRequest_def handleNodeTypesRequest_def

lemmas quiet_handlers = quiet_cancel quiet_fail quiet_to_runner quiet_settings quiet_end quiet_to_requester quiet_timeout

section \<open>Answers\<close>

text \<open>The requests that a runner is being asked about.\<close>

definition asked_for :: "broker \<Rightarrow> task_request list" where
  "asked_for st = map (ac_request \<circ> snd) (filter (\<lambda>(i, a). ac_stage a = AwaitRunner) (br_acceptances st))"

text \<open>Settling a promise.\<close>

definition settles :: "broker \<Rightarrow> broker \<Rightarrow> bool" where
  "settles st st' \<longleftrightarrow> br_requests st' = br_requests st \<and> asked_for st' = asked_for st \<and> timeless st' = timeless st \<and>
     br_tasks st' = br_tasks st \<and> br_taskCount st' = br_taskCount st \<and> set (br_runnerAccepts st') \<subseteq> set (br_runnerAccepts st) \<and>
     fst ` set (br_acceptances st') = fst ` set (br_acceptances st)"

lemma settles_refl [simp]: "settles st st"
  by (simp add: settles_def)

lemma settles_trans: "settles st st1 \<Longrightarrow> settles st1 st2 \<Longrightarrow> settles st st2"
  by (auto simp: settles_def)

lemma obj_set_known_keys: "i \<in> fst ` set m \<Longrightarrow> fst ` set (obj_set i v m) = fst ` set m"
  by (induction m) auto

lemma asked_for_set:
  assumes "obj_get m i = Some a" "ac_stage b = ac_stage a" "ac_request b = ac_request a"
  shows "map (ac_request \<circ> snd) (filter (\<lambda>(i, a). ac_stage a = AwaitRunner) (obj_set i b m)) =
    map (ac_request \<circ> snd) (filter (\<lambda>(i, a). ac_stage a = AwaitRunner) m)"
  using assms by (induction m) (auto split: if_splits)

lemma settles_answer: "settles st (answer_accept stage x i st)"
proof (cases "obj_get (br_acceptances st) i")
  case (Some a)
  then have "i \<in> fst ` set (br_acceptances st)" by (rule obj_get_key)
  with asked_for_set [OF Some, of "a\<lparr>ac_answer := x\<rparr>"] obj_set_known_keys [OF this] Some show ?thesis
    by (simp add: answer_accept_def settles_def asked_for_def timeless_def)
qed (simp add: answer_accept_def)

lemma settles_runner: "settles st (runner_answer x i st)"
proof -
  have "settles st (st\<lparr>br_runnerAccepts := removeAll i (br_runnerAccepts st)\<rparr>)"
    by (auto simp: settles_def asked_for_def timeless_def)
  from settles_trans [OF this settles_answer] show ?thesis by (simp add: runner_answer_def)
qed

lemma settles_requester: "settles st (requester_answer x i st)"
proof -
  have "settles st (st\<lparr>br_requesterAccepts := is\<rparr>)" for "is"
    by (simp add: settles_def asked_for_def timeless_def)
  from settles_trans [OF this settles_answer] show ?thesis by (simp add: requester_answer_def)
qed

lemma settles_timer: "settles st (accept_timer i st)"
  unfolding accept_timer_def using settles_trans [OF settles_answer settles_answer] .

section \<open>Ids in every step\<close>

lemma ids_okI:
  assumes "ids_ok nano st" "obj_wf (br_acceptances st')" "br_taskCount st' = br_taskCount st"
    and "set (br_runnerAccepts st') \<subseteq> set (br_runnerAccepts st)"
    and "fst ` set (br_acceptances st') \<subseteq> fst ` set (br_acceptances st)"
    and "fst ` set (br_tasks st') \<subseteq> fst ` set (br_tasks st) \<union> (fst ` set (br_acceptances st) - set (br_runnerAccepts st'))"
    and "\<And>i a x. (i, a) \<in> set (br_acceptances st') \<Longrightarrow> i \<in> set (br_runnerAccepts st') \<Longrightarrow>
      ac_answer a \<noteq> Accepted x \<and> ac_stage a = AwaitRunner"
  shows "ids_ok nano st'"
proof -
  have "\<exists>k < br_taskCount st'. i = nano k"
    if "i \<in> fst ` set (br_acceptances st') \<union> fst ` set (br_tasks st') \<union> set (br_runnerAccepts st')" for i
  proof -
    have "i \<in> fst ` set (br_acceptances st) \<union> fst ` set (br_tasks st) \<union> set (br_runnerAccepts st)"
      using that assms(4-6) by blast
    with assms(1,3) show ?thesis unfolding ids_ok_def by simp
  qed
  moreover have "\<forall>i \<in> set (br_runnerAccepts st'). i \<notin> fst ` set (br_tasks st')"
    using assms(4,6) ids_okD(2) [OF assms(1)] by blast
  moreover have "\<forall>(i, a) \<in> set (br_acceptances st'). i \<in> set (br_runnerAccepts st') \<longrightarrow>
      (\<forall>x. ac_answer a \<noteq> Accepted x \<and> ac_stage a = AwaitRunner)" using assms(7) by blast
  ultimately show ?thesis using assms(2) unfolding ids_ok_def by blast
qed

lemma ids_quiet: "ids_ok nano st \<Longrightarrow> tasks_only st st' \<Longrightarrow> ids_ok nano st'"
proof -
  assume ok: "ids_ok nano st" and q: "tasks_only st st'"
  then have e: "br_acceptances st' = br_acceptances st" "br_taskCount st' = br_taskCount st" "br_runnerAccepts st' = br_runnerAccepts st"
    "set (br_tasks st') \<subseteq> set (br_tasks st)" by (simp_all add: tasks_only_def requests_of_def)
  show ?thesis
  proof (rule ids_okI [OF ok])
    show "fst ` set (br_tasks st') \<subseteq> fst ` set (br_tasks st) \<union> (fst ` set (br_acceptances st) - set (br_runnerAccepts st'))"
      using e(4) by (meson image_mono le_supI1)
    show "ac_answer a \<noteq> Accepted x \<and> ac_stage a = AwaitRunner"
      if "(i, a) \<in> set (br_acceptances st')" "i \<in> set (br_runnerAccepts st')" for i a x
      using that ids_okD(3) [OF ok] unfolding e by blast
  qed (simp_all add: e ids_okD(1) [OF ok])
qed

lemma ids_answer:
  assumes ok: "ids_ok nano st" and x: "i \<notin> set (br_runnerAccepts st) \<or> (\<forall>y. x \<noteq> Accepted y)"
  shows "ids_ok nano (answer_accept stage x i st)"
proof (cases "obj_get (br_acceptances st) i")
  case (Some a)
  have s: "settles st (answer_accept stage x i st)" by (rule settles_answer)
  show ?thesis
  proof (rule ids_okI [OF ok])
    show "obj_wf (br_acceptances (answer_accept stage x i st))"
      using Some ok by (simp add: answer_accept_def ids_ok_def)
    fix j b y
    assume j: "(j, b) \<in> set (br_acceptances (answer_accept stage x i st))" "j \<in> set (br_runnerAccepts (answer_accept stage x i st))"
    have r: "br_runnerAccepts (answer_accept stage x i st) = br_runnerAccepts st" using Some by (simp add: answer_accept_def)
    show "ac_answer b \<noteq> Accepted y \<and> ac_stage b = AwaitRunner"
    proof (cases "(j, b) \<in> set (br_acceptances st)")
      case True
      with j(2) r ok show ?thesis by (auto simp: ids_ok_def)
    next
      case False
      with j(1) Some have "j = i" "b = a\<lparr>ac_answer := x\<rparr>"
        by (auto simp: answer_accept_def split: if_splits dest: obj_set_in)
      moreover have "ac_stage a = AwaitRunner" using map_of_SomeD [OF Some] ok j(2) r \<open>j = i\<close> by (auto simp: ids_ok_def)
      ultimately show ?thesis using x j(2) r by auto
    qed
  qed (use s in \<open>simp_all add: settles_def\<close>)
qed (simp add: answer_accept_def ok)

lemma ids_runner_answer:
  assumes ok: "ids_ok nano st"
  shows "ids_ok nano (runner_answer x i st)"
proof -
  have "ids_ok nano (st\<lparr>br_runnerAccepts := removeAll i (br_runnerAccepts st)\<rparr>)"
  proof (rule ids_okI [OF ok])
    show "fst ` set (br_tasks (st\<lparr>br_runnerAccepts := removeAll i (br_runnerAccepts st)\<rparr>)) \<subseteq>
      fst ` set (br_tasks st) \<union> (fst ` set (br_acceptances st) -
        set (br_runnerAccepts (st\<lparr>br_runnerAccepts := removeAll i (br_runnerAccepts st)\<rparr>)))" by simp
  qed (use ids_okD [OF ok] in \<open>auto\<close>)
  from ids_answer [OF this] ok show ?thesis by (simp add: runner_answer_def)
qed

lemma ids_requester_answer:
  assumes ok: "ids_ok nano st"
  shows "ids_ok nano (requester_answer x i st)"
proof (cases "i \<in> set (br_runnerAccepts st)")
  case False
  have "ids_ok nano (st\<lparr>br_requesterAccepts := js\<rparr>)" for js using ok by (simp add: ids_ok_def)
  from ids_answer [OF this] False ok show ?thesis by (simp add: requester_answer_def)
next
  case True
  have "answer_accept AwaitRequester x i (st\<lparr>br_requesterAccepts := js\<rparr>) = st\<lparr>br_requesterAccepts := js\<rparr>" for js
    using ids_okD(3) [OF ok map_of_SomeD True] by (auto simp: answer_accept_def split: option.split)
  with ok show ?thesis by (simp add: requester_answer_def ids_ok_def)
qed

lemma ids_timer: "ids_ok nano st \<Longrightarrow> ids_ok nano (accept_timer i st)"
  unfolding accept_timer_def by (intro ids_answer) simp_all

lemma ids_drop:
  assumes ok: "ids_ok nano st"
  shows "ids_ok nano (drop_acceptance i st)"
proof (rule ids_okI [OF ok])
  show "ac_answer a \<noteq> Accepted x \<and> ac_stage a = AwaitRunner"
    if "(j, a) \<in> set (br_acceptances (drop_acceptance i st))" "j \<in> set (br_runnerAccepts (drop_acceptance i st))" for j a x
    using that ids_okD(3) [OF ok, of j a x] by (simp add: drop_acceptance_def obj_delete_in)
qed (use ids_okD(1) [OF ok] in \<open>auto simp: drop_acceptance_def obj_delete_def obj_wf_def distinct_map_filter\<close>)

text \<open>The parts of the state that \<open>ids_ok\<close> looks at.\<close>

lemma ids_same:
  "ids_ok nano st \<Longrightarrow> br_acceptances st' = br_acceptances st \<Longrightarrow> br_tasks st' = br_tasks st \<Longrightarrow>
    br_runnerAccepts st' = br_runnerAccepts st \<Longrightarrow> br_taskCount st' = br_taskCount st \<Longrightarrow> ids_ok nano st'"
  by (simp add: ids_ok_def)

lemma ids_accepted:
  assumes ok: "ids_ok nano st" and a: "obj_get (br_acceptances st) i = Some a" "ac_answer a = Accepted x"
  shows "ids_ok nano (runner_accepted i a st)"
proof -
  have i: "i \<notin> set (br_runnerAccepts st)" "i \<in> fst ` set (br_acceptances st)"
    using ids_okD(3) [OF ok map_of_SomeD [OF a(1)]] a by (blast, auto dest: obj_get_key)
  let ?t = "\<lparr>bt_runner = of_runner (ac_offer a), bt_requester = rq_requester (ac_request a), bt_type = of_type (ac_offer a)\<rparr>"
  let ?st1 = "(clearTimer (rq_timer (ac_request a)) st)\<lparr>br_tasks := obj_set i ?t (br_tasks st)\<rparr>"
  have ok1: "ids_ok nano ?st1"
  proof (rule ids_okI [OF ok])
    show "fst ` set (br_tasks ?st1) \<subseteq> fst ` set (br_tasks st) \<union> (fst ` set (br_acceptances st) - set (br_runnerAccepts ?st1))"
      using i by (auto simp: clearTimer_def obj_keys_set [simplified])
  qed (use ids_okD [OF ok] in \<open>auto simp: clearTimer_def\<close>)
  show ?thesis
  proof (cases "rq_id (ac_request a) \<notin> rq_id ` set (br_requests ?st1)")
    case True
    with ids_drop [OF ok1] show ?thesis by (simp add: runner_accepted_def Let_def)
  next
    case False
    let ?b = "a\<lparr>ac_stage := AwaitRequester, ac_answer := Unanswered\<rparr>"
    let ?st2 = "?st1\<lparr>br_requests := remove_request (rq_id (ac_request a)) (br_requests ?st1),
      br_requesterAccepts := br_requesterAccepts ?st1 @ [i], br_acceptances := obj_set i ?b (br_acceptances ?st1)\<rparr>"
    have "ids_ok nano ?st2"
    proof (rule ids_okI [OF ok1])
      show "ac_answer c \<noteq> Accepted y \<and> ac_stage c = AwaitRunner"
        if "(j, c) \<in> set (br_acceptances ?st2)" "j \<in> set (br_runnerAccepts ?st2)" for j c y
        using that i(1) ids_okD(3) [OF ok, of j c y] by (auto simp: clearTimer_def dest!: obj_set_in)
    qed (use ids_okD(1) [OF ok1] i(2) in \<open>auto simp: clearTimer_def obj_set_known_keys dest: obj_set_in\<close>)
    with ids_same [OF this] False show ?thesis by (simp add: runner_accepted_def Let_def)
  qed
qed

lemma ids_continue:
  assumes ok: "ids_ok nano st"
  shows "ids_ok nano (continue_accept i st)"
proof (cases "obj_get (br_acceptances st) i")
  case (Some a)
  have idle: "ids_ok nano (set_accepting b k st)" for b k by (rule ids_same [OF ok]) simp_all
  have timer: "ids_ok nano (restart_timer r (set_accepting b k st))" for r b k
    by (rule ids_same [OF ok]) (simp_all add: restart_timer_def createRequestTimeout_def clearTimer_def)
  have thrown: "ids_ok nano (st1\<lparr>br_thrown := es\<rparr>)" if "ids_ok nano st1" for st1 es
    using that by (simp add: ids_ok_def)
  show ?thesis
    using Some ids_drop [OF idle] ids_drop [OF timer] ids_accepted [OF ok Some] ok ids_drop [OF ids_quiet [OF ok quiet_settings]]
      ids_drop [OF ids_quiet [OF ok quiet_cancel]] ids_drop [OF thrown [OF ids_quiet [OF ok quiet_cancel]]]
    by (cases "ac_stage a"; cases "ac_answer a") (simp_all add: continue_accept_def Let_def)
qed (simp add: continue_accept_def ok)

lemma ids_settle: "inj nano \<Longrightarrow> ids_ok nano st \<Longrightarrow> ids_ok nano (settleTasks nano now st)"
  using settle_loop [of nano "expireTasks now st" "br_requests st"] ids_same [of nano st "expireTasks now st"]
  unfolding settleTasks_def by (auto simp: expireTasks_def)

section \<open>Requests and their timers\<close>

text \<open>\<open>ids\<close> are the ids of all requests so far, \<open>rs\<close> the requests that wait, \<open>qs\<close> those a runner
  is being asked about, \<open>ts\<close> the timers and \<open>h\<close> the next handle.\<close>

definition open_ok :: "string list \<Rightarrow> task_request list \<Rightarrow> task_request list \<Rightarrow> (nat \<times> string) list \<Rightarrow> nat \<Rightarrow> bool" where
  "open_ok ids rs qs ts h \<longleftrightarrow>
     (\<forall>r \<in> set rs \<union> set qs. rq_ref r < length ids \<and> ids ! rq_ref r = rq_id r \<and> rq_timer r < h) \<and>
     distinct (map rq_ref rs) \<and> distinct (map rq_ref qs) \<and>
     (\<forall>r \<in> set rs. rq_accepting r \<longleftrightarrow> rq_ref r \<in> rq_ref ` set qs) \<and>
     (\<forall>r \<in> set rs. (rq_timer r, rq_id r) \<in> set ts) \<and> distinct (map fst ts) \<and> (\<forall>t \<in> set ts. fst t < h) \<and>
     (\<forall>q \<in> set qs. \<forall>i. (rq_timer q, i) \<in> set ts \<longrightarrow> i = rq_id q)"

lemma open_okD:
  assumes "open_ok ids rs qs ts h"
  shows "r \<in> set rs \<union> set qs \<Longrightarrow> rq_ref r < length ids" "r \<in> set rs \<union> set qs \<Longrightarrow> ids ! rq_ref r = rq_id r"
    "r \<in> set rs \<union> set qs \<Longrightarrow> rq_timer r < h" "distinct (map rq_ref rs)" "distinct (map rq_ref qs)"
    "r \<in> set rs \<Longrightarrow> rq_accepting r \<longleftrightarrow> rq_ref r \<in> rq_ref ` set qs" "r \<in> set rs \<Longrightarrow> (rq_timer r, rq_id r) \<in> set ts"
    "distinct (map fst ts)" "t \<in> set ts \<Longrightarrow> fst t < h" "q \<in> set qs \<Longrightarrow> (rq_timer q, i) \<in> set ts \<Longrightarrow> i = rq_id q"
  using assms unfolding open_ok_def by blast+

lemma open_same:
  assumes "open_ok ids rs qs ts h" "distinct ids" "r \<in> set rs \<union> set qs" "q \<in> set rs \<union> set qs"
  shows "rq_id r = rq_id q \<longleftrightarrow> rq_ref r = rq_ref q"
  using open_okD(1,2) [OF assms(1,3)] open_okD(1,2) [OF assms(1,4)] assms(2) nth_eq_iff_index_eq by metis

lemma open_timer:
  assumes "open_ok ids rs qs ts h" "q \<in> set rs \<union> set qs" "(rq_timer q, i) \<in> set ts"
  shows "i = rq_id q"
  using assms(2)
proof
  assume "q \<in> set rs"
  with open_okD(7) [OF assms(1)] assms(3) open_okD(8) [OF assms(1)] show ?thesis by (blast dest: eq_key_imp_eq_value)
qed (use open_okD(10) [OF assms(1)] assms(3) in blast)

lemma remove_request_in: "r \<in> set (remove_request i rs) \<Longrightarrow> r \<in> set rs"
  by (induction rs) (auto split: if_splits)

lemma remove_request_refs: "distinct (map rq_ref rs) \<Longrightarrow> distinct (map rq_ref (remove_request i rs))"
  by (induction rs) (auto dest: remove_request_in)

lemma remove_request_none: "i \<notin> rq_id ` set rs \<Longrightarrow> remove_request i rs = rs"
  by (induction rs) auto

lemma remove_request_id: "distinct (map rq_id rs) \<Longrightarrow> r \<in> set (remove_request i rs) \<Longrightarrow> rq_id r \<noteq> i"
proof (induction rs)
  case (Cons x rs)
  then show ?case by (cases "rq_id x = i") (auto, metis image_eqI)
qed simp

lemma open_ids:
  assumes "open_ok ids rs qs ts h" "distinct ids"
  shows "distinct (map rq_id rs)"
  using open_okD(4) [OF assms(1)] open_same [OF assms] by (auto simp: distinct_map inj_on_def)

text \<open>A request leaves the list, and its timer with it.\<close>

lemma open_leave:
  assumes ok: "open_ok ids rs qs ts h" and d: "distinct ids" and q: "q \<in> set rs \<union> set qs"
  shows "open_ok ids (remove_request (rq_id q) rs) qs (filter (\<lambda>t. fst t \<noteq> rq_timer q) ts) h"
proof -
  have "(rq_timer r, rq_id r) \<in> set (filter (\<lambda>t. fst t \<noteq> rq_timer q) ts)" if "r \<in> set (remove_request (rq_id q) rs)" for r
  proof -
    have r: "r \<in> set rs" "rq_id r \<noteq> rq_id q"
      using that remove_request_in remove_request_id [OF open_ids [OF ok d]] by blast+
    with open_okD(7) [OF ok r(1)] open_timer [OF ok q, of "rq_id r"] show ?thesis by auto
  qed
  moreover have "distinct (map fst (filter (\<lambda>t. fst t \<noteq> rq_timer q) ts))" using open_okD(8) [OF ok] by (simp add: distinct_map_filter)
  ultimately show ?thesis
    using open_okD [OF ok] remove_request_refs unfolding open_ok_def by (auto dest: remove_request_in)
qed

text \<open>A timer that belongs to no request fires.\<close>

lemma open_fire:
  assumes ok: "open_ok ids rs qs ts h" and k: "(k, i) \<in> set ts" "i \<notin> rq_id ` set rs"
  shows "open_ok ids rs qs (filter (\<lambda>t. fst t \<noteq> k) ts) h"
proof -
  have "(rq_timer r, rq_id r) \<in> set (filter (\<lambda>t. fst t \<noteq> k) ts)" if "r \<in> set rs" for r
    using open_okD(7) [OF ok that] open_okD(8) [OF ok] that k by (auto dest: eq_key_imp_eq_value)
  moreover have "distinct (map fst (filter (\<lambda>t. fst t \<noteq> k) ts))" using open_okD(8) [OF ok] by (simp add: distinct_map_filter)
  ultimately show ?thesis using open_okD [OF ok] unfolding open_ok_def by auto
qed

text \<open>The flags of requests change, and a runner is asked about fewer of them.\<close>

lemma open_flags:
  assumes ok: "open_ok ids rs qs ts h" and qs: "set qs' \<subseteq> set qs" "distinct (map rq_ref qs')"
    and same: "map (\<lambda>r. (rq_ref r, rq_id r, rq_timer r)) rs' = map (\<lambda>r. (rq_ref r, rq_id r, rq_timer r)) rs"
    and acc: "\<And>r. r \<in> set rs' \<Longrightarrow> rq_accepting r \<longleftrightarrow> rq_ref r \<in> rq_ref ` set qs'"
  shows "open_ok ids rs' qs' ts h"
proof -
  have old: "\<exists>r0 \<in> set rs. rq_ref r = rq_ref r0 \<and> rq_id r = rq_id r0 \<and> rq_timer r = rq_timer r0" if "r \<in> set rs'" for r
  proof -
    have "(rq_ref r, rq_id r, rq_timer r) \<in> set (map (\<lambda>r. (rq_ref r, rq_id r, rq_timer r)) rs)"
      using that unfolding same [symmetric] by auto
    then show ?thesis by auto
  qed
  have "map fst (map (\<lambda>r. (rq_ref r, rq_id r, rq_timer r)) rs') = map fst (map (\<lambda>r. (rq_ref r, rq_id r, rq_timer r)) rs)"
    by (simp only: same)
  then have refs: "map rq_ref rs' = map rq_ref rs" by (simp add: comp_def)
  have "rq_ref r < length ids \<and> ids ! rq_ref r = rq_id r \<and> rq_timer r < h" if "r \<in> set rs' \<union> set qs'" for r
  proof (cases "r \<in> set rs'")
    case True
    from old [OF this] open_okD(1-3) [OF ok] show ?thesis by auto
  next
    case False
    with that qs(1) have "r \<in> set rs \<union> set qs" by blast
    with open_okD(1-3) [OF ok] show ?thesis by blast
  qed
  moreover have "(rq_timer r, rq_id r) \<in> set ts" if "r \<in> set rs'" for r
    using old [OF that] open_okD(7) [OF ok] by auto
  moreover have "i = rq_id q" if "q \<in> set qs'" "(rq_timer q, i) \<in> set ts" for q i
    using that qs(1) open_okD(10) [OF ok] by blast
  ultimately show ?thesis
    using acc qs(2) open_okD(4,8,9) [OF ok] unfolding open_ok_def refs by blast
qed

text \<open>A runner is not asked about a request any more.\<close>

lemma open_answered:
  assumes ok: "open_ok ids rs (xs @ q # ys) ts h"
  shows "rq_ref q \<notin> rq_ref ` set rs \<Longrightarrow> open_ok ids rs (xs @ ys) ts h"
    and "open_ok ids (map (\<lambda>r. if rq_ref r = rq_ref q then r\<lparr>rq_accepting := False\<rparr> else r) rs) (xs @ ys) ts h"
proof -
  have d: "distinct (map rq_ref (xs @ ys))" "rq_ref q \<notin> rq_ref ` set (xs @ ys)" "set (xs @ ys) \<subseteq> set (xs @ q # ys)"
    using open_okD(5) [OF ok] by auto
  show "open_ok ids rs (xs @ ys) ts h" if "rq_ref q \<notin> rq_ref ` set rs"
  proof (rule open_flags [OF ok d(3,1) refl])
    fix r assume r: "r \<in> set rs"
    with that have "rq_ref r \<noteq> rq_ref q" by (metis image_eqI)
    with open_okD(6) [OF ok r] show "rq_accepting r \<longleftrightarrow> rq_ref r \<in> rq_ref ` set (xs @ ys)" by auto
  qed
  let ?f = "\<lambda>r. if rq_ref r = rq_ref q then r\<lparr>rq_accepting := False\<rparr> else r"
  show "open_ok ids (map ?f rs) (xs @ ys) ts h"
  proof (rule open_flags [OF ok d(3,1)])
    show "rq_accepting r \<longleftrightarrow> rq_ref r \<in> rq_ref ` set (xs @ ys)" if "r \<in> set (map ?f rs)" for r
    proof -
      from that obtain r0 where r: "r0 \<in> set rs" "r = ?f r0" by auto
      with open_okD(6) [OF ok r(1)] d(2) show ?thesis by auto
    qed
  qed simp
qed

text \<open>A request gets a new timer.\<close>

lemma open_restart:
  assumes ok: "open_ok ids rs qs ts h" and own: "\<And>i. (rq_timer q, i) \<in> set ts \<Longrightarrow> i = rq_id q"
    and same: "\<And>r. r \<in> set rs \<Longrightarrow> rq_id r = rq_id q \<longleftrightarrow> rq_ref r = rq_ref q"
  shows "open_ok ids (map (\<lambda>r. if rq_ref r = rq_ref q then r\<lparr>rq_timer := h\<rparr> else r) rs) qs
    (filter (\<lambda>t. fst t \<noteq> rq_timer q) ts @ [(h, rq_id q)]) (Suc h)"
proof -
  let ?f = "\<lambda>r. if rq_ref r = rq_ref q then r\<lparr>rq_timer := h\<rparr> else r"
  have m: "map rq_ref (map ?f rs) = map rq_ref rs" by simp
  show ?thesis
    unfolding open_ok_def m
  proof (intro conjI)
    show "\<forall>r \<in> set (map ?f rs) \<union> set qs. rq_ref r < length ids \<and> ids ! rq_ref r = rq_id r \<and> rq_timer r < Suc h"
    proof -
      have "rq_ref (?f r) < length ids \<and> ids ! rq_ref (?f r) = rq_id (?f r) \<and> rq_timer (?f r) < Suc h" if "r \<in> set rs" for r
      proof -
        have "rq_ref (?f r) = rq_ref r" "rq_id (?f r) = rq_id r" by simp_all
        moreover have "rq_timer (?f r) < Suc h" using open_okD(3) [OF ok, of r] that by simp
        ultimately show ?thesis using open_okD(1,2) [OF ok, of r] that by simp
      qed
      moreover have "\<forall>r \<in> set qs. rq_ref r < length ids \<and> ids ! rq_ref r = rq_id r \<and> rq_timer r < Suc h"
        using open_okD(1-3) [OF ok] by (simp add: less_SucI)
      ultimately show ?thesis unfolding set_map by blast
    qed
    show "\<forall>r \<in> set (map ?f rs). rq_accepting r \<longleftrightarrow> rq_ref r \<in> rq_ref ` set qs" using open_okD(6) [OF ok] by auto
    show "\<forall>r \<in> set (map ?f rs). (rq_timer r, rq_id r) \<in> set (filter (\<lambda>t. fst t \<noteq> rq_timer q) ts @ [(h, rq_id q)])"
    proof -
      have "(rq_timer (?f r), rq_id (?f r)) \<in> set (filter (\<lambda>t. fst t \<noteq> rq_timer q) ts @ [(h, rq_id q)])" if "r \<in> set rs" for r
        using open_okD(7) [OF ok that] own [of "rq_id r"] same [OF that] by auto
      then show ?thesis unfolding set_map by blast
    qed
    show "distinct (map fst (filter (\<lambda>t. fst t \<noteq> rq_timer q) ts @ [(h, rq_id q)]))"
      using open_okD(8,9) [OF ok] by (auto simp: distinct_map_filter)
    show "\<forall>t \<in> set (filter (\<lambda>t. fst t \<noteq> rq_timer q) ts @ [(h, rq_id q)]). fst t < Suc h"
      using open_okD(9) [OF ok] by (auto intro: less_SucI)
    show "\<forall>p \<in> set qs. \<forall>i. (rq_timer p, i) \<in> set (filter (\<lambda>t. fst t \<noteq> rq_timer q) ts @ [(h, rq_id q)]) \<longrightarrow> i = rq_id p"
      using open_okD(3,10) [OF ok] by auto
  qed (use open_okD(4,5) [OF ok] in auto)
qed

text \<open>A new request.\<close>

lemma open_ask:
  assumes ok: "open_ok ids rs qs ts h"
    and r: "rq_ref r = length ids" "rq_id r = i" "rq_timer r = h" "\<not> rq_accepting r"
  shows "open_ok (ids @ [i]) (rs @ [r]) qs (ts @ [(h, i)]) (Suc h)"
proof -
  have ref: "rq_ref q < length ids" if "q \<in> set rs \<union> set qs" for q using open_okD(1) [OF ok that] .
  have all: "\<forall>q \<in> set (rs @ [r]) \<union> set qs. rq_ref q < length (ids @ [i]) \<and> (ids @ [i]) ! rq_ref q = rq_id q \<and> rq_timer q < Suc h"
    using open_okD(1-3) [OF ok] r by (auto simp: nth_append less_SucI)
  have new: "rq_ref r \<notin> rq_ref ` set rs" "rq_ref r \<notin> rq_ref ` set qs"
    using ref r(1) by (metis Un_iff image_iff less_irrefl)+
  moreover have "\<forall>q \<in> set qs. \<forall>j. (rq_timer q, j) \<in> set (ts @ [(h, i)]) \<longrightarrow> j = rq_id q"
    using open_okD(3,10) [OF ok] by auto
  moreover have "distinct (map fst (ts @ [(h, i)]))" "\<forall>t \<in> set (ts @ [(h, i)]). fst t < Suc h"
    using open_okD(8,9) [OF ok] by (auto intro: less_SucI)
  moreover have "distinct (map rq_ref (rs @ [r]))" using open_okD(4) [OF ok] new(1) by simp
  moreover have "rq_accepting q \<longleftrightarrow> rq_ref q \<in> rq_ref ` set qs" if "q \<in> set (rs @ [r])" for q
    using open_okD(6) [OF ok, of q] that new(2) r(4) by (cases "q = r") simp_all
  moreover have "(rq_timer q, rq_id q) \<in> set (ts @ [(h, i)])" if "q \<in> set (rs @ [r])" for q
    using open_okD(7) [OF ok, of q] that r(2,3) by auto
  ultimately show ?thesis
    using all open_okD(5) [OF ok] unfolding open_ok_def by blast
qed

lemma matched_refs: "distinct (map rq_ref rs) \<Longrightarrow> distinct (map (rq_ref \<circ> fst) (matched rs os))"
proof (induction rs arbitrary: os)
  case (Cons r rs)
  then show ?case by (auto split: option.split dest!: matched_types)
qed simp

lemma image_disjoint: "(\<And>r. r \<in> S \<Longrightarrow> f r \<notin> T) \<Longrightarrow> T \<inter> f ` S = {}"
  by blast

lemma open_matched:
  assumes ok: "open_ok ids rs qs ts h"
  shows "open_ok ids (map (\<lambda>q. if rq_ref q \<in> rq_ref ` fst ` set (matched rs os) then q\<lparr>rq_accepting := True\<rparr> else q) rs)
    (qs @ map fst (matched rs os)) ts h"
proof -
  let ?ms = "map fst (matched rs os)"
  let ?f = "\<lambda>q. if rq_ref q \<in> rq_ref ` fst ` set (matched rs os) then q\<lparr>rq_accepting := True\<rparr> else q"
  have ms: "r \<in> set rs \<and> \<not> rq_accepting r" if "r \<in> set ?ms" for r using that by (auto dest: matched_types)
  have f: "rq_ref (?f q) = rq_ref q" "rq_id (?f q) = rq_id q" "rq_timer (?f q) = rq_timer q"
    "rq_accepting (?f q) \<longleftrightarrow> rq_accepting q \<or> rq_ref q \<in> rq_ref ` set ?ms" for q by auto
  have m: "map rq_ref (map ?f rs) = map rq_ref rs" by simp
  have marked: thesis if "r \<in> set (map ?f rs)" "\<And>q. q \<in> set rs \<Longrightarrow> r = ?f q \<Longrightarrow> thesis" for r thesis
  proof -
    from that(1) have "r \<in> ?f ` set rs" by (simp only: set_map)
    then show thesis by (rule imageE) (rule that(2))
  qed
  have "distinct (map rq_ref (qs @ ?ms))"
  proof -
    have "rq_ref r \<notin> rq_ref ` set qs" if "r \<in> set ?ms" for r using ms [OF that] open_okD(6) [OF ok, of r] by blast
    then have "rq_ref ` set qs \<inter> rq_ref ` set ?ms = {}" by (rule image_disjoint)
    with open_okD(5) [OF ok] matched_refs [OF open_okD(4) [OF ok], of os] show ?thesis
      by (simp add: comp_def image_image)
  qed
  moreover have "rq_ref r < length ids \<and> ids ! rq_ref r = rq_id r \<and> rq_timer r < h" if "r \<in> set (map ?f rs) \<union> set (qs @ ?ms)" for r
  proof -
    have old: "rq_ref q < length ids \<and> ids ! rq_ref q = rq_id q \<and> rq_timer q < h" if "q \<in> set rs \<union> set qs" for q
      using open_okD(1-3) [OF ok that] by (intro conjI)
    from that consider (a) "r \<in> set (map ?f rs)" | (b) "r \<in> set qs" | (c) "r \<in> set ?ms"
      unfolding set_append by (elim UnE)
    then show ?thesis
    proof cases
      case a
      then obtain q where q: "q \<in> set rs" "r = ?f q" by (rule marked)
      show ?thesis unfolding q(2) f by (rule old) (simp add: q(1))
    next
      case b
      then show ?thesis by (intro old UnI2)
    next
      case c
      with ms show ?thesis by (intro old UnI1) blast
    qed
  qed
  moreover have "rq_accepting r \<longleftrightarrow> rq_ref r \<in> rq_ref ` set (qs @ ?ms)" if r: "r \<in> set (map ?f rs)" for r
  proof -
    from r obtain q where q: "q \<in> set rs" "r = ?f q" by (rule marked)
    show ?thesis unfolding q(2) f using open_okD(6) [OF ok q(1)] by auto
  qed
  moreover have "(rq_timer r, rq_id r) \<in> set ts" if r: "r \<in> set (map ?f rs)" for r
  proof -
    from r obtain q where q: "q \<in> set rs" "r = ?f q" by (rule marked)
    show ?thesis unfolding q(2) f using open_okD(7) [OF ok q(1)] .
  qed
  moreover have "i = rq_id q" if "q \<in> set (qs @ ?ms)" "(rq_timer q, i) \<in> set ts" for q i
    using open_timer [OF ok, of q i] that ms by auto
  ultimately show ?thesis using open_okD(4,8,9) [OF ok] unfolding open_ok_def m by blast
qed

section \<open>Every step keeps the requests in order\<close>

definition open_state :: "string list \<Rightarrow> broker \<Rightarrow> bool" where
  "open_state ids st \<longleftrightarrow> br_refs st = length ids \<and>
     open_ok ids (br_requests st) (asked_for st) (br_timers st) (br_handles st)"

lemma open_settles: "open_state ids st \<Longrightarrow> settles st st' \<Longrightarrow> open_state ids st'"
  by (simp add: open_state_def settles_def timeless_def)

lemma open_quiet: "open_state ids st \<Longrightarrow> tasks_only st st' \<Longrightarrow> open_state ids st'"
  by (simp add: open_state_def tasks_only_def requests_of_def asked_for_def)

lemma asked_for_new:
  "map (\<lambda>(i, a). (ac_request a, ac_offer a)) ts = ms \<Longrightarrow> \<forall>(i, a) \<in> set ts. ac_stage a = AwaitRunner \<Longrightarrow>
    map (ac_request \<circ> snd) (filter (\<lambda>(i, a). ac_stage a = AwaitRunner) ts) = map fst ms"
  by (induction ts arbitrary: ms) auto

lemma open_settle:
  assumes "inj nano" "ids_ok nano st" "open_state ids st"
  shows "open_state ids (settleTasks nano now st)"
proof -
  let ?st = "expireTasks now st"
  have id: "ids_ok nano ?st" using assms(2) by (simp add: ids_ok_def expireTasks_def)
  have o: "open_ok ids (br_requests ?st) (asked_for ?st) (br_timers ?st) (br_handles ?st)" "br_refs ?st = length ids"
    "br_requests st = br_requests ?st"
    using assms(3) by (simp_all add: open_state_def expireTasks_def asked_for_def)
  from settle_loop [OF assms(1) id, of "br_requests st"] obtain ts where
    ts: "br_acceptances (settleTasks nano now st) = br_acceptances ?st @ ts"
      "map (\<lambda>(i, a). (ac_request a, ac_offer a)) ts = matched (br_requests st) (br_offers ?st)"
      "br_requests (settleTasks nano now st) = map (\<lambda>q. if rq_ref q \<in> rq_ref ` fst ` set (matched (br_requests st) (br_offers ?st))
        then q\<lparr>rq_accepting := True\<rparr> else q) (br_requests ?st)"
      "\<forall>(i, a) \<in> set ts. ac_stage a = AwaitRunner"
    unfolding settleTasks_def by blast
  have f: "timeless (settleTasks nano now st) = timeless ?st" using settle_frame unfolding settleTasks_def by blast
  have "asked_for (settleTasks nano now st) = asked_for ?st @ map fst (matched (br_requests st) (br_offers ?st))"
    using asked_for_new [OF ts(2,4)] by (simp add: asked_for_def ts(1))
  with open_matched [OF o(1), of "br_offers ?st"] f o(2,3) ts(3) show ?thesis
    by (simp add: open_state_def timeless_def)
qed

lemma asked_for_split:
  assumes "obj_wf m" "obj_get m i = Some a" "ac_stage a = AwaitRunner"
  shows "\<exists>xs ys. map (ac_request \<circ> snd) (filter (\<lambda>(i, a). ac_stage a = AwaitRunner) m) = xs @ ac_request a # ys \<and>
    map (ac_request \<circ> snd) (filter (\<lambda>(i, a). ac_stage a = AwaitRunner) (obj_delete i m)) = xs @ ys \<and>
    map (ac_request \<circ> snd) (filter (\<lambda>(i, a). ac_stage a = AwaitRunner)
      (obj_set i (a\<lparr>ac_stage := AwaitRequester, ac_answer := Unanswered\<rparr>) m)) = xs @ ys"
  using assms
proof (induction m)
  case (Cons p m)
  obtain j b where p: "p = (j, b)" by (cases p) simp
  have wf: "obj_wf m" "j \<notin> fst ` set m" using Cons.prems(1) p by (auto simp: obj_wf_def)
  show ?case
  proof (cases "j = i")
    case True
    then have "b = a" using Cons.prems(2) p by simp
    moreover have "obj_delete i m = m" unfolding obj_delete_def using wf(2) True by (intro filter_True) auto
    ultimately show ?thesis using True p Cons.prems(3)
      by - (rule exI [of _ "[]"], rule exI [of _ "map (ac_request \<circ> snd) (filter (\<lambda>(i, a). ac_stage a = AwaitRunner) m)"],
        simp add: obj_delete_def)
  next
    case False
    with p Cons.prems(2) have "obj_get m i = Some a" by simp
    from Cons.IH [OF wf(1) this Cons.prems(3)] obtain xs ys where
      "map (ac_request \<circ> snd) (filter (\<lambda>(i, a). ac_stage a = AwaitRunner) m) = xs @ ac_request a # ys"
      "map (ac_request \<circ> snd) (filter (\<lambda>(i, a). ac_stage a = AwaitRunner) (obj_delete i m)) = xs @ ys"
      "map (ac_request \<circ> snd) (filter (\<lambda>(i, a). ac_stage a = AwaitRunner)
        (obj_set i (a\<lparr>ac_stage := AwaitRequester, ac_answer := Unanswered\<rparr>) m)) = xs @ ys" by blast
    with False p show ?thesis
      by - (rule exI [of _ "if ac_stage b = AwaitRunner then ac_request b # xs else xs"], rule exI [of _ ys],
        simp add: obj_delete_def comp_def)
  qed
qed simp

lemma asked_for_other:
  "ac_stage a = AwaitRequester \<Longrightarrow> obj_wf (br_acceptances st) \<Longrightarrow> obj_get (br_acceptances st) i = Some a \<Longrightarrow>
    asked_for (drop_acceptance i st) = asked_for st"
proof -
  assume a: "ac_stage a = AwaitRequester" "obj_wf (br_acceptances st)" "obj_get (br_acceptances st) i = Some a"
  then have "ac_stage b \<noteq> AwaitRunner" if "(i, b) \<in> set (br_acceptances st)" for b
    using that by (simp add: obj_wf_in)
  then have "filter (\<lambda>(j, b). ac_stage b = AwaitRunner) (obj_delete i (br_acceptances st)) =
      filter (\<lambda>(j, b). ac_stage b = AwaitRunner) (br_acceptances st)"
    unfolding obj_delete_def filter_filter by (intro filter_cong) auto
  then show ?thesis by (simp add: asked_for_def drop_acceptance_def)
qed

lemma open_fields:
  "open_state ids st \<Longrightarrow> br_requests st' = br_requests st \<Longrightarrow> br_acceptances st' = br_acceptances st \<Longrightarrow>
    br_timers st' = br_timers st \<Longrightarrow> br_handles st' = br_handles st \<Longrightarrow> br_refs st' = br_refs st \<Longrightarrow> open_state ids st'"
  by (simp add: open_state_def asked_for_def)

text \<open>A request timer fires.\<close>

lemma open_timeout:
  assumes ok: "open_state ids st" and d: "distinct ids" and k: "obj_get (br_timers st) k = Some i"
  shows "open_state ids (handleRequestTimeout i (clearTimer k st))"
proof -
  have o: "open_ok ids (br_requests st) (asked_for st) (br_timers st) (br_handles st)" using ok by (simp add: open_state_def)
  have ki: "(k, i) \<in> set (br_timers st)" using map_of_SomeD [OF k] .
  show ?thesis
  proof (cases "find (\<lambda>r. rq_id r = i) (br_requests st)")
    case None
    then have "i \<notin> rq_id ` set (br_requests st)" by (auto simp: find_None_iff)
    from open_fire [OF o ki this] None ok show ?thesis
      by (simp add: handleRequestTimeout_def clearTimer_def open_state_def asked_for_def)
  next
    case (Some r)
    then have r: "r \<in> set (br_requests st)" "rq_id r = i" by (auto simp: find_Some_iff)
    have o1: "open_ok ids (remove_request i (br_requests st)) (asked_for st)
        (filter (\<lambda>t. fst t \<noteq> rq_timer r) (br_timers st)) (br_handles st)"
      using open_leave [OF o d, of r] r by simp
    have n: "i \<notin> rq_id ` set (remove_request i (br_requests st))"
      using remove_request_id [OF open_ids [OF o d]] by blast
    have "open_ok ids (remove_request i (br_requests st)) (asked_for st)
        (filter (\<lambda>t. fst t \<noteq> rq_timer r) (filter (\<lambda>t. fst t \<noteq> k) (br_timers st))) (br_handles st)"
    proof (cases "k = rq_timer r")
      case True
      with o1 show ?thesis by (simp add: filter_filter)
    next
      case False
      with ki have "(k, i) \<in> set (filter (\<lambda>t. fst t \<noteq> rq_timer r) (br_timers st))" by simp
      from open_fire [OF o1 this n] show ?thesis by (simp add: filter_filter conj_commute)
    qed
    with Some ok show ?thesis by (simp add: handleRequestTimeout_def clearTimer_def open_state_def asked_for_def)
  qed
qed

text \<open>The runner has accepted.\<close>

lemma open_accepted:
  assumes ok: "open_state ids st" and d: "distinct ids" and wf: "obj_wf (br_acceptances st)"
    and a: "obj_get (br_acceptances st) i = Some a" "ac_stage a = AwaitRunner"
  shows "open_state ids (runner_accepted i a st)"
proof -
  let ?q = "ac_request a"
  have o: "open_ok ids (br_requests st) (asked_for st) (br_timers st) (br_handles st)" using ok by (simp add: open_state_def)
  from asked_for_split [OF wf a] obtain xs ys where
    xy: "asked_for st = xs @ ?q # ys" "asked_for (drop_acceptance i st) = xs @ ys"
      "map (ac_request \<circ> snd) (filter (\<lambda>(i, a). ac_stage a = AwaitRunner)
        (obj_set i (a\<lparr>ac_stage := AwaitRequester, ac_answer := Unanswered\<rparr>) (br_acceptances st))) = xs @ ys"
    unfolding asked_for_def drop_acceptance_def by auto
  have q: "?q \<in> set (br_requests st) \<union> set (asked_for st)" using xy(1) by simp
  let ?rs = "remove_request (rq_id ?q) (br_requests st)" and ?ts = "filter (\<lambda>t. fst t \<noteq> rq_timer ?q) (br_timers st)"
  have o1: "open_ok ids ?rs (xs @ ?q # ys) ?ts (br_handles st)" using open_leave [OF o d q] xy(1) by simp
  have "rq_ref ?q \<notin> rq_ref ` set ?rs"
  proof
    assume "rq_ref ?q \<in> rq_ref ` set ?rs"
    then obtain r where r: "r \<in> set ?rs" "rq_ref r = rq_ref ?q" by auto
    then have "r \<in> set (br_requests st) \<union> set (asked_for st)" by (auto dest: remove_request_in)
    with open_same [OF o d this q] r(2) remove_request_id [OF open_ids [OF o d] r(1)] show False by simp
  qed
  from open_answered(1) [OF o1 this] have o2: "open_ok ids ?rs (xs @ ys) ?ts (br_handles st)" .
  show ?thesis
  proof (cases "rq_id ?q \<in> rq_id ` set (br_requests st)")
    case True
    with o2 xy(3) ok show ?thesis
      by (simp add: runner_accepted_def Let_def open_state_def clearTimer_def asked_for_def)
  next
    case False
    with remove_request_none [OF this] o2 xy(2) ok show ?thesis
      by (simp add: runner_accepted_def Let_def open_state_def clearTimer_def asked_for_def drop_acceptance_def)
  qed
qed

text \<open>The runner has not accepted.\<close>

lemma open_refused:
  assumes ok: "open_state ids st" and d: "distinct ids" and wf: "obj_wf (br_acceptances st)"
    and a: "obj_get (br_acceptances st) i = Some a" "ac_stage a = AwaitRunner"
  shows "open_state ids (drop_acceptance i (set_accepting False (rq_ref (ac_request a)) st))"
    and "open_state ids (drop_acceptance i (restart_timer (ac_request a) (set_accepting False (rq_ref (ac_request a)) st)))"
proof -
  let ?q = "ac_request a" and ?st = "drop_acceptance i (set_accepting False (rq_ref (ac_request a)) st)"
  have o: "open_ok ids (br_requests st) (asked_for st) (br_timers st) (br_handles st)" using ok by (simp add: open_state_def)
  from asked_for_split [OF wf a] obtain xs ys where
    xy: "asked_for st = xs @ ?q # ys" "asked_for (drop_acceptance i st) = xs @ ys"
    unfolding asked_for_def drop_acceptance_def by auto
  have q: "?q \<in> set (br_requests st) \<union> set (asked_for st)" using xy(1) by simp
  from open_answered(2) [OF o [unfolded xy(1)]]
  have o1: "open_ok ids (br_requests ?st) (asked_for ?st) (br_timers ?st) (br_handles ?st)"
    using xy(2) by (simp add: set_accepting_def drop_acceptance_def asked_for_def)
  then show "open_state ids ?st" using ok by (simp add: open_state_def drop_acceptance_def)
  have same: "rq_id r = rq_id ?q \<longleftrightarrow> rq_ref r = rq_ref ?q" if "r \<in> set (br_requests ?st)" for r
  proof -
    from that obtain r0 where r0: "r0 \<in> set (br_requests st)" "rq_id r = rq_id r0" "rq_ref r = rq_ref r0"
      by (auto simp: drop_acceptance_def set_accepting_def)
    then have "r0 \<in> set (br_requests st) \<union> set (asked_for st)" by simp
    from open_same [OF o d this q] r0(2,3) show ?thesis by simp
  qed
  have own: "j = rq_id ?q" if "(rq_timer ?q, j) \<in> set (br_timers ?st)" for j
    using open_timer [OF o q] that by (simp add: drop_acceptance_def)
  have h: "br_handles ?st = br_handles st" by (simp add: drop_acceptance_def)
  from open_restart [OF o1 own same, unfolded h] ok
  show "open_state ids (drop_acceptance i (restart_timer ?q (set_accepting False (rq_ref ?q) st)))"
    by (simp add: open_state_def restart_timer_def createRequestTimeout_def clearTimer_def drop_acceptance_def asked_for_def)
qed

lemma open_continue:
  assumes ok: "open_state ids st" and d: "distinct ids" and wf: "obj_wf (br_acceptances st)"
  shows "open_state ids (continue_accept i st)"
proof (cases "obj_get (br_acceptances st) i")
  case (Some a)
  show ?thesis
  proof (cases "ac_stage a")
    case AwaitRunner
    with Some open_accepted [OF ok d wf Some AwaitRunner] open_refused [OF ok d wf Some AwaitRunner] ok show ?thesis
      by (cases "ac_answer a") (simp_all add: continue_accept_def)
  next
    case AwaitRequester
    have drop: "open_state ids (drop_acceptance i st1)" if q: "tasks_only st st1" for st1
    proof -
      have "br_acceptances st1 = br_acceptances st" using q by (simp add: tasks_only_def requests_of_def)
      with asked_for_other [OF AwaitRequester, of st1 i] wf Some open_quiet [OF ok q] show ?thesis
        by (simp add: open_state_def drop_acceptance_def)
    qed
    show ?thesis
      using Some AwaitRequester ok drop [OF quiet_settings] drop [OF quiet_cancel] drop [OF quiet_trans [OF quiet_cancel quiet_fields(2)]]
      by (cases "ac_answer a") (simp_all add: continue_accept_def Let_def)
  qed
qed (simp add: continue_accept_def ok)

text \<open>The ids of the requests that arrive.\<close>

definition asks :: "broker_event \<Rightarrow> string list" where
  "asks ev = (case ev of FromRequesterMsg _ _ (RequesterAsks _ requestId) \<Rightarrow> [requestId] | _ \<Rightarrow> [])"

definition all_asks :: "broker_event list \<Rightarrow> string list" where
  "all_asks evs = concat (map asks evs)"

definition broker_ok :: "(nat \<Rightarrow> string) \<Rightarrow> string list \<Rightarrow> broker \<Rightarrow> bool" where
  "broker_ok nano ids st \<longleftrightarrow> ids_ok nano st \<and> open_state ids st \<and> obj_wf (br_tasks st)"

lemma ok_quiet: "broker_ok nano ids st \<Longrightarrow> tasks_only st st' \<Longrightarrow> broker_ok nano ids st'"
  using ids_quiet open_quiet unfolding broker_ok_def tasks_only_def by blast

lemma ok_settle: "inj nano \<Longrightarrow> broker_ok nano ids st \<Longrightarrow> broker_ok nano ids (settleTasks nano now st)"
  using ids_settle open_settle settle_tasks [of nano now st] unfolding broker_ok_def by auto

lemma ok_request:
  assumes n: "inj nano" and ok: "broker_ok nano ids st"
  shows "broker_ok nano (ids @ [i]) (onRequesterMessage nano now requester (RequesterAsks ty i) st)"
proof -
  let ?r = "\<lparr>rq_ref = br_refs st, rq_id = i, rq_requester = requester, rq_type = ty, rq_timer = br_handles st, rq_accepting = False\<rparr>"
  let ?st1 = "st\<lparr>br_handles := Suc (br_handles st), br_timers := br_timers st @ [(br_handles st, i)], br_refs := Suc (br_refs st)\<rparr>"
  have o: "open_ok ids (br_requests st) (asked_for st) (br_timers st) (br_handles st)" "br_refs st = length ids" "ids_ok nano st"
    "obj_wf (br_tasks st)" using ok by (simp_all add: broker_ok_def open_state_def)
  have run: "onRequesterMessage nano now requester (RequesterAsks ty i) st = taskRequested nano now ?r ?st1"
    by (simp add: onRequesterMessage_def createRequestTimeout_def)
  have new: "open_ok (ids @ [i]) (br_requests st @ [?r]) (asked_for st) (br_timers st @ [(br_handles st, i)]) (Suc (br_handles st))"
    by (rule open_ask [OF o(1)]) (simp_all add: o(2))
  show ?thesis
  proof (cases "br_draining st")
    case True
    have "distinct (map rq_ref (br_requests st @ [?r]))" using open_okD(4) [OF new] .
    then have "map rq_ref (br_requests st) @ [br_refs st] = map rq_ref (br_requests st @ [?r])" by simp
    have old: "filter (\<lambda>t. fst t \<noteq> br_handles st) (br_timers st) = br_timers st"
      using open_okD(9) [OF o(1)] by (intro filter_True) force
    have "open_ok (ids @ [i]) (br_requests st) (asked_for st) (br_timers st) (Suc (br_handles st))"
    proof -
      have "\<forall>r \<in> set (br_requests st) \<union> set (asked_for st). rq_ref r < length (ids @ [i]) \<and> (ids @ [i]) ! rq_ref r = rq_id r \<and>
          rq_timer r < Suc (br_handles st)"
        using open_okD(1-3) [OF o(1)] by (simp add: nth_append less_SucI)
      moreover have "\<forall>t \<in> set (br_timers st). fst t < Suc (br_handles st)" using open_okD(9) [OF o(1)] by (simp add: less_SucI)
      ultimately show ?thesis using o(1) unfolding open_ok_def by blast
    qed
    with True old o(2-4) show ?thesis
      unfolding run by (simp add: taskRequested_def clearTimer_def broker_ok_def open_state_def asked_for_def ids_ok_def)
  next
    case False
    have "broker_ok nano (ids @ [i]) (?st1\<lparr>br_requests := br_requests ?st1 @ [?r]\<rparr>)"
      using new o(2-4) by (simp add: broker_ok_def open_state_def asked_for_def ids_ok_def)
    from ok_settle [OF n this] False show ?thesis unfolding run by (simp add: taskRequested_def)
  qed
qed

lemma ok_runner_message:
  assumes n: "inj nano" and ok: "broker_ok nano ids st"
  shows "broker_ok nano ids (onRunnerMessage nano now i message st)"
proof -
  have answer: "broker_ok nano ids (runner_answer x j st)" for x j
    using ok ids_runner_answer open_settles [OF _ settles_runner] settles_runner [of st x j]
    unfolding broker_ok_def settles_def by auto
  have "broker_ok nano ids (st\<lparr>br_offers := os\<rparr>)" for os using ok_quiet [OF ok quiet_fields(4)] .
  note offer = ok_settle [OF n this]
  show ?thesis
    using ok answer offer ok_quiet [OF ok quiet_end] ok_quiet [OF ok quiet_to_requester]
    by (cases message) (simp_all add: onRunnerMessage_def handleRunnerAccept_def handleRunnerReject_def handleRunnerDeferred_def
        taskOffered_def task_handler_defs reply_to_def)
qed

lemma ok_requester_message:
  assumes "inj nano" "broker_ok nano ids st"
  shows "broker_ok nano (ids @ asks (FromRequesterMsg now i message)) (onRequesterMessage nano now i message st)"
proof (cases message)
  case (RequesterSettings j x)
  have "broker_ok nano ids (requester_answer (Accepted x) j st)"
    using assms(2) ids_requester_answer open_settles [OF _ settles_requester] settles_requester [of st "Accepted x" j]
    unfolding broker_ok_def settles_def by auto
  with RequesterSettings show ?thesis by (simp add: onRequesterMessage_def handleRequesterAccept_def asks_def)
next
  case (RequesterAsks ty j)
  with ok_request [OF assms] show ?thesis by (simp add: asks_def)
qed (use ok_quiet [OF assms(2) quiet_cancel] ok_quiet [OF assms(2) quiet_to_runner] in
    \<open>simp_all add: onRequesterMessage_def asks_def task_handler_defs\<close>)

text \<open>A runner that leaves: its tasks fail, and nobody who waits for it is told.\<close>

lemma reject_task:
  assumes "ids_ok nano st" "i \<in> fst ` set (br_tasks st)"
  shows "handleRunnerReject i e (failTask i x st) = failTask i x st"
proof -
  have "i \<notin> set (br_runnerAccepts st)" using ids_okD(2) [OF assms(1)] assms(2) by blast
  moreover have "br_runnerAccepts (failTask i x st) = br_runnerAccepts st"
    using quiet_fail [of st i x] by (simp add: tasks_only_def requests_of_def)
  ultimately show ?thesis by (simp add: handleRunnerReject_def runner_answer_def)
qed

lemma fail_keeps: "j \<noteq> i \<Longrightarrow> j \<in> fst ` set (br_tasks st) \<Longrightarrow> j \<in> fst ` set (br_tasks (failTask i x st))"
  by (force simp: failTask_def obj_delete_def split: option.split)

lemma leave_quiet:
  "ids_ok nano st \<Longrightarrow> distinct is \<Longrightarrow> set is \<subseteq> fst ` set (br_tasks st) \<Longrightarrow>
    tasks_only st (fold (\<lambda>i st. handleRunnerReject i e (failTask i x st)) is st)"
proof (induction "is" arbitrary: st)
  case (Cons i rest)
  have r: "handleRunnerReject i e (failTask i x st) = failTask i x st" using reject_task Cons.prems(1,3) by simp
  have d: "i \<notin> set rest" "distinct rest" "set rest \<subseteq> fst ` set (br_tasks st)" using Cons.prems(2,3) by auto
  have "set rest \<subseteq> fst ` set (br_tasks (failTask i x st))"
  proof
    fix j assume j: "j \<in> set rest"
    with d(1) have "j \<noteq> i" by blast
    with j d(3) fail_keeps [of j i st x] show "j \<in> fst ` set (br_tasks (failTask i x st))" by blast
  qed
  from quiet_trans [OF quiet_fail Cons.IH [OF ids_quiet [OF Cons.prems(1) quiet_fail] d(2) this]] show ?case by (simp add: r)
qed simp

lemma quiet_leave:
  assumes ok: "ids_ok nano st" and d: "obj_wf (br_tasks st)"
  shows "tasks_only st (deregisterRunner i e st)"
proof -
  let ?st1 = "st\<lparr>br_runners := List.removeAll i (br_runners st), br_offers := filter (\<lambda>offer. of_runner offer \<noteq> i) (br_offers st)\<rparr>"
  let ?js = "obj_keys (filter (\<lambda>(taskId, t). bt_runner t = i) (br_tasks ?st1))"
  have "ids_ok nano ?st1" using ok by (simp add: ids_ok_def)
  moreover have "distinct ?js" using d by (simp add: obj_wf_def distinct_map_filter)
  moreover have "set ?js \<subseteq> fst ` set (br_tasks ?st1)" by auto
  ultimately have "tasks_only ?st1 (fold (\<lambda>taskId st. handleRunnerReject taskId e (failTask taskId (Disconnected e) st)) ?js ?st1)"
    by (rule leave_quiet)
  moreover have "tasks_only st ?st1" by (simp add: tasks_only_def requests_of_def replies_def)
  ultimately show ?thesis unfolding deregisterRunner_def Let_def by (rule quiet_trans [rotated])
qed

lemma tasks_continue: "obj_wf (br_tasks st) \<Longrightarrow> obj_wf (br_tasks (continue_accept i st))"
proof (cases "obj_get (br_acceptances st) i")
  case (Some a)
  assume wf: "obj_wf (br_tasks st)"
  have "obj_wf (br_tasks (sendTaskSettings i x st))" "obj_wf (br_tasks (cancelTask i y st))" for x y
    using wf quiet_settings quiet_cancel unfolding tasks_only_def by blast+
  with wf Some show ?thesis
    by (cases "ac_stage a"; cases "ac_answer a")
      (simp_all add: continue_accept_def runner_accepted_def drop_acceptance_def restart_timer_def createRequestTimeout_def clearTimer_def Let_def)
qed (simp add: continue_accept_def)

lemma ok_step:
  assumes n: "inj nano" and ok: "broker_ok nano ids st" and d: "distinct (ids @ asks ev)"
  shows "broker_ok nano (ids @ asks ev) (broker_step nano ev st)"
proof -
  have i: "ids_ok nano st" and o: "open_state ids st" and t: "obj_wf (br_tasks st)"
    using ok by (simp_all add: broker_ok_def)
  note wf = ids_okD(1) [OF i]
  have di: "distinct ids" using d by simp
  show ?thesis
  proof (cases ev)
    case (RunnerConnects j)
    have "tasks_only st (st\<lparr>br_runners := List.insert j (br_runners st)\<rparr>)" by (simp add: tasks_only_def requests_of_def replies_def)
    from ok_quiet [OF ok quiet_trans [OF this quiet_message(1)]] RunnerConnects show ?thesis
      by (simp add: broker_step_def registerRunner_def asks_def)
  next
    case (RunnerLeaves j e)
    with ok_quiet [OF ok quiet_leave [OF i t]] show ?thesis by (simp add: broker_step_def asks_def)
  next
    case (FromRunnerMsg now j message)
    with ok_runner_message [OF n ok] show ?thesis by (simp add: broker_step_def asks_def)
  next
    case (FromRequesterMsg now j message)
    with ok_requester_message [OF n ok] show ?thesis by (simp add: broker_step_def)
  next
    case (RequestTimer h)
    have e: "ids_ok nano (handleRequestTimeout x (clearTimer h st))" "br_tasks (handleRequestTimeout x (clearTimer h st)) = br_tasks st" for x
      by (rule ids_same [OF i]) (simp_all add: handleRequestTimeout_def clearTimer_def split: option.split)
    show ?thesis
    proof (cases "obj_get (br_timers st) h")
      case None
      with RequestTimer ok show ?thesis by (simp add: broker_step_def asks_def)
    next
      case (Some x)
      with open_timeout [OF o di Some] e t RequestTimer show ?thesis by (simp add: broker_step_def asks_def broker_ok_def)
    qed
  next
    case (TaskTimer j)
    have "tasks_only st (st\<lparr>br_taskTimers := List.removeAll j (br_taskTimers st)\<rparr>)" by (rule quiet_fields)
    from ok_quiet [OF ok quiet_trans [OF this quiet_timeout]] ok TaskTimer show ?thesis by (simp add: broker_step_def asks_def)
  next
    case (AcceptTimer j)
    with ids_timer [OF i] open_settles [OF o settles_timer] t settles_timer [of st j] show ?thesis
      by (simp add: broker_step_def asks_def broker_ok_def settles_def)
  next
    case (GoesOn j)
    with ids_continue [OF i] open_continue [OF o di wf] tasks_continue [OF t] show ?thesis
      by (simp add: broker_step_def asks_def broker_ok_def)
  qed (use ok in \<open>simp_all add: broker_step_def asks_def broker_ok_def ids_ok_def open_state_def asked_for_def
      registerRequester_def deregisterRequester_def startDraining_def\<close>)
qed

lemma broker_run_Cons: "broker_run nano (ev # evs) st = broker_run nano evs (broker_step nano ev st)"
  by (simp add: broker_run_def)

lemma ok_run:
  "inj nano \<Longrightarrow> broker_ok nano ids st \<Longrightarrow> distinct (ids @ all_asks evs) \<Longrightarrow>
    broker_ok nano (ids @ all_asks evs) (broker_run nano evs st)"
proof (induction evs arbitrary: ids st)
  case Nil
  then show ?case by (simp add: broker_run_def all_asks_def)
next
  case (Cons ev evs)
  have "distinct (ids @ asks ev)" using Cons.prems(3) by (auto simp: all_asks_def)
  from Cons.IH [OF Cons.prems(1) ok_step [OF Cons.prems(1,2) this]] Cons.prems(3) show ?case
    by (simp add: broker_run_Cons all_asks_def)
qed

lemma ok_new: "broker_ok nano [] ((new_broker external)\<lparr>br_requesters := rqs\<rparr>)"
  by (simp add: broker_ok_def ids_ok_def open_state_def open_ok_def new_broker_def asked_for_def)

section \<open>The account of answers\<close>

definition pending_with :: "string \<Rightarrow> broker \<Rightarrow> nat" where
  "pending_with i st = count_list (map rq_id (br_requests st)) i"

definition answers_to :: "string \<Rightarrow> broker \<Rightarrow> nat" where
  "answers_to i st = length (filter (\<lambda>(j, m). reply_to m = Some i) (br_toRequesters st))"

text \<open>The requesters that wait for an answer.\<close>

definition asking :: "broker \<Rightarrow> string set" where
  "asking st = rq_requester ` (set (br_requests st) \<union> set (asked_for st))"

text \<open>The account of a run: it never exceeds the requests, and it is even if \<open>full\<close>, that is, if all who
  wait for an answer are connected.\<close>

definition balanced :: "bool \<Rightarrow> string list \<Rightarrow> broker \<Rightarrow> bool" where
  "balanced full ids st \<longleftrightarrow> (\<forall>i. pending_with i st + answers_to i st \<le> count_list ids i \<and>
     (full \<longrightarrow> pending_with i st + answers_to i st = count_list ids i))"

definition told :: "bool \<Rightarrow> string list \<Rightarrow> string list \<Rightarrow> broker \<Rightarrow> bool" where
  "told full rqs ids st \<longleftrightarrow> balanced full ids st \<and>
     (full \<longrightarrow> set rqs \<subseteq> set (br_requesters st) \<and> asking st \<subseteq> set rqs)"

lemma answers_replies: "answers_to i st = length (filter (\<lambda>(j, m). reply_to m = Some i) (replies st))"
  unfolding answers_to_def replies_def filter_filter by (intro arg_cong [of _ _ length] filter_cong) auto

lemma answers_message:
  "answers_to i (messageRequester rqr m st) =
    answers_to i st + (if rqr \<in> set (br_requesters st) \<and> reply_to m = Some i then 1 else 0)"
  by (simp add: answers_to_def messageRequester_def)

lemma pending_remove:
  "r \<in> set rs \<Longrightarrow> count_list (map rq_id (remove_request (rq_id r) rs)) i + (if rq_id r = i then 1 else 0) =
    count_list (map rq_id rs) i"
  by (induction rs) auto

text \<open>Steps that answer nothing.\<close>

lemma told_same:
  assumes "told full rqs ids st" "map rq_id (br_requests st') = map rq_id (br_requests st)" "replies st' = replies st"
    and "set (br_requesters st) \<subseteq> set (br_requesters st')" "asking st' \<subseteq> asking st"
  shows "told full rqs ids st'"
proof -
  have "pending_with i st' = pending_with i st" "answers_to i st' = answers_to i st" for i
    by (simp_all only: pending_with_def answers_replies assms(2,3))
  then have "balanced full ids st'" using assms(1) by (simp add: told_def balanced_def)
  moreover have "asking st' \<subseteq> set rqs" if full using assms(1,5) that unfolding told_def by blast
  moreover have "set rqs \<subseteq> set (br_requesters st')" if full using assms(1,4) that unfolding told_def by blast
  ultimately show ?thesis unfolding told_def by blast
qed

lemma told_quiet: "told full rqs ids st \<Longrightarrow> tasks_only st st' \<Longrightarrow> told full rqs ids st'"
  by (erule told_same) (simp_all add: tasks_only_def requests_of_def asked_for_def asking_def)

lemma told_settles: "told full rqs ids st \<Longrightarrow> settles st st' \<Longrightarrow> told full rqs ids st'"
  by (erule told_same) (simp_all add: settles_def timeless_def replies_def asking_def)

lemma told_settle:
  assumes "inj nano" "ids_ok nano st" "told full rqs ids st"
  shows "told full rqs ids (settleTasks nano now st)"
proof -
  let ?st = "expireTasks now st" and ?st' = "settleTasks nano now st"
  have id: "ids_ok nano ?st" using assms(2) by (simp add: ids_ok_def expireTasks_def)
  from settle_loop [OF assms(1) id, of "br_requests st"] obtain ts where
    ts: "br_acceptances ?st' = br_acceptances ?st @ ts"
      "map (\<lambda>(i, a). (ac_request a, ac_offer a)) ts = matched (br_requests st) (br_offers ?st)"
      "br_requests ?st' = map (\<lambda>q. if rq_ref q \<in> rq_ref ` fst ` set (matched (br_requests st) (br_offers ?st))
        then q\<lparr>rq_accepting := True\<rparr> else q) (br_requests ?st)"
      "\<forall>(i, a) \<in> set ts. ac_stage a = AwaitRunner"
    unfolding settleTasks_def by blast
  have f: "timeless ?st' = timeless ?st" using settle_frame unfolding settleTasks_def by blast
  have e: "br_requests ?st = br_requests st" "asked_for ?st = asked_for st" "timeless ?st = timeless st"
    by (simp_all add: expireTasks_def asked_for_def timeless_def)
  have a: "asked_for ?st' = asked_for st @ map fst (matched (br_requests st) (br_offers ?st))"
    using asked_for_new [OF ts(2,4)] e(2) by (simp add: asked_for_def ts(1))
  show ?thesis
  proof (rule told_same [OF assms(3)])
    show "map rq_id (br_requests ?st') = map rq_id (br_requests st)" unfolding ts(3) e(1) by simp
    have "rq_requester r \<in> asking st" if "r \<in> set (br_requests ?st')" for r
      using that unfolding ts(3) e(1) by (auto simp: asking_def)
    moreover have "rq_requester r \<in> asking st" if "r \<in> set (asked_for ?st')" for r
      using that unfolding a by (auto simp: asking_def dest: matched_types)
    ultimately show "asking ?st' \<subseteq> asking st" unfolding asking_def [of ?st'] by (intro image_subsetI) (elim UnE)
  qed (use f e(3) in \<open>simp_all add: timeless_def replies_def\<close>)
qed

lemma asked_for_drop: "set (asked_for (drop_acceptance i st)) \<subseteq> set (asked_for st)"
  by (auto simp: asked_for_def drop_acceptance_def obj_delete_def)

lemma asking_drop: "asking (drop_acceptance i st) \<subseteq> asking st"
  unfolding asking_def using asked_for_drop by (intro image_mono Un_mono) (simp_all add: drop_acceptance_def)

lemma told_drop: "told full rqs ids st \<Longrightarrow> told full rqs ids (drop_acceptance i st)"
  by (erule told_same) (simp_all add: asking_drop, simp_all add: drop_acceptance_def replies_def)

lemma told_idle:
  assumes "told full rqs ids st"
  shows "told full rqs ids (set_accepting b k st)" "told full rqs ids (restart_timer r st)"
proof -
  have m: "map rq_id (map (\<lambda>q. if P q then f q else q) rs) = map rq_id rs" "rq_requester ` set (map (\<lambda>q. if P q then f q else q) rs) = rq_requester ` set rs"
    if "\<And>q. rq_id (f q) = rq_id q" "\<And>q. rq_requester (f q) = rq_requester q" for P f and rs :: "task_request list"
  proof -
    show "map rq_id (map (\<lambda>q. if P q then f q else q) rs) = map rq_id rs" using that by simp
    have "map rq_requester (map (\<lambda>q. if P q then f q else q) rs) = map rq_requester rs" using that by simp
    then show "rq_requester ` set (map (\<lambda>q. if P q then f q else q) rs) = rq_requester ` set rs"
      by (metis set_map)
  qed
  show "told full rqs ids (set_accepting b k st)"
    by (rule told_same [OF assms]) (simp_all add: set_accepting_def replies_def asking_def asked_for_def image_Un m del: set_map)
  show "told full rqs ids (restart_timer r st)"
    by (rule told_same [OF assms]) (simp_all add: restart_timer_def createRequestTimeout_def clearTimer_def replies_def
        asking_def asked_for_def image_Un m del: set_map)
qed

text \<open>A request leaves the list and its requester is told.\<close>

lemma told_reply:
  assumes t: "told full rqs ids st" and r: "i \<in> rq_id ` set (br_requests st)" and rqr: "rqr \<in> asking st" and m: "reply_to m = Some i"
    and s: "br_requests s = remove_request i (br_requests st)" "set (asked_for s) \<subseteq> set (asked_for st)"
      "br_requesters s = br_requesters st" "br_toRequesters s = br_toRequesters st"
  shows "told full rqs ids (messageRequester rqr m s)"
proof -
  obtain r0 where r0: "r0 \<in> set (br_requests st)" "rq_id r0 = i" using r by auto
  have there: "rqr \<in> set (br_requesters s)" if full
  proof -
    have "asking st \<subseteq> set rqs" "set rqs \<subseteq> set (br_requesters st)" using t that by (simp_all add: told_def)
    with rqr s(3) show ?thesis by auto
  qed
  have a: "answers_to j (messageRequester rqr m s) = answers_to j st + (if rqr \<in> set (br_requesters s) \<and> i = j then 1 else 0)" for j
    using answers_message [of j rqr m s] m s(4) by (simp add: answers_to_def)
  have p: "pending_with j (messageRequester rqr m s) + (if i = j then 1 else 0) = pending_with j st" for j
    using pending_remove [OF r0(1), of j] r0(2) s(1) by (simp add: pending_with_def)
  have "balanced full ids (messageRequester rqr m s)" unfolding balanced_def
  proof
    fix j
    have "pending_with j st + answers_to j st \<le> count_list ids j \<and> (full \<longrightarrow> pending_with j st + answers_to j st = count_list ids j)"
      using t by (simp add: told_def balanced_def)
    with a [of j] p [of j] there show "pending_with j (messageRequester rqr m s) + answers_to j (messageRequester rqr m s) \<le> count_list ids j \<and>
        (full \<longrightarrow> pending_with j (messageRequester rqr m s) + answers_to j (messageRequester rqr m s) = count_list ids j)"
      by (auto split: if_splits)
  qed
  moreover have "asking (messageRequester rqr m s) \<subseteq> asking st"
  proof -
    have "asked_for (messageRequester rqr m s) = asked_for s" by (simp add: asked_for_def)
    with s(1,2) show ?thesis unfolding asking_def by (intro image_mono Un_mono) (auto dest: remove_request_in)
  qed
  ultimately show ?thesis using t s(3) unfolding told_def by auto
qed

lemma told_timeout:
  assumes "told full rqs ids st"
  shows "told full rqs ids (handleRequestTimeout i (clearTimer k st))"
proof (cases "find (\<lambda>r. rq_id r = i) (br_requests st)")
  case None
  then have "handleRequestTimeout i (clearTimer k st) = clearTimer k st" by (simp add: handleRequestTimeout_def clearTimer_def)
  moreover have "told full rqs ids (clearTimer k st)"
    by (rule told_same [OF assms]) (simp_all add: clearTimer_def replies_def asking_def asked_for_def)
  ultimately show ?thesis by simp
next
  case (Some r)
  then have r: "r \<in> set (br_requests st)" "rq_id r = i" by (auto simp: find_Some_iff)
  have run: "handleRequestTimeout i (clearTimer k st) = messageRequester (rq_requester r) (RequestExpired (rq_id r) ''timeout'')
      (clearTimer (rq_timer r) ((clearTimer k st)\<lparr>br_requests := remove_request i (br_requests st),
         br_warned := List.removeAll i (br_warned st)\<rparr>))"
    using Some by (simp add: handleRequestTimeout_def clearTimer_def)
  show ?thesis unfolding run
    by (rule told_reply [OF assms, of i]) (use r in \<open>auto simp: asking_def reply_to_def clearTimer_def asked_for_def\<close>)
qed

lemma told_accepted:
  assumes t: "told full rqs ids st" and a: "obj_get (br_acceptances st) i = Some a" "ac_stage a = AwaitRunner"
  shows "told full rqs ids (runner_accepted i a st)"
proof -
  let ?q = "ac_request a"
  have "(i, a) \<in> set (br_acceptances st)" using map_of_SomeD [OF a(1)] .
  with a(2) have q: "?q \<in> set (asked_for st)" by (force simp: asked_for_def)
  let ?t = "\<lparr>bt_runner = of_runner (ac_offer a), bt_requester = rq_requester ?q, bt_type = of_type (ac_offer a)\<rparr>"
  let ?st1 = "(clearTimer (rq_timer ?q) st)\<lparr>br_tasks := obj_set i ?t (br_tasks st)\<rparr>"
  show ?thesis
  proof (cases "rq_id ?q \<in> rq_id ` set (br_requests st)")
    case False
    have "told full rqs ids ?st1"
      by (rule told_same [OF t]) (simp_all add: clearTimer_def replies_def asking_def asked_for_def)
    from told_drop [OF this] False show ?thesis by (simp add: runner_accepted_def Let_def clearTimer_def)
  next
    case True
    let ?b = "a\<lparr>ac_stage := AwaitRequester, ac_answer := Unanswered\<rparr>"
    let ?s = "?st1\<lparr>br_requests := remove_request (rq_id ?q) (br_requests ?st1),
      br_requesterAccepts := br_requesterAccepts ?st1 @ [i], br_acceptances := obj_set i ?b (br_acceptances ?st1)\<rparr>"
    have run: "runner_accepted i a st = messageRequester (rq_requester ?q) (TaskReady (rq_id ?q) i) ?s"
      using True by (simp add: runner_accepted_def Let_def clearTimer_def)
    have "set (asked_for ?s) \<subseteq> set (asked_for st)"
      by (auto simp: asked_for_def clearTimer_def dest!: obj_set_in)
    then show ?thesis unfolding run
      by (intro told_reply [OF t True]) (use q in \<open>simp_all add: asking_def reply_to_def clearTimer_def\<close>)
  qed
qed

lemma told_continue:
  assumes t: "told full rqs ids st"
  shows "told full rqs ids (continue_accept i st)"
proof (cases "obj_get (br_acceptances st) i")
  case (Some a)
  have drop: "told full rqs ids (drop_acceptance i s)" if "tasks_only st s" for s by (rule told_drop [OF told_quiet [OF t that]])
  show ?thesis
  proof (cases "ac_stage a")
    case AwaitRunner
    with Some t told_accepted [OF t Some AwaitRunner] told_drop [OF told_idle(1) [OF t]]
      told_drop [OF told_idle(2) [OF told_idle(1) [OF t]]] show ?thesis
      by (cases "ac_answer a") (simp_all add: continue_accept_def)
  next
    case AwaitRequester
    with Some t drop [OF quiet_settings] drop [OF quiet_cancel] drop [OF quiet_trans [OF quiet_cancel quiet_fields(2)]] show ?thesis
      by (cases "ac_answer a") (simp_all add: continue_accept_def Let_def)
  qed
qed (simp add: continue_accept_def t)

text \<open>No requester leaves, and only those ask that were there or have connected.\<close>

definition stays :: "string list \<Rightarrow> broker_event \<Rightarrow> bool" where
  "stays rqs ev \<longleftrightarrow> (case ev of RequesterLeaves _ \<Rightarrow> False | FromRequesterMsg _ i (RequesterAsks _ _) \<Rightarrow> i \<in> set rqs | _ \<Rightarrow> True)"

definition connected :: "string list \<Rightarrow> broker_event \<Rightarrow> string list" where
  "connected rqs ev = (case ev of RequesterConnects i \<Rightarrow> i # rqs | _ \<Rightarrow> rqs)"

fun all_stay :: "string list \<Rightarrow> broker_event list \<Rightarrow> bool" where
  "all_stay rqs [] = True"
| "all_stay rqs (ev # evs) = (stays rqs ev \<and> all_stay (connected rqs ev) evs)"

lemma told_ask:
  assumes n: "inj nano" and ok: "ids_ok nano st" and t: "told full rqs ids st" and r: "full \<longrightarrow> requester \<in> set rqs"
  shows "told full rqs (ids @ [i]) (onRequesterMessage nano now requester (RequesterAsks ty i) st)"
proof -
  let ?r = "\<lparr>rq_ref = br_refs st, rq_id = i, rq_requester = requester, rq_type = ty, rq_timer = br_handles st, rq_accepting = False\<rparr>"
  let ?st1 = "st\<lparr>br_handles := Suc (br_handles st), br_timers := br_timers st @ [(br_handles st, i)], br_refs := Suc (br_refs st)\<rparr>"
  have run: "onRequesterMessage nano now requester (RequesterAsks ty i) st = taskRequested nano now ?r ?st1"
    by (simp add: onRequesterMessage_def createRequestTimeout_def)
  have k: "full \<longrightarrow> requester \<in> set (br_requesters st)" using t r by (auto simp: told_def)
  have sum: "pending_with j st + answers_to j st \<le> count_list ids j \<and> (full \<longrightarrow> pending_with j st + answers_to j st = count_list ids j)" for j
    using t by (simp add: told_def balanced_def)
  show ?thesis
  proof (cases "br_draining st")
    case True
    let ?s = "clearTimer (br_handles st) ?st1"
    have d: "taskRequested nano now ?r ?st1 = messageRequester requester (RequestExpired i ''draining'') ?s"
      using True by (simp add: taskRequested_def)
    have same: "br_requests ?s = br_requests st" "br_requesters ?s = br_requesters st" "asked_for ?s = asked_for st"
      "br_toRequesters ?s = br_toRequesters st" by (simp_all add: clearTimer_def asked_for_def)
    have a: "answers_to j (messageRequester requester (RequestExpired i ''draining'') ?s) =
        answers_to j st + (if requester \<in> set (br_requesters st) \<and> i = j then 1 else 0)" for j
      using answers_message [of j requester _ ?s] same by (simp add: reply_to_def answers_to_def)
    have p: "pending_with j (messageRequester requester (RequestExpired i ''draining'') ?s) = pending_with j st" for j
      using same by (simp add: pending_with_def)
    have "balanced full (ids @ [i]) (messageRequester requester (RequestExpired i ''draining'') ?s)"
      unfolding balanced_def p a
    proof
      fix j
      have c: "count_list (ids @ [i]) j = count_list ids j + (if i = j then 1 else 0)" by simp
      show "pending_with j st + (answers_to j st + (if requester \<in> set (br_requesters st) \<and> i = j then 1 else 0))
          \<le> count_list (ids @ [i]) j \<and>
        (full \<longrightarrow> pending_with j st + (answers_to j st + (if requester \<in> set (br_requesters st) \<and> i = j then 1 else 0)) =
          count_list (ids @ [i]) j)"
        unfolding c using sum [of j] k by (simp split: if_splits)
    qed
    then show ?thesis unfolding run d
      using t same by (simp add: told_def asking_def asked_for_def)
  next
    case False
    let ?st2 = "?st1\<lparr>br_requests := br_requests ?st1 @ [?r]\<rparr>"
    have "balanced full (ids @ [i]) ?st2"
      using sum unfolding balanced_def by (auto simp: pending_with_def answers_to_def)
    then have "told full rqs (ids @ [i]) ?st2"
      using t r by (auto simp: told_def asking_def asked_for_def)
    moreover have "ids_ok nano ?st2" using ok by (simp add: ids_ok_def)
    ultimately show ?thesis unfolding run using told_settle [OF n] False by (simp add: taskRequested_def)
  qed
qed

lemma told_step:
  assumes n: "inj nano" and ok: "ids_ok nano st" "obj_wf (br_tasks st)" and t: "told full rqs ids st" and ev: "full \<longrightarrow> stays rqs ev"
  shows "told full (connected rqs ev) (ids @ asks ev) (broker_step nano ev st)"
proof (cases ev)
  case (RunnerConnects j)
  have "tasks_only st (st\<lparr>br_runners := List.insert j (br_runners st)\<rparr>)" by (simp add: tasks_only_def requests_of_def replies_def)
  from told_quiet [OF t quiet_trans [OF this quiet_message(1)]] RunnerConnects show ?thesis
    by (simp add: broker_step_def registerRunner_def asks_def connected_def)
next
  case (RunnerLeaves j e)
  with told_quiet [OF t quiet_leave [OF ok]] show ?thesis by (simp add: broker_step_def asks_def connected_def)
next
  case (FromRunnerMsg now j message)
  have "told full rqs ids (st\<lparr>br_offers := os\<rparr>)" "ids_ok nano (st\<lparr>br_offers := os\<rparr>)" for os
    using told_quiet [OF t quiet_fields(4)] ids_quiet [OF ok(1) quiet_fields(4)] by simp_all
  then have offer: "told full rqs ids (settleTasks nano now (st\<lparr>br_offers := os\<rparr>))" for os using told_settle [OF n] by simp
  have answer: "told full rqs ids (runner_answer x k st)" for x k by (rule told_settles [OF t settles_runner])
  have "told full rqs ids (onRunnerMessage nano now j message st)"
    using t offer answer told_quiet [OF t quiet_end] told_quiet [OF t quiet_to_requester]
    by (cases message) (simp_all add: onRunnerMessage_def handleRunnerAccept_def handleRunnerReject_def handleRunnerDeferred_def
        taskOffered_def task_handler_defs reply_to_def)
  with FromRunnerMsg show ?thesis by (simp add: broker_step_def asks_def connected_def)
next
  case (FromRequesterMsg now j message)
  show ?thesis
  proof (cases message)
    case (RequesterSettings k x)
    with told_settles [OF t settles_requester] FromRequesterMsg show ?thesis
      by (simp add: broker_step_def onRequesterMessage_def handleRequesterAccept_def asks_def connected_def)
  next
    case (RequesterAsks ty k)
    with told_ask [OF n ok(1) t] ev FromRequesterMsg show ?thesis by (simp add: broker_step_def asks_def stays_def connected_def)
  qed (use told_quiet [OF t quiet_cancel] told_quiet [OF t quiet_to_runner] FromRequesterMsg in
      \<open>simp_all add: broker_step_def onRequesterMessage_def asks_def connected_def task_handler_defs\<close>)
next
  case (RequestTimer h)
  with told_timeout [OF t] t show ?thesis by (simp add: broker_step_def asks_def connected_def split: option.split)
next
  case (TaskTimer j)
  have "tasks_only st (st\<lparr>br_taskTimers := List.removeAll j (br_taskTimers st)\<rparr>)" by (rule quiet_fields)
  from told_quiet [OF t quiet_trans [OF this quiet_timeout]] t TaskTimer show ?thesis by (simp add: broker_step_def asks_def connected_def)
next
  case (AcceptTimer j)
  with told_settles [OF t settles_timer] show ?thesis by (simp add: broker_step_def asks_def connected_def)
next
  case (GoesOn j)
  with told_continue [OF t] show ?thesis by (simp add: broker_step_def asks_def connected_def)
next
  case (RequesterConnects j)
  have "told full rqs ids (st\<lparr>br_requesters := List.insert j (br_requesters st)\<rparr>)"
    by (rule told_same [OF t]) (auto simp: replies_def asking_def asked_for_def)
  then have "told full (j # rqs) ids (st\<lparr>br_requesters := List.insert j (br_requesters st)\<rparr>)"
    by (auto simp: told_def)
  with RequesterConnects show ?thesis by (simp add: broker_step_def asks_def registerRequester_def connected_def)
next
  case (RequesterLeaves j)
  with ev have "\<not> full" by (simp add: stays_def)
  then have "told full rqs ids (st\<lparr>br_requesters := removeAll j (br_requesters st)\<rparr>)"
    using t by (simp add: told_def balanced_def pending_with_def answers_to_def)
  with RequesterLeaves show ?thesis by (simp add: broker_step_def asks_def deregisterRequester_def connected_def)
next
  case Drain
  have "told full rqs ids (st\<lparr>br_draining := True\<rparr>)"
    by (rule told_same [OF t]) (simp_all add: replies_def asking_def asked_for_def)
  with Drain show ?thesis by (simp add: broker_step_def asks_def startDraining_def connected_def)
qed

lemma told_run:
  "inj nano \<Longrightarrow> broker_ok nano ids st \<Longrightarrow> distinct (ids @ all_asks evs) \<Longrightarrow> told full rqs ids st \<Longrightarrow> (full \<longrightarrow> all_stay rqs evs) \<Longrightarrow>
    \<exists>rqs'. told full rqs' (ids @ all_asks evs) (broker_run nano evs st)"
proof (induction evs arbitrary: ids st rqs)
  case Nil
  then show ?case by (auto simp: broker_run_def all_asks_def)
next
  case (Cons ev evs)
  have d: "distinct (ids @ asks ev)" using Cons.prems(3) by (auto simp: all_asks_def)
  have t: "told full (connected rqs ev) (ids @ asks ev) (broker_step nano ev st)"
    using told_step [OF Cons.prems(1) _ _ Cons.prems(4)] Cons.prems(2,5) by (simp add: broker_ok_def)
  from Cons.IH [OF Cons.prems(1) ok_step [OF Cons.prems(1,2) d] _ t] Cons.prems(3,5) show ?case
    by (simp add: broker_run_Cons all_asks_def)
qed

section \<open>What the matching leaves\<close>

lemma filter_not_take: "distinct xs \<Longrightarrow> filter (\<lambda>x. x \<notin> set (take n xs)) xs = drop n xs"
proof (induction xs arbitrary: n)
  case (Cons x xs)
  show ?case
  proof (cases n)
    case (Suc m)
    have "filter (\<lambda>y. y \<noteq> x \<and> y \<notin> set (take m xs)) xs = filter (\<lambda>y. y \<notin> set (take m xs)) xs"
      using Cons.prems by (intro filter_cong) auto
    with Suc Cons show ?thesis by simp
  qed (simp add: filter_id_conv)
qed simp

lemma idle_marked:
  "idle_of ty (map (\<lambda>q. if P q then q\<lparr>rq_accepting := True\<rparr> else q) rs) = filter (\<lambda>r. \<not> P r) (idle_of ty rs)"
  by (induction rs) (auto simp: idle_of_def)

lemma idle_left:
  assumes d: "distinct (map rq_ref rs)"
  shows "idle_of ty (map (\<lambda>q. if rq_ref q \<in> rq_ref ` fst ` set (matched rs os) then q\<lparr>rq_accepting := True\<rparr> else q) rs) =
    drop (length (of_types ty os)) (idle_of ty rs)"
proof -
  let ?K = "rq_ref ` fst ` set (matched rs os)" and ?n = "length (of_types ty os)"
  have "idle_of ty (map (\<lambda>q. if rq_ref q \<in> ?K then q\<lparr>rq_accepting := True\<rparr> else q) rs) = filter (\<lambda>r. rq_ref r \<notin> ?K) (idle_of ty rs)"
    by (rule idle_marked)
  also have "\<dots> = filter (\<lambda>r. r \<notin> set (take ?n (idle_of ty rs))) (idle_of ty rs)"
  proof (rule filter_cong [OF refl])
    fix r assume r: "r \<in> set (idle_of ty rs)"
    then have r': "r \<in> set rs" "rq_type r = ty" by (simp_all add: idle_of_def)
    have "map fst (filter (\<lambda>(r, offer). of_type offer = ty) (matched rs os)) = take ?n (idle_of ty rs)"
      unfolding matched_by_type(1) by (simp add: map_fst_zip_take min.commute)
        (metis append_take_drop_id length_take min.commute take_all_iff nle_le)
    then have "r \<in> set (take ?n (idle_of ty rs)) \<longleftrightarrow> r \<in> fst ` set (filter (\<lambda>(r, offer). of_type offer = ty) (matched rs os))"
      by (metis set_map)
    also have "\<dots> \<longleftrightarrow> r \<in> fst ` set (matched rs os)" using r'(2) by (force dest: matched_types)
    also have "\<dots> \<longleftrightarrow> rq_ref r \<in> ?K"
    proof
      assume "rq_ref r \<in> ?K"
      then obtain q offer where q: "(q, offer) \<in> set (matched rs os)" "rq_ref q = rq_ref r" by auto
      with r'(1) matched_types [OF q(1)] d have "q = r" by (auto simp: distinct_map inj_on_def)
      with q(1) show "r \<in> fst ` set (matched rs os)" by force
    qed blast
    finally show "rq_ref r \<notin> ?K \<longleftrightarrow> r \<notin> set (take ?n (idle_of ty rs))" by blast
  qed
  also have "\<dots> = drop ?n (idle_of ty rs)"
  proof (rule filter_not_take)
    show "distinct (idle_of ty rs)" using d by (simp add: idle_of_def distinct_map)
  qed
  finally show ?thesis .
qed

section \<open>A task without an end\<close>

definition orphan :: "string \<Rightarrow> string \<Rightarrow> broker \<Rightarrow> bool" where
  "orphan i runner st \<longleftrightarrow> map_option bt_runner (obj_get (br_tasks st) i) = Some runner \<and> obj_get (br_acceptances st) i = None \<and>
     i \<notin> set (br_taskTimers st) \<and> runner \<in> set (br_runners st)"

text \<open>What its runner, its requester or the end of its runner can do about it.\<close>

definition ends_task :: "string \<Rightarrow> string \<Rightarrow> broker_event \<Rightarrow> bool" where
  "ends_task i runner ev \<longleftrightarrow> (case ev of
       RunnerLeaves j _ \<Rightarrow> j = runner
     | FromRunnerMsg _ _ (RunnerDone j _) \<Rightarrow> j = i
     | FromRunnerMsg _ _ (RunnerFails j _) \<Rightarrow> j = i
     | FromRequesterMsg _ _ (RequesterCancels j _) \<Rightarrow> j = i
     | _ \<Rightarrow> False)"

lemma orphan_same:
  "orphan i r st \<Longrightarrow> br_tasks st' = br_tasks st \<Longrightarrow> br_acceptances st' = br_acceptances st \<Longrightarrow> br_taskTimers st' = br_taskTimers st \<Longrightarrow>
    br_runners st' = br_runners st \<Longrightarrow> orphan i r st'"
  by (simp add: orphan_def)

lemma orphan_end:
  assumes "orphan i r st" "j \<noteq> i"
  shows "orphan i r (cancelTask j reason st)" "orphan i r (failTask j e st)" "orphan i r (end_task j m st)"
  using assms by (auto simp: orphan_def cancelTask_def failTask_def end_task_def Let_def split: option.split)

lemma orphan_getRunner:
  assumes "orphan i r st" "getRunnerOrFailTask j st = (found, st')"
  shows "orphan i r st'"
proof (cases "j = i")
  case True
  with assms show ?thesis by (auto simp: orphan_def getRunnerOrFailTask_def split: option.splits if_splits)
next
  case False
  have "orphan i r (s\<lparr>br_thrown := es\<rparr>)" if "orphan i r s" for s es using that by (simp add: orphan_def)
  with assms orphan_end(2) [OF assms(1) False] show ?thesis
    by (auto simp: getRunnerOrFailTask_def Let_def split: option.splits if_splits)
qed

lemma orphan_message: "orphan i r st \<Longrightarrow> orphan i r (messageRunner j m st)" "orphan i r st \<Longrightarrow> orphan i r (messageRequester j x st)"
  by (simp_all add: orphan_def)

lemma orphan_to_runner:
  assumes "orphan i r st"
  shows "orphan i r (to_runner_of j m st)" "j \<noteq> i \<Longrightarrow> orphan i r (sendTaskSettings j x st)"
proof -
  obtain found st1 where g: "getRunnerOrFailTask j st = (found, st1)" by force
  have o: "orphan i r st1" using orphan_getRunner [OF assms g] .
  show "orphan i r (to_runner_of j m st)"
    using assms o g orphan_message(1) [OF o] by (simp add: to_runner_of_def split: option.split)
  assume "j \<noteq> i"
  with o have "orphan i r (st1\<lparr>br_taskTimers := br_taskTimers st1 @ [j]\<rparr>)" by (simp add: orphan_def)
  from orphan_message(1) [OF this] show "orphan i r (sendTaskSettings j x st)"
    using assms o g by (simp add: sendTaskSettings_def split: option.split)
qed

lemma orphan_answer: "orphan i r st \<Longrightarrow> orphan i r (answer_accept stage x j st)"
  by (auto simp: orphan_def answer_accept_def split: option.split)

lemma orphan_runner_answer: "orphan i r st \<Longrightarrow> orphan i r (runner_answer x j st)"
  using orphan_answer [OF orphan_same [of i r st "st\<lparr>br_runnerAccepts := List.removeAll j (br_runnerAccepts st)\<rparr>"]]
  by (simp add: runner_answer_def)

lemma orphan_requester_answer: "orphan i r st \<Longrightarrow> orphan i r (requester_answer x j st)"
  using orphan_answer [OF orphan_same [of i r st "st\<lparr>br_requesterAccepts := List.removeAll j (br_requesterAccepts st)\<rparr>"]]
  by (simp add: requester_answer_def)

lemma orphan_settle:
  assumes n: "inj nano" and ok: "ids_ok nano st" and o: "orphan i r st"
  shows "orphan i r (fold (settle_request nano) rs st)"
  using ok o
proof (induction rs arbitrary: st)
  case (Cons q rs)
  have "ids_ok nano (settle_request nano q st) \<and> orphan i r (settle_request nano q st)"
  proof (cases rule: settle_request_cases [where r = q and nano = nano and st = st])
    case (none w)
    with Cons.prems show ?thesis by (simp add: ids_ok_def orphan_def)
  next
    case (asked offer rest)
    have "i \<in> fst ` set (br_tasks st)" using Cons.prems(2) by (auto simp: orphan_def dest: obj_get_key)
    then have "i \<noteq> nano (br_taskCount st)" using fresh_id [OF n Cons.prems(1)] by blast
    with asked(3) Cons.prems(2) have "orphan i r (settle_request nano q st)" by (simp add: asked_about_def orphan_def)
    with asked_ids_ok [OF n Cons.prems(1) asked(3)] show ?thesis by blast
  qed (use Cons.prems in simp)
  with Cons.IH show ?case by simp
qed simp

lemma orphan_leave:
  assumes o: "orphan i r st" and j: "j \<noteq> r" and wf: "obj_wf (br_tasks st)"
  shows "orphan i r (deregisterRunner j e st)"
proof -
  let ?st1 = "st\<lparr>br_runners := List.removeAll j (br_runners st), br_offers := filter (\<lambda>offer. of_runner offer \<noteq> j) (br_offers st)\<rparr>"
  have o1: "orphan i r ?st1" using o j by (simp add: orphan_def)
  have notin: "i \<notin> set (obj_keys (filter (\<lambda>(taskId, t). bt_runner t = j) (br_tasks ?st1)))"
  proof
    assume "i \<in> set (obj_keys (filter (\<lambda>(taskId, t). bt_runner t = j) (br_tasks ?st1)))"
    then obtain t where "(i, t) \<in> set (br_tasks st)" "bt_runner t = j" by auto
    with wf o j show False by (auto simp: orphan_def obj_wf_in)
  qed
  have "orphan i r (fold (\<lambda>taskId st. handleRunnerReject taskId e (failTask taskId (Disconnected e) st)) js s)"
    if "orphan i r s" "i \<notin> set js" for js s
    using that
  proof (induction js arbitrary: s)
    case (Cons k js)
    have "orphan i r (failTask k (Disconnected e) s)" using orphan_end(2) [OF Cons.prems(1)] Cons.prems(2) by auto
    then have "orphan i r (handleRunnerReject k e (failTask k (Disconnected e) s))"
      unfolding handleRunnerReject_def by (rule orphan_runner_answer)
    with Cons.IH Cons.prems(2) show ?case by simp
  qed simp
  from this [OF o1 notin] show ?thesis unfolding deregisterRunner_def Let_def .
qed

lemma orphan_continue:
  assumes o: "orphan i r st"
  shows "orphan i r (continue_accept j st)"
proof (cases "obj_get (br_acceptances st) j")
  case (Some a)
  with o have j: "j \<noteq> i" by (auto simp: orphan_def)
  have drop: "orphan i r s \<Longrightarrow> orphan i r (drop_acceptance j s)" for s using j by (simp add: orphan_def drop_acceptance_def)
  have idle: "orphan i r (set_accepting b k st)" "orphan i r (restart_timer q (set_accepting b k st))" for b k q
    using o by (simp_all add: orphan_def restart_timer_def createRequestTimeout_def clearTimer_def)
  have acc: "orphan i r (runner_accepted j a st)"
    using o j by (simp add: runner_accepted_def Let_def orphan_def drop_acceptance_def clearTimer_def)
  have thrown: "orphan i r (s\<lparr>br_thrown := es\<rparr>)" if "orphan i r s" for s es using that by (simp add: orphan_def)
  show ?thesis
    using Some o acc drop [OF idle(1)] drop [OF idle(2)] drop [OF orphan_to_runner(2) [OF o j]]
      drop [OF orphan_end(1) [OF o j]] drop [OF thrown [OF orphan_end(1) [OF o j]]]
    by (cases "ac_stage a"; cases "ac_answer a") (simp_all add: continue_accept_def Let_def)
qed (simp add: continue_accept_def o)

lemma orphan_step:
  assumes n: "inj nano" and ok: "ids_ok nano st" "obj_wf (br_tasks st)" and o: "orphan i r st" and ev: "\<not> ends_task i r ev"
  shows "orphan i r (broker_step nano ev st)"
proof -
  have settle: "orphan i r (settleTasks nano now s)" if "ids_ok nano s" "orphan i r s" for now s
  proof -
    have "ids_ok nano (expireTasks now s)" "orphan i r (expireTasks now s)"
      using that by (simp_all add: ids_ok_def orphan_def expireTasks_def)
    from orphan_settle [OF n this] show ?thesis by (simp add: settleTasks_def)
  qed
  have runner: "orphan i r (runner_answer x j st)" for x j
    by (rule orphan_runner_answer [OF o])
  have requester: "orphan i r (requester_answer x j st)" for x j
    by (rule orphan_requester_answer [OF o])
  have to_req: "orphan i r (to_requester_of j m st)" for j m
    using o orphan_message(2) [OF o] by (simp add: to_requester_of_def split: option.split)
  show ?thesis
  proof (cases ev)
    case (RunnerConnects j)
    have "orphan i r (st\<lparr>br_runners := List.insert j (br_runners st)\<rparr>)" using o by (simp add: orphan_def)
    from orphan_message(1) [OF this] RunnerConnects show ?thesis by (simp add: broker_step_def registerRunner_def)
  next
    case (RunnerLeaves j e)
    with orphan_leave [OF o _ ok(2)] ev show ?thesis by (simp add: broker_step_def ends_task_def)
  next
    case (FromRunnerMsg now j message)
    have "orphan i r (st\<lparr>br_offers := os\<rparr>)" "ids_ok nano (st\<lparr>br_offers := os\<rparr>)" for os
      using o ok(1) by (simp_all add: orphan_def ids_ok_def)
    then have offer: "orphan i r (taskOffered nano now x st)" for x using settle by (simp add: taskOffered_def)
    show ?thesis
      using FromRunnerMsg o ev runner to_req offer orphan_end(3) [OF o]
      by (cases message) (simp_all add: broker_step_def ends_task_def onRunnerMessage_def handleRunnerAccept_def handleRunnerReject_def
          handleRunnerDeferred_def task_handler_defs)
  next
    case (FromRequesterMsg now j message)
    have asks: "orphan i r (onRequesterMessage nano now j (RequesterAsks ty k) st)" for ty k
    proof -
      have "orphan i r (clearTimer h (st\<lparr>br_handles := hs, br_timers := ts, br_refs := rf\<rparr>))"
        "orphan i r (st\<lparr>br_handles := hs, br_timers := ts, br_refs := rf, br_requests := rs\<rparr>)"
        "ids_ok nano (st\<lparr>br_handles := hs, br_timers := ts, br_refs := rf, br_requests := rs\<rparr>)" for h hs ts rf rs
        using o ok(1) by (simp_all add: orphan_def clearTimer_def ids_ok_def)
      with settle orphan_message(2) show ?thesis
        by (simp add: onRequesterMessage_def createRequestTimeout_def taskRequested_def)
    qed
    show ?thesis
      using FromRequesterMsg o ev asks requester orphan_to_runner(1) [OF o] orphan_end(1) [OF o]
      by (cases message) (simp_all add: broker_step_def ends_task_def onRequesterMessage_def handleRequesterAccept_def task_handler_defs)
  next
    case (RequestTimer h)
    with o show ?thesis
      by (auto simp: broker_step_def handleRequestTimeout_def clearTimer_def orphan_def split: option.split)
  next
    case (TaskTimer j)
    show ?thesis
    proof (cases "j \<in> set (br_taskTimers st)")
      case True
      with o have j: "j \<noteq> i" by (auto simp: orphan_def)
      have s: "orphan i r (st\<lparr>br_taskTimers := List.removeAll j (br_taskTimers st)\<rparr>)" using o by (simp add: orphan_def)
      from orphan_end(3) [OF s j] orphan_end(3) [OF orphan_message(1) [OF s] j] s TaskTimer True show ?thesis
        by (simp add: broker_step_def handleTaskTimeout_def taskErrorHandler_def split: option.split)
    qed (use TaskTimer o in \<open>simp add: broker_step_def\<close>)
  next
    case (AcceptTimer j)
    with orphan_answer o show ?thesis by (simp add: broker_step_def accept_timer_def)
  next
    case (GoesOn j)
    with orphan_continue [OF o] show ?thesis by (simp add: broker_step_def)
  qed (use o in \<open>simp_all add: broker_step_def orphan_def registerRequester_def deregisterRequester_def startDraining_def\<close>)
qed

lemma orphan_run:
  "inj nano \<Longrightarrow> broker_ok nano ids st \<Longrightarrow> distinct (ids @ all_asks evs) \<Longrightarrow> orphan i r st \<Longrightarrow> \<forall>ev \<in> set evs. \<not> ends_task i r ev \<Longrightarrow>
    orphan i r (broker_run nano evs st)"
proof (induction evs arbitrary: ids st)
  case Nil
  then show ?case by (simp add: broker_run_def)
next
  case (Cons ev evs)
  have d: "distinct (ids @ asks ev)" using Cons.prems(3) by (auto simp: all_asks_def)
  have "orphan i r (broker_step nano ev st)"
    using orphan_step [OF Cons.prems(1) _ _ Cons.prems(4)] Cons.prems(2,5) by (simp add: broker_ok_def)
  with Cons.IH [OF Cons.prems(1) ok_step [OF Cons.prems(1,2) d]] Cons.prems(3,5) show ?case
    by (simp add: broker_run_Cons all_asks_def)
qed

section \<open>Properties\<close>

lemma count_distinct: "distinct xs \<Longrightarrow> count_list xs x = (if x \<in> set xs then 1 else 0)"
  by (induction xs) auto

definition broker_for :: "bool \<Rightarrow> string list \<Rightarrow> broker" where
  "broker_for external rqs = (new_broker external)\<lparr>br_requesters := rqs\<rparr>"

lemma reached_ok:
  "inj nano \<Longrightarrow> distinct (all_asks evs) \<Longrightarrow> broker_ok nano (all_asks evs) (broker_run nano evs (broker_for external rqs))"
  using ok_run [OF _ ok_new [where nano = nano and external = external and rqs = rqs], of evs] by (simp add: broker_for_def)

text \<open>One runner with one offer, one requester with two requests.\<close>

definition one_offer :: "broker_event list" where
  "one_offer = [RunnerConnects ''r'', FromRunnerMsg 0 ''r'' (RunnerOffers ''js'' ''o'' 5000),
     FromRequesterMsg 0 ''q'' (RequesterAsks ''js'' ''a''), FromRequesterMsg 0 ''q'' (RequesterAsks ''js'' ''b'')]"

lemma string_ids: "inj string_of_nat"
  by (simp add: inj_on_def string_of_nat_inj)

lemma one_offer_asks: "all_asks one_offer = [''a'', ''b'']"
  by code_simp

text \<open>C7. The matching is first come, first served for each type of task: the idle requests of a type,
  in the order of their arrival, are paired with the offers of that type that have not expired, in the order of
  theirs, and what is left over of one kind is left over because the other has run out.\<close>

theorem offers_matched_in_order:
  assumes "inj nano" "distinct (all_asks evs)" "st = broker_run nano evs (broker_for external rqs)"
  shows "\<exists>ts. br_acceptances (settleTasks nano now st) = br_acceptances st @ ts \<and> (\<forall>(i, a) \<in> set ts. ac_stage a = AwaitRunner) \<and>
    (\<forall>ty. let idle = idle_of ty (br_requests st); live = of_types ty (filter (\<lambda>offer. \<not> expired now offer) (br_offers st)) in
       filter (\<lambda>(r, offer). of_type offer = ty) (map (\<lambda>(i, a). (ac_request a, ac_offer a)) ts) = zip idle live \<and>
       idle_of ty (br_requests (settleTasks nano now st)) = drop (length live) idle \<and>
       of_types ty (br_offers (settleTasks nano now st)) = drop (length idle) live)"
proof -
  have ok: "broker_ok nano (all_asks evs) st" unfolding assms(3) by (rule reached_ok [OF assms(1,2)])
  let ?st = "expireTasks now st"
  have id: "ids_ok nano ?st" using ok by (simp add: broker_ok_def ids_ok_def expireTasks_def)
  have refs: "distinct (map rq_ref (br_requests st))" using ok open_okD(4) by (auto simp: broker_ok_def open_state_def)
  have e: "br_acceptances ?st = br_acceptances st" "br_requests ?st = br_requests st"
    "br_offers ?st = filter (\<lambda>offer. \<not> expired now offer) (br_offers st)" by (simp_all add: expireTasks_def)
  let ?os = "filter (\<lambda>offer. \<not> expired now offer) (br_offers st)"
  from settle_loop [OF assms(1) id, of "br_requests st"] obtain ts where
    ts: "br_acceptances (settleTasks nano now st) = br_acceptances st @ ts"
      "map (\<lambda>(i, a). (ac_request a, ac_offer a)) ts = matched (br_requests st) ?os"
      "br_offers (settleTasks nano now st) = unmatched (br_requests st) ?os"
      "br_requests (settleTasks nano now st) = map (\<lambda>q. if rq_ref q \<in> rq_ref ` fst ` set (matched (br_requests st) ?os)
        then q\<lparr>rq_accepting := True\<rparr> else q) (br_requests st)"
      "\<forall>(i, a) \<in> set ts. ac_stage a = AwaitRunner"
    unfolding settleTasks_def e by blast
  show ?thesis
    by (rule exI [of _ ts], intro conjI, rule ts(1), rule ts(5))
      (simp add: ts(2-4) Let_def matched_by_type idle_left [OF refs])
qed

lemma offers_matched_in_order_witness:
  "\<exists>ts. br_acceptances (settleTasks string_of_nat 0 (broker_run string_of_nat one_offer (broker_for True [''q'']))) =
    br_acceptances (broker_run string_of_nat one_offer (broker_for True [''q''])) @ ts"
  using offers_matched_in_order [OF string_ids _ refl, where evs = one_offer and external = True and rqs = "[''q'']" and now = 0] by (auto simp: one_offer_asks)



text \<open>A requester that leaves gets no answer: its request is waited for no longer, and not answered.\<close>

lemma left_requester_not_told:
  "let st = broker_run string_of_nat [FromRequesterMsg 0 ''q'' (RequesterAsks ''js'' ''a''), RequesterLeaves ''q'', RequestTimer 0]
      (broker_for True [''q'']) in pending_with ''a'' st = 0 \<and> answers_to ''a'' st = 0"
  by code_simp

text \<open>C17. No request is stuck. A request that waits is idle, or exactly one runner is being asked about
  it; its timer runs, and when that fires the request has left the list.\<close>

theorem waiting_request_moves:
  assumes "inj nano" "distinct (all_asks evs)" "st = broker_run nano evs (broker_for external rqs)" "r \<in> set (br_requests st)"
  shows "length (filter (\<lambda>q. rq_ref q = rq_ref r) (asked_for st)) = (if rq_accepting r then 1 else 0) \<and>
    obj_get (br_timers st) (rq_timer r) = Some (rq_id r) \<and>
    rq_id r \<notin> rq_id ` set (br_requests (broker_step nano (RequestTimer (rq_timer r)) st))"
proof -
  have "broker_ok nano (all_asks evs) st" unfolding assms(3) by (rule reached_ok [OF assms(1,2)])
  then have o: "open_ok (all_asks evs) (br_requests st) (asked_for st) (br_timers st) (br_handles st)"
    by (simp add: broker_ok_def open_state_def)
  have timer: "obj_get (br_timers st) (rq_timer r) = Some (rq_id r)"
    using open_okD(7) [OF o assms(4)] open_okD(8) [OF o] by (simp add: map_of_eq_Some_iff)
  have "length (filter (\<lambda>q. rq_ref q = rq_ref r) (asked_for st)) = count_list (map rq_ref (asked_for st)) (rq_ref r)"
    by (simp add: count_list_eq_length_filter filter_map comp_def eq_commute)
  also have "\<dots> = (if rq_accepting r then 1 else 0)"
    using open_okD(5) [OF o] open_okD(6) [OF o assms(4)] by (simp add: count_distinct)
  finally have n: "length (filter (\<lambda>q. rq_ref q = rq_ref r) (asked_for st)) = (if rq_accepting r then 1 else 0)" .
  have "find (\<lambda>q. rq_id q = rq_id r) (br_requests st) \<noteq> None" using assms(4) by (auto simp: find_None_iff)
  then have "br_requests (broker_step nano (RequestTimer (rq_timer r)) st) = remove_request (rq_id r) (br_requests st)"
    using timer by (auto simp: broker_step_def handleRequestTimeout_def clearTimer_def)
  moreover have "rq_id r \<notin> rq_id ` set (remove_request (rq_id r) (br_requests st))"
    by (auto dest: remove_request_id [OF open_ids [OF o assms(2)]])
  ultimately show ?thesis using n timer by simp
qed

lemma waiting_request_moves_witness:
  "length (filter (\<lambda>q. rq_ref q = 0) (asked_for (broker_run string_of_nat one_offer (broker_for True [''q''])))) = 1"
proof -
  let ?st = "broker_run string_of_nat one_offer (broker_for True [''q''])"
  have r: "br_requests ?st ! 0 \<in> set (br_requests ?st)" "rq_ref (br_requests ?st ! 0) = 0" "rq_accepting (br_requests ?st ! 0)"
    by code_simp+
  from waiting_request_moves [OF string_ids _ refl r(1)] r(2,3) show ?thesis by (simp add: one_offer_asks)
qed

text \<open>C33. A request that expires while a runner decides leaves a task behind. When the runner accepts
  after that, the task is created, but its requester is not told and no timer runs for it: whatever happens, until
  the runner gives up or leaves or somebody cancels the task, it is counted as active, and a drain waits for it.\<close>

theorem expired_request_leaves_task:
  assumes "inj nano" "distinct (all_asks (evs @ evs'))" "st = broker_run nano evs (broker_for external rqs)"
    and "obj_get (br_acceptances st) i = Some a" "ac_stage a = AwaitRunner" "ac_answer a = Accepted x"
    and "rq_id (ac_request a) \<notin> rq_id ` set (br_requests st)" "of_runner (ac_offer a) \<in> set (br_runners st)"
    and "i \<notin> set (br_taskTimers st)" "\<forall>ev \<in> set evs'. \<not> ends_task i (of_runner (ac_offer a)) ev"
    and "st' = broker_run nano evs' (broker_step nano (GoesOn i) st)"
  shows "hasActiveTasks st' \<and> obj_get (br_tasks st') i \<noteq> None \<and> i \<notin> set (br_taskTimers st') \<and>
    br_toRequesters (broker_step nano (GoesOn i) st) = br_toRequesters st"
proof -
  have d: "distinct (all_asks evs @ all_asks evs')" using assms(2) by (simp add: all_asks_def)
  have ok: "broker_ok nano (all_asks evs) st" unfolding assms(3) using reached_ok [OF assms(1)] d by simp
  have step: "broker_step nano (GoesOn i) st = drop_acceptance i ((clearTimer (rq_timer (ac_request a)) st)\<lparr>br_tasks := obj_set i
      \<lparr>bt_runner = of_runner (ac_offer a), bt_requester = rq_requester (ac_request a), bt_type = of_type (ac_offer a)\<rparr> (br_tasks st)\<rparr>)"
    using assms(4-7) by (simp add: broker_step_def continue_accept_def runner_accepted_def Let_def clearTimer_def)
  have o: "orphan i (of_runner (ac_offer a)) (broker_step nano (GoesOn i) st)"
    unfolding step using assms(8,9) by (simp add: orphan_def drop_acceptance_def clearTimer_def)
  have "broker_ok nano (all_asks evs) (broker_step nano (GoesOn i) st)"
    using ok_step [OF assms(1) ok, of "GoesOn i"] d by (simp add: asks_def)
  from orphan_run [OF assms(1) this d o assms(10)] have "orphan i (of_runner (ac_offer a)) st'" unfolding assms(11) .
  then show ?thesis unfolding step by (auto simp: orphan_def hasActiveTasks_def drop_acceptance_def clearTimer_def)
qed

definition late_accept :: "broker_event list" where
  "late_accept = one_offer @ [RequestTimer 0, FromRunnerMsg 0 ''r'' (RunnerAccepts ''0'')]"

lemma expired_request_leaves_task_witness:
  "hasActiveTasks (broker_run string_of_nat [Drain, AcceptTimer ''0'']
     (broker_step string_of_nat (GoesOn ''0'') (broker_run string_of_nat late_accept (broker_for True [''q'']))))"
proof -
  let ?st = "broker_run string_of_nat late_accept (broker_for True [''q''])"
  let ?a = "the (obj_get (br_acceptances ?st) ''0'')"
  have a: "obj_get (br_acceptances ?st) ''0'' = Some ?a" "ac_stage ?a = AwaitRunner" "ac_answer ?a = Accepted JNull"
    "rq_id (ac_request ?a) \<notin> rq_id ` set (br_requests ?st)" "of_runner (ac_offer ?a) \<in> set (br_runners ?st)"
    "''0'' \<notin> set (br_taskTimers ?st)"
    by code_simp+
  have "distinct (all_asks (late_accept @ [Drain, AcceptTimer ''0'']))" by code_simp
  from expired_request_leaves_task [OF string_ids this refl a _ refl] show ?thesis by (simp add: ends_task_def)
qed

text \<open>A runner that leaves while it is being asked is not noticed: nobody who waits for its answer
  is told, so that the request is offered to no other runner before the timer of two seconds. (The rejection in
  \<^verbatim>\<open>deregisterRunner\<close> concerns tasks, and a task has no answer to wait for any more.)\<close>

lemma leaving_runner_not_noticed:
  assumes "inj nano" "distinct (all_asks evs)"
  shows "br_acceptances (deregisterRunner i e (broker_run nano evs (broker_for external rqs))) =
      br_acceptances (broker_run nano evs (broker_for external rqs))"
proof -
  have "tasks_only (broker_run nano evs (broker_for external rqs)) (deregisterRunner i e (broker_run nano evs (broker_for external rqs)))"
    using reached_ok [OF assms] by (intro quiet_leave [where nano = nano]) (simp_all add: broker_ok_def)
  then show ?thesis by (simp add: tasks_only_def requests_of_def)
qed

text \<open>After a rejection nothing is matched: a request and an offer of its type may both be left waiting.\<close>

definition after_rejection :: "broker_event list" where
  "after_rejection = one_offer @ [RequestTimer 1, FromRunnerMsg 0 ''r'' (RunnerOffers ''js'' ''p'' 5000),
     FromRunnerMsg 0 ''r'' (RunnerRejects ''0'' ''busy''), GoesOn ''0'']"

lemma rejected_request_stranded:
  "map rq_id (idle_of ''js'' (br_requests (broker_run string_of_nat after_rejection (broker_for True [''q''])))) = [''a'']"
  "map of_id (of_types ''js'' (br_offers (broker_run string_of_nat after_rejection (broker_for True [''q''])))) = [''p'']"
  by code_simp+

end
