(* ===== verification/Spec2Isabelle.thy ===== *)
theory Spec2Isabelle
  imports Connections Graph_Utils Graph_Search Partial_Graphs Stack_Facts Workflow_Facts Permission_Facts Partial_Run Parameter_Facts Webhook_Facts Concurrency_Facts Request_Facts Diff_Facts Leader_Facts From_Ai_Facts Active_Facts Broker_Facts
begin

text \<open>
  \<^bold>\<open>Verification of the workflow core of n8n.\<close>

  \<^bold>\<open>The program.\<close> n8n runs workflows: nodes joined by typed connections. A workflow is the
  class \<^verbatim>\<open>Workflow\<close> (\<^verbatim>\<open>packages/workflow\<close>); the execution engine
  (\<^verbatim>\<open>packages/core/src/execution-engine\<close>) takes nodes from a stack, runs each one,
  records the run and puts the nodes it leads to on the stack, or into a table of waiting nodes
  when they have several inputs. A partial execution starts from the run data of an earlier
  one: it turns the workflow into a \<^verbatim>\<open>DirectedGraph\<close>, cuts out the part between a
  trigger and the destination, finds the nodes to start at, drops run data that is out of date
  and rebuilds stack and waiting tables, on which the same engine loop then works. Who may
  do what is decided by the scopes of \<^verbatim>\<open>packages/@n8n/permissions\<close>.

  \<^bold>\<open>Conventions.\<close> An exception is the value \<open>Inl\<close> of a sum; a loop over a list whose
  body may throw is \<open>foldE\<close>. Objects and maps are association lists in insertion order,
  sets are lists without duplicates, an array with holes is a list of \<open>slot\<close>s (undefined, null
  or a value). A definition keeps the name of the function it models; a loop body or a block of
  a long method has a name of its own. Theories whose names end in \<open>_Facts\<close>, and
  \<open>Graph_Search\<close>, \<open>Partial_Graphs\<close>, \<open>Engine_Invariants\<close>, \<open>Engine_Termination\<close> and
  \<open>Partial_Run\<close>, hold properties; the properties are numbered in the order of their
  importance.

  \<^bold>\<open>The theories.\<close>

  \<^item> \<open>N8n_Prelude\<close>: errors as sums, objects, sets, arrays, the stable sort, number keys. Two
    locales: \<open>js_object\<close> (reading after writing and deleting), interpreted on the association
    lists, and \<open>marking_search\<close> (a recursive search that marks what it has seen, with fuel),
    whose clients are the recursive methods of the graph.
  \<^item> \<open>N8n_Types\<close>: connections, nodes, items, run data and the entries of the stack, from
    \<^verbatim>\<open>packages/workflow/src/interfaces.ts\<close>.
  \<^item> \<open>Connections\<close>: \<^verbatim>\<open>packages/workflow/src/common\<close>. The inversion of the
    connection table has exactly the connections of the table (lemma \<open>mapConnectionsByDestination_inverse\<close>) and is undone by a second
    inversion up to the order in a cell (lemma \<open>mapConnectionsByDestination_involution\<close>); \<^verbatim>\<open>getChildNodes\<close> finds the reachable
    nodes (lemma \<open>getChildNodes_reachable\<close>) and \<^verbatim>\<open>getParentNodes\<close> is its dual (lemma \<open>parents_children_dual\<close>).
  \<^item> \<open>Graph_Utils\<close>: \<^verbatim>\<open>packages/workflow/src/graph/graph-utils.ts\<close>. Path search
    (lemma \<open>hasPath_iff\<close>) and what a selection that can be extracted satisfies (lemma \<open>extractable_accepts\<close>).
  \<^item> \<open>Directed_Graph\<close> and \<open>Graph_Search\<close>:
    \<^verbatim>\<open>partial-execution-utils/directed-graph.ts\<close>. The state is the record \<open>graph\<close> (nodes by
    name, connections by key); \<open>g_wf\<close> is its invariant, kept by every operation. Children and
    parents are reachability (C1, lemma \<open>getParentConnections_upstream\<close>), removal with reconnection (lemma \<open>removeNode_reconnects\<close>), depth-first search
    (lemma \<open>depthFirstSearch_spec\<close>), strongly connected components (lemma \<open>components_sound\<close>; lemma \<open>components_incomplete\<close> shows that some are missed), the export (lemma \<open>toIConnections_export\<close>).
  \<^item> \<open>Partial_Execution\<close> and \<open>Partial_Graphs\<close>: \<^verbatim>\<open>get-incoming-data.ts\<close>,
    \<^verbatim>\<open>run-data-utils.ts\<close>, \<^verbatim>\<open>filter-disabled-nodes.ts\<close>,
    \<^verbatim>\<open>find-subgraph.ts\<close>, \<^verbatim>\<open>find-start-nodes.ts\<close>,
    \<^verbatim>\<open>handle-cycles.ts\<close> and \<^verbatim>\<open>clean-run-data.ts\<close> of the same directory,
    each with the property that says what it computes (lemma \<open>filterDisabledNodes_paths\<close>, C31, C18, lemma \<open>handleCycles_spec\<close>, lemma \<open>cleanRunData_spec\<close>).
  \<^item> \<open>Execution_Stack\<close> and \<open>Stack_Facts\<close>: \<^verbatim>\<open>get-source-data-groups.ts\<close> (lemma \<open>getSourceDataGroups_spec\<close>),
    \<^verbatim>\<open>recreate-node-execution-stack.ts\<close> (C25),
    \<^verbatim>\<open>find-trigger-for-partial-execution.ts\<close> and \<^verbatim>\<open>rewire-graph.ts\<close>.
  \<^item> \<open>Workflow_Class\<close>, \<open>Workflow_Walks\<close> and \<open>Workflow_Facts\<close>:
    \<^verbatim>\<open>packages/workflow/src/workflow.ts\<close>: the tables, renaming (C40), the breadth-first search
    (lemma \<open>searchNodesBFS_distances\<close>), the search for a parent (lemma \<open>getNodeConnectionIndexes_finds\<close>), static data, the start node.
  \<^item> \<open>Permissions\<close> and \<open>Permission_Facts\<close>: \<^verbatim>\<open>packages/@n8n/permissions/src\<close> and
    \<^verbatim>\<open>packages/cli/src/services/public-api-key.service.ts\<close>: which scopes are
    granted (lemma \<open>hasScope_granted\<close>), the hierarchy of the built-in roles (lemma \<open>role_hierarchy\<close>), the scopes of an API key after its
    user is demoted (C39, lemma \<open>removeOwnerOnly_effect\<close>).
  \<^item> \<open>Engine_Data\<close> and \<open>Engine_Data_Facts\<close>: the methods of
    \<^verbatim>\<open>workflow-execute.ts\<close> on the data of one node: its input, the pairing of its items
    (lemma \<open>assignPairedItems_pairs\<close>), its error output (C38).
  \<^item> \<open>Engine_Queue\<close> and \<open>Engine_Queue_Facts\<close>: the record \<open>engine_queue\<close> stands for
    \<^verbatim>\<open>nodeExecutionStack\<close>, \<^verbatim>\<open>waitingExecution\<close> and
    \<^verbatim>\<open>waitingExecutionSource\<close>. The operations are
    \<^verbatim>\<open>addNodeToBeExecuted\<close> with both execution orders (lemma \<open>addNodeToBeExecuted_v1\<close>, and lemma \<open>waiting_entry_overwritten\<close>: an entry that is
    overwritten), \<^verbatim>\<open>ensureInputData\<close> and the choice of a waiting node (lemma \<open>pick_waiting_spec\<close>).
  \<^item> \<open>Engine_Loop\<close> and \<open>Engine_Run\<close>: the record \<open>engine\<close> is the state of
    \<^verbatim>\<open>processRunExecutionData\<close>; \<open>engine_turn\<close> is one pass of its loop, from the check of the
    timeout to the children of the node; \<open>engine_loop\<close> is the loop, \<open>process_result\<close> what follows it.
    \<open>run\<close> and \<open>runPartialWorkflow2\<close> start it. \<open>engine_step\<close> is the same loop as a step relation.
  \<^item> \<open>Engine_Invariants\<close>: the locale \<open>loop_invariant\<close> proves once that what every turn keeps holds
    in every reached state and at the end; it is interpreted for the tables and the execution
    indices (C22) and for the nodes of the filter. The loop and the step relation agree (C37).
  \<^item> \<open>Engine_Termination\<close>: in the order v1 the execution of an acyclic workflow ends (C10).
  \<^item> \<open>Engine_Facts\<close>: tries of a node (lemma \<open>tries_bounded\<close>), a node that fails (C11), the order of children (lemma \<open>children_top_left_first\<close>),
    and examples of whole executions.
  \<^item> \<open>Partial_Run\<close>: the composition. The steps of a partial run succeed and what they leave (C4); when
    the loop stops, only nodes of the sub-graph have run data (C6).

  \<^item> \<open>Engine_Requests\<close> and \<open>Request_Facts\<close>: \<^verbatim>\<open>requests-response.ts\<close> and
    \<^verbatim>\<open>WorkflowExecute.handleEngineRequest\<close>: a node (an agent) asks for other nodes (its tools) and
    for itself again. The requested nodes run first (C8), except in the legacy order
    (lemma \<open>legacy_resumes_first\<close>), and what was asked for is read back from the metadata (lemma \<open>responses_read_back\<close>);
    from its second run on the requesting node loses its source (lemma \<open>later_runs_lose_source\<close>).
  \<^item> \<open>Workflow_Diff\<close> and \<open>Diff_Facts\<close>: \<^verbatim>\<open>workflow-diff.ts\<close> and
    \<^verbatim>\<open>connections-diff.ts\<close>, with which the server compares versions and compacts histories. The comparison
    of connections is exact (lemma \<open>compareConnections_spec\<close>), the test on strings is the subsequence relation
    (lemma \<open>stringContainsParts_subseq\<close>), the loop over a history is the recursion \<open>compact\<close>
    (C36), and compacting with the additive rule loses nothing (C15).
  \<^item> \<open>Node_Parameters\<close>, \<open>Parameter_Order\<close> and \<open>Parameter_Facts\<close>:
    \<^verbatim>\<open>node-helpers.ts\<close> of \<^verbatim>\<open>packages/workflow/src\<close>: display conditions, the order of
    resolution and \<^verbatim>\<open>getNodeParameters\<close>. The record \<open>resolve_state\<close> has the variables of
    the resolution loop, \<open>parameter_state\<close> the two objects under construction. The resolution returns
    (C20) or throws (lemma \<open>missing_dependency_throws\<close>), the whole call does too
    (C23); hidden parameters stay out (C9), with one
    exception (lemma \<open>empty_collection_keeps_everything\<close>), and leaving the defaults out loses nothing
    (C19). A default that is an entry of a fixed collection makes it throw
    (lemma \<open>default_entry_throws\<close>).
  \<^item> \<open>Webhooks\<close> and \<open>Webhook_Facts\<close>: \<^verbatim>\<open>webhook.service.ts\<close>,
    \<^verbatim>\<open>webhook-entity.ts\<close>, \<^verbatim>\<open>live-webhooks.ts\<close> and
    \<^verbatim>\<open>ActiveWorkflowManager.addWebhooks\<close>. The record \<open>webhook_store\<close> is the table with its cache
    and the cache writes on their way, \<open>webhook_step\<close> what may happen to it. The cache answers what the table
    answers (C24, through the locale \<open>answering_store\<close>) unless a lookup and a removal
    overlap (lemma \<open>lookup_race_serves_deleted\<close>) or a path has a colon (lemma \<open>colon_path_survives_deletion\<close>). The row that a
    request reaches (lemma \<open>findDynamicWebhook_spec\<close>, lemma \<open>dynamic_match_ignores_order\<close>), its parameters
    (C26), and a registration that takes the place of another one
    (C32).
  \<^item> \<open>Concurrency\<close> and \<open>Concurrency_Facts\<close>:
    \<^verbatim>\<open>packages/cli/src/concurrency\<close>. The record \<open>concurrency_queue\<close> is
    \<^verbatim>\<open>ConcurrencyQueue\<close>, \<open>control\<close> the service and \<open>reservation\<close> what an active execution holds;
    \<open>admission_step\<close> puts the queue together with the executions that start, finish or are stopped. The locale
    \<open>admission_queue\<close> has the laws of the queue and the account of its capacity. The capacity is accounted
    for (C13), the queue is fair (C27); stopping (lemma \<open>stops_exceed_limit\<close>) and
    emptying the queue (lemma \<open>removeAll_lets_go\<close>) let executions go beyond the limit.
  \<^item> \<open>From_Ai\<close> and \<open>From_Ai_Facts\<close>: \<^verbatim>\<open>from-ai-parse-utils.ts\<close>,
    \<^verbatim>\<open>getSchema\<close> of \<^verbatim>\<open>create-node-as-tool.ts\<close> and the editor's
    \<^verbatim>\<open>fromAIOverride.utils.ts\<close>: the placeholders an agent fills in. The record \<open>split_state\<close> has the
    variables of the loop that splits arguments; the other scans are recursions over the rest of the text. What the
    editor writes reaches the tool (C3) and is read back by the editor (lemma \<open>editor_reads_back\<close>); the
    check of chat tools lets only literals through (C5) and accepts what the editor
    writes with one exception (C35); a tool gets the last call of each key (C28),
    with one of four types (C34). Where reading goes wrong: lemma \<open>quoted_call_is_read\<close>,
    lemma \<open>unescaped_twice\<close>, lemma \<open>type_in_capitals\<close>, lemma \<open>three_quotes_lost\<close>.
  \<^item> \<open>Leader_Election\<close> and \<open>Leader_Facts\<close>:
    \<^verbatim>\<open>packages/cli/src/scaling/multi-main-setup-v2.ts\<close> with its client and the earlier strategy. The
    record \<open>main_instance\<close> is one main process, \<open>election\<close> all of them and the server; \<open>election_step\<close> sends a
    command, executes it, loses or delivers its answer, shuts a main down or lets time pass. The assertions of the
    code hold (C30), leases exclude each other (C12) unless a main that shuts down
    deletes the key of another (lemma \<open>shutdown_evicts_successor\<close>), checks end with one leader
    (C16) and decide as the earlier strategy does (lemma \<open>legacy_check_agrees\<close>).

  \<^item> \<open>Active_Executions\<close> and \<open>Active_Facts\<close>: \<^verbatim>\<open>packages/cli/src/active-executions.ts\<close>
    and \<^verbatim>\<open>ExecutionService.stopInRegularMode\<close>, on top of \<open>Concurrency\<close>. The record
    \<open>registry\<close> is \<^verbatim>\<open>ActiveExecutions\<close> with the service and the calls of \<^verbatim>\<open>add\<close>
    that are on their way; \<open>registry_step\<close> is one call, one answer of the database or one clean-up. Registry and
    service agree in every order of calls (C14), a stop at the wrong time loses capacity
    (C21), and a shutdown that cancels everything ends (C29).
  \<^item> \<open>Task_Broker\<close> and \<open>Broker_Facts\<close>:
    \<^verbatim>\<open>packages/cli/src/task-runners/task-broker/task-broker.service.ts\<close> with the messages of
    \<^verbatim>\<open>@n8n/task-runner\<close>. The record \<open>broker\<close> is \<^verbatim>\<open>TaskBroker\<close>, an \<open>acceptance\<close> a call of
    \<^verbatim>\<open>acceptOffer\<close> that waits for a promise, \<open>broker_step\<close> one message, timer or continuation. Offers are
    matched in order (C7), a request is answered once (C2) and is not
    stuck (C17), but one that expires too late leaves a task behind
    (C33), a runner that leaves is not noticed (lemma \<open>leaving_runner_not_noticed\<close>), and after a
    rejection nothing is matched (lemma \<open>rejected_request_stranded\<close>).

  \<^bold>\<open>Bounds and fuel.\<close> The recursive methods of the graph that mark nodes get as fuel one more
  than the number of nodes (children, start nodes, sub-graph, depth-first search, components) or of
  connections; each call marks a node or lengthens a branch without repetition, so the error
  \<open>OutOfFuel\<close> never appears in a well-formed graph, which the properties state. The walks of
  \<open>Workflow_Walks\<close> and the two search loops over connection tables work in the same way. A node is tried at
  most five times. The nested calls of \<^verbatim>\<open>getNodeParameters\<close> get as fuel one more than the
  depth of the properties, which C23 shows to be enough; the resolution loop is a
  total function, by a lexicographic measure. The engine loop itself may run forever (a cycle in the workflow), so it is a
  \<open>partial_function (option)\<close>: \<open>None\<close> means that it does not end.

  \<^bold>\<open>What is an argument.\<close> What nodes do (from the input and the number of the attempt to outputs
  or an error, and whether the execution is put to wait), the clock, the cancellation, the issues of
  parameters, the resolution of paired items, the access patterns of expressions,
  \<^verbatim>\<open>localeCompare\<close>, \<^verbatim>\<open>JSON.stringify\<close>, \<^verbatim>\<open>get\<close> and
  \<^verbatim>\<open>isEqual\<close> of lodash, regular expressions and the conversion of text to numbers. No law is assumed of any of them, except
  that the properties on sorting use a comparator as it is. The commands of Redis are arguments too; their
  documented behaviour is the hypothesis \<open>redis_laws\<close>. Of \<^verbatim>\<open>nanoid\<close> the properties of the task broker assume
  that it does not repeat itself.

  \<^bold>\<open>What is simplified.\<close> Objects are values: nodes are compared field by field where the code
  compares identity, which is the same when names are unique; items that outputs share are copied.
  When a step throws, the outputs are as before the step. Object keys that look like array
  indices stay in the order of insertion. Array lengths and numbers of runs are unbounded.

  \<^bold>\<open>Not modelled.\<close> Hooks, binary data and logging in the engine (calls out of the process). The nodes of the engine loop make
  no requests: the handling of requests is a component of its own. Expressions,
  which need a model of JavaScript. The issues of node parameters, which rest on
  the type validation with a date library and regular expressions.
  Triggers and schedules, the server, the database, the editor, the AI packages, the node library
  (several hundred integrations): I/O, or code whose work is done by a third-party library.
\<close>

end
